(* ===== verification/Prelude.thy ===== *)
theory Prelude
  imports Main "HOL-Library.Word"
begin

text \<open>
  Shared ground of the development: the error values of the TypeScript sources, the sum-typed
  results with their sequencing, JavaScript's safe integers, byte arrays with the reads and
  writes of \<open>Uint8Array\<close> and \<open>DataView\<close>, and the generic lemmas that the component theories
  have in common.

  A thrown error is the value \<open>Inl\<close> of a result; the message of the source is kept by its fixed
  text. JavaScript numbers that the code uses as counts, offsets and lengths are \<open>int\<close> (so that a
  negative argument can be refused, as the code does) and every test \<open>Number.isSafeInteger\<close>
  is \<open>is_safe_integer\<close>. A number after \<open>>>> 0\<close> is a \<open>32 word\<close>.
\<close>

unbundle bit_operations_syntax

type_synonym byte = "8 word"
type_synonym u32 = "32 word"
type_synonym u64 = "64 word"

datatype js_error = RangeError string | TypeError string | PlainError string | CorruptionError string

type_synonym 'a result = "js_error + 'a"

named_theorems result_simps "evaluation of sequenced results"
named_theorems bytes_simps "reads and writes of byte arrays"

subsection \<open>Results\<close>

definition bindR :: "'a result \<Rightarrow> ('a \<Rightarrow> 'b result) \<Rightarrow> 'b result" where
  "bindR m f = (case m of Inl e \<Rightarrow> Inl e | Inr x \<Rightarrow> f x)"

lemma bindR_simps [simp, result_simps]:
  "bindR (Inl e) f = Inl e"
  "bindR (Inr x) f = f x"
  by (simp_all add: bindR_def)

lemma bindR_eq_Inr [result_simps]: "bindR m f = Inr y \<longleftrightarrow> (\<exists>x. m = Inr x \<and> f x = Inr y)"
  by (cases m) auto

lemma bindR_eq_Inl [result_simps]: "bindR m f = Inl e \<longleftrightarrow> m = Inl e \<or> (\<exists>x. m = Inr x \<and> f x = Inl e)"
  by (cases m) auto

definition guardR :: "bool \<Rightarrow> js_error \<Rightarrow> unit result" where
  "guardR c e = (if c then Inr () else Inl e)"

lemma guardR_simps [simp, result_simps]:
  "guardR True e = Inr ()"
  "guardR False e = Inl e"
  by (simp_all add: guardR_def)

lemma guardR_iff [simp]: "guardR c e = Inr x \<longleftrightarrow> c" "guardR c e = Inl e' \<longleftrightarrow> \<not> c \<and> e = e'"
  by (auto simp: guardR_def)

text \<open>A \<open>for\<close> loop whose body may throw, over the values its index takes.\<close>

primrec for_each :: "'i list \<Rightarrow> ('i \<Rightarrow> 's \<Rightarrow> 's result) \<Rightarrow> 's \<Rightarrow> 's result" where
  "for_each [] f s = Inr s"
| "for_each (i # is) f s = bindR (f i s) (for_each is f)"

lemma for_each_append: "for_each (xs @ ys) f s = bindR (for_each xs f s) (for_each ys f)"
  by (induction xs arbitrary: s) (auto simp: bindR_def split: sum.splits)

lemma for_each_upt:
  assumes "\<And>i. i < n \<Longrightarrow> P i \<Longrightarrow> f i (h i) = Inr (h (Suc i))" "\<And>i. i < n \<Longrightarrow> \<not> P i \<Longrightarrow> \<exists>e. f i (h i) = Inl e"
  shows "(\<forall>i < n. P i) \<Longrightarrow> for_each [0..<n] f (h 0) = Inr (h n)"
    "for_each [0..<n] f (h 0) = Inr s \<Longrightarrow> (\<forall>i < n. P i) \<and> s = h n"
proof -
  show "(\<forall>i < n. P i) \<Longrightarrow> for_each [0..<n] f (h 0) = Inr (h n)"
    using assms(1) by (induction n) (auto simp: for_each_append)
  show "for_each [0..<n] f (h 0) = Inr s \<Longrightarrow> (\<forall>i < n. P i) \<and> s = h n"
    using assms
  proof (induction n arbitrary: s)
    case (Suc n)
    from Suc.prems(1) obtain s' where s': "for_each [0..<n] f (h 0) = Inr s'" "f n s' = Inr s"
      by (auto simp: for_each_append bindR_def split: sum.splits)
    with Suc.IH [OF s'(1)] Suc.prems(2,3) have "(\<forall>i < n. P i) \<and> s' = h n" by simp
    with s'(2) Suc.prems(2,3) [of n] show ?case by (cases "P n") (auto simp: less_Suc_eq)
  qed simp
qed

text \<open>Loop invariants: kept by every iteration that returns, or by every iteration and total.\<close>

lemma for_each_inv:
  assumes "for_each [0..<n] f s0 = Inr s" "I 0 s0" "\<And>i s s'. i < n \<Longrightarrow> I i s \<Longrightarrow> f i s = Inr s' \<Longrightarrow> I (Suc i) s'"
  shows "I n s"
  using assms
proof (induction n arbitrary: s)
  case (Suc n)
  from Suc.prems(1) obtain s' where s': "for_each [0..<n] f s0 = Inr s'" "f n s' = Inr s"
    by (auto simp: for_each_append bindR_def split: sum.splits)
  have "I n s'" by (rule Suc.IH [OF s'(1) Suc.prems(2)]) (use Suc.prems(3) less_SucI in blast)
  then show ?case using Suc.prems(3) s'(2) by blast
qed simp

lemma for_each_total:
  assumes "I 0 s0" "\<And>i s. i < n \<Longrightarrow> I i s \<Longrightarrow> \<exists>s'. f i s = Inr s' \<and> I (Suc i) s'"
  shows "\<exists>s. for_each [0..<n] f s0 = Inr s \<and> I n s"
  using assms
proof (induction n)
  case (Suc n)
  have "\<exists>s. for_each [0..<n] f s0 = Inr s \<and> I n s" by (rule Suc.IH [OF Suc.prems(1)]) (use Suc.prems(2) less_SucI in blast)
  then obtain s where s: "for_each [0..<n] f s0 = Inr s" "I n s" by blast
  then obtain s' where "f n s = Inr s'" "I (Suc n) s'" using Suc.prems(2) by blast
  then show ?case using s by (auto simp: for_each_append)
qed simp

subsection \<open>Effects\<close>

text \<open>
  A call that may change a state and then throw: the state it leaves is part of the outcome either
  way. \<open>catchE\<close> is a \<open>catch\<close> block, run in the state the throw left.
\<close>

type_synonym ('s, 'a) eff = "'s \<Rightarrow> 's \<times> 'a result"

definition retE :: "'a \<Rightarrow> ('s, 'a) eff" where
  "retE x s = (s, Inr x)"

definition throwE :: "js_error \<Rightarrow> ('s, 'a) eff" where
  "throwE e s = (s, Inl e)"

definition bindE :: "('s, 'a) eff \<Rightarrow> ('a \<Rightarrow> ('s, 'b) eff) \<Rightarrow> ('s, 'b) eff" where
  "bindE m f s = (case m s of (s', Inl e) \<Rightarrow> (s', Inl e) | (s', Inr x) \<Rightarrow> f x s')"

definition catchE :: "('s, 'a) eff \<Rightarrow> (js_error \<Rightarrow> ('s, 'a) eff) \<Rightarrow> ('s, 'a) eff" where
  "catchE m f s = (case m s of (s', Inl e) \<Rightarrow> f e s' | (s', Inr x) \<Rightarrow> (s', Inr x))"

lemma effE_simps [simp, result_simps]:
  "retE x s = (s, Inr x)" "throwE e s = (s, Inl e)"
  by (simp_all add: retE_def throwE_def)

lemma bindE_Inr [simp]: "m s = (s', Inr x) \<Longrightarrow> bindE m f s = f x s'"
  by (simp add: bindE_def)

lemma bindE_Inl [simp]: "m s = (s', Inl e) \<Longrightarrow> bindE m f s = (s', Inl e)"
  by (simp add: bindE_def)

lemma bindE_cases:
  assumes "bindE m f s = r"
  obtains (throws) s' e where "m s = (s', Inl e)" "r = (s', Inl e)"
    | (goes_on) s' x where "m s = (s', Inr x)" "r = f x s'"
  using assms by (auto simp: bindE_def split: prod.splits sum.splits)

subsection \<open>Safe integers\<close>

definition MAX_SAFE_INTEGER :: int where
  "MAX_SAFE_INTEGER = 9007199254740991"

definition is_safe_integer :: "int \<Rightarrow> bool" where
  "is_safe_integer n \<longleftrightarrow> - MAX_SAFE_INTEGER \<le> n \<and> n \<le> MAX_SAFE_INTEGER"

lemmas safe_int_defs = is_safe_integer_def MAX_SAFE_INTEGER_def

subsection \<open>Byte arrays\<close>

text \<open>\<open>bytes[i] ?? 0\<close>: a read past the end of a typed array is \<open>undefined\<close>.\<close>

definition at0 :: "'a::zero list \<Rightarrow> nat \<Rightarrow> 'a" where
  "at0 xs i = (if i < length xs then xs ! i else 0)"

lemma at0_Cons [simp, bytes_simps]: "at0 (x # xs) 0 = x" "at0 (x # xs) (Suc i) = at0 xs i"
  by (simp_all add: at0_def)

lemma at0_nth: "i < length xs \<Longrightarrow> at0 xs i = xs ! i"
  by (simp add: at0_def)

text \<open>\<open>bytes.subarray(a, b)\<close> and \<open>bytes.slice(a, b)\<close> with \<open>a \<le> b\<close>.\<close>

definition slice_of :: "'a list \<Rightarrow> nat \<Rightarrow> nat \<Rightarrow> 'a list" where
  "slice_of xs a b = take (b - a) (drop a xs)"

lemma length_slice_of [simp]: "length (slice_of xs a b) = min (b - a) (length xs - a)"
  by (simp add: slice_of_def min.commute)

lemma slice_of_append_left [bytes_simps]: "b \<le> length xs \<Longrightarrow> slice_of (xs @ ys) a b = slice_of xs a b"
  by (simp add: slice_of_def)

lemma slice_of_append_right [bytes_simps]:
  "length xs \<le> a \<Longrightarrow> slice_of (xs @ ys) a b = slice_of ys (a - length xs) (b - length xs)"
  by (cases "a \<le> b") (simp_all add: slice_of_def)

lemma slice_of_full [simp]: "slice_of xs 0 (length xs) = xs"
  by (simp add: slice_of_def)

lemma slice_of_middle: "slice_of (xs @ ys @ zs) (length xs) (length xs + length ys) = ys"
  by (simp add: slice_of_def)

text \<open>\<open>target.set(bytes, at)\<close> inside the bounds of the target.\<close>

definition set_at :: "'a list \<Rightarrow> nat \<Rightarrow> 'a list \<Rightarrow> 'a list" where
  "set_at target at src = take at target @ src @ drop (at + length src) target"

lemma length_set_at [simp]: "at + length src \<le> length target \<Longrightarrow> length (set_at target at src) = length target"
  by (simp add: set_at_def)

subsection \<open>Little-endian integers\<close>

text \<open>\<open>DataView.setUint16\<close>, \<open>setUint32\<close> and \<open>setBigUint64\<close> with \<open>littleEndian = true\<close>, as byte lists.\<close>

fun le_bytes :: "nat \<Rightarrow> nat \<Rightarrow> byte list" where
  "le_bytes 0 v = []"
| "le_bytes (Suc n) v = word_of_nat (v mod 256) # le_bytes n (v div 256)"

fun le_val :: "byte list \<Rightarrow> nat" where
  "le_val [] = 0"
| "le_val (b # bs) = unat b + 256 * le_val bs"

definition le32 :: "u32 \<Rightarrow> byte list" where "le32 w = le_bytes 4 (unat w)"

definition get_le :: "nat \<Rightarrow> byte list \<Rightarrow> nat \<Rightarrow> nat" where
  "get_le n bs at = le_val (slice_of bs at (at + n))"

definition get32 :: "byte list \<Rightarrow> nat \<Rightarrow> u32" where
  "get32 bs at = word_of_nat (get_le 4 bs at)"

lemma length_le_bytes [simp]: "length (le_bytes n v) = n"
  by (induction n arbitrary: v) auto

lemma length_le32 [simp]: "length (le32 w) = 4"
  by (simp add: le32_def)

lemma unat_byte_bound: "unat (b :: byte) < 256"
  using unsigned_less [of b, where 'a = nat] by simp

lemma unat_u32_bound: "unat (w :: u32) < 4294967296"
  using unsigned_less [of w, where 'a = nat] by simp

lemma le_val_le_bytes: "le_val (le_bytes n v) = v mod 256 ^ n"
proof (induction n arbitrary: v)
  case (Suc n)
  have "unat (word_of_nat (v mod 256) :: byte) = v mod 256"
    by (simp add: unat_of_nat)
  with Suc show ?case
    by (simp add: mod_mult2_eq)
qed simp

lemma le_val_bound: "le_val bs < 256 ^ length bs"
proof (induction bs)
  case (Cons b bs)
  have add: "a < 256 \<Longrightarrow> 256 * (v + 1) \<le> p \<Longrightarrow> a + 256 * v < p" for a v p :: nat by simp
  have "le_val bs + 1 \<le> 256 ^ length bs" using Cons by simp
  then have "256 * (le_val bs + 1) \<le> 256 * 256 ^ length bs" by (rule mult_le_mono2)
  then have "unat b + 256 * le_val bs < 256 * 256 ^ length bs" by (rule add [OF unat_byte_bound])
  then show ?case by simp
qed simp

lemma le_bytes_le_val: "le_bytes (length bs) (le_val bs) = bs"
proof (induction bs)
  case (Cons b bs)
  have "unat b < 256" by (rule unat_byte_bound)
  with Cons show ?case by (simp add: unat_of_nat)
qed simp

lemma get_le_at:
  "length xs = at \<Longrightarrow> get_le n (xs @ le_bytes n v @ zs) at = v mod 256 ^ n"
  using slice_of_middle[of xs "le_bytes n v" zs] by (simp add: get_le_def le_val_le_bytes)

lemma get32_at: "length xs = at \<Longrightarrow> get32 (xs @ le32 w @ zs) at = w"
proof -
  assume "length xs = at"
  then have "get32 (xs @ le32 w @ zs) at = word_of_nat (unat w mod 256 ^ 4)"
    unfolding get32_def le32_def by (simp add: get_le_at)
  also have "\<dots> = w" by (simp add: mod_less [OF unat_u32_bound])
  finally show ?thesis .
qed

text \<open>Field by field reads of a concatenation: skip what lies before, read what is here.\<close>

lemma get_le_skip [bytes_simps]: "length xs \<le> at \<Longrightarrow> get_le n (xs @ ys) at = get_le n ys (at - length xs)"
  by (simp add: get_le_def slice_of_append_right)

lemma get_le_here [bytes_simps]: "get_le n (le_bytes n v @ ys) 0 = v mod 256 ^ n" "get_le n (le_bytes n v) 0 = v mod 256 ^ n"
  using get_le_at [of "[]" 0 n v ys] get_le_at [of "[]" 0 n v "[]"] by simp_all

lemma get32_skip [bytes_simps]: "length xs \<le> at \<Longrightarrow> get32 (xs @ ys) at = get32 ys (at - length xs)"
  by (simp add: get32_def get_le_skip)

lemma get32_here [bytes_simps]: "get32 (le32 w @ ys) 0 = w" "get32 (le32 w) 0 = w"
  using get32_at [of "[]" 0 w ys] get32_at [of "[]" 0 w "[]"] by simp_all

lemma get32_le_bytes [bytes_simps]: "get32 (le_bytes 4 n @ ys) 0 = word_of_nat n" "get32 (le_bytes 4 n) 0 = word_of_nat n"
proof -
  have "(word_of_nat (n mod 256 ^ 4) :: u32) = word_of_nat n"
    by (rule word_unat_eq_iff [THEN iffD2]) (simp add: unat_of_nat)
  then show "get32 (le_bytes 4 n @ ys) 0 = word_of_nat n" "get32 (le_bytes 4 n) 0 = word_of_nat n"
    by (simp_all add: get32_def get_le_here)
qed

lemma at0_skip [bytes_simps]: "length xs \<le> i \<Longrightarrow> at0 (xs @ ys) i = at0 ys (i - length xs)"
  by (auto simp: at0_def nth_append)

lemma at0_append_left [bytes_simps]: "i < length xs \<Longrightarrow> at0 (xs @ ys) i = at0 xs i"
  by (auto simp: at0_def nth_append)

lemma Cons_skip [bytes_simps]:
  "0 < at \<Longrightarrow> get_le n (x # xs) at = get_le n xs (at - 1)"
  "0 < at \<Longrightarrow> get32 (x # xs) at = get32 xs (at - 1)"
  "0 < at \<Longrightarrow> at0 (x # ys) at = at0 ys (at - 1)"
  using get_le_skip [of "[x]" at n xs] get32_skip [of "[x]" at xs] at0_skip [of "[x]" at ys] by (simp_all add: Suc_le_eq)

subsection \<open>Blocks of equal length\<close>

lemma length_concat_blocks: "(\<And>x. x \<in> set xs \<Longrightarrow> length (f x) = k) \<Longrightarrow> length (concat (map f xs)) = k * length xs"
  by (induction xs) simp_all

lemma slice_block:
  "(\<And>x. x \<in> set xs \<Longrightarrow> length (f x) = k) \<Longrightarrow> i < length xs \<Longrightarrow>
    slice_of (concat (map f xs) @ ys) (k * i) (k * i + k) = f (xs ! i)"
proof (induction xs arbitrary: i)
  case (Cons x xs)
  then show ?case
  proof (cases i)
    case 0
    then show ?thesis using Cons.prems by (simp add: slice_of_def)
  next
    case (Suc j)
    then have "slice_of (f x @ concat (map f xs) @ ys) (k * i) (k * i + k)
        = slice_of (concat (map f xs) @ ys) (k * j) (k * j + k)"
      using Cons.prems(1) [of x] by (subst slice_of_append_right) (simp_all add: add.commute)
    then show ?thesis using Cons Suc by simp
  qed
qed simp

lemma concat_slices:
  "k * n \<le> length bs \<Longrightarrow> concat (map (\<lambda>i. slice_of bs (k * i) (k * i + k)) [0..<n]) = take (k * n) bs"
  by (induction n) (simp_all add: slice_of_def take_add [symmetric] add.commute)

lemma slice_append: "a \<le> b \<Longrightarrow> b \<le> c \<Longrightarrow> slice_of bs a b @ slice_of bs b c = slice_of bs a c"
proof -
  assume "a \<le> b" "b \<le> c"
  then obtain x y where "b = a + x" "c = a + x + y" using le_Suc_ex by metis
  then show ?thesis by (simp add: slice_of_def take_add add.commute)
qed

lemma concat_ranges:
  "(\<And>i. i < n \<Longrightarrow> off i \<le> off (Suc i)) \<Longrightarrow>
    concat (map (\<lambda>i. slice_of bs (off i) (off (Suc i))) [0..<n]) = slice_of bs (off 0) (off n)"
proof (induction n)
  case (Suc n)
  have "off 0 \<le> off n" using Suc.prems by (induction n) (auto intro: le_trans)
  moreover have "off n \<le> off (Suc n)" using Suc.prems by simp
  ultimately have "slice_of bs (off 0) (off n) @ slice_of bs (off n) (off (Suc n)) = slice_of bs (off 0) (off (Suc n))"
    by (rule slice_append)
  then show ?case using Suc by simp
qed (simp add: slice_of_def)

lemma slice_le_bytes: "at + n \<le> length bs \<Longrightarrow> le_bytes n (get_le n bs at) = slice_of bs at (at + n)"
  using le_bytes_le_val [of "slice_of bs at (at + n)"] by (simp add: get_le_def)

end
