(* ===== verification/Unicode.thy ===== *)
theory Unicode
  imports Prelude
begin

text \<open>
  \<open>block-format/unicode.ts\<close>, and the UTF-8 check of \<open>block-format/physical.ts\<close>. A JavaScript string
  is its list of UTF-16 code units. \<open>TextEncoder\<close> and the fatal \<open>TextDecoder\<close> are the standard's:
  an unpaired surrogate encodes as U+FFFD, and decoding strips one leading byte order mark unless
  \<open>ignoreBOM\<close> is set.
\<close>

type_synonym js_string = "16 word list"

definition high_surrogate :: "16 word \<Rightarrow> bool" where
  "high_surrogate c \<longleftrightarrow> 0xd800 \<le> unat c \<and> unat c \<le> 0xdbff"

definition low_surrogate :: "16 word \<Rightarrow> bool" where
  "low_surrogate c \<longleftrightarrow> 0xdc00 \<le> unat c \<and> unat c \<le> 0xdfff"

subsection \<open>The standard's encoder and decoder\<close>

fun code_points :: "js_string \<Rightarrow> nat list" where
  "code_points [] = []"
| "code_points (c # rest) =
     (if high_surrogate c then
        (case rest of
           d # rest' \<Rightarrow>
             if low_surrogate d
             then (65536 + (unat c - 0xd800) * 1024 + (unat d - 0xdc00)) # code_points rest'
             else 0xfffd # code_points rest
         | [] \<Rightarrow> [0xfffd])
      else if low_surrogate c then 0xfffd # code_points rest
      else unat c # code_points rest)"

definition u8 :: "nat \<Rightarrow> byte" where "u8 n = word_of_nat n"
definition u16 :: "nat \<Rightarrow> 16 word" where "u16 n = word_of_nat n"

definition utf8_char :: "nat \<Rightarrow> byte list" where
  "utf8_char p =
     (if p \<le> 0x7f then [u8 p]
      else if p \<le> 0x7ff then [u8 (0xc0 + p div 64), u8 (0x80 + p mod 64)]
      else if p \<le> 0xffff then
        [u8 (0xe0 + p div 4096), u8 (0x80 + p div 64 mod 64), u8 (0x80 + p mod 64)]
      else [u8 (0xf0 + p div 262144), u8 (0x80 + p div 4096 mod 64),
            u8 (0x80 + p div 64 mod 64), u8 (0x80 + p mod 64)])"

definition utf8_encode :: "js_string \<Rightarrow> byte list" where
  "utf8_encode s = concat (map utf8_char (code_points s))"

definition cont_byte :: "byte \<Rightarrow> bool" where
  "cont_byte b \<longleftrightarrow> 0x80 \<le> unat b \<and> unat b \<le> 0xbf"

definition low6 :: "byte \<Rightarrow> nat" where "low6 b = unat b - 0x80"

definition second_ok :: "nat \<Rightarrow> byte \<Rightarrow> bool" where
  "second_ok first b \<longleftrightarrow> cont_byte b \<and> \<not> (first = 0xe0 \<and> unat b < 0xa0) \<and> \<not> (first = 0xed \<and> 0x9f < unat b)
     \<and> \<not> (first = 0xf0 \<and> unat b < 0x90) \<and> \<not> (first = 0xf4 \<and> 0x8f < unat b)"

fun decode_points :: "byte list \<Rightarrow> nat list option" where
  "decode_points [] = Some []"
| "decode_points (b # bs) =
     (let n = unat b in
      if n \<le> 0x7f then map_option ((#) n) (decode_points bs)
      else if 0xc2 \<le> n \<and> n \<le> 0xdf then
        (case bs of
           b1 # r \<Rightarrow> if cont_byte b1 then map_option ((#) ((n - 0xc0) * 64 + low6 b1)) (decode_points r) else None
         | _ \<Rightarrow> None)
      else if 0xe0 \<le> n \<and> n \<le> 0xef then
        (case bs of
           b1 # b2 # r \<Rightarrow>
             if second_ok n b1 \<and> cont_byte b2
             then map_option ((#) ((n - 0xe0) * 4096 + low6 b1 * 64 + low6 b2)) (decode_points r) else None
         | _ \<Rightarrow> None)
      else if 0xf0 \<le> n \<and> n \<le> 0xf4 then
        (case bs of
           b1 # b2 # b3 # r \<Rightarrow>
             if second_ok n b1 \<and> cont_byte b2 \<and> cont_byte b3
             then map_option ((#) ((n - 0xf0) * 262144 + low6 b1 * 4096 + low6 b2 * 64 + low6 b3)) (decode_points r)
             else None
         | _ \<Rightarrow> None)
      else None)"

definition utf16 :: "nat \<Rightarrow> js_string" where
  "utf16 p = (if p \<le> 0xffff then [u16 p]
     else [u16 (0xd800 + (p - 65536) div 1024), u16 (0xdc00 + (p - 65536) mod 1024)])"

definition BOM :: "byte list" where "BOM = [0xef, 0xbb, 0xbf]"

definition utf8_decode :: "bool \<Rightarrow> byte list \<Rightarrow> js_string option" where
  "utf8_decode ignore_bom bytes =
     map_option (\<lambda>ps. concat (map utf16 ps))
       (decode_points (if \<not> ignore_bom \<and> take 3 bytes = BOM then drop 3 bytes else bytes))"

subsection \<open>The checks of the source\<close>

text \<open>The loop of \<open>measureWellFormedUtf8\<close> from an index; the second unit of a pair is skipped.\<close>

fun measure_loop :: "js_string \<Rightarrow> nat \<Rightarrow> nat result" where
  "measure_loop [] acc = Inr acc"
| "measure_loop (c # rest) acc =
     (let code = unat c in
      if code \<le> 0x7f then measure_loop rest (acc + 1)
      else if code \<le> 0x7ff then measure_loop rest (acc + 2)
      else if 0xd800 \<le> code \<and> code \<le> 0xdbff then
        let low = (case rest of [] \<Rightarrow> 0 | d # _ \<Rightarrow> unat d) in
        if low < 0xdc00 \<or> 0xdfff < low then Inl (TypeError ''unpaired surrogate'')
        else measure_loop (tl rest) (acc + 4)
      else if 0xdc00 \<le> code \<and> code \<le> 0xdfff then Inl (TypeError ''unpaired surrogate'')
      else measure_loop rest (acc + 3))"

definition well_formed_utf8_byte_length :: "js_string \<Rightarrow> nat result" where
  "well_formed_utf8_byte_length value = measure_loop value 0"

definition assert_well_formed_string :: "js_string \<Rightarrow> unit result" where
  "assert_well_formed_string value =
     (if \<not> list_ex (\<lambda>c. 0xd800 \<le> unat c \<and> unat c \<le> 0xdfff) value then Inr ()
      else bindR (well_formed_utf8_byte_length value) (\<lambda>_. Inr ()))"

definition continuation :: "byte list \<Rightarrow> nat \<Rightarrow> nat \<Rightarrow> nat result" where
  "continuation bytes index fin =
     (if fin \<le> index then Inl (PlainError ''Invalid UTF-8 string payload'')
      else let byte = unat (at0 bytes index) in
        if byte < 0x80 \<or> 0xbf < byte then Inl (PlainError ''Invalid UTF-8 string payload'') else Inr byte)"

function valid_utf8_loop :: "byte list \<Rightarrow> nat \<Rightarrow> nat \<Rightarrow> unit result" where
  "valid_utf8_loop bytes index fin =
     (if \<not> index < fin then Inr ()
      else
        let first = unat (at0 bytes index) in
        if first \<le> 0x7f then valid_utf8_loop bytes (index + 1) fin
        else if 0xc2 \<le> first \<and> first \<le> 0xdf then
          (case continuation bytes (index + 1) fin of
             Inl e \<Rightarrow> Inl e | Inr _ \<Rightarrow> valid_utf8_loop bytes (index + 2) fin)
        else if 0xe0 \<le> first \<and> first \<le> 0xef then
          (case continuation bytes (index + 1) fin of
             Inl e \<Rightarrow> Inl e
           | Inr second \<Rightarrow>
               if first = 0xe0 \<and> second < 0xa0 \<or> first = 0xed \<and> 0x9f < second
               then Inl (PlainError ''Invalid UTF-8 string payload'')
               else (case continuation bytes (index + 2) fin of
                 Inl e \<Rightarrow> Inl e | Inr _ \<Rightarrow> valid_utf8_loop bytes (index + 3) fin))
        else if 0xf0 \<le> first \<and> first \<le> 0xf4 then
          (case continuation bytes (index + 1) fin of
             Inl e \<Rightarrow> Inl e
           | Inr second \<Rightarrow>
               if first = 0xf0 \<and> second < 0x90 \<or> first = 0xf4 \<and> 0x8f < second
               then Inl (PlainError ''Invalid UTF-8 string payload'')
               else (case continuation bytes (index + 2) fin of
                 Inl e \<Rightarrow> Inl e
               | Inr _ \<Rightarrow> (case continuation bytes (index + 3) fin of
                   Inl e \<Rightarrow> Inl e | Inr _ \<Rightarrow> valid_utf8_loop bytes (index + 4) fin)))
        else Inl (PlainError ''Invalid UTF-8 string payload''))"
  by pat_completeness auto
termination by (relation "measure (\<lambda>(bytes, index, fin). fin - index)") auto

declare valid_utf8_loop.simps [simp del]

definition assert_valid_utf8 :: "byte list \<Rightarrow> nat \<Rightarrow> nat \<Rightarrow> unit result" where
  "assert_valid_utf8 bytes start fin = valid_utf8_loop bytes start fin"

subsection \<open>Encoding and decoding\<close>

definition scalar :: "nat \<Rightarrow> bool" where
  "scalar p \<longleftrightarrow> p < 0x110000 \<and> \<not> (0xd800 \<le> p \<and> p \<le> 0xdfff)"

lemma unat_byte: "n < 256 \<Longrightarrow> unat (u8 n) = n"
  by (simp add: u8_def u16_def unat_of_nat)

lemma unat_unit: "n < 65536 \<Longrightarrow> unat (u16 n) = n"
  by (simp add: u8_def u16_def unat_of_nat)

lemma u16_unat [simp]: "u16 (unat c) = c"
  by (simp add: u16_def)

lemma unit_bound: "unat (c :: 16 word) < 65536"
  using unsigned_less [of c, where 'a = nat] by simp

lemma base64_3: "(p :: nat) = p div 4096 * 4096 + p div 64 mod 64 * 64 + p mod 64"
proof -
  have "p div 64 div 64 = p div 4096" by (simp flip: div_mult2_eq)
  moreover have "p = p div 64 * 64 + p mod 64" by simp
  moreover have "p div 64 = p div 64 div 64 * 64 + p div 64 mod 64" by (rule div_mult_mod_eq [symmetric])
  ultimately show ?thesis by linarith
qed

lemma base64_4: "(p :: nat) = p div 262144 * 262144 + p div 4096 mod 64 * 4096 + p div 64 mod 64 * 64 + p mod 64"
proof -
  have "p div 4096 div 64 = p div 262144" by (simp flip: div_mult2_eq)
  moreover have "p div 4096 = p div 4096 div 64 * 64 + p div 4096 mod 64" by (rule div_mult_mod_eq [symmetric])
  ultimately show ?thesis using base64_3 [of p] by linarith
qed

lemma decode_char:
  assumes "scalar p"
  shows "decode_points (utf8_char p @ rest) = map_option ((#) p) (decode_points rest)"
proof -
  consider "p \<le> 0x7f" | "0x7f < p" "p \<le> 0x7ff" | "0x7ff < p" "p \<le> 0xffff" | "0xffff < p" "p < 0x110000"
    using assms by (fastforce simp: scalar_def)
  then show ?thesis
  proof cases
    case 1
    then show ?thesis by (simp add: utf8_char_def unat_byte)
  next
    case 2
    define a b where "a = p div 64" and "b = p mod 64"
    have p: "p = a * 64 + b" "2 \<le> a" "a < 32" "b < 64" using 2 by (simp_all add: a_def b_def)
    have "utf8_char p = [u8 (0xc0 + a), u8 (0x80 + b)]" using 2 by (simp add: utf8_char_def a_def b_def)
    then show ?thesis using p by (simp add: unat_byte cont_byte_def low6_def)
  next
    case 3
    define a b c where "a = p div 4096" and "b = p div 64 mod 64" and "c = p mod 64"
    have p: "p = a * 4096 + b * 64 + c" "a < 16" "b < 64" "c < 64"
      using 3 base64_3 [of p] by (simp_all add: a_def b_def c_def)
    have r: "\<not> (a = 0 \<and> b < 32)" "\<not> (a = 13 \<and> 31 < b)" using p 3 assms by (auto simp: scalar_def)
    have "utf8_char p = [u8 (0xe0 + a), u8 (0x80 + b), u8 (0x80 + c)]"
      using 3 by (simp add: utf8_char_def a_def b_def c_def)
    then show ?thesis using p r by (simp add: unat_byte second_ok_def cont_byte_def low6_def)
  next
    case 4
    define a b c d where "a = p div 262144" and "b = p div 4096 mod 64" and "c = p div 64 mod 64" and "d = p mod 64"
    have p: "p = a * 262144 + b * 4096 + c * 64 + d" "a < 5" "b < 64" "c < 64" "d < 64"
      using 4 base64_4 [of p] by (simp_all add: a_def b_def c_def d_def)
    have r: "\<not> (a = 0 \<and> b < 16)" "\<not> (a = 4 \<and> 15 < b)" using p 4 by auto
    have "utf8_char p = [u8 (0xf0 + a), u8 (0x80 + b), u8 (0x80 + c), u8 (0x80 + d)]"
      using 4 by (simp add: utf8_char_def a_def b_def c_def d_def)
    then show ?thesis using p r by (simp add: unat_byte second_ok_def cont_byte_def low6_def)
  qed
qed

lemma decode_chars: "\<forall>p \<in> set ps. scalar p \<Longrightarrow> decode_points (concat (map utf8_char ps) @ rest) = map_option ((@) ps) (decode_points rest)"
  by (induction ps) (auto simp: decode_char option.map_comp comp_def option.map_ident cong: option.map_cong)

text \<open>A surrogate pair and its code point.\<close>

lemma surrogate_offsets:
  assumes "high_surrogate c" "low_surrogate d"
  obtains x y where "unat c = 0xd800 + x" "unat d = 0xdc00 + y" "x < 1024" "y < 1024"
    "65536 + (unat c - 0xd800) * 1024 + (unat d - 0xdc00) = 65536 + x * 1024 + y"
  using assms by (intro that [of "unat c - 0xd800" "unat d - 0xdc00"])
    (auto simp: high_surrogate_def low_surrogate_def)

lemma scalar_pair: "x < 1024 \<Longrightarrow> y < 1024 \<Longrightarrow> scalar (65536 + x * 1024 + y)"
  by (simp add: scalar_def)

lemma scalar_unit: "\<not> high_surrogate c \<Longrightarrow> \<not> low_surrogate c \<Longrightarrow> scalar (unat c)"
  using unit_bound [of c] by (auto simp: scalar_def high_surrogate_def low_surrogate_def)

lemma code_points_scalar: "\<forall>p \<in> set (code_points s). scalar p"
proof (induction s rule: code_points.induct)
  case (2 c rest)
  have r: "scalar 0xfffd" by (simp add: scalar_def)
  show ?case
  proof (cases "high_surrogate c")
    case False
    then show ?thesis using 2(3,4) r scalar_unit [of c] by (cases "low_surrogate c") simp_all
  next
    case True
    show ?thesis
    proof (cases rest)
      case Nil
      then show ?thesis using True r by simp
    next
      case (Cons d rest')
      show ?thesis
      proof (cases "low_surrogate d")
        case False
        then show ?thesis using 2(2) [OF True Cons] True Cons r by simp
      next
        case low: True
        obtain x y where xy: "x < 1024" "y < 1024" "65536 + (unat c - 0xd800) * 1024 + (unat d - 0xdc00) = 65536 + x * 1024 + y"
          using surrogate_offsets [OF True low] by metis
        have "scalar (65536 + (unat c - 0xd800) * 1024 + (unat d - 0xdc00))"
          unfolding xy(3) by (rule scalar_pair [OF xy(1,2)])
        then show ?thesis using 2(1) [OF True Cons low] True Cons low by simp
      qed
    qed
  qed
qed simp

lemma decode_encode: "decode_points (utf8_encode s) = Some (code_points s)"
  using decode_chars [OF code_points_scalar, of s "[]"] by (simp add: utf8_encode_def)

text \<open>Strings without unpaired surrogates.\<close>

fun paired :: "js_string \<Rightarrow> bool" where
  "paired [] \<longleftrightarrow> True"
| "paired (c # rest) \<longleftrightarrow>
     (if high_surrogate c then (case rest of [] \<Rightarrow> False | d # rest' \<Rightarrow> low_surrogate d \<and> paired rest')
      else \<not> low_surrogate c \<and> paired rest)"

lemma utf16_code_points: "paired s \<Longrightarrow> concat (map utf16 (code_points s)) = s"
proof (induction s rule: paired.induct)
  case (2 c rest)
  show ?case
  proof (cases "high_surrogate c")
    case True
    then obtain d rest' where r: "rest = d # rest'" "low_surrogate d" "paired rest'"
      using 2(3) by (auto split: list.splits)
    obtain x y where xy: "unat c = 0xd800 + x" "unat d = 0xdc00 + y" "x < 1024" "y < 1024"
      "65536 + (unat c - 0xd800) * 1024 + (unat d - 0xdc00) = 65536 + x * 1024 + y"
      by (rule surrogate_offsets [OF True r(2)])
    have "utf16 (65536 + x * 1024 + y) = [u16 (unat c), u16 (unat d)]"
      using xy(3,4) unfolding xy(1,2) by (simp add: utf16_def)
    then have "utf16 (65536 + (unat c - 0xd800) * 1024 + (unat d - 0xdc00)) = [c, d]"
      unfolding xy(5) by simp
    then show ?thesis using True r 2(1) [OF True r(1)] by simp
  next
    case False
    then have "\<not> low_surrogate c" "paired rest" using 2(3) by simp_all
    moreover have "utf16 (unat c) = [c]" using unit_bound [of c] by (simp add: utf16_def)
    ultimately show ?thesis using False 2(2) by simp
  qed
qed simp

subsection \<open>What the checks accept\<close>

lemma length_utf8_char: "length (utf8_char p) = (if p \<le> 0x7f then 1 else if p \<le> 0x7ff then 2 else if p \<le> 0xffff then 3 else 4)"
  by (simp add: utf8_char_def)

lemma utf8_encode_unit:
  "\<not> high_surrogate c \<Longrightarrow> \<not> low_surrogate c \<Longrightarrow> utf8_encode (c # rest) = utf8_char (unat c) @ utf8_encode rest"
  by (simp add: utf8_encode_def)

lemma length_utf8_pair:
  assumes "high_surrogate c" "low_surrogate d"
  shows "length (utf8_encode (c # d # rest)) = 4 + length (utf8_encode rest)"
proof -
  obtain x y where xy: "x < 1024" "y < 1024"
    "65536 + (unat c - 0xd800) * 1024 + (unat d - 0xdc00) = 65536 + x * 1024 + y"
    using surrogate_offsets [OF assms] by metis
  have "length (utf8_char (65536 + (unat c - 0xd800) * 1024 + (unat d - 0xdc00))) = 4"
    unfolding xy(3) by (simp add: length_utf8_char)
  then show ?thesis using assms by (simp add: utf8_encode_def)
qed

lemma measure_loop_spec:
  "measure_loop s acc = (if paired s then Inr (acc + length (utf8_encode s)) else Inl (TypeError ''unpaired surrogate''))"
proof (induction s arbitrary: acc rule: paired.induct)
  case 1
  then show ?case by (simp add: utf8_encode_def)
next
  case (2 c rest)
  consider (high) "high_surrogate c" | (low) "low_surrogate c" "\<not> high_surrogate c"
    | (unit) "\<not> high_surrogate c" "\<not> low_surrogate c" by blast
  then show ?case
  proof cases
    case high
    then have c: "\<not> unat c \<le> 0x7f" "\<not> unat c \<le> 0x7ff" "0xd800 \<le> unat c" "unat c \<le> 0xdbff"
      by (auto simp: high_surrogate_def)
    show ?thesis
    proof (cases "\<exists>d rest'. rest = d # rest' \<and> low_surrogate d")
      case True
      then obtain d rest' where r: "rest = d # rest'" "low_surrogate d" by blast
      then have "\<not> (unat d < 0xdc00 \<or> 0xdfff < unat d)" by (auto simp: low_surrogate_def)
      then show ?thesis using c r high 2(1) [OF high r(1)] length_utf8_pair [OF high r(2), of rest']
        by (simp add: Let_def)
    next
      case False
      then show ?thesis using c high by (auto simp: Let_def low_surrogate_def split: list.splits)
    qed
  next
    case low
    then show ?thesis by (auto simp: Let_def low_surrogate_def)
  next
    case unit
    have "measure_loop (c # rest) acc = measure_loop rest (acc + length (utf8_char (unat c)))"
      using unit unit_bound [of c] by (auto simp: Let_def high_surrogate_def low_surrogate_def length_utf8_char)
    then show ?thesis using unit 2(2) [OF unit(1)] by (simp add: utf8_encode_unit)
  qed
qed

lemma slice_Cons: "i < f \<Longrightarrow> f \<le> length bs \<Longrightarrow> slice_of bs i f = at0 bs i # slice_of bs (i + 1) f"
proof -
  assume a: "i < f" "f \<le> length bs"
  then have "drop i bs = bs ! i # drop (Suc i) bs" by (simp add: Cons_nth_drop_Suc)
  moreover obtain k where "f = i + Suc k" using a(1) less_imp_Suc_add by auto
  ultimately show ?thesis using a(2) by (simp add: slice_of_def at0_def)
qed

lemma slice_Nil: "f \<le> i \<Longrightarrow> slice_of bs i f = []"
  by (simp add: slice_of_def)

lemma continuation_spec: "f \<le> length bs \<Longrightarrow> continuation bs i f =
   (if i < f \<and> cont_byte (at0 bs i) then Inr (unat (at0 bs i)) else Inl (PlainError ''Invalid UTF-8 string payload''))"
  by (auto simp: continuation_def cont_byte_def Let_def)

lemma valid_utf8_loop_spec:
  "fin \<le> length bs \<Longrightarrow> valid_utf8_loop bs i fin = Inr () \<longleftrightarrow> decode_points (slice_of bs i fin) \<noteq> None"
proof (induction "fin - i" arbitrary: i rule: less_induct)
  case less
  show ?case
  proof (cases "i < fin")
    case False
    then show ?thesis by (simp add: valid_utf8_loop.simps slice_Nil)
  next
    case True
    note IH = less.hyps [OF _ less.prems]
    let ?b = "unat (at0 bs i)"
    have s0: "slice_of bs i fin = at0 bs i # slice_of bs (i + 1) fin" by (rule slice_Cons [OF True less.prems])
    note c = continuation_spec [OF less.prems]
    consider "?b \<le> 0x7f" | "0xc2 \<le> ?b" "?b \<le> 0xdf" | "0xe0 \<le> ?b" "?b \<le> 0xef" | "0xf0 \<le> ?b" "?b \<le> 0xf4"
      | "\<not> ?b \<le> 0x7f" "\<not> (0xc2 \<le> ?b \<and> ?b \<le> 0xdf)" "\<not> (0xe0 \<le> ?b \<and> ?b \<le> 0xef)" "\<not> (0xf0 \<le> ?b \<and> ?b \<le> 0xf4)"
      by fastforce
    then show ?thesis
    proof cases
      case 1
      then show ?thesis using True s0 IH [of "i + 1"] by (simp add: valid_utf8_loop.simps [of bs i])
    next
      case 2
      show ?thesis
      proof (cases "i + 1 < fin")
        case False
        then show ?thesis using 2 True s0 c by (simp add: valid_utf8_loop.simps [of bs i] slice_Nil)
      next
        case t: True
        have "slice_of bs (i + 1) fin = at0 bs (i + 1) # slice_of bs (i + 2) fin"
          using slice_Cons [OF t less.prems] by simp
        then show ?thesis using 2 True t s0 c IH [of "i + 2"] by (simp add: valid_utf8_loop.simps [of bs i])
      qed
    next
      case 3
      show ?thesis
      proof (cases "i + 2 < fin")
        case False
        then show ?thesis using 3 True s0 c less.prems
          by (cases "i + 1 < fin") (auto simp: valid_utf8_loop.simps [of bs i] slice_Nil slice_Cons Let_def)
      next
        case t: True
        have "slice_of bs (i + 1) fin = at0 bs (i + 1) # at0 bs (i + 2) # slice_of bs (i + 3) fin"
          using slice_Cons [of "i + 1" fin bs] slice_Cons [of "i + 2" fin bs] t less.prems by (simp add: numeral_3_eq_3)
        then show ?thesis using 3 True t s0 c IH [of "i + 3"]
          by (auto simp: valid_utf8_loop.simps [of bs i] second_ok_def Let_def)
      qed
    next
      case 4
      show ?thesis
      proof (cases "i + 3 < fin")
        case False
        then show ?thesis using 4 True s0 c less.prems
          by (cases "i + 1 < fin"; cases "i + 2 < fin")
            (auto simp: valid_utf8_loop.simps [of bs i] slice_Nil slice_Cons Let_def)
      next
        case t: True
        have "slice_of bs (i + 1) fin = at0 bs (i + 1) # at0 bs (i + 2) # at0 bs (i + 3) # slice_of bs (i + 4) fin"
          using slice_Cons [of "i + 1" fin bs] slice_Cons [of "i + 2" fin bs] slice_Cons [of "i + 3" fin bs] t less.prems
          by (simp add: eval_nat_numeral)
        then show ?thesis using 4 True t s0 c IH [of "i + 4"]
          by (auto simp: valid_utf8_loop.simps [of bs i] second_ok_def Let_def)
      qed
    next
      case 5
      then show ?thesis using True s0 by (auto simp: valid_utf8_loop.simps [of bs i] Let_def)
    qed
  qed
qed

subsection \<open>The accepted strings are those that survive persistence\<close>

lemma paired_append_unit:
  "\<not> high_surrogate c \<Longrightarrow> \<not> low_surrogate c \<Longrightarrow> paired ([c] @ rest) = paired rest"
  by simp

lemma utf16_unit_surrogates:
  assumes "scalar p" "p \<le> 0xffff"
  shows "\<not> high_surrogate (u16 p)" "\<not> low_surrogate (u16 p)"
  using assms by (auto simp: scalar_def high_surrogate_def low_surrogate_def unat_unit)

lemma paired_utf16: "scalar p \<Longrightarrow> paired (utf16 p @ rest) = paired rest"
proof (cases "p \<le> 0xffff")
  case True
  moreover assume "scalar p"
  ultimately show ?thesis using utf16_unit_surrogates [of p] by (simp add: utf16_def)
next
  case False
  assume "scalar p"
  then have "p < 1114112" by (simp add: scalar_def)
  then have "p - 65536 < 1048576" by linarith
  then have b: "(p - 65536) div 1024 < 1024" "(p - 65536) mod 1024 < 1024"
    by (simp_all add: less_mult_imp_div_less)
  define x y where "x = (p - 65536) div 1024" and "y = (p - 65536) mod 1024"
  have "high_surrogate (u16 (0xd800 + x))" "low_surrogate (u16 (0xdc00 + y))"
    using b by (simp_all add: x_def [symmetric] y_def [symmetric] high_surrogate_def low_surrogate_def unat_unit)
  then show ?thesis using False by (simp add: utf16_def x_def [symmetric] y_def [symmetric])
qed

lemma paired_decoded: "\<forall>p \<in> set ps. scalar p \<Longrightarrow> paired (concat (map utf16 ps))"
  by (induction ps) (simp_all add: paired_utf16)

lemma survives_iff_paired: "utf8_decode True (utf8_encode s) = Some s \<longleftrightarrow> paired s"
proof
  assume "utf8_decode True (utf8_encode s) = Some s"
  then have "concat (map utf16 (code_points s)) = s" by (simp add: utf8_decode_def decode_encode)
  then show "paired s" using paired_decoded [OF code_points_scalar, of s] by simp
qed (simp add: utf8_decode_def decode_encode utf16_code_points)

lemma no_surrogate_paired: "\<not> list_ex (\<lambda>c. 0xd800 \<le> unat c \<and> unat c \<le> 0xdfff) s \<Longrightarrow> paired s"
  by (induction s) (auto simp: high_surrogate_def low_surrogate_def)

lemma assert_well_formed_iff: "assert_well_formed_string s = Inr () \<longleftrightarrow> paired s"
  using no_surrogate_paired [of s]
  by (auto simp: assert_well_formed_string_def well_formed_utf8_byte_length_def measure_loop_spec)

lemma well_formed_length: "paired s \<Longrightarrow> well_formed_utf8_byte_length s = Inr (length (utf8_encode s))"
  by (simp add: well_formed_utf8_byte_length_def measure_loop_spec)

text \<open>
  The strings accepted by \<open>assertWellFormedString\<close> are exactly those that UTF-8
  encoding and decoding give back unchanged; for those \<open>wellFormedUtf8ByteLength\<close> is the length of
  the encoding, and every other string is refused.
\<close>
theorem well_formed_strings_survive:
  "(assert_well_formed_string s = Inr ()) = (utf8_decode True (utf8_encode s) = Some s)
   \<and> well_formed_utf8_byte_length s =
      (if utf8_decode True (utf8_encode s) = Some s then Inr (length (utf8_encode s))
       else Inl (TypeError ''unpaired surrogate''))"
  unfolding survives_iff_paired assert_well_formed_iff
  by (simp add: well_formed_utf8_byte_length_def measure_loop_spec)

text \<open>
  Property C28: the hand-written UTF-8 check of a block's string content accepts a byte range exactly
  when the fatal decoder accepts it.
\<close>
theorem valid_utf8_exact:
  assumes "fin \<le> length bytes"
  shows "(assert_valid_utf8 bytes start fin = Inr ()) = (utf8_decode True (slice_of bytes start fin) \<noteq> None)"
  using valid_utf8_loop_spec [OF assms] by (simp add: assert_valid_utf8_def utf8_decode_def)

lemma slice_example: "take (3 - 1) (drop 1 [a, b, c]) = [b, c]"
  by (simp add: numeral_2_eq_2)

lemma valid_utf8_exact_witness:
  "(assert_valid_utf8 [0x41, 0xc3, 0xa9] 1 3 = Inr ()) = (utf8_decode True (slice_of [0x41, 0xc3, 0xa9] 1 3) \<noteq> None)
   \<and> utf8_decode True (slice_of [0x41, 0xc3, 0xa9] 1 3) = Some [0xe9]
   \<and> (assert_valid_utf8 [0xed, 0xa0, 0x80] 0 3 \<noteq> Inr ())"
proof -
  have a: "(assert_valid_utf8 [0x41, 0xc3, 0xa9] 1 3 = Inr ()) = (utf8_decode True (slice_of [0x41, 0xc3, 0xa9] 1 3) \<noteq> None)"
    by (rule valid_utf8_exact) simp
  have b: "(assert_valid_utf8 [0xed, 0xa0, 0x80] 0 3 = Inr ()) = (utf8_decode True (slice_of [0xed, 0xa0, 0x80] 0 3) \<noteq> None)"
    by (rule valid_utf8_exact) simp
  have c: "utf8_decode True (slice_of [0x41, 0xc3, 0xa9] 1 3) = Some [0xe9]"
    by (simp add: utf8_decode_def slice_of_def cont_byte_def low6_def utf16_def u16_def slice_example)
  have d: "utf8_decode True (slice_of [0xed, 0xa0, 0x80] 0 3) = None"
    by (simp add: utf8_decode_def slice_of_def cont_byte_def second_ok_def low6_def)
  show ?thesis using a b c d by simp
qed

end
