(* ===== verification/ArtifactCache.thy ===== *)
theory ArtifactCache
  imports Unicode
begin

text \<open>
  \<open>engine/artifact-cache.ts\<close>: the byte-bounded LRU cache with its recency list threaded through the entries. Entries live in a
  store of addresses, because the code relinks them in place and the family maps alias them; a payload is known by its
  identity. The \<open>while\<close> loop of the eviction is a partial function, so that its end is a theorem.
\<close>

definition FAMILY_COUNT :: nat where "FAMILY_COUNT = 7"
definition FAMILY_KEY_PREFIX_CHARACTERS :: nat where "FAMILY_KEY_PREFIX_CHARACTERS = 4"
definition KEYED :: nat where "KEYED = 0"

record 'p cache_entry =
  ce_family :: nat
  ce_key :: js_string
  ce_payload :: 'p
  ce_bytes :: int
  previous :: "nat option"
  "next" :: "nat option"

record 'p cache =
  limit_bytes :: int
  families :: "(js_string \<rightharpoonup> nat) list"
  store :: "nat \<Rightarrow> 'p cache_entry"
  fresh :: nat
  oldest :: "nat option"
  newest :: "nat option"
  used_bytes :: int
  entry_count :: int
  hits :: int
  misses :: int
  evictions :: int

definition new_cache :: "(nat \<Rightarrow> 'p cache_entry) \<Rightarrow> int \<Rightarrow> 'p cache result" where
  "new_cache st limit =
     (if \<not> is_safe_integer limit \<or> limit < 0 then Inl (RangeError ''Prepare cache bytes must be a non-negative whole number'')
      else Inr \<lparr>limit_bytes = limit, families = replicate FAMILY_COUNT Map.empty, store = st, fresh = 0, oldest = None, newest = None,
        used_bytes = 0, entry_count = 0, hits = 0, misses = 0, evictions = 0\<rparr>)"

definition enabled :: "'p cache \<Rightarrow> bool" where
  "enabled c \<longleftrightarrow> 0 < limit_bytes c"

definition set_entry :: "nat \<Rightarrow> ('p cache_entry \<Rightarrow> 'p cache_entry) \<Rightarrow> 'p cache \<Rightarrow> 'p cache" where
  "set_entry a f c = c\<lparr>store := (store c)(a := f (store c a))\<rparr>"

definition unlink :: "nat \<Rightarrow> 'p cache \<Rightarrow> 'p cache" where
  "unlink a c =
     (let c = (case previous (store c a) of
                 Some p \<Rightarrow> set_entry p (next_update (\<lambda>_. next (store c a))) c
               | None \<Rightarrow> c\<lparr>oldest := next (store c a)\<rparr>);
          c = (case next (store c a) of
                 Some n \<Rightarrow> set_entry n (previous_update (\<lambda>_. previous (store c a))) c
               | None \<Rightarrow> c\<lparr>newest := previous (store c a)\<rparr>)
      in set_entry a (\<lambda>e. e\<lparr>previous := None, next := None\<rparr>) c)"

definition append_newest :: "nat \<Rightarrow> 'p cache \<Rightarrow> 'p cache" where
  "append_newest a c =
     (let c = set_entry a (\<lambda>e. e\<lparr>previous := newest c, next := None\<rparr>) c;
          c = (case newest c of Some n \<Rightarrow> set_entry n (next_update (\<lambda>_. Some a)) c | None \<Rightarrow> c);
          c = c\<lparr>newest := Some a\<rparr>
      in c\<lparr>oldest := (case oldest c of Some o' \<Rightarrow> Some o' | None \<Rightarrow> Some a)\<rparr>)"

definition renew :: "nat \<Rightarrow> 'p cache \<Rightarrow> 'p cache" where
  "renew a c = (if newest c \<noteq> Some a then append_newest a (unlink a c) else c)"

definition look_up :: "'p cache \<Rightarrow> nat \<Rightarrow> js_string \<Rightarrow> nat option" where
  "look_up c family key = (if family < length (families c) then (families c ! family) key else None)"

definition get_in :: "nat \<Rightarrow> js_string \<Rightarrow> 'p cache \<Rightarrow> 'p option \<times> 'p cache" where
  "get_in family key c =
     (if \<not> enabled c then (None, c)
      else case look_up c family key of
        None \<Rightarrow> (None, c\<lparr>misses := misses c + 1\<rparr>)
      | Some a \<Rightarrow> (let c = renew a (c\<lparr>hits := hits c + 1\<rparr>) in (Some (ce_payload (store c a)), c)))"

text \<open>The eviction: from the oldest entry on, all but the one just stored.\<close>

partial_function (option) evict_loop :: "nat \<Rightarrow> js_string \<Rightarrow> nat option \<Rightarrow> 'p cache \<Rightarrow> 'p cache option" where
  "evict_loop family key at c =
     (case at of
        None \<Rightarrow> Some c
      | Some a \<Rightarrow>
          if \<not> limit_bytes c < used_bytes c then Some c
          else
            let later = next (store c a); e = store c a in
            evict_loop family key later
              (if ce_family e \<noteq> family \<or> ce_key e \<noteq> key
               then let c = unlink a c in
                 c\<lparr>families := (families c)[ce_family e := (families c ! ce_family e)(ce_key e := None)],
                   entry_count := entry_count c - 1, used_bytes := used_bytes c - ce_bytes e, evictions := evictions c + 1\<rparr>
               else c))"

definition charged :: "nat \<Rightarrow> js_string \<Rightarrow> int \<Rightarrow> int" where
  "charged family key bytes =
     bytes + (96 + int (length key + (if family = KEYED then 0 else FAMILY_KEY_PREFIX_CHARACTERS)) * 2)"

definition put_in :: "nat \<Rightarrow> js_string \<Rightarrow> 'p \<Rightarrow> int \<Rightarrow> 'p cache \<Rightarrow> (js_error option \<times> 'p cache) option" where
  "put_in family key payload bytes c =
     (if \<not> is_safe_integer bytes \<or> bytes < 0
      then Some (Some (RangeError ''Artifact cache entry bytes must be a non-negative whole number''), c)
      else if length (families c) \<le> family then Some (Some (RangeError ''Unknown artifact cache family''), c)
      else let bytes = charged family key bytes in
        if \<not> enabled c \<or> \<not> is_safe_integer bytes \<or> limit_bytes c < bytes then Some (None, c)
        else
          let c = (case (families c ! family) key of
                Some a \<Rightarrow>
                  let c = c\<lparr>used_bytes := used_bytes c - ce_bytes (store c a)\<rparr>;
                      c = set_entry a (\<lambda>e. e\<lparr>ce_payload := payload, ce_bytes := bytes\<rparr>) c
                  in renew a (c\<lparr>used_bytes := used_bytes c + bytes\<rparr>)
              | None \<Rightarrow>
                  let a = fresh c;
                      c = c\<lparr>fresh := a + 1, store := (store c)(a := \<lparr>ce_family = family, ce_key = key, ce_payload = payload,
                            ce_bytes = bytes, previous = None, next = None\<rparr>)\<rparr>;
                      c = c\<lparr>families := (families c)[family := (families c ! family)(key \<mapsto> a)], entry_count := entry_count c + 1\<rparr>;
                      c = append_newest a c
                  in c\<lparr>used_bytes := used_bytes c + bytes\<rparr>)
          in map_option (Pair None) (evict_loop family key (oldest c) c))"

definition retain :: "js_string \<Rightarrow> 'p \<Rightarrow> int \<Rightarrow> 'p cache \<Rightarrow> (js_error option \<times> 'p cache) option" where
  "retain key payload bytes c =
     (case look_up c KEYED key of
        None \<Rightarrow> put_in KEYED key payload bytes c
      | Some a \<Rightarrow>
          if ce_payload (store c a) \<noteq> payload \<or> newest c = Some a then Some (None, c)
          else Some (None, append_newest a (unlink a c)))"

definition clear :: "'p cache \<Rightarrow> 'p cache" where
  "clear c = c\<lparr>families := map (\<lambda>_. Map.empty) (families c), entry_count := 0, oldest := None, newest := None, used_bytes := 0\<rparr>"

subsection \<open>The specification: a list of items, the least recently used first\<close>

type_synonym 'p item = "nat \<times> js_string \<times> 'p \<times> int"

record 'p lru =
  lru_limit :: int
  lru_items :: "'p item list"
  lru_hits :: int
  lru_misses :: int
  lru_evictions :: int

definition item_id :: "'p item \<Rightarrow> nat \<times> js_string" where "item_id i = (fst i, fst (snd i))"
definition item_payload :: "'p item \<Rightarrow> 'p" where "item_payload i = fst (snd (snd i))"
definition item_bytes :: "'p item \<Rightarrow> int" where "item_bytes i = snd (snd (snd i))"

definition items_bytes :: "'p item list \<Rightarrow> int" where "items_bytes is = sum_list (map item_bytes is)"

definition lru_find :: "nat \<Rightarrow> js_string \<Rightarrow> 'p item list \<Rightarrow> 'p item option" where
  "lru_find family key is = List.find (\<lambda>i. item_id i = (family, key)) is"

definition lru_others :: "nat \<Rightarrow> js_string \<Rightarrow> 'p item list \<Rightarrow> 'p item list" where
  "lru_others family key is = filter (\<lambda>i. item_id i \<noteq> (family, key)) is"

definition lru_get :: "nat \<Rightarrow> js_string \<Rightarrow> 'p lru \<Rightarrow> 'p option \<times> 'p lru" where
  "lru_get family key s =
     (if lru_limit s \<le> 0 then (None, s)
      else case lru_find family key (lru_items s) of
        None \<Rightarrow> (None, s\<lparr>lru_misses := lru_misses s + 1\<rparr>)
      | Some i \<Rightarrow> (Some (item_payload i), s\<lparr>lru_hits := lru_hits s + 1, lru_items := lru_others family key (lru_items s) @ [i]\<rparr>))"

text \<open>The shortest suffix reached by dropping the oldest while the limit is exceeded; the last item stays.\<close>

fun lru_evict :: "int \<Rightarrow> 'p item list \<Rightarrow> 'p item list" where
  "lru_evict limit [] = []"
| "lru_evict limit (i # is) = (if is = [] \<or> items_bytes (i # is) \<le> limit then i # is else lru_evict limit is)"

definition lru_put :: "nat \<Rightarrow> js_string \<Rightarrow> 'p \<Rightarrow> int \<Rightarrow> 'p lru \<Rightarrow> js_error option \<times> 'p lru" where
  "lru_put family key payload bytes s =
     (if \<not> is_safe_integer bytes \<or> bytes < 0
      then (Some (RangeError ''Artifact cache entry bytes must be a non-negative whole number''), s)
      else if FAMILY_COUNT \<le> family then (Some (RangeError ''Unknown artifact cache family''), s)
      else let bytes = charged family key bytes in
        if lru_limit s \<le> 0 \<or> \<not> is_safe_integer bytes \<or> lru_limit s < bytes then (None, s)
        else let all = lru_others family key (lru_items s) @ [(family, key, payload, bytes)]; kept = lru_evict (lru_limit s) all in
          (None, s\<lparr>lru_items := kept, lru_evictions := lru_evictions s + int (length all - length kept)\<rparr>))"

definition lru_retain :: "js_string \<Rightarrow> 'p \<Rightarrow> int \<Rightarrow> 'p lru \<Rightarrow> js_error option \<times> 'p lru" where
  "lru_retain key payload bytes s =
     (case lru_find KEYED key (lru_items s) of
        None \<Rightarrow> lru_put KEYED key payload bytes s
      | Some i \<Rightarrow> (None, if item_payload i = payload then s\<lparr>lru_items := lru_others KEYED key (lru_items s) @ [i]\<rparr> else s))"

definition lru_clear :: "'p lru \<Rightarrow> 'p lru" where
  "lru_clear s = s\<lparr>lru_items := []\<rparr>"

subsection \<open>Linked segments\<close>

definition first_of :: "nat list \<Rightarrow> nat option \<Rightarrow> nat option" where
  "first_of xs n = (case xs of [] \<Rightarrow> n | b # _ \<Rightarrow> Some b)"

definition last_of :: "nat list \<Rightarrow> nat option \<Rightarrow> nat option" where
  "last_of xs p = (if xs = [] then p else Some (last xs))"

primrec linked :: "(nat \<Rightarrow> 'p cache_entry) \<Rightarrow> nat option \<Rightarrow> nat list \<Rightarrow> nat option \<Rightarrow> bool" where
  "linked h p [] n = True"
| "linked h p (a # as) n = (previous (h a) = p \<and> next (h a) = first_of as n \<and> linked h (Some a) as n)"

lemma ends_simps [simp]: "first_of [] n = n" "first_of (a # as) n = Some a" "last_of [] p = p" "last_of (as @ [a]) p = Some a"
  "first_of (xs @ ys) n = first_of xs (first_of ys n)" "last_of (a # as) p = last_of as (Some a)"
  "last_of (xs @ ys) p = last_of ys (last_of xs p)"
  by (simp_all add: first_of_def last_of_def split: list.split)

lemma linked_append: "linked h p (xs @ ys) n \<longleftrightarrow> linked h p xs (first_of ys n) \<and> linked h (last_of xs p) ys n"
  by (induction xs arbitrary: p) auto

lemma linked_cong: "(\<And>a. a \<in> set xs \<Longrightarrow> previous (h' a) = previous (h a) \<and> next (h' a) = next (h a)) \<Longrightarrow> linked h' p xs n = linked h p xs n"
  by (induction xs arbitrary: p) auto

lemma linked_snoc: "linked h p (xs @ [a]) n \<longleftrightarrow> linked h p xs (Some a) \<and> previous (h a) = last_of xs p \<and> next (h a) = n"
  by (simp add: linked_append)

text \<open>What an entry stores, whatever its links; the links only change where the chain is changed.\<close>

definition item_of :: "'p cache_entry \<Rightarrow> 'p item" where
  "item_of e = (ce_family e, ce_key e, ce_payload e, ce_bytes e)"

definition only_links :: "'p cache \<Rightarrow> 'p cache \<Rightarrow> bool" where
  "only_links c c' \<longleftrightarrow> (\<forall>a. item_of (store c' a) = item_of (store c a)) \<and> limit_bytes c' = limit_bytes c
     \<and> families c' = families c \<and> fresh c' = fresh c \<and> used_bytes c' = used_bytes c \<and> entry_count c' = entry_count c
     \<and> hits c' = hits c \<and> misses c' = misses c \<and> evictions c' = evictions c"

definition chain :: "'p cache \<Rightarrow> nat list \<Rightarrow> bool" where
  "chain c as \<longleftrightarrow> linked (store c) None as None \<and> oldest c = first_of as None \<and> newest c = last_of as None \<and> distinct as"

lemma item_links [simp]: "item_of (next_update f e) = item_of e" "item_of (previous_update g e) = item_of e"
  by (simp_all add: item_of_def)

lemma only_links_trans: "only_links c c' \<Longrightarrow> only_links c' c'' \<Longrightarrow> only_links c c''"
  by (auto simp: only_links_def)

lemma set_entry_simps [simp]:
  "store (set_entry a f c) = (store c)(a := f (store c a))" "oldest (set_entry a f c) = oldest c" "newest (set_entry a f c) = newest c"
  by (simp_all add: set_entry_def)

lemma linked_upd [simp]: "a \<notin> set xs \<Longrightarrow> linked (h(a := e)) p xs n = linked h p xs n"
  by (rule linked_cong) auto

lemma only_links_set: "(\<And>e. item_of (f e) = item_of e) \<Longrightarrow> only_links c (set_entry a f c)"
  by (simp add: only_links_def set_entry_def)

lemma only_links_ends: "only_links c (c\<lparr>oldest := x\<rparr>)" "only_links c (c\<lparr>newest := y\<rparr>)"
  by (simp_all add: only_links_def)

lemma unlink_only_links: "only_links c (unlink a c)"
proof -
  define c1 where "c1 = (case previous (store c a) of
    Some p \<Rightarrow> set_entry p (next_update (\<lambda>_. next (store c a))) c | None \<Rightarrow> c\<lparr>oldest := next (store c a)\<rparr>)"
  define c2 where "c2 = (case next (store c1 a) of
    Some n \<Rightarrow> set_entry n (previous_update (\<lambda>_. previous (store c1 a))) c1 | None \<Rightarrow> c1\<lparr>newest := previous (store c1 a)\<rparr>)"
  have "only_links c c1" unfolding c1_def by (cases "previous (store c a)") (simp_all add: only_links_set only_links_ends)
  moreover have "only_links c1 c2" unfolding c2_def by (cases "next (store c1 a)") (simp_all add: only_links_set only_links_ends)
  moreover have "only_links c2 (unlink a c)" unfolding unlink_def Let_def c1_def [symmetric] c2_def [symmetric] by (rule only_links_set) simp
  ultimately show ?thesis using only_links_trans by blast
qed

lemma append_only_links: "only_links c (append_newest a c)"
proof -
  define c1 where "c1 = set_entry a (\<lambda>e. e\<lparr>previous := newest c, next := None\<rparr>) c"
  define c2 where "c2 = (case newest c1 of Some n \<Rightarrow> set_entry n (next_update (\<lambda>_. Some a)) c1 | None \<Rightarrow> c1)"
  have "only_links c c1" unfolding c1_def by (rule only_links_set) simp
  moreover have "only_links c1 c2" unfolding c2_def
    by (cases "newest c1") (simp_all add: only_links_set, simp add: only_links_def)
  moreover have "only_links c2 (append_newest a c)" unfolding append_newest_def Let_def c1_def [symmetric] c2_def [symmetric]
    by (blast intro: only_links_trans only_links_ends)
  ultimately show ?thesis using only_links_trans by blast
qed

lemma unlink_chain:
  assumes "chain c (xs @ a # ys)"
  shows "chain (unlink a c) (xs @ ys)"
proof (cases xs rule: rev_exhaust)
  case Nil
  then show ?thesis using assms by (cases ys) (auto simp: chain_def unlink_def Let_def set_entry_def)
next
  case (snoc us p)
  then show ?thesis using assms
    by (cases ys) (auto simp: chain_def unlink_def Let_def set_entry_def linked_append)
qed

lemma append_chain:
  assumes "chain c as" "a \<notin> set as"
  shows "chain (append_newest a c) (as @ [a])"
proof (cases as rule: rev_exhaust)
  case Nil
  then show ?thesis using assms by (simp add: chain_def append_newest_def Let_def)
next
  case (snoc us p)
  then have "oldest c \<noteq> None" using assms by (cases us) (auto simp: chain_def)
  then show ?thesis using snoc assms by (auto simp: chain_def append_newest_def Let_def linked_append)
qed

lemma renew_chain:
  assumes "chain c (xs @ a # ys)"
  shows "chain (renew a c) (xs @ ys @ [a])"
proof (cases "newest c = Some a")
  case True
  then have "ys = []" using assms by (cases ys rule: rev_exhaust) (auto simp: chain_def)
  then show ?thesis using True assms by (simp add: renew_def)
next
  case False
  have "chain (append_newest a (unlink a c)) ((xs @ ys) @ [a])"
    by (rule append_chain, rule unlink_chain [OF assms]) (use assms in \<open>auto simp: chain_def\<close>)
  then show ?thesis using False by (simp add: renew_def)
qed

lemma renew_only_links: "only_links c (renew a c)"
  using only_links_trans [OF unlink_only_links append_only_links, of c a a] by (simp add: renew_def) (simp add: only_links_def)

subsection \<open>The cache represents a list\<close>

definition items :: "'p cache \<Rightarrow> nat list \<Rightarrow> 'p item list" where
  "items c as = map (\<lambda>a. item_of (store c a)) as"

definition id_of :: "'p cache \<Rightarrow> nat \<Rightarrow> nat \<times> js_string" where
  "id_of c a = item_id (item_of (store c a))"

definition keyed :: "'p cache \<Rightarrow> nat set \<Rightarrow> bool" where
  "keyed c as \<longleftrightarrow> length (families c) = FAMILY_COUNT \<and> (\<forall>a \<in> as. fst (id_of c a) < FAMILY_COUNT \<and> a < fresh c)
     \<and> (\<forall>f k a. f < FAMILY_COUNT \<longrightarrow> ((families c ! f) k = Some a \<longleftrightarrow> a \<in> as \<and> id_of c a = (f, k)))"

definition rep :: "'p cache \<Rightarrow> nat list \<Rightarrow> bool" where
  "rep c as \<longleftrightarrow> chain c as \<and> keyed c (set as) \<and> used_bytes c = items_bytes (items c as) \<and> entry_count c = int (length as)"

definition abs_cache :: "'p cache \<Rightarrow> nat list \<Rightarrow> 'p lru" where
  "abs_cache c as = \<lparr>lru_limit = limit_bytes c, lru_items = items c as, lru_hits = hits c, lru_misses = misses c, lru_evictions = evictions c\<rparr>"

lemma items_simps [simp]: "items c [] = []" "items c (a # as) = item_of (store c a) # items c as" "items c (xs @ ys) = items c xs @ items c ys"
  "length (items c as) = length as" "items c as = [] \<longleftrightarrow> as = []"
  by (simp_all add: items_def)

lemma items_bytes_simps [simp]: "items_bytes [] = 0" "items_bytes (i # is) = item_bytes i + items_bytes is"
  "items_bytes (xs @ ys) = items_bytes xs + items_bytes ys"
  by (simp_all add: items_bytes_def)

lemma item_parts: "item_bytes (item_of e) = ce_bytes e" "item_payload (item_of e) = ce_payload e" "item_id (item_of e) = (ce_family e, ce_key e)"
  by (simp_all add: item_of_def item_bytes_def item_payload_def item_id_def)

lemma id_of_entry: "id_of c a = (ce_family (store c a), ce_key (store c a))"
  by (simp add: id_of_def item_parts)

lemma only_links_items: "only_links c c' \<Longrightarrow> items c' as = items c as" "only_links c c' \<Longrightarrow> id_of c' a = id_of c a"
  by (simp_all add: items_def only_links_def id_of_def)

lemma only_links_keyed: "only_links c c' \<Longrightarrow> keyed c' as = keyed c as"
  using only_links_items(2) [of c c'] by (simp add: keyed_def only_links_def)

lemma only_links_abs: "only_links c c' \<Longrightarrow> abs_cache c' as = abs_cache c as"
  using only_links_items(1) [of c c' as] by (simp add: abs_cache_def only_links_def)

lemma rep_renew:
  assumes "rep c (xs @ a # ys)"
  shows "rep (renew a c) (xs @ ys @ [a])"
  using assms renew_chain [of c xs a ys] only_links_keyed [OF renew_only_links, of a c] only_links_items(1) [OF renew_only_links, of a c]
    renew_only_links [of c a]
  by (simp add: rep_def only_links_def)

lemma keyed_inj: "keyed c as \<Longrightarrow> a \<in> as \<Longrightarrow> b \<in> as \<Longrightarrow> id_of c a = id_of c b \<Longrightarrow> a = b"
  unfolding keyed_def by (metis option.inject prod.collapse)

lemma look_up_iff:
  assumes "keyed c as"
  shows "look_up c f k = Some a \<longleftrightarrow> a \<in> as \<and> id_of c a = (f, k)"
proof (cases "f < FAMILY_COUNT")
  case True
  then show ?thesis using assms by (simp add: look_up_def keyed_def)
next
  case False
  have "id_of c a \<noteq> (f, k)" if "a \<in> as"
  proof
    assume "id_of c a = (f, k)"
    moreover have "fst (id_of c a) < FAMILY_COUNT" using assms that by (simp add: keyed_def)
    ultimately show False using False by simp
  qed
  moreover have "length (families c) = FAMILY_COUNT" using assms by (simp add: keyed_def)
  ultimately show ?thesis using False by (auto simp: look_up_def)
qed

lemma look_up_Some: "keyed c as \<Longrightarrow> look_up c f k = Some a \<Longrightarrow> a \<in> as" "keyed c as \<Longrightarrow> look_up c f k = Some a \<Longrightarrow> id_of c a = (f, k)"
  by (simp_all add: look_up_iff)

lemma look_up_None: "keyed c as \<Longrightarrow> look_up c f k = None \<Longrightarrow> a \<in> as \<Longrightarrow> id_of c a \<noteq> (f, k)"
  by (metis look_up_iff option.distinct(1))

text \<open>Looking an item up and leaving it out, through the family map and in the list.\<close>

lemma rep_found:
  assumes "rep c as" "look_up c f k = Some a"
  obtains xs ys where "as = xs @ a # ys" "lru_find f k (items c as) = Some (item_of (store c a))" "lru_others f k (items c as) = items c (xs @ ys)"
proof -
  have k: "keyed c (set as)" "distinct as" using assms(1) by (simp_all add: rep_def chain_def)
  note a = look_up_Some [OF k(1) assms(2)]
  obtain xs ys where as: "as = xs @ a # ys" using a(1) by (auto simp: in_set_conv_decomp)
  have o: "b \<in> set xs \<union> set ys \<Longrightarrow> item_id (item_of (store c b)) \<noteq> (f, k)" for b
    using keyed_inj [OF k(1), of a b] a k(2) as by (auto simp: id_of_def)
  have "List.find (\<lambda>i. item_id i = (f, k)) (items c xs @ is) = List.find (\<lambda>i. item_id i = (f, k)) is" for "is"
    using o by (induction xs) (auto)
  then have "lru_find f k (items c as) = Some (item_of (store c a))" using a(2) by (simp add: lru_find_def as id_of_def)
  moreover have "filter (\<lambda>i. item_id i \<noteq> (f, k)) (items c zs) = items c zs" if "set zs \<subseteq> set xs \<union> set ys" for zs
    using o that by (intro filter_True) (auto simp: items_def)
  then have "lru_others f k (items c as) = items c (xs @ ys)" using a(2) by (simp add: lru_others_def as id_of_def)
  ultimately show ?thesis using that as by blast
qed

lemma rep_not_found:
  assumes "rep c as" "look_up c f k = None"
  shows "lru_find f k (items c as) = None" "lru_others f k (items c as) = items c as"
proof -
  have "\<forall>i \<in> set (items c as). item_id i \<noteq> (f, k)"
    using look_up_None [OF _ assms(2)] assms(1) by (auto simp: rep_def items_def id_of_def)
  then show "lru_find f k (items c as) = None" "lru_others f k (items c as) = items c as"
    by (simp_all add: lru_find_def lru_others_def find_None_iff)
qed

lemma get_refines:
  assumes "rep c as"
  shows "\<exists>as'. rep (snd (get_in f k c)) as' \<and> lru_get f k (abs_cache c as) = (fst (get_in f k c), abs_cache (snd (get_in f k c)) as')"
proof (cases "enabled c \<and> (\<exists>a. look_up c f k = Some a)")
  case False
  have "rep (c\<lparr>misses := n\<rparr>) as" for n using assms by (simp add: rep_def chain_def keyed_def items_def id_of_def)
  moreover have "items (c\<lparr>misses := n\<rparr>) as = items c as" for n by (simp add: items_def)
  ultimately show ?thesis using False assms rep_not_found [OF assms, of f k]
    by (intro exI [of _ as]) (auto simp: get_in_def lru_get_def abs_cache_def enabled_def)
next
  case True
  then obtain a where a: "look_up c f k = Some a" by blast
  obtain xs ys where as: "as = xs @ a # ys" "lru_find f k (items c as) = Some (item_of (store c a))"
    "lru_others f k (items c as) = items c (xs @ ys)" by (rule rep_found [OF assms a])
  let ?h = "c\<lparr>hits := hits c + 1\<rparr>"
  have h: "rep ?h (xs @ a # ys)" "items ?h zs = items c zs" for zs
    using assms as(1) by (simp_all add: rep_def chain_def keyed_def items_def id_of_def)
  note r = renew_only_links [of ?h a]
  have "rep (renew a ?h) (xs @ ys @ [a])" by (rule rep_renew [OF h(1)])
  moreover have "abs_cache (renew a ?h) (xs @ ys @ [a]) = abs_cache ?h (xs @ ys @ [a])" by (rule only_links_abs [OF r])
  moreover have "ce_payload (store (renew a ?h) a) = item_payload (item_of (store c a))"
    using r unfolding only_links_def by (metis item_parts(2) cache.select_convs(3) cache.surjective cache.update_convs(9))
  ultimately show ?thesis using True a as h(2)
    by (intro exI [of _ "xs @ ys @ [a]"]) (simp add: get_in_def lru_get_def abs_cache_def enabled_def Let_def)
qed

subsection \<open>Storing and evicting\<close>

definition drop_entry :: "nat \<Rightarrow> 'p cache \<Rightarrow> 'p cache" where
  "drop_entry a c = (let e = store c a; c = unlink a c in
     c\<lparr>families := (families c)[ce_family e := (families c ! ce_family e)(ce_key e := None)],
       entry_count := entry_count c - 1, used_bytes := used_bytes c - ce_bytes e, evictions := evictions c + 1\<rparr>)"

lemma keyed_drop:
  assumes "keyed c as" "a \<in> as" "only_links c c'"
    "c'' = c'\<lparr>families := (families c')[ce_family (store c a) := (families c' ! ce_family (store c a))(ce_key (store c a) := None)],
       entry_count := n, used_bytes := u, evictions := v\<rparr>"
  shows "keyed c'' (as - {a})"
proof -
  have id: "id_of c'' b = id_of c b" for b
    using only_links_items(2) [OF assms(3), of b] by (simp add: assms(4) id_of_def)
  have fam: "families c' = families c" "fresh c' = fresh c" using assms(3) by (simp_all add: only_links_def)
  have ida: "id_of c a = (ce_family (store c a), ce_key (store c a))" by (rule id_of_entry)
  then have fa: "ce_family (store c a) < FAMILY_COUNT" "length (families c) = FAMILY_COUNT" using assms(1,2) by (auto simp: keyed_def)
  have upd: "(families c'' ! f) k = (if (f, k) = id_of c a then None else (families c ! f) k)" if "f < FAMILY_COUNT" for f k
    using that fa by (auto simp: assms(4) fam ida nth_list_update)
  have uniq: "b = a" if "b \<in> as" "id_of c b = id_of c a" for b using keyed_inj [OF assms(1)] that assms(2) by blast
  have old: "(families c ! f) k = Some b \<longleftrightarrow> b \<in> as \<and> id_of c b = (f, k)" if "f < FAMILY_COUNT" for f k b
    using assms(1) that by (simp add: keyed_def)
  have len: "length (families c'') = FAMILY_COUNT" "fresh c'' = fresh c" using fa fam by (simp_all add: assms(4))
  have small: "fst (id_of c b) < FAMILY_COUNT \<and> b < fresh c" if "b \<in> as" for b using assms(1) that by (simp add: keyed_def)
  have iff: "(families c'' ! f) k = Some b \<longleftrightarrow> b \<in> as - {a} \<and> id_of c b = (f, k)" if f: "f < FAMILY_COUNT" for f k b
    unfolding upd [OF f] using old [OF f, of k b] uniq [of b] by auto
  show ?thesis unfolding keyed_def id len using iff small by simp
qed

lemma drop_entry_oldest:
  assumes "rep c (a # as)"
  shows "rep (drop_entry a c) as" "items (drop_entry a c) as = items c as" "oldest (drop_entry a c) = next (store c a)"
    "limit_bytes (drop_entry a c) = limit_bytes c" "evictions (drop_entry a c) = evictions c + 1"
    "hits (drop_entry a c) = hits c" "misses (drop_entry a c) = misses c" "id_of (drop_entry a c) b = id_of c b"
proof -
  let ?d = "drop_entry a c"
  have ch: "chain c ([] @ a # as)" using assms by (simp add: rep_def)
  note u = unlink_only_links [of c a]
  have un: "chain (unlink a c) as" using unlink_chain [OF ch] by simp
  have ch': "chain ?d as" using un by (simp add: chain_def drop_entry_def Let_def)
  have st: "store ?d = store (unlink a c)" by (simp add: drop_entry_def Let_def)
  then show it: "items ?d as = items c as" using only_links_items(1) [OF u] by (simp add: items_def)
  have "keyed ?d (set (a # as) - {a})"
    by (rule keyed_drop [OF _ _ u]) (use assms in \<open>simp_all add: rep_def drop_entry_def Let_def\<close>)
  moreover have "a \<notin> set as" using ch by (simp add: chain_def)
  ultimately have "keyed ?d (set as)" by simp
  moreover have "used_bytes ?d = items_bytes (items ?d as)" "entry_count ?d = int (length as)"
    using assms u it by (simp_all add: rep_def drop_entry_def Let_def only_links_def item_parts)
  ultimately show "rep ?d as" using ch' by (simp add: rep_def)
  have "next (store c a) = first_of as None" using ch by (simp add: chain_def)
  then show "oldest ?d = next (store c a)" using ch' by (simp add: chain_def)
  show "limit_bytes ?d = limit_bytes c" "evictions ?d = evictions c + 1" "hits ?d = hits c" "misses ?d = misses c" "id_of ?d b = id_of c b"
    using u by (simp_all add: drop_entry_def Let_def only_links_def id_of_def)
qed

lemma evict_refines:
  assumes "rep c (as @ [a])" "id_of c a = (f, k)" "ce_bytes (store c a) \<le> limit_bytes c"
  shows "\<exists>c' as'. evict_loop f k (oldest c) c = Some c' \<and> rep c' as' \<and> items c' as' = lru_evict (limit_bytes c) (items c (as @ [a]))
    \<and> limit_bytes c' = limit_bytes c \<and> hits c' = hits c \<and> misses c' = misses c
    \<and> evictions c' = evictions c + (int (length as) + 1 - int (length as'))"
  using assms
proof (induction as arbitrary: c)
  case Nil
  have "oldest c = Some a" "used_bytes c = ce_bytes (store c a)"
    using Nil.prems(1) by (simp_all add: rep_def chain_def item_parts)
  then show ?case using Nil.prems by (intro exI [of _ c] exI [of _ "[a]"]) (simp add: evict_loop.simps)
next
  case (Cons x xs)
  let ?all = "x # xs @ [a]"
  have r: "rep c ?all" using Cons.prems(1) by simp
  then have o: "oldest c = Some x" "used_bytes c = items_bytes (items c ?all)" "x \<noteq> a" "keyed c (set ?all)"
    by (auto simp: rep_def chain_def)
  show ?case
  proof (cases "limit_bytes c < used_bytes c")
    case False
    then show ?thesis using r o by (intro exI [of _ c] exI [of _ ?all]) (simp add: evict_loop.simps)
  next
    case True
    have "id_of c x \<noteq> (f, k)" using keyed_inj [OF o(4), of x a] o(3) Cons.prems(2) by auto
    then have ne: "ce_family (store c x) \<noteq> f \<or> ce_key (store c x) \<noteq> k" by (auto simp: id_of_entry)
    note d = drop_entry_oldest [OF r]
    have loop: "evict_loop f k (oldest c) c = evict_loop f k (oldest (drop_entry x c)) (drop_entry x c)"
      using True ne d(3) o(1) by (subst evict_loop.simps) (simp add: drop_entry_def Let_def)
    have "ce_bytes (store (drop_entry x c) a) = ce_bytes (store c a)"
      using d(2) by (simp add: items_def item_of_def)
    then obtain c' as' where ih: "evict_loop f k (oldest (drop_entry x c)) (drop_entry x c) = Some c'" "rep c' as'"
      "items c' as' = lru_evict (limit_bytes c) (items c (xs @ [a]))" "limit_bytes c' = limit_bytes c" "hits c' = hits c" "misses c' = misses c"
      "evictions c' = evictions c + 1 + (int (length xs) + 1 - int (length as'))"
      using Cons.IH [of "drop_entry x c"] d Cons.prems(2,3) by auto
    have "lru_evict (limit_bytes c) (items c ?all) = lru_evict (limit_bytes c) (items c (xs @ [a]))"
      using True o(2) by simp
    then show ?thesis using ih loop by (intro exI [of _ c'] exI [of _ as']) simp
  qed
qed

lemma keyed_insert:
  assumes "keyed c as" "look_up c f k = None" "f < FAMILY_COUNT" "\<And>b. b \<noteq> fresh c \<Longrightarrow> store c' b = store c b" "id_of c' (fresh c) = (f, k)"
    "families c' = (families c)[f := (families c ! f)(k \<mapsto> fresh c)]" "fresh c' = fresh c + 1"
  shows "keyed c' (insert (fresh c) as)"
proof -
  have nf: "a \<noteq> fresh c" if "a \<in> as" for a using assms(1) that by (auto simp: keyed_def)
  then have id: "id_of c' a = id_of c a" if "a \<in> as" for a using assms(4) that by (simp add: id_of_def)
  have len: "length (families c) = FAMILY_COUNT" using assms(1) by (simp add: keyed_def)
  have upd: "(families c' ! g) l = (if (g, l) = (f, k) then Some (fresh c) else (families c ! g) l)" if "g < FAMILY_COUNT" for g l
    using that assms(3) len by (auto simp: assms(6) nth_list_update)
  have old: "(families c ! g) l = Some b \<longleftrightarrow> b \<in> as \<and> id_of c b = (g, l)" if "g < FAMILY_COUNT" for g l b
    using assms(1) that by (simp add: keyed_def)
  have none: "id_of c a \<noteq> (f, k)" if "a \<in> as" for a using look_up_None [OF assms(1,2) that] .
  have small: "fst (id_of c a) < FAMILY_COUNT \<and> a < fresh c" if "a \<in> as" for a using assms(1) that by (simp add: keyed_def)
  have iff: "(families c' ! g) l = Some b \<longleftrightarrow> b \<in> insert (fresh c) as \<and> id_of c' b = (g, l)" if g: "g < FAMILY_COUNT" for g l b
  proof (cases "b = fresh c")
    case True
    then show ?thesis unfolding upd [OF g] using assms(5) old [OF g, of l b] nf by auto
  next
    case False
    then show ?thesis unfolding upd [OF g] using old [OF g, of l b] id [of b] none [of b] by auto
  qed
  have "fst (id_of c' b) < FAMILY_COUNT \<and> b < fresh c + 1" if "b \<in> insert (fresh c) as" for b
    using that small [of b] id [of b] assms(3,5) by auto
  moreover have "length (families c') = FAMILY_COUNT" using len by (simp add: assms(6))
  ultimately show ?thesis unfolding keyed_def assms(7) using iff by simp
qed

definition stored :: "nat \<Rightarrow> js_string \<Rightarrow> 'p \<Rightarrow> int \<Rightarrow> 'p cache \<Rightarrow> 'p cache" where
  "stored f k payload bytes c = (case (families c ! f) k of
     Some a \<Rightarrow>
       let c = c\<lparr>used_bytes := used_bytes c - ce_bytes (store c a)\<rparr>;
           c = set_entry a (\<lambda>e. e\<lparr>ce_payload := payload, ce_bytes := bytes\<rparr>) c
       in renew a (c\<lparr>used_bytes := used_bytes c + bytes\<rparr>)
   | None \<Rightarrow>
       let a = fresh c;
           c = c\<lparr>fresh := a + 1, store := (store c)(a := \<lparr>ce_family = f, ce_key = k, ce_payload = payload,
                 ce_bytes = bytes, previous = None, next = None\<rparr>)\<rparr>;
           c = c\<lparr>families := (families c)[f := (families c ! f)(k \<mapsto> a)], entry_count := entry_count c + 1\<rparr>;
           c = append_newest a c
       in c\<lparr>used_bytes := used_bytes c + bytes\<rparr>)"

lemma put_in_alt:
  "put_in f k payload bytes c =
     (if \<not> is_safe_integer bytes \<or> bytes < 0
      then Some (Some (RangeError ''Artifact cache entry bytes must be a non-negative whole number''), c)
      else if length (families c) \<le> f then Some (Some (RangeError ''Unknown artifact cache family''), c)
      else if \<not> enabled c \<or> \<not> is_safe_integer (charged f k bytes) \<or> limit_bytes c < charged f k bytes then Some (None, c)
      else map_option (Pair None) (evict_loop f k (oldest (stored f k payload (charged f k bytes) c)) (stored f k payload (charged f k bytes) c)))"
  by (simp only: put_in_def stored_def Let_def)

text \<open>The new or renewed item is the newest one.\<close>

definition put_state :: "'p cache \<Rightarrow> 'p cache \<Rightarrow> nat \<Rightarrow> nat list \<Rightarrow> 'p item \<Rightarrow> 'p item list \<Rightarrow> bool" where
  "put_state c c' a bs i others \<longleftrightarrow> rep c' (bs @ [a]) \<and> items c' (bs @ [a]) = others @ [i] \<and> limit_bytes c' = limit_bytes c
     \<and> hits c' = hits c \<and> misses c' = misses c \<and> evictions c' = evictions c"

lemma stored_existing:
  assumes "rep c as" "look_up c f k = Some a" "f < FAMILY_COUNT"
  shows "\<exists>bs. put_state c (stored f k payload bytes c) a bs (f, k, payload, bytes) (lru_others f k (items c as))"
proof -
  obtain xs ys where as: "as = xs @ a # ys" "lru_others f k (items c as) = items c (xs @ ys)" by (rule rep_found [OF assms(1,2)])
  have r: "chain c (xs @ a # ys)" "keyed c (set (xs @ a # ys))" "used_bytes c = items_bytes (items c (xs @ a # ys))"
    "entry_count c = int (length (xs @ a # ys))" using assms(1) by (simp_all add: rep_def as(1))
  have lk: "(families c ! f) k = Some a" "id_of c a = (f, k)"
    using assms(2,3) look_up_Some(2) [OF r(2) assms(2)] by (simp_all add: look_up_def split: if_splits)
  define m where "m = c\<lparr>store := (store c)(a := (store c a)\<lparr>ce_payload := payload, ce_bytes := bytes\<rparr>),
    used_bytes := used_bytes c - ce_bytes (store c a) + bytes\<rparr>"
  have links: "linked (store m) None zs None = linked (store c) None zs None" for zs by (rule linked_cong) (simp add: m_def)
  have idm: "id_of m b = id_of c b" for b by (simp add: m_def id_of_entry)
  have "a \<notin> set (xs @ ys)" using r(1) by (auto simp: chain_def)
  then have itm: "items m (xs @ ys) = items c (xs @ ys)" by (auto simp: items_def m_def)
  have "rep m (xs @ a # ys)" unfolding rep_def
  proof (intro conjI)
    show "chain m (xs @ a # ys)" using r(1) links by (simp add: chain_def) (simp add: m_def)
    show "keyed m (set (xs @ a # ys))" using r(2) unfolding keyed_def idm by (simp add: m_def)
    show "used_bytes m = items_bytes (items m (xs @ a # ys))" using r(3) itm by (simp add: item_parts) (simp add: m_def)
    show "entry_count m = int (length (xs @ a # ys))" using r(4) by (simp add: m_def)
  qed
  then have rn: "rep (renew a m) ((xs @ ys) @ [a])" using rep_renew by fastforce
  note l = renew_only_links [of m a]
  have "items (renew a m) ((xs @ ys) @ [a]) = items c (xs @ ys) @ [(f, k, payload, bytes)]"
    unfolding only_links_items(1) [OF l] using itm lk(2) by (simp add: id_of_entry) (simp add: m_def item_of_def)
  moreover have "stored f k payload bytes c = renew a m" by (simp add: stored_def lk(1) Let_def m_def set_entry_def)
  moreover have "limit_bytes (renew a m) = limit_bytes c" "hits (renew a m) = hits c" "misses (renew a m) = misses c"
    "evictions (renew a m) = evictions c" using l by (simp_all add: only_links_def) (simp_all add: m_def)
  ultimately show ?thesis using rn as(2) unfolding put_state_def by metis
qed

lemma stored_new:
  assumes "rep c as" "look_up c f k = None" "f < FAMILY_COUNT"
  shows "put_state c (stored f k payload bytes c) (fresh c) as (f, k, payload, bytes) (lru_others f k (items c as))"
proof -
  let ?a = "fresh c"
  have r: "chain c as" "keyed c (set as)" "used_bytes c = items_bytes (items c as)" "entry_count c = int (length as)"
    using assms(1) by (simp_all add: rep_def)
  have lk: "(families c ! f) k = None" using assms(2,3) r(2) by (simp add: look_up_def keyed_def split: if_splits)
  have nf: "?a \<notin> set as" using r(2) by (auto simp: keyed_def)
  define m where "m = c\<lparr>fresh := ?a + 1, store := (store c)(?a := \<lparr>ce_family = f, ce_key = k, ce_payload = payload,
                 ce_bytes = bytes, previous = None, next = None\<rparr>), families := (families c)[f := (families c ! f)(k \<mapsto> ?a)],
                 entry_count := entry_count c + 1\<rparr>"
  have "chain m as" using r(1) nf by (simp add: chain_def m_def)
  then have ch: "chain (append_newest ?a m) (as @ [?a])" by (rule append_chain [OF _ nf])
  have ky: "keyed m (insert ?a (set as))"
    by (rule keyed_insert [OF r(2) assms(2,3)]) (simp_all add: m_def id_of_entry)
  note l = append_only_links [of m ?a]
  have itm: "items m (as @ [?a]) = items c as @ [(f, k, payload, bytes)]" using nf by (auto simp: items_def m_def item_of_def)
  define c' where "c' = (append_newest ?a m)\<lparr>used_bytes := used_bytes (append_newest ?a m) + bytes\<rparr>"
  have it: "items c' (as @ [?a]) = items c as @ [(f, k, payload, bytes)]"
    using only_links_items(1) [OF l, of "as @ [?a]"] itm by (simp add: c'_def items_def)
  have "rep c' (as @ [?a])" unfolding rep_def
  proof (intro conjI)
    show "chain c' (as @ [?a])" using ch by (simp add: chain_def c'_def)
    have "keyed (append_newest ?a m) (set (as @ [?a]))" using ky by (simp add: only_links_keyed [OF l])
    then show "keyed c' (set (as @ [?a]))" by (simp add: keyed_def c'_def id_of_def)
    have "used_bytes (append_newest ?a m) = items_bytes (items c as)" using l r(3) by (simp add: only_links_def) (simp add: m_def)
    then show "used_bytes c' = items_bytes (items c' (as @ [?a]))" unfolding it by (simp add: c'_def item_bytes_def)
    have "entry_count (append_newest ?a m) = entry_count c + 1" using l by (simp add: only_links_def) (simp add: m_def)
    then show "entry_count c' = int (length (as @ [?a]))" using r(4) by (simp add: c'_def)
  qed
  moreover have "stored f k payload bytes c = c'" by (simp add: stored_def lk Let_def m_def c'_def)
  moreover have "limit_bytes c' = limit_bytes c" "hits c' = hits c" "misses c' = misses c" "evictions c' = evictions c"
    using l by (simp_all add: only_links_def c'_def) (simp_all add: m_def)
  ultimately show ?thesis using it rep_not_found(2) [OF assms(1,2)] by (simp add: put_state_def)
qed

lemma length_evict: "is \<noteq> [] \<Longrightarrow> length (lru_evict limit is) \<le> length is"
  by (induction limit "is" rule: lru_evict.induct) (auto simp: le_SucI)

lemma put_refines:
  assumes "rep c as"
  shows "\<exists>e c' as'. put_in f k payload bytes c = Some (e, c') \<and> rep c' as'
    \<and> lru_put f k payload bytes (abs_cache c as) = (e, abs_cache c' as')"
proof -
  have len: "length (families c) = FAMILY_COUNT" using assms by (simp add: rep_def keyed_def)
  let ?b = "charged f k bytes"
  show ?thesis
  proof (cases "is_safe_integer bytes \<and> 0 \<le> bytes \<and> f < FAMILY_COUNT \<and> enabled c \<and> is_safe_integer ?b \<and> ?b \<le> limit_bytes c")
    case False
    then have "\<exists>e. put_in f k payload bytes c = Some (e, c) \<and> lru_put f k payload bytes (abs_cache c as) = (e, abs_cache c as)"
      unfolding put_in_alt using len by (auto simp: lru_put_def abs_cache_def enabled_def Let_def)
    then show ?thesis using assms by blast
  next
    case True
    then obtain a bs where p: "put_state c (stored f k payload ?b c) a bs (f, k, payload, ?b) (lru_others f k (items c as))"
      using stored_existing [OF assms] stored_new [OF assms] by (cases "look_up c f k") blast+
    let ?s = "stored f k payload ?b c"
    have s: "rep ?s (bs @ [a])" "items ?s (bs @ [a]) = lru_others f k (items c as) @ [(f, k, payload, ?b)]" "limit_bytes ?s = limit_bytes c"
      "hits ?s = hits c" "misses ?s = misses c" "evictions ?s = evictions c" using p by (simp_all add: put_state_def)
    have l: "length (bs @ [a]) = length (lru_others f k (items c as)) + 1" using arg_cong [OF s(2), of length] by simp
    have "item_of (store ?s a) = (f, k, payload, ?b)" using s(2) by simp
    then have a: "id_of ?s a = (f, k)" "ce_bytes (store ?s a) \<le> limit_bytes ?s"
      using True s(3) by (simp_all add: id_of_def item_id_def item_of_def)
    from evict_refines [OF s(1) a] obtain c' as' where e: "evict_loop f k (oldest ?s) ?s = Some c'" "rep c' as'"
      "items c' as' = lru_evict (limit_bytes c) (items ?s (bs @ [a]))" "limit_bytes c' = limit_bytes c" "hits c' = hits c" "misses c' = misses c"
      "evictions c' = evictions c + (int (length bs) + 1 - int (length as'))" using s by auto
    have "put_in f k payload bytes c = Some (None, c')" unfolding put_in_alt using True len e(1) by simp
    moreover have "length (items c' as') = length (lru_evict (limit_bytes c) (items ?s (bs @ [a])))" by (simp only: e(3))
    then have "length (lru_evict (limit_bytes c) (lru_others f k (items c as) @ [(f, k, payload, ?b)])) = length as'"
      unfolding s(2) by (simp only: items_simps)
    moreover from this have "length as' \<le> Suc (length (lru_others f k (items c as)))"
      using length_evict [of "lru_others f k (items c as) @ [(f, k, payload, ?b)]" "limit_bytes c"] by simp
    ultimately have "lru_put f k payload bytes (abs_cache c as) = (None, abs_cache c' as')"
      using True e(3-7) s(2) l
      by (simp add: lru_put_def abs_cache_def enabled_def Let_def)
    with \<open>put_in f k payload bytes c = Some (None, c')\<close> show ?thesis using e(2) by blast
  qed
qed

lemma retain_refines:
  assumes "rep c as"
  shows "\<exists>e c' as'. retain k payload bytes c = Some (e, c') \<and> rep c' as'
    \<and> lru_retain k payload bytes (abs_cache c as) = (e, abs_cache c' as')"
proof (cases "look_up c KEYED k")
  case None
  then show ?thesis using put_refines [OF assms, of KEYED k payload bytes] rep_not_found(1) [OF assms None]
    by (simp add: retain_def lru_retain_def abs_cache_def)
next
  case (Some a)
  obtain xs ys where as: "as = xs @ a # ys" "lru_find KEYED k (items c as) = Some (item_of (store c a))"
    "lru_others KEYED k (items c as) = items c (xs @ ys)" by (rule rep_found [OF assms Some])
  show ?thesis
  proof (cases "ce_payload (store c a) = payload")
    case False
    then show ?thesis using Some as assms by (intro exI [of _ None] exI [of _ c] exI [of _ as])
      (simp add: retain_def lru_retain_def abs_cache_def item_parts)
  next
    case True
    have "retain k payload bytes c = Some (None, renew a c)" using True Some by (simp add: retain_def renew_def)
    moreover have "rep (renew a c) (xs @ ys @ [a])" using assms unfolding as(1) by (rule rep_renew)
    moreover have "abs_cache (renew a c) (xs @ ys @ [a]) = abs_cache c (xs @ ys @ [a])" by (rule only_links_abs [OF renew_only_links])
    ultimately show ?thesis using True as
      by (intro exI [of _ None] exI [of _ "renew a c"] exI [of _ "xs @ ys @ [a]"]) (simp add: lru_retain_def abs_cache_def item_parts)
  qed
qed

lemma clear_refines: "rep c as \<Longrightarrow> rep (clear c) [] \<and> lru_clear (abs_cache c as) = abs_cache (clear c) []"
  by (simp add: rep_def clear_def chain_def keyed_def lru_clear_def abs_cache_def)

lemma new_refines: "new_cache st limit = Inr c \<Longrightarrow> rep c [] \<and> 0 \<le> limit_bytes c
    \<and> abs_cache c [] = \<lparr>lru_limit = limit, lru_items = [], lru_hits = 0, lru_misses = 0, lru_evictions = 0\<rparr>"
  by (auto simp: new_cache_def rep_def chain_def keyed_def abs_cache_def split: if_splits)

subsection \<open>Runs\<close>

datatype 'p cache_op = Get nat js_string | Put nat js_string 'p int | Retain js_string 'p int | Clear

datatype 'p cache_reply = Found "'p option" | Done | Threw js_error

definition reply_of :: "js_error option \<Rightarrow> 'p cache_reply" where
  "reply_of e = (case e of None \<Rightarrow> Done | Some e \<Rightarrow> Threw e)"

definition cache_step :: "'p cache_op \<Rightarrow> 'p cache \<Rightarrow> ('p cache_reply \<times> 'p cache) option" where
  "cache_step op c = (case op of
     Get f k \<Rightarrow> (case get_in f k c of (p, c) \<Rightarrow> Some (Found p, c))
   | Put f k p b \<Rightarrow> map_option (map_prod reply_of id) (put_in f k p b c)
   | Retain k p b \<Rightarrow> map_option (map_prod reply_of id) (retain k p b c)
   | Clear \<Rightarrow> Some (Done, clear c))"

definition lru_step :: "'p cache_op \<Rightarrow> 'p lru \<Rightarrow> 'p cache_reply \<times> 'p lru" where
  "lru_step op s = (case op of
     Get f k \<Rightarrow> map_prod Found id (lru_get f k s)
   | Put f k p b \<Rightarrow> map_prod reply_of id (lru_put f k p b s)
   | Retain k p b \<Rightarrow> map_prod reply_of id (lru_retain k p b s)
   | Clear \<Rightarrow> (Done, lru_clear s))"

fun cache_run :: "'p cache_op list \<Rightarrow> 'p cache \<Rightarrow> ('p cache_reply list \<times> 'p cache) option" where
  "cache_run [] c = Some ([], c)"
| "cache_run (op # ops) c = (case cache_step op c of None \<Rightarrow> None
     | Some (r, c) \<Rightarrow> map_option (map_prod ((#) r) id) (cache_run ops c))"

fun lru_run :: "'p cache_op list \<Rightarrow> 'p lru \<Rightarrow> 'p cache_reply list \<times> 'p lru" where
  "lru_run [] s = ([], s)"
| "lru_run (op # ops) s = (case lru_step op s of (r, s) \<Rightarrow> map_prod ((#) r) id (lru_run ops s))"

lemma step_refines:
  assumes "rep c as"
  shows "\<exists>r c' as'. cache_step op c = Some (r, c') \<and> rep c' as' \<and> lru_step op (abs_cache c as) = (r, abs_cache c' as')"
proof (cases op)
  case (Get f k)
  then show ?thesis using get_refines [OF assms, of f k] by (auto simp: cache_step_def lru_step_def split: prod.splits)
next
  case (Put f k p b)
  then show ?thesis using put_refines [OF assms, of f k p b] by (fastforce simp: cache_step_def lru_step_def)
next
  case (Retain k p b)
  then show ?thesis using retain_refines [OF assms, of k p b] by (fastforce simp: cache_step_def lru_step_def)
next
  case Clear
  then show ?thesis using clear_refines [OF assms] by (auto simp: cache_step_def lru_step_def)
qed

lemma run_refines:
  "rep c as \<Longrightarrow> \<exists>rs c' as'. cache_run ops c = Some (rs, c') \<and> rep c' as' \<and> lru_run ops (abs_cache c as) = (rs, abs_cache c' as')"
proof (induction ops arbitrary: c as)
  case Nil
  then show ?case by auto
next
  case (Cons op ops)
  obtain r c1 as1 where s: "cache_step op c = Some (r, c1)" "rep c1 as1" "lru_step op (abs_cache c as) = (r, abs_cache c1 as1)"
    using step_refines [OF Cons.prems] by blast
  obtain rs c' as' where t: "cache_run ops c1 = Some (rs, c')" "rep c' as'" "lru_run ops (abs_cache c1 as1) = (rs, abs_cache c' as')"
    using Cons.IH [OF s(2)] by blast
  show ?case using s t by (intro exI [of _ "r # rs"] exI [of _ c'] exI [of _ as']) simp
qed

text \<open>The limit and the counters, on the list.\<close>

lemma evict_bound: "is = us @ [i] \<Longrightarrow> item_bytes i \<le> limit \<Longrightarrow> items_bytes (lru_evict limit is) \<le> limit"
proof (induction limit "is" arbitrary: us rule: lru_evict.induct)
  case (2 limit x xs)
  then show ?case
  proof (cases us)
    case (Cons y ys)
    then have "items_bytes (lru_evict limit xs) \<le> limit" if "\<not> (xs = [] \<or> items_bytes (x # xs) \<le> limit)"
      using 2 that by simp
    then show ?thesis using Cons 2(2) by auto
  qed simp
qed simp

definition lru_ok :: "'p lru \<Rightarrow> bool" where
  "lru_ok s \<longleftrightarrow> items_bytes (lru_items s) \<le> lru_limit s \<and> (\<forall>i \<in> set (lru_items s). 96 \<le> item_bytes i)"

lemma evict_subset: "set (lru_evict limit is) \<subseteq> set is"
  by (induction limit "is" rule: lru_evict.induct) auto

lemma others_subset: "set (lru_others f k is) \<subseteq> set is"
  by (auto simp: lru_others_def)

lemma items_bytes_nonneg: "\<forall>i \<in> set is. 96 \<le> item_bytes i \<Longrightarrow> 0 \<le> items_bytes is"
  unfolding items_bytes_def by (rule sum_list_nonneg) auto

lemma items_charge: "\<forall>i \<in> set is. 96 \<le> item_bytes i \<Longrightarrow> 96 * int (length is) \<le> items_bytes is"
  by (induction "is") auto

lemma others_bytes: "\<forall>i \<in> set is. 96 \<le> item_bytes i \<Longrightarrow> items_bytes (lru_others f k is) \<le> items_bytes is"
  by (induction "is") (auto simp: lru_others_def)

lemma found_bytes: "\<forall>i \<in> set is. 96 \<le> item_bytes i \<Longrightarrow> lru_find f k is = Some j \<Longrightarrow>
    j \<in> set is \<and> items_bytes (lru_others f k is) + item_bytes j \<le> items_bytes is"
proof (induction "is")
  case (Cons i "is")
  show ?case
  proof (cases "item_id i = (f, k)")
    case True
    then show ?thesis using Cons.prems others_bytes [of "is" f k] by (simp add: lru_find_def lru_others_def)
  next
    case False
    then show ?thesis using Cons by (auto simp: lru_find_def lru_others_def)
  qed
qed (simp add: lru_find_def)

lemma put_ok: "lru_ok s \<Longrightarrow> lru_ok (snd (lru_put f k p b s))"
proof -
  assume s: "lru_ok s"
  let ?all = "lru_others f k (lru_items s) @ [(f, k, p, charged f k b)]"
  have "set (lru_evict (lru_limit s) ?all) \<subseteq> set ?all" by (rule evict_subset)
  moreover have "0 \<le> b \<Longrightarrow> \<forall>i \<in> set ?all. 96 \<le> item_bytes i"
    using s others_subset [of f k "lru_items s"] by (auto simp: lru_ok_def item_bytes_def charged_def)
  moreover have "charged f k b \<le> lru_limit s \<Longrightarrow> items_bytes (lru_evict (lru_limit s) ?all) \<le> lru_limit s"
    by (rule evict_bound [OF refl]) (simp add: item_bytes_def)
  ultimately show ?thesis using s by (auto simp: lru_ok_def lru_put_def Let_def)
qed

lemma renewed_ok: "lru_ok s \<Longrightarrow> lru_find f k (lru_items s) = Some i \<Longrightarrow> items_bytes (lru_others f k (lru_items s) @ [i]) \<le> lru_limit s
    \<and> (\<forall>j \<in> set (lru_others f k (lru_items s) @ [i]). 96 \<le> item_bytes j)"
  using found_bytes [of "lru_items s" f k i] others_subset [of f k "lru_items s"] by (auto simp: lru_ok_def)

lemma lru_step_ok: "lru_ok s \<Longrightarrow> lru_ok (snd (lru_step op s)) \<or> lru_limit s < 0"
proof (cases op)
  case (Get f k)
  then show "lru_ok s \<Longrightarrow> ?thesis" using renewed_ok [of s f k]
    by (auto simp: lru_step_def lru_get_def lru_ok_def split: option.split)
next
  case (Put f k p b)
  then show "lru_ok s \<Longrightarrow> ?thesis" using put_ok by (auto simp: lru_step_def)
next
  case (Retain k p b)
  then show "lru_ok s \<Longrightarrow> ?thesis" using renewed_ok [of s KEYED k] put_ok [of s KEYED k p b]
    by (auto simp: lru_step_def lru_retain_def lru_ok_def split: option.split)
next
  case Clear
  then show "lru_ok s \<Longrightarrow> ?thesis" by (auto simp: lru_step_def lru_clear_def lru_ok_def)
qed

lemma lru_step_limit: "lru_limit (snd (lru_step op s)) = lru_limit s"
  by (auto simp: lru_step_def lru_get_def lru_put_def lru_retain_def lru_clear_def Let_def split: cache_op.split option.split)

lemma lru_run_ok: "lru_ok s \<Longrightarrow> 0 \<le> lru_limit s \<Longrightarrow> lru_ok (snd (lru_run ops s)) \<and> lru_limit (snd (lru_run ops s)) = lru_limit s"
proof (induction ops arbitrary: s)
  case (Cons op ops)
  then show ?case using lru_step_ok [OF Cons.prems(1), of op] lru_step_limit [of op s] Cons.IH [of "snd (lru_step op s)"]
    by (auto split: prod.splits)
qed simp

subsection \<open>Properties of the cache\<close>

definition empty_lru :: "int \<Rightarrow> 'p lru" where
  "empty_lru limit = \<lparr>lru_limit = limit, lru_items = [], lru_hits = 0, lru_misses = 0, lru_evictions = 0\<rparr>"

text \<open>
  Property C4: the cache is a list of items in order of use. Any sequence of \<open>getIn\<close>, \<open>putIn\<close>, \<open>retain\<close> and \<open>clear\<close> returns (the
  eviction loop ends), replies as the list does, payload by payload and error by error, and its counters are the
  list's.
\<close>

theorem cache_refines_lru:
  assumes "new_cache st limit = Inr c"
  shows "\<exists>rs c' s. cache_run ops c = Some (rs, c') \<and> lru_run ops (empty_lru limit) = (rs, s)
    \<and> used_bytes c' = items_bytes (lru_items s) \<and> entry_count c' = int (length (lru_items s))
    \<and> hits c' = lru_hits s \<and> misses c' = lru_misses s \<and> evictions c' = lru_evictions s"
proof -
  note n = new_refines [OF assms]
  obtain rs c' as' where r: "cache_run ops c = Some (rs, c')" "rep c' as'" "lru_run ops (abs_cache c []) = (rs, abs_cache c' as')"
    using run_refines n by blast
  then show ?thesis using n by (intro exI [of _ rs] exI [of _ c'] exI [of _ "abs_cache c' as'"]) (simp add: rep_def abs_cache_def empty_lru_def)
qed

text \<open>
  The cache never holds more bytes than its limit, each resident item being charged at least its fixed cost of 96,
  and the store's accounting is exact after any sequence of operations.
\<close>

theorem cache_within_limit:
  assumes "new_cache st limit = Inr c" "cache_run ops c = Some (rs, c')"
  shows "used_bytes c' \<le> limit \<and> 0 \<le> entry_count c' \<and> 96 * entry_count c' \<le> used_bytes c'"
proof -
  note n = new_refines [OF assms(1)]
  obtain as' where r: "rep c' as'" "lru_run ops (abs_cache c []) = (rs, abs_cache c' as')"
    using run_refines [of c "[]" ops] n assms(2) by auto
  have "lru_ok (abs_cache c []) \<and> 0 \<le> lru_limit (abs_cache c [])" using n by (simp add: lru_ok_def abs_cache_def)
  then have ok: "lru_ok (abs_cache c' as')" "lru_limit (abs_cache c' as') = lru_limit (abs_cache c [])"
    using lru_run_ok [of "abs_cache c []" ops] r(2) by simp_all
  have "96 * int (length (items c' as')) \<le> items_bytes (items c' as')"
    by (rule items_charge) (use ok(1) in \<open>simp add: lru_ok_def abs_cache_def\<close>)
  then show ?thesis using ok n r(1) by (simp add: lru_ok_def abs_cache_def rep_def)
qed

definition demo_store :: "nat \<Rightarrow> nat cache_entry" where
  "demo_store a = \<lparr>ce_family = 0, ce_key = [], ce_payload = 0, ce_bytes = 0, previous = None, next = None\<rparr>"

definition demo_ops :: "nat cache_op list" where
  "demo_ops = [Put 1 [97] 5 10, Put 1 [98] 6 10, Get 1 [97], Put 2 [99] 7 10, Get 1 [98], Put 9 [] 0 0]"

lemma demo_run: "fst (lru_run demo_ops (empty_lru 250))
    = [Done, Done, Found (Some 5), Done, Found None, Threw (RangeError ''Unknown artifact cache family'')]"
  by (simp add: demo_ops_def empty_lru_def lru_step_def lru_put_def lru_get_def lru_find_def lru_others_def item_id_def item_bytes_def
    item_payload_def charged_def KEYED_def FAMILY_KEY_PREFIX_CHARACTERS_def FAMILY_COUNT_def is_safe_integer_def MAX_SAFE_INTEGER_def
    reply_of_def Let_def)

lemma cache_refines_lru_witness:
  "\<exists>c c'. new_cache demo_store 250 = Inr c \<and> cache_run demo_ops c
    = Some ([Done, Done, Found (Some 5), Done, Found None, Threw (RangeError ''Unknown artifact cache family'')], c')"
proof -
  obtain c where c: "new_cache demo_store 250 = Inr c" by (simp add: new_cache_def is_safe_integer_def MAX_SAFE_INTEGER_def)
  from cache_refines_lru [OF c, of demo_ops] c demo_run show ?thesis by (metis fst_conv)
qed

lemma cache_within_limit_witness:
  "\<exists>c rs c'. new_cache demo_store 250 = Inr c \<and> cache_run demo_ops c = Some (rs, c') \<and> used_bytes c' \<le> 250"
proof -
  obtain c where c: "new_cache demo_store 250 = Inr c" by (simp add: new_cache_def is_safe_integer_def MAX_SAFE_INTEGER_def)
  obtain rs c' where r: "cache_run demo_ops c = Some (rs, c')" using run_refines [of c "[]" demo_ops] new_refines [OF c] by blast
  from cache_within_limit [OF c r] c r show ?thesis by blast
qed

end
