(* ===== verification/Bitmap.thy ===== *)
theory Bitmap
  imports Prelude
begin

text \<open>
  The bitmaps of \<open>block-format/physical.ts\<close> and \<open>block-format/column.ts\<close>: bit \<open>index\<close> of a bitmap is
  bit \<open>index mod 8\<close> of byte \<open>index div 8\<close>. \<open>bitmap\<close> is the canonical bitmap of a list of flags; the
  lemmas show when bytes are that bitmap, and that the table-driven count counts its set bits.
\<close>

subsection \<open>The operations of the source\<close>

definition has_bit :: "byte list \<Rightarrow> nat \<Rightarrow> bool" where
  "has_bit bm index \<longleftrightarrow> at0 bm (index div 8) AND push_bit (index mod 8) 1 \<noteq> 0"

definition put_bit :: "byte list \<Rightarrow> nat \<Rightarrow> byte list" where
  "put_bit bm index = bm[index div 8 := at0 bm (index div 8) OR push_bit (index mod 8) 1]"

definition bitmap_length :: "nat \<Rightarrow> nat" where
  "bitmap_length rows = (rows + 7) div 8"

text \<open>The table of set bits per byte, filled in order.\<close>

definition popcount_step :: "nat list \<Rightarrow> nat \<Rightarrow> nat list" where
  "popcount_step t value = t[value := at0 t (value div 2) + value mod 2]"

definition POPCOUNT :: "nat list" where
  "POPCOUNT = foldl popcount_step (replicate 256 0) [0..<256]"

definition count_set_bits :: "byte list \<Rightarrow> nat \<Rightarrow> nat" where
  "count_set_bits bytes rows =
     (let whole = rows div 8;
          count = foldl (\<lambda>count index. count + at0 POPCOUNT (unat (at0 bytes index))) 0 [0..<whole]
      in foldl (\<lambda>count index. if has_bit bytes index then count + 1 else count) count [whole * 8..<rows])"

definition assert_zero_padding_bits :: "byte list \<Rightarrow> nat \<Rightarrow> unit result" where
  "assert_zero_padding_bits bm rows =
     (let used = rows mod 8 in
      if used = 0 \<or> bm = [] then Inr ()
      else if at0 bm (length bm - 1) AND NOT (push_bit used 1 - 1) \<noteq> 0
        then Inl (PlainError ''Non-zero padding'') else Inr ())"

subsection \<open>Bits of a bitmap\<close>

lemma has_bit_bit: "has_bit bm i \<longleftrightarrow> bit (at0 bm (i div 8)) (i mod 8)"
proof -
  let ?b = "at0 bm (i div 8)" and ?m = "push_bit (i mod 8) 1 :: byte"
  have one: "bit ?m n \<longleftrightarrow> n = i mod 8" for n by (auto simp: bit_simps)
  then have "?b AND ?m = (if bit ?b (i mod 8) then ?m else 0)"
    by (intro bit_word_eqI) (auto simp: bit_and_iff)
  moreover have "?m \<noteq> 0" using one by (metis bit_0_eq bot_apply bot_bool_def)
  ultimately show ?thesis by (simp add: has_bit_def)
qed

lemma byte_bit_lt: "bit (b :: byte) n \<Longrightarrow> n < 8"
  using bit_imp_le_length [of b n] by simp

lemma length_put_bit [simp]: "length (put_bit bm i) = length bm"
  by (simp add: put_bit_def)

lemma has_bit_put_bit: "has_bit (put_bit bm i) j \<longleftrightarrow> (j = i \<and> i div 8 < length bm) \<or> has_bit bm j"
proof (cases "j div 8 = i div 8 \<and> i div 8 < length bm")
  case True
  then have at: "at0 (put_bit bm i) (i div 8) = at0 bm (i div 8) OR push_bit (i mod 8) 1"
    by (simp add: put_bit_def at0_def)
  have "bit (push_bit (i mod 8) 1 :: byte) (j mod 8) \<longleftrightarrow> j mod 8 = i mod 8"
    by (auto simp: bit_simps)
  moreover have "j mod 8 = i mod 8 \<longleftrightarrow> j = i" using True by (metis div_mult_mod_eq)
  ultimately show ?thesis using True by (auto simp: has_bit_bit at bit_or_iff)
next
  case False
  then have "at0 (put_bit bm i) (j div 8) = at0 bm (j div 8)"
    by (auto simp: put_bit_def at0_def nth_list_update)
  then show ?thesis using False by (auto simp: has_bit_bit)
qed

lemma has_bit_beyond: "8 * length bm \<le> i \<Longrightarrow> \<not> has_bit bm i"
  by (auto simp: has_bit_bit at0_def)

lemma has_bit_zeros [simp]: "\<not> has_bit (replicate n 0) i"
  by (simp add: has_bit_bit at0_def)

lemma bitmap_length_bounds: "rows \<le> 8 * bitmap_length rows" "8 * bitmap_length rows < rows + 8"
  by (simp_all add: bitmap_length_def)

lemma bitmap_ext:
  assumes "length a = length b" "\<And>i. has_bit a i = has_bit b i"
  shows "a = b"
proof (rule nth_equalityI [OF assms(1)])
  fix k assume k: "k < length a"
  show "a ! k = b ! k"
  proof (rule bit_word_eqI)
    fix n assume "n < LENGTH(8)"
    then have n: "n < 8" by simp
    then have "has_bit a (8 * k + n) = bit (a ! k) n" "has_bit b (8 * k + n) = bit (b ! k) n"
      using k assms(1) by (simp_all add: has_bit_bit at0_def)
    then show "bit (a ! k) n = bit (b ! k) n" using assms(2) by simp
  qed
qed

subsection \<open>The bitmap of a list of flags\<close>

definition bitmap :: "bool list \<Rightarrow> byte list" where
  "bitmap flags = map (\<lambda>k. horner_sum of_bool 2 (take 8 (drop (8 * k) flags))) [0..<bitmap_length (length flags)]"

lemma length_bitmap [simp]: "length (bitmap flags) = bitmap_length (length flags)"
  by (simp add: bitmap_def)

lemma has_bit_bitmap: "has_bit (bitmap flags) i \<longleftrightarrow> i < length flags \<and> flags ! i"
proof (cases "i div 8 < bitmap_length (length flags)")
  case True
  then have "at0 (bitmap flags) (i div 8) = horner_sum of_bool 2 (take 8 (drop (8 * (i div 8)) flags))"
    by (simp add: bitmap_def at0_def)
  moreover have "8 * (i div 8) + i mod 8 = i" by simp
  moreover have "8 * (i div 8) \<le> length flags \<or> \<not> i < length flags" by linarith
  ultimately show ?thesis
    by (auto simp: has_bit_bit bit_horner_sum_bit_word_iff nth_append less_diff_conv add.commute)
next
  case False
  then have "length flags \<le> i" by (auto simp: bitmap_length_def)
  then show ?thesis using False by (simp add: has_bit_beyond has_bit_bit at0_def)
qed

lemma bitmap_eqI:
  assumes "length bm = bitmap_length (length flags)" "\<And>i. i < length flags \<Longrightarrow> has_bit bm i = flags ! i"
    "\<And>i. length flags \<le> i \<Longrightarrow> \<not> has_bit bm i"
  shows "bm = bitmap flags"
proof (rule bitmap_ext)
  fix i show "has_bit bm i = has_bit (bitmap flags) i"
    using assms(2,3) [of i] by (cases "i < length flags") (simp_all add: has_bit_bitmap)
qed (simp add: assms(1))

lemma padding_ok:
  assumes "length bm = bitmap_length rows"
  shows "assert_zero_padding_bits bm rows = Inr () \<longleftrightarrow> (\<forall>i \<ge> rows. \<not> has_bit bm i)"
proof (cases "rows mod 8 = 0 \<or> bm = []")
  case True
  have "8 * length bm = rows \<or> bm = []"
  proof (cases "bm = []")
    case False
    with True have "rows mod 8 = 0" by simp
    then have "8 * ((rows + 7) div 8) = rows" by presburger
    then show ?thesis using assms by (simp add: bitmap_length_def)
  qed simp
  then have "\<forall>i \<ge> rows. \<not> has_bit bm i" using has_bit_beyond [of bm] by (auto simp: has_bit_bit at0_def)
  then show ?thesis using True by (auto simp: assert_zero_padding_bits_def Let_def)
next
  case False
  define u where "u = rows mod 8"
  have u: "0 < u" "u < 8" using False by (simp_all add: u_def)
  have "0 < rows mod 8" using False by simp
  then have s: "(rows + 7) div 8 = rows div 8 + 1" by presburger
  have l: "length bm - 1 = rows div 8" "rows div 8 < length bm"
    using s assms by (simp_all add: bitmap_length_def)
  let ?b = "at0 bm (rows div 8)"
  have m: "(push_bit u 1 - 1 :: byte) = mask u" by (simp add: mask_eq_exp_minus_1 push_bit_eq_mult)
  have "?b AND NOT (mask u) \<noteq> 0 \<longleftrightarrow> (\<exists>n \<ge> u. bit ?b n)"
    using byte_bit_lt [of ?b] by (auto simp: bit_eq_iff bit_simps not_less)
  also have "\<dots> \<longleftrightarrow> (\<exists>i \<ge> rows. has_bit bm i)"
  proof
    assume "\<exists>n \<ge> u. bit ?b n"
    then obtain n where n: "u \<le> n" "bit ?b n" by blast
    have "n < 8" by (rule byte_bit_lt [OF n(2)])
    then have "has_bit bm (8 * (rows div 8) + n)" using n by (simp add: has_bit_bit)
    moreover have "rows \<le> 8 * (rows div 8) + n" using n(1) by (simp add: u_def) presburger
    ultimately show "\<exists>i \<ge> rows. has_bit bm i" by blast
  next
    assume "\<exists>i \<ge> rows. has_bit bm i"
    then obtain i where i: "rows \<le> i" "has_bit bm i" by blast
    have "i < 8 * length bm" using i(2) has_bit_beyond [of bm i] by linarith
    then have "i div 8 < rows div 8 + 1" using s assms by (simp add: bitmap_length_def less_mult_imp_div_less mult.commute)
    moreover have "rows div 8 \<le> i div 8" by (rule div_le_mono [OF i(1)])
    ultimately have d: "i div 8 = rows div 8" by simp
    have "u \<le> i mod 8" using i(1) d by (simp add: u_def) (metis add_le_cancel_left div_mult_mod_eq)
    then show "\<exists>n \<ge> u. bit ?b n" using i(2) d by (auto simp: has_bit_bit)
  qed
  finally show ?thesis using False l(1) m by (auto simp: assert_zero_padding_bits_def Let_def u_def)
qed

subsection \<open>Counting\<close>

fun ones :: "nat \<Rightarrow> nat" where
  "ones v = (if v = 0 then 0 else ones (v div 2) + v mod 2)"

declare ones.simps [simp del]

lemma ones_0 [simp]: "ones 0 = 0"
  by (simp add: ones.simps)

lemma popcount_prefix:
  "k \<le> 256 \<Longrightarrow> length (foldl popcount_step (replicate 256 0) [0..<k]) = 256
     \<and> (\<forall>i < k. foldl popcount_step (replicate 256 0) [0..<k] ! i = ones i)
     \<and> (\<forall>i. k \<le> i \<longrightarrow> i < 256 \<longrightarrow> foldl popcount_step (replicate 256 0) [0..<k] ! i = 0)"
proof (induction k)
  case (Suc k)
  then have IH: "length (foldl popcount_step (replicate 256 0) [0..<k]) = 256"
    "\<forall>i < k. foldl popcount_step (replicate 256 0) [0..<k] ! i = ones i"
    "\<forall>i. k \<le> i \<longrightarrow> i < 256 \<longrightarrow> foldl popcount_step (replicate 256 0) [0..<k] ! i = 0" by simp_all
  define t where "t = foldl popcount_step (replicate 256 0) [0..<k]"
  have s: "foldl popcount_step (replicate 256 0) [0..<Suc k] = popcount_step t k" by (simp add: t_def)
  have "at0 t (k div 2) + k mod 2 = ones k"
  proof (cases "k = 0")
    case True
    then show ?thesis using IH(1,3) Suc.prems by (simp add: t_def at0_def ones.simps)
  next
    case False
    then have "k div 2 < 256" "k div 2 < k" using Suc.prems by simp_all
    then show ?thesis using IH(1,2) Suc.prems False by (simp add: t_def [symmetric] at0_def ones.simps [of k])
  qed
  then show ?case using IH Suc.prems unfolding s t_def [symmetric]
    by (auto simp: popcount_step_def nth_list_update less_Suc_eq)
qed simp

lemma POPCOUNT_at: "v < 256 \<Longrightarrow> at0 POPCOUNT v = ones v"
  using popcount_prefix [of 256] by (simp add: POPCOUNT_def at0_def)

lemma ones_filter: "v < 2 ^ n \<Longrightarrow> ones v = length (filter (bit v) [0..<n])"
proof (induction n arbitrary: v)
  case 0
  then show ?case by (simp add: ones.simps)
next
  case (Suc n)
  have "filter (bit v) [0..<Suc n] = (if bit v 0 then [0] else []) @ map Suc (filter (\<lambda>i. bit v (Suc i)) [0..<n])"
    by (simp add: upt_conv_Cons map_Suc_upt [symmetric] filter_map comp_def del: upt_Suc)
  moreover have "(\<lambda>i. bit v (Suc i)) = bit (v div 2)" by (simp add: bit_Suc fun_eq_iff)
  moreover have "v div 2 < 2 ^ n" using Suc.prems by (simp add: less_mult_imp_div_less)
  moreover have "(if bit v 0 then 1 else 0) = v mod 2" by (simp add: bit_0 even_iff_mod_2_eq_zero odd_iff_mod_2_eq_one)
  ultimately show ?case using Suc.IH [of "v div 2"] Suc.prems
    by (cases "v = 0") (auto simp: ones.simps [of v] ones.simps [of 0] even_iff_mod_2_eq_zero odd_iff_mod_2_eq_one bit_0)
qed

lemma POPCOUNT_byte: "at0 POPCOUNT (unat (b :: byte)) = length (filter (bit b) [0..<8])"
proof -
  have "unat b < 256" by (rule unat_byte_bound)
  then have "at0 POPCOUNT (unat b) = length (filter (bit (unat b)) [0..<8])" by (simp add: POPCOUNT_at ones_filter)
  moreover have "bit (unat b) = bit b" by (simp add: fun_eq_iff bit_unsigned_iff)
  ultimately show ?thesis by simp
qed

lemma fold_count: "foldl (\<lambda>count i. if P i then count + 1 else count) (c :: nat) xs = c + length (filter P xs)"
  by (induction xs arbitrary: c) simp_all

lemma whole_bytes: "foldl (\<lambda>count i. count + at0 POPCOUNT (unat (at0 bytes i))) 0 [0..<k] = length (filter (has_bit bytes) [0..<8 * k])"
proof (induction k)
  case (Suc k)
  have "[0..<8 * Suc k] = [0..<8 * k] @ map (\<lambda>j. 8 * k + j) [0..<8]"
    using upt_add_eq_append [of 0 "8 * k" 8] by (simp add: map_add_upt add.commute)
  moreover have "length (filter (has_bit bytes) (map (\<lambda>j. 8 * k + j) [0..<8])) = length (filter (bit (at0 bytes k)) [0..<8])"
    by (simp only: filter_map length_map comp_def, intro arg_cong [where f = length] filter_cong)
      (simp_all add: has_bit_bit)
  ultimately show ?case using Suc by (simp add: POPCOUNT_byte)
qed simp

lemma count_set_bits_eq: "count_set_bits bytes rows = length (filter (has_bit bytes) [0..<rows])"
proof -
  have "[0..<rows] = [0..<8 * (rows div 8)] @ [8 * (rows div 8)..<rows]"
    by (metis le_add1 le_add_same_cancel1 mult_div_mod_eq upt_add_eq_append)
  then show ?thesis
    by (simp add: count_set_bits_def Let_def whole_bytes fold_count mult.commute)
qed

end
