(* ===== verification/Crc32.thy ===== *)
theory Crc32
  imports Prelude
begin

text \<open>
  \<open>block-format/checksum.ts\<close>: CRC-32 by slicing-by-8. The tables are filled by the source's two
  loops; \<open>crc32_continue\<close> folds eight bytes per iteration and finishes byte by byte. The lemmas
  show that the tables hold the iterated bit step, that the eight-byte fold is eight byte steps
  (so the routine is the bitwise CRC), that it continues over a concatenation, and that
  it never misses a change confined to one byte.
\<close>

subsection \<open>The tables\<close>

text \<open>One iteration of the \<open>bit < 8\<close> loop.\<close>

definition crc_bit :: "u32 \<Rightarrow> u32" where
  "crc_bit value = (if value AND 1 = 1 then 0xedb88320 XOR drop_bit 1 value else drop_bit 1 value)"

definition crc_table0 :: "u32 list" where
  "crc_table0 = map (\<lambda>index. (crc_bit ^^ 8) (word_of_nat index)) [0..<256]"

text \<open>One iteration of the \<open>slice\<close> loop: the table of the next slice from the previous one.\<close>

definition crc_next_slice :: "u32 list \<Rightarrow> u32 list" where
  "crc_next_slice previous =
     map (\<lambda>p. drop_bit 8 p XOR at0 crc_table0 (unat (p AND 0xff))) previous"

definition TABLES :: "u32 list" where
  "TABLES = concat (map (\<lambda>slice. (crc_next_slice ^^ slice) crc_table0) [0..<8])"

text \<open>\<open>CRC32_BYTE_TABLE\<close> is the view of the first 256 entries.\<close>

definition CRC32_BYTE_TABLE :: "u32 list" where
  "CRC32_BYTE_TABLE = slice_of TABLES 0 256"

subsection \<open>The routine\<close>

text \<open>The single-byte step of the tail loop.\<close>

definition crc_byte_step :: "u32 \<Rightarrow> byte \<Rightarrow> u32" where
  "crc_byte_step checksum b =
     drop_bit 8 checksum XOR at0 TABLES (unat ((checksum XOR ucast b) AND 0xff))"

definition word_of_bytes :: "byte \<Rightarrow> byte \<Rightarrow> byte \<Rightarrow> byte \<Rightarrow> u32" where
  "word_of_bytes b0 b1 b2 b3 =
     ucast b0 OR push_bit 8 (ucast b1) OR push_bit 16 (ucast b2) OR push_bit 24 (ucast b3)"

text \<open>The body of the \<open>index < wordEnd\<close> loop.\<close>

definition crc_word_step ::
  "u32 \<Rightarrow> byte \<Rightarrow> byte \<Rightarrow> byte \<Rightarrow> byte \<Rightarrow> byte \<Rightarrow> byte \<Rightarrow> byte \<Rightarrow> byte \<Rightarrow> u32" where
  "crc_word_step checksum b0 b1 b2 b3 b4 b5 b6 b7 =
     (let low = checksum XOR word_of_bytes b0 b1 b2 b3;
          high = word_of_bytes b4 b5 b6 b7
      in at0 TABLES (1792 + unat (low AND 0xff))
         XOR at0 TABLES (1536 + unat (drop_bit 8 low AND 0xff))
         XOR at0 TABLES (1280 + unat (drop_bit 16 low AND 0xff))
         XOR at0 TABLES (1024 + unat (drop_bit 24 low))
         XOR at0 TABLES (768 + unat (high AND 0xff))
         XOR at0 TABLES (512 + unat (drop_bit 8 high AND 0xff))
         XOR at0 TABLES (256 + unat (drop_bit 16 high AND 0xff))
         XOR at0 TABLES (unat (drop_bit 24 high)))"

fun crc_loop :: "u32 \<Rightarrow> byte list \<Rightarrow> u32" where
  "crc_loop checksum (b0 # b1 # b2 # b3 # b4 # b5 # b6 # b7 # rest) =
     crc_loop (crc_word_step checksum b0 b1 b2 b3 b4 b5 b6 b7) rest"
| "crc_loop checksum tail = foldl crc_byte_step checksum tail"

definition crc32_continue :: "u32 \<Rightarrow> byte list \<Rightarrow> u32" where
  "crc32_continue previous bytes = crc_loop (previous XOR 0xffffffff) bytes XOR 0xffffffff"

definition crc32 :: "byte list \<Rightarrow> u32" where
  "crc32 bytes = crc32_continue 0 bytes"

subsection \<open>The reference: one bit at a time\<close>

text \<open>The CRC-32 register over a byte: the byte is added, then eight bit steps.\<close>

definition crc_ref_step :: "u32 \<Rightarrow> byte \<Rightarrow> u32" where
  "crc_ref_step register b = (crc_bit ^^ 8) (register XOR ucast b)"

definition crc_ref :: "u32 \<Rightarrow> byte list \<Rightarrow> u32" where
  "crc_ref previous bytes = NOT (foldl crc_ref_step (NOT previous) bytes)"

subsection \<open>The bit step is linear and injective\<close>

lemma and_one_iff: "(v AND 1 = (1 :: u32)) \<longleftrightarrow> bit v 0"
  by (simp add: and_one_eq mod2_eq_if bit_0)

lemma crc_bit_alt: "crc_bit v = (if bit v 0 then 0xedb88320 else 0) XOR drop_bit 1 v"
  by (simp add: crc_bit_def and_one_iff)

lemma bit_crc_bit:
  "n < 32 \<Longrightarrow> bit (crc_bit v) n = ((bit v 0 \<and> bit (0xedb88320 :: u32) n) \<noteq> bit v (Suc n))"
  by (auto simp add: crc_bit_alt bit_simps simp del: bit_numeral_iff)

lemma crc_bit_xor: "crc_bit (x XOR y) = crc_bit x XOR crc_bit y"
  by (rule bit_word_eqI) (auto simp: bit_crc_bit bit_xor_iff simp del: bit_numeral_iff)

lemma bits_xor: "(crc_bit ^^ n) (x XOR y) = (crc_bit ^^ n) x XOR (crc_bit ^^ n) y"
  by (induction n) (simp_all add: crc_bit_xor)

lemma bit_u32_less: "bit (x :: u32) n \<Longrightarrow> n < 32"
  using bit_imp_le_length [of x n] by simp

lemma bit_byte_less: "bit (x :: byte) n \<Longrightarrow> n < 8"
  using bit_imp_le_length [of x n] by simp

lemma crc_bit_eq_0:
  assumes "crc_bit x = 0"
  shows "x = 0"
proof -
  have top: "bit (0xedb88320 :: u32) 31" by simp
  have 0: "\<not> bit x 0"
    using bit_crc_bit [of 31 x] assms top bit_u32_less [of x 32] by auto
  have "\<not> bit x n" for n
  proof (cases n)
    case (Suc m)
    then show ?thesis using bit_crc_bit [of m x] assms 0 bit_u32_less [of x n] by auto
  qed (use 0 in simp)
  then show ?thesis by (intro bit_word_eqI) auto
qed

lemma xor_eq_0_iff: "x XOR y = 0 \<longleftrightarrow> x = (y :: 'a::len word)"
  by (metis xor.assoc xor.left_neutral xor.right_neutral xor_self_eq)

lemma crc_bit_inj: "crc_bit x = crc_bit y \<longleftrightarrow> x = y"
proof
  assume "crc_bit x = crc_bit y"
  then have "crc_bit (x XOR y) = 0" by (simp add: crc_bit_xor)
  then show "x = y" using crc_bit_eq_0 xor_eq_0_iff by blast
qed simp

lemma bits_inj: "(crc_bit ^^ n) x = (crc_bit ^^ n) y \<longleftrightarrow> x = y"
  by (induction n) (simp_all add: crc_bit_inj)

text \<open>Where the low \<open>n\<close> bits are clear, \<open>n\<close> bit steps only shift.\<close>

lemma bits_of_high: "\<forall>i<n. \<not> bit x i \<Longrightarrow> (crc_bit ^^ n) x = drop_bit n x"
proof (induction n arbitrary: x)
  case (Suc n)
  then have "crc_bit x = drop_bit 1 x" by (simp add: crc_bit_alt)
  moreover have "\<forall>i<n. \<not> bit (drop_bit 1 x) i" using Suc.prems by (auto simp: bit_drop_bit_eq)
  ultimately show ?case using Suc.IH [of "drop_bit 1 x"]
    by (simp add: funpow_Suc_right del: funpow.simps)
qed simp

subsection \<open>What the tables hold\<close>

abbreviation S8 :: "nat \<Rightarrow> u32 \<Rightarrow> u32" where "S8 k \<equiv> crc_bit ^^ (8 * k)"

lemma and_ff_bound: "unat (x AND 0xff :: u32) < 256"
  using word_and_le1 [of x "0xff :: u32"] by (simp add: word_le_nat_alt)

lemma S8_split: "S8 1 x = drop_bit 8 x XOR S8 1 (x AND 0xff)"
proof -
  have ff: "0xff = (mask 8 :: u32)" by (simp add: mask_eq_exp_minus_1)
  have "x = (x AND NOT (mask 8)) XOR (x AND mask 8)"
    by (rule bit_word_eqI) (auto simp: bit_simps)
  then have "S8 1 x = S8 1 ((x AND NOT (mask 8)) XOR (x AND mask 8))" by simp
  also have "\<dots> = S8 1 (x AND NOT (mask 8)) XOR S8 1 (x AND mask 8)" by (rule bits_xor)
  also have "S8 1 (x AND NOT (mask 8)) = drop_bit 8 (x AND NOT (mask 8))"
    using bits_of_high [of 8 "x AND NOT (mask 8)"] by (simp add: bit_simps)
  also have "drop_bit 8 (x AND NOT (mask 8)) = drop_bit 8 x"
    by (rule bit_word_eqI) (auto simp: bit_simps dest: bit_u32_less)
  finally show ?thesis by (simp only: ff)
qed

lemma table0_at: "i < 256 \<Longrightarrow> at0 crc_table0 i = S8 1 (word_of_nat i)"
  by (simp add: at0_def crc_table0_def)

lemma next_slice: "crc_next_slice t = map (S8 1) t"
proof -
  have "drop_bit 8 p XOR at0 crc_table0 (unat (p AND 0xff)) = S8 1 p" for p
    using S8_split [of p] by (simp add: table0_at [OF and_ff_bound])
  then show ?thesis by (simp add: crc_next_slice_def)
qed

lemma slices: "(crc_next_slice ^^ k) crc_table0 = map (\<lambda>i. S8 (Suc k) (word_of_nat i)) [0..<256]"
proof (induction k)
  case 0
  show ?case by (simp add: crc_table0_def)
next
  case (Suc k)
  have "8 * Suc (Suc k) = 8 * 1 + 8 * Suc k" by simp
  then have "S8 (Suc (Suc k)) x = S8 1 (S8 (Suc k) x)" for x
    by (simp only: funpow_add comp_apply)
  moreover have "(crc_next_slice ^^ Suc k) crc_table0 = map (S8 1) ((crc_next_slice ^^ k) crc_table0)"
    by (simp add: next_slice)
  ultimately show ?case by (simp only: Suc map_map comp_def)
qed

lemma nth_concat_equal:
  "(\<And>k. k < n \<Longrightarrow> length (f k) = m) \<Longrightarrow> k < n \<Longrightarrow> i < m \<Longrightarrow>
     concat (map f [0..<n]) ! (m * k + i) = f k ! i"
proof (induction n arbitrary: k)
  case (Suc n)
  have len: "length (concat (map f [0..<n])) = m * n"
    using Suc.prems(1) by (induction n) auto
  show ?case
  proof (cases "k = n")
    case True
    with len Suc.prems show ?thesis by (simp add: nth_append)
  next
    case False
    then have k: "k < n" using Suc.prems by simp
    have "m * k + i < m * (k + 1)" using Suc.prems by simp
    also have "\<dots> \<le> m * n" using k by (intro mult_le_mono2) simp
    finally show ?thesis using Suc.IH [of k] Suc.prems k len by (simp add: nth_append)
  qed
qed simp

lemma length_TABLES: "length TABLES = 2048"
  by (simp add: TABLES_def slices length_concat comp_def sum_list_triv del: funpow.simps)

lemma TABLES_at:
  assumes "k < 8" and "unat w < 256"
  shows "at0 TABLES (256 * k + unat w) = S8 (Suc k) w"
proof -
  have "256 * k + unat w < 256 * (k + 1)" using assms by simp
  also have "\<dots> \<le> 256 * 8" using assms by (intro mult_le_mono2) simp
  finally have "at0 TABLES (256 * k + unat w) = TABLES ! (256 * k + unat w)"
    by (simp add: at0_def length_TABLES)
  also have "\<dots> = (crc_next_slice ^^ k) crc_table0 ! unat w"
    unfolding TABLES_def by (rule nth_concat_equal) (use assms in \<open>simp_all add: slices\<close>)
  also have "\<dots> = S8 (Suc k) w" using assms by (simp add: slices del: funpow.simps)
  finally show ?thesis .
qed

lemma byte_step: "crc_byte_step c b = crc_ref_step c b"
proof -
  have "at0 TABLES (unat ((c XOR ucast b) AND 0xff)) = S8 1 ((c XOR ucast b) AND 0xff)"
    using TABLES_at [of 0, OF _ and_ff_bound] by simp
  moreover have "drop_bit 8 (c XOR ucast b) = drop_bit 8 c"
    by (rule bit_word_eqI) (auto simp: bit_simps dest: bit_byte_less)
  ultimately show ?thesis
    using S8_split [of "c XOR ucast b"] by (simp add: crc_byte_step_def crc_ref_step_def)
qed

subsection \<open>Slicing by eight is eight byte steps\<close>

lemma S8_S8: "S8 j (S8 k x) = S8 (j + k) x"
  by (simp only: add_mult_distrib2 funpow_add comp_apply)

lemma S8_push: "unat x < 16777216 \<Longrightarrow> S8 (Suc k) (push_bit 8 x) = S8 k x"
proof -
  assume "unat x < 16777216"
  then have "take_bit 24 x = x"
    by (simp add: word_unat_eq_iff unsigned_take_bit_eq take_bit_nat_eq_self)
  then have high: "n < 24" if "bit x n" for n using that by (metis bit_take_bit_iff)
  have "S8 1 (push_bit 8 x) = drop_bit 8 (push_bit 8 x)"
    using bits_of_high [of 8 "push_bit 8 x"] by (simp add: bit_simps)
  also have "\<dots> = x"
    by (rule bit_word_eqI) (use high in \<open>fastforce simp: bit_simps\<close>)
  finally have "S8 1 (push_bit 8 x) = x" .
  then show ?thesis using S8_S8 [of k 1 "push_bit 8 x"] by simp
qed

lemma unat_drop: "unat (drop_bit n (w :: u32)) = unat w div 2 ^ n"
  by (simp only: unat_drop_bit_eq drop_bit_eq_div [where 'a = nat])

lemma unat_drop_bound: "unat (drop_bit 24 w :: u32) < 256"
  using unat_u32_bound [of w] unfolding unat_drop by simp

text \<open>A byte in front of the higher bytes.\<close>

lemma join_byte:
  "(drop_bit m w AND mask 8) XOR push_bit 8 (drop_bit (m + 8) w) = (drop_bit m w :: u32)"
proof (rule bit_word_eqI)
  fix n assume "n < LENGTH(32)"
  then show "bit ((drop_bit m w AND mask 8) XOR push_bit 8 (drop_bit (m + 8) w)) n
      = bit (drop_bit m w) n"
    by (cases "n < 8") (simp_all add: bit_simps not_less)
qed

text \<open>The fold of one 32-bit word, whose \<open>j\<close>-th byte stands \<open>j\<close> places further on.\<close>

lemma S8_word:
  "S8 (k + 4) w = S8 (k + 4) (w AND 0xff) XOR S8 (k + 3) (drop_bit 8 w AND 0xff)
     XOR S8 (k + 2) (drop_bit 16 w AND 0xff) XOR S8 (k + 1) (drop_bit 24 w)"
proof -
  have ff: "0xff = (mask 8 :: u32)" by (simp add: mask_eq_exp_minus_1)
  let ?p = "push_bit 8 :: u32 \<Rightarrow> u32"
  let ?d1 = "drop_bit 8 w AND 0xff" and ?d2 = "drop_bit 16 w AND 0xff" and ?d3 = "drop_bit 24 w"
  have d2: "?d2 XOR ?p ?d3 = drop_bit 16 w"
    unfolding ff using join_byte [of 16 w] by simp
  have d1: "?d1 XOR ?p (?d2 XOR ?p ?d3) = drop_bit 8 w"
    unfolding d2 unfolding ff using join_byte [of 8 w] by simp
  have split: "w = (w AND 0xff) XOR ?p (?d1 XOR ?p (?d2 XOR ?p ?d3))"
    unfolding d1 unfolding ff using join_byte [of 0 w] by simp
  have b1: "unat (?d1 XOR ?p (?d2 XOR ?p ?d3)) < 16777216"
    unfolding d1 unat_drop using unat_u32_bound [of w] by simp
  have b2: "unat (?d2 XOR ?p ?d3) < 16777216"
    unfolding d2 unat_drop using unat_u32_bound [of w] by simp
  have k4: "Suc (k + 3) = k + 4" and k3: "Suc (k + 2) = k + 3" and k2: "Suc (k + 1) = k + 2" by simp_all
  have b3: "unat ?d3 < 16777216" using unat_drop_bound [of w] by simp
  have "S8 (k + 4) w = S8 (k + 4) (w AND 0xff) XOR S8 (Suc (k + 3)) (?p (?d1 XOR ?p (?d2 XOR ?p ?d3)))"
    unfolding k4 by (subst split) (rule bits_xor)
  also have "S8 (Suc (k + 3)) (?p (?d1 XOR ?p (?d2 XOR ?p ?d3))) =
      S8 (k + 3) ?d1 XOR S8 (Suc (k + 2)) (?p (?d2 XOR ?p ?d3))"
    unfolding S8_push [OF b1] k3 by (rule bits_xor)
  also have "S8 (Suc (k + 2)) (?p (?d2 XOR ?p ?d3)) = S8 (k + 2) ?d2 XOR S8 (Suc (k + 1)) (?p ?d3)"
    unfolding S8_push [OF b2] k2 by (rule bits_xor)
  also have "S8 (Suc (k + 1)) (?p ?d3) = S8 (k + 1) ?d3"
    by (rule S8_push [OF b3])
  finally show ?thesis by (simp only: xor.assoc)
qed

lemma word_of_bytes_parts:
  "word_of_bytes b0 b1 b2 b3 AND 0xff = ucast b0"
  "drop_bit 8 (word_of_bytes b0 b1 b2 b3) AND 0xff = ucast b1"
  "drop_bit 16 (word_of_bytes b0 b1 b2 b3) AND 0xff = ucast b2"
  "drop_bit 24 (word_of_bytes b0 b1 b2 b3) = ucast b3"
proof -
  have ff: "0xff = (mask 8 :: u32)" by (simp add: mask_eq_exp_minus_1)
  show "word_of_bytes b0 b1 b2 b3 AND 0xff = ucast b0"
    "drop_bit 8 (word_of_bytes b0 b1 b2 b3) AND 0xff = ucast b1"
    "drop_bit 16 (word_of_bytes b0 b1 b2 b3) AND 0xff = ucast b2"
    "drop_bit 24 (word_of_bytes b0 b1 b2 b3) = ucast b3"
    unfolding ff word_of_bytes_def
    by (rule bit_word_eqI; auto simp: bit_simps dest: bit_byte_less)+
qed

lemma S8_word_of_bytes:
  "S8 (k + 4) (word_of_bytes b0 b1 b2 b3) =
     S8 (k + 4) (ucast b0) XOR S8 (k + 3) (ucast b1) XOR S8 (k + 2) (ucast b2) XOR S8 (k + 1) (ucast b3)"
  using S8_word [of k "word_of_bytes b0 b1 b2 b3"] unfolding word_of_bytes_parts .

lemma ref_step: "crc_ref_step c b = S8 1 c XOR S8 1 (ucast b)"
  by (simp add: crc_ref_step_def bits_xor)

lemma S8_XOR: "S8 j (x XOR y) = S8 j x XOR S8 j y"
  by (rule bits_xor)

lemma word_step:
  "crc_word_step c b0 b1 b2 b3 b4 b5 b6 b7 = foldl crc_ref_step c [b0, b1, b2, b3, b4, b5, b6, b7]"
proof -
  let ?low = "c XOR word_of_bytes b0 b1 b2 b3" and ?high = "word_of_bytes b4 b5 b6 b7"
  have t: "at0 TABLES (256 * 7 + unat (?low AND 0xff)) = S8 (Suc 7) (?low AND 0xff)"
    "at0 TABLES (256 * 6 + unat (drop_bit 8 ?low AND 0xff)) = S8 (Suc 6) (drop_bit 8 ?low AND 0xff)"
    "at0 TABLES (256 * 5 + unat (drop_bit 16 ?low AND 0xff)) = S8 (Suc 5) (drop_bit 16 ?low AND 0xff)"
    "at0 TABLES (256 * 4 + unat (drop_bit 24 ?low)) = S8 (Suc 4) (drop_bit 24 ?low)"
    "at0 TABLES (256 * 3 + unat (?high AND 0xff)) = S8 (Suc 3) (?high AND 0xff)"
    "at0 TABLES (256 * 2 + unat (drop_bit 8 ?high AND 0xff)) = S8 (Suc 2) (drop_bit 8 ?high AND 0xff)"
    "at0 TABLES (256 * 1 + unat (drop_bit 16 ?high AND 0xff)) = S8 (Suc 1) (drop_bit 16 ?high AND 0xff)"
    "at0 TABLES (256 * 0 + unat (drop_bit 24 ?high)) = S8 (Suc 0) (drop_bit 24 ?high)"
    by (rule TABLES_at; (rule and_ff_bound unat_drop_bound)?; simp)+
  have n: "4 + 4 = Suc (7::nat)" "4 + 3 = Suc (6::nat)" "4 + 2 = Suc (5::nat)" "4 + 1 = Suc (4::nat)"
    "0 + 4 = Suc (3::nat)" "0 + 3 = Suc (2::nat)" "0 + 2 = Suc (1::nat)" "0 + 1 = Suc (0::nat)"
    "256 * 7 = (1792::nat)" "256 * 6 = (1536::nat)" "256 * 5 = (1280::nat)" "256 * 4 = (1024::nat)"
    "256 * 3 = (768::nat)" "256 * 2 = (512::nat)" "256 * 1 = (256::nat)" "256 * 0 = (0::nat)"
    by simp_all
  have "crc_word_step c b0 b1 b2 b3 b4 b5 b6 b7 = S8 (4 + 4) ?low XOR S8 (0 + 4) ?high"
    unfolding S8_word [of 4 ?low] S8_word [of 0 ?high]
    using t unfolding n crc_word_step_def Let_def by (simp only: xor.assoc add_0)
  also have "S8 (4 + 4) ?low = S8 (4 + 4) c XOR S8 (4 + 4) (word_of_bytes b0 b1 b2 b3)"
    by (rule S8_XOR)
  finally show ?thesis
    unfolding S8_word_of_bytes by (simp only: foldl.simps ref_step S8_XOR S8_S8) (simp add: xor.assoc)
qed

theorem crc_loop_ref: "crc_loop c bytes = foldl crc_ref_step c bytes"
  by (induction c bytes rule: crc_loop.induct) (simp_all add: word_step byte_step fun_eq_iff)

subsection \<open>Properties of the checksum\<close>

lemma xor_ones: "x XOR 0xffffffff = NOT (x :: u32)"
proof -
  have "(0xffffffff :: u32) = - 1" by simp
  then show ?thesis by (simp only: bit.xor_one_right)
qed

lemma crc32_continue_register:
  "crc32_continue previous bytes = NOT (foldl crc_ref_step (NOT previous) bytes)"
  by (simp only: crc32_continue_def crc_loop_ref xor_ones)

text \<open>The checksum of a concatenation continues the checksum of its first part.\<close>

lemma crc32_continue_append:
  "crc32_continue previous (xs @ ys) = crc32_continue (crc32_continue previous xs) ys"
  by (simp add: crc32_continue_register)

lemma crc32_append: "crc32 (xs @ ys) = crc32_continue (crc32 xs) ys"
  by (simp add: crc32_def crc32_continue_append)

text \<open>
  Property C18: the slicing-by-8 routine computes CRC-32, for every input and every
  previous checksum: eight table folds per word and the byte-wise tail are the bit-at-a-time register
  of the reflected polynomial, complemented before and after.
\<close>

theorem crc32_continue_is_crc: "crc32_continue previous bytes = crc_ref previous bytes"
  by (simp add: crc32_continue_register crc_ref_def)

lemma xor_right_cancel: "x XOR z = y XOR z \<longleftrightarrow> x = (y :: 'a::len word)"
  using xor_eq_0_iff [of "x XOR z" "y XOR z"] xor_eq_0_iff [of x y]
  by (simp add: xor.left_commute xor.assoc xor.commute [of y x])

lemma ref_step_inj: "crc_ref_step c b = crc_ref_step c' b \<longleftrightarrow> c = c'"
  by (simp only: crc_ref_step_def bits_inj xor_right_cancel)

lemma register_inj: "foldl crc_ref_step c bs = foldl crc_ref_step c' bs \<longleftrightarrow> c = c'"
  by (induction bs arbitrary: c c') (simp_all add: ref_step_inj)

lemma four_steps:
  "foldl crc_ref_step c [b0, b1, b2, b3] = S8 4 (c XOR word_of_bytes b0 b1 b2 b3)"
proof -
  have "foldl crc_ref_step c [b0, b1, b2, b3]
      = S8 4 c XOR (S8 4 (ucast b0) XOR S8 3 (ucast b1) XOR S8 2 (ucast b2) XOR S8 1 (ucast b3))"
    unfolding foldl.simps ref_step S8_XOR S8_S8 by (simp add: xor.assoc)
  then show ?thesis using S8_word_of_bytes [of 0 b0 b1 b2 b3] by (simp add: bits_xor xor.assoc)
qed

lemma word_of_bytes_inj:
  assumes "word_of_bytes a0 a1 a2 a3 = word_of_bytes b0 b1 b2 b3"
  shows "a0 = b0 \<and> a1 = b1 \<and> a2 = b2 \<and> a3 = b3"
proof -
  have inj: "a = b" if "(ucast a :: u32) = ucast b" for a b :: byte
  proof -
    have "unat (ucast c :: u32) = unat c" for c :: byte
      using unat_byte_bound [of c] by (simp add: unsigned_ucast_eq take_bit_nat_eq_self)
    then show ?thesis using that by (metis word_unat_eq_iff)
  qed
  show ?thesis
    using word_of_bytes_parts [of a0 a1 a2 a3] word_of_bytes_parts [of b0 b1 b2 b3] assms inj by metis
qed

lemma burst_four:
  assumes "length us = 4" "length vs = 4" "us \<noteq> vs"
  shows "foldl crc_ref_step c us \<noteq> foldl crc_ref_step c vs"
proof -
  obtain a0 a1 a2 a3 where u: "us = [a0, a1, a2, a3]"
    using assms(1) by (auto simp: length_Suc_conv eval_nat_numeral)
  obtain b0 b1 b2 b3 where v: "vs = [b0, b1, b2, b3]"
    using assms(2) by (auto simp: length_Suc_conv eval_nat_numeral)
  have "word_of_bytes a0 a1 a2 a3 \<noteq> word_of_bytes b0 b1 b2 b3"
    using word_of_bytes_inj assms(3) u v by blast
  then have "c XOR word_of_bytes a0 a1 a2 a3 \<noteq> c XOR word_of_bytes b0 b1 b2 b3"
    by (simp only: xor.commute [of c] xor_right_cancel not_False_eq_True)
  then show ?thesis unfolding u v four_steps bits_inj .
qed

lemma crc32_register: "crc32 bytes = NOT (foldl crc_ref_step (NOT 0) bytes)"
  by (simp add: crc32_def crc32_continue_register)

lemma burst_detected:
  assumes "length us \<le> 4" "length vs = length us" "us \<noteq> vs"
  shows "crc32 (before @ us @ after) \<noteq> crc32 (before @ vs @ after)"
proof -
  let ?z = "replicate (4 - length us) (0 :: byte)"
  let ?r = "foldl crc_ref_step (NOT 0) before"
  have "foldl crc_ref_step ?r (us @ ?z) \<noteq> foldl crc_ref_step ?r (vs @ ?z)"
    by (rule burst_four) (use assms in auto)
  then have "foldl crc_ref_step ?r us \<noteq> foldl crc_ref_step ?r vs"
    by (simp add: register_inj)
  then show ?thesis
    by (simp add: crc32_register register_inj)
qed

text \<open>
  Property C19: a checksum catches every burst of damage of up to four bytes: two inputs of
  one length that differ only inside a window of at most four consecutive bytes have different
  checksums, whatever precedes and follows the window.
\<close>

theorem crc32_detects_bursts:
  assumes "length us \<le> 4" "length vs = length us" "us \<noteq> vs"
  shows "crc32 (before @ us @ after) \<noteq> crc32 (before @ vs @ after)"
  using burst_detected [OF assms] .

lemma crc32_detects_bursts_witness:
  "crc32 ([1, 2, 3] @ [4, 5] @ [6, 7, 8, 9, 10]) \<noteq> crc32 ([1, 2, 3] @ [5, 4] @ [6, 7, 8, 9, 10])"
  by (rule crc32_detects_bursts) simp_all

end
