(* ===== verification/Block.thy ===== *)
theory Block
  imports Crc32
begin

text \<open>
  \<open>block-format/block.ts\<close>: the version 2 block envelope. The metadata is a parameter: its JSON text
  is the bytes of the envelope, and \<open>parse_meta\<close> stands for \<open>parseJson\<close>, \<open>parseMetadata\<close> and the
  canonicity check together (\<open>None\<close> where they throw). Decoding the payload is the physical layer's.
\<close>

datatype logical_type = T_boolean | T_number | T_string | T_datetime
datatype compression = Raw | Gzip

definition BLOCK_MAGIC :: "byte list" where "BLOCK_MAGIC = [0x42, 0x52, 0x44, 0x42]"
definition BLOCK_FORMAT_VERSION :: nat where "BLOCK_FORMAT_VERSION = 2"
definition BLOCK_HEADER_LENGTH :: nat where "BLOCK_HEADER_LENGTH = 44"
definition MAX_PHYSICAL_COLUMN_BYTE_LENGTH :: nat where "MAX_PHYSICAL_COLUMN_BYTE_LENGTH = 67108864"
definition MAX_BLOCK_METADATA_BYTE_LENGTH :: nat where "MAX_BLOCK_METADATA_BYTE_LENGTH = 1024"
definition MAX_BLOCK_ROW_COUNT :: nat where "MAX_BLOCK_ROW_COUNT = 1048576"

fun type_id :: "logical_type \<Rightarrow> byte" where
  "type_id T_boolean = 1" | "type_id T_number = 2" | "type_id T_string = 3" | "type_id T_datetime = 4"

fun codec_id :: "compression \<Rightarrow> byte" where
  "codec_id Raw = 0" | "codec_id Gzip = 2"

definition type_by_id :: "byte \<Rightarrow> logical_type option" where
  "type_by_id b = List.find (\<lambda>t. type_id t = b) [T_boolean, T_number, T_string, T_datetime]"

definition codec_by_id :: "byte \<Rightarrow> compression option" where
  "codec_by_id b = List.find (\<lambda>c. codec_id c = b) [Raw, Gzip]"

record 'm description =
  metadata_length :: nat
  block_type :: logical_type
  block_compression :: compression
  row_count :: nat
  null_count :: nat
  encoded_length :: nat
  stored_length :: nat
  checksum :: u32
  stored_checksum :: u32
  block_metadata :: 'm

subsection \<open>Writing\<close>

definition assert_metadata_length :: "nat \<Rightarrow> unit result" where
  "assert_metadata_length n = guardR (n \<le> MAX_BLOCK_METADATA_BYTE_LENGTH) (RangeError ''Invalid metadata length'')"

definition assert_length :: "nat \<Rightarrow> unit result" where
  "assert_length n = guardR (n \<le> MAX_PHYSICAL_COLUMN_BYTE_LENGTH) (RangeError ''Invalid length'')"

definition assert_stored_block_payload_byte_length :: "nat \<Rightarrow> unit result" where
  "assert_stored_block_payload_byte_length n = guardR (n \<le> MAX_PHYSICAL_COLUMN_BYTE_LENGTH)
     (RangeError ''Stored block payload exceeds maximum byte length'')"

definition assert_block_row_count :: "nat \<Rightarrow> unit result" where
  "assert_block_row_count n = guardR (n \<le> MAX_BLOCK_ROW_COUNT) (RangeError ''Physical column exceeds maximum row count'')"

text \<open>Bytes 8 to 44 of the header, after the envelope checksum.\<close>

definition header_fields_bytes :: "'m description \<Rightarrow> byte list" where
  "header_fields_bytes d = le_bytes 2 BLOCK_FORMAT_VERSION @ le_bytes 2 BLOCK_HEADER_LENGTH
     @ [type_id (block_type d), type_id (block_type d), codec_id (block_compression d), 0]
     @ le_bytes 4 (row_count d) @ le_bytes 4 (null_count d) @ le_bytes 4 (metadata_length d)
     @ le_bytes 4 (encoded_length d) @ le_bytes 4 (stored_length d) @ le32 (checksum d) @ le32 (stored_checksum d)"

definition envelope_bytes :: "'m description \<Rightarrow> byte list \<Rightarrow> byte list \<Rightarrow> byte list" where
  "envelope_bytes d metadata stored =
     BLOCK_MAGIC @ le32 (crc32 (header_fields_bytes d @ metadata)) @ header_fields_bytes d @ metadata @ stored"

text \<open>\<open>writeBlockEnvelope\<close> sets these bytes in the output at \<open>at\<close>; the lengths are the fields' own.\<close>

definition write_block_envelope :: "byte list \<Rightarrow> nat \<Rightarrow> 'm description \<Rightarrow> byte list \<Rightarrow> byte list \<Rightarrow> byte list" where
  "write_block_envelope output at d metadata stored = set_at output at
     (envelope_bytes (d\<lparr>metadata_length := length metadata, stored_length := length stored\<rparr>) metadata stored)"

definition encoded_raw_block_length :: "nat \<Rightarrow> nat \<Rightarrow> nat result" where
  "encoded_raw_block_length metadata_len payload_len =
     bindR (assert_metadata_length metadata_len) (\<lambda>_.
     bindR (assert_stored_block_payload_byte_length payload_len) (\<lambda>_.
       Inr (BLOCK_HEADER_LENGTH + metadata_len + payload_len)))"

record 'm raw_input =
  in_type :: logical_type
  in_row_count :: nat
  in_null_count :: nat
  in_payload :: "byte list"
  in_metadata_bytes :: "byte list"
  in_metadata :: 'm

definition raw_description :: "'m raw_input \<Rightarrow> 'm description" where
  "raw_description i = \<lparr>metadata_length = length (in_metadata_bytes i), block_type = in_type i, block_compression = Raw,
     row_count = in_row_count i, null_count = in_null_count i, encoded_length = length (in_payload i),
     stored_length = length (in_payload i), checksum = crc32 (in_payload i), stored_checksum = crc32 (in_payload i),
     block_metadata = in_metadata i\<rparr>"

definition write_raw_block :: "byte list \<Rightarrow> nat \<Rightarrow> 'm raw_input \<Rightarrow> (byte list \<times> 'm description) result" where
  "write_raw_block target at i =
     bindR (encoded_raw_block_length (length (in_metadata_bytes i)) (length (in_payload i))) (\<lambda>len.
       if length target < at + len then Inl (RangeError ''Block does not fit'')
       else Inr (write_block_envelope target at (raw_description i) (in_metadata_bytes i) (in_payload i), raw_description i))"

text \<open>
  \<open>encodeValidatedPhysicalBlock\<close>: \<open>compress\<close> is the codec, \<open>None\<close> where the platform refuses. A raw
  block stores the encoded bytes themselves.
\<close>

definition encode_validated_physical_block ::
  "(byte list \<Rightarrow> byte list result) \<Rightarrow> 'm raw_input \<Rightarrow> compression \<Rightarrow> byte list result" where
  "encode_validated_physical_block compress i c =
     bindR (if c = Raw then Inr (in_payload i) else compress (in_payload i)) (\<lambda>stored.
     bindR (assert_metadata_length (length (in_metadata_bytes i))) (\<lambda>_.
     bindR (assert_length (length (in_payload i))) (\<lambda>_.
     bindR (assert_stored_block_payload_byte_length (length stored)) (\<lambda>_.
       let output = replicate (BLOCK_HEADER_LENGTH + length (in_metadata_bytes i) + length stored) 0 in
       Inr (write_block_envelope output 0
         ((raw_description i)\<lparr>block_compression := c,
            stored_checksum := if c = Raw then crc32 (in_payload i) else crc32 stored\<rparr>)
         (in_metadata_bytes i) stored)))))"

subsection \<open>Reading\<close>

definition inspect_v2_block :: "(byte list \<Rightarrow> 'm option) \<Rightarrow> byte list \<Rightarrow> 'm description result" where
  "inspect_v2_block parse_meta bytes =
     (if length bytes < BLOCK_HEADER_LENGTH then Inl (PlainError ''Truncated block header'')
      else if get_le 2 bytes 10 \<noteq> BLOCK_HEADER_LENGTH then Inl (PlainError ''Invalid block header length'')
      else
        let m = get_le 4 bytes 24; e = get_le 4 bytes 28; s = get_le 4 bytes 32 in
        bindR (assert_metadata_length m) (\<lambda>_. bindR (assert_length e) (\<lambda>_. bindR (assert_length s) (\<lambda>_.
        if BLOCK_HEADER_LENGTH + m + s \<noteq> length bytes then Inl (PlainError ''Block length mismatch'')
        else if crc32 (slice_of bytes 8 (BLOCK_HEADER_LENGTH + m)) \<noteq> get32 bytes 4
          then Inl (PlainError ''Block envelope checksum mismatch'')
        else let rows = get_le 4 bytes 16 in
        bindR (assert_block_row_count rows) (\<lambda>_.
        case type_by_id (at0 bytes 12) of
          None \<Rightarrow> Inl (PlainError ''Unknown logical type'')
        | Some t \<Rightarrow>
            if at0 bytes 13 \<noteq> type_id t then Inl (PlainError ''Unsupported physical encoding'')
            else (case codec_by_id (at0 bytes 14) of
              None \<Rightarrow> Inl (PlainError ''Unknown compression codec'')
            | Some c \<Rightarrow>
                if at0 bytes 15 \<noteq> 0 then Inl (PlainError ''Unsupported mandatory block flags'')
                else
                  let logical = get32 bytes 36; stored = get32 bytes 40; nulls = get_le 4 bytes 20 in
                  if c = Raw \<and> logical \<noteq> stored then Inl (PlainError ''Raw block checksums do not match'')
                  else if c = Raw \<and> e \<noteq> s then Inl (PlainError ''Raw block lengths do not match'')
                  else if rows < nulls then Inl (PlainError ''Null count exceeds row count'')
                  else (case parse_meta (slice_of bytes BLOCK_HEADER_LENGTH (BLOCK_HEADER_LENGTH + m)) of
                    None \<Rightarrow> Inl (PlainError ''Invalid block metadata'')
                  | Some meta \<Rightarrow> Inr \<lparr>metadata_length = m, block_type = t, block_compression = c, row_count = rows,
                      null_count = nulls, encoded_length = e, stored_length = s, checksum = logical,
                      stored_checksum = stored, block_metadata = meta\<rparr>)))))))"

definition inspect_block :: "(byte list \<Rightarrow> 'm option) \<Rightarrow> byte list \<Rightarrow> 'm description result" where
  "inspect_block parse_meta bytes =
     (if length bytes < 10 then Inl (PlainError ''Truncated block header'')
      else if take 4 bytes \<noteq> BLOCK_MAGIC then Inl (PlainError ''Invalid block magic'')
      else if get_le 2 bytes 8 = 2 then inspect_v2_block parse_meta bytes
      else Inl (PlainError ''Unsupported block version''))"

definition verify_stored_block :: "(byte list \<Rightarrow> 'm option) \<Rightarrow> byte list \<Rightarrow> 'm description result" where
  "verify_stored_block parse_meta bytes = bindR (inspect_block parse_meta bytes) (\<lambda>d.
     if crc32 (drop (length bytes - stored_length d) bytes) \<noteq> stored_checksum d
     then Inl (PlainError ''Block stored payload checksum mismatch'') else Inr d)"

subsection \<open>Fields\<close>

definition sized :: "'m description \<Rightarrow> byte list \<Rightarrow> byte list \<Rightarrow> bool" where
  "sized d metadata stored \<longleftrightarrow> metadata_length d = length metadata \<and> stored_length d = length stored
     \<and> length metadata \<le> MAX_BLOCK_METADATA_BYTE_LENGTH \<and> length stored \<le> MAX_PHYSICAL_COLUMN_BYTE_LENGTH
     \<and> encoded_length d \<le> MAX_PHYSICAL_COLUMN_BYTE_LENGTH \<and> row_count d \<le> MAX_BLOCK_ROW_COUNT
     \<and> null_count d \<le> row_count d"

lemma length_magic [simp]: "length BLOCK_MAGIC = 4"
  by (simp add: BLOCK_MAGIC_def)

lemma length_header_fields [simp]: "length (header_fields_bytes d) = 36"
  by (simp add: header_fields_bytes_def)

lemma length_envelope [simp]: "length (envelope_bytes d metadata stored) = BLOCK_HEADER_LENGTH + length metadata + length stored"
  by (simp add: envelope_bytes_def BLOCK_HEADER_LENGTH_def)

lemmas block_limits = BLOCK_HEADER_LENGTH_def BLOCK_FORMAT_VERSION_def MAX_PHYSICAL_COLUMN_BYTE_LENGTH_def
  MAX_BLOCK_METADATA_BYTE_LENGTH_def MAX_BLOCK_ROW_COUNT_def

lemma envelope_fields:
  assumes "sized d metadata stored"
  defines "bytes \<equiv> envelope_bytes d metadata stored"
  shows "take 4 bytes = BLOCK_MAGIC" "get32 bytes 4 = crc32 (header_fields_bytes d @ metadata)"
    "get_le 2 bytes 8 = 2" "get_le 2 bytes 10 = 44"
    "at0 bytes 12 = type_id (block_type d)" "at0 bytes 13 = type_id (block_type d)"
    "at0 bytes 14 = codec_id (block_compression d)" "at0 bytes 15 = 0"
    "get_le 4 bytes 16 = row_count d" "get_le 4 bytes 20 = null_count d" "get_le 4 bytes 24 = metadata_length d"
    "get_le 4 bytes 28 = encoded_length d" "get_le 4 bytes 32 = stored_length d"
    "get32 bytes 36 = checksum d" "get32 bytes 40 = stored_checksum d"
  using assms(1)
  by (simp_all add: bytes_def envelope_bytes_def header_fields_bytes_def bytes_simps sized_def block_limits slice_of_def)

lemma envelope_slices:
  "slice_of (envelope_bytes d metadata stored) 8 (44 + length metadata) = header_fields_bytes d @ metadata"
  "slice_of (envelope_bytes d metadata stored) 44 (44 + length metadata) = metadata"
  "drop (44 + length metadata) (envelope_bytes d metadata stored) = stored"
  by (simp_all add: envelope_bytes_def slice_of_def)

lemma id_lookups [simp]: "type_by_id (type_id t) = Some t" "codec_by_id (codec_id c) = Some c"
  by (cases t; simp add: type_by_id_def) (cases c; simp add: codec_by_id_def)

lemma inspect_envelope:
  assumes "sized d metadata stored" "parse_meta metadata = Some (block_metadata d)"
    "block_compression d = Raw \<Longrightarrow> checksum d = stored_checksum d \<and> encoded_length d = stored_length d"
  shows "inspect_block parse_meta (envelope_bytes d metadata stored) = Inr d"
proof -
  let ?b = "envelope_bytes d metadata stored"
  have "length ?b = 44 + length metadata + length stored" by (simp add: BLOCK_HEADER_LENGTH_def)
  then show ?thesis
    using assms by (simp add: inspect_block_def inspect_v2_block_def envelope_fields [OF assms(1)] envelope_slices
      sized_def assert_metadata_length_def assert_length_def assert_block_row_count_def guardR_def Let_def block_limits)
qed

lemma verify_envelope:
  assumes "inspect_block parse_meta (envelope_bytes d metadata stored) = Inr d" "stored_length d = length stored"
  shows "verify_stored_block parse_meta (envelope_bytes d metadata stored)
    = (if crc32 stored \<noteq> stored_checksum d then Inl (PlainError ''Block stored payload checksum mismatch'') else Inr d)"
  using assms envelope_slices(3) [of metadata d stored] by (simp add: verify_stored_block_def BLOCK_HEADER_LENGTH_def)

lemma set_at_whole: "length src = length target \<Longrightarrow> set_at target 0 src = src"
  by (simp add: set_at_def)

subsection \<open>Damage\<close>

lemma inspect_Inr:
  assumes "inspect_block parse_meta b = Inr d"
  shows "take 4 b = BLOCK_MAGIC" "44 + get_le 4 b 24 + get_le 4 b 32 = length b"
    "crc32 (slice_of b 8 (44 + get_le 4 b 24)) = get32 b 4" "stored_length d = get_le 4 b 32" "stored_checksum d = get32 b 40"
  using assms
  by (auto simp: inspect_block_def inspect_v2_block_def bindR_eq_Inr Let_def BLOCK_HEADER_LENGTH_def
      split: if_splits option.splits)

lemma get_le_take: "at + n \<le> k \<Longrightarrow> take k xs = take k ys \<Longrightarrow> get_le n xs at = get_le n ys at"
proof -
  assume a: "at + n \<le> k" "take k xs = take k ys"
  have S: "slice_of zs at (at + n) = drop at (take (at + n) (take k zs))" for zs :: "byte list"
    using a(1) by (simp add: slice_of_def drop_take min_absorb1)
  show ?thesis unfolding get_le_def S [of xs] S [of ys] a(2) ..
qed

lemma get_le_drop: "k \<le> at \<Longrightarrow> drop k xs = drop k ys \<Longrightarrow> get_le n xs at = get_le n ys at"
proof -
  assume a: "k \<le> at" "drop k xs = drop k ys"
  have S: "slice_of zs at (at + n) = take n (drop (at - k) (drop k zs))" for zs :: "byte list"
    using a(1) by (simp add: slice_of_def)
  show ?thesis unfolding get_le_def S [of xs] S [of ys] a(2) ..
qed

lemma window_agree:
  fixes v v' :: "'a list"
  assumes "length v' = length v"
  shows "k \<le> length us \<Longrightarrow> take k (us @ v' @ zs) = take k (us @ v @ zs)"
    "length us + length v \<le> k \<Longrightarrow> drop k (us @ v' @ zs) = drop k (us @ v @ zs)"
  using assms by simp_all

text \<open>A window in the checksummed part of the envelope.\<close>

lemma damaged_envelope:
  assumes sized: "sized d metadata stored" and x: "header_fields_bytes d @ metadata = us @ v @ zs"
    and v: "length v \<le> 4" "length v' = length v" "v' \<noteq> v"
  shows "\<exists>e. verify_stored_block parse_meta
    (BLOCK_MAGIC @ le32 (crc32 (header_fields_bytes d @ metadata)) @ (us @ v' @ zs) @ stored) = Inl e"
proof (rule ccontr)
  let ?pre = "BLOCK_MAGIC @ le32 (crc32 (header_fields_bytes d @ metadata))"
  let ?b = "envelope_bytes d metadata stored" and ?b' = "?pre @ (us @ v' @ zs) @ stored"
  assume "\<not> ?thesis"
  then obtain d' where "verify_stored_block parse_meta ?b' = Inr d'"
    by (cases "verify_stored_block parse_meta ?b'") auto
  then have "inspect_block parse_meta ?b' = Inr d'" by (auto simp: verify_stored_block_def bindR_eq_Inr split: if_splits)
  note I = inspect_Inr [OF this]
  have b: "?b = (?pre @ us) @ v @ (zs @ stored)" using x by (simp add: envelope_bytes_def)
  have b': "?b' = (?pre @ us) @ v' @ (zs @ stored)" by simp
  have pre: "length ?pre = 8" by simp
  note F = envelope_fields [OF sized]
  have len: "length ?b' = length ?b" unfolding b b' using v(2) by simp
  have fields: "get_le 4 ?b' 24 = get_le 4 ?b 24 \<or> get_le 4 ?b' 32 = get_le 4 ?b 32"
  proof (cases "20 \<le> length us")
    case True
    then show ?thesis unfolding b b'
      by (intro disjI1 get_le_take [of 24 4 28]) (use pre v(2) in \<open>auto simp: window_agree\<close>)
  next
    case False
    then show ?thesis unfolding b b'
      by (intro disjI2 get_le_drop [of 32 32]) (use pre v(1,2) in \<open>auto simp: window_agree\<close>)
  qed
  then have m: "get_le 4 ?b' 24 = length metadata"
    using I(2) F(11,13) sized len by (auto simp: sized_def BLOCK_HEADER_LENGTH_def)
  have "length (us @ v' @ zs) = 36 + length metadata" using arg_cong [OF x, of length] v(2) by simp
  then have "slice_of ?b' 8 (44 + length metadata) = us @ v' @ zs" by (simp add: slice_of_def)
  moreover have "get32 ?b' 4 = crc32 (us @ v @ zs)" by (simp add: bytes_simps x)
  ultimately have "crc32 (us @ v' @ zs) = crc32 (us @ v @ zs)" using I(3) m by simp
  moreover have "crc32 (us @ v' @ zs) \<noteq> crc32 (us @ v @ zs)" by (rule burst_detected) (use v in simp_all)
  ultimately show False by simp
qed

subsection \<open>Properties of the block envelope\<close>

text \<open>
  Property C26: a raw block reads back as it was written: \<open>writeRawBlock\<close> puts it at its place in the
  target and touches no other byte, and \<open>verifyStoredBlock\<close> of those bytes accepts them and returns
  the same description, given metadata bytes that parse to the metadata.
\<close>

theorem raw_block_roundtrip:
  assumes "length (in_metadata_bytes i) \<le> MAX_BLOCK_METADATA_BYTE_LENGTH" "length (in_payload i) \<le> MAX_PHYSICAL_COLUMN_BYTE_LENGTH"
    "in_row_count i \<le> MAX_BLOCK_ROW_COUNT" "in_null_count i \<le> in_row_count i"
    "parse_meta (in_metadata_bytes i) = Some (in_metadata i)"
    "at + BLOCK_HEADER_LENGTH + length (in_metadata_bytes i) + length (in_payload i) \<le> length target"
  shows "\<exists>out block. write_raw_block target at i = Inr (out, raw_description i)
    \<and> out = take at target @ block @ drop (at + length block) target
    \<and> encoded_raw_block_length (length (in_metadata_bytes i)) (length (in_payload i)) = Inr (length block)
    \<and> verify_stored_block parse_meta block = Inr (raw_description i)"
proof -
  let ?d = "raw_description i" and ?m = "in_metadata_bytes i" and ?p = "in_payload i"
  let ?b = "envelope_bytes ?d ?m ?p"
  have s: "sized ?d ?m ?p" using assms by (simp add: sized_def raw_description_def)
  have d: "?d\<lparr>metadata_length := length ?m, stored_length := length ?p\<rparr> = ?d" by (simp add: raw_description_def)
  have len: "encoded_raw_block_length (length ?m) (length ?p) = Inr (length ?b)"
    using assms(1,2) by (simp add: encoded_raw_block_length_def assert_metadata_length_def
      assert_stored_block_payload_byte_length_def)
  have "inspect_block parse_meta ?b = Inr ?d"
    by (rule inspect_envelope [OF s]) (use assms in \<open>simp_all add: raw_description_def\<close>)
  then have "verify_stored_block parse_meta ?b = Inr ?d"
    by (subst verify_envelope) (simp_all add: raw_description_def)
  then show ?thesis using len assms(6)
    by (intro exI [of _ "set_at target at ?b"] exI [of _ ?b])
      (simp add: write_raw_block_def write_block_envelope_def d set_at_def)
qed

definition demo_input :: "unit raw_input" where
  "demo_input = \<lparr>in_type = T_boolean, in_row_count = 3, in_null_count = 1, in_payload = [5, 4],
     in_metadata_bytes = [123, 125], in_metadata = ()\<rparr>"

lemma raw_block_roundtrip_witness:
  "\<exists>out block. write_raw_block (replicate 60 0) 6 demo_input = Inr (out, raw_description demo_input)
    \<and> verify_stored_block (\<lambda>_. Some ()) block = Inr (raw_description demo_input)"
  using raw_block_roundtrip [of demo_input "\<lambda>_. Some ()" 6 "replicate 60 0"] by (auto simp: demo_input_def block_limits)

text \<open>
  Property C27: no burst of damage of up to four bytes inside the envelope's checksummed fields, or
  inside the stored payload, survives \<open>verifyStoredBlock\<close>: it throws whatever the metadata parser
  makes of the damaged text. Damage to the length fields cannot hide behind the checksum they bound.
\<close>

theorem damaged_block_refused:
  assumes "sized d metadata stored" "stored_checksum d = crc32 stored"
    "length v \<le> 4" "length v' = length v" "v' \<noteq> v"
  shows "(header_fields_bytes d @ metadata = us @ v @ zs \<longrightarrow>
      (\<exists>e. verify_stored_block parse_meta
        (BLOCK_MAGIC @ le32 (crc32 (header_fields_bytes d @ metadata)) @ (us @ v' @ zs) @ stored) = Inl e))
    \<and> (stored = us @ v @ zs \<longrightarrow> (\<exists>e. verify_stored_block parse_meta (envelope_bytes d metadata (us @ v' @ zs)) = Inl e))"
proof (intro conjI impI)
  show "header_fields_bytes d @ metadata = us @ v @ zs \<Longrightarrow>
      \<exists>e. verify_stored_block parse_meta
        (BLOCK_MAGIC @ le32 (crc32 (header_fields_bytes d @ metadata)) @ (us @ v' @ zs) @ stored) = Inl e"
    by (rule damaged_envelope [OF assms(1) _ assms(3-5)])
next
  assume st: "stored = us @ v @ zs"
  let ?b = "envelope_bytes d metadata (us @ v' @ zs)"
  have s: "sized d metadata (us @ v' @ zs)" using assms(1,4) by (simp add: sized_def st)
  show "\<exists>e. verify_stored_block parse_meta ?b = Inl e"
  proof (cases "inspect_block parse_meta ?b")
    case (Inl e)
    then show ?thesis by (simp add: verify_stored_block_def)
  next
    case (Inr d')
    have "stored_checksum d' = stored_checksum d" "stored_length d' = length (us @ v' @ zs)"
      using inspect_Inr(4,5) [OF Inr] envelope_fields(13,15) [OF s] s by (simp_all add: sized_def)
    moreover have "crc32 (us @ v' @ zs) \<noteq> crc32 (us @ v @ zs)" by (rule burst_detected) (use assms(3-5) in simp_all)
    ultimately show ?thesis
      using Inr envelope_slices(3) [of metadata d "us @ v' @ zs"] assms(2) st
      by (simp add: verify_stored_block_def BLOCK_HEADER_LENGTH_def)
  qed
qed

lemma damaged_block_refused_witness:
  "\<exists>e. verify_stored_block (\<lambda>_. Some ()) (envelope_bytes (raw_description demo_input) [123, 125] [5, 7]) = Inl e"
proof -
  have "sized (raw_description demo_input) [123, 125] [5, 4]" "stored_checksum (raw_description demo_input) = crc32 [5, 4]"
    by (simp_all add: sized_def raw_description_def demo_input_def block_limits)
  from damaged_block_refused [OF this, of "[4]" "[7]" "[5]" "[]" "\<lambda>_. Some ()"] show ?thesis by simp
qed

end
