(* ===== verification/Float64.thy ===== *)
theory Float64
  imports Prelude
begin

text \<open>
  JavaScript numbers where the code looks at their bits: an IEEE 754 double as its 64-bit pattern.
  Its value is kept exactly, as an integer in units of \<open>2 ^ -1074\<close>; comparison, \<open>Number.isFinite\<close>,
  \<open>Number.isInteger\<close>, \<open>Math.min\<close> and \<open>Math.max\<close> (of numbers that are not NaN) are read off it.
\<close>

type_synonym f64 = u64

definition f64_negative :: "f64 \<Rightarrow> bool" where
  "f64_negative w \<longleftrightarrow> 2 ^ 63 \<le> unat w"

definition f64_exponent :: "f64 \<Rightarrow> nat" where
  "f64_exponent w = unat w div 2 ^ 52 mod 2048"

definition f64_fraction :: "f64 \<Rightarrow> nat" where
  "f64_fraction w = unat w mod 2 ^ 52"

definition f64_scaled :: "f64 \<Rightarrow> int" where
  "f64_scaled w =
     (let m = (if f64_exponent w = 0 then f64_fraction w else (2 ^ 52 + f64_fraction w) * 2 ^ (f64_exponent w - 1))
      in if f64_negative w then - int m else int m)"

definition f64_finite :: "f64 \<Rightarrow> bool" where
  "f64_finite w \<longleftrightarrow> f64_exponent w \<noteq> 2047"

definition f64_integer :: "f64 \<Rightarrow> bool" where
  "f64_integer w \<longleftrightarrow> f64_finite w \<and> 2 ^ 1074 dvd f64_scaled w"

definition f64_less :: "f64 \<Rightarrow> f64 \<Rightarrow> bool" where
  "f64_less a b \<longleftrightarrow> f64_scaled a < f64_scaled b"

definition f64_equal :: "f64 \<Rightarrow> f64 \<Rightarrow> bool" where
  "f64_equal a b \<longleftrightarrow> f64_scaled a = f64_scaled b"

definition f64_is_nan :: "f64 \<Rightarrow> bool" where
  "f64_is_nan w \<longleftrightarrow> f64_exponent w = 2047 \<and> f64_fraction w \<noteq> 0"

definition NOT_A_NUMBER :: f64 where "NOT_A_NUMBER = 0x7ff8000000000000"

lemma nan_is_nan: "f64_is_nan NOT_A_NUMBER"
  by (simp add: f64_is_nan_def NOT_A_NUMBER_def f64_exponent_def f64_fraction_def)

definition POSITIVE_INFINITY :: f64 where "POSITIVE_INFINITY = 0x7ff0000000000000"
definition NEGATIVE_INFINITY :: f64 where "NEGATIVE_INFINITY = 0xfff0000000000000"

definition f64_min :: "f64 \<Rightarrow> f64 \<Rightarrow> f64" where
  "f64_min a b = (if f64_less a b then a else if f64_less b a then b else if f64_negative a then a else b)"

definition f64_max :: "f64 \<Rightarrow> f64 \<Rightarrow> f64" where
  "f64_max a b = (if f64_less a b then b else if f64_less b a then a else if f64_negative a then b else a)"

lemma scaled_min: "f64_scaled (f64_min a b) = min (f64_scaled a) (f64_scaled b)"
  by (simp add: f64_min_def f64_less_def)

lemma scaled_max: "f64_scaled (f64_max a b) = max (f64_scaled a) (f64_scaled b)"
  by (simp add: f64_max_def f64_less_def)

text \<open>Every finite number lies strictly between the infinities.\<close>

lemma f64_magnitude_bound:
  assumes "f64_finite w"
  shows "\<bar>f64_scaled w\<bar> < 2 ^ 52 * 2 ^ 2046"
proof -
  define e f where "e = f64_exponent w" and "f = f64_fraction w"
  have e: "e < 2047" using assms by (simp add: e_def f64_finite_def f64_exponent_def)
  have f: "f < 2 ^ 52" by (simp add: f_def f64_fraction_def)
  define m where "m = (if e = 0 then f else (2 ^ 52 + f) * 2 ^ (e - 1))"
  have "m < 2 ^ 53 * 2 ^ 2045"
  proof (cases "e = 0")
    case True
    note f
    also have "(2 :: nat) ^ 52 \<le> 2 ^ 53 * 2 ^ 2045" by (simp flip: power_add del: power_numeral)
    finally show ?thesis using True by (simp only: m_def refl if_True)
  next
    case False
    have "(2 ^ 52 + f) * 2 ^ (e - 1) < 2 ^ 53 * 2 ^ (e - 1)" using f by simp
    also have "\<dots> \<le> 2 ^ 53 * 2 ^ 2045" by (rule mult_le_mono2, rule power_increasing) (use e in simp_all)
    finally show ?thesis using False by (simp add: m_def)
  qed
  also have "(2 :: nat) ^ 53 * 2 ^ 2045 = 2 ^ 52 * 2 ^ 2046" by (simp flip: power_add del: power_numeral)
  finally have "int m < int (2 ^ 52 * 2 ^ 2046)" by (simp only: of_nat_less_iff)
  also have "\<dots> = 2 ^ 52 * 2 ^ 2046" by (simp only: of_nat_mult of_nat_power of_nat_numeral)
  finally have "int m < 2 ^ 52 * 2 ^ 2046" .
  moreover have "\<bar>f64_scaled w\<bar> = int m"
    unfolding f64_scaled_def e_def [symmetric] f_def [symmetric] m_def [symmetric] by (simp add: Let_def)
  ultimately show ?thesis by (simp only:)
qed

lemma scaled_infinities:
  "f64_scaled POSITIVE_INFINITY = 2 ^ 52 * 2 ^ 2046" "f64_scaled NEGATIVE_INFINITY = - (2 ^ 52 * 2 ^ 2046)"
proof -
  have "f64_exponent POSITIVE_INFINITY = 2047" "f64_fraction POSITIVE_INFINITY = 0" "\<not> f64_negative POSITIVE_INFINITY"
    "f64_exponent NEGATIVE_INFINITY = 2047" "f64_fraction NEGATIVE_INFINITY = 0" "f64_negative NEGATIVE_INFINITY"
    by (simp_all add: POSITIVE_INFINITY_def NEGATIVE_INFINITY_def f64_exponent_def f64_fraction_def f64_negative_def)
  then show "f64_scaled POSITIVE_INFINITY = 2 ^ 52 * 2 ^ 2046" "f64_scaled NEGATIVE_INFINITY = - (2 ^ 52 * 2 ^ 2046)"
    by (simp_all add: f64_scaled_def)
qed

lemma below_infinity: "f64_finite w \<Longrightarrow> f64_scaled w < f64_scaled POSITIVE_INFINITY"
  using f64_magnitude_bound [of w] unfolding scaled_infinities abs_less_iff by blast

lemma above_infinity: "f64_finite w \<Longrightarrow> f64_scaled NEGATIVE_INFINITY < f64_scaled w"
  using f64_magnitude_bound [of w] unfolding scaled_infinities abs_less_iff by linarith

end
