(* ===== verification/Physical.thy ===== *)
theory Physical
  imports Block Bitmap Float64 Unicode
begin

text \<open>
  \<open>block-format/physical.ts\<close>: sizing and validation of a physical column. The specification is
  \<open>encode_cells\<close>, the canonical bytes of a list of cells; the validator is shown to accept exactly
  those. \<open>little_endian\<close> is the platform's byte order: on a little-endian platform a column without
  nulls is read through a \<open>Float64Array\<close>, on any other through a \<open>DataView\<close>.
\<close>

definition MAX_DATETIME_MILLISECONDS :: int where
  "MAX_DATETIME_MILLISECONDS = 8640000000000000"

type_synonym zone_map = "(f64 \<times> f64) option"

record phys_column =
  col_type :: logical_type
  col_rows :: int
  col_bytes :: "byte list"

record validated =
  val_null_count :: nat
  val_metadata :: zone_map

subsection \<open>Sizes\<close>

definition assert_nonnegative_safe_integer :: "int \<Rightarrow> unit result" where
  "assert_nonnegative_safe_integer value = guardR (is_safe_integer value \<and> 0 \<le> value) (RangeError ''Invalid'')"

definition assert_row_count :: "int \<Rightarrow> unit result" where
  "assert_row_count rows =
     bindR (assert_nonnegative_safe_integer rows) (\<lambda>_.
       guardR (rows \<le> int MAX_BLOCK_ROW_COUNT) (RangeError ''Physical column exceeds maximum row count''))"

definition assert_physical_byte_length :: "int \<Rightarrow> unit result" where
  "assert_physical_byte_length n =
     bindR (assert_nonnegative_safe_integer n) (\<lambda>_.
       guardR (n \<le> int MAX_PHYSICAL_COLUMN_BYTE_LENGTH) (RangeError ''Physical column exceeds maximum byte length''))"

definition checked_add :: "int \<Rightarrow> int \<Rightarrow> int result" where
  "checked_add left right = (if MAX_SAFE_INTEGER - right < left then Inl (RangeError ''Invalid length'') else Inr (left + right))"

definition checked_multiply :: "int \<Rightarrow> int \<Rightarrow> int result" where
  "checked_multiply left right =
     (if left \<noteq> 0 \<and> MAX_SAFE_INTEGER div left < right then Inl (RangeError ''Invalid length'') else Inr (left * right))"

definition physical_bitmap_byte_length :: "int \<Rightarrow> int result" where
  "physical_bitmap_byte_length rows = bindR (assert_row_count rows) (\<lambda>_. Inr ((rows + 7) div 8))"

definition physical_column_byte_length :: "logical_type \<Rightarrow> int \<Rightarrow> int \<Rightarrow> int result" where
  "physical_column_byte_length t rows content =
     bindR (physical_bitmap_byte_length rows) (\<lambda>validity.
     bindR (assert_nonnegative_safe_integer content) (\<lambda>_.
     bindR (case t of
         T_boolean \<Rightarrow>
           if content \<noteq> 0 then Inl (RangeError ''Boolean columns have no string content'')
           else checked_add validity validity
       | T_string \<Rightarrow>
           bindR (checked_add rows 1) (\<lambda>offsets. bindR (checked_multiply offsets 4) (\<lambda>o4.
           bindR (checked_add o4 content) (checked_add validity)))
       | _ \<Rightarrow>
           if content \<noteq> 0 then Inl (RangeError ''columns have no string content'')
           else bindR (checked_multiply rows 8) (checked_add validity)) (\<lambda>n.
     bindR (assert_physical_byte_length n) (\<lambda>_. Inr n))))"

subsection \<open>Validation\<close>

definition le64 :: "f64 \<Rightarrow> byte list" where "le64 w = le_bytes 8 (unat w)"
definition get64 :: "byte list \<Rightarrow> nat \<Rightarrow> f64" where "get64 bs at = word_of_nat (get_le 8 bs at)"

definition datetime_ok :: "f64 \<Rightarrow> bool" where
  "datetime_ok v \<longleftrightarrow> f64_integer v \<and> \<bar>f64_scaled v\<bar> \<le> MAX_DATETIME_MILLISECONDS * 2 ^ 1074"

definition assert_value :: "logical_type \<Rightarrow> f64 \<Rightarrow> unit result" where
  "assert_value t v =
     (if \<not> f64_finite v then Inl (PlainError ''Invalid physical value'')
      else if t = T_datetime \<and> \<not> datetime_ok v then Inl (PlainError ''Invalid datetime physical value'')
      else Inr ())"

definition zone_map_metadata :: "f64 \<times> f64 \<Rightarrow> zone_map" where
  "zone_map_metadata z = (if f64_equal (fst z) POSITIVE_INFINITY then None else Some z)"

definition no_values :: "f64 \<times> f64" where "no_values = (POSITIVE_INFINITY, NEGATIVE_INFINITY)"

text \<open>The loop over a typed view, taken when no row is null.\<close>

definition typed_step :: "logical_type \<Rightarrow> byte list \<Rightarrow> nat \<Rightarrow> f64 \<times> f64 \<Rightarrow> (f64 \<times> f64) result" where
  "typed_step t values index z =
     (let v = get64 values (8 * index) in
      bindR (assert_value t v) (\<lambda>_.
        Inr (if f64_less v (fst z) then v else fst z, if f64_less (snd z) v then v else snd z)))"

text \<open>The loop over a \<open>DataView\<close>: the slot of a null row is eight zero bytes.\<close>

definition zero_slot :: "byte list \<Rightarrow> nat \<Rightarrow> bool" where
  "zero_slot values index \<longleftrightarrow> list_all (\<lambda>k. at0 values (8 * index + k) = 0) [0..<8]"

definition view_step :: "logical_type \<Rightarrow> byte list \<Rightarrow> byte list \<Rightarrow> nat \<Rightarrow> f64 \<times> f64 \<Rightarrow> (f64 \<times> f64) result" where
  "view_step t validity values index z =
     (if \<not> has_bit validity index
      then if zero_slot values index then Inr z else Inl (PlainError ''value bytes are set for a null row'')
      else let v = get64 values (8 * index) in
        bindR (assert_value t v) (\<lambda>_. Inr (f64_min (fst z) v, f64_max (snd z) v)))"

definition string_step :: "byte list \<Rightarrow> byte list \<Rightarrow> byte list \<Rightarrow> nat \<Rightarrow> nat \<Rightarrow> nat result" where
  "string_step validity offsets content index previous =
     (let current = get_le 4 offsets (4 * (index + 1)) in
      if current < previous \<or> length content < current then Inl (PlainError ''Invalid string offset'')
      else if has_bit validity index
        then bindR (assert_valid_utf8 content previous current) (\<lambda>_. Inr current)
      else if current \<noteq> previous then Inl (PlainError ''Null strings must have empty content'')
      else Inr current)"

definition validate_boolean :: "nat \<Rightarrow> byte list \<Rightarrow> byte list \<Rightarrow> unit result" where
  "validate_boolean rows validity values =
     bindR (assert_zero_padding_bits values rows) (\<lambda>_.
       for_each [0..<length values] (\<lambda>index _.
         if at0 values index AND NOT (at0 validity index) \<noteq> 0
         then Inl (PlainError ''Boolean value is set for a null row'') else Inr ()) ())"

definition validate_numbers :: "bool \<Rightarrow> logical_type \<Rightarrow> nat \<Rightarrow> nat \<Rightarrow> byte list \<Rightarrow> byte list \<Rightarrow> zone_map result" where
  "validate_numbers little_endian t rows nulls validity values =
     bindR (for_each [0..<rows]
       (if nulls = 0 \<and> little_endian then typed_step t values else view_step t validity values) no_values)
       (\<lambda>z. Inr (zone_map_metadata z))"

definition validate_strings :: "nat \<Rightarrow> byte list \<Rightarrow> byte list \<Rightarrow> unit result" where
  "validate_strings rows validity payload =
     bindR (checked_add (int rows) 1) (\<lambda>r1. bindR (checked_multiply r1 4) (\<lambda>offsets_length.
       if length payload < nat offsets_length then Inl (PlainError ''Invalid string offsets'')
       else
         let offsets = take (nat offsets_length) payload; content = drop (nat offsets_length) payload;
             previous = get_le 4 offsets 0 in
         if previous \<noteq> 0 then Inl (PlainError ''Invalid first string offset'')
         else bindR (for_each [0..<rows] (string_step validity offsets content) previous) (\<lambda>final.
           if final \<noteq> length content then Inl (PlainError ''Unreferenced string bytes'')
           else bindR (physical_column_byte_length T_string (int rows) (int (length content))) (\<lambda>_. Inr ()))))"

definition validate_physical_column :: "bool \<Rightarrow> phys_column \<Rightarrow> validated result" where
  "validate_physical_column little_endian input =
     (let t = col_type input; bytes = col_bytes input in
      bindR (assert_row_count (col_rows input)) (\<lambda>_.
      bindR (assert_physical_byte_length (int (length bytes))) (\<lambda>_.
      bindR (physical_bitmap_byte_length (col_rows input)) (\<lambda>validity_length.
        let rows = nat (col_rows input); vl = nat validity_length in
        if length bytes < vl then Inl (PlainError ''Truncated validity bitmap'')
        else
          let validity = take vl bytes; payload = drop vl bytes in
          bindR (assert_zero_padding_bits validity rows) (\<lambda>_.
            let nulls = rows - count_set_bits validity rows in
            case t of
              T_boolean \<Rightarrow>
                bindR (physical_column_byte_length t (col_rows input) 0) (\<lambda>expected.
                  if int (length bytes) \<noteq> expected then Inl (PlainError ''Invalid boolean payload'')
                  else bindR (validate_boolean rows validity payload) (\<lambda>_.
                    Inr \<lparr>val_null_count = nulls, val_metadata = None\<rparr>))
            | T_string \<Rightarrow>
                bindR (validate_strings rows validity payload) (\<lambda>_.
                  Inr \<lparr>val_null_count = nulls, val_metadata = None\<rparr>)
            | _ \<Rightarrow>
                bindR (physical_column_byte_length t (col_rows input) 0) (\<lambda>expected.
                  if int (length bytes) \<noteq> expected then Inl (PlainError ''Invalid payload'')
                  else bindR (validate_numbers little_endian t rows nulls validity payload) (\<lambda>z.
                    Inr \<lparr>val_null_count = nulls, val_metadata = z\<rparr>)))))))"

subsection \<open>The specification: the canonical bytes of a list of cells\<close>

datatype cell = Null | Flag bool | Float f64 | Text "byte list"

definition cell_ok :: "logical_type \<Rightarrow> cell \<Rightarrow> bool" where
  "cell_ok t c = (case c of
     Null \<Rightarrow> True
   | Flag _ \<Rightarrow> t = T_boolean
   | Float v \<Rightarrow> (t = T_number \<or> t = T_datetime) \<and> assert_value t v = Inr ()
   | Text b \<Rightarrow> t = T_string \<and> utf8_decode True b \<noteq> None)"

definition validity_of :: "cell list \<Rightarrow> byte list" where
  "validity_of cells = bitmap (map (\<lambda>c. c \<noteq> Null) cells)"

definition slot :: "cell \<Rightarrow> byte list" where
  "slot c = (case c of Float v \<Rightarrow> le64 v | _ \<Rightarrow> replicate 8 0)"

definition text_of :: "cell \<Rightarrow> byte list" where
  "text_of c = (case c of Text b \<Rightarrow> b | _ \<Rightarrow> [])"

definition text_offset :: "cell list \<Rightarrow> nat \<Rightarrow> nat" where
  "text_offset cells k = length (concat (map text_of (take k cells)))"

definition payload_of :: "logical_type \<Rightarrow> cell list \<Rightarrow> byte list" where
  "payload_of t cells = (case t of
     T_boolean \<Rightarrow> bitmap (map (\<lambda>c. c = Flag True) cells)
   | T_string \<Rightarrow> concat (map (\<lambda>k. le_bytes 4 (text_offset cells k)) [0..<length cells + 1]) @ concat (map text_of cells)
   | _ \<Rightarrow> concat (map slot cells))"

definition encode_cells :: "logical_type \<Rightarrow> cell list \<Rightarrow> byte list" where
  "encode_cells t cells = validity_of cells @ payload_of t cells"

definition null_cells :: "cell list \<Rightarrow> nat" where
  "null_cells cells = length (filter (\<lambda>c. c = Null) cells)"

definition zone_step :: "f64 \<times> f64 \<Rightarrow> cell \<Rightarrow> f64 \<times> f64" where
  "zone_step z c = (case c of Float v \<Rightarrow> (f64_min (fst z) v, f64_max (snd z) v) | _ \<Rightarrow> z)"

definition zone_of :: "cell list \<Rightarrow> zone_map" where
  "zone_of cells = zone_map_metadata (foldl zone_step no_values cells)"

text \<open>\<open>metadataEquals\<close> of \<open>block.ts\<close>.\<close>

definition metadata_equals :: "zone_map \<Rightarrow> zone_map \<Rightarrow> bool" where
  "metadata_equals left right = (case (left, right) of
     (Some l, Some r) \<Rightarrow> f64_equal (fst l) (fst r) \<and> f64_equal (snd l) (snd r)
   | (None, None) \<Rightarrow> True | _ \<Rightarrow> False)"

definition column_of :: "logical_type \<Rightarrow> cell list \<Rightarrow> phys_column" where
  "column_of t cells = \<lparr>col_type = t, col_rows = int (length cells), col_bytes = encode_cells t cells\<rparr>"

definition storable :: "logical_type \<Rightarrow> cell list \<Rightarrow> bool" where
  "storable t cells \<longleftrightarrow> (\<forall>c \<in> set cells. cell_ok t c) \<and> length cells \<le> MAX_BLOCK_ROW_COUNT
     \<and> length (encode_cells t cells) \<le> MAX_PHYSICAL_COLUMN_BYTE_LENGTH"

subsection \<open>Reading cells\<close>

definition flag_cells :: "byte list \<Rightarrow> byte list \<Rightarrow> nat \<Rightarrow> cell list" where
  "flag_cells validity values n = map (\<lambda>i. if has_bit validity i then Flag (has_bit values i) else Null) [0..<n]"

definition float_cells :: "byte list \<Rightarrow> byte list \<Rightarrow> nat \<Rightarrow> cell list" where
  "float_cells validity values n = map (\<lambda>i. if has_bit validity i then Float (get64 values (8 * i)) else Null) [0..<n]"

definition text_cells :: "byte list \<Rightarrow> byte list \<Rightarrow> byte list \<Rightarrow> nat \<Rightarrow> cell list" where
  "text_cells validity offsets content n =
     map (\<lambda>i. if has_bit validity i
       then Text (slice_of content (get_le 4 offsets (4 * i)) (get_le 4 offsets (4 * (i + 1)))) else Null) [0..<n]"

definition cells_of :: "phys_column \<Rightarrow> cell list" where
  "cells_of c =
     (let n = nat (col_rows c); vl = bitmap_length n; validity = take vl (col_bytes c); payload = drop vl (col_bytes c) in
      case col_type c of
        T_boolean \<Rightarrow> flag_cells validity payload n
      | T_string \<Rightarrow> text_cells validity (take (4 * (n + 1)) payload) (drop (4 * (n + 1)) payload) n
      | _ \<Rightarrow> float_cells validity payload n)"

lemma length_le64 [simp]: "length (le64 w) = 8"
  by (simp add: le64_def)

lemma length_value_slot [simp]: "length (slot c) = 8"
  by (simp add: slot_def split: cell.split)

lemma u64_bound: "unat (w :: u64) < 256 ^ 8"
  using unsigned_less [of w, where 'a = nat] by simp

lemma get64_slice: "slice_of bs at (at + 8) = le64 w \<Longrightarrow> get64 bs at = w"
  using u64_bound [of w] by (simp add: get64_def get_le_def le64_def le_val_le_bytes del: power_numeral)

lemma le64_get64: "at + 8 \<le> length bs \<Longrightarrow> le64 (get64 bs at) = slice_of bs at (at + 8)"
proof -
  assume a: "at + 8 \<le> length bs"
  have "get_le 8 bs at < 256 ^ 8" using le_val_bound [of "slice_of bs at (at + 8)"] a by (simp add: get_le_def)
  then have "unat (get64 bs at) = get_le 8 bs at" by (simp add: get64_def unat_of_nat)
  then show ?thesis using slice_le_bytes [OF a] by (simp add: le64_def)
qed

lemma length_floats: "length (concat (map slot cells)) = 8 * length cells"
  by (rule length_concat_blocks) simp

lemma has_bit_validity: "has_bit (validity_of cells) i \<longleftrightarrow> i < length cells \<and> cells ! i \<noteq> Null"
  by (auto simp: validity_of_def has_bit_bitmap)

lemma length_validity [simp]: "length (validity_of cells) = bitmap_length (length cells)"
  by (simp add: validity_of_def)

lemma validity_of_map:
  assumes "length validity = bitmap_length n" "\<And>i. n \<le> i \<Longrightarrow> \<not> has_bit validity i"
    "\<And>i. i < n \<Longrightarrow> (f i \<noteq> Null) = has_bit validity i"
  shows "validity_of (map f [0..<n]) = validity"
  unfolding validity_of_def by (rule bitmap_eqI [symmetric]) (use assms in simp_all)

text \<open>Numbers.\<close>

lemma float_cells_encode:
  assumes "\<forall>c \<in> set cells. c = Null \<or> (\<exists>v. c = Float v)"
  shows "float_cells (validity_of cells) (concat (map slot cells)) (length cells) = cells"
proof (rule nth_equalityI)
  fix i assume "i < length (float_cells (validity_of cells) (concat (map slot cells)) (length cells))"
  then have i: "i < length cells" by (simp add: float_cells_def)
  have s: "slice_of (concat (map slot cells)) (8 * i) (8 * i + 8) = slot (cells ! i)"
    using slice_block [of cells slot 8 i "[]"] i by simp
  have c: "cells ! i = Null \<or> (\<exists>v. cells ! i = Float v)" using assms i nth_mem by blast
  show "float_cells (validity_of cells) (concat (map slot cells)) (length cells) ! i = cells ! i"
    using c
  proof
    assume "\<exists>v. cells ! i = Float v"
    then obtain v where v: "cells ! i = Float v" by blast
    then have "get64 (concat (map slot cells)) (8 * i) = v" using s by (intro get64_slice) (simp add: slot_def)
    then show ?thesis using i v by (simp add: float_cells_def has_bit_validity)
  qed (use i in \<open>simp add: float_cells_def has_bit_validity\<close>)
qed (simp add: float_cells_def)

lemma zero_slot_slice: "8 * i + 8 \<le> length values \<Longrightarrow> zero_slot values i \<longleftrightarrow> slice_of values (8 * i) (8 * i + 8) = replicate 8 0"
proof -
  assume l: "8 * i + 8 \<le> length values"
  have "slice_of values (8 * i) (8 * i + 8) = map (\<lambda>k. values ! (8 * i + k)) [0..<8]"
    using l by (intro nth_equalityI) (simp_all add: slice_of_def)
  moreover have "replicate 8 (0 :: byte) = map (\<lambda>_. 0) [0..<8]" by (simp add: map_replicate_const)
  ultimately show ?thesis using l by (auto simp: zero_slot_def list_all_iff at0_def)
qed

lemma encode_float_cells:
  assumes "length validity = bitmap_length n" "\<And>i. n \<le> i \<Longrightarrow> \<not> has_bit validity i" "length values = 8 * n"
    "\<And>i. i < n \<Longrightarrow> \<not> has_bit validity i \<Longrightarrow> zero_slot values i"
  shows "validity_of (float_cells validity values n) = validity" "concat (map slot (float_cells validity values n)) = values"
proof -
  show "validity_of (float_cells validity values n) = validity"
    unfolding float_cells_def by (rule validity_of_map) (use assms in simp_all)
  have "slot (if has_bit validity i then Float (get64 values (8 * i)) else Null) = slice_of values (8 * i) (8 * i + 8)"
    if "i < n" for i
  proof -
    have l: "8 * i + 8 \<le> length values" using that assms(3) by simp
    show ?thesis using that assms(4) [of i] zero_slot_slice [OF l] le64_get64 [OF l] by (auto simp: slot_def)
  qed
  then have "map slot (float_cells validity values n) = map (\<lambda>i. slice_of values (8 * i) (8 * i + 8)) [0..<n]"
    by (simp add: float_cells_def)
  then show "concat (map slot (float_cells validity values n)) = values"
    using concat_slices [of 8 n "values"] assms(3) by simp
qed

text \<open>Booleans.\<close>

lemma flag_cells_encode:
  assumes "\<forall>c \<in> set cells. c = Null \<or> (\<exists>b. c = Flag b)"
  shows "flag_cells (validity_of cells) (bitmap (map (\<lambda>c. c = Flag True) cells)) (length cells) = cells"
proof (rule nth_equalityI)
  fix i assume "i < length (flag_cells (validity_of cells) (bitmap (map (\<lambda>c. c = Flag True) cells)) (length cells))"
  then have i: "i < length cells" by (simp add: flag_cells_def)
  have c: "cells ! i = Null \<or> (\<exists>b. cells ! i = Flag b)" using assms i nth_mem by blast
  then show "flag_cells (validity_of cells) (bitmap (map (\<lambda>c. c = Flag True) cells)) (length cells) ! i = cells ! i"
    using i by (auto simp: flag_cells_def has_bit_validity has_bit_bitmap)
qed (simp add: flag_cells_def)

lemma encode_flag_cells:
  assumes "length validity = bitmap_length n" "\<And>i. n \<le> i \<Longrightarrow> \<not> has_bit validity i"
    "length values = bitmap_length n" "\<And>i. has_bit values i \<Longrightarrow> has_bit validity i"
  shows "validity_of (flag_cells validity values n) = validity"
    "bitmap (map (\<lambda>c. c = Flag True) (flag_cells validity values n)) = values"
proof -
  show "validity_of (flag_cells validity values n) = validity"
    unfolding flag_cells_def by (rule validity_of_map) (use assms in simp_all)
  have z: "n \<le> i \<Longrightarrow> \<not> has_bit values i" for i using assms(2,4) by blast
  show "bitmap (map (\<lambda>c. c = Flag True) (flag_cells validity values n)) = values"
    by (rule bitmap_eqI [symmetric]) (use assms z in \<open>auto simp: flag_cells_def\<close>)
qed

text \<open>Strings.\<close>

lemma text_offset_mono: "k \<le> m \<Longrightarrow> text_offset cells k \<le> text_offset cells m"
proof -
  assume "k \<le> m"
  then obtain d where "m = k + d" using le_Suc_ex by blast
  then show ?thesis by (simp add: text_offset_def take_add)
qed

lemma text_offset_0 [simp]: "text_offset cells 0 = 0"
  by (simp add: text_offset_def)

lemma text_offset_all: "length cells \<le> k \<Longrightarrow> text_offset cells k = length (concat (map text_of cells))"
  by (simp add: text_offset_def)

lemma text_offset_Suc: "k < length cells \<Longrightarrow> text_offset cells (Suc k) = text_offset cells k + length (text_of (cells ! k))"
  by (simp add: text_offset_def take_Suc_conv_app_nth)

lemma text_slice:
  assumes "i < length cells"
  shows "slice_of (concat (map text_of cells)) (text_offset cells i) (text_offset cells (Suc i)) = text_of (cells ! i)"
proof -
  have "concat (map text_of cells) = concat (map text_of (take i cells)) @ text_of (cells ! i) @ concat (map text_of (drop (Suc i) cells))"
    by (subst id_take_nth_drop [OF assms]) simp
  then show ?thesis
    using slice_of_middle [of "concat (map text_of (take i cells))" "text_of (cells ! i)" "concat (map text_of (drop (Suc i) cells))"]
    by (simp add: text_offset_Suc [OF assms]) (simp add: text_offset_def)
qed

lemma offset_read:
  assumes "k \<le> length cells" "length (concat (map text_of cells)) < 256 ^ 4"
  shows "get_le 4 (concat (map (\<lambda>k. le_bytes 4 (text_offset cells k)) [0..<length cells + 1]) @ ys) (4 * k) = text_offset cells k"
proof -
  have "text_offset cells k \<le> length (concat (map text_of cells))"
    using text_offset_mono [OF assms(1), of cells] by (simp add: text_offset_all)
  then have "text_offset cells k < 256 ^ 4" using assms(2) by simp
  then show ?thesis
    using slice_block [of "[0..<length cells + 1]" "\<lambda>k. le_bytes 4 (text_offset cells k)" 4 k ys] assms(1)
    by (simp add: get_le_def le_val_le_bytes del: upt_Suc)
qed

lemma text_cells_encode:
  assumes "\<forall>c \<in> set cells. c = Null \<or> (\<exists>b. c = Text b)" "length (concat (map text_of cells)) < 256 ^ 4"
  shows "text_cells (validity_of cells) (concat (map (\<lambda>k. le_bytes 4 (text_offset cells k)) [0..<length cells + 1]))
    (concat (map text_of cells)) (length cells) = cells" (is "text_cells ?v ?o ?c ?n = cells")
proof (rule nth_equalityI)
  fix i assume "i < length (text_cells ?v ?o ?c ?n)"
  then have i: "i < length cells" by (simp add: text_cells_def)
  have "get_le 4 ?o (4 * i) = text_offset cells i" "get_le 4 ?o (4 * (i + 1)) = text_offset cells (i + 1)"
    using offset_read [OF _ assms(2), of i "[]"] offset_read [OF _ assms(2), of "i + 1" "[]"] i by (simp_all del: upt_Suc)
  then have "text_cells ?v ?o ?c ?n ! i = (if cells ! i \<noteq> Null then Text (text_of (cells ! i)) else Null)"
    using i text_slice [OF i] by (simp add: text_cells_def has_bit_validity del: upt_Suc)
  moreover have "cells ! i = Null \<or> (\<exists>b. cells ! i = Text b)" using assms(1) i nth_mem by blast
  ultimately show "text_cells ?v ?o ?c ?n ! i = cells ! i" by (auto simp: text_of_def)
qed (simp add: text_cells_def)

lemma encode_text_cells:
  assumes "length validity = bitmap_length n" "\<And>i. n \<le> i \<Longrightarrow> \<not> has_bit validity i" "length offsets = 4 * (n + 1)"
    "get_le 4 offsets 0 = 0" "get_le 4 offsets (4 * n) = length content"
    "\<And>i. i < n \<Longrightarrow> get_le 4 offsets (4 * i) \<le> get_le 4 offsets (4 * Suc i)"
    "\<And>i. i < n \<Longrightarrow> \<not> has_bit validity i \<Longrightarrow> get_le 4 offsets (4 * i) = get_le 4 offsets (4 * Suc i)"
  defines "cells \<equiv> text_cells validity offsets content n"
  shows "validity_of cells = validity" "concat (map text_of cells) = content"
    "concat (map (\<lambda>k. le_bytes 4 (text_offset cells k)) [0..<n + 1]) = offsets"
proof -
  define off where "off i = get_le 4 offsets (4 * i)" for i
  show "validity_of cells = validity"
    unfolding cells_def text_cells_def by (rule validity_of_map) (use assms in simp_all)
  have m: "map text_of cells = map (\<lambda>i. slice_of content (off i) (off (Suc i))) [0..<n]"
    using assms(7) by (auto simp: cells_def text_cells_def text_of_def off_def slice_of_def)
  have mono: "off i \<le> off (Suc i)" if "i < n" for i using assms(6) [OF that] by (simp add: off_def)
  have pre: "concat (map text_of (take k cells)) = slice_of content 0 (off k)" if "k \<le> n" for k
  proof -
    have "map text_of (take k cells) = map (\<lambda>i. slice_of content (off i) (off (Suc i))) [0..<k]"
      using that unfolding take_map [symmetric] m by (simp add: take_map take_upt)
    then show ?thesis using concat_ranges [of k off content] mono that assms(4) by (simp add: off_def)
  qed
  have len: "length cells = n" by (simp add: cells_def text_cells_def)
  show "concat (map text_of cells) = content" using pre [of n] len assms(5) by (simp add: off_def slice_of_def)
  have le: "off k \<le> length content" if "k \<le> n" for k
  proof -
    have "off k \<le> off n" using that mono by (induction rule: dec_induct [where i = k]) (auto intro: le_trans)
    then show ?thesis using assms(5) by (simp add: off_def)
  qed
  have "text_offset cells k = off k" if "k \<le> n" for k
    using pre [OF that] le [OF that] by (simp add: text_offset_def)
  then have eq: "map (\<lambda>k. le_bytes 4 (text_offset cells k)) [0..<n + 1] = map (\<lambda>k. slice_of offsets (4 * k) (4 * k + 4)) [0..<n + 1]"
    using assms(3) by (auto simp: off_def intro!: slice_le_bytes simp del: upt_Suc)
  show "concat (map (\<lambda>k. le_bytes 4 (text_offset cells k)) [0..<n + 1]) = offsets"
    unfolding eq using concat_slices [of 4 "n + 1" offsets] assms(3) by (simp del: upt_Suc)
qed

subsection \<open>Sizes\<close>

lemma row_count_ok: "assert_row_count (int n) = (if n \<le> MAX_BLOCK_ROW_COUNT then Inr () else assert_row_count (int n))"
  by (simp add: assert_row_count_def assert_nonnegative_safe_integer_def block_limits safe_int_defs)

lemma assert_row_count_iff: "assert_row_count r = Inr () \<longleftrightarrow> 0 \<le> r \<and> nat r \<le> MAX_BLOCK_ROW_COUNT"
  by (auto simp: assert_row_count_def assert_nonnegative_safe_integer_def block_limits safe_int_defs bindR_eq_Inr)

lemma physical_bytes_iff: "assert_physical_byte_length (int n) = Inr () \<longleftrightarrow> n \<le> MAX_PHYSICAL_COLUMN_BYTE_LENGTH"
  by (auto simp: assert_physical_byte_length_def assert_nonnegative_safe_integer_def block_limits safe_int_defs bindR_eq_Inr)

lemma bitmap_bytes: "n \<le> MAX_BLOCK_ROW_COUNT \<Longrightarrow> physical_bitmap_byte_length (int n) = Inr (int (bitmap_length n))"
  using assert_row_count_iff [of "int n"] by (simp add: physical_bitmap_byte_length_def bitmap_length_def zdiv_int)

definition value_length :: "logical_type \<Rightarrow> nat \<Rightarrow> nat \<Rightarrow> nat" where
  "value_length t n content = (case t of T_boolean \<Rightarrow> bitmap_length n | T_string \<Rightarrow> 4 * (n + 1) + content | _ \<Rightarrow> 8 * n)"

lemma bitmap_length_le: "n \<le> MAX_BLOCK_ROW_COUNT \<Longrightarrow> bitmap_length n \<le> 131072"
  by (simp add: bitmap_length_def block_limits)

lemma checked_multiply_ok: "0 \<le> a \<Longrightarrow> a * b \<le> MAX_SAFE_INTEGER \<Longrightarrow> checked_multiply a b = Inr (a * b)"
proof -
  assume a: "0 \<le> a" "a * b \<le> MAX_SAFE_INTEGER"
  then have "a \<noteq> 0 \<Longrightarrow> b \<le> MAX_SAFE_INTEGER div a" using zdiv_mono1 [OF a(2), of a] by simp
  then show ?thesis by (auto simp: checked_multiply_def)
qed

lemma checked_add_ok: "a + b \<le> MAX_SAFE_INTEGER \<Longrightarrow> checked_add a b = Inr (a + b)"
  by (simp add: checked_add_def)

lemma byte_length_ok:
  assumes "n \<le> MAX_BLOCK_ROW_COUNT" "t = T_string \<or> content = 0" "bitmap_length n + value_length t n content \<le> MAX_PHYSICAL_COLUMN_BYTE_LENGTH"
  shows "physical_column_byte_length t (int n) (int content) = Inr (int (bitmap_length n + value_length t n content))"
proof -
  have b: "bitmap_length n \<le> 131072" "n \<le> 1048576" using bitmap_length_le [OF assms(1)] assms(1) by (simp_all add: block_limits)
  have c: "assert_nonnegative_safe_integer (int content) = Inr ()"
    using assms(2,3) by (auto simp: assert_nonnegative_safe_integer_def safe_int_defs value_length_def block_limits)
  have p: "assert_physical_byte_length (int (bitmap_length n + value_length t n content)) = Inr ()"
    using assms(3) by (simp only: physical_bytes_iff)
  have m: "checked_multiply (int n) 8 = Inr (int n * 8)" "checked_multiply (int n + 1) 4 = Inr ((int n + 1) * 4)"
    using b(2) by (intro checked_multiply_ok; simp add: MAX_SAFE_INTEGER_def)+
  show ?thesis
  proof (cases "t = T_string")
    case True
    then have "int (bitmap_length n) + ((int n + 1) * 4 + int content) \<le> MAX_SAFE_INTEGER"
      using assms(3) by (simp add: value_length_def block_limits MAX_SAFE_INTEGER_def)
    then show ?thesis using True p m b
      by (simp add: physical_column_byte_length_def bitmap_bytes [OF assms(1)] c value_length_def checked_add_ok
        checked_add_ok [of "int n" 1] MAX_SAFE_INTEGER_def ac_simps)
  next
    case False
    have z: "assert_nonnegative_safe_integer 0 = Inr ()"
      by (simp add: assert_nonnegative_safe_integer_def safe_int_defs)
    show ?thesis using False p m b assms(2)
      by (cases t) (simp_all add: physical_column_byte_length_def bitmap_bytes [OF assms(1)] z value_length_def
        checked_add_ok MAX_SAFE_INTEGER_def mult.commute)
  qed
qed

lemma fixed_lengths:
  assumes "n \<le> MAX_BLOCK_ROW_COUNT" "t \<noteq> T_string"
  shows "physical_column_byte_length t (int n) 0 = Inr (int (bitmap_length n + value_length t n 0))"
proof -
  have "bitmap_length n + value_length t n 0 \<le> MAX_PHYSICAL_COLUMN_BYTE_LENGTH"
    using bitmap_length_le [OF assms(1)] assms by (cases t) (simp_all add: value_length_def block_limits)
  then show ?thesis using byte_length_ok [OF assms(1), of t 0] by simp
qed

subsection \<open>The validator accepts exactly the canonical bytes\<close>

lemma cell_ok_simps [simp]:
  "cell_ok t Null" "cell_ok t (Flag b) = (t = T_boolean)"
  "cell_ok t (Float v) = ((t = T_number \<or> t = T_datetime) \<and> assert_value t v = Inr ())"
  "cell_ok t (Text s) = (t = T_string \<and> utf8_decode True s \<noteq> None)"
  by (simp_all add: cell_ok_def)

lemma all_map_upt: "(\<forall>c \<in> set (map f [0..<n]). P c) \<longleftrightarrow> (\<forall>i < n. P (f i))"
  by auto

lemma set_float_cells:
  "(\<forall>c \<in> set (float_cells validity values n). cell_ok t c) \<longleftrightarrow>
    (\<forall>i < n. has_bit validity i \<longrightarrow> (t = T_number \<or> t = T_datetime) \<and> assert_value t (get64 values (8 * i)) = Inr ())"
  unfolding float_cells_def all_map_upt by auto

definition number_row_ok :: "logical_type \<Rightarrow> byte list \<Rightarrow> byte list \<Rightarrow> nat \<Rightarrow> bool" where
  "number_row_ok t validity values i \<longleftrightarrow>
     (if has_bit validity i then assert_value t (get64 values (8 * i)) = Inr () else zero_slot values i)"

definition same_zone :: "f64 \<times> f64 \<Rightarrow> f64 \<times> f64 \<Rightarrow> bool" where
  "same_zone a b \<longleftrightarrow> f64_scaled (fst a) = f64_scaled (fst b) \<and> f64_scaled (snd a) = f64_scaled (snd b)"

lemma same_zone_metadata: "same_zone a b \<Longrightarrow> metadata_equals (zone_map_metadata a) (zone_map_metadata b)"
  by (simp add: same_zone_def metadata_equals_def zone_map_metadata_def f64_equal_def)

definition cells_zone :: "byte list \<Rightarrow> byte list \<Rightarrow> nat \<Rightarrow> f64 \<times> f64" where
  "cells_zone validity values n = foldl zone_step no_values (float_cells validity values n)"

lemma cells_zone_Suc: "cells_zone validity values (Suc i) =
   (if has_bit validity i
    then (f64_min (fst (cells_zone validity values i)) (get64 values (8 * i)), f64_max (snd (cells_zone validity values i)) (get64 values (8 * i)))
    else cells_zone validity values i)"
  by (simp add: cells_zone_def float_cells_def zone_step_def)

definition typed_zone :: "byte list \<Rightarrow> nat \<Rightarrow> f64 \<times> f64" where
  "typed_zone values n = foldl (\<lambda>z i. let v = get64 values (8 * i) in
     (if f64_less v (fst z) then v else fst z, if f64_less (snd z) v then v else snd z)) no_values [0..<n]"

lemma typed_zone_same: "\<forall>i < n. has_bit validity i \<Longrightarrow> same_zone (typed_zone values n) (cells_zone validity values n)"
proof (induction n)
  case 0
  then show ?case by (simp add: typed_zone_def cells_zone_def float_cells_def same_zone_def)
next
  case (Suc n)
  have "typed_zone values (Suc n) = (let v = get64 values (8 * n); z = typed_zone values n in
     (if f64_less v (fst z) then v else fst z, if f64_less (snd z) v then v else snd z))"
    by (simp add: typed_zone_def Let_def)
  with Suc show ?case
    by (simp add: cells_zone_Suc same_zone_def Let_def scaled_min scaled_max f64_less_def)
qed

lemma assert_value_cases: "(\<exists>e. assert_value t v = Inl e) \<or> assert_value t v = Inr ()"
  by (simp add: assert_value_def)

lemma view_loop:
  "(\<forall>i < n. number_row_ok t validity values i) \<Longrightarrow> for_each [0..<n] (view_step t validity values) no_values = Inr (cells_zone validity values n)"
  "for_each [0..<n] (view_step t validity values) no_values = Inr s \<Longrightarrow> (\<forall>i < n. number_row_ok t validity values i) \<and> s = cells_zone validity values n"
proof -
  have z: "no_values = cells_zone validity values 0" by (simp add: cells_zone_def float_cells_def)
  have ok: "number_row_ok t validity values i \<Longrightarrow>
      view_step t validity values i (cells_zone validity values i) = Inr (cells_zone validity values (Suc i))" for i
    by (auto simp: view_step_def number_row_ok_def cells_zone_Suc Let_def split: if_splits)
  have bad: "\<not> number_row_ok t validity values i \<Longrightarrow>
      \<exists>e. view_step t validity values i (cells_zone validity values i) = Inl e" for i
    using assert_value_cases [of t "get64 values (8 * i)"]
    by (auto simp: view_step_def number_row_ok_def Let_def split: if_splits)
  show "(\<forall>i < n. number_row_ok t validity values i) \<Longrightarrow> for_each [0..<n] (view_step t validity values) no_values = Inr (cells_zone validity values n)"
    unfolding z by (rule for_each_upt(1) [of n "number_row_ok t validity values"]) (use ok bad in auto)
  show "for_each [0..<n] (view_step t validity values) no_values = Inr s \<Longrightarrow> (\<forall>i < n. number_row_ok t validity values i) \<and> s = cells_zone validity values n"
    unfolding z by (rule for_each_upt(2) [of n "number_row_ok t validity values" "view_step t validity values" "cells_zone validity values"]) (use ok bad in auto)
qed

lemma typed_loop:
  fixes t "values"
  defines "P \<equiv> \<lambda>i. assert_value t (get64 values (8 * i)) = Inr ()"
  shows "(\<forall>i < n. P i) \<Longrightarrow> for_each [0..<n] (typed_step t values) no_values = Inr (typed_zone values n)"
    "for_each [0..<n] (typed_step t values) no_values = Inr s \<Longrightarrow> (\<forall>i < n. P i) \<and> s = typed_zone values n"
proof -
  have z: "no_values = typed_zone values 0" by (simp add: typed_zone_def)
  have ok: "P i \<Longrightarrow> typed_step t values i (typed_zone values i) = Inr (typed_zone values (Suc i))" for i
    by (simp add: typed_step_def P_def typed_zone_def Let_def)
  have bad: "\<not> P i \<Longrightarrow> \<exists>e. typed_step t values i (typed_zone values i) = Inl e" for i
    using assert_value_cases [of t "get64 values (8 * i)"] by (auto simp: typed_step_def P_def Let_def)
  show "(\<forall>i < n. P i) \<Longrightarrow> for_each [0..<n] (typed_step t values) no_values = Inr (typed_zone values n)"
    unfolding z by (rule for_each_upt(1) [of n P]) (use ok bad in auto)
  show "for_each [0..<n] (typed_step t values) no_values = Inr s \<Longrightarrow> (\<forall>i < n. P i) \<and> s = typed_zone values n"
    unfolding z by (rule for_each_upt(2) [of n P "typed_step t values" "typed_zone values"]) (use ok bad in auto)
qed

lemma validate_numbers_ok:
  assumes "\<forall>i < n. number_row_ok t validity values i" "nulls = 0 \<Longrightarrow> \<forall>i < n. has_bit validity i"
  shows "\<exists>z. validate_numbers le t n nulls validity values = Inr z \<and> metadata_equals z (zone_of (float_cells validity values n))"
proof (cases "nulls = 0 \<and> le")
  case True
  then have "\<forall>i < n. assert_value t (get64 values (8 * i)) = Inr ()" using assms by (auto simp: number_row_ok_def)
  then show ?thesis using True typed_loop(1) same_zone_metadata [OF typed_zone_same] assms(2)
    by (simp add: validate_numbers_def zone_of_def cells_zone_def [symmetric])
next
  case False
  then show ?thesis using view_loop(1) [OF assms(1)] same_zone_metadata [of "cells_zone validity values n"]
    by (auto simp: validate_numbers_def zone_of_def cells_zone_def [symmetric] same_zone_def)
qed

lemma validate_numbers_Inr:
  assumes "validate_numbers le t n nulls validity values = Inr z" "nulls = 0 \<Longrightarrow> \<forall>i < n. has_bit validity i"
  shows "(\<forall>i < n. number_row_ok t validity values i) \<and> metadata_equals z (zone_of (float_cells validity values n))"
proof -
  have rows: "\<forall>i < n. number_row_ok t validity values i"
  proof (cases "nulls = 0 \<and> le")
    case True
    then obtain s where "for_each [0..<n] (typed_step t values) no_values = Inr s"
      using assms(1) by (auto simp: validate_numbers_def bindR_eq_Inr)
    then show ?thesis using typed_loop(2) True assms(2) by (auto simp: number_row_ok_def)
  next
    case False
    then obtain s where "for_each [0..<n] (view_step t validity values) no_values = Inr s"
      using assms(1) by (auto simp: validate_numbers_def bindR_eq_Inr)
    then show ?thesis using view_loop(2) by blast
  qed
  then show ?thesis using validate_numbers_ok [OF rows assms(2), of nulls le] assms(1) by auto
qed

text \<open>Booleans.\<close>

lemma flags_inside:
  "(\<forall>k < length values. at0 values k AND NOT (at0 validity k) = 0) \<longleftrightarrow> (\<forall>i. has_bit values i \<longrightarrow> has_bit validity i)"
proof
  assume a: "\<forall>k < length values. at0 values k AND NOT (at0 validity k) = 0"
  show "\<forall>i. has_bit values i \<longrightarrow> has_bit validity i"
  proof (intro allI impI)
    fix i assume h: "has_bit values i"
    then have "i < 8 * length values" using has_bit_beyond [of "values" i] by linarith
    then have "at0 values (i div 8) AND NOT (at0 validity (i div 8)) = 0" using a by (simp add: less_mult_imp_div_less mult.commute)
    then have "\<not> bit (at0 values (i div 8) AND NOT (at0 validity (i div 8))) (i mod 8)" by simp
    then show "has_bit validity i" using h by (simp add: has_bit_bit bit_and_iff bit_not_iff)
  qed
next
  assume a: "\<forall>i. has_bit values i \<longrightarrow> has_bit validity i"
  show "\<forall>k < length values. at0 values k AND NOT (at0 validity k) = 0"
  proof (intro allI impI bit_word_eqI)
    fix k n assume n: "n < LENGTH(8)"
    have "has_bit values (8 * k + n) \<longrightarrow> has_bit validity (8 * k + n)" using a by blast
    then show "bit (at0 values k AND NOT (at0 validity k)) n = bit 0 n"
      using n by (simp add: has_bit_bit bit_and_iff bit_not_iff)
  qed
qed

lemma validate_boolean_iff:
  assumes "length values = bitmap_length n"
  shows "validate_boolean n validity values = Inr () \<longleftrightarrow>
    (\<forall>i \<ge> n. \<not> has_bit values i) \<and> (\<forall>i. has_bit values i \<longrightarrow> has_bit validity i)"
proof -
  define P where "P k \<longleftrightarrow> at0 values k AND NOT (at0 validity k) = 0" for k
  define body where "body k (u :: unit) = (if at0 values k AND NOT (at0 validity k) \<noteq> 0
      then Inl (PlainError ''Boolean value is set for a null row'') else Inr ())" for k u
  have ok: "P k \<Longrightarrow> body k () = Inr ()" and bad: "\<not> P k \<Longrightarrow> \<exists>e. body k () = Inl e" for k
    by (simp_all add: body_def P_def)
  have f: "for_each [0..<length values] body () = Inr () \<longleftrightarrow> (\<forall>k < length values. P k)"
    using for_each_upt(1) [of "length values" P body "\<lambda>_. ()"] for_each_upt(2) [of "length values" P body "\<lambda>_. ()" "()"] ok bad
    by blast
  show ?thesis
    using padding_ok [OF assms] f unfolding P_def flags_inside validate_boolean_def body_def [abs_def, symmetric]
    by (cases "assert_zero_padding_bits values n") auto
qed

text \<open>Strings.\<close>

definition text_row_ok :: "byte list \<Rightarrow> byte list \<Rightarrow> byte list \<Rightarrow> nat \<Rightarrow> bool" where
  "text_row_ok validity offsets content i \<longleftrightarrow>
     (let a = get_le 4 offsets (4 * i); b = get_le 4 offsets (4 * Suc i) in
      a \<le> b \<and> b \<le> length content \<and> (if has_bit validity i then utf8_decode True (slice_of content a b) \<noteq> None else a = b))"

lemma string_loop:
  defines "h \<equiv> \<lambda>offsets i. get_le 4 offsets (4 * i)"
  shows "(\<forall>i < n. text_row_ok validity offsets content i) \<Longrightarrow>
      for_each [0..<n] (string_step validity offsets content) (h offsets 0) = Inr (h offsets n)"
    "for_each [0..<n] (string_step validity offsets content) (h offsets 0) = Inr s \<Longrightarrow>
      (\<forall>i < n. text_row_ok validity offsets content i) \<and> s = h offsets n"
proof -
  let ?P = "text_row_ok validity offsets content"
  have u: "b \<le> length content \<Longrightarrow> assert_valid_utf8 content a b = Inr () \<longleftrightarrow> utf8_decode True (slice_of content a b) \<noteq> None" for a b
    by (simp add: assert_valid_utf8_def valid_utf8_loop_spec utf8_decode_def)
  have ok: "?P i \<Longrightarrow> string_step validity offsets content i (h offsets i) = Inr (h offsets (Suc i))" for i
    using u [of "h offsets (Suc i)" "h offsets i"] by (auto simp: text_row_ok_def string_step_def h_def Let_def)
  have bad: "\<exists>e. string_step validity offsets content i (h offsets i) = Inl e" if p: "\<not> ?P i" for i
  proof (cases "h offsets (Suc i) < h offsets i \<or> length content < h offsets (Suc i) \<or> \<not> has_bit validity i")
    case True
    then show ?thesis using p by (auto simp: text_row_ok_def string_step_def h_def Let_def)
  next
    case False
    then have "assert_valid_utf8 content (h offsets i) (h offsets (Suc i)) \<noteq> Inr ()"
      using p u by (auto simp: text_row_ok_def h_def Let_def)
    then obtain e where "assert_valid_utf8 content (h offsets i) (h offsets (Suc i)) = Inl e"
      by (cases "assert_valid_utf8 content (h offsets i) (h offsets (Suc i))") auto
    then show ?thesis using False by (simp add: string_step_def h_def Let_def)
  qed
  show "(\<forall>i < n. ?P i) \<Longrightarrow> for_each [0..<n] (string_step validity offsets content) (h offsets 0) = Inr (h offsets n)"
    by (rule for_each_upt(1) [of n ?P]) (use ok bad in auto)
  show "for_each [0..<n] (string_step validity offsets content) (h offsets 0) = Inr s \<Longrightarrow> (\<forall>i < n. ?P i) \<and> s = h offsets n"
    by (rule for_each_upt(2) [of n ?P "string_step validity offsets content" "h offsets"]) (use ok bad in auto)
qed

lemma string_offsets_size: "n \<le> MAX_BLOCK_ROW_COUNT \<Longrightarrow>
  checked_add (int n) 1 = Inr (int n + 1) \<and> checked_multiply (int n + 1) 4 = Inr ((int n + 1) * 4) \<and> nat ((int n + 1) * 4) = 4 * (n + 1)"
  using checked_add_ok [of "int n" 1] checked_multiply_ok [of "int n + 1" 4] by (simp add: block_limits MAX_SAFE_INTEGER_def)

lemma validate_strings_iff:
  assumes "n \<le> MAX_BLOCK_ROW_COUNT" "bitmap_length n + length payload \<le> MAX_PHYSICAL_COLUMN_BYTE_LENGTH"
  defines "offsets \<equiv> take (4 * (n + 1)) payload" and "content \<equiv> drop (4 * (n + 1)) payload"
  shows "validate_strings n validity payload = Inr () \<longleftrightarrow> 4 * (n + 1) \<le> length payload \<and> get_le 4 offsets 0 = 0
    \<and> (\<forall>i < n. text_row_ok validity offsets content i) \<and> get_le 4 offsets (4 * n) = length content"
proof -
  note z = string_offsets_size [OF assms(1)]
  have u: "validate_strings n validity payload =
     (if length payload < 4 * (n + 1) then Inl (PlainError ''Invalid string offsets'')
      else if get_le 4 offsets 0 \<noteq> 0 then Inl (PlainError ''Invalid first string offset'')
      else bindR (for_each [0..<n] (string_step validity offsets content) (get_le 4 offsets 0)) (\<lambda>final.
        if final \<noteq> length content then Inl (PlainError ''Unreferenced string bytes'')
        else bindR (physical_column_byte_length T_string (int n) (int (length content))) (\<lambda>_. Inr ())))"
    by (simp only: validate_strings_def z [THEN conjunct1] z [THEN conjunct2, THEN conjunct1]
      z [THEN conjunct2, THEN conjunct2] bindR_simps Let_def offsets_def content_def)
  show ?thesis
  proof (cases "4 * (n + 1) \<le> length payload \<and> get_le 4 offsets 0 = 0")
    case False
    then show ?thesis unfolding u by auto
  next
    case True
    have "physical_column_byte_length T_string (int n) (int (length content)) = Inr (int (bitmap_length n + value_length T_string n (length content)))"
      by (rule byte_length_ok) (use assms True in \<open>simp_all add: value_length_def content_def\<close>)
    then have v: "validate_strings n validity payload = Inr () \<longleftrightarrow>
        for_each [0..<n] (string_step validity offsets content) (get_le 4 offsets (4 * 0)) = Inr (length content)"
      using True by (auto simp: u bindR_eq_Inr)
    show ?thesis unfolding v
    proof
      assume "for_each [0..<n] (string_step validity offsets content) (get_le 4 offsets (4 * 0)) = Inr (length content)"
      from string_loop(2) [OF this] True show "4 * (n + 1) \<le> length payload \<and> get_le 4 offsets 0 = 0
        \<and> (\<forall>i < n. text_row_ok validity offsets content i) \<and> get_le 4 offsets (4 * n) = length content" by simp
    next
      assume r: "4 * (n + 1) \<le> length payload \<and> get_le 4 offsets 0 = 0
        \<and> (\<forall>i < n. text_row_ok validity offsets content i) \<and> get_le 4 offsets (4 * n) = length content"
      then have "\<forall>i < n. text_row_ok validity offsets content i" by blast
      from string_loop(1) [OF this] r
      show "for_each [0..<n] (string_step validity offsets content) (get_le 4 offsets (4 * 0)) = Inr (length content)" by simp
    qed
  qed
qed

subsection \<open>The validator, as a whole\<close>

lemma validate_unfold:
  assumes "n \<le> MAX_BLOCK_ROW_COUNT" "length bytes \<le> MAX_PHYSICAL_COLUMN_BYTE_LENGTH" "bitmap_length n \<le> length bytes"
  defines "validity \<equiv> take (bitmap_length n) bytes" and "payload \<equiv> drop (bitmap_length n) bytes"
  shows "validate_physical_column le \<lparr>col_type = t, col_rows = int n, col_bytes = bytes\<rparr> =
    bindR (assert_zero_padding_bits validity n) (\<lambda>_.
      let nulls = n - count_set_bits validity n in
      if t = T_string then bindR (validate_strings n validity payload) (\<lambda>_. Inr \<lparr>val_null_count = nulls, val_metadata = None\<rparr>)
      else if length payload \<noteq> value_length t n 0
        then Inl (PlainError (if t = T_boolean then ''Invalid boolean payload'' else ''Invalid payload''))
      else if t = T_boolean then bindR (validate_boolean n validity payload) (\<lambda>_. Inr \<lparr>val_null_count = nulls, val_metadata = None\<rparr>)
      else bindR (validate_numbers le t n nulls validity payload) (\<lambda>z. Inr \<lparr>val_null_count = nulls, val_metadata = z\<rparr>))"
proof -
  have a: "assert_row_count (int n) = Inr ()" "assert_physical_byte_length (int (length bytes)) = Inr ()"
    using assms(1,2) by (simp_all add: assert_row_count_iff physical_bytes_iff)
  have l: "int (length bytes) = int (bitmap_length n) + int k \<longleftrightarrow> length payload = k" for k
    using assms(3) by (auto simp: payload_def)
  show ?thesis
    using assms(3) fixed_lengths [OF assms(1), of t]
    by (cases t) (simp_all add: validate_physical_column_def a bitmap_bytes [OF assms(1)] Let_def l
      validity_def [symmetric] payload_def [symmetric])
qed

lemma nulls_counted:
  assumes "length cells = n" "validity_of cells = validity"
  shows "n - count_set_bits validity n = null_cells cells"
proof -
  have "filter (has_bit validity) [0..<n] = filter (\<lambda>i. cells ! i \<noteq> Null) [0..<n]"
    using assms by (auto simp: has_bit_validity intro: filter_cong)
  then have "count_set_bits validity n = length (filter (\<lambda>c. c \<noteq> Null) (map ((!) cells) [0..<n]))"
    by (simp add: count_set_bits_eq filter_map comp_def)
  moreover have "map ((!) cells) [0..<n] = cells" using assms(1) map_nth [of cells] by simp
  ultimately show ?thesis
    using sum_length_filter_compl [of "\<lambda>c. c = Null" cells] assms(1) by (simp add: null_cells_def)
qed

lemma zone_of_no_floats: "(\<And>c v. c \<in> set cells \<Longrightarrow> c \<noteq> Float v) \<Longrightarrow> zone_of cells = None"
proof -
  assume a: "\<And>c v. c \<in> set cells \<Longrightarrow> c \<noteq> Float v"
  have "foldl zone_step z cells = z" for z using a
    by (induction cells arbitrary: z) (auto simp: zone_step_def split: cell.split)
  then show ?thesis by (simp add: zone_of_def zone_map_metadata_def no_values_def f64_equal_def)
qed

lemma column_bytes: "length (encode_cells t cells) = bitmap_length (length cells) + length (payload_of t cells)"
  by (simp add: encode_cells_def)

lemma encode_parts:
  "take (bitmap_length (length cells)) (encode_cells t cells) = validity_of cells"
  "drop (bitmap_length (length cells)) (encode_cells t cells) = payload_of t cells"
  by (simp_all add: encode_cells_def)

text \<open>What each check says of the cells that are read: they are well formed and their payload is this one.\<close>

definition cells_fit :: "logical_type \<Rightarrow> nat \<Rightarrow> byte list \<Rightarrow> byte list \<Rightarrow> cell list \<Rightarrow> bool" where
  "cells_fit t n validity payload cells \<longleftrightarrow> length cells = n \<and> validity_of cells = validity \<and> payload_of t cells = payload
     \<and> (\<forall>c \<in> set cells. cell_ok t c)"

lemma checked_strings_fit:
  assumes "length validity = bitmap_length n" "\<And>i. n \<le> i \<Longrightarrow> \<not> has_bit validity i"
    "n \<le> MAX_BLOCK_ROW_COUNT" "bitmap_length n + length payload \<le> MAX_PHYSICAL_COLUMN_BYTE_LENGTH"
    "validate_strings n validity payload = Inr ()"
  defines "cells \<equiv> text_cells validity (take (4 * (n + 1)) payload) (drop (4 * (n + 1)) payload) n"
  shows "cells_fit T_string n validity payload cells" "zone_of cells = None"
proof -
  define offsets content where "offsets = take (4 * (n + 1)) payload" and "content = drop (4 * (n + 1)) payload"
  have cells: "cells = text_cells validity offsets content n" by (simp add: cells_def offsets_def content_def)
  note s = assms(5) [unfolded validate_strings_iff [OF assms(3,4)], folded offsets_def content_def]
  have lo: "length offsets = 4 * (n + 1)" using s by (simp add: offsets_def)
  have rows: "text_row_ok validity offsets content i" if "i < n" for i using s that by blast
  have e: "validity_of cells = validity" "concat (map text_of cells) = content"
    "concat (map (\<lambda>k. le_bytes 4 (text_offset cells k)) [0..<n + 1]) = offsets"
    unfolding cells
    by (rule encode_text_cells [OF assms(1,2) lo]; use s rows in \<open>auto simp: text_row_ok_def Let_def\<close>)+
  have len: "length cells = n" by (simp add: cells text_cells_def)
  have "\<forall>x \<in> set cells. cell_ok T_string x"
    unfolding cells text_cells_def all_map_upt using rows by (auto simp: text_row_ok_def Let_def)
  moreover have "payload_of T_string cells = payload"
    by (simp only: payload_of_def logical_type.case len e(2,3)) (simp add: offsets_def content_def)
  ultimately show "cells_fit T_string n validity payload cells" using len e(1) by (simp add: cells_fit_def)
  show "zone_of cells = None" by (rule zone_of_no_floats) (auto simp: cells text_cells_def)
qed

lemma checked_flags_fit:
  assumes "length validity = bitmap_length n" "\<And>i. n \<le> i \<Longrightarrow> \<not> has_bit validity i" "length payload = bitmap_length n"
    "validate_boolean n validity payload = Inr ()"
  shows "cells_fit T_boolean n validity payload (flag_cells validity payload n)" "zone_of (flag_cells validity payload n) = None"
proof -
  note b = assms(4) [unfolded validate_boolean_iff [OF assms(3)]]
  have "validity_of (flag_cells validity payload n) = validity"
    "bitmap (map (\<lambda>x. x = Flag True) (flag_cells validity payload n)) = payload"
    by (rule encode_flag_cells [OF assms(1-3)]; use b in blast)+
  moreover have "\<forall>x \<in> set (flag_cells validity payload n). cell_ok T_boolean x"
    unfolding flag_cells_def all_map_upt by simp
  ultimately show "cells_fit T_boolean n validity payload (flag_cells validity payload n)"
    by (simp add: cells_fit_def payload_of_def flag_cells_def)
  show "zone_of (flag_cells validity payload n) = None" by (rule zone_of_no_floats) (auto simp: flag_cells_def)
qed

lemma no_nulls: "n - count_set_bits validity n = 0 \<Longrightarrow> \<forall>i < n. has_bit validity i"
  using length_filter_less [of _ "[0..<n]" "has_bit validity"] by (fastforce simp: count_set_bits_eq)

lemma checked_numbers_fit:
  assumes "length validity = bitmap_length n" "\<And>i. n \<le> i \<Longrightarrow> \<not> has_bit validity i" "length payload = 8 * n"
    "validate_numbers le t n (n - count_set_bits validity n) validity payload = Inr z" "t = T_number \<or> t = T_datetime"
  shows "cells_fit t n validity payload (float_cells validity payload n)"
    "metadata_equals z (zone_of (float_cells validity payload n))"
proof -
  note r = validate_numbers_Inr [OF assms(4) no_nulls]
  have "validity_of (float_cells validity payload n) = validity" "concat (map slot (float_cells validity payload n)) = payload"
    by (rule encode_float_cells [OF assms(1-3)]; use r in \<open>auto simp: number_row_ok_def\<close>)+
  moreover have "\<forall>x \<in> set (float_cells validity payload n). cell_ok t x"
    unfolding set_float_cells using r assms(5) by (auto simp: number_row_ok_def)
  ultimately show "cells_fit t n validity payload (float_cells validity payload n)"
    using assms(5) by (auto simp: cells_fit_def payload_of_def float_cells_def)
  show "metadata_equals z (zone_of (float_cells validity payload n))" using r by blast
qed

lemma valid_bounds:
  assumes "validate_physical_column le c = Inr v"
  obtains n where "col_rows c = int n" "n \<le> MAX_BLOCK_ROW_COUNT" "length (col_bytes c) \<le> MAX_PHYSICAL_COLUMN_BYTE_LENGTH"
    "bitmap_length n \<le> length (col_bytes c)"
proof -
  have r: "assert_row_count (col_rows c) = Inr ()" "length (col_bytes c) \<le> MAX_PHYSICAL_COLUMN_BYTE_LENGTH"
    using assms by (auto simp: validate_physical_column_def Let_def bindR_eq_Inr physical_bytes_iff)
  then obtain n where n: "col_rows c = int n" "n \<le> MAX_BLOCK_ROW_COUNT"
    by (metis assert_row_count_iff int_nat_eq)
  have "bitmap_length n \<le> length (col_bytes c)"
    using assms n bitmap_bytes [OF n(2)] by (auto simp: validate_physical_column_def Let_def bindR_eq_Inr split: if_splits)
  then show ?thesis using that n r by blast
qed

text \<open>A column whose validation succeeds is the canonical encoding of the cells it reads as.\<close>

lemma valid_cells:
  assumes "validate_physical_column le \<lparr>col_type = t, col_rows = int n, col_bytes = bytes\<rparr> = Inr v"
    "n \<le> MAX_BLOCK_ROW_COUNT" "length bytes \<le> MAX_PHYSICAL_COLUMN_BYTE_LENGTH" "bitmap_length n \<le> length bytes"
  defines "validity \<equiv> take (bitmap_length n) bytes" and "payload \<equiv> drop (bitmap_length n) bytes"
    and "cells \<equiv> cells_of \<lparr>col_type = t, col_rows = int n, col_bytes = bytes\<rparr>"
  shows "cells_fit t n validity payload cells" "val_null_count v = n - count_set_bits validity n"
    "metadata_equals (val_metadata v) (zone_of cells)"
proof -
  note u = validate_unfold [OF assms(2-4), of le t, folded validity_def payload_def, unfolded assms(1) Let_def, symmetric]
  have lv: "length validity = bitmap_length n" using assms(4) by (simp add: validity_def)
  have pad: "\<not> has_bit validity i" if "n \<le> i" for i
    using u padding_ok [OF lv] that by (cases "assert_zero_padding_bits validity n") auto
  have sz: "bitmap_length n + length payload \<le> MAX_PHYSICAL_COLUMN_BYTE_LENGTH" using assms(3,4) by (simp add: payload_def)
  show "val_null_count v = n - count_set_bits validity n"
    using u by (auto simp: bindR_eq_Inr split: if_splits)
  have cells: "cells = (case t of T_boolean \<Rightarrow> flag_cells validity payload n
      | T_string \<Rightarrow> text_cells validity (take (4 * (n + 1)) payload) (drop (4 * (n + 1)) payload) n
      | _ \<Rightarrow> float_cells validity payload n)"
    by (simp only: cells_def cells_of_def phys_column.simps nat_int Let_def validity_def payload_def)
  consider "t = T_string" | "t = T_boolean" | "t \<noteq> T_string" "t \<noteq> T_boolean" "t = T_number \<or> t = T_datetime" by (cases t) auto
  then have "cells_fit t n validity payload cells \<and> metadata_equals (val_metadata v) (zone_of cells)"
  proof cases
    case 1
    then have "validate_strings n validity payload = Inr ()" "val_metadata v = None" using u by (auto simp: bindR_eq_Inr)
    then show ?thesis using checked_strings_fit [OF lv pad assms(2) sz] 1 by (simp add: cells metadata_equals_def)
  next
    case 2
    then have "length payload = bitmap_length n" "validate_boolean n validity payload = Inr ()" "val_metadata v = None"
      using u by (auto simp: bindR_eq_Inr value_length_def split: if_splits)
    then show ?thesis using checked_flags_fit [OF lv pad] 2 by (simp add: cells metadata_equals_def)
  next
    case 3
    then have "length payload = 8 * n"
      "validate_numbers le t n (n - count_set_bits validity n) validity payload = Inr (val_metadata v)"
      using u by (auto simp: bindR_eq_Inr value_length_def split: if_splits)
    then show ?thesis using checked_numbers_fit [OF lv pad _ _ 3(3)] 3(3) by (auto simp: cells)
  qed
  then show "cells_fit t n validity payload cells" "metadata_equals (val_metadata v) (zone_of cells)" by simp_all
qed

lemma valid_is_canonical:
  assumes "validate_physical_column le c = Inr v"
  shows "storable (col_type c) (cells_of c)" "c = column_of (col_type c) (cells_of c)"
    "val_null_count v = null_cells (cells_of c)" "metadata_equals (val_metadata v) (zone_of (cells_of c))"
proof -
  obtain n where n: "col_rows c = int n" "n \<le> MAX_BLOCK_ROW_COUNT" "length (col_bytes c) \<le> MAX_PHYSICAL_COLUMN_BYTE_LENGTH"
    "bitmap_length n \<le> length (col_bytes c)" by (rule valid_bounds [OF assms])
  have c: "\<lparr>col_type = col_type c, col_rows = int n, col_bytes = col_bytes c\<rparr> = c" using n(1) by simp
  note f = valid_cells [of le "col_type c" n "col_bytes c", unfolded c, OF assms n(2-4)]
  have b: "encode_cells (col_type c) (cells_of c) = col_bytes c" "length (cells_of c) = n"
    using f(1) by (simp_all add: cells_fit_def encode_cells_def)
  show "storable (col_type c) (cells_of c)" using f(1) b n by (simp add: storable_def cells_fit_def)
  show "c = column_of (col_type c) (cells_of c)" using b n(1) by (simp add: column_of_def)
  show "val_null_count v = null_cells (cells_of c)"
    using f(1,2) nulls_counted [of "cells_of c" n] by (simp add: cells_fit_def)
  show "metadata_equals (val_metadata v) (zone_of (cells_of c))" by (rule f(3))
qed

text \<open>Conversely the canonical bytes of storable cells read as those cells, and are accepted.\<close>

lemma length_offsets: "length (concat (map (\<lambda>k. le_bytes 4 (text_offset cells k)) [0..<m])) = 4 * m"
  using length_concat_blocks [of "[0..<m]" "\<lambda>k. le_bytes 4 (text_offset cells k)" 4] by simp

lemma length_payload: "length (payload_of t cells) = value_length t (length cells) (length (concat (map text_of cells)))"
  using length_offsets [of cells "length cells + 1"]
  by (cases t) (simp_all add: payload_of_def value_length_def length_floats del: upt_Suc)

lemma string_payload_parts:
  "take (4 * (length cells + 1)) (payload_of T_string cells) = concat (map (\<lambda>k. le_bytes 4 (text_offset cells k)) [0..<length cells + 1])"
  "drop (4 * (length cells + 1)) (payload_of T_string cells) = concat (map text_of cells)"
  using length_offsets [of cells "length cells + 1"] by (simp_all add: payload_of_def del: upt_Suc)

lemma storable_text: "storable t cells \<Longrightarrow> t = T_string \<Longrightarrow> length (concat (map text_of cells)) < 256 ^ 4"
  using length_payload [of t cells] by (simp add: storable_def column_bytes value_length_def block_limits)

lemma cell_shape:
  "cell_ok T_boolean c \<Longrightarrow> c = Null \<or> (\<exists>b. c = Flag b)"
  "cell_ok T_string c \<Longrightarrow> c = Null \<or> (\<exists>b. c = Text b \<and> utf8_decode True b \<noteq> None)"
  "t = T_number \<or> t = T_datetime \<Longrightarrow> cell_ok t c \<Longrightarrow> c = Null \<or> (\<exists>v. c = Float v)"
  by (cases c; auto)+

lemma cells_shape:
  assumes "\<forall>c \<in> set cells. cell_ok t c"
  shows "t = T_boolean \<Longrightarrow> \<forall>c \<in> set cells. c = Null \<or> (\<exists>b. c = Flag b)"
    "t = T_string \<Longrightarrow> \<forall>c \<in> set cells. c = Null \<or> (\<exists>b. c = Text b)"
    "t = T_number \<or> t = T_datetime \<Longrightarrow> \<forall>c \<in> set cells. c = Null \<or> (\<exists>v. c = Float v)"
  using assms cell_shape(1) cell_shape(2) cell_shape(3) [of t] by blast+

lemma cells_of_column:
  assumes "storable t cells"
  shows "cells_of (column_of t cells) = cells"
proof -
  have k: "\<forall>c \<in> set cells. cell_ok t c" using assms by (simp add: storable_def)
  have "cells_of (column_of t cells) = (case t of T_boolean \<Rightarrow> flag_cells (validity_of cells) (payload_of t cells) (length cells)
      | T_string \<Rightarrow> text_cells (validity_of cells) (take (4 * (length cells + 1)) (payload_of t cells))
          (drop (4 * (length cells + 1)) (payload_of t cells)) (length cells)
      | _ \<Rightarrow> float_cells (validity_of cells) (payload_of t cells) (length cells))"
    by (simp only: cells_of_def column_of_def phys_column.simps nat_int Let_def encode_parts)
  also have "\<dots> = cells"
  proof (cases t)
    case T_string
    show ?thesis unfolding T_string logical_type.case string_payload_parts
      by (rule text_cells_encode [OF cells_shape(2) [OF k T_string] storable_text [OF assms T_string]])
  qed (use cells_shape [OF k] in \<open>simp_all add: payload_of_def float_cells_encode flag_cells_encode\<close>)
  finally show ?thesis .
qed

lemma zero_slot_zeros: "8 * i + 8 \<le> length values \<Longrightarrow> slice_of values (8 * i) (8 * i + 8) = replicate 8 0 \<Longrightarrow> zero_slot values i"
  by (simp add: zero_slot_slice)

lemma number_rows_encode:
  assumes "\<forall>c \<in> set cells. cell_ok t c" "t = T_number \<or> t = T_datetime" "i < length cells"
  shows "number_row_ok t (validity_of cells) (concat (map slot cells)) i"
proof -
  have s: "slice_of (concat (map slot cells)) (8 * i) (8 * i + 8) = slot (cells ! i)"
    using slice_block [of cells slot 8 i "[]"] assms(3) by simp
  have l: "8 * i + 8 \<le> length (concat (map slot cells))" using assms(3) unfolding length_floats by simp
  have ok: "cell_ok t (cells ! i)" using assms(1,3) nth_mem by blast
  show ?thesis
  proof (cases "cells ! i = Null")
    case True
    then show ?thesis using s zero_slot_zeros [OF l] by (simp add: number_row_ok_def has_bit_validity slot_def)
  next
    case False
    then obtain v where v: "cells ! i = Float v" using cells_shape(3) [OF assms(1,2)] assms(3) nth_mem by blast
    then have "get64 (concat (map slot cells)) (8 * i) = v" using s by (intro get64_slice) (simp add: slot_def)
    then show ?thesis using v ok assms(3) by (simp add: number_row_ok_def has_bit_validity)
  qed
qed

lemma text_rows_encode:
  assumes "\<forall>c \<in> set cells. cell_ok T_string c" "length (concat (map text_of cells)) < 256 ^ 4" "i < length cells"
  shows "text_row_ok (validity_of cells) (concat (map (\<lambda>k. le_bytes 4 (text_offset cells k)) [0..<length cells + 1]))
    (concat (map text_of cells)) i"
proof -
  let ?o = "concat (map (\<lambda>k. le_bytes 4 (text_offset cells k)) [0..<length cells + 1])"
  have o: "get_le 4 ?o (4 * i) = text_offset cells i" "get_le 4 ?o (4 * Suc i) = text_offset cells (Suc i)"
    using offset_read [OF _ assms(2), of i "[]"] offset_read [OF _ assms(2), of "Suc i" "[]"] assms(3) by (simp_all del: upt_Suc)
  have le: "text_offset cells i \<le> text_offset cells (Suc i)" "text_offset cells (Suc i) \<le> length (concat (map text_of cells))"
    using text_offset_mono [of i "Suc i" cells] text_offset_mono [of "Suc i" "length cells" cells] assms(3)
    by (simp_all add: text_offset_all)
  have ok: "cells ! i = Null \<or> (\<exists>b. cells ! i = Text b \<and> utf8_decode True b \<noteq> None)"
    by (rule cell_shape(2)) (use assms(1,3) nth_mem in blast)
  show ?thesis unfolding text_row_ok_def o Let_def using ok le text_slice [OF assms(3)] text_offset_Suc [OF assms(3)] assms(3)
    by (auto simp: has_bit_validity text_of_def)
qed

lemma canonical_is_valid:
  assumes "storable t cells"
  obtains v where "validate_physical_column le (column_of t cells) = Inr v"
proof -
  let ?n = "length cells" and ?b = "encode_cells t cells"
  have k: "\<forall>c \<in> set cells. cell_ok t c" "?n \<le> MAX_BLOCK_ROW_COUNT" "length ?b \<le> MAX_PHYSICAL_COLUMN_BYTE_LENGTH"
    using assms by (simp_all add: storable_def)
  have bl: "bitmap_length ?n \<le> length ?b" by (simp add: column_bytes)
  have pad: "assert_zero_padding_bits (validity_of cells) ?n = Inr ()"
    by (simp add: padding_ok has_bit_validity)
  note u = validate_unfold [OF k(2,3) bl, of le t, unfolded encode_parts pad bindR_simps Let_def, folded column_of_def]
  consider (str) "t = T_string" | (flag) "t = T_boolean" | (num) "t \<noteq> T_string" "t \<noteq> T_boolean" "t = T_number \<or> t = T_datetime"
    by (cases t) auto
  then have "\<exists>v. validate_physical_column le (column_of t cells) = Inr v"
  proof cases
    case str
    note sz = k(3) [unfolded column_bytes]
    have small: "length (concat (map text_of cells)) < 256 ^ 4" by (rule storable_text [OF assms str])
    have "get_le 4 (take (4 * (?n + 1)) (payload_of t cells)) (4 * ?n) = text_offset cells ?n"
      "get_le 4 (take (4 * (?n + 1)) (payload_of t cells)) 0 = text_offset cells 0"
      unfolding str string_payload_parts using offset_read [OF _ small, of ?n "[]"] offset_read [OF _ small, of 0 "[]"]
      by (simp_all del: upt_Suc)
    then have "validate_strings ?n (validity_of cells) (payload_of t cells) = Inr ()"
      unfolding validate_strings_iff [OF k(2) sz] using text_rows_encode [OF _ small] k(1) str length_payload [of t cells]
      unfolding str string_payload_parts by (simp add: value_length_def text_offset_all del: upt_Suc)
    then show ?thesis using u str by simp
  next
    case flag
    have "validate_boolean ?n (validity_of cells) (payload_of t cells) = Inr ()"
      using cells_shape(1) [OF k(1) flag] flag
      by (subst validate_boolean_iff) (auto simp: payload_of_def has_bit_bitmap has_bit_validity)
    then show ?thesis using u flag length_payload [of t cells] by (simp add: value_length_def)
  next
    case num
    have p: "payload_of t cells = concat (map slot cells)" using num by (auto simp: payload_of_def)
    obtain z where "validate_numbers le t ?n (?n - count_set_bits (validity_of cells) ?n) (validity_of cells) (payload_of t cells) = Inr z"
      using validate_numbers_ok [OF _ no_nulls] number_rows_encode [OF k(1) num(3)] unfolding p by blast
    then show ?thesis using u num length_payload [of t cells] by (auto simp: value_length_def)
  qed
  then show ?thesis using that by blast
qed

subsection \<open>Properties of the physical layer\<close>

text \<open>
  Property C29: the validator accepts exactly the canonical bytes of storable cells, on either
  platform: a column is valid when and only when it is the encoding of the cells it is read as, with its
  null count and, up to the sign of zero, its zone map those of the cells.
\<close>

theorem validator_is_canonical:
  "(validate_physical_column little_endian c = Inr v \<longrightarrow>
      storable (col_type c) (cells_of c) \<and> c = column_of (col_type c) (cells_of c)
      \<and> val_null_count v = null_cells (cells_of c) \<and> metadata_equals (val_metadata v) (zone_of (cells_of c)))
   \<and> (storable t cells \<longrightarrow> cells_of (column_of t cells) = cells
      \<and> (\<exists>w. validate_physical_column little_endian (column_of t cells) = Inr w))"
proof (intro conjI impI)
  assume "storable t cells"
  then show "\<exists>w. validate_physical_column little_endian (column_of t cells) = Inr w"
    by (rule canonical_is_valid [where le = little_endian]) blast
qed (use valid_is_canonical [of little_endian c v] cells_of_column [of t cells] in simp_all)

lemma validator_is_canonical_witness:
  "(\<exists>w. validate_physical_column False (column_of T_string [Text [0xc3, 0xa9], Null, Text []]) = Inr w)
   \<and> (\<exists>e. validate_physical_column False \<lparr>col_type = T_boolean, col_rows = 1, col_bytes = [1, 2]\<rparr> = Inl e)"
proof
  have "storable T_string [Text [0xc3, 0xa9], Null, Text []]"
    by (simp add: storable_def column_bytes length_payload value_length_def text_of_def bitmap_length_def block_limits
      utf8_decode_def cont_byte_def BOM_def)
  then show "\<exists>w. validate_physical_column False (column_of T_string [Text [0xc3, 0xa9], Null, Text []]) = Inr w"
    using validator_is_canonical [of False _ _ T_string "[Text [0xc3, 0xa9], Null, Text []]"] by blast
  show "\<exists>e. validate_physical_column False \<lparr>col_type = T_boolean, col_rows = 1, col_bytes = [1, 2]\<rparr> = Inl e"
  proof (rule ccontr)
    let ?c = "\<lparr>col_type = T_boolean, col_rows = 1, col_bytes = [1, 2 :: byte]\<rparr>"
    assume "\<not> ?thesis"
    then obtain v where "validate_physical_column False ?c = Inr v" by (cases "validate_physical_column False ?c") auto
    then have "?c = column_of T_boolean (cells_of ?c)" using validator_is_canonical [of False ?c v] by simp
    moreover have "cells_of ?c = [Flag False]"
      by (simp add: cells_of_def bitmap_length_def flag_cells_def has_bit_def)
    ultimately show False by (simp add: column_of_def encode_cells_def payload_of_def bitmap_def bitmap_length_def)
  qed
qed

end
