(* ===== verification/PhysicalRanges.thy ===== *)
theory PhysicalRanges
  imports Physical
begin

text \<open>
  \<open>block-format/physical.ts\<close>: measuring and building a physical column from row ranges of others.
  A range's \<open>r_known\<close> says whether its column is in the module's \<open>WeakSet\<close> of columns it has validated or built;
  such a column is not validated again.
\<close>

record phys_range =
  r_column :: phys_column
  r_known :: bool
  r_start :: int
  r_end :: int

record measurement =
  m_row_count :: int
  m_null_count :: nat
  m_validity_length :: int
  m_content_length :: int
  m_encoded_length :: int
  m_metadata :: zone_map

record built_column =
  b_column :: phys_column
  b_null_count :: nat
  b_metadata :: zone_map

subsection \<open>The parts of a source column\<close>

definition source_rows :: "phys_column \<Rightarrow> nat" where "source_rows c = nat (col_rows c)"

definition source_validity :: "phys_column \<Rightarrow> byte list" where
  "source_validity c = take (bitmap_length (source_rows c)) (col_bytes c)"

definition source_values :: "phys_column \<Rightarrow> byte list" where
  "source_values c = drop (bitmap_length (source_rows c)) (col_bytes c)"

definition source_offset :: "phys_column \<Rightarrow> nat \<Rightarrow> nat" where
  "source_offset c i = get_le 4 (take (4 * (source_rows c + 1)) (source_values c)) (4 * i)"

definition source_content :: "phys_column \<Rightarrow> byte list" where
  "source_content c = drop (4 * (source_rows c + 1)) (source_values c)"

definition range_rows :: "phys_range \<Rightarrow> nat list" where
  "range_rows r = [nat (r_start r)..<nat (r_end r)]"

subsection \<open>Measuring\<close>

record prepared =
  p_rows :: int
  p_nulls :: nat
  p_content :: int
  p_zone :: "f64 \<times> f64"

definition measure_row :: "logical_type \<Rightarrow> phys_column \<Rightarrow> prepared \<Rightarrow> nat \<Rightarrow> prepared" where
  "measure_row t c p row =
     (if \<not> has_bit (source_validity c) row then p\<lparr>p_nulls := p_nulls p + 1\<rparr>
      else if t = T_number \<or> t = T_datetime
        then let v = get64 (source_values c) (8 * row) in
          p\<lparr>p_zone := (f64_min (fst (p_zone p)) v, f64_max (snd (p_zone p)) v)\<rparr>
      else p)"

definition prepare_range :: "bool \<Rightarrow> logical_type \<Rightarrow> phys_range \<Rightarrow> prepared \<Rightarrow> prepared result" where
  "prepare_range le t r p =
     (let c = r_column r in
      if col_type c \<noteq> t then Inl (TypeError ''Cannot append physical rows'')
      else bindR (if r_known r then Inr () else bindR (validate_physical_column le c) (\<lambda>_. Inr ())) (\<lambda>_.
      bindR (assert_nonnegative_safe_integer (r_start r)) (\<lambda>_.
      bindR (assert_nonnegative_safe_integer (r_end r)) (\<lambda>_.
      if r_end r < r_start r \<or> col_rows c < r_end r then Inl (RangeError ''Physical row range is out of bounds'')
      else
        bindR (checked_add (p_rows p) (r_end r - r_start r)) (\<lambda>rows.
        bindR (assert_row_count rows) (\<lambda>_.
        bindR (physical_bitmap_byte_length (col_rows c)) (\<lambda>_.
        bindR (if t = T_string
               then checked_add (p_content p) (int (source_offset c (nat (r_end r))) - int (source_offset c (nat (r_start r))))
               else Inr (p_content p)) (\<lambda>content.
          Inr (foldl (measure_row t c) (p\<lparr>p_rows := rows, p_content := content\<rparr>) (range_rows r))))))))))"

definition prepare_physical_column :: "bool \<Rightarrow> logical_type \<Rightarrow> phys_range list \<Rightarrow> measurement result" where
  "prepare_physical_column le t ranges =
     bindR (for_each ranges (prepare_range le t) \<lparr>p_rows = 0, p_nulls = 0, p_content = 0, p_zone = no_values\<rparr>) (\<lambda>p.
     bindR (physical_bitmap_byte_length (p_rows p)) (\<lambda>validity.
     bindR (physical_column_byte_length t (p_rows p) (p_content p)) (\<lambda>encoded.
       Inr \<lparr>m_row_count = p_rows p, m_null_count = p_nulls p, m_validity_length = validity,
         m_content_length = p_content p, m_encoded_length = encoded,
         m_metadata = (if t = T_number \<or> t = T_datetime then zone_map_metadata (p_zone p) else None)\<rparr>)))"

subsection \<open>Building\<close>

text \<open>One output bitmap: the source bit of each row, in order.\<close>

definition copy_bits :: "(phys_column \<Rightarrow> byte list) \<Rightarrow> byte list \<Rightarrow> phys_range list \<Rightarrow> byte list" where
  "copy_bits source bm ranges = fst (foldl (\<lambda>s r. foldl (\<lambda>(bm, row) i.
     (if has_bit (source (r_column r)) i then put_bit bm row else bm, row + 1)) s (range_rows r)) (bm, 0 :: nat) ranges)"

definition copy_numbers :: "byte list \<Rightarrow> phys_range list \<Rightarrow> byte list" where
  "copy_numbers out ranges = fst (foldl (\<lambda>(out, at) r.
     let bytes = slice_of (source_values (r_column r)) (8 * nat (r_start r)) (8 * nat (r_end r)) in
     (set_at out at bytes, at + length bytes)) (out, 0 :: nat) ranges)"

type_synonym string_output = "byte list \<times> byte list \<times> nat \<times> nat"

definition copy_string_range :: "string_output \<Rightarrow> phys_range \<Rightarrow> string_output" where
  "copy_string_range s r =
     (let (offsets, content, row, content_length) = s;
          c = r_column r;
          first = source_offset c (nat (r_start r)); final = source_offset c (nat (r_end r));
          content' = set_at content content_length (slice_of (source_content c) first final);
          (offsets', row') = foldl (\<lambda>(offsets, row) i.
            (set_at offsets (4 * (row + 1)) (le_bytes 4 (content_length + source_offset c (i + 1) - first)), row + 1))
            (offsets, row) (range_rows r)
      in (offsets', content', row', content_length + (final - first)))"

definition copy_strings :: "byte list \<Rightarrow> nat \<Rightarrow> phys_range list \<Rightarrow> byte list" where
  "copy_strings out rows ranges =
     (let offsets = set_at (take (4 * (rows + 1)) out) 0 (le_bytes 4 0); content = drop (4 * (rows + 1)) out;
          (offsets', content', _) = foldl copy_string_range (offsets, content, 0, 0) ranges
      in offsets' @ content')"

definition build_physical_column_from_ranges :: "bool \<Rightarrow> logical_type \<Rightarrow> phys_range list \<Rightarrow> built_column result" where
  "build_physical_column_from_ranges le t ranges =
     bindR (prepare_physical_column le t ranges) (\<lambda>m.
       let output = replicate (nat (m_encoded_length m)) 0;
           vl = nat (m_validity_length m);
           validity = copy_bits source_validity (take vl output) ranges;
           rest = drop vl output;
           payload = (case t of
               T_boolean \<Rightarrow> copy_bits source_values rest ranges
             | T_string \<Rightarrow> copy_strings rest (nat (m_row_count m)) ranges
             | _ \<Rightarrow> copy_numbers rest ranges)
       in Inr \<lparr>b_column = \<lparr>col_type = t, col_rows = m_row_count m, col_bytes = validity @ payload\<rparr>,
            b_null_count = m_null_count m, b_metadata = m_metadata m\<rparr>)"

definition slice_physical_column :: "bool \<Rightarrow> phys_column \<Rightarrow> bool \<Rightarrow> int \<Rightarrow> int \<Rightarrow> built_column result" where
  "slice_physical_column le c known start fin =
     build_physical_column_from_ranges le (col_type c) [\<lparr>r_column = c, r_known = known, r_start = start, r_end = fin\<rparr>]"

definition concatenate_physical_columns :: "bool \<Rightarrow> logical_type \<Rightarrow> (phys_column \<times> bool) list \<Rightarrow> built_column result" where
  "concatenate_physical_columns le t columns =
     build_physical_column_from_ranges le t
       (map (\<lambda>(c, known). \<lparr>r_column = c, r_known = known, r_start = 0, r_end = col_rows c\<rparr>) columns)"

subsection \<open>The cells of a range\<close>

definition range_cells :: "phys_range \<Rightarrow> cell list" where
  "range_cells r = slice_of (cells_of (r_column r)) (nat (r_start r)) (nat (r_end r))"

definition ranges_cells :: "phys_range list \<Rightarrow> cell list" where
  "ranges_cells ranges = concat (map range_cells ranges)"

text \<open>A range of a canonical column, inside its rows.\<close>

definition sound_range :: "logical_type \<Rightarrow> phys_range \<Rightarrow> bool" where
  "sound_range t r \<longleftrightarrow> col_type (r_column r) = t \<and> storable t (cells_of (r_column r))
     \<and> r_column r = column_of t (cells_of (r_column r)) \<and> 0 \<le> r_start r \<and> r_start r \<le> r_end r
     \<and> r_end r \<le> int (length (cells_of (r_column r)))"

lemma sound_parts:
  assumes "sound_range t r"
  defines "cells \<equiv> cells_of (r_column r)"
  shows "source_rows (r_column r) = length cells" "source_validity (r_column r) = validity_of cells"
    "source_values (r_column r) = payload_of t cells" "col_rows (r_column r) = int (length cells)"
proof -
  have c: "r_column r = column_of t cells" using assms by (simp add: sound_range_def)
  show r: "source_rows (r_column r) = length cells" by (subst c) (simp add: column_of_def source_rows_def)
  show "source_validity (r_column r) = validity_of cells" unfolding source_validity_def r by (subst c) (simp add: column_of_def encode_parts)
  show "source_values (r_column r) = payload_of t cells" unfolding source_values_def r by (subst c) (simp add: column_of_def encode_parts)
  show "col_rows (r_column r) = int (length cells)" by (subst c) (simp add: column_of_def)
qed

lemma slice_map_upt: "b \<le> length xs \<Longrightarrow> slice_of xs a b = map ((!) xs) [a..<b]"
  by (rule nth_equalityI) (simp_all add: slice_of_def)

lemma range_cells_rows:
  assumes "sound_range t r"
  shows "range_cells r = map ((!) (cells_of (r_column r))) (range_rows r)"
    "row \<in> set (range_rows r) \<Longrightarrow> row < length (cells_of (r_column r))"
    "length (range_rows r) = nat (r_end r - r_start r)"
  using assms by (auto simp: range_cells_def range_rows_def sound_range_def intro!: slice_map_upt)

lemma range_cells_ok: "sound_range t r \<Longrightarrow> c \<in> set (range_cells r) \<Longrightarrow> cell_ok t c"
  unfolding range_cells_def slice_of_def by (auto simp: sound_range_def storable_def dest!: in_set_takeD in_set_dropD)

subsection \<open>Bitmaps\<close>

definition put_flags :: "byte list \<Rightarrow> bool list \<Rightarrow> byte list \<times> nat" where
  "put_flags bm flags = foldl (\<lambda>(bm, row) f. (if f then put_bit bm row else bm, row + 1)) (bm, 0) flags"

lemma put_flags_snoc: "put_flags bm (flags @ [f]) =
   (if f then put_bit (fst (put_flags bm flags)) (snd (put_flags bm flags)) else fst (put_flags bm flags), snd (put_flags bm flags) + 1)"
  by (simp add: put_flags_def case_prod_beta)

lemma put_flags_spec:
  "snd (put_flags bm flags) = length flags \<and> length (fst (put_flags bm flags)) = length bm
   \<and> (\<forall>i. has_bit (fst (put_flags bm flags)) i \<longleftrightarrow> has_bit bm i \<or> (i < length flags \<and> flags ! i \<and> i div 8 < length bm))"
proof (induction flags rule: rev_induct)
  case (snoc f flags)
  define b n where "b = fst (put_flags bm flags)" and "n = snd (put_flags bm flags)"
  have IH: "n = length flags" "length b = length bm"
    "has_bit b i \<longleftrightarrow> has_bit bm i \<or> (i < length flags \<and> flags ! i \<and> i div 8 < length bm)" for i
    using snoc by (simp_all add: b_def n_def)
  have s: "put_flags bm (flags @ [f]) = (if f then put_bit b n else b, n + 1)" by (simp add: put_flags_snoc b_def n_def)
  have "has_bit (if f then put_bit b n else b) i \<longleftrightarrow>
      has_bit bm i \<or> (i < length (flags @ [f]) \<and> (flags @ [f]) ! i \<and> i div 8 < length bm)" for i
    using IH by (cases "i = length flags") (auto simp: has_bit_put_bit nth_append less_Suc_eq)
  then show ?case using IH by (simp add: s)
qed (simp add: put_flags_def)

lemma put_flags_bitmap: "fst (put_flags (replicate (bitmap_length (length flags)) 0) flags) = bitmap flags"
proof (rule bitmap_eqI)
  fix i assume "i < length flags"
  moreover from this have "i div 8 < bitmap_length (length flags)" by (simp add: bitmap_length_def)
  ultimately show "has_bit (fst (put_flags (replicate (bitmap_length (length flags)) 0) flags)) i = flags ! i"
    by (simp add: put_flags_spec)
qed (simp_all add: put_flags_spec)

lemma foldl_concat_map: "foldl (\<lambda>s r. foldl f s (g r)) s rs = foldl f s (concat (map g rs))"
  by (induction rs arbitrary: s) simp_all

lemma copy_bits_flags:
  "copy_bits source bm ranges = fst (put_flags bm (concat (map (\<lambda>r. map (has_bit (source (r_column r))) (range_rows r)) ranges)))"
proof -
  have "foldl (\<lambda>s r. foldl (\<lambda>(bm, row) i. (if has_bit (source (r_column r)) i then put_bit bm row else bm, row + 1)) s (range_rows r)) (bm, 0 :: nat) ranges
    = foldl (\<lambda>s r. foldl (\<lambda>(bm, row) f. (if f then put_bit bm row else bm, row + 1)) s (map (has_bit (source (r_column r))) (range_rows r))) (bm, 0) ranges"
    by (simp add: foldl_map case_prod_unfold)
  then show ?thesis by (simp add: copy_bits_def put_flags_def foldl_concat_map)
qed

lemma copy_validity:
  assumes "\<forall>r \<in> set ranges. sound_range t r"
  shows "copy_bits source_validity (replicate (bitmap_length (length (ranges_cells ranges))) 0) ranges = validity_of (ranges_cells ranges)"
proof -
  have "map (has_bit (source_validity (r_column r))) (range_rows r) = map (\<lambda>c. c \<noteq> Null) (range_cells r)" if "r \<in> set ranges" for r
  proof -
    have s: "sound_range t r" using assms that by blast
    show ?thesis using range_cells_rows(2) [OF s] by (simp add: range_cells_rows(1) [OF s] sound_parts(2) [OF s] has_bit_validity)
  qed
  then have e: "map (\<lambda>r. map (has_bit (source_validity (r_column r))) (range_rows r)) ranges = map (\<lambda>r. map (\<lambda>c. c \<noteq> Null) (range_cells r)) ranges"
    by simp
  have "concat (map (\<lambda>r. map (has_bit (source_validity (r_column r))) (range_rows r)) ranges) = map (\<lambda>c. c \<noteq> Null) (ranges_cells ranges)"
    unfolding e by (simp add: ranges_cells_def map_concat comp_def)
  then show ?thesis using put_flags_bitmap [of "map (\<lambda>c. c \<noteq> Null) (ranges_cells ranges)"]
    by (simp add: copy_bits_flags validity_of_def)
qed

lemma copy_flag_values:
  assumes "\<forall>r \<in> set ranges. sound_range T_boolean r"
  shows "copy_bits source_values (replicate (bitmap_length (length (ranges_cells ranges))) 0) ranges = payload_of T_boolean (ranges_cells ranges)"
proof -
  have "map (has_bit (source_values (r_column r))) (range_rows r) = map (\<lambda>c. c = Flag True) (range_cells r)" if "r \<in> set ranges" for r
  proof -
    have s: "sound_range T_boolean r" using assms that by blast
    show ?thesis using range_cells_rows(2) [OF s]
      by (simp add: range_cells_rows(1) [OF s] sound_parts(3) [OF s] payload_of_def has_bit_bitmap)
  qed
  then have e: "map (\<lambda>r. map (has_bit (source_values (r_column r))) (range_rows r)) ranges = map (\<lambda>r. map (\<lambda>c. c = Flag True) (range_cells r)) ranges"
    by simp
  have "concat (map (\<lambda>r. map (has_bit (source_values (r_column r))) (range_rows r)) ranges) = map (\<lambda>c. c = Flag True) (ranges_cells ranges)"
    unfolding e by (simp add: ranges_cells_def map_concat comp_def)
  then show ?thesis using put_flags_bitmap [of "map (\<lambda>c. c = Flag True) (ranges_cells ranges)"]
    by (simp add: copy_bits_flags payload_of_def)
qed

subsection \<open>Filling a buffer from its start\<close>

definition fill :: "byte list \<Rightarrow> nat \<Rightarrow> byte list list \<Rightarrow> byte list \<times> nat" where
  "fill out at chunks = foldl (\<lambda>(out, at) bytes. (set_at out at bytes, at + length bytes)) (out, at) chunks"

lemma set_at_prefix: "set_at (pre @ rest) (length pre) bytes = pre @ bytes @ drop (length bytes) rest"
  by (simp add: set_at_def)

lemma fill_spec: "fill (pre @ rest) (length pre) chunks = (pre @ concat chunks @ drop (length (concat chunks)) rest, length pre + length (concat chunks))"
proof (induction chunks arbitrary: pre rest)
  case (Cons c chunks)
  have "fill (pre @ rest) (length pre) (c # chunks) = fill ((pre @ c) @ drop (length c) rest) (length (pre @ c)) chunks"
    by (simp add: fill_def set_at_prefix)
  then show ?case unfolding Cons.IH by (simp add: add.commute)
qed (simp add: fill_def)

lemma take_slots: "take (8 * k) (concat (map slot xs)) = concat (map slot (take k xs))"
proof (induction xs arbitrary: k)
  case (Cons x xs)
  then show ?case by (cases k) simp_all
qed simp

lemma drop_slots: "drop (8 * k) (concat (map slot xs)) = concat (map slot (drop k xs))"
proof (induction xs arbitrary: k)
  case (Cons x xs)
  then show ?case by (cases k) simp_all
qed simp

lemma slice_slots: "slice_of (concat (map slot cells)) (8 * a) (8 * b) = concat (map slot (slice_of cells a b))"
  using take_slots [of "b - a" "drop a cells"] by (simp add: slice_of_def drop_slots diff_mult_distrib2)

lemma copy_numbers_cells:
  assumes "\<forall>r \<in> set ranges. sound_range t r" "t = T_number \<or> t = T_datetime"
  shows "copy_numbers (replicate (8 * length (ranges_cells ranges)) 0) ranges = payload_of t (ranges_cells ranges)"
proof -
  have c: "slice_of (source_values (r_column r)) (8 * nat (r_start r)) (8 * nat (r_end r)) = concat (map slot (range_cells r))"
    if "r \<in> set ranges" for r
    using sound_parts(3) [of t r] that assms by (auto simp: payload_of_def slice_slots range_cells_def)
  have "foldl (\<lambda>(out, at) r.
     let bytes = slice_of (source_values (r_column r)) (8 * nat (r_start r)) (8 * nat (r_end r)) in
     (set_at out at bytes, at + length bytes)) s ranges = foldl (\<lambda>(out, at) bytes. (set_at out at bytes, at + length bytes)) s
       (map (\<lambda>r. concat (map slot (range_cells r))) ranges)" for s
    unfolding foldl_map by (rule foldl_cong) (use c in \<open>auto simp: Let_def simp del: length_slice_of\<close>)
  then have "copy_numbers (replicate (8 * length (ranges_cells ranges)) 0) ranges
    = fst (fill ([] @ replicate (8 * length (ranges_cells ranges)) 0) (length ([] :: byte list)) (map (\<lambda>r. concat (map slot (range_cells r))) ranges))"
    by (simp add: copy_numbers_def fill_def)
  moreover have p: "concat (map (\<lambda>r. concat (map slot (range_cells r))) ranges) = concat (map slot (ranges_cells ranges))"
    by (induction ranges) (simp_all add: ranges_cells_def)
  ultimately show ?thesis unfolding fill_spec p using length_floats [of "ranges_cells ranges"] assms(2)
    by (auto simp: payload_of_def)
qed

subsection \<open>Strings\<close>

definition offset_buffer :: "nat \<Rightarrow> cell list \<Rightarrow> byte list" where
  "offset_buffer n cells = concat (map (\<lambda>k. le_bytes 4 (text_offset cells k)) [0..<length cells + 1]) @ replicate (4 * (n - length cells)) 0"

lemma text_offset_append: "k \<le> length xs \<Longrightarrow> text_offset (xs @ ys) k = text_offset xs k"
  by (simp add: text_offset_def)

lemma offset_buffer_snoc:
  assumes "length cells < n" "v = text_offset (cells @ [c]) (length cells + 1)"
  shows "set_at (offset_buffer n cells) (4 * (length cells + 1)) (le_bytes 4 v) = offset_buffer n (cells @ [c])"
proof -
  let ?pre = "concat (map (\<lambda>k. le_bytes 4 (text_offset cells k)) [0..<length cells + 1])"
  have "n - length cells = Suc (n - Suc (length cells))" using assms(1) by simp
  moreover have "?pre = concat (map (\<lambda>k. le_bytes 4 (text_offset (cells @ [c]) k)) [0..<length cells + 1])"
    by (rule arg_cong [where f = concat], rule map_cong) (auto simp: text_offset_append)
  moreover note set_at_prefix [of ?pre "replicate (4 * (n - length cells)) 0" "le_bytes 4 v", unfolded length_offsets]
  ultimately show ?thesis using assms(2) by (simp add: offset_buffer_def)
qed

lemma text_offset_slice:
  assumes "a \<le> b" "b \<le> length cells"
  shows "text_offset (xs @ slice_of cells a b) (length xs + (b - a)) = length (concat (map text_of xs)) + (text_offset cells b - text_offset cells a)"
proof -
  have "take b cells = take a cells @ slice_of cells a b"
    using assms(1) by (simp add: slice_of_def take_add [symmetric])
  then have "text_offset cells b = text_offset cells a + length (concat (map text_of (slice_of cells a b)))"
    by (simp add: text_offset_def)
  then show ?thesis using assms by (simp add: text_offset_def)
qed

lemma copy_offsets:
  assumes "a \<le> b" "b \<le> length cells" "length xs + (b - a) \<le> n" "\<And>i. i \<le> length cells \<Longrightarrow> src i = text_offset cells i"
  shows "foldl (\<lambda>(offsets, row) i. (set_at offsets (4 * (row + 1)) (le_bytes 4 (length (concat (map text_of xs)) + src (i + 1) - src a)), row + 1))
      (offset_buffer n xs, length xs) [a..<b] = (offset_buffer n (xs @ slice_of cells a b), length xs + (b - a))"
  using assms(1-3)
proof (induction rule: dec_induct)
  case base
  then show ?case by (simp add: slice_of_def)
next
  case (step b)
  have len: "length (xs @ slice_of cells a b) = length xs + (b - a)" using step by simp
  have sl: "slice_of cells a (Suc b) = slice_of cells a b @ [cells ! b]"
    using step by (simp add: slice_of_def Suc_diff_le take_Suc_conv_app_nth)
  have v: "length (concat (map text_of xs)) + src (b + 1) - src a
      = text_offset ((xs @ slice_of cells a b) @ [cells ! b]) (length (xs @ slice_of cells a b) + 1)"
    using text_offset_slice [of a "Suc b" cells xs] text_offset_mono [of a "Suc b" cells] step assms(4)
    by (simp add: sl len Suc_diff_le)
  have lt: "length (xs @ slice_of cells a b) < n" using step by (simp add: len Suc_diff_le)
  have IH: "foldl (\<lambda>(offsets, row) i. (set_at offsets (4 * (row + 1)) (le_bytes 4 (length (concat (map text_of xs)) + src (i + 1) - src a)), row + 1))
      (offset_buffer n xs, length xs) [a..<b] = (offset_buffer n (xs @ slice_of cells a b), length xs + (b - a))"
    using step by simp
  show ?case
    using offset_buffer_snoc [OF lt v, unfolded len] step(1) unfolding upt_Suc_append [OF step(1)] foldl_append IH
    by (simp add: sl Suc_diff_le)
qed

lemma small_content:
  assumes "sound_range T_string r"
  shows "length (concat (map text_of (cells_of (r_column r)))) < 256 ^ 4"
  using assms storable_text by (simp add: sound_range_def)

lemma source_string_parts:
  assumes "sound_range T_string r"
  defines "cells \<equiv> cells_of (r_column r)"
  shows "i \<le> length cells \<Longrightarrow> source_offset (r_column r) i = text_offset cells i"
    "source_content (r_column r) = concat (map text_of cells)"
  unfolding source_offset_def source_content_def sound_parts(1,3) [OF assms(1)] string_payload_parts cells_def
  using offset_read [OF _ small_content [OF assms(1)], of i "[]"] by (simp_all del: upt_Suc)

lemma slice_texts:
  assumes "a \<le> b" "b \<le> length cells"
  shows "slice_of (concat (map text_of cells)) (text_offset cells a) (text_offset cells b) = concat (map text_of (slice_of cells a b))"
proof -
  have "cells = take a cells @ slice_of cells a b @ drop b cells"
    using assms(1) by (simp add: slice_of_def append_assoc [symmetric] take_add [symmetric] del: append_assoc)
  then have c: "concat (map text_of cells) = concat (map text_of (take a cells)) @ concat (map text_of (slice_of cells a b)) @ concat (map text_of (drop b cells))"
    by (metis concat_append map_append)
  have "text_offset cells b = text_offset cells a + length (concat (map text_of (slice_of cells a b)))"
    using text_offset_slice [OF assms, of "[]"] text_offset_mono [OF assms(1), of cells] assms text_offset_all [of "slice_of cells a b" "b - a"]
    by simp
  then show ?thesis unfolding c using slice_of_middle [of "concat (map text_of (take a cells))" "concat (map text_of (slice_of cells a b))"]
    by (simp add: text_offset_def)
qed

text \<open>The buffers after the rows of \<open>xs\<close>, of \<open>n\<close> rows and \<open>m\<close> content bytes in all.\<close>

definition string_state :: "nat \<Rightarrow> nat \<Rightarrow> cell list \<Rightarrow> string_output" where
  "string_state n m xs = (offset_buffer n xs, concat (map text_of xs) @ replicate (m - length (concat (map text_of xs))) 0,
     length xs, length (concat (map text_of xs)))"

lemma copy_string_range_state:
  assumes "sound_range T_string r" "length (xs @ range_cells r) \<le> n"
  shows "copy_string_range (string_state n m xs) r = string_state n m (xs @ range_cells r)"
proof -
  define cells a b where "cells = cells_of (r_column r)" and "a = nat (r_start r)" and "b = nat (r_end r)"
  have ab: "a \<le> b" "b \<le> length cells" using assms(1) by (auto simp: sound_range_def a_def b_def cells_def)
  have off: "source_offset (r_column r) i = text_offset cells i" if "i \<le> length cells" for i
    using source_string_parts(1) [OF assms(1)] that by (simp add: cells_def)
  have rc: "range_cells r = slice_of cells a b" by (simp add: range_cells_def cells_def a_def b_def)
  have sl: "slice_of (source_content (r_column r)) (text_offset cells a) (text_offset cells b) = concat (map text_of (range_cells r))"
    using source_string_parts(2) [OF assms(1)] slice_texts [OF ab] rc by (simp add: cells_def)
  have n: "length xs + (b - a) \<le> n" using assms(2) ab by (simp add: rc)
  have len: "text_offset cells b - text_offset cells a = length (concat (map text_of (range_cells r)))"
    using text_offset_slice [OF ab, of "[]"] text_offset_all [of "slice_of cells a b" "b - a"] ab by (simp add: rc)
  have o: "foldl (\<lambda>(offsets, row) i. (set_at offsets (4 * (row + 1))
        (le_bytes 4 (length (concat (map text_of xs)) + source_offset (r_column r) (i + 1) - source_offset (r_column r) a)), row + 1))
      (offset_buffer n xs, length xs) [a..<b] = (offset_buffer n (xs @ range_cells r), length xs + (b - a))"
    unfolding rc by (rule copy_offsets [OF ab n off])
  have "range_rows r = [a..<b]" by (simp add: range_rows_def a_def b_def)
  then show ?thesis
    unfolding copy_string_range_def string_state_def Let_def a_def [symmetric] b_def [symmetric] case_prod_conv off [OF ab(2)]
    using o off [of a] ab sl len
    by (simp add: set_at_prefix rc)
qed

lemma copy_string_ranges_state:
  assumes "\<forall>r \<in> set ranges. sound_range T_string r" "length (xs @ ranges_cells ranges) \<le> n"
  shows "foldl copy_string_range (string_state n m xs) ranges = string_state n m (xs @ ranges_cells ranges)"
  using assms
proof (induction ranges arbitrary: xs)
  case (Cons r ranges)
  then show ?case using copy_string_range_state [of r xs n m] Cons.IH [of "xs @ range_cells r"]
    by (simp add: ranges_cells_def)
qed (simp add: ranges_cells_def)

lemma copy_strings_cells:
  assumes "\<forall>r \<in> set ranges. sound_range T_string r"
  defines "cells \<equiv> ranges_cells ranges"
  shows "copy_strings (replicate (4 * (length cells + 1) + length (concat (map text_of cells))) 0) (length cells) ranges
    = payload_of T_string cells"
proof -
  let ?n = "length cells" and ?m = "length (concat (map text_of cells))"
  have "set_at (replicate (4 * (?n + 1)) 0) 0 (le_bytes 4 0) = offset_buffer ?n []"
    by (simp add: set_at_def offset_buffer_def)
  then have i: "(set_at (take (4 * (?n + 1)) (replicate (4 * (?n + 1) + ?m) 0)) 0 (le_bytes 4 0),
      drop (4 * (?n + 1)) (replicate (4 * (?n + 1) + ?m) 0), 0, 0) = string_state ?n ?m []"
    by (simp add: string_state_def)
  have f: "foldl copy_string_range (string_state ?n ?m []) ranges = string_state ?n ?m cells"
    using copy_string_ranges_state [OF assms(1), of "[]" ?n ?m] by (simp add: cells_def)
  show ?thesis unfolding copy_strings_def Let_def i f
    by (simp add: string_state_def offset_buffer_def payload_of_def)
qed

subsection \<open>Measuring the cells\<close>

definition count_cell :: "logical_type \<Rightarrow> prepared \<Rightarrow> cell \<Rightarrow> prepared" where
  "count_cell t p c = (if c = Null then p\<lparr>p_nulls := p_nulls p + 1\<rparr>
     else if t = T_number \<or> t = T_datetime then p\<lparr>p_zone := zone_step (p_zone p) c\<rparr> else p)"

lemma measure_row_cell:
  assumes "sound_range t r" "row < length (cells_of (r_column r))"
  shows "measure_row t (r_column r) p row = count_cell t p (cells_of (r_column r) ! row)"
proof -
  let ?cells = "cells_of (r_column r)"
  note s = sound_parts [OF assms(1)]
  have v: "has_bit (source_validity (r_column r)) row \<longleftrightarrow> ?cells ! row \<noteq> Null" using assms(2) by (simp add: s has_bit_validity)
  show ?thesis
  proof (cases "?cells ! row \<noteq> Null \<and> (t = T_number \<or> t = T_datetime)")
    case True
    then have num: "t = T_number \<or> t = T_datetime" by blast
    have k: "\<forall>c \<in> set ?cells. cell_ok t c" using assms(1) by (simp add: sound_range_def storable_def)
    obtain x where x: "?cells ! row = Float x" using cells_shape(3) [OF k num] True assms(2) nth_mem by blast
    have p: "payload_of t ?cells = concat (map slot ?cells)" using num by (auto simp: payload_of_def)
    have "slice_of (concat (map slot ?cells)) (8 * row) (8 * row + 8) = slot (?cells ! row)"
      using slice_block [of ?cells slot 8 row "[]"] assms(2) by simp
    then have "get64 (source_values (r_column r)) (8 * row) = x" unfolding s p by (intro get64_slice) (simp add: slot_def x)
    then show ?thesis using v num x by (simp add: measure_row_def count_cell_def zone_step_def)
  qed (use v in \<open>auto simp: measure_row_def count_cell_def\<close>)
qed

lemma count_cells:
  "foldl (count_cell t) p cells = p\<lparr>p_nulls := p_nulls p + null_cells cells,
     p_zone := (if t = T_number \<or> t = T_datetime then foldl zone_step (p_zone p) cells else p_zone p)\<rparr>"
proof (induction cells arbitrary: p)
  case (Cons c cells)
  have "zone_step z Null = z" for z by (simp add: zone_step_def)
  then show ?case using Cons by (auto simp: count_cell_def null_cells_def)
qed (simp add: null_cells_def)

definition content_size :: "logical_type \<Rightarrow> cell list \<Rightarrow> int" where
  "content_size t cells = (if t = T_string then int (length (concat (map text_of cells))) else 0)"

text \<open>The accumulators after the rows of \<open>cells\<close>.\<close>

definition prepared_cells :: "logical_type \<Rightarrow> cell list \<Rightarrow> prepared" where
  "prepared_cells t cells = \<lparr>p_rows = int (length cells), p_nulls = null_cells cells, p_content = content_size t cells,
     p_zone = (if t = T_number \<or> t = T_datetime then foldl zone_step no_values cells else no_values)\<rparr>"

lemma prepared_append:
  "foldl (count_cell t) ((prepared_cells t xs)\<lparr>p_rows := int (length (xs @ ys)), p_content := content_size t (xs @ ys)\<rparr>) ys
   = prepared_cells t (xs @ ys)"
  by (simp add: count_cells prepared_cells_def null_cells_def)

definition known_valid :: "bool \<Rightarrow> phys_range list \<Rightarrow> bool" where
  "known_valid le ranges \<longleftrightarrow> (\<forall>r \<in> set ranges. r_known r \<longrightarrow> (\<exists>v. validate_physical_column le (r_column r) = Inr v))"

lemma measure_range:
  assumes "sound_range t r"
  shows "foldl (measure_row t (r_column r)) p (range_rows r) = foldl (count_cell t) p (range_cells r)"
  unfolding range_cells_rows(1) [OF assms] foldl_map
  by (rule foldl_cong) (use measure_row_cell [OF assms] range_cells_rows(2) [OF assms] in auto)

lemma range_content:
  assumes "sound_range T_string r"
  shows "int (source_offset (r_column r) (nat (r_end r))) - int (source_offset (r_column r) (nat (r_start r)))
    = int (length (concat (map text_of (range_cells r))))"
proof -
  define cells a b where "cells = cells_of (r_column r)" and "a = nat (r_start r)" and "b = nat (r_end r)"
  have ab: "a \<le> b" "b \<le> length cells" using assms by (auto simp: sound_range_def a_def b_def cells_def)
  have "text_offset cells b - text_offset cells a = length (concat (map text_of (range_cells r)))"
    using text_offset_slice [OF ab, of "[]"] text_offset_all [of "slice_of cells a b" "b - a"] ab
    by (simp add: range_cells_def cells_def a_def b_def)
  moreover have "text_offset cells a \<le> text_offset cells b" by (rule text_offset_mono [OF ab(1)])
  moreover have "source_offset (r_column r) a = text_offset cells a" "source_offset (r_column r) b = text_offset cells b"
    using source_string_parts(1) [OF assms] ab by (simp_all add: cells_def)
  ultimately show ?thesis unfolding a_def [symmetric] b_def [symmetric] by (simp flip: of_nat_diff)
qed

lemma prepare_range_sound:
  assumes "prepare_range le t r p = Inr p'" "r_known r \<longrightarrow> (\<exists>v. validate_physical_column le (r_column r) = Inr v)"
  shows "sound_range t r"
proof -
  have c: "col_type (r_column r) = t" "0 \<le> r_start r" "r_start r \<le> r_end r" "r_end r \<le> col_rows (r_column r)"
    using assms(1) by (auto simp: prepare_range_def Let_def bindR_eq_Inr assert_nonnegative_safe_integer_def split: if_splits)
  have "\<exists>v. validate_physical_column le (r_column r) = Inr v"
    using assms by (cases "r_known r") (auto simp: prepare_range_def Let_def bindR_eq_Inr split: if_splits)
  then obtain v where "validate_physical_column le (r_column r) = Inr v" by blast
  note v = valid_is_canonical [OF this]
  have "col_rows (r_column r) = int (length (cells_of (r_column r)))"
    using arg_cong [OF v(2), of col_rows] by (simp add: column_of_def)
  then show ?thesis using v(1,2) c by (simp add: sound_range_def)
qed

lemma prepare_range_step:
  assumes "sound_range t r" "prepare_range le t r (prepared_cells t xs) = Inr p'"
  shows "p' = prepared_cells t (xs @ range_cells r) \<and> length (xs @ range_cells r) \<le> MAX_BLOCK_ROW_COUNT"
proof -
  have len: "int (length (range_cells r)) = r_end r - r_start r"
    using assms(1) by (simp add: range_cells_rows(1) [OF assms(1)] range_cells_rows(3) [OF assms(1)] sound_range_def)
  have rows: "p_rows (prepared_cells t xs) + (r_end r - r_start r) = int (length (xs @ range_cells r))"
    using len by (simp add: prepared_cells_def)
  have cont: "t = T_string \<Longrightarrow> p_content (prepared_cells t xs) + (int (source_offset (r_column r) (nat (r_end r)))
      - int (source_offset (r_column r) (nat (r_start r)))) = content_size t (xs @ range_cells r)"
    using range_content [of r] assms(1) by (simp add: prepared_cells_def content_size_def)
  have "t \<noteq> T_string \<Longrightarrow> p_content (prepared_cells t xs) = content_size t (xs @ range_cells r)"
    by (simp add: prepared_cells_def content_size_def)
  then have "p' = foldl (measure_row t (r_column r)) ((prepared_cells t xs)\<lparr>p_rows := int (length (xs @ range_cells r)),
      p_content := content_size t (xs @ range_cells r)\<rparr>) (range_rows r)"
    "assert_row_count (int (length (xs @ range_cells r))) = Inr ()"
    using assms(2) cont
    unfolding prepare_range_def Let_def checked_add_def rows
    by (auto simp: bindR_eq_Inr split: if_splits simp del: length_append)
  then show ?thesis unfolding measure_range [OF assms(1)] prepared_append by (simp add: assert_row_count_iff)
qed

lemma prepare_ranges:
  assumes "for_each ranges (prepare_range le t) (prepared_cells t xs) = Inr p" "known_valid le ranges"
  shows "(\<forall>r \<in> set ranges. sound_range t r) \<and> p = prepared_cells t (xs @ ranges_cells ranges)"
  using assms
proof (induction ranges arbitrary: xs)
  case (Cons r ranges)
  then obtain p1 where p1: "prepare_range le t r (prepared_cells t xs) = Inr p1" "for_each ranges (prepare_range le t) p1 = Inr p"
    by (auto simp: bindR_eq_Inr)
  have s: "sound_range t r" by (rule prepare_range_sound [OF p1(1)]) (use Cons.prems(2) in \<open>simp add: known_valid_def\<close>)
  note st = prepare_range_step [OF s p1(1)]
  show ?case using Cons.IH [of "xs @ range_cells r"] p1(2) st s Cons.prems(2)
    by (simp add: known_valid_def ranges_cells_def)
qed (simp add: ranges_cells_def)

lemma byte_length_Inr:
  assumes "physical_column_byte_length t (int n) (int c) = Inr m"
  shows "m = int (bitmap_length n + value_length t n c)" "n \<le> MAX_BLOCK_ROW_COUNT"
    "bitmap_length n + value_length t n c \<le> MAX_PHYSICAL_COLUMN_BYTE_LENGTH"
proof -
  have "assert_row_count (int n) = Inr ()"
    using assms by (auto simp: physical_column_byte_length_def physical_bitmap_byte_length_def bindR_eq_Inr)
  then show n: "n \<le> MAX_BLOCK_ROW_COUNT" by (simp add: assert_row_count_iff)
  have "assert_physical_byte_length m = Inr () \<and> m = int (bitmap_length n + value_length t n c)"
    using assms
    by (cases t) (auto simp: physical_column_byte_length_def bitmap_bytes [OF n] bindR_eq_Inr checked_add_def checked_multiply_def
      value_length_def split: if_splits)
  then show m: "m = int (bitmap_length n + value_length t n c)"
    "bitmap_length n + value_length t n c \<le> MAX_PHYSICAL_COLUMN_BYTE_LENGTH"
    using physical_bytes_iff by blast+
qed

lemma no_text: "t \<noteq> T_string \<Longrightarrow> \<forall>c \<in> set cells. cell_ok t c \<Longrightarrow> concat (map text_of cells) = []"
proof (induction cells)
  case (Cons c cells)
  then show ?case by (cases c) (simp_all add: text_of_def)
qed simp

lemma prepared_storable:
  assumes "prepare_physical_column le t ranges = Inr m" "known_valid le ranges"
  defines "cells \<equiv> ranges_cells ranges"
  shows "\<forall>r \<in> set ranges. sound_range t r" "storable t cells" "m_row_count m = int (length cells)"
    "m_null_count m = null_cells cells" "m_metadata m = zone_of cells" "m_validity_length m = int (bitmap_length (length cells))"
    "m_encoded_length m = int (length (encode_cells t cells))"
proof -
  have z: "\<lparr>p_rows = 0, p_nulls = 0, p_content = 0, p_zone = no_values\<rparr> = prepared_cells t []"
    by (simp add: prepared_cells_def null_cells_def content_size_def)
  obtain p vl el where p: "for_each ranges (prepare_range le t) (prepared_cells t []) = Inr p"
    "physical_bitmap_byte_length (p_rows p) = Inr vl" "physical_column_byte_length t (p_rows p) (p_content p) = Inr el"
    and m: "m_row_count m = p_rows p" "m_null_count m = p_nulls p" "m_validity_length m = vl" "m_encoded_length m = el"
      "m_metadata m = (if t = T_number \<or> t = T_datetime then zone_map_metadata (p_zone p) else None)"
    using assms(1) by (auto simp: prepare_physical_column_def z bindR_eq_Inr)
  from prepare_ranges [OF p(1) assms(2)] have s: "\<forall>r \<in> set ranges. sound_range t r" and pc: "p = prepared_cells t cells"
    by (simp_all add: cells_def)
  show "\<forall>r \<in> set ranges. sound_range t r" by (rule s)
  have ok: "\<forall>c \<in> set cells. cell_ok t c"
    using s range_cells_ok by (auto simp: cells_def ranges_cells_def)
  have cont: "content_size t cells = int (length (concat (map text_of cells)))"
    using no_text [OF _ ok] by (simp add: content_size_def)
  note b = byte_length_Inr [OF p(3) [unfolded pc prepared_cells_def prepared.simps cont]]
  show "storable t cells" using ok b by (simp add: storable_def column_bytes length_payload)
  show "m_row_count m = int (length cells)" "m_null_count m = null_cells cells" by (simp_all add: m pc prepared_cells_def)
  show "m_encoded_length m = int (length (encode_cells t cells))" using b(1) by (simp add: m column_bytes length_payload)
  show "m_validity_length m = int (bitmap_length (length cells))"
    using p(2) bitmap_bytes [OF b(2)] by (simp add: m pc prepared_cells_def)
  have "t = T_boolean \<or> t = T_string \<Longrightarrow> zone_of cells = None"
    by (rule zone_of_no_floats) (use ok in auto)
  then show "m_metadata m = zone_of cells" by (cases t) (simp_all add: m pc prepared_cells_def zone_of_def)
qed

subsection \<open>When the builder succeeds\<close>

lemma storable_prefix:
  assumes "storable t (xs @ ys)"
  shows "length xs \<le> MAX_BLOCK_ROW_COUNT" "length (concat (map text_of xs)) \<le> MAX_PHYSICAL_COLUMN_BYTE_LENGTH"
proof -
  have ok: "\<forall>c \<in> set (xs @ ys). cell_ok t c" using assms by (simp add: storable_def)
  show "length xs \<le> MAX_BLOCK_ROW_COUNT" using assms by (simp add: storable_def)
  show "length (concat (map text_of xs)) \<le> MAX_PHYSICAL_COLUMN_BYTE_LENGTH"
  proof (cases "t = T_string")
    case True
    then show ?thesis using assms by (simp add: storable_def column_bytes length_payload value_length_def)
  next
    case False
    then have "concat (map text_of xs) = []" by (rule no_text) (use ok in simp)
    then show ?thesis unfolding \<open>concat (map text_of xs) = []\<close> by simp
  qed
qed

lemma sound_validates: "sound_range t r \<Longrightarrow> \<exists>v. validate_physical_column le (r_column r) = Inr v"
  using canonical_is_valid [of t "cells_of (r_column r)" le] by (metis sound_range_def)

lemma prepare_range_ok:
  assumes "sound_range t r" "storable t (xs @ range_cells r @ ys)"
  shows "prepare_range le t r (prepared_cells t xs) = Inr (prepared_cells t (xs @ range_cells r))"
proof -
  let ?zs = "xs @ range_cells r"
  obtain v where v: "validate_physical_column le (r_column r) = Inr v" using sound_validates [OF assms(1)] by blast
  have sto: "storable t (cells_of (r_column r))" and col: "col_type (r_column r) = t" "0 \<le> r_start r" "r_start r \<le> r_end r"
    "r_end r \<le> int (length (cells_of (r_column r)))" using assms(1) by (simp_all add: sound_range_def)
  have bnd: "length (cells_of (r_column r)) \<le> 1048576" using sto by (simp add: storable_def block_limits)
  have safe: "assert_nonnegative_safe_integer (r_start r) = Inr ()" "assert_nonnegative_safe_integer (r_end r) = Inr ()"
    using col bnd by (simp_all add: assert_nonnegative_safe_integer_def safe_int_defs)
  have len: "int (length (range_cells r)) = r_end r - r_start r"
    using col by (simp add: range_cells_rows(1) [OF assms(1)] range_cells_rows(3) [OF assms(1)])
  have pre: "length ?zs \<le> MAX_BLOCK_ROW_COUNT" "length (concat (map text_of ?zs)) \<le> MAX_PHYSICAL_COLUMN_BYTE_LENGTH"
    using storable_prefix [of t ?zs ys] assms(2) by simp_all
  have rows: "checked_add (p_rows (prepared_cells t xs)) (r_end r - r_start r) = Inr (int (length ?zs))"
    using pre(1) len by (simp add: checked_add_def prepared_cells_def MAX_SAFE_INTEGER_def block_limits)
  have arc: "assert_row_count (int (length ?zs)) = Inr ()" using pre(1) by (simp add: assert_row_count_iff del: length_append)
  have cnt: "t = T_string \<Longrightarrow> checked_add (p_content (prepared_cells t xs)) (int (source_offset (r_column r) (nat (r_end r)))
      - int (source_offset (r_column r) (nat (r_start r)))) = Inr (content_size t ?zs)"
    using range_content [of r] assms(1) pre(2) by (simp add: prepared_cells_def content_size_def checked_add_def MAX_SAFE_INTEGER_def block_limits)
  have cnt': "t \<noteq> T_string \<Longrightarrow> p_content (prepared_cells t xs) = content_size t ?zs" by (simp add: prepared_cells_def content_size_def)
  have bb: "physical_bitmap_byte_length (col_rows (r_column r)) = Inr (int (bitmap_length (length (cells_of (r_column r)))))"
    using bitmap_bytes [of "length (cells_of (r_column r))"] sto by (simp add: sound_parts(4) [OF assms(1)] storable_def)
  have inb: "\<not> (r_end r < r_start r \<or> col_rows (r_column r) < r_end r)" using col sound_parts(4) [OF assms(1)] by simp
  note st = measure_range [OF assms(1)] prepared_append [of t xs "range_cells r"]
  show ?thesis
    unfolding prepare_range_def Let_def rows bb arc safe
    using inb cnt cnt' col(1) v st by (cases "t = T_string") (simp_all add: rows arc arc [unfolded length_append of_nat_add])
qed

lemma prepare_ranges_ok:
  assumes "\<forall>r \<in> set ranges. sound_range t r" "storable t (xs @ ranges_cells ranges)"
  shows "for_each ranges (prepare_range le t) (prepared_cells t xs) = Inr (prepared_cells t (xs @ ranges_cells ranges))"
  using assms
proof (induction ranges arbitrary: xs)
  case (Cons r ranges)
  then show ?case using prepare_range_ok [of t r xs "ranges_cells ranges" le] Cons.IH [of "xs @ range_cells r"]
    by (simp add: ranges_cells_def)
qed (simp add: ranges_cells_def)

lemma build_total:
  assumes "\<forall>r \<in> set ranges. sound_range t r" "storable t (ranges_cells ranges)"
  shows "\<exists>b. build_physical_column_from_ranges little_endian t ranges = Inr b"
proof -
  let ?cells = "ranges_cells ranges"
  have z: "\<lparr>p_rows = 0, p_nulls = 0, p_content = 0, p_zone = no_values\<rparr> = prepared_cells t []"
    by (simp add: prepared_cells_def null_cells_def content_size_def)
  have ok: "\<forall>c \<in> set ?cells. cell_ok t c" and n: "length ?cells \<le> MAX_BLOCK_ROW_COUNT"
    "length (encode_cells t ?cells) \<le> MAX_PHYSICAL_COLUMN_BYTE_LENGTH" using assms(2) by (simp_all add: storable_def)
  have cont: "content_size t ?cells = int (length (concat (map text_of ?cells)))"
    using no_text [OF _ ok] by (simp add: content_size_def)
  have bl: "physical_column_byte_length t (int (length ?cells)) (content_size t ?cells) = Inr (int (length (encode_cells t ?cells)))"
    unfolding cont using byte_length_ok [OF n(1), of t "length (concat (map text_of ?cells))"] n(2) no_text [OF _ ok]
    by (auto simp: column_bytes length_payload)
  have "for_each ranges (prepare_range little_endian t) (prepared_cells t []) = Inr (prepared_cells t ?cells)"
    using prepare_ranges_ok [of ranges t "[]" little_endian] assms by simp
  then have "\<exists>m. prepare_physical_column little_endian t ranges = Inr m"
    using bl bitmap_bytes [OF n(1)] unfolding prepare_physical_column_def z by (simp add: prepared_cells_def)
  then show ?thesis by (auto simp: build_physical_column_from_ranges_def Let_def)
qed

subsection \<open>Properties of the builder\<close>

text \<open>
  Property C30: what \<open>buildPhysicalColumnFromRanges\<close> returns is the canonical column of the rows it was
  given, in order: reading it back gives the concatenation of the ranges' rows, its null count and zone
  map are exactly theirs, and the validator accepts it. Columns already in the validated set
  must have validated.
\<close>

theorem build_concatenates_rows:
  assumes "build_physical_column_from_ranges little_endian t ranges = Inr b" "known_valid little_endian ranges"
  shows "cells_of (b_column b) = ranges_cells ranges \<and> b_column b = column_of t (ranges_cells ranges)
    \<and> b_null_count b = null_cells (ranges_cells ranges) \<and> b_metadata b = zone_of (ranges_cells ranges)
    \<and> (\<exists>v. validate_physical_column little_endian (b_column b) = Inr v)"
proof -
  let ?cells = "ranges_cells ranges"
  obtain m where m: "prepare_physical_column little_endian t ranges = Inr m"
    using assms(1) by (auto simp: build_physical_column_from_ranges_def bindR_eq_Inr)
  note p = prepared_storable [OF m assms(2)]
  have take_vl: "take (bitmap_length (length ?cells)) (replicate (length (encode_cells t ?cells)) 0) = (replicate (bitmap_length (length ?cells)) 0 :: byte list)"
    and drop_vl: "drop (bitmap_length (length ?cells)) (replicate (length (encode_cells t ?cells)) 0) = (replicate (length (payload_of t ?cells)) 0 :: byte list)"
    by (simp_all add: column_bytes)
  have payload: "(case t of
               T_boolean \<Rightarrow> copy_bits source_values (replicate (length (payload_of t ?cells)) 0) ranges
             | T_string \<Rightarrow> copy_strings (replicate (length (payload_of t ?cells)) 0) (length ?cells) ranges
             | _ \<Rightarrow> copy_numbers (replicate (length (payload_of t ?cells)) 0) ranges) = payload_of t ?cells"
    using p(1) copy_flag_values [of ranges] copy_strings_cells [of ranges] copy_numbers_cells [of ranges t]
    by (cases t) (simp_all add: length_payload value_length_def)
  have b: "b = \<lparr>b_column = column_of t ?cells, b_null_count = null_cells ?cells, b_metadata = zone_of ?cells\<rparr>"
    using assms(1) unfolding build_physical_column_from_ranges_def m bindR_simps Let_def p(3-7) nat_int take_vl drop_vl
      copy_validity [OF p(1)] payload
    by (simp add: column_of_def encode_cells_def)
  show ?thesis using cells_of_column [OF p(2)] canonical_is_valid [OF p(2), of little_endian] by (auto simp: b)
qed

definition demo_column :: phys_column where
  "demo_column = column_of T_string [Text [0x61], Null, Text [0xc3, 0xa9]]"

lemma demo_storable: "storable T_string [Text [0x61], Null, Text [0xc3, 0xa9]]"
  by (simp add: storable_def column_bytes length_payload value_length_def text_of_def bitmap_length_def block_limits
    utf8_decode_def cont_byte_def BOM_def)

lemma demo_range:
  "0 \<le> a \<Longrightarrow> a \<le> b \<Longrightarrow> b \<le> 3 \<Longrightarrow>
    sound_range T_string \<lparr>r_column = demo_column, r_known = k, r_start = a, r_end = b\<rparr>"
  using demo_storable cells_of_column [OF demo_storable] by (simp add: sound_range_def demo_column_def) (simp add: column_of_def)

definition demo_ranges :: "phys_range list" where
  "demo_ranges = [\<lparr>r_column = demo_column, r_known = False, r_start = 2, r_end = 3\<rparr>,
     \<lparr>r_column = demo_column, r_known = True, r_start = 0, r_end = 2\<rparr>]"

lemma demo_ranges_cells: "ranges_cells demo_ranges = [Text [0xc3, 0xa9], Text [0x61], Null]"
  using cells_of_column [OF demo_storable]
  by (simp add: demo_ranges_def ranges_cells_def range_cells_def demo_column_def slice_of_def numeral_2_eq_2 numeral_3_eq_3)

lemma demo_ranges_fit: "\<forall>r \<in> set demo_ranges. sound_range T_string r" "storable T_string (ranges_cells demo_ranges)"
    "known_valid True demo_ranges"
proof -
  show s: "\<forall>r \<in> set demo_ranges. sound_range T_string r" using demo_range by (simp add: demo_ranges_def)
  then show "known_valid True demo_ranges" using sound_validates by (auto simp: known_valid_def)
  show "storable T_string (ranges_cells demo_ranges)"
    unfolding demo_ranges_cells by (simp add: storable_def column_bytes length_payload value_length_def text_of_def
      bitmap_length_def block_limits utf8_decode_def cont_byte_def BOM_def)
qed

text \<open>
  Property C31: the builder refuses nothing it could store: for ranges inside canonical columns of its
  type, whose rows together fit the row and byte limits, it returns a column.
\<close>

theorem build_succeeds:
  assumes "\<forall>r \<in> set ranges. sound_range t r" "storable t (ranges_cells ranges)"
  shows "\<exists>b. build_physical_column_from_ranges little_endian t ranges = Inr b"
  by (rule build_total [OF assms])

lemma build_succeeds_witness: "\<exists>b. build_physical_column_from_ranges False T_string demo_ranges = Inr b"
  by (rule build_succeeds [OF demo_ranges_fit(1,2)])

lemma build_concatenates_rows_witness:
  "\<exists>b. build_physical_column_from_ranges True T_string demo_ranges = Inr b
    \<and> cells_of (b_column b) = [Text [0xc3, 0xa9], Text [0x61], Null]"
  using build_total [OF demo_ranges_fit(1,2), of True] build_concatenates_rows [OF _ demo_ranges_fit(3)]
  by (auto simp: demo_ranges_cells)

end
