(* ===== verification/Column.thy ===== *)
theory Column
  imports PhysicalRanges
begin

text \<open>
  \<open>block-format/column.ts\<close>: encoding JavaScript values as a physical column and reading them back.
  Values are plain data: an accessor-backed input that answers two reads differently is outside the
  model. A \<open>Date\<close> is its internal time value, which the standard keeps integral, in range and never
  negative zero, or not a number. \<open>little_endian\<close> is the byte order of the platform's typed arrays.
\<close>

datatype js_value = V_undefined | V_null | V_bool bool | V_num f64 | V_str js_string | V_date f64 | V_object

record encoded_column =
  enc_bytes :: "byte list"
  enc_metadata :: zone_map
  enc_null_count :: nat

subsection \<open>Booleans, numbers and dates\<close>

definition boolean_step :: "js_value list \<Rightarrow> nat \<Rightarrow> byte list \<times> byte list \<times> nat \<Rightarrow> (byte list \<times> byte list \<times> nat) result" where
  "boolean_step input index s = (let (validity, bits, nulls) = s in
     case input ! index of
       V_undefined \<Rightarrow> Inl (TypeError ''Column values cannot be undefined'')
     | V_null \<Rightarrow> Inr (validity, bits, nulls + 1)
     | V_bool b \<Rightarrow> Inr (put_bit validity index, if b then put_bit bits index else bits, nulls)
     | _ \<Rightarrow> Inl (TypeError ''Boolean columns accept only booleans or null''))"

text \<open>The number read from a value, of a number column or (\<open>dateMilliseconds\<close>) of a datetime column.\<close>

definition column_number :: "logical_type \<Rightarrow> js_value \<Rightarrow> f64 option result" where
  "column_number t v = (case v of
       V_undefined \<Rightarrow> Inl (TypeError ''Column values cannot be undefined'')
     | V_null \<Rightarrow> Inr None
     | V_num x \<Rightarrow>
         if t \<noteq> T_number then Inl (TypeError ''Datetime columns accept only Date objects or null'')
         else if f64_finite x then Inr (Some x) else Inl (TypeError ''Number values must be finite'')
     | V_date x \<Rightarrow>
         if t \<noteq> T_datetime then Inl (TypeError ''Number columns accept only numbers or null'')
         else if f64_finite x then Inr (Some x) else Inl (TypeError ''Datetime values must be valid Dates'')
     | _ \<Rightarrow> Inl (TypeError ''wrong type of value''))"

type_synonym number_accumulator = "byte list \<times> byte list \<times> nat \<times> f64 \<times> f64"

definition number_step :: "logical_type \<Rightarrow> js_value list \<Rightarrow> nat \<Rightarrow> number_accumulator \<Rightarrow> number_accumulator result" where
  "number_step t input index s = (let (validity, floats, nulls, mn, mx) = s in
     bindR (column_number t (input ! index)) (\<lambda>v. case v of
       None \<Rightarrow> Inr (validity, floats, nulls + 1, mn, mx)
     | Some x \<Rightarrow> Inr (put_bit validity index, set_at floats (8 * index) (le64 x), nulls, f64_min mn x, f64_max mx x)))"

subsection \<open>Strings\<close>

fun copy_ascii :: "byte list \<Rightarrow> nat \<Rightarrow> js_string \<Rightarrow> nat \<Rightarrow> byte list \<times> nat" where
  "copy_ascii ascii offset [] units = (ascii, units)"
| "copy_ascii ascii offset (code # rest) units =
     (if 0x7f < unat code then (ascii, units)
      else copy_ascii (ascii[offset + units := ucast code]) offset rest (units + 1))"

text \<open>
  \<open>textEncoder.encodeInto(value, target)\<close> with \<open>room\<close> bytes in the target: whole code points while they
  fit; the code units read and the bytes written.
\<close>

function encode_into :: "js_string \<Rightarrow> nat \<Rightarrow> nat \<times> byte list" where
  "encode_into [] room = (0, [])"
| "encode_into (c # rest) room =
     (let pair = high_surrogate c \<and> rest \<noteq> [] \<and> low_surrogate (hd rest);
          p = (if pair then 65536 + (unat c - 0xd800) * 1024 + (unat (hd rest) - 0xdc00)
               else if high_surrogate c \<or> low_surrogate c then 0xfffd else unat c);
          b = utf8_char p
      in if room < length b then (0, [])
         else let (r, bs) = encode_into (if pair then tl rest else rest) (room - length b)
              in ((if pair then 2 else 1) + r, b @ bs))"
  by pat_completeness auto
termination by (relation "measure (\<lambda>(s, room). length s)") auto

record string_build =
  sb_validity :: "byte list"
  sb_offsets :: "nat list"
  sb_ascii :: "byte list"
  sb_offset :: nat
  sb_copying :: bool
  sb_byte_length :: nat
  sb_null_count :: nat

definition string_value_step :: "js_value list \<Rightarrow> nat \<Rightarrow> string_build \<Rightarrow> string_build result" where
  "string_value_step input index s =
     (case input ! index of
       V_undefined \<Rightarrow> Inl (TypeError ''Column values cannot be undefined'')
     | V_null \<Rightarrow> Inr (s\<lparr>sb_null_count := sb_null_count s + 1, sb_offsets := (sb_offsets s)[index + 1 := sb_offset s]\<rparr>)
     | V_str value \<Rightarrow>
         let s = s\<lparr>sb_validity := put_bit (sb_validity s) index\<rparr>;
             fits = sb_offset s + length value \<le> length (sb_ascii s);
             (ascii, units) = (if sb_copying s \<and> fits then copy_ascii (sb_ascii s) (sb_offset s) value 0 else (sb_ascii s, 0));
             s = s\<lparr>sb_ascii := ascii\<rparr>
         in if sb_copying s \<and> units = length value \<and> fits
            then Inr (s\<lparr>sb_offset := sb_offset s + length value, sb_byte_length := sb_byte_length s + length value,
                   sb_offsets := (sb_offsets s)[index + 1 := sb_offset s + length value]\<rparr>)
            else bindR (well_formed_utf8_byte_length value) (\<lambda>n.
              if \<not> is_safe_integer (int (sb_byte_length s + n)) then Inl (RangeError ''Invalid string content byte length'')
              else Inr (s\<lparr>sb_copying := False, sb_byte_length := sb_byte_length s + n\<rparr>))
     | _ \<Rightarrow> Inl (TypeError ''String columns accept only strings or null''))"

definition exact_step :: "js_value list \<Rightarrow> nat \<Rightarrow> byte list \<times> nat \<times> nat list \<Rightarrow> (byte list \<times> nat \<times> nat list) result" where
  "exact_step input index s = (let (content, offset, offsets) = s in
     bindR (case input ! index of
         V_str value \<Rightarrow>
           let (r, bytes) = encode_into value (length content - offset) in
           if r \<noteq> length value then Inl (PlainError ''UTF-8 output sizing mismatch'')
           else Inr (set_at content offset bytes, offset + length bytes)
       | _ \<Rightarrow> Inr (content, offset)) (\<lambda>(content', offset'). Inr (content', offset', offsets[index + 1 := offset'])))"

text \<open>The bytes of a \<open>Uint32Array\<close> are in the platform's order.\<close>

definition uint32_bytes :: "bool \<Rightarrow> nat \<Rightarrow> byte list" where
  "uint32_bytes little_endian n = (if little_endian then le_bytes 4 n else rev (le_bytes 4 n))"

definition offsets_bytes :: "bool \<Rightarrow> nat list \<Rightarrow> byte list" where
  "offsets_bytes little_endian offsets = concat (map (uint32_bytes little_endian) offsets)"

definition value_units :: "js_value \<Rightarrow> nat" where
  "value_units v = (case v of V_str s \<Rightarrow> length s | _ \<Rightarrow> 0)"

definition encode_string_column :: "bool \<Rightarrow> js_value list \<Rightarrow> encoded_column result" where
  "encode_string_column little_endian input =
     (let rows = length input; units = sum_list (map value_units input);
          start = \<lparr>sb_validity = replicate (bitmap_length rows) 0, sb_offsets = replicate (rows + 1) 0,
            sb_ascii = replicate (if units \<le> MAX_PHYSICAL_COLUMN_BYTE_LENGTH then units else 0) 0,
            sb_offset = 0, sb_copying = True, sb_byte_length = 0, sb_null_count = 0\<rparr>
      in bindR (for_each [0..<rows] (string_value_step input) start) (\<lambda>s.
         bindR (physical_column_byte_length T_string (int rows) (int (sb_byte_length s))) (\<lambda>_.
         if sb_copying s
         then Inr \<lparr>enc_bytes = sb_validity s @ offsets_bytes little_endian (sb_offsets s) @ take (sb_offset s) (sb_ascii s),
                enc_metadata = None, enc_null_count = sb_null_count s\<rparr>
         else bindR (for_each [0..<rows] (exact_step input) (replicate (sb_byte_length s + 3) 0, 0, sb_offsets s)) (\<lambda>(content, offset, offsets).
           if offset \<noteq> sb_byte_length s then Inl (PlainError ''UTF-8 output sizing mismatch'')
           else Inr \<lparr>enc_bytes = sb_validity s @ offsets_bytes little_endian offsets @ take offset content,
                enc_metadata = None, enc_null_count = sb_null_count s\<rparr>))))"

definition encode_column :: "bool \<Rightarrow> logical_type \<Rightarrow> js_value list \<Rightarrow> encoded_column result" where
  "encode_column little_endian t input =
     (let rows = length input; zeros = replicate (bitmap_length rows) 0 in
      bindR (physical_column_byte_length t (int rows) 0) (\<lambda>_.
      case t of
        T_string \<Rightarrow> encode_string_column little_endian input
      | T_boolean \<Rightarrow>
          bindR (for_each [0..<rows] (boolean_step input) (zeros, zeros, 0)) (\<lambda>(validity, bits, nulls).
            Inr \<lparr>enc_bytes = validity @ bits, enc_metadata = None, enc_null_count = nulls\<rparr>)
      | _ \<Rightarrow>
          bindR (for_each [0..<rows] (number_step t input)
              (zeros, replicate (8 * rows) 0, 0, POSITIVE_INFINITY, NEGATIVE_INFINITY)) (\<lambda>(validity, floats, nulls, mn, mx).
            Inr \<lparr>enc_bytes = validity @ floats, enc_metadata = zone_map_metadata (mn, mx), enc_null_count = nulls\<rparr>)))"

subsection \<open>Decoding\<close>

text \<open>\<open>new Date(v)\<close>: the standard's \<open>TimeClip\<close>.\<close>

definition time_clip :: "f64 \<Rightarrow> f64" where
  "time_clip v = (if datetime_ok v then if f64_scaled v = 0 then 0 else v else NOT_A_NUMBER)"

definition decode_text :: "byte list \<Rightarrow> js_value result" where
  "decode_text bytes = (case utf8_decode False bytes of
     None \<Rightarrow> Inl (TypeError ''The encoded data was not valid'') | Some s \<Rightarrow> Inr (V_str s))"

definition decode_text_step :: "byte list \<Rightarrow> byte list \<Rightarrow> byte list \<Rightarrow> nat \<Rightarrow> nat \<times> js_value list \<Rightarrow> (nat \<times> js_value list) result" where
  "decode_text_step validity offsets content index s = (let (previous, out) = s;
      current = get_le 4 offsets (4 * index) in
      if current < previous \<or> length content < current then Inl (PlainError ''Invalid string offset'')
      else bindR (if 0 < index
                  then if has_bit validity (index - 1)
                       then bindR (decode_text (slice_of content previous current)) (\<lambda>v. Inr (out @ [v]))
                       else Inr (out @ [V_null])
                  else Inr out) (\<lambda>out'. Inr (current, out')))"

definition decode_validated_column :: "phys_column \<Rightarrow> js_value list result" where
  "decode_validated_column c =
     (let rows = nat (col_rows c); vl = bitmap_length rows;
          validity = take vl (col_bytes c); payload = drop vl (col_bytes c) in
      case col_type c of
        T_boolean \<Rightarrow>
          if length payload \<noteq> bitmap_length rows then Inl (PlainError ''Invalid boolean payload'')
          else Inr (map (\<lambda>i. if has_bit validity i then V_bool (has_bit payload i) else V_null) [0..<rows])
      | T_string \<Rightarrow>
          if length payload < 4 * (rows + 1) then Inl (PlainError ''Invalid string offsets'')
          else let offsets = take (4 * (rows + 1)) payload; content = drop (4 * (rows + 1)) payload in
            bindR (for_each [0..<rows + 1] (decode_text_step validity offsets content) (0, [])) (\<lambda>(previous, out).
              if previous \<noteq> length content then Inl (PlainError ''Unreferenced string bytes'') else Inr out)
      | t \<Rightarrow>
          if length payload \<noteq> 8 * rows then Inl (PlainError ''Invalid payload'')
          else Inr (map (\<lambda>i. let v = get64 payload (8 * i) in
            if has_bit validity i then if t = T_datetime then V_date (time_clip v) else V_num v else V_null) [0..<rows]))"

definition decode_column :: "bool \<Rightarrow> logical_type \<Rightarrow> byte list \<Rightarrow> nat \<Rightarrow> js_value list result" where
  "decode_column little_endian t bytes rows =
     (let c = \<lparr>col_type = t, col_rows = int rows, col_bytes = bytes\<rparr> in
      bindR (validate_physical_column little_endian c) (\<lambda>_. decode_validated_column c))"

subsection \<open>The cells of values\<close>

definition cell_of_value :: "js_value \<Rightarrow> cell" where
  "cell_of_value v = (case v of V_bool b \<Rightarrow> Flag b | V_num x \<Rightarrow> Float x | V_date x \<Rightarrow> Float x | V_str s \<Rightarrow> Text (utf8_encode s) | _ \<Rightarrow> Null)"

definition value_ok :: "logical_type \<Rightarrow> js_value \<Rightarrow> bool" where
  "value_ok t v = (case v of
     V_null \<Rightarrow> True
   | V_bool _ \<Rightarrow> t = T_boolean
   | V_num x \<Rightarrow> t = T_number \<and> f64_finite x
   | V_date x \<Rightarrow> t = T_datetime \<and> f64_finite x
   | V_str s \<Rightarrow> t = T_string \<and> paired s
   | _ \<Rightarrow> False)"

definition cells_to :: "js_value list \<Rightarrow> nat \<Rightarrow> cell list" where
  "cells_to input i = map cell_of_value (take i input)"

lemma cells_to_Suc: "i < length input \<Longrightarrow> cells_to input (Suc i) = cells_to input i @ [cell_of_value (input ! i)]"
  by (simp add: cells_to_def take_Suc_conv_app_nth)

lemma cells_to_0 [simp]: "cells_to input 0 = []"
  by (simp add: cells_to_def)

lemma cells_to_all: "cells_to input (length input) = map cell_of_value input"
  by (simp add: cells_to_def)

lemma length_cells_to [simp]: "i \<le> length input \<Longrightarrow> length (cells_to input i) = i"
  by (simp add: cells_to_def)

definition bits_to :: "nat \<Rightarrow> bool list \<Rightarrow> byte list" where
  "bits_to n flags = fst (put_flags (replicate (bitmap_length n) 0) flags)"

lemma bits_to_snoc: "bits_to n (flags @ [f]) = (if f then put_bit (bits_to n flags) (length flags) else bits_to n flags)"
  by (simp add: bits_to_def put_flags_snoc put_flags_spec)

lemma bits_to_Nil [simp]: "bits_to n [] = replicate (bitmap_length n) 0"
  by (simp add: bits_to_def put_flags_def)

lemma bits_to_all: "length flags = n \<Longrightarrow> bits_to n flags = bitmap flags"
  using put_flags_bitmap [of flags] by (simp add: bits_to_def)

definition valid_to :: "js_value list \<Rightarrow> nat \<Rightarrow> byte list" where
  "valid_to input i = bits_to (length input) (map (\<lambda>c. c \<noteq> Null) (cells_to input i))"

lemma valid_to_Suc: "i < length input \<Longrightarrow> valid_to input (Suc i) =
    (if cell_of_value (input ! i) \<noteq> Null then put_bit (valid_to input i) i else valid_to input i)"
  by (simp add: valid_to_def cells_to_Suc bits_to_snoc)

lemma valid_to_all: "valid_to input (length input) = validity_of (map cell_of_value input)"
  by (simp add: valid_to_def cells_to_all bits_to_all validity_of_def)

lemma valid_to_0 [simp]: "valid_to input 0 = replicate (bitmap_length (length input)) 0"
  by (simp add: valid_to_def)

lemma null_cells_snoc: "null_cells (cells @ [c]) = null_cells cells + (if c = Null then 1 else 0)"
  by (simp add: null_cells_def)

text \<open>Booleans.\<close>

definition boolean_state :: "js_value list \<Rightarrow> nat \<Rightarrow> byte list \<times> byte list \<times> nat" where
  "boolean_state input i = (valid_to input i, bits_to (length input) (map (\<lambda>c. c = Flag True) (cells_to input i)), null_cells (cells_to input i))"

lemma boolean_step_state:
  assumes "i < length input"
  shows "value_ok T_boolean (input ! i) \<Longrightarrow> boolean_step input i (boolean_state input i) = Inr (boolean_state input (Suc i))"
    "\<not> value_ok T_boolean (input ! i) \<Longrightarrow> \<exists>e. boolean_step input i (boolean_state input i) = Inl e"
  using assms
  by (cases "input ! i"; simp add: boolean_step_def boolean_state_def value_ok_def valid_to_Suc cells_to_Suc bits_to_snoc null_cells_snoc cell_of_value_def)+

lemma boolean_loop:
  "(\<forall>v \<in> set input. value_ok T_boolean v) \<Longrightarrow> for_each [0..<length input] (boolean_step input) (boolean_state input 0) = Inr (boolean_state input (length input))"
  "for_each [0..<length input] (boolean_step input) (boolean_state input 0) = Inr s \<Longrightarrow>
     (\<forall>v \<in> set input. value_ok T_boolean v) \<and> s = boolean_state input (length input)"
proof -
  note st = boolean_step_state [of _ input]
  show "(\<forall>v \<in> set input. value_ok T_boolean v) \<Longrightarrow> for_each [0..<length input] (boolean_step input) (boolean_state input 0) = Inr (boolean_state input (length input))"
    by (rule for_each_upt(1) [of "length input" "\<lambda>i. value_ok T_boolean (input ! i)"]) (use st in auto)
  assume "for_each [0..<length input] (boolean_step input) (boolean_state input 0) = Inr s"
  then have "(\<forall>i < length input. value_ok T_boolean (input ! i)) \<and> s = boolean_state input (length input)"
    by (rule for_each_upt(2) [rotated 2]) (use st in auto)
  then show "(\<forall>v \<in> set input. value_ok T_boolean v) \<and> s = boolean_state input (length input)"
    by (metis in_set_conv_nth)
qed

text \<open>Numbers.\<close>

definition number_state :: "js_value list \<Rightarrow> nat \<Rightarrow> number_accumulator" where
  "number_state input i = (let z = foldl zone_step no_values (cells_to input i) in
     (valid_to input i, concat (map slot (cells_to input i)) @ replicate (8 * (length input - i)) 0, null_cells (cells_to input i), fst z, snd z))"

lemma column_number_ok:
  assumes "t = T_number \<or> t = T_datetime"
  shows "value_ok t v \<Longrightarrow> column_number t v = Inr (case cell_of_value v of Float x \<Rightarrow> Some x | _ \<Rightarrow> None)
      \<and> (cell_of_value v = Null \<or> (\<exists>x. cell_of_value v = Float x))"
    "\<not> value_ok t v \<Longrightarrow> \<exists>e. column_number t v = Inl e"
  using assms by (cases v; auto simp: column_number_def value_ok_def cell_of_value_def)+

lemma number_step_state:
  assumes "i < length input" "t = T_number \<or> t = T_datetime"
  shows "value_ok t (input ! i) \<Longrightarrow> number_step t input i (number_state input i) = Inr (number_state input (Suc i))"
    "\<not> value_ok t (input ! i) \<Longrightarrow> \<exists>e. number_step t input i (number_state input i) = Inl e"
proof -
  assume v: "value_ok t (input ! i)"
  have n: "length input - i = Suc (length input - Suc i)" using assms(1) by simp
  have len: "length (concat (map slot (cells_to input i))) = 8 * i" using assms(1) length_floats [of "cells_to input i"] by simp
  have put: "set_at (concat (map slot (cells_to input i)) @ replicate (8 * (length input - i)) 0) (8 * i) bytes
      = concat (map slot (cells_to input i)) @ bytes @ replicate (8 * (length input - Suc i)) 0" if "length bytes = 8" for bytes
    using set_at_prefix [of "concat (map slot (cells_to input i))" "replicate (8 * (length input - i)) 0" bytes] that len n by simp
  from column_number_ok(1) [OF assms(2) v] show "number_step t input i (number_state input i) = Inr (number_state input (Suc i))"
  proof (elim conjE disjE exE)
    assume c: "cell_of_value (input ! i) = Null" "column_number t (input ! i) = Inr (case cell_of_value (input ! i) of Float x \<Rightarrow> Some x | _ \<Rightarrow> None)"
    have "replicate (8 * (length input - i)) (0 :: byte) = replicate 8 0 @ replicate (8 * (length input - Suc i)) 0"
      by (simp add: n flip: replicate_add)
    then show ?thesis using c assms(1)
      by (simp add: number_step_def number_state_def Let_def valid_to_Suc cells_to_Suc null_cells_snoc zone_step_def slot_def)
  next
    fix x assume c: "cell_of_value (input ! i) = Float x" "column_number t (input ! i) = Inr (case cell_of_value (input ! i) of Float x \<Rightarrow> Some x | _ \<Rightarrow> None)"
    then show ?thesis using assms(1) put [of "le64 x"]
      by (simp add: number_step_def number_state_def Let_def valid_to_Suc cells_to_Suc null_cells_snoc zone_step_def slot_def
        case_prod_unfold)
  qed
next
  assume "\<not> value_ok t (input ! i)"
  from column_number_ok(2) [OF assms(2) this] show "\<exists>e. number_step t input i (number_state input i) = Inl e"
    by (auto simp: number_step_def number_state_def Let_def)
qed

lemma number_loop:
  assumes "t = T_number \<or> t = T_datetime"
  shows "(\<forall>v \<in> set input. value_ok t v) \<Longrightarrow> for_each [0..<length input] (number_step t input) (number_state input 0) = Inr (number_state input (length input))"
    "for_each [0..<length input] (number_step t input) (number_state input 0) = Inr s \<Longrightarrow>
     (\<forall>v \<in> set input. value_ok t v) \<and> s = number_state input (length input)"
proof -
  note st = number_step_state [OF _ assms, of _ input]
  show "(\<forall>v \<in> set input. value_ok t v) \<Longrightarrow> for_each [0..<length input] (number_step t input) (number_state input 0) = Inr (number_state input (length input))"
    by (rule for_each_upt(1) [of "length input" "\<lambda>i. value_ok t (input ! i)"]) (use st in auto)
  assume "for_each [0..<length input] (number_step t input) (number_state input 0) = Inr s"
  then have "(\<forall>i < length input. value_ok t (input ! i)) \<and> s = number_state input (length input)"
    by (rule for_each_upt(2) [rotated 2]) (use st in auto)
  then show "(\<forall>v \<in> set input. value_ok t v) \<and> s = number_state input (length input)"
    by (metis in_set_conv_nth)
qed

text \<open>Strings: one value.\<close>

lemma ucast_u8: "u8 (unat (c :: 16 word)) = ucast c"
  by (simp add: u8_def)

lemma ascii_text:
  assumes "\<forall>c \<in> set s. unat c \<le> 0x7f"
  shows "paired s" "utf8_encode s = map ucast s"
proof -
  have "paired s \<and> code_points s = map unat s"
    using assms by (induction s) (auto simp: high_surrogate_def low_surrogate_def)
  then show "paired s" "utf8_encode s = map ucast s"
    using assms by (auto simp: utf8_encode_def utf8_char_def ucast_u8 comp_def concat_map_singleton cong: map_cong)
qed

lemma copy_ascii_spec:
  assumes "off + u + length cs \<le> length ascii" "copy_ascii ascii off cs u = (ascii', u')"
  shows "length ascii' = length ascii \<and> take (off + u) ascii' = take (off + u) ascii
    \<and> (if \<forall>c \<in> set cs. unat c \<le> 0x7f then u' = u + length cs \<and> take (off + u + length cs) ascii' = take (off + u) ascii @ map ucast cs
       else u' < u + length cs)"
  using assms
proof (induction cs arbitrary: ascii u)
  case (Cons c cs)
  show ?case
  proof (cases "0x7f < unat c")
    case True
    then show ?thesis using Cons.prems by (auto simp: not_le)
  next
    case False
    have l: "off + (u + 1) + length cs \<le> length (ascii[off + u := ucast c])" using Cons.prems(1) by simp
    have c: "copy_ascii (ascii[off + u := ucast c]) off cs (u + 1) = (ascii', u')" using Cons.prems(2) False by simp
    note IH = Cons.IH [OF l c]
    have lt: "off + u < length ascii" using Cons.prems(1) by simp
    then have t: "take (off + (u + 1)) (ascii[off + u := ucast c]) = take (off + u) ascii @ [ucast c]"
      by (simp add: take_Suc_conv_app_nth)
    have "take (off + u) ascii' = take (off + u) (take (off + (u + 1)) ascii')" by (simp add: min_def)
    also have "\<dots> = take (off + u) ascii" using IH t lt by simp
    finally show ?thesis using IH t False by (cases "\<forall>c \<in> set cs. unat c \<le> 0x7f") auto
  qed
qed simp

lemma encode_into_fits: "length (utf8_encode s) \<le> room \<Longrightarrow> encode_into s room = (length s, utf8_encode s)"
proof (induction s arbitrary: room rule: code_points.induct)
  case (2 c rest)
  consider (pair) d rest' where "high_surrogate c" "rest = d # rest'" "low_surrogate d"
    | (alone) "\<not> (high_surrogate c \<and> rest \<noteq> [] \<and> low_surrogate (hd rest))" "high_surrogate c"
    | (low) "\<not> high_surrogate c" "low_surrogate c"
    | (unit) "\<not> high_surrogate c" "\<not> low_surrogate c"
    by (cases rest) auto
  then show ?case
  proof cases
    case pair
    then show ?thesis using 2(1) [OF pair(1,2,3), of "room - _"] 2(5) by (simp add: utf8_encode_def Let_def)
  next
    case alone
    then have e: "utf8_encode (c # rest) = utf8_char 0xfffd @ utf8_encode rest"
      by (cases rest) (auto simp: utf8_encode_def)
    have "length (utf8_encode rest) \<le> room' \<Longrightarrow> encode_into rest room' = (length rest, utf8_encode rest)" for room'
    proof (cases rest)
      case Nil
      then show ?thesis by (simp add: utf8_encode_def)
    next
      case (Cons d rest')
      then have "\<not> low_surrogate d" using alone by simp
      then show "length (utf8_encode rest) \<le> room' \<Longrightarrow> encode_into rest room' = (length rest, utf8_encode rest)"
        using 2(2) [OF alone(2) Cons] Cons by blast
    qed
    then show ?thesis using alone e 2(5) by (auto simp: Let_def)
  next
    case low
    then have e: "utf8_encode (c # rest) = utf8_char 0xfffd @ utf8_encode rest" by (simp add: utf8_encode_def)
    then show ?thesis using low 2(3) [OF low] 2(5) by (simp add: Let_def)
  next
    case unit
    then show ?thesis using 2(4) [OF unit] 2(5) by (simp add: utf8_encode_unit Let_def)
  qed
qed (simp add: utf8_encode_def)

text \<open>Strings: the checking loop. While it copies, the ASCII buffer holds the texts so far.\<close>

definition texts_to :: "js_value list \<Rightarrow> nat \<Rightarrow> byte list" where
  "texts_to input i = concat (map text_of (cells_to input i))"

lemma texts_to_Suc: "i < length input \<Longrightarrow> texts_to input (Suc i) = texts_to input i @ text_of (cell_of_value (input ! i))"
  by (simp add: texts_to_def cells_to_Suc)

lemma texts_to_0 [simp]: "texts_to input 0 = []"
  by (simp add: texts_to_def)

definition offsets_hold :: "js_value list \<Rightarrow> nat \<Rightarrow> nat list \<Rightarrow> bool" where
  "offsets_hold input i offsets \<longleftrightarrow> length offsets = length input + 1 \<and> (\<forall>k \<le> i. offsets ! k = length (texts_to input k))"

lemma offsets_hold_Suc:
  "offsets_hold input i offsets \<Longrightarrow> i < length input \<Longrightarrow> v = length (texts_to input (Suc i)) \<Longrightarrow>
    offsets_hold input (Suc i) (offsets[i + 1 := v])"
  by (auto simp: offsets_hold_def nth_list_update le_Suc_eq)

definition checked :: "js_value list \<Rightarrow> nat \<Rightarrow> nat \<Rightarrow> string_build \<Rightarrow> bool" where
  "checked input cap i s \<longleftrightarrow> sb_validity s = valid_to input i \<and> sb_null_count s = null_cells (cells_to input i)
     \<and> sb_byte_length s = length (texts_to input i) \<and> (\<forall>v \<in> set (take i input). value_ok T_string v)
     \<and> length (sb_ascii s) = cap \<and> offsets_hold input 0 (sb_offsets s)
     \<and> (sb_copying s \<longrightarrow> sb_offset s = length (texts_to input i) \<and> sb_offset s \<le> cap
          \<and> take (sb_offset s) (sb_ascii s) = texts_to input i \<and> offsets_hold input i (sb_offsets s))"

lemma checked_values: "i < length input \<Longrightarrow> (\<forall>v \<in> set (take (Suc i) input). P v) \<longleftrightarrow> (\<forall>v \<in> set (take i input). P v) \<and> P (input ! i)"
  by (auto simp: take_Suc_conv_app_nth)

lemma string_step_null:
  assumes "checked input cap i s" "i < length input" "input ! i = V_null"
  shows "\<exists>s'. string_value_step input i s = Inr s' \<and> checked input cap (Suc i) s'"
  using assms offsets_hold_Suc [of input i "sb_offsets s" "sb_offset s"]
  by (auto simp: string_value_step_def checked_def valid_to_Suc cells_to_Suc null_cells_snoc cell_of_value_def texts_to_Suc text_of_def
    checked_values value_ok_def offsets_hold_def)

lemma string_step_text:
  assumes "checked input cap i s" "i < length input" "input ! i = V_str value"
  shows "string_value_step input i s = Inr s' \<Longrightarrow> checked input cap (Suc i) s'"
    "paired value \<Longrightarrow> length (texts_to input (Suc i)) \<le> MAX_PHYSICAL_COLUMN_BYTE_LENGTH \<Longrightarrow> \<exists>s'. string_value_step input i s = Inr s'"
proof -
  define fits where "fits \<longleftrightarrow> sb_copying s \<and> sb_offset s + length value \<le> length (sb_ascii s)"
  define cu where "cu = (if fits then copy_ascii (sb_ascii s) (sb_offset s) value 0 else (sb_ascii s, 0))"
  define ascii units where "ascii = fst cu" and "units = snd cu"
  define s1 where "s1 = s\<lparr>sb_validity := put_bit (sb_validity s) i, sb_ascii := ascii\<rparr>"
  have st: "string_value_step input i s =
      (if fits \<and> units = length value
       then Inr (s1\<lparr>sb_offset := sb_offset s + length value, sb_byte_length := sb_byte_length s + length value,
              sb_offsets := (sb_offsets s)[i + 1 := sb_offset s + length value]\<rparr>)
       else bindR (well_formed_utf8_byte_length value) (\<lambda>n.
         if \<not> is_safe_integer (int (sb_byte_length s + n)) then Inl (RangeError ''Invalid string content byte length'')
         else Inr (s1\<lparr>sb_copying := False, sb_byte_length := sb_byte_length s + n\<rparr>)))"
    unfolding string_value_step_def assms(3) js_value.case
    by (simp add: Let_def fits_def cu_def ascii_def units_def s1_def case_prod_unfold conj_commute conj_left_commute cong: if_cong)
  have c: "checked input cap i s" by (rule assms(1))
  have len: "length ascii = cap"
    using copy_ascii_spec [of "sb_offset s" 0 "value" "sb_ascii s" ascii units] c
    by (cases fits) (auto simp: cu_def ascii_def units_def fits_def checked_def)
  have cell: "cell_of_value (input ! i) = Text (utf8_encode value)" using assms(3) by (simp add: cell_of_value_def)
  have texts: "texts_to input (Suc i) = texts_to input i @ utf8_encode value"
    using texts_to_Suc [OF assms(2)] by (simp add: cell text_of_def)
  have base: "sb_validity s1 = valid_to input (Suc i)" "sb_null_count s1 = null_cells (cells_to input (Suc i))"
    using c assms(2) by (simp_all add: s1_def checked_def valid_to_Suc cells_to_Suc cell null_cells_snoc)
  have slow: "checked input cap (Suc i) (s1\<lparr>sb_copying := False, sb_byte_length := sb_byte_length s + length (utf8_encode value)\<rparr>)"
    if "paired value"
    using that c base len assms(2,3) by (simp add: checked_def s1_def texts checked_values value_ok_def)
  have fast: "checked input cap (Suc i) (s1\<lparr>sb_offset := sb_offset s + length value, sb_byte_length := sb_byte_length s + length value,
              sb_offsets := (sb_offsets s)[i + 1 := sb_offset s + length value]\<rparr>)" if f: "fits" "units = length value"
  proof -
    have cp: "copy_ascii (sb_ascii s) (sb_offset s) value 0 = (ascii, units)" using f(1) by (simp add: cu_def ascii_def units_def)
    have fit: "sb_offset s + 0 + length value \<le> length (sb_ascii s)" using f by (simp add: fits_def)
    have all: "\<forall>c \<in> set value. unat c \<le> 0x7f" using copy_ascii_spec [OF fit cp] f(2) by (auto split: if_splits)
    then have tk: "take (sb_offset s + length value) ascii = take (sb_offset s) (sb_ascii s) @ map ucast value"
      using copy_ascii_spec [OF fit cp] by simp
    have o: "offsets_hold input (Suc i) ((sb_offsets s)[i + 1 := sb_offset s + length value])"
      by (rule offsets_hold_Suc) (use c f assms(2) texts ascii_text(2) [OF all] in \<open>simp_all add: checked_def fits_def\<close>)
    then show ?thesis using c f fit base len tk assms(2,3) ascii_text [OF all] texts
      by (auto simp: checked_def s1_def fits_def checked_values value_ok_def offsets_hold_def)
  qed
  show "string_value_step input i s = Inr s' \<Longrightarrow> checked input cap (Suc i) s'"
    unfolding st using slow fast
    by (auto simp: well_formed_utf8_byte_length_def measure_loop_spec split: if_splits)
  show "paired value \<Longrightarrow> length (texts_to input (Suc i)) \<le> MAX_PHYSICAL_COLUMN_BYTE_LENGTH \<Longrightarrow> \<exists>s'. string_value_step input i s = Inr s'"
    using c unfolding st texts by (auto simp: well_formed_length checked_def is_safe_integer_def MAX_SAFE_INTEGER_def block_limits)
qed

text \<open>Strings: the two loops, whole.\<close>

lemma string_value_cases:
  assumes "string_value_step input i s = Inr s'"
  obtains "input ! i = V_null" | x where "input ! i = V_str x"
  using assms by (cases "input ! i") (auto simp: string_value_step_def)

lemma checked_loop:
  assumes "for_each [0..<length input] (string_value_step input) s0 = Inr s" "checked input cap 0 s0"
  shows "checked input cap (length input) s"
proof (rule for_each_inv [OF assms(1), where I = "checked input cap"])
  fix i s s' assume i: "i < length input" and c: "checked input cap i s" and st: "string_value_step input i s = Inr s'"
  from st show "checked input cap (Suc i) s'"
  proof (rule string_value_cases)
    assume "input ! i = V_null"
    from string_step_null [OF c i this] show ?thesis using st by auto
  next
    fix x assume "input ! i = V_str x"
    from string_step_text(1) [OF c i this st] show ?thesis .
  qed
qed (rule assms(2))

lemma texts_bound: "i \<le> length input \<Longrightarrow> length (texts_to input i) \<le> length (texts_to input (length input))"
proof -
  assume "i \<le> length input"
  then have "cells_to input (length input) = cells_to input i @ map cell_of_value (drop i input)"
    by (simp add: cells_to_def flip: map_append)
  then show ?thesis by (simp add: texts_to_def)
qed

lemma checked_total:
  assumes "\<forall>v \<in> set input. value_ok T_string v" "length (texts_to input (length input)) \<le> MAX_PHYSICAL_COLUMN_BYTE_LENGTH"
    "checked input cap 0 s0"
  shows "\<exists>s. for_each [0..<length input] (string_value_step input) s0 = Inr s \<and> checked input cap (length input) s"
proof (rule for_each_total [where I = "checked input cap", OF assms(3)])
  fix i s assume i: "i < length input" and c: "checked input cap i s"
  have v: "value_ok T_string (input ! i)" using assms(1) i by simp
  have b: "length (texts_to input (Suc i)) \<le> MAX_PHYSICAL_COLUMN_BYTE_LENGTH"
    using texts_bound [of "Suc i" input] i assms(2) by simp
  have "input ! i = V_null \<or> (\<exists>x. input ! i = V_str x \<and> paired x)" using v by (cases "input ! i") (simp_all add: value_ok_def)
  then show "\<exists>s'. string_value_step input i s = Inr s' \<and> checked input cap (Suc i) s'"
    using string_step_null [OF c i] string_step_text [OF c i] b by blast
qed

definition written :: "js_value list \<Rightarrow> nat \<Rightarrow> byte list \<times> nat \<times> nat list \<Rightarrow> bool" where
  "written input i s = (let (content, offset, offsets) = s in
     length content = length (texts_to input (length input)) + 3 \<and> offset = length (texts_to input i)
     \<and> take offset content = texts_to input i \<and> offsets_hold input i offsets)"

lemma exact_loop:
  assumes "\<forall>v \<in> set input. value_ok T_string v" "written input 0 s0"
  shows "\<exists>s. for_each [0..<length input] (exact_step input) s0 = Inr s \<and> written input (length input) s"
proof (rule for_each_total [where I = "written input", OF assms(2)])
  fix i s assume i: "i < length input" and w: "written input i s"
  obtain content offset offsets where s: "s = (content, offset, offsets)" by (cases s)
  have c: "length content = length (texts_to input (length input)) + 3" "offset = length (texts_to input i)"
    "take offset content = texts_to input i" "offsets_hold input i offsets" using w unfolding written_def s by (auto simp: Let_def)
  have b: "length (texts_to input (Suc i)) \<le> length (texts_to input (length input))" using texts_bound [of "Suc i" input] i by simp
  have "value_ok T_string (input ! i)" using assms(1) i by simp
  then have "input ! i = V_null \<or> (\<exists>x. input ! i = V_str x)" by (cases "input ! i") (simp_all add: value_ok_def)
  then show "\<exists>s'. exact_step input i s = Inr s' \<and> written input (Suc i) s'"
  proof (elim disjE exE)
    assume n: "input ! i = V_null"
    then have "texts_to input (Suc i) = texts_to input i" by (simp add: texts_to_Suc [OF i] cell_of_value_def text_of_def)
    then show ?thesis using n c offsets_hold_Suc [OF c(4) i] by (simp add: exact_step_def s written_def)
  next
    fix x assume x: "input ! i = V_str x"
    then have t: "texts_to input (Suc i) = texts_to input i @ utf8_encode x" by (simp add: texts_to_Suc [OF i] cell_of_value_def text_of_def)
    have e: "encode_into x (length content - offset) = (length x, utf8_encode x)"
      by (rule encode_into_fits) (use b c t in simp)
    have "take (offset + length (utf8_encode x)) (set_at content offset (utf8_encode x)) = texts_to input (Suc i)"
      using c b t by (simp add: set_at_def)
    then show ?thesis using x e c b t offsets_hold_Suc [OF c(4) i]
      by (simp add: exact_step_def s written_def)
  qed
qed

lemma offsets_bytes_hold:
  assumes "offsets_hold input (length input) offsets"
  shows "offsets_bytes True offsets = concat (map (\<lambda>k. le_bytes 4 (text_offset (map cell_of_value input) k)) [0..<length input + 1])"
proof -
  have "length (texts_to input k) = text_offset (map cell_of_value input) k" for k
    by (simp add: texts_to_def cells_to_def text_offset_def take_map)
  then have "offsets = map (text_offset (map cell_of_value input)) [0..<length input + 1]"
    using assms by (intro nth_equalityI) (simp_all add: offsets_hold_def del: upt_Suc)
  then show ?thesis by (simp add: offsets_bytes_def uint32_bytes_def comp_def del: upt_Suc)
qed

lemma texts_all: "texts_to input (length input) = concat (map text_of (map cell_of_value input))"
  by (simp add: texts_to_def cells_to_all)

definition string_start :: "js_value list \<Rightarrow> nat \<Rightarrow> string_build" where
  "string_start input cap = \<lparr>sb_validity = replicate (bitmap_length (length input)) 0, sb_offsets = replicate (length input + 1) 0,
     sb_ascii = replicate cap 0, sb_offset = 0, sb_copying = True, sb_byte_length = 0, sb_null_count = 0\<rparr>"

lemma checked_start: "checked input cap 0 (string_start input cap)"
  by (simp add: checked_def string_start_def offsets_hold_def null_cells_def)

definition ascii_capacity :: "js_value list \<Rightarrow> nat" where
  "ascii_capacity input = (let units = sum_list (map value_units input) in if units \<le> MAX_PHYSICAL_COLUMN_BYTE_LENGTH then units else 0)"

lemma encode_string_column_spec:
  assumes "for_each [0..<length input] (string_value_step input) (string_start input (ascii_capacity input)) = Inr s"
    "bitmap_length (length input) + value_length T_string (length input) (length (texts_to input (length input))) \<le> MAX_PHYSICAL_COLUMN_BYTE_LENGTH"
    "length input \<le> MAX_BLOCK_ROW_COUNT"
  defines "cells \<equiv> map cell_of_value input"
  shows "encode_string_column True input = Inr \<lparr>enc_bytes = encode_cells T_string cells, enc_metadata = None, enc_null_count = null_cells cells\<rparr>"
proof -
  have c: "checked input (ascii_capacity input) (length input) s" by (rule checked_loop [OF assms(1) checked_start])
  have ok: "\<forall>v \<in> set input. value_ok T_string v" using c by (simp add: checked_def)
  have bl: "physical_column_byte_length T_string (int (length input)) (int (sb_byte_length s)) =
      Inr (int (bitmap_length (length input) + value_length T_string (length input) (length (texts_to input (length input)))))"
    using byte_length_ok [OF assms(3) _ assms(2)] c by (simp add: checked_def)
  have parts: "sb_validity s = validity_of cells" "sb_null_count s = null_cells cells" "sb_byte_length s = length (texts_to input (length input))"
    using c by (simp_all add: checked_def valid_to_all cells_to_all cells_def)
  have enc: "encode_cells T_string cells = validity_of cells @ concat (map (\<lambda>k. le_bytes 4 (text_offset cells k)) [0..<length input + 1]) @ texts_to input (length input)"
    by (simp add: encode_cells_def payload_of_def texts_all cells_def del: upt_Suc)
  have start: "string_start input (ascii_capacity input) = \<lparr>sb_validity = replicate (bitmap_length (length input)) 0, sb_offsets = replicate (length input + 1) 0,
            sb_ascii = replicate (if sum_list (map value_units input) \<le> MAX_PHYSICAL_COLUMN_BYTE_LENGTH then sum_list (map value_units input) else 0) 0,
            sb_offset = 0, sb_copying = True, sb_byte_length = 0, sb_null_count = 0\<rparr>"
    by (simp add: string_start_def ascii_capacity_def Let_def)
  have unf: "encode_string_column True input =
      (if sb_copying s
       then Inr \<lparr>enc_bytes = sb_validity s @ offsets_bytes True (sb_offsets s) @ take (sb_offset s) (sb_ascii s),
              enc_metadata = None, enc_null_count = sb_null_count s\<rparr>
       else bindR (for_each [0..<length input] (exact_step input) (replicate (sb_byte_length s + 3) 0, 0, sb_offsets s)) (\<lambda>(content, offset, offsets).
         if offset \<noteq> sb_byte_length s then Inl (PlainError ''UTF-8 output sizing mismatch'')
         else Inr \<lparr>enc_bytes = sb_validity s @ offsets_bytes True offsets @ take offset content,
              enc_metadata = None, enc_null_count = sb_null_count s\<rparr>))"
    unfolding encode_string_column_def Let_def start [symmetric] assms(1) bindR_simps bl ..
  show ?thesis
  proof (cases "sb_copying s")
    case True
    then have "offsets_hold input (length input) (sb_offsets s)" "take (sb_offset s) (sb_ascii s) = texts_to input (length input)"
      using c unfolding checked_def by blast+
    then show ?thesis using True offsets_bytes_hold [of input "sb_offsets s"] by (simp add: unf enc [unfolded cells_def] parts cells_def del: upt_Suc)
  next
    case False
    have "written input 0 (replicate (sb_byte_length s + 3) 0, 0, sb_offsets s)"
      using c by (simp add: written_def parts(3) checked_def)
    from exact_loop [OF ok this] obtain content offset offsets
      where e: "for_each [0..<length input] (exact_step input) (replicate (sb_byte_length s + 3) 0, 0, sb_offsets s) = Inr (content, offset, offsets)"
        "written input (length input) (content, offset, offsets)" by auto
    then show ?thesis using False offsets_bytes_hold [of input offsets]
      by (auto simp: unf e(1) enc [unfolded cells_def] parts cells_def written_def simp del: upt_Suc)
  qed
qed

subsection \<open>Encoding, whole\<close>

text \<open>The standard's law of \<open>Date\<close> values: the time value is not a number or already clipped.\<close>

definition js_dates :: "js_value list \<Rightarrow> bool" where
  "js_dates input \<longleftrightarrow> (\<forall>x. V_date x \<in> set input \<longrightarrow> f64_finite x \<longrightarrow> time_clip x = x)"

lemma clipped_ok: "f64_finite x \<Longrightarrow> time_clip x = x \<Longrightarrow> datetime_ok x"
  by (auto simp: time_clip_def f64_finite_def f64_exponent_def NOT_A_NUMBER_def split: if_splits)

lemma value_cell_ok: "value_ok t v \<Longrightarrow> (\<And>x. v = V_date x \<Longrightarrow> f64_finite x \<Longrightarrow> time_clip x = x) \<Longrightarrow> cell_ok t (cell_of_value v)"
  using survives_iff_paired clipped_ok
  by (cases v) (auto simp: value_ok_def cell_of_value_def assert_value_def)

lemma boolean_null_ok: "value_ok t v \<Longrightarrow> cell_of_value v = Null \<longleftrightarrow> v = V_null"
  by (cases v) (simp_all add: value_ok_def cell_of_value_def)

lemma number_state_0: "number_state input 0 = (replicate (bitmap_length (length input)) 0, replicate (8 * length input) 0, 0, POSITIVE_INFINITY, NEGATIVE_INFINITY)"
  by (simp add: number_state_def no_values_def null_cells_def)

lemma boolean_state_0: "boolean_state input 0 = (replicate (bitmap_length (length input)) 0, replicate (bitmap_length (length input)) 0, 0)"
  by (simp add: boolean_state_def null_cells_def)

lemma boolean_state_all: "boolean_state input (length input) =
    (validity_of (map cell_of_value input), payload_of T_boolean (map cell_of_value input), null_cells (map cell_of_value input))"
  by (simp add: boolean_state_def valid_to_all cells_to_all payload_of_def bits_to_all)

lemma number_state_all: "number_state input (length input) = (let z = foldl zone_step no_values (map cell_of_value input) in
    (validity_of (map cell_of_value input), concat (map slot (map cell_of_value input)), null_cells (map cell_of_value input), fst z, snd z))"
  by (simp add: number_state_def valid_to_all cells_to_all)

definition encoded :: "logical_type \<Rightarrow> js_value list \<Rightarrow> encoded_column" where
  "encoded t input = \<lparr>enc_bytes = encode_cells t (map cell_of_value input), enc_metadata = zone_of (map cell_of_value input),
     enc_null_count = null_cells (map cell_of_value input)\<rparr>"

lemma zone_of_values:
  assumes "\<forall>v \<in> set input. value_ok t v" "t = T_boolean \<or> t = T_string"
  shows "zone_of (map cell_of_value input) = None"
proof (rule zone_of_no_floats)
  fix c x assume "c \<in> set (map cell_of_value input)"
  then obtain v where v: "v \<in> set input" "c = cell_of_value v" by auto
  have "value_ok t v" using assms(1) v(1) by blast
  then show "c \<noteq> Float x" using assms(2) v(2) by (cases v) (auto simp: value_ok_def cell_of_value_def)
qed

lemma encode_column_ok:
  assumes "\<forall>v \<in> set input. value_ok t v" "length input \<le> MAX_BLOCK_ROW_COUNT"
    "bitmap_length (length input) + value_length t (length input) (length (texts_to input (length input))) \<le> MAX_PHYSICAL_COLUMN_BYTE_LENGTH"
  shows "encode_column True t input = Inr (encoded t input)"
proof -
  have text0: "t \<noteq> T_string \<Longrightarrow> value_length t n c = value_length t n 0" for n c by (cases t) (simp_all add: value_length_def)
  have "bitmap_length (length input) + value_length t (length input) 0 \<le> MAX_PHYSICAL_COLUMN_BYTE_LENGTH"
    using assms(3) by (cases t) (simp_all add: value_length_def)
  then have bl: "physical_column_byte_length t (int (length input)) 0 = Inr (int (bitmap_length (length input) + value_length t (length input) 0))"
    using byte_length_ok [OF assms(2), of t 0] by simp
  show ?thesis
  proof (cases t)
    case T_boolean
    have k: "\<forall>v \<in> set input. value_ok T_boolean v" using assms(1) T_boolean by simp
    show ?thesis using bl zone_of_values [OF k] boolean_loop(1) [OF k]
      by (simp add: T_boolean encode_column_def Let_def boolean_state_0 boolean_state_all encoded_def encode_cells_def)
  next
    case T_string
    have k: "\<forall>v \<in> set input. value_ok T_string v" using assms(1) T_string by simp
    have "length (texts_to input (length input)) \<le> MAX_PHYSICAL_COLUMN_BYTE_LENGTH"
      using assms(3) T_string by (simp add: value_length_def)
    from checked_total [OF k this checked_start]
    obtain s where "for_each [0..<length input] (string_value_step input) (string_start input (ascii_capacity input)) = Inr s" by blast
    note e = encode_string_column_spec [OF this assms(3) [unfolded T_string] assms(2)]
    show ?thesis using bl e zone_of_values [OF k] by (simp add: T_string encode_column_def Let_def encoded_def)
  next
    case T_number
    have k: "\<forall>v \<in> set input. value_ok T_number v" using assms(1) T_number by simp
    show ?thesis using bl number_loop(1) [of T_number input] k
      by (simp add: T_number encode_column_def Let_def number_state_0 number_state_all encoded_def encode_cells_def payload_of_def zone_of_def)
  next
    case T_datetime
    have k: "\<forall>v \<in> set input. value_ok T_datetime v" using assms(1) T_datetime by simp
    show ?thesis using bl number_loop(1) [of T_datetime input] k
      by (simp add: T_datetime encode_column_def Let_def number_state_0 number_state_all encoded_def encode_cells_def payload_of_def zone_of_def)
  qed
qed

lemma encode_column_Inr:
  assumes "encode_column True t input = Inr e"
  shows "\<forall>v \<in> set input. value_ok t v" "length input \<le> MAX_BLOCK_ROW_COUNT"
    "bitmap_length (length input) + value_length t (length input) (length (texts_to input (length input))) \<le> MAX_PHYSICAL_COLUMN_BYTE_LENGTH"
proof -
  obtain m where m: "physical_column_byte_length t (int (length input)) 0 = Inr m"
    using assms by (auto simp: encode_column_def Let_def bindR_eq_Inr)
  have "physical_column_byte_length t (int (length input)) (int 0) = Inr m" using m by simp
  note b = byte_length_Inr [OF this]
  show "length input \<le> MAX_BLOCK_ROW_COUNT" by (rule b(2))
  have "(\<forall>v \<in> set input. value_ok t v) \<and> bitmap_length (length input) + value_length t (length input) (length (texts_to input (length input))) \<le> MAX_PHYSICAL_COLUMN_BYTE_LENGTH"
  proof (cases "t = T_string")
    case True
    obtain s l where s: "for_each [0..<length input] (string_value_step input) (string_start input (ascii_capacity input)) = Inr s"
      "physical_column_byte_length T_string (int (length input)) (int (sb_byte_length s)) = Inr l"
      using assms True by (auto simp: encode_column_def encode_string_column_def string_start_def ascii_capacity_def Let_def bindR_eq_Inr)
    have c: "checked input (ascii_capacity input) (length input) s" by (rule checked_loop [OF s(1) checked_start])
    then show ?thesis using byte_length_Inr(3) [OF s(2)] True by (simp add: checked_def)
  next
    case False
    then have "\<forall>v \<in> set input. value_ok t v"
      using assms boolean_loop(2) [of input] number_loop(2) [of t input]
      by (cases t) (auto simp: encode_column_def Let_def bindR_eq_Inr boolean_state_0 number_state_0)
    then show ?thesis using b(3) False by (cases t) (simp_all add: value_length_def)
  qed
  then show "\<forall>v \<in> set input. value_ok t v"
    "bitmap_length (length input) + value_length t (length input) (length (texts_to input (length input))) \<le> MAX_PHYSICAL_COLUMN_BYTE_LENGTH"
    by simp_all
qed

lemma encode_column_storable:
  assumes "encode_column True t input = Inr e" "js_dates input"
  shows "e = encoded t input" "storable t (map cell_of_value input)"
proof -
  note i = encode_column_Inr [OF assms(1)]
  show "e = encoded t input" using encode_column_ok [OF i] assms(1) by simp
  have "\<forall>c \<in> set (map cell_of_value input). cell_ok t c"
    using i(1) assms(2) value_cell_ok by (fastforce simp: js_dates_def)
  moreover have "length (encode_cells t (map cell_of_value input)) \<le> MAX_PHYSICAL_COLUMN_BYTE_LENGTH"
    using i(3) by (simp add: column_bytes length_payload texts_all)
  ultimately show "storable t (map cell_of_value input)" using i(2) by (simp add: storable_def)
qed

subsection \<open>Decoding the canonical bytes\<close>

definition strip_bom :: "js_string \<Rightarrow> js_string" where
  "strip_bom s = (case s of c # rest \<Rightarrow> if c = 0xfeff then rest else s | [] \<Rightarrow> [])"

text \<open>The value a stored cell is read as.\<close>

definition value_of_cell :: "logical_type \<Rightarrow> cell \<Rightarrow> js_value" where
  "value_of_cell t c = (case c of
     Null \<Rightarrow> V_null
   | Flag b \<Rightarrow> V_bool b
   | Float x \<Rightarrow> if t = T_datetime then V_date (time_clip x) else V_num x
   | Text b \<Rightarrow> (case utf8_decode False b of Some s \<Rightarrow> V_str s | None \<Rightarrow> V_undefined))"

lemma bom_char: "utf8_char 0xfeff = BOM"
  by (simp add: utf8_char_def BOM_def u8_def)

lemma points_of_bom: "take 3 bytes = BOM \<Longrightarrow> decode_points bytes = map_option ((#) 0xfeff) (decode_points (drop 3 bytes))"
proof -
  assume "take 3 bytes = BOM"
  then have "bytes = utf8_char 0xfeff @ drop 3 bytes" unfolding bom_char by (metis append_take_drop_id)
  moreover have "decode_points (utf8_char 0xfeff @ drop 3 bytes) = map_option ((#) 0xfeff) (decode_points (drop 3 bytes))"
    by (rule decode_char) (simp add: scalar_def)
  ultimately show ?thesis by simp
qed

lemma decodable_without_bom: "utf8_decode True b \<noteq> None \<Longrightarrow> utf8_decode False b \<noteq> None"
  using points_of_bom [of b] by (cases "decode_points (drop 3 b)") (auto simp: utf8_decode_def)

lemma utf16_bom: "utf16 0xfeff = [0xfeff]"
  by (simp add: utf16_def u16_def)

lemma decode_encoded: "paired s \<Longrightarrow> utf8_decode False (utf8_encode s) = Some (strip_bom s)"
proof (cases "take 3 (utf8_encode s) = BOM")
  case True
  assume p: "paired s"
  obtain ps where ps: "decode_points (drop 3 (utf8_encode s)) = Some ps" "code_points s = 0xfeff # ps"
    using points_of_bom [OF True] by (cases "decode_points (drop 3 (utf8_encode s))") (auto simp: decode_encode)
  have "s = concat (map utf16 (code_points s))" using utf16_code_points [OF p] by simp
  also have "\<dots> = 0xfeff # concat (map utf16 ps)" using ps(2) by (simp add: utf16_bom)
  finally show ?thesis using ps True by (simp add: utf8_decode_def strip_bom_def)
next
  case False
  assume p: "paired s"
  have "utf8_encode (0xfeff # rest) = utf8_char 0xfeff @ utf8_encode rest" for rest
    using utf8_encode_unit [of "0xfeff" rest] by (simp add: high_surrogate_def low_surrogate_def)
  then have "take 3 (utf8_encode (0xfeff # rest)) = BOM" for rest by (simp add: bom_char) (simp add: BOM_def)
  then have "strip_bom s = s" using False by (auto simp: strip_bom_def split: list.split)
  then show ?thesis using False p by (simp add: utf8_decode_def decode_encode utf16_code_points)
qed

lemma decode_text_step_state:
  assumes "\<forall>c \<in> set cells. cell_ok T_string c" "length (concat (map text_of cells)) < 256 ^ 4" "i \<le> length cells"
  defines "offsets \<equiv> concat (map (\<lambda>k. le_bytes 4 (text_offset cells k)) [0..<length cells + 1])"
  shows "decode_text_step (validity_of cells) offsets (concat (map text_of cells)) i
      (text_offset cells (i - 1), map (value_of_cell T_string) (take (i - 1) cells))
    = Inr (text_offset cells i, map (value_of_cell T_string) (take i cells))"
proof -
  have o: "get_le 4 offsets (4 * i) = text_offset cells i"
    using offset_read [OF assms(3,2), of "[]"] by (simp add: offsets_def del: upt_Suc)
  have le: "text_offset cells (i - 1) \<le> text_offset cells i" "text_offset cells i \<le> length (concat (map text_of cells))"
    using text_offset_mono [of "i - 1" i cells] text_offset_mono [of i "length cells" cells] assms(3)
    by (simp_all add: text_offset_all)
  show ?thesis
  proof (cases i)
    case 0
    then show ?thesis using o le by (simp add: decode_text_step_def)
  next
    case (Suc j)
    then have j: "j < length cells" using assms(3) by simp
    have ok: "cell_ok T_string (cells ! j)" using assms(1) j nth_mem by blast
    have sl: "slice_of (concat (map text_of cells)) (text_offset cells j) (text_offset cells i) = text_of (cells ! j)"
      using text_slice [OF j] Suc by simp
    from cell_shape(2) [OF ok] show ?thesis
    proof (elim disjE exE conjE)
      assume "cells ! j = Null"
      then show ?thesis using o le Suc j by (simp add: decode_text_step_def has_bit_validity take_Suc_conv_app_nth value_of_cell_def)
    next
      fix b assume b: "cells ! j = Text b" "utf8_decode True b \<noteq> None"
      then obtain s where s: "utf8_decode False b = Some s" using decodable_without_bom by blast
      then show ?thesis using o le Suc j sl b(1)
        by (simp add: decode_text_step_def has_bit_validity take_Suc_conv_app_nth value_of_cell_def decode_text_def text_of_def)
    qed
  qed
qed

lemma decode_texts:
  assumes "\<forall>c \<in> set cells. cell_ok T_string c" "length (concat (map text_of cells)) < 256 ^ 4"
  shows "for_each [0..<length cells + 1] (decode_text_step (validity_of cells)
      (concat (map (\<lambda>k. le_bytes 4 (text_offset cells k)) [0..<length cells + 1])) (concat (map text_of cells))) (0, [])
    = Inr (text_offset cells (length cells), map (value_of_cell T_string) cells)"
proof -
  define h where "h i = (text_offset cells (i - 1), map (value_of_cell T_string) (take (i - 1) cells))" for i
  have "for_each [0..<length cells + 1] (decode_text_step (validity_of cells)
      (concat (map (\<lambda>k. le_bytes 4 (text_offset cells k)) [0..<length cells + 1])) (concat (map text_of cells))) (h 0)
    = Inr (h (length cells + 1))"
    by (rule for_each_upt(1) [where P = "\<lambda>_. True"]) (use decode_text_step_state [OF assms] in \<open>simp_all add: h_def\<close>)
  then show ?thesis by (simp add: h_def del: upt_Suc)
qed

lemma decode_column_of:
  assumes "storable t cells"
  shows "decode_validated_column (column_of t cells) = Inr (map (value_of_cell t) cells)"
proof -
  have ok: "\<forall>c \<in> set cells. cell_ok t c" using assms by (simp add: storable_def)
  have parts: "nat (col_rows (column_of t cells)) = length cells" "col_type (column_of t cells) = t"
    "take (bitmap_length (length cells)) (col_bytes (column_of t cells)) = validity_of cells"
    "drop (bitmap_length (length cells)) (col_bytes (column_of t cells)) = payload_of t cells"
    by (simp_all add: column_of_def encode_parts)
  show ?thesis
  proof (cases "t = T_string")
    case True
    have l: "\<not> length (payload_of T_string cells) < 4 * (length cells + 1)" by (simp add: length_payload value_length_def)
    show ?thesis
      unfolding True unfolding decode_validated_column_def Let_def parts [unfolded True] logical_type.case string_payload_parts if_not_P [OF l]
        decode_texts [OF ok [unfolded True] storable_text [OF assms True]] bindR_simps
      by (simp add: text_offset_all)
  next
    case False
    have d: "decode_validated_column (column_of t cells) = (case t of
        T_boolean \<Rightarrow>
          if length (payload_of t cells) \<noteq> bitmap_length (length cells) then Inl (PlainError ''Invalid boolean payload'')
          else Inr (map (\<lambda>i. if has_bit (validity_of cells) i then V_bool (has_bit (payload_of t cells) i) else V_null) [0..<length cells])
      | _ \<Rightarrow>
          if length (payload_of t cells) \<noteq> 8 * length cells then Inl (PlainError ''Invalid payload'')
          else Inr (map (\<lambda>i. let v = get64 (payload_of t cells) (8 * i) in
            if has_bit (validity_of cells) i then if t = T_datetime then V_date (time_clip v) else V_num v else V_null) [0..<length cells]))"
      using False unfolding decode_validated_column_def Let_def parts by (cases t) simp_all
    have c: "cells_of (column_of t cells) = (case t of T_boolean \<Rightarrow> flag_cells (validity_of cells) (payload_of t cells) (length cells)
        | _ \<Rightarrow> float_cells (validity_of cells) (payload_of t cells) (length cells))"
      using False unfolding cells_of_def Let_def parts by (cases t) simp_all
    have v: "map (value_of_cell t) cells = map (value_of_cell t) (cells_of (column_of t cells))" using cells_of_column [OF assms] by simp
    show ?thesis unfolding v c d
      using False length_payload [of t cells] by (cases t) (simp_all add: flag_cells_def float_cells_def value_of_cell_def value_length_def Let_def)
  qed
qed

subsection \<open>Properties of the column codec\<close>

text \<open>The value that comes back for a value stored.\<close>

definition persisted :: "js_value \<Rightarrow> js_value" where
  "persisted v = (case v of V_str s \<Rightarrow> V_str (strip_bom s) | _ \<Rightarrow> v)"

lemma value_of_cell_persisted:
  assumes "value_ok t v" "\<And>x. v = V_date x \<Longrightarrow> f64_finite x \<Longrightarrow> time_clip x = x"
  shows "value_of_cell t (cell_of_value v) = persisted v"
  using assms decode_encoded by (cases v) (auto simp: value_ok_def cell_of_value_def value_of_cell_def persisted_def)

text \<open>
  Property C32: on a little-endian platform, whatever \<open>encodeColumn\<close> returns is the canonical column of its values, with
  their null count and zone map, and \<open>decodeColumn\<close> gives every value back, except that a string that begins with
  U+FEFF comes back without that code unit. The only hypothesis is the language's law that a
  \<open>Date\<close> holds an integral time value in range.
\<close>

theorem column_roundtrip:
  assumes "encode_column True t input = Inr e" "js_dates input"
  shows "decode_column little_endian t (enc_bytes e) (length input) = Inr (map persisted input)
    \<and> enc_bytes e = encode_cells t (map cell_of_value input)
    \<and> enc_null_count e = null_cells (map cell_of_value input) \<and> enc_metadata e = zone_of (map cell_of_value input)"
proof -
  note s = encode_column_storable [OF assms]
  have col: "\<lparr>col_type = t, col_rows = int (length input), col_bytes = encode_cells t (map cell_of_value input)\<rparr>
      = column_of t (map cell_of_value input)"
    by (simp add: column_of_def)
  obtain v where v: "validate_physical_column little_endian (column_of t (map cell_of_value input)) = Inr v"
    by (rule canonical_is_valid [OF s(2)])
  have p: "map (value_of_cell t) (map cell_of_value input) = map persisted input"
    using encode_column_Inr(1) [OF assms(1)] assms(2) by (auto simp: js_dates_def intro!: value_of_cell_persisted)
  have "decode_column little_endian t (encode_cells t (map cell_of_value input)) (length input) = Inr (map persisted input)"
    unfolding decode_column_def col Let_def v bindR_simps decode_column_of [OF s(2)] p ..
  then show ?thesis by (simp add: s(1) encoded_def)
qed

lemma column_roundtrip_witness:
  "decode_column True T_string (encode_cells T_string [Text (utf8_encode [0xfeff, 0x61]), Null, Text [0x62]]) 3
    = Inr [V_str [0x61], V_null, V_str [0x62]]"
proof -
  let ?input = "[V_str [0xfeff, 0x61], V_null, V_str [0x62]]"
  have e: "utf8_encode [0x62] = [0x62]" "utf8_encode [0xfeff, 0x61] = [0xef, 0xbb, 0xbf, 0x61]"
    by (simp_all add: utf8_encode_def utf8_char_def high_surrogate_def low_surrogate_def u8_def)
  have "\<forall>v \<in> set ?input. value_ok T_string v" by (simp add: value_ok_def high_surrogate_def low_surrogate_def)
  then have "encode_column True T_string ?input = Inr (encoded T_string ?input)"
    by (rule encode_column_ok) (simp_all add: block_limits value_length_def bitmap_length_def texts_all [simplified] cell_of_value_def text_of_def e texts_to_def cells_to_def)
  from column_roundtrip [OF this, of True] show ?thesis
    by (simp add: js_dates_def encoded_def cell_of_value_def persisted_def strip_bom_def e numeral_3_eq_3)
qed

text \<open>
  Property C25: \<open>encodeColumn\<close> refuses only what its type or the format's limits exclude: values of the column's type
  (finite numbers, valid dates, strings without unpaired surrogates) or null, within the row and
  byte limits, are encoded.
\<close>

theorem encode_column_total:
  "(\<exists>e. encode_column True t input = Inr e) \<longleftrightarrow>
     (\<forall>v \<in> set input. value_ok t v) \<and> length input \<le> MAX_BLOCK_ROW_COUNT
     \<and> length (encode_cells t (map cell_of_value input)) \<le> MAX_PHYSICAL_COLUMN_BYTE_LENGTH"
proof -
  have "length (encode_cells t (map cell_of_value input))
      = bitmap_length (length input) + value_length t (length input) (length (texts_to input (length input)))"
    by (simp add: column_bytes length_payload texts_all)
  then show ?thesis using encode_column_Inr [of t input] encode_column_ok [of input t] by auto
qed

lemma encode_column_total_witness:
  "(\<exists>e. encode_column True T_boolean [V_bool True, V_null] = Inr e) \<and> \<not> (\<exists>e. encode_column True T_boolean [V_str []] = Inr e)"
  unfolding encode_column_total
  by (simp add: value_ok_def column_bytes length_payload value_length_def bitmap_length_def block_limits)

lemma le_bytes_4: "le_bytes 4 v = [word_of_nat (v mod 256), word_of_nat (v div 256 mod 256), word_of_nat (v div 256 div 256 mod 256),
    word_of_nat (v div 256 div 256 div 256 mod 256)]"
proof -
  have "(4 :: nat) = Suc (Suc (Suc (Suc 0)))" by simp
  then show ?thesis by (simp only: le_bytes.simps)
qed

lemma big_endian_example:
  "encode_column False T_string [V_str [0x61]] = Inr \<lparr>enc_bytes = [1, 0, 0, 0, 0, 0, 0, 0, 1, 0x61], enc_metadata = None, enc_null_count = 0\<rparr>"
proof -
  have "physical_column_byte_length T_string 1 0 = Inr 9" "physical_column_byte_length T_string 1 1 = Inr 10"
    using byte_length_ok [of 1 T_string 0] byte_length_ok [of 1 T_string 1]
    by (simp_all add: block_limits bitmap_length_def value_length_def)
  then show ?thesis
    by (simp add: encode_column_def encode_string_column_def Let_def string_value_step_def value_units_def block_limits
      put_bit_def bitmap_length_def at0_def offsets_bytes_def uint32_bytes_def le_bytes_4)
qed

text \<open>
  On a big-endian platform \<open>encodeColumn\<close> writes the string offsets in the platform's order, and the
  validator then refuses the column it has written (here a column of the one string of 1 byte).
\<close>

theorem big_endian_strings_refused:
  "\<exists>bytes. encode_column False T_string [V_str [0x61]] = Inr \<lparr>enc_bytes = bytes, enc_metadata = None, enc_null_count = 0\<rparr>
    \<and> (\<exists>err. decode_column False T_string bytes 1 = Inl err)"
proof (rule exI, rule conjI)
  let ?c = "\<lparr>col_type = T_string, col_rows = int 1, col_bytes = [1, 0, 0, 0, 0, 0, 0, 0, 1, 0x61]\<rparr>"
  show "encode_column False T_string [V_str [0x61]] = Inr \<lparr>enc_bytes = [1, 0, 0, 0, 0, 0, 0, 0, 1, 0x61], enc_metadata = None, enc_null_count = 0\<rparr>"
    by (rule big_endian_example)
  have "\<nexists>v. validate_physical_column False ?c = Inr v"
  proof
    assume "\<exists>v. validate_physical_column False ?c = Inr v"
    then have s: "storable T_string (cells_of ?c)" "?c = column_of T_string (cells_of ?c)" using valid_is_canonical [of False ?c] by auto
    have "cells_of ?c = [Text []] \<or> cells_of ?c = [Text [0x61]] "
      by (simp add: cells_of_def text_cells_def bitmap_length_def has_bit_def at0_def slice_of_def get_le_def)
    then show False using s(2) by (auto simp: column_of_def encode_cells_def payload_of_def text_offset_def text_of_def le_bytes_4)
  qed
  then show "\<exists>err. decode_column False T_string [1, 0, 0, 0, 0, 0, 0, 0, 1, 0x61] 1 = Inl err"
    by (cases "validate_physical_column False ?c") (auto simp: decode_column_def Let_def)
qed

end
