(* ===== verification/BlockCodec.thy ===== *)
theory BlockCodec
  imports Column
begin

text \<open>
  \<open>block-format/codecs.ts\<close> and the encoding and decoding of whole blocks in \<open>block-format/block.ts\<close>. The platform's
  compression streams are parameters: a stream maps its input to the chunks its readable side
  delivers, the error that ends reading early if there is one, and the outcome of the writing side.
  The JSON text of block metadata is a parameter too (\<open>stringify\<close> and the canonical parser \<open>parse_meta\<close>).
\<close>

type_synonym stream = "byte list \<Rightarrow> (byte list list \<times> js_error option) \<times> unit result"

definition OUTPUT_LIMIT_ERROR :: js_error where
  "OUTPUT_LIMIT_ERROR = RangeError ''Compressed payload exceeds caller output ceiling''"

subsection \<open>Bounds\<close>

record memory_bound =
  maximum_output_bytes :: int
  scratch_bytes :: int

definition codec_name :: "compression \<Rightarrow> string" where
  "codec_name c = (case c of Raw \<Rightarrow> ''raw'' | Gzip \<Rightarrow> ''gzip'')"

definition assert_input_length :: "int \<Rightarrow> compression \<Rightarrow> unit result" where
  "assert_input_length n codec = guardR (is_safe_integer n \<and> 0 \<le> n) (RangeError (''Invalid '' @ codec_name codec @ '' input length''))"

definition checked_linear_bound :: "int \<Rightarrow> int \<Rightarrow> int \<Rightarrow> compression \<Rightarrow> int result" where
  "checked_linear_bound n multiplier overhead codec =
     bindR (assert_input_length n codec) (\<lambda>_.
       if (MAX_SAFE_INTEGER - overhead) div multiplier < n then Inl (RangeError (''Invalid '' @ codec_name codec @ '' input length''))
       else Inr (n * multiplier + overhead))"

definition get_compression_memory_bound :: "compression \<Rightarrow> int \<Rightarrow> memory_bound result" where
  "get_compression_memory_bound c n = (case c of
     Raw \<Rightarrow> bindR (assert_input_length n c) (\<lambda>_. Inr \<lparr>maximum_output_bytes = n, scratch_bytes = 0\<rparr>)
   | Gzip \<Rightarrow> bindR (checked_linear_bound n 5 128 c) (\<lambda>_.
       bindR (checked_linear_bound n 2 64 c) (\<lambda>out. Inr \<lparr>maximum_output_bytes = out, scratch_bytes = n + out\<rparr>)))"

definition assert_caller_output_length :: "int \<Rightarrow> unit result" where
  "assert_caller_output_length n = guardR (is_safe_integer n \<and> 0 \<le> n) (RangeError ''Invalid compression output ceiling'')"

subsection \<open>Reading a stream to its end\<close>

text \<open>The loop of \<open>readBounded\<close>: the chunks kept, in order, and their total length.\<close>

fun read_chunks :: "int \<Rightarrow> js_error \<Rightarrow> byte list list \<Rightarrow> js_error option \<Rightarrow> byte list list \<Rightarrow> int \<Rightarrow> (byte list list \<times> int) result" where
  "read_chunks limit e [] fin kept total_length = (case fin of Some err \<Rightarrow> Inl err | None \<Rightarrow> Inr (kept, total_length))"
| "read_chunks limit e (chunk # rest) fin kept total_length =
     (let n = total_length + int (length chunk) in
      if limit < n then Inl e else read_chunks limit e rest fin (kept @ [chunk]) n)"

definition read_bounded :: "byte list list \<times> js_error option \<Rightarrow> int \<Rightarrow> js_error \<Rightarrow> byte list result" where
  "read_bounded readable limit e =
     bindR (read_chunks limit e (fst readable) (snd readable) [] 0) (\<lambda>(kept, total_length).
       Inr (fst (foldl (\<lambda>(out, at) chunk. (set_at out at chunk, at + length chunk)) (replicate (nat total_length) 0, 0) kept)))"

definition transform :: "byte list \<Rightarrow> stream \<Rightarrow> int \<Rightarrow> js_error \<Rightarrow> byte list result" where
  "transform bytes stream limit e =
     (case read_bounded (fst (stream bytes)) limit e of
        Inl err \<Rightarrow> Inl err
      | Inr out \<Rightarrow> bindR (snd (stream bytes)) (\<lambda>_. Inr out))"

subsection \<open>The codecs\<close>

definition raw_compress :: "byte list \<Rightarrow> int option \<Rightarrow> byte list result" where
  "raw_compress bytes limit = (case limit of
     None \<Rightarrow> Inr bytes
   | Some n \<Rightarrow> bindR (assert_caller_output_length n) (\<lambda>_.
       if n < int (length bytes) then Inl OUTPUT_LIMIT_ERROR else Inr bytes))"

definition raw_decompress :: "byte list \<Rightarrow> int \<Rightarrow> byte list result" where
  "raw_decompress bytes expected =
     (if int (length bytes) \<noteq> expected then Inl (PlainError ''Raw payload length mismatch'') else Inr bytes)"

definition gzip_compress :: "stream \<Rightarrow> byte list \<Rightarrow> int option \<Rightarrow> byte list result" where
  "gzip_compress deflate bytes limit =
     bindR (get_compression_memory_bound Gzip (int (length bytes))) (\<lambda>b.
     bindR (case limit of None \<Rightarrow> Inr () | Some n \<Rightarrow> assert_caller_output_length n) (\<lambda>_.
       let output_limit = min (maximum_output_bytes b) (case limit of None \<Rightarrow> maximum_output_bytes b | Some n \<Rightarrow> n);
           caller_limited = output_limit < maximum_output_bytes b
       in transform bytes deflate output_limit
            (if caller_limited then OUTPUT_LIMIT_ERROR else PlainError ''Gzip payload exceeds compression bound'')))"

definition gzip_decompress :: "stream \<Rightarrow> byte list \<Rightarrow> int \<Rightarrow> byte list result" where
  "gzip_decompress inflate bytes expected =
     bindR (transform bytes inflate expected (PlainError ''Decompressed payload exceeds declared length'')) (\<lambda>out.
       if int (length out) \<noteq> expected then Inl (PlainError ''Gzip payload length mismatch'') else Inr out)"

definition codec_decompress :: "stream \<Rightarrow> compression \<Rightarrow> byte list \<Rightarrow> int \<Rightarrow> byte list result" where
  "codec_decompress inflate c bytes expected = (case c of
     Raw \<Rightarrow> raw_decompress bytes expected | Gzip \<Rightarrow> gzip_decompress inflate bytes expected)"

subsection \<open>Encoding and decoding blocks\<close>

text \<open>The compression step of \<open>encodeValidatedPhysicalBlock\<close>, with its \<open>catch\<close>.\<close>

definition compress_payload :: "stream \<Rightarrow> byte list \<Rightarrow> byte list result" where
  "compress_payload deflate bytes =
     (case gzip_compress deflate bytes (Some (int MAX_PHYSICAL_COLUMN_BYTE_LENGTH)) of
        Inl err \<Rightarrow> if err = OUTPUT_LIMIT_ERROR then Inl (RangeError ''Stored block payload exceeds maximum byte length'') else Inl err
      | Inr out \<Rightarrow> Inr out)"

definition encode_block ::
  "stream \<Rightarrow> (zone_map \<Rightarrow> byte list) \<Rightarrow> bool \<Rightarrow> logical_type \<Rightarrow> js_value list \<Rightarrow> compression \<Rightarrow> byte list result" where
  "encode_block deflate stringify little_endian t input c =
     bindR (assert_block_row_count (length input)) (\<lambda>_.
     bindR (encode_column little_endian t input) (\<lambda>e.
       encode_validated_physical_block (compress_payload deflate)
         \<lparr>in_type = t, in_row_count = length input, in_null_count = enc_null_count e, in_payload = enc_bytes e,
          in_metadata_bytes = stringify (enc_metadata e), in_metadata = enc_metadata e\<rparr> c))"

definition encode_physical_block ::
  "stream \<Rightarrow> (zone_map \<Rightarrow> byte list) \<Rightarrow> bool \<Rightarrow> phys_column \<Rightarrow> compression \<Rightarrow> byte list result" where
  "encode_physical_block deflate stringify little_endian col c =
     bindR (validate_physical_column little_endian col) (\<lambda>v.
       encode_validated_physical_block (compress_payload deflate)
         \<lparr>in_type = col_type col, in_row_count = nat (col_rows col), in_null_count = val_null_count v, in_payload = col_bytes col,
          in_metadata_bytes = stringify (val_metadata v), in_metadata = val_metadata v\<rparr> c)"

text \<open>A finite number's JSON has one spelling, so a zone map that is not canonical is one the parser refuses or changes.\<close>

definition encode_canonical_metadata ::
  "(zone_map \<Rightarrow> byte list) \<Rightarrow> (byte list \<Rightarrow> zone_map option) \<Rightarrow> zone_map \<Rightarrow> byte list result" where
  "encode_canonical_metadata stringify parse_meta m =
     (case parse_meta (stringify m) of
        None \<Rightarrow> Inl (TypeError ''Block metadata must match the supported canonical shape'')
      | Some canonical \<Rightarrow>
          if stringify canonical \<noteq> stringify m then Inl (TypeError ''Block metadata must match the supported canonical shape'')
          else Inr (stringify m))"

definition maximum_physical_block_byte_length ::
  "(zone_map \<Rightarrow> byte list) \<Rightarrow> (byte list \<Rightarrow> zone_map option) \<Rightarrow> nat \<Rightarrow> zone_map \<Rightarrow> compression \<Rightarrow> int result" where
  "maximum_physical_block_byte_length stringify parse_meta encoded_byte_length m c =
     bindR (assert_length encoded_byte_length) (\<lambda>_.
     bindR (encode_canonical_metadata stringify parse_meta m) (\<lambda>metadata.
     bindR (assert_metadata_length (length metadata)) (\<lambda>_.
     bindR (get_compression_memory_bound c (int encoded_byte_length)) (\<lambda>bound.
       let n = int BLOCK_HEADER_LENGTH + int (length metadata) + maximum_output_bytes bound in
       if \<not> is_safe_integer n then Inl (RangeError ''Stored block byte bound exceeds the safe integer range'') else Inr n))))"

definition validate_decoded_physical_block :: "bool \<Rightarrow> byte list \<Rightarrow> zone_map description \<Rightarrow> phys_column result" where
  "validate_decoded_physical_block little_endian bytes d =
     (let c = \<lparr>col_type = block_type d, col_rows = int (row_count d), col_bytes = bytes\<rparr> in
      bindR (validate_physical_column little_endian c) (\<lambda>v.
        if val_null_count v \<noteq> null_count d then Inl (PlainError ''Block null count mismatch'')
        else if \<not> metadata_equals (val_metadata v) (block_metadata d)
          then Inl (PlainError ''Block metadata does not match physical payload'')
        else Inr c))"

definition decode_verified_physical_block :: "stream \<Rightarrow> bool \<Rightarrow> byte list \<Rightarrow> zone_map description \<Rightarrow> phys_column result" where
  "decode_verified_physical_block inflate little_endian bytes d =
     bindR (codec_decompress inflate (block_compression d) (drop (BLOCK_HEADER_LENGTH + metadata_length d) bytes) (int (encoded_length d))) (\<lambda>out.
       if block_compression d \<noteq> Raw \<and> crc32 out \<noteq> checksum d then Inl (PlainError ''Block logical checksum mismatch'')
       else validate_decoded_physical_block little_endian out d)"

definition decode_physical_block ::
  "stream \<Rightarrow> (byte list \<Rightarrow> zone_map option) \<Rightarrow> bool \<Rightarrow> byte list \<Rightarrow> (zone_map description \<times> phys_column) result" where
  "decode_physical_block inflate parse_meta little_endian bytes =
     bindR (verify_stored_block parse_meta bytes) (\<lambda>d.
     bindR (if block_compression d = Raw
            then validate_decoded_physical_block little_endian (drop (BLOCK_HEADER_LENGTH + metadata_length d) bytes) d
            else decode_verified_physical_block inflate little_endian bytes d) (\<lambda>c. Inr (d, c)))"

definition decode_block ::
  "stream \<Rightarrow> (byte list \<Rightarrow> zone_map option) \<Rightarrow> bool \<Rightarrow> byte list \<Rightarrow> (zone_map description \<times> js_value list) result" where
  "decode_block inflate parse_meta little_endian bytes =
     bindR (decode_physical_block inflate parse_meta little_endian bytes) (\<lambda>(d, c).
     bindR (decode_validated_column c) (\<lambda>values. Inr (d, values)))"

subsection \<open>Reading is bounded and complete\<close>

lemma read_chunks_spec:
  "read_chunks limit e chunks fin kept n = Inr r \<Longrightarrow> n = int (length (concat kept)) \<Longrightarrow>
     r = (kept @ chunks, int (length (concat (kept @ chunks)))) \<and> fin = None \<and> (chunks = [] \<or> int (length (concat (kept @ chunks))) \<le> limit)"
proof (induction limit e chunks fin kept n rule: read_chunks.induct)
  case (1 limit e fin kept n)
  then show ?case by (auto split: option.splits)
next
  case (2 limit e chunk rest fin kept n)
  let ?n = "n + int (length chunk)"
  have l: "\<not> limit < ?n" "read_chunks limit e rest fin (kept @ [chunk]) ?n = Inr r" using 2(2) by (auto simp: Let_def split: if_splits)
  have n: "?n = int (length (concat (kept @ [chunk])))" using 2(3) by simp
  from 2(1) [OF refl l(1) l(2) n] show ?case using l(1) n by auto
qed

lemma read_chunks_ok:
  "int (length (concat (kept @ chunks))) \<le> limit \<Longrightarrow> n = int (length (concat kept)) \<Longrightarrow>
    read_chunks limit e chunks None kept n = Inr (kept @ chunks, int (length (concat (kept @ chunks))))"
proof (induction chunks arbitrary: kept n)
  case (Cons c chunks)
  have "int (length (concat ((kept @ [c]) @ chunks))) \<le> limit" using Cons.prems(1) by simp
  from Cons.IH [OF this refl] Cons.prems show ?case by (simp add: Let_def)
qed simp

lemma join_chunks:
  fixes chunks :: "byte list list"
  shows "fst (foldl (\<lambda>(out, at) chunk. (set_at out at chunk, at + length chunk)) (replicate (length (concat chunks)) 0, 0) chunks) = concat chunks"
proof -
  have "foldl (\<lambda>(out, at) chunk. (set_at out at chunk, at + length chunk)) (replicate (length (concat chunks)) 0, 0) chunks
      = fill ([] @ replicate (length (concat chunks)) 0) (length ([] :: byte list)) chunks"
    by (simp add: fill_def)
  then show ?thesis unfolding fill_spec by simp
qed

lemma read_bounded_ok: "int (length (concat chunks)) \<le> limit \<Longrightarrow> read_bounded (chunks, None) limit e = Inr (concat chunks)"
  using read_chunks_ok [of "[]" chunks limit 0 e] join_chunks [of chunks] by (simp add: read_bounded_def)

lemma read_bounded_Inr:
  assumes "read_bounded (chunks, fin) limit e = Inr out"
  shows "out = concat chunks \<and> fin = None \<and> (chunks = [] \<or> int (length out) \<le> limit)"
proof -
  obtain r where r: "read_chunks limit e chunks fin [] 0 = Inr r" using assms by (auto simp: read_bounded_def bindR_eq_Inr)
  show ?thesis using assms read_chunks_spec [OF r] join_chunks [of chunks] r by (auto simp: read_bounded_def)
qed

text \<open>
  The laws of the gzip streams: the writing side accepts any input, and inflating what deflating delivered, whole,
  delivers the input again, each side ending without an error.
\<close>

definition delivers :: "stream \<Rightarrow> byte list \<Rightarrow> byte list \<Rightarrow> bool" where
  "delivers stream input output \<longleftrightarrow> (\<exists>chunks. stream input = ((chunks, None), Inr ()) \<and> concat chunks = output)"

definition gzip_streams :: "stream \<Rightarrow> stream \<Rightarrow> bool" where
  "gzip_streams deflate inflate \<longleftrightarrow> (\<forall>bytes. \<exists>packed. delivers deflate bytes packed \<and> delivers inflate packed bytes)"

lemma transform_delivers: "delivers stream input output \<Longrightarrow> int (length output) \<le> limit \<Longrightarrow> transform input stream limit e = Inr output"
  using read_bounded_ok by (auto simp: delivers_def transform_def)

lemma transform_Inr: "delivers stream input output \<Longrightarrow> transform input stream limit e = Inr out \<Longrightarrow> out = output"
  using read_bounded_Inr by (fastforce simp: delivers_def transform_def split: sum.splits)

lemma gzip_roundtrip:
  assumes "gzip_streams deflate inflate" "gzip_compress deflate bytes limit = Inr packed"
  shows "gzip_decompress inflate packed (int (length bytes)) = Inr bytes"
proof -
  obtain p where p: "delivers deflate bytes p" "delivers inflate p bytes" using assms(1) by (auto simp: gzip_streams_def)
  have "\<exists>l e. transform bytes deflate l e = Inr packed"
    using assms(2) by (auto simp: gzip_compress_def bindR_eq_Inr Let_def)
  then have "packed = p" using transform_Inr [OF p(1)] by blast
  then show ?thesis using transform_delivers [OF p(2), of "int (length bytes)"] by (simp add: gzip_decompress_def)
qed

subsection \<open>Zone maps of finite numbers\<close>

definition finite_zone :: "zone_map \<Rightarrow> bool" where
  "finite_zone z = (case z of None \<Rightarrow> True
     | Some (mn, mx) \<Rightarrow> f64_finite mn \<and> f64_finite mx \<and> \<not> f64_less mx mn)"

lemma zone_step_finite:
  assumes "z = no_values \<or> (f64_finite (fst z) \<and> f64_finite (snd z) \<and> f64_scaled (fst z) \<le> f64_scaled (snd z))"
    "\<And>v. c = Float v \<Longrightarrow> f64_finite v"
  shows "zone_step z c = no_values \<or> (f64_finite (fst (zone_step z c)) \<and> f64_finite (snd (zone_step z c))
      \<and> f64_scaled (fst (zone_step z c)) \<le> f64_scaled (snd (zone_step z c)))"
proof (cases "\<exists>v. c = Float v")
  case True
  then obtain v where v: "c = Float v" "f64_finite v" using assms(2) by blast
  show ?thesis
  proof (cases "z = no_values")
    case True
    have "f64_min POSITIVE_INFINITY v = v" "f64_max NEGATIVE_INFINITY v = v"
      using below_infinity [OF v(2)] above_infinity [OF v(2)] by (simp_all add: f64_min_def f64_max_def f64_less_def)
    then show ?thesis using v True by (simp add: zone_step_def no_values_def)
  next
    case False
    then have z: "f64_finite (fst z)" "f64_finite (snd z)" "f64_scaled (fst z) \<le> f64_scaled (snd z)" using assms(1) by simp_all
    have "f64_finite (f64_min (fst z) v)" "f64_finite (f64_max (snd z) v)" using z v by (simp_all add: f64_min_def f64_max_def)
    moreover have "f64_scaled (f64_min (fst z) v) \<le> f64_scaled (f64_max (snd z) v)"
      using z v by (simp add: scaled_min scaled_max min_le_iff_disj le_max_iff_disj)
    ultimately show ?thesis using v by (simp add: zone_step_def)
  qed
next
  case False
  then have "zone_step z c = z" by (auto simp: zone_step_def split: cell.split)
  then show ?thesis using assms(1) by simp
qed

lemma zone_of_finite:
  assumes "\<forall>c \<in> set cells. cell_ok t c"
  shows "finite_zone (zone_of cells)"
proof -
  have "z = no_values \<or> (f64_finite (fst z) \<and> f64_finite (snd z) \<and> f64_scaled (fst z) \<le> f64_scaled (snd z)) \<Longrightarrow>
      (let z = foldl zone_step z cells in z = no_values \<or> (f64_finite (fst z) \<and> f64_finite (snd z) \<and> f64_scaled (fst z) \<le> f64_scaled (snd z)))" for z
    using assms
  proof (induction cells arbitrary: z)
    case (Cons c cells)
    have "\<And>v. c = Float v \<Longrightarrow> f64_finite v" using Cons.prems(2) by (auto simp: assert_value_def split: if_splits)
    then show ?case using Cons zone_step_finite [of z c] by simp
  qed simp
  from this [of no_values] show ?thesis
    by (auto simp: zone_of_def zone_map_metadata_def finite_zone_def Let_def no_values_def f64_equal_def f64_less_def split: prod.splits)
qed

text \<open>
  The law of the metadata text: the JSON of a zone map of finite numbers, in order, is parsed back to
  an equal one (the sign of zero is lost).
\<close>

definition json_metadata :: "(zone_map \<Rightarrow> byte list) \<Rightarrow> (byte list \<Rightarrow> zone_map option) \<Rightarrow> bool" where
  "json_metadata stringify parse_meta \<longleftrightarrow>
     (\<forall>z. finite_zone z \<longrightarrow> (\<exists>z'. parse_meta (stringify z) = Some z' \<and> metadata_equals z z'))"

subsection \<open>A whole block\<close>

lemma metadata_equals_trans: "metadata_equals a b \<Longrightarrow> metadata_equals b c \<Longrightarrow> metadata_equals a c"
  by (auto simp: metadata_equals_def f64_equal_def split: option.splits)

lemma metadata_equals_sym: "metadata_equals a b \<Longrightarrow> metadata_equals b a"
  by (auto simp: metadata_equals_def f64_equal_def split: option.splits)

lemma envelope_metadata: "envelope_bytes (d\<lparr>block_metadata := z\<rparr>) metadata stored = envelope_bytes d metadata stored"
  by (simp add: envelope_bytes_def header_fields_bytes_def)

lemma encode_validated_Inr:
  assumes "encode_validated_physical_block compress i c = Inr bytes"
  shows "\<exists>stored. (if c = Raw then Inr (in_payload i) else compress (in_payload i)) = Inr stored
    \<and> assert_metadata_length (length (in_metadata_bytes i)) = Inr () \<and> assert_length (length (in_payload i)) = Inr ()
    \<and> assert_stored_block_payload_byte_length (length stored) = Inr ()
    \<and> bytes = write_block_envelope (replicate (BLOCK_HEADER_LENGTH + length (in_metadata_bytes i) + length stored) 0) 0
       ((raw_description i)\<lparr>block_compression := c, stored_checksum := if c = Raw then crc32 (in_payload i) else crc32 stored\<rparr>)
       (in_metadata_bytes i) stored"
  using assms unfolding encode_validated_physical_block_def
  by (auto simp: bindR_eq_Inr Let_def)

text \<open>What the encoder writes: an envelope whose stored payload the codec turns back into the column.\<close>

lemma encode_block_envelope:
  assumes "encode_block deflate stringify True t input c = Inr bytes" "js_dates input" "gzip_streams deflate inflate"
  defines "cells \<equiv> map cell_of_value input"
  obtains d :: "zone_map description" and stored where "bytes = envelope_bytes d (stringify (zone_of cells)) stored" "sized d (stringify (zone_of cells)) stored"
    "block_type d = t" "block_compression d = c" "row_count d = length input" "null_count d = null_cells cells"
    "checksum d = crc32 (encode_cells t cells)" "stored_checksum d = crc32 stored" "encoded_length d = length (encode_cells t cells)"
    "codec_decompress inflate c stored (int (length (encode_cells t cells))) = Inr (encode_cells t cells)" "c = Raw \<longrightarrow> stored = encode_cells t cells"
    "storable t cells"
proof -
  obtain e where e: "assert_block_row_count (length input) = Inr ()" "encode_column True t input = Inr e"
    "encode_validated_physical_block (compress_payload deflate)
       \<lparr>in_type = t, in_row_count = length input, in_null_count = enc_null_count e, in_payload = enc_bytes e,
        in_metadata_bytes = stringify (enc_metadata e), in_metadata = enc_metadata e\<rparr> c = Inr bytes"
    using assms(1) by (auto simp: encode_block_def bindR_eq_Inr)
  note s = encode_column_storable [OF e(2) assms(2)]
  have enc: "e = \<lparr>enc_bytes = encode_cells t cells, enc_metadata = zone_of cells, enc_null_count = null_cells cells\<rparr>"
    using s(1) by (simp add: encoded_def cells_def)
  let ?m = "stringify (zone_of cells)" and ?p = "encode_cells t cells"
  define i where "i = \<lparr>in_type = t, in_row_count = length input, in_null_count = null_cells cells, in_payload = ?p,
        in_metadata_bytes = ?m, in_metadata = zone_of cells\<rparr>"
  have ienc: "encode_validated_physical_block (compress_payload deflate) i c = Inr bytes"
    using e(3) by (simp add: i_def enc)
  have i: "in_payload i = ?p" "in_metadata_bytes i = ?m" by (simp_all add: i_def)
  obtain stored where st: "(if c = Raw then Inr ?p else compress_payload deflate ?p) = Inr stored"
    "assert_metadata_length (length ?m) = Inr ()" "assert_length (length ?p) = Inr ()" "assert_stored_block_payload_byte_length (length stored) = Inr ()"
    "bytes = write_block_envelope (replicate (BLOCK_HEADER_LENGTH + length ?m + length stored) 0) 0
       ((raw_description i)\<lparr>block_compression := c, stored_checksum := if c = Raw then crc32 ?p else crc32 stored\<rparr>) ?m stored"
    using encode_validated_Inr [OF ienc] unfolding i by blast
  define d where "d = (raw_description i)\<lparr>block_compression := c, stored_checksum := crc32 stored, stored_length := length stored\<rparr>"
  have raw: "c = Raw \<Longrightarrow> stored = ?p" using st(1) by simp
  have dd: "((raw_description i)\<lparr>block_compression := c, stored_checksum := if c = Raw then crc32 ?p else crc32 stored\<rparr>)
      \<lparr>metadata_length := length ?m, stored_length := length stored\<rparr> = d"
    using raw by (auto simp: d_def raw_description_def i_def)
  have b: "bytes = envelope_bytes d ?m stored"
    unfolding st(5) write_block_envelope_def dd by (rule set_at_whole) simp
  have nulls: "null_cells cells \<le> length input" by (simp add: null_cells_def cells_def)
  have sz: "sized d ?m stored" using st(2-4) e(1) nulls
    by (simp add: sized_def d_def raw_description_def i_def assert_metadata_length_def assert_length_def
      assert_stored_block_payload_byte_length_def assert_block_row_count_def)
  have "codec_decompress inflate c stored (int (length ?p)) = Inr ?p"
  proof (cases c)
    case Raw
    then show ?thesis using raw by (simp add: codec_decompress_def raw_decompress_def)
  next
    case Gzip
    then have "\<exists>l. gzip_compress deflate ?p l = Inr stored" using st(1) by (auto simp: compress_payload_def split: sum.splits if_splits)
    then show ?thesis using gzip_roundtrip [OF assms(3)] Gzip by (auto simp: codec_decompress_def)
  qed
  then show ?thesis using that [OF b sz] raw s(2) by (simp add: d_def raw_description_def i_def cells_def)
qed

lemma transform_bounded:
  assumes "transform bytes stream limit e = Inr out" "0 \<le> limit"
  shows "int (length out) \<le> limit"
proof -
  obtain chunks fin where s: "fst (stream bytes) = (chunks, fin)" by (cases "fst (stream bytes)")
  then have "read_bounded (chunks, fin) limit e = Inr out" using assms(1) by (auto simp: transform_def bindR_eq_Inr split: sum.splits)
  then show ?thesis using read_bounded_Inr assms(2) by fastforce
qed

lemma compress_payload_bounded:
  assumes "compress_payload deflate bytes = Inr stored" "get_compression_memory_bound Gzip (int (length bytes)) = Inr b"
  shows "int (length stored) \<le> maximum_output_bytes b"
proof -
  have "0 \<le> maximum_output_bytes b" using assms(2)
    by (auto simp: get_compression_memory_bound_def checked_linear_bound_def bindR_eq_Inr split: if_splits)
  moreover have "\<exists>e. transform bytes deflate (min (maximum_output_bytes b) (int MAX_PHYSICAL_COLUMN_BYTE_LENGTH)) e = Inr stored"
    using assms by (auto simp: compress_payload_def gzip_compress_def bindR_eq_Inr Let_def split: sum.splits if_splits)
  ultimately show ?thesis using transform_bounded by fastforce
qed

text \<open>
  A block that \<open>encodePhysicalBlock\<close> stores, under any compression stream at all, is no longer than the bound
  \<open>maximumPhysicalBlockByteLength\<close> gives for its payload and metadata.
\<close>

theorem stored_block_bounded:
  assumes "encode_physical_block deflate stringify little_endian col c = Inr bytes"
    "validate_physical_column little_endian col = Inr v"
    "maximum_physical_block_byte_length stringify parse_meta (length (col_bytes col)) (val_metadata v) c = Inr n"
  shows "int (length bytes) \<le> n"
proof -
  define i where "i = \<lparr>in_type = col_type col, in_row_count = nat (col_rows col), in_null_count = val_null_count v,
    in_payload = col_bytes col, in_metadata_bytes = stringify (val_metadata v), in_metadata = val_metadata v\<rparr>"
  have i: "in_payload i = col_bytes col" "in_metadata_bytes i = stringify (val_metadata v)" by (simp_all add: i_def)
  have "encode_validated_physical_block (compress_payload deflate) i c = Inr bytes"
    using assms(1,2) by (simp add: encode_physical_block_def i_def)
  from encode_validated_Inr [OF this] obtain stored where
    s: "(if c = Raw then Inr (col_bytes col) else compress_payload deflate (col_bytes col)) = Inr stored"
    and len: "length bytes = BLOCK_HEADER_LENGTH + length (stringify (val_metadata v)) + length stored"
    unfolding i by (auto simp: write_block_envelope_def)
  obtain b where b: "get_compression_memory_bound c (int (length (col_bytes col))) = Inr b"
    and n: "n = int BLOCK_HEADER_LENGTH + int (length (stringify (val_metadata v))) + maximum_output_bytes b"
    using assms(3) by (auto simp: maximum_physical_block_byte_length_def encode_canonical_metadata_def bindR_eq_Inr Let_def
      split: if_splits option.splits)
  have "int (length stored) \<le> maximum_output_bytes b"
  proof (cases c)
    case Raw
    then show ?thesis using s b by (auto simp: get_compression_memory_bound_def bindR_eq_Inr)
  next
    case Gzip
    then show ?thesis using s b compress_payload_bounded by simp
  qed
  then show ?thesis using len n by simp
qed

lemma validate_decoded_ok:
  assumes "storable t cells" "block_type d = t" "row_count d = length cells" "null_count d = null_cells cells"
    "metadata_equals (zone_of cells) (block_metadata d)"
  shows "validate_decoded_physical_block little_endian (encode_cells t cells) d = Inr (column_of t cells)"
proof -
  obtain v where v: "validate_physical_column little_endian (column_of t cells) = Inr v" by (rule canonical_is_valid [OF assms(1)])
  have col: "\<lparr>col_type = t, col_rows = int (length cells), col_bytes = encode_cells t cells\<rparr> = column_of t cells"
    by (simp add: column_of_def)
  note c = valid_is_canonical(3,4) [OF v]
  have "val_null_count v = null_cells cells" "metadata_equals (val_metadata v) (zone_of cells)"
    using c cells_of_column [OF assms(1)] by simp_all
  then have "val_null_count v = null_count d" "metadata_equals (val_metadata v) (block_metadata d)"
    using assms(4,5) metadata_equals_trans by simp_all
  then show ?thesis unfolding validate_decoded_physical_block_def assms(2,3) col Let_def v bindR_simps by simp
qed

text \<open>Only the string encoder looks at the byte order of the platform.\<close>

lemma encode_block_host: "host \<or> t \<noteq> T_string \<Longrightarrow> encode_block deflate stringify host t input c = encode_block deflate stringify True t input c"
  by (cases host; cases t) (simp_all add: encode_block_def encode_column_def)

text \<open>
  Property C33: a block written by \<open>encodeBlock\<close>, raw or gzip, is decoded by \<open>decodeBlock\<close> on any platform, with the type, row count,
  null count and zone map of its values, to those values \<open>persisted\<close>: every value as it was, except that a string that begins with U+FEFF
  comes back without that code unit. The encoder may run on any platform (\<open>host\<close>: it is little-endian), but strings are written on
  a little-endian one. The other hypotheses are the platform's: \<open>Date\<close> values hold clipped times, the streams invert each other, and JSON
  keeps finite numbers.
\<close>

theorem block_roundtrip:
  assumes "encode_block deflate stringify host t input c = Inr bytes" "host \<or> t \<noteq> T_string"
    "js_dates input" "gzip_streams deflate inflate" "json_metadata stringify parse_meta"
  shows "\<exists>d. decode_block inflate parse_meta little_endian bytes = Inr (d, map persisted input)
    \<and> block_type d = t \<and> block_compression d = c \<and> row_count d = length input
    \<and> null_count d = length (filter (\<lambda>v. cell_of_value v = Null) input)
    \<and> metadata_equals (block_metadata d) (zone_of (map cell_of_value input))"
proof -
  let ?cells = "map cell_of_value input"
  let ?m = "stringify (zone_of ?cells)"
  have enc: "encode_block deflate stringify True t input c = Inr bytes" using assms(1) unfolding encode_block_host [OF assms(2)] .
  obtain d :: "zone_map description" and stored where d: "bytes = envelope_bytes d ?m stored" "sized d ?m stored"
    "block_type d = t" "block_compression d = c" "row_count d = length input" "null_count d = null_cells ?cells"
    "checksum d = crc32 (encode_cells t ?cells)" "stored_checksum d = crc32 stored" "encoded_length d = length (encode_cells t ?cells)"
    "codec_decompress inflate c stored (int (length (encode_cells t ?cells))) = Inr (encode_cells t ?cells)" "c = Raw \<longrightarrow> stored = encode_cells t ?cells"
    "storable t ?cells" by (rule encode_block_envelope [OF enc assms(3,4)])
  have "finite_zone (zone_of ?cells)" by (rule zone_of_finite [of _ t]) (use d(12) in \<open>simp add: storable_def\<close>)
  then obtain z where z: "parse_meta ?m = Some z" "metadata_equals (zone_of ?cells) z"
    using assms(5) unfolding json_metadata_def by blast
  define d' where "d' = d\<lparr>block_metadata := z\<rparr>"
  have d': "sized d' ?m stored" "parse_meta ?m = Some (block_metadata d')" "bytes = envelope_bytes d' ?m stored"
    using d(1,2) z(1) by (simp_all add: d'_def sized_def envelope_metadata)
  have insp: "inspect_block parse_meta bytes = Inr d'"
    unfolding d'(3) by (rule inspect_envelope, rule d'(1), rule d'(2)) (use d in \<open>simp add: d'_def sized_def\<close>)
  then have ver: "verify_stored_block parse_meta bytes = Inr d'"
    using verify_envelope [of parse_meta d' ?m stored] d' d(8) by (simp add: d'_def sized_def)
  have payload: "drop (BLOCK_HEADER_LENGTH + metadata_length d') bytes = stored"
    using envelope_slices(3) [of ?m d' stored] d'(1,3) by (simp add: sized_def BLOCK_HEADER_LENGTH_def)
  have val: "validate_decoded_physical_block little_endian (encode_cells t ?cells) d' = Inr (column_of t ?cells)"
    by (rule validate_decoded_ok [OF d(12)]) (use d z in \<open>simp_all add: d'_def\<close>)
  have fields: "block_compression d' = c" "encoded_length d' = length (encode_cells t ?cells)" "checksum d' = crc32 (encode_cells t ?cells)"
    using d by (simp_all add: d'_def)
  have "decode_physical_block inflate parse_meta little_endian bytes = Inr (d', column_of t ?cells)"
    unfolding decode_physical_block_def ver bindR_simps payload decode_verified_physical_block_def fields d(10) val
    using d(11) val by simp
  moreover have "decode_validated_column (column_of t ?cells) = Inr (map persisted input)"
  proof -
    obtain e where "encode_column True t input = Inr e" using enc by (auto simp: encode_block_def bindR_eq_Inr)
    note ok = encode_column_Inr(1) [OF this]
    have "map (value_of_cell t) ?cells = map persisted input"
      using ok assms(3) by (auto simp: js_dates_def intro!: value_of_cell_persisted)
    then show ?thesis unfolding decode_column_of [OF d(12)] by (simp only:)
  qed
  ultimately have "decode_block inflate parse_meta little_endian bytes = Inr (d', map persisted input)"
    by (simp add: decode_block_def)
  moreover have "null_cells ?cells = length (filter (\<lambda>v. cell_of_value v = Null) input)"
    by (simp add: null_cells_def filter_map comp_def)
  ultimately show ?thesis using d(3-6) metadata_equals_sym [OF z(2)] by (intro exI [of _ d']) (simp add: d'_def)
qed

text \<open>A pair of streams and a metadata text that meet the laws: streams that copy, and the two numbers, byte for byte.\<close>

definition copy_stream :: stream where
  "copy_stream bytes = (([bytes], None), Inr ())"

definition demo_stringify :: "zone_map \<Rightarrow> byte list" where
  "demo_stringify z = (case z of None \<Rightarrow> [] | Some (mn, mx) \<Rightarrow> le_bytes 8 (unat mn) @ le_bytes 8 (unat mx))"

definition demo_parse :: "byte list \<Rightarrow> zone_map option" where
  "demo_parse bytes = (if bytes = [] then Some None else Some (Some (word_of_nat (get_le 8 bytes 0), word_of_nat (get_le 8 bytes 8))))"

lemma copy_streams: "gzip_streams copy_stream copy_stream"
  by (auto simp: gzip_streams_def delivers_def copy_stream_def)

lemma demo_metadata: "json_metadata demo_stringify demo_parse"
proof -
  have "demo_parse (demo_stringify z) = Some z" for z
  proof (cases z)
    case (Some p)
    obtain mn mx where p: "p = (mn, mx)" by (cases p)
    have "get_le 8 (le_bytes 8 (unat mn) @ le_bytes 8 (unat mx)) 0 = unat mn"
      "get_le 8 (le_bytes 8 (unat mn) @ le_bytes 8 (unat mx)) 8 = unat mx"
      using get_le_at [of "[]" 0 8 "unat mn" "le_bytes 8 (unat mx)"] get_le_at [of "le_bytes 8 (unat mn)" 8 8 "unat mx" "[]"]
        u64_bound [of mn] u64_bound [of mx] by simp_all
    moreover have "le_bytes 8 (unat mn) \<noteq> []" by (metis length_le_bytes list.size(3) zero_neq_numeral)
    ultimately show ?thesis by (simp add: Some p demo_parse_def demo_stringify_def)
  qed (simp add: demo_parse_def demo_stringify_def)
  moreover have "finite_zone z \<Longrightarrow> metadata_equals z z" for z
    by (auto simp: finite_zone_def metadata_equals_def f64_equal_def f64_finite_def split: option.splits)
  ultimately show ?thesis unfolding json_metadata_def by blast
qed

lemma block_roundtrip_witness:
  "\<exists>bytes d. encode_block copy_stream demo_stringify True T_boolean [V_bool True, V_null] Gzip = Inr bytes
    \<and> decode_block copy_stream demo_parse True bytes = Inr (d, [V_bool True, V_null]) \<and> null_count d = 1"
proof -
  let ?input = "[V_bool True, V_null]"
  have ok: "\<forall>v \<in> set ?input. value_ok T_boolean v" by (simp add: value_ok_def)
  have len: "length (encode_cells T_boolean (map cell_of_value ?input)) = 2"
    by (simp add: column_bytes length_payload value_length_def bitmap_length_def)
  have e: "encode_column True T_boolean ?input = Inr (encoded T_boolean ?input)"
    using ok by (rule encode_column_ok) (simp_all add: block_limits value_length_def bitmap_length_def texts_to_def)
  have "\<exists>bytes. encode_block copy_stream demo_stringify True T_boolean ?input Gzip = Inr bytes"
    using len by (simp add: encode_block_def e encoded_def encode_validated_physical_block_def compress_payload_def gzip_compress_def
      get_compression_memory_bound_def checked_linear_bound_def assert_input_length_def assert_caller_output_length_def
      transform_def copy_stream_def read_bounded_def is_safe_integer_def MAX_SAFE_INTEGER_def assert_block_row_count_def block_limits
      assert_metadata_length_def assert_length_def assert_stored_block_payload_byte_length_def Let_def demo_stringify_def
      zone_of_def cell_of_value_def zone_step_def zone_map_metadata_def no_values_def)
  then obtain bytes where b: "encode_block copy_stream demo_stringify True T_boolean ?input Gzip = Inr bytes" by blast
  have "js_dates ?input" by (simp add: js_dates_def)
  from block_roundtrip [OF b _ this copy_streams demo_metadata, of True] b show ?thesis
    by (fastforce simp: persisted_def cell_of_value_def)
qed

lemma stored_block_bounded_witness:
  "\<exists>bytes n. encode_physical_block copy_stream demo_stringify True (column_of T_boolean [Null]) Raw = Inr bytes
    \<and> maximum_physical_block_byte_length demo_stringify demo_parse (length (col_bytes (column_of T_boolean [Null]))) None Raw = Inr n
    \<and> int (length bytes) \<le> n"
proof -
  let ?col = "column_of T_boolean [Null]"
  have ok: "storable T_boolean [Null]" by (simp add: storable_def block_limits column_bytes length_payload value_length_def bitmap_length_def)
  obtain v where v: "validate_physical_column True ?col = Inr v" by (rule canonical_is_valid [OF ok])
  have m: "val_metadata v = None" using valid_is_canonical(4) [OF v] cells_of_column [OF ok]
    by (auto simp: metadata_equals_def zone_of_def zone_step_def zone_map_metadata_def no_values_def f64_equal_def split: option.splits)
  have len: "length (col_bytes ?col) = 2" by (simp add: column_of_def column_bytes length_payload value_length_def bitmap_length_def)
  have "\<exists>bytes. encode_physical_block copy_stream demo_stringify True ?col Raw = Inr bytes"
    using len by (simp add: encode_physical_block_def v m encode_validated_physical_block_def assert_metadata_length_def
      assert_length_def assert_stored_block_payload_byte_length_def block_limits demo_stringify_def Let_def)
  then obtain bytes where b: "encode_physical_block copy_stream demo_stringify True ?col Raw = Inr bytes" by blast
  have n: "maximum_physical_block_byte_length demo_stringify demo_parse (length (col_bytes ?col)) None Raw = Inr 46"
    unfolding len by (simp add: maximum_physical_block_byte_length_def assert_length_def encode_canonical_metadata_def demo_parse_def
      demo_stringify_def assert_metadata_length_def get_compression_memory_bound_def assert_input_length_def is_safe_integer_def
      MAX_SAFE_INTEGER_def block_limits)
  from stored_block_bounded [OF b v, of demo_parse 46] b n show ?thesis unfolding m by blast
qed

end
