(* ===== verification/ByteIO.thy ===== *)
theory ByteIO
  imports Physical
begin

text \<open>
  \<open>next/format/bytes.ts\<close>: the writer and the reader of the manifest codecs. The writer is its growing buffer and the length
  written; the reader is the blob and its position, which a throw leaves where the code left it.
\<close>

subsection \<open>The writer\<close>

record byte_writer =
  w_bytes :: "byte list"
  w_length :: nat

definition new_writer :: byte_writer where "new_writer = \<lparr>w_bytes = replicate 256 0, w_length = 0\<rparr>"

text \<open>The doubling loop of \<open>#reserve\<close>. A buffer is never empty (it starts with 256 bytes and only grows), where the loop would not end.\<close>

function double_until :: "nat \<Rightarrow> nat \<Rightarrow> nat" where
  "double_until cap need = (if cap < need \<and> 0 < cap then double_until (cap * 2) need else cap)"
  by pat_completeness auto
termination by (relation "measure (\<lambda>(cap, need). need - cap)") auto

declare double_until.simps [simp del]

definition reserve :: "nat \<Rightarrow> byte_writer \<Rightarrow> byte_writer" where
  "reserve extra w =
     (if w_length w + extra \<le> length (w_bytes w) then w
      else let cap = double_until (length (w_bytes w) * 2) (w_length w + extra)
        in w\<lparr>w_bytes := set_at (replicate cap 0) 0 (take (w_length w) (w_bytes w))\<rparr>)"

definition push :: "byte \<Rightarrow> byte_writer \<Rightarrow> byte_writer" where
  "push b w = w\<lparr>w_bytes := (w_bytes w)[w_length w := b], w_length := w_length w + 1\<rparr>"

definition store_bytes :: "byte list \<Rightarrow> byte_writer \<Rightarrow> byte_writer" where
  "store_bytes bs w = w\<lparr>w_bytes := set_at (w_bytes w) (w_length w) bs, w_length := w_length w + length bs\<rparr>"

definition put_u8 :: "int \<Rightarrow> byte_writer \<Rightarrow> byte_writer" where
  "put_u8 value w = push (word_of_int (value AND 0xff)) (reserve 1 w)"

definition put_u32 :: "int \<Rightarrow> byte_writer \<Rightarrow> byte_writer" where
  "put_u32 value w = store_bytes (le_bytes 4 (nat (value mod 2 ^ 32))) (reserve 4 w)"

function uint_bytes :: "int \<Rightarrow> byte_writer \<Rightarrow> byte_writer" where
  "uint_bytes rest w = (if 0x80 \<le> rest then uint_bytes (rest div 0x80) (put_u8 ((rest mod 0x80) OR 0x80) w) else put_u8 rest w)"
  by pat_completeness auto
termination by (relation "measure (\<lambda>(rest, w). nat rest)") auto

declare uint_bytes.simps [simp del]

definition put_uint :: "int \<Rightarrow> byte_writer \<Rightarrow> byte_writer result" where
  "put_uint value w =
     (if \<not> (is_safe_integer value \<and> 0 \<le> value) then Inl (RangeError ''Not an unsigned safe integer'')
      else Inr (uint_bytes value w))"

definition put_int :: "int \<Rightarrow> byte_writer \<Rightarrow> byte_writer result" where
  "put_int value w =
     (if \<not> is_safe_integer value then Inl (RangeError ''Not a safe integer'')
      else put_uint (if value < 0 then - value * 2 - 1 else value * 2) w)"

definition put_optional_uint :: "int option \<Rightarrow> byte_writer \<Rightarrow> byte_writer result" where
  "put_optional_uint value w = put_uint (case value of None \<Rightarrow> 0 | Some v \<Rightarrow> v + 1) w"

text \<open>
  A Number is a double, but there is only one NaN: \<open>getFloat64\<close> of any NaN pattern is that NaN, here the pattern \<open>NOT_A_NUMBER\<close>, and
  \<open>setFloat64\<close> of it stores the NaN encoding of the engine's choice, the parameter \<open>nan\<close>.
\<close>

definition number_of :: "f64 \<Rightarrow> f64" where
  "number_of w = (if f64_is_nan w then NOT_A_NUMBER else w)"

definition encoding_of :: "f64 \<Rightarrow> f64 \<Rightarrow> f64" where
  "encoding_of nan value = (if f64_is_nan value then nan else value)"

definition put_f64 :: "f64 \<Rightarrow> f64 \<Rightarrow> byte_writer \<Rightarrow> byte_writer" where
  "put_f64 nan value w = store_bytes (le64 (encoding_of nan value)) (reserve 8 w)"

definition put_bytes :: "byte list \<Rightarrow> byte_writer \<Rightarrow> byte_writer result" where
  "put_bytes value w = bindR (put_uint (int (length value)) w) (\<lambda>w. Inr (store_bytes value (reserve (length value) w)))"

definition put_string :: "js_string \<Rightarrow> byte_writer \<Rightarrow> byte_writer result" where
  "put_string value w = put_bytes (utf8_encode value) w"

text \<open>\<open>BigInt.asIntN\<close> and \<open>BigInt.asUintN\<close>, and the search for the width: 8 more bits until the value fits.\<close>

definition as_int_n :: "nat \<Rightarrow> int \<Rightarrow> int" where
  "as_int_n bits v = (if bits = 0 then 0 else signed_take_bit (bits - 1) v)"

definition as_uint_n :: "nat \<Rightarrow> int \<Rightarrow> int" where
  "as_uint_n bits v = take_bit bits v"

lemma as_int_n_fits: "0 < bits \<Longrightarrow> as_int_n bits v = v \<longleftrightarrow> - (2 ^ (bits - 1)) \<le> v \<and> v < 2 ^ (bits - 1)"
  by (auto simp: as_int_n_def signed_take_bit_int_eq_self_iff)

lemma too_wide: "as_int_n bits v \<noteq> v \<Longrightarrow> bits \<le> nat \<bar>v\<bar>"
proof (cases bits)
  case (Suc k)
  assume "as_int_n bits v \<noteq> v"
  then have "2 ^ k \<le> \<bar>v\<bar>" using as_int_n_fits [of bits v] Suc by auto
  moreover have "int k < 2 ^ k" by simp
  ultimately show ?thesis using Suc by linarith
qed simp

function bigint_bits :: "nat \<Rightarrow> int \<Rightarrow> nat" where
  "bigint_bits bits value = (if as_int_n bits value \<noteq> value then bigint_bits (bits + 8) value else bits)"
  by pat_completeness auto
termination by (relation "measure (\<lambda>(bits, v). nat \<bar>v\<bar> + 1 - bits)") (auto dest!: too_wide)

declare bigint_bits.simps [simp del]

primrec bigint_bytes :: "nat \<Rightarrow> int \<Rightarrow> byte_writer \<Rightarrow> byte_writer" where
  "bigint_bytes 0 rest w = w"
| "bigint_bytes (Suc k) rest w = bigint_bytes k (drop_bit 8 rest) (push (word_of_int (rest AND 0xff)) w)"

definition put_bigint :: "int \<Rightarrow> byte_writer \<Rightarrow> byte_writer result" where
  "put_bigint value w =
     (let bits = bigint_bits 8 value; count = bits div 8 in
      bindR (put_uint (int count) w) (\<lambda>w. Inr (bigint_bytes count (as_uint_n bits value) (reserve count w))))"

definition finish :: "byte_writer \<Rightarrow> byte list" where
  "finish w = slice_of (w_bytes w) 0 (w_length w)"

subsection \<open>The reader\<close>

record byte_reader =
  r_bytes :: "byte list"
  r_at :: nat

definition valid :: "bool \<Rightarrow> string \<Rightarrow> (byte_reader, unit) eff" where
  "valid c message r = (r, guardR c (CorruptionError message))"

definition new_reader :: "byte list \<Rightarrow> byte_reader" where "new_reader bytes = \<lparr>r_bytes = bytes, r_at = 0\<rparr>"

definition remaining :: "byte_reader \<Rightarrow> int" where
  "remaining r = int (length (r_bytes r)) - int (r_at r)"

definition need :: "int \<Rightarrow> (byte_reader, unit) eff" where
  "need count r = valid (0 \<le> count \<and> int (r_at r) + count \<le> int (length (r_bytes r))) ''Manifest blob is truncated'' r"

definition read_with :: "nat \<Rightarrow> (byte list \<Rightarrow> nat \<Rightarrow> 'a) \<Rightarrow> (byte_reader, 'a) eff" where
  "read_with n get r = (r\<lparr>r_at := r_at r + n\<rparr>, Inr (get (r_bytes r) (r_at r)))"

definition get_u8 :: "(byte_reader, int) eff" where
  "get_u8 = bindE (need 1) (\<lambda>_. read_with 1 (\<lambda>bytes at. uint (at0 bytes at)))"

definition get_u32 :: "(byte_reader, int) eff" where
  "get_u32 = bindE (need 4) (\<lambda>_. read_with 4 (\<lambda>bytes at. int (get_le 4 bytes at)))"

function uint_loop :: "byte list \<Rightarrow> nat \<Rightarrow> nat \<Rightarrow> int \<Rightarrow> int \<Rightarrow> (nat \<times> int) result" where
  "uint_loop bytes k at value scale =
     (if 8 \<le> k then Inl (CorruptionError ''Varint is too long'')
      else if length bytes \<le> at then Inl (CorruptionError ''Manifest blob is truncated'')
      else
        let byte = bytes ! at; value = value + uint (byte AND 0x7f) * scale in
        if byte < 0x80 then
          bindR (guardR (k = 0 \<or> byte \<noteq> 0) (CorruptionError ''Varint is not minimal'')) (\<lambda>_.
          bindR (guardR (value \<le> MAX_SAFE_INTEGER) (CorruptionError ''Varint past 2^53'')) (\<lambda>_.
            Inr (at + 1, value)))
        else uint_loop bytes (k + 1) (at + 1) value (scale * 0x80))"
  by pat_completeness auto
termination by (relation "measure (\<lambda>(bytes, k, at, value, scale). 8 - k)") auto

declare uint_loop.simps [simp del]

definition get_uint :: "(byte_reader, int) eff" where
  "get_uint r = (case uint_loop (r_bytes r) 0 (r_at r) 0 1 of
     Inl e \<Rightarrow> (r, Inl e)
   | Inr (at, value) \<Rightarrow> (r\<lparr>r_at := at\<rparr>, Inr value))"

definition get_int :: "(byte_reader, int) eff" where
  "get_int = bindE get_uint (\<lambda>zigzag. retE (if zigzag mod 2 = 0 then zigzag div 2 else - ((zigzag + 1) div 2)))"

definition get_optional_uint :: "(byte_reader, int option) eff" where
  "get_optional_uint = bindE get_uint (\<lambda>value. retE (if value = 0 then None else Some (value - 1)))"

definition get_count :: "int \<Rightarrow> (byte_reader, int) eff" where
  "get_count min_bytes = bindE get_uint (\<lambda>value r.
     bindE (valid (value * max 1 min_bytes \<le> remaining r) ''Count exceeds the blob'') (\<lambda>_. retE value) r)"

definition get_f64 :: "(byte_reader, f64) eff" where
  "get_f64 = bindE (need 8) (\<lambda>_. read_with 8 (\<lambda>bytes at. number_of (get64 bytes at)))"

definition get_bytes :: "(byte_reader, byte list) eff" where
  "get_bytes = bindE get_uint (\<lambda>n. bindE (need n) (\<lambda>_. read_with (nat n) (\<lambda>bytes at. slice_of bytes at (at + nat n))))"

text \<open>The decoder is the fatal one that keeps a leading U+FEFF; the \<open>catch\<close> lets a corruption error through and renames a decoding error.\<close>

definition decoded_text :: "byte list \<Rightarrow> (byte_reader, js_string) eff" where
  "decoded_text bs = (case utf8_decode True bs of None \<Rightarrow> throwE (TypeError ''The encoded data was not valid'') | Some s \<Rightarrow> retE s)"

definition get_string :: "(byte_reader, js_string) eff" where
  "get_string = catchE (bindE get_bytes decoded_text)
     (\<lambda>e. case e of CorruptionError m \<Rightarrow> throwE e | _ \<Rightarrow> throwE (CorruptionError ''A manifest string is not UTF-8''))"

primrec bigint_loop :: "byte list \<Rightarrow> nat \<Rightarrow> nat \<Rightarrow> int \<Rightarrow> int" where
  "bigint_loop bytes at 0 value = value"
| "bigint_loop bytes at (Suc k) value = bigint_loop bytes at k ((push_bit 8 value) OR uint (at0 bytes (at + k)))"

definition get_bigint :: "(byte_reader, int) eff" where
  "get_bigint = bindE get_uint (\<lambda>count.
     bindE (valid (1 \<le> count \<and> count \<le> 4096) ''Bad bigint length'') (\<lambda>_.
     bindE (need count) (\<lambda>_.
     bindE (read_with (nat count) (\<lambda>bytes at. bigint_loop bytes at (nat count) 0)) (\<lambda>value.
       let signed = as_int_n (nat count * 8) value in
       bindE (valid (count = 1 \<or> as_int_n ((nat count - 1) * 8) signed \<noteq> signed) ''Bigint is not minimal'') (\<lambda>_. retE signed)))))"

definition end_of_blob :: "(byte_reader, unit) eff" where
  "end_of_blob r = valid (r_at r = length (r_bytes r)) ''Manifest blob has trailing bytes'' r"

subsection \<open>What the writer appends\<close>

definition writer_ok :: "byte_writer \<Rightarrow> bool" where
  "writer_ok w \<longleftrightarrow> 0 < length (w_bytes w) \<and> w_length w \<le> length (w_bytes w)"

definition appends :: "(byte_writer \<Rightarrow> byte_writer) \<Rightarrow> byte list \<Rightarrow> bool" where
  "appends f bs \<longleftrightarrow> (\<forall>w. writer_ok w \<longrightarrow> writer_ok (f w) \<and> finish (f w) = finish w @ bs)"

lemma double_until_enough: "0 < cap \<Longrightarrow> least \<le> double_until cap least \<and> cap \<le> double_until cap least"
proof (induction cap least rule: double_until.induct)
  case (1 cap least)
  then show ?case by (subst (1 2) double_until.simps) auto
qed

lemma reserve_room:
  assumes "writer_ok w"
  shows "writer_ok (reserve n w)" "finish (reserve n w) = finish w" "w_length (reserve n w) = w_length w"
    "w_length w + n \<le> length (w_bytes (reserve n w))"
  using assms double_until_enough [of "length (w_bytes w) * 2" "w_length w + n"]
  by (auto simp: reserve_def writer_ok_def finish_def slice_of_def set_at_def Let_def)

lemma store_appends:
  assumes "writer_ok w" "w_length w + length bs \<le> length (w_bytes w)"
  shows "writer_ok (store_bytes bs w)" "finish (store_bytes bs w) = finish w @ bs"
    "length (w_bytes (store_bytes bs w)) = length (w_bytes w)" "w_length (store_bytes bs w) = w_length w + length bs"
  using assms by (auto simp: store_bytes_def writer_ok_def finish_def slice_of_def set_at_def)

lemma push_store: "w_length w < length (w_bytes w) \<Longrightarrow> push b w = store_bytes [b] w"
  by (simp add: push_def store_bytes_def set_at_def upd_conv_take_nth_drop)

lemma appends_reserved: "appends (\<lambda>w. store_bytes bs (reserve (length bs) w)) bs"
  using reserve_room store_appends by (auto simp: appends_def)

lemma and_255: "v AND 255 = v mod (256 :: int)"
  using take_bit_eq_mask [of 8 v] by (simp add: take_bit_eq_mod mask_eq_exp_minus_1)

lemma put_u8_store: "writer_ok w \<Longrightarrow> put_u8 v w = store_bytes [word_of_int v] (reserve 1 w)"
proof -
  assume w: "writer_ok w"
  have "(word_of_int (v AND 255) :: byte) = word_of_int v"
    by (simp add: and_255 word_of_int_eq_iff take_bit_eq_mod)
  then show ?thesis using reserve_room [OF w, of 1] by (simp add: put_u8_def push_store)
qed

lemma put_u8_appends: "appends (put_u8 v) [word_of_int v]"
  using appends_reserved [of "[word_of_int v]"] by (simp add: appends_def put_u8_store)

lemma put_u32_appends: "appends (put_u32 v) (le_bytes 4 (nat (v mod 2 ^ 32)))"
  using appends_reserved [of "le_bytes 4 (nat (v mod 2 ^ 32))"] by (simp add: appends_def put_u32_def)

lemma put_f64_appends: "appends (put_f64 nan v) (le64 (encoding_of nan v))"
  using appends_reserved [of "le64 (encoding_of nan v)"] by (simp add: appends_def put_f64_def le64_def)

function varint :: "int \<Rightarrow> byte list" where
  "varint n = (if 128 \<le> n then word_of_int (n mod 128 + 128) # varint (n div 128) else [word_of_int n])"
  by pat_completeness auto
termination by (relation "measure nat") auto

declare varint.simps [simp del]

lemma seven_bits: "(n mod 128) OR 128 = n mod 128 + (128 :: int)"
proof -
  have "(n mod 128) AND 128 = (take_bit 7 n) AND (128 :: int)" by (simp add: take_bit_eq_mod)
  also have "\<dots> = 0" by (simp add: take_bit_eq_mask mask_eq_exp_minus_1 and.assoc)
  finally show ?thesis by (rule disjunctive_add_eq_or [symmetric])
qed

lemma uint_bytes_appends: "appends (uint_bytes n) (varint n)"
proof (induction n rule: varint.induct)
  case (1 n)
  show ?case
  proof (cases "128 \<le> n")
    case True
    then show ?thesis using 1 put_u8_appends [of "n mod 128 + 128"]
      by (simp add: appends_def uint_bytes.simps [of n] varint.simps [of n] seven_bits)
  next
    case False
    then show ?thesis using put_u8_appends [of n] by (simp add: appends_def uint_bytes.simps [of n] varint.simps [of n])
  qed
qed

lemma bigint_bytes_append:
  assumes "writer_ok w" "w_length w + k \<le> length (w_bytes w)" "0 \<le> rest"
  shows "writer_ok (bigint_bytes k rest w)" "finish (bigint_bytes k rest w) = finish w @ le_bytes k (nat rest)"
proof -
  have "writer_ok (bigint_bytes k rest w) \<and> finish (bigint_bytes k rest w) = finish w @ le_bytes k (nat rest)"
    using assms
  proof (induction k arbitrary: rest w)
    case (Suc k)
    let ?w = "store_bytes [word_of_int (rest AND 255)] w"
    have p: "push x w = store_bytes [x] w" for x using Suc.prems(2) by (intro push_store) simp
    have "rest mod 256 = int (nat rest mod 256)" using Suc.prems(3) by (simp add: zmod_int)
    then have b: "(word_of_int (rest AND 255) :: byte) = word_of_nat (nat rest mod 256)"
      by (simp only: and_255 of_int_of_nat_eq)
    have d: "nat (drop_bit 8 rest) = nat rest div 256" using Suc.prems(3) by (simp add: drop_bit_eq_div nat_div_distrib)
    show ?case using Suc.IH [of ?w "drop_bit 8 rest"] Suc.prems store_appends [of w "[word_of_int (rest AND 255)]"]
      by (simp add: p b d)
  qed simp
  then show "writer_ok (bigint_bytes k rest w)" "finish (bigint_bytes k rest w) = finish w @ le_bytes k (nat rest)" by simp_all
qed

subsection \<open>What the reader reads\<close>

definition reads :: "(byte_reader, 'a) eff \<Rightarrow> byte list \<Rightarrow> 'a \<Rightarrow> bool" where
  "reads g bs x \<longleftrightarrow> (\<forall>pre post. g \<lparr>r_bytes = pre @ bs @ post, r_at = length pre\<rparr>
     = (\<lparr>r_bytes = pre @ bs @ post, r_at = length pre + length bs\<rparr>, Inr x))"

lemma reads_bind:
  assumes "reads g as x" "reads (f x) bs y"
  shows "reads (bindE g f) (as @ bs) y"
proof -
  have "f x \<lparr>r_bytes = (pre @ as) @ bs @ post, r_at = length (pre @ as)\<rparr>
      = (\<lparr>r_bytes = (pre @ as) @ bs @ post, r_at = length (pre @ as) + length bs\<rparr>, Inr y)" for pre post
    using assms(2) by (simp only: reads_def)
  then show ?thesis using assms(1) by (simp add: reads_def bindE_def)
qed

lemma reads_ret: "reads (retE x) [] x"
  by (simp add: reads_def)

lemma reads_map: "reads g bs x \<Longrightarrow> reads (bindE g (\<lambda>x. retE (f x))) bs (f x)"
  using reads_bind [of g bs x "\<lambda>x. retE (f x)" "[]" "f x", OF _ reads_ret] by (simp only: append_Nil2)

lemma reads_need: "length bs = n \<Longrightarrow> get (pre @ bs @ post) (length pre) = x
    \<Longrightarrow> bindE (need (int n)) (\<lambda>_. read_with n get) \<lparr>r_bytes = pre @ bs @ post, r_at = length pre\<rparr>
      = (\<lparr>r_bytes = pre @ bs @ post, r_at = length pre + length bs\<rparr>, Inr x)"
  by (simp add: bindE_def need_def valid_def read_with_def)

lemma reads_fixed:
  "length bs = n \<Longrightarrow> (\<And>pre post. get (pre @ bs @ post) (length pre) = x) \<Longrightarrow> reads (bindE (need (int n)) (\<lambda>_. read_with n get)) bs x"
  unfolding reads_def by (intro allI reads_need)

lemma get_u8_reads: "reads get_u8 [b] (uint b)"
  using reads_fixed [of "[b]" 1 "\<lambda>bytes at. uint (at0 bytes at)"] by (simp add: get_u8_def at0_def nth_append)

lemma get_u32_reads: "v < 2 ^ 32 \<Longrightarrow> reads get_u32 (le_bytes 4 v) (int v)"
  using reads_fixed [of "le_bytes 4 v" 4 "\<lambda>bytes at. int (get_le 4 bytes at)" "int v"] by (simp add: get_u32_def get_le_at)

lemma get_f64_reads: "reads get_f64 (le64 v) (number_of v)"
  using reads_fixed [of "le64 v" 8 "\<lambda>bytes at. number_of (get64 bytes at)" "number_of v"]
  by (simp add: get_f64_def get64_slice slice_of_def le64_def)

lemma number_of_encoding: "f64_is_nan nan \<Longrightarrow> number_of v = v \<Longrightarrow> number_of (encoding_of nan v) = v"
  by (auto simp: number_of_def encoding_of_def split: if_splits)

lemma number_of_idem [simp]: "number_of (number_of v) = number_of v"
  by (simp add: number_of_def nan_is_nan)

lemma low_7_bits: "uint (b AND 0x7f :: byte) = uint b mod 128"
  using take_bit_eq_mask [of 7 "uint b"] by (simp add: uint_and take_bit_eq_mod mask_eq_exp_minus_1)

lemma byte_bound: "uint (b :: byte) < 256"
  using uint_lt2p [of b] by simp

lemma continued_byte: "0 \<le> n \<Longrightarrow> uint (word_of_int (n mod 128 + 128) :: byte) = n mod 128 + 128"
  by (simp add: uint_word_of_int del: of_int_add)

lemma last_byte: "0 \<le> n \<Longrightarrow> n < 128 \<Longrightarrow> uint (word_of_int n :: byte) = n"
  by (simp add: uint_word_of_int)

lemma byte_less: "(b :: byte) < 0x80 \<longleftrightarrow> uint b < 128"
  by (simp add: word_less_def)

lemma uint_loop_reads:
  assumes "0 \<le> n" "n < 128 ^ (8 - k)" "k = 0 \<or> n \<noteq> 0" "acc + n * scale \<le> MAX_SAFE_INTEGER" "bytes = pre @ varint n @ post" "at = length pre"
  shows "uint_loop bytes k at acc scale = Inr (at + length (varint n), acc + n * scale)"
  using assms
proof (induction n arbitrary: k at pre acc scale rule: varint.induct)
  case (1 n)
  have k: "\<not> 8 \<le> k" using "1.prems"(1-3) by auto
  show ?case
  proof (cases "128 \<le> n")
    case True
    obtain c :: byte where c: "c = word_of_int (n mod 128 + 128)" "uint c = n mod 128 + 128" using continued_byte "1.prems"(1) by blast
    have v: "varint n = c # varint (n div 128)" using True by (simp add: varint.simps [of n] c(1))
    have b: "bytes ! at = c" "at < length bytes" using "1.prems"(5,6) by (simp_all add: v)
    have m: "n mod 128 * scale + n div 128 * (scale * 128) = n * scale" by (simp add: algebra_simps flip: distrib_left)
    have "8 - k = Suc (8 - (k + 1))" using k by simp
    then have "n < 128 * 128 ^ (8 - (k + 1))" using "1.prems"(2) by simp
    then have d: "n div 128 < 128 ^ (8 - (k + 1))" by linarith
    have "uint_loop bytes (k + 1) (at + 1) (acc + n mod 128 * scale) (scale * 128)
        = Inr (at + 1 + length (varint (n div 128)), acc + n mod 128 * scale + n div 128 * (scale * 128))"
      by (rule "1.IH" [OF True, where pre = "pre @ [c]"])
        (use "1.prems" True d m in \<open>simp_all add: v pos_imp_zdiv_pos_iff pos_imp_zdiv_nonneg_iff add.assoc\<close>)
    then show ?thesis using k b "1.prems"(1) m
      by (subst uint_loop.simps) (simp add: Let_def byte_less c(2) low_7_bits v add.assoc not_less pos_mod_sign [THEN leD])
  next
    case False
    obtain c :: byte where c: "c = word_of_int n" "uint c = n" using last_byte "1.prems"(1) False by force
    have v: "varint n = [c]" using False by (simp add: varint.simps [of n] c(1))
    have "c \<noteq> 0" if "n \<noteq> 0" using that c(2) by auto
    moreover have "bytes ! at = c" "at < length bytes" using "1.prems"(5,6) by (simp_all add: v)
    ultimately show ?thesis using k "1.prems"(1,3,4) False
      by (subst uint_loop.simps) (auto simp: Let_def byte_less c(2) low_7_bits v)
  qed
qed

lemma get_uint_reads: "0 \<le> n \<Longrightarrow> n \<le> MAX_SAFE_INTEGER \<Longrightarrow> reads get_uint (varint n) n"
  using uint_loop_reads [of n 0 0 1] by (simp add: reads_def get_uint_def MAX_SAFE_INTEGER_def)

lemma zigzag:
  fixes v :: int
  defines "z \<equiv> if v < 0 then - v * 2 - 1 else v * 2"
  shows "(if z mod 2 = 0 then z div 2 else - ((z + 1) div 2)) = v"
proof (cases "v < 0")
  case True
  then have "z = - v * 2 - 1" by (simp add: z_def)
  then show ?thesis by presburger
qed (simp add: z_def)

lemma get_int_reads:
  assumes "- (2 ^ 52) \<le> v" "v < 2 ^ 52"
  shows "reads get_int (varint (if v < 0 then - v * 2 - 1 else v * 2)) v"
proof -
  let ?z = "if v < 0 then - v * 2 - 1 else v * 2"
  have "reads get_uint (varint ?z) ?z" by (rule get_uint_reads) (use assms in \<open>simp_all add: MAX_SAFE_INTEGER_def\<close>)
  from reads_map [OF this, of "\<lambda>z. if z mod 2 = 0 then z div 2 else - ((z + 1) div 2)"]
  show ?thesis unfolding get_int_def zigzag .
qed

lemma get_optional_reads:
  assumes "\<And>v. x = Some v \<Longrightarrow> 0 \<le> v \<and> v < MAX_SAFE_INTEGER"
  shows "reads get_optional_uint (varint (case x of None \<Rightarrow> 0 | Some v \<Rightarrow> v + 1)) x"
proof -
  let ?z = "case x of None \<Rightarrow> 0 | Some v \<Rightarrow> v + 1"
  have "reads get_uint (varint ?z) ?z" by (rule get_uint_reads) (use assms in \<open>auto simp: MAX_SAFE_INTEGER_def split: option.splits\<close>)
  from reads_map [OF this, of "\<lambda>z. if z = 0 then None else Some (z - 1)"]
  show ?thesis unfolding get_optional_uint_def using assms by (cases x) (auto simp: add_nonneg_eq_0_iff)
qed

lemma get_bytes_reads: "int (length bs) \<le> MAX_SAFE_INTEGER \<Longrightarrow> reads get_bytes (varint (int (length bs)) @ bs) bs"
  unfolding get_bytes_def
  by (rule reads_bind [OF get_uint_reads]) (use reads_fixed [of bs "length bs" "\<lambda>bytes at. slice_of bytes at (at + length bs)" bs] in \<open>simp_all add: slice_of_def\<close>)

lemma get_string_reads:
  assumes "paired s" "int (length (utf8_encode s)) \<le> MAX_SAFE_INTEGER"
  shows "reads get_string (varint (int (length (utf8_encode s))) @ utf8_encode s) s"
proof -
  have "reads (bindE get_bytes decoded_text) ((varint (int (length (utf8_encode s))) @ utf8_encode s) @ []) s"
    by (rule reads_bind [OF get_bytes_reads [OF assms(2)]])
      (use assms(1) in \<open>simp add: reads_def decoded_text_def survives_iff_paired [THEN iffD2]\<close>)
  then show ?thesis by (simp add: reads_def get_string_def catchE_def)
qed

lemma le_val_append: "le_val (xs @ ys) = le_val xs + 256 ^ length xs * le_val ys"
  by (induction xs) (simp_all add: algebra_simps)

lemma get_le_Suc: "at + k < length bytes \<Longrightarrow> get_le (Suc k) bytes at = get_le k bytes at + 256 ^ k * unat (bytes ! (at + k))"
proof -
  assume a: "at + k < length bytes"
  have "slice_of bytes at (at + Suc k) = slice_of bytes at (at + k) @ [bytes ! (at + k)]"
    using a by (simp add: slice_of_def take_Suc_conv_app_nth)
  then show ?thesis using a by (simp add: get_le_def le_val_append)
qed

lemma shift_in: "0 \<le> b \<Longrightarrow> b < 256 \<Longrightarrow> push_bit 8 a OR b = a * 256 + (b :: int)"
proof -
  assume b: "0 \<le> b" "b < 256"
  have "push_bit 8 a AND take_bit 8 b = 0" by (rule bit_eqI) (auto simp: bit_simps)
  moreover have "take_bit 8 b = b" using b by (simp add: take_bit_int_eq_self_iff)
  ultimately have "push_bit 8 a AND b = 0" by simp
  from disjunctive_add_eq_or [OF this] show ?thesis by (simp add: push_bit_eq_mult)
qed

lemma bigint_loop_value: "at + k \<le> length bytes \<Longrightarrow> bigint_loop bytes at k acc = acc * 256 ^ k + int (get_le k bytes at)"
proof (induction k arbitrary: acc)
  case 0
  show ?case by (simp add: get_le_def slice_of_def)
next
  case (Suc k)
  let ?b = "bytes ! (at + k)"
  have a: "at + k < length bytes" using Suc.prems by simp
  have "bigint_loop bytes at (Suc k) acc = bigint_loop bytes at k (acc * 256 + uint ?b)"
    using a shift_in [of "uint ?b" acc] byte_bound [of ?b] by (simp add: at0_nth)
  also have "\<dots> = (acc * 256 + uint ?b) * 256 ^ k + int (get_le k bytes at)" by (rule Suc.IH) (use a in simp)
  also have "\<dots> = acc * 256 ^ Suc k + (int (get_le k bytes at) + 256 ^ k * uint ?b)" by (simp add: algebra_simps)
  also have "int (get_le k bytes at) + 256 ^ k * uint ?b = int (get_le (Suc k) bytes at)" by (simp add: get_le_Suc [OF a])
  finally show ?case .
qed

lemma bigint_width_from:
  "8 dvd bits \<Longrightarrow> 8 \<le> bits \<Longrightarrow> bits = 8 \<or> as_int_n (bits - 8) v \<noteq> v
    \<Longrightarrow> 8 dvd bigint_bits bits v \<and> 8 \<le> bigint_bits bits v \<and> as_int_n (bigint_bits bits v) v = v
      \<and> (bigint_bits bits v = 8 \<or> as_int_n (bigint_bits bits v - 8) v \<noteq> v)"
proof (induction bits v rule: bigint_bits.induct)
  case (1 bits v)
  then show ?case by (cases "as_int_n bits v = v") (simp_all add: bigint_bits.simps [of bits])
qed

lemma bigint_width:
  "8 dvd bigint_bits 8 v" "8 \<le> bigint_bits 8 v" "as_int_n (bigint_bits 8 v) v = v"
  "bigint_bits 8 v = 8 \<or> as_int_n (bigint_bits 8 v - 8) v \<noteq> v"
  using bigint_width_from [of 8 v] by simp_all

lemma fits_wider: "0 < a \<Longrightarrow> a \<le> b \<Longrightarrow> as_int_n a v = v \<Longrightarrow> as_int_n b v = v"
proof -
  assume a: "0 < a" "a \<le> b" "as_int_n a v = v"
  then have p: "(2 :: int) ^ (a - 1) \<le> 2 ^ (b - 1)" by (intro power_increasing) simp_all
  have "- (2 ^ (a - 1)) \<le> v \<and> v < 2 ^ (a - 1)" using a as_int_n_fits by blast
  then have "- (2 ^ (b - 1)) \<le> v \<and> v < 2 ^ (b - 1)" using p by linarith
  then show ?thesis using a as_int_n_fits [of b v] by blast
qed

definition bigint_in_range :: "int \<Rightarrow> bool" where "bigint_in_range v \<longleftrightarrow> as_int_n (4096 * 8) v = v"

lemma bigint_count:
  assumes "bigint_in_range v"
  shows "bigint_bits 8 v div 8 \<le> 4096"
proof (rule ccontr)
  assume n: "\<not> ?thesis"
  note w = bigint_width [of v]
  have "4096 * 8 \<le> bigint_bits 8 v - 8" using n w(1,2) by presburger
  then have "as_int_n (bigint_bits 8 v - 8) v = v" using assms fits_wider [of "4096 * 8" "bigint_bits 8 v - 8" v] by (simp add: bigint_in_range_def)
  then show False using w(4) n by auto
qed

definition bigint_field :: "nat \<Rightarrow> int \<Rightarrow> byte list" where
  "bigint_field count v = varint (int count) @ le_bytes count (nat (take_bit (count * 8) v))"

lemma get_bigint_reads:
  assumes "1 \<le> count" "count \<le> 4096" "as_int_n (count * 8) v = v" "count = 1 \<or> as_int_n ((count - 1) * 8) v \<noteq> v"
  shows "reads get_bigint (bigint_field count v) v"
proof -
  let ?u = "take_bit (count * 8) v" and ?bs = "le_bytes count (nat (take_bit (count * 8) v))"
  have p: "(256 :: nat) ^ count = 2 ^ (count * 8)" by (simp add: power_mult [symmetric] mult.commute [of count] power_mult)
  have "nat ?u < 2 ^ (count * 8)" by (simp add: nat_less_iff)
  then have u: "int (nat ?u mod 256 ^ count) = ?u" unfolding p by simp
  have l: "bigint_loop (pre @ ?bs @ post) (length pre) count 0 = ?u" for pre post
    using u by (simp add: bigint_loop_value get_le_at)
  have w: "\<not> count * 8 \<le> count * 8 - 1" "count * 8 \<noteq> 0" using assms(1) by simp_all
  have "as_int_n (count * 8) ?u = as_int_n (count * 8) v"
    using w by (simp add: as_int_n_def signed_take_bit_take_bit)
  then have s: "as_int_n (nat (int count) * 8) ?u = v" using assms(3) by simp
  have "reads (bindE (need (int count)) (\<lambda>_. read_with count (\<lambda>bytes at. bigint_loop bytes at count 0))) ?bs ?u"
    by (rule reads_fixed) (simp_all add: l)
  then have r: "bindE (need (int count)) (\<lambda>_. read_with count (\<lambda>bytes at. bigint_loop bytes at count 0)) \<lparr>r_bytes = pre @ ?bs @ post, r_at = length pre\<rparr>
      = (\<lparr>r_bytes = pre @ ?bs @ post, r_at = length pre + length ?bs\<rparr>, Inr ?u)" for pre post by (simp only: reads_def)
  have "reads (\<lambda>r. bindE (valid (1 \<le> int count \<and> int count \<le> 4096) ''Bad bigint length'') (\<lambda>_.
     bindE (need (int count)) (\<lambda>_.
     bindE (read_with count (\<lambda>bytes at. bigint_loop bytes at count 0)) (\<lambda>value.
       let signed = as_int_n (nat (int count) * 8) value in
       bindE (valid (int count = 1 \<or> as_int_n ((nat (int count) - 1) * 8) signed \<noteq> signed) ''Bigint is not minimal'') (\<lambda>_. retE signed)))) r) ?bs v"
    using r assms s by (auto simp: reads_def bindE_def valid_def need_def read_with_def Let_def)
  then have "reads get_bigint (varint (int count) @ ?bs) v" unfolding get_bigint_def
    by (intro reads_bind [OF get_uint_reads]) (use assms(2) in \<open>simp_all add: MAX_SAFE_INTEGER_def\<close>)
  then show ?thesis by (simp add: bigint_field_def)
qed

end
