(* ===== verification/ByteFields.thy ===== *)
theory ByteFields
  imports ByteIO
begin

text \<open>
  Sequences of fields through the writer and the reader of \<open>next/format/bytes.ts\<close>: round trip, canonical form, and what a reader
  does with bytes nobody wrote. A kind is the reader's method, a field the writer's with its argument.
\<close>

datatype kind = K_u8 | K_u32 | K_uint | K_int | K_optional | K_f64 | K_bytes | K_string | K_bigint

datatype field = F_u8 int | F_u32 int | F_uint int | F_int int | F_optional "int option" | F_f64 f64 | F_bytes "byte list"
  | F_string js_string | F_bigint int

fun kind_of :: "field \<Rightarrow> kind" where
  "kind_of (F_u8 _) = K_u8" | "kind_of (F_u32 _) = K_u32" | "kind_of (F_uint _) = K_uint" | "kind_of (F_int _) = K_int"
| "kind_of (F_optional _) = K_optional" | "kind_of (F_f64 _) = K_f64" | "kind_of (F_bytes _) = K_bytes"
| "kind_of (F_string _) = K_string" | "kind_of (F_bigint _) = K_bigint"

fun put_field :: "f64 \<Rightarrow> field \<Rightarrow> byte_writer \<Rightarrow> byte_writer result" where
  "put_field nan (F_u8 v) w = Inr (put_u8 v w)" | "put_field nan (F_u32 v) w = Inr (put_u32 v w)" | "put_field nan (F_uint v) w = put_uint v w"
| "put_field nan (F_int v) w = put_int v w" | "put_field nan (F_optional v) w = put_optional_uint v w" | "put_field nan (F_f64 v) w = Inr (put_f64 nan v w)"
| "put_field nan (F_bytes v) w = put_bytes v w" | "put_field nan (F_string v) w = put_string v w" | "put_field nan (F_bigint v) w = put_bigint v w"

fun get_field :: "kind \<Rightarrow> (byte_reader, field) eff" where
  "get_field K_u8 = bindE get_u8 (\<lambda>x. retE (F_u8 x))" | "get_field K_u32 = bindE get_u32 (\<lambda>x. retE (F_u32 x))"
| "get_field K_uint = bindE get_uint (\<lambda>x. retE (F_uint x))" | "get_field K_int = bindE get_int (\<lambda>x. retE (F_int x))"
| "get_field K_optional = bindE get_optional_uint (\<lambda>x. retE (F_optional x))" | "get_field K_f64 = bindE get_f64 (\<lambda>x. retE (F_f64 x))"
| "get_field K_bytes = bindE get_bytes (\<lambda>x. retE (F_bytes x))" | "get_field K_string = bindE get_string (\<lambda>x. retE (F_string x))"
| "get_field K_bigint = bindE get_bigint (\<lambda>x. retE (F_bigint x))"

primrec put_fields :: "f64 \<Rightarrow> field list \<Rightarrow> byte_writer \<Rightarrow> byte_writer result" where
  "put_fields nan [] w = Inr w"
| "put_fields nan (f # fs) w = bindR (put_field nan f w) (put_fields nan fs)"

primrec get_fields :: "kind list \<Rightarrow> (byte_reader, field list) eff" where
  "get_fields [] = retE []"
| "get_fields (k # ks) = bindE (get_field k) (\<lambda>f. bindE (get_fields ks) (\<lambda>fs. retE (f # fs)))"

text \<open>The values that each pair of methods carries, and the bytes that carry them.\<close>

fun field_ok :: "field \<Rightarrow> bool" where
  "field_ok (F_u8 v) \<longleftrightarrow> 0 \<le> v \<and> v < 2 ^ 8" | "field_ok (F_u32 v) \<longleftrightarrow> 0 \<le> v \<and> v < 2 ^ 32"
| "field_ok (F_uint v) \<longleftrightarrow> 0 \<le> v \<and> v \<le> MAX_SAFE_INTEGER" | "field_ok (F_int v) \<longleftrightarrow> - (2 ^ 52) \<le> v \<and> v < 2 ^ 52"
| "field_ok (F_optional v) \<longleftrightarrow> (case v of None \<Rightarrow> True | Some v \<Rightarrow> 0 \<le> v \<and> v < MAX_SAFE_INTEGER)" | "field_ok (F_f64 v) \<longleftrightarrow> number_of v = v"
| "field_ok (F_bytes v) \<longleftrightarrow> int (length v) \<le> MAX_SAFE_INTEGER"
| "field_ok (F_string v) \<longleftrightarrow> paired v \<and> int (length (utf8_encode v)) \<le> MAX_SAFE_INTEGER"
| "field_ok (F_bigint v) \<longleftrightarrow> bigint_in_range v"

fun field_bytes :: "f64 \<Rightarrow> field \<Rightarrow> byte list" where
  "field_bytes nan (F_u8 v) = [word_of_int v]" | "field_bytes nan (F_u32 v) = le_bytes 4 (nat v)" | "field_bytes nan (F_uint v) = varint v"
| "field_bytes nan (F_int v) = varint (if v < 0 then - v * 2 - 1 else v * 2)"
| "field_bytes nan (F_optional v) = varint (case v of None \<Rightarrow> 0 | Some v \<Rightarrow> v + 1)" | "field_bytes nan (F_f64 v) = le64 (encoding_of nan v)"
| "field_bytes nan (F_bytes v) = varint (int (length v)) @ v"
| "field_bytes nan (F_string v) = varint (int (length (utf8_encode v))) @ utf8_encode v"
| "field_bytes nan (F_bigint v) = bigint_field (bigint_bits 8 v div 8) v"

definition writes :: "(byte_writer \<Rightarrow> byte_writer result) \<Rightarrow> byte list \<Rightarrow> bool" where
  "writes put bs \<longleftrightarrow> (\<forall>w. writer_ok w \<longrightarrow> (\<exists>w'. put w = Inr w' \<and> writer_ok w' \<and> finish w' = finish w @ bs))"

lemma writes_pure: "appends f bs \<Longrightarrow> writes (\<lambda>w. Inr (f w)) bs"
  by (simp add: writes_def appends_def)

lemma writes_bind: "writes f as \<Longrightarrow> writes g bs \<Longrightarrow> writes (\<lambda>w. bindR (f w) g) (as @ bs)"
  by (fastforce simp: writes_def)

lemma writes_uint: "0 \<le> n \<Longrightarrow> n \<le> MAX_SAFE_INTEGER \<Longrightarrow> writes (put_uint n) (varint n)"
  using writes_pure [OF uint_bytes_appends [of n]] by (simp add: put_uint_def [abs_def] safe_int_defs)

lemma writes_bytes: "int (length bs) \<le> MAX_SAFE_INTEGER \<Longrightarrow> writes (put_bytes bs) (varint (int (length bs)) @ bs)"
  unfolding put_bytes_def [abs_def] by (intro writes_bind writes_uint writes_pure appends_reserved) simp_all

lemma bigint_appends: "0 \<le> rest \<Longrightarrow> appends (\<lambda>w. bigint_bytes k rest (reserve k w)) (le_bytes k (nat rest))"
  using reserve_room bigint_bytes_append by (simp add: appends_def)

lemma writes_bigint:
  assumes "count = bigint_bits 8 v div 8" "count \<le> 4096"
  shows "writes (put_bigint v) (bigint_field count v)"
proof -
  have "bigint_bits 8 v = count * 8" using bigint_width(1) [of v] assms(1) by simp
  then show ?thesis unfolding put_bigint_def [abs_def] Let_def assms(1) [symmetric] bigint_field_def as_uint_n_def
    by (intro writes_bind writes_uint writes_pure) (use assms(2) bigint_appends [of "take_bit (count * 8) v" count] in \<open>simp_all add: MAX_SAFE_INTEGER_def\<close>)
qed

lemma put_field_writes: "field_ok f \<Longrightarrow> writes (put_field nan f) (field_bytes nan f)"
proof (cases f)
  case (F_u32 v)
  assume "field_ok f"
  then show ?thesis using writes_pure [OF put_u32_appends [of v]] F_u32 by (simp add: writes_def)
next
  case (F_int v)
  assume "field_ok f"
  then show ?thesis using writes_uint [of "if v < 0 then - v * 2 - 1 else v * 2"] F_int
    by (auto simp: writes_def put_int_def safe_int_defs)
next
  case (F_optional v)
  assume "field_ok f"
  then show ?thesis using writes_uint [of "case v of None \<Rightarrow> 0 | Some v \<Rightarrow> v + 1"] F_optional
    by (cases v) (simp_all add: writes_def put_optional_uint_def safe_int_defs)
next
  case (F_bigint v)
  assume "field_ok f"
  then show ?thesis using writes_bigint [OF refl] bigint_count [of v] F_bigint by (simp add: writes_def)
qed (use writes_pure [OF put_u8_appends] writes_uint writes_pure [OF put_f64_appends] writes_bytes in \<open>simp_all add: writes_def put_string_def\<close>)

lemma get_field_reads: "f64_is_nan nan \<Longrightarrow> field_ok f \<Longrightarrow> reads (get_field (kind_of f)) (field_bytes nan f) f"
proof (cases f)
  case (F_u8 v)
  assume "f64_is_nan nan" "field_ok f"
  then have "uint (word_of_int v :: byte) = v" using F_u8 by (simp add: uint_word_of_int)
  then show ?thesis using reads_map [OF get_u8_reads [of "word_of_int v"], of F_u8] F_u8 by simp
next
  case (F_u32 v)
  assume "f64_is_nan nan" "field_ok f"
  then show ?thesis using reads_map [OF get_u32_reads [of "nat v"], of F_u32] F_u32 by (simp add: nat_less_iff)
next
  case (F_int v)
  assume "f64_is_nan nan" "field_ok f"
  then show ?thesis using reads_map [OF get_int_reads [of v], of F_int] F_int by simp
next
  case (F_optional v)
  assume "f64_is_nan nan" "field_ok f"
  then show ?thesis using reads_map [OF get_optional_reads [of v], of F_optional] F_optional by (cases v) simp_all
next
  case (F_f64 v)
  assume "f64_is_nan nan" "field_ok f"
  then show ?thesis using reads_map [OF get_f64_reads [of "encoding_of nan v"], of F_f64] F_f64 number_of_encoding [of nan v] by simp
next
  case (F_bigint v)
  assume "f64_is_nan nan" "field_ok f"
  moreover note w = bigint_width [of v]
  moreover have "bigint_bits 8 v div 8 * 8 = bigint_bits 8 v" "(bigint_bits 8 v div 8 - 1) * 8 = bigint_bits 8 v - 8"
    using w(1) by (simp_all add: diff_mult_distrib)
  moreover have "1 \<le> bigint_bits 8 v div 8" using w(2) by simp
  ultimately show ?thesis using get_bigint_reads [of "bigint_bits 8 v div 8" v] bigint_count [of v] F_bigint
    by (auto intro!: reads_map)
qed (auto intro!: reads_map get_uint_reads get_bytes_reads get_string_reads
    simp: safe_int_defs split: option.splits)

lemma put_fields_writes: "\<forall>f \<in> set fs. field_ok f \<Longrightarrow> writes (put_fields nan fs) (concat (map (field_bytes nan) fs))"
proof (induction fs)
  case (Cons f fs)
  then show ?case using writes_bind [OF put_field_writes [of f nan], of "put_fields nan fs" "concat (map (field_bytes nan) fs)"] by (simp add: writes_def)
qed (simp add: writes_def)

lemma get_fields_reads: "f64_is_nan nan \<Longrightarrow> \<forall>f \<in> set fs. field_ok f \<Longrightarrow> reads (get_fields (map kind_of fs)) (concat (map (field_bytes nan) fs)) fs"
proof (induction fs)
  case (Cons f fs)
  then have "reads (bindE (get_fields (map kind_of fs)) (\<lambda>fs. retE (f # fs))) (concat (map (field_bytes nan) fs)) (f # fs)"
    by (intro reads_map) simp
  then show ?case using reads_bind [OF get_field_reads [of nan f]] Cons.prems by simp
qed (simp add: reads_ret)

text \<open>
  Fields written one after another are read back: every writer method accepts the values of its range, the same
  sequence of reader methods returns them in order from the finished bytes, and \<open>end\<close> finds nothing left over. The ranges are
  those of \<open>field_ok\<close>: zigzag integers from -2^52 to 2^52 - 1, bigints of at most 4096 bytes, strings without lone surrogates, every
  Number as a double, NaN included, whichever NaN encoding the engine stores.
\<close>

theorem fields_roundtrip:
  assumes "\<forall>f \<in> set fs. field_ok f" "f64_is_nan nan"
  shows "\<exists>w r. put_fields nan fs new_writer = Inr w \<and> get_fields (map kind_of fs) (new_reader (finish w)) = (r, Inr fs)
    \<and> end_of_blob r = (r, Inr ())"
proof -
  let ?bs = "concat (map (field_bytes nan) fs)"
  have "writer_ok new_writer" "finish new_writer = []" by (simp_all add: new_writer_def writer_ok_def finish_def slice_of_def)
  then obtain w where w: "put_fields nan fs new_writer = Inr w" "finish w = ?bs" using put_fields_writes [OF assms(1), of nan] by (auto simp: writes_def)
  have "get_fields (map kind_of fs) \<lparr>r_bytes = ?bs, r_at = 0\<rparr> = (\<lparr>r_bytes = ?bs, r_at = length ?bs\<rparr>, Inr fs)"
    using get_fields_reads [OF assms(2,1), unfolded reads_def, rule_format, of "[]" "[]"] by simp
  then show ?thesis using w by (auto simp: new_reader_def end_of_blob_def valid_def)
qed

lemma fields_roundtrip_witness:
  "\<exists>w r. put_fields NOT_A_NUMBER [F_uint 300, F_int (- 5), F_bigint (- 129), F_string [104, 105], F_optional None] new_writer = Inr w
    \<and> get_fields [K_uint, K_int, K_bigint, K_string, K_optional] (new_reader (finish w))
      = (r, Inr [F_uint 300, F_int (- 5), F_bigint (- 129), F_string [104, 105], F_optional None]) \<and> end_of_blob r = (r, Inr ())"
proof -
  have "bigint_in_range (- 129)" unfolding bigint_in_range_def by (rule fits_wider [of 16]) (simp_all add: as_int_n_fits)
  moreover have "paired [104, 105]" "length (utf8_encode [104, 105]) = 2"
    by (simp_all add: high_surrogate_def low_surrogate_def utf8_encode_def length_utf8_char)
  ultimately show ?thesis using fields_roundtrip [OF _ nan_is_nan, of "[F_uint 300, F_int (- 5), F_bigint (- 129), F_string [104, 105], F_optional None]"]
    by (simp add: MAX_SAFE_INTEGER_def)
qed

text \<open>The signed varint does not reach every safe integer: from 2^52 on, twice the value is past what \<open>uint\<close> accepts.\<close>

lemma signed_varint_range:
  "2 ^ 52 \<le> v \<Longrightarrow> v \<le> MAX_SAFE_INTEGER \<Longrightarrow> is_safe_integer v \<and> put_int v w = Inl (RangeError ''Not an unsigned safe integer'')"
  by (simp add: put_int_def put_uint_def safe_int_defs)

subsection \<open>Bytes that nobody wrote\<close>

definition sound :: "(byte_reader, 'a) eff \<Rightarrow> bool" where
  "sound g \<longleftrightarrow> (\<forall>r r' res. r_at r \<le> length (r_bytes r) \<longrightarrow> g r = (r', res) \<longrightarrow>
     r_bytes r' = r_bytes r \<and> r_at r \<le> r_at r' \<and> r_at r' \<le> length (r_bytes r) \<and> (\<forall>e. res = Inl e \<longrightarrow> (\<exists>m. e = CorruptionError m)))"

lemma soundD:
  assumes "sound g" "g r = (r', res)" "r_at r \<le> length (r_bytes r)"
  shows "r_bytes r' = r_bytes r" "r_at r \<le> r_at r'" "r_at r' \<le> length (r_bytes r)" "res = Inl e \<Longrightarrow> \<exists>m. e = CorruptionError m"
  using assms unfolding sound_def by blast+

lemma sound_bind:
  assumes "sound g" "\<And>x. sound (f x)"
  shows "sound (bindE g f)"
  unfolding sound_def
proof (intro allI impI)
  fix r r' res
  assume a: "r_at r \<le> length (r_bytes r)" "bindE g f r = (r', res)"
  show "r_bytes r' = r_bytes r \<and> r_at r \<le> r_at r' \<and> r_at r' \<le> length (r_bytes r) \<and> (\<forall>e. res = Inl e \<longrightarrow> (\<exists>m. e = CorruptionError m))"
    using a(2)
  proof (cases rule: bindE_cases)
    case (throws s' e)
    then show ?thesis using soundD [OF assms(1) throws(1) a(1)] by auto
  next
    case (goes_on s' x)
    note s = soundD [OF assms(1) goes_on(1) a(1)]
    from goes_on(2) have "f x s' = (r', res)" by simp
    from soundD [OF assms(2) this] s show ?thesis by auto
  qed
qed

lemma sound_ret: "sound (retE x)"
  by (simp add: sound_def)

lemma sound_valid: "sound (valid c m)"
  by (cases c) (auto simp: sound_def valid_def guardR_def)

lemma sound_read: "sound (bindE (need n) (\<lambda>_. read_with (nat n) get))"
  by (auto simp: sound_def bindE_def need_def valid_def read_with_def guardR_def split: if_splits)

lemma uint_loop_sound:
  "uint_loop bytes k at acc scale = res \<Longrightarrow> (case res of Inl e \<Rightarrow> \<exists>m. e = CorruptionError m | Inr (at', v) \<Rightarrow> at \<le> at' \<and> at' \<le> length bytes)"
proof (induction bytes k at acc scale arbitrary: res rule: uint_loop.induct)
  case (1 bytes k at acc scale)
  show ?case
  proof (cases "8 \<le> k \<or> length bytes \<le> at \<or> bytes ! at < 0x80")
    case True
    then show ?thesis using 1(2) by (subst (asm) uint_loop.simps) (auto simp: Let_def guardR_def split: if_splits)
  next
    case False
    then have "(case res of Inl e \<Rightarrow> \<exists>m. e = CorruptionError m | Inr (at', v) \<Rightarrow> at + 1 \<le> at' \<and> at' \<le> length bytes)"
      using 1(2) by (intro 1(1) [OF _ _ refl refl]) (auto simp: uint_loop.simps [of bytes k at acc] Let_def)
    then show ?thesis by (auto split: sum.splits)
  qed
qed

lemma sound_uint: "sound get_uint"
  unfolding sound_def get_uint_def using uint_loop_sound [OF refl] by (fastforce split: sum.splits)

lemma sound_bytes: "sound get_bytes"
  unfolding get_bytes_def by (intro sound_bind sound_uint sound_read)

lemma sound_string: "sound get_string"
  unfolding sound_def
proof (intro allI impI)
  fix r r' res
  assume a: "r_at r \<le> length (r_bytes r)" "get_string r = (r', res)"
  obtain s x where s: "get_bytes r = (s, x)" by fastforce
  show "r_bytes r' = r_bytes r \<and> r_at r \<le> r_at r' \<and> r_at r' \<le> length (r_bytes r) \<and> (\<forall>e. res = Inl e \<longrightarrow> (\<exists>m. e = CorruptionError m))"
    using a(2) soundD [OF sound_bytes s a(1)] s
    by (cases x) (auto simp: get_string_def catchE_def bindE_def decoded_text_def split: option.splits)
qed

lemma bindE_assoc: "bindE (bindE g f) h = bindE g (\<lambda>x. bindE (f x) h)"
  by (auto simp: bindE_def fun_eq_iff split: prod.splits sum.splits)

lemma sound_bigint: "sound get_bigint"
  unfolding get_bigint_def Let_def bindE_assoc [symmetric, of "need _"]
  by (intro sound_bind sound_uint sound_valid sound_read sound_ret)

lemma sound_fixed: "sound get_u8" "sound get_u32" "sound get_f64"
  using sound_read [of 1] sound_read [of 4] sound_read [of 8] by (simp_all add: get_u8_def get_u32_def get_f64_def)

lemma sound_field: "sound (get_field k)"
  by (cases k) (simp_all only: get_field.simps get_int_def get_optional_uint_def bindE_assoc,
    auto intro!: sound_bind sound_ret sound_uint sound_bytes sound_string sound_bigint sound_fixed)

lemma sound_fields: "sound (get_fields ks)"
  by (induction ks) (simp_all only: get_fields.simps, (intro sound_bind sound_field sound_ret | assumption)+)

subsection \<open>Canonical bytes\<close>

lemma uint_loop_canonical:
  "uint_loop bytes k at acc scale = Inr (at', v) \<Longrightarrow> \<exists>n. 0 \<le> n \<and> v = acc + n * scale \<and> slice_of bytes at at' = varint n \<and> (k = 0 \<or> n \<noteq> 0) \<and> v \<le> MAX_SAFE_INTEGER"
proof (induction bytes k at acc scale rule: uint_loop.induct)
  case (1 bytes k at acc scale)
  let ?b = "bytes ! at"
  have k: "\<not> 8 \<le> k" "\<not> length bytes \<le> at" using "1.prems" by (auto simp: uint_loop.simps [of bytes k at acc] split: if_splits)
  show ?case
  proof (cases "?b < 0x80")
    case True
    then have u: "uint ?b < 128" by (simp add: byte_less)
    have e: "at' = at + 1" "v = acc + uint ?b * scale" "k = 0 \<or> ?b \<noteq> 0" "v \<le> MAX_SAFE_INTEGER"
      using "1.prems" True k u by (auto simp: uint_loop.simps [of bytes k at acc] Let_def guardR_def low_7_bits split: if_splits)
    have "slice_of bytes at at' = varint (uint ?b)"
      using k u slice_Cons [of at "at + 1" bytes] slice_Nil [of "at + 1" "at + 1" bytes] by (simp add: varint.simps [of "uint ?b"] e(1) at0_nth)
    then show ?thesis using e by (intro exI [of _ "uint ?b"]) (auto simp: unsigned_eq_0_iff)
  next
    case False
    have u: "128 \<le> uint ?b" "uint ?b < 256" using False byte_bound [of ?b] by (simp_all add: byte_less)
    have step: "uint_loop bytes (k + 1) (at + 1) (acc + uint (?b AND 127) * scale) (scale * 128) = Inr (at', v)"
      using "1.prems" False k by (simp add: uint_loop.simps [of bytes k at acc] Let_def)
    have "\<exists>n. 0 \<le> n \<and> v = acc + uint (?b AND 127) * scale + n * (scale * 128) \<and> slice_of bytes (at + 1) at' = varint n
        \<and> (k + 1 = 0 \<or> n \<noteq> 0) \<and> v \<le> MAX_SAFE_INTEGER"
      by (rule "1.IH" [OF k refl refl False step])
    then obtain n where n: "0 \<le> n" "v = acc + uint (?b AND 127) * scale + n * (scale * 128)" "slice_of bytes (at + 1) at' = varint n" "n \<noteq> 0"
      "v \<le> MAX_SAFE_INTEGER" by auto
    let ?n = "uint ?b - 128 + 128 * n"
    have c: "(uint ?b - 128) mod 128 = uint ?b - 128" by (rule mod_pos_pos_trivial) (use u in simp_all)
    have m: "uint ?b mod 128 = uint ?b - 128" using c by (simp only: minus_mod_self2)
    have d: "(uint ?b - 128) div 128 = 0" by (rule div_pos_pos_trivial) (use u in simp_all)
    have "?n mod 128 = uint ?b - 128" "?n div 128 = n"
      using c d mod_mult_self2 [of "uint ?b - 128" 128 n] div_mult_self2 [of 128 "uint ?b - 128" n] by (simp_all only: add_0_right)
    then have "varint ?n = ?b # varint n" using u n(1,4) by (simp add: varint.simps [of ?n])
    moreover have "at + 1 \<le> at'" "at' \<le> length bytes" using uint_loop_sound [OF step] by simp_all
    then have "slice_of bytes at at' = ?b # varint n" using slice_Cons [of at at' bytes] k n(3) by (simp add: at0_nth)
    moreover have "v = acc + ?n * scale" using n(2) by (simp add: low_7_bits m algebra_simps)
    ultimately show ?thesis using n u by (intro exI [of _ ?n]) simp
  qed
qed

definition reprints :: "(byte_reader, 'a) eff \<Rightarrow> ('a \<Rightarrow> byte_writer \<Rightarrow> byte_writer result) \<Rightarrow> bool" where
  "reprints g put \<longleftrightarrow> (\<forall>r r' x. r_at r \<le> length (r_bytes r) \<longrightarrow> g r = (r', Inr x) \<longrightarrow> writes (put x) (slice_of (r_bytes r) (r_at r) (r_at r')))"

lemma get_uint_canonical:
  assumes "get_uint r = (r', Inr v)"
  shows "0 \<le> v" "v \<le> MAX_SAFE_INTEGER" "slice_of (r_bytes r) (r_at r) (r_at r') = varint v"
  using assms uint_loop_canonical [of "r_bytes r" 0 "r_at r" 0 1] by (auto simp: get_uint_def split: sum.splits prod.splits)

lemma bind_Inr:
  assumes "bindE g f r = (r', Inr y)"
  obtains s x where "g r = (s, Inr x)" "f x s = (r', Inr y)"
  using assms by (cases rule: bindE_cases) auto

lemma reprintsI: "(\<And>r r' x. r_at r \<le> length (r_bytes r) \<Longrightarrow> g r = (r', Inr x) \<Longrightarrow> writes (put x) (slice_of (r_bytes r) (r_at r) (r_at r'))) \<Longrightarrow> reprints g put"
  by (simp add: reprints_def)

lemma need_Inr: "need n r = (s, Inr u) \<longleftrightarrow> s = r \<and> 0 \<le> n \<and> int (r_at r) + n \<le> int (length (r_bytes r))"
  by (auto simp: need_def valid_def guardR_def)

lemma valid_Inr: "valid c m r = (s, Inr u) \<longleftrightarrow> s = r \<and> c"
  by (auto simp: valid_def guardR_def)

lemma read_Inr: "bindE (need n) (\<lambda>_. read_with k get) r = (r', Inr x) \<longleftrightarrow>
    0 \<le> n \<and> int (r_at r) + n \<le> int (length (r_bytes r)) \<and> r' = r\<lparr>r_at := r_at r + k\<rparr> \<and> x = get (r_bytes r) (r_at r)"
  by (auto simp: bindE_def need_def valid_def read_with_def guardR_def)

lemma reprints_u8: "reprints get_u8 (\<lambda>v w. Inr (put_u8 v w))"
proof (rule reprintsI)
  fix r r' x assume "get_u8 r = (r', Inr x)"
  then have r: "r_at r < length (r_bytes r)" "r_at r' = r_at r + 1" "x = uint (r_bytes r ! r_at r)"
    by (auto simp: get_u8_def read_Inr at0_nth)
  then have "slice_of (r_bytes r) (r_at r) (r_at r') = [word_of_int x]"
    using slice_Cons [of "r_at r" "r_at r + 1" "r_bytes r"] slice_Nil [of "r_at r + 1" "r_at r + 1" "r_bytes r"] by (simp add: at0_nth)
  then show "writes (\<lambda>w. Inr (put_u8 x w)) (slice_of (r_bytes r) (r_at r) (r_at r'))" by (simp add: writes_pure put_u8_appends)
qed

lemma reprints_u32: "reprints get_u32 (\<lambda>v w. Inr (put_u32 v w))"
proof (rule reprintsI)
  fix r r' x assume "get_u32 r = (r', Inr x)"
  then have r: "r_at r + 4 \<le> length (r_bytes r)" "r_at r' = r_at r + 4" "x = int (get_le 4 (r_bytes r) (r_at r))"
    by (auto simp: get_u32_def read_Inr)
  have "get_le 4 (r_bytes r) (r_at r) < 2 ^ 32"
    using le_val_bound [of "slice_of (r_bytes r) (r_at r) (r_at r + 4)"] r(1) by (simp add: get_le_def)
  then have "le_bytes 4 (nat (x mod 2 ^ 32)) = slice_of (r_bytes r) (r_at r) (r_at r')"
    using r slice_le_bytes [of "r_at r" 4 "r_bytes r"] by simp
  then show "writes (\<lambda>w. Inr (put_u32 x w)) (slice_of (r_bytes r) (r_at r) (r_at r'))"
    using put_u32_appends [of x] by (simp add: writes_pure)
qed

text \<open>A double that is not NaN is written as the pattern it was read from.\<close>

lemma f64_reprints:
  assumes "get_f64 r = (r', Inr x)" "\<not> f64_is_nan x"
  shows "writes (\<lambda>w. Inr (put_f64 nan x w)) (slice_of (r_bytes r) (r_at r) (r_at r'))"
proof -
  have r: "r_at r + 8 \<le> length (r_bytes r)" "r_at r' = r_at r + 8" "x = number_of (get64 (r_bytes r) (r_at r))"
    using assms(1) by (auto simp: get_f64_def read_Inr)
  then have "encoding_of nan x = get64 (r_bytes r) (r_at r)"
    using assms(2) nan_is_nan by (auto simp: number_of_def encoding_of_def split: if_splits)
  then show ?thesis using put_f64_appends [of nan x] le64_get64 [OF r(1)] r(2) by (simp add: writes_pure)
qed

lemma reprints_uint: "reprints get_uint put_uint"
  by (rule reprintsI) (use get_uint_canonical writes_uint in auto)

lemma unzigzag: "0 \<le> z \<Longrightarrow> x = (if z mod 2 = 0 then z div 2 else - ((z + 1) div 2)) \<Longrightarrow> (if x < 0 then - x * 2 - 1 else x * 2) = (z :: int)"
  by (cases "z mod 2 = 0") (auto elim!: evenE oddE simp: mod_2_eq_odd even_iff_mod_2_eq_zero [symmetric])

lemma reprints_int: "reprints get_int put_int"
proof (rule reprintsI)
  fix r r' x assume "get_int r = (r', Inr x)"
  then obtain z where z: "get_uint r = (r', Inr z)" "x = (if z mod 2 = 0 then z div 2 else - ((z + 1) div 2))"
    unfolding get_int_def by (elim bind_Inr) auto
  note c = get_uint_canonical [OF z(1)]
  have u: "(if x < 0 then - x * 2 - 1 else x * 2) = z" by (rule unzigzag [OF c(1) z(2)])
  then have "is_safe_integer x" using c(1,2) by (auto simp: safe_int_defs split: if_splits)
  then have "put_int x = put_uint z" unfolding put_int_def [abs_def] u by simp
  then show "writes (put_int x) (slice_of (r_bytes r) (r_at r) (r_at r'))" using writes_uint [OF c(1,2)] c(3) by simp
qed

lemma reprints_optional: "reprints get_optional_uint put_optional_uint"
proof (rule reprintsI)
  fix r r' x assume "get_optional_uint r = (r', Inr x)"
  then obtain z where z: "get_uint r = (r', Inr z)" "x = (if z = 0 then None else Some (z - 1))"
    unfolding get_optional_uint_def by (elim bind_Inr) auto
  have "put_optional_uint x = put_uint z" using z(2) by (simp add: put_optional_uint_def [abs_def])
  then show "writes (put_optional_uint x) (slice_of (r_bytes r) (r_at r) (r_at r'))"
    using get_uint_canonical [OF z(1)] writes_uint [of z] by simp
qed

lemma get_bytes_Inr:
  assumes "get_bytes r = (r', Inr bs)" "r_at r \<le> length (r_bytes r)"
  shows "slice_of (r_bytes r) (r_at r) (r_at r') = varint (int (length bs)) @ bs" "int (length bs) \<le> MAX_SAFE_INTEGER"
proof -
  obtain s n where s: "get_uint r = (s, Inr n)" "bindE (need n) (\<lambda>_. read_with (nat n) (\<lambda>bytes at. slice_of bytes at (at + nat n))) s = (r', Inr bs)"
    using assms(1) unfolding get_bytes_def by (erule bind_Inr)
  note c = get_uint_canonical [OF s(1)] and d = soundD [OF sound_uint s(1) assms(2)]
  have e: "int (r_at s) + n \<le> int (length (r_bytes r))" "r_at r' = r_at s + nat n" "bs = slice_of (r_bytes r) (r_at s) (r_at s + nat n)"
    using s(2) d(1) by (auto simp: read_Inr)
  then have l: "int (length bs) = n" using c(1) by simp
  then show "int (length bs) \<le> MAX_SAFE_INTEGER" using c(2) by simp
  have "slice_of (r_bytes r) (r_at r) (r_at s) @ slice_of (r_bytes r) (r_at s) (r_at r') = slice_of (r_bytes r) (r_at r) (r_at r')"
    by (rule slice_append) (use d(2) e(2) in simp_all)
  then show "slice_of (r_bytes r) (r_at r) (r_at r') = varint (int (length bs)) @ bs" using c(3) e l by simp
qed

lemma reprints_bytes: "reprints get_bytes put_bytes"
  by (rule reprintsI) (use get_bytes_Inr writes_bytes in auto)

text \<open>A byte string that the decoder accepts is the encoding of what it decodes to.\<close>

lemma u8_unat: "u8 (unat b) = b"
  by (simp add: u8_def)

lemma char_2: "2 \<le> a \<Longrightarrow> a < 32 \<Longrightarrow> b < 64 \<Longrightarrow> utf8_char (a * 64 + b) = [u8 (0xc0 + a), u8 (0x80 + b)]"
  by (simp add: utf8_char_def)

lemma digit_64: "c < 64 \<Longrightarrow> (x * 64 + c) div 64 = x" "c < 64 \<Longrightarrow> (x * 64 + c) mod 64 = (c :: nat)"
  by simp_all

lemma div_4096: "(p :: nat) div 4096 = p div 64 div 64" "p div 262144 = p div 64 div 64 div 64"
  by (simp_all flip: div_mult2_eq)

lemma char_3:
  assumes "a < 16" "b < 64" "c < 64" "\<not> (a = 0 \<and> b < 32)"
  shows "utf8_char (a * 4096 + b * 64 + c) = [u8 (0xe0 + a), u8 (0x80 + b), u8 (0x80 + c)]"
proof -
  let ?p = "a * 4096 + b * 64 + c"
  have q: "?p = (a * 64 + b) * 64 + c" by simp
  have "?p div 64 = a * 64 + b" "?p mod 64 = c" unfolding q by (rule digit_64 [OF assms(3)])+
  moreover from this have "?p div 4096 = a" using digit_64 [OF assms(2), of a] by (simp add: div_4096)
  moreover have "2047 < ?p" "?p \<le> 65535" using assms by linarith+
  ultimately show ?thesis using digit_64 [OF assms(2), of a] by (simp add: utf8_char_def)
qed

lemma char_4:
  assumes "a < 8" "b < 64" "c < 64" "d < 64" "\<not> (a = 0 \<and> b < 16)"
  shows "utf8_char (a * 262144 + b * 4096 + c * 64 + d) = [u8 (0xf0 + a), u8 (0x80 + b), u8 (0x80 + c), u8 (0x80 + d)]"
proof -
  let ?p = "a * 262144 + b * 4096 + c * 64 + d"
  have q: "?p = ((a * 64 + b) * 64 + c) * 64 + d" by simp
  have "?p div 64 = (a * 64 + b) * 64 + c" "?p mod 64 = d" unfolding q by (rule digit_64 [OF assms(4)])+
  moreover from this have "?p div 4096 = a * 64 + b" "?p div 262144 = a"
    using digit_64 [OF assms(3), of "a * 64 + b"] digit_64 [OF assms(2), of a] by (simp_all only: div_4096)
  moreover have "65535 < ?p" using assms by linarith
  ultimately show ?thesis using digit_64 [OF assms(3), of "a * 64 + b"] digit_64 [OF assms(2), of a] by (simp add: utf8_char_def)
qed

lemma code_points_utf16: "scalar p \<Longrightarrow> code_points (utf16 p @ rest) = p # code_points rest"
proof (cases "p \<le> 0xffff")
  case True
  moreover assume "scalar p"
  ultimately show ?thesis using utf16_unit_surrogates [of p] by (simp add: utf16_def unat_unit)
next
  case False
  assume "scalar p"
  then have "p - 65536 < 1048576" using False by (simp add: scalar_def)
  then have b: "(p - 65536) div 1024 < 1024" "(p - 65536) mod 1024 < 1024"
    by (simp_all add: less_mult_imp_div_less)
  define x y where "x = (p - 65536) div 1024" and "y = (p - 65536) mod 1024"
  have "high_surrogate (u16 (0xd800 + x))" "low_surrogate (u16 (0xdc00 + y))" "unat (u16 (0xd800 + x)) = 0xd800 + x" "unat (u16 (0xdc00 + y)) = 0xdc00 + y"
    using b by (simp_all add: x_def [symmetric] y_def [symmetric] high_surrogate_def low_surrogate_def unat_unit)
  moreover have "65536 + x * 1024 + y = p" using False by (simp add: x_def y_def)
  ultimately show ?thesis using False by (simp add: utf16_def x_def [symmetric] y_def [symmetric])
qed

lemma code_points_utf16s: "\<forall>p \<in> set ps. scalar p \<Longrightarrow> code_points (concat (map utf16 ps)) = ps"
  by (induction ps) (simp_all add: code_points_utf16)

lemma low6: "cont_byte b \<Longrightarrow> low6 b < 64" "cont_byte b \<Longrightarrow> u8 (0x80 + low6 b) = b"
  by (auto simp: cont_byte_def low6_def u8_unat)

lemma decoded_char_3:
  assumes "0xe0 \<le> unat b" "unat b \<le> 0xef" "second_ok (unat b) b1" "cont_byte b2"
  defines "p \<equiv> (unat b - 0xe0) * 4096 + low6 b1 * 64 + low6 b2"
  shows "scalar p" "utf8_char p = [b, b1, b2]"
proof -
  have c: "cont_byte b1" using assms(3) by (simp add: second_ok_def)
  have l: "low6 b1 < 64" "low6 b2 < 64" using low6 c assms(4) by auto
  have e: "\<not> (unat b - 0xe0 = 0 \<and> low6 b1 < 32)" "\<not> (unat b - 0xe0 = 13 \<and> 31 < low6 b1)"
    using assms(1,3) by (auto simp: second_ok_def low6_def cont_byte_def)
  show "utf8_char p = [b, b1, b2]" unfolding p_def
    using char_3 [OF _ l e(1)] assms(1,2) low6(2) [OF c] low6(2) [OF assms(4)] u8_unat [of b] by simp
  obtain a where a: "unat b = 0xe0 + a" "a < 16" using assms(1,2) that [of "unat b - 0xe0"] by simp
  have "p = a * 4096 + low6 b1 * 64 + low6 b2" by (simp add: p_def a(1))
  moreover consider "a \<le> 12" | "a = 13" "low6 b1 \<le> 31" | "14 \<le> a" using e(2) a(1) by fastforce
  then have "a * 4096 + low6 b1 * 64 + low6 b2 < 0xd800 \<or> 0xdfff < a * 4096 + low6 b1 * 64 + low6 b2"
    by cases (use l in linarith)+
  ultimately show "scalar p" using a(2) l by (auto simp: scalar_def)
qed

lemma decoded_char_4:
  assumes "0xf0 \<le> unat b" "unat b \<le> 0xf4" "second_ok (unat b) b1" "cont_byte b2" "cont_byte b3"
  defines "p \<equiv> (unat b - 0xf0) * 262144 + low6 b1 * 4096 + low6 b2 * 64 + low6 b3"
  shows "scalar p" "utf8_char p = [b, b1, b2, b3]"
proof -
  have c: "cont_byte b1" using assms(3) by (simp add: second_ok_def)
  have l: "low6 b1 < 64" "low6 b2 < 64" "low6 b3 < 64" using low6 c assms(4,5) by auto
  have e: "\<not> (unat b - 0xf0 = 0 \<and> low6 b1 < 16)" "\<not> (unat b - 0xf0 = 4 \<and> 15 < low6 b1)"
    using assms(1,3) by (auto simp: second_ok_def low6_def cont_byte_def)
  show "utf8_char p = [b, b1, b2, b3]" unfolding p_def
    using char_4 [OF _ l e(1)] assms(1,2) low6(2) [OF c] low6(2) [OF assms(4)] low6(2) [OF assms(5)] u8_unat [of b] by simp
  obtain a where a: "unat b = 0xf0 + a" "a < 5" using assms(1,2) that [of "unat b - 0xf0"] by simp
  then show "scalar p" using l e unfolding p_def scalar_def by simp linarith
qed

lemma decoded_char_2:
  assumes "0xc2 \<le> unat b" "unat b \<le> 0xdf" "cont_byte b1"
  defines "p \<equiv> (unat b - 0xc0) * 64 + low6 b1"
  shows "scalar p" "utf8_char p = [b, b1]"
proof -
  obtain a where a: "unat b = 0xc0 + a" "2 \<le> a" "a < 32" using assms(1,2) that [of "unat b - 0xc0"] by simp
  then show "utf8_char p = [b, b1]" unfolding p_def
    using char_2 [of a "low6 b1"] low6 [OF assms(3)] u8_unat [of b] by simp
  show "scalar p" using a low6 [OF assms(3)] unfolding p_def scalar_def by simp
qed

lemma decode_points_inverse: "decode_points bs = Some ps \<Longrightarrow> concat (map utf8_char ps) = bs \<and> (\<forall>p \<in> set ps. scalar p)"
proof (induction bs arbitrary: ps rule: decode_points.induct)
  case (2 b bs)
  have one: "utf8_char (unat b) = [b]" "scalar (unat b)" if "unat b \<le> 0x7f" using that u8_unat [of b] by (simp_all add: utf8_char_def scalar_def)
  consider "unat b \<le> 0x7f" | "0xc2 \<le> unat b" "unat b \<le> 0xdf" | "0xe0 \<le> unat b" "unat b \<le> 0xef" | "0xf0 \<le> unat b" "unat b \<le> 0xf4"
    using "2.prems" by (auto simp: Let_def split: if_splits)
  then show ?case
  proof cases
    case 1
    then show ?thesis using "2.prems" "2.IH"(1) [OF refl] one by (auto simp: Let_def)
  next
    case 2
    then obtain b1 r qs where b: "bs = b1 # r" "cont_byte b1" "decode_points r = Some qs" "ps = ((unat b - 0xc0) * 64 + low6 b1) # qs"
      using "2.prems" by (auto simp: Let_def split: list.splits if_splits)
    then have "concat (map utf8_char qs) = r \<and> (\<forall>p \<in> set qs. scalar p)" using 2 by (intro "2.IH"(2) [OF refl]) simp_all
    then show ?thesis using b decoded_char_2 [OF 2 b(2)] by simp
  next
    case 3
    then obtain b1 b2 r qs where b: "bs = b1 # b2 # r" "second_ok (unat b) b1" "cont_byte b2" "decode_points r = Some qs"
      "ps = ((unat b - 0xe0) * 4096 + low6 b1 * 64 + low6 b2) # qs"
      using "2.prems" by (auto simp: Let_def split: list.splits if_splits)
    then have "concat (map utf8_char qs) = r \<and> (\<forall>p \<in> set qs. scalar p)" using 3 by (intro "2.IH"(3) [OF refl]) simp_all
    then show ?thesis using b decoded_char_3 [OF 3 b(2,3)] by simp
  next
    case 4
    then obtain b1 b2 b3 r qs where b: "bs = b1 # b2 # b3 # r" "second_ok (unat b) b1" "cont_byte b2" "cont_byte b3" "decode_points r = Some qs"
      "ps = ((unat b - 0xf0) * 262144 + low6 b1 * 4096 + low6 b2 * 64 + low6 b3) # qs"
      using "2.prems" by (auto simp: Let_def split: list.splits if_splits)
    then have "concat (map utf8_char qs) = r \<and> (\<forall>p \<in> set qs. scalar p)" using 4 by (intro "2.IH"(4) [OF refl _ _ _ _ b(1) refl refl]) simp_all
    then show ?thesis using b(1,6) decoded_char_4 [OF 4 b(2) b(3) b(4)] by simp
  qed
qed simp

lemma decode_inverse:
  assumes "utf8_decode True bs = Some s"
  shows "utf8_encode s = bs" "paired s"
proof -
  obtain ps where ps: "decode_points bs = Some ps" "s = concat (map utf16 ps)" using assms by (auto simp: utf8_decode_def)
  note p = decode_points_inverse [OF ps(1)]
  show "utf8_encode s = bs" using p by (simp add: utf8_encode_def ps(2) code_points_utf16s)
  show "paired s" unfolding ps(2) using p by (intro paired_decoded) simp
qed

lemma reprints_string: "reprints get_string put_string"
proof (rule reprintsI)
  fix r r' x assume a: "r_at r \<le> length (r_bytes r)" "get_string r = (r', Inr x)"
  obtain s y where g: "get_bytes r = (s, y)" by fastforce
  then obtain bs where b: "get_bytes r = (r', Inr bs)" "utf8_decode True bs = Some x"
    using a(2) by (cases y) (auto simp: get_string_def catchE_def bindE_def decoded_text_def split: option.splits js_error.splits)
  show "writes (put_string x) (slice_of (r_bytes r) (r_at r) (r_at r'))"
    using get_bytes_Inr [OF b(1) a(1)] writes_bytes [of bs] decode_inverse [OF b(2)] by (simp add: put_string_def [abs_def])
qed

text \<open>The width the writer finds is the only whole number of bytes that holds the value and could not be one less.\<close>

lemma bigint_width_unique:
  assumes "1 \<le> count" "as_int_n (count * 8) v = v" "count = 1 \<or> as_int_n ((count - 1) * 8) v \<noteq> v"
  shows "bigint_bits 8 v = count * 8"
proof (rule ccontr)
  assume n: "bigint_bits 8 v \<noteq> count * 8"
  note w = bigint_width [of v]
  obtain c where c: "bigint_bits 8 v = c * 8" "1 \<le> c" using w(1,2) by (metis dvd_def mult.commute Suc_leI gr0I mult_0 not_numeral_le_zero One_nat_def)
  then consider "c \<le> count - 1" | "count * 8 \<le> c * 8 - 8" using n by fastforce
  then show False
  proof cases
    case 1
    then have "as_int_n ((count - 1) * 8) v = v" using fits_wider [of "c * 8" "(count - 1) * 8" v] w(3) c by simp
    then show False using assms(3) 1 c(2) by auto
  next
    case 2
    then have "as_int_n (c * 8 - 8) v = v" using fits_wider [of "count * 8" "c * 8 - 8" v] assms(1,2) by simp
    then show False using w(4) c 2 assms(1) by auto
  qed
qed

lemma get_bigint_Inr:
  assumes "get_bigint r = (r', Inr v)"
  obtains s c where "get_uint r = (s, Inr (int c))" "1 \<le> c" "c \<le> 4096" "r_at s + c \<le> length (r_bytes s)" "r_at r' = r_at s + c"
    "v = as_int_n (c * 8) (bigint_loop (r_bytes s) (r_at s) c 0)" "c = 1 \<or> as_int_n ((c - 1) * 8) v \<noteq> v"
proof -
  obtain s n where s: "get_uint r = (s, Inr n)" "bindE (valid (1 \<le> n \<and> n \<le> 4096) ''Bad bigint length'') (\<lambda>_.
     bindE (need n) (\<lambda>_.
     bindE (read_with (nat n) (\<lambda>bytes at. bigint_loop bytes at (nat n) 0)) (\<lambda>value.
       let signed = as_int_n (nat n * 8) value in
       bindE (valid (n = 1 \<or> as_int_n ((nat n - 1) * 8) signed \<noteq> signed) ''Bigint is not minimal'') (\<lambda>_. retE signed)))) s = (r', Inr v)"
    using assms unfolding get_bigint_def by (erule bind_Inr)
  then have n: "1 \<le> n" "n \<le> 4096" by (auto simp: bindE_def valid_def guardR_def split: if_splits)
  obtain c where "n = int c" using n nonneg_int_cases [of n] by force
  then show ?thesis using s n
    by (intro that [of s c]) (auto simp: bindE_def valid_def need_def read_with_def guardR_def Let_def split: if_splits)
qed

lemma reprints_bigint: "reprints get_bigint put_bigint"
proof (rule reprintsI)
  fix r r' v assume a: "r_at r \<le> length (r_bytes r)" "get_bigint r = (r', Inr v)"
  obtain s c where s: "get_uint r = (s, Inr (int c))" "1 \<le> c" "c \<le> 4096" "r_at s + c \<le> length (r_bytes s)" "r_at r' = r_at s + c"
    "v = as_int_n (c * 8) (bigint_loop (r_bytes s) (r_at s) c 0)" "c = 1 \<or> as_int_n ((c - 1) * 8) v \<noteq> v"
    using get_bigint_Inr [OF a(2)] .
  let ?u = "get_le c (r_bytes s) (r_at s)"
  have p: "(256 :: nat) ^ c = 2 ^ (c * 8)" by (simp add: power_mult [symmetric] mult.commute [of c] power_mult)
  have "?u < 2 ^ (c * 8)" using le_val_bound [of "slice_of (r_bytes s) (r_at s) (r_at s + c)"] s(4) by (simp add: get_le_def p)
  then have t: "take_bit (c * 8) (int ?u) = int ?u" by (simp add: take_bit_int_eq_self_iff)
  have v: "v = as_int_n (c * 8) (int ?u)" using s(4,6) by (simp add: bigint_loop_value)
  have "c * 8 \<noteq> 0" "\<not> c * 8 \<le> c * 8 - 1" using s(2) by simp_all
  then have f: "as_int_n (c * 8) v = v" "take_bit (c * 8) v = int ?u"
    unfolding v using t by (simp_all add: as_int_n_def take_bit_signed_take_bit)
  have b: "bigint_bits 8 v = c * 8" by (rule bigint_width_unique [OF s(2) f(1) s(7)])
  have "slice_of (r_bytes r) (r_at r) (r_at s) @ slice_of (r_bytes r) (r_at s) (r_at r') = slice_of (r_bytes r) (r_at r) (r_at r')"
    by (rule slice_append) (use soundD [OF sound_uint s(1) a(1)] s(5) in simp_all)
  then have "slice_of (r_bytes r) (r_at r) (r_at r') = bigint_field c v"
    using get_uint_canonical(3) [OF s(1)] f(2) slice_le_bytes [OF s(4)] s(5) soundD(1) [OF sound_uint s(1) a(1)] by (simp add: bigint_field_def)
  then show "writes (put_bigint v) (slice_of (r_bytes r) (r_at r) (r_at r'))" using writes_bigint [of c v] b s(3) by simp
qed

lemma reprints_map: "reprints g put \<Longrightarrow> (\<And>x. put' (c x) = put x) \<Longrightarrow> reprints (bindE g (\<lambda>x. retE (c x))) put'"
  by (rule reprintsI) (auto simp: reprints_def elim!: bind_Inr)

definition holds_nan :: "field \<Rightarrow> bool" where
  "holds_nan f \<longleftrightarrow> (case f of F_f64 v \<Rightarrow> f64_is_nan v | _ \<Rightarrow> False)"

lemma field_reprints:
  assumes "get_field k r = (r', Inr f)" "r_at r \<le> length (r_bytes r)" "\<not> holds_nan f"
  shows "writes (put_field nan f) (slice_of (r_bytes r) (r_at r) (r_at r'))"
proof (cases k)
  case K_f64
  then obtain x where x: "get_f64 r = (r', Inr x)" "f = F_f64 x" using assms(1) by (auto elim!: bind_Inr)
  then show ?thesis using f64_reprints [OF x(1), of nan] assms(3) by (simp add: holds_nan_def writes_def)
qed (use assms(1,2) reprints_u8 reprints_u32 reprints_uint reprints_int reprints_optional reprints_bytes reprints_string reprints_bigint
      in \<open>auto simp: reprints_def writes_def elim!: bind_Inr\<close>)

lemma fields_reprint:
  "get_fields ks r = (r', Inr fs) \<Longrightarrow> r_at r \<le> length (r_bytes r) \<Longrightarrow> \<forall>f \<in> set fs. \<not> holds_nan f
    \<Longrightarrow> writes (put_fields nan fs) (slice_of (r_bytes r) (r_at r) (r_at r'))"
proof (induction ks arbitrary: r fs)
  case Nil
  then show ?case by (simp add: writes_def slice_of_def)
next
  case (Cons k ks)
  obtain s f gs where s: "get_field k r = (s, Inr f)" "get_fields ks s = (r', Inr gs)" "fs = f # gs"
    using Cons.prems(1) by (auto elim!: bind_Inr)
  note d = soundD [OF sound_field s(1) Cons.prems(2)] and e = soundD [OF sound_fields s(2)]
  have "writes (put_field nan f) (slice_of (r_bytes r) (r_at r) (r_at s))" using field_reprints [OF s(1) Cons.prems(2)] Cons.prems(3) s(3) by simp
  moreover have "writes (put_fields nan gs) (slice_of (r_bytes r) (r_at s) (r_at r'))" using Cons.IH [OF s(2)] Cons.prems(3) s(3) d by simp
  ultimately have "writes (\<lambda>w. bindR (put_field nan f w) (put_fields nan gs)) (slice_of (r_bytes r) (r_at r) (r_at s) @ slice_of (r_bytes r) (r_at s) (r_at r'))"
    by (rule writes_bind)
  then show ?case using d e s(3) by (simp add: slice_append writes_def)
qed

text \<open>What a method returns is a value of its range.\<close>

lemma bigint_read_in_range:
  assumes "get_bigint r = (r', Inr v)"
  shows "bigint_in_range v"
proof -
  obtain s :: byte_reader and c where c: "1 \<le> c" "c \<le> 4096" "v = as_int_n (c * 8) (bigint_loop (r_bytes s) (r_at s) c 0)"
    using get_bigint_Inr [OF assms] by metis
  have "as_int_n b (as_int_n b x) = as_int_n b x" for b x by (simp add: as_int_n_def)
  from this [of "c * 8"] have "as_int_n (c * 8) v = v" unfolding c(3) .
  moreover have "0 < c * 8" "c * 8 \<le> 4096 * 8" using c(1,2) by simp_all
  ultimately show ?thesis unfolding bigint_in_range_def by (metis fits_wider)
qed

lemma read_field_ok:
  assumes "get_field k r = (r', Inr f)" "r_at r \<le> length (r_bytes r)"
  shows "field_ok f \<and> kind_of f = k"
proof (cases k)
  case K_u8
  then obtain x where "get_u8 r = (r', Inr x)" "f = F_u8 x" using assms(1) by (auto elim!: bind_Inr)
  then show ?thesis using K_u8 byte_bound by (auto simp: get_u8_def read_Inr)
next
  case K_u32
  then obtain x where g: "get_u32 r = (r', Inr x)" and f: "f = F_u32 x" using assms(1) by (auto elim!: bind_Inr)
  have x: "x = int (get_le 4 (r_bytes r) (r_at r))" "r_at r + 4 \<le> length (r_bytes r)" using g by (auto simp: get_u32_def read_Inr)
  have "get_le 4 (r_bytes r) (r_at r) < 2 ^ 32"
    using le_val_bound [of "slice_of (r_bytes r) (r_at r) (r_at r + 4)"] x(2) by (simp add: get_le_def)
  then show ?thesis using x f K_u32 by simp
next
  case K_uint
  then show ?thesis using assms(1) get_uint_canonical(1,2) by (auto elim!: bind_Inr)
next
  case K_int
  then obtain z where z: "get_uint r = (r', Inr z)" "f = F_int (if z mod 2 = 0 then z div 2 else - ((z + 1) div 2))"
    using assms(1) by (auto simp: get_int_def elim!: bind_Inr)
  then show ?thesis using get_uint_canonical(1,2) [OF z(1)] K_int by (auto simp: MAX_SAFE_INTEGER_def)
next
  case K_optional
  then show ?thesis using assms(1) get_uint_canonical(1,2) by (fastforce simp: get_optional_uint_def elim!: bind_Inr)
next
  case K_f64
  then obtain x where "get_f64 r = (r', Inr x)" "f = F_f64 x" using assms(1) by (auto elim!: bind_Inr)
  then show ?thesis using K_f64 by (auto simp: get_f64_def read_Inr)
next
  case K_bytes
  then show ?thesis using assms get_bytes_Inr(2) by (auto elim!: bind_Inr)
next
  case K_string
  then obtain x where x: "get_string r = (r', Inr x)" "f = F_string x" using assms(1) by (auto elim!: bind_Inr)
  obtain s y where "get_bytes r = (s, y)" by fastforce
  then obtain bs where b: "get_bytes r = (r', Inr bs)" "utf8_decode True bs = Some x"
    using x(1) by (cases y) (auto simp: get_string_def catchE_def bindE_def decoded_text_def split: option.splits js_error.splits)
  show ?thesis using decode_inverse [OF b(2)] get_bytes_Inr(2) [OF b(1) assms(2)] x(2) K_string by simp
next
  case K_bigint
  then show ?thesis using assms(1) bigint_read_in_range by (auto elim!: bind_Inr)
qed

lemma read_fields_ok:
  "get_fields ks r = (r', Inr fs) \<Longrightarrow> r_at r \<le> length (r_bytes r) \<Longrightarrow> (\<forall>f \<in> set fs. field_ok f) \<and> map kind_of fs = ks"
proof (induction ks arbitrary: r fs)
  case (Cons k ks)
  obtain s f gs where s: "get_field k r = (s, Inr f)" "get_fields ks s = (r', Inr gs)" "fs = f # gs"
    using Cons.prems(1) by (auto elim!: bind_Inr)
  have "r_at s \<le> length (r_bytes s)" using soundD [OF sound_field s(1) Cons.prems(2)] by simp
  then show ?case using Cons.IH [OF s(2)] read_field_ok [OF s(1) Cons.prems(2)] s(3) by simp
qed simp

text \<open>
  Property C36: the format has one form for each sequence of values. Whenever a sequence of reader methods reads a whole blob
  without an error, the writer takes the values read, and the blob it makes reads as the same values; and when none of them is
  NaN, it is the blob that was read, byte for byte. So every method refuses the longer spellings of its value (a varint with a zero last
  byte, a bigint with a byte to spare, text that is not UTF-8). Only a NaN has several spellings: all NaN patterns read as the one NaN, which
  the writer stores in the engine's encoding \<open>nan\<close>.
\<close>

theorem fields_canonical:
  assumes "get_fields ks (new_reader bytes) = (r, Inr fs)" "end_of_blob r = (r, Inr ())" "f64_is_nan nan"
  shows "\<exists>w r'. put_fields nan fs new_writer = Inr w \<and> get_fields ks (new_reader (finish w)) = (r', Inr fs) \<and> end_of_blob r' = (r', Inr ())
    \<and> ((\<forall>v. F_f64 v \<in> set fs \<longrightarrow> \<not> f64_is_nan v) \<longrightarrow> finish w = bytes)"
proof -
  have e: "r_at r = length (r_bytes r)" using assms(2) by (auto simp: end_of_blob_def valid_def)
  have b: "r_bytes r = bytes" using soundD(1) [OF sound_fields assms(1)] by (simp add: new_reader_def)
  have "(\<forall>f \<in> set fs. field_ok f) \<and> map kind_of fs = ks" by (rule read_fields_ok [OF assms(1)]) (simp add: new_reader_def)
  then have ok: "\<forall>f \<in> set fs. field_ok f" "map kind_of fs = ks" by simp_all
  have n: "writer_ok new_writer" "finish new_writer = []" by (simp_all add: new_writer_def writer_ok_def finish_def slice_of_def)
  let ?bs = "concat (map (field_bytes nan) fs)"
  obtain w where w: "put_fields nan fs new_writer = Inr w" "finish w = ?bs" using put_fields_writes [OF ok(1), of nan] n by (auto simp: writes_def)
  have "get_fields ks \<lparr>r_bytes = ?bs, r_at = 0\<rparr> = (\<lparr>r_bytes = ?bs, r_at = length ?bs\<rparr>, Inr fs)"
    using get_fields_reads [OF assms(3) ok(1), unfolded reads_def ok(2), rule_format, of "[]" "[]"] by simp
  then have again: "\<exists>r'. get_fields ks (new_reader (finish w)) = (r', Inr fs) \<and> end_of_blob r' = (r', Inr ())"
    using w(2) by (simp add: new_reader_def end_of_blob_def valid_def)
  have "finish w = bytes" if "\<forall>v. F_f64 v \<in> set fs \<longrightarrow> \<not> f64_is_nan v"
  proof -
    have "\<forall>f \<in> set fs. \<not> holds_nan f" using that by (auto simp: holds_nan_def split: field.splits)
    then have "writes (put_fields nan fs) (slice_of bytes 0 (length bytes))"
      using fields_reprint [OF assms(1), of nan] e b by (simp add: new_reader_def)
    then show ?thesis using n w(1) by (auto simp: writes_def)
  qed
  then show ?thesis using w(1) again by blast
qed

text \<open>A double: the blob with 1.5 is written again as it was, the one with a signalling NaN as one that reads as NaN again.\<close>

lemma fields_canonical_witness:
  "(\<exists>w. put_fields NOT_A_NUMBER [F_u8 7, F_f64 0x3ff8000000000000] new_writer = Inr w \<and> finish w = [7, 0, 0, 0, 0, 0, 0, 0xf8, 0x3f])
   \<and> (\<exists>w r. put_fields NOT_A_NUMBER [F_f64 NOT_A_NUMBER] new_writer = Inr w \<and> get_fields [K_f64] (new_reader (finish w)) = (r, Inr [F_f64 NOT_A_NUMBER]))"
proof
  have "get_fields [K_u8, K_f64] (new_reader [7, 0, 0, 0, 0, 0, 0, 0xf8, 0x3f])
      = (\<lparr>r_bytes = [7, 0, 0, 0, 0, 0, 0, 0xf8, 0x3f], r_at = 9\<rparr>, Inr [F_u8 7, F_f64 0x3ff8000000000000])"
    by (simp add: new_reader_def bindE_def get_u8_def get_f64_def need_def valid_def guardR_def read_with_def remaining_def at0_def get64_def
        get_le_def slice_of_def number_of_def f64_is_nan_def f64_exponent_def)
  from fields_canonical [OF this _ nan_is_nan] show "\<exists>w. put_fields NOT_A_NUMBER [F_u8 7, F_f64 0x3ff8000000000000] new_writer = Inr w
      \<and> finish w = [7, 0, 0, 0, 0, 0, 0, 0xf8, 0x3f]"
    by (auto simp: end_of_blob_def valid_def f64_is_nan_def f64_exponent_def)
  have "get_fields [K_f64] (new_reader [1, 0, 0, 0, 0, 0, 0xf0, 0x7f])
      = (\<lparr>r_bytes = [1, 0, 0, 0, 0, 0, 0xf0, 0x7f], r_at = 8\<rparr>, Inr [F_f64 NOT_A_NUMBER])"
    by (simp add: new_reader_def bindE_def get_f64_def need_def valid_def guardR_def read_with_def remaining_def get64_def
        get_le_def slice_of_def number_of_def f64_is_nan_def f64_exponent_def f64_fraction_def)
  from fields_canonical [OF this _ nan_is_nan]
  show "\<exists>w r. put_fields NOT_A_NUMBER [F_f64 NOT_A_NUMBER] new_writer = Inr w \<and> get_fields [K_f64] (new_reader (finish w)) = (r, Inr [F_f64 NOT_A_NUMBER])"
    by (auto simp: end_of_blob_def valid_def)
qed

text \<open>
  Property C37: reading fails closed on bytes nobody wrote: from any position inside the blob every sequence of reader methods
  leaves the position inside the blob, never before where it was, and throws nothing but the corruption error; and a count that
  is read leaves room for that many items.
\<close>

theorem reader_fails_closed:
  assumes "r_at r \<le> length (r_bytes r)" "get_fields ks r = (r', res)" "get_count m r = (r'', n)"
  shows "r_bytes r' = r_bytes r \<and> r_at r \<le> r_at r' \<and> r_at r' \<le> length (r_bytes r) \<and> (\<forall>e. res = Inl e \<longrightarrow> (\<exists>msg. e = CorruptionError msg))
    \<and> r_at r'' \<le> length (r_bytes r) \<and> (case n of Inl e \<Rightarrow> \<exists>msg. e = CorruptionError msg | Inr k \<Rightarrow> 0 \<le> k \<and> k * max 1 m \<le> remaining r'')"
proof -
  obtain s x where s: "get_uint r = (s, x)" by fastforce
  have "r_at r'' \<le> length (r_bytes r) \<and> (case n of Inl e \<Rightarrow> \<exists>msg. e = CorruptionError msg | Inr k \<Rightarrow> 0 \<le> k \<and> k * max 1 m \<le> remaining r'')"
    using assms(3) s soundD [OF sound_uint s assms(1)] get_uint_canonical(1) [of r s]
    by (cases x) (auto simp: get_count_def bindE_def valid_def guardR_def split: if_splits)
  then show ?thesis using soundD [OF sound_fields assms(2,1)] by blast
qed

lemma reader_fails_closed_witness:
  "\<exists>r' e. get_fields [K_string] (new_reader [1, 0xff]) = (r', Inl e) \<and> (\<exists>msg. e = CorruptionError msg)"
proof -
  obtain r' e where g: "get_fields [K_string] (new_reader [1, 0xff]) = (r', Inl e)"
  proof -
    have "isl (snd (get_fields [K_string] (new_reader [1, 0xff])))" by code_simp
    then show ?thesis using that by (cases "get_fields [K_string] (new_reader [1, 0xff])") (auto simp: isl_def)
  qed
  obtain r'' n where "get_count 1 (new_reader [1, 0xff]) = (r'', n)" by fastforce
  with reader_fails_closed [OF _ g this] g show ?thesis by (auto simp: new_reader_def)
qed

end
