(* ===== verification/DateValue.thy ===== *)
theory DateValue
  imports Prelude
begin

text \<open>
  The calendar of \<open>date-value.ts\<close>: day counts and civil dates without a \<open>Date\<close>. The numbers are whole days of valid dates, far
  inside the safe integers, so \<open>Math.floor\<close> of a quotient is \<open>div\<close>; the shared scratch array is the returned triple.
\<close>

definition MS_PER_DAY :: int where "MS_PER_DAY = 86400000"

definition epoch_days :: "int \<Rightarrow> int" where
  "epoch_days milliseconds = milliseconds div MS_PER_DAY"

definition year_of_era :: "int \<Rightarrow> int" where
  "year_of_era day_of_era = (day_of_era - day_of_era div 1460 + day_of_era div 36524 - day_of_era div 146096) div 365"

definition civil_from_days :: "int \<Rightarrow> int \<times> int \<times> int" where
  "civil_from_days days =
     (let z = days + 719468;
          era = z div 146097;
          day_of_era = z - era * 146097;
          yoe = year_of_era day_of_era;
          day_of_year = day_of_era - (365 * yoe + yoe div 4 - yoe div 100);
          mp = (5 * day_of_year + 2) div 153;
          day = day_of_year - (153 * mp + 2) div 5 + 1;
          month = (if mp < 10 then mp + 2 else mp - 10);
          year = yoe + era * 400 + (if month \<le> 1 then 1 else 0)
      in (year, month, day))"

definition days_from_civil :: "int \<Rightarrow> int \<Rightarrow> int \<Rightarrow> int" where
  "days_from_civil year month day =
     (let y = (if month \<le> 1 then year - 1 else year);
          era = y div 400;
          yoe = y - era * 400;
          mp = (if 1 < month then month - 2 else month + 10);
          day_of_year = (153 * mp + 2) div 5 + day - 1;
          day_of_era = yoe * 365 + yoe div 4 - yoe div 100 + day_of_year
      in era * 146097 + day_of_era - 719468)"

subsection \<open>The Gregorian calendar\<close>

definition leap_year :: "int \<Rightarrow> bool" where
  "leap_year y \<longleftrightarrow> y mod 4 = 0 \<and> (y mod 100 \<noteq> 0 \<or> y mod 400 = 0)"

definition month_length :: "int \<Rightarrow> int \<Rightarrow> int" where
  "month_length y m = (if m = 1 then (if leap_year y then 29 else 28) else if m \<in> {3, 5, 8, 10} then 30 else 31)"

definition valid_civil :: "int \<times> int \<times> int \<Rightarrow> bool" where
  "valid_civil c = (case c of (y, m, d) \<Rightarrow> 0 \<le> m \<and> m \<le> 11 \<and> 1 \<le> d \<and> d \<le> month_length y m)"

definition next_civil :: "int \<times> int \<times> int \<Rightarrow> int \<times> int \<times> int" where
  "next_civil c = (case c of (y, m, d) \<Rightarrow>
     if d < month_length y m then (y, m, d + 1) else if m < 11 then (y, m + 1, 1) else (y + 1, 0, 1))"

subsection \<open>Years of an era\<close>

definition year_start :: "int \<Rightarrow> int" where "year_start y = 365 * y + y div 4 - y div 100"

definition last_day :: "int \<Rightarrow> int" where "last_day y = (if y = 399 then 146096 else year_start (y + 1) - 1)"

lemma div_unique: "0 < k \<Longrightarrow> k * q \<le> n \<Longrightarrow> n < k * q + k \<Longrightarrow> n div k = (q :: int)"
  by (rule int_div_pos_eq [of n k q "n - k * q"]) simp_all

text \<open>A year of an era by its century, its place among four years and the rest.\<close>

lemma year_parts:
  assumes "0 \<le> y" "y \<le> 399"
  obtains c q s where "y = 100 * c + 4 * q + s" "0 \<le> c" "c \<le> 3" "0 \<le> q" "q \<le> 24" "0 \<le> s" "s \<le> 3"
    "year_start y = 36524 * c + 1461 * q + 365 * s"
    "last_day y = year_start y + (if s = 3 \<and> (q < 24 \<or> c = 3) then 365 else 364)"
proof -
  define c where "c = y div 100"
  define q where "q = y mod 100 div 4"
  define s where "s = y mod 100 mod 4"
  have y: "y = 100 * c + 4 * q + s" by (simp add: c_def q_def s_def)
  have b: "0 \<le> c" "c \<le> 3" "0 \<le> q" "q \<le> 24" "0 \<le> s" "s \<le> 3"
  proof -
    define r where "r = y mod 100"
    have r: "0 \<le> r" "r < 100" by (simp_all add: r_def)
    show "0 \<le> c" "c \<le> 3" unfolding c_def using assms by linarith+
    show "0 \<le> q" "q \<le> 24" "0 \<le> s" "s \<le> 3" unfolding q_def s_def r_def [symmetric] using r by linarith+
  qed
  have d: "y div 100 = c" "y div 4 = 25 * c + q" using y b by linarith+
  have start: "year_start y = 36524 * c + 1461 * q + 365 * s" unfolding year_start_def d using y by linarith
  have "last_day y = year_start y + (if s = 3 \<and> (q < 24 \<or> c = 3) then 365 else 364)"
  proof (cases "s = 3")
    case False
    then have s2: "s \<le> 2" using b by simp
    have "(y + 1) div 100 = c" by (rule div_unique) (use y b s2 in presburger)+
    moreover have "(y + 1) div 4 = 25 * c + q" by (rule div_unique) (use y b s2 in presburger)+
    ultimately have "(y + 1) div 100 = c" "(y + 1) div 4 = 25 * c + q" .
    then show ?thesis using False start y b by (simp add: last_day_def year_start_def)
  next
    case s3: True
    have four: "(y + 1) div 4 = 25 * c + q + 1" by (rule div_unique; use y b s3 in presburger)
    show ?thesis
    proof (cases "q < 24")
      case True
      then have "(y + 1) div 100 = c" by (rule_tac div_unique; use y b s3 in presburger)
      then show ?thesis using True four start y b s3 by (simp add: last_day_def year_start_def)
    next
      case False
      then have "(y + 1) div 100 = c + 1" by (rule_tac div_unique; use y b s3 in presburger)
      then show ?thesis using False four start y b s3 by (auto simp: last_day_def year_start_def)
    qed
  qed
  then show ?thesis using that y b start by blast
qed

lemma year_start_nonneg: "0 \<le> y \<Longrightarrow> 0 \<le> year_start y"
  unfolding year_start_def by linarith

lemma year_start_0: "year_start 0 = 0"
  by (simp add: year_start_def)

lemma year_length:
  assumes "0 \<le> y" "y \<le> 399"
  shows "year_start y + 364 \<le> last_day y" "last_day y \<le> year_start y + 365"
proof -
  obtain c q s :: int where "last_day y = year_start y + (if s = 3 \<and> (q < 24 \<or> c = 3) then 365 else 364)" 
    by (rule year_parts [OF assms])
  then show "year_start y + 364 \<le> last_day y" "last_day y \<le> year_start y + 365" by simp_all
qed

lemma last_in_era: "0 \<le> y \<Longrightarrow> y \<le> 399 \<Longrightarrow> last_day y \<le> 146096"
proof -
  assume y: "0 \<le> y" "y \<le> 399"
  obtain c q s where p: "y = 100 * c + 4 * q + s" "0 \<le> c" "c \<le> 3" "0 \<le> q" "q \<le> 24" "0 \<le> s" "s \<le> 3"
    "year_start y = 36524 * c + 1461 * q + 365 * s"
    "last_day y = year_start y + (if s = 3 \<and> (q < 24 \<or> c = 3) then 365 else 364)"
    by (rule year_parts [OF y])
  show ?thesis unfolding p(9) p(8) using p(2-7) by auto
qed

lemma year_of_era_in_year:
  assumes "0 \<le> y" "y \<le> 399" "year_start y \<le> d" "d \<le> last_day y"
  shows "year_of_era d = y"
proof -
  obtain c q s where p: "y = 100 * c + 4 * q + s" "0 \<le> c" "c \<le> 3" "0 \<le> q" "q \<le> 24" "0 \<le> s" "s \<le> 3"
    "year_start y = 36524 * c + 1461 * q + 365 * s"
    "last_day y = year_start y + (if s = 3 \<and> (q < 24 \<or> c = 3) then 365 else 364)"
    by (rule year_parts [OF assms(1,2)])
  define e where "e = d - year_start y"
  have e: "0 \<le> e" "e \<le> 365" "e = 365 \<longrightarrow> s = 3 \<and> (q < 24 \<or> c = 3)" using assms(3,4) p(9) by (auto simp: e_def split: if_splits)
  have d: "d = 36524 * c + 1461 * q + 365 * s + e" using p(8) by (simp add: e_def)
  have t: "d div 1460 = (if 24 * c + q + 365 * s + e < 1460 then 25 * c + q else 25 * c + q + 1)"
    by (auto intro!: div_unique) (use d p(1-7) e in linarith)+
  show ?thesis
  proof (cases "d = 146096")
    case True
    then have "c = 3" "q = 24" "s = 3" using d p(1-7) e by linarith+
    then show ?thesis using True p(1) by (simp add: year_of_era_def)
  next
    case False
    have h: "d div 36524 = c"
    proof (rule div_unique)
      show "d < 36524 * c + 36524" using d p(1-7) e False by (cases "e = 365") auto
    qed (use d p(1-7) e in simp_all)
    have z: "d div 146096 = 0" using d p(1-7) e False by (intro div_unique) (simp, simp, cases "e = 365", auto)
    show ?thesis unfolding year_of_era_def h z t
      by (rule div_unique) (use d p(1-7) e in \<open>auto split: if_splits\<close>)
  qed
qed

text \<open>Every day of an era lies in a year.\<close>

lemma in_a_year:
  assumes "0 \<le> d" "d \<le> 146096"
  obtains y where "0 \<le> y" "y \<le> 399" "year_start y \<le> d" "d \<le> last_day y"
proof -
  have "\<exists>y. 0 \<le> y \<and> y < int n \<and> year_start y \<le> d \<and> d < year_start (y + 1)" if "d < year_start (int n)" for n
    using that
  proof (induction n)
    case (Suc n)
    show ?case
    proof (cases "d < year_start (int n)")
      case True
      then show ?thesis using Suc.IH by force
    next
      case False
      then show ?thesis using Suc.prems by (intro exI [of _ "int n"]) (simp add: add.commute)
    qed
  qed (use assms(1) in \<open>simp add: year_start_def\<close>)
  from this [of 399] show ?thesis
  proof (cases "d < year_start 399")
    case True
    then obtain y where "0 \<le> y" "y < 399" "year_start y \<le> d" "d < year_start (y + 1)"
      using \<open>d < year_start (int 399) \<Longrightarrow> \<exists>y. 0 \<le> y \<and> y < int 399 \<and> year_start y \<le> d \<and> d < year_start (y + 1)\<close> by auto
    then show ?thesis using that by (simp add: last_day_def)
  next
    case False
    then show ?thesis using that [of 399] assms(2) by (simp add: last_day_def)
  qed
qed

subsection \<open>Days of a year, from March\<close>

definition month_of :: "int \<Rightarrow> int" where "month_of mp = (if mp < 10 then mp + 2 else mp - 10)"

text \<open>The days before a month of the year from March, and its length there; February ends the year.\<close>

definition month_start :: "int \<Rightarrow> int" where "month_start mp = (153 * mp + 2) div 5"

lemma month_cases: "0 \<le> mp \<Longrightarrow> mp \<le> 11 \<Longrightarrow> mp \<in> {0, 1, 2, 3, 4, 5, 6, 7, 8, 9, 10, (11 :: int)}"
  by (simp only: insert_iff empty_iff) presburger

lemma month_by_day:
  assumes "0 \<le> mp" "mp \<le> 11" "month_start mp \<le> doy" "doy < (if mp = 11 then 366 else month_start (mp + 1))"
  shows "(5 * doy + 2) div 153 = mp"
  using month_cases [OF assms(1,2)] assms(3,4) by (auto simp: month_start_def intro!: div_unique)

lemma day_in_month:
  assumes "0 \<le> doy" "doy \<le> 365"
  defines "mp \<equiv> (5 * doy + 2) div 153"
  shows "0 \<le> mp" "mp \<le> 11" "month_start mp \<le> doy" "mp < 11 \<Longrightarrow> doy < month_start (mp + 1)"
proof -
  have mp: "153 * mp \<le> 5 * doy + 2" "5 * doy + 2 < 153 * mp + 153" unfolding mp_def by linarith+
  show "0 \<le> mp" "mp \<le> 11" using assms(1,2) mp by linarith+
  define e where "e = (153 * (mp + 1) + 2) div 5"
  have "153 * (mp + 1) + 2 < 5 * e + 5" unfolding e_def by linarith
  then have "doy < e" using mp by presburger
  then show "mp < 11 \<Longrightarrow> doy < month_start (mp + 1)" by (simp add: month_start_def e_def)
  show "month_start mp \<le> doy" unfolding month_start_def using mp by linarith
qed

lemma month_length_march: "0 \<le> mp \<Longrightarrow> mp < 11 \<Longrightarrow> month_length y (month_of mp) = month_start (mp + 1) - month_start mp"
  using month_cases [of mp] by (auto simp: month_length_def month_of_def month_start_def)

text \<open>The length of February is what the leap day leaves: \<open>yoe\<close> is the year from March, so its February is in the next year.\<close>

lemma february:
  assumes "0 \<le> yoe" "yoe \<le> 399"
  shows "month_length (yoe + era * 400 + 1) 1 = last_day yoe - year_start yoe - 336"
proof -
  obtain c q s where p: "yoe = 100 * c + 4 * q + s" "0 \<le> c" "c \<le> 3" "0 \<le> q" "q \<le> 24" "0 \<le> s" "s \<le> 3"
    "last_day yoe = year_start yoe + (if s = 3 \<and> (q < 24 \<or> c = 3) then 365 else 364)"
    by (rule year_parts [OF assms])
  define y where "y = yoe + era * 400 + 1"
  have top: "n mod k = 0 \<longleftrightarrow> n = k" if "1 \<le> n" "n \<le> k" for n k :: int
    using that by (cases "n = k") (auto simp: mod_pos_pos_trivial)
  have e: "y = (s + 1) + (25 * c + q + 100 * era) * 4" "y = (4 * q + s + 1) + (c + 4 * era) * 100" "y = (100 * c + 4 * q + s + 1) + era * 400"
    using p(1) by (simp_all add: y_def)
  have "y mod 4 = (s + 1) mod 4" by (simp only: e(1) mod_mult_self1)
  then have m1: "y mod 4 = 0 \<longleftrightarrow> s = 3" using top [of "s + 1" 4] p(6,7) by linarith
  have "y mod 100 = (4 * q + s + 1) mod 100" by (simp only: e(2) mod_mult_self1)
  then have "y mod 100 = 0 \<longleftrightarrow> 4 * q + s + 1 = 100" using top [of "4 * q + s + 1" 100] p(4-7) by linarith
  moreover have "4 * q + s + 1 = 100 \<longleftrightarrow> s = 3 \<and> q = 24" by (intro iffI conjI) (use p(4-7) in linarith)+
  ultimately have m2: "y mod 100 = 0 \<longleftrightarrow> s = 3 \<and> q = 24" by (rule trans)
  have "y mod 400 = (100 * c + 4 * q + s + 1) mod 400" by (simp only: e(3) mod_mult_self1)
  then have "y mod 400 = 0 \<longleftrightarrow> 100 * c + 4 * q + s + 1 = 400" using top [of "100 * c + 4 * q + s + 1" 400] p(2-7) by linarith
  moreover have "100 * c + 4 * q + s + 1 = 400 \<longleftrightarrow> s = 3 \<and> q = 24 \<and> c = 3" by (intro iffI conjI) (use p(2-7) in linarith)+
  ultimately have m3: "y mod 400 = 0 \<longleftrightarrow> s = 3 \<and> q = 24 \<and> c = 3" by (rule trans)
  have "q < 24 \<longleftrightarrow> q \<noteq> 24" using p(5) by linarith
  then have "leap_year y \<longleftrightarrow> s = 3 \<and> (q < 24 \<or> c = 3)" unfolding leap_year_def m1 m2 m3 by blast
  then show ?thesis using p(8) by (simp add: month_length_def y_def [symmetric])
qed

subsection \<open>The conversions are inverse\<close>

lemma month_of_range: "0 \<le> mp \<Longrightarrow> mp \<le> 11 \<Longrightarrow> 0 \<le> month_of mp \<and> month_of mp \<le> 11 \<and> (month_of mp \<le> 1 \<longleftrightarrow> 10 \<le> mp)
    \<and> (if 1 < month_of mp then month_of mp - 2 else month_of mp + 10) = mp"
  by (simp add: month_of_def)

text \<open>A date by its era, its year there, its month from March and its day; and the day count of the same parts.\<close>

definition civil_parts :: "int \<Rightarrow> int \<Rightarrow> int \<Rightarrow> bool" where
  "civil_parts yoe mp d \<longleftrightarrow> 0 \<le> yoe \<and> yoe \<le> 399 \<and> 0 \<le> mp \<and> mp \<le> 11 \<and> 1 \<le> d
     \<and> (mp < 11 \<longrightarrow> month_start mp + d \<le> month_start (mp + 1)) \<and> (mp = 11 \<longrightarrow> year_start yoe + 336 + d \<le> last_day yoe)"

definition civil_date :: "int \<Rightarrow> int \<Rightarrow> int \<Rightarrow> int \<Rightarrow> int \<times> int \<times> int" where
  "civil_date era yoe mp d = (yoe + era * 400 + (if 10 \<le> mp then 1 else 0), month_of mp, d)"

definition civil_day :: "int \<Rightarrow> int \<Rightarrow> int \<Rightarrow> int \<Rightarrow> int" where
  "civil_day era yoe mp d = era * 146097 + (year_start yoe + month_start mp + d - 1) - 719468"

lemma month_start_values: "month_start 0 = 0" "month_start 11 = 337"
  by (simp_all add: month_start_def)

lemma month_start_mono: "a \<le> b \<Longrightarrow> month_start a \<le> month_start b"
  by (simp add: month_start_def zdiv_mono1)

lemma civil_parts_day:
  assumes "civil_parts yoe mp d"
  shows "year_start yoe + month_start mp + d - 1 \<le> last_day yoe" "month_start mp + d - 1 < (if mp = 11 then 366 else month_start (mp + 1))"
proof -
  have y: "year_start yoe + 364 \<le> last_day yoe" "last_day yoe \<le> year_start yoe + 365"
    using assms year_length [of yoe] by (simp_all add: civil_parts_def)
  show "year_start yoe + month_start mp + d - 1 \<le> last_day yoe"
  proof (cases "mp = 11")
    case False
    then have "mp < 11" using assms by (simp add: civil_parts_def)
    then have "month_start mp + d \<le> month_start 11" using assms month_start_mono [of "mp + 1" 11] by (simp add: civil_parts_def)
    then show ?thesis using y(1) by (simp add: month_start_values)
  qed (use assms in \<open>simp add: civil_parts_def month_start_values\<close>)
  show "month_start mp + d - 1 < (if mp = 11 then 366 else month_start (mp + 1))"
    using assms y(2) by (auto simp: civil_parts_def month_start_values)
qed

lemma days_of_parts: "civil_parts yoe mp d \<Longrightarrow> (case civil_date era yoe mp d of (y, m, d) \<Rightarrow> days_from_civil y m d) = civil_day era yoe mp d"
proof -
  assume a: "civil_parts yoe mp d"
  then have m: "0 \<le> month_of mp \<and> month_of mp \<le> 11 \<and> (month_of mp \<le> 1 \<longleftrightarrow> 10 \<le> mp)
    \<and> (if 1 < month_of mp then month_of mp - 2 else month_of mp + 10) = mp" by (intro month_of_range) (simp_all add: civil_parts_def)
  have "(yoe + era * 400) div 400 = era" by (rule div_unique) (use a in \<open>simp_all add: civil_parts_def\<close>)
  then show ?thesis using m by (auto simp: civil_date_def civil_day_def days_from_civil_def Let_def year_start_def month_start_def)
qed

lemma civil_alt:
  "civil_from_days (z - 719468) = (let era = z div 146097; doe = z - era * 146097; yoe = year_of_era doe; doy = doe - year_start yoe;
     mp = (5 * doy + 2) div 153 in
     (yoe + era * 400 + (if month_of mp \<le> 1 then 1 else 0), month_of mp, doy - month_start mp + 1))"
  by (simp only: civil_from_days_def Let_def year_start_def month_of_def month_start_def diff_add_cancel)

lemma civil_of_parts:
  assumes "civil_parts yoe mp d"
  shows "civil_from_days (civil_day era yoe mp d) = civil_date era yoe mp d"
proof -
  let ?doe = "year_start yoe + month_start mp + d - 1"
  note p = assms [unfolded civil_parts_def] and q = civil_parts_day [OF assms]
  have s: "0 \<le> year_start yoe" "0 \<le> month_start mp" using p year_start_nonneg month_start_mono [of 0 mp] by (simp_all add: month_start_values)
  have "?doe \<le> 146096" using p q(1) last_in_era [of yoe] by simp
  then have e: "(era * 146097 + ?doe) div 146097 = era" by (intro div_unique) (use s p in simp_all)
  have y: "year_of_era ?doe = yoe" by (rule year_of_era_in_year) (use s p q in simp_all)
  have m: "(5 * (month_start mp + d - 1) + 2) div 153 = mp" by (rule month_by_day) (use p q(2) in simp_all)
  have g: "era * 146097 + ?doe - era * 146097 = ?doe" "?doe - year_start yoe = month_start mp + d - 1" by simp_all
  have "civil_from_days (era * 146097 + ?doe - 719468)
      = (yoe + era * 400 + (if month_of mp \<le> 1 then 1 else 0), month_of mp, month_start mp + d - 1 - month_start mp + 1)"
    unfolding civil_alt e g y m Let_def ..
  then show ?thesis using month_of_range [of mp] p by (simp add: civil_day_def civil_date_def)
qed

text \<open>Both kinds of argument have parts: a day count, and a valid date.\<close>

lemma parts_of_days:
  obtains era yoe mp d where "civil_parts yoe mp d" "n = civil_day era yoe mp d"
proof -
  define era where "era = (n + 719468) div 146097"
  define doe where "doe = (n + 719468) mod 146097"
  have n: "n = era * 146097 + doe - 719468" by (simp add: era_def doe_def)
  have "0 \<le> doe" "doe \<le> 146096" using pos_mod_bound [of 146097 "n + 719468"] by (simp_all add: doe_def)
  then obtain y where y: "0 \<le> y" "y \<le> 399" "year_start y \<le> doe" "doe \<le> last_day y" using in_a_year by metis
  define doy where "doy = doe - year_start y"
  have doy: "0 \<le> doy" "doy \<le> 365" using y(3,4) year_length(2) [OF y(1,2)] by (simp_all add: doy_def)
  define mp where "mp = (5 * doy + 2) div 153"
  note m = day_in_month [OF doy, folded mp_def]
  have "civil_parts y mp (doy - month_start mp + 1)"
    using y m by (auto simp: civil_parts_def doy_def month_start_values)
  moreover have "n = civil_day era y mp (doy - month_start mp + 1)" using n by (simp add: civil_day_def doy_def)
  ultimately show ?thesis by (rule that)
qed

lemma month_length_parts:
  "0 \<le> yoe \<Longrightarrow> yoe \<le> 399 \<Longrightarrow> 0 \<le> mp \<Longrightarrow> mp \<le> 11 \<Longrightarrow> month_length (yoe + era * 400 + (if 10 \<le> mp then 1 else 0)) (month_of mp)
    = (if mp < 11 then month_start (mp + 1) - month_start mp else last_day yoe - year_start yoe - 336)"
  using february [of yoe era] month_length_march [of mp] by (auto simp: month_of_def)

lemma valid_parts: "civil_parts yoe mp d \<longleftrightarrow> 0 \<le> yoe \<and> yoe \<le> 399 \<and> 0 \<le> mp \<and> mp \<le> 11 \<and> valid_civil (civil_date era yoe mp d)"
  using month_length_parts [of yoe mp era] month_of_range [of mp] by (auto simp: civil_parts_def valid_civil_def civil_date_def split: if_splits)

lemma parts_of_valid:
  assumes "valid_civil (y, m, d)"
  obtains era yoe mp where "civil_parts yoe mp d" "(y, m, d) = civil_date era yoe mp d"
proof -
  define z where "z = (if m \<le> 1 then y - 1 else y)"
  define mp where "mp = (if 1 < m then m - 2 else m + 10)"
  have m: "0 \<le> m" "m \<le> 11" using assms by (simp_all add: valid_civil_def)
  have z: "0 \<le> z mod 400" "z mod 400 \<le> 399" "z mod 400 + z div 400 * 400 = z" using pos_mod_bound [of 400 z] by simp_all
  have d: "(y, m, d) = civil_date (z div 400) (z mod 400) mp d"
    unfolding civil_date_def z(3) using m by (simp add: mp_def z_def month_of_def)
  then have "civil_parts (z mod 400) mp d" using valid_parts [of "z mod 400" mp d "z div 400"] assms z(1,2) m by (simp add: mp_def)
  then show ?thesis using that d by blast
qed

subsection \<open>Properties of the calendar\<close>

text \<open>
  The two conversions are inverse: every day count has a valid Gregorian date, from which \<open>daysFromCivil\<close>
  returns it, and every valid date, of any year, is the one \<open>civilFromDays\<close> gives for its day count.
\<close>

theorem civil_roundtrip:
  "(case civil_from_days n of (y, m, d) \<Rightarrow> valid_civil (y, m, d) \<and> days_from_civil y m d = n)
   \<and> (valid_civil (y, m, d) \<longrightarrow> civil_from_days (days_from_civil y m d) = (y, m, d))"
proof
  obtain era yoe mp e where p: "civil_parts yoe mp e" "n = civil_day era yoe mp e" by (rule parts_of_days)
  have "civil_from_days n = civil_date era yoe mp e" using civil_of_parts [OF p(1)] p(2) by simp
  then show "case civil_from_days n of (y, m, d) \<Rightarrow> valid_civil (y, m, d) \<and> days_from_civil y m d = n"
    using days_of_parts [OF p(1), of era] p valid_parts [of yoe mp e era] by (auto split: prod.splits)
  show "valid_civil (y, m, d) \<longrightarrow> civil_from_days (days_from_civil y m d) = (y, m, d)"
  proof
    assume "valid_civil (y, m, d)"
    then obtain era yoe mp where q: "civil_parts yoe mp d" "(y, m, d) = civil_date era yoe mp d" by (rule parts_of_valid)
    then have "days_from_civil y m d = civil_day era yoe mp d" using days_of_parts [OF q(1), of era] by (simp flip: q(2))
    then show "civil_from_days (days_from_civil y m d) = (y, m, d)" using civil_of_parts [OF q(1)] q(2) by simp
  qed
qed

lemma civil_roundtrip_witness: "civil_from_days (days_from_civil 2024 1 29) = (2024, 1, 29)"
  using civil_roundtrip [of 0 2024 1 29] by (simp add: valid_civil_def month_length_def leap_year_def)

text \<open>
  Property C32: \<open>civilFromDays\<close> is the Gregorian calendar: day 0 is 1 January 1970, and the date of the next day is the next
  date, with months of their lengths and February's by the leap year rule.
\<close>

theorem civil_is_gregorian: "civil_from_days 0 = (1970, 0, 1) \<and> civil_from_days (n + 1) = next_civil (civil_from_days n)"
proof
  show "civil_from_days 0 = (1970, 0, 1)" using civil_of_parts [of 369 10 1 4]
    by (simp add: civil_parts_def civil_day_def civil_date_def month_of_def month_start_def year_start_def)
  obtain era yoe mp d where p: "civil_parts yoe mp d" "n = civil_day era yoe mp d" by (rule parts_of_days)
  note q = p(1) [unfolded civil_parts_def]
  have day: "civil_from_days n = civil_date era yoe mp d" using civil_of_parts [OF p(1)] p(2) by simp
  have len: "month_length (yoe + era * 400 + (if 10 \<le> mp then 1 else 0)) (month_of mp)
      = (if mp < 11 then month_start (mp + 1) - month_start mp else last_day yoe - year_start yoe - 336)"
    by (rule month_length_parts) (use q in simp_all)
  have next_of: "civil_from_days (n + 1) = civil_date era' yoe' mp' d'"
    if "civil_parts yoe' mp' d'" "civil_day era' yoe' mp' d' = n + 1" for era' yoe' mp' d'
    using civil_of_parts [OF that(1), of era'] that(2) by simp
  have m: "month_of mp < 11 \<longleftrightarrow> mp \<noteq> 9" "mp < 11 \<Longrightarrow> mp \<noteq> 9 \<Longrightarrow> month_of (mp + 1) = month_of mp + 1" "month_of 10 = 0" "month_of 0 = 2" "month_of 11 = 1"
    using q by (auto simp: month_of_def)
  show "civil_from_days (n + 1) = next_civil (civil_from_days n)"
  proof (cases "d < month_length (yoe + era * 400 + (if 10 \<le> mp then 1 else 0)) (month_of mp)")
    case True
    then have "civil_parts yoe mp (d + 1)" using q unfolding len by (simp add: civil_parts_def split: if_splits)
    then have "civil_from_days (n + 1) = civil_date era yoe mp (d + 1)" by (rule next_of) (simp add: p(2) civil_day_def)
    then show ?thesis using True unfolding day by (simp add: next_civil_def civil_date_def)
  next
    case False
    then have e: "mp < 11 \<Longrightarrow> d = month_start (mp + 1) - month_start mp" "mp = 11 \<Longrightarrow> d = last_day yoe - year_start yoe - 336"
      using q unfolding len by auto
    show ?thesis
    proof (cases "mp < 11")
      case True
      have one: "month_start (mp + 1) + 1 \<le> month_start (mp + 1 + 1)" for mp
        using zdiv_mono1 [of "153 * (mp + 1) + 2 + 5" "153 * (mp + 1 + 1) + 2" 5] by (simp add: month_start_def)
      have "civil_parts yoe (mp + 1) 1"
        using True q one [of mp] year_length(1) [of yoe] by (simp add: civil_parts_def)
      then have "civil_from_days (n + 1) = civil_date era yoe (mp + 1) 1" by (rule next_of) (use e(1) True in \<open>simp add: p(2) civil_day_def\<close>)
      then show ?thesis using True False m q unfolding day by (auto simp: next_civil_def civil_date_def)
    next
      case eleven: False
      then have mp: "mp = 11" using q by simp
      have first: "civil_parts y 0 1" if "0 \<le> y" "y \<le> 399" for y
        using that by (simp add: civil_parts_def month_start_def)
      show ?thesis
      proof (cases "yoe = 399")
        case True
        have "civil_from_days (n + 1) = civil_date (era + 1) 0 0 1"
          by (rule next_of [OF first]) (use e(2) mp True in \<open>simp_all add: p(2) civil_day_def year_start_0 month_start_values last_day_def\<close>)
        then show ?thesis using True False mp m unfolding day by (simp add: next_civil_def civil_date_def)
      next
        case False
        have "civil_from_days (n + 1) = civil_date era (yoe + 1) 0 1"
          by (rule next_of [OF first]) (use e(2) mp False q in \<open>simp_all add: p(2) civil_day_def month_start_values last_day_def\<close>)
        then show ?thesis using \<open>\<not> d < _\<close> mp m unfolding day by (simp add: next_civil_def civil_date_def)
      qed
    qed
  qed
qed

end
