(* ===== verification/Double.thy ===== *)
theory Double
  imports Prelude Complex_Main "HOL-Library.Log_Nat"
begin

text \<open>
  Arithmetic of JavaScript numbers where the code computes with values that are not exact: a finite double is the rational it
  stands for, and an operation rounds its exact result to the nearest double, ties to even. Infinities do not occur: every value
  here is far below 2^1024.
\<close>

definition floor_log2 :: "rat \<Rightarrow> int" where
  "floor_log2 x = (let (a, b) = quotient_of x; e = bitlen a - bitlen b in if x < 2 powi e then e - 1 else e)"

definition round_even :: "rat \<Rightarrow> int" where
  "round_even y = (let f = \<lfloor>y\<rfloor>; r = y - of_int f in if r < 1 / 2 then f else if 1 / 2 < r then f + 1 else if even f then f else f + 1)"

definition ulp :: "rat \<Rightarrow> rat" where
  "ulp x = 2 powi max (floor_log2 \<bar>x\<bar> - 52) (- 1074)"

definition f64_round :: "rat \<Rightarrow> rat" where
  "f64_round x = (if x = 0 then 0 else of_int (round_even (x / ulp x)) * ulp x)"

definition js_add :: "rat \<Rightarrow> rat \<Rightarrow> rat" where "js_add x y = f64_round (x + y)"
definition js_mul :: "rat \<Rightarrow> rat \<Rightarrow> rat" where "js_mul x y = f64_round (x * y)"
definition js_div :: "rat \<Rightarrow> rat \<Rightarrow> rat" where "js_div x y = f64_round (x / y)"

definition js_trunc :: "rat \<Rightarrow> int" where "js_trunc x = (if 0 \<le> x then \<lfloor>x\<rfloor> else \<lceil>x\<rceil>)"

subsection \<open>The rounding error\<close>

lemma floor_log2:
  assumes "0 < x"
  shows "2 powi floor_log2 x \<le> x" "x < 2 powi (floor_log2 x + 1)"
proof -
  obtain a b where q: "quotient_of x = (a, b)" by fastforce
  have b: "0 < b" by (rule quotient_of_denom_pos [OF q])
  have x: "x = of_int a / of_int b" by (rule quotient_of_div [OF q])
  have a: "0 < a" using assms b by (simp add: x zero_less_divide_iff)
  define p r where "p = nat (bitlen a - 1)" and "r = nat (bitlen b - 1)"
  have ge: "1 \<le> bitlen a" "1 \<le> bitlen b" using bitlen_bounds [OF a] bitlen_bounds [OF b] a b
    by (smt (verit) bitlen_eq_zero_iff bitlen_nonneg)+
  then have pr: "bitlen a = int p + 1" "bitlen b = int r + 1" by (simp_all add: p_def r_def)
  have ba: "2 ^ p \<le> a" "a < 2 ^ (p + 1)" using bitlen_bounds [OF a] by (simp_all add: pr nat_add_distrib)
  have bb: "2 ^ r \<le> b" "b < 2 ^ (r + 1)" using bitlen_bounds [OF b] by (simp_all add: pr nat_add_distrib)
  have qa: "(2 :: rat) powi int p \<le> of_int a" "of_int a < (2 :: rat) powi (int p + 1)"
    using ba of_int_le_iff [of "2 ^ p" a, where 'a = rat] of_int_less_iff [of a "2 ^ (p + 1)", where 'a = rat]
    by (simp_all add: power_int_add)
  have qb: "(2 :: rat) powi int r \<le> of_int b" "of_int b < (2 :: rat) powi (int r + 1)"
    using bb of_int_le_iff [of "2 ^ r" b, where 'a = rat] of_int_less_iff [of b "2 ^ (r + 1)", where 'a = rat]
    by (simp_all add: power_int_add)
  let ?e = "int p - int r"
  have lower: "2 powi (?e - 1) \<le> x"
  proof -
    have "(2 :: rat) powi (?e - 1) * of_int b \<le> 2 powi (?e - 1) * 2 powi (int r + 1)" using qb(2) by simp
    also have "\<dots> = 2 powi int p" by (simp flip: power_int_add)
    also have "\<dots> \<le> of_int a" by (rule qa(1))
    finally show ?thesis using b by (simp add: x pos_le_divide_eq)
  qed
  have upper: "x < 2 powi (?e + 1)"
  proof -
    have "(2 :: rat) powi (?e + 1) * 2 powi int r = 2 powi (int p + 1)" by (subst power_int_add [symmetric]) simp_all
    then have "of_int a < (2 :: rat) powi (?e + 1) * 2 powi int r" using qa(2) by (simp only:)
    also have "\<dots> \<le> 2 powi (?e + 1) * of_int b" using qb(1) by simp
    finally show ?thesis using b by (simp add: x pos_divide_less_eq)
  qed
  have e: "floor_log2 x = (if x < 2 powi ?e then ?e - 1 else ?e)" by (simp add: floor_log2_def q pr)
  show "2 powi floor_log2 x \<le> x" "x < 2 powi (floor_log2 x + 1)" using lower upper by (auto simp: e)
qed

lemma round_even_error: "\<bar>of_int (round_even y) - y\<bar> \<le> 1 / 2"
proof -
  define f where "f = \<lfloor>y\<rfloor>"
  have "of_int f \<le> y" "y < of_int f + 1" unfolding f_def by linarith+
  then show ?thesis unfolding round_even_def f_def [symmetric] Let_def by (simp split: if_splits)
qed

lemma round_even_int: "round_even (of_int n) = n"
  by (simp add: round_even_def)

lemma ulp_pos: "0 < ulp x" by (simp add: ulp_def)

lemma f64_round_error: "\<bar>f64_round x - x\<bar> \<le> ulp x / 2"
proof (cases "x = 0")
  case False
  have "f64_round x - x = (of_int (round_even (x / ulp x)) - x / ulp x) * ulp x"
    using False ulp_pos [of x] by (simp add: f64_round_def field_simps)
  then have "\<bar>f64_round x - x\<bar> = \<bar>of_int (round_even (x / ulp x)) - x / ulp x\<bar> * ulp x"
    using ulp_pos [of x] by (simp add: abs_mult)
  also have "\<dots> \<le> 1 / 2 * ulp x" using ulp_pos [of x] round_even_error by (intro mult_right_mono) auto
  finally show ?thesis by simp
qed (simp add: f64_round_def ulp_pos less_imp_le)

text \<open>The relative error of rounding a normal number is at most 2^-53.\<close>

lemma f64_round_relative:
  assumes "1 \<le> \<bar>x\<bar>"
  shows "\<bar>f64_round x - x\<bar> \<le> \<bar>x\<bar> / 2 ^ 53"
proof -
  have x: "0 < \<bar>x\<bar>" using assms by linarith
  note l = floor_log2 [OF x]
  have "\<not> floor_log2 \<bar>x\<bar> + 1 \<le> 0"
  proof
    assume "floor_log2 \<bar>x\<bar> + 1 \<le> 0"
    then have "(2 :: rat) powi (floor_log2 \<bar>x\<bar> + 1) \<le> 2 powi 0" by (intro power_int_increasing) auto
    then show False using l(2) assms by simp
  qed
  then have "ulp x = 2 powi floor_log2 \<bar>x\<bar> / 2 ^ 52" by (simp add: ulp_def power_int_diff)
  then have "ulp x \<le> \<bar>x\<bar> / 2 ^ 52" using l(1) by (simp add: divide_right_mono)
  then show ?thesis using f64_round_error [of x] by simp
qed

lemma ulp_normal:
  assumes "1 \<le> \<bar>x\<bar>"
  shows "0 \<le> floor_log2 \<bar>x\<bar>" "ulp x = 2 powi (floor_log2 \<bar>x\<bar> - 52)"
proof -
  have x: "0 < \<bar>x\<bar>" using assms by linarith
  have "\<not> floor_log2 \<bar>x\<bar> + 1 \<le> 0"
  proof
    assume "floor_log2 \<bar>x\<bar> + 1 \<le> 0"
    then have "(2 :: rat) powi (floor_log2 \<bar>x\<bar> + 1) \<le> 2 powi 0" by (intro power_int_increasing) auto
    then show False using floor_log2(2) [OF x] assms by simp
  qed
  then show "0 \<le> floor_log2 \<bar>x\<bar>" by simp
  then show "ulp x = 2 powi (floor_log2 \<bar>x\<bar> - 52)" by (simp add: ulp_def)
qed

lemma f64_round_close: "\<bar>f64_round x - x\<bar> \<le> (\<bar>x\<bar> + 1) / 2 ^ 53"
proof (cases "1 \<le> \<bar>x\<bar>")
  case True
  then show ?thesis using f64_round_relative [of x] by (simp add: add_divide_distrib)
next
  case False
  show ?thesis
  proof (cases "x = 0")
    case True
    then show ?thesis by (simp add: f64_round_def)
  next
    case nonzero: False
    then have "2 powi floor_log2 \<bar>x\<bar> \<le> \<bar>x\<bar>" using floor_log2(1) [of "\<bar>x\<bar>"] by simp
    then have "2 powi floor_log2 \<bar>x\<bar> < (1 :: rat)" using False by linarith
    moreover have "(1 :: rat) \<le> 2 powi floor_log2 \<bar>x\<bar>" if "0 \<le> floor_log2 \<bar>x\<bar>"
      using power_int_increasing [OF that, of "2 :: rat"] by simp
    ultimately have "floor_log2 \<bar>x\<bar> < 0" by (meson not_le)
    then have "ulp x \<le> 2 powi (- 52)" unfolding ulp_def by (intro power_int_increasing) auto
    also have "\<dots> = 2 / 2 ^ 53" by (simp add: power_int_def power_divide)
    finally have "ulp x / 2 \<le> 1 / 2 ^ 53" by simp
    also have "\<dots> \<le> (\<bar>x\<bar> + 1) / 2 ^ 53" by (intro divide_right_mono) auto
    finally show ?thesis using f64_round_error [of x] by linarith
  qed
qed

lemma f64_round_nonneg: "0 \<le> x \<Longrightarrow> 0 \<le> f64_round x"
proof -
  assume "0 \<le> x"
  then have "0 \<le> \<lfloor>x / ulp x\<rfloor>" using ulp_pos [of x] by simp
  then have "0 \<le> round_even (x / ulp x)" by (auto simp: round_even_def Let_def)
  then show ?thesis using ulp_pos [of x] by (simp add: f64_round_def)
qed

lemma js_trunc_abs: "\<bar>js_trunc x\<bar> = \<lfloor>\<bar>x\<bar>\<rfloor>"
proof (cases "0 \<le> x")
  case False
  then have "0 \<le> \<lfloor>- x\<rfloor>" by simp
  then show ?thesis using False by (simp add: js_trunc_def ceiling_def)
qed (simp add: js_trunc_def)

text \<open>An integer below 2^53, scaled up by a power of two, is a double.\<close>

lemma f64_round_exact:
  assumes "\<bar>m\<bar> < 2 ^ 53"
  shows "f64_round (of_int (m * 2 ^ k)) = of_int (m * 2 ^ k)"
proof (cases "m = 0")
  case False
  let ?x = "of_int (m * 2 ^ k) :: rat"
  have "m * 2 ^ k \<noteq> 0" using False by simp
  then have "1 \<le> \<bar>m * 2 ^ k\<bar>" by linarith
  then have one: "1 \<le> \<bar>?x\<bar>" by (metis of_int_1_le_iff of_int_abs)
  then have x: "0 < \<bar>?x\<bar>" by linarith
  define f where "f = floor_log2 \<bar>?x\<bar>"
  note u = ulp_normal [OF one, folded f_def]
  have "\<bar>m * 2 ^ k\<bar> < 2 ^ (53 + k)" using assms by (simp add: abs_mult power_add)
  then have "\<bar>?x\<bar> < 2 ^ (53 + k)" by (metis of_int_abs of_int_less_iff of_int_numeral of_int_power)
  then have "2 powi f < (2 :: rat) powi int (53 + k)" using floor_log2(1) [OF x, folded f_def] by (simp only: power_int_of_nat)
  moreover have "(2 :: rat) powi int (53 + k) \<le> 2 powi f" if "int (53 + k) \<le> f" using that by (rule power_int_increasing) simp
  ultimately have "\<not> int (53 + k) \<le> f" by (meson not_less)
  then have f: "f \<le> int k + 52" by simp
  define n where "n = m * 2 ^ nat (int k + 52 - f)"
  have "of_int n = (of_int m :: rat) * 2 powi (int k + 52 - f)" using f by (simp add: n_def power_int_def)
  also have "\<dots> = ?x / ulp ?x" by (simp only: u(2)) (simp add: power_int_diff power_int_add field_simps)
  finally have n: "?x / ulp ?x = of_int n" by simp
  have "f64_round ?x = of_int n * ulp ?x" using x by (simp only: f64_round_def n round_even_int) auto
  also have "\<dots> = ?x" using ulp_pos [of ?x] by (simp flip: n)
  finally show ?thesis .
qed (simp add: f64_round_def)

lemmas f64_round_int = f64_round_exact [where k = 0, simplified]

end
