(* ===== verification/FreeSpace.thy ===== *)
theory FreeSpace
  imports Prelude "HOL-Library.Product_Lexorder"
begin

text \<open>
  \<open>next/storage/free-space.ts\<close>: the free-space map of one long-lived file. The state is the
  source's: the alignment, the two parallel arrays of run starts and run ends, and the
  high-water mark. The optional \<open>capacity\<close> (an admission charge for the arrays) is absent here,
  so every \<open>this.capacity?.ensure(...)\<close> does nothing.

  \<open>Math.ceil(bytes / align)\<close> is exact for safe integers: the quotient's rounding error is below
  \<open>1 / align\<close>, so the float quotient lies strictly above the integer part whenever there is a
  remainder, and never above the next integer.
\<close>

record free_map =
  align :: int
  starts :: "int list"
  ends :: "int list"
  fs_end :: int

subsection \<open>Private helpers of the class\<close>

definition start_of :: "free_map \<Rightarrow> nat \<Rightarrow> int" where
  "start_of m index = at0 (starts m) index"

definition end_of :: "free_map \<Rightarrow> nat \<Rightarrow> int" where
  "end_of m index = at0 (ends m) index"

definition ceil_div :: "int \<Rightarrow> int \<Rightarrow> int" where
  "ceil_div b a = - ((- b) div a)"

definition fs_round :: "free_map \<Rightarrow> int \<Rightarrow> int result" where
  "fs_round m bytes =
     (if \<not> (is_safe_integer bytes \<and> 0 \<le> bytes) then Inl (RangeError ''Bad length'')
      else Inr (ceil_div bytes (align m) * align m))"

definition fs_check :: "free_map \<Rightarrow> int \<Rightarrow> unit result" where
  "fs_check m offset =
     (if \<not> (is_safe_integer offset \<and> 0 \<le> offset \<and> offset mod align m = 0)
      then Inl (RangeError ''Unaligned offset'') else Inr ())"

definition fs_push :: "free_map \<Rightarrow> int \<Rightarrow> int \<Rightarrow> free_map" where
  "fs_push m s t = m\<lparr>starts := starts m @ [s], ends := ends m @ [t]\<rparr>"

text \<open>\<open>splice(index, 1)\<close> and \<open>splice(index, 0, x)\<close>.\<close>

definition splice_out :: "nat \<Rightarrow> 'a list \<Rightarrow> 'a list" where
  "splice_out index xs = take index xs @ drop (Suc index) xs"

definition splice_in :: "nat \<Rightarrow> 'a \<Rightarrow> 'a list \<Rightarrow> 'a list" where
  "splice_in index x xs = take index xs @ x # drop index xs"

text \<open>The binary search of \<open>#firstStartAfter\<close>, as the loop over \<open>low\<close> and \<open>high\<close>.\<close>

function first_start_loop :: "free_map \<Rightarrow> int \<Rightarrow> nat \<Rightarrow> nat \<Rightarrow> nat" where
  "first_start_loop m offset low high =
     (if low < high then
        let middle = (low + high) div 2 in
        if start_of m middle \<le> offset then first_start_loop m offset (middle + 1) high
        else first_start_loop m offset low middle
      else low)"
  by pat_completeness auto
termination
  by (relation "measure (\<lambda>(m, offset, low, high). high - low)") auto

declare first_start_loop.simps [simp del]

definition first_start_after :: "free_map \<Rightarrow> int \<Rightarrow> nat" where
  "first_start_after m offset = first_start_loop m offset 0 (length (starts m))"

text \<open>\<open>#runContaining\<close>: \<open>None\<close> is the source's \<open>-1\<close>.\<close>

definition run_containing :: "free_map \<Rightarrow> int \<Rightarrow> nat option" where
  "run_containing m offset =
     (let next = first_start_after m offset in
      if 0 < next \<and> end_of m (next - 1) > offset then Some (next - 1) else None)"

definition fs_take :: "free_map \<Rightarrow> nat \<Rightarrow> int \<Rightarrow> int \<Rightarrow> free_map" where
  "fs_take m index s t =
     (let run_start = start_of m index; run_end = end_of m index in
      if run_start = s \<and> run_end = t then
        m\<lparr>starts := splice_out index (starts m), ends := splice_out index (ends m)\<rparr>
      else if run_start = s then m\<lparr>starts := (starts m)[index := t]\<rparr>
      else if run_end = t then m\<lparr>ends := (ends m)[index := s]\<rparr>
      else m\<lparr>starts := splice_in (index + 1) t (starts m),
             ends := splice_in (index + 1) run_end ((ends m)[index := s])\<rparr>)"

definition drop_tail :: "free_map \<Rightarrow> free_map" where
  "drop_tail m =
     (if starts m \<noteq> [] \<and> length (starts m) - 1 < length (ends m)
         \<and> ends m ! (length (starts m) - 1) = fs_end m
      then m\<lparr>fs_end := start_of m (length (starts m) - 1),
             starts := butlast (starts m), ends := butlast (ends m)\<rparr>
      else m)"

subsection \<open>Public operations\<close>

definition new_free_map :: "int \<Rightarrow> free_map result" where
  "new_free_map a =
     (if \<not> (is_safe_integer a \<and> 0 < a) then Inl (RangeError ''Bad alignment'')
      else Inr \<lparr>align = a, starts = [], ends = [], fs_end = 0\<rparr>)"

definition size_of :: "free_map \<Rightarrow> int \<Rightarrow> int result" where
  "size_of m bytes = fs_round m bytes"

definition run_count :: "free_map \<Rightarrow> nat" where
  "run_count m = length (starts m)"

definition free_bytes :: "free_map \<Rightarrow> int" where
  "free_bytes m = sum_list (map (\<lambda>index. end_of m index - start_of m index) [0..<length (starts m)])"

definition largest_run :: "free_map \<Rightarrow> int" where
  "largest_run m =
     foldl (\<lambda>largest index. max largest (end_of m index - start_of m index)) 0 [0..<length (starts m)]"

definition runs :: "free_map \<Rightarrow> (int \<times> int) list" where
  "runs m = map (\<lambda>index. (starts m ! index, end_of m index - starts m ! index)) [0..<length (starts m)]"

text \<open>The scan of \<open>allocate\<close>: the first run of at least \<open>size\<close> bytes.\<close>

definition first_fit :: "free_map \<Rightarrow> int \<Rightarrow> nat option" where
  "first_fit m need =
     List.find (\<lambda>index. need \<le> end_of m index - start_of m index) [0..<length (starts m)]"

definition allocate :: "free_map \<Rightarrow> int \<Rightarrow> (free_map \<times> int) result" where
  "allocate m bytes = bindR (fs_round m bytes) (\<lambda>need.
     case first_fit m need of
       Some index \<Rightarrow> let s = start_of m index in Inr (fs_take m index s (s + need), s)
     | None \<Rightarrow> Inr (m\<lparr>fs_end := fs_end m + need\<rparr>, fs_end m))"

definition allocate_at :: "free_map \<Rightarrow> int \<Rightarrow> int \<Rightarrow> (free_map \<times> bool) result" where
  "allocate_at m offset bytes = bindR (fs_check m offset) (\<lambda>_. bindR (fs_round m bytes) (\<lambda>need.
     let t = offset + need in
     if fs_end m \<le> offset then
       Inr ((if fs_end m < offset then fs_push m (fs_end m) offset else m)\<lparr>fs_end := t\<rparr>, True)
     else case run_containing m offset of
       None \<Rightarrow> Inr (m, False)
     | Some index \<Rightarrow>
         if end_of m index < t then Inr (m, False) else Inr (fs_take m index offset t, True)))"

definition free :: "free_map \<Rightarrow> int \<Rightarrow> int \<Rightarrow> free_map result" where
  "free m offset bytes = bindR (fs_check m offset) (\<lambda>_. bindR (fs_round m bytes) (\<lambda>need.
     let t = offset + need; n = length (starts m) in
     if t = offset then Inr m
     else if fs_end m < t then Inl (RangeError ''Free past the end'')
     else
       let next = first_start_after m offset in
       if 0 < next \<and> offset < end_of m (next - 1) then Inl (RangeError ''Double free'')
       else if next < n \<and> start_of m next < t then Inl (RangeError ''Double free'')
       else
         let joins_before = 0 < next \<and> end_of m (next - 1) = offset;
             joins_next = next < n \<and> start_of m next = t
         in Inr (drop_tail
           (if joins_before \<and> joins_next then
              m\<lparr>ends := splice_out next ((ends m)[next - 1 := end_of m next]),
                starts := splice_out next (starts m)\<rparr>
            else if joins_before then m\<lparr>ends := (ends m)[next - 1 := t]\<rparr>
            else if joins_next then m\<lparr>starts := (starts m)[next := offset]\<rparr>
            else m\<lparr>starts := splice_in next offset (starts m), ends := splice_in next t (ends m)\<rparr>))))"

definition is_allocated :: "free_map \<Rightarrow> int \<Rightarrow> int \<Rightarrow> bool result" where
  "is_allocated m offset bytes = bindR (fs_round m bytes) (\<lambda>need.
     let t = offset + need in
     if offset < 0 \<or> fs_end m < t then Inr False
     else
       let next = first_start_after m offset in
       if 0 < next \<and> offset < end_of m (next - 1) then Inr False
       else Inr (length (starts m) \<le> next \<or> t \<le> start_of m next))"

text \<open>
  \<open>fromAllocated\<close> and \<open>fromAllocatedAsync\<close> (which differ only in where they yield): the
  extents are rounded, sorted by offset and end, and folded; \<open>previous\<close> is the last extent kept.
\<close>

fun round_extents :: "free_map \<Rightarrow> (int \<times> int) list \<Rightarrow> (int \<times> int) list result" where
  "round_extents m [] = Inr []"
| "round_extents m ((offset, bytes) # rest) =
     bindR (fs_round m bytes) (\<lambda>need. bindR (round_extents m rest) (\<lambda>es. Inr ((offset, offset + need) # es)))"

fun fold_extents ::
  "free_map \<Rightarrow> int \<Rightarrow> int \<Rightarrow> (int \<times> int) option \<Rightarrow> (int \<times> int) list \<Rightarrow> free_map result" where
  "fold_extents m len cursor previous [] = Inr (m\<lparr>fs_end := cursor\<rparr>)"
| "fold_extents m len cursor previous ((s, t) # rest) =
     bindR (fs_check m s) (\<lambda>_.
       if previous = Some (s, t) then fold_extents m len cursor previous rest
       else if s < cursor then Inl (RangeError ''Extent overlaps another'')
       else bindR (fs_round m len) (\<lambda>limit.
         if limit < t then Inl (RangeError ''Extent runs past the file'')
         else fold_extents (if cursor < s then fs_push m cursor s else m) len t (Some (s, t)) rest))"

definition from_allocated :: "int \<Rightarrow> int \<Rightarrow> (int \<times> int) list \<Rightarrow> free_map result" where
  "from_allocated a len allocated =
     bindR (new_free_map a) (\<lambda>m. bindR (round_extents m allocated) (\<lambda>extents.
       fold_extents m len 0 None (sort extents)))"

text \<open>
  \<open>fromSortedAllocatedAsync\<close>: one pass over an ordered union, which is not sorted here. An extent
  is rounded as it arrives.
\<close>

fun fold_sorted ::
  "free_map \<Rightarrow> int \<Rightarrow> int \<Rightarrow> (int \<times> int) option \<Rightarrow> (int \<times> int) list \<Rightarrow> free_map result" where
  "fold_sorted m len cursor previous [] = Inr (m\<lparr>fs_end := cursor\<rparr>)"
| "fold_sorted m len cursor previous ((s, bytes) # rest) =
     bindR (fs_check m s) (\<lambda>_. bindR (fs_round m bytes) (\<lambda>need.
       let t = s + need in
       if previous = Some (s, t) then fold_sorted m len cursor previous rest
       else if s < cursor then Inl (RangeError ''Ordered extents overlap or regress'')
       else bindR (fs_round m len) (\<lambda>limit.
         if limit < t then Inl (RangeError ''Extent runs past the file'')
         else fold_sorted (if cursor < s then fs_push m cursor s else m) len t (Some (s, t)) rest)))"

definition from_sorted_allocated :: "int \<Rightarrow> int \<Rightarrow> (int \<times> int) list \<Rightarrow> free_map result" where
  "from_sorted_allocated a len allocated =
     bindR (new_free_map a) (\<lambda>m. fold_sorted m len 0 None allocated)"

subsection \<open>The invariant and the free set\<close>

fun runs_ok :: "int \<Rightarrow> int \<Rightarrow> (int \<times> int) list \<Rightarrow> bool" where
  "runs_ok a lo [] \<longleftrightarrow> True"
| "runs_ok a lo ((s, t) # rs) \<longleftrightarrow> lo < s \<and> s < t \<and> a dvd s \<and> a dvd t \<and> runs_ok a t rs"

fun last_end :: "int \<Rightarrow> (int \<times> int) list \<Rightarrow> int" where
  "last_end lo [] = lo"
| "last_end lo ((s, t) # rs) = last_end t rs"

definition represents :: "free_map \<Rightarrow> (int \<times> int) list \<Rightarrow> bool" where
  "represents m rs \<longleftrightarrow> starts m = map fst rs \<and> ends m = map snd rs"

definition wf_map :: "free_map \<Rightarrow> bool" where
  "wf_map m \<longleftrightarrow> 0 < align m \<and> length (starts m) = length (ends m)
     \<and> runs_ok (align m) (-1) (zip (starts m) (ends m))
     \<and> last_end (-1) (zip (starts m) (ends m)) < fs_end m \<and> align m dvd fs_end m"

definition free_of :: "(int \<times> int) list \<Rightarrow> int set" where
  "free_of rs = (\<Union>(s, t) \<in> set rs. {s..<t})"

definition free_set :: "free_map \<Rightarrow> int set" where
  "free_set m = free_of (zip (starts m) (ends m)) \<union> {fs_end m..}"

lemma wf_mapE:
  assumes "wf_map m"
  obtains rs where "represents m rs" "runs_ok (align m) (-1) rs" "last_end (-1) rs < fs_end m"
    "0 < align m" "align m dvd fs_end m" "free_set m = free_of rs \<union> {fs_end m..}"
  using assms that [of "zip (starts m) (ends m)"]
  by (auto simp: wf_map_def represents_def free_set_def)

lemma zip_represents: "represents m rs \<Longrightarrow> zip (starts m) (ends m) = rs"
  by (simp add: represents_def zip_map_fst_snd)

lemma wf_mapI:
  "represents m rs \<Longrightarrow> runs_ok (align m) (-1) rs \<Longrightarrow> last_end (-1) rs < fs_end m \<Longrightarrow>
   0 < align m \<Longrightarrow> align m dvd fs_end m \<Longrightarrow> wf_map m"
  using zip_represents [of m rs] by (auto simp: wf_map_def represents_def)

lemma free_set_represents: "represents m rs \<Longrightarrow> free_set m = free_of rs \<union> {fs_end m..}"
  by (simp add: free_set_def zip_represents)

lemma free_of_simps [simp]:
  "free_of [] = {}" "free_of ((s, t) # rs) = {s..<t} \<union> free_of rs"
  "free_of (xs @ ys) = free_of xs \<union> free_of ys"
  by (auto simp: free_of_def)

lemma in_free_of: "(s, t) \<in> set rs \<Longrightarrow> s \<le> v \<Longrightarrow> v < t \<Longrightarrow> v \<in> free_of rs"
  by (force simp: free_of_def)

lemma runs_ok_append: "runs_ok a lo (xs @ ys) \<longleftrightarrow> runs_ok a lo xs \<and> runs_ok a (last_end lo xs) ys"
  by (induction a lo xs rule: runs_ok.induct) auto

lemma last_end_append: "last_end lo (xs @ ys) = last_end (last_end lo xs) ys"
  by (induction lo xs rule: last_end.induct) auto

lemma last_end_ge: "runs_ok a lo rs \<Longrightarrow> lo \<le> last_end lo rs"
  by (induction a lo rs rule: runs_ok.induct) auto

lemma runs_ok_mono: "runs_ok a lo rs \<Longrightarrow> lo' \<le> lo \<Longrightarrow> runs_ok a lo' rs"
  by (cases rs) auto

lemma last_end_nonempty: "rs \<noteq> [] \<Longrightarrow> last_end lo rs = snd (last rs)"
  by (induction lo rs rule: last_end.induct) auto

lemma free_of_bounds: "runs_ok a lo rs \<Longrightarrow> p \<in> free_of rs \<Longrightarrow> lo < p \<and> p < last_end lo rs"
proof (induction a lo rs rule: runs_ok.induct)
  case (2 a lo s t rs)
  then show ?case using last_end_ge [of a t rs] by auto
qed simp

lemma free_of_ge_hd: "runs_ok a lo ((s, t) # rs) \<Longrightarrow> p \<in> free_of ((s, t) # rs) \<Longrightarrow> s \<le> p"
  using free_of_bounds [of a t rs p] by auto

subsection \<open>The binary search\<close>

definition splits_at :: "free_map \<Rightarrow> int \<Rightarrow> nat \<Rightarrow> bool" where
  "splits_at m offset r \<longleftrightarrow> r \<le> length (starts m) \<and> (\<forall>i<r. starts m ! i \<le> offset)
     \<and> (\<forall>i. r \<le> i \<and> i < length (starts m) \<longrightarrow> offset < starts m ! i)"

lemma first_start_loop_splits:
  assumes "sorted (starts m)" "low \<le> high" "high \<le> length (starts m)"
    "\<forall>i<low. starts m ! i \<le> offset" "\<forall>i. high \<le> i \<and> i < length (starts m) \<longrightarrow> offset < starts m ! i"
  shows "splits_at m offset (first_start_loop m offset low high)"
  using assms
proof (induction m offset low high rule: first_start_loop.induct)
  case (1 m offset low high)
  show ?case
  proof (cases "low < high")
    case False
    then have "first_start_loop m offset low high = low"
      by (simp add: first_start_loop.simps [of m offset low high])
    with False "1.prems" show ?thesis by (auto simp: splits_at_def)
  next
    case True
    let ?mid = "(low + high) div 2"
    have mid: "low \<le> ?mid" "?mid < high" using True by auto
    have at: "start_of m ?mid = starts m ! ?mid"
      using mid "1.prems"(3) by (simp add: start_of_def at0_def)
    show ?thesis
    proof (cases "start_of m ?mid \<le> offset")
      case le: True
      have "\<forall>i<?mid + 1. starts m ! i \<le> offset"
      proof (intro allI impI)
        fix i assume "i < ?mid + 1"
        then have "starts m ! i \<le> starts m ! ?mid"
          using "1.prems"(1,3) mid by (intro sorted_nth_mono) auto
        then show "starts m ! i \<le> offset" using le at by simp
      qed
      then show ?thesis
        using "1.IH"(1) [OF True refl le] "1.prems" mid True le
        by (simp add: first_start_loop.simps [of m offset low high] Let_def)
    next
      case gt: False
      have "\<forall>i. ?mid \<le> i \<and> i < length (starts m) \<longrightarrow> offset < starts m ! i"
      proof (intro allI impI)
        fix i assume "?mid \<le> i \<and> i < length (starts m)"
        then have "starts m ! ?mid \<le> starts m ! i"
          using "1.prems"(1) by (intro sorted_nth_mono) auto
        then show "offset < starts m ! i" using gt at by simp
      qed
      then show ?thesis
        using "1.IH"(2) [OF True refl gt] "1.prems" mid True gt
        by (simp add: first_start_loop.simps [of m offset low high] Let_def)
    qed
  qed
qed

lemma splits_at_le: "splits_at m offset r \<Longrightarrow> splits_at m offset r' \<Longrightarrow> r \<le> r'"
  unfolding splits_at_def by (metis le_refl less_le_trans not_le)

lemma splits_at_unique: "splits_at m offset r \<Longrightarrow> splits_at m offset r' \<Longrightarrow> r = r'"
  using splits_at_le by (blast intro: le_antisym)

lemma runs_ok_sorted: "runs_ok a lo rs \<Longrightarrow> sorted (map fst rs) \<and> (\<forall>s\<in>set (map fst rs). lo < s)"
proof (induction a lo rs rule: runs_ok.induct)
  case (2 a lo s t rs)
  then show ?case by fastforce
qed simp

text \<open>The list of runs cut at an offset: those that start at or before it, and those after it.\<close>

lemma cut_runs:
  assumes "represents m rs" "runs_ok a lo rs"
  obtains xs ys where "rs = xs @ ys" "first_start_after m offset = length xs"
    "\<forall>(s, t) \<in> set xs. s \<le> offset" "\<forall>(s, t) \<in> set ys. offset < s"
proof -
  define xs ys where "xs = takeWhile (\<lambda>r. fst r \<le> offset) rs" and "ys = dropWhile (\<lambda>r. fst r \<le> offset) rs"
  have rs: "rs = xs @ ys" by (simp add: xs_def ys_def)
  have st: "starts m = map fst xs @ map fst ys" using assms(1) by (simp add: represents_def rs)
  have sorted: "sorted (starts m)" using runs_ok_sorted assms by (auto simp: represents_def)
  have splits: "splits_at m offset (first_start_after m offset)"
    unfolding first_start_after_def by (rule first_start_loop_splits) (use sorted in auto)
  have xs: "\<forall>(s, t) \<in> set xs. s \<le> offset" by (auto simp: xs_def dest: set_takeWhileD)
  have ys: "\<forall>(s, t) \<in> set ys. offset < s"
  proof (cases ys)
    case (Cons y zs)
    then have "offset < fst y" using hd_dropWhile [of "\<lambda>r. fst r \<le> offset" rs] by (auto simp: ys_def)
    moreover have "sorted (map fst ys)" using sorted by (simp add: st sorted_append)
    ultimately show ?thesis using Cons by fastforce
  qed simp
  have "splits_at m offset (length xs)"
    unfolding splits_at_def
  proof (intro conjI allI impI)
    fix i assume "i < length xs"
    then show "starts m ! i \<le> offset" using xs nth_mem [of i xs] by (auto simp: st nth_append split_beta)
  next
    fix i assume "length xs \<le> i \<and> i < length (starts m)"
    then show "offset < starts m ! i"
      using ys nth_mem [of "i - length xs" ys] by (auto simp: st nth_append split_beta)
  qed (simp add: st)
  then have "first_start_after m offset = length xs"
    using splits splits_at_unique by blast
  then show ?thesis using that [of xs ys] xs ys rs by simp
qed


subsection \<open>The operations on the list of runs\<close>

lemma represents_at:
  assumes "represents m (xs @ (s, t) # ys)"
  shows "start_of m (length xs) = s" "end_of m (length xs) = t"
  using assms by (simp_all add: represents_def start_of_def end_of_def at0_def nth_append)

lemma splice_out_append: "splice_out (length xs) (xs @ y # ys) = xs @ ys"
  by (simp add: splice_out_def)

lemma splice_in_append: "splice_in (length xs) x (xs @ ys) = xs @ x # ys"
  by (simp add: splice_in_def)

definition take_run :: "int \<Rightarrow> int \<Rightarrow> int \<Rightarrow> int \<Rightarrow> (int \<times> int) list" where
  "take_run s t p q =
     (if s = p then [] else [(s, p)]) @ (if t = q then [] else [(q, t)])"

lemma fs_take_represents:
  assumes "represents m (xs @ (s, t) # ys)"
  shows "represents (fs_take m (length xs) p q) (xs @ take_run s t p q @ ys)"
    and "fs_end (fs_take m (length xs) p q) = fs_end m" "align (fs_take m (length xs) p q) = align m"
proof -
  have st: "starts m = map fst xs @ s # map fst ys" and en: "ends m = map snd xs @ t # map snd ys"
    using assms by (simp_all add: represents_def)
  have out: "splice_out (length xs) (starts m) = map fst xs @ map fst ys"
    "splice_out (length xs) (ends m) = map snd xs @ map snd ys"
    using splice_out_append [of "map fst xs"] splice_out_append [of "map snd xs"] by (simp_all add: st en)
  have up: "(starts m)[length xs := v] = map fst xs @ v # map fst ys"
    "(ends m)[length xs := v] = map snd xs @ v # map snd ys" for v
    by (simp_all add: st en list_update_append)
  have inn: "splice_in (Suc (length xs)) q (starts m) = map fst xs @ s # q # map fst ys"
    "splice_in (Suc (length xs)) t (map snd xs @ p # map snd ys) = map snd xs @ p # t # map snd ys"
    using splice_in_append [of "map fst xs @ [s]" q "map fst ys"]
      splice_in_append [of "map snd xs @ [p]" t "map snd ys"] by (simp_all add: st)
  show "represents (fs_take m (length xs) p q) (xs @ take_run s t p q @ ys)"
    unfolding fs_take_def Let_def represents_at [OF assms] take_run_def represents_def
    by (simp add: out up inn) (simp add: st en)
  show "fs_end (fs_take m (length xs) p q) = fs_end m" "align (fs_take m (length xs) p q) = align m"
    by (simp_all add: fs_take_def Let_def)
qed

lemma free_of_take_run: "s \<le> p \<Longrightarrow> p \<le> q \<Longrightarrow> q \<le> t \<Longrightarrow> free_of (take_run s t p q) = {s..<t} - {p..<q}"
  by (auto simp: take_run_def free_of_def)

lemma runs_ok_take_run:
  assumes "runs_ok a lo (xs @ (s, t) # ys)" "s \<le> p" "p \<le> q" "q \<le> t" "p < q" "a dvd p" "a dvd q"
  shows "runs_ok a lo (xs @ take_run s t p q @ ys)"
    and "last_end lo (xs @ take_run s t p q @ ys) \<le> last_end lo (xs @ (s, t) # ys)"
proof -
  have xs: "runs_ok a lo xs" "last_end lo xs < s" "runs_ok a t ys" "a dvd s" "a dvd t"
    using assms(1) by (auto simp: runs_ok_append)
  have ys: "runs_ok a v ys" if "v \<le> t" for v using that xs(3) runs_ok_mono by blast
  show "runs_ok a lo (xs @ take_run s t p q @ ys)"
    using xs assms ys [of p] ys [of "last_end lo xs"] by (auto simp: runs_ok_append take_run_def)
  show "last_end lo (xs @ take_run s t p q @ ys) \<le> last_end lo (xs @ (s, t) # ys)"
  proof (cases ys)
    case Nil
    then show ?thesis using assms xs by (auto simp: last_end_append take_run_def)
  next
    case (Cons y zs)
    then show ?thesis by (cases y) (auto simp: last_end_append)
  qed
qed

text \<open>The pieces of the free set around a run.\<close>

lemma free_of_around:
  assumes "runs_ok a lo (xs @ (s, t) # ys)"
  shows "p \<in> free_of xs \<Longrightarrow> p < s" "p \<in> free_of ys \<Longrightarrow> t < p"
  using assms free_of_bounds [of a lo xs p] free_of_bounds [of a t ys p] by (auto simp: runs_ok_append)

lemma fs_take_correct:
  assumes rep: "represents m (xs @ (s, t) # ys)" and ok: "runs_ok (align m) (-1) (xs @ (s, t) # ys)"
    and le: "last_end (-1) (xs @ (s, t) # ys) < fs_end m" "0 < align m" "align m dvd fs_end m"
    and pq: "s \<le> p" "p < q" "q \<le> t" "align m dvd p" "align m dvd q"
  shows "wf_map (fs_take m (length xs) p q)"
    and "free_set (fs_take m (length xs) p q) = free_set m - {p..<q}"
proof -
  let ?m = "fs_take m (length xs) p q" and ?rs = "xs @ take_run s t p q @ ys"
  note T = fs_take_represents [OF rep, of p q]
  show "wf_map ?m"
    by (rule wf_mapI [OF T(1)]) (use T runs_ok_take_run [OF ok, of p q] pq le in auto)
  have le_end: "t \<le> fs_end m"
    using le(1) ok last_end_ge [of "align m" t ys] by (simp add: last_end_append runs_ok_append)
  have "free_set ?m = free_of ?rs \<union> {fs_end m..}"
    using free_set_represents [OF T(1)] T(2) by simp
  also have "\<dots> = free_of xs \<union> ({s..<t} - {p..<q}) \<union> free_of ys \<union> {fs_end m..}"
    using pq by (auto simp: free_of_take_run)
  also have "\<dots> = (free_of xs \<union> {s..<t} \<union> free_of ys \<union> {fs_end m..}) - {p..<q}"
    using free_of_around [OF ok] pq le_end by fastforce
  finally show "free_set ?m = free_set m - {p..<q}"
    using free_set_represents [OF rep] by auto
qed

subsection \<open>Rounding\<close>

lemma fs_round_Inr:
  assumes "0 < align m" "is_safe_integer bytes" "0 \<le> bytes"
  obtains need where "fs_round m bytes = Inr need" "align m dvd need" "bytes \<le> need" "need < bytes + align m"
proof -
  let ?a = "align m" and ?q = "ceil_div bytes (align m)"
  have m: "0 \<le> (- bytes) mod ?a" "(- bytes) mod ?a < ?a" using assms by simp_all
  have need: "?q * ?a = bytes + (- bytes) mod ?a"
    by (simp add: ceil_div_def minus_mult_div_eq_mod [symmetric] algebra_simps)
  have "?a dvd bytes + (- bytes) mod ?a" using dvd_triv_right [of ?a ?q] by (simp only: need)
  with assms m need show ?thesis
    by (intro that [of "?q * ?a"]) (simp_all add: fs_round_def)
qed

lemma fs_round_dvd: "fs_round m bytes = Inr need \<Longrightarrow> align m dvd need"
  by (auto simp: fs_round_def split: if_splits)


lemma run_end_not_free:
  assumes "represents m (xs @ (s, t) # ys)" "runs_ok a lo (xs @ (s, t) # ys)"
    "last_end lo (xs @ (s, t) # ys) < fs_end m"
  shows "t \<notin> free_set m"
proof -
  have ok: "runs_ok a t ys" "last_end t ys < fs_end m" "s < t"
    using assms by (auto simp: runs_ok_append last_end_append)
  have "t < fs_end m" using ok last_end_ge [of a t ys] by simp
  then show ?thesis
    using free_of_around(1) [OF assms(2), of t] free_of_around(2) [OF assms(2), of t] ok
      free_set_represents [OF assms(1)] by auto
qed

text \<open>An interval inside the free set lies in one run, or past the end.\<close>

lemma interval_in_run:
  assumes rep: "represents m rs" and ok: "runs_ok a lo rs" and le: "last_end lo rs < fs_end m"
    and sub: "{p..<q} \<subseteq> free_set m" and pq: "p < q" "p < fs_end m"
  obtains xs s t ys where "rs = xs @ (s, t) # ys" "s \<le> p" "q \<le> t"
proof -
  have "p \<in> free_of rs" using sub pq free_set_represents [OF rep] by auto
  then obtain s t where st: "(s, t) \<in> set rs" "s \<le> p" "p < t" by (auto simp: free_of_def)
  from split_list [OF st(1)] obtain xs ys where rs: "rs = xs @ (s, t) # ys" by blast
  have "t \<notin> free_set m" using run_end_not_free rep ok le rs by blast
  moreover have "t \<in> {p..<q}" if "\<not> q \<le> t" using that st by simp
  ultimately have "q \<le> t" using sub by blast
  then show ?thesis using that rs st by blast
qed

lemma represents_nth:
  assumes "represents m rs" "i < length rs"
  shows "start_of m i = fst (rs ! i)" "end_of m i = snd (rs ! i)"
  using assms by (simp_all add: represents_def end_of_def start_of_def at0_def)

text \<open>No interval of \<open>need\<close> free bytes starts below the place that \<open>first_fit\<close> chooses.\<close>

lemma first_fit_lowest:
  assumes R: "represents m rs" "runs_ok (align m) (-1) rs" "last_end (-1) rs < fs_end m"
    and need: "0 < need" and p: "{p..<p + need} \<subseteq> free_set m"
  shows "case first_fit m need of None \<Rightarrow> fs_end m \<le> p | Some i \<Rightarrow> start_of m i \<le> p"
proof (rule ccontr)
  assume neg: "\<not> ?thesis"
  have len: "length (starts m) = length rs" using R(1) by (simp add: represents_def)
  have before: "start_of m i < fs_end m" if "i < length rs" for i
    using that represents_nth [OF R(1) that] free_of_bounds [OF R(2), of "fst (rs ! i)"] R(2,3)
      in_free_of [of "fst (rs ! i)" "snd (rs ! i)" rs "fst (rs ! i)"] nth_mem [OF that]
      id_take_nth_drop [OF that] by (smt (verit, best) runs_ok.simps(2) runs_ok_append prod.collapse)
  have "p < fs_end m"
    using neg before len by (auto simp: first_fit_def find_Some_iff split: option.splits) (meson less_trans not_le)
  then obtain xs s t ys where x: "rs = xs @ (s, t) # ys" "s \<le> p" "p + need \<le> t"
    using interval_in_run [OF R p, of thesis] need by simp
  let ?j = "length xs"
  have j: "need \<le> end_of m ?j - start_of m ?j" "start_of m ?j = s" "?j < length rs"
    using represents_nth [OF R(1), of ?j] x by (auto simp: nth_append)
  show False
  proof (cases "first_fit m need")
    case None
    moreover have "?j \<in> set [0..<length (starts m)]" using j len by simp
    ultimately show False using j unfolding first_fit_def find_None_iff by blast
  next
    case (Some i)
    then have i: "i < length rs" "\<forall>k<i. \<not> need \<le> end_of m k - start_of m k"
      unfolding first_fit_def find_Some_iff len by auto
    then have "i \<le> ?j" using j by (meson not_le)
    then have "map fst rs ! i \<le> map fst rs ! ?j"
      using runs_ok_sorted [OF R(2)] j by (intro sorted_nth_mono) auto
    then have "start_of m i \<le> s" using represents_nth [OF R(1)] i j by simp
    then show False using neg Some x by simp
  qed
qed

lemma allocate_at_end:
  assumes R: "represents m rs" "runs_ok (align m) (-1) rs" "last_end (-1) rs < fs_end m"
    "0 < align m" "align m dvd fs_end m" and need: "0 < need" "align m dvd need"
  shows "wf_map (m\<lparr>fs_end := fs_end m + need\<rparr>)"
    and "free_set (m\<lparr>fs_end := fs_end m + need\<rparr>) = free_set m - {fs_end m..<fs_end m + need}"
proof -
  have rep': "represents (m\<lparr>fs_end := fs_end m + need\<rparr>) rs" using R(1) by (simp add: represents_def)
  show "wf_map (m\<lparr>fs_end := fs_end m + need\<rparr>)" by (rule wf_mapI [OF rep']) (use R need in auto)
  show "free_set (m\<lparr>fs_end := fs_end m + need\<rparr>) = free_set m - {fs_end m..<fs_end m + need}"
    using free_set_represents [OF rep'] free_set_represents [OF R(1)] free_of_bounds [OF R(2)] R(3) need
    by fastforce
qed

lemma first_fit_Some:
  assumes R: "represents m rs" and i: "first_fit m need = Some i"
  obtains xs s t ys where "rs = xs @ (s, t) # ys" "length xs = i" "start_of m i = s" "s + need \<le> t"
proof -
  have i: "i < length rs" "need \<le> end_of m i - start_of m i"
    using i R unfolding first_fit_def find_Some_iff by (auto simp: represents_def)
  have "rs = take i rs @ (fst (rs ! i), snd (rs ! i)) # drop (Suc i) rs"
    using id_take_nth_drop [OF i(1)] by simp
  then show ?thesis by (rule that) (use represents_nth [OF R i(1)] i in auto)
qed

lemma allocate_spec:
  assumes wf: "wf_map m" and rnd: "fs_round m bytes = Inr need" and need: "0 < need"
  shows "\<exists>m' off. allocate m bytes = Inr (m', off)
      \<and> wf_map m' \<and> align m' = align m \<and> 0 \<le> off \<and> align m dvd off
      \<and> {off..<off + need} \<subseteq> free_set m \<and> free_set m' = free_set m - {off..<off + need}
      \<and> (\<forall>p. {p..<p + need} \<subseteq> free_set m \<longrightarrow> off \<le> p)"
proof -
  obtain rs where R: "represents m rs" "runs_ok (align m) (-1) rs" "last_end (-1) rs < fs_end m"
    "0 < align m" "align m dvd fs_end m" and fs: "free_set m = free_of rs \<union> {fs_end m..}"
    using wf_mapE [OF wf] .
  note dvd = fs_round_dvd [OF rnd]
  note lowest = first_fit_lowest [OF R(1-3) need]
  show ?thesis
  proof (cases "first_fit m need")
    case None
    have "-1 \<le> last_end (-1) rs" using last_end_ge [OF R(2)] .
    moreover have "allocate m bytes = Inr (m\<lparr>fs_end := fs_end m + need\<rparr>, fs_end m)"
      by (simp add: allocate_def rnd None)
    moreover have "fs_end m \<le> p" if "{p..<p + need} \<subseteq> free_set m" for p
      using lowest [OF that] by (simp add: None)
    ultimately show ?thesis
      using allocate_at_end [OF R need dvd] fs R(3,5)
      by (intro exI [of _ "m\<lparr>fs_end := fs_end m + need\<rparr>"] exI [of _ "fs_end m"]) auto
  next
    case (Some i)
    obtain xs s t ys where x: "rs = xs @ (s, t) # ys" "length xs = i" "start_of m i = s" "s + need \<le> t"
      using first_fit_Some [OF R(1) Some] .
    note rep = R(1) [unfolded x] and ok = R(2) [unfolded x] and le = R(3) [unfolded x]
    have s: "align m dvd s" "-1 < s" using ok last_end_ge [of "align m" "-1" xs] by (auto simp: runs_ok_append)
    have A: "allocate m bytes = Inr (fs_take m i s (s + need), s)"
      by (simp add: allocate_def rnd Some x Let_def)
    have W: "wf_map (fs_take m i s (s + need))"
      "free_set (fs_take m i s (s + need)) = free_set m - {s..<s + need}" "align (fs_take m i s (s + need)) = align m"
      using fs_take_correct [OF rep ok le R(4) R(5), of s "s + need"] fs_take_represents(3) [OF rep]
        need dvd s x by auto
    have "s \<le> p" if "{p..<p + need} \<subseteq> free_set m" for p
      using lowest [OF that] by (simp add: Some x(3))
    then have L: "\<forall>p. {p..<p + need} \<subseteq> free_set m \<longrightarrow> s \<le> p" by blast
    have "{s..<s + need} \<subseteq> {s..<t}" using x(4) by simp
    also have "\<dots> \<subseteq> free_set m" unfolding fs x(1) by auto
    finally have F: "{s..<s + need} \<subseteq> free_set m" .
    have "0 \<le> s" using s by simp
    with A W L F s(1) show ?thesis
      by (intro exI [of _ "fs_take m i s (s + need)"] exI [of _ s] conjI)
  qed
qed

lemma drop_tail_correct:
  assumes rep: "represents m rs" and ok: "runs_ok (align m) (-1) rs" "last_end (-1) rs \<le> fs_end m"
    and a: "0 < align m" "align m dvd fs_end m" "0 \<le> fs_end m"
  shows "wf_map (drop_tail m)" and "free_set (drop_tail m) = free_set m" and "align (drop_tail m) = align m"
proof -
  have "wf_map (drop_tail m) \<and> free_set (drop_tail m) = free_set m \<and> align (drop_tail m) = align m"
  proof (cases "rs \<noteq> [] \<and> last_end (-1) rs = fs_end m")
    case True
    then obtain xs s where rs: "rs = xs @ [(s, fs_end m)]"
      using last_end_nonempty [of rs "-1"] by (metis append_butlast_last_id prod.collapse)
    let ?m = "m\<lparr>fs_end := s, starts := map fst xs, ends := map snd xs\<rparr>"
    have d: "drop_tail m = ?m"
      using rep by (simp add: drop_tail_def represents_def rs start_of_def at0_def nth_append)
    have rep': "represents ?m xs" by (simp add: represents_def)
    have o: "runs_ok (align m) (-1) xs" "last_end (-1) xs < s" "s < fs_end m" "align m dvd s"
      using ok by (auto simp: rs runs_ok_append)
    have "wf_map ?m" by (rule wf_mapI [OF rep']) (use o a in auto)
    moreover have "free_set ?m = free_set m"
      using free_set_represents [OF rep'] free_set_represents [OF rep] o by (auto simp: rs)
    ultimately show ?thesis by (simp add: d)
  next
    case False
    then have "rs = [] \<or> last_end (-1) rs < fs_end m" using ok by auto
    then have "drop_tail m = m"
      using rep last_end_nonempty [of rs "-1"] by (auto simp: drop_tail_def represents_def last_conv_nth nth_map)
    moreover have "wf_map m" by (rule wf_mapI [OF rep ok(1)]) (use False ok a in \<open>auto intro: le_neq_trans\<close>)
    ultimately show ?thesis by simp
  qed
  then show "wf_map (drop_tail m)" and "free_set (drop_tail m) = free_set m" and "align (drop_tail m) = align m"
    by simp_all
qed

text \<open>The new run that a freed range makes with its neighbours.\<close>

definition merge_free :: "(int \<times> int) list \<Rightarrow> (int \<times> int) list \<Rightarrow> int \<Rightarrow> int \<Rightarrow> (int \<times> int) list" where
  "merge_free xs ys p q =
     (if xs \<noteq> [] \<and> snd (last xs) = p then butlast xs else xs)
     @ ((if xs \<noteq> [] \<and> snd (last xs) = p then fst (last xs) else p),
        (if ys \<noteq> [] \<and> fst (hd ys) = q then snd (hd ys) else q))
     # (if ys \<noteq> [] \<and> fst (hd ys) = q then tl ys else ys)"

lemma merge_free_ok:
  assumes ok: "runs_ok a lo (xs @ ys)" and pq: "p < q" "lo < p" "a dvd p" "a dvd q"
    and xs: "xs \<noteq> [] \<Longrightarrow> snd (last xs) \<le> p" and ys: "ys \<noteq> [] \<Longrightarrow> q \<le> fst (hd ys)"
  shows "runs_ok a lo (merge_free xs ys p q)"
    and "free_of (merge_free xs ys p q) = free_of (xs @ ys) \<union> {p..<q}"
    and "last_end lo (merge_free xs ys p q) = (if ys = [] then q else last_end lo (xs @ ys))"
proof -
  have "runs_ok a lo (merge_free xs ys p q)
    \<and> free_of (merge_free xs ys p q) = free_of (xs @ ys) \<union> {p..<q}
    \<and> last_end lo (merge_free xs ys p q) = (if ys = [] then q else last_end lo (xs @ ys))"
  proof (cases xs rule: rev_cases)
    case Nil
    then show ?thesis using ok pq ys by (cases ys) (auto simp: merge_free_def)
  next
    case (snoc xs0 r)
    obtain s0 e0 where r: "r = (s0, e0)" by (cases r)
    have o: "runs_ok a lo xs0" "last_end lo xs0 < s0" "s0 < e0" "a dvd s0" "a dvd e0" "runs_ok a e0 ys"
      using ok by (auto simp: snoc r runs_ok_append last_end_append)
    have e0: "e0 \<le> p" using xs by (simp add: snoc r)
    show ?thesis
      using o e0 pq ys by (cases ys) (auto simp: merge_free_def snoc r runs_ok_append last_end_append)
  qed
  then show "runs_ok a lo (merge_free xs ys p q)"
    and "free_of (merge_free xs ys p q) = free_of (xs @ ys) \<union> {p..<q}"
    and "last_end lo (merge_free xs ys p q) = (if ys = [] then q else last_end lo (xs @ ys))"
    by simp_all
qed


lemma free_none_before:
  assumes "runs_ok a lo (xs @ ys)" "x \<in> free_of xs" shows "xs \<noteq> [] \<and> x < snd (last xs)"
  using assms free_of_bounds [of a lo xs x] last_end_nonempty [of xs lo]
  by (cases xs) (auto simp: runs_ok_append)

lemma free_none_after:
  assumes "runs_ok a lo (xs @ ys)" "x \<in> free_of ys" shows "ys \<noteq> [] \<and> fst (hd ys) \<le> x"
proof (cases ys)
  case (Cons y zs)
  then show ?thesis using assms free_of_ge_hd [of a "last_end lo xs" "fst y" "snd y" zs x]
    by (auto simp: runs_ok_append)
qed (use assms in simp)

text \<open>The code's three tests together say that the range meets no free byte.\<close>

lemma free_tests:
  assumes rep: "represents m (xs @ ys)" and ok: "runs_ok a lo (xs @ ys)" and pq: "p < q"
    and xs: "\<forall>(s, t) \<in> set xs. s \<le> p" and ys: "\<forall>(s, t) \<in> set ys. p < s"
  shows "{p..<q} \<inter> free_set m = {} \<longleftrightarrow>
    q \<le> fs_end m \<and> (xs \<noteq> [] \<longrightarrow> snd (last xs) \<le> p) \<and> (ys \<noteq> [] \<longrightarrow> q \<le> fst (hd ys))"
proof
  assume "q \<le> fs_end m \<and> (xs \<noteq> [] \<longrightarrow> snd (last xs) \<le> p) \<and> (ys \<noteq> [] \<longrightarrow> q \<le> fst (hd ys))"
  then show "{p..<q} \<inter> free_set m = {}"
    using free_none_before [OF ok] free_none_after [OF ok] free_set_represents [OF rep] by fastforce
next
  assume dis: "{p..<q} \<inter> free_set m = {}"
  have run: "\<not> (s \<le> v \<and> v < t \<and> p \<le> v \<and> v < q)" if "(s, t) \<in> set (xs @ ys)" for s t v
    using that dis free_set_represents [OF rep] in_free_of [of s t "xs @ ys" v] by auto
  have st: "s < t" if "(s, t) \<in> set (xs @ ys)" for s t
  proof -
    from split_list [OF that] obtain us vs where "xs @ ys = us @ (s, t) # vs" by blast
    then show ?thesis using ok by (auto simp: runs_ok_append)
  qed
  have "q \<le> fs_end m"
  proof (rule ccontr)
    assume "\<not> q \<le> fs_end m"
    then have "q - 1 \<in> {p..<q} \<inter> free_set m" using pq free_set_represents [OF rep] by auto
    then show False using dis by simp
  qed
  moreover have "snd (last xs) \<le> p" if "xs \<noteq> []"
    using run [of "fst (last xs)" "snd (last xs)" p] that xs pq last_in_set [OF that] by fastforce
  moreover have "q \<le> fst (hd ys)" if "ys \<noteq> []"
    using run [of "fst (hd ys)" "snd (hd ys)" "fst (hd ys)"] st [of "fst (hd ys)" "snd (hd ys)"]
      that ys pq hd_in_set [OF that] by fastforce
  ultimately show "q \<le> fs_end m \<and> (xs \<noteq> [] \<longrightarrow> snd (last xs) \<le> p) \<and> (ys \<noteq> [] \<longrightarrow> q \<le> fst (hd ys))"
    by blast
qed

lemma represents_ends:
  assumes "represents m (xs @ ys)"
  shows "xs \<noteq> [] \<Longrightarrow> end_of m (length xs - 1) = snd (last xs)"
    "ys \<noteq> [] \<Longrightarrow> start_of m (length xs) = fst (hd ys)" "ys \<noteq> [] \<Longrightarrow> end_of m (length xs) = snd (hd ys)"
    "length (starts m) = length xs + length ys"
  using assms by (cases xs rule: rev_cases; auto simp: represents_def start_of_def end_of_def at0_def nth_append hd_conv_nth)+

lemma fs_check_Inr: "fs_check m off = Inr () \<longleftrightarrow> is_safe_integer off \<and> 0 \<le> off \<and> off mod align m = 0"
  by (simp add: fs_check_def)

lemma free_step:
  assumes rep: "represents m (xs @ ys)" and ok: "runs_ok (align m) lo (xs @ ys)"
    and cut: "first_start_after m p = length xs"
    and chk: "fs_check m p = Inr ()" and rnd: "fs_round m bytes = Inr need" and need: "0 < need"
    and xs: "xs \<noteq> [] \<Longrightarrow> snd (last xs) \<le> p" and ys: "ys \<noteq> [] \<Longrightarrow> p + need \<le> fst (hd ys)"
    and e: "p + need \<le> fs_end m"
  shows "\<exists>m1. free m p bytes = Inr (drop_tail m1) \<and> represents m1 (merge_free xs ys p (p + need))
    \<and> fs_end m1 = fs_end m \<and> align m1 = align m"
proof -
  note E = represents_ends [OF rep]
  have st: "starts m = map fst xs @ map fst ys" and en: "ends m = map snd xs @ map snd ys"
    using rep by (simp_all add: represents_def)
  let ?q = "p + need"
  define jb jn where "jb \<longleftrightarrow> xs \<noteq> [] \<and> snd (last xs) = p" and "jn \<longleftrightarrow> ys \<noteq> [] \<and> fst (hd ys) = ?q"
  define m1 where "m1 =
      (if jb \<and> jn then m\<lparr>ends := splice_out (length xs) ((ends m)[length xs - 1 := end_of m (length xs)]),
                starts := splice_out (length xs) (starts m)\<rparr>
       else if jb then m\<lparr>ends := (ends m)[length xs - 1 := ?q]\<rparr>
       else if jn then m\<lparr>starts := (starts m)[length xs := p]\<rparr>
       else m\<lparr>starts := splice_in (length xs) p (starts m), ends := splice_in (length xs) ?q (ends m)\<rparr>)"
  have "free m p bytes = Inr (drop_tail m1)"
    using E xs ys e need unfolding free_def chk rnd bindR_simps Let_def cut m1_def jb_def jn_def
    by (cases "xs = []"; cases "ys = []") auto
  moreover have "represents m1 (merge_free xs ys p ?q)"
  proof (cases xs rule: rev_cases)
    case Nil
    then show ?thesis
      using E by (cases ys) (auto simp: m1_def jb_def jn_def merge_free_def represents_def st en splice_in_def)
  next
    case (snoc xs0 r)
    then show ?thesis
      using E by (cases ys) (auto simp: m1_def jb_def jn_def merge_free_def represents_def st en
          splice_in_def splice_out_def list_update_append nth_append)
  qed
  moreover have "fs_end m1 = fs_end m \<and> align m1 = align m" by (simp add: m1_def)
  ultimately show ?thesis by blast
qed

lemma free_spec:
  assumes wf: "wf_map m" and chk: "fs_check m p = Inr ()" and rnd: "fs_round m bytes = Inr need"
    and need: "0 < need"
  shows "if {p..<p + need} \<inter> free_set m = {}
    then \<exists>m'. free m p bytes = Inr m' \<and> wf_map m' \<and> align m' = align m
           \<and> free_set m' = free_set m \<union> {p..<p + need}
    else \<exists>msg. free m p bytes = Inl (RangeError msg)"
proof -
  obtain rs where R: "represents m rs" "runs_ok (align m) (-1) rs" "last_end (-1) rs < fs_end m"
    "0 < align m" "align m dvd fs_end m" and fs: "free_set m = free_of rs \<union> {fs_end m..}"
    using wf_mapE [OF wf] .
  obtain xs ys where C: "rs = xs @ ys" "first_start_after m p = length xs"
    "\<forall>(s, t) \<in> set xs. s \<le> p" "\<forall>(s, t) \<in> set ys. p < s"
    using cut_runs [OF R(1,2)] .
  note rep = R(1) [unfolded C(1)] and ok = R(2) [unfolded C(1)] and le = R(3) [unfolded C(1)]
  note tests = free_tests [OF rep ok, of p "p + need"]
  have p: "0 \<le> p" "align m dvd p" using chk by (auto simp: fs_check_Inr)
  show ?thesis
  proof (cases "{p..<p + need} \<inter> free_set m = {}")
    case True
    then have T: "p + need \<le> fs_end m" "xs \<noteq> [] \<Longrightarrow> snd (last xs) \<le> p" "ys \<noteq> [] \<Longrightarrow> p + need \<le> fst (hd ys)"
      using tests need C by auto
    obtain m1 where M: "free m p bytes = Inr (drop_tail m1)" "represents m1 (merge_free xs ys p (p + need))"
      "fs_end m1 = fs_end m" "align m1 = align m"
      using free_step [OF rep ok C(2) chk rnd need T(2) T(3) T(1)] by blast
    have G: "runs_ok (align m) (-1) (merge_free xs ys p (p + need))"
      "free_of (merge_free xs ys p (p + need)) = free_of (xs @ ys) \<union> {p..<p + need}"
      "last_end (-1) (merge_free xs ys p (p + need)) = (if ys = [] then p + need else last_end (-1) (xs @ ys))"
      using merge_free_ok [OF ok, of p "p + need"] need p T fs_round_dvd [OF rnd] by auto
    have "wf_map (drop_tail m1)" "free_set (drop_tail m1) = free_set m1" "align (drop_tail m1) = align m1"
      using drop_tail_correct [OF M(2)] M G R T le last_end_ge [OF R(2)] by (auto split: if_splits)
    moreover have "free_set m1 = free_set m \<union> {p..<p + need}"
      using free_set_represents [OF M(2)] M G fs C by auto
    ultimately show ?thesis using True M by auto
  next
    case False
    then have "\<not> (p + need \<le> fs_end m \<and> (xs \<noteq> [] \<longrightarrow> snd (last xs) \<le> p) \<and> (ys \<noteq> [] \<longrightarrow> p + need \<le> fst (hd ys)))"
      using tests need C by auto
    then have "\<exists>msg. free m p bytes = Inl (RangeError msg)"
      using represents_ends [OF rep] need unfolding free_def chk rnd bindR_simps Let_def C(2)
      by (cases "xs = []"; cases "ys = []") auto
    with False show ?thesis by simp
  qed
qed


subsection \<open>The runs are determined by the free set\<close>

lemma runs_canonical:
  "runs_ok a lo rs \<Longrightarrow> runs_ok a lo rs' \<Longrightarrow> last_end lo rs < e \<Longrightarrow> last_end lo rs' < e' \<Longrightarrow>
   free_of rs \<union> {e..} = free_of rs' \<union> {e'..} \<Longrightarrow> rs = rs' \<and> e = e'"
proof (induction rs arbitrary: lo rs')
  case Nil
  show ?case
  proof (cases rs')
    case Nil
    then have "{e..} = {e'..}" using Nil.prems by simp
    then show ?thesis using Nil by simp
  next
    case (Cons r zs)
    obtain s t where r: "r = (s, t)" by (cases r)
    have "s \<in> {e..}" using Nil.prems(4,5) Nil.prems(2) Cons r by auto
    moreover have "t \<notin> {e..}"
      using Nil.prems Cons r free_of_bounds [of a t zs t] last_end_ge [of a t zs] by auto
    ultimately show ?thesis using Nil.prems(2) Cons r by auto
  qed
next
  case (Cons r rs)
  obtain s t where r: "r = (s, t)" by (cases r)
  let ?F = "free_of (r # rs) \<union> {e..}"
  have o: "lo < s" "s < t" "runs_ok a t rs" "last_end t rs < e" using Cons.prems r by auto
  have te: "t < e" using o last_end_ge [of a t rs] by simp
  have low: "s \<le> x" if "x \<in> ?F" for x
    using that free_of_ge_hd [of a lo s t rs x] Cons.prems(1) r te o by auto
  have tF: "t \<notin> ?F" using o te free_of_bounds [of a t rs t] r by auto
  show ?case
  proof (cases rs')
    case Nil
    then have F: "?F = {e'..}" using Cons.prems(5) by simp
    have "s \<in> ?F" using r o by auto
    then have "t \<in> ?F" using o unfolding F by auto
    then show ?thesis using tF by simp
  next
    case (Cons r' zs)
    obtain s' t' where r': "r' = (s', t')" by (cases r')
    have o': "lo < s'" "s' < t'" "runs_ok a t' zs" "last_end t' zs < e'" using Cons.prems r' Cons by auto
    have te': "t' < e'" using o' last_end_ge [of a t' zs] by simp
    have F': "?F = free_of (r' # zs) \<union> {e'..}" using Cons.prems(5) Cons by simp
    have low': "s' \<le> x" if "x \<in> ?F" for x
      using that free_of_ge_hd [of a lo s' t' zs x] Cons.prems(2) Cons r' te' o' unfolding F' by auto
    have tF': "t' \<notin> ?F" using o' te' free_of_bounds [of a t' zs t'] r' unfolding F' by auto
    have "s \<in> ?F" using r o by auto
    moreover have "s' \<in> ?F" unfolding F' using r' o' by auto
    ultimately have ss: "s = s'" using low low' by (meson order_antisym)
    have tt: "t = t'"
    proof (rule ccontr)
      assume "t \<noteq> t'"
      then consider "t < t'" | "t' < t" by linarith
      then show False
      proof cases
        case 1
        then have "t \<in> ?F" unfolding F' using r' ss o by auto
        then show False using tF by simp
      next
        case 2
        then have "t' \<in> ?F" using r ss o' by auto
        then show False using tF' by simp
      qed
    qed
    have "free_of rs \<union> {e..} = {x \<in> ?F. t < x}"
      using o te free_of_bounds [of a t rs] r by auto
    moreover have "free_of zs \<union> {e'..} = {x \<in> ?F. t < x}"
      unfolding F' using o' te' free_of_bounds [of a t' zs] r' tt by auto
    ultimately have "free_of rs \<union> {e..} = free_of zs \<union> {e'..}" by simp
    then have "rs = zs \<and> e = e'" using Cons.IH [of t zs] o o' tt by simp
    then show ?thesis using r r' ss tt Cons by simp
  qed
qed

lemma wf_map_canonical:
  assumes "wf_map m" "wf_map m'" "align m = align m'" "free_set m = free_set m'"
  shows "m = m'"
proof -
  obtain rs where R: "represents m rs" "runs_ok (align m) (-1) rs" "last_end (-1) rs < fs_end m"
    "free_set m = free_of rs \<union> {fs_end m..}" using wf_mapE [OF assms(1)] .
  obtain rs' where R': "represents m' rs'" "runs_ok (align m') (-1) rs'" "last_end (-1) rs' < fs_end m'"
    "free_set m' = free_of rs' \<union> {fs_end m'..}" using wf_mapE [OF assms(2)] .
  have "rs = rs' \<and> fs_end m = fs_end m'"
    using runs_canonical [of "align m" "-1" rs rs' "fs_end m" "fs_end m'"] R R' assms by simp
  then show ?thesis using R R' assms(3) by (cases m; cases m') (simp add: represents_def)
qed

subsection \<open>Placement at a given offset, queries and reopening\<close>

lemma push_represents:
  "represents m rs \<Longrightarrow> represents (fs_push m s t) (rs @ [(s, t)])"
  by (simp add: represents_def fs_push_def)

lemma allocate_at_spec:
  assumes wf: "wf_map m" and chk: "fs_check m p = Inr ()" and rnd: "fs_round m bytes = Inr need"
    and need: "0 < need"
  shows "\<exists>m' b. allocate_at m p bytes = Inr (m', b) \<and> (b \<longleftrightarrow> {p..<p + need} \<subseteq> free_set m)
    \<and> wf_map m' \<and> align m' = align m
    \<and> free_set m' = (if b then free_set m - {p..<p + need} else free_set m)"
proof -
  obtain rs where R: "represents m rs" "runs_ok (align m) (-1) rs" "last_end (-1) rs < fs_end m"
    "0 < align m" "align m dvd fs_end m" and fs: "free_set m = free_of rs \<union> {fs_end m..}"
    using wf_mapE [OF wf] .
  have p: "0 \<le> p" "align m dvd p" using chk by (auto simp: fs_check_Inr)
  note dvd = fs_round_dvd [OF rnd]
  show ?thesis
  proof (cases "fs_end m \<le> p")
    case True
    define m1 where "m1 = (if fs_end m < p then fs_push m (fs_end m) p else m)\<lparr>fs_end := p + need\<rparr>"
    define rs1 where "rs1 = (if fs_end m < p then rs @ [(fs_end m, p)] else rs)"
    have rep: "represents m1 rs1" using R(1) by (simp add: m1_def rs1_def represents_def fs_push_def)
    have al: "align m1 = align m" "fs_end m1 = p + need" by (simp_all add: m1_def fs_push_def)
    have ok: "runs_ok (align m) (-1) rs1" "last_end (-1) rs1 < p + need"
      using R p need True by (simp_all add: rs1_def runs_ok_append last_end_append)
    have "align m dvd p + need" using p dvd by simp
    then have w: "wf_map m1" using ok R(4) by (intro wf_mapI [OF rep]) (simp_all add: al)
    have rs1: "free_of rs1 = free_of rs \<union> {fs_end m..<p}" using True by (simp add: rs1_def)
    have low: "x < p" if "x \<in> free_of rs" for x
      using free_of_bounds [OF R(2) that] R(3) True by simp
    have "free_set m1 = free_of rs \<union> {fs_end m..<p} \<union> {p + need..}"
      using free_set_represents [OF rep] by (simp add: rs1 al)
    also have "\<dots> = free_set m - {p..<p + need}"
    proof (rule set_eqI)
      show "x \<in> free_of rs \<union> {fs_end m..<p} \<union> {p + need..} \<longleftrightarrow> x \<in> free_set m - {p..<p + need}" for x
        using low [of x] True need unfolding fs by (cases "x \<in> free_of rs") (simp, simp, linarith)
    qed
    finally have f: "free_set m1 = free_set m - {p..<p + need}" .
    have "{p..<p + need} \<subseteq> {fs_end m..}" using True by (simp add: subset_eq)
    then have sub: "{p..<p + need} \<subseteq> free_set m" unfolding fs by blast
    have "allocate_at m p bytes = Inr (m1, True)"
      using True by (simp add: allocate_at_def chk rnd m1_def Let_def)
    then show ?thesis using w f sub al by (intro exI [of _ m1] exI [of _ True]) simp
  next
    case False
    obtain xs ys where C: "rs = xs @ ys" "first_start_after m p = length xs"
      "\<forall>(s, t) \<in> set xs. s \<le> p" "\<forall>(s, t) \<in> set ys. p < s"
      using cut_runs [OF R(1,2)] .
    have E: "xs \<noteq> [] \<Longrightarrow> end_of m (length xs - 1) = snd (last xs)"
      using represents_ends [OF R(1) [unfolded C(1)]] by simp
    have no: "\<not> {p..<p + need} \<subseteq> free_set m" if "\<not> (xs \<noteq> [] \<and> p + need \<le> snd (last xs))"
    proof
      assume "{p..<p + need} \<subseteq> free_set m"
      then obtain us s t vs where x: "rs = us @ (s, t) # vs" "s \<le> p" "p + need \<le> t"
        using interval_in_run [OF R(1-3), of p "p + need" thesis] need False by simp
      then have "(s, t) \<in> set xs \<or> (s, t) \<in> set ys" using C(1) by (metis Un_iff in_set_conv_decomp set_append)
      then have "(s, t) \<in> set xs" using C(4) x(2) by auto
      then have "xs \<noteq> []" "snd (last xs) \<ge> t"
      proof -
        assume st: "(s, t) \<in> set xs"
        show "xs \<noteq> []" using st by auto
        have "t - 1 \<in> free_of xs" using st x need in_free_of [OF st, of "t - 1"] by simp
        then show "snd (last xs) \<ge> t" using free_none_before [of "align m" "-1" xs ys "t - 1"] R(2) C(1) by simp
      qed
      then show False using that x by simp
    qed
    show ?thesis
    proof (cases "xs \<noteq> [] \<and> p + need \<le> snd (last xs)")
      case False
      then have "allocate_at m p bytes = Inr (m, False)"
        using \<open>\<not> fs_end m \<le> p\<close> E
        by (cases "xs = []") (auto simp: allocate_at_def chk rnd run_containing_def C(2) Let_def)
      then show ?thesis using no [OF False] wf by (intro exI [of _ m] exI [of _ False]) simp
    next
      case True
      then obtain us s t where us: "xs = us @ [(s, t)]" by (metis append_butlast_last_id prod.collapse)
      have rep: "represents m (us @ (s, t) # ys)" and ok: "runs_ok (align m) (-1) (us @ (s, t) # ys)"
        and le: "last_end (-1) (us @ (s, t) # ys) < fs_end m"
        using R by (simp_all add: C us)
      have st: "s \<le> p" "p + need \<le> t" using True C us by auto
      have "allocate_at m p bytes = Inr (fs_take m (length us) p (p + need), True)"
        using \<open>\<not> fs_end m \<le> p\<close> E need st
        by (auto simp: allocate_at_def chk rnd run_containing_def C(2) us Let_def)
      moreover have "{s..<t} \<subseteq> free_set m" unfolding fs C(1) us by auto
      then have "{p..<p + need} \<subseteq> free_set m" using st by (meson ivl_subset order_trans)
      moreover have "wf_map (fs_take m (length us) p (p + need))"
        "free_set (fs_take m (length us) p (p + need)) = free_set m - {p..<p + need}"
        using fs_take_correct [OF rep ok le R(4,5), of p "p + need"] st need p dvd by simp_all
      ultimately show ?thesis using fs_take_represents(3) [OF rep]
        by (intro exI [of _ "fs_take m (length us) p (p + need)"] exI [of _ True]) simp
    qed
  qed
qed

lemma is_allocated_spec:
  assumes wf: "wf_map m" and rnd: "fs_round m bytes = Inr need" and need: "0 < need" and p: "0 \<le> p"
  shows "is_allocated m p bytes = Inr ({p..<p + need} \<inter> free_set m = {})"
proof -
  obtain rs where R: "represents m rs" "runs_ok (align m) (-1) rs"
    using wf_mapE [OF wf] .
  obtain xs ys where C: "rs = xs @ ys" "first_start_after m p = length xs"
    "\<forall>(s, t) \<in> set xs. s \<le> p" "\<forall>(s, t) \<in> set ys. p < s"
    using cut_runs [OF R] .
  note rep = R(1) [unfolded C(1)] and ok = R(2) [unfolded C(1)]
  show ?thesis
    using free_tests [OF rep ok, of p "p + need"] need p C represents_ends [OF rep]
    by (cases "xs = []"; cases "ys = []") (auto simp: is_allocated_def rnd Let_def)
qed

text \<open>
  One step of the folds is a placement at the extent's offset in the map that ends at the cursor.
\<close>

lemma fold_step:
  assumes wf: "wf_map (m\<lparr>fs_end := c\<rparr>)" and chk: "fs_check m s = Inr ()"
    and st: "c \<le> s" "s < t" "align m dvd t" "is_safe_integer (t - s)"
  defines "m1 \<equiv> if c < s then fs_push m c s else m"
  shows "wf_map (m1\<lparr>fs_end := t\<rparr>)" "align m1 = align m" "{s..<t} \<subseteq> free_set (m\<lparr>fs_end := c\<rparr>)"
    "free_set (m1\<lparr>fs_end := t\<rparr>) = free_set (m\<lparr>fs_end := c\<rparr>) - {s..<t}"
proof -
  let ?m = "m\<lparr>fs_end := c\<rparr>"
  have a: "0 < align m" using wf by (auto simp: wf_map_def)
  have "align m dvd s" using chk by (auto simp: fs_check_def dvd_eq_mod_eq_0 split: if_splits)
  then have "align m dvd t - s" using st by simp
  then obtain k where "t - s = k * align m" by (metis dvdE mult.commute)
  then have "ceil_div (t - s) (align m) * align m = t - s"
    using a by (simp add: ceil_div_def flip: mult_minus_left)
  then have rnd: "fs_round ?m (t - s) = Inr (t - s)" using st by (simp add: fs_round_def)
  have chk': "fs_check ?m s = Inr ()" using chk by (simp add: fs_check_def)
  have "allocate_at ?m s (t - s) = Inr (m1\<lparr>fs_end := t\<rparr>, True)"
    using st by (simp add: allocate_at_def chk' rnd m1_def fs_push_def)
  then show "wf_map (m1\<lparr>fs_end := t\<rparr>)" "align m1 = align m" "{s..<t} \<subseteq> free_set ?m"
    "free_set (m1\<lparr>fs_end := t\<rparr>) = free_set ?m - {s..<t}"
    using allocate_at_spec [OF wf chk' rnd] st by auto
qed

text \<open>Extents as intervals: two equal ones count once, as the folds count them.\<close>

definition extent :: "int \<times> int \<Rightarrow> int set" where
  "extent e = {fst e..<snd e}"

definition compatible :: "int \<times> int \<Rightarrow> int \<times> int \<Rightarrow> bool" where
  "compatible e f \<longleftrightarrow> e = f \<or> extent e \<inter> extent f = {}"

lemma compatible_sym: "compatible e f \<longleftrightarrow> compatible f e"
  by (simp add: compatible_def eq_commute [of e f] Int_commute)

definition apart :: "(int \<times> int) list \<Rightarrow> bool" where
  "apart es \<longleftrightarrow> (\<forall>e \<in> set es. \<forall>f \<in> set es. compatible e f)"

lemma extent_pair [simp]: "extent (s, t) = {s..<t}"
  by (simp add: extent_def)

lemma apart_Cons:
  "apart (e # es) \<longleftrightarrow> apart es \<and> (\<forall>f \<in> set es. compatible e f)"
proof -
  have "compatible e e" by (simp add: compatible_def)
  then show ?thesis unfolding apart_def set_simps(2) using compatible_sym by blast
qed

lemma free_of_extent: "free_of es = (\<Union>e \<in> set es. extent e)"
  by (auto simp: free_of_def extent_def split_beta)

lemma fold_extents_correct:
  assumes "fold_extents m len c prev es = Inr m'" "wf_map (m\<lparr>fs_end := c\<rparr>)"
    "\<forall>e \<in> set es. fst e < snd e \<and> align m dvd snd e \<and> is_safe_integer (snd e - fst e)"
    "\<forall>p. prev = Some p \<longrightarrow> extent p \<inter> free_set (m\<lparr>fs_end := c\<rparr>) = {}"
  shows "wf_map m' \<and> align m' = align m \<and> free_set m' = free_set (m\<lparr>fs_end := c\<rparr>) - free_of es
    \<and> (\<forall>e \<in> set es. prev = Some e \<or> extent e \<subseteq> free_set (m\<lparr>fs_end := c\<rparr>)) \<and> apart es"
  using assms
proof (induction es arbitrary: m c prev)
  case Nil
  then have "m' = m\<lparr>fs_end := c\<rparr>" by simp
  then show ?case using Nil.prems(2) by (simp add: apart_def)
next
  case (Cons e es)
  obtain s t where e: "e = (s, t)" by (cases e)
  let ?F = "free_set (m\<lparr>fs_end := c\<rparr>)"
  have chk: "fs_check m s = Inr ()"
    using Cons.prems(1) by (simp add: e bindR_eq_Inr)
  show ?case
  proof (cases "prev = Some (s, t)")
    case True
    then have rest: "fold_extents m len c prev es = Inr m'" using Cons.prems(1) chk by (simp add: e)
    have IH: "wf_map m'" "align m' = align m" "free_set m' = ?F - free_of es"
      "\<forall>f \<in> set es. e = f \<or> extent f \<subseteq> ?F" "apart es"
      using Cons.IH [OF rest Cons.prems(2) _ Cons.prems(4)] Cons.prems(3) True e by simp_all
    have P: "extent e \<inter> ?F = {}" using Cons.prems(4) True e by simp
    have "?F - free_of (e # es) = ?F - free_of es" using P e by auto
    moreover have "\<forall>f \<in> set (e # es). prev = Some f \<or> extent f \<subseteq> ?F"
      using IH(4) True e by auto
    moreover have "apart (e # es)" unfolding apart_Cons compatible_def using IH(4,5) P by blast
    ultimately show ?thesis using IH(1-3) by simp
  next
    case False
    let ?m1 = "if c < s then fs_push m c s else m"
    have c: "c \<le> s" and rest: "fold_extents ?m1 len t (Some (s, t)) es = Inr m'"
      using Cons.prems(1) False chk by (auto simp: e bindR_eq_Inr split: if_splits)
    have est: "s < t" "align m dvd t" "is_safe_integer (t - s)" using Cons.prems(3) by (auto simp: e)
    note F = fold_step [OF Cons.prems(2) chk c est]
    have "\<forall>e \<in> set es. fst e < snd e \<and> align ?m1 dvd snd e \<and> is_safe_integer (snd e - fst e)"
      using Cons.prems(3) F(2) by simp
    moreover have "\<forall>p. Some (s, t) = Some p \<longrightarrow> extent p \<inter> free_set (?m1\<lparr>fs_end := t\<rparr>) = {}"
      using F(4) by auto
    ultimately have IH: "wf_map m'" "align m' = align m" "free_set m' = (?F - extent e) - free_of es"
      "\<forall>f \<in> set es. e = f \<or> extent f \<subseteq> ?F - extent e" "apart es"
      using Cons.IH [OF rest F(1)] F(2,4) e by simp_all
    have sub: "extent e \<subseteq> ?F" using F(3) e by simp
    have "?F - free_of (e # es) = (?F - extent e) - free_of es" using e by auto
    moreover have "\<forall>f \<in> set (e # es). prev = Some f \<or> extent f \<subseteq> ?F"
      using IH(4) sub by auto
    moreover have "apart (e # es)" unfolding apart_Cons compatible_def using IH(4,5) by blast
    ultimately show ?thesis using IH(1-3) by simp
  qed
qed

lemma fold_sorted_round:
  "round_extents m es = Inr rs \<Longrightarrow> align m' = align m \<Longrightarrow>
   fold_sorted m' len c prev es = Inr r \<longleftrightarrow> fold_extents m' len c prev rs = Inr r"
proof (induction es arbitrary: m' c prev rs)
  case (Cons e es)
  obtain s b where e: "e = (s, b)" by (cases e)
  obtain need rs0 where r: "fs_round m b = Inr need" "round_extents m es = Inr rs0" "rs = (s, s + need) # rs0"
    using Cons.prems(1) by (auto simp: e bindR_eq_Inr)
  have "fs_round m' b = fs_round m b" using Cons.prems(2) by (simp add: fs_round_def)
  then have "fs_round m' b = Inr need" using r(1) by simp
  moreover have "align (fs_push m' c s) = align m" using Cons.prems(2) by (simp add: fs_push_def)
  ultimately show ?case
    using Cons.IH [OF r(2)] Cons.prems(2) by (auto simp: e r(3) bindR_eq_Inr Let_def split: if_splits)
qed simp

subsection \<open>The contract of a space\<close>

text \<open>
  What a client of a space relies on: the provider has an invariant, a set of free addresses, and
  two placements, one of its own choice and one at a requested offset. Inside, the lemmas on who
  owns what: a list of extents is held when its members are pairwise disjoint and none is free.
\<close>

fun held :: "int set \<Rightarrow> (int \<times> int) list \<Rightarrow> bool" where
  "held F [] \<longleftrightarrow> True"
| "held F (e # es) \<longleftrightarrow> extent e \<inter> F = {} \<and> extent e \<inter> free_of es = {} \<and> held F es"

lemma free_of_Cons: "free_of (e # es) = extent e \<union> free_of es"
  by (simp add: free_of_extent)

lemma held_append: "held F (es @ fs) \<longleftrightarrow> held F es \<and> held F fs \<and> free_of es \<inter> free_of fs = {}"
  by (induction es) (auto simp: free_of_Cons simp del: free_of_simps(2) extent_pair)

lemma held_snoc:
  "held F (es @ [e]) \<longleftrightarrow> held F es \<and> extent e \<inter> F = {} \<and> extent e \<inter> free_of es = {}"
  by (auto simp: held_append free_of_Cons simp del: free_of_simps(2) extent_pair)

lemma held_mono: "held F es \<Longrightarrow> F' \<subseteq> F \<Longrightarrow> held F' es"
  by (induction es) auto

lemma held_apart: "held F es \<Longrightarrow> free_of es \<inter> F = {}"
  by (induction es) (auto simp: free_of_Cons simp del: free_of_simps(2) extent_pair)

locale space =
  fixes good :: "'m \<Rightarrow> bool" and avail :: "'m \<Rightarrow> int set" and unit_of :: "'m \<Rightarrow> int"
    and place :: "'m \<Rightarrow> int \<Rightarrow> ('m \<times> int) result"
    and place_at :: "'m \<Rightarrow> int \<Rightarrow> int \<Rightarrow> ('m \<times> bool) result"
  assumes place_law: "good m \<Longrightarrow> unit_of m dvd n \<Longrightarrow> is_safe_integer n \<Longrightarrow> 0 < n \<Longrightarrow>
      \<exists>m' p. place m n = Inr (m', p) \<and> good m' \<and> unit_of m' = unit_of m \<and> unit_of m dvd p \<and> 0 \<le> p
        \<and> {p..<p + n} \<subseteq> avail m \<and> avail m' = avail m - {p..<p + n}"
    and place_at_law: "good m \<Longrightarrow> unit_of m dvd n \<Longrightarrow> is_safe_integer n \<Longrightarrow> 0 < n \<Longrightarrow>
      unit_of m dvd p \<Longrightarrow> is_safe_integer p \<Longrightarrow> 0 \<le> p \<Longrightarrow>
      \<exists>m' b. place_at m p n = Inr (m', b) \<and> good m' \<and> unit_of m' = unit_of m
        \<and> (b \<longleftrightarrow> {p..<p + n} \<subseteq> avail m) \<and> avail m' = (if b then avail m - {p..<p + n} else avail m)"
begin

lemma place_held:
  assumes "good m" "unit_of m dvd n" "is_safe_integer n" "0 < n" "held (avail m) es" "place m n = Inr (m', p)"
  shows "good m'" "unit_of m' = unit_of m" "unit_of m dvd p" "0 \<le> p" "held (avail m') (es @ [(p, p + n)])"
    "avail m' \<union> free_of (es @ [(p, p + n)]) = avail m \<union> free_of es"
proof -
  have L: "good m'" "unit_of m' = unit_of m" "unit_of m dvd p" "0 \<le> p"
    "{p..<p + n} \<subseteq> avail m" "avail m' = avail m - {p..<p + n}"
    using place_law [OF assms(1-4)] assms(6) by auto
  note apart = held_apart [OF assms(5)]
  show "good m'" "unit_of m' = unit_of m" "unit_of m dvd p" "0 \<le> p" using L by simp_all
  have "extent (p, p + n) \<inter> avail m' = {}" "extent (p, p + n) \<inter> free_of es = {}"
    using L(5,6) apart unfolding extent_pair by blast+
  moreover have "held (avail m') es" using held_mono [OF assms(5)] L(6) by blast
  ultimately show "held (avail m') (es @ [(p, p + n)])" by (simp only: held_snoc)
  show "avail m' \<union> free_of (es @ [(p, p + n)]) = avail m \<union> free_of es"
    using L(5,6) by (simp del: atLeastLessThan_iff) blast
qed

lemma place_at_held:
  assumes "good m" "unit_of m dvd n" "is_safe_integer n" "0 < n" "unit_of m dvd p" "is_safe_integer p" "0 \<le> p"
    "held (avail m) es" "place_at m p n = Inr (m', b)"
  shows "good m'" "unit_of m' = unit_of m" "b \<Longrightarrow> held (avail m') (es @ [(p, p + n)])"
    "b \<Longrightarrow> avail m' \<union> free_of (es @ [(p, p + n)]) = avail m \<union> free_of es"
    "\<not> b \<Longrightarrow> avail m' = avail m"
proof -
  have L: "good m'" "unit_of m' = unit_of m" "b \<longleftrightarrow> {p..<p + n} \<subseteq> avail m"
    "avail m' = (if b then avail m - {p..<p + n} else avail m)"
    using place_at_law [OF assms(1-7)] assms(9) by auto
  note apart = held_apart [OF assms(8)]
  show "good m'" "unit_of m' = unit_of m" "\<not> b \<Longrightarrow> avail m' = avail m" using L by simp_all
  assume b: b
  then have "extent (p, p + n) \<inter> avail m' = {}" "extent (p, p + n) \<inter> free_of es = {}"
    using L(3,4) apart unfolding extent_pair by auto
  moreover have "held (avail m') es" using held_mono [OF assms(8)] L(4) b by auto
  ultimately show "held (avail m') (es @ [(p, p + n)])" by (simp only: held_snoc)
  show "avail m' \<union> free_of (es @ [(p, p + n)]) = avail m \<union> free_of es"
    using L(3,4) b by (simp del: atLeastLessThan_iff) blast
qed

end

lemma fs_round_exact:
  assumes "0 < align m" "align m dvd n" "is_safe_integer n" "0 \<le> n"
  shows "fs_round m n = Inr n"
proof -
  obtain k where "n = k * align m" using assms(2) by (metis dvdE mult.commute)
  then show ?thesis using assms by (simp add: fs_round_def ceil_div_def flip: mult_minus_left)
qed

interpretation fs: space wf_map free_set align allocate allocate_at
proof
  fix m n assume a: "wf_map m" "align m dvd n" "is_safe_integer n" "0 < n"
  have r: "fs_round m n = Inr n" using a fs_round_exact by (auto simp: wf_map_def)
  show "\<exists>m' p. allocate m n = Inr (m', p) \<and> wf_map m' \<and> align m' = align m \<and> align m dvd p \<and> 0 \<le> p
        \<and> {p..<p + n} \<subseteq> free_set m \<and> free_set m' = free_set m - {p..<p + n}"
    using allocate_spec [OF a(1) r a(4)] by blast
  fix p assume p: "align m dvd p" "is_safe_integer p" "0 \<le> p"
  then have "fs_check m p = Inr ()" by (simp add: fs_check_Inr)
  from allocate_at_spec [OF a(1) this r a(4)]
  show "\<exists>m' b. allocate_at m p n = Inr (m', b) \<and> wf_map m' \<and> align m' = align m
        \<and> (b \<longleftrightarrow> {p..<p + n} \<subseteq> free_set m) \<and> free_set m' = (if b then free_set m - {p..<p + n} else free_set m)"
    by blast
qed

subsection \<open>Properties of the free-space map\<close>

lemma fs_round_pos:
  assumes "wf_map m" "is_safe_integer bytes" "0 < bytes"
  shows "fs_round m bytes = Inr (ceil_div bytes (align m) * align m)" "0 < ceil_div bytes (align m) * align m"
    "align m dvd ceil_div bytes (align m) * align m" "bytes \<le> ceil_div bytes (align m) * align m"
    "ceil_div bytes (align m) * align m < bytes + align m"
proof -
  have "0 < align m" using assms(1) by (simp add: wf_map_def)
  then obtain need where n: "fs_round m bytes = Inr need" "align m dvd need" "bytes \<le> need" "need < bytes + align m"
    by (rule fs_round_Inr) (use assms in auto)
  then have "need = ceil_div bytes (align m) * align m" by (simp add: fs_round_def split: if_splits)
  then show "fs_round m bytes = Inr (ceil_div bytes (align m) * align m)" "0 < ceil_div bytes (align m) * align m"
    "align m dvd ceil_div bytes (align m) * align m" "bytes \<le> ceil_div bytes (align m) * align m"
    "ceil_div bytes (align m) * align m < bytes + align m"
    using n assms by simp_all
qed

text \<open>
  Property C20: \<open>allocate\<close> of a positive length always succeeds on a well-formed map, and returns the
  lowest address at which the rounded length is free; exactly that interval leaves the free set, and
  the map stays well formed (runs sorted, aligned, separated, none touching the high-water mark).
\<close>

theorem allocate_first_fit:
  assumes "wf_map m" "is_safe_integer bytes" "0 < bytes"
  defines "need \<equiv> ceil_div bytes (align m) * align m"
  shows "\<exists>m' off. allocate m bytes = Inr (m', off) \<and> wf_map m' \<and> align m dvd off
    \<and> bytes \<le> need \<and> need < bytes + align m
    \<and> {off..<off + need} \<subseteq> free_set m \<and> free_set m' = free_set m - {off..<off + need}
    \<and> (\<forall>p. {p..<p + need} \<subseteq> free_set m \<longrightarrow> off \<le> p)"
  using allocate_spec [OF assms(1) fs_round_pos(1,2) [OF assms(1-3)]] fs_round_pos(4,5) [OF assms(1-3)]
  unfolding need_def by blast

definition demo_map :: free_map where
  "demo_map = \<lparr>align = 8, starts = [8, 32], ends = [16, 64], fs_end = 72\<rparr>"

lemma demo_map_wf [simp]: "wf_map demo_map"
  by (simp add: demo_map_def wf_map_def)

lemma demo_map_simps: "align demo_map = 8" "free_set demo_map = {8..<16} \<union> {32..<64} \<union> {72..}"
  by (auto simp: demo_map_def free_set_def)

lemma allocate_first_fit_witness:
  "\<exists>m' off. allocate demo_map 20 = Inr (m', off) \<and> wf_map m'"
  using allocate_first_fit [of demo_map 20] by (auto simp: safe_int_defs)

text \<open>
  Property C21: \<open>free\<close> succeeds exactly when the whole (rounded) range is allocated. Then it
  gives back exactly that range and keeps the map well formed; any byte that is already free, or lies
  past the high-water mark, makes it throw a \<open>RangeError\<close> (no double free goes unnoticed).
\<close>

theorem free_exact:
  assumes "wf_map m" "is_safe_integer bytes" "0 < bytes" "is_safe_integer off" "0 \<le> off" "off mod align m = 0"
  defines "ival \<equiv> {off..<off + ceil_div bytes (align m) * align m}"
  shows "if ival \<inter> free_set m = {}
    then \<exists>m'. free m off bytes = Inr m' \<and> wf_map m' \<and> free_set m' = free_set m \<union> ival
    else \<exists>msg. free m off bytes = Inl (RangeError msg)"
proof -
  have "fs_check m off = Inr ()" using assms(4-6) by (simp add: fs_check_Inr)
  from free_spec [OF assms(1) this fs_round_pos(1,2) [OF assms(1-3)]]
  show ?thesis unfolding ival_def by (auto split: if_splits)
qed

lemma free_exact_witness:
  "(\<exists>m'. free demo_map 16 16 = Inr m' \<and> wf_map m') \<and> (\<exists>msg. free demo_map 16 24 = Inl (RangeError msg))"
proof
  have "{16..<32} \<inter> free_set demo_map = {}" by (auto simp: demo_map_simps)
  then show "\<exists>m'. free demo_map 16 16 = Inr m' \<and> wf_map m'"
    using free_exact [of demo_map 16 16] by (auto simp: safe_int_defs demo_map_simps(1) ceil_div_def)
  have "32 \<in> {16..<40} \<inter> free_set demo_map" by (simp add: demo_map_simps)
  then have "{16..<40} \<inter> free_set demo_map \<noteq> {}" by blast
  then show "\<exists>msg. free demo_map 16 24 = Inl (RangeError msg)"
    using free_exact [of demo_map 24 16] by (simp add: safe_int_defs demo_map_simps(1) ceil_div_def)
qed

text \<open>
  Freeing what \<open>allocate\<close> just returned gives back the very same map: the parallel
  arrays and the high-water mark are canonical for the free set, so splits, joins and the dropped tail
  undo each other exactly.
\<close>

theorem free_undoes_allocate:
  assumes "wf_map m" "is_safe_integer bytes" "0 < bytes" "allocate m bytes = Inr (m', off)" "is_safe_integer off"
  shows "free m' off bytes = Inr m"
proof -
  let ?need = "ceil_div bytes (align m) * align m"
  note r = fs_round_pos [OF assms(1-3)]
  from allocate_spec [OF assms(1) r(1,2)] assms(4)
  have A: "wf_map m'" "align m' = align m" "0 \<le> off" "align m dvd off" "{off..<off + ?need} \<subseteq> free_set m"
    "free_set m' = free_set m - {off..<off + ?need}" by auto
  have chk: "fs_check m' off = Inr ()" using A assms(5) by (simp add: fs_check_Inr)
  have "fs_round m' bytes = fs_round m bytes" using A(2) by (simp add: fs_round_def)
  then have r': "fs_round m' bytes = Inr ?need" using r(1) by simp
  have "{off..<off + ?need} \<inter> free_set m' = {}" using A(6) by blast
  with free_spec [OF A(1) chk r' r(2)] obtain m2 where
    m2: "free m' off bytes = Inr m2" "wf_map m2" "align m2 = align m'" "free_set m2 = free_set m' \<union> {off..<off + ?need}"
    by auto
  have "free_set m2 = free_set m" using m2(4) A(5,6) by blast
  then have "m2 = m" using wf_map_canonical [OF m2(2) assms(1)] m2(3) A(2) by simp
  then show ?thesis using m2(1) by simp
qed

lemma free_undoes_allocate_witness: "free (fst (projr (allocate demo_map 20))) 32 20 = Inr demo_map"
proof -
  have "allocate demo_map 20 = Inr (demo_map\<lparr>starts := [8, 56]\<rparr>, 32)"
    by code_simp
  then show ?thesis
    using free_undoes_allocate [of demo_map 20] by (simp add: safe_int_defs)
qed

lemma round_extents_set:
  assumes "round_extents m es = Inr rs" "0 < align m"
    "\<forall>e \<in> set es. 0 < snd e \<and> is_safe_integer (snd e) \<and> align m dvd snd e"
  shows "rs = map (\<lambda>e. (fst e, fst e + snd e)) es"
  using assms by (induction m es arbitrary: rs rule: round_extents.induct) (auto simp: bindR_eq_Inr fs_round_exact)

lemma wf_empty: "0 < a \<Longrightarrow> wf_map \<lparr>align = a, starts = [], ends = [], fs_end = 0\<rparr>"
  by (simp add: wf_map_def)

lemma fs_check_push [simp]: "fs_check (fs_push m c t) s = fs_check m s"
  by (simp add: fs_check_def fs_push_def)

lemma fold_extents_checked:
  "fold_extents m len c prev es = Inr m' \<Longrightarrow> \<forall>e \<in> set es. fs_check m (fst e) = Inr ()"
proof (induction es arbitrary: m c prev)
  case (Cons e es)
  obtain s t where e: "e = (s, t)" by (cases e)
  have chk: "fs_check m s = Inr ()" using Cons.prems by (simp add: e bindR_eq_Inr)
  obtain m1 c1 p1 where "fold_extents m1 len c1 p1 es = Inr m'" "m1 = m \<or> m1 = fs_push m c s"
    using Cons.prems chk by (auto simp: e bindR_eq_Inr split: if_split_asm)
  then have "\<forall>e \<in> set es. fs_check m (fst e) = Inr ()" using Cons.IH [of m1 c1 p1] by force
  then show ?case using chk e by simp
qed simp

text \<open>
  A map rebuilt from the allocated extents of a file (\<open>fromAllocated\<close>) is well
  formed, and its free addresses are exactly those no extent covers: the accepted extents are
  disjoint (or equal) and none runs past the file, for aligned extents of positive length.
\<close>

theorem from_allocated_exact:
  assumes "from_allocated a len es = Inr m" "is_safe_integer a" "0 < a"
    "\<forall>e \<in> set es. 0 < snd e \<and> is_safe_integer (snd e) \<and> a dvd snd e"
  shows "wf_map m \<and> align m = a
    \<and> free_set m = {0..} - (\<Union>e \<in> set es. {fst e..<fst e + snd e})
    \<and> (\<forall>e \<in> set es. \<forall>f \<in> set es. e = f \<or> {fst e..<fst e + snd e} \<inter> {fst f..<fst f + snd f} = {})"
proof -
  let ?m0 = "\<lparr>align = a, starts = [], ends = [], fs_end = 0\<rparr>"
  let ?ival = "\<lambda>e :: int \<times> int. (fst e, fst e + snd e)"
  let ?rs = "map ?ival es"
  obtain rs where rs: "round_extents ?m0 es = Inr rs" and f: "fold_extents ?m0 len 0 None (sort rs) = Inr m"
    using assms(1-3) by (auto simp: from_allocated_def new_free_map_def bindR_eq_Inr)
  have rs': "rs = ?rs" using round_extents_set [OF rs] assms by simp
  have al: "\<forall>e \<in> set es. a dvd fst e"
    using fold_extents_checked [OF f] by (auto simp: rs' fs_check_Inr dvd_eq_mod_eq_0)
  have pre: "\<forall>e \<in> set (sort rs). fst e < snd e \<and> align ?m0 dvd snd e \<and> is_safe_integer (snd e - fst e)"
    using assms(4) al by (auto simp: rs')
  have e0: "?m0\<lparr>fs_end := 0\<rparr> = ?m0" by simp
  from fold_extents_correct [OF f] pre wf_empty [OF assms(3)]
  have C: "wf_map m" "align m = a" "free_set m = free_set ?m0 - free_of (sort rs)" "apart (sort rs)"
    by simp_all
  have "free_of (sort rs) = (\<Union>e \<in> set es. {fst e..<fst e + snd e})"
    by (auto simp: free_of_extent rs' extent_def)
  moreover have "free_set ?m0 = {0..}" by (simp add: free_set_def)
  moreover have "e = f \<or> {fst e..<fst e + snd e} \<inter> {fst f..<fst f + snd f} = {}"
    if "e \<in> set es" "f \<in> set es" for e f
  proof -
    have "compatible (?ival e) (?ival f)"
      using C(4) that by (simp add: apart_def rs')
    then show ?thesis by (auto simp: compatible_def prod_eq_iff)
  qed
  ultimately show ?thesis using C by blast
qed

lemma from_allocated_exact_witness:
  "\<exists>m. from_allocated 8 64 [(32, 8), (0, 16), (32, 8)] = Inr m \<and> wf_map m
    \<and> free_set m = {0..} - (\<Union>e \<in> set [(32, 8), (0, 16), (32, 8)]. {fst e..<fst e + snd e})"
proof -
  have "from_allocated 8 64 [(32, 8), (0, 16), (32, 8)]
      = Inr \<lparr>align = 8, starts = [16], ends = [32], fs_end = 40\<rparr>"
    by code_simp
  from from_allocated_exact [OF this] this show ?thesis
    by (intro exI [of _ "\<lparr>align = 8, starts = [16], ends = [32], fs_end = 40\<rparr>"] conjI) (simp_all add: safe_int_defs)
qed

end
