(* ===== verification/JsMap.thy ===== *)
theory JsMap
  imports Prelude
begin

text \<open>
  A JavaScript \<open>Map\<close> as the list of its entries in insertion order: \<open>get\<close> is \<open>map_of\<close>, \<open>set\<close> of a key
  it holds keeps the key's place, of a new key appends it.
\<close>

type_synonym ('k, 'v) js_map = "('k \<times> 'v) list"

definition map_delete :: "'k \<Rightarrow> ('k, 'v) js_map \<Rightarrow> ('k, 'v) js_map" where
  "map_delete k m = filter (\<lambda>e. fst e \<noteq> k) m"

definition map_set :: "'k \<Rightarrow> 'v \<Rightarrow> ('k, 'v) js_map \<Rightarrow> ('k, 'v) js_map" where
  "map_set k v m = (if map_of m k = None then m @ [(k, v)] else map (\<lambda>e. if fst e = k then (k, v) else e) m)"

lemma map_delete_Cons_distinct: "distinct (map fst ((k, v) # m)) \<Longrightarrow> map_delete k ((k, v) # m) = m"
  by (force simp: map_delete_def filter_id_conv)

lemma length_map_delete: "length (map_delete k ((k, v) # m)) < Suc (length m)"
  by (simp add: map_delete_def less_Suc_eq_le)

lemma map_of_map_set [simp]: "map_of (map_set k v m) k' = (if k' = k then Some v else map_of m k')"
proof -
  have r: "map_of (map (\<lambda>e. if fst e = k then (k, v) else e) m) k' =
      (if k' = k \<and> map_of m k \<noteq> None then Some v else map_of m k')" for m
    by (induction m) auto
  show ?thesis
    using r [of m] by (cases "map_of m k'") (auto simp: map_set_def map_add_def)
qed

lemma map_fst_map_set:
  "map fst (map_set k v m) = (if map_of m k = None then map fst m @ [k] else map fst m)"
  by (auto simp: map_set_def)

lemma distinct_map_set [simp]: "distinct (map fst (map_set k v m)) = distinct (map fst m)"
  by (auto simp: map_fst_map_set map_of_eq_None_iff)

lemma set_map_set:
  "distinct (map fst m) \<Longrightarrow> set (map_set k v m) = insert (k, v) {e \<in> set m. fst e \<noteq> k}"
  by (auto simp: map_set_def map_of_eq_None_iff image_iff split: if_splits)

end
