(* ===== verification/LikePattern.thy ===== *)
theory LikePattern
  imports Unicode "HOL-Library.Sublist"
begin

text \<open>
  The patterns of SQL \<open>LIKE\<close> (\<open>engine/sql-semantics.ts\<close>): the characters a string iterates over, the
  checks a pattern passes, its tokens, and what a list of tokens matches.

  A character is the string the iterator of a JavaScript string yields: a surrogate pair, or one
  code unit. \<open>toUpperCase\<close> is the host's Unicode table, a parameter \<open>upper\<close> of every definition
  that folds case.
\<close>

subsection \<open>Characters of a string\<close>

type_synonym js_char = js_string

fun characters :: "js_string \<Rightarrow> js_char list" where
  "characters [] = []"
| "characters [c] = [[c]]"
| "characters (c # d # rest) =
     (if high_surrogate c \<and> low_surrogate d then [c, d] # characters rest else [c] # characters (d # rest))"

text \<open>\<open>String.fromCodePoint (value.codePointAt (i))\<close>.\<close>

definition character_at :: "js_string \<Rightarrow> nat \<Rightarrow> js_char option" where
  "character_at value i =
     (case drop i value of
        [] \<Rightarrow> None
      | [c] \<Rightarrow> Some [c]
      | c # d # _ \<Rightarrow> Some (if high_surrogate c \<and> low_surrogate d then [c, d] else [c]))"

definition whole_char :: "js_char \<Rightarrow> bool" where
  "whole_char p \<longleftrightarrow>
     (case p of [c] \<Rightarrow> \<not> high_surrogate c \<and> \<not> low_surrogate c | [c, d] \<Rightarrow> high_surrogate c \<and> low_surrogate d | _ \<Rightarrow> False)"

lemma characters_Cons:
  "characters (c # rest) =
     (if high_surrogate c \<and> rest \<noteq> [] \<and> low_surrogate (hd rest) then [c, hd rest] # characters (tl rest) else [c] # characters rest)"
  by (cases rest) auto

lemma concat_characters [simp]: "concat (characters s) = s"
  by (induction s rule: characters.induct) auto

lemma characters_inj: "characters s = characters t \<longleftrightarrow> s = t"
  by (metis concat_characters)

lemma characters_Nil [simp]: "characters s = [] \<longleftrightarrow> s = []"
  by (cases s) (auto simp: characters_Cons)

lemma length_characters: "length (characters s) \<le> length s"
  by (induction s rule: characters.induct) auto

lemma character_at_None [simp]: "character_at value i = None \<longleftrightarrow> length value \<le> i"
  by (auto simp: character_at_def split: list.splits)

text \<open>The character at an index, and the rest of the string behind it.\<close>

lemma character_at_step:
  assumes "i < length value"
  obtains c where "character_at value i = Some c" "c \<noteq> []"
    "characters (drop i value) = c # characters (drop (i + length c) value)"
proof -
  obtain x r where x: "drop i value = x # r" using assms by (cases "drop i value") auto
  then have r: "drop (Suc i) value = r" by (metis drop_Suc list.sel(3) tl_drop)
  show thesis
  proof (cases r)
    case Nil
    then show thesis using x r by (intro that [of "[x]"]) (simp_all add: character_at_def)
  next
    case (Cons y r')
    then have r': "drop (Suc (Suc i)) value = r'" using r by (metis drop_Suc list.sel(3) tl_drop)
    show thesis
    proof (cases "high_surrogate x \<and> low_surrogate y")
      case True
      then show thesis using x r r' Cons by (intro that [of "[x, y]"]) (simp_all add: character_at_def)
    next
      case False
      then show thesis using x r r' Cons by (intro that [of "[x]"]) (auto simp: character_at_def)
    qed
  qed
qed

lemma not_high_low: "high_surrogate c \<Longrightarrow> \<not> low_surrogate c"
  by (auto simp: high_surrogate_def low_surrogate_def)

lemma whole_characters: "paired s \<longleftrightarrow> list_all whole_char (characters s)"
  by (induction s rule: paired.induct) (auto simp: whole_char_def characters_Cons not_high_low split: list.splits)

lemma characters_of_whole: "list_all whole_char ps \<Longrightarrow> characters (concat ps @ s) = ps @ characters s"
proof (induction ps)
  case (Cons p ps)
  then show ?case by (auto simp: whole_char_def characters_Cons not_high_low split: list.splits)
qed simp

lemma characters_concat: "list_all whole_char ps \<Longrightarrow> characters (concat ps) = ps"
  using characters_of_whole [of ps "[]"] by simp

text \<open>
  Searching a well-formed string in any string by code units finds it exactly where its
  characters are.
\<close>

lemma prefix_characters:
  assumes "list_all whole_char ps"
  shows "prefix (concat ps) v \<longleftrightarrow> prefix ps (characters v)"
  using assms
proof (induction ps arbitrary: v)
  case (Cons p ps)
  show ?case
  proof
    assume "prefix (concat (p # ps)) v"
    then obtain z where z: "v = p @ (concat ps @ z)" by (auto simp: prefix_def)
    have "characters v = p # characters (concat ps @ z)" using characters_of_whole [of "[p]" "concat ps @ z"] Cons.prems z by simp
    then show "prefix (p # ps) (characters v)" using Cons.IH [of "concat ps @ z"] Cons.prems by simp
  next
    assume "prefix (p # ps) (characters v)"
    then obtain zs where "characters v = (p # ps) @ zs" by (auto simp: prefix_def)
    then have "v = concat ((p # ps) @ zs)" by (metis concat_characters)
    then show "prefix (concat (p # ps)) v" by simp
  qed
qed simp

lemma prefix_low:
  assumes "list_all whole_char ps" "low_surrogate d" "prefix (concat ps) (d # r)"
  shows "ps = []"
  using assms by (cases ps) (auto simp: whole_char_def not_high_low split: list.splits dest: not_high_low)

lemma sublist_characters:
  assumes "list_all whole_char ps"
  shows "sublist (concat ps) v \<longleftrightarrow> sublist ps (characters v)"
proof (induction v rule: characters.induct)
  case 1
  then show ?case using prefix_characters [OF assms, of "[]"] by simp
next
  case (2 c)
  then show ?case using prefix_characters [OF assms, of "[c]"] prefix_characters [OF assms, of "[]"] by (simp add: sublist_Cons_right)
next
  case (3 c d rest)
  show ?case
  proof (cases "high_surrogate c \<and> low_surrogate d")
    case True
    then show ?thesis using 3 prefix_characters [OF assms, of "c # d # rest"] prefix_low [OF assms, of d rest]
      by (auto simp: sublist_Cons_right)
  next
    case False
    then show ?thesis using 3 prefix_characters [OF assms, of "c # d # rest"] by (auto simp: sublist_Cons_right [of _ c] sublist_Cons_right [of _ "[c]"])
  qed
qed

lemma suffix_characters:
  assumes "list_all whole_char ps"
  shows "suffix (concat ps) v \<longleftrightarrow> suffix ps (characters v)"
proof (induction v rule: characters.induct)
  case 1
  then show ?case using prefix_characters [OF assms, of "[]"] by simp
next
  case (2 c)
  have "concat ps = [c] \<longleftrightarrow> ps = [[c]]" "concat ps = [] \<longleftrightarrow> ps = []"
    using characters_concat [OF assms] by (metis characters.simps(2) concat.simps append_Nil2 list.simps(15) concat_characters, metis characters_Nil concat.simps(1))
  then show ?case by (auto simp: suffix_Cons)
next
  case (3 c d rest)
  have eq: "concat ps = w \<longleftrightarrow> ps = characters w" for w using characters_concat [OF assms] by (metis concat_characters)
  show ?case
  proof (cases "high_surrogate c \<and> low_surrogate d")
    case True
    have "concat ps \<noteq> d # rest" using prefix_low [OF assms, of d rest] True by (cases ps) auto
    then show ?thesis using 3 True eq [of "c # d # rest"] by (auto simp: suffix_Cons)
  next
    case False
    then show ?thesis using 3 eq [of "c # d # rest"] by (auto simp: suffix_Cons [of _ c] suffix_Cons [of _ "[c]"])
  qed
qed

subsection \<open>Checks and tokens\<close>

definition MAX_SQL_PATTERN_CHARACTERS :: nat where
  "MAX_SQL_PATTERN_CHARACTERS = 16 * 1024"

definition MAX_SQL_PATTERN_MATCH_STEPS :: nat where
  "MAX_SQL_PATTERN_MATCH_STEPS = 8 * 1024 * 1024"

definition assert_bounded_pattern :: "js_string \<Rightarrow> nat \<Rightarrow> unit result" where
  "assert_bounded_pattern value limit =
     (if limit < length value then Inl (RangeError ''exceeds the characters of a pattern'')
      else assert_well_formed_string value)"

definition exact_single_character :: "js_string \<Rightarrow> js_char result" where
  "exact_single_character value =
     bindR (assert_bounded_pattern value 2) (\<lambda>_.
       case characters value of
         [first] \<Rightarrow> Inr first
       | _ \<Rightarrow> Inl (TypeError ''takes one character''))"

datatype like_token = Lit js_char | Many | One

definition PERCENT :: js_char where "PERCENT = [0x25]"
definition UNDERSCORE :: js_char where "UNDERSCORE = [0x5f]"

fun tokenize_loop :: "js_char option \<Rightarrow> js_char list \<Rightarrow> bool \<Rightarrow> like_token list \<Rightarrow> like_token list result" where
  "tokenize_loop esc [] escaped tokens =
     (if escaped then Inl (TypeError ''LIKE pattern ends with a dangling escape character'') else Inr tokens)"
| "tokenize_loop esc (character # rest) escaped tokens =
     (if escaped then tokenize_loop esc rest False (tokens @ [Lit character])
      else if esc = Some character then tokenize_loop esc rest True tokens
      else if character = PERCENT then
        tokenize_loop esc rest False (if tokens \<noteq> [] \<and> last tokens = Many then tokens else tokens @ [Many])
      else if character = UNDERSCORE then tokenize_loop esc rest False (tokens @ [One])
      else tokenize_loop esc rest False (tokens @ [Lit character]))"

definition tokenize_like :: "js_string \<Rightarrow> js_char option \<Rightarrow> like_token list result" where
  "tokenize_like pattern esc = tokenize_loop esc (characters pattern) False []"

definition simple_case_fold :: "(js_char \<Rightarrow> js_string) \<Rightarrow> js_char \<Rightarrow> js_char" where
  "simple_case_fold upper character =
     (let u = upper character in if length (characters u) = 1 then u else character)"

definition like_characters_equal :: "(js_char \<Rightarrow> js_string) \<Rightarrow> js_char \<Rightarrow> js_char \<Rightarrow> bool \<Rightarrow> bool" where
  "like_characters_equal upper left right case_insensitive \<longleftrightarrow>
     left = right \<or> (case_insensitive \<and> simple_case_fold upper left = simple_case_fold upper right)"

subsection \<open>What a pattern means\<close>

text \<open>
  The reference: the SQL reading of a pattern, character by character and without tokens, and what
  a list of tokens matches. \<open>%\<close> stands for any run of characters and \<open>_\<close> for one.
\<close>

fun like :: "(js_char \<Rightarrow> js_char \<Rightarrow> bool) \<Rightarrow> like_token list \<Rightarrow> js_char list \<Rightarrow> bool" where
  "like eq [] cs \<longleftrightarrow> cs = []"
| "like eq (Lit c # ts) cs \<longleftrightarrow> (case cs of [] \<Rightarrow> False | x # xs \<Rightarrow> eq c x \<and> like eq ts xs)"
| "like eq (One # ts) cs \<longleftrightarrow> (case cs of [] \<Rightarrow> False | x # xs \<Rightarrow> like eq ts xs)"
| "like eq (Many # ts) cs \<longleftrightarrow> (like eq ts cs \<or> (case cs of [] \<Rightarrow> False | x # xs \<Rightarrow> like eq (Many # ts) xs))"

fun sql_like :: "(js_char \<Rightarrow> js_char \<Rightarrow> bool) \<Rightarrow> js_char option \<Rightarrow> js_char list \<Rightarrow> js_char list \<Rightarrow> bool" where
  "sql_like eq esc [] cs \<longleftrightarrow> cs = []"
| "sql_like eq esc (p # ps) cs \<longleftrightarrow>
     (if esc = Some p then
        (case ps of [] \<Rightarrow> False | q # qs \<Rightarrow> (case cs of [] \<Rightarrow> False | x # xs \<Rightarrow> eq q x \<and> sql_like eq esc qs xs))
      else if p = PERCENT then
        sql_like eq esc ps cs \<or> (case cs of [] \<Rightarrow> False | x # xs \<Rightarrow> sql_like eq esc (p # ps) xs)
      else (case cs of [] \<Rightarrow> False | x # xs \<Rightarrow> (p = UNDERSCORE \<or> eq p x) \<and> sql_like eq esc ps xs))"

lemma like_Many: "like eq (Many # ts) cs \<longleftrightarrow> (\<exists>k \<le> length cs. like eq ts (drop k cs))"
proof (induction cs)
  case (Cons x xs)
  have "(\<exists>k \<le> length (x # xs). like eq ts (drop k (x # xs))) \<longleftrightarrow> like eq ts (x # xs) \<or> (\<exists>k \<le> length xs. like eq ts (drop k xs))"
    by (metis Suc_le_mono drop0 drop_Suc_Cons le0 length_Cons not0_implies_Suc)
  then show ?case using Cons by simp
qed simp

lemma ex_le_Suc: "(\<exists>k \<le> Suc n. P k) \<longleftrightarrow> P 0 \<or> (\<exists>k \<le> n. P (Suc k))"
  by (metis Suc_le_mono le0 not0_implies_Suc)

lemma like_append:
  "like eq (ts @ us) cs \<longleftrightarrow> (\<exists>k \<le> length cs. like eq ts (take k cs) \<and> like eq us (drop k cs))"
proof (induction eq ts cs rule: like.induct)
  case (1 eq cs)
  then show ?case by auto
next
  case (2 eq c ts cs)
  then show ?case by (cases cs) (auto simp: ex_le_Suc)
next
  case (3 eq ts cs)
  then show ?case by (cases cs) (auto simp: ex_le_Suc)
next
  case (4 eq ts cs)
  show ?case
  proof (cases cs)
    case Nil
    then show ?thesis using 4 by simp
  next
    case (Cons x xs)
    then show ?thesis using 4(1) 4(2) [OF Cons] by (auto simp: ex_le_Suc)
  qed
qed

text \<open>The tokens of a pattern mean what the pattern means, and no two \<open>Many\<close> are adjacent.\<close>

fun escape_closed :: "js_char option \<Rightarrow> js_char list \<Rightarrow> bool" where
  "escape_closed esc [] \<longleftrightarrow> True"
| "escape_closed esc (p # ps) \<longleftrightarrow>
     (if esc = Some p then (case ps of [] \<Rightarrow> False | q # qs \<Rightarrow> escape_closed esc qs) else escape_closed esc ps)"

definition tidy :: "like_token list \<Rightarrow> bool" where
  "tidy ts \<longleftrightarrow> successively (\<lambda>a b. \<not> (a = Many \<and> b = Many)) ts \<and> (\<forall>c. Lit c \<in> set ts \<longrightarrow> whole_char c)"

lemma tidy_snoc: "tidy ts \<Longrightarrow> (t = Many \<Longrightarrow> ts = [] \<or> last ts \<noteq> Many) \<Longrightarrow> (\<And>c. t = Lit c \<Longrightarrow> whole_char c) \<Longrightarrow> tidy (ts @ [t])"
  by (auto simp: tidy_def successively_append_iff)

text \<open>A \<open>Many\<close> after a \<open>Many\<close> adds nothing, in any context.\<close>

lemma like_Many_Many: "like eq (ts @ Many # Many # us) cs \<longleftrightarrow> like eq (ts @ Many # us) cs"
proof -
  have "like eq (Many # Many # us) ds \<longleftrightarrow> like eq (Many # us) ds" for ds
    by (induction ds) auto
  then show ?thesis by (simp add: like_append)
qed

fun raw_tokens :: "js_char option \<Rightarrow> js_char list \<Rightarrow> like_token list" where
  "raw_tokens esc [] = []"
| "raw_tokens esc (p # ps) =
     (if esc = Some p then (case ps of [] \<Rightarrow> [] | q # qs \<Rightarrow> Lit q # raw_tokens esc qs)
      else (if p = PERCENT then Many else if p = UNDERSCORE then One else Lit p) # raw_tokens esc ps)"

lemma like_raw_tokens: "escape_closed esc ps \<Longrightarrow> like eq (raw_tokens esc ps) cs \<longleftrightarrow> sql_like eq esc ps cs"
proof (induction eq esc ps cs rule: sql_like.induct)
  case (2 eq esc p ps cs)
  consider (escape) "esc = Some p" | (percent) "esc \<noteq> Some p" "p = PERCENT" | (other) "esc \<noteq> Some p" "p \<noteq> PERCENT" by blast
  then show ?case
  proof cases
    case escape
    then show ?thesis using 2 by (cases ps; cases cs) simp_all
  next
    case percent
    then show ?thesis using 2 by (cases cs) simp_all
  next
    case other
    then show ?thesis using 2 by (cases cs) simp_all
  qed
qed simp

lemma tokenize_loop_like:
  assumes "list_all whole_char ps" "tidy tokens"
  shows "(if escape_closed esc ps
      then \<exists>r. tokenize_loop esc ps False tokens = Inr r \<and> tidy r \<and> (\<forall>eq cs. like eq r cs = like eq (tokens @ raw_tokens esc ps) cs)
      else tokenize_loop esc ps False tokens = Inl (TypeError ''LIKE pattern ends with a dangling escape character''))"
  using assms
proof (induction esc ps arbitrary: tokens rule: escape_closed.induct)
  case (2 esc p ps)
  have snoc: "tidy (tokens @ [t])" if "t = Many \<Longrightarrow> tokens = [] \<or> last tokens \<noteq> Many" "\<And>c. t = Lit c \<Longrightarrow> whole_char c" for t
    using tidy_snoc 2(4) that by blast
  consider (escape) "esc = Some p" | (collapse) "esc \<noteq> Some p" "p = PERCENT" "tokens \<noteq> []" "last tokens = Many"
    | (other) "esc \<noteq> Some p" "p = PERCENT \<Longrightarrow> \<not> (tokens \<noteq> [] \<and> last tokens = Many)" by blast
  then show ?case
  proof cases
    case escape
    show ?thesis
    proof (cases ps)
      case (Cons q qs)
      have t: "tidy (tokens @ [Lit q])" using 2(3) Cons by (intro snoc) auto
      show ?thesis using 2(1) [OF escape Cons _ t] 2(3) unfolding escape Cons by (cases "escape_closed (Some p) qs") simp_all
    qed (use escape in simp)
  next
    case collapse
    then obtain ts where ts: "tokens = ts @ [Many]" by (metis append_butlast_last_id)
    show ?thesis using 2(2) [OF collapse(1) _ 2(4)] 2(3) collapse like_Many_Many [of _ ts] by (cases "escape_closed esc ps") (simp_all add: ts)
  next
    case other
    let ?t = "if p = PERCENT then Many else if p = UNDERSCORE then One else Lit p"
    have t: "tidy (tokens @ [?t])" using 2(3) other by (intro snoc) (auto split: if_splits)
    have "tokenize_loop esc (p # ps) False tokens = tokenize_loop esc ps False (tokens @ [?t])"
      using other by (auto simp: PERCENT_def UNDERSCORE_def)
    then show ?thesis using 2(2) [OF other(1) _ t] 2(3) other(1) by (cases "escape_closed esc ps") simp_all
  qed
qed simp

lemma tokenize_exact:
  assumes "paired pattern"
  shows "if escape_closed esc (characters pattern)
      then \<exists>r. tokenize_like pattern esc = Inr r \<and> tidy r \<and> (\<forall>eq cs. like eq r cs = sql_like eq esc (characters pattern) cs)
      else tokenize_like pattern esc = Inl (TypeError ''LIKE pattern ends with a dangling escape character'')"
proof -
  have "list_all whole_char (characters pattern)" "tidy []" using assms by (simp_all add: whole_characters tidy_def)
  from tokenize_loop_like [OF this, of esc] show ?thesis
    by (auto simp: tokenize_like_def like_raw_tokens split: if_splits)
qed

text \<open>
  Property C16: tokenising a well-formed pattern refuses exactly the patterns that end in their escape
  character, and otherwise gives well-typed tokens: every literal is one whole character and no two
  \<open>%\<close> are adjacent; they match exactly the strings that the pattern matches read character by
  character.
\<close>

theorem tokenize_well_typed:
  assumes "paired pattern"
  shows "case tokenize_like pattern esc of
      Inl e \<Rightarrow> \<not> escape_closed esc (characters pattern) \<and> e = TypeError ''LIKE pattern ends with a dangling escape character''
    | Inr tokens \<Rightarrow> escape_closed esc (characters pattern) \<and> tidy tokens \<and>
        (\<forall>eq cs. like eq tokens cs = sql_like eq esc (characters pattern) cs)"
  using tokenize_exact [OF assms, of esc] by (auto split: if_splits)

text \<open>The pattern \<open>a%%!%\<close> with the escape \<open>!\<close>.\<close>

lemma tokenize_well_typed_witness:
  "tokenize_like [0x61, 0x25, 0x25, 0x21, 0x25] (Some [0x21]) = Inr [Lit [0x61], Many, Lit [0x25]] \<and>
   tidy [Lit [0x61], Many, Lit [0x25]]"
proof -
  have "paired [0x61, 0x25, 0x25, 0x21, 0x25]" by (simp add: high_surrogate_def low_surrogate_def)
  moreover have t: "tokenize_like [0x61, 0x25, 0x25, 0x21, 0x25] (Some [0x21]) = Inr [Lit [0x61], Many, Lit [0x25]]"
    by (simp add: tokenize_like_def high_surrogate_def low_surrogate_def PERCENT_def UNDERSCORE_def)
  ultimately show ?thesis using tokenize_well_typed [of "[0x61, 0x25, 0x25, 0x21, 0x25]" "Some [0x21]"] by simp
qed

end
