(* ===== verification/LikeGeneral.thy ===== *)
theory LikeGeneral
  imports LikePattern
begin

text \<open>
  \<open>generalLikeMatcher\<close> (\<open>engine/sql-semantics.ts\<close>): a greedy walk over tokens and string that goes
  back to the last \<open>%\<close> on a mismatch and counts its steps down to a refusal. It decides the
  reference \<open>like\<close>, and it never refuses a string short enough for the budget.
\<close>

definition throw_pattern_work_limit :: js_error where
  "throw_pattern_work_limit = RangeError ''SQL pattern match exceeds the deterministic steps''"

definition token_at :: "like_token list \<Rightarrow> nat \<Rightarrow> like_token option" where
  "token_at tokens i = (if i < length tokens then Some (tokens ! i) else None)"

text \<open>The loop over the tokens behind the end of the string; \<open>remaining\<close> is the code's budget.\<close>

fun trailing_many :: "like_token list \<Rightarrow> nat \<Rightarrow> nat \<Rightarrow> bool result" where
  "trailing_many tokens remaining token_index =
     (if token_at tokens token_index = Some Many then
        (case remaining of
           0 \<Rightarrow> Inl throw_pattern_work_limit
         | Suc left \<Rightarrow> trailing_many tokens left (token_index + 1))
      else Inr (token_index = length tokens))"

text \<open>The main loop; \<open>manyIndex = -1\<close> is \<open>None\<close>.\<close>

fun general_loop ::
  "(js_char \<Rightarrow> js_char \<Rightarrow> bool) \<Rightarrow> like_token list \<Rightarrow> js_string \<Rightarrow> nat \<Rightarrow> nat \<Rightarrow> nat \<Rightarrow> nat option \<Rightarrow> nat \<Rightarrow> bool result"
where
  "general_loop eq tokens value remaining token_index value_index many_index retry_value_index =
     (if value_index < length value then
        (case remaining of
           0 \<Rightarrow> Inl throw_pattern_work_limit
         | Suc left \<Rightarrow>
             (let token = token_at tokens token_index in
              if token = Some Many then
                general_loop eq tokens value left (token_index + 1) value_index (Some token_index) value_index
              else
                (case character_at value value_index of
                   None \<Rightarrow> trailing_many tokens left token_index
                 | Some character \<Rightarrow>
                     if token = Some One \<or> (case token of Some (Lit c) \<Rightarrow> eq c character | _ \<Rightarrow> False) then
                       general_loop eq tokens value left (token_index + 1) (value_index + length character)
                         many_index retry_value_index
                     else
                       (case many_index of
                          None \<Rightarrow> Inr False
                        | Some m \<Rightarrow>
                            (case character_at value retry_value_index of
                               None \<Rightarrow> Inr False
                             | Some retry \<Rightarrow>
                                 general_loop eq tokens value left (m + 1) (retry_value_index + length retry)
                                   many_index (retry_value_index + length retry))))))
      else trailing_many tokens remaining token_index)"

declare general_loop.simps [simp del] trailing_many.simps [simp del]

definition general_like_test :: "(js_char \<Rightarrow> js_string) \<Rightarrow> like_token list \<Rightarrow> bool \<Rightarrow> js_string \<Rightarrow> bool result" where
  "general_like_test upper tokens case_insensitive value =
     general_loop (\<lambda>l r. like_characters_equal upper l r case_insensitive) tokens value MAX_SQL_PATTERN_MATCH_STEPS 0 0 None 0"

subsection \<open>Facts of the reference\<close>

lemma like_Nil_right: "like eq ts [] \<longleftrightarrow> (\<forall>t \<in> set ts. t = Many)"
proof (induction ts)
  case (Cons t ts)
  then show ?case by (cases t) auto
qed simp

lemma like_no_Many:
  assumes "Many \<notin> set A" "like eq (A @ us) cs"
  shows "length A \<le> length cs \<and> like eq us (drop (length A) cs)"
  using assms
proof (induction A arbitrary: cs)
  case (Cons a A)
  then show ?case by (cases a; cases cs) auto
qed simp

lemma like_Many_drop: "like eq (Many # ts) (drop k cs) \<Longrightarrow> like eq (Many # ts) cs"
proof (induction k arbitrary: cs)
  case (Suc k)
  then show ?case by (cases cs) auto
qed simp

subsection \<open>The invariant of the loop\<close>

definition segment_start :: "nat option \<Rightarrow> nat" where
  "segment_start mi = (case mi of None \<Rightarrow> 0 | Some m \<Rightarrow> m + 1)"

text \<open>
  Since \<open>retryValueIndex\<close> each token of the segment behind the last \<open>%\<close> took one character.
\<close>

definition loop_inv :: "like_token list \<Rightarrow> js_string \<Rightarrow> nat \<Rightarrow> nat \<Rightarrow> nat option \<Rightarrow> nat \<Rightarrow> bool" where
  "loop_inv tokens value ti vi mi ri \<longleftrightarrow>
     segment_start mi \<le> ti \<and> ti \<le> length tokens \<and> (\<forall>m. mi = Some m \<longrightarrow> tokens ! m = Many) \<and>
     (\<forall>j. segment_start mi \<le> j \<longrightarrow> j < ti \<longrightarrow> tokens ! j \<noteq> Many) \<and>
     ti - segment_start mi \<le> length (characters (drop ri value)) \<and>
     characters (drop vi value) = drop (ti - segment_start mi) (characters (drop ri value))"

text \<open>What going back to the last \<open>%\<close> can still find.\<close>

definition later :: "(js_char \<Rightarrow> js_char \<Rightarrow> bool) \<Rightarrow> like_token list \<Rightarrow> js_string \<Rightarrow> nat option \<Rightarrow> nat \<Rightarrow> bool" where
  "later eq tokens value mi ri \<longleftrightarrow>
     (case mi of None \<Rightarrow> False
      | Some m \<Rightarrow> (case characters (drop ri value) of [] \<Rightarrow> False | _ # cs \<Rightarrow> like eq (Many # drop (m + 1) tokens) cs))"

lemma later_absorbed:
  assumes "loop_inv tokens value ti vi mi ri" "later eq tokens value mi ri"
  shows "\<exists>k. 0 < k \<and> k \<le> length (characters (drop vi value)) \<and> like eq (drop ti tokens) (drop k (characters (drop vi value)))"
proof -
  obtain m where m: "mi = Some m" using assms(2) by (auto simp: later_def split: option.splits)
  let ?n = "ti - (m + 1)" and ?cs = "characters (drop ri value)"
  define A where "A = take ?n (drop (m + 1) tokens)"
  have i: "m + 1 \<le> ti" "ti \<le> length tokens" "\<And>j. m + 1 \<le> j \<Longrightarrow> j < ti \<Longrightarrow> tokens ! j \<noteq> Many"
    "?n \<le> length ?cs" "characters (drop vi value) = drop ?n ?cs"
    using assms(1) by (auto simp: loop_inv_def segment_start_def m)
  have lenA: "length A = ?n" using i by (simp add: A_def)
  have "Many \<notin> set A"
  proof
    assume "Many \<in> set A"
    then obtain j where "j < ?n" "drop (m + 1) tokens ! j = Many" using lenA by (auto simp: in_set_conv_nth A_def)
    then show False using i(1,2) i(3) [of "m + 1 + j"] by (simp add: less_diff_conv add.commute)
  qed
  have split: "drop (m + 1) tokens = A @ drop ti tokens" using i(1) by (simp add: A_def) (metis append_take_drop_id drop_drop le_add_diff_inverse2 add_Suc_right add.right_neutral One_nat_def add.commute)
  obtain c cs where cs: "?cs = c # cs" "like eq (Many # drop (m + 1) tokens) cs"
    using assms(2) by (auto simp: later_def m split: list.splits)
  then obtain k where k: "k \<le> length cs" "like eq (A @ drop ti tokens) (drop k cs)" unfolding like_Many split by blast
  have "length A \<le> length (drop k cs) \<and> like eq (drop ti tokens) (drop (length A) (drop k cs))"
    by (rule like_no_Many [OF \<open>Many \<notin> set A\<close> k(2)])
  moreover have "drop (length A) (drop k cs) = drop (Suc k) (drop ?n ?cs)" 
  proof -
    have "drop (Suc k) (drop ?n ?cs) = drop (Suc (?n + k)) (c # cs)" by (simp only: drop_drop cs(1)) (simp add: add.commute)
    then show ?thesis by (simp add: lenA)
  qed
  ultimately show ?thesis using i(4,5) k(1) lenA cs(1) by (intro exI [of _ "Suc k"]) auto
qed

lemma later_end:
  assumes "loop_inv tokens value ti vi mi ri" "characters (drop vi value) = []"
  shows "\<not> later eq tokens value mi ri"
  using later_absorbed [OF assms(1)] assms(2) by fastforce

lemma trailing_many_spec:
  assumes "ti \<le> length tokens" "trailing_many tokens r ti = res"
  shows "res = Inr (like eq (drop ti tokens) []) \<or> res = Inl throw_pattern_work_limit"
    "length tokens - ti \<le> r \<Longrightarrow> res = Inr (like eq (drop ti tokens) [])"
proof -
  have "(res = Inr (like eq (drop ti tokens) []) \<or> res = Inl throw_pattern_work_limit) \<and>
    (length tokens - ti \<le> r \<longrightarrow> res = Inr (like eq (drop ti tokens) []))"
    using assms
  proof (induction tokens r ti rule: trailing_many.induct)
    case (1 tokens r ti)
    have d: "drop ti tokens = tokens ! ti # drop (Suc ti) tokens" if "ti < length tokens" using that by (simp add: Cons_nth_drop_Suc)
    show ?case
    proof (cases "token_at tokens ti = Some Many")
      case True
      then have ti: "ti < length tokens" "tokens ! ti = Many" by (auto simp: token_at_def split: if_splits)
      show ?thesis
      proof (cases r)
        case 0
        then show ?thesis using True 1(3) ti by (subst (asm) trailing_many.simps) simp
      next
        case (Suc left)
        then have "trailing_many tokens left (ti + 1) = res" using True 1(3) by (subst (asm) trailing_many.simps) simp
        from 1(1) [OF True Suc _ this] show ?thesis using d [OF ti(1)] ti Suc by auto
      qed
    next
      case False
      then have "res = Inr (ti = length tokens)" using 1(3) by (subst (asm) trailing_many.simps) simp
      moreover have "like eq (drop ti tokens) [] = (ti = length tokens)"
        using False d 1(2) by (auto simp: token_at_def like_Nil_right split: if_splits)
      ultimately show ?thesis by simp
    qed
  qed
  then show "res = Inr (like eq (drop ti tokens) []) \<or> res = Inl throw_pattern_work_limit"
    "length tokens - ti \<le> r \<Longrightarrow> res = Inr (like eq (drop ti tokens) [])" by blast+
qed

subsection \<open>The loop decides the reference\<close>

definition answers :: "(js_char \<Rightarrow> js_char \<Rightarrow> bool) \<Rightarrow> like_token list \<Rightarrow> js_string \<Rightarrow> nat \<Rightarrow> nat \<Rightarrow> nat option \<Rightarrow> nat \<Rightarrow> bool" where
  "answers eq tokens value ti vi mi ri \<longleftrightarrow>
     like eq (drop ti tokens) (characters (drop vi value)) \<or> later eq tokens value mi ri"

text \<open>Steps that the loop may still take.\<close>

definition work_left :: "like_token list \<Rightarrow> js_string \<Rightarrow> nat \<Rightarrow> nat \<Rightarrow> nat" where
  "work_left tokens value ti ri = length (characters (drop ri value)) * (length tokens + 1) + (length tokens - ti)"

lemma many_step:
  assumes "loop_inv tokens value ti vi mi ri" "vi < length value" "token_at tokens ti = Some Many"
  shows "loop_inv tokens value (ti + 1) vi (Some ti) vi"
    "answers eq tokens value (ti + 1) vi (Some ti) vi = answers eq tokens value ti vi mi ri"
    "work_left tokens value (ti + 1) vi < work_left tokens value ti ri"
proof -
  have ti: "ti < length tokens" "tokens ! ti = Many" using assms(3) by (auto simp: token_at_def split: if_splits)
  show "loop_inv tokens value (ti + 1) vi (Some ti) vi" using ti by (auto simp: loop_inv_def segment_start_def)
  obtain c cs where cs: "characters (drop vi value) = c # cs" using assms(2) by (cases "characters (drop vi value)") auto
  have d: "drop ti tokens = Many # drop (ti + 1) tokens" using ti by (simp add: Cons_nth_drop_Suc [symmetric])
  have "later eq tokens value mi ri \<Longrightarrow> like eq (drop ti tokens) (characters (drop vi value))"
    using later_absorbed [OF assms(1)] like_Many_drop unfolding d by blast
  then show "answers eq tokens value (ti + 1) vi (Some ti) vi = answers eq tokens value ti vi mi ri"
    by (auto simp: answers_def later_def cs d)
  have "length (characters (drop vi value)) \<le> length (characters (drop ri value))"
    using assms(1) by (auto simp: loop_inv_def)
  then have "length (characters (drop vi value)) * (length tokens + 1) \<le> length (characters (drop ri value)) * (length tokens + 1)"
    by (rule mult_le_mono1)
  then show "work_left tokens value (ti + 1) vi < work_left tokens value ti ri" using ti unfolding work_left_def by linarith
qed

lemma take_step:
  assumes "loop_inv tokens value ti vi mi ri" "vi < length value" "token_at tokens ti = Some token" "token \<noteq> Many"
    "characters (drop vi value) = c # characters (drop (vi + length c) value)"
    "token = One \<or> (\<exists>x. token = Lit x \<and> eq x c)"
  shows "loop_inv tokens value (ti + 1) (vi + length c) mi ri"
    "answers eq tokens value (ti + 1) (vi + length c) mi ri = answers eq tokens value ti vi mi ri"
    "work_left tokens value (ti + 1) ri < work_left tokens value ti ri"
proof -
  have ti: "ti < length tokens" "tokens ! ti = token" using assms(3) by (auto simp: token_at_def split: if_splits)
  let ?n = "ti - segment_start mi" and ?cs = "characters (drop ri value)"
  have e: "c # characters (drop (vi + length c) value) = drop ?n ?cs" using assms(1,5) by (simp add: loop_inv_def)
  then have n: "?n < length ?cs" by (metis drop_all list.distinct(1) not_less)
  have "characters (drop (vi + length c) value) = drop (Suc ?n) ?cs" using e by (metis drop_Suc list.sel(3) tl_drop)
  moreover have "Suc ti - segment_start mi = Suc ?n" using assms(1) by (simp add: loop_inv_def Suc_diff_le)
  ultimately show "loop_inv tokens value (ti + 1) (vi + length c) mi ri"
    using assms(1,4) ti n by (auto simp: loop_inv_def less_Suc_eq)
  have d: "drop ti tokens = token # drop (ti + 1) tokens" using ti by (simp add: Cons_nth_drop_Suc [symmetric])
  show "answers eq tokens value (ti + 1) (vi + length c) mi ri = answers eq tokens value ti vi mi ri"
    using assms(6) unfolding answers_def d assms(5) by auto
  show "work_left tokens value (ti + 1) ri < work_left tokens value ti ri" using ti by (simp add: work_left_def)
qed

lemma retry_step:
  assumes "loop_inv tokens value ti vi (Some m) ri" "vi < length value"
    "characters (drop ri value) = c # characters (drop (ri + length c) value)"
    "\<not> like eq (drop ti tokens) (characters (drop vi value))"
  shows "loop_inv tokens value (m + 1) (ri + length c) (Some m) (ri + length c)"
    "answers eq tokens value (m + 1) (ri + length c) (Some m) (ri + length c) = answers eq tokens value ti vi (Some m) ri"
    "work_left tokens value (m + 1) (ri + length c) < work_left tokens value ti ri"
proof -
  show "loop_inv tokens value (m + 1) (ri + length c) (Some m) (ri + length c)"
    using assms(1) by (auto simp: loop_inv_def segment_start_def)
  show "answers eq tokens value (m + 1) (ri + length c) (Some m) (ri + length c) = answers eq tokens value ti vi (Some m) ri"
    using assms(4) by (auto simp: answers_def later_def assms(3) split: list.splits)
  show "work_left tokens value (m + 1) (ri + length c) < work_left tokens value ti ri"
    by (simp add: work_left_def assms(3))
qed

lemma no_match_step:
  assumes "characters (drop vi value) = c # cs" "token_at tokens ti \<noteq> Some Many"
    "\<not> (token_at tokens ti = Some One \<or> (case token_at tokens ti of Some (Lit x) \<Rightarrow> eq x c | _ \<Rightarrow> False))"
  shows "\<not> like eq (drop ti tokens) (characters (drop vi value))"
proof (cases "ti < length tokens")
  case True
  then have d: "drop ti tokens = tokens ! ti # drop (Suc ti) tokens" by (simp add: Cons_nth_drop_Suc)
  show ?thesis using assms True unfolding d by (cases "tokens ! ti") (auto simp: token_at_def)
qed (use assms in simp)

lemma token_step_cases:
  obtains (many) "token_at tokens ti = Some Many"
    | (taken) token where "token_at tokens ti = Some token" "token \<noteq> Many" "token = One \<or> (\<exists>x. token = Lit x \<and> eq x c)"
    | (stuck) "token_at tokens ti \<noteq> Some Many"
        "\<not> (token_at tokens ti = Some One \<or> (case token_at tokens ti of Some (Lit x) \<Rightarrow> eq x c | _ \<Rightarrow> False))"
proof (cases "token_at tokens ti")
  case None
  then show thesis using stuck by simp
next
  case (Some t)
  then show thesis
  proof (cases t)
    case (Lit x)
    then show thesis using Some taken [of t] stuck by (cases "eq x c") simp_all
  qed (use Some many taken [of t] in simp_all)
qed

lemma general_loop_spec:
  assumes "loop_inv tokens value ti vi mi ri"
  shows "general_loop eq tokens value r ti vi mi ri = Inr (answers eq tokens value ti vi mi ri) \<or>
      general_loop eq tokens value r ti vi mi ri = Inl throw_pattern_work_limit"
    "work_left tokens value ti ri \<le> r \<Longrightarrow> general_loop eq tokens value r ti vi mi ri = Inr (answers eq tokens value ti vi mi ri)"
proof -
  let ?ok = "\<lambda>r ti vi mi ri. (general_loop eq tokens value r ti vi mi ri = Inr (answers eq tokens value ti vi mi ri) \<or>
      general_loop eq tokens value r ti vi mi ri = Inl throw_pattern_work_limit) \<and>
    (work_left tokens value ti ri \<le> r \<longrightarrow> general_loop eq tokens value r ti vi mi ri = Inr (answers eq tokens value ti vi mi ri))"
  have "?ok r ti vi mi ri"
    using assms
  proof (induction r arbitrary: ti vi mi ri rule: nat_less_induct)
    case (1 r)
    show ?case
    proof (cases "vi < length value")
      case False
      then have Nil: "characters (drop vi value) = []" by simp
      have "answers eq tokens value ti vi mi ri = like eq (drop ti tokens) []"
        using later_end [OF "1.prems" Nil] by (simp add: answers_def Nil)
      moreover have "general_loop eq tokens value r ti vi mi ri = trailing_many tokens r ti" using False by (subst general_loop.simps) simp
      ultimately show ?thesis using trailing_many_spec [of ti tokens r _ eq] "1.prems" by (auto simp: loop_inv_def work_left_def)
    next
      case vi: True
      obtain c where c: "character_at value vi = Some c" "characters (drop vi value) = c # characters (drop (vi + length c) value)"
        by (rule character_at_step [OF vi])
      have ri: "ri < length value"
      proof (rule ccontr)
        assume "\<not> ri < length value"
        then show False using "1.prems" c(2) by (simp add: loop_inv_def)
      qed
      obtain rc where rc: "character_at value ri = Some rc" "characters (drop ri value) = rc # characters (drop (ri + length rc) value)"
        by (rule character_at_step [OF ri])
      show ?thesis
      proof (cases r)
        case 0
        have "work_left tokens value ti ri \<noteq> 0" by (simp add: work_left_def rc(2))
        then show ?thesis using vi 0 by (subst general_loop.simps) (simp add: general_loop.simps [of _ _ _ 0])
      next
        case (Suc left)
        have go: "?ok r ti vi mi ri"
          if step: "general_loop eq tokens value r ti vi mi ri = general_loop eq tokens value left ti' vi' mi' ri'"
            "loop_inv tokens value ti' vi' mi' ri'"
            "answers eq tokens value ti' vi' mi' ri' = answers eq tokens value ti vi mi ri"
            "work_left tokens value ti' ri' < work_left tokens value ti ri" for ti' vi' mi' ri'
        proof -
          have "left < r" using Suc by simp
          then have "?ok left ti' vi' mi' ri'" using "1.IH" step(2) by blast
          moreover have "work_left tokens value ti ri \<le> r \<Longrightarrow> work_left tokens value ti' ri' \<le> left" using step(4) Suc by linarith
          ultimately show ?thesis unfolding step(1,3) by blast
        qed
        show ?thesis
        proof (cases rule: token_step_cases [where tokens = tokens and ti = ti and eq = eq and c = c])
          case many
          show ?thesis
            by (rule go [OF _ many_step(1) [OF "1.prems" vi many] many_step(2) [where eq = eq, OF "1.prems" vi many] many_step(3) [OF "1.prems" vi many]])
              (use many vi Suc in \<open>subst general_loop.simps, simp\<close>)
        next
          case taken
          note s = take_step [where eq = eq, OF "1.prems" vi taken(1,2) c(2) taken(3)]
          show ?thesis
            by (rule go [OF _ s]) (use taken vi Suc c in \<open>subst general_loop.simps, auto\<close>)
        next
          case stuck
          have no: "\<not> like eq (drop ti tokens) (characters (drop vi value))" by (rule no_match_step [where eq = eq, OF c(2) stuck])
          show ?thesis
          proof (cases mi)
            case None
            have "general_loop eq tokens value r ti vi mi ri = Inr False"
              using stuck vi Suc c(1) None by (subst general_loop.simps) (simp split del: if_split)
            then show ?thesis using no None by (simp add: answers_def later_def)
          next
            case (Some m)
            note s = retry_step [where eq = eq, OF "1.prems" [unfolded Some] vi rc(2) no]
            show ?thesis
              by (rule go [OF _ s(1) [folded Some] s(2) [folded Some] s(3)]) (use stuck vi Suc c(1) rc(1) Some in \<open>subst general_loop.simps, simp split del: if_split\<close>)
          qed
        qed
      qed
    qed
  qed
  then show "general_loop eq tokens value r ti vi mi ri = Inr (answers eq tokens value ti vi mi ri) \<or>
      general_loop eq tokens value r ti vi mi ri = Inl throw_pattern_work_limit"
    "work_left tokens value ti ri \<le> r \<Longrightarrow> general_loop eq tokens value r ti vi mi ri = Inr (answers eq tokens value ti vi mi ri)"
    by blast+
qed

text \<open>What the matcher compares characters with.\<close>

definition char_eq :: "(js_char \<Rightarrow> js_string) \<Rightarrow> bool \<Rightarrow> js_char \<Rightarrow> js_char \<Rightarrow> bool" where
  "char_eq upper case_insensitive = (\<lambda>l r. like_characters_equal upper l r case_insensitive)"

lemma general_start:
  "loop_inv tokens value 0 0 None 0"
  "answers eq tokens value 0 0 None 0 = like eq tokens (characters value)"
  by (simp_all add: loop_inv_def segment_start_def answers_def later_def)

lemma general_like_test_cases:
  "general_like_test upper tokens ci value = Inr (like (char_eq upper ci) tokens (characters value)) \<or>
   general_like_test upper tokens ci value = Inl throw_pattern_work_limit"
  using general_loop_spec(1) [OF general_start(1), of "char_eq upper ci"]
  by (simp add: general_like_test_def char_eq_def general_start(2))

lemma general_like_test_within:
  assumes "(length (characters value) + 1) * (length tokens + 1) \<le> MAX_SQL_PATTERN_MATCH_STEPS + 1"
  shows "general_like_test upper tokens ci value = Inr (like (char_eq upper ci) tokens (characters value))"
proof -
  have "work_left tokens value 0 0 \<le> MAX_SQL_PATTERN_MATCH_STEPS" using assms by (simp add: work_left_def)
  from general_loop_spec(2) [OF general_start(1) this, of "char_eq upper ci"] show ?thesis
    by (simp add: general_like_test_def char_eq_def general_start(2))
qed

text \<open>
  Property C14: whenever characters and tokens are few enough for the work budget, with one more of
  each their product at most one over it, the matcher with \<open>_\<close> and inner \<open>%\<close> returns, and says
  exactly whether the tokens match the string.
\<close>

theorem general_like_returns:
  assumes "(length (characters value) + 1) * (length tokens + 1) \<le> MAX_SQL_PATTERN_MATCH_STEPS + 1"
  shows "general_like_test upper tokens ci value =
    Inr (like (\<lambda>l r. like_characters_equal upper l r ci) tokens (characters value))"
  using general_like_test_within [OF assms] by (simp add: char_eq_def)

text \<open>\<open>%b_\<close> and the string \<open>abbc\<close>: the first \<open>b\<close> is tried and given up.\<close>

lemma general_like_returns_witness:
  "general_like_test (\<lambda>c. c) [Many, Lit [0x62], One] False [0x61, 0x62, 0x62, 0x63] = Inr True"
proof -
  have c: "characters [0x61, 0x62, 0x62, 0x63] = [[0x61], [0x62], [0x62], [0x63]]"
    by (simp add: high_surrogate_def)
  show ?thesis
    using general_like_returns [of "[0x61, 0x62, 0x62, 0x63]" "[Many, Lit [0x62], One]" "\<lambda>c. c" False]
    by (simp add: c MAX_SQL_PATTERN_MATCH_STEPS_def like_characters_equal_def del: characters.simps)
qed

end
