(* ===== verification/LikeLiteral.thy ===== *)
theory LikeLiteral
  imports LikeGeneral "HOL-Library.Monad_Syntax"
begin

text \<open>
  \<open>literalLikeMatcher\<close> (\<open>engine/sql-semantics.ts\<close>): a pattern whose only \<open>%\<close> are at its ends is a
  search for its literal text. With case the host's string methods search by code units; without, a
  prefix table (Knuth, Morris and Pratt) searches the folded characters in one pass.

  The loops over the table are \<open>partial_function (option)\<close>, as nothing in the code bounds them:
  that they return is proved. An entry of the \<open>Uint32Array\<close> is a \<open>nat\<close>; it is below the length.
\<close>

subsection \<open>The prefix table and the search\<close>

text \<open>\<open>while (matched > 0 && character !== needle[matched]) matched = prefix[matched - 1] ?? 0\<close>\<close>

partial_function (option) fall_back :: "'a list \<Rightarrow> nat list \<Rightarrow> 'a \<Rightarrow> nat \<Rightarrow> nat option" where
  "fall_back needle pref character matched =
     (if 0 < matched \<and> \<not> (matched < length needle \<and> needle ! matched = character)
      then fall_back needle pref character (if matched - 1 < length pref then pref ! (matched - 1) else 0)
      else Some matched)"

definition kmp_advance :: "'a list \<Rightarrow> nat list \<Rightarrow> 'a \<Rightarrow> nat \<Rightarrow> nat option" where
  "kmp_advance needle pref character matched =
     Option.bind (fall_back needle pref character matched) (\<lambda>m.
       Some (if m < length needle \<and> needle ! m = character then m + 1 else m))"

fun prefix_loop :: "'a list \<Rightarrow> nat list \<Rightarrow> nat list \<times> nat \<Rightarrow> (nat list \<times> nat) option" where
  "prefix_loop needle [] s = Some s"
| "prefix_loop needle (index # rest) (pref, matched) =
     Option.bind (kmp_advance needle pref (needle ! index) matched) (\<lambda>m.
       prefix_loop needle rest (pref[index := m], m))"

definition prefix_table :: "'a list \<Rightarrow> nat list option" where
  "prefix_table needle =
     map_option fst (prefix_loop needle [1..<length needle] (replicate (length needle) 0, 0))"

text \<open>The loop over the folded characters of the string.\<close>

fun search_loop ::
  "'a list \<Rightarrow> nat list \<Rightarrow> bool \<Rightarrow> bool \<Rightarrow> 'a list \<Rightarrow> nat \<Rightarrow> nat \<Rightarrow> bool \<Rightarrow> bool option" where
  "search_loop needle pref leading trailing [] matched position matched_at_end = Some matched_at_end"
| "search_loop needle pref leading trailing (character # rest) matched position matched_at_end =
     Option.bind (kmp_advance needle pref character matched) (\<lambda>m.
       if m = length needle then
         let starts_at = position + 1 - length needle;
             fallen = (if m - 1 < length pref then pref ! (m - 1) else 0)
         in if leading \<and> trailing then Some True
            else if \<not> leading \<and> starts_at = 0 then
              if trailing then Some True
              else search_loop needle pref leading trailing rest fallen (position + 1) True
            else search_loop needle pref leading trailing rest fallen (position + 1) (leading \<and> \<not> trailing)
       else search_loop needle pref leading trailing rest m (position + 1) False)"

subsection \<open>Overlaps\<close>

text \<open>\<open>k\<close> characters of the needle end the text; the longest such overlap below a bound.\<close>

definition overlap :: "'a list \<Rightarrow> 'a list \<Rightarrow> nat \<Rightarrow> bool" where
  "overlap nd t k \<longleftrightarrow> k \<le> length nd \<and> suffix (take k nd) t"

definition longest :: "'a list \<Rightarrow> 'a list \<Rightarrow> nat \<Rightarrow> bool" where
  "longest nd t m \<longleftrightarrow> m < length nd \<and> overlap nd t m \<and> (\<forall>k < length nd. overlap nd t k \<longrightarrow> k \<le> m)"

text \<open>A table is right below \<open>n\<close>: entry \<open>i\<close> is the longest proper border of the first \<open>i + 1\<close> characters.\<close>

definition borders :: "'a list \<Rightarrow> nat list \<Rightarrow> nat \<Rightarrow> bool" where
  "borders nd table n \<longleftrightarrow> length table = length nd \<and>
     (\<forall>i < n. longest nd (drop 1 (take (i + 1) nd)) (table ! i))"

lemma overlap_0 [simp]: "overlap nd t 0"
  by (simp add: overlap_def)

lemma overlap_snoc: "overlap nd (t @ [c]) (Suc k) \<longleftrightarrow> k < length nd \<and> nd ! k = c \<and> overlap nd t k"
proof (cases "k < length nd")
  case True
  then show ?thesis by (simp add: overlap_def take_Suc_conv_app_nth)
qed (simp add: overlap_def)

lemma overlap_border:
  assumes "overlap nd t m" "overlap nd t k" "k < m"
  shows "overlap nd (drop 1 (take m nd)) k"
proof -
  have a: "suffix (take k nd) t" "suffix (take m nd) t" "length (take k nd) \<le> length (take m nd)"
    using assms by (simp_all add: overlap_def)
  have "suffix (take k nd) (take m nd)" by (rule suffix_length_suffix [OF a])
  then obtain z where z: "take m nd = z @ take k nd" by (auto simp: suffix_def)
  moreover have "length (take m nd) = m" "length (take k nd) = k" using assms by (auto simp: overlap_def)
  ultimately obtain x zs where "z = x # zs" using assms(3) by (cases z) auto
  then have "drop 1 (take m nd) = zs @ take k nd" using z by simp
  then show ?thesis using assms(2) by (simp add: overlap_def suffix_def)
qed

lemma border_overlap:
  assumes "overlap nd t m" "overlap nd (drop 1 (take m nd)) k"
  shows "overlap nd t k"
  using assms unfolding overlap_def by (meson suffix_drop suffix_order.trans)

lemma border_less: "longest nd (drop 1 (take (Suc i) nd)) m \<Longrightarrow> m \<le> i"
  by (auto simp: longest_def overlap_def dest!: suffix_length_le)

lemma fall_back_longest:
  assumes "borders nd table n" "n \<le> length nd" "m \<le> n" "m < length nd" "overlap nd t m"
    "\<And>k. k < length nd \<Longrightarrow> overlap nd t k \<Longrightarrow> nd ! k = c \<Longrightarrow> k \<le> m"
  shows "\<exists>m'. fall_back nd table c m = Some m' \<and> m' \<le> m \<and> overlap nd t m' \<and> (m' = 0 \<or> nd ! m' = c) \<and>
    (\<forall>k < length nd. overlap nd t k \<longrightarrow> nd ! k = c \<longrightarrow> k \<le> m')"
  using assms(3-6)
proof (induction m rule: less_induct)
  case (less m)
  show ?case
  proof (cases "m = 0 \<or> nd ! m = c")
    case True
    then have "fall_back nd table c m = Some m" using less.prems(2) by (subst fall_back.simps) auto
    then show ?thesis using less.prems True by auto
  next
    case False
    then obtain i where i: "m = Suc i" by (cases m) auto
    have b: "longest nd (drop 1 (take m nd)) (table ! i)" and len: "length table = length nd"
      using assms(1) less.prems(1) i by (auto simp: borders_def)
    have lt: "table ! i < m" using border_less [of nd i "table ! i"] b i by simp
    have step: "fall_back nd table c m = fall_back nd table c (table ! i)"
      using False less.prems(2) len i by (subst fall_back.simps) auto
    have "\<exists>m'. fall_back nd table c (table ! i) = Some m' \<and> m' \<le> table ! i \<and> overlap nd t m' \<and> (m' = 0 \<or> nd ! m' = c) \<and>
        (\<forall>k < length nd. overlap nd t k \<longrightarrow> nd ! k = c \<longrightarrow> k \<le> m')"
    proof (rule less.IH [OF lt])
      show "table ! i \<le> n" "table ! i < length nd" using lt less.prems by auto
      show "overlap nd t (table ! i)" using b less.prems(3) by (auto simp: longest_def intro: border_overlap)
      show "k \<le> table ! i" if "k < length nd" "overlap nd t k" "nd ! k = c" for k
      proof -
        have "k \<le> m" "k \<noteq> m" using less.prems(4) [OF that] False that by auto
        then have "overlap nd (drop 1 (take m nd)) k" using overlap_border less.prems(3) that(2) by (metis le_neq_implies_less)
        then show ?thesis using b that(1) by (auto simp: longest_def)
      qed
    qed
    then obtain m' where m': "fall_back nd table c (table ! i) = Some m'" "m' \<le> table ! i" "overlap nd t m'" "m' = 0 \<or> nd ! m' = c"
      "\<forall>k < length nd. overlap nd t k \<longrightarrow> nd ! k = c \<longrightarrow> k \<le> m'" by blast
    show ?thesis unfolding step by (rule exI [of _ m']) (use m' lt in simp)
  qed
qed

text \<open>One character: the longest overlap of the longer text, the whole needle included.\<close>

lemma kmp_advance_longest:
  assumes "borders nd table n" "n \<le> length nd" "m \<le> n" "longest nd t m"
  shows "\<exists>m'. kmp_advance nd table c m = Some m' \<and> m' \<le> Suc m \<and> overlap nd (t @ [c]) m' \<and> (\<forall>k. overlap nd (t @ [c]) k \<longrightarrow> k \<le> m')"
proof -
  obtain m0 where m0: "fall_back nd table c m = Some m0" "m0 \<le> m" "overlap nd t m0" "m0 = 0 \<or> nd ! m0 = c"
    "\<And>k. k < length nd \<Longrightarrow> overlap nd t k \<Longrightarrow> nd ! k = c \<Longrightarrow> k \<le> m0"
    using fall_back_longest [OF assms(1,2,3), of t c] assms(4) by (auto simp: longest_def)
  have lt: "m0 < length nd" using m0(2) assms(4) by (simp add: longest_def)
  let ?m = "if nd ! m0 = c then m0 + 1 else m0"
  have "kmp_advance nd table c m = Some ?m" using m0(1) lt by (simp add: kmp_advance_def)
  moreover have "overlap nd (t @ [c]) ?m" using m0(3,4) lt by (auto simp: overlap_snoc)
  moreover have "k \<le> ?m" if "overlap nd (t @ [c]) k" for k
    using that m0(4) m0(5) by (cases k) (fastforce simp: overlap_snoc)+
  ultimately show ?thesis using m0(2) by (intro exI [of _ ?m]) auto
qed

text \<open>The table.\<close>

lemma prefix_loop_append: "prefix_loop nd (xs @ ys) s = Option.bind (prefix_loop nd xs s) (prefix_loop nd ys)"
proof (induction xs arbitrary: s)
  case (Cons x xs)
  then show ?case by (cases s) (simp add: bind_assoc)
qed simp

lemma prefix_table_borders:
  assumes "nd \<noteq> []"
  shows "\<exists>table. prefix_table nd = Some table \<and> borders nd table (length nd)"
proof -
  have "\<exists>table m. prefix_loop nd [1..<n] (replicate (length nd) 0, 0) = Some (table, m) \<and> borders nd table n \<and>
      longest nd (drop 1 (take n nd)) m" if "1 \<le> n" "n \<le> length nd" for n
    using that
  proof (induction n rule: dec_induct)
    case base
    have "longest nd (drop 1 (take 1 nd)) 0" using assms by (auto simp: longest_def overlap_def take_Suc)
    then show ?case using assms by (auto simp: borders_def)
  next
    case (step n)
    then obtain table m where IH: "prefix_loop nd [1..<n] (replicate (length nd) 0, 0) = Some (table, m)" "borders nd table n"
      "longest nd (drop 1 (take n nd)) m" by auto
    have m: "m \<le> n - 1" using border_less [of nd "n - 1" m] IH(3) step.hyps by simp
    have snoc: "drop 1 (take n nd) @ [nd ! n] = drop 1 (take (Suc n) nd)"
      using step by (simp add: take_Suc_conv_app_nth)
    have n: "n \<le> length nd" "m \<le> n" using m step.prems by simp_all
    obtain m' where m': "kmp_advance nd table (nd ! n) m = Some m'" "m' \<le> Suc m" "overlap nd (drop 1 (take (Suc n) nd)) m'"
      "\<forall>k. overlap nd (drop 1 (take (Suc n) nd)) k \<longrightarrow> k \<le> m'"
      using kmp_advance_longest [OF IH(2) n IH(3), of "nd ! n"] unfolding snoc by blast
    have l: "longest nd (drop 1 (take (Suc n) nd)) m'" using m' m step by (auto simp: longest_def)
    have "prefix_loop nd [1..<Suc n] (replicate (length nd) 0, 0) = Some (table[n := m'], m')"
      using IH(1) m'(1) step.hyps by (simp add: prefix_loop_append)
    moreover have "borders nd (table[n := m']) (Suc n)" using IH(2) l step.prems by (auto simp: borders_def less_Suc_eq)
    ultimately show ?case using l by blast
  qed
  from this [of "length nd"] assms show ?thesis by (auto simp: prefix_table_def Suc_le_eq)
qed

text \<open>The search: whether the needle stands where the ends of the pattern want it.\<close>

definition hit :: "'a list \<Rightarrow> bool \<Rightarrow> 'a list \<Rightarrow> bool" where
  "hit nd leading t \<longleftrightarrow> (if leading then suffix nd t else t = nd)"

lemma search_loop_spec:
  assumes "nd \<noteq> []" "borders nd table (length nd)" "longest nd P m"
  shows "search_loop nd table leading trailing cs m (length P) mae =
    Some (if trailing then (cs = [] \<and> mae) \<or> (\<exists>k < length cs. hit nd leading (P @ take (Suc k) cs))
          else if cs = [] then mae else hit nd leading (P @ cs))"
  using assms(3)
proof (induction cs arbitrary: P m mae)
  case Nil
  then show ?case by simp
next
  case (Cons c cs)
  have ex: "(\<exists>k < length (c # cs). hit nd leading (P @ take (Suc k) (c # cs))) \<longleftrightarrow>
      hit nd leading (P @ [c]) \<or> (\<exists>k < length cs. hit nd leading ((P @ [c]) @ take (Suc k) cs))"
    by (auto simp: less_Suc_eq_0_disj Ex_less_Suc2)
  obtain m' where m': "kmp_advance nd table c m = Some m'" "overlap nd (P @ [c]) m'" "\<And>k. overlap nd (P @ [c]) k \<Longrightarrow> k \<le> m'"
    using kmp_advance_longest [OF assms(2) order_refl _ Cons.prems, of c] Cons.prems by (auto simp: longest_def)
  have full: "m' = length nd \<longleftrightarrow> suffix nd (P @ [c])"
    using m'(2) m'(3) [of "length nd"] by (auto simp: overlap_def)
  have IH: "search_loop nd table leading trailing cs l (Suc (length P)) b =
      Some (if trailing then (cs = [] \<and> b) \<or> (\<exists>k < length cs. hit nd leading ((P @ [c]) @ take (Suc k) cs))
          else if cs = [] then b else hit nd leading ((P @ [c]) @ cs))" if "longest nd (P @ [c]) l" for l b
    using Cons.IH [OF that, of b] by simp
  show ?case
  proof (cases "m' = length nd")
    case True
    let ?f = "table ! (length nd - 1)"
    have b: "longest nd (drop 1 (take (length nd) nd)) ?f" "length table = length nd"
      using assms(1,2) by (auto simp: borders_def dest!: spec [of _ "length nd - 1"])
    have o: "overlap nd (P @ [c]) (length nd)" using m'(2) True by simp
    have f: "longest nd (P @ [c]) ?f" unfolding longest_def
    proof (intro conjI allI impI)
      show "?f < length nd" using b(1) by (simp add: longest_def)
      show "overlap nd (P @ [c]) ?f" using b(1) by (auto simp: longest_def intro: border_overlap [OF o])
      show "k \<le> ?f" if "k < length nd" "overlap nd (P @ [c]) k" for k
        using b(1) overlap_border [OF o that(2,1)] that(1) by (auto simp: longest_def)
    qed
    have h: "hit nd leading (P @ [c]) \<longleftrightarrow> leading \<or> Suc (length P) - length nd = 0"
    proof -
      obtain zs where zs: "P @ [c] = zs @ nd" using full True by (auto simp: suffix_def)
      then have "Suc (length P) = length zs + length nd" by (metis length_append length_append_singleton)
      then show ?thesis using zs full True by (auto simp: hit_def)
    qed
    have "0 < length nd" using assms(1) by simp
    then show ?thesis using m'(1) True b(2) h IH [OF f, of True] IH [OF f, of False] unfolding ex
      by (cases leading; cases trailing) (auto simp: Let_def)
  next
    case False
    have l: "longest nd (P @ [c]) m'" using m' False by (auto simp: longest_def overlap_def le_neq_implies_less)
    have h: "\<not> hit nd leading (P @ [c])" using full False by (auto simp: hit_def)
    then show ?thesis using m'(1) False IH [OF l, of False] unfolding ex by (cases trailing) auto
  qed
qed

subsection \<open>The matcher\<close>

text \<open>
  What \<open>compileLikePattern\<close> returns. The test of a string is \<open>None\<close> when it does not return;
  \<open>retainedSize\<close> is what the pattern cache charges.
\<close>

record pattern_matcher =
  match_test :: "js_string \<Rightarrow> bool result option"
  retained_size :: nat

definition folded_test :: "(js_char \<Rightarrow> js_string) \<Rightarrow> js_char list \<Rightarrow> nat list \<Rightarrow> bool \<Rightarrow> bool \<Rightarrow> js_string \<Rightarrow> bool option" where
  "folded_test upper needle pref leading trailing value =
     (if needle = [] then Some (leading \<or> trailing \<or> value = [])
      else search_loop needle pref leading trailing (map (simple_case_fold upper) (characters value)) 0 0 False)"

definition exact_test :: "js_string \<Rightarrow> bool \<Rightarrow> bool \<Rightarrow> js_string \<Rightarrow> bool" where
  "exact_test body leading trailing value =
     (if leading \<and> trailing then sublist body value
      else if leading then suffix body value
      else if trailing then prefix body value
      else value = body)"

definition is_literal :: "like_token \<Rightarrow> bool" where
  "is_literal t = (case t of Lit _ \<Rightarrow> True | _ \<Rightarrow> False)"

definition literal_text :: "like_token \<Rightarrow> js_string" where
  "literal_text t = (case t of Lit c \<Rightarrow> c | _ \<Rightarrow> [])"

text \<open>\<open>None\<close>: the compilation does not return; \<open>Some None\<close>: the result is \<open>undefined\<close>.\<close>

definition literal_like_matcher :: "(js_char \<Rightarrow> js_string) \<Rightarrow> like_token list \<Rightarrow> bool \<Rightarrow> pattern_matcher option option" where
  "literal_like_matcher upper tokens case_insensitive =
     (if One \<in> set tokens then Some None
      else
        let leading = (token_at tokens 0 = Some Many);
            trailing = (tokens \<noteq> [] \<and> last tokens = Many);
            middle = drop (if leading then 1 else 0) (take (if trailing then length tokens - 1 else length tokens) tokens)
        in if list_ex (\<lambda>t. \<not> is_literal t) middle then Some None
        else
          let body = concat (map literal_text middle)
          in if \<not> case_insensitive then
               Some (Some \<lparr>match_test = \<lambda>value. Some (Inr (exact_test body leading trailing value)),
                           retained_size = length tokens * 16 + length body * 2\<rparr>)
             else
               let needle = map (simple_case_fold upper) (characters body)
               in map_option (\<lambda>pref.
                    Some \<lparr>match_test = \<lambda>value. map_option Inr (folded_test upper needle pref leading trailing value),
                          retained_size = length tokens * 16 + length body * 2 + 4 * length pref\<rparr>)
                    (prefix_table needle))"

subsection \<open>Literal patterns\<close>

definition ends_match :: "'a list \<Rightarrow> bool \<Rightarrow> bool \<Rightarrow> 'a list \<Rightarrow> bool" where
  "ends_match nd leading trailing cs =
     (if leading \<and> trailing then sublist nd cs else if leading then suffix nd cs else if trailing then prefix nd cs else cs = nd)"

lemma exact_test_characters:
  assumes "list_all whole_char ps"
  shows "exact_test (concat ps) leading trailing value = ends_match ps leading trailing (characters value)"
proof -
  have "(value = concat ps) = (characters value = ps)"
    using characters_concat [OF assms] by (metis concat_characters)
  then show ?thesis
    by (simp add: exact_test_def ends_match_def sublist_characters [OF assms] suffix_characters [OF assms] prefix_characters [OF assms])
qed

lemma search_ends_match:
  assumes "nd \<noteq> []" "borders nd table (length nd)"
  shows "search_loop nd table leading trailing cs 0 0 False = Some (ends_match nd leading trailing cs)"
proof -
  have "longest nd [] 0" using assms(1) by (auto simp: longest_def overlap_def)
  from search_loop_spec [OF assms this, of leading trailing cs False]
  have r: "search_loop nd table leading trailing cs 0 0 False =
      Some (if trailing then \<exists>k < length cs. hit nd leading (take (Suc k) cs) else cs \<noteq> [] \<and> hit nd leading cs)" by simp
  have pre: "(\<exists>k < length cs. Q (take (Suc k) cs)) \<longleftrightarrow> (\<exists>q. q \<noteq> [] \<and> prefix q cs \<and> Q q)" for Q
  proof
    assume "\<exists>q. q \<noteq> [] \<and> prefix q cs \<and> Q q"
    then obtain q z where "q \<noteq> []" "cs = q @ z" "Q q" by (auto simp: prefix_def)
    then show "\<exists>k < length cs. Q (take (Suc k) cs)" by (intro exI [of _ "length q - 1"]) (cases q; simp)
  next
    assume "\<exists>k < length cs. Q (take (Suc k) cs)"
    then obtain k where "k < length cs" "Q (take (Suc k) cs)" by blast
    then show "\<exists>q. q \<noteq> [] \<and> prefix q cs \<and> Q q" by (intro exI [of _ "take (Suc k) cs"]) (auto simp: take_is_prefix)
  qed
  have "sublist nd cs \<longleftrightarrow> (\<exists>q. q \<noteq> [] \<and> prefix q cs \<and> suffix nd q)"
    using assms(1) by (metis sublist_altdef suffix_Nil)
  then show ?thesis using assms(1) unfolding r pre ends_match_def by (auto simp: hit_def)
qed

lemma folded_test_characters:
  assumes "borders needle pref (length needle)"
  shows "folded_test upper needle pref leading trailing value =
    Some (ends_match needle leading trailing (map (simple_case_fold upper) (characters value)))"
proof (cases "needle = []")
  case True
  then show ?thesis by (auto simp: folded_test_def ends_match_def)
next
  case False
  then show ?thesis by (simp add: folded_test_def search_ends_match assms)
qed

lemma like_literals: "(\<And>l r. eq l r \<longleftrightarrow> f l = f r) \<Longrightarrow> like eq (map Lit ls) cs \<longleftrightarrow> map f cs = map f ls"
proof (induction ls arbitrary: cs)
  case (Cons l ls)
  then show ?case by (cases cs) auto
qed simp

lemma like_ends:
  assumes "\<And>l r. eq l r \<longleftrightarrow> f l = f r"
  shows "like eq ((if leading then [Many] else []) @ map Lit ls @ (if trailing then [Many] else [])) cs =
    ends_match (map f ls) leading trailing (map f cs)"
proof -
  have tr: "like eq (map Lit ls @ [Many]) ds \<longleftrightarrow> prefix (map f ls) (map f ds)" for ds
  proof -
    have "like eq [Many] es" for es by (induction es) simp_all
    note this [simp]
    then have "like eq (map Lit ls @ [Many]) ds \<longleftrightarrow> (\<exists>k \<le> length ds. take k (map f ds) = map f ls)"
      unfolding like_append using like_literals [of eq f, OF assms] by (simp add: take_map del: like.simps)
    also have "\<dots> \<longleftrightarrow> prefix (map f ls) (map f ds)"
    proof
      assume p: "prefix (map f ls) (map f ds)"
      then show "\<exists>k \<le> length ds. take k (map f ds) = map f ls"
        using prefix_length_le [OF p] by (intro exI [of _ "length ls"]) (auto simp: prefix_def)
    qed (metis take_is_prefix)
    finally show ?thesis .
  qed
  have dr: "(\<exists>k \<le> length cs. Q (drop k (map f cs))) \<longleftrightarrow> (\<exists>s. suffix s (map f cs) \<and> Q s)" for Q
  proof
    assume "\<exists>s. suffix s (map f cs) \<and> Q s"
    then obtain z s where zs: "map f cs = z @ s" "Q s" by (auto simp: suffix_def)
    then have "length z \<le> length cs" by (metis length_map length_append le_add1)
    then show "\<exists>k \<le> length cs. Q (drop k (map f cs))" using zs by (intro exI [of _ "length z"]) simp
  qed (metis suffix_drop)
  note lit = like_literals [of eq f, OF assms]
  have "like eq (Many # map Lit ls) cs \<longleftrightarrow> suffix (map f ls) (map f cs)"
    using dr [of "\<lambda>s. s = map f ls"] unfolding like_Many lit drop_map by auto
  moreover have "like eq (Many # map Lit ls @ [Many]) cs \<longleftrightarrow> sublist (map f ls) (map f cs)"
    using dr [of "prefix (map f ls)"] unfolding like_Many tr drop_map [symmetric]
    by (auto simp: sublist_altdef')
  ultimately show ?thesis using lit [of ls cs] tr [of cs] by (simp add: ends_match_def del: like.simps)
qed

lemma literal_shape:
  fixes tokens
  defines "leading \<equiv> token_at tokens 0 = Some Many" and "trailing \<equiv> tokens \<noteq> [] \<and> last tokens = Many"
  defines "middle \<equiv> drop (if leading then 1 else 0) (take (if trailing then length tokens - 1 else length tokens) tokens)"
  assumes "list_all is_literal middle"
  shows "map Lit (map literal_text middle) = middle" "set middle \<subseteq> set tokens"
    "tokens = [Many] \<and> middle = [] \<and> leading \<and> trailing \<or>
     tokens = (if leading then [Many] else []) @ middle @ (if trailing then [Many] else [])"
proof -
  show "map Lit (map literal_text middle) = middle"
    using assms(4) by (induction middle) (auto simp: is_literal_def literal_text_def split: like_token.splits)
  show "set middle \<subseteq> set tokens" unfolding middle_def by (meson order_trans set_drop_subset set_take_subset)
  let ?b = "if leading then 1 else 0 :: nat" and ?e = "if trailing then length tokens - 1 else length tokens"
  have front: "take ?b tokens = (if leading then [Many] else [])"
    by (cases tokens) (auto simp: leading_def token_at_def)
  have rear: "drop ?e tokens = (if trailing then [Many] else [])"
    by (cases tokens rule: rev_cases) (auto simp: trailing_def)
  show "tokens = [Many] \<and> middle = [] \<and> leading \<and> trailing \<or>
     tokens = (if leading then [Many] else []) @ middle @ (if trailing then [Many] else [])"
  proof (cases "?b \<le> ?e")
    case True
    then have "tokens = take ?b tokens @ middle @ drop ?e tokens"
      unfolding middle_def by (metis append.assoc append_take_drop_id min.absorb1 take_take)
    then show ?thesis unfolding front rear by simp
  next
    case False
    then have "leading" "length tokens \<le> 1" by (auto split: if_splits)
    then have "tokens = [Many]" by (cases tokens) (auto simp: leading_def token_at_def split: if_splits)
    then show ?thesis by (simp add: middle_def leading_def trailing_def token_at_def)
  qed
qed

lemma like_shape:
  assumes "\<And>l r. eq l r \<longleftrightarrow> f l = f r"
    "tokens = [Many] \<and> ls = [] \<and> leading \<and> trailing \<or>
     tokens = (if leading then [Many] else []) @ map Lit ls @ (if trailing then [Many] else [])"
  shows "like eq tokens cs = ends_match (map f ls) leading trailing (map f cs)"
  using assms(2)
proof
  assume "tokens = [Many] \<and> ls = [] \<and> leading \<and> trailing"
  moreover have "like eq [Many] cs" by (induction cs) simp_all
  ultimately show ?thesis by (simp add: ends_match_def)
qed (use like_ends [of eq f, OF assms(1)] in simp)

lemma borders_Nil: "borders [] [] 0"
  by (simp add: borders_def)

lemma prefix_table_right: "\<exists>table. prefix_table nd = Some table \<and> borders nd table (length nd)"
proof (cases "nd = []")
  case True
  then show ?thesis by (simp add: prefix_table_def borders_def)
qed (rule prefix_table_borders)

lemma literal_matcher_right:
  assumes "tidy tokens"
  shows "\<exists>r. literal_like_matcher upper tokens ci = Some r \<and>
    (\<forall>m. r = Some m \<longrightarrow> (\<forall>value. match_test m value = Some (Inr (like (char_eq upper ci) tokens (characters value)))))"
proof -
  define leading where "leading \<longleftrightarrow> token_at tokens 0 = Some Many"
  define trailing where "trailing \<longleftrightarrow> tokens \<noteq> [] \<and> last tokens = Many"
  define middle where "middle = drop (if leading then 1 else 0) (take (if trailing then length tokens - 1 else length tokens) tokens)"
  define ls where "ls = map literal_text middle"
  show ?thesis
  proof (cases "One \<in> set tokens \<or> \<not> list_all is_literal middle")
    case True
    then show ?thesis
      by (auto simp: literal_like_matcher_def Let_def leading_def trailing_def middle_def list_all_iff list_ex_iff)
  next
    case False
    then have lit: "list_all is_literal middle" by simp
    note sh = literal_shape [of tokens, folded leading_def trailing_def, folded middle_def, OF lit]
    have "Lit ` set ls \<subseteq> set tokens" using sh(1,2) unfolding ls_def by (metis list.set_map)
    then have w: "list_all whole_char ls" using assms by (auto simp: tidy_def list_all_iff)
    have shape: "tokens = [Many] \<and> ls = [] \<and> leading \<and> trailing \<or>
        tokens = (if leading then [Many] else []) @ map Lit ls @ (if trailing then [Many] else [])"
      using sh(3) unfolding ls_def sh(1) by auto
    have nl: "\<not> list_ex (\<lambda>t. \<not> is_literal t) middle" using lit by (auto simp: list_all_iff list_ex_iff)
    show ?thesis
    proof (cases ci)
      case False
      have eq: "char_eq upper ci l r \<longleftrightarrow> id l = id r" for l r using False by (simp add: char_eq_def like_characters_equal_def)
      show ?thesis using \<open>\<not> (One \<in> set tokens \<or> \<not> list_all is_literal middle)\<close> False nl
          exact_test_characters [OF w, of leading trailing] like_shape [of "char_eq upper ci" id, OF eq shape]
        by (simp add: literal_like_matcher_def Let_def leading_def [symmetric] trailing_def [symmetric] middle_def [symmetric] ls_def [symmetric])
    next
      case True
      let ?f = "simple_case_fold upper"
      have eq: "char_eq upper ci l r \<longleftrightarrow> ?f l = ?f r" for l r using True by (auto simp: char_eq_def like_characters_equal_def)
      obtain table where t: "prefix_table (map ?f ls) = Some table" "borders (map ?f ls) table (length (map ?f ls))"
        using prefix_table_right by blast
      show ?thesis using \<open>\<not> (One \<in> set tokens \<or> \<not> list_all is_literal middle)\<close> True nl t(1)
          folded_test_characters [OF t(2)] like_shape [of "char_eq upper ci" ?f, OF eq shape]
        by (simp add: literal_like_matcher_def Let_def leading_def [symmetric] trailing_def [symmetric] middle_def [symmetric]
            ls_def [symmetric] characters_concat [OF w])
    qed
  qed
qed

end
