(* ===== verification/PatternCache.thy ===== *)
theory PatternCache
  imports LikePattern JsMap
begin

text \<open>
  The caches of compiled patterns (\<open>cachedPattern\<close>, \<open>retainPattern\<close> of \<open>engine/sql-semantics.ts\<close>): a
  JavaScript \<open>Map\<close> in insertion order, oldest entry first, bounded in entries and in retained size,
  and the JSON text of a pattern and its options that is the key.
\<close>

subsection \<open>Keys\<close>

definition hex_digit :: "nat \<Rightarrow> 16 word" where
  "hex_digit n = u16 (if n < 10 then 48 + n else 87 + n)"

definition hex4 :: "nat \<Rightarrow> js_string" where
  "hex4 n = [hex_digit (n div 4096 mod 16), hex_digit (n div 256 mod 16), hex_digit (n div 16 mod 16), hex_digit (n mod 16)]"

definition json_short :: "16 word \<Rightarrow> 16 word option" where
  "json_short c =
     (if c = 0x22 \<or> c = 0x5c then Some c
      else if c = 0x08 then Some 0x62 else if c = 0x09 then Some 0x74
      else if c = 0x0a then Some 0x6e else if c = 0x0c then Some 0x66
      else if c = 0x0d then Some 0x72 else None)"

text \<open>\<open>JSON.stringify\<close> of one character inside a string.\<close>

definition json_char :: "js_char \<Rightarrow> js_string" where
  "json_char p =
     (case p of
        [c] \<Rightarrow>
          (case json_short c of
             Some x \<Rightarrow> [0x5c, x]
           | None \<Rightarrow>
               if unat c < 0x20 \<or> high_surrogate c \<or> low_surrogate c then [0x5c, 0x75] @ hex4 (unat c)
               else [c])
      | _ \<Rightarrow> p)"

definition json_string :: "js_string \<Rightarrow> js_string" where
  "json_string s = [0x22] @ concat (map json_char (characters s)) @ [0x22]"

definition json_bool :: "bool \<Rightarrow> js_string" where
  "json_bool b = (if b then [0x74, 0x72, 0x75, 0x65] else [0x66, 0x61, 0x6c, 0x73, 0x65])"

text \<open>\<open>JSON.stringify ([caseInsensitive, exactEscape ?? null, pattern])\<close>\<close>

definition like_key :: "bool \<Rightarrow> js_char option \<Rightarrow> js_string \<Rightarrow> js_string" where
  "like_key case_insensitive exact_escape pattern =
     [0x5b] @ json_bool case_insensitive @ [0x2c] @
     (case exact_escape of None \<Rightarrow> [0x6e, 0x75, 0x6c, 0x6c] | Some e \<Rightarrow> json_string e) @ [0x2c] @ json_string pattern @ [0x5d]"

text \<open>A key gives its options and pattern back.\<close>

lemma json_char_whole [consumes 1, case_names plain short long pair]:
  assumes "whole_char p"
  obtains (plain) c where "p = [c]" "json_char p = [c]" "c \<noteq> 0x22" "c \<noteq> 0x5c" "\<not> high_surrogate c"
    | (short) c x where "p = [c]" "json_char p = [0x5c, x]" "json_short c = Some x"
    | (long) c where "p = [c]" "json_char p = [0x5c, 0x75] @ hex4 (unat c)" "unat c < 0x20"
    | (pair) c d where "p = [c, d]" "json_char p = [c, d]" "high_surrogate c"
proof -
  consider c where "p = [c]" "\<not> high_surrogate c" "\<not> low_surrogate c" | c d where "p = [c, d]" "high_surrogate c"
    using assms by (auto simp: whole_char_def split: list.splits)
  then show thesis
  proof cases
    case (1 c)
    show thesis
    proof (cases "json_short c")
      case None
      then have "c \<noteq> 0x22" "c \<noteq> 0x5c" by (auto simp: json_short_def)
      then show thesis using 1 None plain [of c] long [of c] by (cases "unat c < 0x20") (simp_all add: json_char_def)
    next
      case (Some x)
      then show thesis using 1 short [of c x] by (simp add: json_char_def)
    qed
  qed (use pair in \<open>auto simp: json_char_def\<close>)
qed

lemma json_short_inj: "json_short c = Some x \<Longrightarrow> json_short d = Some x \<Longrightarrow> c = d"
  by (auto simp: json_short_def split: if_splits)

lemma json_short_not_u: "json_short c \<noteq> Some 0x75"
  by (auto simp: json_short_def)

lemma hex_digit_inj: "a < 16 \<Longrightarrow> b < 16 \<Longrightarrow> hex_digit a = hex_digit b \<Longrightarrow> a = b"
proof -
  assume ab: "a < 16" "b < 16" "hex_digit a = hex_digit b"
  have u: "unat (hex_digit k) = (if k < 10 then 48 + k else 87 + k)" if "k < 16" for k
    using that by (cases "k < 10") (simp_all add: hex_digit_def unat_unit)
  have "unat (hex_digit a) = unat (hex_digit b)" by (simp only: ab(3))
  then show "a = b" unfolding u [OF ab(1)] u [OF ab(2)] using ab(1,2) by (simp split: if_splits)
qed

lemma hex4_inj:
  assumes "m < 32" "n < 32" "hex4 m = hex4 n"
  shows "m = n"
proof -
  have "hex_digit (m div 16 mod 16) = hex_digit (n div 16 mod 16)" "hex_digit (m mod 16) = hex_digit (n mod 16)"
    using assms(3) by (simp_all add: hex4_def)
  then have "m div 16 mod 16 = n div 16 mod 16" "m mod 16 = n mod 16" using hex_digit_inj by simp_all
  moreover have "m div 16 < 16" "n div 16 < 16" using assms(1,2) by (simp_all add: less_mult_imp_div_less)
  ultimately show ?thesis by (metis div_mult_mod_eq mod_less)
qed

lemma high_not_escape: "high_surrogate c \<Longrightarrow> c \<noteq> 0x22 \<and> c \<noteq> 0x5c"
  by (auto simp: high_surrogate_def)

lemma json_char_prefix_free:
  assumes "whole_char p" "whole_char q" "json_char p @ x = json_char q @ y"
  shows "p = q \<and> x = y"
using assms(1)
proof (cases rule: json_char_whole)
  case (plain c)
  note outer = plain assms(3)
  from assms(2) show ?thesis
    by (cases rule: json_char_whole) (use outer in \<open>auto dest: high_not_escape\<close>)
next
  case (short c x')
  note outer = short assms(3) json_short_not_u [of c]
  from assms(2) show ?thesis
  proof (cases rule: json_char_whole)
    case (short d y')
    then have "x' = y' \<and> x = y" using outer by simp
    then show ?thesis using json_short_inj [of c x' d] outer short by simp
  qed (use outer in \<open>auto dest: high_not_escape\<close>)
next
  case (long c)
  from assms(2) show ?thesis
  proof (cases rule: json_char_whole)
    case (long d)
    then have "hex4 (unat c) @ x = hex4 (unat d) @ y" using \<open>json_char p = _\<close> assms(3) by simp
    then have h: "hex4 (unat c) = hex4 (unat d)" "x = y" by (simp_all add: hex4_def)
    then have "unat c = unat d" using hex4_inj \<open>unat c < 0x20\<close> long(3) by simp
    then have "c = d" by (simp add: word_unat_eq_iff)
    then show ?thesis using h long \<open>p = [c]\<close> by simp
  qed (use long assms(3) json_short_not_u in \<open>auto dest: high_not_escape\<close>)
next
  case (pair c d)
  note outer = pair assms(3)
  from assms(2) show ?thesis
    by (cases rule: json_char_whole) (use outer in \<open>auto dest: high_not_escape\<close>)
qed

lemma json_char_not_quote:
  assumes "whole_char p"
  shows "json_char p @ x \<noteq> 0x22 # y"
  using assms by (cases rule: json_char_whole) (auto dest: high_not_escape)

lemma json_chars_inj:
  assumes "list_all whole_char ps" "list_all whole_char qs"
    "concat (map json_char ps) @ 0x22 # x = concat (map json_char qs) @ 0x22 # y"
  shows "ps = qs \<and> x = y"
  using assms
proof (induction ps arbitrary: qs)
  case Nil
  then show ?case using json_char_not_quote by (cases qs) (auto, metis append.assoc)
next
  case (Cons p ps)
  then obtain q qs' where qs: "qs = q # qs'" using json_char_not_quote [of p] by (cases qs) auto
  have "p = q \<and> concat (map json_char ps) @ 0x22 # x = concat (map json_char qs') @ 0x22 # y"
    using Cons.prems by (intro json_char_prefix_free) (simp_all add: qs)
  then show ?case using Cons.IH [of qs'] Cons.prems by (simp add: qs)
qed

lemma json_string_inj: "paired s \<Longrightarrow> paired t \<Longrightarrow> json_string s @ x = json_string t @ y \<Longrightarrow> s = t \<and> x = y"
  using json_chars_inj [of "characters s" "characters t" x y] by (simp add: json_string_def whole_characters characters_inj)

lemma like_key_inj:
  assumes "paired p" "paired q" "\<And>e. d = Some e \<Longrightarrow> paired e" "\<And>e. d' = Some e \<Longrightarrow> paired e" "like_key ci d p = like_key ci' d' q"
  shows "ci = ci' \<and> d = d' \<and> p = q"
proof -
  have ci: "ci = ci'" using assms(5) by (cases ci; cases ci') (simp_all add: like_key_def json_bool_def)
  let ?o = "\<lambda>d. case d of None \<Rightarrow> [0x6e, 0x75, 0x6c, 0x6c] | Some e \<Rightarrow> json_string e"
  have eq: "?o d @ 0x2c # json_string p @ [0x5d] = ?o d' @ 0x2c # json_string q @ [0x5d]"
    using assms(5) ci by (simp add: like_key_def)
  have "d = d' \<and> json_string p @ [0x5d] = json_string q @ [0x5d]"
  proof (cases d; cases d')
    fix e e'
    assume "d = Some e" "d' = Some e'"
    moreover from this have "json_string e @ 0x2c # json_string p @ [0x5d] = json_string e' @ 0x2c # json_string q @ [0x5d]"
      using eq by simp
    moreover have "paired e" "paired e'" using assms(3,4) \<open>d = Some e\<close> \<open>d' = Some e'\<close> by blast+
    ultimately show ?thesis using json_string_inj [of e e' "0x2c # json_string p @ [0x5d]" "0x2c # json_string q @ [0x5d]"]
      \<open>d = Some e\<close> \<open>d' = Some e'\<close> by simp
  qed (use eq in \<open>simp_all add: json_string_def\<close>)
  then show ?thesis using ci json_string_inj [OF assms(1,2)] by blast
qed

subsection \<open>The cache\<close>

type_synonym 'm cache_entries = "(js_string \<times> 'm \<times> int) list"

record 'm pattern_cache =
  entries :: "'m cache_entries"
  cache_retained :: int

definition MAX_PATTERN_CACHE_ENTRIES :: nat where
  "MAX_PATTERN_CACHE_ENTRIES = 128"

definition MAX_PATTERN_CACHE_RETAINED_SIZE :: int where
  "MAX_PATTERN_CACHE_RETAINED_SIZE = 64 * 1024"

definition cached_pattern :: "'m cache_entries \<Rightarrow> js_string \<Rightarrow> 'm option \<times> 'm cache_entries" where
  "cached_pattern cache key =
     (case map_of cache key of
        None \<Rightarrow> (None, cache)
      | Some entry \<Rightarrow> (Some (fst entry), map_set key entry (map_delete key cache)))"

function evict_loop :: "'m cache_entries \<Rightarrow> int \<Rightarrow> int \<Rightarrow> 'm cache_entries \<times> int" where
  "evict_loop [] retained entry_size = ([], retained)"
| "evict_loop ((k, m, s) # cache) retained entry_size =
     (if MAX_PATTERN_CACHE_ENTRIES \<le> length ((k, m, s) # cache) \<or> MAX_PATTERN_CACHE_RETAINED_SIZE < retained + entry_size
      then evict_loop (map_delete k ((k, m, s) # cache)) (retained - s) entry_size
      else ((k, m, s) # cache, retained))"
  by pat_completeness auto
termination by (relation "measure (\<lambda>(cache, _). length cache)") (auto simp: length_map_delete)

definition retain_pattern :: "('m \<Rightarrow> nat) \<Rightarrow> 'm pattern_cache \<Rightarrow> js_string \<Rightarrow> 'm \<Rightarrow> 'm pattern_cache" where
  "retain_pattern matcher_size pc key matcher =
     (let entry_size = int (length key + matcher_size matcher)
      in if MAX_PATTERN_CACHE_RETAINED_SIZE < entry_size then pc
         else let (cache, retained) = evict_loop (entries pc) (cache_retained pc) entry_size
              in \<lparr>entries = map_set key (matcher, entry_size) cache, cache_retained = retained + entry_size\<rparr>)"

text \<open>
  The invariant: distinct keys, the counter is the sum of the entries' sizes, each size is that of
  key and matcher, both limits hold, and a property \<open>P\<close> of every key and its matcher.
\<close>

definition cache_ok :: "('m \<Rightarrow> nat) \<Rightarrow> (js_string \<Rightarrow> 'm \<Rightarrow> bool) \<Rightarrow> 'm pattern_cache \<Rightarrow> bool" where
  "cache_ok matcher_size P pc \<longleftrightarrow>
     distinct (map fst (entries pc)) \<and>
     cache_retained pc = sum_list (map (\<lambda>(k, m, s). s) (entries pc)) \<and>
     (\<forall>(k, m, s) \<in> set (entries pc). s = int (length k + matcher_size m) \<and> P k m) \<and>
     length (entries pc) \<le> MAX_PATTERN_CACHE_ENTRIES \<and> cache_retained pc \<le> MAX_PATTERN_CACHE_RETAINED_SIZE"

lemma cache_ok_lookup:
  assumes "cache_ok matcher_size P pc" "cached_pattern (entries pc) key = (r, cache)"
  shows "cache_ok matcher_size P (pc \<lparr>entries := cache\<rparr>)" "\<And>m. r = Some m \<Longrightarrow> P key m"
proof -
  have both: "cache_ok matcher_size P (pc \<lparr>entries := cache\<rparr>) \<and> (\<forall>m. r = Some m \<longrightarrow> P key m)"
  proof (cases "map_of (entries pc) key")
    case None
    then show ?thesis using assms by (auto simp: cached_pattern_def)
  next
    case (Some e)
    obtain m s where e: "e = (m, s)" by fastforce
    then obtain xs ys where xy: "entries pc = xs @ (key, m, s) # ys"
      using map_of_SomeD [OF Some] by (auto simp: in_set_conv_decomp)
    have d: "key \<notin> fst ` set xs" "key \<notin> fst ` set ys" using assms(1) by (auto simp: cache_ok_def xy)
    then have del: "map_delete key (entries pc) = xs @ ys"
    proof -
      have "filter (\<lambda>e. fst e \<noteq> key) zs = zs" if "key \<notin> fst ` set zs" for zs :: "'a cache_entries"
        using that by (induction zs) auto
      then show ?thesis using d by (simp add: map_delete_def xy)
    qed
    have "map_of (xs @ ys) key = None" using d by (simp add: map_of_eq_None_iff)
    then have "cache = xs @ ys @ [(key, m, s)]" "r = Some m"
      using assms(2) Some e by (simp_all add: cached_pattern_def del map_set_def)
    then show ?thesis using assms(1) by (auto simp: cache_ok_def xy)
  qed
  then show "cache_ok matcher_size P (pc \<lparr>entries := cache\<rparr>)" "\<And>m. r = Some m \<Longrightarrow> P key m" by blast+
qed

lemma cached_pattern_None: "fst (cached_pattern cache key) = None \<longleftrightarrow> key \<notin> fst ` set cache"
  by (auto simp: cached_pattern_def map_of_eq_None_iff [symmetric] split: option.splits)

lemma evict_loop_ok:
  assumes "evict_loop cache retained e = (cache', retained')" "distinct (map fst cache)"
    "retained = sum_list (map (\<lambda>(k, m, s). s) cache)" "e \<le> MAX_PATTERN_CACHE_RETAINED_SIZE"
  shows "set cache' \<subseteq> set cache \<and> distinct (map fst cache') \<and> retained' = sum_list (map (\<lambda>(k, m, s). s) cache') \<and>
    length cache' < MAX_PATTERN_CACHE_ENTRIES \<and> retained' + e \<le> MAX_PATTERN_CACHE_RETAINED_SIZE"
  using assms(1-3)
proof (induction cache arbitrary: retained)
  case Nil
  then show ?case using assms(4) by (simp add: MAX_PATTERN_CACHE_ENTRIES_def)
next
  case (Cons x cache)
  obtain k m s where x: "x = (k, m, s)" by (metis prod_cases3)
  show ?case
  proof (cases "MAX_PATTERN_CACHE_ENTRIES \<le> length (x # cache) \<or> MAX_PATTERN_CACHE_RETAINED_SIZE < retained + e")
    case True
    then have "evict_loop cache (retained - s) e = (cache', retained')"
      using Cons.prems(1,2) map_delete_Cons_distinct [of k "(m, s)" cache] by (simp add: x)
    then show ?thesis using Cons.IH [of "retained - s"] Cons.prems by (auto simp: x)
  next
    case False
    then show ?thesis using Cons.prems by (auto simp: x)
  qed
qed

lemma cache_ok_retain:
  assumes "cache_ok matcher_size P pc" "fst (cached_pattern (entries pc) key) = None" "P key m"
  shows "cache_ok matcher_size P (retain_pattern matcher_size pc key m)"
proof -
  let ?e = "int (length key + matcher_size m)"
  obtain cache r where ev: "evict_loop (entries pc) (cache_retained pc) ?e = (cache, r)" by fastforce
  show ?thesis
  proof (cases "MAX_PATTERN_CACHE_RETAINED_SIZE < ?e")
    case True
    then show ?thesis using assms(1) by (simp add: retain_pattern_def)
  next
    case False
    have ok: "set cache \<subseteq> set (entries pc)" "distinct (map fst cache)" "r = sum_list (map (\<lambda>(k, m, s). s) cache)"
      "length cache < MAX_PATTERN_CACHE_ENTRIES" "r + ?e \<le> MAX_PATTERN_CACHE_RETAINED_SIZE"
      using evict_loop_ok [OF ev] assms(1) False by (auto simp: cache_ok_def)
    have new: "key \<notin> fst ` set cache" using assms(2) ok(1) by (auto simp: cached_pattern_None)
    then have "map_set key (m, ?e) cache = cache @ [(key, m, ?e)]" by (simp add: map_set_def map_of_eq_None_iff)
    then have "retain_pattern matcher_size pc key m = \<lparr>entries = cache @ [(key, m, ?e)], cache_retained = r + ?e\<rparr>"
      using False ev by (simp add: retain_pattern_def Let_def)
    then show ?thesis using ok new assms(1,3) by (auto simp: cache_ok_def)
  qed
qed

lemma cache_ok_empty: "cache_ok matcher_size P \<lparr>entries = [], cache_retained = 0\<rparr>"
  by (simp add: cache_ok_def MAX_PATTERN_CACHE_RETAINED_SIZE_def)

end
