(* ===== verification/LikeCompile.thy ===== *)
theory LikeCompile
  imports LikeLiteral PatternCache
begin

text \<open>
  \<open>compileLikePattern\<close> (\<open>engine/sql-semantics.ts\<close>): the checks of a pattern, the cache, the literal
  or the general matcher. The module's \<open>likeCache\<close> and \<open>likeCacheRetainedSize\<close> are a \<open>pattern_cache\<close>
  passed through; \<open>None\<close> is a compilation that does not return, and there is none.
\<close>

definition general_like_matcher :: "(js_char \<Rightarrow> js_string) \<Rightarrow> like_token list \<Rightarrow> bool \<Rightarrow> pattern_matcher" where
  "general_like_matcher upper tokens case_insensitive =
     \<lparr>match_test = \<lambda>value. Some (general_like_test upper tokens case_insensitive value),
      retained_size = length tokens * 16\<rparr>"

definition exact_escape :: "js_string option \<Rightarrow> js_char option result" where
  "exact_escape escape =
     (case escape of
        None \<Rightarrow> Inr None
      | Some e \<Rightarrow> if e = [] then Inr None else bindR (exact_single_character e) (\<lambda>c. Inr (Some c)))"

definition matcher_of :: "(js_char \<Rightarrow> js_string) \<Rightarrow> like_token list \<Rightarrow> bool \<Rightarrow> pattern_matcher option" where
  "matcher_of upper tokens case_insensitive =
     map_option (\<lambda>literal. case literal of Some m \<Rightarrow> m | None \<Rightarrow> general_like_matcher upper tokens case_insensitive)
       (literal_like_matcher upper tokens case_insensitive)"

definition compile_like_pattern ::
  "(js_char \<Rightarrow> js_string) \<Rightarrow> js_string \<Rightarrow> bool \<Rightarrow> js_string option \<Rightarrow> pattern_matcher pattern_cache \<Rightarrow>
     (pattern_matcher pattern_cache \<times> pattern_matcher result) option"
where
  "compile_like_pattern upper pattern case_insensitive escape pc =
     (case bindR (assert_bounded_pattern pattern MAX_SQL_PATTERN_CHARACTERS) (\<lambda>_. exact_escape escape) of
        Inl e \<Rightarrow> Some (pc, Inl e)
      | Inr esc \<Rightarrow>
          let key = like_key case_insensitive esc pattern
          in (case cached_pattern (entries pc) key of
                (Some matcher, cache) \<Rightarrow> Some (pc \<lparr>entries := cache\<rparr>, Inr matcher)
              | (None, _) \<Rightarrow>
                  (case tokenize_like pattern esc of
                     Inl e \<Rightarrow> Some (pc, Inl e)
                   | Inr tokens \<Rightarrow>
                       map_option (\<lambda>matcher. (retain_pattern retained_size pc key matcher, Inr matcher))
                         (matcher_of upper tokens case_insensitive))))"

subsection \<open>What is compiled\<close>

text \<open>The compilation without a cache.\<close>

definition compile_like :: "(js_char \<Rightarrow> js_string) \<Rightarrow> js_string \<Rightarrow> bool \<Rightarrow> js_string option \<Rightarrow> pattern_matcher result option" where
  "compile_like upper pattern case_insensitive escape =
     (case bindR (assert_bounded_pattern pattern MAX_SQL_PATTERN_CHARACTERS) (\<lambda>_. bindR (exact_escape escape) (tokenize_like pattern)) of
        Inl e \<Rightarrow> Some (Inl e)
      | Inr tokens \<Rightarrow> map_option Inr (matcher_of upper tokens case_insensitive))"

text \<open>The cache holds compiled patterns only, each under its key.\<close>

definition compiled_for :: "(js_char \<Rightarrow> js_string) \<Rightarrow> js_string \<Rightarrow> pattern_matcher \<Rightarrow> bool" where
  "compiled_for upper key m \<longleftrightarrow>
     (\<exists>ci esc pattern tokens. key = like_key ci esc pattern \<and> paired pattern \<and> (\<forall>e. esc = Some e \<longrightarrow> paired e) \<and>
        tokenize_like pattern esc = Inr tokens \<and> matcher_of upper tokens ci = Some m)"

definition like_cache_ok :: "(js_char \<Rightarrow> js_string) \<Rightarrow> pattern_matcher pattern_cache \<Rightarrow> bool" where
  "like_cache_ok upper = cache_ok retained_size (compiled_for upper)"

lemma compiled_for_unique:
  assumes "compiled_for upper (like_key ci esc pattern) m" "paired pattern" "\<And>e. esc = Some e \<Longrightarrow> paired e"
  shows "\<exists>tokens. tokenize_like pattern esc = Inr tokens \<and> matcher_of upper tokens ci = Some m"
proof -
  obtain ci' esc' pattern' tokens where c: "like_key ci esc pattern = like_key ci' esc' pattern'" "paired pattern'"
    "\<And>e. esc' = Some e \<Longrightarrow> paired e" "tokenize_like pattern' esc' = Inr tokens" "matcher_of upper tokens ci' = Some m"
    using assms(1) by (auto simp: compiled_for_def)
  have "ci = ci' \<and> esc = esc' \<and> pattern = pattern'" by (rule like_key_inj [OF assms(2) c(2) assms(3) c(3) c(1)])
  then show ?thesis using c(4,5) by blast
qed

lemma assert_bounded_ok: "assert_bounded_pattern s n = Inr () \<longleftrightarrow> length s \<le> n \<and> paired s"
  by (simp add: assert_bounded_pattern_def assert_well_formed_iff)

lemma exact_single_ok:
  "exact_single_character s = Inr c \<longleftrightarrow> characters s = [c] \<and> length s \<le> 2 \<and> paired s"
  by (auto simp: exact_single_character_def bindR_eq_Inr assert_bounded_ok split: list.splits)

lemma exact_escape_paired: "exact_escape escape = Inr (Some e) \<Longrightarrow> paired e"
proof -
  assume "exact_escape escape = Inr (Some e)"
  then obtain s where s: "characters s = [e]" "paired s"
    by (auto simp: exact_escape_def bindR_eq_Inr exact_single_ok split: option.splits if_splits)
  then show ?thesis by (metis concat_characters concat.simps append_Nil2)
qed

lemma matcher_of_total:
  assumes "tidy tokens"
  shows "\<exists>m. matcher_of upper tokens ci = Some m"
  using literal_matcher_right [OF assms, of upper ci] by (auto simp: matcher_of_def)

lemma matcher_of_right:
  assumes "tidy tokens" "matcher_of upper tokens ci = Some m"
  shows "match_test m value = Some (Inr (like (char_eq upper ci) tokens (characters value))) \<or>
      match_test m value = Some (Inl throw_pattern_work_limit)"
    "(length (characters value) + 1) * (length tokens + 1) \<le> MAX_SQL_PATTERN_MATCH_STEPS + 1 \<Longrightarrow>
      match_test m value = Some (Inr (like (char_eq upper ci) tokens (characters value)))"
proof -
  obtain r where r: "literal_like_matcher upper tokens ci = Some r"
    "\<And>m value. r = Some m \<Longrightarrow> match_test m value = Some (Inr (like (char_eq upper ci) tokens (characters value)))"
    using literal_matcher_right [OF assms(1), of upper ci] by blast
  note cases = general_like_test_cases [of upper tokens ci "value"]
  show "match_test m value = Some (Inr (like (char_eq upper ci) tokens (characters value))) \<or>
      match_test m value = Some (Inl throw_pattern_work_limit)"
    using assms(2) r cases
    by (cases r) (auto simp: matcher_of_def general_like_matcher_def)
  show "match_test m value = Some (Inr (like (char_eq upper ci) tokens (characters value)))"
    if "(length (characters value) + 1) * (length tokens + 1) \<le> MAX_SQL_PATTERN_MATCH_STEPS + 1"
    using assms(2) r general_like_test_within [OF that, of upper ci]
    by (cases r) (auto simp: matcher_of_def general_like_matcher_def)
qed

lemma compile_through_cache:
  assumes "like_cache_ok upper pc"
  shows "\<exists>pc'. compile_like_pattern upper pattern ci escape pc = map_option (\<lambda>r. (pc', r)) (compile_like upper pattern ci escape) \<and>
    like_cache_ok upper pc'"
proof (cases "bindR (assert_bounded_pattern pattern MAX_SQL_PATTERN_CHARACTERS) (\<lambda>_. exact_escape escape)")
  case (Inl e)
  then have "bindR (assert_bounded_pattern pattern MAX_SQL_PATTERN_CHARACTERS) (\<lambda>_. bindR (exact_escape escape) (tokenize_like pattern)) = Inl e"
    by (auto simp: bindR_def split: sum.splits)
  then show ?thesis using Inl assms by (auto simp: compile_like_pattern_def compile_like_def)
next
  case (Inr esc)
  then have p: "paired pattern" "exact_escape escape = Inr esc" by (auto simp: bindR_eq_Inr assert_bounded_ok)
  have esc: "\<And>e. esc = Some e \<Longrightarrow> paired e" using p(2) exact_escape_paired by blast
  have c: "compile_like upper pattern ci escape =
      (case tokenize_like pattern esc of Inl e \<Rightarrow> Some (Inl e) | Inr tokens \<Rightarrow> map_option Inr (matcher_of upper tokens ci))"
    using Inr p(2) by (auto simp: compile_like_def bindR_eq_Inr bindR_def split: sum.splits)
  let ?k = "like_key ci esc pattern"
  obtain r cache where look: "cached_pattern (entries pc) ?k = (r, cache)" by fastforce
  note ok = cache_ok_lookup [OF assms [unfolded like_cache_ok_def] look]
  show ?thesis
  proof (cases r)
    case (Some m)
    then obtain tokens where "tokenize_like pattern esc = Inr tokens" "matcher_of upper tokens ci = Some m"
      using compiled_for_unique [OF ok(2) p(1) esc] by blast
    then show ?thesis using look Some Inr ok(1) unfolding c
      by (intro exI [of _ "pc \<lparr>entries := cache\<rparr>"]) (simp add: compile_like_pattern_def like_cache_ok_def)
  next
    case None
    show ?thesis
    proof (cases "tokenize_like pattern esc")
      case (Inl e)
      then show ?thesis using look None Inr assms unfolding c by (intro exI [of _ pc]) (simp add: compile_like_pattern_def)
    next
      case tokens: (Inr tokens)
      then have "tidy tokens" using tokenize_exact [OF p(1), of esc] by (auto split: if_splits)
      then obtain m where m: "matcher_of upper tokens ci = Some m" using matcher_of_total by blast
      have "compiled_for upper ?k m" using tokens m p(1) esc by (auto simp: compiled_for_def)
      then have "like_cache_ok upper (retain_pattern retained_size pc ?k m)"
        using cache_ok_retain [OF assms [unfolded like_cache_ok_def]] look None by (simp add: like_cache_ok_def)
      then show ?thesis using look None Inr tokens m unfolding c
        by (intro exI [of _ "retain_pattern retained_size pc ?k m"]) (simp add: compile_like_pattern_def)
    qed
  qed
qed

lemma tokenize_loop_length:
  "tokenize_loop esc ps escaped tokens = Inr r \<Longrightarrow> length r \<le> length tokens + length ps"
  by (induction esc ps escaped tokens rule: tokenize_loop.induct) (auto split: if_splits)

lemma tokenize_length: "tokenize_like pattern esc = Inr tokens \<Longrightarrow> length tokens \<le> length (characters pattern)"
  using tokenize_loop_length [of esc "characters pattern" False "[]" tokens] by (simp add: tokenize_like_def)

text \<open>
  Property C12: a well-formed pattern within the limits, compiled through the cache, gives a matcher
  whose test always returns and decides the SQL reading of the pattern, character by character; only
  for strings so long that the product of both lengths passes the work budget may it refuse instead.
\<close>

theorem like_decided:
  assumes "like_cache_ok upper pc" "paired pattern" "length pattern \<le> MAX_SQL_PATTERN_CHARACTERS"
    "exact_escape escape = Inr esc" "escape_closed esc (characters pattern)"
  shows "\<exists>pc' m. compile_like_pattern upper pattern ci escape pc = Some (pc', Inr m) \<and>
    (\<forall>value. match_test m value =
        Some (Inr (sql_like (\<lambda>l r. like_characters_equal upper l r ci) esc (characters pattern) (characters value))) \<or>
      match_test m value = Some (Inl throw_pattern_work_limit) \<and>
        MAX_SQL_PATTERN_MATCH_STEPS + 1 < (length (characters value) + 1) * (length (characters pattern) + 1))"
proof -
  obtain tokens where t: "tokenize_like pattern esc = Inr tokens" "tidy tokens"
    "\<And>eq cs. like eq tokens cs = sql_like eq esc (characters pattern) cs"
    using tokenize_exact [OF assms(2), of esc] assms(5) by auto
  obtain m where m: "matcher_of upper tokens ci = Some m" using matcher_of_total [OF t(2)] by blast
  have "compile_like upper pattern ci escape = Some (Inr m)"
    using assms(2-4) t(1) m assert_bounded_ok [of pattern MAX_SQL_PATTERN_CHARACTERS]
    by (simp add: compile_like_def)
  then obtain pc' where "compile_like_pattern upper pattern ci escape pc = Some (pc', Inr m)"
    using compile_through_cache [OF assms(1), of pattern ci escape] by auto
  moreover have "match_test m value = Some (Inr (sql_like (char_eq upper ci) esc (characters pattern) (characters value))) \<or>
      match_test m value = Some (Inl throw_pattern_work_limit) \<and>
        MAX_SQL_PATTERN_MATCH_STEPS + 1 < (length (characters value) + 1) * (length (characters pattern) + 1)" for "value"
  proof (cases "(length (characters value) + 1) * (length tokens + 1) \<le> MAX_SQL_PATTERN_MATCH_STEPS + 1")
    case True
    then show ?thesis using matcher_of_right(2) [OF t(2) m True] by (simp add: t(3))
  next
    case False
    have "length tokens + 1 \<le> length (characters pattern) + 1" using tokenize_length [OF t(1)] by simp
    then have "(length (characters value) + 1) * (length tokens + 1) \<le> (length (characters value) + 1) * (length (characters pattern) + 1)"
      by (rule mult_le_mono2)
    then show ?thesis using False matcher_of_right(1) [OF t(2) m, of "value"] by (auto simp: t(3))
  qed
  ultimately show ?thesis unfolding char_eq_def by blast
qed

text \<open>The pattern \<open>a%\<close> from the empty cache.\<close>

lemma like_decided_witness:
  "\<exists>pc' m. compile_like_pattern (\<lambda>c. c) [0x61, 0x25] False None \<lparr>entries = [], cache_retained = 0\<rparr> = Some (pc', Inr m) \<and>
     match_test m [0x61, 0x62] = Some (Inr True)"
proof -
  have "like_cache_ok (\<lambda>c. c) \<lparr>entries = [], cache_retained = 0\<rparr>" by (simp add: like_cache_ok_def cache_ok_empty)
  moreover have "paired [0x61, 0x25]" by (simp add: high_surrogate_def low_surrogate_def)
  moreover have c: "characters [0x61, 0x25] = [[0x61], [0x25]]" "characters [0x61, 0x62] = [[0x61], [0x62]]"
    by (simp_all add: high_surrogate_def)
  ultimately obtain pc' m where m: "compile_like_pattern (\<lambda>c. c) [0x61, 0x25] False None \<lparr>entries = [], cache_retained = 0\<rparr> = Some (pc', Inr m)"
    "\<And>value. match_test m value =
        Some (Inr (sql_like (\<lambda>l r. like_characters_equal (\<lambda>c. c) l r False) None (characters [0x61, 0x25]) (characters value))) \<or>
      match_test m value = Some (Inl throw_pattern_work_limit) \<and>
        MAX_SQL_PATTERN_MATCH_STEPS + 1 < (length (characters value) + 1) * (length (characters [0x61, 0x25]) + 1)"
    using like_decided [of "\<lambda>c. c" "\<lparr>entries = [], cache_retained = 0\<rparr>" "[0x61, 0x25]" None None False]
    by (auto simp: MAX_SQL_PATTERN_CHARACTERS_def exact_escape_def)
  from m(2) [of "[0x61, 0x62]"] have "match_test m [0x61, 0x62] = Some (Inr True)"
    by (simp add: c MAX_SQL_PATTERN_MATCH_STEPS_def PERCENT_def like_characters_equal_def del: characters.simps)
  then show ?thesis using m(1) by blast
qed

subsection \<open>Any sequence of compilations\<close>

text \<open>Patterns compiled one after the other: pattern, case folding and escape of each.\<close>

fun compile_calls ::
  "(js_char \<Rightarrow> js_string) \<Rightarrow> (js_string \<times> bool \<times> js_string option) list \<Rightarrow> pattern_matcher pattern_cache \<Rightarrow>
     (pattern_matcher pattern_cache \<times> pattern_matcher result list) option"
where
  "compile_calls upper [] pc = Some (pc, [])"
| "compile_calls upper ((pattern, ci, escape) # calls) pc =
     Option.bind (compile_like_pattern upper pattern ci escape pc) (\<lambda>(pc', r).
       Option.bind (compile_calls upper calls pc') (\<lambda>(pc'', rs). Some (pc'', r # rs)))"

lemma compile_like_total: "\<exists>r. compile_like upper pattern ci escape = Some r"
proof (cases "bindR (assert_bounded_pattern pattern MAX_SQL_PATTERN_CHARACTERS) (\<lambda>_. bindR (exact_escape escape) (tokenize_like pattern))")
  case (Inr tokens)
  then obtain esc where "paired pattern" "tokenize_like pattern esc = Inr tokens"
    by (auto simp: bindR_eq_Inr assert_bounded_ok)
  then have "tidy tokens" using tokenize_exact [of pattern esc] by (auto split: if_splits)
  then show ?thesis using Inr matcher_of_total [of tokens upper ci] by (auto simp: compile_like_def)
qed (simp add: compile_like_def)

lemma compile_calls_ok:
  assumes "like_cache_ok upper pc"
  shows "\<exists>pc' rs. compile_calls upper calls pc = Some (pc', rs) \<and> like_cache_ok upper pc' \<and>
    map Some rs = map (\<lambda>(pattern, ci, escape). compile_like upper pattern ci escape) calls"
  using assms
proof (induction calls arbitrary: pc)
  case (Cons call calls)
  obtain pattern ci escape where call: "call = (pattern, ci, escape)" by (metis prod_cases3)
  obtain r where r: "compile_like upper pattern ci escape = Some r" using compile_like_total by blast
  then obtain pc1 where pc1: "compile_like_pattern upper pattern ci escape pc = Some (pc1, r)" "like_cache_ok upper pc1"
    using compile_through_cache [OF Cons.prems, of pattern ci escape] by auto
  from Cons.IH [OF pc1(2)] show ?case using r pc1(1) by (auto simp: call)
qed simp

text \<open>
  Property C15: after any sequence of compilations, those that refuse their pattern included, every
  call has returned what compiling without a cache returns; the cache holds at most 128 entries with
  distinct keys, its counter is the sum of their sizes, and it is at most 64 Ki.
\<close>

theorem cached_compilation:
  "\<exists>pc rs. compile_calls upper calls \<lparr>entries = [], cache_retained = 0\<rparr> = Some (pc, rs) \<and>
     map Some rs = map (\<lambda>(pattern, ci, escape). compile_like upper pattern ci escape) calls \<and>
     length (entries pc) \<le> 128 \<and> distinct (map fst (entries pc)) \<and>
     cache_retained pc = sum_list (map (\<lambda>(key, m, s). s) (entries pc)) \<and> cache_retained pc \<le> 65536"
proof -
  have "like_cache_ok upper \<lparr>entries = [], cache_retained = 0\<rparr>" by (simp add: like_cache_ok_def cache_ok_empty)
  from compile_calls_ok [OF this, of calls] show ?thesis
    by (auto simp: like_cache_ok_def cache_ok_def MAX_PATTERN_CACHE_ENTRIES_def MAX_PATTERN_CACHE_RETAINED_SIZE_def)
qed

end
