(* ===== verification/Limbs.thy ===== *)
theory Limbs
  imports Prelude
begin

text \<open>
  \<open>next/exec/kernels/limbs.ts\<close>: 128-bit integers as four little-endian 32-bit limbs, two's complement, in typed arrays. The arrays are
  an explicit store, since the operations work in place, may be given the same array for a result and an operand, and share the
  module's scratch array; \<open>Powers\<close> is its table of powers of ten. A limb is addressed by its array, the value's index and the limb's number: the source's \<open>t[at * 4 + k]\<close>.
\<close>

datatype array_id = Scratch | Powers | Arr nat

type_synonym store = "array_id \<Rightarrow> u32 list"

definition limb :: "store \<Rightarrow> array_id \<Rightarrow> nat \<Rightarrow> nat \<Rightarrow> u32" where
  "limb h t at k = at0 (h t) (at * 4 + k)"

definition set_limb :: "array_id \<Rightarrow> nat \<Rightarrow> nat \<Rightarrow> u32 \<Rightarrow> store \<Rightarrow> store" where
  "set_limb t at k v h = h(t := (h t)[at * 4 + k := v])"

text \<open>\<open>v >>> 0\<close> of a non-negative number, and \<open>v >>> 31 === 1\<close> of a limb.\<close>

definition low32 :: "nat \<Rightarrow> u32" where "low32 v = word_of_nat v"
definition top_bit :: "u32 \<Rightarrow> bool" where "top_bit w \<longleftrightarrow> drop_bit 31 w = 1"

subsection \<open>Loading, copying, signs\<close>

definition is_negative :: "store \<Rightarrow> array_id \<Rightarrow> nat \<Rightarrow> bool" where
  "is_negative h t at \<longleftrightarrow> top_bit (limb h t at 3)"

definition is_zero :: "store \<Rightarrow> array_id \<Rightarrow> nat \<Rightarrow> bool" where
  "is_zero h t at \<longleftrightarrow> limb h t at 0 OR limb h t at 1 OR limb h t at 2 OR limb h t at 3 = 0"

definition limb_sign :: "store \<Rightarrow> array_id \<Rightarrow> nat \<Rightarrow> int" where
  "limb_sign h t at = (if is_negative h t at then - 1 else if is_zero h t at then 0 else 1)"

text \<open>One step of a carry chain: the limb it writes and the carry it passes on.\<close>

definition negate_step :: "array_id \<Rightarrow> nat \<Rightarrow> nat \<Rightarrow> store \<times> nat \<Rightarrow> store \<times> nat" where
  "negate_step t at k = (\<lambda>(h, carry).
     let v = unat (NOT (limb h t at k)) + carry in (set_limb t at k (low32 v) h, if 0xffffffff < v then 1 else 0))"

definition negate :: "array_id \<Rightarrow> nat \<Rightarrow> store \<Rightarrow> store" where
  "negate t at h = fst (fold (negate_step t at) [0..<4] (h, 1))"

definition set_number :: "array_id \<Rightarrow> nat \<Rightarrow> int \<Rightarrow> store \<Rightarrow> store" where
  "set_number t to v h =
     (let negative = v < 0; a = nat (if negative then - v else v);
          h = set_limb t to 0 (low32 a) h;
          h = set_limb t to 1 (low32 (a div 4294967296)) h;
          h = set_limb t to 2 0 h;
          h = set_limb t to 3 0 h
      in if negative then negate t to h else h)"

text \<open>The words of an int64 array are two to a value.\<close>

definition set_int64 :: "array_id \<Rightarrow> nat \<Rightarrow> array_id \<Rightarrow> nat \<Rightarrow> store \<Rightarrow> store" where
  "set_int64 t to ws index h =
     (let hi = at0 (h ws) (index * 2 + 1);
          h = set_limb t to 0 (at0 (h ws) (index * 2)) h;
          h = set_limb t to 1 hi h;
          extension = (if top_bit hi then 0xffffffff else 0);
          h = set_limb t to 2 extension h
      in set_limb t to 3 extension h)"

definition copy_limb :: "array_id \<Rightarrow> nat \<Rightarrow> array_id \<Rightarrow> nat \<Rightarrow> nat \<Rightarrow> store \<Rightarrow> store" where
  "copy_limb t to s from' k h = set_limb t to k (limb h s from' k) h"

definition copy :: "array_id \<Rightarrow> nat \<Rightarrow> array_id \<Rightarrow> nat \<Rightarrow> store \<Rightarrow> store" where
  "copy t to s from' h = fold (copy_limb t to s from') [0, 1, 2, 3] h"

subsection \<open>Addition and subtraction\<close>

definition add_step :: "array_id \<Rightarrow> nat \<Rightarrow> array_id \<Rightarrow> nat \<Rightarrow> array_id \<Rightarrow> nat \<Rightarrow> bool \<Rightarrow> nat \<Rightarrow> store \<times> nat \<Rightarrow> store \<times> nat" where
  "add_step t to a ai b bi subtract k = (\<lambda>(h, carry).
     let y = (if subtract then NOT (limb h b bi k) else limb h b bi k);
         v = unat (limb h a ai k) + unat y + carry
     in (set_limb t to k (low32 v) h, if 0xffffffff < v then 1 else 0))"

definition add_to :: "array_id \<Rightarrow> nat \<Rightarrow> array_id \<Rightarrow> nat \<Rightarrow> array_id \<Rightarrow> nat \<Rightarrow> bool \<Rightarrow> store \<Rightarrow> store \<times> bool" where
  "add_to t to a ai b bi subtract h =
     (let sign_a = top_bit (limb h a ai 3); sign_b = (top_bit (limb h b bi 3) \<noteq> subtract);
          (h, carry) = fold (add_step t to a ai b bi subtract) [0..<4] (h, if subtract then 1 else 0);
          sign_r = top_bit (limb h t to 3)
      in if subtract \<and> limb h b bi 3 = 0x80000000 \<and> limb h b bi 0 OR limb h b bi 1 OR limb h b bi 2 = 0
         then (h, sign_a)
         else (h, \<not> (sign_a = sign_b \<and> sign_r \<noteq> sign_a)))"

subsection \<open>Scaling by powers of ten\<close>

definition multiply_step :: "array_id \<Rightarrow> nat \<Rightarrow> nat \<Rightarrow> nat \<Rightarrow> store \<times> nat \<Rightarrow> store \<times> nat" where
  "multiply_step t at m k = (\<lambda>(h, carry).
     let v = unat (limb h t at k) * m + carry in (set_limb t at k (low32 v) h, v div 4294967296))"

definition multiply_magnitude :: "array_id \<Rightarrow> nat \<Rightarrow> nat \<Rightarrow> store \<Rightarrow> store \<times> bool" where
  "multiply_magnitude t at m h =
     (let (h, carry) = fold (multiply_step t at m) [0..<4] (h, 0) in (h, carry = 0 \<and> \<not> top_bit (limb h t at 3)))"

function scale_loop :: "array_id \<Rightarrow> nat \<Rightarrow> nat \<Rightarrow> store \<Rightarrow> store \<times> bool" where
  "scale_loop t at rest h =
     (if 0 < rest then
        let step = min rest 4; (h, ok) = multiply_magnitude t at (10 ^ step) h
        in if \<not> ok then (h, False) else scale_loop t at (rest - step) h
      else (h, True))"
  by pat_completeness auto
termination by (relation "measure (\<lambda>(t, at, rest, h). rest)") auto

declare scale_loop.simps [simp del]

definition scale_up :: "array_id \<Rightarrow> nat \<Rightarrow> nat \<Rightarrow> store \<Rightarrow> store \<times> bool" where
  "scale_up t at e h =
     (if e = 0 then (h, True)
      else
        let negative = is_negative h t at; h = (if negative then negate t at h else h)
        in if is_negative h t at then (h, False)
           else case scale_loop t at e h of
             (h, False) \<Rightarrow> (h, False)
           | (h, True) \<Rightarrow> (if negative then negate t at h else h, True))"

subsection \<open>Multiplication\<close>

text \<open>The 16-bit halves of the magnitudes and the columns of the schoolbook product, read once from the scratch slots 14 and 15.\<close>

definition halves :: "store \<Rightarrow> nat \<Rightarrow> nat list" where
  "halves h slot = concat (map (\<lambda>k. let x = limb h Scratch slot k in [unat (x AND 0xffff), unat (drop_bit 16 x)]) [0..<4])"

definition add_column :: "nat \<Rightarrow> nat \<Rightarrow> nat list \<Rightarrow> nat \<Rightarrow> nat list \<Rightarrow> nat list" where
  "add_column i x ys j cols = cols[i + j := at0 cols (i + j) + x * at0 ys j]"

definition add_row :: "nat list \<Rightarrow> nat list \<Rightarrow> nat \<Rightarrow> nat list \<Rightarrow> nat list" where
  "add_row xs ys i cols = (let x = at0 xs i in if x = 0 then cols else fold (add_column i x ys) [0..<8] cols)"

definition product_columns :: "nat list \<Rightarrow> nat list \<Rightarrow> nat list" where
  "product_columns xs ys = fold (add_row xs ys) [0..<8] (replicate 17 0)"

text \<open>The carry loop from a column on: the store and the last carry, or no carry when a digit past the eighth is not zero.\<close>

function carry_loop :: "array_id \<Rightarrow> nat \<Rightarrow> nat list \<Rightarrow> nat \<Rightarrow> nat \<Rightarrow> store \<Rightarrow> store \<times> nat option" where
  "carry_loop t to cols c carry h =
     (if 16 \<le> c then (h, Some carry)
      else
        let v = at0 cols c + carry; digit = v mod 65536; carry = v div 65536 in
        if 8 \<le> c then (if digit \<noteq> 0 then (h, None) else carry_loop t to cols (c + 1) carry h)
        else if c mod 2 = 0 then carry_loop t to cols (c + 1) carry (set_limb t to (c div 2) (low32 digit) h)
        else carry_loop t to cols (c + 1) carry (set_limb t to (c div 2) (limb h t to (c div 2) OR push_bit 16 (low32 digit)) h))"
  by pat_completeness auto
termination by (relation "measure (\<lambda>(t, to, cols, c, carry, h). 16 - c)") auto

declare carry_loop.simps [simp del]

definition multiply_to :: "array_id \<Rightarrow> nat \<Rightarrow> array_id \<Rightarrow> nat \<Rightarrow> array_id \<Rightarrow> nat \<Rightarrow> store \<Rightarrow> store \<times> bool" where
  "multiply_to t to a ai b bi h =
     (let neg_a = top_bit (limb h a ai 3); neg_b = top_bit (limb h b bi 3);
          h = copy Scratch 14 a ai h;
          h = copy Scratch 15 b bi h;
          h = (if neg_a then negate Scratch 14 h else h);
          h = (if neg_b then negate Scratch 15 h else h)
      in case carry_loop t to (product_columns (halves h 14) (halves h 15)) 0 0 h of
           (h, None) \<Rightarrow> (h, False)
         | (h, Some carry) \<Rightarrow>
             if carry \<noteq> 0 \<or> top_bit (limb h t to 3) then (h, False)
             else (if neg_a \<noteq> neg_b then negate t to h else h, True))"

subsection \<open>Comparing, storing and converting\<close>

definition fits_int64 :: "store \<Rightarrow> array_id \<Rightarrow> nat \<Rightarrow> bool" where
  "fits_int64 h t at = (let extension = (if top_bit (limb h t at 1) then 0xffffffff else 0) in
     limb h t at 2 = extension \<and> limb h t at 3 = extension)"

definition store_int64 :: "array_id \<Rightarrow> nat \<Rightarrow> array_id \<Rightarrow> nat \<Rightarrow> store \<Rightarrow> store" where
  "store_int64 t at ws index h =
     (let h = h(ws := (h ws)[index * 2 := limb h t at 0]) in h(ws := (h ws)[index * 2 + 1 := limb h t at 1]))"

definition compare_from :: "store \<Rightarrow> array_id \<Rightarrow> nat \<Rightarrow> array_id \<Rightarrow> nat \<Rightarrow> nat list \<Rightarrow> int" where
  "compare_from h a ai b bi ks =
     foldr (\<lambda>k rest. let x = limb h a ai k; y = limb h b bi k in if x \<noteq> y then (if x < y then - 1 else 1) else rest) ks 0"

definition compare :: "store \<Rightarrow> array_id \<Rightarrow> nat \<Rightarrow> array_id \<Rightarrow> nat \<Rightarrow> int" where
  "compare h a ai b bi =
     (let ha = sint (limb h a ai 3); hb = sint (limb h b bi 3)
      in if ha \<noteq> hb then (if ha < hb then - 1 else 1) else compare_from h a ai b bi [2, 1, 0])"

definition set_big_int :: "array_id \<Rightarrow> nat \<Rightarrow> int \<Rightarrow> store \<Rightarrow> store \<times> bool" where
  "set_big_int t at v h =
     (if v < - (2 ^ 127) \<or> 2 ^ 127 \<le> v then (h, False)
      else
        let u = take_bit 128 v;
            h = set_limb t at 0 (word_of_int (u AND 0xffffffff)) h;
            h = set_limb t at 1 (word_of_int (drop_bit 32 u AND 0xffffffff)) h;
            h = set_limb t at 2 (word_of_int (drop_bit 64 u AND 0xffffffff)) h
        in (set_limb t at 3 (word_of_int (drop_bit 96 u)) h, True))"

definition to_big_int :: "store \<Rightarrow> array_id \<Rightarrow> nat \<Rightarrow> int" where
  "to_big_int h t at = signed_take_bit 127
     (uint (limb h t at 0) OR push_bit 32 (uint (limb h t at 1)) OR push_bit 64 (uint (limb h t at 2)) OR push_bit 96 (uint (limb h t at 3)))"

section \<open>Limbs as numbers\<close>

definition room :: "store \<Rightarrow> array_id \<Rightarrow> nat \<Rightarrow> bool" where
  "room h t at \<longleftrightarrow> at * 4 + 4 \<le> length (h t)"

definition magnitude :: "store \<Rightarrow> array_id \<Rightarrow> nat \<Rightarrow> nat" where
  "magnitude h t at = unat (limb h t at 0) + 2 ^ 32 * unat (limb h t at 1) + 2 ^ 64 * unat (limb h t at 2) + 2 ^ 96 * unat (limb h t at 3)"

definition num :: "store \<Rightarrow> array_id \<Rightarrow> nat \<Rightarrow> int" where
  "num h t at = (if magnitude h t at < 2 ^ 127 then int (magnitude h t at) else int (magnitude h t at) - 2 ^ 128)"

text \<open>What a routine may change: the lengths stay and only the named values may differ.\<close>

definition changes :: "store \<Rightarrow> store \<Rightarrow> (array_id \<times> nat) set \<Rightarrow> bool" where
  "changes h h' S \<longleftrightarrow> (\<forall>t. length (h' t) = length (h t)) \<and> (\<forall>t at k. k < 4 \<longrightarrow> (t, at) \<notin> S \<longrightarrow> limb h' t at k = limb h t at k)"

lemma changes_refl [simp]: "changes h h S"
  by (simp add: changes_def)

lemma changes_trans: "changes h h' S \<Longrightarrow> changes h' h'' S' \<Longrightarrow> changes h h'' (S \<union> S')"
  by (simp add: changes_def)

lemma changes_mono: "changes h h' S \<Longrightarrow> S \<subseteq> S' \<Longrightarrow> changes h h' S'"
  unfolding changes_def by blast

lemma changes_frame:
  assumes "changes h h' S" "(t, at) \<notin> S"
  shows "magnitude h' t at = magnitude h t at" "num h' t at = num h t at" "is_negative h' t at = is_negative h t at"
proof -
  have "limb h' t at 0 = limb h t at 0" "limb h' t at 1 = limb h t at 1" "limb h' t at 2 = limb h t at 2" "limb h' t at 3 = limb h t at 3"
    using assms by (simp_all add: changes_def)
  then show "magnitude h' t at = magnitude h t at" "num h' t at = num h t at" "is_negative h' t at = is_negative h t at"
    by (simp_all add: num_def magnitude_def is_negative_def)
qed

lemma changes_room: "changes h h' S \<Longrightarrow> room h' t at = room h t at"
  by (simp add: changes_def room_def)

lemma limb_set_limb:
  "k < 4 \<Longrightarrow> k' < 4 \<Longrightarrow> room h t at \<Longrightarrow> limb (set_limb t at k v h) t' at' k' = (if t' = t \<and> at' = at \<and> k' = k then v else limb h t' at' k')"
proof -
  assume a: "k < 4" "k' < 4" "room h t at"
  have "at' * 4 + k' = at * 4 + k \<longleftrightarrow> at' = at \<and> k' = k" using a by presburger
  then show ?thesis using a by (auto simp: limb_def set_limb_def at0_def room_def nth_list_update)
qed

lemma room_set_limb [simp]: "room (set_limb t at k v h) t' at' = room h t' at'"
  by (simp add: room_def set_limb_def)

lemma changes_set_limb: "k < 4 \<Longrightarrow> room h t at \<Longrightarrow> changes h (set_limb t at k v h) {(t, at)}"
  by (auto simp: changes_def limb_set_limb) (simp add: set_limb_def)

lemma unat_low32: "unat (low32 v) = v mod 4294967296"
  by (simp add: low32_def unat_of_nat)

lemma unat_not: "unat (NOT (w :: u32)) = 4294967295 - unat w"
proof -
  have "NOT w = - 1 - w" by (simp add: not_eq_complement)
  moreover have "w \<le> - 1" by simp
  ultimately show ?thesis by (simp add: unat_sub unsigned_minus_1_eq_mask mask_eq_exp_minus_1)
qed

lemma top_bit_iff: "top_bit w \<longleftrightarrow> 2147483648 \<le> unat w"
proof -
  have "unat (drop_bit 31 w) = drop_bit 31 (unat w)" by (rule unat_drop_bit_eq)
  also have "\<dots> = unat w div 2147483648" by (simp add: drop_bit_eq_div)
  finally have "unat (drop_bit 31 w) = unat w div 2147483648" .
  moreover have "unat w div 2147483648 < 2" using unat_u32_bound [of w] by (simp add: less_mult_imp_div_less)
  ultimately show ?thesis unfolding top_bit_def by (simp add: word_unat_eq_iff) linarith
qed

lemma magnitude_bound: "magnitude h t at < 2 ^ 128"
  using unat_u32_bound [of "limb h t at 0"] unat_u32_bound [of "limb h t at 1"] unat_u32_bound [of "limb h t at 2"] unat_u32_bound [of "limb h t at 3"]
  by (simp add: magnitude_def)

lemma negative_magnitude: "is_negative h t at \<longleftrightarrow> 2 ^ 127 \<le> magnitude h t at"
  using unat_u32_bound [of "limb h t at 0"] unat_u32_bound [of "limb h t at 1"] unat_u32_bound [of "limb h t at 2"] unat_u32_bound [of "limb h t at 3"]
  by (simp add: is_negative_def top_bit_iff magnitude_def) linarith

lemma num_bounds: "- (2 ^ 127) \<le> num h t at" "num h t at < 2 ^ 127"
  using magnitude_bound [of h t at] by (simp_all add: num_def)

lemma negative_num: "is_negative h t at \<longleftrightarrow> num h t at < 0"
  using magnitude_bound [of h t at] by (auto simp: negative_magnitude num_def)

lemma zero_num: "is_zero h t at \<longleftrightarrow> num h t at = 0"
proof -
  have "is_zero h t at \<longleftrightarrow> magnitude h t at = 0" by (auto simp: is_zero_def magnitude_def or_eq_0_iff unsigned_eq_0_iff)
  then show ?thesis using magnitude_bound [of h t at] by (auto simp: num_def)
qed

lemma upt_four: "[0..<4] = [0, 1, 2, 3 :: nat]"
  by (simp add: upt_rec)

text \<open>Carry chains: four steps, each writing the low 32 bits of a term plus the carry and passing on the rest.\<close>

locale carry_chain =
  fixes t :: array_id and at :: nat and step :: "nat \<Rightarrow> store \<times> nat \<Rightarrow> store \<times> nat" and g :: "nat \<Rightarrow> store \<Rightarrow> nat" and ok :: "nat \<Rightarrow> bool"
  assumes step: "k < 4 \<Longrightarrow> ok c \<Longrightarrow> step k (h, c) = (set_limb t at k (low32 (g k h + c)) h, (g k h + c) div 4294967296)"
    and carry_ok: "k < 4 \<Longrightarrow> ok c \<Longrightarrow> ok ((g k h + c) div 4294967296)"
    and apart: "k < 4 \<Longrightarrow> j < 4 \<Longrightarrow> j \<noteq> k \<Longrightarrow> room h t at \<Longrightarrow> g k (set_limb t at j w h) = g k h"
begin

lemma chain:
  assumes "room h t at" "ok c"
  shows "\<exists>h' c'. fold step [0..<4] (h, c) = (h', c') \<and> changes h h' {(t, at)} \<and> ok c'
    \<and> magnitude h' t at + 2 ^ 128 * c' = g 0 h + 2 ^ 32 * g 1 h + 2 ^ 64 * g 2 h + 2 ^ 96 * g 3 h + c"
proof -
  define h1 c1 where "h1 = set_limb t at 0 (low32 (g 0 h + c)) h" and "c1 = (g 0 h + c) div 4294967296"
  define h2 c2 where "h2 = set_limb t at 1 (low32 (g 1 h + c1)) h1" and "c2 = (g 1 h + c1) div 4294967296"
  define h3 c3 where "h3 = set_limb t at 2 (low32 (g 2 h + c2)) h2" and "c3 = (g 2 h + c2) div 4294967296"
  define h4 c4 where "h4 = set_limb t at 3 (low32 (g 3 h + c3)) h3" and "c4 = (g 3 h + c3) div 4294967296"
  have r: "room h1 t at" "room h2 t at" "room h3 t at" using assms(1) by (simp_all add: h1_def h2_def h3_def)
  have o: "ok c1" "ok c2" "ok c3" "ok c4" unfolding c4_def c3_def c2_def c1_def using assms(2) by (simp_all add: carry_ok)
  have g: "g 1 h1 = g 1 h" "g 2 h2 = g 2 h" "g 3 h3 = g 3 h"
    using assms(1) r by (simp_all add: h1_def h2_def h3_def apart)
  have "step 0 (h, c) = (h1, c1)" using step [of 0 c h] assms(2) by (simp add: h1_def c1_def)
  moreover have "step 1 (h1, c1) = (h2, c2)" using step [of 1 c1 h1] o(1) by (simp add: g(1) [simplified] h2_def c2_def)
  moreover have "step 2 (h2, c2) = (h3, c3)" using step [of 2 c2 h2] o(2) by (simp add: g(2) h3_def c3_def)
  moreover have "step 3 (h3, c3) = (h4, c4)" using step [of 3 c3 h3] o(3) by (simp add: g(3) h4_def c4_def)
  ultimately have f: "fold step [0..<4] (h, c) = (h4, c4)" by (simp add: upt_four)
  have l: "limb h4 t at 0 = low32 (g 0 h + c)" "limb h4 t at 1 = low32 (g 1 h + c1)" "limb h4 t at 2 = low32 (g 2 h + c2)" "limb h4 t at 3 = low32 (g 3 h + c3)"
    using assms(1) r by (simp_all add: h4_def h3_def h2_def h1_def limb_set_limb)
  have "changes h h4 {(t, at)}"
    unfolding h4_def h3_def h2_def h1_def using assms(1) by (auto simp: changes_def limb_set_limb) (simp add: set_limb_def)
  moreover have "magnitude h4 t at + 2 ^ 128 * c4 = g 0 h + 2 ^ 32 * g 1 h + 2 ^ 64 * g 2 h + 2 ^ 96 * g 3 h + c"
  proof -
    have "v mod 4294967296 + 4294967296 * (v div 4294967296) = v" for v :: nat by simp
    from this [of "g 0 h + c"] this [of "g 1 h + c1"] this [of "g 2 h + c2"] this [of "g 3 h + c3"]
    show ?thesis unfolding magnitude_def l unat_low32 c1_def [symmetric] c2_def [symmetric] c3_def [symmetric] c4_def [symmetric] by simp
  qed
  ultimately show ?thesis using f o(4) by blast
qed

lemma chain_obtain:
  assumes "room h t at" "ok c"
  obtains h' c' where "fold step [0..<4] (h, c) = (h', c')" "changes h h' {(t, at)}" "ok c'"
    "magnitude h' t at + 2 ^ 128 * c' = g 0 h + 2 ^ 32 * g 1 h + 2 ^ 64 * g 2 h + 2 ^ 96 * g 3 h + c"
  using chain [OF assms] by blast

end

lemma small_carry: "v \<le> 8589934591 \<Longrightarrow> (if 0xffffffff < v then 1 else 0) = v div (4294967296 :: nat)"
  by (auto simp: div_nat_eqI not_less)

interpretation neg: carry_chain t at "negate_step t at" "\<lambda>k h. unat (NOT (limb h t at k))" "\<lambda>c. c \<le> 1" for t at
proof
  fix k c :: nat and h assume "c \<le> 1"
  then have "unat (NOT (limb h t at k)) + c \<le> 8589934591" using unat_u32_bound [of "NOT (limb h t at k)"] by simp
  from small_carry [OF this]
  show "negate_step t at k (h, c) = (set_limb t at k (low32 (unat (NOT (limb h t at k)) + c)) h, (unat (NOT (limb h t at k)) + c) div 4294967296)"
    by (simp add: negate_step_def Let_def)
  show "(unat (NOT (limb h t at k)) + c) div 4294967296 \<le> 1"
    using unat_u32_bound [of "NOT (limb h t at k)"] \<open>c \<le> 1\<close> by simp
qed (simp add: limb_set_limb)

definition addend :: "bool \<Rightarrow> u32 \<Rightarrow> u32" where "addend subtract w = (if subtract then NOT w else w)"

interpretation sum: carry_chain t to "add_step t to a ai b bi subtract" "\<lambda>k h. unat (limb h a ai k) + unat (addend subtract (limb h b bi k))" "\<lambda>c. c \<le> 1"
  for t to a ai b bi subtract
proof
  fix k c :: nat and h assume "c \<le> 1"
  then have b: "unat (limb h a ai k) + unat (addend subtract (limb h b bi k)) + c \<le> 8589934591"
    using unat_u32_bound [of "limb h a ai k"] unat_u32_bound [of "addend subtract (limb h b bi k)"] by simp
  from small_carry [OF this]
  show "add_step t to a ai b bi subtract k (h, c)
      = (set_limb t to k (low32 (unat (limb h a ai k) + unat (addend subtract (limb h b bi k)) + c)) h,
         (unat (limb h a ai k) + unat (addend subtract (limb h b bi k)) + c) div 4294967296)"
    by (simp add: add_step_def addend_def Let_def)
  show "(unat (limb h a ai k) + unat (addend subtract (limb h b bi k)) + c) div 4294967296 \<le> 1"
    using b by simp
qed (simp add: limb_set_limb)

interpretation times: carry_chain t at "multiply_step t at m" "\<lambda>k h. unat (limb h t at k) * m" "\<lambda>c. True" for t at m
  by unfold_locales (simp_all add: multiply_step_def Let_def limb_set_limb)

subsection \<open>Negation and addition\<close>

definition wrap128 :: "int \<Rightarrow> int" where "wrap128 z = (z + 2 ^ 127) mod 2 ^ 128 - 2 ^ 127"

lemma wrap128_same: "- (2 ^ 127) \<le> z \<Longrightarrow> z < 2 ^ 127 \<Longrightarrow> wrap128 z = z"
  by (simp add: wrap128_def)

lemma wrap128_near:
  "2 ^ 127 \<le> z \<Longrightarrow> z < 2 ^ 127 + 2 ^ 128 \<Longrightarrow> wrap128 z = z - 2 ^ 128"
  "- (2 ^ 127) - 2 ^ 128 \<le> z \<Longrightarrow> z < - (2 ^ 127) \<Longrightarrow> wrap128 z = z + 2 ^ 128"
proof -
  show "wrap128 z = z - 2 ^ 128" if "2 ^ 127 \<le> z" "z < 2 ^ 127 + 2 ^ 128"
  proof -
    have "(z + 2 ^ 127) mod 2 ^ 128 = (z + 2 ^ 127 - 2 ^ 128) mod 2 ^ 128" by (simp only: minus_mod_self2)
    also have "\<dots> = z + 2 ^ 127 - 2 ^ 128" using that by (intro mod_pos_pos_trivial) simp_all
    finally show ?thesis by (simp add: wrap128_def)
  qed
  show "wrap128 z = z + 2 ^ 128" if "- (2 ^ 127) - 2 ^ 128 \<le> z" "z < - (2 ^ 127)"
  proof -
    have "(z + 2 ^ 127) mod 2 ^ 128 = (z + 2 ^ 127 + 2 ^ 128) mod 2 ^ 128" by (simp only: mod_add_self2)
    also have "\<dots> = z + 2 ^ 127 + 2 ^ 128" using that by (intro mod_pos_pos_trivial) simp_all
    finally show ?thesis by (simp add: wrap128_def)
  qed
qed

lemma num_wrap: "int (magnitude h t at) = z + 2 ^ 128 * q \<Longrightarrow> num h t at = wrap128 z"
proof -
  assume e: "int (magnitude h t at) = z + 2 ^ 128 * q"
  have "(z + 2 ^ 127) mod 2 ^ 128 = (z + 2 ^ 127 + 2 ^ 128 * q) mod 2 ^ 128" by (simp only: mod_mult_self2)
  also have "z + 2 ^ 127 + 2 ^ 128 * q = int (magnitude h t at) + 2 ^ 127" using e by simp
  finally have w: "wrap128 z = wrap128 (int (magnitude h t at))" by (simp add: wrap128_def)
  show ?thesis unfolding w using magnitude_bound [of h t at]
    by (cases "magnitude h t at < 2 ^ 127") (simp_all add: num_def wrap128_same wrap128_near(1))
qed

lemma negate_num:
  assumes "room h t at"
  shows "changes h (negate t at h) {(t, at)}" "num (negate t at h) t at = wrap128 (- num h t at)"
    "magnitude (negate t at h) t at = (2 ^ 128 - magnitude h t at) mod 2 ^ 128"
proof -
  obtain h' c' where f: "fold (negate_step t at) [0..<4] (h, 1) = (h', c')" "changes h h' {(t, at)}" "c' \<le> 1"
    "magnitude h' t at + 2 ^ 128 * c' = unat (NOT (limb h t at 0)) + 2 ^ 32 * unat (NOT (limb h t at 1)) + 2 ^ 64 * unat (NOT (limb h t at 2))
      + 2 ^ 96 * unat (NOT (limb h t at 3)) + 1"
    by (rule neg.chain_obtain [OF assms order_refl])
  have h: "negate t at h = h'" unfolding negate_def f(1) by simp
  show "changes h (negate t at h) {(t, at)}" using f(2) by (simp add: h)
  have n: "unat (NOT w) + unat w = 4294967295" for w :: u32 using unat_u32_bound [of w] by (simp add: unat_not)
  have e: "magnitude h' t at + 2 ^ 128 * c' + magnitude h t at = 2 ^ 128"
    unfolding f(4) using n [of "limb h t at 0"] n [of "limb h t at 1"] n [of "limb h t at 2"] n [of "limb h t at 3"] by (simp add: magnitude_def)
  have "int (magnitude h' t at + 2 ^ 128 * c' + magnitude h t at) = 2 ^ 128" unfolding e by simp
  then have "int (magnitude h' t at) = - num h t at + 2 ^ 128 * ((if magnitude h t at < 2 ^ 127 then 1 else 0) - int c')" by (simp add: num_def)
  then show "num (negate t at h) t at = wrap128 (- num h t at)" unfolding h by (rule num_wrap)
  show "magnitude (negate t at h) t at = (2 ^ 128 - magnitude h t at) mod 2 ^ 128"
  proof (cases "c' = 0")
    case True
    then have "magnitude h' t at = 2 ^ 128 - magnitude h t at" using e by simp
    then show ?thesis unfolding h using magnitude_bound [of h' t at] by simp
  next
    case False
    then have "c' = 1" using f(3) by simp
    then show ?thesis unfolding h using e by simp
  qed
qed

lemma least_words:
  fixes a b c d :: nat
  assumes "a < 4294967296" "b < 4294967296" "c < 4294967296"
  shows "(d = 2147483648 \<and> a = 0 \<and> b = 0 \<and> c = 0)
    = (a + 4294967296 * b + 18446744073709551616 * c + 79228162514264337593543950336 * d = 170141183460469231731687303715884105728)"
proof
  assume e: "a + 4294967296 * b + 18446744073709551616 * c + 79228162514264337593543950336 * d = 170141183460469231731687303715884105728"
  have "d \<le> 2147483648" using e by linarith
  moreover have "2147483648 \<le> d" using e assms by linarith
  ultimately show "d = 2147483648 \<and> a = 0 \<and> b = 0 \<and> c = 0" using e by simp
qed simp

lemma least_num: "limb h t at 3 = 0x80000000 \<and> limb h t at 0 OR limb h t at 1 OR limb h t at 2 = 0 \<longleftrightarrow> num h t at = - (2 ^ 127)"
proof -
  note b = unat_u32_bound [of "limb h t at 0"] unat_u32_bound [of "limb h t at 1"] unat_u32_bound [of "limb h t at 2"] unat_u32_bound [of "limb h t at 3"]
  have "limb h t at 3 = 0x80000000 \<and> limb h t at 0 OR limb h t at 1 OR limb h t at 2 = 0
      \<longleftrightarrow> unat (limb h t at 3) = 2147483648 \<and> unat (limb h t at 0) = 0 \<and> unat (limb h t at 1) = 0 \<and> unat (limb h t at 2) = 0"
  proof -
    have "limb h t at 3 = 0x80000000 \<longleftrightarrow> unat (limb h t at 3) = 2147483648" by (simp add: word_unat_eq_iff)
    then show ?thesis by (simp only: or_eq_0_iff unsigned_eq_0_iff conj_assoc)
  qed
  also have "\<dots> \<longleftrightarrow> magnitude h t at = 2 ^ 127" using least_words [OF b(1-3), of "unat (limb h t at 3)"] by (simp add: magnitude_def)
  also have "\<dots> \<longleftrightarrow> num h t at = - (2 ^ 127)" using magnitude_bound [of h t at] by (auto simp: num_def)
  finally show ?thesis .
qed

lemma add_check:
  assumes "- (2 ^ 127) \<le> A" "A < 2 ^ 127" "- (2 ^ 127) \<le> B" "B < (2 :: int) ^ 127" "z = (if subtract then A - B else A + B)"
  shows "(- (2 ^ 127) \<le> z \<and> z < 2 ^ 127) = (\<not> ((A < 0) = ((B < 0) \<noteq> subtract) \<and> (wrap128 z < 0) \<noteq> (A < 0)))"
    "subtract \<Longrightarrow> B = - (2 ^ 127) \<or> wrap128 z = - (2 ^ 127) \<Longrightarrow> (- (2 ^ 127) \<le> z \<and> z < 2 ^ 127) = (A < 0)"
proof -
  have z: "- (2 ^ 127) - 2 ^ 128 \<le> z" "z < 2 ^ 127 + 2 ^ 128" using assms by auto
  consider (fits) "- (2 ^ 127) \<le> z" "z < 2 ^ 127" "wrap128 z = z" | (above) "2 ^ 127 \<le> z" "wrap128 z = z - 2 ^ 128"
    | (below) "z < - (2 ^ 127)" "wrap128 z = z + 2 ^ 128"
    using wrap128_same [of z] wrap128_near [of z] z by linarith
  note c = this
  show "(- (2 ^ 127) \<le> z \<and> z < 2 ^ 127) = (\<not> ((A < 0) = ((B < 0) \<noteq> subtract) \<and> (wrap128 z < 0) \<noteq> (A < 0)))"
    using c by cases (use assms in \<open>auto split: if_splits\<close>)
  show "subtract \<Longrightarrow> B = - (2 ^ 127) \<or> wrap128 z = - (2 ^ 127) \<Longrightarrow> (- (2 ^ 127) \<le> z \<and> z < 2 ^ 127) = (A < 0)"
    using c by cases (use assms in auto)
qed

lemma add_num:
  assumes "room h t to" "add_to t to a ai b bi subtract h = (h', ok)"
  defines "z \<equiv> if subtract then num h a ai - num h b bi else num h a ai + num h b bi"
  shows "changes h h' {(t, to)}" "num h' t to = wrap128 z" "ok \<longleftrightarrow> - (2 ^ 127) \<le> z \<and> z < 2 ^ 127"
proof -
  let ?c = "if subtract then 1 else 0 :: nat"
  have one: "?c \<le> 1" by simp
  obtain h1 c' where f: "fold (add_step t to a ai b bi subtract) [0..<4] (h, ?c) = (h1, c')" "changes h h1 {(t, to)}" "c' \<le> 1"
    "magnitude h1 t to + 2 ^ 128 * c' = (unat (limb h a ai 0) + unat (addend subtract (limb h b bi 0))) + 2 ^ 32 * (unat (limb h a ai 1) + unat (addend subtract (limb h b bi 1)))
      + 2 ^ 64 * (unat (limb h a ai 2) + unat (addend subtract (limb h b bi 2))) + 2 ^ 96 * (unat (limb h a ai 3) + unat (addend subtract (limb h b bi 3))) + ?c"
    by (rule sum.chain_obtain [OF assms(1) one])
  have h: "h' = h1" using assms(2) f(1) by (auto simp: add_to_def Let_def split: if_splits)
  show ch: "changes h h' {(t, to)}" using f(2) by (simp add: h)
  have n: "unat (NOT w) + unat w = 4294967295" for w :: u32 using unat_u32_bound [of w] by (simp add: unat_not)
  have e: "magnitude h1 t to + 2 ^ 128 * c' + (if subtract then magnitude h b bi else 0) = magnitude h a ai + (if subtract then 2 ^ 128 else magnitude h b bi)"
    using f(4) n [of "limb h b bi 0"] n [of "limb h b bi 1"] n [of "limb h b bi 2"] n [of "limb h b bi 3"]
    by (cases subtract) (simp_all add: magnitude_def addend_def)
  have "int (magnitude h1 t to + 2 ^ 128 * c' + (if subtract then magnitude h b bi else 0)) = int (magnitude h a ai + (if subtract then 2 ^ 128 else magnitude h b bi))"
    unfolding e ..
  then have "int (magnitude h1 t to) = z + 2 ^ 128 * ((if subtract then 1 else 0) - int c' + (if magnitude h a ai < 2 ^ 127 then 0 else 1)
      + (if magnitude h b bi < 2 ^ 127 then 0 else if subtract then - 1 else 1))"
    by (cases subtract) (simp_all add: z_def num_def)
  then show w: "num h' t to = wrap128 z" unfolding h by (rule num_wrap)
  note c = add_check [OF num_bounds [of h a ai] num_bounds [of h b bi] meta_eq_to_obj_eq [OF z_def]]
  have s: "top_bit (limb h a ai 3) \<longleftrightarrow> num h a ai < 0" "top_bit (limb h b bi 3) \<longleftrightarrow> num h b bi < 0" "top_bit (limb h' t to 3) \<longleftrightarrow> wrap128 z < 0"
    using negative_num [of h a ai] negative_num [of h b bi] negative_num [of h' t to] w by (simp_all add: is_negative_def)
  have least: "num h b bi = - (2 ^ 127) \<or> wrap128 z = - (2 ^ 127)" if "num h' b bi = - (2 ^ 127)"
    using that w changes_frame(2) [OF ch, of b bi] by (cases "(b, bi) = (t, to)") auto
  have "ok = (if subtract \<and> num h' b bi = - (2 ^ 127) then num h a ai < 0
      else \<not> ((num h a ai < 0) = ((num h b bi < 0) \<noteq> subtract) \<and> (wrap128 z < 0) \<noteq> (num h a ai < 0)))"
    using assms(2) f(1) least_num [of h' b bi] s unfolding h by (auto simp: add_to_def Let_def split: if_splits)
  then show "ok \<longleftrightarrow> - (2 ^ 127) \<le> z \<and> z < 2 ^ 127"
    using c least by (cases "subtract \<and> num h' b bi = - (2 ^ 127)") simp_all
qed

end
