(* ===== verification/LimbsMul.thy ===== *)
theory LimbsMul
  imports Limbs
begin

text \<open>
  The remaining exact operations of \<open>next/exec/kernels/limbs.ts\<close>, as defined in Limbs, on the numbers the limbs stand for: loading,
  scaling by powers of ten, multiplication, comparison and the conversions.
\<close>

subsection \<open>Loading and copying\<close>

lemma changes_again: "changes h h1 S \<Longrightarrow> changes h1 h2 S \<Longrightarrow> changes h h2 S"
  using changes_trans [of h h1 S h2 S] by simp

lemma set_limbs:
  assumes "room h t at" "h' = set_limb t at 3 w3 (set_limb t at 2 w2 (set_limb t at 1 w1 (set_limb t at 0 w0 h)))"
  shows "changes h h' {(t, at)}"
    "magnitude h' t at = unat w0 + 2 ^ 32 * unat w1 + 2 ^ 64 * unat w2 + 2 ^ 96 * unat w3"
  unfolding assms(2) using assms(1) by (auto simp: changes_def magnitude_def limb_set_limb) (simp add: set_limb_def)

lemma copy_num:
  assumes "room h t to"
  shows "changes h (copy t to s from h) {(t, to)}" "magnitude (copy t to s from h) t to = magnitude h s from"
    "num (copy t to s from h) t to = num h s from"
proof -
  have e: "copy t to s from h = set_limb t to 3 (limb h s from 3) (set_limb t to 2 (limb h s from 2) (set_limb t to 1 (limb h s from 1) (set_limb t to 0 (limb h s from 0) h)))"
    using assms by (cases "(s, from) = (t, to)") (simp_all add: copy_def copy_limb_def limb_set_limb)
  show "changes h (copy t to s from h) {(t, to)}" and m: "magnitude (copy t to s from h) t to = magnitude h s from"
    using set_limbs [OF assms e] by (simp_all add: magnitude_def)
  show "num (copy t to s from h) t to = num h s from" by (simp only: num_def m)
qed

lemma small_num: "magnitude h t at < 2 ^ 127 \<Longrightarrow> num h t at = int (magnitude h t at)"
  by (simp add: num_def)

lemma nonneg_magnitude: "0 \<le> num h t at \<Longrightarrow> int (magnitude h t at) = num h t at \<and> magnitude h t at < 2 ^ 127"
  using magnitude_bound [of h t at] by (auto simp: num_def split: if_splits)

lemma set_number_num:
  assumes "room h t to" "\<bar>v\<bar> < 2 ^ 64"
  shows "changes h (set_number t to v h) {(t, to)}" "num (set_number t to v h) t to = v"
proof -
  let ?a = "nat \<bar>v\<bar>"
  define h1 where h1: "h1 = set_limb t to 3 0 (set_limb t to 2 0 (set_limb t to 1 (low32 (?a div 4294967296)) (set_limb t to 0 (low32 ?a) h)))"
  have e: "set_number t to v h = (if v < 0 then negate t to h1 else h1)"
    by (simp add: set_number_def Let_def abs_if h1)
  note s = set_limbs [OF assms(1) h1]
  have a: "?a < 2 ^ 64" using assms(2) by simp
  then have "?a div 4294967296 < 4294967296" by (simp add: less_mult_imp_div_less)
  then have m: "magnitude h1 t to = ?a" unfolding s(2) by (simp add: unat_low32)
  then have n: "num h1 t to = \<bar>v\<bar>" using a by (simp add: num_def)
  have r: "room h1 t to" using assms(1) by (simp add: h1)
  show "changes h (set_number t to v h) {(t, to)}"
    unfolding e using changes_trans [OF s(1) negate_num(1) [OF r]] s(1) by simp
  show "num (set_number t to v h) t to = v"
    unfolding e using negate_num(2) [OF r] n wrap128_same [of v] assms(2) by (auto simp: abs_if split: if_splits)
qed

definition int64_value :: "u32 \<Rightarrow> u32 \<Rightarrow> int" where
  "int64_value lo hi = int (unat lo) + 2 ^ 32 * int (unat hi) - (if top_bit hi then 2 ^ 64 else 0)"

lemma set_int64_num:
  assumes "room h t to" "ws \<noteq> t"
  shows "changes h (set_int64 t to ws index h) {(t, to)}"
    "num (set_int64 t to ws index h) t to = int64_value (at0 (h ws) (index * 2)) (at0 (h ws) (index * 2 + 1))"
proof -
  let ?lo = "at0 (h ws) (index * 2)" and ?hi = "at0 (h ws) (index * 2 + 1)"
  let ?x = "if top_bit ?hi then 0xffffffff else 0"
  have e: "set_int64 t to ws index h = set_limb t to 3 ?x (set_limb t to 2 ?x (set_limb t to 1 ?hi (set_limb t to 0 ?lo h)))"
    using assms(2) by (simp add: set_int64_def Let_def set_limb_def)
  note s = set_limbs [OF assms(1) e]
  show "changes h (set_int64 t to ws index h) {(t, to)}" by (rule s(1))
  have b: "unat ?lo < 4294967296" "unat ?hi < 4294967296" by (rule unat_u32_bound)+
  show "num (set_int64 t to ws index h) t to = int64_value ?lo ?hi"
  proof (cases "top_bit ?hi")
    case True
    then have m: "magnitude (set_int64 t to ws index h) t to = unat ?lo + 4294967296 * unat ?hi + (2 ^ 128 - 2 ^ 64)" unfolding s(2) by simp
    then have "\<not> magnitude (set_int64 t to ws index h) t to < 2 ^ 127" by simp
    then show ?thesis using True by (simp add: num_def m int64_value_def)
  next
    case False
    then have m: "magnitude (set_int64 t to ws index h) t to = unat ?lo + 4294967296 * unat ?hi" unfolding s(2) by simp
    then have "magnitude (set_int64 t to ws index h) t to < 2 ^ 127" using b by simp
    then show ?thesis using False by (simp add: num_def m int64_value_def)
  qed
qed

subsection \<open>Scaling\<close>

lemma multiply_magnitude_num:
  assumes "room h t at" "multiply_magnitude t at m h = (h', ok)"
  shows "changes h h' {(t, at)}" "ok \<longleftrightarrow> magnitude h t at * m < 2 ^ 127" "ok \<Longrightarrow> magnitude h' t at = magnitude h t at * m"
proof -
  obtain h1 c' where f: "fold (multiply_step t at m) [0..<4] (h, 0) = (h1, c')" "changes h h1 {(t, at)}" "True"
    "magnitude h1 t at + 2 ^ 128 * c' = unat (limb h t at 0) * m + 2 ^ 32 * (unat (limb h t at 1) * m) + 2 ^ 64 * (unat (limb h t at 2) * m) + 2 ^ 96 * (unat (limb h t at 3) * m) + 0"
    by (rule times.chain_obtain [OF assms(1) TrueI])
  have e: "magnitude h1 t at + 2 ^ 128 * c' = magnitude h t at * m" using f(4) by (simp add: magnitude_def algebra_simps)
  have h: "h' = h1" "ok = (c' = 0 \<and> magnitude h1 t at < 2 ^ 127)"
    using assms(2) f(1) negative_magnitude [of h1 t at] by (auto simp: multiply_magnitude_def is_negative_def)
  show "changes h h' {(t, at)}" using f(2) by (simp add: h(1))
  show "ok \<longleftrightarrow> magnitude h t at * m < 2 ^ 127" unfolding h(2) e [symmetric] by (cases c') auto
  show "ok \<Longrightarrow> magnitude h' t at = magnitude h t at * m" using e by (simp add: h)
qed

lemma scale_loop_num:
  "room h t at \<Longrightarrow> magnitude h t at < 2 ^ 127 \<Longrightarrow> scale_loop t at e h = (h', ok) \<Longrightarrow>
    changes h h' {(t, at)} \<and> (ok \<longleftrightarrow> magnitude h t at * 10 ^ e < 2 ^ 127) \<and> (ok \<longrightarrow> magnitude h' t at = magnitude h t at * 10 ^ e)"
proof (induction t at e h arbitrary: h' ok rule: scale_loop.induct)
  case (1 t at e h)
  show ?case
  proof (cases "0 < e")
    case True
    let ?s = "min e 4"
    obtain h1 o1 where m: "multiply_magnitude t at (10 ^ ?s) h = (h1, o1)" by fastforce
    note mm = multiply_magnitude_num [OF "1.prems"(1) m]
    have p: "(10 :: nat) ^ e = 10 ^ ?s * 10 ^ (e - ?s)" by (simp flip: power_add)
    show ?thesis
    proof (cases o1)
      case False
      then have "h' = h1" "\<not> ok" using "1.prems"(3) True m by (simp_all add: scale_loop.simps [of t at e h])
      moreover have "2 ^ 127 \<le> magnitude h t at * 10 ^ e"
        by (rule le_trans [of _ "magnitude h t at * 10 ^ ?s"]) (use mm(2) False in \<open>simp, simp add: p\<close>)
      ultimately show ?thesis using mm(1) by simp
    next
      case ok: True
      then have "scale_loop t at (e - ?s) h1 = (h', ok)" using "1.prems"(3) True m by (simp add: scale_loop.simps [of t at e h])
      moreover have "room h1 t at" using changes_room [OF mm(1)] "1.prems"(1) by simp
      moreover have "magnitude h1 t at < 2 ^ 127" using mm(2,3) ok by simp
      ultimately have "changes h1 h' {(t, at)} \<and> (ok \<longleftrightarrow> magnitude h1 t at * 10 ^ (e - ?s) < 2 ^ 127) \<and> (ok \<longrightarrow> magnitude h' t at = magnitude h1 t at * 10 ^ (e - ?s))"
        using "1.IH" [OF True refl m [symmetric] refl] ok by blast
      then show ?thesis using changes_again [OF mm(1)] mm(3) [OF ok] p by (auto simp: mult.assoc)
    qed
  qed (use "1.prems" in \<open>simp add: scale_loop.simps [of t at 0 h]\<close>)
qed

lemma scale_up_num:
  assumes "room h t at" "scale_up t at e h = (h', ok)"
  shows "changes h h' {(t, at)}" "ok \<longleftrightarrow> e = 0 \<or> \<bar>num h t at\<bar> * 10 ^ e < 2 ^ 127" "ok \<Longrightarrow> num h' t at = num h t at * 10 ^ e"
proof -
  have all: "changes h h' {(t, at)} \<and> (ok \<longleftrightarrow> e = 0 \<or> \<bar>num h t at\<bar> * 10 ^ e < 2 ^ 127) \<and> (ok \<longrightarrow> num h' t at = num h t at * 10 ^ e)"
  proof (cases "e = 0")
    case False
    define h1 where "h1 = (if is_negative h t at then negate t at h else h)"
    have c1: "changes h h1 {(t, at)}" and r1: "room h1 t at"
      using negate_num(1) [OF assms(1)] changes_room [OF negate_num(1) [OF assms(1)]] assms(1) by (simp_all add: h1_def)
    have n1: "num h1 t at = wrap128 \<bar>num h t at\<bar>"
      using negate_num(2) [OF assms(1)] wrap128_same [OF num_bounds [of h t at]] by (auto simp: h1_def negative_num)
    show ?thesis
    proof (cases "num h t at = - (2 ^ 127)")
      case True
      then have "num h1 t at < 0" using n1 wrap128_near(1) [of "2 ^ 127"] by simp
      then have "h' = h1 \<and> \<not> ok" using assms(2) False by (simp add: scale_up_def Let_def h1_def [symmetric] negative_num [of h1])
      moreover have "\<not> \<bar>num h t at\<bar> * 10 ^ e < 2 ^ 127"
        using True one_le_power [of "10 :: int" e] by (simp add: not_less)
      ultimately show ?thesis using c1 False by simp
    next
      case small: False
      then have b: "\<bar>num h t at\<bar> < 2 ^ 127" using num_bounds [of h t at] by linarith
      then have a: "num h1 t at = \<bar>num h t at\<bar>" using n1 wrap128_same [of "\<bar>num h t at\<bar>"] by simp
      then have m: "int (magnitude h1 t at) = \<bar>num h t at\<bar>" "magnitude h1 t at < 2 ^ 127" using nonneg_magnitude [of h1 t at] by simp_all
      obtain h2 o2 where s: "scale_loop t at e h1 = (h2, o2)" by fastforce
      note l = scale_loop_num [OF r1 m(2) s]
      have i: "int (magnitude h1 t at * 10 ^ e) = \<bar>num h t at\<bar> * 10 ^ e" by (simp add: m(1))
      have "int X < 2 ^ 127 \<longleftrightarrow> X < 2 ^ 127" for X :: nat by simp
      note this [of "magnitude h1 t at * 10 ^ e", unfolded i]
      then have o2: "o2 \<longleftrightarrow> \<bar>num h t at\<bar> * 10 ^ e < 2 ^ 127" using l by blast
      have u: "(h', ok) = (if o2 then (if is_negative h t at then negate t at h2 else h2, True) else (h2, False))"
        using assms(2) False s a by (simp add: scale_up_def Let_def h1_def [symmetric] negative_num [of h1] split: bool.splits if_splits)
      show ?thesis
      proof (cases o2)
        case True
        then have n2: "num h2 t at = \<bar>num h t at\<bar> * 10 ^ e" using l i by (simp add: num_def)
        have c2: "changes h h2 {(t, at)}" using changes_again [OF c1] l by blast
        then have r2: "room h2 t at" using changes_room assms(1) by blast
        have "num h t at < 0 \<Longrightarrow> num h t at * 10 ^ e \<le> 0" by (simp add: mult_le_0_iff)
        then have "num (if is_negative h t at then negate t at h2 else h2) t at = num h t at * 10 ^ e"
          using negate_num(2) [OF r2] n2 o2 True wrap128_same [of "num h t at * 10 ^ e"] by (auto simp: negative_num abs_if split: if_splits)
        moreover have "changes h (if is_negative h t at then negate t at h2 else h2) {(t, at)}"
          using changes_again [OF c2 negate_num(1) [OF r2]] c2 by simp
        ultimately show ?thesis using u True o2 by simp
      next
        case False
        then show ?thesis using u o2 changes_again [OF c1] l \<open>e \<noteq> 0\<close> by auto
      qed
    qed
  qed (use assms in \<open>simp add: scale_up_def\<close>)
  then show "changes h h' {(t, at)}" "ok \<longleftrightarrow> e = 0 \<or> \<bar>num h t at\<bar> * 10 ^ e < 2 ^ 127" "ok \<Longrightarrow> num h' t at = num h t at * 10 ^ e"
    by blast+
qed

subsection \<open>Comparison\<close>

lemma signed_32: "x < 2 ^ 32 \<Longrightarrow> signed_take_bit 31 (int x) = int x - (if 2147483648 \<le> x then 2 ^ 32 else 0)"
proof -
  assume x: "x < 2 ^ 32"
  have "take_bit 32 (int x) = int x" using x by (simp add: take_bit_int_eq_self_iff)
  moreover have "int x div 2147483648 = (if 2147483648 \<le> x then 1 else 0)" 
    using x int_div_pos_eq [of "int x" 2147483648 1 "int x - 2147483648"] by (cases "2147483648 \<le> x") simp_all
  then have "bit (int x) 31 \<longleftrightarrow> 2147483648 \<le> x" by (simp add: bit_iff_odd)
  ultimately show ?thesis by (simp add: signed_take_bit_eq_take_bit_minus)
qed

lemma sint_limb: "sint (w :: u32) = int (unat w) - (if top_bit w then 2 ^ 32 else 0)"
  using signed_32 [of "unat w"] unat_u32_bound [of w] by (simp add: sint_uint top_bit_iff)

lemma num_words: "num h t at = sint (limb h t at 3) * 2 ^ 96 + int (unat (limb h t at 0) + 2 ^ 32 * unat (limb h t at 1) + 2 ^ 64 * unat (limb h t at 2))"
  using negative_magnitude [of h t at] by (simp add: num_def sint_limb is_negative_def magnitude_def)

lemma digit_less: "(x :: nat) < b \<Longrightarrow> y < b \<Longrightarrow> x + b * u < y + b * v \<longleftrightarrow> u < v \<or> u = v \<and> x < y"
proof -
  assume b: "x < b" "y < b"
  consider "u < v" | "u = v" | "v < u" by linarith
  then show ?thesis
  proof cases
    case 1
    then have "b * (u + 1) \<le> b * v" by (intro mult_le_mono2) simp
    then show ?thesis using 1 b by simp
  next
    case 3
    then have "b * (v + 1) \<le> b * u" by (intro mult_le_mono2) simp
    then show ?thesis using 3 b by simp
  qed simp
qed

lemma digit_eq: "(x :: nat) < b \<Longrightarrow> y < b \<Longrightarrow> x + b * u = y + b * v \<longleftrightarrow> u = v \<and> x = y"
  using digit_less [of x b y u v] digit_less [of y b x v u] by fastforce

definition low_words :: "store \<Rightarrow> array_id \<Rightarrow> nat \<Rightarrow> nat" where
  "low_words h t at = unat (limb h t at 0) + 2 ^ 32 * (unat (limb h t at 1) + 2 ^ 32 * unat (limb h t at 2))"

lemma low_words_less: "low_words h a ai < low_words h b bi \<longleftrightarrow>
    limb h a ai 2 < limb h b bi 2 \<or> limb h a ai 2 = limb h b bi 2 \<and>
    (limb h a ai 1 < limb h b bi 1 \<or> limb h a ai 1 = limb h b bi 1 \<and> limb h a ai 0 < limb h b bi 0)"
proof -
  have u: "unat w < 2 ^ 32" for w :: u32 using unat_u32_bound [of w] by simp
  show ?thesis unfolding low_words_def digit_less [OF u u] digit_eq [OF u u] by (auto simp: word_less_nat_alt word_unat_eq_iff)
qed

lemma compare_low: "compare_from h a ai b bi [2, 1, 0] = (if low_words h a ai < low_words h b bi then - 1 else if low_words h a ai = low_words h b bi then 0 else 1)"
proof -
  have e: "low_words h a ai = low_words h b bi \<longleftrightarrow> \<not> low_words h a ai < low_words h b bi \<and> \<not> low_words h b bi < low_words h a ai" by linarith
  show ?thesis unfolding e low_words_less by (auto simp: compare_from_def Let_def)
qed

lemma low_words_bound: "low_words h t at < 2 ^ 96"
  using unat_u32_bound [of "limb h t at 0"] unat_u32_bound [of "limb h t at 1"] unat_u32_bound [of "limb h t at 2"] by (simp add: low_words_def)

lemma num_low_words: "num h t at = sint (limb h t at 3) * 2 ^ 96 + int (low_words h t at)"
  by (simp add: num_words low_words_def)

lemma compare_num:
  "compare h a ai b bi = (if num h a ai < num h b bi then - 1 else if num h a ai = num h b bi then 0 else 1)"
proof -
  define x y u v where d: "x = sint (limb h a ai 3)" "y = sint (limb h b bi 3)" "u = low_words h a ai" "v = low_words h b bi"
  have b: "u < 2 ^ 96" "v < 2 ^ 96" using low_words_bound by (simp_all add: d)
  have n: "num h a ai = x * 2 ^ 96 + int u" "num h b bi = y * 2 ^ 96 + int v" by (simp_all add: num_low_words d)
  have c: "compare h a ai b bi = (if x \<noteq> y then (if x < y then - 1 else 1) else if u < v then - 1 else if u = v then 0 else 1)"
    by (simp only: compare_def compare_low d Let_def)
  consider "x < y" | "x = y" | "y < x" by linarith
  then show ?thesis
  proof cases
    case 1
    then have "(x + 1) * 2 ^ 96 \<le> y * 2 ^ 96" by (intro mult_right_mono) simp_all
    then have "num h a ai < num h b bi" using b unfolding n by simp
    then show ?thesis using 1 by (simp add: c)
  next
    case 2
    then show ?thesis unfolding c n by auto
  next
    case 3
    then have "(y + 1) * 2 ^ 96 \<le> x * 2 ^ 96" by (intro mult_right_mono) simp_all
    then have "num h b bi < num h a ai" using b unfolding n by simp
    then show ?thesis using 3 by (simp add: c)
  qed
qed

subsection \<open>Multiplication\<close>

definition psum :: "nat \<Rightarrow> nat list \<Rightarrow> nat" where "psum n xs = (\<Sum>k<n. at0 xs k * 65536 ^ k)"

lemma at0_update: "m < length xs \<Longrightarrow> at0 (xs[m := v]) k = (if k = m then v else at0 xs k)"
  by (simp add: at0_def)

lemma psum_update:
  assumes "m < length xs"
  shows "psum n (xs[m := at0 xs m + v]) = psum n xs + (if m < n then v * 65536 ^ m else 0)"
  by (induction n) (use assms in \<open>auto simp: psum_def at0_update algebra_simps less_Suc_eq\<close>)

lemma add_columns:
  assumes "i + n \<le> m" "m \<le> length cols"
  shows "length (fold (add_column i x ys) [0..<n] cols) = length cols"
    "psum m (fold (add_column i x ys) [0..<n] cols) = psum m cols + x * 65536 ^ i * psum n ys"
proof -
  have "length (fold (add_column i x ys) [0..<n] cols) = length cols \<and>
    psum m (fold (add_column i x ys) [0..<n] cols) = psum m cols + x * 65536 ^ i * psum n ys"
    using assms
  proof (induction n)
    case (Suc n)
    let ?c = "fold (add_column i x ys) [0..<n] cols"
    have IH: "length ?c = length cols" "psum m ?c = psum m cols + x * 65536 ^ i * psum n ys" using Suc by simp_all
    have a: "add_column i x ys n ?c = ?c[i + n := at0 ?c (i + n) + x * at0 ys n]" by (rule add_column_def)
    have "psum m (add_column i x ys n ?c) = psum m ?c + x * at0 ys n * 65536 ^ (i + n)"
      unfolding a using Suc.prems IH(1) psum_update [of "i + n" ?c m "x * at0 ys n"] by simp
    moreover have "length (add_column i x ys n ?c) = length ?c" unfolding a by simp
    ultimately show ?case using IH by (simp add: psum_def algebra_simps power_add)
  qed (simp add: psum_def)
  then show "length (fold (add_column i x ys) [0..<n] cols) = length cols"
    "psum m (fold (add_column i x ys) [0..<n] cols) = psum m cols + x * 65536 ^ i * psum n ys" by simp_all
qed

lemma product_rows:
  "n \<le> 8 \<Longrightarrow> length (fold (add_row xs ys) [0..<n] (replicate 17 0)) = 17 \<and>
    psum 16 (fold (add_row xs ys) [0..<n] (replicate 17 0)) = psum n xs * psum 8 ys"
proof (induction n)
  case 0
  have "at0 (replicate 17 (0 :: nat)) k = 0" for k by (simp add: at0_def)
  then show ?case by (simp add: psum_def)
next
  case (Suc n)
  let ?c = "fold (add_row xs ys) [0..<n] (replicate 17 0)"
  have IH: "length ?c = 17" "psum 16 ?c = psum n xs * psum 8 ys" using Suc by simp_all
  have "length (add_row xs ys n ?c) = 17 \<and> psum 16 (add_row xs ys n ?c) = psum 16 ?c + at0 xs n * 65536 ^ n * psum 8 ys"
    using add_columns [of n 8 16 ?c "at0 xs n" ys] Suc.prems IH(1) by (auto simp: add_row_def Let_def)
  then show ?case using IH(2) by (simp add: psum_def algebra_simps)
qed

lemma psum_Suc: "psum (Suc n) cols = psum n cols + at0 cols n * 65536 ^ n"
  by (simp add: psum_def)

lemma column_carry: "psum (Suc c) cols div 65536 ^ c = at0 cols c + psum c cols div 65536 ^ c"
  by (simp add: psum_Suc)

lemma column_digit: "psum (Suc c) cols mod 65536 ^ Suc c = psum c cols mod 65536 ^ c + (psum (Suc c) cols div 65536 ^ c mod 65536) * 65536 ^ c"
proof -
  have "psum (Suc c) cols mod (65536 ^ c * 65536) = 65536 ^ c * (psum (Suc c) cols div 65536 ^ c mod 65536) + psum (Suc c) cols mod 65536 ^ c"
    by (rule mod_mult2_eq)
  moreover have "psum (Suc c) cols mod 65536 ^ c = psum c cols mod 65536 ^ c" by (simp add: psum_Suc)
  ultimately show ?thesis by (simp add: mult.commute)
qed

lemma column_next: "psum (Suc c) cols div 65536 ^ c div 65536 = psum (Suc c) cols div 65536 ^ Suc c"
  by (simp only: power_Suc2 div_mult2_eq)

text \<open>After \<open>c\<close> columns the limbs begun hold the low digits.\<close>

definition columns_written :: "store \<Rightarrow> array_id \<Rightarrow> nat \<Rightarrow> nat list \<Rightarrow> nat \<Rightarrow> store \<Rightarrow> bool" where
  "columns_written h0 t to cols c h \<longleftrightarrow> room h t to \<and> changes h0 h {(t, to)}
     \<and> (\<Sum>k < (c + 1) div 2. unat (limb h t to k) * 65536 ^ (2 * k)) = psum c cols mod 65536 ^ c
     \<and> (c mod 2 = 1 \<longrightarrow> unat (limb h t to (c div 2)) < 65536)"

lemma or_digit:
  assumes "unat (w :: u32) < 65536" "d < 65536"
  shows "unat (w OR push_bit 16 (low32 d)) = unat w + d * 65536"
proof -
  have p: "unat (push_bit 16 (low32 d)) = d * 65536"
    using assms(2) by (simp add: unsigned_push_bit_eq take_bit_push_bit unat_low32) (simp add: push_bit_eq_mult take_bit_nat_eq_self_iff)
  have "take_bit 16 (unat w) = unat w" using assms(1) by (simp add: take_bit_nat_eq_self_iff)
  then have "unat w AND push_bit 16 d = take_bit 16 (unat w) AND push_bit 16 d" by simp
  also have "\<dots> = 0" by (rule bit_eqI) (auto simp: bit_simps)
  finally have "unat w + push_bit 16 d = unat w OR push_bit 16 d" by (rule disjunctive_add_eq_or)
  moreover have "push_bit 16 d = d * 65536" by (simp add: push_bit_eq_mult)
  ultimately show ?thesis unfolding unsigned_or_eq p by simp
qed

lemma even_column:
  assumes "columns_written h0 t to cols c h" "c < 8" "c mod 2 = 0"
  defines "digit \<equiv> psum (Suc c) cols div 65536 ^ c mod 65536"
  shows "columns_written h0 t to cols (Suc c) (set_limb t to (c div 2) (low32 digit) h)"
proof -
  obtain m where m: "c = 2 * m" "m < 4" using assms(2,3) that [of "c div 2"] by auto
  note w = assms(1) [unfolded columns_written_def]
  let ?h = "set_limb t to m (low32 digit) h"
  have d: "digit < 65536" by (simp add: digit_def)
  have r: "room h t to" using w by simp
  have l: "limb ?h t to k = (if k = m then low32 digit else limb h t to k)" if "k < 4" for k using limb_set_limb [OF m(2) that r] by simp
  have "(\<Sum>k < m. unat (limb ?h t to k) * 65536 ^ (2 * k)) = (\<Sum>k < m. unat (limb h t to k) * 65536 ^ (2 * k))"
    by (rule sum.cong) (use m(2) l in auto)
  also have "\<dots> = psum c cols mod 65536 ^ c" using w m(1) by simp
  finally have "(\<Sum>k < Suc m. unat (limb ?h t to k) * 65536 ^ (2 * k)) = psum (Suc c) cols mod 65536 ^ Suc c"
    using l [OF m(2)] d unfolding column_digit by (simp add: unat_low32 digit_def m(1))
  moreover have "changes h0 ?h {(t, to)}" using changes_again [of h0 h] changes_set_limb [OF m(2) r] w by blast
  ultimately show ?thesis using m r d l [OF m(2)] by (simp add: columns_written_def unat_low32)
qed

lemma odd_column:
  assumes "columns_written h0 t to cols c h" "c < 8" "c mod 2 = 1"
  defines "digit \<equiv> psum (Suc c) cols div 65536 ^ c mod 65536"
  shows "columns_written h0 t to cols (Suc c) (set_limb t to (c div 2) (limb h t to (c div 2) OR push_bit 16 (low32 digit)) h)"
proof -
  obtain m where m: "c = 2 * m + 1" "m < 4"
    by (rule that [of "c div 2"]) (use assms(2,3) div_mult_mod_eq [of c 2] in linarith)+
  note w = assms(1) [unfolded columns_written_def]
  let ?w = "limb h t to m OR push_bit 16 (low32 digit)"
  let ?h = "set_limb t to m ?w h"
  have d: "digit < 65536" by (simp add: digit_def)
  have r: "room h t to" using w by simp
  have l: "limb ?h t to k = (if k = m then ?w else limb h t to k)" if "k < 4" for k using limb_set_limb [OF m(2) that r] by simp
  have u: "unat ?w = unat (limb h t to m) + digit * 65536" by (rule or_digit) (use w m(1) d in simp_all)
  have "(\<Sum>k < m. unat (limb ?h t to k) * 65536 ^ (2 * k)) = (\<Sum>k < m. unat (limb h t to k) * 65536 ^ (2 * k))"
    by (rule sum.cong) (use m(2) l in auto)
  then have "(\<Sum>k < Suc m. unat (limb ?h t to k) * 65536 ^ (2 * k)) = (\<Sum>k < Suc m. unat (limb h t to k) * 65536 ^ (2 * k)) + digit * 65536 ^ c"
    using l [OF m(2)] u by (simp add: m(1) algebra_simps)
  also have "(\<Sum>k < Suc m. unat (limb h t to k) * 65536 ^ (2 * k)) = psum c cols mod 65536 ^ c" using w m(1) by simp
  finally have "(\<Sum>k < Suc m. unat (limb ?h t to k) * 65536 ^ (2 * k)) = psum (Suc c) cols mod 65536 ^ Suc c"
    unfolding column_digit by (simp add: digit_def)
  moreover have "changes h0 ?h {(t, to)}" using changes_again [of h0 h] changes_set_limb [OF m(2) r] w by blast
  ultimately show ?thesis using m(1) r by (simp add: columns_written_def)
qed

lemma low_columns:
  "c \<le> 8 \<Longrightarrow> columns_written h0 t to cols c h \<Longrightarrow>
    \<exists>h'. columns_written h0 t to cols 8 h' \<and> carry_loop t to cols c (psum c cols div 65536 ^ c) h = carry_loop t to cols 8 (psum 8 cols div 65536 ^ 8) h'"
proof (induction "8 - c" arbitrary: c h)
  case (Suc n)
  then have c: "c < 8" "n = 8 - Suc c" "Suc c \<le> 8" by simp_all
  note n = c(2,3) and c = c(1)
  define digit where "digit = psum (Suc c) cols div 65536 ^ c mod 65536"
  define h1 where "h1 = (if c mod 2 = 0 then set_limb t to (c div 2) (low32 digit) h
     else set_limb t to (c div 2) (limb h t to (c div 2) OR push_bit 16 (low32 digit)) h)"
  have "columns_written h0 t to cols (Suc c) h1"
    using even_column [OF Suc.prems(2) c] odd_column [OF Suc.prems(2) c] by (auto simp: h1_def digit_def not_mod_2_eq_0_eq_1)
  then obtain h' where h': "columns_written h0 t to cols 8 h'"
    "carry_loop t to cols (Suc c) (psum (Suc c) cols div 65536 ^ Suc c) h1 = carry_loop t to cols 8 (psum 8 cols div 65536 ^ 8) h'"
    using Suc.hyps(1) [of "Suc c" h1] n c by blast
  have "carry_loop t to cols c (psum c cols div 65536 ^ c) h = carry_loop t to cols (Suc c) (psum (Suc c) cols div 65536 ^ Suc c) h1"
    using c by (subst carry_loop.simps) (simp add: Let_def column_carry [symmetric] column_next [symmetric] digit_def [symmetric] h1_def del: power_Suc)
  then show ?case using h' by auto
qed auto

lemma high_columns:
  "8 \<le> c \<Longrightarrow> c \<le> 16 \<Longrightarrow> carry_loop t to cols c (psum c cols div 65536 ^ c) h = (h', r) \<Longrightarrow> h' = h \<and>
    (case r of None \<Rightarrow> 65536 ^ 8 \<le> psum 16 cols | Some k \<Rightarrow> psum 16 cols = psum c cols mod 65536 ^ c + k * 65536 ^ 16)"
proof (induction "16 - c" arbitrary: c)
  case 0
  then have "c = 16" by simp
  then show ?case using 0 by (auto simp: carry_loop.simps [of _ _ _ 16])
next
  case (Suc n)
  then have c: "c < 16" "n = 16 - Suc c" by simp_all
  note n = c(2) and c = c(1)
  define digit where "digit = psum (Suc c) cols div 65536 ^ c mod 65536"
  have e: "carry_loop t to cols c (psum c cols div 65536 ^ c) h
      = (if digit \<noteq> 0 then (h, None) else carry_loop t to cols (Suc c) (psum (Suc c) cols div 65536 ^ Suc c) h)"
    using c Suc.prems(1) by (subst carry_loop.simps) (simp add: Let_def column_carry [symmetric] column_next [symmetric] digit_def [symmetric] del: power_Suc)
  show ?case
  proof (cases "digit = 0")
    case True
    then show ?thesis using Suc.hyps(1) [OF n] Suc.prems c e column_digit [of c cols] by (simp add: digit_def del: power_Suc split: option.splits)
  next
    case False
    have "psum (Suc c) cols \<le> psum 16 cols" unfolding psum_def by (rule sum_mono2) (use c in auto)
    moreover have "65536 ^ c \<le> psum (Suc c) cols" using False by (auto simp: digit_def not_less [symmetric])
    moreover have "(65536 :: nat) ^ 8 \<le> 65536 ^ c" by (rule power_increasing) (use Suc.prems(1) in simp_all)
    ultimately have "65536 ^ 8 \<le> psum 16 cols" by linarith
    then show ?thesis using Suc.prems(3) e False by simp
  qed
qed

lemma psum_length: "n = length xs \<Longrightarrow> psum n xs = foldr (\<lambda>x r. x + 65536 * r) xs 0"
proof (induction xs arbitrary: n)
  case (Cons x xs)
  have "psum (Suc (length xs)) (x # xs) = x + (\<Sum>k < length xs. at0 xs k * 65536 ^ Suc k)"
    unfolding psum_def by (subst sum.lessThan_Suc_shift) simp
  also have "\<dots> = x + 65536 * psum (length xs) xs" by (simp add: psum_def sum_distrib_left mult_ac)
  finally show ?case using Cons by simp
qed (simp add: psum_def)

lemma psum_halves: "psum 8 (halves h slot) = magnitude h Scratch slot"
proof -
  have w: "unat (w AND 0xffff) + 65536 * unat (drop_bit 16 w) = unat w" for w :: u32
  proof -
    have "unat (w AND 0xffff) = unat w mod 65536"
      using take_bit_eq_mask [of 16 "unat w"] by (simp add: unsigned_and_eq take_bit_eq_mod mask_eq_exp_minus_1)
    moreover have "unat (drop_bit 16 w) = unat w div 65536" unfolding unat_drop_bit_eq by (simp add: drop_bit_eq_div)
    ultimately show ?thesis by simp
  qed
  have p: "psum 8 [a0, a1, a2, a3, a4, a5, a6, a7] = (a0 + 65536 * a1) + 2 ^ 32 * (a2 + 65536 * a3) + 2 ^ 64 * (a4 + 65536 * a5) + 2 ^ 96 * (a6 + 65536 * a7)" for a0 a1 a2 a3 a4 a5 a6 a7
    using psum_length [of 8 "[a0, a1, a2, a3, a4, a5, a6, a7]"] by simp
  have l: "halves h slot = [unat (limb h Scratch slot 0 AND 0xffff), unat (drop_bit 16 (limb h Scratch slot 0)), unat (limb h Scratch slot 1 AND 0xffff),
      unat (drop_bit 16 (limb h Scratch slot 1)), unat (limb h Scratch slot 2 AND 0xffff), unat (drop_bit 16 (limb h Scratch slot 2)),
      unat (limb h Scratch slot 3 AND 0xffff), unat (drop_bit 16 (limb h Scratch slot 3))]"
    by (simp add: halves_def upt_four Let_def)
  show ?thesis unfolding l p w magnitude_def ..
qed

lemma abs_magnitude:
  assumes "room h t at"
  shows "int (magnitude (if num h t at < 0 then negate t at h else h) t at) = \<bar>num h t at\<bar>"
    "changes h (if num h t at < 0 then negate t at h else h) {(t, at)}"
proof -
  show "int (magnitude (if num h t at < 0 then negate t at h else h) t at) = \<bar>num h t at\<bar>"
  proof (cases "num h t at < 0")
    case True
    then have "int (magnitude h t at) = num h t at + 2 ^ 128" "0 < magnitude h t at" using magnitude_bound [of h t at] by (auto simp: num_def split: if_splits)
    then show ?thesis using True negate_num(3) [OF assms] magnitude_bound [of h t at] by (simp add: of_nat_diff)
  next
    case False
    then show ?thesis using nonneg_magnitude [of h t at] by simp
  qed
qed (simp add: negate_num(1) [OF assms])

lemma top_num: "top_bit (limb h t at 3) \<longleftrightarrow> num h t at < 0"
  using negative_num [of h t at] by (simp add: is_negative_def)

lemma multiply_num:
  assumes "room h t to" "length (h Scratch) = 64" "(b, bi) \<noteq> (Scratch, 14)" "multiply_to t to a ai b bi h = (h', ok)"
  shows "changes h h' {(t, to), (Scratch, 14), (Scratch, 15)}" "ok \<longleftrightarrow> \<bar>num h a ai * num h b bi\<bar> < 2 ^ 127"
    "ok \<Longrightarrow> num h' t to = num h a ai * num h b bi"
proof -
  define h1 where "h1 = copy Scratch 14 a ai h"
  define h2 where "h2 = copy Scratch 15 b bi h1"
  define h3 where "h3 = (if num h a ai < 0 then negate Scratch 14 h2 else h2)"
  define h4 where "h4 = (if num h b bi < 0 then negate Scratch 15 h3 else h3)"
  let ?S = "{(t, to), (Scratch, 14), (Scratch, 15)}"
  have r: "room h Scratch 14" by (simp add: room_def assms(2))
  note c1 = copy_num [OF r, of a ai, folded h1_def]
  have r1: "room h1 Scratch 15" using c1(1) assms(2) by (simp add: room_def changes_def)
  note c2 = copy_num [OF r1, of b bi, folded h2_def]
  have n2: "num h2 Scratch 14 = num h a ai" "num h2 Scratch 15 = num h b bi"
    using c1(3) c2(3) changes_frame(2) [OF c2(1), of Scratch 14] changes_frame(2) [OF c1(1), of b bi] assms(3) by auto
  have l2: "length (h2 Scratch) = 64" using c1(1) c2(1) assms(2) by (simp add: changes_def)
  then have r2: "room h2 Scratch 14" by (simp add: room_def)
  have m3: "int (magnitude h3 Scratch 14) = \<bar>num h a ai\<bar>" "changes h2 h3 {(Scratch, 14)}"
    using abs_magnitude [OF r2] unfolding h3_def n2(1) [symmetric] by simp_all
  have n3: "num h3 Scratch 15 = num h b bi" using changes_frame(2) [OF m3(2), of Scratch 15] n2(2) by simp
  have r3: "room h3 Scratch 15" using m3(2) l2 by (simp add: room_def changes_def)
  have m4: "int (magnitude h4 Scratch 15) = \<bar>num h b bi\<bar>" "changes h3 h4 {(Scratch, 15)}"
    using abs_magnitude [OF r3] unfolding h4_def n3 [symmetric] by simp_all
  have m4': "int (magnitude h4 Scratch 14) = \<bar>num h a ai\<bar>" using changes_frame(1) [OF m4(2), of Scratch 14] m3(1) by simp
  have ch4: "changes h h4 ?S"
    by (intro changes_again [OF changes_mono [OF c1(1)]] changes_again [OF changes_mono [OF c2(1)]] changes_again [OF changes_mono [OF m3(2)]]
        changes_mono [OF m4(2)]) auto
  define cols where "cols = product_columns (halves h4 14) (halves h4 15)"
  have P: "int (psum 16 cols) = \<bar>num h a ai * num h b bi\<bar>"
    using product_rows [of 8 "halves h4 14" "halves h4 15"] m4(1) m4' by (simp add: cols_def product_columns_def psum_halves abs_mult)
  have r4: "room h4 t to" using changes_room [OF ch4] assms(1) by simp
  have "columns_written h4 t to cols 0 h4" using r4 by (simp add: columns_written_def psum_def)
  then obtain h5 where h5: "columns_written h4 t to cols 8 h5" "carry_loop t to cols 0 (psum 0 cols div 65536 ^ 0) h4 = carry_loop t to cols 8 (psum 8 cols div 65536 ^ 8) h5"
    using low_columns [of 0] by blast
  obtain h6 k where k: "carry_loop t to cols 8 (psum 8 cols div 65536 ^ 8) h5 = (h6, k)" by fastforce
  note q = high_columns [OF order_refl _ k, simplified]
  have m5: "magnitude h5 t to = psum 8 cols mod 65536 ^ 8" "room h5 t to" "changes h h5 ?S"
    using h5(1) changes_again [OF ch4 changes_mono] by (auto simp: columns_written_def magnitude_def lessThan_nat_numeral lessThan_Suc)
  have e: "(h', ok) = (case k of None \<Rightarrow> (h5, False) | Some carry \<Rightarrow>
             if carry \<noteq> 0 \<or> num h5 t to < 0 then (h5, False)
             else (if (num h a ai < 0) \<noteq> (num h b bi < 0) then negate t to h5 else h5, True))"
  proof -
    have "carry_loop t to cols 0 0 h4 = (h5, k)" using h5(2) k q by (simp add: psum_def)
    then have "multiply_to t to a ai b bi h = (case k of None \<Rightarrow> (h5, False) | Some carry \<Rightarrow>
             if carry \<noteq> 0 \<or> num h5 t to < 0 then (h5, False)
             else (if (num h a ai < 0) \<noteq> (num h b bi < 0) then negate t to h5 else h5, True))"
      unfolding multiply_to_def Let_def top_num h1_def [symmetric] h2_def [symmetric] h3_def [symmetric] h4_def [symmetric] cols_def [symmetric]
      by (auto split: option.splits)
    then show ?thesis using assms(4) by simp
  qed
  have all: "changes h h' ?S \<and> (ok \<longleftrightarrow> \<bar>num h a ai * num h b bi\<bar> < 2 ^ 127) \<and> (ok \<longrightarrow> num h' t to = num h a ai * num h b bi)"
  proof (cases k)
    case None
    then have "2 ^ 128 \<le> psum 16 cols" using q by simp
    then have "2 ^ 128 \<le> \<bar>num h a ai * num h b bi\<bar>" unfolding P [symmetric] by simp
    then show ?thesis using None e m5(3) by simp
  next
    case (Some c)
    then have s: "psum 16 cols = magnitude h5 t to + c * 2 ^ 256" using q m5(1) by simp
    have neg: "num h5 t to < 0 \<longleftrightarrow> \<not> magnitude h5 t to < 2 ^ 127" using negative_num [of h5 t to] by (simp add: negative_magnitude not_less)
    have fits: "(c = 0 \<and> \<not> num h5 t to < 0) \<longleftrightarrow> \<bar>num h a ai * num h b bi\<bar> < 2 ^ 127"
    proof -
      have "int (psum 16 cols) < 2 ^ 127 \<longleftrightarrow> psum 16 cols < 2 ^ 127" by simp
      then have "\<bar>num h a ai * num h b bi\<bar> < 2 ^ 127 \<longleftrightarrow> psum 16 cols < 2 ^ 127" by (simp only: P)
      then show ?thesis unfolding neg s by (cases c) auto
    qed
    show ?thesis
    proof (cases "c = 0 \<and> \<not> num h5 t to < 0")
      case True
      then have n5: "num h5 t to = \<bar>num h a ai * num h b bi\<bar>" using s neg P by (simp add: num_def)
      have "num (negate t to h5) t to = - \<bar>num h a ai * num h b bi\<bar>"
        using negate_num(2) [OF m5(2)] n5 fits True wrap128_same [of "- \<bar>num h a ai * num h b bi\<bar>"] by simp
      moreover have "changes h (negate t to h5) ?S" by (rule changes_again [OF m5(3) changes_mono [OF negate_num(1) [OF m5(2)]]]) simp
      moreover have "\<bar>num h a ai * num h b bi\<bar> = (if (num h a ai < 0) \<noteq> (num h b bi < 0) then - (num h a ai * num h b bi) else num h a ai * num h b bi)"
        by (auto simp: abs_if mult_less_0_iff not_less zero_less_mult_iff mult_le_0_iff)
      ultimately show ?thesis using e Some True fits n5 m5(3) by (auto split: if_splits)
    next
      case False
      then show ?thesis using e Some fits m5(3) by (auto split: if_splits)
    qed
  qed
  then show "changes h h' ?S" "ok \<longleftrightarrow> \<bar>num h a ai * num h b bi\<bar> < 2 ^ 127" "ok \<Longrightarrow> num h' t to = num h a ai * num h b bi" by blast+
qed

subsection \<open>Big integers\<close>

lemma or_shifted: "0 \<le> a \<Longrightarrow> a < 2 ^ n \<Longrightarrow> a OR push_bit n b = a + 2 ^ n * (b :: int)"
proof -
  assume a: "0 \<le> a" "a < 2 ^ n"
  have "take_bit n a AND push_bit n b = 0" by (rule bit_eqI) (auto simp: bit_simps)
  moreover have "take_bit n a = a" using a by (simp add: take_bit_int_eq_self_iff)
  ultimately have "a + push_bit n b = a OR push_bit n b" by (intro disjunctive_add_eq_or) simp
  then show ?thesis by (simp add: push_bit_eq_mult mult.commute)
qed

lemma signed_128: "x < 2 ^ 128 \<Longrightarrow> signed_take_bit 127 (int x) = int x - (if 2 ^ 127 \<le> x then 2 ^ 128 else 0)"
proof -
  assume x: "x < 2 ^ 128"
  have "take_bit 128 (int x) = int x" using x by (simp add: take_bit_int_eq_self_iff)
  moreover have "int x div 2 ^ 127 = (if 2 ^ 127 \<le> x then 1 else 0)"
    using x int_div_pos_eq [of "int x" "2 ^ 127" 1 "int x - 2 ^ 127"] by (cases "2 ^ 127 \<le> x") simp_all
  then have "bit (int x) 127 \<longleftrightarrow> 2 ^ 127 \<le> x" by (simp add: bit_iff_odd)
  ultimately show ?thesis by (simp add: signed_take_bit_eq_take_bit_minus)
qed

lemma to_big_int_num: "to_big_int h t at = num h t at"
proof -
  have b: "0 \<le> uint w" "uint w < 2 ^ 32" for w :: u32 using uint_lt2p [of w] by simp_all
  have "uint (limb h t at 0) OR push_bit 32 (uint (limb h t at 1)) OR push_bit 64 (uint (limb h t at 2)) OR push_bit 96 (uint (limb h t at 3))
      = uint (limb h t at 0) OR push_bit 32 (uint (limb h t at 1) OR push_bit 32 (uint (limb h t at 2) OR push_bit 32 (uint (limb h t at 3))))"
    by (simp only: push_bit_or push_bit_push_bit) simp
  also have "\<dots> = int (magnitude h t at)" by (simp only: or_shifted [OF b]) (simp add: magnitude_def)
  finally have e: "to_big_int h t at = signed_take_bit 127 (int (magnitude h t at))" by (simp only: to_big_int_def)
  have "signed_take_bit 127 (int (magnitude h t at)) = num h t at"
    using signed_128 [OF magnitude_bound [of h t at]] by (simp add: num_def)
  then show ?thesis using e by simp
qed

lemma four_words: "u mod 2 ^ 32 + 2 ^ 32 * (u div 2 ^ 32 mod 2 ^ 32) + 2 ^ 64 * (u div 2 ^ 64 mod 2 ^ 32) + 2 ^ 96 * (u div 2 ^ 96) = (u :: nat)"
proof -
  have "u div 2 ^ 32 div 2 ^ 32 = u div 2 ^ 64" "u div 2 ^ 64 div 2 ^ 32 = u div 2 ^ 96" by (simp_all flip: div_mult2_eq)
  moreover have "v mod 2 ^ 32 + 2 ^ 32 * (v div 2 ^ 32) = v" for v :: nat by simp
  from this [of u] this [of "u div 2 ^ 32"] this [of "u div 2 ^ 64"] have
    "u = u mod 2 ^ 32 + 2 ^ 32 * (u div 2 ^ 32 mod 2 ^ 32 + 2 ^ 32 * (u div 2 ^ 32 div 2 ^ 32))"
    "u div 2 ^ 64 = u div 2 ^ 64 mod 2 ^ 32 + 2 ^ 32 * (u div 2 ^ 64 div 2 ^ 32)" by simp_all
  ultimately show ?thesis by simp
qed

lemma unat_word_int: "0 \<le> v \<Longrightarrow> unat (word_of_int v :: u32) = nat v mod 2 ^ 32"
proof -
  assume "0 \<le> v"
  then have "(word_of_int v :: u32) = word_of_nat (nat v)" by simp
  then show ?thesis by (simp add: unat_of_nat)
qed

lemma unat_masked: "0 \<le> v \<Longrightarrow> unat (word_of_int (v AND 0xffffffff) :: u32) = nat v mod 2 ^ 32"
proof -
  assume v: "0 \<le> v"
  have e: "v AND 0xffffffff = v mod 2 ^ 32" using take_bit_eq_mask [of 32 v] by (simp add: take_bit_eq_mod mask_eq_exp_minus_1)
  show ?thesis unfolding e using v unat_word_int [of "v mod 2 ^ 32"] by (simp add: nat_mod_distrib)
qed

lemma set_big_int_num:
  assumes "room h t at" "set_big_int t at v h = (h', ok)"
  shows "ok \<longleftrightarrow> - (2 ^ 127) \<le> v \<and> v < 2 ^ 127" "changes h h' {(t, at)}" "ok \<Longrightarrow> num h' t at = v"
proof -
  show ok: "ok \<longleftrightarrow> - (2 ^ 127) \<le> v \<and> v < 2 ^ 127" using assms(2) by (auto simp: set_big_int_def Let_def split: if_splits)
  let ?u = "take_bit 128 v"
  have u: "0 \<le> ?u" "?u < 2 ^ 128" using take_bit_int_less_exp [of 128 v] by simp_all
  have e: "ok \<Longrightarrow> h' = set_limb t at 3 (word_of_int (drop_bit 96 ?u)) (set_limb t at 2 (word_of_int (drop_bit 64 ?u AND 0xffffffff))
      (set_limb t at 1 (word_of_int (drop_bit 32 ?u AND 0xffffffff)) (set_limb t at 0 (word_of_int (?u AND 0xffffffff)) h)))" "\<not> ok \<Longrightarrow> h' = h"
    using assms(2) by (auto simp: set_big_int_def Let_def split: if_splits)
  show "changes h h' {(t, at)}" using set_limbs(1) [OF assms(1) e(1)] e(2) by (cases ok) auto
  assume o: ok
  have d: "nat (drop_bit n ?u) = nat ?u div 2 ^ n" for n
    using nat_div_distrib [of ?u "2 ^ n"] u(1) by (simp add: drop_bit_eq_div nat_power_eq)
  have "nat ?u div 2 ^ 96 < 2 ^ 32" using u(2) by (simp add: less_mult_imp_div_less nat_less_iff)
  then have t: "unat (word_of_int (drop_bit 96 ?u) :: u32) = nat ?u div 2 ^ 96" using unat_word_int [of "drop_bit 96 ?u"] by (simp add: d)
  have "magnitude h' t at = nat ?u mod 2 ^ 32 + 2 ^ 32 * (nat ?u div 2 ^ 32 mod 2 ^ 32) + 2 ^ 64 * (nat ?u div 2 ^ 64 mod 2 ^ 32) + 2 ^ 96 * (nat ?u div 2 ^ 96)"
    unfolding set_limbs(2) [OF assms(1) e(1) [OF o]] t by (simp only: unat_masked u(1) drop_bit_nonnegative_int_iff d)
  also have "\<dots> = nat ?u" by (rule four_words)
  finally have "int (magnitude h' t at) = v mod 2 ^ 128" by (simp add: take_bit_eq_mod)
  then have "int (magnitude h' t at) = v + 2 ^ 128 * (- (v div 2 ^ 128))" by (simp add: minus_mult_div_eq_mod [symmetric])
  from num_wrap [OF this] show "num h' t at = v" using ok o by (simp add: wrap128_same)
qed

subsection \<open>int64 values\<close>

lemma fits_int64_num: "fits_int64 h t at \<longleftrightarrow> - (2 ^ 63) \<le> num h t at \<and> num h t at < 2 ^ 63"
proof -
  define L H where "L = unat (limb h t at 0) + 2 ^ 32 * unat (limb h t at 1)" and "H = unat (limb h t at 2) + 2 ^ 32 * unat (limb h t at 3)"
  have u: "unat w < 2 ^ 32" for w :: u32 using unat_u32_bound [of w] by simp
  have m: "magnitude h t at = L + 2 ^ 64 * H" by (simp add: magnitude_def L_def H_def)
  have b: "L < 2 ^ 64" "H < 2 ^ 64" using u [of "limb h t at 0"] u [of "limb h t at 1"] u [of "limb h t at 2"] u [of "limb h t at 3"] by (simp_all add: L_def H_def)
  have t: "top_bit (limb h t at 1) \<longleftrightarrow> 2 ^ 63 \<le> L" using u [of "limb h t at 0"] by (simp add: top_bit_iff L_def) linarith
  define x where "x = (if top_bit (limb h t at 1) then 4294967295 else 0 :: nat)"
  have x: "x < 2 ^ 32" by (simp add: x_def)
  have "fits_int64 h t at \<longleftrightarrow> unat (limb h t at 3) = x \<and> unat (limb h t at 2) = x"
    by (auto simp: fits_int64_def Let_def x_def word_unat_eq_iff)
  also have "\<dots> \<longleftrightarrow> H = x + 2 ^ 32 * x" unfolding H_def by (simp only: digit_eq [OF u x])
  finally have "fits_int64 h t at \<longleftrightarrow> H = x + 2 ^ 32 * x" .
  moreover have "x = (if 2 ^ 63 \<le> L then 4294967295 else 0)" unfolding x_def t ..
  ultimately have "fits_int64 h t at \<longleftrightarrow> H = (if 2 ^ 63 \<le> L then 18446744073709551615 else 0)" by simp
  then show ?thesis using b by (auto simp: num_def m)
qed

lemma store_int64_num:
  assumes "fits_int64 h t at" "index * 2 + 2 \<le> length (h ws)" "ws \<noteq> t"
  defines "h' \<equiv> store_int64 t at ws index h"
  shows "int64_value (at0 (h' ws) (index * 2)) (at0 (h' ws) (index * 2 + 1)) = num h t at"
proof -
  have "at0 (h' ws) (index * 2) = limb h t at 0" "at0 (h' ws) (index * 2 + 1) = limb h t at 1"
    using assms(2,3) by (simp_all add: h'_def store_int64_def limb_def at0_def)
  moreover have "int64_value (limb h t at 0) (limb h t at 1) = num h t at"
    using assms(1) unat_u32_bound [of "limb h t at 0"] by (auto simp: fits_int64_def Let_def int64_value_def num_def magnitude_def top_bit_iff split: if_splits)
  ultimately show ?thesis by simp
qed

end
