(* ===== verification/LimbsDiv.thy ===== *)
theory LimbsDiv
  imports LimbsMul Double
begin

text \<open>
  Division of 128-bit limbs (\<open>next/exec/kernels/limbs.ts\<close>): a quotient estimated in doubles, whose arithmetic is in Double, and
  corrected exactly. \<open>to_double\<close> is partial, since on the least value, which is its own negation, the source's recursion never ends.
\<close>

definition double_of :: "store \<Rightarrow> array_id \<Rightarrow> nat \<Rightarrow> rat" where
  "double_of h t i =
     js_add (js_add (js_add (js_mul (of_nat (unat (limb h t i 3))) (2 ^ 96)) (js_mul (of_nat (unat (limb h t i 2))) (2 ^ 64)))
       (js_mul (of_nat (unat (limb h t i 1))) 4294967296)) (of_nat (unat (limb h t i 0)))"

partial_function (option) to_double :: "store \<Rightarrow> array_id \<Rightarrow> nat \<Rightarrow> (store \<times> rat) option" where
  "to_double h t i =
     (if \<not> is_negative h t i then Some (h, double_of h t i)
      else Option.bind (to_double (negate Scratch 13 (copy Scratch 13 t i h)) Scratch 13) (\<lambda>(h, x). Some (h, - x)))"

fun divide_loop :: "bool \<Rightarrow> nat \<Rightarrow> int \<Rightarrow> store \<Rightarrow> store \<times> int option" where
  "divide_loop round' 0 q h = (h, None)"
| "divide_loop round' (Suc attempts) q h =
     (case multiply_to Scratch 11 Scratch 10 Scratch 9 (set_number Scratch 10 q h) of
        (h, False) \<Rightarrow> (h, None)
      | (h, True) \<Rightarrow>
     (case add_to Scratch 11 Scratch 8 Scratch 11 True h of
        (h, False) \<Rightarrow> (h, None)
      | (h, True) \<Rightarrow>
          if is_negative h Scratch 11 then divide_loop round' attempts (q - 1) h
          else if 0 \<le> compare h Scratch 11 Scratch 9 then divide_loop round' attempts (q + 1) h
          else if round' then
            let (h, _) = add_to Scratch 11 Scratch 11 Scratch 11 False h
            in (h, Some (if 0 \<le> compare h Scratch 11 Scratch 9 then q + 1 else q))
          else (h, Some q)))"

definition divide_to :: "array_id \<Rightarrow> nat \<Rightarrow> array_id \<Rightarrow> nat \<Rightarrow> array_id \<Rightarrow> nat \<Rightarrow> bool \<Rightarrow> store \<Rightarrow> (store \<times> bool) option" where
  "divide_to t to n ni d di round' h =
     Option.bind (to_double h n ni) (\<lambda>(h, x).
     Option.bind (to_double h d di) (\<lambda>(h, y).
     let estimate = js_trunc (js_div x y) in
     if y = 0 \<or> \<not> \<bar>estimate\<bar> < 2 ^ 50 then Some (h, False)
     else Option.bind (to_double h d di) (\<lambda>(h, y).
       if 2 ^ 125 \<le> \<bar>y\<bar> then Some (h, False)
       else
         let h = copy Scratch 8 n ni h;
             h = copy Scratch 9 d di h;
             neg_n = is_negative h Scratch 8; neg_d = is_negative h Scratch 9;
             h = (if neg_n then negate Scratch 8 h else h);
             h = (if neg_d then negate Scratch 9 h else h)
         in case divide_loop round' 4 \<bar>estimate\<bar> h of
              (h, None) \<Rightarrow> Some (h, False)
            | (h, Some q) \<Rightarrow> let h = set_number t to q h in Some (if neg_n \<noteq> neg_d then negate t to h else h, True))))"

subsection \<open>Conversion to a double\<close>

lemma js_mul_limb:
  "js_mul (of_nat (unat (w :: u32))) (2 ^ 96) = of_nat (2 ^ 96 * unat w)"
  "js_mul (of_nat (unat w)) (2 ^ 64) = of_nat (2 ^ 64 * unat w)"
  "js_mul (of_nat (unat w)) 4294967296 = of_nat (2 ^ 32 * unat w)"
proof -
  have e: "js_mul (of_nat n) (2 ^ k) = of_nat (2 ^ k * n)" if "n < 4294967296" for n k
    using f64_round_exact [of "int n" k] that by (simp add: js_mul_def mult.commute)
  note e = e [OF unat_u32_bound]
  show "js_mul (of_nat (unat w)) (2 ^ 96) = of_nat (2 ^ 96 * unat w)" "js_mul (of_nat (unat w)) (2 ^ 64) = of_nat (2 ^ 64 * unat w)" by (rule e)+
  show "js_mul (of_nat (unat w)) 4294967296 = of_nat (2 ^ 32 * unat w)" using e [of w 32] by simp
qed

lemma round_close:
  assumes "0 \<le> x" "x = 0 \<or> c \<le> x" "1 \<le> c"
  shows "\<bar>f64_round x - x\<bar> \<le> x / 2 ^ 53" "f64_round x = 0 \<or> c / 2 \<le> f64_round x"
proof -
  show a: "\<bar>f64_round x - x\<bar> \<le> x / 2 ^ 53"
    using assms f64_round_relative [of x] by (cases "x = 0") (auto simp: f64_round_def)
  show "f64_round x = 0 \<or> c / 2 \<le> f64_round x"
  proof (cases "x = 0")
    case False
    then have "c \<le> x" using assms(2) by simp
    then have "c / 2 \<le> f64_round x" using a assms(3) unfolding abs_le_iff by simp
    then show ?thesis ..
  qed (simp add: f64_round_def)
qed

lemma double_of_close: "\<bar>double_of h t i - of_nat (magnitude h t i)\<bar> \<le> of_nat (magnitude h t i) / 2 ^ 51"
proof -
  define a0 a1 a2 a3 :: rat where "a0 = of_nat (unat (limb h t i 0))" and "a1 = of_nat (2 ^ 32 * unat (limb h t i 1))"
    and "a2 = of_nat (2 ^ 64 * unat (limb h t i 2))" and "a3 = of_nat (2 ^ 96 * unat (limb h t i 3))"
  note a = a0_def a1_def a2_def a3_def
  have nn: "0 \<le> a0" "0 \<le> a1" "0 \<le> a2" "0 \<le> a3" unfolding a by (rule of_nat_0_le_iff)+
  have big: "(of_nat (2 ^ k * n) :: rat) = 0 \<or> 2 ^ k \<le> (of_nat (2 ^ k * n) :: rat)" for k n :: nat
    by (cases n) (simp_all add: algebra_simps)
  have m: "of_nat (magnitude h t i) = a3 + a2 + a1 + a0" by (simp add: magnitude_def a)
  define s1 where "s1 = f64_round (a3 + a2)"
  define s2 where "s2 = f64_round (s1 + a1)"
  define s3 where "s3 = f64_round (s2 + a0)"
  have d: "double_of h t i = s3" unfolding double_of_def js_mul_limb js_add_def s3_def s2_def s1_def a ..
  have b3: "a3 = 0 \<or> 2 ^ 32 \<le> a3" using big [of 96 "unat (limb h t i 3)"] unfolding a by auto
  have b2: "a2 = 0 \<or> 2 ^ 32 \<le> a2" using big [of 64 "unat (limb h t i 2)"] unfolding a by auto
  have b1: "a1 = 0 \<or> 2 ^ 32 \<le> a1" using big [of 32 "unat (limb h t i 1)"] unfolding a by auto
  have b0: "a0 = 0 \<or> 1 \<le> a0" unfolding a by (cases "unat (limb h t i 0)") auto
  have e1: "\<bar>s1 - (a3 + a2)\<bar> \<le> (a3 + a2) / 2 ^ 53" "s1 = 0 \<or> 2 ^ 32 / 2 \<le> s1"
    using round_close [of "a3 + a2" "2 ^ 32"] nn b3 b2 unfolding s1_def by auto
  have p1: "0 \<le> s1" unfolding s1_def using nn by (intro f64_round_nonneg) simp
  have e2: "\<bar>s2 - (s1 + a1)\<bar> \<le> (s1 + a1) / 2 ^ 53" "s2 = 0 \<or> 2 ^ 31 / 2 \<le> s2"
    using round_close [of "s1 + a1" "2 ^ 31"] nn b1 e1(2) p1 unfolding s2_def by auto
  have p2: "0 \<le> s2" unfolding s2_def using nn p1 by (intro f64_round_nonneg) simp
  have e3: "\<bar>s3 - (s2 + a0)\<bar> \<le> (s2 + a0) / 2 ^ 53"
    using round_close [of "s2 + a0" 1] nn b0 e2(2) p2 unfolding s3_def by auto
  show ?thesis unfolding d m using e1(1) e2(1) e3 nn unfolding abs_le_iff by simp
qed

lemma double_of_nonneg: "0 \<le> double_of h t i"
  unfolding double_of_def js_mul_limb js_add_def by (intro f64_round_nonneg add_nonneg_nonneg of_nat_0_le_iff)

lemma room_slot: "length (h Scratch) = 64 \<Longrightarrow> k < 16 \<Longrightarrow> room h Scratch k"
  by (simp add: room_def)

lemma length_copy: "k < 16 \<Longrightarrow> length (h Scratch) = 64 \<Longrightarrow> length (copy Scratch k t i h Scratch) = 64"
  using copy_num(1) [OF room_slot, of h k] by (simp add: changes_def)

text \<open>Every value but the least converts, to within 2^-51 of itself, and only the scratch slot 13 changes.\<close>

lemma to_double_num:
  assumes "length (h Scratch) = 64" "num h t i \<noteq> - (2 ^ 127)"
  shows "\<exists>h' x. to_double h t i = Some (h', x) \<and> changes h h' {(Scratch, 13)} \<and> \<bar>x - of_int (num h t i)\<bar> \<le> \<bar>of_int (num h t i)\<bar> / 2 ^ 51"
proof -
  have pos: "\<bar>double_of h t i - of_int (num h t i)\<bar> \<le> \<bar>of_int (num h t i)\<bar> / 2 ^ 51" if "0 \<le> num h t i" for h t i
  proof -
    have "of_nat (magnitude h t i) = (of_int (num h t i) :: rat)" using nonneg_magnitude [OF that] by (metis of_int_of_nat_eq)
    then show ?thesis using double_of_close [of h t i] that by simp
  qed
  show ?thesis
  proof (cases "num h t i < 0")
    case False
    then show ?thesis using pos [of h t i] by (auto simp: to_double.simps [of h t i] negative_num)
  next
    case True
    define h1 where "h1 = negate Scratch 13 (copy Scratch 13 t i h)"
    have r: "room h Scratch 13" "room (copy Scratch 13 t i h) Scratch 13"
      using assms(1) by (simp_all add: room_slot length_copy)
    have c: "changes h h1 {(Scratch, 13)}" unfolding h1_def by (rule changes_again [OF copy_num(1) [OF r(1)] negate_num(1) [OF r(2)]])
    have "num h1 Scratch 13 = wrap128 (- num h t i)" unfolding h1_def by (simp add: negate_num(2) [OF r(2)] copy_num(3) [OF r(1)])
    moreover have "wrap128 (- num h t i) = - num h t i" using True num_bounds [of h t i] assms(2) by (intro wrap128_same) linarith+
    ultimately have n: "num h1 Scratch 13 = - num h t i" by simp
    then have "\<not> is_negative h1 Scratch 13" using True by (simp add: negative_num)
    then have "to_double h1 Scratch 13 = Some (h1, double_of h1 Scratch 13)" by (simp add: to_double.simps)
    then have "to_double h t i = Some (h1, - double_of h1 Scratch 13)"
      using True by (simp add: to_double.simps [of h t i] negative_num h1_def)
    moreover have "\<bar>- double_of h1 Scratch 13 - of_int (num h t i)\<bar> \<le> \<bar>of_int (num h t i)\<bar> / 2 ^ 51"
      using pos [of h1 Scratch 13] True by (simp add: n abs_minus_commute)
    ultimately show ?thesis using c by blast
  qed
qed

text \<open>The least value is its own negation, so converting it never returns.\<close>

lemma to_double_min:
  assumes "to_double h t i = Some y" "length (h Scratch) = 64"
  shows "num h t i \<noteq> - (2 ^ 127)"
  using assms(1,2)
proof (induction rule: to_double.raw_induct [rotated, consumes 1, case_names step])
  case (step f h t i y)
  show ?case
  proof (cases "num h t i < 0")
    case True
    define h1 where "h1 = negate Scratch 13 (copy Scratch 13 t i h)"
    have r: "room h Scratch 13" "room (copy Scratch 13 t i h) Scratch 13"
      using step.prems by (simp_all add: room_slot length_copy)
    obtain y' where "f h1 Scratch 13 = Some y'"
      using step.hyps True by (auto simp: negative_num h1_def bind_eq_Some_conv)
    moreover have "length (h1 Scratch) = 64"
      using changes_again [OF copy_num(1) [OF r(1), of t i] negate_num(1) [OF r(2)]] step.prems by (simp add: changes_def h1_def)
    ultimately have "num h1 Scratch 13 \<noteq> - (2 ^ 127)" by (rule step.IH)
    moreover have "num h1 Scratch 13 = wrap128 (- num h t i)" unfolding h1_def by (simp add: negate_num(2) [OF r(2)] copy_num(3) [OF r(1)])
    ultimately show ?thesis using wrap128_near(1) [of "2 ^ 127"] by auto
  qed simp
qed

subsection \<open>The correction loop\<close>

definition work :: "(array_id \<times> nat) set" where "work = {(Scratch, 10), (Scratch, 11), (Scratch, 14), (Scratch, 15)}"

lemma divide_step:
  assumes "length (h Scratch) = 64" "num h Scratch 8 = N" "num h Scratch 9 = D" "0 \<le> N" "0 < D" "D \<le> 2 ^ 126" "0 \<le> q" "q < 2 ^ 60"
  shows "\<exists>h'. changes h h' work \<and> divide_loop r (Suc k) q h =
    (if 2 ^ 127 \<le> q * D then (h', None) else if N < q * D then divide_loop r k (q - 1) h' else if D \<le> N - q * D then divide_loop r k (q + 1) h'
     else (h', Some (if r \<and> D \<le> 2 * (N - q * D) then q + 1 else q)))"
proof -
  let ?R = "N - q * D"
  define h1 where "h1 = set_number Scratch 10 q h"
  have len: "changes h' h'' S \<Longrightarrow> length (h' Scratch) = 64 \<Longrightarrow> length (h'' Scratch) = 64" for h' h'' S by (simp add: changes_def)
  have q: "\<bar>q\<bar> < 2 ^ 64" using assms(7,8) by simp
  have s: "changes h h1 {(Scratch, 10)}" "num h1 Scratch 10 = q"
    using set_number_num [OF _ q, of h Scratch 10] assms(1) by (simp_all add: h1_def room_def)
  have l1: "length (h1 Scratch) = 64" by (rule len [OF s(1) assms(1)])
  obtain h2 o2 where m: "multiply_to Scratch 11 Scratch 10 Scratch 9 h1 = (h2, o2)" by fastforce
  have n1: "num h1 Scratch 8 = N" "num h1 Scratch 9 = D" using changes_frame(2) [OF s(1)] assms(2,3) by simp_all
  have b: "(Scratch, 9 :: nat) \<noteq> (Scratch, 14)" by simp
  have mm: "changes h1 h2 {(Scratch, 11), (Scratch, 14), (Scratch, 15)}" "o2 \<longleftrightarrow> q * D < 2 ^ 127" "o2 \<Longrightarrow> num h2 Scratch 11 = q * D"
    using multiply_num [OF _ l1 b m] l1 s(2) n1 assms(5,7) by (simp_all add: abs_mult room_def)
  have l2: "length (h2 Scratch) = 64" by (rule len [OF mm(1) l1])
  have n2: "num h2 Scratch 8 = N" "num h2 Scratch 9 = D" using changes_frame(2) [OF mm(1)] n1 by simp_all
  have c2: "changes h h2 work" using changes_mono [OF changes_trans [OF s(1) mm(1)]] by (simp add: work_def)
  show ?thesis
  proof (cases o2)
    case False
    then show ?thesis using c2 mm(2) m by (auto simp: h1_def)
  next
    case ok: True
    obtain h3 o3 where a: "add_to Scratch 11 Scratch 8 Scratch 11 True h2 = (h3, o3)" by fastforce
    have p: "0 \<le> q * D" "q * D < 2 ^ 127" using mm(2) ok assms(5,7) by simp_all
    then have small: "- (2 ^ 127) \<le> ?R" "?R < 2 ^ 127" using assms(2,4) num_bounds [of h Scratch 8] by linarith+
    have aa: "changes h2 h3 {(Scratch, 11)}" "num h3 Scratch 11 = ?R" o3
      using add_num [OF _ a] l2 n2 mm(3) [OF ok] small wrap128_same [of ?R] by (simp_all add: room_def)
    have l3: "length (h3 Scratch) = 64" by (rule len [OF aa(1) l2])
    have n3: "num h3 Scratch 9 = D" using changes_frame(2) [OF aa(1)] n2 by simp
    have c3: "changes h h3 work" using changes_mono [OF changes_trans [OF c2 aa(1)]] by (simp add: work_def insert_absorb)
    have d: "divide_loop r (Suc k) q h = (if ?R < 0 then divide_loop r k (q - 1) h3 else if D \<le> ?R then divide_loop r k (q + 1) h3
        else if r then let (h, _) = add_to Scratch 11 Scratch 11 Scratch 11 False h3 in (h, Some (if 0 \<le> compare h Scratch 11 Scratch 9 then q + 1 else q))
        else (h3, Some q))"
      using m a ok aa(3) by (simp add: h1_def negative_num aa(2) compare_num n3)
    show ?thesis
    proof (cases "0 \<le> ?R \<and> ?R < D \<and> r")
      case False
      then show ?thesis using c3 mm(2) ok unfolding d by auto
    next
      case True
      obtain h4 o4 where a4: "add_to Scratch 11 Scratch 11 Scratch 11 False h3 = (h4, o4)" by fastforce
      have "0 \<le> ?R" "?R < 2 ^ 126" using True assms(6) by linarith+
      moreover have "wrap128 (x + x) = x + x" if "0 \<le> x" "x < 2 ^ 126" for x using that by (intro wrap128_same) simp_all
      ultimately have "wrap128 (?R + ?R) = ?R + ?R" by blast
      then have a5: "changes h3 h4 {(Scratch, 11)}" "num h4 Scratch 11 = 2 * ?R"
        using add_num [OF _ a4] l3 aa(2) by (simp_all add: room_def)
      have n4: "num h4 Scratch 9 = D" using changes_frame(2) [OF a5(1)] n3 by simp
      have c4: "changes h h4 work" using changes_mono [OF changes_trans [OF c3 a5(1)]] by (simp add: work_def insert_absorb)
      have "divide_loop r (Suc k) q h = (h4, Some (if D \<le> 2 * ?R then q + 1 else q))"
        using True unfolding d a4 by (simp add: compare_num a5(2) n4)
      then show ?thesis using c4 True mm(2) ok by auto
    qed
  qed
qed

definition rounded :: "bool \<Rightarrow> int \<Rightarrow> int \<Rightarrow> int" where
  "rounded r n d = n div d + (if r \<and> d \<le> 2 * (n mod d) then 1 else 0)"

text \<open>The quotient of two integers, truncated toward zero or rounded half away from it.\<close>

definition int_quotient :: "bool \<Rightarrow> int \<Rightarrow> int \<Rightarrow> int" where
  "int_quotient r n d = (if (n < 0) \<noteq> (d < 0) then - rounded r \<bar>n\<bar> \<bar>d\<bar> else rounded r \<bar>n\<bar> \<bar>d\<bar>)"

lemma div_by_remainder: "0 < d \<Longrightarrow> 0 \<le> n - q * d \<Longrightarrow> n - q * d < d \<Longrightarrow> n div d = q \<and> n mod d = n - q * (d :: int)"
proof -
  assume a: "0 < d" "0 \<le> n - q * d" "n - q * d < d"
  have "n div d = q" using a int_div_pos_eq [of n d q "n - q * d"] by simp
  then show ?thesis using minus_div_mult_eq_mod [of n d] by simp
qed

definition dividing :: "store \<Rightarrow> int \<Rightarrow> int \<Rightarrow> bool" where
  "dividing h N D \<longleftrightarrow> length (h Scratch) = 64 \<and> num h Scratch 8 = N \<and> num h Scratch 9 = D \<and> 0 \<le> N \<and> 0 < D \<and> D \<le> 2 ^ 126"

lemma dividing_step:
  assumes "dividing h N D" "0 \<le> q" "q < 2 ^ 60"
  obtains h' where "changes h h' work" "dividing h' N D" "divide_loop r (Suc k) q h =
    (if 2 ^ 127 \<le> q * D then (h', None) else if N < q * D then divide_loop r k (q - 1) h' else if D \<le> N - q * D then divide_loop r k (q + 1) h'
     else (h', Some (rounded r N D)))"
proof -
  note w = assms(1) [unfolded dividing_def]
  obtain h' where h': "changes h h' work" "divide_loop r (Suc k) q h =
    (if 2 ^ 127 \<le> q * D then (h', None) else if N < q * D then divide_loop r k (q - 1) h' else if D \<le> N - q * D then divide_loop r k (q + 1) h'
     else (h', Some (if r \<and> D \<le> 2 * (N - q * D) then q + 1 else q)))"
    using divide_step [of h N D q r k] w assms(2,3) by blast
  have e: "(if r \<and> D \<le> 2 * (N - q * D) then q + 1 else q) = rounded r N D" if "\<not> N < q * D" "\<not> D \<le> N - q * D"
    using div_by_remainder [of D N q] that w by (simp add: rounded_def)
  have "dividing h' N D" using w changes_frame(2) [OF h'(1)] h'(1) by (simp add: dividing_def work_def changes_def)
  then show thesis by (rule that [OF h'(1)]) (unfold h'(2), use e in auto)
qed

lemma multiple_less: assumes "0 < (D::int)" shows "N < q * D \<longleftrightarrow> N div D < q"
proof -
  have n: "N = N div D * D + N mod D" by simp
  have m: "0 \<le> N mod D" "N mod D < D" using assms by simp_all
  show ?thesis
  proof (cases "N div D < q")
    case True
    then have "(N div D + 1) * D \<le> q * D" using assms by (intro mult_right_mono) auto
    then have "N div D * D + D \<le> q * D" by (simp add: distrib_right)
    then show ?thesis using True n m by linarith
  next
    case False
    then have "q * D \<le> N div D * D" using assms by (intro mult_right_mono) auto
    then show ?thesis using False n m by linarith
  qed
qed

lemma multiple_above: assumes "0 < (D::int)" shows "D \<le> N - q * D \<longleftrightarrow> q < N div D"
  using multiple_less [OF assms, of N "q + 1"] by (auto simp: distrib_right)

lemma loop_sound:
  "dividing h N D \<Longrightarrow> 0 \<le> q \<Longrightarrow> q + int k < 2 ^ 60 \<Longrightarrow> divide_loop r k q h = (h', found) \<Longrightarrow>
    changes h h' work \<and> (\<forall>q'. found = Some q' \<longrightarrow> q' = rounded r N D \<and> N div D < 2 ^ 60)"
proof (induction k arbitrary: q h)
  case (Suc k)
  obtain h1 where h1: "changes h h1 work" "dividing h1 N D" "divide_loop r (Suc k) q h =
    (if 2 ^ 127 \<le> q * D then (h1, None) else if N < q * D then divide_loop r k (q - 1) h1 else if D \<le> N - q * D then divide_loop r k (q + 1) h1
     else (h1, Some (rounded r N D)))"
    using dividing_step [OF Suc.prems(1,2)] Suc.prems(3) by auto
  have pos: "0 \<le> q - 1" if "N < q * D" using that Suc.prems(1,2) by (cases "q = 0") (simp_all add: dividing_def)
  consider (over) "2 ^ 127 \<le> q * D" | (down) "\<not> 2 ^ 127 \<le> q * D" "N < q * D" | (up) "\<not> 2 ^ 127 \<le> q * D" "\<not> N < q * D" "D \<le> N - q * D"
    | (found) "\<not> 2 ^ 127 \<le> q * D" "\<not> N < q * D" "\<not> D \<le> N - q * D" by blast
  then show ?case
  proof cases
    case down
    then have "divide_loop r k (q - 1) h1 = (h', found)" using h1(3) Suc.prems(4) by simp
    then show ?thesis using Suc.IH [OF h1(2) pos [OF down(2)]] Suc.prems(3) changes_again [OF h1(1)] by auto
  next
    case up
    then have "divide_loop r k (q + 1) h1 = (h', found)" using h1(3) Suc.prems(4) by simp
    then show ?thesis using Suc.IH [OF h1(2), of "q + 1"] Suc.prems(2,3) changes_again [OF h1(1)] by auto
  next
    case found
    have "0 < D" using Suc.prems(1) by (simp add: dividing_def)
    then have "N div D = q" using found multiple_less [of D N q] multiple_above [of D N q] by linarith
    then show ?thesis using found h1 Suc.prems(3,4) by auto
  qed (use h1 Suc.prems(4) in auto)
qed simp

text \<open>An estimate off by less than the attempts left is corrected.\<close>

lemma loop_complete:
  "dividing h N D \<Longrightarrow> 0 \<le> q \<Longrightarrow> q + int k < 2 ^ 60 \<Longrightarrow> \<bar>q - N div D\<bar> < int k \<Longrightarrow> (N div D + int k) * D < 2 ^ 127 \<Longrightarrow>
    \<exists>h'. divide_loop r k q h = (h', Some (rounded r N D))"
proof (induction k arbitrary: q h)
  case (Suc k)
  obtain h1 where h1: "changes h h1 work" "dividing h1 N D" "divide_loop r (Suc k) q h =
    (if 2 ^ 127 \<le> q * D then (h1, None) else if N < q * D then divide_loop r k (q - 1) h1 else if D \<le> N - q * D then divide_loop r k (q + 1) h1
     else (h1, Some (rounded r N D)))"
    using dividing_step [OF Suc.prems(1,2)] Suc.prems(3) by auto
  have D: "0 < D" using Suc.prems(1) by (simp add: dividing_def)
  have "q * D \<le> (N div D + int (Suc k)) * D" using Suc.prems(4) D by (intro mult_right_mono) auto
  then have fits: "\<not> 2 ^ 127 \<le> q * D" using Suc.prems(5) by linarith
  have rest: "(N div D + int k) * D < 2 ^ 127"
    by (rule le_less_trans [OF mult_right_mono Suc.prems(5)]) (use D in auto)
  have below: "N < q * D \<longleftrightarrow> N div D < q" using D by (rule multiple_less)
  have above: "D \<le> N - q * D \<longleftrightarrow> q < N div D" using D by (rule multiple_above)
  have pos: "0 \<le> q - 1" if "N < q * D" using that Suc.prems(1,2) by (cases "q = 0") (simp_all add: dividing_def)
  show ?case
  proof (cases "N < q * D")
    case True
    then have "\<exists>h'. divide_loop r k (q - 1) h1 = (h', Some (rounded r N D))"
      using Suc.IH [OF h1(2) pos [OF True] _ _ rest] Suc.prems(3,4) below by auto
    then show ?thesis using h1(3) fits True by simp
  next
    case False
    show ?thesis
    proof (cases "D \<le> N - q * D")
      case True
      then have "\<exists>h'. divide_loop r k (q + 1) h1 = (h', Some (rounded r N D))"
        using Suc.IH [OF h1(2) _ _ _ rest, of "q + 1"] Suc.prems(2,3,4) above by auto
      then show ?thesis using h1(3) fits False True by simp
    qed (use h1(3) fits False in auto)
  qed
qed simp

subsection \<open>Division\<close>

definition callers :: "array_id \<Rightarrow> nat \<Rightarrow> bool" where "callers t i \<longleftrightarrow> (t = Scratch \<longrightarrow> i < 8)"

definition slots :: "(array_id \<times> nat) set" where "slots = {Scratch} \<times> {8..15}"

lemma quotient_close:
  fixes x y :: rat and n d :: int
  assumes "\<bar>x - of_int n\<bar> \<le> \<bar>of_int n\<bar> / 2 ^ 51" "\<bar>y - of_int d\<bar> \<le> \<bar>of_int d\<bar> / 2 ^ 51" "d \<noteq> 0" "\<bar>n\<bar> < 2 ^ 50 * \<bar>d\<bar>"
  shows "\<bar>\<bar>js_div x y\<bar> - of_int \<bar>n\<bar> / of_int \<bar>d\<bar>\<bar> < 2"
proof -
  define N D :: rat where "N = of_int n" and "D = of_int d"
  have D: "0 < \<bar>D\<bar>" using assms(3) by (simp add: D_def)
  have "\<bar>D\<bar> \<le> \<bar>y\<bar> + \<bar>y - D\<bar>" by linarith
  then have y: "\<bar>D\<bar> * (1 - 1 / 2 ^ 51) \<le> \<bar>y\<bar>" using assms(2) unfolding D_def [symmetric] by simp
  then have y0: "0 < \<bar>y\<bar>" using D by simp
  define Q where "Q = \<bar>N\<bar> / \<bar>D\<bar>"
  have "\<bar>N\<bar> < 2 ^ 50 * \<bar>D\<bar>" 
    using of_int_less_iff [of "\<bar>n\<bar>" "2 ^ 50 * \<bar>d\<bar>", where 'a = rat] assms(4) unfolding N_def D_def by simp
  then have Q: "0 \<le> Q" "Q < 2 ^ 50" "Q * \<bar>D\<bar> = \<bar>N\<bar>" using D by (simp_all add: Q_def pos_divide_less_eq)
  have num: "\<bar>x * D - N * y\<bar> \<le> 2 * (\<bar>N\<bar> * \<bar>D\<bar>) / 2 ^ 51"
  proof -
    have "x * D - N * y = (x - N) * D - N * (y - D)" by (simp add: algebra_simps)
    then have "\<bar>x * D - N * y\<bar> \<le> \<bar>x - N\<bar> * \<bar>D\<bar> + \<bar>N\<bar> * \<bar>y - D\<bar>" using abs_triangle_ineq4 [of "(x - N) * D" "N * (y - D)"] by (simp only: abs_mult)
    also have "\<dots> \<le> \<bar>N\<bar> / 2 ^ 51 * \<bar>D\<bar> + \<bar>N\<bar> * (\<bar>D\<bar> / 2 ^ 51)"
      using assms(1,2) unfolding N_def [symmetric] D_def [symmetric] by (intro add_mono mult_mono) auto
    finally show ?thesis by simp
  qed
  have "x / y - N / D = (x * D - N * y) / (y * D)" using D y0 by (simp add: field_simps)
  then have "\<bar>x / y - N / D\<bar> = \<bar>x * D - N * y\<bar> / (\<bar>y\<bar> * \<bar>D\<bar>)" by (simp add: abs_mult)
  also have "\<dots> \<le> 2 * (\<bar>N\<bar> * \<bar>D\<bar>) / 2 ^ 51 / (\<bar>D\<bar> * (1 - 1 / 2 ^ 51) * \<bar>D\<bar>)"
    using num y D by (intro frac_le mult_right_mono) auto
  also have "\<dots> = Q * (2 / 2 ^ 51 / (1 - 1 / 2 ^ 51))" using D by (simp add: Q_def field_simps)
  also have "\<dots> \<le> Q * (3 / 2 ^ 51)" using Q(1) by (intro mult_left_mono) simp_all
  finally have e: "\<bar>x / y - N / D\<bar> \<le> Q * (3 / 2 ^ 51)" .
  have q: "\<bar>N / D\<bar> = Q" by (simp add: Q_def)
  have "\<bar>js_div x y - x / y\<bar> \<le> (\<bar>x / y\<bar> + 1) / 2 ^ 53" unfolding js_div_def by (rule f64_round_close)
  moreover have "\<bar>\<bar>r\<bar> - Q\<bar> < 2" if "\<bar>r - v\<bar> \<le> (\<bar>v\<bar> + 1) / 2 ^ 53" "\<bar>v - w\<bar> \<le> Q * (3 / 2 ^ 51)" "\<bar>w\<bar> = Q" for r v w
  proof -
    have "\<bar>v - w\<bar> \<le> 3 / 2" using that(2) Q(2) by simp
    moreover have "\<bar>v\<bar> \<le> Q + \<bar>v - w\<bar>" using that(3) by linarith
    ultimately have "(\<bar>v\<bar> + 1) / 2 ^ 53 \<le> 1 / 4" using Q(2) by simp
    then show ?thesis using that(1,3) \<open>\<bar>v - w\<bar> \<le> 3 / 2\<close> by linarith
  qed
  ultimately have "\<bar>\<bar>js_div x y\<bar> - Q\<bar> < 2" using e q by blast
  then show ?thesis by (simp add: Q_def N_def D_def)
qed

lemma negate_if:
  assumes "length (h Scratch) = 64" "k < 16" "num h Scratch k \<noteq> - (2 ^ 127)"
  defines "h' \<equiv> if is_negative h Scratch k then negate Scratch k h else h"
  shows "changes h h' {(Scratch, k)}" "num h' Scratch k = \<bar>num h Scratch k\<bar>" "length (h' Scratch) = 64"
proof -
  note r = room_slot [of h k, OF assms(1,2)]
  show c: "changes h h' {(Scratch, k)}" using negate_num(1) [OF r] by (simp add: h'_def)
  show "length (h' Scratch) = 64" using c assms(1) by (simp add: changes_def)
  have "wrap128 (- num h Scratch k) = - num h Scratch k" if "num h Scratch k < 0"
    using that assms(3) num_bounds [of h Scratch k] by (intro wrap128_same) linarith+
  then show "num h' Scratch k = \<bar>num h Scratch k\<bar>" using negate_num(2) [OF r] by (simp add: h'_def negative_num)
qed

lemma prepare:
  assumes "length (h Scratch) = 64" "callers n ni" "callers d di" "num h n ni \<noteq> - (2 ^ 127)" "num h d di \<noteq> 0" "\<bar>num h d di\<bar> \<le> 2 ^ 126"
  defines "h2 \<equiv> copy Scratch 9 d di (copy Scratch 8 n ni h)"
  defines "h3 \<equiv> if is_negative h2 Scratch 8 then negate Scratch 8 h2 else h2"
  defines "h4 \<equiv> if is_negative h2 Scratch 9 then negate Scratch 9 h3 else h3"
  shows "changes h h4 slots" "dividing h4 \<bar>num h n ni\<bar> \<bar>num h d di\<bar>"
    "is_negative h2 Scratch 8 \<longleftrightarrow> num h n ni < 0" "is_negative h2 Scratch 9 \<longleftrightarrow> num h d di < 0"
proof -
  define h1 where "h1 = copy Scratch 8 n ni h"
  have r8: "room h Scratch 8" by (rule room_slot) (use assms(1) in auto)
  note c1 = copy_num [OF r8, of n ni, folded h1_def]
  have l1: "length (h1 Scratch) = 64" using c1(1) assms(1) by (simp add: changes_def)
  have r9: "room h1 Scratch 9" by (rule room_slot) (use l1 in auto)
  note c2 = copy_num [OF r9, of d di]
  have h2: "h2 = copy Scratch 9 d di h1" by (simp add: h2_def h1_def)
  note c2 = c2 [folded h2]
  have l2: "length (h2 Scratch) = 64" using c2(1) l1 by (simp add: changes_def)
  have n8: "num h2 Scratch 8 = num h n ni" using changes_frame(2) [OF c2(1), of Scratch 8] c1(3) by simp
  have n9: "num h2 Scratch 9 = num h d di" using changes_frame(2) [OF c1(1), of d di] c2(3) assms(3) by (auto simp: callers_def)
  show "is_negative h2 Scratch 8 \<longleftrightarrow> num h n ni < 0" "is_negative h2 Scratch 9 \<longleftrightarrow> num h d di < 0"
    by (simp_all add: negative_num n8 n9)
  have "num h2 Scratch 8 \<noteq> - (2 ^ 127)" using n8 assms(4) by simp
  then have c3: "changes h2 h3 {(Scratch, 8)}" "num h3 Scratch 8 = \<bar>num h n ni\<bar>" "length (h3 Scratch) = 64"
    unfolding h3_def by (simp_all add: negate_if [of h2, OF l2] n8)
  have same: "is_negative h2 Scratch 9 = is_negative h3 Scratch 9" "num h3 Scratch 9 = num h d di" using changes_frame [OF c3(1), of Scratch 9] n9 by simp_all
  then have "num h3 Scratch 9 \<noteq> - (2 ^ 127)" using assms(6) by auto
  then have c4: "changes h3 h4 {(Scratch, 9)}" "num h4 Scratch 9 = \<bar>num h d di\<bar>" "length (h4 Scratch) = 64"
    unfolding h4_def same by (simp_all add: negate_if [of h3, OF c3(3)] same)
  have "num h4 Scratch 8 = \<bar>num h n ni\<bar>" using changes_frame(2) [OF c4(1), of Scratch 8] c3(2) by simp
  then show "dividing h4 \<bar>num h n ni\<bar> \<bar>num h d di\<bar>" using c4(2,3) assms(5,6) by (simp add: dividing_def)
  show "changes h h4 slots"
    by (rule changes_mono [OF changes_trans [OF changes_trans [OF changes_trans [OF c1(1) c2(1)] c3(1)] c4(1)]]) (auto simp: slots_def)
qed

lemma callers_slot: "callers t i \<Longrightarrow> (t, i) \<notin> slots"
  by (auto simp: callers_def slots_def)

lemma rounded_bound: "0 \<le> N \<Longrightarrow> 0 < D \<Longrightarrow> 0 \<le> rounded r N D \<and> rounded r N D \<le> N div D + 1"
  by (simp add: rounded_def pos_imp_zdiv_nonneg_iff)

text \<open>The end of the routine, from the estimate on.\<close>

definition correct :: "array_id \<Rightarrow> nat \<Rightarrow> array_id \<Rightarrow> nat \<Rightarrow> array_id \<Rightarrow> nat \<Rightarrow> bool \<Rightarrow> int \<Rightarrow> store \<Rightarrow> (store \<times> bool) option" where
  "correct t to n ni d di round' estimate h =
     (let h = copy Scratch 8 n ni h;
          h = copy Scratch 9 d di h;
          neg_n = is_negative h Scratch 8; neg_d = is_negative h Scratch 9;
          h = (if neg_n then negate Scratch 8 h else h);
          h = (if neg_d then negate Scratch 9 h else h)
      in case divide_loop round' 4 \<bar>estimate\<bar> h of
           (h, None) \<Rightarrow> Some (h, False)
         | (h, Some q) \<Rightarrow> let h = set_number t to q h in Some (if neg_n \<noteq> neg_d then negate t to h else h, True))"

lemma correct_num:
  assumes "length (h Scratch) = 64" "room h t to" "callers n ni" "callers d di" "num h n ni \<noteq> - (2 ^ 127)" "num h d di \<noteq> 0" "\<bar>num h d di\<bar> \<le> 2 ^ 126"
    "\<bar>e\<bar> < 2 ^ 50"
  shows "\<exists>h' ok. correct t to n ni d di r e h = Some (h', ok) \<and> changes h h' (insert (t, to) slots)
    \<and> (ok \<longrightarrow> num h' t to = int_quotient r (num h n ni) (num h d di))
    \<and> (\<bar>\<bar>e\<bar> - \<bar>num h n ni\<bar> div \<bar>num h d di\<bar>\<bar> < 4 \<longrightarrow> \<bar>num h n ni\<bar> + 4 * \<bar>num h d di\<bar> < 2 ^ 127 \<longrightarrow> ok)"
proof -
  let ?N = "\<bar>num h n ni\<bar>" and ?D = "\<bar>num h d di\<bar>"
  define h2 where "h2 = copy Scratch 9 d di (copy Scratch 8 n ni h)"
  define h3 where "h3 = (if is_negative h2 Scratch 8 then negate Scratch 8 h2 else h2)"
  define h4 where "h4 = (if is_negative h2 Scratch 9 then negate Scratch 9 h3 else h3)"
  note p = prepare [OF assms(1,3-7), folded h2_def, folded h3_def, folded h4_def]
  obtain h5 found where l: "divide_loop r 4 \<bar>e\<bar> h4 = (h5, found)" by fastforce
  have s: "changes h4 h5 work \<and> (\<forall>q'. found = Some q' \<longrightarrow> q' = rounded r ?N ?D \<and> ?N div ?D < 2 ^ 60)"
    by (rule loop_sound [OF p(2) _ _ l]) (use assms(8) in auto)
  have c5: "changes h h5 (insert (t, to) slots)"
    by (rule changes_mono [OF changes_trans [OF p(1)]]) (use s in \<open>auto simp: slots_def work_def\<close>)
  have unfolded: "correct t to n ni d di r e h = (case found of None \<Rightarrow> Some (h5, False)
      | Some q \<Rightarrow> let h = set_number t to q h5 in Some (if is_negative h2 Scratch 8 \<noteq> is_negative h2 Scratch 9 then negate t to h else h, True))"
    unfolding correct_def Let_def h2_def [symmetric] h3_def [symmetric] h4_def [symmetric] l by (simp split: option.splits)
  have D: "0 < ?D" using assms(6) by simp
  show ?thesis
  proof (cases found)
    case None
    have "\<not> (\<bar>\<bar>e\<bar> - ?N div ?D\<bar> < 4 \<and> ?N + 4 * ?D < 2 ^ 127)"
    proof
      assume a: "\<bar>\<bar>e\<bar> - ?N div ?D\<bar> < 4 \<and> ?N + 4 * ?D < 2 ^ 127"
      have "?N div ?D * ?D \<le> ?N" using div_mult_mod_eq [of ?N ?D] D pos_mod_sign [of ?D ?N] by linarith
      then have "(?N div ?D + int 4) * ?D < 2 ^ 127" using a by (simp add: distrib_right)
      then show False using loop_complete [OF p(2), of "\<bar>e\<bar>" 4 r] a assms(8) l None by auto
    qed
    then show ?thesis using unfolded None c5 by auto
  next
    case (Some q)
    define h6 where "h6 = set_number t to q h5"
    define h7 where "h7 = (if is_negative h2 Scratch 8 \<noteq> is_negative h2 Scratch 9 then negate t to h6 else h6)"
    have q: "q = rounded r ?N ?D" using s Some by blast
    have "0 \<le> q \<and> q \<le> ?N div ?D + 1" unfolding q by (rule rounded_bound) (use D in auto)
    then have b: "0 \<le> q" "q \<le> 2 ^ 60" using s Some by auto
    have r5: "room h5 t to" using changes_room [OF c5] assms(2) by simp
    have a6: "changes h5 h6 {(t, to)}" "num h6 t to = q" unfolding h6_def using set_number_num [OF r5, of q] b by simp_all
    have r6: "room h6 t to" using changes_room [OF a6(1)] r5 by simp
    have a7: "changes h6 h7 {(t, to)}" "num h7 t to = int_quotient r (num h n ni) (num h d di)"
      using negate_num(1,2) [OF r6] a6(2) b wrap128_same [of "- q"] by (simp_all add: h7_def p(3,4) int_quotient_def q)
    have "changes h h7 (insert (t, to) slots)"
      by (rule changes_mono [OF changes_trans [OF changes_trans [OF c5 a6(1)] a7(1)]]) auto
    moreover have "correct t to n ni d di r e h = Some (h7, True)" using unfolded Some by (simp add: h6_def h7_def Let_def)
    ultimately show ?thesis using a7(2) by blast
  qed
qed

lemma divide_steps:
  assumes "to_double h n ni = Some (h1, x)" "to_double h1 d di = Some (h2, y)" "to_double h2 d di = Some (h3, z)" "y \<noteq> 0"
  shows "divide_to t to n ni d di r h = (if \<not> \<bar>js_trunc (js_div x y)\<bar> < 2 ^ 50 then Some (h2, False) else if 2 ^ 125 \<le> \<bar>z\<bar> then Some (h3, False)
    else correct t to n ni d di r (js_trunc (js_div x y)) h3)"
  unfolding divide_to_def correct_def Let_def assms(1) bind.simps prod.case assms(2,3) using assms(4) by simp

lemma divide_cases:
  assumes "length (h Scratch) = 64" "room h t to" "callers n ni" "callers d di" "num h n ni \<noteq> - (2 ^ 127)" "num h d di \<noteq> - (2 ^ 127)" "num h d di \<noteq> 0"
  shows "\<exists>h' ok. divide_to t to n ni d di r h = Some (h', ok) \<and> changes h h' (insert (t, to) slots)
    \<and> (ok \<longrightarrow> num h' t to = int_quotient r (num h n ni) (num h d di))
    \<and> (\<bar>num h d di\<bar> < 2 ^ 124 \<longrightarrow> \<bar>num h n ni\<bar> < (2 ^ 50 - 2) * \<bar>num h d di\<bar> \<longrightarrow> \<bar>num h n ni\<bar> + 4 * \<bar>num h d di\<bar> < 2 ^ 127 \<longrightarrow> ok)"
proof -
  define N D where "N = num h n ni" and "D = num h d di"
  obtain h1 x where x: "to_double h n ni = Some (h1, x)" "changes h h1 {(Scratch, 13)}" "\<bar>x - of_int N\<bar> \<le> \<bar>of_int N\<bar> / 2 ^ 51"
    using to_double_num [of h n ni, OF assms(1,5)] unfolding N_def by blast
  have l1: "length (h1 Scratch) = 64" using x(2) assms(1) by (simp add: changes_def)
  have fr: "callers u i \<Longrightarrow> num h' u i = num h u i" if "changes h h' slots" for u i h'
    using changes_frame(2) [OF that callers_slot] .
  have s1: "changes h h1 slots" by (rule changes_mono [OF x(2)]) (simp add: slots_def)
  obtain h2 y where y: "to_double h1 d di = Some (h2, y)" "changes h1 h2 {(Scratch, 13)}" "\<bar>y - of_int D\<bar> \<le> \<bar>of_int D\<bar> / 2 ^ 51"
    using to_double_num [of h1 d di, OF l1] fr [OF s1 assms(4)] assms(6) unfolding D_def by auto
  have l2: "length (h2 Scratch) = 64" using y(2) l1 by (simp add: changes_def)
  have s2: "changes h h2 slots" by (rule changes_mono [OF changes_trans [OF x(2) y(2)]]) (simp add: slots_def)
  obtain h3 z where z: "to_double h2 d di = Some (h3, z)" "changes h2 h3 {(Scratch, 13)}" "\<bar>z - of_int D\<bar> \<le> \<bar>of_int D\<bar> / 2 ^ 51"
    using to_double_num [of h2 d di, OF l2] fr [OF s2 assms(4)] assms(6) unfolding D_def by auto
  have l3: "length (h3 Scratch) = 64" using z(2) l2 by (simp add: changes_def)
  have s3: "changes h h3 slots" by (rule changes_mono [OF changes_trans [OF s2 z(2)]]) (simp add: slots_def)
  have D: "1 \<le> \<bar>of_int D :: rat\<bar>" using assms(7) of_int_le_iff [of 1 "\<bar>D\<bar>", where 'a = rat] by (simp add: D_def)
  have y0: "y \<noteq> 0" using y(3) D by auto
  let ?e = "js_trunc (js_div x y)"
  define easy where "easy \<longleftrightarrow> \<bar>D\<bar> < 2 ^ 124 \<and> \<bar>N\<bar> < (2 ^ 50 - 2) * \<bar>D\<bar>"
  have near: "\<bar>\<bar>?e\<bar> - \<bar>N\<bar> div \<bar>D\<bar>\<bar> < 4 \<and> \<bar>?e\<bar> < 2 ^ 50 \<and> \<bar>z\<bar> < 2 ^ 125" if easy
  proof -
    have n: "\<bar>N\<bar> < (2 ^ 50 - 2) * \<bar>D\<bar>" using that by (simp add: easy_def)
    then have "\<bar>N\<bar> < 2 ^ 50 * \<bar>D\<bar>" by (simp add: algebra_simps)
    then have c: "\<bar>\<bar>js_div x y\<bar> - of_int \<bar>N\<bar> / of_int \<bar>D\<bar>\<bar> < 2" using quotient_close [OF x(3) y(3)] assms(7) by (simp add: D_def)
    have fl: "\<lfloor>of_int \<bar>N\<bar> / of_int \<bar>D\<bar> :: rat\<rfloor> = \<bar>N\<bar> div \<bar>D\<bar>" by (rule floor_divide_of_int_eq)
    have eb: "\<bar>\<bar>?e\<bar> - \<bar>N\<bar> div \<bar>D\<bar>\<bar> < 4" unfolding js_trunc_abs fl [symmetric] using c by linarith
    have "of_int \<bar>N\<bar> / of_int \<bar>D\<bar> < (2 ^ 50 - 2 :: rat)"
    proof -
      have "of_int \<bar>N\<bar> < (2 ^ 50 - 2 :: rat) * of_int \<bar>D\<bar>"
        using n of_int_less_iff [of "\<bar>N\<bar>" "(2 ^ 50 - 2) * \<bar>D\<bar>", where 'a = rat] by simp
      then show ?thesis using D by (simp add: pos_divide_less_eq)
    qed
    then have "\<bar>js_div x y\<bar> < 2 ^ 50" using c by linarith
    then have el: "\<bar>?e\<bar> < 2 ^ 50" unfolding js_trunc_abs by (simp add: floor_less_iff)
    have "\<bar>of_int D :: rat\<bar> < 2 ^ 124"
      using that of_int_less_iff [of "\<bar>D\<bar>" "2 ^ 124", where 'a = rat] by (simp add: easy_def)
    moreover have "\<bar>z\<bar> \<le> \<bar>of_int D\<bar> + \<bar>z - of_int D\<bar>" by linarith
    ultimately have zb: "\<bar>z\<bar> < 2 ^ 125" using z(3) by simp
    show ?thesis using eb el zb by blast
  qed
  show ?thesis
  proof (cases "\<bar>?e\<bar> < 2 ^ 50 \<and> \<bar>z\<bar> < 2 ^ 125")
    case False
    then have "divide_to t to n ni d di r h = Some (if \<bar>?e\<bar> < 2 ^ 50 then h3 else h2, False)"
      by (auto simp: divide_steps [OF x(1) y(1) z(1) y0])
    moreover have "\<not> easy" using False near by blast
    moreover have "changes h (if \<bar>?e\<bar> < 2 ^ 50 then h3 else h2) (insert (t, to) slots)"
      using changes_mono [OF s2 subset_insertI] changes_mono [OF s3 subset_insertI] by simp
    ultimately show ?thesis unfolding easy_def N_def D_def by blast
  next
    case True
    then have e: "divide_to t to n ni d di r h = correct t to n ni d di r ?e h3"
      by (simp add: divide_steps [OF x(1) y(1) z(1) y0])
    have nd: "num h3 n ni = N" "num h3 d di = D" using fr [OF s3] assms(3,4) by (simp_all add: N_def D_def)
    have "\<bar>of_int D :: rat\<bar> \<le> \<bar>z\<bar> + \<bar>z - of_int D\<bar>" by linarith
    then have "\<bar>of_int D :: rat\<bar> \<le> 2 ^ 126" using z(3) True by simp
    then have dl: "\<bar>D\<bar> \<le> 2 ^ 126" using of_int_le_iff [of "\<bar>D\<bar>" "2 ^ 126", where 'a = rat] by simp
    have r3: "room h3 t to" using changes_room [OF s3] assms(2) by simp
    obtain h' ok where k: "correct t to n ni d di r ?e h3 = Some (h', ok)" "changes h3 h' (insert (t, to) slots)"
      "ok \<longrightarrow> num h' t to = int_quotient r N D" "\<bar>\<bar>?e\<bar> - \<bar>N\<bar> div \<bar>D\<bar>\<bar> < 4 \<longrightarrow> \<bar>N\<bar> + 4 * \<bar>D\<bar> < 2 ^ 127 \<longrightarrow> ok"
      using correct_num [OF l3 r3 assms(3,4), of ?e r] True dl assms(5,7) unfolding nd N_def [symmetric] D_def [symmetric] by blast
    have "changes h h' (insert (t, to) slots)" by (rule changes_mono [OF changes_trans [OF s3 k(2)]]) auto
    then show ?thesis using e k near unfolding easy_def N_def D_def by auto
  qed
qed

lemma to_double_least: "length (h Scratch) = 64 \<Longrightarrow> num h t i = - (2 ^ 127) \<Longrightarrow> to_double h t i = None"
  using to_double_min by (cases "to_double h t i") auto

lemma divide_least:
  assumes "length (h Scratch) = 64" "callers d di" "num h n ni = - (2 ^ 127) \<or> num h d di = - (2 ^ 127)"
  shows "divide_to t to n ni d di r h = None"
proof (cases "num h n ni = - (2 ^ 127)")
  case True
  then show ?thesis using to_double_least [of h n ni, OF assms(1)] by (simp add: divide_to_def)
next
  case False
  then obtain h1 x where x: "to_double h n ni = Some (h1, x)" "changes h h1 {(Scratch, 13)}" using to_double_num [of h n ni, OF assms(1)] by blast
  have "changes h h1 slots" by (rule changes_mono [OF x(2)]) (simp add: slots_def)
  then have "num h1 d di = - (2 ^ 127)" using changes_frame(2) callers_slot [OF assms(2)] False assms(3) by auto
  then show ?thesis using to_double_least [of h1 d di] x assms(1) by (simp add: divide_to_def changes_def)
qed

text \<open>
  Property C39: division of 128-bit values, with the operands outside the routine's own scratch slots and a divisor other than zero. It
  does not return (the conversion to a double recurses for ever) exactly when an operand is the least value; when it returns true the
  result is the exact quotient, truncated toward zero or rounded half away from it, whatever the estimate in doubles was, and nothing but
  the result and the scratch slots has changed; and it does return true whenever the quotient is below 2^50 - 2, the divisor below
  2^124 and |n| + 4|d| below 2^127.
\<close>

theorem divide_exact:
  assumes "length (h Scratch) = 64" "room h t to" "callers n ni" "callers d di" "num h d di \<noteq> 0"
  shows "(divide_to t to n ni d di r h = None \<longleftrightarrow> num h n ni = - (2 ^ 127) \<or> num h d di = - (2 ^ 127))
    \<and> (\<forall>h'. divide_to t to n ni d di r h = Some (h', True) \<longrightarrow>
          num h' t to = int_quotient r (num h n ni) (num h d di) \<and> changes h h' (insert (t, to) slots))
    \<and> (\<bar>num h d di\<bar> < 2 ^ 124 \<and> \<bar>num h n ni\<bar> < (2 ^ 50 - 2) * \<bar>num h d di\<bar> \<and> \<bar>num h n ni\<bar> + 4 * \<bar>num h d di\<bar> < 2 ^ 127 \<longrightarrow>
          (\<exists>h'. divide_to t to n ni d di r h = Some (h', True)))"
proof (cases "num h n ni = - (2 ^ 127) \<or> num h d di = - (2 ^ 127)")
  case True
  moreover have "\<not> (\<bar>num h d di\<bar> < 2 ^ 124 \<and> \<bar>num h n ni\<bar> + 4 * \<bar>num h d di\<bar> < 2 ^ 127)" using True by auto
  ultimately show ?thesis using divide_least [of h d di, OF assms(1,4)] by auto
next
  case False
  then obtain h' ok where k: "divide_to t to n ni d di r h = Some (h', ok)" "changes h h' (insert (t, to) slots)"
    "ok \<longrightarrow> num h' t to = int_quotient r (num h n ni) (num h d di)"
    "\<bar>num h d di\<bar> < 2 ^ 124 \<longrightarrow> \<bar>num h n ni\<bar> < (2 ^ 50 - 2) * \<bar>num h d di\<bar> \<longrightarrow> \<bar>num h n ni\<bar> + 4 * \<bar>num h d di\<bar> < 2 ^ 127 \<longrightarrow> ok"
    using divide_cases [OF assms(1-4) _ _ assms(5)] by blast
  then show ?thesis using False by auto
qed

text \<open>7 / 2 rounds to 4; with the least value the routine does not return.\<close>

definition seven_two :: store where
  "seven_two t = (if t = Scratch then [7, 0, 0, 0, 2, 0, 0, 0, 0, 0, 0, 0x80000000] @ replicate 52 0 else [])"

lemma seven_two_values: "length (seven_two Scratch) = 64" "room seven_two Scratch 2" "num seven_two Scratch 0 = 7" "num seven_two Scratch 1 = 2"
    "num seven_two Scratch 2 = - (2 ^ 127)"
  by (simp_all add: seven_two_def room_def num_def magnitude_def limb_def at0_def)

lemma seven_two_divisor: "num seven_two Scratch 1 \<noteq> 0"
  unfolding seven_two_values by simp

theorem divide_exact_witness:
  "(\<exists>h'. divide_to Scratch 2 Scratch 0 Scratch 1 True seven_two = Some (h', True) \<and> num h' Scratch 2 = 4)
    \<and> divide_to Scratch 2 Scratch 2 Scratch 1 True seven_two = None"
proof -
  have f: "callers Scratch 0" "callers Scratch 1" "callers Scratch 2" by (simp_all add: callers_def)
  note a = divide_exact [OF seven_two_values(1,2) f(1,2) seven_two_divisor, of True] and b = divide_exact [OF seven_two_values(1,2) f(3,2) seven_two_divisor, of True]
  have "int_quotient True 7 2 = 4" by (simp add: int_quotient_def rounded_def)
  then show ?thesis using a b unfolding seven_two_values by auto
qed

end
