(* ===== verification/LimbsExact.thy ===== *)
theory LimbsExact
  imports LimbsDiv
begin

text \<open>What the callers of \<open>next/exec/kernels/limbs.ts\<close> rely on: exact results, and false exactly where a result does not fit.\<close>

text \<open>
  Property C38: addition and subtraction of 128-bit values. Whatever arrays the operands and the result share, it returns true exactly
  when the sum (or difference) fits 128 bits, including a subtracted least value, whose negation does not exist; the result is then the
  exact sum, and it is the only value written.
\<close>

theorem limb_add_exact:
  assumes "room h t to" "add_to t to a ai b bi subtract h = (h', ok)"
  shows "(ok \<longleftrightarrow> (let z = if subtract then num h a ai - num h b bi else num h a ai + num h b bi in - (2 ^ 127) \<le> z \<and> z < 2 ^ 127))
    \<and> (ok \<longrightarrow> num h' t to = (if subtract then num h a ai - num h b bi else num h a ai + num h b bi)) \<and> changes h h' {(t, to)}"
proof -
  note a = add_num [OF assms]
  have "ok \<Longrightarrow> wrap128 (if subtract then num h a ai - num h b bi else num h a ai + num h b bi)
      = (if subtract then num h a ai - num h b bi else num h a ai + num h b bi)"
    using a(3) by (intro wrap128_same) simp_all
  then show ?thesis unfolding Let_def using a by argo
qed

text \<open>-2^127 minus -2^127 is 0 and fits; 0 minus -2^127 does not.\<close>

definition two_values :: store where
  "two_values t = (if t = Arr 0 then [0, 0, 0, 0x80000000, 0, 0, 0, 0] else replicate 64 0)"

lemma two_values_num: "room two_values (Arr 0) 0" "room two_values (Arr 0) 1" "length (two_values Scratch) = 64"
  "num two_values (Arr 0) 0 = - (2 ^ 127)" "num two_values (Arr 0) 1 = 0"
  by (simp_all add: two_values_def room_def num_def magnitude_def limb_def at0_def)

theorem limb_add_exact_witness:
  "snd (add_to (Arr 0) 1 (Arr 0) 0 (Arr 0) 0 True two_values) \<and> \<not> snd (add_to (Arr 0) 1 (Arr 0) 1 (Arr 0) 0 True two_values)"
proof -
  have "snd (add_to (Arr 0) 1 (Arr 0) 0 (Arr 0) 0 True two_values)"
    using limb_add_exact [OF two_values_num(2) prod.collapse [symmetric], of "Arr 0" 0 "Arr 0" 0 True] unfolding Let_def two_values_num by simp
  moreover have "\<not> snd (add_to (Arr 0) 1 (Arr 0) 1 (Arr 0) 0 True two_values)"
    using limb_add_exact [OF two_values_num(2) prod.collapse [symmetric], of "Arr 0" 1 "Arr 0" 0 True] unfolding Let_def two_values_num by simp
  ultimately show ?thesis ..
qed

text \<open>
  Multiplication of 128-bit values, by 16-bit halves. It returns true exactly when the product is below 2^127 in absolute
  value, and the result is then the exact product; nothing but the result and two scratch slots changes.
\<close>

theorem limb_multiply_exact:
  assumes "room h t to" "length (h Scratch) = 64" "(b, bi) \<noteq> (Scratch, 14)" "multiply_to t to a ai b bi h = (h', ok)"
  shows "(ok \<longleftrightarrow> \<bar>num h a ai * num h b bi\<bar> < 2 ^ 127) \<and> (ok \<longrightarrow> num h' t to = num h a ai * num h b bi)
    \<and> changes h h' {(t, to), (Scratch, 14), (Scratch, 15)}"
  using multiply_num [OF assms] by blast

text \<open>The least value times zero is zero; times itself it is too long.\<close>

theorem limb_multiply_exact_witness:
  "num (fst (multiply_to (Arr 0) 1 (Arr 0) 0 (Arr 0) 1 two_values)) (Arr 0) 1 = 0 \<and> \<not> snd (multiply_to (Arr 0) 1 (Arr 0) 0 (Arr 0) 0 two_values)"
proof -
  have n: "(Arr 0, i) \<noteq> (Scratch, 14 :: nat)" for i by simp
  have "num (fst (multiply_to (Arr 0) 1 (Arr 0) 0 (Arr 0) 1 two_values)) (Arr 0) 1 = 0"
    using limb_multiply_exact [OF two_values_num(2,3) n prod.collapse [symmetric], of "Arr 0" 0 1] unfolding two_values_num by simp
  moreover have "\<not> snd (multiply_to (Arr 0) 1 (Arr 0) 0 (Arr 0) 0 two_values)"
    using limb_multiply_exact [OF two_values_num(2,3) n prod.collapse [symmetric], of "Arr 0" 0 0] unfolding two_values_num by simp
  ultimately show ?thesis ..
qed

end
