(* ===== verification/Xxh32Spec.thy ===== *)
theory Xxh32Spec
  imports Prelude
begin

text \<open>
  XXH32 as its specification states it (\<open>xxhash_spec.md\<close> of the xxHash project), written from that document and from nothing of the
  program: integers with the reductions modulo \<open>2 ^ 32\<close> written out, the primes in the decimal the document gives, the four accumulators
  as a list, and the input cut into whole stripes, whole lanes and single bytes. It computes, and the published vectors are
  evaluated below.
\<close>

definition U32 :: int where "U32 = 4294967296"

definition PRIME32_1 :: int where "PRIME32_1 = 2654435761"
definition PRIME32_2 :: int where "PRIME32_2 = 2246822519"
definition PRIME32_3 :: int where "PRIME32_3 = 3266489917"
definition PRIME32_4 :: int where "PRIME32_4 = 668265263"
definition PRIME32_5 :: int where "PRIME32_5 = 374761393"

text \<open>Arithmetic on 32 bits; the rotation moves the high bits below the low ones.\<close>

definition add32 :: "int \<Rightarrow> int \<Rightarrow> int" where "add32 x y = (x + y) mod U32"
definition mul32 :: "int \<Rightarrow> int \<Rightarrow> int" where "mul32 x y = (x * y) mod U32"

definition rotl32 :: "nat \<Rightarrow> int \<Rightarrow> int" where
  "rotl32 s x = x mod 2 ^ (32 - s) * 2 ^ s + x div 2 ^ (32 - s)"

definition shift_xor :: "nat \<Rightarrow> int \<Rightarrow> int" where
  "shift_xor s x = x XOR x div 2 ^ s"

text \<open>The input in pieces of \<open>n\<close> bytes, what is left behind them, and a piece as a little-endian number.\<close>

definition whole_pieces :: "nat \<Rightarrow> 'a list \<Rightarrow> 'a list list" where
  "whole_pieces n bs = map (\<lambda>k. take n (drop (n * k) bs)) [0..<length bs div n]"

definition leftover :: "nat \<Rightarrow> 'a list \<Rightarrow> 'a list" where
  "leftover n bs = drop (n * (length bs div n)) bs"

primrec le_number :: "int list \<Rightarrow> int" where
  "le_number [] = 0"
| "le_number (b # bs) = b + 256 * le_number bs"

text \<open>Steps 1 to 3: the accumulators, one stripe, and their convergence.\<close>

definition accumulators :: "int \<Rightarrow> int list" where
  "accumulators seed = [add32 (add32 seed PRIME32_1) PRIME32_2, add32 seed PRIME32_2, seed, (seed - PRIME32_1) mod U32]"

definition accumulate :: "int \<Rightarrow> int \<Rightarrow> int" where
  "accumulate acc lane = mul32 (rotl32 13 (add32 acc (mul32 lane PRIME32_2))) PRIME32_1"

definition process_stripe :: "int list \<Rightarrow> int list \<Rightarrow> int list" where
  "process_stripe accs piece = map2 accumulate accs (map le_number (whole_pieces 4 piece))"

definition converge :: "int list \<Rightarrow> int" where
  "converge accs = foldl add32 0 (map2 rotl32 [1, 7, 12, 18] accs)"

text \<open>Steps 5 and 6: the remaining input, and the final mix.\<close>

definition consume_lane :: "int \<Rightarrow> int list \<Rightarrow> int" where
  "consume_lane acc piece = mul32 (rotl32 17 (add32 acc (mul32 (le_number piece) PRIME32_3))) PRIME32_4"

definition consume_byte :: "int \<Rightarrow> int \<Rightarrow> int" where
  "consume_byte acc b = mul32 (rotl32 11 (add32 acc (mul32 b PRIME32_5))) PRIME32_1"

definition final_mix :: "int \<Rightarrow> int" where
  "final_mix acc = shift_xor 16 (mul32 (shift_xor 13 (mul32 (shift_xor 15 acc) PRIME32_2)) PRIME32_3)"

definition xxh32 :: "int \<Rightarrow> int list \<Rightarrow> int" where
  "xxh32 seed bs =
     (let acc = (if length bs < 16 then add32 seed PRIME32_5
                 else converge (foldl process_stripe (accumulators seed) (whole_pieces 16 bs)));
          acc = add32 acc (int (length bs));
          rest = leftover 16 bs;
          acc = foldl consume_lane acc (whole_pieces 4 rest)
      in final_mix (foldl consume_byte acc (leftover 4 rest)))"

text \<open>
  Published vectors, those of the program's own test file among them: the empty input with seeds 0 and 1, \<open>a\<close>, \<open>abc\<close>, and two sentences of
  39 and 43 bytes, which go through stripes, lanes and single bytes.
\<close>

lemma published_vectors:
  "xxh32 0 [] = 0x02cc5d05" "xxh32 1 [] = 0x0b2cb792" "xxh32 0 [97] = 0x550d7456" "xxh32 0 [97, 98, 99] = 0x32d153ff"
  "xxh32 0 [78, 111, 98, 111, 100, 121, 32, 105, 110, 115, 112, 101, 99, 116, 115, 32, 116, 104, 101, 32, 115, 112, 97, 109, 109, 105,
     115, 104, 32, 114, 101, 112, 101, 116, 105, 116, 105, 111, 110] = 0xe2293b2f"
  "xxh32 0 [84, 104, 101, 32, 113, 117, 105, 99, 107, 32, 98, 114, 111, 119, 110, 32, 102, 111, 120, 32, 106, 117, 109, 112, 115, 32,
     111, 118, 101, 114, 32, 116, 104, 101, 32, 108, 97, 122, 121, 32, 100, 111, 103] = 0xe85ea4de"
  by code_simp+

subsection \<open>Pieces\<close>

lemma whole_pieces_short: "length bs < n \<Longrightarrow> whole_pieces n bs = [] \<and> leftover n bs = bs"
  by (simp add: whole_pieces_def leftover_def)

lemma whole_pieces_step:
  assumes "0 < n" "n \<le> length bs"
  shows "whole_pieces n bs = take n bs # whole_pieces n (drop n bs)" "leftover n bs = leftover n (drop n bs)"
proof -
  have d: "length bs div n = Suc ((length bs - n) div n)" using assms by (simp add: div_if)
  have "map (\<lambda>k. take n (drop (n * k) bs)) [1..<Suc m] = map (\<lambda>k. take n (drop (n * k) (drop n bs))) [0..<m]" for m
    by (simp add: map_Suc_upt [symmetric] comp_def add.commute del: upt_Suc)
  then show "whole_pieces n bs = take n bs # whole_pieces n (drop n bs)"
    unfolding whole_pieces_def d length_drop by (subst upt_conv_Cons) (simp_all del: upt_Suc)
  show "leftover n bs = leftover n (drop n bs)" by (simp add: leftover_def d add.commute)
qed

lemma whole_pieces_map: "whole_pieces n (map f bs) = map (map f) (whole_pieces n bs)" "leftover n (map f bs) = map f (leftover n bs)"
  by (simp_all add: whole_pieces_def leftover_def take_map drop_map)

lemma leftover_length: "0 < n \<Longrightarrow> length (leftover n bs) < n"
  by (simp add: leftover_def minus_mult_div_eq_mod)

subsection \<open>The arithmetic on machine words\<close>

lemma uint_add32: "uint (a + b :: u32) = add32 (uint a) (uint b)"
  by (simp add: add32_def U32_def uint_word_ariths)

lemma uint_mul32: "uint (a * b :: u32) = mul32 (uint a) (uint b)"
  by (simp add: mul32_def U32_def uint_word_ariths)

lemma uint_drop_bit32: "uint (drop_bit k w :: u32) = uint w div 2 ^ k"
proof -
  have "take_bit 32 (uint w) = uint w" using uint_bounded [of w] by (simp add: take_bit_int_eq_self_iff)
  then show ?thesis unfolding unsigned_drop_bit_eq by (simp add: drop_bit_eq_div)
qed

lemma int_div_less_bound:
  assumes "0 < b" "x < b * c"
  shows "x div b < (c :: int)"
proof -
  have "b * (x div b) \<le> x" using assms(1) mult_div_mod_eq [of b x] pos_mod_sign [of b x] by linarith
  then have "b * (x div b) < b * c" using assms(2) by linarith
  then show ?thesis using assms(1) by simp
qed

lemma uint_rotl32:
  fixes w :: u32
  assumes "0 < k" "k < 32"
  shows "uint (push_bit k w OR drop_bit (32 - k) w) = rotl32 k (uint w)"
proof -
  let ?x = "uint w" and ?j = "32 - k"
  have "push_bit k w AND drop_bit ?j w = 0" using assms by (intro bit_word_eqI) (auto simp: bit_simps dest: bit_imp_le_length)
  then have or_add: "push_bit k w OR drop_bit ?j w = push_bit k w + drop_bit ?j w" by (rule disjunctive_add_eq_or [symmetric])
  have pow: "(2 :: int) ^ ?j * 2 ^ k = 4294967296" using assms by (simp flip: power_add)
  have "uint (push_bit k w) = ?x * 2 ^ k mod (2 ^ ?j * 2 ^ k)"
    unfolding unsigned_push_bit_eq pow by (simp add: push_bit_eq_mult take_bit_eq_mod)
  then have p: "uint (push_bit k w) = ?x mod 2 ^ ?j * 2 ^ k" by (simp only: mod_mult_mult2)
  note d = uint_drop_bit32 [of ?j w]
  have "?x < 2 ^ ?j * 2 ^ k" using uint_bounded [of w] pow by simp
  then have hi: "?x div 2 ^ ?j < 2 ^ k" by (intro int_div_less_bound) (simp_all add: mult.commute)
  have "?x mod 2 ^ ?j \<le> 2 ^ ?j - 1" by simp
  then have "?x mod 2 ^ ?j * 2 ^ k \<le> (2 ^ ?j - 1) * 2 ^ k" by (intro mult_right_mono) simp_all
  then have "?x mod 2 ^ ?j * 2 ^ k + ?x div 2 ^ ?j < 4294967296" using hi pow by (simp add: left_diff_distrib)
  moreover have "0 \<le> ?x mod 2 ^ ?j * 2 ^ k + ?x div 2 ^ ?j" by (simp add: pos_imp_zdiv_nonneg_iff)
  ultimately show ?thesis unfolding or_add rotl32_def by (simp add: uint_word_ariths p d)
qed

lemma uint_shift_xor: "uint (w XOR drop_bit k w :: u32) = shift_xor k (uint w)"
  by (simp add: shift_xor_def unsigned_xor_eq uint_drop_bit32)

lemma le_number_le_val: "le_number (map uint bs) = int (le_val bs)"
  by (induction bs) (simp_all flip: uint_nat)

end
