(* ===== verification/XxHash.thy ===== *)
theory XxHash
  imports Crc32 Xxh32Spec
begin

text \<open>
  \<open>next/hash/xxhash32.ts\<close>: XXH32 in one call, reading words or bytes by the length of its input, and in pieces. A 32-bit
  integer of the code, signed after \<open>| 0\<close> or unsigned after \<open>>>> 0\<close>, is a word; the range is whole numbers. The same steps on the
  list of bytes are a stepping stone between the forms; what they compute is the specification's XXH32, written on its own in \<open>Xxh32Spec\<close>.
\<close>

definition PRIME1 :: u32 where "PRIME1 = 0x9e3779b1"
definition PRIME2 :: u32 where "PRIME2 = 0x85ebca77"
definition PRIME3 :: u32 where "PRIME3 = 0xc2b2ae3d"
definition PRIME4 :: u32 where "PRIME4 = 0x27d4eb2f"
definition PRIME5 :: u32 where "PRIME5 = 0x165667b1"

definition WORD_READ_BYTES :: nat where "WORD_READ_BYTES = 256"

definition read32 :: "byte list \<Rightarrow> nat \<Rightarrow> u32" where
  "read32 bytes index = ucast (at0 bytes index) OR push_bit 8 (ucast (at0 bytes (index + 1)))
     OR push_bit 16 (ucast (at0 bytes (index + 2))) OR push_bit 24 (ucast (at0 bytes (index + 3)))"

definition rotate :: "nat \<Rightarrow> u32 \<Rightarrow> u32" where
  "rotate k w = push_bit k w OR drop_bit (32 - k) w"

definition round :: "u32 \<Rightarrow> u32 \<Rightarrow> u32" where
  "round accumulator lane = rotate 13 (accumulator + lane * PRIME2) * PRIME1"

type_synonym lanes = "u32 \<times> u32 \<times> u32 \<times> u32"

definition first_lanes :: "u32 \<Rightarrow> lanes" where
  "first_lanes seed = (seed + PRIME1 + PRIME2, seed + PRIME2, seed, seed - PRIME1)"

text \<open>One stripe, through either way of reading a word, and the loop over the stripes before \<open>limit\<close>.\<close>

definition stripe :: "(nat \<Rightarrow> u32) \<Rightarrow> nat \<Rightarrow> lanes \<Rightarrow> lanes" where
  "stripe read index v = (case v of (v1, v2, v3, v4) \<Rightarrow>
     (round v1 (read index), round v2 (read (index + 4)), round v3 (read (index + 8)), round v4 (read (index + 12))))"

function stripe_loop :: "(nat \<Rightarrow> u32) \<Rightarrow> nat \<Rightarrow> nat \<Rightarrow> lanes \<Rightarrow> lanes \<times> nat" where
  "stripe_loop read limit index v =
     (if index + 16 \<le> limit then stripe_loop read limit (index + 16) (stripe read index v) else (v, index))"
  by auto
termination by (relation "measure (\<lambda>(read, limit, index, v). limit - index)") auto

definition join_lanes :: "lanes \<Rightarrow> u32" where
  "join_lanes v = (case v of (v1, v2, v3, v4) \<Rightarrow> rotate 1 v1 + rotate 7 v2 + rotate 12 v3 + rotate 18 v4)"

function tail_words :: "byte list \<Rightarrow> nat \<Rightarrow> nat \<Rightarrow> u32 \<Rightarrow> u32 \<times> nat" where
  "tail_words bytes limit index hash =
     (if index + 4 \<le> limit
      then tail_words bytes limit (index + 4) (rotate 17 (hash + read32 bytes index * PRIME3) * PRIME4) else (hash, index))"
  by auto
termination by (relation "measure (\<lambda>(bytes, limit, index, hash). limit - index)") auto

function tail_bytes :: "byte list \<Rightarrow> nat \<Rightarrow> nat \<Rightarrow> u32 \<Rightarrow> u32" where
  "tail_bytes bytes limit index hash =
     (if index < limit
      then tail_bytes bytes limit (index + 1) (rotate 11 (hash + ucast (at0 bytes index) * PRIME5) * PRIME1) else hash)"
  by auto
termination by (relation "measure (\<lambda>(bytes, limit, index, hash). limit - index)") auto

definition avalanche :: "u32 \<Rightarrow> u32" where
  "avalanche hash =
     (let hash = hash XOR drop_bit 15 hash; hash = hash * PRIME2; hash = hash XOR drop_bit 13 hash; hash = hash * PRIME3
      in hash XOR drop_bit 16 hash)"

definition finish_hash :: "byte list \<Rightarrow> nat \<Rightarrow> nat \<Rightarrow> u32 \<Rightarrow> u32" where
  "finish_hash bytes limit index hash =
     (case tail_words bytes limit index hash of (hash, index) \<Rightarrow> avalanche (tail_bytes bytes limit index hash))"

definition xx_hash32 :: "byte list \<Rightarrow> u32 \<Rightarrow> int \<Rightarrow> int \<Rightarrow> u32 result" where
  "xx_hash32 bytes seed start end' =
     (if start < 0 \<or> int (length bytes) < end' \<or> end' < start then Inl (RangeError ''xxHash32 range is outside the input'')
      else
        let s = nat start; e = nat end'; len = e - s;
            (hash, index) =
              (if 16 \<le> len then
                 let (v, index) =
                   (if WORD_READ_BYTES \<le> len
                    then let (v, at) = stripe_loop (get32 (slice_of bytes s e)) len 0 (first_lanes seed) in (v, s + at)
                    else stripe_loop (read32 bytes) e s (first_lanes seed))
                 in (join_lanes v, index)
               else (seed + PRIME5, s))
        in Inr (finish_hash bytes e index (hash + word_of_nat len)))"

subsection \<open>In pieces\<close>

record xx_stream =
  xx_lanes :: lanes
  xx_seed :: u32
  xx_length :: nat
  xx_tail :: "byte list"
  xx_tail_length :: nat

definition new_stream :: "u32 \<Rightarrow> xx_stream" where
  "new_stream seed = \<lparr>xx_lanes = first_lanes seed, xx_seed = seed, xx_length = 0, xx_tail = replicate 16 0, xx_tail_length = 0\<rparr>"

text \<open>The rest of an update once no stripe is pending.\<close>

definition whole_stripes :: "byte list \<Rightarrow> nat \<Rightarrow> nat \<Rightarrow> xx_stream \<Rightarrow> xx_stream" where
  "whole_stripes bytes index e s =
     (case stripe_loop (read32 bytes) e index (xx_lanes s) of (v, index) \<Rightarrow>
        if index < e
        then s\<lparr>xx_lanes := v, xx_tail := set_at (xx_tail s) 0 (slice_of bytes index e), xx_tail_length := e - index\<rparr>
        else s\<lparr>xx_lanes := v\<rparr>)"

definition update :: "byte list \<Rightarrow> int \<Rightarrow> int \<Rightarrow> xx_stream \<Rightarrow> xx_stream result" where
  "update bytes start end' s =
     (if start < 0 \<or> int (length bytes) < end' \<or> end' < start then Inl (RangeError ''xxHash32 range is outside the input'')
      else
        let index = nat start; e = nat end'; s = s\<lparr>xx_length := xx_length s + (e - index)\<rparr> in
        Inr (if 0 < xx_tail_length s then
               let taken = min (16 - xx_tail_length s) (e - index);
                   s = s\<lparr>xx_tail := set_at (xx_tail s) (xx_tail_length s) (slice_of bytes index (index + taken)),
                         xx_tail_length := xx_tail_length s + taken\<rparr>;
                   index = index + taken
               in if xx_tail_length s < 16 then s
                  else whole_stripes bytes index e
                         (s\<lparr>xx_lanes := stripe (read32 (xx_tail s)) 0 (xx_lanes s), xx_tail_length := 0\<rparr>)
             else whole_stripes bytes index e s))"

definition digest :: "xx_stream \<Rightarrow> u32" where
  "digest s =
     (let hash = (if 16 \<le> xx_length s then join_lanes (xx_lanes s) else xx_seed s + PRIME5) + word_of_nat (xx_length s)
      in finish_hash (xx_tail s) (xx_tail_length s) 0 hash)"

subsection \<open>The same steps on the list of bytes\<close>

function ref_stripes :: "lanes \<Rightarrow> byte list \<Rightarrow> lanes \<times> byte list" where
  "ref_stripes v bs = (if 16 \<le> length bs then ref_stripes (stripe (read32 bs) 0 v) (drop 16 bs) else (v, bs))"
  by auto
termination by (relation "measure (\<lambda>(v, bs). length bs)") auto

fun ref_tail :: "u32 \<Rightarrow> byte list \<Rightarrow> u32" where
  "ref_tail hash (a # b # c # d # rest) = ref_tail (rotate 17 (hash + read32 [a, b, c, d] 0 * PRIME3) * PRIME4) rest"
| "ref_tail hash rest = foldl (\<lambda>hash b. rotate 11 (hash + ucast b * PRIME5) * PRIME1) hash rest"

definition xx_ref :: "u32 \<Rightarrow> byte list \<Rightarrow> u32" where
  "xx_ref seed bs =
     (case ref_stripes (first_lanes seed) bs of (v, rest) \<Rightarrow>
        avalanche (ref_tail ((if 16 \<le> length bs then join_lanes v else seed + PRIME5) + word_of_nat (length bs)) rest))"

declare stripe_loop.simps [simp del] tail_words.simps [simp del] tail_bytes.simps [simp del] ref_stripes.simps [simp del]

subsection \<open>Reads\<close>

lemma read32_drop: "index + 4 \<le> length bs \<Longrightarrow> read32 bs index = read32 (drop index bs) 0"
  by (simp add: read32_def at0_def)

lemma read32_take: "index + 4 \<le> n \<Longrightarrow> read32 (take n bs) index = read32 bs index"
  by (simp add: read32_def at0_def)

lemma read32_slice: "e \<le> length bs \<Longrightarrow> s + index + 4 \<le> e \<Longrightarrow> read32 (slice_of bs s e) index = read32 bs (s + index)"
proof -
  assume "e \<le> length bs" "s + index + 4 \<le> e"
  then have "k < 4 \<Longrightarrow> at0 (slice_of bs s e) (index + k) = at0 bs (s + index + k)" for k
    by (auto simp: at0_def slice_of_def add.assoc)
  from this [of 0] this [of 1] this [of 2] this [of 3] show ?thesis by (simp add: read32_def)
qed

text \<open>The bytes joined by shifts are the little-endian word of a \<open>DataView\<close>.\<close>

lemma read32_word: "read32 bs i = word_of_bytes (at0 bs i) (at0 bs (i + 1)) (at0 bs (i + 2)) (at0 bs (i + 3))"
  by (simp add: read32_def word_of_bytes_def)

lemma byte_below: "ucast (a :: byte) AND push_bit 8 (x :: u32) = 0"
  by (rule bit_word_eqI) (auto simp: bit_simps dest: bit_byte_less)

lemma byte_and_rest: "(word_of_nat (unat (a :: byte) + 256 * n) :: u32) = ucast a OR push_bit 8 (word_of_nat n)"
proof -
  have "(word_of_nat (unat a + 256 * n) :: u32) = ucast a + push_bit 8 (word_of_nat n)"
    by (simp add: push_bit_eq_mult unsigned_def mult.commute)
  then show ?thesis using disjunctive_add_eq_or [OF byte_below [of a "word_of_nat n"]] by simp
qed

lemma word_of_bytes_nat: "word_of_bytes a b c d = word_of_nat (le_val [a, b, c, d])"
proof -
  have "(word_of_nat (le_val [a, b, c, d]) :: u32)
      = ucast a OR push_bit 8 (ucast b OR push_bit 8 (ucast c OR push_bit 8 (ucast d OR push_bit 8 (word_of_nat 0))))"
    unfolding le_val.simps byte_and_rest ..
  then show ?thesis by (simp add: word_of_bytes_def push_bit_or or.assoc)
qed

lemma four_bytes: "i + 4 \<le> length bs \<Longrightarrow> slice_of bs i (i + 4) = [at0 bs i, at0 bs (i + 1), at0 bs (i + 2), at0 bs (i + 3)]"
  by (rule nth_equalityI) (auto simp: slice_of_def at0_def less_Suc_eq numeral_eq_Suc)

lemma read32_view: "i + 4 \<le> length bs \<Longrightarrow> get32 bs i = read32 bs i"
  by (simp add: get32_def get_le_def four_bytes read32_word word_of_bytes_nat)

subsection \<open>The loops are the reference\<close>

lemma stripes_are_ref:
  assumes "e \<le> length bytes" "\<And>i. i + 4 \<le> e \<Longrightarrow> read i = read32 bytes i"
  shows "i \<le> e \<Longrightarrow> stripe_loop read e i v = (case ref_stripes v (slice_of bytes i e) of (v', rest) \<Rightarrow> (v', e - length rest))
    \<and> length (snd (ref_stripes v (slice_of bytes i e))) \<le> e - i
    \<and> snd (ref_stripes v (slice_of bytes i e)) = slice_of bytes (e - length (snd (ref_stripes v (slice_of bytes i e)))) e"
proof (induction "e - i" arbitrary: i v rule: less_induct)
  case less
  show ?case
  proof (cases "i + 16 \<le> e")
    case True
    let ?w = "stripe read i v"
    have l: "16 \<le> length (slice_of bytes i e)" using True assms(1) by simp
    have d: "drop 16 (slice_of bytes i e) = slice_of bytes (i + 16) e" by (simp add: slice_of_def drop_take add.commute)
    have "stripe (read32 (slice_of bytes i e)) 0 v = ?w"
      using assms True by (simp add: stripe_def read32_slice add.assoc split: prod.split)
    then have r: "ref_stripes v (slice_of bytes i e) = ref_stripes ?w (slice_of bytes (i + 16) e)"
      using l by (subst ref_stripes.simps) (simp add: d)
    have s: "stripe_loop read e i v = stripe_loop read e (i + 16) ?w" using True by (subst stripe_loop.simps) simp
    have "e - (i + 16) < e - i" using True by simp
    note ih = less.hyps [OF this True, of ?w]
    then have "length (snd (ref_stripes ?w (slice_of bytes (i + 16) e))) \<le> e - i" by linarith
    then show ?thesis unfolding r s using ih by blast
  next
    case False
    then have "ref_stripes v (slice_of bytes i e) = (v, slice_of bytes i e)" by (subst ref_stripes.simps) auto
    moreover have "stripe_loop read e i v = (v, i)" using False by (subst stripe_loop.simps) simp
    ultimately show ?thesis using less.prems assms(1) by simp
  qed
qed

lemma tail_bytes_fold:
  "i \<le> e \<Longrightarrow> e \<le> length bytes \<Longrightarrow>
    tail_bytes bytes e i hash = foldl (\<lambda>hash b. rotate 11 (hash + ucast b * PRIME5) * PRIME1) hash (slice_of bytes i e)"
proof (induction "e - i" arbitrary: i hash rule: less_induct)
  case less
  show ?case
  proof (cases "i < e")
    case True
    then have "slice_of bytes i e = at0 bytes i # slice_of bytes (Suc i) e"
      using less.prems by (simp add: slice_of_def at0_nth Cons_nth_drop_Suc [symmetric] Suc_diff_le [symmetric] take_Suc_Cons [symmetric] del: take_Suc_Cons)
    then show ?thesis using less True by (subst tail_bytes.simps) simp
  next
    case False
    then have "i = e" using less.prems by simp
    then show ?thesis by (simp add: tail_bytes.simps [of bytes e e] slice_of_def)
  qed
qed

lemma ref_tail_short: "length bs < 4 \<Longrightarrow> ref_tail hash bs = foldl (\<lambda>hash b. rotate 11 (hash + ucast b * PRIME5) * PRIME1) hash bs"
  by (cases "(hash, bs)" rule: ref_tail.cases) auto

lemma tails_are_ref:
  "i \<le> e \<Longrightarrow> e \<le> length bytes \<Longrightarrow> finish_hash bytes e i hash = avalanche (ref_tail hash (slice_of bytes i e))"
proof (induction "e - i" arbitrary: i hash rule: less_induct)
  case less
  show ?case
  proof (cases "i + 4 \<le> e")
    case True
    then have "slice_of bytes i e = slice_of bytes i (i + 4) @ slice_of bytes (i + 4) e" by (simp add: slice_append)
    then have s: "slice_of bytes i e = [at0 bytes i, at0 bytes (i + 1), at0 bytes (i + 2), at0 bytes (i + 3)] @ slice_of bytes (i + 4) e"
      using True less.prems by (subst (asm) four_bytes) simp_all
    have r: "read32 [at0 bytes i, at0 bytes (i + 1), at0 bytes (i + 2), at0 bytes (i + 3)] 0 = read32 bytes i"
      by (simp add: read32_def numeral_eq_Suc)
    have "finish_hash bytes e i hash = finish_hash bytes e (i + 4) (rotate 17 (hash + read32 bytes i * PRIME3) * PRIME4)"
      using True by (simp add: finish_hash_def tail_words.simps [of _ _ i])
    also have "\<dots> = avalanche (ref_tail (rotate 17 (hash + read32 bytes i * PRIME3) * PRIME4) (slice_of bytes (i + 4) e))"
      by (rule less.hyps) (use True less.prems in simp_all)
    finally show ?thesis unfolding s using r by simp
  next
    case False
    then have "length (slice_of bytes i e) < 4" using less.prems by simp
    then show ?thesis using False less.prems by (simp add: finish_hash_def tail_words.simps [of _ _ i] tail_bytes_fold ref_tail_short)
  qed
qed

lemma slice_slice: "a \<le> b \<Longrightarrow> b \<le> e - s \<Longrightarrow> slice_of (slice_of bs s e) a b = slice_of bs (s + a) (s + b)"
  by (simp add: slice_of_def drop_take add.commute min_def)

subsection \<open>Pieces\<close>

lemma ref_rest_short: "length (snd (ref_stripes v bs)) < 16"
proof (induction v bs rule: ref_stripes.induct)
  case (1 v bs)
  then show ?case by (subst ref_stripes.simps) auto
qed

lemma ref_short: "length bs < 16 \<Longrightarrow> ref_stripes v bs = (v, bs)"
  by (subst ref_stripes.simps) simp

lemma stripe_take: "stripe (read32 (take 16 bs)) 0 v = stripe (read32 bs) 0 v"
  by (simp add: stripe_def read32_take split: prod.split)

lemma ref_append: "ref_stripes v (xs @ ys) = ref_stripes (fst (ref_stripes v xs)) (snd (ref_stripes v xs) @ ys)"
proof (induction v xs rule: ref_stripes.induct)
  case (1 v xs)
  show ?case
  proof (cases "16 \<le> length xs")
    case True
    have "stripe (read32 (xs @ ys)) 0 v = stripe (read32 xs) 0 v"
      using stripe_take [of "xs @ ys" v] stripe_take [of xs v] True by simp
    then have "ref_stripes v (xs @ ys) = ref_stripes (stripe (read32 xs) 0 v) (drop 16 xs @ ys)"
      using True by (subst ref_stripes.simps) simp
    moreover have "ref_stripes v xs = ref_stripes (stripe (read32 xs) 0 v) (drop 16 xs)" using True by (subst ref_stripes.simps) simp
    ultimately show ?thesis using 1 [OF True] by simp
  qed (simp add: ref_short)
qed

text \<open>A stream that has seen some bytes.\<close>

definition seen :: "u32 \<Rightarrow> byte list \<Rightarrow> xx_stream \<Rightarrow> bool" where
  "seen seed bs s \<longleftrightarrow> xx_seed s = seed \<and> xx_length s = length bs \<and> length (xx_tail s) = 16 \<and> xx_tail_length s < 16
     \<and> ref_stripes (first_lanes seed) bs = (xx_lanes s, take (xx_tail_length s) (xx_tail s))"

lemma seen_new: "seen seed [] (new_stream seed)"
  by (simp add: seen_def new_stream_def ref_short)

lemma whole_stripes_seen:
  assumes "index \<le> e" "e \<le> length bytes" "length (xx_tail s) = 16" "xx_tail_length s = 0"
  shows "xx_seed (whole_stripes bytes index e s) = xx_seed s" "xx_length (whole_stripes bytes index e s) = xx_length s"
    "length (xx_tail (whole_stripes bytes index e s)) = 16" "xx_tail_length (whole_stripes bytes index e s) < 16"
    "ref_stripes (xx_lanes s) (slice_of bytes index e)
      = (xx_lanes (whole_stripes bytes index e s), take (xx_tail_length (whole_stripes bytes index e s)) (xx_tail (whole_stripes bytes index e s)))"
proof -
  obtain v rest where r: "ref_stripes (xx_lanes s) (slice_of bytes index e) = (v, rest)" by (cases "ref_stripes (xx_lanes s) (slice_of bytes index e)")
  note A = stripes_are_ref [OF assms(2) refl assms(1), of "xx_lanes s", unfolded r prod.case snd_conv]
  have short: "length rest < 16" using ref_rest_short [of "xx_lanes s" "slice_of bytes index e"] r by simp
  have le: "length rest \<le> e" using conjunct1 [OF conjunct2 [OF A]] by linarith
  then have lt: "e - length rest < e \<longleftrightarrow> 0 < length rest" by linarith
  have "slice_of bytes (e - length rest) e = rest" using conjunct2 [OF conjunct2 [OF A]] by (rule sym)
  then have w: "whole_stripes bytes index e s = (if 0 < length rest
      then s\<lparr>xx_lanes := v, xx_tail := set_at (xx_tail s) 0 rest, xx_tail_length := length rest\<rparr> else s\<lparr>xx_lanes := v\<rparr>)"
    using conjunct1 [OF A] le lt by (simp add: whole_stripes_def del: length_greater_0_conv)
  show "xx_seed (whole_stripes bytes index e s) = xx_seed s" "xx_length (whole_stripes bytes index e s) = xx_length s"
    "length (xx_tail (whole_stripes bytes index e s)) = 16" "xx_tail_length (whole_stripes bytes index e s) < 16"
    "ref_stripes (xx_lanes s) (slice_of bytes index e)
      = (xx_lanes (whole_stripes bytes index e s), take (xx_tail_length (whole_stripes bytes index e s)) (xx_tail (whole_stripes bytes index e s)))"
    unfolding r using short assms(3,4) by (simp_all add: w set_at_def)
qed

lemma update_seen:
  assumes "seen seed bs s" "start \<le> e" "e \<le> length bytes"
  obtains s' where "update bytes (int start) (int e) s = Inr s'" "seen seed (bs @ slice_of bytes start e) s'"
proof -
  let ?new = "slice_of bytes start e" and ?v = "xx_lanes s" and ?pend = "take (xx_tail_length s) (xx_tail s)"
  let ?s = "s\<lparr>xx_length := xx_length s + (e - start)\<rparr>"
  have s: "xx_seed s = seed" "xx_length s = length bs" "length (xx_tail s) = 16" "xx_tail_length s < 16"
    "ref_stripes (first_lanes seed) bs = (?v, ?pend)" using assms(1) by (simp_all add: seen_def)
  have len: "length (bs @ ?new) = length bs + (e - start)" using assms(2,3) by simp
  have ref: "ref_stripes (first_lanes seed) (bs @ ?new) = ref_stripes ?v (?pend @ ?new)" unfolding ref_append [of _ bs] s(5) by simp
  show ?thesis
  proof (cases "0 < xx_tail_length s")
    case False
    then have "update bytes (int start) (int e) s = Inr (whole_stripes bytes start e ?s)" using assms(2,3) by (simp add: update_def Let_def)
    moreover have "seen seed (bs @ ?new) (whole_stripes bytes start e ?s)"
      using whole_stripes_seen [OF assms(2,3), of ?s] s False len ref by (simp add: seen_def)
    ultimately show ?thesis by (rule that)
  next
    case True
    define taken where "taken = min (16 - xx_tail_length s) (e - start)"
    define t where "t = set_at (xx_tail s) (xx_tail_length s) (slice_of bytes start (start + taken))"
    have tk: "taken \<le> e - start" "xx_tail_length s + taken \<le> 16" using s(4) by (auto simp: taken_def)
    have lt: "length (slice_of bytes start (start + taken)) = taken" using tk assms(2,3) by simp
    have "length t = 16" "take (xx_tail_length s + taken) t = ?pend @ slice_of bytes start (start + taken)"
      using tk lt s(3) by (simp_all add: t_def set_at_def)
    note t = this
    have new: "?new = slice_of bytes start (start + taken) @ slice_of bytes (start + taken) e" using tk assms(2) by (simp add: slice_append)
    show ?thesis
    proof (cases "xx_tail_length s + taken < 16")
      case True': True
      then have all: "taken = e - start" by (auto simp: taken_def)
      let ?s' = "?s\<lparr>xx_tail := t, xx_tail_length := xx_tail_length s + taken\<rparr>"
      have "update bytes (int start) (int e) s = Inr ?s'"
        using True True' assms(2,3) by (simp add: update_def Let_def taken_def [symmetric] t_def [symmetric])
      moreover have "?pend @ ?new = take (xx_tail_length s + taken) t" using t(2) all assms(2) by simp
      then have "seen seed (bs @ ?new) ?s'" using s len t(1) True' ref ref_short [of "?pend @ ?new" ?v] by (simp add: seen_def)
      ultimately show ?thesis by (rule that)
    next
      case False
      then have full: "xx_tail_length s + taken = 16" using tk by simp
      let ?s' = "?s\<lparr>xx_tail := t, xx_lanes := stripe (read32 t) 0 ?v, xx_tail_length := 0\<rparr>"
      have "update bytes (int start) (int e) s = Inr (whole_stripes bytes (start + taken) e ?s')"
        using True full assms(2,3) by (simp add: update_def Let_def taken_def [symmetric] t_def [symmetric])
      moreover have t16: "?pend @ slice_of bytes start (start + taken) = t" using t full by simp
      have "stripe (read32 (t @ slice_of bytes (start + taken) e)) 0 ?v = stripe (read32 t) 0 ?v"
        using stripe_take [of "t @ slice_of bytes (start + taken) e" ?v] t(1) by simp
      then have "ref_stripes ?v (?pend @ ?new) = ref_stripes (stripe (read32 t) 0 ?v) (slice_of bytes (start + taken) e)"
        unfolding new append_assoc [symmetric] t16 using t(1) by (subst ref_stripes.simps) simp
      then have "seen seed (bs @ ?new) (whole_stripes bytes (start + taken) e ?s')"
        using whole_stripes_seen [of "start + taken" e bytes ?s'] assms(2,3) tk t(1) s len ref by (simp add: seen_def)
      ultimately show ?thesis by (rule that)
    qed
  qed
qed

lemma digest_seen: "seen seed bs s \<Longrightarrow> digest s = xx_ref seed bs"
proof -
  assume s: "seen seed bs s"
  have "finish_hash (xx_tail s) (xx_tail_length s) 0 h = avalanche (ref_tail h (take (xx_tail_length s) (xx_tail s)))" for h
    using tails_are_ref [of 0 "xx_tail_length s" "xx_tail s" h] s by (simp add: seen_def slice_of_def)
  then show ?thesis using s by (simp add: digest_def xx_ref_def seen_def)
qed

primrec feed :: "(byte list \<times> int \<times> int) list \<Rightarrow> xx_stream \<Rightarrow> xx_stream result" where
  "feed [] s = Inr s"
| "feed (p # ps) s = bindR (update (fst p) (fst (snd p)) (snd (snd p)) s) (feed ps)"

definition piece_ok :: "byte list \<times> int \<times> int \<Rightarrow> bool" where
  "piece_ok p \<longleftrightarrow> 0 \<le> fst (snd p) \<and> fst (snd p) \<le> snd (snd p) \<and> snd (snd p) \<le> int (length (fst p))"

definition piece_bytes :: "byte list \<times> int \<times> int \<Rightarrow> byte list" where
  "piece_bytes p = slice_of (fst p) (nat (fst (snd p))) (nat (snd (snd p)))"

lemma feed_seen: "seen seed bs s \<Longrightarrow> list_all piece_ok ps \<Longrightarrow> \<exists>s'. feed ps s = Inr s' \<and> seen seed (bs @ concat (map piece_bytes ps)) s'"
proof (induction ps arbitrary: bs s)
  case (Cons p ps)
  obtain bytes a b where p: "p = (bytes, a, b)" by (cases p)
  have ok: "0 \<le> a" "a \<le> b" "b \<le> int (length bytes)" using Cons.prems(2) by (simp_all add: p piece_ok_def)
  obtain s1 where s1: "update bytes (int (nat a)) (int (nat b)) s = Inr s1" "seen seed (bs @ slice_of bytes (nat a) (nat b)) s1"
    by (rule update_seen [OF Cons.prems(1), of "nat a" "nat b" bytes]) (use ok in auto)
  show ?case using Cons.IH [OF s1(2)] Cons.prems(2) s1(1) ok by (simp add: p piece_bytes_def)
qed simp

lemma hash_ref:
  "xx_hash32 bytes seed start end' =
     (if 0 \<le> start \<and> start \<le> end' \<and> end' \<le> int (length bytes)
      then Inr (xx_ref seed (slice_of bytes (nat start) (nat end')))
      else Inl (RangeError ''xxHash32 range is outside the input''))"
proof (cases "0 \<le> start \<and> start \<le> end' \<and> end' \<le> int (length bytes)")
  case True
  define s e where se: "s = nat start" "e = nat end'"
  let ?bs = "slice_of bytes s e" and ?f = "first_lanes seed"
  have i: "s \<le> e" "e \<le> length bytes" using True by (auto simp: se)
  then have len: "length ?bs = e - s" by simp
  obtain v rest where r: "ref_stripes ?f ?bs = (v, rest)" by (cases "ref_stripes ?f ?bs")
  note A = stripes_are_ref [OF i(2) refl i(1), of ?f, unfolded r prod.case snd_conv]
  have "e - s \<le> length ?bs" by simp (use i in linarith)
  have B: "stripe_loop (get32 ?bs) (e - s) 0 ?f = (v, e - s - length rest)"
    using stripes_are_ref [of "e - s" ?bs "get32 ?bs" 0 ?f] len r read32_view [of _ ?bs]
    by (simp add: slice_of_full [of ?bs, unfolded len])
  have same: "(if WORD_READ_BYTES \<le> e - s then let (v, at) = stripe_loop (get32 ?bs) (e - s) 0 ?f in (v, s + at)
      else stripe_loop (read32 bytes) e s ?f) = (v, e - length rest)"
    using A B i by (auto simp: Let_def)
  have short: "\<not> 16 \<le> e - s \<Longrightarrow> rest = ?bs"
    using r len by (subst (asm) ref_stripes.simps) (simp split: if_splits)
  have fin: "finish_hash bytes e (e - length rest) h = avalanche (ref_tail h rest)" for h
    using tails_are_ref [of "e - length rest" e bytes h] A i by simp
  have "xx_hash32 bytes seed start end' = Inr (finish_hash bytes e (e - length rest)
      ((if 16 \<le> e - s then join_lanes v else seed + PRIME5) + word_of_nat (e - s)))"
  proof (cases "16 \<le> e - s")
    case True': True
    then show ?thesis using True same by (simp add: xx_hash32_def se [symmetric] Let_def)
  next
    case False
    then have "e - length rest = s" using short len i by simp
    then show ?thesis using True False by (simp add: xx_hash32_def se [symmetric] Let_def)
  qed
  also have "\<dots> = Inr (xx_ref seed ?bs)" unfolding fin xx_ref_def r prod.case len ..
  finally show ?thesis using True by (simp add: se)
next
  case False
  then show ?thesis by (auto simp: xx_hash32_def)
qed

subsection \<open>The specification\<close>

text \<open>Each step of the code, read as an integer, is the step of the specification.\<close>

lemma uint_rotate: "0 < k \<Longrightarrow> k < 32 \<Longrightarrow> uint (rotate k w) = rotl32 k (uint w)"
  unfolding rotate_def by (rule uint_rotl32)

lemma uint_primes: "uint PRIME1 = PRIME32_1" "uint PRIME2 = PRIME32_2" "uint PRIME3 = PRIME32_3" "uint PRIME4 = PRIME32_4" "uint PRIME5 = PRIME32_5"
  by (simp_all add: PRIME1_def PRIME2_def PRIME3_def PRIME4_def PRIME5_def PRIME32_1_def PRIME32_2_def PRIME32_3_def PRIME32_4_def PRIME32_5_def)

lemmas spec_steps = uint_rotate uint_primes uint_add32 uint_mul32 uint_shift_xor

lemma uint_read32: "4 \<le> length bs \<Longrightarrow> uint (read32 bs 0) = le_number (map uint (take 4 bs))"
proof -
  assume l: "4 \<le> length bs"
  define w where "w = [at0 bs 0, at0 bs 1, at0 bs 2, at0 bs 3]"
  have t: "take 4 bs = w" using four_bytes [of 0 bs] l by (simp add: slice_of_def eval_nat_numeral w_def)
  have "length w = 4" by (simp add: w_def)
  then have "le_val w < 2 ^ 32" using le_val_bound [of w] by simp
  moreover have "read32 bs 0 = word_of_nat (le_val w)"
    unfolding read32_word word_of_bytes_nat w_def by (simp only: add_0)
  ultimately show ?thesis unfolding le_number_le_val t by (simp add: unsigned_of_nat take_bit_nat_eq_self)
qed

definition lane_list :: "lanes \<Rightarrow> int list" where
  "lane_list v = (case v of (v1, v2, v3, v4) \<Rightarrow> map uint [v1, v2, v3, v4])"

lemma first_lanes_spec: "lane_list (first_lanes seed) = accumulators (uint seed)"
  by (simp add: lane_list_def first_lanes_def accumulators_def spec_steps) (simp add: uint_word_ariths uint_primes U32_def)

lemma round_spec: "uint (round v lane) = accumulate (uint v) (uint lane)"
  by (simp add: round_def accumulate_def spec_steps)

lemma join_lanes_spec: "uint (join_lanes v) = converge (lane_list v)"
proof -
  obtain v1 v2 v3 v4 where v: "v = (v1, v2, v3, v4)" by (metis prod_cases4)
  have "add32 0 x = x" if "0 \<le> x" "x < U32" for x using that by (simp add: add32_def)
  moreover have "rotl32 1 (uint v1) = uint (rotate 1 v1)" by (simp add: uint_rotate)
  ultimately have "add32 0 (rotl32 1 (uint v1)) = rotl32 1 (uint v1)" using uint_bounded [of "rotate 1 v1"] by (simp add: U32_def)
  then show ?thesis by (simp add: v join_lanes_def converge_def lane_list_def spec_steps)
qed

lemma avalanche_spec: "uint (avalanche h) = final_mix (uint h)"
  by (simp add: avalanche_def Let_def final_mix_def spec_steps)

lemma pieces_of_stripe: "length piece = 16 \<Longrightarrow> whole_pieces 4 piece = [take 4 piece, take 4 (drop 4 piece), take 4 (drop 8 piece), take 4 (drop 12 piece)]"
  by (simp add: whole_pieces_def upt_conv_Cons)

lemma stripe_spec:
  assumes "16 \<le> length bs"
  shows "lane_list (stripe (read32 bs) 0 v) = process_stripe (lane_list v) (map uint (take 16 bs))"
proof -
  obtain v1 v2 v3 v4 where v: "v = (v1, v2, v3, v4)" by (metis prod_cases4)
  have r: "uint (read32 bs i) = le_number (map uint (take 4 (drop i (take 16 bs))))" if "i + 4 \<le> 16" for i
    using that assms read32_drop [of i bs] uint_read32 [of "drop i bs"] by (simp add: drop_take min_def)
  show ?thesis
    using r [of 0] r [of 4] r [of 8] r [of 12] assms
    by (simp add: v stripe_def lane_list_def process_stripe_def round_spec whole_pieces_map(1) pieces_of_stripe)
qed

lemma stripes_spec:
  "lane_list (fst (ref_stripes v bs)) = foldl process_stripe (lane_list v) (map (map uint) (whole_pieces 16 bs))
   \<and> snd (ref_stripes v bs) = leftover 16 bs"
proof (induction v bs rule: ref_stripes.induct)
  case (1 v bs)
  show ?case
  proof (cases "16 \<le> length bs")
    case True
    then have "ref_stripes v bs = ref_stripes (stripe (read32 bs) 0 v) (drop 16 bs)" by (subst ref_stripes.simps) simp
    then show ?thesis using 1 [OF True] whole_pieces_step [of 16 bs] stripe_spec [OF True] True by simp
  next
    case False
    then show ?thesis using whole_pieces_short [of bs 16] by (simp add: ref_short)
  qed
qed

lemma bytes_spec: "uint (foldl (\<lambda>hash (b :: byte). rotate 11 (hash + ucast b * PRIME5) * PRIME1) h bs) = foldl consume_byte (uint h) (map uint bs)"
proof (induction bs arbitrary: h)
  case (Cons b bs)
  have "uint (ucast b :: u32) = uint b" using order.strict_trans [OF uint_bounded [of b], of "2 ^ 32"] by (simp add: unsigned_ucast_eq take_bit_int_eq_self_iff)
  then show ?case using Cons [of "rotate 11 (h + ucast b * PRIME5) * PRIME1"] by (simp add: consume_byte_def spec_steps)
qed simp

lemma tail_spec:
  "uint (ref_tail h bs) = foldl consume_byte (foldl consume_lane (uint h) (map (map uint) (whole_pieces 4 bs))) (map uint (leftover 4 bs))"
proof (induction "length bs" arbitrary: h bs rule: less_induct)
  case less
  show ?case
  proof (cases "4 \<le> length bs")
    case True
    then obtain a b c d rest where bs: "bs = a # b # c # d # rest"
      by (cases "(h, bs)" rule: ref_tail.cases) auto
    let ?h = "rotate 17 (h + read32 [a, b, c, d] 0 * PRIME3) * PRIME4"
    have "uint ?h = consume_lane (uint h) (map uint [a, b, c, d])"
      using uint_read32 [of "[a, b, c, d]"] by (simp add: consume_lane_def spec_steps)
    then show ?thesis using less [of rest ?h] whole_pieces_step [of 4 bs] by (simp add: bs)
  next
    case False
    then show ?thesis using whole_pieces_short [of bs 4] bytes_spec [of h bs] by (simp add: ref_tail_short)
  qed
qed

lemma ref_is_xxh32: "uint (xx_ref seed bs) = xxh32 (uint seed) (map uint bs)"
proof -
  obtain v rest where r: "ref_stripes (first_lanes seed) bs = (v, rest)" by (cases "ref_stripes (first_lanes seed) bs")
  have v: "lane_list v = foldl process_stripe (accumulators (uint seed)) (whole_pieces 16 (map uint bs))" "rest = leftover 16 bs"
    using stripes_spec [of "first_lanes seed" bs] r by (simp_all add: first_lanes_spec whole_pieces_map(1))
  have n: "add32 x (uint (word_of_nat (length bs) :: u32)) = add32 x (int (length bs))" for x
    by (simp add: add32_def U32_def unsigned_of_nat take_bit_eq_mod zmod_int mod_add_right_eq)
  show ?thesis unfolding xx_ref_def r prod.case
    by (simp add: avalanche_spec tail_spec xxh32_def Let_def uint_add32 n join_lanes_spec v uint_primes whole_pieces_map)
qed

subsection \<open>Properties of the hash\<close>

text \<open>
  Property C35: \<open>xxHash32\<close> is XXH32 of the bytes of its range, the specification's algorithm as \<open>Xxh32Spec\<close> states it on integers and
  lists, which shares no definition with the code and gives the published vectors: whatever the alignment, whether the stripes are
  read by words through a view or byte by byte. A range outside the input is refused.
\<close>

theorem hash_is_reference:
  "xx_hash32 bytes seed start end' =
     (if 0 \<le> start \<and> start \<le> end' \<and> end' \<le> int (length bytes)
      then Inr (word_of_int (xxh32 (uint seed) (map uint (slice_of bytes (nat start) (nat end')))))
      else Inl (RangeError ''xxHash32 range is outside the input''))"
  unfolding hash_ref ref_is_xxh32 [symmetric] by simp

text \<open>
  The streaming form hashes the concatenation of its pieces: after any updates with ranges inside their
  inputs, however the stripes fall across them, \<open>digest\<close> is \<open>xxHash32\<close> of all the bytes given, with the same seed.
\<close>

theorem stream_is_one_shot:
  assumes "list_all piece_ok pieces"
  defines "bytes \<equiv> concat (map piece_bytes pieces)"
  shows "\<exists>s. feed pieces (new_stream seed) = Inr s \<and> xx_hash32 bytes seed 0 (int (length bytes)) = Inr (digest s)"
proof -
  obtain s where s: "feed pieces (new_stream seed) = Inr s" "seen seed bytes s"
    using feed_seen [OF seen_new assms(1), of seed] by (auto simp: bytes_def)
  have "xx_hash32 bytes seed 0 (int (length bytes)) = Inr (xx_ref seed bytes)" using hash_ref [of bytes seed 0 "int (length bytes)"] by simp
  then show ?thesis using s digest_seen by auto
qed

lemma stream_is_one_shot_witness:
  "\<exists>s. feed [([1, 2, 3], 1, 3), (replicate 30 7, 0, 30), ([], 0, 0)] (new_stream 9) = Inr s
    \<and> xx_hash32 ([2, 3] @ replicate 30 7) 9 0 32 = Inr (digest s)"
proof -
  let ?ps = "[([1, 2, 3], 1, 3), (replicate 30 (7 :: byte), 0, 30), ([], 0, 0)]"
  have "list_all piece_ok ?ps" by (simp add: piece_ok_def)
  from stream_is_one_shot [OF this, of 9] show ?thesis by (simp add: piece_bytes_def slice_of_def numeral_eq_Suc)
qed

end
