(* ===== verification/LogFrame.thy ===== *)
theory LogFrame
  imports XxHash
begin

text \<open>
  \<open>next/format/log-frame.ts\<close>: the second engine's log. Frames with a chained checksum, two header slots that record an acknowledged
  boundary, and the scan of recovery. A salt or checksum is a 32-bit word (\<open>>>> 0\<close> of the source); LSNs, generations and offsets in
  headers are integers. The incremental scan is the same state machine over a reader and a sink that may fail.
\<close>

definition LOG_FRAME_MAGIC :: nat where "LOG_FRAME_MAGIC = 0x464c4e4d"
definition HEADER_MAGIC :: nat where "HEADER_MAGIC = 0x484c4e4d"
definition LOG_FORMAT_VERSION :: nat where "LOG_FORMAT_VERSION = 1"
definition LOG_FRAME_HEADER_BYTES :: nat where "LOG_FRAME_HEADER_BYTES = 28"
definition LOG_HEADER_BYTES :: nat where "LOG_HEADER_BYTES = 52"
definition MAX_FRAME_BYTES :: nat where "MAX_FRAME_BYTES = 1024 * 1024"
definition MAX_FRAME_BODY_BYTES :: nat where "MAX_FRAME_BODY_BYTES = MAX_FRAME_BYTES - 32"
definition MAX_FRAME_PARTS :: int where "MAX_FRAME_PARTS = 0xffff"
definition COMMIT_KIND :: byte where "COMMIT_KIND = 1"
definition SAFE_HIGH_WORD :: nat where "SAFE_HIGH_WORD = 0x1fffff"
definition LOG_HEADER_SLOT_BYTES :: nat where "LOG_HEADER_SLOT_BYTES = 512"

definition set_u53 :: "byte list \<Rightarrow> nat \<Rightarrow> int \<Rightarrow> byte list result" where
  "set_u53 view at v =
     (if \<not> is_safe_integer v \<or> v < 0 then Inl (RangeError ''Not a u53'')
      else Inr (set_at (set_at view at (le_bytes 4 (nat (v mod 2 ^ 32)))) (at + 4) (le_bytes 4 (nat (v div 2 ^ 32)))))"

definition get_u53 :: "byte list \<Rightarrow> nat \<Rightarrow> int" where
  "get_u53 view at = (let high = get_le 4 view (at + 4) in
     if SAFE_HIGH_WORD < high then - 1 else int (get_le 4 view at) + int high * 2 ^ 32)"

definition frame_length :: "nat \<Rightarrow> nat" where
  "frame_length body_length = (LOG_FRAME_HEADER_BYTES + body_length + 4 + 7) div 8 * 8"

record frame_position =
  fp_salt :: u32
  fp_lsn :: int
  fp_index :: int
  fp_count :: int

definition encode_frame :: "frame_position \<Rightarrow> byte list \<Rightarrow> u32 \<Rightarrow> (byte list \<times> u32) result" where
  "encode_frame p body previous_chain =
     (if MAX_FRAME_BODY_BYTES < length body then Inl (RangeError ''Log frame body is too large'')
      else if \<not> is_safe_integer (fp_lsn p) \<or> fp_lsn p < 1 then Inl (RangeError ''Bad LSN'')
      else if \<not> (1 \<le> fp_count p \<and> fp_count p \<le> MAX_FRAME_PARTS \<and> 0 \<le> fp_index p \<and> fp_index p < fp_count p)
      then Inl (RangeError ''Bad transaction part'')
      else
        let bytes = replicate (frame_length (length body)) 0;
            bytes = set_at bytes 0 (le_bytes 4 LOG_FRAME_MAGIC);
            bytes = set_at bytes 4 (le32 (fp_salt p))
        in bindR (set_u53 bytes 8 (fp_lsn p)) (\<lambda>bytes.
        let bytes = set_at bytes 16 (le_bytes 4 (length body));
            bytes = bytes[20 := COMMIT_KIND];
            bytes = set_at bytes 22 (le_bytes 2 (nat (fp_index p)));
            bytes = set_at bytes 24 (le_bytes 2 (nat (fp_count p)));
            bytes = set_at bytes LOG_FRAME_HEADER_BYTES body
        in bindR (xx_hash32 bytes previous_chain 0 (int (length bytes) - 4)) (\<lambda>chain.
        Inr (set_at bytes (length bytes - 4) (le32 chain), chain))))"

record log_header =
  lh_salt :: u32
  lh_generation :: int
  lh_ack_end :: int
  lh_ack_chain :: u32
  lh_ack_lsn :: int
  lh_root_sequence :: int

definition encode_log_header :: "log_header \<Rightarrow> byte list result" where
  "encode_log_header h =
     (let bytes = replicate LOG_HEADER_BYTES 0;
          bytes = set_at bytes 0 (le_bytes 4 HEADER_MAGIC);
          bytes = set_at bytes 4 (le_bytes 4 LOG_FORMAT_VERSION);
          bytes = set_at bytes 8 (le32 (lh_salt h))
      in bindR (set_u53 bytes 12 (lh_generation h)) (\<lambda>bytes.
         bindR (set_u53 bytes 20 (lh_ack_end h)) (\<lambda>bytes.
         let bytes = set_at bytes 28 (le32 (lh_ack_chain h)) in
         bindR (set_u53 bytes 32 (lh_ack_lsn h)) (\<lambda>bytes.
         bindR (set_u53 bytes 40 (lh_root_sequence h)) (\<lambda>bytes.
         bindR (xx_hash32 bytes 0 0 48) (\<lambda>hash.
         Inr (set_at bytes 48 (le32 hash))))))))"

definition decode_log_header :: "byte list option \<Rightarrow> log_header option" where
  "decode_log_header slot = (case slot of
     None \<Rightarrow> None
   | Some bytes \<Rightarrow>
       if length bytes < LOG_HEADER_BYTES \<or> LOG_HEADER_SLOT_BYTES < length bytes then None
       else if get_le 4 bytes 0 \<noteq> HEADER_MAGIC then None
       else if Inr (get32 bytes 48) \<noteq> xx_hash32 bytes 0 0 48 then None
       else if get_le 4 bytes 4 \<noteq> LOG_FORMAT_VERSION then None
       else
         let h = \<lparr>lh_salt = get32 bytes 8, lh_generation = get_u53 bytes 12, lh_ack_end = get_u53 bytes 20,
                  lh_ack_chain = get32 bytes 28, lh_ack_lsn = get_u53 bytes 32, lh_root_sequence = get_u53 bytes 40\<rparr>
         in if lh_generation h < 0 \<or> lh_ack_end h < 0 \<or> lh_ack_lsn h < 0 \<or> lh_root_sequence h < 0 then None else Some h)"

definition own_header :: "u32 \<Rightarrow> byte list option \<Rightarrow> log_header option" where
  "own_header salt slot = (case decode_log_header slot of Some h \<Rightarrow> if lh_salt h = salt then Some h else None | None \<Rightarrow> None)"

definition newest_log_header :: "byte list option \<times> byte list option \<Rightarrow> u32 \<Rightarrow> log_header option \<times> nat" where
  "newest_log_header slots salt =
     (case (own_header salt (fst slots), own_header salt (snd slots)) of
        (Some a, None) \<Rightarrow> (Some a, 1)
      | (Some a, Some b) \<Rightarrow> if lh_generation b < lh_generation a then (Some a, 1) else (Some b, 0)
      | (None, Some b) \<Rightarrow> (Some b, 0)
      | (None, None) \<Rightarrow> (None, 0))"

subsection \<open>The scan\<close>

record scanned_frame =
  sf_offset :: nat
  sf_lsn :: int
  sf_transaction :: int
  sf_index :: nat
  sf_count :: nat
  sf_body :: "byte list"

record incarnation =
  in_salt :: u32
  in_first_lsn :: int
  in_root_sequence :: int

record scan_boundary =
  sb_end :: nat
  sb_chain :: u32
  sb_lsn :: int

record scan_state =
  ss_header :: "log_header option"
  ss_salt :: u32
  ss_offset :: nat
  ss_chain :: u32
  ss_lsn :: int
  ss_open_parts :: nat
  ss_open_count :: nat
  ss_boundary :: scan_boundary
  ss_landed :: bool

record scan_summary =
  su_valid_end :: nat
  su_chain :: u32
  su_last_lsn :: int
  su_abandoned :: nat
  su_header :: "log_header option"

definition start_scan :: "byte list option \<times> byte list option \<Rightarrow> incarnation \<Rightarrow> scan_state result" where
  "start_scan slots inc =
     (let salt = in_salt inc; newer = (\<lambda>slot. case decode_log_header slot of
            Some other \<Rightarrow> lh_salt other \<noteq> salt \<and> in_root_sequence inc < lh_root_sequence other | None \<Rightarrow> False)
      in if newer (fst slots) \<or> newer (snd slots) then Inl (CorruptionError ''The log belongs to a newer root than the one on disk'')
      else
        let header = fst (newest_log_header slots salt); empty = in_first_lsn inc - 1;
            acked = (case header of None \<Rightarrow> 0 | Some h \<Rightarrow> lh_ack_end h)
        in if (case header of None \<Rightarrow> False | Some h \<Rightarrow> lh_ack_end h = 0 \<and> (lh_ack_chain h \<noteq> salt \<or> lh_ack_lsn h \<noteq> empty))
           then Inl (CorruptionError ''An empty acknowledged boundary has the wrong chain or LSN'')
           else Inr \<lparr>ss_header = header, ss_salt = salt, ss_offset = 0, ss_chain = salt, ss_lsn = empty, ss_open_parts = 0, ss_open_count = 0,
                     ss_boundary = \<lparr>sb_end = 0, sb_chain = salt, sb_lsn = empty\<rparr>, ss_landed = (acked = 0)\<rparr>)"

definition scan_length :: "scan_state \<Rightarrow> byte list \<Rightarrow> nat option" where
  "scan_length s head =
     (if length head < LOG_FRAME_HEADER_BYTES then None
      else if get_le 4 head 0 \<noteq> LOG_FRAME_MAGIC \<or> get32 head 4 \<noteq> ss_salt s then None
      else let body_length = get_le 4 head 16 in
           if MAX_FRAME_BODY_BYTES < body_length then None else Some (frame_length body_length))"

definition accept :: "scan_state \<Rightarrow> byte list \<Rightarrow> (scan_state \<times> scanned_frame \<times> bool) option result" where
  "accept s bytes =
     (let n = length bytes in
      bindR (xx_hash32 bytes (ss_chain s) 0 (int n - 4)) (\<lambda>expected.
      let frame_lsn = get_u53 bytes 8; part_index = get_le 2 bytes 22; part_count = get_le 2 bytes 24 in
      if get32 bytes (n - 4) \<noteq> expected then Inr None
      else if frame_lsn \<noteq> ss_lsn s + 1 \<or> at0 bytes 20 \<noteq> COMMIT_KIND then Inr None
      else if at0 bytes 21 \<noteq> 0 \<or> get_le 2 bytes 26 \<noteq> 0 then Inr None
      else if part_count < 1 \<or> part_count \<le> part_index then Inr None
      else if \<not> (if part_index = 0 then ss_open_parts s = 0 else ss_open_parts s = part_index \<and> ss_open_count s = part_count) then Inr None
      else
        let body_length = get_le 4 bytes 16;
            frame = \<lparr>sf_offset = ss_offset s, sf_lsn = frame_lsn, sf_transaction = frame_lsn - int part_index, sf_index = part_index,
                     sf_count = part_count, sf_body = slice_of bytes LOG_FRAME_HEADER_BYTES (LOG_FRAME_HEADER_BYTES + body_length)\<rparr>;
            s = s\<lparr>ss_chain := expected, ss_lsn := frame_lsn, ss_offset := ss_offset s + n, ss_open_parts := part_index + 1, ss_open_count := part_count\<rparr>;
            completes = (part_index + 1 = part_count);
            ends = (case ss_header s of None \<Rightarrow> False | Some h \<Rightarrow> int (ss_offset s) = lh_ack_end h);
            wrong = (case ss_header s of None \<Rightarrow> False | Some h \<Rightarrow> ss_chain s \<noteq> lh_ack_chain h \<or> ss_lsn s \<noteq> lh_ack_lsn h)
        in if completes \<and> ends \<and> wrong then Inl (CorruptionError ''The acknowledged boundary does not match its frame'')
           else
             let s = (if completes
                      then s\<lparr>ss_open_parts := 0, ss_boundary := \<lparr>sb_end = ss_offset s, sb_chain = ss_chain s, sb_lsn = ss_lsn s\<rparr>,
                             ss_landed := (ss_landed s \<or> ends)\<rparr>
                      else s)
             in if (case ss_header s of None \<Rightarrow> False | Some h \<Rightarrow> \<not> ss_landed s \<and> lh_ack_end h < int (ss_offset s))
                then Inl (CorruptionError ''The acknowledged boundary is not a transaction end'')
                else Inr (Some (s, frame, completes))))"

definition finish_scan :: "scan_state \<Rightarrow> scan_summary result" where
  "finish_scan s =
     (if \<not> ss_landed s then Inl (CorruptionError ''Acknowledged log frames are missing'')
      else Inr \<lparr>su_valid_end = sb_end (ss_boundary s), su_chain = sb_chain (ss_boundary s), su_last_lsn = sb_lsn (ss_boundary s),
                su_abandoned = ss_open_parts s, su_header = ss_header s\<rparr>)"

lemma accept_offset: "accept s bytes = Inr (Some (s', f, c)) \<Longrightarrow> ss_offset s' = ss_offset s + length bytes"
  by (auto simp: accept_def Let_def bindR_eq_Inr split: if_splits)

lemma scan_length_pos: "scan_length s head = Some n \<Longrightarrow> 32 \<le> n"
  by (auto simp: scan_length_def Let_def frame_length_def LOG_FRAME_HEADER_BYTES_def split: if_splits)

function scan_loop :: "byte list \<Rightarrow> scan_state \<Rightarrow> scanned_frame list \<Rightarrow> scanned_frame list \<Rightarrow> (scan_state \<times> scanned_frame list) result" where
  "scan_loop body s frames open' =
     (case scan_length s (slice_of body (ss_offset s) (ss_offset s + LOG_FRAME_HEADER_BYTES)) of
        None \<Rightarrow> Inr (s, frames)
      | Some n \<Rightarrow>
          if length body < ss_offset s + n then Inr (s, frames)
          else case accept s (slice_of body (ss_offset s) (ss_offset s + n)) of
                 Inl e \<Rightarrow> Inl e
               | Inr None \<Rightarrow> Inr (s, frames)
               | Inr (Some (s', f, completes)) \<Rightarrow>
                   if completes then scan_loop body s' (frames @ open' @ [f]) [] else scan_loop body s' frames (open' @ [f]))"
  by pat_completeness auto
termination
  by (relation "measure (\<lambda>(body, s, frames, open'). length body - ss_offset s)")
    (auto dest!: accept_offset scan_length_pos simp: min_def split: if_splits)

declare scan_loop.simps [simp del]

definition scan_log :: "byte list \<Rightarrow> byte list option \<times> byte list option \<Rightarrow> incarnation \<Rightarrow> (scan_summary \<times> scanned_frame list) result" where
  "scan_log body slots inc =
     bindR (start_scan slots inc) (\<lambda>s.
     bindR (scan_loop body s [] []) (\<lambda>(s, frames).
     bindR (finish_scan s) (\<lambda>summary. Inr (summary, frames))))"

section \<open>The bytes of a frame\<close>

definition frame_content :: "u32 \<Rightarrow> int \<Rightarrow> nat \<Rightarrow> nat \<Rightarrow> byte list \<Rightarrow> byte list" where
  "frame_content salt lsn i n body =
     le_bytes 4 LOG_FRAME_MAGIC @ le32 salt @ le_bytes 4 (nat (lsn mod 2 ^ 32)) @ le_bytes 4 (nat (lsn div 2 ^ 32)) @ le_bytes 4 (length body)
     @ [COMMIT_KIND, 0] @ le_bytes 2 i @ le_bytes 2 n @ [0, 0] @ body @ replicate (frame_length (length body) - 32 - length body) 0"

definition frame_chain :: "u32 \<Rightarrow> int \<Rightarrow> nat \<Rightarrow> nat \<Rightarrow> byte list \<Rightarrow> u32 \<Rightarrow> u32" where
  "frame_chain salt lsn i n body previous = xx_ref previous (frame_content salt lsn i n body)"

definition log_frame_bytes :: "u32 \<Rightarrow> int \<Rightarrow> nat \<Rightarrow> nat \<Rightarrow> byte list \<Rightarrow> u32 \<Rightarrow> byte list" where
  "log_frame_bytes salt lsn i n body previous = frame_content salt lsn i n body @ le32 (frame_chain salt lsn i n body previous)"

lemma frame_length_ge: "len + 32 \<le> frame_length len" "frame_length len < len + 40"
  by (simp_all add: frame_length_def LOG_FRAME_HEADER_BYTES_def)

lemma length_frame_content [simp]: "length (frame_content salt lsn i n body) = frame_length (length body) - 4"
  using frame_length_ge [of "length body"] by (simp add: frame_content_def)

lemma length_frame_bytes [simp]: "length (log_frame_bytes salt lsn i n body previous) = frame_length (length body)"
  using frame_length_ge [of "length body"] by (simp add: log_frame_bytes_def)

lemma list_update_set_at: "i < length xs \<Longrightarrow> xs[i := x] = set_at xs i [x]"
  by (simp add: set_at_def upd_conv_take_nth_drop)

lemma set_at_zeros: "length xs = at \<Longrightarrow> set_at (xs @ replicate m 0) at src = xs @ src @ replicate (m - length src) 0"
  by (simp add: set_at_def)

lemma set_u53_at: "is_safe_integer v \<Longrightarrow> 0 \<le> v \<Longrightarrow> length xs = at \<Longrightarrow>
    set_u53 (xs @ replicate m 0) at v = Inr ((xs @ le_bytes 4 (nat (v mod 2 ^ 32)) @ le_bytes 4 (nat (v div 2 ^ 32))) @ replicate (m - 8) 0)"
  using set_at_zeros [of xs at m "le_bytes 4 (nat (v mod 2 ^ 32))"]
    set_at_zeros [of "xs @ le_bytes 4 (nat (v mod 2 ^ 32))" "at + 4" "m - 4" "le_bytes 4 (nat (v div 2 ^ 32))"]
  by (simp add: set_u53_def)

lemma replicate_skip: "replicate m 0 = replicate k 0 @ replicate (m - k) (0 :: byte)" if "k \<le> m"
  using that by (simp flip: replicate_add)

definition good_position :: "int \<Rightarrow> nat \<Rightarrow> nat \<Rightarrow> byte list \<Rightarrow> bool" where
  "good_position lsn i n body \<longleftrightarrow> is_safe_integer lsn \<and> 1 \<le> lsn \<and> i < n \<and> n \<le> 65535 \<and> length body \<le> MAX_FRAME_BODY_BYTES"

lemma encode_frame_bytes:
  assumes "good_position lsn i n body"
  shows "encode_frame \<lparr>fp_salt = salt, fp_lsn = lsn, fp_index = int i, fp_count = int n\<rparr> body previous
    = Inr (log_frame_bytes salt lsn i n body previous, frame_chain salt lsn i n body previous)"
proof -
  note g = assms [unfolded good_position_def]
  let ?m = "frame_length (length body)"
  note m = frame_length_ge [of "length body"]
  let ?h0 = "le_bytes 4 LOG_FRAME_MAGIC @ le32 salt" and ?lsn = "le_bytes 4 (nat (lsn mod 2 ^ 32)) @ le_bytes 4 (nat (lsn div 2 ^ 32))"
  have a: "set_at (set_at (replicate ?m 0) 0 (le_bytes 4 LOG_FRAME_MAGIC)) 4 (le32 salt) = ?h0 @ replicate (?m - 8) 0"
    using set_at_zeros [of "[]" 0 ?m "le_bytes 4 LOG_FRAME_MAGIC"] set_at_zeros [of "le_bytes 4 LOG_FRAME_MAGIC" 4 "?m - 4" "le32 salt"] by simp
  have b: "set_u53 (?h0 @ replicate (?m - 8) 0) 8 lsn = Inr ((?h0 @ ?lsn) @ replicate (?m - 16) 0)"
    using set_u53_at [of lsn ?h0 8 "?m - 8"] g by simp
  let ?h1 = "(?h0 @ ?lsn) @ le_bytes 4 (length body)"
  have c: "set_at ((?h0 @ ?lsn) @ replicate (?m - 16) 0) 16 (le_bytes 4 (length body)) = ?h1 @ replicate (?m - 20) 0"
    using set_at_zeros [of "?h0 @ ?lsn" 16 "?m - 16"] by simp
  have d: "(?h1 @ replicate (?m - 20) 0)[20 := COMMIT_KIND] = (?h1 @ [COMMIT_KIND, 0]) @ replicate (?m - 22) 0"
    using set_at_zeros [of ?h1 20 "?m - 20" "[COMMIT_KIND]"] replicate_skip [of 1 "?m - 21"] m by (subst list_update_set_at) simp_all
  let ?h2 = "(?h1 @ [COMMIT_KIND, 0]) @ le_bytes 2 i" and ?h3 = "((?h1 @ [COMMIT_KIND, 0]) @ le_bytes 2 i) @ le_bytes 2 n @ [0, 0]"
  have e: "set_at ((?h1 @ [COMMIT_KIND, 0]) @ replicate (?m - 22) 0) 22 (le_bytes 2 (nat (int i))) = ?h2 @ replicate (?m - 24) 0"
    using set_at_zeros [of "?h1 @ [COMMIT_KIND, 0]" 22 "?m - 22"] by simp
  have f: "set_at (?h2 @ replicate (?m - 24) 0) 24 (le_bytes 2 (nat (int n))) = ?h3 @ replicate (?m - 28) 0"
    using set_at_zeros [of ?h2 24 "?m - 24" "le_bytes 2 n"] replicate_skip [of 2 "?m - 26"] m by (simp add: numeral_2_eq_2)
  let ?c = "frame_content salt lsn i n body"
  have h: "set_at (?h3 @ replicate (?m - 28) 0) LOG_FRAME_HEADER_BYTES body = ?c @ replicate 4 0"
    using set_at_zeros [of ?h3 28 "?m - 28" body] replicate_skip [of "?m - 32 - length body" "?m - 28 - length body"] m
    by (simp add: LOG_FRAME_HEADER_BYTES_def frame_content_def)
  have "xx_hash32 (?c @ replicate 4 0) previous 0 (int (?m - 4)) = Inr (xx_ref previous (slice_of (?c @ replicate 4 0) 0 (?m - 4)))"
    using m by (simp only: hash_ref nat_int) simp
  also have "slice_of (?c @ replicate 4 0) 0 (?m - 4) = ?c" by (simp add: slice_of_def)
  finally have x: "xx_hash32 (?c @ replicate 4 0) previous 0 (int ?m - 4) = Inr (frame_chain salt lsn i n body previous)"
    using m by (simp add: frame_chain_def of_nat_diff)
  have l: "int (length (?c @ replicate 4 0)) - 4 = int ?m - 4" "length (?c @ replicate 4 0) - 4 = ?m - 4" using m by (simp_all add: of_nat_diff)
  have z: "set_at (?c @ replicate 4 0) (?m - 4) (le32 (frame_chain salt lsn i n body previous)) = log_frame_bytes salt lsn i n body previous"
    by (simp add: set_at_def log_frame_bytes_def)
  have "encode_frame \<lparr>fp_salt = salt, fp_lsn = lsn, fp_index = int i, fp_count = int n\<rparr> body previous =
      bindR (set_u53 (?h0 @ replicate (?m - 8) 0) 8 lsn) (\<lambda>bytes.
        let bytes = set_at bytes 16 (le_bytes 4 (length body)); bytes = bytes[20 := COMMIT_KIND]; bytes = set_at bytes 22 (le_bytes 2 (nat (int i)));
            bytes = set_at bytes 24 (le_bytes 2 (nat (int n))); bytes = set_at bytes LOG_FRAME_HEADER_BYTES body
        in bindR (xx_hash32 bytes previous 0 (int (length bytes) - 4)) (\<lambda>chain. Inr (set_at bytes (length bytes - 4) (le32 chain), chain)))"
    using g unfolding encode_frame_def Let_def a [symmetric] by (simp add: MAX_FRAME_PARTS_def)
  also have "\<dots> = Inr (log_frame_bytes salt lsn i n body previous, frame_chain salt lsn i n body previous)"
    unfolding b bindR_simps Let_def c d e f h l x z ..
  finally show ?thesis .
qed

lemma u53_parts: "0 \<le> v \<Longrightarrow> is_safe_integer v \<Longrightarrow>
    nat (v mod 2 ^ 32) < 2 ^ 32 \<and> nat (v div 2 ^ 32) \<le> SAFE_HIGH_WORD \<and> int (nat (v mod 2 ^ 32)) + int (nat (v div 2 ^ 32)) * 2 ^ 32 = v"
proof -
  assume v: "0 \<le> v" "is_safe_integer v"
  then have "v div 2 ^ 32 \<le> 9007199254740991 div 2 ^ 32" by (intro zdiv_mono1) (simp_all add: safe_int_defs)
  then have b: "nat (v div 2 ^ 32) \<le> SAFE_HIGH_WORD" by (simp add: SAFE_HIGH_WORD_def)
  have "0 \<le> v div 2 ^ 32" using v(1) pos_imp_zdiv_nonneg_iff [of "2 ^ 32" v] by simp
  then have "int (nat (v div 2 ^ 32)) = v div 2 ^ 32" by (rule nat_0_le)
  moreover have "int (nat (v mod 2 ^ 32)) = v mod 2 ^ 32" by (rule nat_0_le) simp
  ultimately have "int (nat (v mod 2 ^ 32)) + int (nat (v div 2 ^ 32)) * 2 ^ 32 = v" by simp
  moreover have "nat (v mod 2 ^ 32) < 2 ^ 32" by (simp add: nat_less_iff)
  ultimately show ?thesis using b by blast
qed

lemma get_u53_skip [bytes_simps]: "length xs \<le> at \<Longrightarrow> get_u53 (xs @ ys) at = get_u53 ys (at - length xs)"
  by (simp add: get_u53_def get_le_skip Let_def)

lemma get_u53_words: "lo < 2 ^ 32 \<Longrightarrow> hi \<le> SAFE_HIGH_WORD \<Longrightarrow> get_u53 (le_bytes 4 lo @ le_bytes 4 hi @ ys) 0 = int lo + int hi * 2 ^ 32"
  by (simp add: get_u53_def Let_def SAFE_HIGH_WORD_def bytes_simps)

lemma get_u53_here: "0 \<le> v \<Longrightarrow> is_safe_integer v \<Longrightarrow> get_u53 (le_bytes 4 (nat (v mod 2 ^ 32)) @ le_bytes 4 (nat (v div 2 ^ 32)) @ ys) 0 = v"
  using u53_parts [of v] get_u53_words [of "nat (v mod 2 ^ 32)" "nat (v div 2 ^ 32)" ys] by presburger

lemma frame_fields:
  fixes salt :: u32 and rest :: "byte list"
  assumes "good_position lsn i n body"
  defines "b \<equiv> frame_content salt lsn i n body @ rest"
  shows "get_le 4 b 0 = LOG_FRAME_MAGIC" "get32 b 4 = salt" "get_u53 b 8 = lsn" "get_le 4 b 16 = length body" "at0 b 20 = COMMIT_KIND" "at0 b 21 = 0"
    "get_le 2 b 22 = i" "get_le 2 b 24 = n" "get_le 2 b 26 = 0" "slice_of b 28 (28 + length body) = body"
proof -
  note g = assms(1) [unfolded good_position_def MAX_FRAME_BODY_BYTES_def MAX_FRAME_BYTES_def]
  let ?lsn = "le_bytes 4 (nat (lsn mod 2 ^ 32)) @ le_bytes 4 (nat (lsn div 2 ^ 32))"
  show "get_le 4 b 0 = LOG_FRAME_MAGIC" "get32 b 4 = salt" by (simp_all add: b_def frame_content_def bytes_simps LOG_FRAME_MAGIC_def)
  have e: "b = (le_bytes 4 LOG_FRAME_MAGIC @ le32 salt) @ le_bytes 4 (nat (lsn mod 2 ^ 32)) @ le_bytes 4 (nat (lsn div 2 ^ 32)) @ drop 16 b"
    by (simp add: b_def frame_content_def)
  show "get_u53 b 8 = lsn" using g by (subst e, subst get_u53_skip) (simp, simp only: length_append length_le_bytes length_le32 get_u53_here, simp add: get_u53_here [simplified])
  show "get_le 4 b 16 = length body" using g by (simp add: b_def frame_content_def bytes_simps)
  show "at0 b 20 = COMMIT_KIND" "at0 b 21 = 0" by (simp_all add: b_def frame_content_def bytes_simps)
  show "get_le 2 b 22 = i" "get_le 2 b 24 = n" using g by (simp_all add: b_def frame_content_def bytes_simps)
  have "get_le 2 b 26 = get_le 2 (le_bytes 2 0 @ body @ replicate (frame_length (length body) - 32 - length body) 0 @ rest) 0"
    by (simp add: b_def frame_content_def bytes_simps numeral_2_eq_2)
  then show "get_le 2 b 26 = 0" by (simp only: get_le_here) simp
  show "slice_of b 28 (28 + length body) = body"
    by (simp add: b_def frame_content_def slice_of_def)
qed

end
