(* ===== verification/LogHeader.thy ===== *)
theory LogHeader
  imports LogFrame
begin

text \<open>The header slots of the log (\<open>next/format/log-frame.ts\<close>), as defined in LogFrame: their bytes, and reading them back.\<close>

definition u53_bytes :: "int \<Rightarrow> byte list" where
  "u53_bytes v = le_bytes 4 (nat (v mod 2 ^ 32)) @ le_bytes 4 (nat (v div 2 ^ 32))"

lemma length_u53_bytes [simp]: "length (u53_bytes v) = 8" by (simp add: u53_bytes_def)

definition header_content :: "log_header \<Rightarrow> byte list" where
  "header_content h = le_bytes 4 HEADER_MAGIC @ le_bytes 4 LOG_FORMAT_VERSION @ le32 (lh_salt h) @ u53_bytes (lh_generation h) @ u53_bytes (lh_ack_end h)
     @ le32 (lh_ack_chain h) @ u53_bytes (lh_ack_lsn h) @ u53_bytes (lh_root_sequence h)"

definition log_header_bytes :: "log_header \<Rightarrow> byte list" where
  "log_header_bytes h = header_content h @ le32 (xx_ref 0 (header_content h))"

definition good_header :: "log_header \<Rightarrow> bool" where
  "good_header h \<longleftrightarrow> (\<forall>v \<in> {lh_generation h, lh_ack_end h, lh_ack_lsn h, lh_root_sequence h}. 0 \<le> v \<and> is_safe_integer v)"

lemma length_header_content [simp]: "length (header_content h) = 48" by (simp add: header_content_def)

lemma u53_next: "is_safe_integer v \<Longrightarrow> 0 \<le> v \<Longrightarrow> length xs = at \<Longrightarrow> set_u53 (xs @ replicate m 0) at v = Inr ((xs @ u53_bytes v) @ replicate (m - 8) 0)"
  using set_u53_at [of v xs at m] by (simp add: u53_bytes_def)

lemma encode_header:
  assumes "good_header h"
  shows "encode_log_header h = Inr (log_header_bytes h)"
proof -
  let ?a = "le_bytes 4 HEADER_MAGIC @ le_bytes 4 LOG_FORMAT_VERSION @ le32 (lh_salt h)"
  let ?b = "?a @ u53_bytes (lh_generation h)" and ?c = "(?a @ u53_bytes (lh_generation h)) @ u53_bytes (lh_ack_end h)"
  let ?d = "((?a @ u53_bytes (lh_generation h)) @ u53_bytes (lh_ack_end h)) @ le32 (lh_ack_chain h)"
  let ?e = "?d @ u53_bytes (lh_ack_lsn h)" and ?f = "(?d @ u53_bytes (lh_ack_lsn h)) @ u53_bytes (lh_root_sequence h)"
  note g = assms [unfolded good_header_def, simplified]
  have s0: "set_at (set_at (set_at (replicate LOG_HEADER_BYTES 0) 0 (le_bytes 4 HEADER_MAGIC)) 4 (le_bytes 4 LOG_FORMAT_VERSION)) 8 (le32 (lh_salt h)) = ?a @ replicate 40 0"
    using set_at_zeros [of "[]" 0 52 "le_bytes 4 HEADER_MAGIC"] set_at_zeros [of "le_bytes 4 HEADER_MAGIC" 4 48 "le_bytes 4 LOG_FORMAT_VERSION"]
      set_at_zeros [of "le_bytes 4 HEADER_MAGIC @ le_bytes 4 LOG_FORMAT_VERSION" 8 44 "le32 (lh_salt h)"] by (simp add: LOG_HEADER_BYTES_def)
  have s1: "set_u53 (?a @ replicate 40 0) 12 (lh_generation h) = Inr (?b @ replicate 32 0)" using u53_next [of "lh_generation h" ?a 12 40] g by simp
  have s2: "set_u53 (?b @ replicate 32 0) 20 (lh_ack_end h) = Inr (?c @ replicate 24 0)" using u53_next [of "lh_ack_end h" ?b 20 32] g by simp
  have s3: "set_at (?c @ replicate 24 0) 28 (le32 (lh_ack_chain h)) = ?d @ replicate 20 0" using set_at_zeros [of ?c 28 24 "le32 (lh_ack_chain h)"] by simp
  have s4: "set_u53 (?d @ replicate 20 0) 32 (lh_ack_lsn h) = Inr (?e @ replicate 12 0)" using u53_next [of "lh_ack_lsn h" ?d 32 20] g by simp
  have s5: "set_u53 (?e @ replicate 12 0) 40 (lh_root_sequence h) = Inr (?f @ replicate 4 0)" using u53_next [of "lh_root_sequence h" ?e 40 12] g by simp
  have f: "?f = header_content h" by (simp add: header_content_def)
  have "slice_of (header_content h @ replicate 4 0) 0 48 = header_content h" by (simp add: slice_of_def)
  then have x: "xx_hash32 (header_content h @ replicate 4 0) 0 0 48 = Inr (xx_ref 0 (header_content h))" by (simp add: hash_ref)
  show ?thesis unfolding encode_log_header_def Let_def s0 s1 bindR_simps s2 s3 s4 s5 f x
    by (simp add: log_header_bytes_def set_at_def)
qed

lemma decode_header:
  assumes "good_header h" "length junk \<le> 460"
  shows "decode_log_header (Some (log_header_bytes h @ junk)) = Some h"
proof -
  let ?b = "log_header_bytes h @ junk"
  note g = assms(1) [unfolded good_header_def, simplified]
  have u: "length xs = at \<Longrightarrow> 0 \<le> v \<Longrightarrow> is_safe_integer v \<Longrightarrow> ?b = xs @ u53_bytes v @ ys \<Longrightarrow> get_u53 ?b at = v" for xs ys at v
    using get_u53_skip [of xs at "u53_bytes v @ ys"] get_u53_here [of v ys] by (simp add: u53_bytes_def)
  have f: "get_le 4 ?b 0 = HEADER_MAGIC" "get_le 4 ?b 4 = LOG_FORMAT_VERSION" "get32 ?b 8 = lh_salt h" "get32 ?b 28 = lh_ack_chain h"
    "get32 ?b 48 = xx_ref 0 (header_content h)"
    by (simp_all add: log_header_bytes_def header_content_def bytes_simps HEADER_MAGIC_def LOG_FORMAT_VERSION_def)
  have v: "get_u53 ?b 12 = lh_generation h" "get_u53 ?b 20 = lh_ack_end h" "get_u53 ?b 32 = lh_ack_lsn h" "get_u53 ?b 40 = lh_root_sequence h"
    using g by (intro u [of "take 12 ?b" _ _ "drop 20 ?b"] u [of "take 20 ?b" _ _ "drop 28 ?b"] u [of "take 32 ?b" _ _ "drop 40 ?b"] u [of "take 40 ?b" _ _ "drop 48 ?b"];
        simp add: log_header_bytes_def header_content_def)+
  have "slice_of ?b 0 48 = header_content h" by (simp add: log_header_bytes_def slice_of_def)
  then have "xx_hash32 ?b 0 0 48 = Inr (xx_ref 0 (header_content h))" by (simp add: hash_ref log_header_bytes_def)
  then show ?thesis using f v g assms(2) by (simp add: decode_log_header_def log_header_bytes_def LOG_HEADER_BYTES_def LOG_HEADER_SLOT_BYTES_def)
qed

end
