(* ===== verification/LogIncremental.thy ===== *)
theory LogIncremental
  imports LogFrame
begin

text \<open>
  \<open>scanLogIncremental\<close> of \<open>next/format/log-frame.ts\<close>: the scan over a reader, with the parts of transactions handed to a sink as they are
  validated. Reader, sink and memory charge are parameters, a record of operations on their state, any of which may throw; the reader
  gives the bytes asked for. An await is the call itself: the function awaits each operation before the next.
\<close>

record 'e scan_env =
  reader_length :: nat
  reader_read :: "nat \<Rightarrow> nat \<Rightarrow> 'e \<Rightarrow> 'e \<times> byte list result"
  sink_part :: "scanned_frame \<Rightarrow> 'e \<Rightarrow> 'e \<times> unit result"
  sink_commit :: "int \<Rightarrow> int \<Rightarrow> 'e \<Rightarrow> 'e \<times> unit result"
  sink_abandon :: "nat \<Rightarrow> 'e \<Rightarrow> 'e \<times> unit result"
  charge_allocate :: "nat \<Rightarrow> 'e \<Rightarrow> 'e \<times> bool result"
  charge_free :: "nat \<Rightarrow> 'e \<Rightarrow> 'e \<times> unit result"

definition RECOVERY_SCAN_BYTES :: nat where "RECOVERY_SCAN_BYTES = MAX_FRAME_BYTES + LOG_FRAME_HEADER_BYTES"

lemma accept_nonempty: "accept s bytes = Inr (Some r) \<Longrightarrow> 4 \<le> length bytes"
  by (auto simp: accept_def Let_def bindR_eq_Inr hash_ref split: if_splits)

lemma accept_moves: "accept s bytes = Inr (Some (s', f, c)) \<Longrightarrow> ss_offset s < ss_offset s'"
  using accept_offset [of s bytes s' f c] accept_nonempty [of s bytes] by fastforce

text \<open>The loop: the state of the environment, the parts delivered since the last commit, and the state of the scan or the error.\<close>

function incremental_loop :: "'e scan_env \<Rightarrow> scan_state \<Rightarrow> nat \<Rightarrow> 'e \<Rightarrow> 'e \<times> nat \<times> scan_state result" where
  "incremental_loop env s delivered e =
     (if reader_length env < ss_offset s + LOG_FRAME_HEADER_BYTES + 4 then (e, delivered, Inr s)
      else case reader_read env (ss_offset s) LOG_FRAME_HEADER_BYTES e of
        (e, Inl x) \<Rightarrow> (e, delivered, Inl x)
      | (e, Inr head) \<Rightarrow> (case scan_length s head of
          None \<Rightarrow> (e, delivered, Inr s)
        | Some n \<Rightarrow>
            if MAX_FRAME_BYTES < n \<or> reader_length env < ss_offset s + n then (e, delivered, Inr s)
            else case reader_read env (ss_offset s) n e of
              (e, Inl x) \<Rightarrow> (e, delivered, Inl x)
            | (e, Inr bytes) \<Rightarrow> (case accept s bytes of
                Inl x \<Rightarrow> (e, delivered, Inl x)
              | Inr None \<Rightarrow> (e, delivered, Inr s)
              | Inr (Some (s', f, completes)) \<Rightarrow> (case sink_part env f e of
                  (e, Inl x) \<Rightarrow> (e, delivered + 1, Inl x)
                | (e, Inr _) \<Rightarrow>
                    if completes then (case sink_commit env (sf_transaction f) (sf_lsn f) e of
                        (e, Inl x) \<Rightarrow> (e, delivered + 1, Inl x)
                      | (e, Inr _) \<Rightarrow> incremental_loop env s' 0 e)
                    else incremental_loop env s' (delivered + 1) e))))"
  by pat_completeness auto
termination
  by (relation "measure (\<lambda>(env, s, delivered, e). reader_length env - ss_offset s)") (auto dest!: accept_moves simp: diff_less_mono2)

declare incremental_loop.simps [simp del]

definition give_up :: "'e scan_env \<Rightarrow> nat \<Rightarrow> 'e \<Rightarrow> 'e" where
  "give_up env delivered e = (if 0 < delivered then fst (sink_abandon env delivered e) else e)"

text \<open>A refusal and a throw of the charge come before the \<open>try\<close>; \<open>finally\<close> frees the charge, and its throw replaces the outcome.\<close>

definition scan_log_incremental ::
    "'e scan_env \<Rightarrow> byte list option \<times> byte list option \<Rightarrow> incarnation \<Rightarrow> 'e \<Rightarrow> 'e \<times> scan_summary result" where
  "scan_log_incremental env slots inc e =
     (case charge_allocate env RECOVERY_SCAN_BYTES e of
        (e, Inl x) \<Rightarrow> (e, Inl x)
      | (e, Inr False) \<Rightarrow> (e, Inl (RangeError ''Recovery's scan memory must be admitted before the scan''))
      | (e, Inr True) \<Rightarrow>
          let (e, r) =
            (case start_scan slots inc of
               Inl x \<Rightarrow> (e, Inl x)
             | Inr s \<Rightarrow> (case incremental_loop env s 0 e of
                 (e, delivered, Inl x) \<Rightarrow> (give_up env delivered e, Inl x)
               | (e, delivered, Inr s) \<Rightarrow> (case finish_scan s of
                   Inl x \<Rightarrow> (give_up env delivered e, Inl x)
                 | Inr summary \<Rightarrow>
                     if 0 < su_abandoned summary
                     then (case sink_abandon env (su_abandoned summary) e of
                             (e, Inl x) \<Rightarrow> (e, Inl x)
                           | (e, Inr _) \<Rightarrow> (e, Inr summary))
                     else (e, Inr summary))))
          in (case charge_free env RECOVERY_SCAN_BYTES e of (e, Inl x) \<Rightarrow> (e, Inl x) | (e, Inr _) \<Rightarrow> (e, r)))"

subsection \<open>A recorder that may fail\<close>

text \<open>
  The environment of the lemmas: a log body in memory, and a history of every call. Whether a call throws is decided by an arbitrary
  function of the history up to and including it, and so is whether the memory is granted. An allocation that throws grants nothing; a
  call of \<open>free\<close> is recorded whether it throws or not.
\<close>

datatype scan_event = Read nat nat | Part scanned_frame | Commit int int bool | Abandon nat bool | Allocate nat bool | Free nat

definition recorder :: "byte list \<Rightarrow> (scan_event list \<Rightarrow> js_error option) \<Rightarrow> (scan_event list \<Rightarrow> bool) \<Rightarrow> scan_event list scan_env" where
  "recorder body fails grants = \<lparr>
     reader_length = length body,
     reader_read = (\<lambda>off n h. let h = h @ [Read off n] in (h, case fails h of Some x \<Rightarrow> Inl x | None \<Rightarrow> Inr (slice_of body off (off + n)))),
     sink_part = (\<lambda>f h. let h = h @ [Part f] in (h, case fails h of Some x \<Rightarrow> Inl x | None \<Rightarrow> Inr ())),
     sink_commit = (\<lambda>t l h. case fails (h @ [Commit t l True]) of Some x \<Rightarrow> (h @ [Commit t l False], Inl x) | None \<Rightarrow> (h @ [Commit t l True], Inr ())),
     sink_abandon = (\<lambda>n h. case fails (h @ [Abandon n True]) of Some x \<Rightarrow> (h @ [Abandon n False], Inl x) | None \<Rightarrow> (h @ [Abandon n True], Inr ())),
     charge_allocate = (\<lambda>n h. case fails (h @ [Allocate n True]) of Some x \<Rightarrow> (h @ [Allocate n False], Inl x)
       | None \<Rightarrow> let g = grants h in (h @ [Allocate n g], Inr g)),
     charge_free = (\<lambda>n h. let h = h @ [Free n] in (h, case fails h of Some x \<Rightarrow> Inl x | None \<Rightarrow> Inr ()))\<rparr>"

lemma recorder_simps [simp]:
  "reader_length (recorder body fails grants) = length body"
  "reader_read (recorder body fails grants) off n h = (h @ [Read off n], case fails (h @ [Read off n]) of Some x \<Rightarrow> Inl x | None \<Rightarrow> Inr (slice_of body off (off + n)))"
  "sink_part (recorder body fails grants) f h = (h @ [Part f], case fails (h @ [Part f]) of Some x \<Rightarrow> Inl x | None \<Rightarrow> Inr ())"
  "sink_commit (recorder body fails grants) t l h = (case fails (h @ [Commit t l True]) of Some x \<Rightarrow> (h @ [Commit t l False], Inl x) | None \<Rightarrow> (h @ [Commit t l True], Inr ()))"
  "sink_abandon (recorder body fails grants) n h = (case fails (h @ [Abandon n True]) of Some x \<Rightarrow> (h @ [Abandon n False], Inl x) | None \<Rightarrow> (h @ [Abandon n True], Inr ()))"
  "charge_allocate (recorder body fails grants) n h = (case fails (h @ [Allocate n True]) of Some x \<Rightarrow> (h @ [Allocate n False], Inl x) | None \<Rightarrow> (h @ [Allocate n (grants h)], Inr (grants h)))"
  "charge_free (recorder body fails grants) n h = (h @ [Free n], case fails (h @ [Free n]) of Some x \<Rightarrow> Inl x | None \<Rightarrow> Inr ())"
  by (simp_all add: recorder_def Let_def split: option.split)

text \<open>
  Replaying a history: the parts handed over since the last commit, and the bytes charged. An abandon must name exactly the parts
  handed over; anything else is no state.
\<close>

fun ledger_step :: "(nat \<times> nat) option \<Rightarrow> scan_event \<Rightarrow> (nat \<times> nat) option" where
  "ledger_step None ev = None"
| "ledger_step (Some (parts, charged)) ev = (case ev of
     Read _ _ \<Rightarrow> Some (parts, charged)
   | Part _ \<Rightarrow> Some (parts + 1, charged)
   | Commit _ _ ok \<Rightarrow> Some (if ok then 0 else parts, charged)
   | Abandon n _ \<Rightarrow> if n = parts \<and> 0 < n then Some (0, charged) else None
   | Allocate n ok \<Rightarrow> Some (parts, if ok then charged + n else charged)
   | Free n \<Rightarrow> if n \<le> charged then Some (parts, charged - n) else None)"

definition handed_over :: "scan_event list \<Rightarrow> (nat \<times> nat) option" where
  "handed_over h = foldl ledger_step (Some (0, 0)) h"

lemma ledger_append [simp]: "handed_over (h @ [ev]) = ledger_step (handed_over h) ev"
  by (simp add: handed_over_def)

lemma ledger_pair [simp]: "handed_over (h @ [a, b]) = ledger_step (ledger_step (handed_over h) a) b"
  by (simp add: handed_over_def)

lemma accept_open: "accept s bytes = Inr (Some (s', f, c)) \<Longrightarrow> ss_open_parts s' = (if c then 0 else ss_open_parts s + 1)"
  by (auto simp: accept_def Let_def bindR_eq_Inr split: if_splits)

lemma recorder_loop:
  "incremental_loop (recorder body fails grants) s d h =
     (if length body < ss_offset s + LOG_FRAME_HEADER_BYTES + 4 then (h, d, Inr s)
      else case fails (h @ [Read (ss_offset s) LOG_FRAME_HEADER_BYTES]) of
        Some x \<Rightarrow> (h @ [Read (ss_offset s) LOG_FRAME_HEADER_BYTES], d, Inl x)
      | None \<Rightarrow> (case scan_length s (slice_of body (ss_offset s) (ss_offset s + LOG_FRAME_HEADER_BYTES)) of
          None \<Rightarrow> (h @ [Read (ss_offset s) LOG_FRAME_HEADER_BYTES], d, Inr s)
        | Some n \<Rightarrow> let h = (h @ [Read (ss_offset s) LOG_FRAME_HEADER_BYTES]) in
            if MAX_FRAME_BYTES < n \<or> length body < ss_offset s + n then (h, d, Inr s)
            else let h = h @ [Read (ss_offset s) n] in case fails h of
              Some x \<Rightarrow> (h, d, Inl x)
            | None \<Rightarrow> (case accept s (slice_of body (ss_offset s) (ss_offset s + n)) of
                Inl x \<Rightarrow> (h, d, Inl x)
              | Inr None \<Rightarrow> (h, d, Inr s)
              | Inr (Some (s', f, completes)) \<Rightarrow> let h = h @ [Part f] in (case fails h of
                  Some x \<Rightarrow> (h, d + 1, Inl x)
                | None \<Rightarrow>
                    if completes then (case fails (h @ [Commit (sf_transaction f) (sf_lsn f) True]) of
                        Some x \<Rightarrow> (h @ [Commit (sf_transaction f) (sf_lsn f) False], d + 1, Inl x)
                      | None \<Rightarrow> incremental_loop (recorder body fails grants) s' 0 (h @ [Commit (sf_transaction f) (sf_lsn f) True]))
                    else incremental_loop (recorder body fails grants) s' (d + 1) h))))"
  by (subst incremental_loop.simps) (simp add: Let_def split: option.split sum.split)

text \<open>The ways one round of the loop goes: it ends, with the parts of the last one delivered or not, or it goes on behind a frame.\<close>

lemma round_cases:
  assumes "incremental_loop (recorder body fails grants) s d h = (h', d', r)"
  obtains (ends) "d' = d" "handed_over h' = handed_over h" "\<And>s'. r = Inr s' \<Longrightarrow> s' = s"
    | (throws) f x where "d' = d + 1" "handed_over h' = handed_over (h @ [Part f])" "r = Inl x"
    | (commits) s' f h1 n where "accept s (slice_of body (ss_offset s) (ss_offset s + n)) = Inr (Some (s', f, True))" "handed_over h1 = handed_over h"
        "incremental_loop (recorder body fails grants) s' 0 (h1 @ [Part f, Commit (sf_transaction f) (sf_lsn f) True]) = (h', d', r)"
    | (stages) s' f h1 n where "accept s (slice_of body (ss_offset s) (ss_offset s + n)) = Inr (Some (s', f, False))" "handed_over h1 = handed_over h"
        "incremental_loop (recorder body fails grants) s' (d + 1) (h1 @ [Part f]) = (h', d', r)"
proof -
  have l: "handed_over (h @ [Read a b]) = handed_over h" for a b h by (cases "handed_over h") auto
  have c: "handed_over (g @ [Part f, Commit t k False]) = handed_over (g @ [Part f])" for g f t k
    using ledger_append [of "g @ [Part f]" "Commit t k False"] by (cases "handed_over (g @ [Part f])") (auto simp del: ledger_append)
  let ?h1 = "h @ [Read (ss_offset s) LOG_FRAME_HEADER_BYTES]"
  note e = trans [OF recorder_loop [symmetric] assms]
  show thesis
  proof (cases "length body < ss_offset s + LOG_FRAME_HEADER_BYTES + 4")
    case True
    then show thesis using e by (intro ends) auto
  next
    case more: False
    show thesis
    proof (cases "fails ?h1")
      case (Some x)
      then show thesis using e more l by (intro ends) auto
    next
      case ok1: None
      show thesis
      proof (cases "scan_length s (slice_of body (ss_offset s) (ss_offset s + LOG_FRAME_HEADER_BYTES))")
        case None
        then show thesis using e more ok1 l by (intro ends) auto
      next
        case len: (Some n)
        let ?h2 = "?h1 @ [Read (ss_offset s) n]"
        have l2: "handed_over ?h2 = handed_over h" by (simp only: l)
        show thesis
        proof (cases "MAX_FRAME_BYTES < n \<or> length body < ss_offset s + n")
          case True
          then show thesis using e more ok1 len l by (intro ends) (auto simp: Let_def)
        next
          case small: False
          show thesis
          proof (cases "fails ?h2")
            case (Some x)
            then show thesis using e more ok1 len small l2 by (intro ends) (auto simp: Let_def)
          next
            case ok2: None
            show thesis
            proof (cases "accept s (slice_of body (ss_offset s) (ss_offset s + n))")
              case (Inl x)
              then show thesis using e more ok1 len small ok2 l2 by (intro ends) (auto simp: Let_def)
            next
              case (Inr res)
              show thesis
              proof (cases res)
                case None
                then show thesis using e more ok1 len small ok2 l2 Inr by (intro ends) (auto simp: Let_def)
              next
                case (Some t)
                obtain s' f comp where t: "t = (s', f, comp)" by (cases t)
                note e3 = e more ok1 len small ok2 Inr Some t
                have p: "handed_over (?h2 @ [Part f]) = handed_over (h @ [Part f])" using l2 by (simp only: ledger_append)
                show thesis
                proof (cases "fails (?h2 @ [Part f])")
                  case failed: (Some x)
                  then show thesis using e3 p by (intro throws [of f x]) (auto simp: Let_def)
                next
                  case ok3: None
                  show thesis
                  proof (cases comp)
                    case False
                    then show thesis using e3 ok3 l2 by (intro stages [of n s' f ?h2]) (auto simp: Let_def)
                  next
                    case comp: True
                    show thesis
                    proof (cases "fails ((?h2 @ [Part f]) @ [Commit (sf_transaction f) (sf_lsn f) True])")
                      case failed: (Some x)
                      then show thesis using e3 ok3 comp p c [of ?h2] by (intro throws [of f x]) (auto simp: Let_def)
                    next
                      case None
                      then show thesis using e3 ok3 l2 comp by (intro commits [of n s' f ?h2]) (auto simp: Let_def)
                    qed
                  qed
                qed
              qed
            qed
          qed
        qed
      qed
    qed
  qed
qed

lemma loop_ledger:
  "handed_over h = Some (d, c) \<Longrightarrow> d = ss_open_parts s \<Longrightarrow> incremental_loop (recorder body fails grants) s d h = (h', d', r) \<Longrightarrow>
    handed_over h' = Some (d', c) \<and> (\<forall>s'. r = Inr s' \<longrightarrow> d' = ss_open_parts s')"
proof (induction "length body - ss_offset s" arbitrary: s d h rule: less_induct)
  case less
  have in_body: "ss_offset s < length body"
    if "accept s (slice_of body (ss_offset s) (ss_offset s + n)) = Inr (Some (s', f, k))" for n s' f k
    using accept_nonempty [OF that] by auto
  from less.prems(3) show ?case
  proof (cases rule: round_cases)
    case ends
    then show ?thesis using less.prems by auto
  next
    case (throws f x)
    then show ?thesis using less.prems by simp
  next
    case (commits s' f h1 n)
    then show ?thesis
      using less.hyps [OF diff_less_mono2 [OF accept_moves in_body], OF commits(1) commits(1) _ _ commits(3)] less.prems accept_open [OF commits(1)]
      by simp
  next
    case (stages s' f h1 n)
    then show ?thesis
      using less.hyps [OF diff_less_mono2 [OF accept_moves in_body], OF stages(1) stages(1) _ _ stages(3)] less.prems accept_open [OF stages(1)]
      by simp
  qed
qed

text \<open>Freeing the charge is the last call of every scan that was granted it.\<close>

lemma scan_granted:
  assumes "fails [Allocate RECOVERY_SCAN_BYTES True] = None" "grants []"
  shows "\<exists>h. fst (scan_log_incremental (recorder body fails grants) slots inc []) = h @ [Free RECOVERY_SCAN_BYTES]
    \<and> handed_over h = Some (0, RECOVERY_SCAN_BYTES)"
proof -
  let ?R = "recorder body fails grants" and ?B = RECOVERY_SCAN_BYTES
  define X where "X = (case start_scan slots inc of
               Inl x \<Rightarrow> ([Allocate ?B True], Inl x)
             | Inr s \<Rightarrow> (case incremental_loop ?R s 0 [Allocate ?B True] of
                 (e, delivered, Inl x) \<Rightarrow> (give_up ?R delivered e, Inl x)
               | (e, delivered, Inr s) \<Rightarrow> (case finish_scan s of
                   Inl x \<Rightarrow> (give_up ?R delivered e, Inl x)
                 | Inr summary \<Rightarrow>
                     if 0 < su_abandoned summary
                     then (case sink_abandon ?R (su_abandoned summary) e of
                             (e, Inl x) \<Rightarrow> (e, Inl x)
                           | (e, Inr _) \<Rightarrow> (e, Inr summary))
                     else (e, Inr summary))))"
  have scan: "scan_log_incremental ?R slots inc [] =
      (let (e, r) = X in (case charge_free ?R ?B e of (e, Inl x) \<Rightarrow> (e, Inl x) | (e, Inr _) \<Rightarrow> (e, r)))"
    using assms by (simp add: scan_log_incremental_def X_def del: recorder_simps(3-5))
  have last: "fst (scan_log_incremental ?R slots inc []) = fst X @ [Free ?B]"
    by (cases X) (simp add: scan split: option.split)
  have start: "handed_over [Allocate ?B True] = Some (0, ?B)" by (simp add: handed_over_def)
  have give: "handed_over (give_up ?R d h) = Some (0, ?B)" if "handed_over h = Some (d, ?B)" for d h
    using that by (auto simp: give_up_def split: option.splits)
  have "handed_over (fst X) = Some (0, ?B)"
  proof (cases "start_scan slots inc")
    case (Inl x)
    then show ?thesis using start by (simp add: X_def)
  next
    case start_ok: (Inr s)
    obtain h d r where l: "incremental_loop ?R s 0 [Allocate ?B True] = (h, d, r)" by (metis prod_cases3)
    have "ss_open_parts s = 0" using start_ok by (auto simp: start_scan_def Let_def split: if_splits)
    then have k: "handed_over h = Some (d, ?B)" "\<forall>s'. r = Inr s' \<longrightarrow> d = ss_open_parts s'" using loop_ledger [OF start _ l] by auto
    show ?thesis
    proof (cases r)
      case (Inl x)
      then show ?thesis using start_ok l give [OF k(1)] by (simp add: X_def)
    next
      case r: (Inr s')
      show ?thesis
      proof (cases "finish_scan s'")
        case (Inl x)
        then show ?thesis using start_ok l r give [OF k(1)] by (simp add: X_def)
      next
        case (Inr su)
        then have "su_abandoned su = d" using k(2) r by (auto simp: finish_scan_def split: if_splits)
        then show ?thesis using start_ok l r Inr k(1) by (auto simp: X_def split: option.splits)
      qed
    qed
  qed
  then show ?thesis using last by blast
qed

text \<open>
  Property C9: whatever fails, the incremental scan leaves nothing behind. The reader, the sink and the memory charge may throw at any
  call, \<open>allocate\<close> and \<open>free\<close> included, and \<open>allocate\<close> may refuse, by any rule on the calls made so far. Then every abandon names exactly
  the parts handed over since the last commit, none is left at the end, and the memory that was granted is asked back by one call of
  \<open>free\<close> with the same bytes, which is the last call of the scan; without a grant nothing was called but \<open>allocate\<close>.
\<close>

theorem incremental_leaves_nothing:
  "handed_over (fst (scan_log_incremental (recorder body fails grants) slots inc [])) = Some (0, 0)
   \<and> (fst (scan_log_incremental (recorder body fails grants) slots inc []) = [Allocate RECOVERY_SCAN_BYTES False]
      \<or> last (fst (scan_log_incremental (recorder body fails grants) slots inc [])) = Free RECOVERY_SCAN_BYTES)"
proof (cases "fails [Allocate RECOVERY_SCAN_BYTES True] = None \<and> grants []")
  case True
  then obtain h where "fst (scan_log_incremental (recorder body fails grants) slots inc []) = h @ [Free RECOVERY_SCAN_BYTES]"
    "handed_over h = Some (0, RECOVERY_SCAN_BYTES)" using scan_granted by blast
  then show ?thesis by simp
next
  case False
  then have "fst (scan_log_incremental (recorder body fails grants) slots inc []) = [Allocate RECOVERY_SCAN_BYTES False]"
    by (auto simp: scan_log_incremental_def split: option.split)
  then show ?thesis by (simp add: handed_over_def)
qed

subsection \<open>The same log as the scan in memory\<close>

text \<open>Applying a history: frames are staged as they come, a commit that succeeds applies them, an abandon drops them.\<close>

fun sink_step :: "scanned_frame list \<times> scanned_frame list \<Rightarrow> scan_event \<Rightarrow> scanned_frame list \<times> scanned_frame list" where
  "sink_step (applied, staged) ev = (case ev of
     Part f \<Rightarrow> (applied, staged @ [f]) | Commit _ _ ok \<Rightarrow> if ok then (applied @ staged, []) else (applied, staged) | Abandon _ _ \<Rightarrow> (applied, []) | _ \<Rightarrow> (applied, staged))"

definition applied :: "scan_event list \<Rightarrow> scanned_frame list \<times> scanned_frame list" where
  "applied h = foldl sink_step ([], []) h"

lemma applied_append: "applied (h @ g) = foldl sink_step (applied h) g"
  by (simp add: applied_def)

lemma scan_length_limit: "scan_length s head = Some n \<Longrightarrow> n \<le> MAX_FRAME_BYTES"
  by (auto simp: scan_length_def Let_def frame_length_def MAX_FRAME_BYTES_def MAX_FRAME_BODY_BYTES_def LOG_FRAME_HEADER_BYTES_def split: if_splits)

lemma loop_same:
  fixes grants :: "scan_event list \<Rightarrow> bool"
  defines "fails \<equiv> \<lambda>h :: scan_event list. None"
  shows "applied h = (fr, op) \<Longrightarrow> \<exists>h' d' op'. incremental_loop (recorder body fails grants) s d h = (h', d', map_sum id fst (scan_loop body s fr op))
    \<and> (\<forall>s' fr'. scan_loop body s fr op = Inr (s', fr') \<longrightarrow> applied h' = (fr', op'))"
proof (induction "length body - ss_offset s" arbitrary: s d h fr op rule: less_induct)
  case less
  let ?R = "recorder body fails grants" and ?head = "slice_of body (ss_offset s) (ss_offset s + LOG_FRAME_HEADER_BYTES)"
  have nf [simp]: "fails x = None" for x by (simp add: fails_def)
  note e = recorder_loop [of body fails grants s d h, unfolded Let_def]
  have short: "scan_loop body s fr op = Inr (s, fr)" if "length body < ss_offset s + LOG_FRAME_HEADER_BYTES + 4"
  proof (cases "scan_length s ?head")
    case (Some n)
    then have "length body < ss_offset s + n" using that scan_length_pos [OF Some] by (simp add: LOG_FRAME_HEADER_BYTES_def)
    then show ?thesis using Some by (subst scan_loop.simps) simp
  qed (subst scan_loop.simps, simp)
  show ?case
  proof (cases "length body < ss_offset s + LOG_FRAME_HEADER_BYTES + 4")
    case True
    then show ?thesis using short e less.prems by simp
  next
    case more: False
    have a1: "applied (h @ [Read a b]) = (fr, op)" "applied (h @ [Read a b, Read c d]) = (fr, op)" for a b c d
      using less.prems by (simp_all add: applied_append)
    show ?thesis
    proof (cases "scan_length s ?head")
      case None
      then have "scan_loop body s fr op = Inr (s, fr)" by (subst scan_loop.simps) simp
      then show ?thesis using None more e a1 by simp
    next
      case len: (Some n)
      note lim = scan_length_limit [OF len]
      show ?thesis
      proof (cases "length body < ss_offset s + n")
        case True
        then have "scan_loop body s fr op = Inr (s, fr)" using len by (subst scan_loop.simps) simp
        then show ?thesis using True len more e a1 by simp
      next
        case small: False
        let ?b = "slice_of body (ss_offset s) (ss_offset s + n)"
        have sl: "scan_loop body s fr op = (case accept s ?b of Inl e \<Rightarrow> Inl e | Inr None \<Rightarrow> Inr (s, fr)
          | Inr (Some (s', f, completes)) \<Rightarrow> if completes then scan_loop body s' (fr @ op @ [f]) [] else scan_loop body s' fr (op @ [f]))"
          using len small by (subst scan_loop.simps) simp
        let ?h2 = "h @ [Read (ss_offset s) LOG_FRAME_HEADER_BYTES, Read (ss_offset s) n]"
        show ?thesis
        proof (cases "accept s ?b")
          case (Inl x)
          then show ?thesis using len more small lim e sl a1 by simp
        next
          case (Inr res)
          show ?thesis
          proof (cases res)
            case None
            then show ?thesis using Inr len more small lim e sl a1 by simp
          next
            case (Some t)
            obtain s' f c where t: "t = (s', f, c)" by (cases t)
            have acc: "accept s ?b = Inr (Some (s', f, c))" using Inr Some t by simp
            have "ss_offset s < length body" using accept_nonempty [OF acc] by auto
            then have dec: "length body - ss_offset s' < length body - ss_offset s" using accept_moves [OF acc] by (rule diff_less_mono2 [rotated])
            show ?thesis
            proof (cases c)
              case True
              have "applied (?h2 @ [Part f, Commit (sf_transaction f) (sf_lsn f) True]) = (fr @ op @ [f], [])"
                using less.prems by (simp add: applied_append)
              from less.hyps [OF dec this, of 0] show ?thesis using True acc len more small lim e sl by simp
            next
              case False
              have "applied (?h2 @ [Part f]) = (fr, op @ [f])" using less.prems by (simp add: applied_append)
              from less.hyps [OF dec this, of "d + 1"] show ?thesis using False acc len more small lim e sl by simp
            qed
          qed
        qed
      qed
    qed
  qed
qed

text \<open>
  Property C40: the incremental scan is the scan of the log in memory. With a reader and a sink that do not throw and the memory
  granted, it returns what \<open>scanLog\<close> returns, the summary or the error, and when that is a summary the frames whose transactions the sink
  was told to commit are exactly the frames of \<open>scanLog\<close>.
\<close>

theorem incremental_is_scan:
  fixes body :: "byte list" and slots :: "byte list option \<times> byte list option" and inc :: incarnation
  defines "run \<equiv> scan_log_incremental (recorder body (\<lambda>h. None) (\<lambda>h. True)) slots inc []"
  shows "snd run = map_sum id fst (scan_log body slots inc)
    \<and> (case scan_log body slots inc of Inr (su, frames) \<Rightarrow> fst (applied (fst run)) = frames | Inl x \<Rightarrow> True)"
proof (cases "start_scan slots inc")
  case (Inl x)
  then show ?thesis by (simp add: run_def scan_log_incremental_def scan_log_def)
next
  case (Inr s)
  let ?R = "recorder body (\<lambda>h. None) (\<lambda>h. True)"
  have "applied [Allocate RECOVERY_SCAN_BYTES True] = ([], [])" by (simp add: applied_def)
  from loop_same [OF this, of body "\<lambda>h. True" s 0]
  obtain h d op where l: "incremental_loop ?R s 0 [Allocate RECOVERY_SCAN_BYTES True] = (h, d, map_sum id fst (scan_loop body s [] []))"
    "\<forall>s' fr'. scan_loop body s [] [] = Inr (s', fr') \<longrightarrow> applied h = (fr', op)" by blast
  show ?thesis
  proof (cases "scan_loop body s [] []")
    case (Inl x)
    then show ?thesis using Inr l by (simp add: run_def scan_log_incremental_def scan_log_def)
  next
    case loop: (Inr t)
    obtain s' fr where t: "t = (s', fr)" by (cases t)
    have a: "applied h = (fr, op)" using l(2) loop t by simp
    show ?thesis
    proof (cases "finish_scan s'")
      case (Inl x)
      then show ?thesis using Inr l(1) loop t by (simp add: run_def scan_log_incremental_def scan_log_def)
    next
      case (Inr su)
      then show ?thesis using \<open>start_scan slots inc = Inr s\<close> l(1) loop t a
        by (simp add: run_def scan_log_incremental_def scan_log_def applied_append)
    qed
  qed
qed

end
