(* ===== verification/LogScan.thy ===== *)
theory LogScan
  imports LogHeader
begin

text \<open>
  What the recovery scan of \<open>next/format/log-frame.ts\<close> promises, over logs a writer builds frame by frame and over any bytes: the
  definitions are in LogFrame.
\<close>

subsection \<open>Logs that were written\<close>

text \<open>The parts of a transaction, with their index and the part count; a log is the frames of a list of parts, each seeded by the last.\<close>

type_synonym part = "nat \<times> nat \<times> byte list"

definition parts_of :: "byte list list \<Rightarrow> part list" where
  "parts_of t = map (\<lambda>i. (i, length t, t ! i)) [0..<length t]"

fun write_log :: "u32 \<Rightarrow> u32 \<Rightarrow> int \<Rightarrow> part list \<Rightarrow> (byte list \<times> u32) result" where
  "write_log salt chain lsn [] = Inr ([], chain)"
| "write_log salt chain lsn ((i, n, body) # ps) =
     bindR (encode_frame \<lparr>fp_salt = salt, fp_lsn = lsn, fp_index = int i, fp_count = int n\<rparr> body chain) (\<lambda>(bytes, chain).
     bindR (write_log salt chain (lsn + 1) ps) (\<lambda>(more, chain). Inr (bytes @ more, chain)))"

fun frames_bytes :: "u32 \<Rightarrow> u32 \<Rightarrow> int \<Rightarrow> part list \<Rightarrow> byte list" where
  "frames_bytes salt chain lsn [] = []"
| "frames_bytes salt chain lsn ((i, n, body) # ps) =
     log_frame_bytes salt lsn i n body chain @ frames_bytes salt (frame_chain salt lsn i n body chain) (lsn + 1) ps"

fun log_chain :: "u32 \<Rightarrow> u32 \<Rightarrow> int \<Rightarrow> part list \<Rightarrow> u32" where
  "log_chain salt chain lsn [] = chain"
| "log_chain salt chain lsn ((i, n, body) # ps) = log_chain salt (frame_chain salt lsn i n body chain) (lsn + 1) ps"

fun frames_scanned :: "nat \<Rightarrow> int \<Rightarrow> part list \<Rightarrow> scanned_frame list" where
  "frames_scanned off lsn [] = []"
| "frames_scanned off lsn ((i, n, body) # ps) =
     \<lparr>sf_offset = off, sf_lsn = lsn, sf_transaction = lsn - int i, sf_index = i, sf_count = n, sf_body = body\<rparr>
     # frames_scanned (off + frame_length (length body)) (lsn + 1) ps"

fun parts_good :: "int \<Rightarrow> part list \<Rightarrow> bool" where
  "parts_good lsn [] = True"
| "parts_good lsn ((i, n, body) # ps) \<longleftrightarrow> good_position lsn i n body \<and> parts_good (lsn + 1) ps"

lemma write_log_bytes: "parts_good lsn ps \<Longrightarrow> write_log salt chain lsn ps = Inr (frames_bytes salt chain lsn ps, log_chain salt chain lsn ps)"
  by (induction salt chain lsn ps rule: write_log.induct) (simp_all add: encode_frame_bytes)

lemma log_append:
  "frames_bytes salt chain lsn (ps @ qs) = frames_bytes salt chain lsn ps @ frames_bytes salt (log_chain salt chain lsn ps) (lsn + int (length ps)) qs"
  "log_chain salt chain lsn (ps @ qs) = log_chain salt (log_chain salt chain lsn ps) (lsn + int (length ps)) qs"
  by (induction salt chain lsn ps rule: frames_bytes.induct) (simp_all add: algebra_simps)

lemma log_frames_append:
  "frames_scanned off lsn (ps @ qs) = frames_scanned off lsn ps @ frames_scanned (off + length (frames_bytes salt chain lsn ps)) (lsn + int (length ps)) qs"
  by (induction salt chain lsn ps arbitrary: off rule: frames_bytes.induct) (simp_all add: algebra_simps)

lemma parts_good_append: "parts_good lsn (ps @ qs) \<longleftrightarrow> parts_good lsn ps \<and> parts_good (lsn + int (length ps)) qs"
  by (induction lsn ps rule: parts_good.induct) (simp_all add: algebra_simps)

subsection \<open>One frame\<close>

definition next_state :: "scan_state \<Rightarrow> u32 \<Rightarrow> nat \<Rightarrow> nat \<Rightarrow> nat \<Rightarrow> scan_state" where
  "next_state s chain len i n =
     (let off = ss_offset s + len; lsn = ss_lsn s + 1; done = (i + 1 = n)
      in s\<lparr>ss_chain := chain, ss_lsn := lsn, ss_offset := off, ss_open_parts := (if done then 0 else i + 1), ss_open_count := n,
           ss_boundary := (if done then \<lparr>sb_end = off, sb_chain = chain, sb_lsn = lsn\<rparr> else ss_boundary s),
           ss_landed := (ss_landed s \<or> done \<and> (case ss_header s of None \<Rightarrow> False | Some h \<Rightarrow> int off = lh_ack_end h))\<rparr>)"

definition continues :: "scan_state \<Rightarrow> nat \<Rightarrow> nat \<Rightarrow> bool" where
  "continues s i n \<longleftrightarrow> (if i = 0 then ss_open_parts s = 0 else ss_open_parts s = i \<and> ss_open_count s = n)"

definition boundary_ok :: "scan_state \<Rightarrow> u32 \<Rightarrow> nat \<Rightarrow> bool \<Rightarrow> bool" where
  "boundary_ok s chain len done \<longleftrightarrow> (\<forall>h. ss_header s = Some h \<longrightarrow>
     (done \<longrightarrow> int (ss_offset s + len) = lh_ack_end h \<longrightarrow> chain = lh_ack_chain h \<and> ss_lsn s + 1 = lh_ack_lsn h)
     \<and> (ss_landed s \<or> int (ss_offset s + len) \<le> lh_ack_end h))"

lemma accept_frame:
  assumes "good_position lsn i n body" "lsn = ss_lsn s + 1" "ss_salt s = salt" "continues s i n"
  defines "c \<equiv> frame_chain salt lsn i n body (ss_chain s)" and "len \<equiv> frame_length (length body)"
  assumes "boundary_ok s c len (i + 1 = n)"
  shows "accept s (log_frame_bytes salt lsn i n body (ss_chain s)) = Inr (Some (next_state s c len i n,
      \<lparr>sf_offset = ss_offset s, sf_lsn = lsn, sf_transaction = lsn - int i, sf_index = i, sf_count = n, sf_body = body\<rparr>, i + 1 = n))"
proof -
  let ?b = "log_frame_bytes salt lsn i n body (ss_chain s)"
  note g = frame_length_ge [of "length body", folded len_def]
  note f = frame_fields [OF assms(1), of salt "le32 c", folded log_frame_bytes_def c_def]
  have b: "frame_content salt lsn i n body @ le32 c = ?b" by (simp add: log_frame_bytes_def c_def)
  note f = f [unfolded b]
  have l: "length ?b = len" by (simp add: len_def)
  have "slice_of ?b 0 (len - 4) = frame_content salt lsn i n body" by (simp add: log_frame_bytes_def slice_of_def len_def)
  then have x: "xx_hash32 ?b (ss_chain s) 0 (int len - 4) = Inr c"
    using g hash_ref [of ?b "ss_chain s" 0 "int (len - 4)"] l by (simp add: of_nat_diff c_def frame_chain_def nat_diff_distrib)
  have e: "get32 ?b (len - 4) = c" using g by (simp add: log_frame_bytes_def len_def bytes_simps c_def [symmetric])
  have n: "i < n" "1 \<le> n" using assms(1) by (simp_all add: good_position_def)
  have "accept s ?b = (
     let s1 = s\<lparr>ss_chain := c, ss_lsn := lsn, ss_offset := ss_offset s + len, ss_open_parts := i + 1, ss_open_count := n\<rparr>;
         frame = \<lparr>sf_offset = ss_offset s, sf_lsn = lsn, sf_transaction = lsn - int i, sf_index = i, sf_count = n, sf_body = body\<rparr>;
         ends = (case ss_header s1 of None \<Rightarrow> False | Some h \<Rightarrow> int (ss_offset s1) = lh_ack_end h);
         wrong = (case ss_header s1 of None \<Rightarrow> False | Some h \<Rightarrow> ss_chain s1 \<noteq> lh_ack_chain h \<or> ss_lsn s1 \<noteq> lh_ack_lsn h)
     in if i + 1 = n \<and> ends \<and> wrong then Inl (CorruptionError ''The acknowledged boundary does not match its frame'')
        else
          let s2 = (if i + 1 = n then s1\<lparr>ss_open_parts := 0, ss_boundary := \<lparr>sb_end = ss_offset s1, sb_chain = ss_chain s1, sb_lsn = ss_lsn s1\<rparr>,
                             ss_landed := (ss_landed s1 \<or> ends)\<rparr> else s1)
          in if (case ss_header s2 of None \<Rightarrow> False | Some h \<Rightarrow> \<not> ss_landed s2 \<and> lh_ack_end h < int (ss_offset s2))
             then Inl (CorruptionError ''The acknowledged boundary is not a transaction end'') else Inr (Some (s2, frame, i + 1 = n)))"
    unfolding accept_def l x bindR_simps Let_def f e LOG_FRAME_HEADER_BYTES_def using n assms(2,4) by (simp add: continues_def)
  also have "\<dots> = Inr (Some (next_state s c len i n,
      \<lparr>sf_offset = ss_offset s, sf_lsn = lsn, sf_transaction = lsn - int i, sf_index = i, sf_count = n, sf_body = body\<rparr>, i + 1 = n))"
    using assms(7) by (cases "ss_header s"; cases "i + 1 = n") (auto simp: Let_def next_state_def boundary_ok_def assms(2))
  finally show ?thesis .
qed

subsection \<open>A run of frames\<close>

abbreviation step_state :: "scan_state \<Rightarrow> nat \<Rightarrow> nat \<Rightarrow> byte list \<Rightarrow> scan_state" where
  "step_state s i n body \<equiv> next_state s (frame_chain (ss_salt s) (ss_lsn s + 1) i n body (ss_chain s)) (frame_length (length body)) i n"

fun run_state :: "scan_state \<Rightarrow> part list \<Rightarrow> scan_state" where
  "run_state s [] = s"
| "run_state s ((i, n, body) # ps) = run_state (step_state s i n body) ps"

fun ok_run :: "scan_state \<Rightarrow> part list \<Rightarrow> bool" where
  "ok_run s [] = True"
| "ok_run s ((i, n, body) # ps) \<longleftrightarrow> good_position (ss_lsn s + 1) i n body \<and> continues s i n
     \<and> boundary_ok s (frame_chain (ss_salt s) (ss_lsn s + 1) i n body (ss_chain s)) (frame_length (length body)) (i + 1 = n) \<and> ok_run (step_state s i n body) ps"

fun gather :: "scanned_frame list \<Rightarrow> scanned_frame list \<Rightarrow> scanned_frame list \<Rightarrow> scanned_frame list \<times> scanned_frame list" where
  "gather fr op [] = (fr, op)"
| "gather fr op (f # fs) = (if sf_index f + 1 = sf_count f then gather (fr @ op @ [f]) [] fs else gather fr (op @ [f]) fs)"

lemma gather_append: "gather fr op (fs @ gs) = (case gather fr op fs of (fr, op) \<Rightarrow> gather fr op gs)"
  by (induction fr op fs rule: gather.induct) simp_all

lemma next_state_simps [simp]:
  "ss_salt (next_state s c len i n) = ss_salt s" "ss_header (next_state s c len i n) = ss_header s" "ss_chain (next_state s c len i n) = c"
  "ss_lsn (next_state s c len i n) = ss_lsn s + 1" "ss_offset (next_state s c len i n) = ss_offset s + len"
  "ss_open_parts (next_state s c len i n) = (if i + 1 = n then 0 else i + 1)" "ss_open_count (next_state s c len i n) = n"
  by (simp_all add: next_state_def Let_def)

lemma scan_frame:
  fixes rest :: "byte list"
  assumes "good_position (ss_lsn s + 1) i n body" "continues s i n"
    "boundary_ok s (frame_chain (ss_salt s) (ss_lsn s + 1) i n body (ss_chain s)) (frame_length (length body)) (i + 1 = n)" "length pre = ss_offset s"
  defines "f \<equiv> \<lparr>sf_offset = ss_offset s, sf_lsn = ss_lsn s + 1, sf_transaction = ss_lsn s + 1 - int i, sf_index = i, sf_count = n, sf_body = body\<rparr>"
    and "all \<equiv> pre @ log_frame_bytes (ss_salt s) (ss_lsn s + 1) i n body (ss_chain s) @ rest"
  shows "scan_loop all s fr op =
      (if i + 1 = n then scan_loop all (step_state s i n body) (fr @ op @ [f]) [] else scan_loop all (step_state s i n body) fr (op @ [f]))"
proof -
  let ?b = "log_frame_bytes (ss_salt s) (ss_lsn s + 1) i n body (ss_chain s)" and ?n = "frame_length (length body)"
  let ?c = "frame_chain (ss_salt s) (ss_lsn s + 1) i n body (ss_chain s)"
  note m = frame_length_ge [of "length body"]
  note ff = frame_fields [OF assms(1), of "ss_salt s" "le32 ?c", folded log_frame_bytes_def]
  have b: "frame_content (ss_salt s) (ss_lsn s + 1) i n body @ le32 ?c = ?b" by (simp add: log_frame_bytes_def)
  note ff = ff [unfolded b]
  have whole: "slice_of all (ss_offset s) (ss_offset s + ?n) = ?b"
    using slice_of_middle [of pre ?b rest] assms(4) by (simp add: all_def)
  have head: "slice_of all (ss_offset s) (ss_offset s + LOG_FRAME_HEADER_BYTES) = take 28 ?b"
    using m by (simp add: all_def assms(4) [symmetric] slice_of_def LOG_FRAME_HEADER_BYTES_def)
  have "k + at \<le> 28 \<Longrightarrow> get_le k (take 28 ?b) at = get_le k ?b at" for k at
    by (simp add: get_le_def slice_of_def drop_take min_def)
  then have "scan_length s (slice_of all (ss_offset s) (ss_offset s + LOG_FRAME_HEADER_BYTES)) = Some ?n"
    unfolding head using ff m assms(1) by (simp add: scan_length_def LOG_FRAME_HEADER_BYTES_def Let_def get32_def good_position_def)
  moreover have "\<not> length all < ss_offset s + ?n" by (simp add: all_def assms(4))
  moreover have "accept s ?b = Inr (Some (step_state s i n body, f, i + 1 = n))"
    unfolding f_def using accept_frame [OF assms(1) refl refl assms(2,3)] by simp
  ultimately show ?thesis by (subst scan_loop.simps) (simp add: whole)
qed

lemma scan_run:
  "ok_run s ps \<Longrightarrow> length pre = ss_offset s \<Longrightarrow> all = pre @ frames_bytes (ss_salt s) (ss_chain s) (ss_lsn s + 1) ps @ rest \<Longrightarrow>
    gather fr op (frames_scanned (ss_offset s) (ss_lsn s + 1) ps) = (fr', op') \<Longrightarrow>
    scan_loop all s fr op = scan_loop all (run_state s ps) fr' op'"
proof (induction s ps arbitrary: pre fr op rule: run_state.induct)
  case (2 s i n body ps)
  let ?b = "log_frame_bytes (ss_salt s) (ss_lsn s + 1) i n body (ss_chain s)" and ?t = "step_state s i n body"
  let ?f = "\<lparr>sf_offset = ss_offset s, sf_lsn = ss_lsn s + 1, sf_transaction = ss_lsn s + 1 - int i, sf_index = i, sf_count = n, sf_body = body\<rparr>"
  have all: "all = pre @ ?b @ frames_bytes (ss_salt ?t) (ss_chain ?t) (ss_lsn ?t + 1) ps @ rest" using "2.prems"(3) by simp
  have step: "scan_loop all s fr op = (if i + 1 = n then scan_loop all ?t (fr @ op @ [?f]) [] else scan_loop all ?t fr (op @ [?f]))"
    unfolding all by (rule scan_frame) (use "2.prems" in auto)
  note IH = "2.IH" [of "pre @ ?b"]
  show ?case using step IH "2.prems" all by (auto split: if_splits)
qed simp

lemma run_state_simps:
  "ss_salt (run_state s ps) = ss_salt s" "ss_header (run_state s ps) = ss_header s"
  "ss_chain (run_state s ps) = log_chain (ss_salt s) (ss_chain s) (ss_lsn s + 1) ps" "ss_lsn (run_state s ps) = ss_lsn s + int (length ps)"
  "ss_offset (run_state s ps) = ss_offset s + length (frames_bytes (ss_salt s) (ss_chain s) (ss_lsn s + 1) ps)"
  by (induction s ps rule: run_state.induct) simp_all

lemmas run_state_more [simp] = run_state_simps(1,2,4)

lemma ok_run_append: "ok_run s (ps @ qs) \<longleftrightarrow> ok_run s ps \<and> ok_run (run_state s ps) qs"
  by (induction s ps rule: run_state.induct) auto

lemma run_state_append: "run_state s (ps @ qs) = run_state (run_state s ps) qs"
  by (induction s ps rule: run_state.induct) auto

subsection \<open>Transactions\<close>

definition tx_ok :: "byte list list \<Rightarrow> bool" where
  "tx_ok t \<longleftrightarrow> t \<noteq> [] \<and> length t \<le> 65535 \<and> (\<forall>b \<in> set t. length b \<le> MAX_FRAME_BODY_BYTES)"

definition tx_parts :: "byte list list list \<Rightarrow> part list" where "tx_parts txs = concat (map parts_of txs)"

definition run_bytes :: "scan_state \<Rightarrow> part list \<Rightarrow> byte list" where
  "run_bytes s ps = frames_bytes (ss_salt s) (ss_chain s) (ss_lsn s + 1) ps"

definition run_chain :: "scan_state \<Rightarrow> part list \<Rightarrow> u32" where
  "run_chain s ps = log_chain (ss_salt s) (ss_chain s) (ss_lsn s + 1) ps"

lemma run_append:
  "run_bytes s (ps @ qs) = run_bytes s ps @ run_bytes (run_state s ps) qs" "run_chain s (ps @ qs) = run_chain (run_state s ps) qs"
  by (simp_all add: run_bytes_def run_chain_def log_append run_state_simps algebra_simps)

lemma run_facts:
  "ss_offset (run_state s ps) = ss_offset s + length (run_bytes s ps)" "ss_chain (run_state s ps) = run_chain s ps"
  by (simp_all add: run_bytes_def run_chain_def run_state_simps)

text \<open>The acknowledged boundary is behind the state, or is still to come at an offset.\<close>

definition ready :: "scan_state \<Rightarrow> bool" where
  "ready s \<longleftrightarrow> ss_landed s \<and> (\<forall>h. ss_header s = Some h \<longrightarrow> lh_ack_end h \<le> int (ss_offset s))"

definition reaches :: "scan_state \<Rightarrow> part list \<Rightarrow> bool" where
  "reaches s ps \<longleftrightarrow> (\<forall>h. ss_header s = Some h \<longrightarrow> lh_ack_end h = int (ss_offset s + length (run_bytes s ps)) \<and> lh_ack_chain h = run_chain s ps
     \<and> lh_ack_lsn h = ss_lsn s + int (length ps)) \<and> ss_header s \<noteq> None"

definition passes :: "scan_state \<Rightarrow> part list \<Rightarrow> bool" where
  "passes s ps \<longleftrightarrow> (\<forall>h. ss_header s = Some h \<longrightarrow> int (ss_offset s + length (run_bytes s ps)) < lh_ack_end h)"

abbreviation parts_from :: "byte list list \<Rightarrow> nat \<Rightarrow> part list" where
  "parts_from t k \<equiv> map (\<lambda>i. (i, length t, t ! i)) [k..<length t]"

lemma run_bytes_pos: "ps \<noteq> [] \<Longrightarrow> 0 < length (run_bytes s ps)"
proof (cases ps)
  case (Cons p ps')
  obtain i n body where "p = (i, n, body)" by (cases p)
  then show ?thesis using Cons frame_length_ge(1) [of "length body"] by (simp add: run_bytes_def)
qed simp

lemma tx_run:
  assumes "tx_ok t" "k < length t" "continues s k (length t)" "0 \<le> ss_lsn s" "ss_lsn s + int (length t - k) \<le> MAX_SAFE_INTEGER"
    "ready s \<or> \<not> ss_landed s \<and> (reaches s (parts_from t k) \<or> passes s (parts_from t k))"
  defines "s' \<equiv> run_state s (parts_from t k)"
  shows "ok_run s (parts_from t k) \<and> ss_open_parts s' = 0
    \<and> ss_boundary s' = \<lparr>sb_end = ss_offset s', sb_chain = ss_chain s', sb_lsn = ss_lsn s'\<rparr>
    \<and> (ready s \<or> reaches s (parts_from t k) \<longrightarrow> ready s') \<and> (\<not> ss_landed s \<and> passes s (parts_from t k) \<longrightarrow> \<not> ss_landed s')"
  using assms(2-6) unfolding s'_def
proof (induction "length t - k" arbitrary: s k)
  case (Suc m)
  let ?n = "length t" and ?b = "t ! k"
  let ?len = "frame_length (length ?b)" and ?c = "frame_chain (ss_salt s) (ss_lsn s + 1) k ?n ?b (ss_chain s)" and ?s = "step_state s k ?n ?b"
  have split: "parts_from t k = (k, ?n, ?b) # parts_from t (Suc k)" using Suc.prems(1) by (simp add: upt_conv_Cons)
  have b: "length ?b \<le> MAX_FRAME_BODY_BYTES" using assms(1) Suc.prems(1) by (simp add: tx_ok_def)
  have good: "good_position (ss_lsn s + 1) k ?n ?b"
    using assms(1) Suc.prems b by (simp add: good_position_def tx_ok_def is_safe_integer_def)
  have bytes: "run_bytes s (parts_from t k) = log_frame_bytes (ss_salt s) (ss_lsn s + 1) k ?n ?b (ss_chain s) @ run_bytes ?s (parts_from t (Suc k))"
    "run_chain s (parts_from t k) = run_chain ?s (parts_from t (Suc k))" unfolding split by (simp_all add: run_bytes_def run_chain_def)
  have off: "length (run_bytes s (parts_from t k)) = ?len + length (run_bytes ?s (parts_from t (Suc k)))" by (simp add: bytes(1))
  have len: "0 < ?len" using frame_length_ge(1) [of "length ?b"] by linarith
  show ?case
  proof (cases "Suc k = ?n")
    case True
    then have one: "parts_from t (Suc k) = []" by simp
    have e: "length (run_bytes s (parts_from t k)) = ?len" "run_chain s (parts_from t k) = ?c" unfolding off bytes(2) one by (simp_all add: run_bytes_def run_chain_def)
    have l: "length (parts_from t k) = 1" using True by simp
    have "boundary_ok s ?c ?len True"
      using Suc.prems(5) len unfolding boundary_ok_def ready_def reaches_def passes_def e l by auto
    moreover have "ready s \<or> reaches s (parts_from t k) \<longrightarrow> ready ?s"
      using len True unfolding ready_def reaches_def e l by (auto simp: next_state_def Let_def split: option.splits)
    moreover have "\<not> ss_landed s \<and> passes s (parts_from t k) \<longrightarrow> \<not> ss_landed ?s"
      using True unfolding passes_def e by (auto simp: next_state_def Let_def split: option.splits)
    ultimately show ?thesis using good Suc.prems(2) True unfolding split one
      by (simp add: next_state_def Let_def)
  next
    case False
    then have k: "Suc k < ?n" using Suc.prems(1) by simp
    have "boundary_ok s ?c ?len False"
      using Suc.prems(5) len unfolding boundary_ok_def ready_def reaches_def passes_def off by auto
    moreover have same: "ss_landed ?s = ss_landed s" using False by (simp add: next_state_def Let_def)
    moreover have r: "ready s \<Longrightarrow> ready ?s" using same by (auto simp: ready_def)
    moreover have re: "reaches ?s (parts_from t (Suc k)) = reaches s (parts_from t k)"
      using k by (auto simp: reaches_def off bytes(2) algebra_simps of_nat_diff)
    moreover have pa: "passes ?s (parts_from t (Suc k)) = passes s (parts_from t k)" by (simp add: passes_def off algebra_simps)
    moreover have "ok_run ?s (parts_from t (Suc k)) \<and> ss_open_parts (run_state ?s (parts_from t (Suc k))) = 0
      \<and> ss_boundary (run_state ?s (parts_from t (Suc k))) = \<lparr>sb_end = ss_offset (run_state ?s (parts_from t (Suc k))),
          sb_chain = ss_chain (run_state ?s (parts_from t (Suc k))), sb_lsn = ss_lsn (run_state ?s (parts_from t (Suc k)))\<rparr>
      \<and> (ready ?s \<or> reaches ?s (parts_from t (Suc k)) \<longrightarrow> ready (run_state ?s (parts_from t (Suc k))))
      \<and> (\<not> ss_landed ?s \<and> passes ?s (parts_from t (Suc k)) \<longrightarrow> \<not> ss_landed (run_state ?s (parts_from t (Suc k))))"
      by (rule Suc.hyps(1)) (use Suc.hyps(2) Suc.prems k r re pa same in \<open>auto simp: continues_def\<close>)
    ultimately show ?thesis using good Suc.prems(2) False unfolding split by auto
  qed
qed simp

lemma tx_parts_Cons: "tx_parts (t # txs) = parts_from t 0 @ tx_parts txs"
  by (simp add: tx_parts_def parts_of_def)

lemma length_parts_of: "length (parts_of t) = length t"
  by (simp add: parts_of_def)

definition settled :: "scan_state \<Rightarrow> bool" where
  "settled s \<longleftrightarrow> ss_open_parts s = 0 \<and> ss_boundary s = \<lparr>sb_end = ss_offset s, sb_chain = ss_chain s, sb_lsn = ss_lsn s\<rparr>"

text \<open>A log whose acknowledged boundary, if it is still to come, is the end of one of its transactions is scanned whole.\<close>

lemma txs_run:
  assumes "\<forall>t \<in> set txs. tx_ok t" "settled s" "0 \<le> ss_lsn s" "ss_lsn s + int (length (tx_parts txs)) \<le> MAX_SAFE_INTEGER"
    "ready s \<or> \<not> ss_landed s \<and> (\<exists>k. 1 \<le> k \<and> k \<le> length txs \<and> reaches s (tx_parts (take k txs)))"
  shows "ok_run s (tx_parts txs) \<and> settled (run_state s (tx_parts txs)) \<and> ready (run_state s (tx_parts txs))"
  using assms
proof (induction txs arbitrary: s)
  case Nil
  then show ?case by (simp add: tx_parts_def)
next
  case (Cons t txs)
  let ?t = "run_state s (parts_from t 0)"
  have t: "tx_ok t" "0 < length t" using Cons.prems(1) by (auto simp: tx_ok_def)
  have c: "continues s 0 (length t)" using Cons.prems(2) by (simp add: continues_def settled_def)
  have len: "length (tx_parts (t # txs)) = length t + length (tx_parts txs)" by (simp add: tx_parts_Cons)
  have l: "ss_lsn s + int (length t - 0) \<le> MAX_SAFE_INTEGER" using Cons.prems(4) unfolding len by simp
  have later: "\<exists>k. 1 \<le> k \<and> k \<le> length txs \<and> reaches ?t (tx_parts (take k txs))" and pass: "passes s (parts_from t 0)"
    if "reaches s (tx_parts (take (Suc k) (t # txs)))" "1 \<le> k" "k \<le> length txs" for k
  proof -
    have e: "tx_parts (take (Suc k) (t # txs)) = parts_from t 0 @ tx_parts (take k txs)" by (simp add: tx_parts_Cons)
    have "reaches ?t (tx_parts (take k txs))"
      using that(1) unfolding e reaches_def run_append by (auto simp: run_facts algebra_simps)
    then show "\<exists>k. 1 \<le> k \<and> k \<le> length txs \<and> reaches ?t (tx_parts (take k txs))" using that(2,3) by blast
    have "\<exists>u us. take k txs = u # us \<and> u \<in> set txs" using that(2,3) by (cases txs; cases k) auto
    then obtain u us where u: "take k txs = u # us" "tx_ok u" using Cons.prems(1) by auto
    then have "tx_parts (take k txs) \<noteq> []" by (simp add: tx_parts_Cons tx_ok_def)
    then have "0 < length (run_bytes ?t (tx_parts (take k txs)))" by (rule run_bytes_pos)
    then show "passes s (parts_from t 0)" using that(1) unfolding e reaches_def passes_def run_append by auto
  qed
  consider (past) "ready s" | (now) "\<not> ss_landed s" "reaches s (parts_from t 0)"
    | (ahead) k where "\<not> ss_landed s" "1 \<le> k" "k \<le> length txs" "reaches s (tx_parts (take (Suc k) (t # txs)))"
  proof (cases "ready s")
    case False
    then obtain k where k: "\<not> ss_landed s" "1 \<le> k" "k \<le> length (t # txs)" "reaches s (tx_parts (take k (t # txs)))" using Cons.prems(5) by blast
    then obtain j where j: "k = Suc j" by (cases k) auto
    show ?thesis
    proof (cases "j = 0")
      case True
      then have "reaches s (parts_from t 0)" using k(4) j by (simp add: tx_parts_Cons) (simp add: tx_parts_def)
      then show ?thesis using that(2) k(1) by blast
    next
      case False
      then show ?thesis using that(3) [of j] k j by simp
    qed
  qed
  then have "ok_run s (parts_from t 0) \<and> settled ?t \<and> (ready ?t \<or> \<not> ss_landed ?t \<and> (\<exists>k. 1 \<le> k \<and> k \<le> length txs \<and> reaches ?t (tx_parts (take k txs))))"
  proof cases
    case ahead
    then show ?thesis using tx_run [OF t c Cons.prems(3) l] pass [OF ahead(4,2,3)] later [OF ahead(4,2,3)] by (auto simp: settled_def)
  qed (use tx_run [OF t c Cons.prems(3) l] in \<open>auto simp: settled_def\<close>)
  moreover have "ok_run ?t (tx_parts txs) \<and> settled (run_state ?t (tx_parts txs)) \<and> ready (run_state ?t (tx_parts txs))" if "settled ?t"
    "ready ?t \<or> \<not> ss_landed ?t \<and> (\<exists>k. 1 \<le> k \<and> k \<le> length txs \<and> reaches ?t (tx_parts (take k txs)))"
    by (rule Cons.IH) (use that Cons.prems len in auto)
  ultimately show ?case by (auto simp: tx_parts_Cons ok_run_append run_state_append)
qed

text \<open>The first parts of a transaction that is not complete leave the boundary where it was.\<close>

lemma partial_run:
  assumes "tx_ok t" "p < length t" "settled s" "ready s" "0 \<le> ss_lsn s" "ss_lsn s + int p \<le> MAX_SAFE_INTEGER"
  defines "ps \<equiv> map (\<lambda>i. (i, length t, t ! i)) [0..<p]"
  shows "ok_run s ps \<and> ss_open_parts (run_state s ps) = p \<and> (p \<noteq> 0 \<longrightarrow> ss_open_count (run_state s ps) = length t)
    \<and> ss_boundary (run_state s ps) = ss_boundary s \<and> ready (run_state s ps)"
  using assms(2,6) unfolding ps_def
proof (induction p)
  case 0
  then show ?case using assms(3,4) by (simp add: settled_def)
next
  case (Suc p)
  let ?ps = "map (\<lambda>i. (i, length t, t ! i)) [0..<p]"
  let ?s = "run_state s ?ps"
  have IH: "ok_run s ?ps" "ss_open_parts ?s = p" "p \<noteq> 0 \<longrightarrow> ss_open_count ?s = length t" "ss_boundary ?s = ss_boundary s" "ready ?s"
    using Suc by auto
  have good: "good_position (ss_lsn ?s + 1) p (length t) (t ! p)"
    using assms(1,5) Suc.prems by (simp add: good_position_def tx_ok_def is_safe_integer_def)
  have "continues ?s p (length t)" using IH(2,3) by (cases "p = 0") (simp_all add: continues_def)
  moreover have "boundary_ok ?s c len False" for c len using IH(5) by (auto simp: boundary_ok_def ready_def)
  ultimately have "ok_run ?s [(p, length t, t ! p)]" using good Suc.prems(1) by simp
  moreover have "ready (step_state ?s p (length t) (t ! p))" using IH(5) Suc.prems(1) by (auto simp: ready_def next_state_def Let_def)
  ultimately show ?case using IH Suc.prems(1)
    by (simp add: ok_run_append run_state_append) (simp add: next_state_def Let_def)
qed

subsection \<open>The tail\<close>

text \<open>Bytes that are not a whole frame of this salt whose checksum continues the chain.\<close>

definition torn_tail :: "u32 \<Rightarrow> u32 \<Rightarrow> byte list \<Rightarrow> bool" where
  "torn_tail salt chain tail \<longleftrightarrow> length tail < 28 \<or> get_le 4 tail 0 \<noteq> LOG_FRAME_MAGIC \<or> get32 tail 4 \<noteq> salt \<or> MAX_FRAME_BODY_BYTES < get_le 4 tail 16
     \<or> (let n = frame_length (get_le 4 tail 16) in length tail < n \<or> get32 tail (n - 4) \<noteq> xx_ref chain (take (n - 4) tail))"

lemma scan_torn:
  assumes "torn_tail (ss_salt s) (ss_chain s) tail" "length pre = ss_offset s"
  shows "scan_loop (pre @ tail) s fr op = Inr (s, fr)"
proof -
  have head: "slice_of (pre @ tail) (ss_offset s) (ss_offset s + LOG_FRAME_HEADER_BYTES) = take 28 tail"
    by (simp add: assms(2) [symmetric] slice_of_def LOG_FRAME_HEADER_BYTES_def)
  show ?thesis
  proof (cases "scan_length s (take 28 tail)")
    case None
    then show ?thesis by (subst scan_loop.simps) (simp add: head)
  next
    case (Some n)
    have g: "28 \<le> length tail" using Some by (auto simp: scan_length_def LOG_FRAME_HEADER_BYTES_def split: if_splits)
    have "k + at \<le> 28 \<Longrightarrow> get_le k (take 28 tail) at = get_le k tail at" for k at
      by (simp add: get_le_def slice_of_def drop_take min_def)
    then have f: "get_le 4 tail 0 = LOG_FRAME_MAGIC" "get32 tail 4 = ss_salt s" "get_le 4 tail 16 \<le> MAX_FRAME_BODY_BYTES" "n = frame_length (get_le 4 tail 16)"
      using Some g by (auto simp: scan_length_def LOG_FRAME_HEADER_BYTES_def get32_def Let_def split: if_splits)
    show ?thesis
    proof (cases "length tail < n")
      case True
      then show ?thesis using Some by (subst scan_loop.simps) (simp add: head assms(2))
    next
      case False
      have n: "32 \<le> n" by (rule scan_length_pos [OF Some])
      have w: "slice_of (pre @ tail) (ss_offset s) (ss_offset s + n) = take n tail" by (simp add: assms(2) [symmetric] slice_of_def)
      have l: "length (take n tail) = n" using False by simp
      have "slice_of (take n tail) 0 (n - 4) = take (n - 4) tail" by (simp add: slice_of_def)
      then have x: "xx_hash32 (take n tail) (ss_chain s) 0 (int n - 4) = Inr (xx_ref (ss_chain s) (take (n - 4) tail))"
        using n hash_ref [of "take n tail" "ss_chain s" 0 "int (n - 4)"] l by (simp add: of_nat_diff nat_diff_distrib)
      have "get32 (take n tail) (n - 4) = get32 tail (n - 4)" using n by (simp add: get32_def get_le_def slice_of_def drop_take)
      then have "accept s (take n tail) = Inr None"
        using assms(1) f g False unfolding accept_def l x bindR_simps Let_def torn_tail_def by auto
      then show ?thesis using Some False by (subst scan_loop.simps) (simp add: head assms(2) w)
    qed
  qed
qed

subsection \<open>Recovery of a written log\<close>

lemma gather_tx: "k < length t \<Longrightarrow> gather fr op (frames_scanned off l (parts_from t k)) = (fr @ op @ frames_scanned off l (parts_from t k), [])"
proof (induction "length t - k" arbitrary: k fr op off l)
  case (Suc m)
  have split: "parts_from t k = (k, length t, t ! k) # parts_from t (Suc k)" using Suc.prems(1) by (simp add: upt_conv_Cons)
  show ?case
  proof (cases "Suc k = length t")
    case True
    then have "parts_from t (Suc k) = []" by simp
    then show ?thesis unfolding split using True by simp
  next
    case False
    then have "Suc k < length t" using Suc.prems by simp
    then show ?thesis unfolding split using False Suc.hyps(1) [of "Suc k"] Suc.hyps(2) by simp
  qed
qed simp

lemma gather_partial: "p < length t \<Longrightarrow> gather fr op (frames_scanned off l (map (\<lambda>i. (i, length t, t ! i)) [0..<p]))
    = (fr, op @ frames_scanned off l (map (\<lambda>i. (i, length t, t ! i)) [0..<p]))"
proof (induction p)
  case (Suc p)
  show ?case using Suc by (simp add: log_frames_append [where salt = 0 and chain = 0] gather_append)
qed simp

lemma gather_txs: "\<forall>t \<in> set txs. tx_ok t \<Longrightarrow> gather fr [] (frames_scanned off l (tx_parts txs)) = (fr @ frames_scanned off l (tx_parts txs), [])"
proof (induction txs arbitrary: fr off l)
  case (Cons t txs)
  then have "0 < length t" by (simp add: tx_ok_def)
  then show ?case using Cons
    by (simp add: tx_parts_Cons log_frames_append [where salt = 0 and chain = 0] gather_append gather_tx)
qed (simp add: tx_parts_def)

lemma map_log_frames:
  "map sf_body (frames_scanned off l ps) = map (\<lambda>(i, n, b). b) ps" "map sf_lsn (frames_scanned off l ps) = map (\<lambda>i. l + int i) [0..<length ps]"
  "length (frames_scanned off l ps) = length ps"
proof -
  show "map sf_body (frames_scanned off l ps) = map (\<lambda>(i, n, b). b) ps" by (induction off l ps rule: frames_scanned.induct) simp_all
  have "map (\<lambda>i. l + int i) [0..<Suc m] = l # map (\<lambda>i. l + 1 + int i) [0..<m]" for l m
    by (subst upt_conv_Cons) (simp_all del: upt_Suc add: map_Suc_upt [symmetric])
  then show "map sf_lsn (frames_scanned off l ps) = map (\<lambda>i. l + int i) [0..<length ps]"
    by (induction off l ps rule: frames_scanned.induct) (simp_all del: upt_Suc)
  show "length (frames_scanned off l ps) = length ps" by (induction off l ps rule: frames_scanned.induct) simp_all
qed

lemma tx_bodies: "map (\<lambda>(i, n, b). b) (tx_parts txs) = concat txs"
  by (induction txs) (simp_all add: tx_parts_def parts_of_def comp_def map_nth)

lemma good_tx_parts:
  "\<forall>t \<in> set txs. tx_ok t \<Longrightarrow> 1 \<le> l \<Longrightarrow> l + int (length (tx_parts txs)) \<le> MAX_SAFE_INTEGER \<Longrightarrow> parts_good l (tx_parts txs)"
proof -
  have tx: "parts_good l (parts_from t k)" if "tx_ok t" "1 \<le> l" "l + int (length t - k) \<le> MAX_SAFE_INTEGER" for t k l
    using that
  proof (induction "length t - k" arbitrary: k l)
    case (Suc m)
    then have k: "k < length t" by simp
    then have "parts_from t k = (k, length t, t ! k) # parts_from t (Suc k)" by (simp add: upt_conv_Cons)
    then show ?case using Suc k by (simp add: good_position_def tx_ok_def is_safe_integer_def)
  qed simp
  show "\<forall>t \<in> set txs. tx_ok t \<Longrightarrow> 1 \<le> l \<Longrightarrow> l + int (length (tx_parts txs)) \<le> MAX_SAFE_INTEGER \<Longrightarrow> parts_good l (tx_parts txs)"
  proof (induction txs arbitrary: l)
    case (Cons t txs)
    then show ?case using tx [of t l 0] by (simp add: tx_parts_Cons parts_good_append)
  qed (simp add: tx_parts_def)
qed

text \<open>
  What the slots say: no valid header is of a newer root, and the newest header of this salt, if there is one, acknowledges a whole
  number of the log's transactions.
\<close>

definition no_newer_root :: "byte list option \<times> byte list option \<Rightarrow> incarnation \<Rightarrow> bool" where
  "no_newer_root slots inc \<longleftrightarrow> (\<forall>slot \<in> {fst slots, snd slots}. \<forall>h. decode_log_header slot = Some h \<longrightarrow> lh_salt h = in_salt inc \<or> lh_root_sequence h \<le> in_root_sequence inc)"

definition acknowledges :: "log_header option \<Rightarrow> incarnation \<Rightarrow> byte list list list \<Rightarrow> nat \<Rightarrow> bool" where
  "acknowledges header inc txs k \<longleftrightarrow> (case header of None \<Rightarrow> True | Some h \<Rightarrow>
     (\<exists>b. write_log (in_salt inc) (in_salt inc) (in_first_lsn inc) (tx_parts (take k txs)) = Inr (b, lh_ack_chain h) \<and> lh_ack_end h = int (length b)
        \<and> lh_ack_lsn h = in_first_lsn inc - 1 + int (length (tx_parts (take k txs)))))"

lemma length_tx_parts_take: "length (tx_parts (take k txs)) \<le> length (tx_parts txs)"
proof -
  have "tx_parts txs = tx_parts (take k txs) @ tx_parts (drop k txs)" by (simp add: tx_parts_def flip: concat_append map_append)
  then show ?thesis by simp
qed

lemma scan_written:
  assumes "\<forall>u \<in> set txs. tx_ok u" "tx_ok t" "p < length t" "1 \<le> in_first_lsn inc"
    "in_first_lsn inc + int (length (tx_parts txs) + p) \<le> MAX_SAFE_INTEGER" "no_newer_root slots inc" "k \<le> length txs"
    "acknowledges (fst (newest_log_header slots (in_salt inc))) inc txs k"
  defines "ps \<equiv> take p (parts_of t)" and "S \<equiv> in_salt inc" and "L \<equiv> in_first_lsn inc"
  assumes "torn_tail S (log_chain S S L (tx_parts txs @ ps)) tail"
  shows "scan_log (frames_bytes S S L (tx_parts txs @ ps) @ tail) slots inc
    = Inr (\<lparr>su_valid_end = length (frames_bytes S S L (tx_parts txs)), su_chain = log_chain S S L (tx_parts txs),
        su_last_lsn = L - 1 + int (length (tx_parts txs)), su_abandoned = p, su_header = fst (newest_log_header slots S)\<rparr>, frames_scanned 0 L (tx_parts txs))"
proof -
  let ?hd = "fst (newest_log_header slots S)"
  have ps: "ps = map (\<lambda>i. (i, length t, t ! i)) [0..<p]" using assms(3) by (simp add: ps_def parts_of_def take_map)
  define s where "s = \<lparr>ss_header = ?hd, ss_salt = S, ss_offset = 0, ss_chain = S, ss_lsn = L - 1, ss_open_parts = 0, ss_open_count = 0,
     ss_boundary = \<lparr>sb_end = 0, sb_chain = S, sb_lsn = L - 1\<rparr>, ss_landed = ((case ?hd of None \<Rightarrow> 0 | Some h \<Rightarrow> lh_ack_end h) = 0)\<rparr>"
  have good: "parts_good L (tx_parts (take k txs))" for k
    using good_tx_parts [of "take k txs" L] assms(1,4,5) length_tx_parts_take [of k txs] by (auto simp: L_def dest: in_set_takeD)
  have ack: "lh_ack_chain h = log_chain S S L (tx_parts (take k txs)) \<and> lh_ack_end h = int (length (frames_bytes S S L (tx_parts (take k txs))))
      \<and> lh_ack_lsn h = L - 1 + int (length (tx_parts (take k txs)))" if "?hd = Some h" for h
    using assms(8) that write_log_bytes [OF good [of k], of S S] by (simp add: acknowledges_def S_def L_def)
  have none: "tx_parts (take k txs) = []" if "?hd = Some h" "lh_ack_end h = 0" for h
    using ack [OF that(1)] that(2) run_bytes_pos [of "tx_parts (take k txs)" s] by (auto simp: run_bytes_def s_def)
  have start: "start_scan slots inc = Inr s"
    using assms(6) ack none by (auto simp: start_scan_def Let_def no_newer_root_def s_def S_def [symmetric] L_def [symmetric] split: option.splits)
  have "k \<noteq> 0" if "?hd = Some h" "lh_ack_end h \<noteq> 0" for h using ack [OF that(1)] that(2) by (cases "k = 0") (simp_all add: tx_parts_def)
  then have cond: "ready s \<or> \<not> ss_landed s \<and> (\<exists>k. 1 \<le> k \<and> k \<le> length txs \<and> reaches s (tx_parts (take k txs)))"
    using ack assms(7) by (cases ?hd) (auto simp: ready_def reaches_def s_def run_bytes_def run_chain_def intro!: exI [of _ k])
  have sl: "ss_lsn s = L - 1" "ss_salt s = S" "ss_chain s = S" "ss_offset s = 0" "settled s" "ss_header s = ?hd" by (simp_all add: s_def settled_def)
  have t1: "ok_run s (tx_parts txs) \<and> settled (run_state s (tx_parts txs)) \<and> ready (run_state s (tx_parts txs))"
    by (rule txs_run) (use assms(1,4,5) sl cond in \<open>auto simp: L_def\<close>)
  let ?t = "run_state s (tx_parts txs)"
  have t2: "ok_run ?t ps \<and> ss_open_parts (run_state ?t ps) = p \<and> (p \<noteq> 0 \<longrightarrow> ss_open_count (run_state ?t ps) = length t)
    \<and> ss_boundary (run_state ?t ps) = ss_boundary ?t \<and> ready (run_state ?t ps)"
    unfolding ps by (rule partial_run) (use assms(2-5) t1 sl in \<open>auto simp: L_def\<close>)
  let ?u = "run_state s (tx_parts txs @ ps)"
  have g: "gather [] [] (frames_scanned (ss_offset s) (ss_lsn s + 1) (tx_parts txs @ ps))
      = (frames_scanned 0 L (tx_parts txs), frames_scanned (0 + length (frames_bytes S S L (tx_parts txs))) (L + int (length (tx_parts txs))) ps)"
    unfolding ps sl log_frames_append [where salt = S and chain = S] gather_append using assms(1,3) by (simp add: gather_txs gather_partial)
  let ?all = "frames_bytes S S L (tx_parts txs @ ps) @ tail"
  have "scan_loop ?all s [] [] = scan_loop ?all ?u (frames_scanned 0 L (tx_parts txs)) (frames_scanned (0 + length (frames_bytes S S L (tx_parts txs))) (L + int (length (tx_parts txs))) ps)"
    by (rule scan_run [of _ _ "[]", OF _ _ _ g]) (use t1 t2 sl in \<open>auto simp: ok_run_append\<close>)
  also have "\<dots> = Inr (?u, frames_scanned 0 L (tx_parts txs))"
    by (rule scan_torn) (use assms(12) sl in \<open>auto simp: run_state_simps\<close>)
  finally have loop: "scan_loop ?all s [] [] = Inr (?u, frames_scanned 0 L (tx_parts txs))" .
  have "finish_scan ?u = Inr \<lparr>su_valid_end = length (frames_bytes S S L (tx_parts txs)), su_chain = log_chain S S L (tx_parts txs),
        su_last_lsn = L - 1 + int (length (tx_parts txs)), su_abandoned = p, su_header = ?hd\<rparr>"
    using t1 t2 sl by (simp add: finish_scan_def run_state_append ready_def settled_def run_state_simps)
  then show ?thesis unfolding scan_log_def start bindR_simps loop prod.case by simp
qed

subsection \<open>What a scan that succeeds has seen\<close>

definition frame_end :: "scanned_frame \<Rightarrow> nat" where
  "frame_end f = sf_offset f + frame_length (length (sf_body f))"

definition frames_end :: "scanned_frame list \<Rightarrow> nat" where
  "frames_end fs = (if fs = [] then 0 else frame_end (List.last fs))"

text \<open>The chain recomputed over the bytes of the frames.\<close>

definition chain_of :: "byte list \<Rightarrow> u32 \<Rightarrow> scanned_frame list \<Rightarrow> u32" where
  "chain_of body c fs = foldl (\<lambda>c f. xx_ref c (slice_of body (sf_offset f) (frame_end f - 4))) c fs"

text \<open>Frames one after the other with consecutive LSNs, and the parts of transactions in order, with the number of parts left open.\<close>

fun laid_out :: "nat \<Rightarrow> int \<Rightarrow> scanned_frame list \<Rightarrow> bool" where
  "laid_out off l [] = True"
| "laid_out off l (f # fs) \<longleftrightarrow> sf_offset f = off \<and> sf_lsn f = l \<and> sf_transaction f = l - int (sf_index f) \<and> laid_out (frame_end f) (l + 1) fs"

fun parts_shape :: "nat \<Rightarrow> nat \<Rightarrow> scanned_frame list \<Rightarrow> (nat \<times> nat) option" where
  "parts_shape k n [] = Some (k, n)"
| "parts_shape k n (f # fs) =
     (if sf_index f = k \<and> k < sf_count f \<and> (k = 0 \<or> sf_count f = n) then parts_shape (if k + 1 = sf_count f then 0 else k + 1) (sf_count f) fs else None)"

definition whole_transactions :: "scanned_frame list \<Rightarrow> bool" where
  "whole_transactions fs \<longleftrightarrow> (\<exists>n. parts_shape 0 0 fs = Some (0, n))"

lemma laid_out_append: "laid_out off l (fs @ [f]) \<longleftrightarrow> laid_out off l fs \<and> sf_offset f = (if fs = [] then off else frame_end (List.last fs))
    \<and> sf_lsn f = l + int (length fs) \<and> sf_transaction f = sf_lsn f - int (sf_index f)"
  by (induction off l fs rule: laid_out.induct) (auto simp: algebra_simps)

lemma parts_shape_append: "parts_shape k n (fs @ gs) = Option.bind (parts_shape k n fs) (\<lambda>(k, n). parts_shape k n gs)"
  by (induction k n fs rule: parts_shape.induct) auto

definition acked_at :: "byte list \<Rightarrow> incarnation \<Rightarrow> log_header \<Rightarrow> scanned_frame list \<Rightarrow> bool" where
  "acked_at body inc h fs \<longleftrightarrow> whole_transactions fs \<and> lh_ack_end h = int (frames_end fs) \<and> lh_ack_chain h = chain_of body (in_salt inc) fs
     \<and> lh_ack_lsn h = in_first_lsn inc - 1 + int (length fs)"

definition scanned :: "byte list \<Rightarrow> incarnation \<Rightarrow> scan_state \<Rightarrow> scanned_frame list \<Rightarrow> scanned_frame list \<Rightarrow> bool" where
  "scanned body inc s fr op \<longleftrightarrow> laid_out 0 (in_first_lsn inc) (fr @ op) \<and> whole_transactions fr
     \<and> parts_shape 0 0 (fr @ op) = Some (ss_open_parts s, ss_open_count s) \<and> ss_open_parts s = length op
     \<and> ss_offset s = frames_end (fr @ op) \<and> ss_lsn s = in_first_lsn inc - 1 + int (length (fr @ op)) \<and> ss_chain s = chain_of body (in_salt inc) (fr @ op)
     \<and> ss_boundary s = \<lparr>sb_end = frames_end fr, sb_chain = chain_of body (in_salt inc) fr, sb_lsn = in_first_lsn inc - 1 + int (length fr)\<rparr>
     \<and> (\<forall>h. ss_header s = Some h \<longrightarrow> ss_landed s \<longrightarrow> (\<exists>k \<le> length fr. acked_at body inc h (take k fr)))"

lemma scanned_step:
  assumes "scanned body inc s fr op" "scan_length s (slice_of body (ss_offset s) (ss_offset s + LOG_FRAME_HEADER_BYTES)) = Some n"
    "ss_offset s + n \<le> length body" "accept s (slice_of body (ss_offset s) (ss_offset s + n)) = Inr (Some (s', f, c))"
  shows "scanned body inc s' (if c then fr @ op @ [f] else fr) (if c then [] else op @ [f])" "ss_header s' = ss_header s"
proof -
  let ?b = "slice_of body (ss_offset s) (ss_offset s + n)"
  note i = assms(1) [unfolded scanned_def]
  have n: "32 \<le> n" by (rule scan_length_pos [OF assms(2)])
  have l: "length ?b = n" using assms(3) by simp
  define m where "m = get_le 4 ?b 16"
  have fl: "n = frame_length m"
  proof -
    have "get_le 4 (slice_of body (ss_offset s) (ss_offset s + 28)) 16 = m"
      unfolding m_def using n by (simp add: get_le_def slice_of_def drop_take min_def)
    then show ?thesis using assms(2) by (auto simp: scan_length_def Let_def LOG_FRAME_HEADER_BYTES_def split: if_splits)
  qed
  have body_length: "length (slice_of ?b 28 (28 + m)) = m" using frame_length_ge(1) [of m] l fl by simp
  have x: "xx_hash32 ?b (ss_chain s) 0 (int n - 4) = Inr (xx_ref (ss_chain s) (slice_of ?b 0 (n - 4)))"
    using n hash_ref [of ?b "ss_chain s" 0 "int (n - 4)"] l by (simp add: of_nat_diff nat_diff_distrib)
  have sl: "slice_of ?b 0 (n - 4) = slice_of body (ss_offset s) (ss_offset s + n - 4)" using n by (simp add: slice_of_def)
  define C where "C = xx_ref (ss_chain s) (slice_of body (ss_offset s) (ss_offset s + n - 4))"
  define I N where "I = get_le 2 ?b 22" and "N = get_le 2 ?b 24"
  note a = assms(4) [unfolded accept_def l x bindR_simps Let_def sl C_def [symmetric] m_def [symmetric] I_def [symmetric] N_def [symmetric] LOG_FRAME_HEADER_BYTES_def]
  have lsn: "get_u53 ?b 8 = ss_lsn s + 1" and part: "I < N" "if I = 0 then ss_open_parts s = 0 else ss_open_parts s = I \<and> ss_open_count s = N"
    and f: "f = \<lparr>sf_offset = ss_offset s, sf_lsn = get_u53 ?b 8, sf_transaction = get_u53 ?b 8 - int I, sf_index = I, sf_count = N, sf_body = slice_of ?b 28 (28 + m)\<rparr>"
    and c: "c = (I + 1 = N)"
    using a by (auto split: if_splits)
  define L where "L = (c \<and> (case ss_header s of None \<Rightarrow> False | Some h \<Rightarrow> int (ss_offset s + n) = lh_ack_end h))"
  have s': "ss_header s' = ss_header s" "ss_chain s' = C" "ss_lsn s' = ss_lsn s + 1" "ss_offset s' = ss_offset s + n"
      "ss_open_parts s' = (if c then 0 else I + 1)" "ss_open_count s' = N"
      "ss_boundary s' = (if c then \<lparr>sb_end = ss_offset s + n, sb_chain = C, sb_lsn = ss_lsn s + 1\<rparr> else ss_boundary s)"
    using a lsn unfolding c by (auto split: if_splits)
  have landed: "ss_landed s' = (ss_landed s \<or> L)"
    using a unfolding L_def c by (cases "ss_header s") (auto split: if_splits)
  have ack: "C = lh_ack_chain h \<and> ss_lsn s + 1 = lh_ack_lsn h" if "L" "ss_header s = Some h" for h
    using a lsn that by (auto simp: L_def c split: if_splits)
  have fe: "frame_end f = ss_offset s + n" by (simp only: frame_end_def f scanned_frame.simps body_length fl [symmetric])
  have off: "sf_offset f = ss_offset s" "sf_lsn f = ss_lsn s + 1" "sf_transaction f = sf_lsn f - int (sf_index f)" "sf_index f = I" "sf_count f = N"
    by (simp_all add: f lsn)
  have laid: "laid_out 0 (in_first_lsn inc) ((fr @ op) @ [f])"
    unfolding laid_out_append using i off by (simp add: frames_end_def)
  have chain: "chain_of body (in_salt inc) ((fr @ op) @ [f]) = C" using i by (simp add: chain_of_def C_def fe off(1))
  have ends: "frames_end ((fr @ op) @ [f]) = ss_offset s + n" by (simp add: frames_end_def fe)
  have shape: "parts_shape 0 0 ((fr @ op) @ [f]) = Some (if c then 0 else I + 1, N)"
    unfolding parts_shape_append [of 0 0 "fr @ op"] using i off part c by (auto split: if_splits)
  have open': "I = length op" using i part(2) by (auto split: if_splits)
  show "ss_header s' = ss_header s" by (simp add: s')
  show "scanned body inc s' (if c then fr @ op @ [f] else fr) (if c then [] else op @ [f])"
  proof (cases c)
    case True
    have whole: "whole_transactions ((fr @ op) @ [f])" using shape True by (auto simp: whole_transactions_def)
    have "\<exists>k \<le> length (fr @ op @ [f]). acked_at body inc h (take k (fr @ op @ [f]))" if hs: "ss_header s = Some h" "ss_landed s \<or> L" for h
    proof (cases L)
      case True
      then have "int (ss_offset s + n) = lh_ack_end h" using hs(1) by (simp add: L_def)
      then have "acked_at body inc h ((fr @ op) @ [f])" using ack [OF True hs(1)] whole chain ends i by (simp add: acked_at_def)
      then show ?thesis by (intro exI [of _ "length (fr @ op @ [f])"]) simp
    next
      case False
      then obtain k where "k \<le> length fr" "acked_at body inc h (take k fr)" using hs i by auto
      then show ?thesis by (intro exI [of _ k]) simp
    qed
    then show ?thesis using True i laid shape ends chain whole s' landed by (simp add: scanned_def)
  next
    case False
    then have "\<not> L" by (simp add: L_def)
    then show ?thesis using False i laid shape ends chain s' landed open' by (simp add: scanned_def)
  qed
qed

lemma scanned_loop: "scanned body inc s fr op \<Longrightarrow> scan_loop body s fr op = Inr (s', fr') \<Longrightarrow> (\<exists>op'. scanned body inc s' fr' op') \<and> ss_header s' = ss_header s"
proof (induction body s fr op rule: scan_loop.induct)
  case (1 body s fr op)
  show ?case
  proof (cases "scan_length s (slice_of body (ss_offset s) (ss_offset s + LOG_FRAME_HEADER_BYTES))")
    case (Some n)
    show ?thesis
    proof (cases "length body < ss_offset s + n")
      case False
      note ih = "1.IH" [OF Some False]
      show ?thesis
      proof (cases "accept s (slice_of body (ss_offset s) (ss_offset s + n))")
        case (Inr r)
        show ?thesis
        proof (cases r)
          case r: (Some t)
          obtain s1 f c where t: "t = (s1, f, c)" by (cases t)
          have a: "accept s (slice_of body (ss_offset s) (ss_offset s + n)) = Inr (Some (s1, f, c))" using Inr r t by simp
          have len: "ss_offset s + n \<le> length body" using False by simp
          note st = scanned_step [OF "1.prems"(1) Some len a]
          show ?thesis
            using ih [OF Inr r t [symmetric] refl] st "1.prems"(2) Some False a by (cases c) (simp_all add: scan_loop.simps [of body s fr op])
        qed (use "1.prems" Some False Inr in \<open>auto simp: scan_loop.simps [of body s fr op]\<close>)
      qed (use "1.prems" Some False in \<open>auto simp: scan_loop.simps [of body s fr op]\<close>)
    qed (use "1.prems" Some in \<open>auto simp: scan_loop.simps [of body s fr op]\<close>)
  qed (use "1.prems" in \<open>auto simp: scan_loop.simps [of body s fr op]\<close>)
qed

section \<open>Properties of recovery\<close>

text \<open>
  Property C6: recovery finds what was written. A log is the frames of complete transactions, of the first parts of one more (perhaps
  none) and a tail that is torn, stale or empty; the header slots hold no newer root and acknowledge a whole number of its
  transactions (perhaps none). Then the scan succeeds and returns exactly the bodies of the complete transactions in order, under
  consecutive LSNs, the offset and chain at which the next frame goes on, and the number of parts given up.
\<close>

theorem log_recovers:
  assumes "\<forall>u \<in> set txs. tx_ok u" "tx_ok t" "p < length t" "1 \<le> in_first_lsn inc"
    "in_first_lsn inc + int (length (tx_parts txs) + p) \<le> MAX_SAFE_INTEGER" "no_newer_root slots inc" "k \<le> length txs"
    "acknowledges (fst (newest_log_header slots (in_salt inc))) inc txs k"
    "write_log (in_salt inc) (in_salt inc) (in_first_lsn inc) (tx_parts txs @ take p (parts_of t)) = Inr (bytes, chain)"
    "torn_tail (in_salt inc) chain tail"
  shows "\<exists>su frames. scan_log (bytes @ tail) slots inc = Inr (su, frames) \<and> map sf_body frames = concat txs
    \<and> map sf_lsn frames = map (\<lambda>i. in_first_lsn inc + int i) [0..<length (concat txs)]
    \<and> write_log (in_salt inc) (in_salt inc) (in_first_lsn inc) (tx_parts txs) = Inr (take (su_valid_end su) bytes, su_chain su)
    \<and> su_last_lsn su = in_first_lsn inc - 1 + int (length (concat txs)) \<and> su_abandoned su = p"
proof -
  let ?S = "in_salt inc" and ?L = "in_first_lsn inc" and ?ps = "take p (parts_of t)"
  have "tx_ok (take p t @ [[]])" using assms(2,3) by (auto simp: tx_ok_def dest: in_set_takeD)
  have g1: "parts_good ?L (tx_parts txs)" by (rule good_tx_parts) (use assms(1,4,5) in auto)
  have "parts_good (?L + int (length (tx_parts txs)) + int j) (map (\<lambda>i. (i, length t, t ! i)) [j..<p])" if "j \<le> p" for j
    using that
  proof (induction "p - j" arbitrary: j)
    case (Suc m)
    then have j: "j < p" by simp
    then have "map (\<lambda>i. (i, length t, t ! i)) [j..<p] = (j, length t, t ! j) # map (\<lambda>i. (i, length t, t ! i)) [Suc j..<p]" by (simp add: upt_conv_Cons)
    then show ?case using Suc.hyps(1) [of "Suc j"] Suc.hyps(2) j assms(2-5)
      by (simp add: good_position_def tx_ok_def is_safe_integer_def algebra_simps)
  qed simp
  from this [of 0] have g2: "parts_good ?L (tx_parts txs @ ?ps)"
    using g1 assms(3) by (simp add: parts_good_append parts_of_def take_map)
  have b: "bytes = frames_bytes ?S ?S ?L (tx_parts txs @ ?ps)" "chain = log_chain ?S ?S ?L (tx_parts txs @ ?ps)"
    using assms(9) write_log_bytes [OF g2, of ?S ?S] by simp_all
  have l: "length (tx_parts txs) = length (concat txs)" by (metis length_map tx_bodies)
  have "take (length (frames_bytes ?S ?S ?L (tx_parts txs))) bytes = frames_bytes ?S ?S ?L (tx_parts txs)" by (simp add: b log_append)
  then show ?thesis
    using scan_written [OF assms(1-8) assms(10) [unfolded b(2)]] write_log_bytes [OF g1, of ?S ?S]
    by (simp add: b(1) map_log_frames tx_bodies l)
qed

text \<open>A log of one whole transaction and half of another, with no header yet and two stray bytes behind it.\<close>

theorem log_recovers_witness:
  "\<exists>bytes su frames. scan_log (bytes @ [7, 7]) (None, None) \<lparr>in_salt = 9, in_first_lsn = 4, in_root_sequence = 1\<rparr> = Inr (su, frames)
    \<and> map sf_body frames = [[1, 2], [3]] \<and> su_abandoned su = 1"
proof -
  let ?inc = "\<lparr>in_salt = 9, in_first_lsn = 4, in_root_sequence = 1\<rparr>" and ?txs = "[[[1, 2], [3]]]" and ?t = "[[5], [6]] :: byte list list"
  have g: "parts_good 4 (tx_parts ?txs @ take 1 (parts_of ?t))"
    by (simp add: tx_parts_def parts_of_def good_position_def safe_int_defs MAX_FRAME_BODY_BYTES_def MAX_FRAME_BYTES_def)
  obtain bytes chain where w: "write_log (in_salt ?inc) (in_salt ?inc) (in_first_lsn ?inc) (tx_parts ?txs @ take 1 (parts_of ?t)) = Inr (bytes, chain)"
    using write_log_bytes [OF g] by simp
  have "torn_tail (in_salt ?inc) chain [7, 7]" by (simp add: torn_tail_def)
  note r = log_recovers [OF _ _ _ _ _ _ _ _ w this, of "(None, None)" 0]
  show ?thesis
    using r by (simp add: tx_ok_def tx_parts_def parts_of_def safe_int_defs MAX_FRAME_BODY_BYTES_def MAX_FRAME_BYTES_def no_newer_root_def
      decode_log_header_def acknowledges_def newest_log_header_def own_header_def) (elim exE conjE, intro exI conjI, assumption+)
qed

text \<open>
  Property C5: recovery is never silently short. Whatever the bytes and slots, when the scan succeeds its frames lie one after the other
  from offset 0 with consecutive LSNs, form complete transactions, and end at the reported offset with the chain recomputed over their
  bytes; and if a header was found, the boundary it acknowledges is the end of some of these transactions, with the chain and LSN it
  recorded. So an acknowledged frame that is missing or altered is an error.
\<close>

theorem scan_fails_closed:
  assumes "scan_log body slots inc = Inr (su, frames)"
  shows "laid_out 0 (in_first_lsn inc) frames \<and> whole_transactions frames \<and> su_valid_end su = frames_end frames
    \<and> su_chain su = chain_of body (in_salt inc) frames \<and> su_last_lsn su = in_first_lsn inc - 1 + int (length frames)
    \<and> su_header su = fst (newest_log_header slots (in_salt inc))
    \<and> (\<forall>h. su_header su = Some h \<longrightarrow> (\<exists>k \<le> length frames. acked_at body inc h (take k frames)))"
proof -
  obtain s s' where s: "start_scan slots inc = Inr s" "scan_loop body s [] [] = Inr (s', frames)" "finish_scan s' = Inr su"
    using assms by (auto simp: scan_log_def bindR_eq_Inr)
  have hd: "ss_header s = fst (newest_log_header slots (in_salt inc))" using s(1) by (auto simp: start_scan_def Let_def split: if_splits)
  have zero: "acked_at body inc h []" if "ss_header s = Some h" "ss_landed s" for h
    using that s(1) by (auto simp: start_scan_def Let_def acked_at_def whole_transactions_def frames_end_def chain_of_def split: if_splits option.splits)
  have "scanned body inc s [] []"
    using s(1) zero by (auto simp: scanned_def start_scan_def Let_def whole_transactions_def frames_end_def chain_of_def split: if_splits)
  then obtain op where i: "scanned body inc s' frames op" "ss_header s' = ss_header s" using scanned_loop [OF _ s(2)] by blast
  have f: "ss_landed s'" "su = \<lparr>su_valid_end = sb_end (ss_boundary s'), su_chain = sb_chain (ss_boundary s'), su_last_lsn = sb_lsn (ss_boundary s'),
                su_abandoned = ss_open_parts s', su_header = ss_header s'\<rparr>"
    using s(3) by (auto simp: finish_scan_def split: if_splits)
  have la: "laid_out off l (xs @ ys) \<Longrightarrow> laid_out off l xs" for off l xs ys
    by (induction off l xs rule: laid_out.induct) simp_all
  show ?thesis using i(1) f hd i(2) la unfolding scanned_def by auto
qed

text \<open>A header that acknowledges nothing, over a log of two stray bytes.\<close>

theorem scan_fails_closed_witness:
  "\<exists>h su. lh_generation h = 1 \<and> scan_log [7, 7] (Some (log_header_bytes h), None) \<lparr>in_salt = 9, in_first_lsn = 4, in_root_sequence = 1\<rparr> = Inr (su, [])
    \<and> su_last_lsn su = 3 \<and> acked_at [7, 7] \<lparr>in_salt = 9, in_first_lsn = 4, in_root_sequence = 1\<rparr> h []"
proof -
  let ?h = "\<lparr>lh_salt = 9, lh_generation = 1, lh_ack_end = 0, lh_ack_chain = 9, lh_ack_lsn = 3, lh_root_sequence = 1\<rparr>"
  let ?inc = "\<lparr>in_salt = 9, in_first_lsn = 4, in_root_sequence = 1\<rparr>"
  have "good_header ?h" by (simp add: good_header_def safe_int_defs)
  then have d: "decode_log_header (Some (log_header_bytes ?h)) = Some ?h" using decode_header [of ?h "[]"] by simp
  have n: "decode_log_header None = None" by (simp add: decode_log_header_def)
  have "\<exists>su. scan_log [7, 7] (Some (log_header_bytes ?h), None) ?inc = Inr (su, []) \<and> su_header su = Some ?h"
    by (simp add: scan_log_def start_scan_def d n newest_log_header_def own_header_def Let_def scan_loop.simps scan_length_def
      slice_of_def LOG_FRAME_HEADER_BYTES_def finish_scan_def)
  then obtain su where su: "scan_log [7, 7] (Some (log_header_bytes ?h), None) ?inc = Inr (su, [])" "su_header su = Some ?h" by blast
  show ?thesis
    by (intro exI [of _ ?h] exI [of _ su]) (use scan_fails_closed [OF su(1)] su in auto)
qed

end
