(* ===== verification/LsdSort.thy ===== *)
theory LsdSort
  imports Prelude "HOL-Library.Multiset" "HOL-Library.List_Lexorder"
begin

text \<open>
  The stable radix sort of the second engine (\<open>next/exec/sort-lsd.ts\<close>): row ids are ordered by
  normalised 32 bit columns, last column first, two 16 bit digits a column, each pass a histogram,
  a prefix sum and a scatter between the arrays \<open>ids\<close> and \<open>temporary\<close>.

  A read of a typed array outside its bounds is \<open>undefined\<close>, which the code reads as 0, and a write
  there is ignored, as \<open>xs[i := v]\<close> ignores it. The entries of an \<open>Int32Array\<close> are \<open>int\<close>, and
  every store wraps them at 32 bits. The \<open>yield\<close>s of the generator change no array.
\<close>

unbundle bit_operations_syntax

subsection \<open>Typed arrays\<close>

definition LSD_STEP_ROWS :: nat where
  "LSD_STEP_ROWS = 1024"

definition i32 :: "int \<Rightarrow> int" where
  "i32 x = (x + 2 ^ 31) mod 2 ^ 32 - 2 ^ 31"

definition get0 :: "'a::zero list \<Rightarrow> int \<Rightarrow> 'a" where
  "get0 xs i = (if 0 \<le> i \<and> nat i < length xs then xs ! nat i else 0)"

definition put32 :: "int list \<Rightarrow> int \<Rightarrow> int \<Rightarrow> int list" where
  "put32 xs i v = (if 0 \<le> i then xs[nat i := i32 v] else xs)"

definition digit :: "nat \<Rightarrow> u32 \<Rightarrow> int" where
  "digit shift v = uint (drop_bit shift v AND 65535)"

subsection \<open>The kernels\<close>

definition difference :: "u32 list \<Rightarrow> u32 \<Rightarrow> nat \<Rightarrow> nat \<Rightarrow> u32" where
  "difference vs first from to = fold (\<lambda>i diff. diff OR (get0 vs (int i) XOR first)) [from..<to] 0"

definition histogram :: "u32 list \<Rightarrow> int list \<Rightarrow> nat \<Rightarrow> nat \<Rightarrow> nat \<Rightarrow> int list \<Rightarrow> int list" where
  "histogram vs source shift from to counts =
     fold (\<lambda>i counts.
         let d = digit shift (get0 vs (get0 source (int i)))
         in put32 counts (d + 1) (get0 counts (d + 1) + 1))
       [from..<to] counts"

definition prefix_sums :: "int list \<Rightarrow> int list" where
  "prefix_sums counts =
     fold (\<lambda>d counts. put32 counts (int d + 1) (get0 counts (int d + 1) + get0 counts (int d))) [0..<65536] counts"

definition scatter_step :: "u32 list \<Rightarrow> int list \<Rightarrow> nat \<Rightarrow> nat \<Rightarrow> int list \<times> int list \<Rightarrow> int list \<times> int list" where
  "scatter_step vs source shift i = (\<lambda>(target, counts).
     let id = get0 source (int i); d = digit shift (get0 vs id)
     in (put32 target (get0 counts d) id, put32 counts d (get0 counts d + 1)))"

definition scatter :: "u32 list \<Rightarrow> int list \<Rightarrow> nat \<Rightarrow> nat \<Rightarrow> nat \<Rightarrow> int list \<times> int list \<Rightarrow> int list \<times> int list" where
  "scatter vs source shift from to = fold (scatter_step vs source shift) [from..<to]"

subsection \<open>The sort\<close>

text \<open>The ranges \<open>[at, min (n, at + LSD_STEP_ROWS))\<close> a loop hands to its kernel.\<close>

function steps :: "nat \<Rightarrow> nat \<Rightarrow> (nat \<times> nat) list" where
  "steps a n = (if a < n then (a, min n (a + LSD_STEP_ROWS)) # steps (a + LSD_STEP_ROWS) n else [])"
  by pat_completeness auto
termination by (relation "measure (\<lambda>(a, n). n - a)") (auto simp: LSD_STEP_ROWS_def)

declare steps.simps [simp del]

record lsd_state =
  ls_source :: "int list"
  ls_target :: "int list"
  ls_swapped :: bool
  ls_counts :: "int list"

definition lsd_pass :: "u32 list \<Rightarrow> nat \<Rightarrow> u32 \<Rightarrow> nat \<Rightarrow> lsd_state \<Rightarrow> lsd_state" where
  "lsd_pass vs n diff shift s =
     (if drop_bit shift diff AND 65535 = 0 then s
      else
        let zeroed = replicate (length (ls_counts s)) 0;
            histogrammed = fold (\<lambda>(a, b). histogram vs (ls_source s) shift a b) (steps 0 n) zeroed;
            (scattered, moved) = fold (\<lambda>(a, b). scatter vs (ls_source s) shift a b) (steps 0 n) (ls_target s, prefix_sums histogrammed)
        in \<lparr>ls_source = scattered, ls_target = ls_source s, ls_swapped = \<not> ls_swapped s, ls_counts = moved\<rparr>)"

definition column_diff :: "u32 list \<Rightarrow> nat \<Rightarrow> u32" where
  "column_diff vs n = fold (\<lambda>(a, b) diff. diff OR difference vs (get0 vs 0) (max 1 a) b) (steps 0 n) 0"

definition lsd_column :: "nat \<Rightarrow> u32 list \<Rightarrow> lsd_state \<Rightarrow> lsd_state" where
  "lsd_column n vs s = fold (lsd_pass vs n (column_diff vs n)) [0, 16] s"

text \<open>\<open>ids.set (source.subarray (a, b), a)\<close>: the part is clipped to \<open>source\<close>, and must fit.\<close>

definition copy_back :: "int list \<Rightarrow> nat \<times> nat \<Rightarrow> int list \<Rightarrow> int list result" where
  "copy_back src = (\<lambda>(a, b) ids.
     let part = take (b - a) (drop a src)
     in if a + length part \<le> length ids then Inr (take a ids @ part @ drop (a + length part) ids)
        else Inl (RangeError ''offset is out of bounds''))"

definition lsd_sort_ids :: "u32 list list \<Rightarrow> int list \<Rightarrow> int list \<Rightarrow> nat \<Rightarrow> int list \<Rightarrow> int list result" where
  "lsd_sort_ids columns ids temporary n radix_counts =
     (let numbered = fold (\<lambda>i ids. put32 ids (int i) (int i)) [0..<n] ids;
          s = fold (lsd_column n) (rev columns)
                \<lparr>ls_source = numbered, ls_target = temporary, ls_swapped = False, ls_counts = radix_counts\<rparr>
      in if ls_swapped s then for_each (steps 0 n) (copy_back (ls_source s)) (ls_target s) else Inr (ls_source s))"

subsection \<open>Stable sorts\<close>

lemma sort_key_same_order:
  assumes "\<And>x y. x \<in> set xs \<Longrightarrow> y \<in> set xs \<Longrightarrow> h x \<le> h y \<longleftrightarrow> g x \<le> g y"
  shows "sort_key h xs = sort_key g xs"
proof (rule properties_for_sort_key)
  show "mset (sort_key g xs) = mset xs" by simp
  show "filter (\<lambda>x. h k = h x) (sort_key g xs) = filter (\<lambda>x. h k = h x) xs" if "k \<in> set (sort_key g xs)" for k
  proof -
    have eq: "h k = h x \<longleftrightarrow> g x = g k" if "x \<in> set xs" for x
      using assms [of k x] assms [of x k] that \<open>k \<in> set (sort_key g xs)\<close> by (auto simp: order_eq_iff)
    have "filter (\<lambda>x. h k = h x) (sort_key g xs) = filter (\<lambda>x. g x = g k) (sort_key g xs)" by (rule filter_cong) (auto simp: eq)
    also have "\<dots> = filter (\<lambda>x. g x = g k) xs" by (rule sort_key_stable)
    also have "\<dots> = filter (\<lambda>x. h k = h x) xs" by (rule filter_cong) (auto simp: eq)
    finally show ?thesis .
  qed
  have "sorted_wrt (\<lambda>x y. g x \<le> g y) (sort_key g xs)" using sorted_sort_key [of g xs] by (simp add: sorted_map)
  then have "sorted_wrt (\<lambda>x y. h x \<le> h y) (sort_key g xs)" by (rule sorted_wrt_mono_rel [rotated]) (use assms in auto)
  then show "sorted (map h (sort_key g xs))" by (simp add: sorted_map)
qed

text \<open>A stable sort after a stable sort is the stable sort by the pair of keys.\<close>

lemma sort_key_after:
  assumes "\<And>x y. x \<in> set xs \<Longrightarrow> y \<in> set xs \<Longrightarrow> h x \<le> h y \<longleftrightarrow> f x < f y \<or> f x = f y \<and> g x \<le> g y"
  shows "sort_key f (sort_key g xs) = sort_key h xs"
proof (rule properties_for_sort_key)
  show "mset (sort_key h xs) = mset (sort_key g xs)" by simp
  show "filter (\<lambda>x. f k = f x) (sort_key h xs) = filter (\<lambda>x. f k = f x) (sort_key g xs)" for k
    unfolding filter_sort by (rule sort_key_same_order) (auto simp: assms)
  have "sorted_wrt (\<lambda>x y. h x \<le> h y) (sort_key h xs)" using sorted_sort_key [of h xs] by (simp add: sorted_map)
  then have "sorted_wrt (\<lambda>x y. f x \<le> f y) (sort_key h xs)" by (rule sorted_wrt_mono_rel [rotated]) (use assms in auto)
  then show "sorted (map f (sort_key h xs))" by (simp add: sorted_map)
qed

lemma sort_key_const_on:
  assumes "\<And>x. x \<in> set xs \<Longrightarrow> f x = c"
  shows "sort_key f xs = xs"
proof -
  have "sort_key f xs = sort_key (\<lambda>_. c) xs" by (rule sort_key_same_order) (use assms in simp)
  then show ?thesis by (simp add: sort_key_const)
qed

text \<open>Where a stable sort puts each entry.\<close>

lemma sort_key_split:
  fixes f :: "'a \<Rightarrow> 'k::linorder"
  shows "sort_key f xs = sort_key f (filter (\<lambda>x. f x < d) xs) @ filter (\<lambda>x. f x = d) xs @ sort_key f (filter (\<lambda>x. d < f x) xs)"
proof (rule properties_for_sort_key)
  let ?l = "sort_key f (filter (\<lambda>x. f x < d) xs)" and ?r = "sort_key f (filter (\<lambda>x. d < f x) xs)"
  show "mset (?l @ filter (\<lambda>x. f x = d) xs @ ?r) = mset xs"
    by (induction xs) auto
  have st: "filter (\<lambda>x. f k = f x) (sort_key f ys) = filter (\<lambda>x. f k = f x) ys" for k ys
    using sort_key_stable [of f "f k" ys] by (simp add: eq_commute)
  show "filter (\<lambda>x. f k = f x) (?l @ filter (\<lambda>x. f x = d) xs @ ?r) = filter (\<lambda>x. f k = f x) xs" for k
  proof -
    have "filter (\<lambda>x. f k = f x) (filter (\<lambda>x. f x < d) xs) = (if f k < d then filter (\<lambda>x. f k = f x) xs else [])"
      "filter (\<lambda>x. f k = f x) (filter (\<lambda>x. f x = d) xs) = (if f k = d then filter (\<lambda>x. f k = f x) xs else [])"
      "filter (\<lambda>x. f k = f x) (filter (\<lambda>x. d < f x) xs) = (if d < f k then filter (\<lambda>x. f k = f x) xs else [])"
      by (induction xs) (auto simp: eq_commute)
    then show ?thesis unfolding filter_append st by auto
  qed
  have "sorted_wrt (\<lambda>x y. f x \<le> f y) ?l" "sorted_wrt (\<lambda>x y. f x \<le> f y) ?r"
    using sorted_sort_key [of f "filter (\<lambda>x. f x < d) xs"] sorted_sort_key [of f "filter (\<lambda>x. d < f x) xs"] by (simp_all add: sorted_map)
  moreover have "sorted_wrt (\<lambda>x y. f x \<le> f y) (filter (\<lambda>x. f x = d) xs)"
    by (induction xs) auto
  ultimately show "sorted (map f (?l @ filter (\<lambda>x. f x = d) xs @ ?r))"
    unfolding sorted_map sorted_wrt_append by (auto dest: less_imp_le order_trans [OF less_imp_le less_imp_le])
qed

lemma nth_filter_take: "j < length xs \<Longrightarrow> P (xs ! j) \<Longrightarrow> filter P xs ! length (filter P (take j xs)) = xs ! j"
proof (induction xs arbitrary: j)
  case (Cons x xs)
  then show ?case by (cases j) auto
qed simp

text \<open>The place of entry \<open>j\<close>: after the smaller keys, and the equal keys before it.\<close>

definition place :: "('a \<Rightarrow> 'k::linorder) \<Rightarrow> 'a list \<Rightarrow> nat \<Rightarrow> nat" where
  "place f xs j = length (filter (\<lambda>x. f x < f (xs ! j)) xs) + length (filter (\<lambda>x. f x = f (xs ! j)) (take j xs))"

lemma place_less:
  assumes "j < length xs"
  shows "place f xs j < length xs" "sort_key f xs ! place f xs j = xs ! j"
proof -
  let ?d = "f (xs ! j)"
  let ?l = "sort_key f (filter (\<lambda>x. f x < ?d) xs)" and ?r = "sort_key f (filter (\<lambda>x. ?d < f x) xs)" and ?m = "filter (\<lambda>x. f x = ?d) xs"
  have *: "sort_key f xs = ?l @ ?m @ ?r" by (rule sort_key_split)
  have "filter (\<lambda>x. f x = ?d) xs = filter (\<lambda>x. f x = ?d) (take j xs) @ filter (\<lambda>x. f x = ?d) (drop j xs)"
    by (simp flip: filter_append)
  moreover have "drop j xs = xs ! j # drop (Suc j) xs" using assms by (simp add: Cons_nth_drop_Suc)
  ultimately have m: "length (filter (\<lambda>x. f x = ?d) (take j xs)) < length ?m" by simp
  have "length xs = length (sort_key f xs)" by simp
  also have "\<dots> = length ?l + (length ?m + length ?r)" by (subst *) (simp only: length_append)
  finally show "place f xs j < length xs" using m by (simp add: place_def)
  show "sort_key f xs ! place f xs j = xs ! j"
    using m assms by (subst *) (simp add: place_def nth_append nth_filter_take)
qed

lemma place_inj: "distinct xs \<Longrightarrow> inj_on (place f xs) {..<length xs}"
  by (rule inj_onI) (metis lessThan_iff place_less(2) nth_eq_iff_index_eq)

lemma place_image: "distinct xs \<Longrightarrow> place f xs ` {..<length xs} = {..<length xs}"
  by (rule endo_inj_surj) (auto simp: place_less(1) intro: place_inj)

subsection \<open>Loops over ranges\<close>

lemma steps_step: "steps a n = (if a < n then (a, min n (a + LSD_STEP_ROWS)) # steps (a + LSD_STEP_ROWS) n else [])"
  by (rule steps.simps)

lemma fold_steps:
  assumes "\<And>a b s. a < b \<Longrightarrow> b \<le> n \<Longrightarrow> k (a, b) s = fold f [a..<b] s"
  shows "fold k (steps a n) s = fold f [a..<n] s"
  using assms
proof (induction a n arbitrary: s rule: steps.induct)
  case (1 a n)
  let ?b = "min n (a + LSD_STEP_ROWS)"
  show ?case
  proof (cases "a < n")
    case True
    have b: "a < ?b" "?b \<le> n" using True by (auto simp: LSD_STEP_ROWS_def)
    have "fold k (steps a n) s = fold f [a + LSD_STEP_ROWS..<n] (fold f [a..<?b] s)"
      by (subst steps_step) (simp add: True "1.IH" [OF True "1.prems"] "1.prems" [OF b])
    also have "[a + LSD_STEP_ROWS..<n] = [?b..<n]" by (simp add: min_def)
    also have "fold f [?b..<n] (fold f [a..<?b] s) = fold f ([a..<?b] @ [?b..<n]) s" by simp
    also have "[a..<?b] @ [?b..<n] = [a..<n]" using upt_add_eq_append [of a ?b "n - ?b"] b by simp
    finally show ?thesis .
  qed (simp add: steps_step)
qed

lemma i32_id [simp]: "0 \<le> x \<Longrightarrow> x < 2 ^ 31 \<Longrightarrow> i32 x = x"
  by (simp add: i32_def)

lemma get0_in [simp]: "i < length xs \<Longrightarrow> get0 xs (int i) = xs ! i"
  by (simp add: get0_def)

lemma length_put32 [simp]: "length (put32 xs i v) = length xs"
  by (simp add: put32_def)

lemma get0_put32 [simp]: "0 \<le> i \<Longrightarrow> nat i < length xs \<Longrightarrow> get0 (put32 xs i v) j = (if i = j then i32 v else get0 xs j)"
  by (auto simp: get0_def put32_def nat_eq_iff)

lemma digit_bounds [simp]: "0 \<le> digit s v" "digit s v < 65536"
proof -
  show "0 \<le> digit s v" by (simp add: digit_def)
  have "drop_bit s v AND 65535 = take_bit 16 (drop_bit s v)" by (simp add: take_bit_eq_mask mask_eq_exp_minus_1)
  then have "uint (drop_bit s v AND 65535) = take_bit 16 (uint (drop_bit s v))" by (simp add: unsigned_take_bit_eq)
  then show "digit s v < 65536" using take_bit_int_less_exp [of 16 "uint (drop_bit s v)"] by (simp add: digit_def)
qed

subsection \<open>One pass\<close>

text \<open>The digit of a row, and the counts the passes work with.\<close>

abbreviation row_digit :: "u32 list \<Rightarrow> nat \<Rightarrow> nat \<Rightarrow> int" where
  "row_digit vs s i \<equiv> digit s (get0 vs (int i))"

lemma histogram_counts:
  assumes "length counts = 65537" "n < 2 ^ 31" "m \<le> n" "source = map int xs @ rest" "length xs = n"
    "\<And>d. get0 counts d = 0"
  shows "length (histogram vs source s 0 m counts) = 65537"
    "get0 (histogram vs source s 0 m counts) d = int (length (filter (\<lambda>x. row_digit vs s x + 1 = d) (take m xs)))"
proof -
  have "length (histogram vs source s 0 m counts) = 65537 \<and>
    (\<forall>d. get0 (histogram vs source s 0 m counts) d = int (length (filter (\<lambda>x. row_digit vs s x + 1 = d) (take m xs))))"
    using assms(3)
  proof (induction m)
    case 0
    then show ?case using assms by (simp add: histogram_def)
  next
    case (Suc m)
    let ?c = "histogram vs source s 0 m counts"
    let ?d = "row_digit vs s (xs ! m)"
    have src: "get0 source (int m) = int (xs ! m)" using Suc.prems assms by (simp add: get0_def nth_append)
    have eq: "histogram vs source s 0 (Suc m) counts = put32 ?c (?d + 1) (get0 ?c (?d + 1) + 1)"
      by (simp add: histogram_def src Let_def)
    have tk: "take (Suc m) xs = take m xs @ [xs ! m]" using Suc.prems assms by (simp add: take_Suc_conv_app_nth)
    have len: "length ?c = 65537" and val: "get0 ?c e = int (length (filter (\<lambda>x. row_digit vs s x + 1 = e) (take m xs)))" for e
      using Suc by auto
    have "length (filter (\<lambda>x. row_digit vs s x + 1 = ?d + 1) (take m xs)) \<le> m"
      by (rule order_trans [OF length_filter_le]) simp
    then have "i32 (get0 ?c (?d + 1) + 1) = get0 ?c (?d + 1) + 1" unfolding val using Suc.prems assms by simp
    moreover have "nat (?d + 1) < 65537" using digit_bounds [of s "get0 vs (int (xs ! m))"] by linarith
    ultimately show ?case unfolding eq tk using len val by (auto simp: eq_commute)
  qed
  then show "length (histogram vs source s 0 m counts) = 65537"
    "get0 (histogram vs source s 0 m counts) d = int (length (filter (\<lambda>x. row_digit vs s x + 1 = d) (take m xs)))" by auto
qed

lemma prefix_sums_counts:
  assumes "length counts = 65537" "n < 2 ^ 31" "length xs = n"
    "\<And>d. get0 counts d = int (length (filter (\<lambda>x. f x + 1 = d) xs))" "\<And>x. 0 \<le> f x"
  shows "length (prefix_sums counts) = 65537"
    "0 \<le> d \<Longrightarrow> d \<le> 65536 \<Longrightarrow> get0 (prefix_sums counts) d = int (length (filter (\<lambda>x. f x < d) xs))"
proof -
  define step where "step = (\<lambda>d counts. put32 counts (int d + 1) (get0 counts (int d + 1) + get0 counts (int d)))"
  have "length (fold step [0..<k] counts) = 65537 \<and>
    (\<forall>d. get0 (fold step [0..<k] counts) d = (if d \<le> int k then int (length (filter (\<lambda>x. f x < d) xs)) else get0 counts d))"
    if "k \<le> 65536" for k
    using that
  proof (induction k)
    case 0
    have "filter (\<lambda>x. f x < d) xs = []" if "d \<le> 0" for d using assms(5) that by (auto simp: filter_empty_conv not_less intro: order_trans)
    moreover have "filter (\<lambda>x. f x + 1 = d) xs = []" if "d \<le> 0" for d using assms(5) that by (auto simp: filter_empty_conv) (metis add_le_same_cancel1 int_one_le_iff_zero_less not_less order_trans zless_add1_eq)
    ultimately show ?case using assms by auto
  next
    case (Suc k)
    let ?c = "fold step [0..<k] counts"
    have len: "length ?c = 65537"
      and val: "get0 ?c d = (if d \<le> int k then int (length (filter (\<lambda>x. f x < d) xs)) else get0 counts d)" for d
      using Suc by auto
    have sum: "length (filter (\<lambda>x. f x < int k + 1) xs) = length (filter (\<lambda>x. f x + 1 = int k + 1) xs) + length (filter (\<lambda>x. f x < int k) xs)"
      by (induction xs) auto
    moreover have "length (filter (\<lambda>x. f x < int k + 1) xs) \<le> n" using assms(3) length_filter_le by metis
    ultimately have "i32 (get0 ?c (int k + 1) + get0 ?c (int k)) = int (length (filter (\<lambda>x. f x < int k + 1) xs))"
      using assms(2) by (simp add: val assms(4))
    moreover have "nat (int k + 1) < 65537" using Suc.prems by linarith
    ultimately show ?case using len val by (auto simp: step_def)
  qed
  from this [of 65536] show "length (prefix_sums counts) = 65537"
    "0 \<le> d \<Longrightarrow> d \<le> 65536 \<Longrightarrow> get0 (prefix_sums counts) d = int (length (filter (\<lambda>x. f x < d) xs))"
    unfolding prefix_sums_def step_def by auto
qed

lemma scatter_places:
  assumes "length counts = 65537" "n < 2 ^ 31" "length xs = n" "distinct xs" "\<And>x. x \<in> set xs \<Longrightarrow> x < n"
    "source = map int xs @ rest" "n \<le> length target" "m \<le> n"
    "\<And>d. 0 \<le> d \<Longrightarrow> d < 65536 \<Longrightarrow> get0 counts d = int (length (filter (\<lambda>x. row_digit vs s x < d) xs))"
  defines "r \<equiv> fold (scatter_step vs source s) [0..<m] (target, counts)"
  shows "length (snd r) = 65537" "length (fst r) = length target" "\<And>j. n \<le> j \<Longrightarrow> j < length target \<Longrightarrow> fst r ! j = target ! j"
    "\<And>j. j < m \<Longrightarrow> fst r ! place (row_digit vs s) xs j = int (xs ! j)"
proof -
  let ?f = "row_digit vs s"
  have "length (snd r) = 65537 \<and> length (fst r) = length target \<and> (\<forall>j. n \<le> j \<longrightarrow> j < length target \<longrightarrow> fst r ! j = target ! j) \<and>
     (\<forall>j < m. fst r ! place ?f xs j = int (xs ! j)) \<and>
     (\<forall>d. 0 \<le> d \<and> d < 65536 \<longrightarrow> get0 (snd r) d = int (length (filter (\<lambda>x. ?f x < d) xs) + length (filter (\<lambda>x. ?f x = d) (take m xs))))"
    using assms(8) unfolding r_def
  proof (induction m)
    case 0
    then show ?case using assms by simp
  next
    case (Suc m)
    obtain t c where tc: "fold (scatter_step vs source s) [0..<m] (target, counts) = (t, c)" by fastforce
    let ?d = "?f (xs ! m)"
    have m: "m < length xs" using Suc.prems assms by simp
    have IH: "length c = 65537" "length t = length target" "\<And>j. n \<le> j \<Longrightarrow> j < length target \<Longrightarrow> t ! j = target ! j"
      "\<And>j. j < m \<Longrightarrow> t ! place ?f xs j = int (xs ! j)"
      "\<And>d. 0 \<le> d \<Longrightarrow> d < 65536 \<Longrightarrow> get0 c d = int (length (filter (\<lambda>x. ?f x < d) xs) + length (filter (\<lambda>x. ?f x = d) (take m xs)))"
      using Suc tc by auto
    have src: "get0 source (int m) = int (xs ! m)" using m assms by (simp add: get0_def nth_append)
    have pl: "get0 c ?d = int (place ?f xs m)" using IH(5) [of ?d] by (simp add: place_def)
    have less: "place ?f xs m < n" using place_less(1) [OF m] assms by simp
    have id: "i32 (int (xs ! m)) = int (xs ! m)" using assms(2) assms(5) [OF nth_mem [OF m]] by (intro i32_id) simp_all
    have inc: "i32 (get0 c ?d + 1) = get0 c ?d + 1" unfolding pl using less assms(2) by (intro i32_id) simp_all
    have step: "fold (scatter_step vs source s) [0..<Suc m] (target, counts) = (t[place ?f xs m := int (xs ! m)], put32 c ?d (get0 c ?d + 1))"
      using tc by (simp add: scatter_step_def src Let_def pl put32_def id)
    have tk: "take (Suc m) xs = take m xs @ [xs ! m]" using m by (simp add: take_Suc_conv_app_nth)
    have d: "nat ?d < 65537" using digit_bounds(2) [of s "get0 vs (int (xs ! m))"] by linarith
    have ne: "place ?f xs j \<noteq> place ?f xs m" if "j < m" for j
      using inj_onD [OF place_inj [OF assms(4), of ?f], of j m] that m by auto
    let ?t = "t[place ?f xs m := int (xs ! m)]" and ?c = "put32 c ?d (get0 c ?d + 1)"
    have t4: "?t ! place ?f xs j = int (xs ! j)" if "j < Suc m" for j
      using that less assms(7) IH(2,4) ne by (cases "j = m") (auto simp: less_Suc_eq nth_list_update_neq [OF not_sym])
    have c5: "get0 ?c e = int (length (filter (\<lambda>x. ?f x < e) xs) + length (filter (\<lambda>x. ?f x = e) (take m xs @ [xs ! m])))"
      if "0 \<le> e" "e < 65536" for e
      using IH(1) d inc that by (auto simp: IH(5))
    show ?case unfolding step tk
      using IH(1,2,3) less t4 c5 by (simp add: nth_list_update)
  qed
  then show "length (snd r) = 65537" "length (fst r) = length target" "\<And>j. n \<le> j \<Longrightarrow> j < length target \<Longrightarrow> fst r ! j = target ! j"
    "\<And>j. j < m \<Longrightarrow> fst r ! place (row_digit vs s) xs j = int (xs ! j)" by blast+
qed

lemma scattered_is_sorted:
  assumes "length xs = n" "distinct xs" "n \<le> length t" "\<And>j. n \<le> j \<Longrightarrow> j < length t \<Longrightarrow> t ! j = target ! j"
    "length t = length target" "\<And>j. j < n \<Longrightarrow> t ! place f xs j = int (xs ! j)"
  shows "t = map int (sort_key f xs) @ drop n target"
proof (rule nth_equalityI)
  show "length t = length (map int (sort_key f xs) @ drop n target)" using assms by simp
  show "t ! i = (map int (sort_key f xs) @ drop n target) ! i" if "i < length t" for i
  proof (cases "i < n")
    case True
    then obtain j where "j < n" "i = place f xs j" using place_image [OF assms(2), of f] assms(1) by (auto simp: image_iff set_eq_iff)
    then show ?thesis using assms True place_less(2) [of j xs f] by (simp add: nth_append)
  next
    case False
    then show ?thesis using that assms by (simp add: nth_append)
  qed
qed

text \<open>
  The arrays between two passes: \<open>source\<close> holds the rows \<open>xs\<close> in front, either array keeps
  what lies behind row \<open>n\<close>, and the histogram has an entry for each digit and one more.
\<close>

definition holds_rows :: "nat \<Rightarrow> nat list \<Rightarrow> int list \<Rightarrow> int list \<Rightarrow> lsd_state \<Rightarrow> bool" where
  "holds_rows n xs ids temp s \<longleftrightarrow>
     length (ls_counts s) = 65537 \<and> n < 2 ^ 31 \<and> length xs = n \<and> distinct xs \<and> (\<forall>x \<in> set xs. x < n) \<and> n \<le> length ids \<and> n \<le> length temp \<and>
     (let (a, b) = (if ls_swapped s then (temp, ids) else (ids, temp))
      in ls_source s = map int xs @ drop n a \<and> length (ls_target s) = length b \<and> drop n (ls_target s) = drop n b)"

lemma pass_sorts:
  assumes "holds_rows n xs ids temp s" "drop_bit sh diff AND 65535 \<noteq> 0"
  shows "holds_rows n (sort_key (row_digit vs sh) xs) ids temp (lsd_pass vs n diff sh s)"
proof -
  let ?f = "row_digit vs sh" and ?z = "replicate (length (ls_counts s)) 0 :: int list"
  define a b where "a = (if ls_swapped s then temp else ids)" and "b = (if ls_swapped s then ids else temp)"
  have s: "length (ls_counts s) = 65537" "n < 2 ^ 31" "length xs = n" "distinct xs" "\<And>x. x \<in> set xs \<Longrightarrow> x < n"
    "n \<le> length ids" "n \<le> length temp" "ls_source s = map int xs @ drop n a" "length (ls_target s) = length b" "drop n (ls_target s) = drop n b"
    using assms(1) unfolding holds_rows_def a_def b_def by (auto split: if_splits)
  have b: "n \<le> length (ls_target s)" using s(6,7,9) by (simp add: b_def split: if_splits)
  define h where "h = histogram vs (ls_source s) sh 0 n ?z"
  have hs: "fold (\<lambda>(a, b). histogram vs (ls_source s) sh a b) (steps 0 n) ?z = h"
    unfolding h_def histogram_def by (rule fold_steps) simp
  have z: "get0 ?z d = 0" for d by (simp add: get0_def)
  have h: "length h = 65537" "\<And>d. get0 h d = int (length (filter (\<lambda>x. ?f x + 1 = d) xs))"
    using histogram_counts [of ?z n n "ls_source s" xs "drop n a" vs sh, OF _ s(2) order_refl s(8,3) z] s(1,3) by (simp_all add: h_def)
  have p: "length (prefix_sums h) = 65537" "\<And>d. 0 \<le> d \<Longrightarrow> d < 65536 \<Longrightarrow> get0 (prefix_sums h) d = int (length (filter (\<lambda>x. ?f x < d) xs))"
    using prefix_sums_counts [of h n xs ?f, OF h(1) s(2,3) h(2)] by auto
  define r where "r = fold (scatter_step vs (ls_source s) sh) [0..<n] (ls_target s, prefix_sums h)"
  have rs: "fold (\<lambda>(a, b). scatter vs (ls_source s) sh a b) (steps 0 n) (ls_target s, prefix_sums h) = r"
    unfolding r_def scatter_def by (rule fold_steps) simp
  have r: "length (snd r) = 65537" "length (fst r) = length (ls_target s)" "\<And>j. n \<le> j \<Longrightarrow> j < length (ls_target s) \<Longrightarrow> fst r ! j = ls_target s ! j"
    "\<And>j. j < n \<Longrightarrow> fst r ! place ?f xs j = int (xs ! j)"
    using scatter_places [of "prefix_sums h" n xs "ls_source s" "drop n a" "ls_target s" n sh vs, OF p(1) s(2,3,4,5,8) b order_refl p(2)]
    unfolding r_def by blast+
  have t: "fst r = map int (sort_key ?f xs) @ drop n b"
    using scattered_is_sorted [OF s(3,4), of "fst r" "ls_target s" ?f] b r s(10) by auto
  have "lsd_pass vs n diff sh s = \<lparr>ls_source = fst r, ls_target = ls_source s, ls_swapped = \<not> ls_swapped s, ls_counts = snd r\<rparr>"
    unfolding lsd_pass_def Let_def hs rs using assms(2) by (simp add: case_prod_unfold)
  then show ?thesis
    using s r(1) t by (auto simp: holds_rows_def a_def b_def)
qed

subsection \<open>A column\<close>

lemma xor_zero: "a XOR b = 0 \<longleftrightarrow> a = (b :: 'a::len word)"
  by (metis xor.assoc xor_self_eq xor.right_neutral xor.left_neutral)

lemma digits_of_difference:
  "drop_bit sh (fold (\<lambda>i d. d OR (g i XOR first)) is z) AND 65535 = 0 \<longleftrightarrow>
     drop_bit sh z AND 65535 = 0 \<and> (\<forall>i \<in> set is. digit sh (g i) = digit sh (first :: u32))"
proof (induction "is" arbitrary: z)
  case (Cons i "is")
  have "drop_bit sh (z OR (g i XOR first)) AND 65535 = 0 \<longleftrightarrow> drop_bit sh z AND 65535 = 0 \<and> digit sh (g i) = digit sh first"
    by (simp add: drop_bit_or drop_bit_xor bit.conj_disj_distrib2 bit.conj_xor_distrib2 or_eq_0_iff xor_zero digit_def word_uint_eq_iff [of "drop_bit sh (g i) AND 65535"])
  then show ?case using Cons by auto
qed simp

lemma column_diff_is: "column_diff vs n = fold (\<lambda>i d. d OR (get0 vs (int i) XOR get0 vs 0)) [0..<n] 0"
proof -
  let ?f = "\<lambda>i d. d OR (get0 vs (int i) XOR get0 vs 0)"
  have out: "z OR fold ?f is 0 = fold ?f is z" for z "is"
  proof (induction "is" arbitrary: z rule: rev_induct)
    case (snoc i "is")
    then show ?case by (simp add: or.assoc [symmetric])
  qed simp
  show ?thesis unfolding column_diff_def
  proof (rule fold_steps)
    fix a b :: nat and s :: u32
    assume "a < b" "b \<le> n"
    have "fold ?f [a..<b] s = fold ?f [max 1 a..<b] s" using \<open>a < b\<close> by (cases "a = 0") (simp_all add: upt_conv_Cons)
    then show "(case (a, b) of (a, b) \<Rightarrow> \<lambda>diff. diff OR difference vs (get0 vs 0) (max 1 a) b) s = fold ?f [a..<b] s"
      by (simp add: difference_def out)
  qed
qed

lemma digit_parts: "digit 0 (v :: u32) = uint v mod 65536" "digit 16 v = uint v div 65536"
proof -
  have m: "w AND 65535 = take_bit 16 w" for w :: u32 by (simp add: take_bit_eq_mask mask_eq_exp_minus_1)
  show "digit 0 v = uint v mod 65536" by (simp add: digit_def m unsigned_take_bit_eq) (simp add: take_bit_eq_mod)
  have "uint v div 65536 < 65536" using uint_lt2p [of v] by simp
  moreover have "0 \<le> uint v div 65536" by (simp add: pos_imp_zdiv_nonneg_iff)
  ultimately show "digit 16 v = uint v div 65536"
    by (simp add: digit_def m unsigned_take_bit_eq unsigned_drop_bit_eq) (simp add: take_bit_eq_mod drop_bit_eq_div)
qed

lemma digits_order: "v \<le> (w :: u32) \<longleftrightarrow> digit 16 v < digit 16 w \<or> digit 16 v = digit 16 w \<and> digit 0 v \<le> digit 0 w"
proof -
  have lex: "q * 65536 + r \<le> q' * 65536 + r' \<longleftrightarrow> q < q' \<or> q = q' \<and> r \<le> r'"
    if "0 \<le> r" "r < 65536" "0 \<le> r'" "r' < 65536" for q r q' r' :: int
    using that by (cases q q' rule: linorder_cases) linarith+
  have "a \<le> b \<longleftrightarrow> a div 65536 < b div 65536 \<or> a div 65536 = b div 65536 \<and> a mod 65536 \<le> b mod 65536" for a b :: int
    using lex [of "a mod 65536" "b mod 65536" "a div 65536" "b div 65536"] unfolding div_mult_mod_eq by simp
  then show ?thesis unfolding word_le_def digit_parts .
qed

lemma column_sorts:
  assumes "holds_rows n xs ids temp s"
  shows "holds_rows n (sort_key (\<lambda>i. get0 vs (int i)) xs) ids temp (lsd_column n vs s)"
proof -
  let ?v = "\<lambda>i. get0 vs (int i)"
  have pass: "holds_rows n (sort_key (row_digit vs sh) ys) ids temp (lsd_pass vs n (column_diff vs n) sh t)"
    if "holds_rows n ys ids temp t" for sh ys t
  proof (cases "drop_bit sh (column_diff vs n) AND 65535 = 0")
    case True
    then have "\<forall>i < n. row_digit vs sh i = digit sh (get0 vs 0)" unfolding column_diff_is digits_of_difference by simp
    moreover have "\<forall>x \<in> set ys. x < n" using that by (simp add: holds_rows_def)
    ultimately have "sort_key (row_digit vs sh) ys = ys" by (intro sort_key_const_on) auto
    then show ?thesis using that True by (simp add: lsd_pass_def)
  qed (rule pass_sorts [OF that])
  have "?v x \<le> ?v y \<longleftrightarrow> row_digit vs 16 x < row_digit vs 16 y \<or> row_digit vs 16 x = row_digit vs 16 y \<and> row_digit vs 0 x \<le> row_digit vs 0 y" for x y
    by (rule digits_order)
  then have "sort_key (row_digit vs 16) (sort_key (row_digit vs 0) xs) = sort_key ?v xs"
    by (intro sort_key_after)
  then show ?thesis using pass [OF pass [OF assms, of 0], of 16] by (simp add: lsd_column_def)
qed

subsection \<open>The whole sort\<close>

definition row_key :: "u32 list list \<Rightarrow> nat \<Rightarrow> u32 list" where
  "row_key columns i = map (\<lambda>vs. get0 vs (int i)) columns"

lemma columns_sort:
  assumes "holds_rows n xs ids temp s"
  shows "holds_rows n (sort_key (row_key columns) xs) ids temp (fold (lsd_column n) (rev columns) s)"
proof (induction columns)
  case Nil
  then show ?case using assms by (simp add: row_key_def [abs_def] sort_key_const)
next
  case (Cons vs columns)
  have "sort_key (\<lambda>i. get0 vs (int i)) (sort_key (row_key columns) xs) = sort_key (row_key (vs # columns)) xs"
    by (rule sort_key_after) (auto simp: row_key_def)
  then show ?case using column_sorts [OF Cons, of vs] by simp
qed

lemma copied_back:
  assumes "n \<le> length ids" "n \<le> length src" "a \<le> n"
  shows "for_each (steps a n) (copy_back src) ids = Inr (take a ids @ take (n - a) (drop a src) @ drop n ids)"
  using assms
proof (induction a n arbitrary: ids rule: steps.induct)
  case (1 a n)
  let ?b = "min n (a + LSD_STEP_ROWS)"
  show ?case
  proof (cases "a < n")
    case True
    have b: "a < ?b" "?b \<le> n" using True by (auto simp: LSD_STEP_ROWS_def)
    let ?ids = "take a ids @ take (?b - a) (drop a src) @ drop ?b ids"
    have step: "for_each (steps a n) (copy_back src) ids = for_each (steps (a + LSD_STEP_ROWS) n) (copy_back src) ?ids"
    proof -
      have "copy_back src (a, ?b) ids = Inr ?ids" using True b "1.prems" by (simp add: copy_back_def Let_def)
      then show ?thesis by (subst steps_step) (simp add: True)
    qed
    show ?thesis
    proof (cases "a + LSD_STEP_ROWS \<le> n")
      case less: True
      have "take (LSD_STEP_ROWS) (drop a src) @ take (n - (a + LSD_STEP_ROWS)) (drop (a + LSD_STEP_ROWS) src) = take (n - a) (drop a src)"
        using less take_add [of LSD_STEP_ROWS "n - (a + LSD_STEP_ROWS)" "drop a src"] by (simp add: add.commute)
      then show ?thesis unfolding step using "1.IH" [OF True, of ?ids] "1.prems" less by (simp add: min_absorb2)
    next
      case False
      then show ?thesis unfolding step using True by (subst steps_step) simp
    qed
  qed (use 1 in \<open>simp add: steps_step\<close>)
qed

text \<open>
  Property C13: the stable radix sort by 16 bit digits over any number of 32 bit columns returns the
  rows in the stable sort by their columns, compared left to right, and leaves the entries of
  \<open>ids\<close> behind row \<open>n\<close> as they were, whatever \<open>temporary\<close> and the counts held before.
\<close>

theorem lsd_sort_is_stable_sort:
  assumes "n \<le> length ids" "n \<le> length temporary" "n < 2 ^ 31" "length radix_counts = 65537"
  shows "lsd_sort_ids columns ids temporary n radix_counts = Inr (map int (sort_key (row_key columns) [0..<n]) @ drop n ids)"
proof -
  have num: "fold (\<lambda>i ids. put32 ids (int i) (int i)) [0..<n] ids = map int [0..<n] @ drop n ids"
    using assms(1,3)
  proof (induction n)
    case (Suc n)
    then show ?case by (simp add: put32_def list_update_append Cons_nth_drop_Suc [symmetric])
  qed simp
  let ?s = "\<lparr>ls_source = map int [0..<n] @ drop n ids, ls_target = temporary, ls_swapped = False, ls_counts = radix_counts\<rparr>"
  have "holds_rows n [0..<n] ids temporary ?s" using assms by (simp add: holds_rows_def)
  then have h: "holds_rows n (sort_key (row_key columns) [0..<n]) ids temporary (fold (lsd_column n) (rev columns) ?s)" by (rule columns_sort)
  show ?thesis
  proof (cases "ls_swapped (fold (lsd_column n) (rev columns) ?s)")
    case True
    then show ?thesis using h assms by (simp add: lsd_sort_ids_def num holds_rows_def copied_back)
  next
    case False
    then show ?thesis using h by (simp add: lsd_sort_ids_def num holds_rows_def)
  qed
qed

text \<open>Three rows of two columns: the row of the smallest pair first, and equal rows in their order.\<close>

lemma lsd_sort_is_stable_sort_witness:
  "lsd_sort_ids [[7, 3, 7], [2, 9, 2]] [0, 0, 0, 5] [0, 0, 0] 3 (replicate 65537 0) = Inr [1, 0, 2, 5]"
proof -
  have eq: "[0..<3] = [0, 1, 2 :: nat]" by (simp add: upt_rec)
  have "sort_key (row_key [[7, 3, 7], [2, 9, 2]]) [0, 1, 2 :: nat] = [1, 0, 2]"
    by (simp add: row_key_def get0_def)
  then show ?thesis using lsd_sort_is_stable_sort [of 3 "[0, 0, 0, 5]" "[0, 0, 0]" "replicate 65537 0" "[[7, 3, 7], [2, 9, 2]]"]
    by (simp add: eq)
qed

end
