(* ===== verification/PackedTag.thy ===== *)
theory PackedTag
  imports Unicode Crc32
begin

text \<open>
  The member tags of \<open>block-format/packed.ts\<close>: the two hashes of a (member id, column id) pair, computed from the code
  units directly while they are ASCII, continued from a shared prefix, or from the encoded pair.
\<close>

record member_tag =
  tag_crc_half :: u32
  tag_fnv_half :: u32

text \<open>A pair of running hashes: the CRC register, not yet inverted, and the FNV-1a value.\<close>

type_synonym hashes = "u32 \<times> u32"

definition hash_start :: hashes where "hash_start = (- 1, 0x811c9dc5)"

definition hash_code :: "hashes \<Rightarrow> 16 word \<Rightarrow> hashes" where
  "hash_code h code =
     (at0 CRC32_BYTE_TABLE (unat ((fst h XOR ucast code) AND 0xff)) XOR drop_bit 8 (fst h), (snd h XOR ucast code) * 0x01000193)"

definition hash_nul :: "hashes \<Rightarrow> hashes" where
  "hash_nul h = (at0 CRC32_BYTE_TABLE (unat (fst h AND 0xff)) XOR drop_bit 8 (fst h), snd h * 0x01000193)"

definition hash_end :: "hashes \<Rightarrow> member_tag" where
  "hash_end h = \<lparr>tag_crc_half = NOT (fst h), tag_fnv_half = snd h\<rparr>"

text \<open>A loop over the code units of a string, \<open>None\<close> where it meets one that is not ASCII.\<close>

fun hash_units :: "hashes \<Rightarrow> js_string \<Rightarrow> hashes option" where
  "hash_units h [] = Some h"
| "hash_units h (code # rest) = (if 0x7f < unat code then None else hash_units (hash_code h code) rest)"

definition encoded_member_tag :: "js_string \<Rightarrow> js_string \<Rightarrow> member_tag" where
  "encoded_member_tag member_id column_id =
     (let bytes = utf8_encode (member_id @ [0] @ column_id) in
      \<lparr>tag_crc_half = crc32 bytes, tag_fnv_half = foldl (\<lambda>fnv b. (fnv XOR ucast b) * 0x01000193) 0x811c9dc5 bytes\<rparr>)"

definition packed_member_tag :: "js_string \<Rightarrow> js_string \<Rightarrow> member_tag" where
  "packed_member_tag member_id column_id =
     (case hash_units hash_start member_id of
        None \<Rightarrow> encoded_member_tag member_id column_id
      | Some h \<Rightarrow>
          (case hash_units (hash_nul h) column_id of
             None \<Rightarrow> encoded_member_tag member_id column_id
           | Some h' \<Rightarrow> hash_end h'))"

subsection \<open>Shared prefixes\<close>

definition starts_with :: "js_string \<Rightarrow> js_string \<Rightarrow> bool" where
  "starts_with s t \<longleftrightarrow> take (length t) s = t"

definition ends_with :: "js_string \<Rightarrow> js_string \<Rightarrow> bool" where
  "ends_with s t \<longleftrightarrow> length t \<le> length s \<and> drop (length s - length t) s = t"

record prefix_state =
  prefix_text :: js_string
  prefix_crc :: u32
  prefix_fnv :: u32

definition prefix_tag_state :: "js_string \<Rightarrow> js_string \<Rightarrow> prefix_state option" where
  "prefix_tag_state member_id column_id =
     (let prefix_length = int (length member_id) - int (length column_id) in
      if prefix_length < 2 \<or> at0 member_id (nat prefix_length - 1) \<noteq> 0 \<or> \<not> ends_with member_id column_id then None
      else (case hash_units hash_start (take (nat prefix_length) member_id) of
              None \<Rightarrow> None
            | Some h \<Rightarrow> Some \<lparr>prefix_text = take (nat prefix_length) member_id, prefix_crc = fst h, prefix_fnv = snd h\<rparr>))"

definition shared_prefix_tag :: "prefix_state option \<Rightarrow> js_string \<Rightarrow> js_string \<Rightarrow> member_tag option" where
  "shared_prefix_tag prefix member_id column_id =
     (case prefix of
        None \<Rightarrow> None
      | Some p \<Rightarrow>
          if length member_id \<noteq> length (prefix_text p) + length column_id \<or> \<not> starts_with member_id (prefix_text p)
             \<or> \<not> ends_with member_id column_id then None
          else (case hash_units (prefix_crc p, prefix_fnv p) column_id of
                  None \<Rightarrow> None
                | Some h \<Rightarrow> map_option hash_end (hash_units (hash_nul h) column_id)))"

subsection \<open>The fast paths are the encoded tag\<close>

definition ascii :: "js_string \<Rightarrow> bool" where
  "ascii s \<longleftrightarrow> (\<forall>c \<in> set s. unat c \<le> 0x7f)"

lemma hash_units_append: "hash_units h (s @ t) = (case hash_units h s of None \<Rightarrow> None | Some h' \<Rightarrow> hash_units h' t)"
  by (induction h s rule: hash_units.induct) auto

lemma hash_units_Some: "hash_units h s = Some h' \<longleftrightarrow> ascii s \<and> h' = foldl hash_code h s"
  by (induction h s arbitrary: h' rule: hash_units.induct) (auto simp: ascii_def)

lemma hash_units_None: "hash_units h s = None \<longleftrightarrow> \<not> ascii s"
  by (metis hash_units_Some not_None_eq)

lemma hash_nul_code: "hash_nul h = hash_code h 0"
  by (simp add: hash_nul_def hash_code_def)

lemma ascii_simps [simp]: "ascii []" "ascii (c # s) \<longleftrightarrow> unat c \<le> 0x7f \<and> ascii s" "ascii (s @ t) \<longleftrightarrow> ascii s \<and> ascii t"
  by (auto simp: ascii_def)

lemma ascii_points: "ascii s \<Longrightarrow> code_points s = map unat s"
  by (induction s) (auto simp: high_surrogate_def low_surrogate_def)

lemma ascii_utf8: "ascii s \<Longrightarrow> utf8_encode s = map (\<lambda>c. ucast c) s"
proof -
  have u: "unat c \<le> 0x7f \<Longrightarrow> utf8_char (unat c) = [ucast c]" for c :: "16 word"
    by (simp add: utf8_char_def u8_def unsigned_def)
  show "ascii s \<Longrightarrow> ?thesis"
    unfolding utf8_encode_def by (subst ascii_points, assumption) (induction s; simp add: u)
qed

lemma byte_table_at: "i < 256 \<Longrightarrow> at0 CRC32_BYTE_TABLE i = at0 TABLES i"
  by (simp add: CRC32_BYTE_TABLE_def at0_def slice_of_def length_TABLES)

lemma hash_code_step:
  assumes "unat c \<le> 0x7f"
  shows "hash_code h c = (crc_ref_step (fst h) (ucast c), (snd h XOR ucast (ucast c :: byte)) * 0x01000193)"
proof -
  have "take_bit 8 (unat c) = unat c" using assms by (simp add: take_bit_nat_eq_self)
  then have u: "ucast (ucast c :: byte) = (ucast c :: u32)" by (simp only: word_unat_eq_iff unsigned_ucast_eq [where 'a = nat]) simp
  show ?thesis
    unfolding hash_code_def byte_step [symmetric] crc_byte_step_def byte_table_at [OF and_ff_bound] u by (simp add: xor.commute)
qed

lemma hash_fold:
  "ascii s \<Longrightarrow> foldl hash_code h s = (foldl crc_ref_step (fst h) (map ucast s),
     foldl (\<lambda>fnv b. (fnv XOR ucast (b :: byte)) * 0x01000193) (snd h) (map ucast s))"
  by (induction s arbitrary: h) (simp_all add: hash_code_step)

lemma hash_pair:
  assumes "ascii m" "ascii c"
  shows "hash_end (foldl hash_code hash_start (m @ [0] @ c)) = encoded_member_tag m c"
proof -
  have a: "ascii (m @ [0] @ c)" using assms by simp
  have "(- 1 :: u32) = NOT 0" by simp
  then show ?thesis unfolding hash_fold [OF a] encoded_member_tag_def ascii_utf8 [OF a] Let_def crc32_register
    by (simp add: hash_end_def hash_start_def)
qed

lemma member_tag_encoded: "packed_member_tag m c = encoded_member_tag m c"
proof (cases "ascii m \<and> ascii c")
  case True
  then have m: "hash_units hash_start m = Some (foldl hash_code hash_start m)" by (simp add: hash_units_Some)
  have c: "hash_units (hash_nul (foldl hash_code hash_start m)) c = Some (foldl hash_code (hash_nul (foldl hash_code hash_start m)) c)"
    using True by (simp add: hash_units_Some)
  show ?thesis unfolding packed_member_tag_def m option.case c using hash_pair [of m c] True by (simp add: hash_nul_code)
next
  case False
  then show ?thesis by (auto simp: packed_member_tag_def hash_units_None [THEN iffD2] hash_units_Some split: option.splits)
qed

text \<open>A prefix state is one that \<open>prefixTagState\<close> returns: its hashes are those of its ASCII text, which ends in NUL.\<close>

definition prefix_ok :: "prefix_state \<Rightarrow> bool" where
  "prefix_ok p \<longleftrightarrow> ascii (prefix_text p) \<and> (prefix_crc p, prefix_fnv p) = foldl hash_code hash_start (prefix_text p)"

lemma prefix_tag_state_ok: "prefix_tag_state m c = Some p \<Longrightarrow> prefix_ok p"
  by (auto simp: prefix_tag_state_def prefix_ok_def Let_def hash_units_Some split: if_splits option.splits)

lemma starts_ends:
  assumes "length s = length t + length u" "starts_with s t" "ends_with s u"
  shows "s = t @ u"
proof -
  have "take (length t) s = t" "drop (length t) s = u" using assms by (simp_all add: starts_with_def ends_with_def)
  then show ?thesis using append_take_drop_id [of "length t" s] by simp
qed

lemma shared_tag:
  assumes "prefix_ok p" "shared_prefix_tag (Some p) m c = Some tag"
  shows "tag = encoded_member_tag m c"
proof -
  have a: "m = prefix_text p @ c" "ascii c"
    using assms(2) starts_ends by (auto simp: shared_prefix_tag_def hash_units_Some split: if_splits option.splits)
  have p: "ascii (prefix_text p)" "(prefix_crc p, prefix_fnv p) = foldl hash_code hash_start (prefix_text p)"
    using assms(1) by (simp_all add: prefix_ok_def)
  have "tag = hash_end (foldl hash_code hash_start (m @ [0] @ c))"
    using assms(2) p by (auto simp: shared_prefix_tag_def hash_units_Some hash_nul_code a(1) split: if_splits option.splits)
  also have "\<dots> = encoded_member_tag m c" by (rule hash_pair) (use a p in simp_all)
  finally show ?thesis .
qed

text \<open>
  Every way of computing a member's tag agrees with hashing the UTF-8 of the pair: the ASCII loop
  of \<open>packedMemberTag\<close> always, and \<open>sharedPrefixTag\<close> whenever it returns a tag, continued from the state of any prefix.
\<close>

theorem member_tags_agree:
  "packed_member_tag m c = encoded_member_tag m c
   \<and> (\<forall>p m0 c0 tag. prefix_tag_state m0 c0 = Some p \<longrightarrow> shared_prefix_tag (Some p) m c = Some tag \<longrightarrow> tag = encoded_member_tag m c)"
  using member_tag_encoded shared_tag prefix_tag_state_ok by blast

lemma member_tags_agree_witness:
  "shared_prefix_tag (prefix_tag_state [115, 0, 97] [97]) [115, 0, 98] [98] = Some (encoded_member_tag [115, 0, 98] [98])"
proof -
  have "\<exists>p. prefix_tag_state [115, 0, 97] [97] = Some p \<and> prefix_text p = [115, 0]"
    by (simp add: prefix_tag_state_def ends_with_def at0_def)
  then obtain p where p: "prefix_tag_state [115, 0, 97] [97] = Some p" "prefix_text p = [115, 0]" by blast
  have "\<exists>tag. shared_prefix_tag (Some p) [115, 0, 98] [98] = Some tag"
    by (simp add: shared_prefix_tag_def starts_with_def ends_with_def p(2))
  then obtain tag where t: "shared_prefix_tag (Some p) [115, 0, 98] [98] = Some tag" by blast
  show ?thesis using member_tags_agree [of "[115, 0, 98]" "[98]"] p(1) t by auto
qed

end
