(* ===== verification/Packed.thy ===== *)
theory Packed
  imports PackedTag BlockCodec
begin

text \<open>
  \<open>block-format/packed.ts\<close>: many small column blocks in one stored payload behind a directory of member tags. The JSON text of
  block metadata is the parameter of \<open>BlockCodec\<close>. The string key of a tag (\<open>crc:fnv\<close>) is the tag itself, and an array the code
  fills index by index is a list that grows.
\<close>

definition PACKED_BLOCK_FORMAT_VERSION :: nat where "PACKED_BLOCK_FORMAT_VERSION = 1"
definition PACKED_BLOCK_HEADER_LENGTH :: nat where "PACKED_BLOCK_HEADER_LENGTH = 24"
definition PACKED_BLOCK_ENTRY_LENGTH :: nat where "PACKED_BLOCK_ENTRY_LENGTH = 12"
definition MAX_PACKED_BLOCK_MEMBERS :: nat where "MAX_PACKED_BLOCK_MEMBERS = 1024"
definition PACKED_MAGIC :: "byte list" where "PACKED_MAGIC = [0x42, 0x52, 0x50, 0x4b]"

lemmas packed_defs = PACKED_BLOCK_FORMAT_VERSION_def PACKED_BLOCK_HEADER_LENGTH_def PACKED_BLOCK_ENTRY_LENGTH_def
  MAX_PACKED_BLOCK_MEMBERS_def

record packed_input =
  input_member_id :: js_string
  input_column_id :: js_string
  input_type :: logical_type
  input_values :: "js_value list"

record packed_member =
  pm_member_id :: js_string
  pm_column_id :: js_string
  pm_offset :: nat
  pm_length :: nat
  pm_description :: "zone_map description"

record packed_directory =
  member_count :: nat
  dir_offsets :: "nat list"
  dir_lengths :: "nat list"
  dir_crc :: "u32 list"
  dir_fnv :: "u32 list"

subsection \<open>Writing\<close>

text \<open>The loop over the tags: \<open>True\<close> when it returns because a key has been seen.\<close>

fun tag_repeats :: "member_tag set \<Rightarrow> member_tag list \<Rightarrow> bool" where
  "tag_repeats seen [] = False"
| "tag_repeats seen (tag # rest) = (tag \<in> seen \<or> tag_repeats (insert tag seen) rest)"

definition encode_member ::
  "(zone_map \<Rightarrow> byte list) \<Rightarrow> bool \<Rightarrow> packed_input \<Rightarrow> zone_map raw_input result" where
  "encode_member stringify little_endian input =
     bindR (assert_block_row_count (length (input_values input))) (\<lambda>_.
     bindR (encode_column little_endian (input_type input) (input_values input)) (\<lambda>e.
       Inr \<lparr>in_type = input_type input, in_row_count = length (input_values input), in_null_count = enc_null_count e,
         in_payload = enc_bytes e, in_metadata_bytes = stringify (enc_metadata e), in_metadata = enc_metadata e\<rparr>))"

primrec map_result :: "('a \<Rightarrow> 'b result) \<Rightarrow> 'a list \<Rightarrow> 'b list result" where
  "map_result f [] = Inr []"
| "map_result f (x # xs) = bindR (f x) (\<lambda>y. bindR (map_result f xs) (\<lambda>ys. Inr (y # ys)))"

primrec members_length :: "nat \<Rightarrow> zone_map raw_input list \<Rightarrow> nat result" where
  "members_length n [] = Inr n"
| "members_length n (c # cs) =
     bindR (encoded_raw_block_length (length (in_metadata_bytes c)) (length (in_payload c))) (\<lambda>k. members_length (n + k) cs)"

text \<open>One member: its block, its directory entry and its place.\<close>

definition write_member ::
  "packed_input list \<Rightarrow> member_tag list \<Rightarrow> zone_map raw_input list \<Rightarrow> nat
    \<Rightarrow> byte list \<times> packed_member list \<times> nat \<Rightarrow> (byte list \<times> packed_member list \<times> nat) result" where
  "write_member inputs tags encoded_columns index s = (case s of (bytes, members, at) \<Rightarrow>
     if length inputs \<le> index \<or> length tags \<le> index then Inl (PlainError ''Packed block input is missing'')
     else
       let input = inputs ! index; tag = tags ! index in
       bindR (write_raw_block bytes at (encoded_columns ! index)) (\<lambda>(bytes, d).
         let n = BLOCK_HEADER_LENGTH + metadata_length d + stored_length d;
             entry = PACKED_BLOCK_HEADER_LENGTH + PACKED_BLOCK_ENTRY_LENGTH * index;
             bytes = set_at bytes entry (le_bytes 4 n);
             bytes = set_at bytes (entry + 4) (le32 (tag_crc_half tag));
             bytes = set_at bytes (entry + 8) (le32 (tag_fnv_half tag))
         in Inr (bytes, members @ [\<lparr>pm_member_id = input_member_id input, pm_column_id = input_column_id input,
                  pm_offset = at, pm_length = n, pm_description = d\<rparr>], at + n)))"

definition write_packed_header :: "byte list \<Rightarrow> nat \<Rightarrow> nat \<Rightarrow> nat \<Rightarrow> byte list" where
  "write_packed_header bytes byte_len count directory_end =
     (let bytes = set_at bytes 0 PACKED_MAGIC;
          bytes = set_at bytes 8 (le_bytes 2 PACKED_BLOCK_FORMAT_VERSION);
          bytes = set_at bytes 10 (le_bytes 2 PACKED_BLOCK_HEADER_LENGTH);
          bytes = set_at bytes 12 (le_bytes 2 count);
          bytes = set_at bytes 14 (le_bytes 2 0);
          bytes = set_at bytes 16 (le_bytes 4 (byte_len - directory_end));
          bytes = set_at bytes 20 (le32 (crc32 (drop directory_end bytes)))
      in set_at bytes 4 (le32 (crc32 (slice_of bytes 8 directory_end))))"

definition encode_packed_block ::
  "(zone_map \<Rightarrow> byte list) \<Rightarrow> bool \<Rightarrow> packed_input list \<Rightarrow> (byte list \<times> packed_member list) option result" where
  "encode_packed_block stringify little_endian inputs =
     (if inputs = [] \<or> MAX_PACKED_BLOCK_MEMBERS < length inputs
      then Inl (RangeError ''A packed block holds 1 to 1,024 members'')
      else
        let tags = map (\<lambda>input. packed_member_tag (input_member_id input) (input_column_id input)) inputs in
        if tag_repeats {} tags then Inr None
        else
          bindR (map_result (encode_member stringify little_endian) inputs) (\<lambda>encoded_columns.
          let directory_end = PACKED_BLOCK_HEADER_LENGTH + PACKED_BLOCK_ENTRY_LENGTH * length inputs in
          bindR (members_length directory_end encoded_columns) (\<lambda>byte_len.
          bindR (for_each [0..<length encoded_columns] (write_member inputs tags encoded_columns)
              (replicate byte_len 0, [], directory_end)) (\<lambda>(bytes, members, at).
            Inr (Some (write_packed_header bytes byte_len (length inputs) directory_end, members))))))"

subsection \<open>Reading\<close>

definition is_packed_block :: "byte list \<Rightarrow> bool" where
  "is_packed_block bytes \<longleftrightarrow> 4 \<le> length bytes \<and> at0 bytes 0 = PACKED_MAGIC ! 0 \<and> at0 bytes 1 = PACKED_MAGIC ! 1
     \<and> at0 bytes 2 = PACKED_MAGIC ! 2 \<and> at0 bytes 3 = PACKED_MAGIC ! 3"

text \<open>One directory entry; the typed array of offsets keeps 32 bits.\<close>

definition inspect_entry ::
  "byte list \<Rightarrow> nat \<Rightarrow> packed_directory \<times> nat \<Rightarrow> (packed_directory \<times> nat) result" where
  "inspect_entry bytes index s = (case s of (d, at) \<Rightarrow>
     let entry = PACKED_BLOCK_HEADER_LENGTH + PACKED_BLOCK_ENTRY_LENGTH * index; n = get_le 4 bytes entry in
     if n < BLOCK_HEADER_LENGTH \<or> length bytes - at < n then Inl (PlainError ''Packed block member length is invalid'')
     else Inr (\<lparr>member_count = member_count d, dir_offsets = dir_offsets d @ [at mod 2 ^ 32], dir_lengths = dir_lengths d @ [n],
                dir_crc = dir_crc d @ [get32 bytes (entry + 4)], dir_fnv = dir_fnv d @ [get32 bytes (entry + 8)]\<rparr>, at + n))"

definition inspect_packed_block :: "byte list \<Rightarrow> packed_directory result" where
  "inspect_packed_block bytes =
     (if length bytes < PACKED_BLOCK_HEADER_LENGTH then Inl (PlainError ''Truncated packed block'')
      else if \<not> is_packed_block bytes then Inl (PlainError ''Invalid packed block magic'')
      else if get_le 2 bytes 8 \<noteq> PACKED_BLOCK_FORMAT_VERSION then Inl (PlainError ''Unsupported packed block version'')
      else if get_le 2 bytes 10 \<noteq> PACKED_BLOCK_HEADER_LENGTH then Inl (PlainError ''Invalid packed block header length'')
      else let count = get_le 2 bytes 12 in
        if count = 0 \<or> MAX_PACKED_BLOCK_MEMBERS < count then Inl (PlainError ''Invalid packed block member count'')
        else if get_le 2 bytes 14 \<noteq> 0 then Inl (PlainError ''Unsupported packed block flags'')
        else let directory_end = PACKED_BLOCK_HEADER_LENGTH + PACKED_BLOCK_ENTRY_LENGTH * count in
          if length bytes < directory_end then Inl (PlainError ''Truncated packed block directory'')
          else if get_le 4 bytes 16 \<noteq> length bytes - directory_end then Inl (PlainError ''Packed block length mismatch'')
          else if crc32 (slice_of bytes 8 directory_end) \<noteq> get32 bytes 4
            then Inl (PlainError ''Packed block envelope checksum mismatch'')
          else bindR (for_each [0..<count] (inspect_entry bytes)
                  (\<lparr>member_count = count, dir_offsets = [], dir_lengths = [], dir_crc = [], dir_fnv = []\<rparr>, directory_end)) (\<lambda>(d, at).
            if at \<noteq> length bytes then Inl (PlainError ''Packed block members do not fill the payload'') else Inr d))"

text \<open>The tag at an index, \<open>None\<close> past the end, where the typed arrays read \<open>undefined\<close>.\<close>

definition tag_at :: "packed_directory \<Rightarrow> nat \<Rightarrow> member_tag option" where
  "tag_at d index = (if index < length (dir_crc d) \<and> index < length (dir_fnv d)
     then Some \<lparr>tag_crc_half = dir_crc d ! index, tag_fnv_half = dir_fnv d ! index\<rparr> else None)"

definition find_packed_member :: "packed_directory \<Rightarrow> member_tag \<Rightarrow> int" where
  "find_packed_member d tag = (case List.find (\<lambda>index. tag_at d index = Some tag) [0..<member_count d] of
     None \<Rightarrow> - 1 | Some index \<Rightarrow> int index)"

definition directory_tags :: "packed_directory \<Rightarrow> member_tag set" where
  "directory_tags d = set (List.map_filter (tag_at d) [0..<member_count d])"

text \<open>The loops of \<open>missingPackedMember\<close> over the (column id, member id) pairs, with its position, lookup and prefix.\<close>

fun missing_loop ::
  "packed_directory \<Rightarrow> nat \<Rightarrow> member_tag set option \<Rightarrow> prefix_state option \<Rightarrow> (js_string \<times> js_string) list \<Rightarrow> js_string option" where
  "missing_loop d position tags prefix [] = None"
| "missing_loop d position tags prefix ((column_id, member_id) # rest) =
     (let prefix = (case prefix of None \<Rightarrow> prefix_tag_state member_id column_id | Some p \<Rightarrow> Some p);
          tag = (case shared_prefix_tag prefix member_id column_id of
                   Some tag \<Rightarrow> tag | None \<Rightarrow> packed_member_tag member_id column_id)
      in if tag_at d position = Some tag then missing_loop d (position + 1) tags prefix rest
         else let lookup = (case tags of None \<Rightarrow> directory_tags d | Some tags \<Rightarrow> tags) in
           if tag \<notin> lookup then Some member_id else missing_loop d position (Some lookup) prefix rest)"

definition member_pairs :: "(js_string \<times> js_string list) list \<Rightarrow> (js_string \<times> js_string) list" where
  "member_pairs column_block_ids = concat (map (\<lambda>(column_id, member_ids). map (Pair column_id) member_ids) column_block_ids)"

definition missing_packed_member :: "byte list \<Rightarrow> (js_string \<times> js_string list) list \<Rightarrow> js_string option result" where
  "missing_packed_member bytes column_block_ids =
     bindR (inspect_packed_block bytes) (\<lambda>d. Inr (missing_loop d 0 None None (member_pairs column_block_ids)))"

datatype staging_problem = Not_packed | Invalid_packed js_error | Lacks_member js_string

definition packed_segment_staging_problem ::
  "(js_string \<times> js_string list) list \<Rightarrow> byte list option \<Rightarrow> staging_problem option" where
  "packed_segment_staging_problem column_block_ids bytes = (case bytes of
     None \<Rightarrow> None
   | Some bytes \<Rightarrow>
       if \<not> is_packed_block bytes then Some Not_packed
       else (case missing_packed_member bytes column_block_ids of
               Inl e \<Rightarrow> Some (Invalid_packed e)
             | Inr missing \<Rightarrow> map_option Lacks_member missing))"

definition packed_member_bytes :: "byte list \<Rightarrow> packed_directory \<Rightarrow> member_tag \<Rightarrow> byte list result" where
  "packed_member_bytes bytes d tag =
     (let index = find_packed_member d tag in
      if index < 0 then Inl (PlainError ''Packed block has no such member for its column'')
      else let offset = at0 (dir_offsets d) (nat index) in Inr (slice_of bytes offset (offset + at0 (dir_lengths d) (nat index))))"

definition verify_member ::
  "(byte list \<Rightarrow> zone_map option) \<Rightarrow> byte list \<Rightarrow> packed_directory \<Rightarrow> nat \<Rightarrow> member_tag option set \<Rightarrow> member_tag option set result" where
  "verify_member parse_meta bytes d index tags =
     (if tag_at d index \<in> tags then Inl (PlainError ''Packed block repeats a member tag'')
      else let offset = at0 (dir_offsets d) index in
        bindR (verify_stored_block parse_meta (slice_of bytes offset (offset + at0 (dir_lengths d) index)))
          (\<lambda>_. Inr (insert (tag_at d index) tags)))"

definition verify_packed_block :: "(byte list \<Rightarrow> zone_map option) \<Rightarrow> byte list \<Rightarrow> packed_directory result" where
  "verify_packed_block parse_meta bytes =
     bindR (inspect_packed_block bytes) (\<lambda>d.
       let directory_end = PACKED_BLOCK_HEADER_LENGTH + PACKED_BLOCK_ENTRY_LENGTH * member_count d in
       if crc32 (drop directory_end bytes) \<noteq> get32 bytes 20 then Inl (PlainError ''Packed block members checksum mismatch'')
       else bindR (for_each [0..<member_count d] (verify_member parse_meta bytes d) {}) (\<lambda>_. Inr d))"

definition verify_stored_payload :: "(byte list \<Rightarrow> zone_map option) \<Rightarrow> byte list \<Rightarrow> unit result" where
  "verify_stored_payload parse_meta bytes =
     (if is_packed_block bytes then bindR (verify_packed_block parse_meta bytes) (\<lambda>_. Inr ())
      else bindR (verify_stored_block parse_meta bytes) (\<lambda>_. Inr ()))"

subsection \<open>Missing members\<close>

lemma inspect_packed_Inr:
  assumes "inspect_packed_block bytes = Inr d"
  shows "member_count d = get_le 2 bytes 12" "length (dir_crc d) = member_count d" "length (dir_fnv d) = member_count d"
    "length (dir_offsets d) = member_count d" "length (dir_lengths d) = member_count d"
    "24 + 12 * member_count d \<le> length bytes"
proof -
  let ?n = "get_le 2 bytes 12"
  obtain at where f: "for_each [0..<?n] (inspect_entry bytes)
      (\<lparr>member_count = ?n, dir_offsets = [], dir_lengths = [], dir_crc = [], dir_fnv = []\<rparr>, 24 + 12 * ?n) = Inr (d, at)"
    and len: "24 + 12 * ?n \<le> length bytes"
    using assms by (auto simp: inspect_packed_block_def Let_def bindR_eq_Inr packed_defs split: if_splits)
  define I where "I i s \<longleftrightarrow> member_count (fst s) = ?n \<and> length (dir_crc (fst s)) = i \<and> length (dir_fnv (fst s)) = i
    \<and> length (dir_offsets (fst s)) = i \<and> length (dir_lengths (fst s)) = i" for i and s :: "packed_directory \<times> nat"
  have "I ?n (d, at)"
    by (rule for_each_inv [OF f]) (auto simp: I_def inspect_entry_def Let_def split: prod.splits if_splits)
  then show "member_count d = ?n" "length (dir_crc d) = member_count d" "length (dir_fnv d) = member_count d"
    "length (dir_offsets d) = member_count d" "length (dir_lengths d) = member_count d" "24 + 12 * member_count d \<le> length bytes"
    using len by (simp_all add: I_def)
qed

lemma in_directory_tags: "t \<in> directory_tags d \<longleftrightarrow> (\<exists>i < member_count d. tag_at d i = Some t)"
  by (force simp: directory_tags_def List.map_filter_def)

lemma missing_loop_spec:
  "length (dir_crc d) = member_count d \<Longrightarrow> (\<forall>p. prefix = Some p \<longrightarrow> prefix_ok p)
    \<Longrightarrow> (\<forall>ts. tags = Some ts \<longrightarrow> ts = directory_tags d) \<Longrightarrow>
    missing_loop d position tags prefix pairs
      = map_option snd (List.find (\<lambda>(c, m). encoded_member_tag m c \<notin> directory_tags d) pairs)"
proof (induction d position tags prefix pairs rule: missing_loop.induct)
  case (2 d position tags prefix c m rest)
  define prefix' where "prefix' = (case prefix of None \<Rightarrow> prefix_tag_state m c | Some p \<Rightarrow> Some p)"
  define tag where "tag = (case shared_prefix_tag prefix' m c of Some tag \<Rightarrow> tag | None \<Rightarrow> packed_member_tag m c)"
  define lookup where "lookup = (case tags of None \<Rightarrow> directory_tags d | Some tags \<Rightarrow> tags)"
  have p: "\<forall>p. prefix' = Some p \<longrightarrow> prefix_ok p" using 2(4) prefix_tag_state_ok by (auto simp: prefix'_def split: option.splits)
  have tag: "tag = encoded_member_tag m c"
    using p shared_tag member_tag_encoded by (cases prefix') (auto simp: tag_def shared_prefix_tag_def split: option.splits)
  have inside: "tag \<in> directory_tags d" if "tag_at d position = Some tag"
    using that 2(3) unfolding in_directory_tags by (intro exI [of _ position]) (auto simp: tag_at_def split: if_splits)
  have lookup: "lookup = directory_tags d" using 2(5) by (auto simp: lookup_def split: option.splits)
  have step: "missing_loop d position tags prefix ((c, m) # rest) =
    (if tag_at d position = Some tag then missing_loop d (position + 1) tags prefix' rest
     else if tag \<notin> lookup then Some m else missing_loop d position (Some lookup) prefix' rest)"
    by (subst missing_loop.simps(2)) (simp only: Let_def prefix'_def tag_def lookup_def)
  note ih = 2(1) [OF prefix'_def tag_def _ 2(3) p 2(5)] 2(2) [OF prefix'_def tag_def _ lookup_def _ 2(3) p]
  show ?case
  proof (cases "tag_at d position = Some tag")
    case True
    then have "tag \<in> directory_tags d" by (rule inside)
    with True show ?thesis unfolding step using ih(1) [OF True] by (simp add: tag [symmetric])
  next
    case False
    show ?thesis
    proof (cases "tag \<in> lookup")
      case True
      have "missing_loop d position (Some lookup) prefix' rest
          = map_option snd (List.find (\<lambda>(c, m). encoded_member_tag m c \<notin> directory_tags d) rest)"
        by (rule ih(2)) (use False True lookup in simp_all)
      with False True show ?thesis unfolding step using lookup by (simp add: tag [symmetric])
    next
      case out: False
      with False show ?thesis unfolding step using lookup by (simp add: tag [symmetric])
    qed
  qed
qed simp

text \<open>
  Property C29: \<open>missingPackedMember\<close>, which tries each member at the next position and hashes a shared prefix once, returns exactly
  what the plain check returns: the first of the segment's members whose tag, the hashes of its encoded pair, the directory
  does not hold.
\<close>

theorem missing_member_exact:
  "missing_packed_member bytes column_block_ids = bindR (inspect_packed_block bytes) (\<lambda>d.
     Inr (map_option snd (List.find (\<lambda>(c, m). \<not> (\<exists>i < member_count d. tag_at d i = Some (encoded_member_tag m c)))
       (member_pairs column_block_ids))))"
proof (cases "inspect_packed_block bytes")
  case (Inr d)
  then show ?thesis using missing_loop_spec [of d None None 0] inspect_packed_Inr(2) [OF Inr]
    by (simp add: missing_packed_member_def in_directory_tags)
qed (simp add: missing_packed_member_def)

subsection \<open>The layout\<close>

definition packed_entry_bytes :: "member_tag \<Rightarrow> byte list \<Rightarrow> byte list" where
  "packed_entry_bytes tag block = le_bytes 4 (length block) @ le32 (tag_crc_half tag) @ le32 (tag_fnv_half tag)"

definition directory_bytes :: "member_tag list \<Rightarrow> byte list list \<Rightarrow> byte list" where
  "directory_bytes tags blocks = concat (map2 packed_entry_bytes tags blocks)"

definition packed_fields :: "byte list list \<Rightarrow> byte list" where
  "packed_fields blocks = le_bytes 2 PACKED_BLOCK_FORMAT_VERSION @ le_bytes 2 PACKED_BLOCK_HEADER_LENGTH @ le_bytes 2 (length blocks)
     @ le_bytes 2 0 @ le_bytes 4 (length (concat blocks)) @ le32 (crc32 (concat blocks))"

definition packed_layout :: "member_tag list \<Rightarrow> byte list list \<Rightarrow> byte list" where
  "packed_layout tags blocks = PACKED_MAGIC @ le32 (crc32 (packed_fields blocks @ directory_bytes tags blocks))
     @ packed_fields blocks @ directory_bytes tags blocks @ concat blocks"

definition block_offset :: "byte list list \<Rightarrow> nat \<Rightarrow> nat" where
  "block_offset blocks i = 24 + 12 * length blocks + length (concat (take i blocks))"

lemma packed_lengths [simp]: "length PACKED_MAGIC = 4" "length (packed_fields blocks) = 16" "length (packed_entry_bytes tag block) = 12"
  by (simp_all add: PACKED_MAGIC_def packed_fields_def packed_entry_bytes_def)

lemma length_directory [simp]: "length (directory_bytes tags blocks) = 12 * min (length tags) (length blocks)"
  unfolding directory_bytes_def by (subst length_concat_blocks [where k = 12]) auto

lemma length_layout: "length tags = length blocks \<Longrightarrow> length (packed_layout tags blocks) = block_offset blocks (length blocks)"
  by (simp add: packed_layout_def block_offset_def)

lemma layout_fields:
  assumes "length tags = length blocks" "length blocks \<le> 1024" "length (packed_layout tags blocks) < 2 ^ 32"
  defines "bytes \<equiv> packed_layout tags blocks"
  shows "is_packed_block bytes" "get_le 2 bytes 8 = 1" "get_le 2 bytes 10 = 24" "get_le 2 bytes 12 = length blocks" "get_le 2 bytes 14 = 0"
    "get_le 4 bytes 16 = length (concat blocks)" "get32 bytes 20 = crc32 (concat blocks)"
    "get32 bytes 4 = crc32 (packed_fields blocks @ directory_bytes tags blocks)"
    "slice_of bytes 8 (24 + 12 * length blocks) = packed_fields blocks @ directory_bytes tags blocks"
    "drop (24 + 12 * length blocks) bytes = concat blocks"
proof -
  have c: "length (concat blocks) < 4294967296" using assms(3) by (simp add: length_layout [OF assms(1)] block_offset_def)
  show "is_packed_block bytes" "get_le 2 bytes 8 = 1" "get_le 2 bytes 10 = 24" "get_le 2 bytes 12 = length blocks" "get_le 2 bytes 14 = 0"
    "get_le 4 bytes 16 = length (concat blocks)" "get32 bytes 20 = crc32 (concat blocks)"
    "get32 bytes 4 = crc32 (packed_fields blocks @ directory_bytes tags blocks)"
    using assms(1,2) c
    by (simp_all add: bytes_def packed_layout_def packed_fields_def is_packed_block_def PACKED_MAGIC_def bytes_simps packed_defs)
  show "slice_of bytes 8 (24 + 12 * length blocks) = packed_fields blocks @ directory_bytes tags blocks"
    "drop (24 + 12 * length blocks) bytes = concat blocks"
    using assms(1) by (simp_all add: bytes_def packed_layout_def slice_of_def)
qed

lemma layout_entry:
  assumes "length tags = length blocks" "i < length blocks"
  shows "slice_of (packed_layout tags blocks) (24 + 12 * i) (36 + 12 * i) = packed_entry_bytes (tags ! i) (blocks ! i)"
proof -
  have "slice_of (directory_bytes tags blocks @ concat blocks) (12 * i) (12 * i + 12) = packed_entry_bytes (tags ! i) (blocks ! i)"
    unfolding directory_bytes_def using assms slice_block [of "zip tags blocks" "\<lambda>(t, b). packed_entry_bytes t b" 12 i] by (auto simp: add.commute)
  then show ?thesis by (simp add: packed_layout_def slice_of_append_right add.commute)
qed

text \<open>Reads inside a slice are reads of the slice.\<close>

lemma get_le_slice: "a \<le> at \<Longrightarrow> at + n \<le> b \<Longrightarrow> get_le n xs at = get_le n (slice_of xs a b) (at - a)"
  by (simp add: get_le_def slice_of_def drop_take)

lemma entry_reads:
  assumes "length tags = length blocks" "i < length blocks" "length (blocks ! i) < 2 ^ 32"
  defines "bytes \<equiv> packed_layout tags blocks"
  shows "get_le 4 bytes (24 + 12 * i) = length (blocks ! i)" "get32 bytes (28 + 12 * i) = tag_crc_half (tags ! i)"
    "get32 bytes (32 + 12 * i) = tag_fnv_half (tags ! i)"
  using assms(3) get_le_slice [of "24 + 12 * i" _ 4 "36 + 12 * i" bytes] layout_entry [OF assms(1,2)]
  by (simp_all add: bytes_def get32_def packed_entry_bytes_def get_le_here get_le_skip get32_here [unfolded get32_def])

definition layout_directory :: "member_tag list \<Rightarrow> byte list list \<Rightarrow> nat \<Rightarrow> packed_directory" where
  "layout_directory tags blocks i = \<lparr>member_count = length blocks, dir_offsets = map (block_offset blocks) [0..<i],
     dir_lengths = map length (take i blocks), dir_crc = map tag_crc_half (take i tags), dir_fnv = map tag_fnv_half (take i tags)\<rparr>"

lemma block_offset_Suc: "i < length blocks \<Longrightarrow> block_offset blocks (Suc i) = block_offset blocks i + length (blocks ! i)"
  by (simp add: block_offset_def take_Suc_conv_app_nth)

lemma block_offset_le: "i \<le> length blocks \<Longrightarrow> block_offset blocks i \<le> block_offset blocks (length blocks)"
proof -
  have "length (concat blocks) = length (concat (take i blocks)) + length (concat (drop i blocks))"
    by (simp flip: length_append concat_append)
  then show ?thesis by (simp add: block_offset_def)
qed

lemma inspect_layout:
  assumes "length tags = length blocks" "blocks \<noteq> []" "length blocks \<le> 1024" "length (packed_layout tags blocks) < 2 ^ 32"
    "\<forall>b \<in> set blocks. 44 \<le> length b"
  shows "inspect_packed_block (packed_layout tags blocks) = Inr (layout_directory tags blocks (length blocks))"
proof -
  let ?b = "packed_layout tags blocks" and ?n = "length blocks"
  note F = layout_fields [OF assms(1,3,4)]
  have len: "length ?b = block_offset blocks ?n" by (rule length_layout [OF assms(1)])
  define h where "h i = (layout_directory tags blocks i, block_offset blocks i)" for i
  have step: "inspect_entry ?b i (h i) = Inr (h (Suc i))" if i: "i < ?n" for i
  proof -
    have o: "block_offset blocks i + length (blocks ! i) \<le> length ?b"
      unfolding len using block_offset_le [of "Suc i" blocks] i by (simp add: block_offset_Suc)
    then have "length (blocks ! i) < 2 ^ 32" "block_offset blocks i < 2 ^ 32" using assms(4) by linarith+
    moreover have "44 \<le> length (blocks ! i)" using assms(5) i by simp
    ultimately show ?thesis using entry_reads [OF assms(1) i] o i assms(1)
      by (simp add: inspect_entry_def h_def layout_directory_def block_offset_Suc take_Suc_conv_app_nth packed_defs BLOCK_HEADER_LENGTH_def Let_def)
  qed
  have "for_each [0..<?n] (inspect_entry ?b) (h 0) = Inr (h ?n)"
    by (rule for_each_upt(1) [where P = "\<lambda>_. True"]) (use step in simp_all)
  moreover have "h 0 = (\<lparr>member_count = ?n, dir_offsets = [], dir_lengths = [], dir_crc = [], dir_fnv = []\<rparr>, 24 + 12 * ?n)"
    by (simp add: h_def layout_directory_def block_offset_def)
  moreover have "24 + 12 * ?n + length (concat blocks) = length ?b" unfolding len by (simp add: block_offset_def)
  ultimately show ?thesis using F assms(2,3) len
    by (simp add: inspect_packed_block_def packed_defs Let_def h_def)
qed

lemma layout_member:
  assumes "length tags = length blocks" "i < length blocks"
  shows "slice_of (packed_layout tags blocks) (block_offset blocks i) (block_offset blocks i + length (blocks ! i)) = blocks ! i"
proof -
  have "concat blocks = concat (take i blocks) @ blocks ! i @ concat (drop (Suc i) blocks)"
    using id_take_nth_drop [OF assms(2)] by (metis append_Cons append_Nil concat.simps(2) concat_append)
  then have "packed_layout tags blocks = (PACKED_MAGIC @ le32 (crc32 (packed_fields blocks @ directory_bytes tags blocks))
     @ packed_fields blocks @ directory_bytes tags blocks @ concat (take i blocks)) @ blocks ! i @ concat (drop (Suc i) blocks)"
    by (simp add: packed_layout_def)
  moreover have "length (PACKED_MAGIC @ le32 (crc32 (packed_fields blocks @ directory_bytes tags blocks))
     @ packed_fields blocks @ directory_bytes tags blocks @ concat (take i blocks)) = block_offset blocks i"
    using assms by (simp add: block_offset_def)
  ultimately show ?thesis by (metis slice_of_middle)
qed

lemma layout_tag_at: "length tags = length blocks \<Longrightarrow> i < length blocks \<Longrightarrow> tag_at (layout_directory tags blocks (length blocks)) i = Some (tags ! i)"
  by (simp add: tag_at_def layout_directory_def)

lemma find_first:
  assumes "i < n" "P i" "\<And>j. j < i \<Longrightarrow> \<not> P j"
  shows "List.find P [0..<n] = Some i"
  using assms by (auto simp: find_Some_iff intro!: exI [of _ i])

lemma layout_find:
  assumes "length tags = length blocks" "distinct tags" "i < length blocks"
  shows "find_packed_member (layout_directory tags blocks (length blocks)) (tags ! i) = int i"
proof -
  let ?d = "layout_directory tags blocks (length blocks)"
  have "List.find (\<lambda>j. tag_at ?d j = Some (tags ! i)) [0..<length blocks] = Some i"
    by (rule find_first) (use assms layout_tag_at [OF assms(1)] in \<open>auto simp: nth_eq_iff_index_eq\<close>)
  then show ?thesis by (simp add: find_packed_member_def layout_directory_def)
qed

lemma layout_slot:
  "i < length blocks \<Longrightarrow> at0 (dir_offsets (layout_directory tags blocks (length blocks))) i = block_offset blocks i"
  "i < length blocks \<Longrightarrow> at0 (dir_lengths (layout_directory tags blocks (length blocks))) i = length (blocks ! i)"
  by (simp_all add: layout_directory_def at0_def)

lemma layout_member_bytes:
  assumes "length tags = length blocks" "distinct tags" "i < length blocks"
  shows "packed_member_bytes (packed_layout tags blocks) (layout_directory tags blocks (length blocks)) (tags ! i) = Inr (blocks ! i)"
  using layout_find [OF assms] layout_member [OF assms(1,3)] layout_slot [OF assms(3), of tags]
  by (simp add: packed_member_bytes_def)

lemma verify_layout:
  assumes "length tags = length blocks" "blocks \<noteq> []" "length blocks \<le> 1024" "length (packed_layout tags blocks) < 2 ^ 32"
    "\<forall>b \<in> set blocks. 44 \<le> length b" "distinct tags" "\<forall>b \<in> set blocks. \<exists>d. verify_stored_block parse_meta b = Inr d"
  shows "verify_packed_block parse_meta (packed_layout tags blocks) = Inr (layout_directory tags blocks (length blocks))"
proof -
  let ?b = "packed_layout tags blocks" and ?n = "length blocks"
  let ?d = "layout_directory tags blocks ?n"
  note F = layout_fields [OF assms(1,3,4)]
  have step: "verify_member parse_meta ?b ?d i (Some ` set (take i tags)) = Inr (Some ` set (take (Suc i) tags))" if i: "i < ?n" for i
  proof -
    have "tags ! i \<notin> set (take i tags)" using assms(1,6) i by (auto simp: in_set_conv_nth nth_eq_iff_index_eq)
    moreover obtain d' where "verify_stored_block parse_meta (blocks ! i) = Inr d'" using assms(7) i nth_mem by blast
    ultimately show ?thesis using layout_tag_at [OF assms(1) i] layout_member [OF assms(1) i] layout_slot [OF i, of tags] i assms(1)
      by (auto simp: verify_member_def take_Suc_conv_app_nth)
  qed
  have "for_each [0..<?n] (verify_member parse_meta ?b ?d) (Some ` set (take 0 tags)) = Inr (Some ` set (take ?n tags))"
    by (rule for_each_upt(1) [where P = "\<lambda>_. True" and h = "\<lambda>i. Some ` set (take i tags)"]) (use step in simp_all)
  moreover have "member_count ?d = ?n" by (simp add: layout_directory_def)
  ultimately show ?thesis unfolding verify_packed_block_def inspect_layout [OF assms(1-5)]
    using F(7,10) by (simp add: packed_defs)
qed

subsection \<open>The writer fills the layout\<close>

lemma set_at_append: "length xs = at \<Longrightarrow> length ys = length src \<Longrightarrow> set_at (xs @ ys @ zs) at src = xs @ src @ zs"
  by (simp add: set_at_def)

lemma set_at_set_at:
  assumes "at + length a + length b \<le> length xs"
  shows "set_at (set_at xs at a) (at + length a) b = set_at xs at (a @ b)"
proof -
  define ys where "ys = take at xs"
  define zs where "zs = slice_of xs at (at + length a)"
  define us where "us = drop (at + length a) xs"
  have xs: "xs = ys @ zs @ us" unfolding ys_def zs_def us_def slice_of_def
    by (metis add_diff_cancel_left' append_take_drop_id drop_drop add.commute)
  have l: "length ys = at" "length zs = length a" using assms by (simp_all add: ys_def zs_def)
  show ?thesis unfolding xs using l by (simp add: set_at_def)
qed

definition raw_block :: "'m raw_input \<Rightarrow> byte list" where
  "raw_block c = envelope_bytes (raw_description c) (in_metadata_bytes c) (in_payload c)"

lemma length_raw_block: "length (raw_block c) = 44 + length (in_metadata_bytes c) + length (in_payload c)"
  by (simp add: raw_block_def BLOCK_HEADER_LENGTH_def)

lemma raw_description_lengths: "metadata_length (raw_description c) = length (in_metadata_bytes c)"
  "stored_length (raw_description c) = length (in_payload c)"
  by (simp_all add: raw_description_def)

lemma write_raw_block_Inr:
  assumes "write_raw_block target at c = Inr (out, d)"
  shows "out = set_at target at (raw_block c)" "d = raw_description c" "at + length (raw_block c) \<le> length target"
    "length (in_metadata_bytes c) \<le> MAX_BLOCK_METADATA_BYTE_LENGTH" "length (in_payload c) \<le> MAX_PHYSICAL_COLUMN_BYTE_LENGTH"
proof -
  have d: "raw_description c\<lparr>metadata_length := length (in_metadata_bytes c), stored_length := length (in_payload c)\<rparr> = raw_description c"
    by (simp add: raw_description_def)
  show "out = set_at target at (raw_block c)" "d = raw_description c" "at + length (raw_block c) \<le> length target"
    "length (in_metadata_bytes c) \<le> MAX_BLOCK_METADATA_BYTE_LENGTH" "length (in_payload c) \<le> MAX_PHYSICAL_COLUMN_BYTE_LENGTH"
    using assms by (auto simp: write_raw_block_def write_block_envelope_def d raw_block_def bindR_eq_Inr encoded_raw_block_length_def
      assert_metadata_length_def assert_stored_block_payload_byte_length_def split: if_splits)
qed

text \<open>The bytes while the members are written: the first \<open>i\<close> entries and blocks are there, the rest is zero.\<close>

definition packed_written :: "member_tag list \<Rightarrow> byte list list \<Rightarrow> nat \<Rightarrow> byte list" where
  "packed_written tags blocks i = replicate 24 0 @ directory_bytes (take i tags) (take i blocks) @ replicate (12 * (length blocks - i)) 0
     @ concat (take i blocks) @ replicate (length (concat (drop i blocks))) 0"

lemma length_packed_written: "length tags = length blocks \<Longrightarrow> i \<le> length blocks \<Longrightarrow> length (packed_written tags blocks i) = block_offset blocks (length blocks)"
proof -
  assume a: "length tags = length blocks" "i \<le> length blocks"
  have "length (concat blocks) = length (concat (take i blocks)) + length (concat (drop i blocks))"
    by (simp flip: length_append concat_append)
  then show ?thesis using a by (simp add: packed_written_def block_offset_def)
qed

lemma set_entry:
  assumes "length pre = at" "length ys = 12" "length (le_bytes 4 n) = 4"
  shows "set_at (set_at (set_at (pre @ ys @ zs) at (le_bytes 4 n)) (at + 4) (le32 u)) (at + 8) (le32 v)
    = pre @ (le_bytes 4 n @ le32 u @ le32 v) @ zs"
proof -
  have "set_at (set_at (set_at (pre @ ys @ zs) at (le_bytes 4 n)) (at + 4) (le32 u)) (at + 8) (le32 v)
      = set_at (pre @ ys @ zs) at (le_bytes 4 n @ le32 u @ le32 v)"
    using set_at_set_at [of at "le_bytes 4 n" "le32 u" "pre @ ys @ zs"]
      set_at_set_at [of at "le_bytes 4 n @ le32 u" "le32 v" "pre @ ys @ zs"] assms by simp
  then show ?thesis using set_at_append [of pre at ys "le_bytes 4 n @ le32 u @ le32 v" zs] assms by simp
qed

lemma write_step:
  assumes "length tags = length blocks" "i < length blocks"
  shows "set_at (set_at (set_at (set_at (packed_written tags blocks i) (block_offset blocks i) (blocks ! i))
      (24 + 12 * i) (le_bytes 4 (length (blocks ! i)))) (24 + 12 * i + 4) (le32 (tag_crc_half (tags ! i))))
      (24 + 12 * i + 8) (le32 (tag_fnv_half (tags ! i))) = packed_written tags blocks (Suc i)"
proof -
  let ?D = "directory_bytes (take i tags) (take i blocks)" and ?n = "length blocks"
  let ?rest = "replicate (length (concat (drop (Suc i) blocks))) (0 :: byte)" and ?C = "concat (take i blocks)"
  have "drop i blocks = blocks ! i # drop (Suc i) blocks" using assms(2) by (simp add: Cons_nth_drop_Suc)
  then have z: "replicate (length (concat (drop i blocks))) (0 :: byte) = replicate (length (blocks ! i)) 0 @ ?rest"
    by (simp add: replicate_add)
  obtain k where "?n - i = Suc k" using assms(2) by (metis Suc_diff_Suc)
  then have k: "?n - i = Suc k" "?n - Suc i = k" by simp_all
  have e: "replicate (12 * (?n - i)) (0 :: byte) = replicate 12 0 @ replicate (12 * (?n - Suc i)) 0"
    unfolding k by (simp flip: replicate_add)
  have w: "set_at (packed_written tags blocks i) (block_offset blocks i) (blocks ! i)
      = (replicate 24 0 @ ?D) @ replicate 12 0 @ replicate (12 * (?n - Suc i)) 0 @ ?C @ blocks ! i @ ?rest"
    using set_at_append [of "replicate 24 0 @ ?D @ replicate (12 * (?n - i)) 0 @ ?C" "block_offset blocks i"
        "replicate (length (blocks ! i)) 0" "blocks ! i" ?rest] assms
    by (simp add: packed_written_def z block_offset_def e)
  have "length (replicate 24 0 @ ?D) = 24 + 12 * i" using assms by simp
  moreover have "directory_bytes (take (Suc i) tags) (take (Suc i) blocks) = ?D @ packed_entry_bytes (tags ! i) (blocks ! i)"
    using assms by (simp add: directory_bytes_def take_Suc_conv_app_nth)
  ultimately show ?thesis unfolding w using assms
    by (subst set_entry) (simp_all add: packed_written_def packed_entry_bytes_def take_Suc_conv_app_nth)
qed

lemma set_zeros:
  "length pre = at \<Longrightarrow> length src \<le> k \<Longrightarrow>
    set_at (pre @ replicate k 0 @ rest) at src = (pre @ src) @ replicate (k - length src) 0 @ rest"
  by (simp add: set_at_def)

lemma write_header:
  assumes "length tags = length blocks"
  shows "write_packed_header (packed_written tags blocks (length blocks)) (block_offset blocks (length blocks)) (length blocks)
      (24 + 12 * length blocks) = packed_layout tags blocks"
proof -
  let ?R = "directory_bytes tags blocks @ concat blocks" and ?n = "length blocks"
  let ?f = "\<lambda>bytes. set_at (set_at (set_at (set_at (set_at bytes 8 (le_bytes 2 PACKED_BLOCK_FORMAT_VERSION))
    10 (le_bytes 2 PACKED_BLOCK_HEADER_LENGTH)) 12 (le_bytes 2 ?n)) 14 (le_bytes 2 0)) 16 (le_bytes 4 (length (concat blocks)))"
  have l: "block_offset blocks ?n - (24 + 12 * ?n) = length (concat blocks)" by (simp add: block_offset_def)
  have w: "packed_written tags blocks ?n = [] @ replicate 24 0 @ ?R" using assms by (simp add: packed_written_def)
  have m: "set_at (packed_written tags blocks ?n) 0 PACKED_MAGIC = (PACKED_MAGIC @ replicate 4 0) @ replicate 16 0 @ ?R"
    unfolding w by (subst set_zeros) (simp_all flip: replicate_add append_assoc, simp add: replicate_add [symmetric])
  let ?g = "le_bytes 2 PACKED_BLOCK_FORMAT_VERSION @ le_bytes 2 PACKED_BLOCK_HEADER_LENGTH @ le_bytes 2 ?n @ le_bytes 2 0
    @ le_bytes 4 (length (concat blocks))"
  have f: "?f (set_at (packed_written tags blocks ?n) 0 PACKED_MAGIC) = ((PACKED_MAGIC @ replicate 4 0) @ ?g) @ replicate 4 0 @ ?R"
    unfolding m by (simp only: set_zeros length_append packed_lengths length_replicate length_le_bytes; simp add: set_zeros)
  have "drop (24 + 12 * ?n) (((PACKED_MAGIC @ replicate 4 0) @ ?g) @ replicate 4 0 @ ?R) = concat blocks" using assms by simp
  then have g: "set_at (?f (set_at (packed_written tags blocks ?n) 0 PACKED_MAGIC)) 20
      (le32 (crc32 (drop (24 + 12 * ?n) (?f (set_at (packed_written tags blocks ?n) 0 PACKED_MAGIC)))))
    = PACKED_MAGIC @ replicate 4 0 @ packed_fields blocks @ ?R"
    unfolding f by (subst set_zeros) (simp_all add: packed_fields_def)
  have s: "slice_of (PACKED_MAGIC @ replicate 4 0 @ packed_fields blocks @ ?R) 8 (24 + 12 * ?n) = packed_fields blocks @ directory_bytes tags blocks"
    using assms by (simp add: slice_of_def)
  have "set_at (PACKED_MAGIC @ replicate 4 0 @ packed_fields blocks @ ?R) 4 (le32 (crc32 (packed_fields blocks @ directory_bytes tags blocks)))
      = packed_layout tags blocks"
    by (subst set_at_append) (simp_all add: packed_layout_def)
  then show ?thesis unfolding write_packed_header_def Let_def l g s .
qed

lemma tag_repeats_iff: "tag_repeats seen tags \<longleftrightarrow> \<not> (distinct tags \<and> seen \<inter> set tags = {})"
  by (induction seen tags rule: tag_repeats.induct) auto

lemma members_length_Inr: "members_length n cs = Inr k \<Longrightarrow> k = n + length (concat (map raw_block cs))"
proof (induction cs arbitrary: n)
  case (Cons c cs)
  from Cons.prems obtain k' where k: "encoded_raw_block_length (length (in_metadata_bytes c)) (length (in_payload c)) = Inr k'"
    "members_length (n + k') cs = Inr k" by (auto simp: bindR_eq_Inr)
  then have "k' = length (raw_block c)" by (auto simp: encoded_raw_block_length_def bindR_eq_Inr length_raw_block BLOCK_HEADER_LENGTH_def)
  then show ?case using Cons.IH [OF k(2)] by simp
qed simp

lemma map_result_Inr: "map_result f xs = Inr ys \<longleftrightarrow> length ys = length xs \<and> (\<forall>i < length xs. f (xs ! i) = Inr (ys ! i))"
proof (induction xs arbitrary: ys)
  case (Cons x xs)
  show ?case
  proof (cases ys)
    case (Cons y zs)
    then show ?thesis using Cons.IH [of zs] by (auto simp: bindR_eq_Inr nth_Cons split: nat.splits)
  qed (simp add: bindR_eq_Inr)
qed auto

text \<open>What the encoder returns: the layout of its members' raw blocks under their distinct tags.\<close>

lemma encode_packed_Inr:
  assumes "encode_packed_block stringify little_endian inputs = Inr (Some (bytes, members))"
  defines "tags \<equiv> map (\<lambda>input. packed_member_tag (input_member_id input) (input_column_id input)) inputs"
  obtains cs where "map_result (encode_member stringify little_endian) inputs = Inr cs" "distinct tags" "inputs \<noteq> []" "length inputs \<le> 1024"
    "bytes = packed_layout tags (map raw_block cs)"
    "\<forall>i < length cs. length (in_metadata_bytes (cs ! i)) \<le> MAX_BLOCK_METADATA_BYTE_LENGTH \<and> length (in_payload (cs ! i)) \<le> MAX_PHYSICAL_COLUMN_BYTE_LENGTH"
    "map (\<lambda>m. (pm_member_id m, pm_column_id m, pm_offset m, pm_length m)) members
      = map (\<lambda>i. (input_member_id (inputs ! i), input_column_id (inputs ! i), block_offset (map raw_block cs) i, length (raw_block (cs ! i)))) [0..<length inputs]"
proof -
  let ?n = "length inputs"
  have tagsn: "length tags = ?n" by (simp add: tags_def)
  obtain cs k at b where e: "map_result (encode_member stringify little_endian) inputs = Inr cs" "\<not> tag_repeats {} tags"
    "inputs \<noteq> []" "?n \<le> 1024" "members_length (24 + 12 * ?n) cs = Inr k"
    "for_each [0..<length cs] (write_member inputs tags cs) (replicate k 0, [], 24 + 12 * ?n) = Inr (b, members, at)"
    "bytes = write_packed_header b k ?n (24 + 12 * ?n)"
    using assms(1) unfolding encode_packed_block_def tags_def [symmetric] Let_def packed_defs
    by (auto simp: bindR_eq_Inr split: if_splits)
  define blocks where "blocks = map raw_block cs"
  have len: "length cs = ?n" using e(1) by (simp add: map_result_Inr)
  then have n: "length blocks = ?n" "length tags = length blocks" by (simp_all add: blocks_def tagsn)
  have k: "k = block_offset blocks (length blocks)"
    using members_length_Inr [OF e(5)] n by (simp add: block_offset_def blocks_def [symmetric])
  define ok where "ok j \<longleftrightarrow> length (in_metadata_bytes (cs ! j)) \<le> MAX_BLOCK_METADATA_BYTE_LENGTH
      \<and> length (in_payload (cs ! j)) \<le> MAX_PHYSICAL_COLUMN_BYTE_LENGTH" for j
  define place where "place i = (input_member_id (inputs ! i), input_column_id (inputs ! i), block_offset blocks i, length (raw_block (cs ! i)))" for i
  define I where "I i s \<longleftrightarrow> fst s = packed_written tags blocks i \<and> snd (snd s) = block_offset blocks i \<and> (\<forall>j < i. ok j)
      \<and> map (\<lambda>m. (pm_member_id m, pm_column_id m, pm_offset m, pm_length m)) (fst (snd s)) = map place [0..<i]"
    for i and s :: "byte list \<times> packed_member list \<times> nat"
  have step: "I (Suc i) s'" if i: "i < length cs" "I i s" "write_member inputs tags cs i s = Inr s'" for i s s'
  proof -
    obtain ms where s: "s = (packed_written tags blocks i, ms, block_offset blocks i)" using i(2) by (cases s) (auto simp: I_def)
    obtain out d where w: "write_raw_block (packed_written tags blocks i) (block_offset blocks i) (cs ! i) = Inr (out, d)"
      using i(3) by (auto simp: write_member_def s Let_def bindR_eq_Inr split: if_splits)
    note W = write_raw_block_Inr [OF w]
    have b: "raw_block (cs ! i) = blocks ! i" "i < length blocks" using i(1) n len by (simp_all add: blocks_def)
    have d: "BLOCK_HEADER_LENGTH + metadata_length d + stored_length d = length (blocks ! i)"
      unfolding W(2) raw_description_lengths b(1) [symmetric] by (simp add: length_raw_block BLOCK_HEADER_LENGTH_def)
    have "s' = (packed_written tags blocks (Suc i), ms @ [\<lparr>pm_member_id = input_member_id (inputs ! i), pm_column_id = input_column_id (inputs ! i),
        pm_offset = block_offset blocks i, pm_length = length (blocks ! i), pm_description = d\<rparr>], block_offset blocks (Suc i))"
      using i(3) d write_step [OF n(2) b(2)] b n len i(1)
      by (simp add: write_member_def s w Let_def W(1) packed_defs block_offset_Suc split: if_splits)
    then show ?thesis using i(2) W(4,5) b(1) by (auto simp: I_def s ok_def place_def less_Suc_eq)
  qed
  have "I (length cs) (b, members, at)"
  proof (rule for_each_inv [OF e(6)])
    have "replicate k 0 = packed_written tags blocks 0"
      unfolding k by (simp add: packed_written_def directory_bytes_def block_offset_def flip: replicate_add)
    then show "I 0 (replicate k 0, [], 24 + 12 * ?n)" using n by (simp add: I_def block_offset_def)
  qed (rule step)
  then have I: "b = packed_written tags blocks ?n" "\<forall>j < length cs. ok j"
    "map (\<lambda>m. (pm_member_id m, pm_column_id m, pm_offset m, pm_length m)) members = map place [0..<?n]"
    using len by (simp_all add: I_def)
  have "bytes = packed_layout tags blocks" using write_header [OF n(2)] e(7) I(1) k n by simp
  moreover have "distinct tags" using e(2) by (simp add: tag_repeats_iff)
  ultimately show ?thesis using that [OF e(1) _ e(3,4)] I(2,3) by (simp add: blocks_def ok_def place_def)
qed

text \<open>A member's block is the raw block \<open>encodeBlock\<close> writes for its column, and it verifies.\<close>

lemma member_block:
  assumes "encode_member stringify little_endian input = Inr c" "length (in_metadata_bytes c) \<le> MAX_BLOCK_METADATA_BYTE_LENGTH"
    "length (in_payload c) \<le> MAX_PHYSICAL_COLUMN_BYTE_LENGTH"
  shows "encode_block deflate stringify little_endian (input_type input) (input_values input) Raw = Inr (raw_block c)"
proof -
  obtain e where e: "assert_block_row_count (length (input_values input)) = Inr ()"
    "encode_column little_endian (input_type input) (input_values input) = Inr e"
    "c = \<lparr>in_type = input_type input, in_row_count = length (input_values input), in_null_count = enc_null_count e,
         in_payload = enc_bytes e, in_metadata_bytes = stringify (enc_metadata e), in_metadata = enc_metadata e\<rparr>"
    using assms(1) by (auto simp: encode_member_def bindR_eq_Inr)
  have d: "raw_description c\<lparr>block_compression := Raw, stored_checksum := crc32 (in_payload c),
      metadata_length := length (in_metadata_bytes c), stored_length := length (in_payload c)\<rparr> = raw_description c"
    by (simp add: raw_description_def)
  have "encode_validated_physical_block (compress_payload deflate) c Raw = Inr (raw_block c)"
    using assms(2,3) d by (simp add: encode_validated_physical_block_def assert_metadata_length_def assert_length_def
      assert_stored_block_payload_byte_length_def write_block_envelope_def raw_block_def set_at_whole Let_def)
  then show ?thesis using e(3) by (simp add: encode_block_def e(1,2))
qed

lemma member_verifies:
  assumes "encode_member stringify True input = Inr c" "length (in_metadata_bytes c) \<le> MAX_BLOCK_METADATA_BYTE_LENGTH"
    "length (in_payload c) \<le> MAX_PHYSICAL_COLUMN_BYTE_LENGTH" "js_dates (input_values input)" "json_metadata stringify parse_meta"
  shows "\<exists>d. verify_stored_block parse_meta (raw_block c) = Inr d"
proof -
  obtain e where e: "assert_block_row_count (length (input_values input)) = Inr ()"
    "encode_column True (input_type input) (input_values input) = Inr e"
    "c = \<lparr>in_type = input_type input, in_row_count = length (input_values input), in_null_count = enc_null_count e,
         in_payload = enc_bytes e, in_metadata_bytes = stringify (enc_metadata e), in_metadata = enc_metadata e\<rparr>"
    using assms(1) by (auto simp: encode_member_def bindR_eq_Inr)
  note s = encode_column_storable [OF e(2) assms(4)]
  have "finite_zone (enc_metadata e)" unfolding s(1) encoded_def encoded_column.simps
    by (rule zone_of_finite [of _ "input_type input"]) (use s(2) in \<open>simp add: storable_def\<close>)
  then obtain z where z: "parse_meta (in_metadata_bytes c) = Some z"
    using assms(5) unfolding json_metadata_def e(3) by auto
  define d where "d = raw_description c\<lparr>block_metadata := z\<rparr>"
  have b: "raw_block c = envelope_bytes d (in_metadata_bytes c) (in_payload c)"
    by (simp add: raw_block_def d_def envelope_metadata)
  have "null_cells (map cell_of_value (input_values input)) \<le> length (input_values input)"
    by (simp add: null_cells_def)
  then have sz: "sized d (in_metadata_bytes c) (in_payload c)"
    using assms(2,3) e(1) s(1) by (simp add: sized_def d_def raw_description_def e(3) encoded_def assert_block_row_count_def)
  have "inspect_block parse_meta (raw_block c) = Inr d"
    unfolding b by (rule inspect_envelope, rule sz) (simp_all add: z d_def raw_description_def)
  then show ?thesis
    using verify_envelope [of parse_meta d "in_metadata_bytes c" "in_payload c"] b by (simp add: d_def raw_description_def)
qed

subsection \<open>Properties of packed blocks\<close>

text \<open>
  Property C34: a packed block of less than 4 GiB passes \<open>verifyPackedBlock\<close>, which returns one directory entry per input, and
  the bytes cut out under each input's tag are exactly the raw block that \<open>encodeBlock\<close> writes for its column; the
  member list the encoder returns names each input at its place.
\<close>

theorem packed_roundtrip:
  assumes "encode_packed_block stringify True inputs = Inr (Some (bytes, members))" "length bytes < 2 ^ 32"
    "\<forall>input \<in> set inputs. js_dates (input_values input)" "json_metadata stringify parse_meta"
  shows "\<exists>d. verify_packed_block parse_meta bytes = Inr d \<and> member_count d = length inputs \<and> length members = length inputs
    \<and> (\<forall>i < length inputs. \<exists>block.
         encode_block deflate stringify True (input_type (inputs ! i)) (input_values (inputs ! i)) Raw = Inr block
         \<and> packed_member_bytes bytes d (packed_member_tag (input_member_id (inputs ! i)) (input_column_id (inputs ! i))) = Inr block
         \<and> slice_of bytes (pm_offset (members ! i)) (pm_offset (members ! i) + pm_length (members ! i)) = block)"
proof -
  let ?tags = "map (\<lambda>input. packed_member_tag (input_member_id input) (input_column_id input)) inputs" and ?n = "length inputs"
  obtain cs where e: "map_result (encode_member stringify True) inputs = Inr cs" "distinct ?tags" "inputs \<noteq> []" "?n \<le> 1024"
    "bytes = packed_layout ?tags (map raw_block cs)"
    "\<forall>i < length cs. length (in_metadata_bytes (cs ! i)) \<le> MAX_BLOCK_METADATA_BYTE_LENGTH \<and> length (in_payload (cs ! i)) \<le> MAX_PHYSICAL_COLUMN_BYTE_LENGTH"
    "map (\<lambda>m. (pm_member_id m, pm_column_id m, pm_offset m, pm_length m)) members
      = map (\<lambda>i. (input_member_id (inputs ! i), input_column_id (inputs ! i), block_offset (map raw_block cs) i, length (raw_block (cs ! i)))) [0..<?n]"
    by (rule encode_packed_Inr [OF assms(1)])
  let ?blocks = "map raw_block cs"
  have m: "length cs = ?n" "i < ?n \<Longrightarrow> encode_member stringify True (inputs ! i) = Inr (cs ! i)" for i
    using e(1) by (simp_all add: map_result_Inr)
  have lens: "length ?tags = length ?blocks" using m(1) by simp
  let ?d = "layout_directory ?tags ?blocks (length ?blocks)"
  have "\<forall>b \<in> set ?blocks. \<exists>d. verify_stored_block parse_meta b = Inr d"
  proof
    fix b assume "b \<in> set ?blocks"
    then obtain i where i: "i < length cs" "b = raw_block (cs ! i)" by (auto simp: in_set_conv_nth)
    show "\<exists>d. verify_stored_block parse_meta b = Inr d" unfolding i(2)
      by (rule member_verifies [OF m(2) _ _ _ assms(4)]) (use i(1) m(1) e(6) assms(3) in simp_all)
  qed
  then have v: "verify_packed_block parse_meta bytes = Inr ?d"
    unfolding e(5) by (intro verify_layout) (use lens e m(1) assms(2) in \<open>auto simp: length_raw_block\<close>)
  have "length (map (\<lambda>m. (pm_member_id m, pm_column_id m, pm_offset m, pm_length m)) members) = ?n" unfolding e(7) by simp
  then have k: "length members = ?n" by simp
  have "\<exists>block. encode_block deflate stringify True (input_type (inputs ! i)) (input_values (inputs ! i)) Raw = Inr block
         \<and> packed_member_bytes bytes ?d (?tags ! i) = Inr block
         \<and> slice_of bytes (pm_offset (members ! i)) (pm_offset (members ! i) + pm_length (members ! i)) = block" if i: "i < ?n" for i
  proof -
    have "pm_offset (members ! i) = block_offset ?blocks i" "pm_length (members ! i) = length (raw_block (cs ! i))"
      using arg_cong [OF e(7), of "\<lambda>xs. xs ! i"] i k by simp_all
    then show ?thesis
      using member_block [OF m(2) [OF i]] e(6) i m(1) layout_member_bytes [OF lens e(2), of i] layout_member [OF lens, of i] e(5)
      by (intro exI [of _ "raw_block (cs ! i)"]) simp
  qed
  then show ?thesis using v k m(1) by (intro exI [of _ ?d]) (auto simp: layout_directory_def)
qed

text \<open>
  Once a packed block verifies, no burst of damage of up to four bytes inside its members is accepted: \<open>verifyPackedBlock\<close>
  throws before a damaged member can be read.
\<close>

theorem damaged_members_refused:
  assumes "verify_packed_block parse_meta (us @ v @ zs) = Inr d" "24 + 12 * member_count d \<le> length us"
    "length v \<le> 4" "length v' = length v" "v' \<noteq> v"
  shows "\<exists>e. verify_packed_block parse_meta (us @ v' @ zs) = Inl e"
proof (rule ccontr)
  assume "\<not> ?thesis"
  then obtain d' where d': "verify_packed_block parse_meta (us @ v' @ zs) = Inr d'"
    by (cases "verify_packed_block parse_meta (us @ v' @ zs)") auto
  have ver: "inspect_packed_block b = Inr x \<and> crc32 (drop (24 + 12 * member_count x) b) = get32 b 20"
    if "verify_packed_block parse_meta b = Inr x" for b x
    using that by (auto simp: verify_packed_block_def bindR_eq_Inr Let_def packed_defs split: if_splits)
  have us: "24 \<le> length us" using assms(2) by simp
  have t: "take 24 (us @ v' @ zs) = take 24 (us @ v @ zs)" using us by simp
  have c: "member_count d' = member_count d"
    using inspect_packed_Inr(1) [OF conjunct1 [OF ver [OF d']]] inspect_packed_Inr(1) [OF conjunct1 [OF ver [OF assms(1)]]]
      get_le_take [OF _ t, of 12 2] by simp
  have g: "get32 (us @ v' @ zs) 20 = get32 (us @ v @ zs) 20"
    using get_le_take [OF _ t, of 20 4] by (simp add: get32_def)
  have "drop (24 + 12 * member_count d) (us @ w @ zs) = drop (24 + 12 * member_count d) us @ w @ zs" for w
    using assms(2) by simp
  then have "crc32 (drop (24 + 12 * member_count d) us @ v' @ zs) = crc32 (drop (24 + 12 * member_count d) us @ v @ zs)"
    using conjunct2 [OF ver [OF d']] conjunct2 [OF ver [OF assms(1)]] unfolding c g by metis
  moreover have "crc32 (drop (24 + 12 * member_count d) us @ v' @ zs) \<noteq> crc32 (drop (24 + 12 * member_count d) us @ v @ zs)"
    by (rule burst_detected) (use assms(3-5) in simp_all)
  ultimately show False by contradiction
qed

subsection \<open>A small packed block\<close>

definition demo_inputs :: "packed_input list" where
  "demo_inputs = [\<lparr>input_member_id = [109, 0, 97], input_column_id = [97], input_type = T_boolean, input_values = [V_bool True, V_null]\<rparr>]"

lemma demo_packed:
  "\<exists>bytes members d. encode_packed_block demo_stringify True demo_inputs = Inr (Some (bytes, members)) \<and> length bytes = 82
    \<and> verify_packed_block demo_parse bytes = Inr d \<and> member_count d = 1"
proof -
  let ?input = "[V_bool True, V_null]"
  have len: "length (encode_cells T_boolean (map cell_of_value ?input)) = 2"
    by (simp add: column_bytes length_payload value_length_def bitmap_length_def)
  have "\<forall>v \<in> set ?input. value_ok T_boolean v" by (simp add: value_ok_def)
  then have e: "encode_column True T_boolean ?input = Inr (encoded T_boolean ?input)"
    by (rule encode_column_ok) (simp_all add: block_limits value_length_def bitmap_length_def texts_to_def)
  define c where "c = \<lparr>in_type = T_boolean, in_row_count = 2, in_null_count = enc_null_count (encoded T_boolean ?input),
    in_payload = enc_bytes (encoded T_boolean ?input), in_metadata_bytes = [], in_metadata = enc_metadata (encoded T_boolean ?input)\<rparr>"
  have k: "length (in_payload c) = 2" "in_metadata_bytes c = []" using len by (simp_all add: c_def encoded_def)
  have m: "encode_member demo_stringify True (demo_inputs ! 0) = Inr c"
    by (simp add: encode_member_def demo_inputs_def e c_def assert_block_row_count_def block_limits encoded_def demo_stringify_def
      zone_of_def cell_of_value_def zone_step_def zone_map_metadata_def no_values_def f64_equal_def numeral_2_eq_2)
  have "\<exists>bytes members. encode_packed_block demo_stringify True demo_inputs = Inr (Some (bytes, members))"
    using m k by (simp add: encode_packed_block_def demo_inputs_def packed_defs write_member_def write_raw_block_def
      encoded_raw_block_length_def assert_metadata_length_def assert_stored_block_payload_byte_length_def block_limits Let_def)
  then obtain bytes members where b: "encode_packed_block demo_stringify True demo_inputs = Inr (Some (bytes, members))" by blast
  obtain cs where cs: "map_result (encode_member demo_stringify True) demo_inputs = Inr cs"
    "bytes = packed_layout (map (\<lambda>input. packed_member_tag (input_member_id input) (input_column_id input)) demo_inputs) (map raw_block cs)"
    by (rule encode_packed_Inr [OF b])
  have "cs = [c]" using cs(1) m by (simp add: demo_inputs_def)
  then have bytes: "bytes = packed_layout [packed_member_tag [109, 0, 97] [97]] [raw_block c]" using cs(2) by (simp add: demo_inputs_def)
  then have "length bytes = 82" using k by (simp add: length_layout block_offset_def length_raw_block)
  moreover have "\<exists>d. verify_stored_block demo_parse (raw_block c) = Inr d"
    by (rule member_verifies [OF m _ _ _ demo_metadata]) (use k in \<open>simp_all add: block_limits demo_inputs_def js_dates_def\<close>)
  then have "verify_packed_block demo_parse bytes = Inr (layout_directory [packed_member_tag [109, 0, 97] [97]] [raw_block c] 1)"
    unfolding bytes using verify_layout [of "[packed_member_tag [109, 0, 97] [97]]" "[raw_block c]" demo_parse] calculation bytes
    by (simp add: length_raw_block)
  ultimately show ?thesis using b by (simp add: layout_directory_def)
qed

lemma packed_roundtrip_witness:
  "\<exists>bytes members d. encode_packed_block demo_stringify True demo_inputs = Inr (Some (bytes, members))
    \<and> verify_packed_block demo_parse bytes = Inr d \<and> member_count d = 1"
proof -
  obtain bytes members where b: "encode_packed_block demo_stringify True demo_inputs = Inr (Some (bytes, members))" "length bytes = 82"
    using demo_packed by blast
  have "\<forall>input \<in> set demo_inputs. js_dates (input_values input)" "length bytes < 2 ^ 32"
    using b(2) by (simp_all add: demo_inputs_def js_dates_def)
  from packed_roundtrip [OF b(1) this(2,1) demo_metadata] b(1) show ?thesis by (fastforce simp: demo_inputs_def)
qed

lemma damaged_members_refused_witness:
  "\<exists>us b zs d. verify_packed_block demo_parse (us @ [b] @ zs) = Inr d \<and> (\<exists>e. verify_packed_block demo_parse (us @ [b + 1] @ zs) = Inl e)"
proof -
  obtain bytes d where b: "length bytes = 82" "verify_packed_block demo_parse bytes = Inr d" "member_count d = 1"
    using demo_packed by blast
  have s: "bytes = take 40 bytes @ [bytes ! 40] @ drop 41 bytes" using b(1) id_take_nth_drop [of 40 bytes] by simp
  then have v: "verify_packed_block demo_parse (take 40 bytes @ [bytes ! 40] @ drop 41 bytes) = Inr d" using b(2) by simp
  have "\<exists>e. verify_packed_block demo_parse (take 40 bytes @ [bytes ! 40 + 1] @ drop 41 bytes) = Inl e"
    by (rule damaged_members_refused [OF v]) (use b in simp_all)
  with v show ?thesis by blast
qed

end
