(* ===== verification/Reclaim.thy ===== *)
theory Reclaim
  imports Prelude
begin

text \<open>
  \<open>next/storage/reclaim.ts\<close>: \<open>ReclaimLedger\<close>, which decides when retired items may be reused. The
  pins of one generation are the insertion-ordered \<open>Map\<close> of the source, as a list of pin number,
  label and time; the outer \<open>Map\<close> is the list of (generation, pins). A pin's closure variable
  \<open>released\<close> is membership in \<open>released_pins\<close>; pin numbers stand for object identity. The callback
  \<open>onReusable\<close> is the list of items an operation hands over, next to the new state.
\<close>

record root_pin =
  pin_id :: nat
  pin_generation :: nat
  pin_label :: string

record 'a ledger =
  generation :: nat
  pins :: "(nat \<times> (root_pin \<times> int) list) list"
  waiting :: "(nat \<times> 'a list) list"
  released_pins :: "nat list"
  next_pin :: nat

definition new_ledger :: "'a ledger" where
  "new_ledger = \<lparr>generation = 0, pins = [], waiting = [], released_pins = [], next_pin = 0\<rparr>"

subsection \<open>Observers\<close>

definition pin_count :: "'a ledger \<Rightarrow> nat" where
  "pin_count l = foldl (\<lambda>count entry. count + length (snd entry)) 0 (pins l)"

definition waiting_count :: "'a ledger \<Rightarrow> nat" where
  "waiting_count l = foldl (\<lambda>count entry. count + length (snd entry)) 0 (waiting l)"

fun oldest_of :: "nat option \<Rightarrow> nat list \<Rightarrow> nat option" where
  "oldest_of oldest [] = oldest"
| "oldest_of oldest (g # rest) =
     oldest_of (case oldest of None \<Rightarrow> Some g | Some h \<Rightarrow> if g < h then Some g else Some h) rest"

definition oldest_pinned :: "'a ledger \<Rightarrow> nat option" where
  "oldest_pinned l = oldest_of None (map fst (pins l))"

fun oldest_pin_of :: "(string \<times> int) option \<Rightarrow> (root_pin \<times> int) list \<Rightarrow> (string \<times> int) option" where
  "oldest_pin_of oldest [] = oldest"
| "oldest_pin_of oldest ((p, since) # rest) =
     oldest_pin_of (case oldest of None \<Rightarrow> Some (pin_label p, since)
       | Some (_, s) \<Rightarrow> if since < s then Some (pin_label p, since) else oldest) rest"

definition oldest_pin :: "int \<Rightarrow> 'a ledger \<Rightarrow> (string \<times> int) option" where
  "oldest_pin now l =
     (case oldest_pin_of None (concat (map snd (pins l))) of
        None \<Rightarrow> None | Some (label, since) \<Rightarrow> Some (label, now - since))"

subsection \<open>Operations\<close>

text \<open>The scan of \<open>#drain\<close>: how many entries of the queue are reusable, up to the first that is not.\<close>

fun reusable_prefix :: "nat \<Rightarrow> nat option \<Rightarrow> (nat \<times> 'a list) list \<Rightarrow> nat" where
  "reusable_prefix current oldest [] = 0"
| "reusable_prefix current oldest ((g, items) # rest) =
     (if current < g + 1 \<or> (case oldest of None \<Rightarrow> False | Some h \<Rightarrow> h < g) then 0
      else Suc (reusable_prefix current oldest rest))"

definition drain :: "'a ledger \<Rightarrow> 'a ledger \<times> 'a list" where
  "drain l =
     (let reusable = reusable_prefix (generation l) (oldest_pinned l) (waiting l) in
      if reusable = 0 then (l, [])
      else (l\<lparr>waiting := drop reusable (waiting l)\<rparr>, concat (map snd (take reusable (waiting l)))))"

definition pin :: "string \<Rightarrow> int \<Rightarrow> 'a ledger \<Rightarrow> 'a ledger \<times> root_pin" where
  "pin label now l =
     (let p = \<lparr>pin_id = next_pin l, pin_generation = generation l, pin_label = label\<rparr>;
          held = (case map_of (pins l) (generation l) of None \<Rightarrow> pins l @ [(generation l, [])] | Some _ \<Rightarrow> pins l)
      in (l\<lparr>pins := map (\<lambda>(g, ps). if g = generation l then (g, ps @ [(p, now)]) else (g, ps)) held,
            next_pin := Suc (next_pin l)\<rparr>, p))"

definition pin_released :: "'a ledger \<Rightarrow> root_pin \<Rightarrow> bool" where
  "pin_released l p \<longleftrightarrow> pin_id p \<in> set (released_pins l)"

definition release :: "root_pin \<Rightarrow> 'a ledger \<Rightarrow> 'a ledger \<times> 'a list" where
  "release p l =
     (if pin_released l p then (l, [])
      else
        let l1 = l\<lparr>released_pins := pin_id p # released_pins l,
              pins := map (\<lambda>(g, ps). if g = pin_generation p
                then (g, filter (\<lambda>q. pin_id (fst q) \<noteq> pin_id p) ps) else (g, ps)) (pins l)\<rparr>
        in if (case map_of (pins l1) (pin_generation p) of None \<Rightarrow> False | Some ps \<Rightarrow> ps \<noteq> []) then (l1, [])
           else drain (l1\<lparr>pins := filter (\<lambda>e. fst e \<noteq> pin_generation p) (pins l1)\<rparr>))"

definition retire_at_open :: "'a list \<Rightarrow> 'a ledger \<Rightarrow> 'a ledger result" where
  "retire_at_open items l =
     (if generation l \<noteq> 0 then Inl (TypeError ''retireAtOpen after a publish'')
      else Inr (if items = [] then l else l\<lparr>waiting := waiting l @ [(0, items)]\<rparr>))"

definition advance :: "'a list \<Rightarrow> 'a ledger \<Rightarrow> 'a ledger \<times> 'a list" where
  "advance retired l =
     (let l1 = l\<lparr>generation := generation l + 1\<rparr> in
      drain (if retired = [] then l1 else l1\<lparr>waiting := waiting l1 @ [(generation l1, retired)]\<rparr>))"

subsection \<open>Runs\<close>

datatype 'a op = Pin string int | Release root_pin | Retire_at_open "'a list" | Advance "'a list"

text \<open>One operation of a client: the new state, the items handed over, and the items retired.\<close>

fun op_step :: "'a op \<Rightarrow> 'a ledger \<Rightarrow> 'a ledger \<times> 'a list \<times> 'a list" where
  "op_step (Pin label now) l = (fst (pin label now l), [], [])"
| "op_step (Release p) l = (case release p l of (l', out) \<Rightarrow> (l', out, []))"
| "op_step (Retire_at_open items) l =
     (case retire_at_open items l of Inl e \<Rightarrow> (l, [], []) | Inr l' \<Rightarrow> (l', [], items))"
| "op_step (Advance items) l = (case advance items l of (l', out) \<Rightarrow> (l', out, items))"

fun run :: "'a op list \<Rightarrow> 'a ledger \<Rightarrow> 'a ledger \<times> 'a list \<times> 'a list" where
  "run [] l = (l, [], [])"
| "run (a # as) l = (case op_step a l of (l1, out, ret) \<Rightarrow>
     (case run as l1 of (l2, outs, rets) \<Rightarrow> (l2, out @ outs, ret @ rets)))"

text \<open>An entry retired by generation \<open>g\<close> is due once \<open>g + 1\<close> is durable and no older pin is left.\<close>

definition due :: "'a ledger \<Rightarrow> nat \<Rightarrow> bool" where
  "due l g \<longleftrightarrow> g < generation l \<and> (\<forall>h \<in> fst ` set (pins l). g \<le> h)"

definition ledger_ok :: "'a ledger \<Rightarrow> bool" where
  "ledger_ok l \<longleftrightarrow> sorted (map fst (waiting l)) \<and> (\<forall>g \<in> fst ` set (waiting l). g \<le> generation l)
     \<and> distinct (map fst (pins l)) \<and> (\<forall>e \<in> set (pins l). fst e \<le> generation l \<and> snd e \<noteq> [])
     \<and> (\<forall>g \<in> fst ` set (waiting l). \<not> due l g)"

definition waiting_items :: "'a ledger \<Rightarrow> 'a list" where
  "waiting_items l = concat (map snd (waiting l))"

lemma oldest_of_less:
  "(case oldest_of (Some h) gs of None \<Rightarrow> False | Some m \<Rightarrow> m < g) \<longleftrightarrow> (\<exists>x \<in> set (h # gs). x < g)"
  by (induction gs arbitrary: h) auto

lemma oldest_pinned_less: "(case oldest_pinned l of None \<Rightarrow> False | Some h \<Rightarrow> h < g) \<longleftrightarrow> (\<exists>h \<in> fst ` set (pins l). h < g)"
  using oldest_of_less by (cases "pins l") (auto simp: oldest_pinned_def)

lemma bex_less_iff: "(\<exists>h \<in> S. h < g) \<longleftrightarrow> \<not> (\<forall>h \<in> S. g \<le> (h :: nat))"
  by (meson not_le)

text \<open>On a sorted queue the prefix is every due entry.\<close>

lemma reusable_prefix_due:
  "sorted (map fst ws) \<Longrightarrow>
   take (reusable_prefix (generation l) (oldest_pinned l) ws) ws = filter (\<lambda>e. due l (fst e)) ws
   \<and> drop (reusable_prefix (generation l) (oldest_pinned l) ws) ws = filter (\<lambda>e. \<not> due l (fst e)) ws"
proof (induction ws)
  case (Cons w ws)
  obtain g items where w: "w = (g, items)" by (cases w)
  have stop: "(generation l < g + 1 \<or> (case oldest_pinned l of None \<Rightarrow> False | Some h \<Rightarrow> h < g)) \<longleftrightarrow> \<not> due l g"
    unfolding oldest_pinned_less due_def bex_less_iff by auto
  show ?case
  proof (cases "due l g")
    case True
    then show ?thesis using Cons stop by (simp add: w)
  next
    case False
    have "\<not> due l (fst e)" if "e \<in> set ws" for e
    proof -
      have "g \<le> fst e" using Cons.prems that by (auto simp: w)
      then show ?thesis using False unfolding due_def by (meson order.trans le_less_trans)
    qed
    then have "filter (\<lambda>e. due l (fst e)) ws = []" "filter (\<lambda>e. \<not> due l (fst e)) ws = ws"
      by (simp_all add: filter_empty_conv filter_id_conv)
    then show ?thesis using False stop by (simp add: w)
  qed
qed simp

lemma drain_due:
  assumes "sorted (map fst (waiting l))"
  shows "drain l = (l\<lparr>waiting := filter (\<lambda>e. \<not> due l (fst e)) (waiting l)\<rparr>,
    concat (map snd (filter (\<lambda>e. due l (fst e)) (waiting l))))"
proof -
  note R = reusable_prefix_due [OF assms, of l]
  show ?thesis
  proof (cases "reusable_prefix (generation l) (oldest_pinned l) (waiting l) = 0")
    case True
    then show ?thesis using R by (simp add: drain_def)
  next
    case False
    then show ?thesis using R by (simp add: drain_def Let_def)
  qed
qed

lemma filter_sorted_prefix:
  fixes ws :: "(nat \<times> 'a list) list"
  shows "sorted (map fst ws) \<Longrightarrow> ws = filter (\<lambda>e. due l (fst e)) ws @ filter (\<lambda>e. \<not> due l (fst e)) ws"
  using reusable_prefix_due [of ws l] by (metis append_take_drop_id)

lemma drain_ok:
  assumes "sorted (map fst (waiting l))" "\<forall>g \<in> fst ` set (waiting l). g \<le> generation l"
    "distinct (map fst (pins l))" "\<forall>e \<in> set (pins l). fst e \<le> generation l \<and> snd e \<noteq> []"
  shows "ledger_ok (fst (drain l))" "snd (drain l) @ waiting_items (fst (drain l)) = waiting_items l"
    "generation (fst (drain l)) = generation l" "pins (fst (drain l)) = pins l"
proof -
  note D = drain_due [OF assms(1)]
  have "sorted (map fst (filter (\<lambda>e. \<not> due l (fst e)) (waiting l)))"
    using assms(1) by (rule sorted_filter)
  then show "ledger_ok (fst (drain l))"
    using assms by (auto simp: D ledger_ok_def due_def)
  show "snd (drain l) @ waiting_items (fst (drain l)) = waiting_items l"
    using arg_cong [OF filter_sorted_prefix [OF assms(1)], of "\<lambda>ws. concat (map snd ws)" l]
    by (simp add: D waiting_items_def)
  show "generation (fst (drain l)) = generation l" "pins (fst (drain l)) = pins l" by (simp_all add: D)
qed

text \<open>Dropping one pin of a generation.\<close>

definition unpin :: "root_pin \<Rightarrow> 'a ledger \<Rightarrow> 'a ledger" where
  "unpin p l = l\<lparr>released_pins := pin_id p # released_pins l,
     pins := map (\<lambda>(g, ps). if g = pin_generation p
       then (g, filter (\<lambda>q. pin_id (fst q) \<noteq> pin_id p) ps) else (g, ps)) (pins l)\<rparr>"

lemma map_of_nonempty:
  "distinct (map fst xs) \<Longrightarrow> (case map_of xs g of None \<Rightarrow> False | Some ps \<Rightarrow> ps \<noteq> []) \<longleftrightarrow> (\<exists>ps. (g, ps) \<in> set xs \<and> ps \<noteq> [])"
proof (cases "map_of xs g")
  case None
  then have "g \<notin> fst ` set xs" by (simp add: map_of_eq_None_iff)
  then have "(g, qs) \<notin> set xs" for qs by force
  then show ?thesis using None by simp
next
  case (Some ps)
  assume "distinct (map fst xs)"
  then have "(g, qs) \<in> set xs \<longleftrightarrow> qs = ps" for qs using Some map_of_eq_Some_iff [of xs g qs] by auto
  then show ?thesis using Some by auto
qed

lemma keys_map: "map fst (map (\<lambda>(g, ps). if P g then (g, f ps) else (g, ps)) xs) = map fst xs"
  by (induction xs) auto

lemma release_ok:
  assumes ok: "ledger_ok l"
  shows "ledger_ok (fst (release p l))" "snd (release p l) @ waiting_items (fst (release p l)) = waiting_items l"
    "generation (fst (release p l)) = generation l"
proof -
  define l1 where "l1 = unpin p l"
  have "pins l1 = map (\<lambda>(g, ps). if g = pin_generation p
      then (g, filter (\<lambda>q. pin_id (fst q) \<noteq> pin_id p) ps) else (g, ps)) (pins l)"
    by (simp add: l1_def unpin_def)
  then have keys: "map fst (pins l1) = map fst (pins l)" by (simp only: keys_map)
  have dist: "distinct (map fst (pins l1))" using ok by (simp only: keys ledger_ok_def)
  have other: "e \<in> set (pins l)" if "e \<in> set (pins l1)" "fst e \<noteq> pin_generation p" for e
    using that by (auto simp: l1_def unpin_def split: if_splits)
  have bound: "fst e \<le> generation l" if "e \<in> set (pins l1)" for e
  proof -
    have "fst e \<in> set (map fst (pins l1))" using that by simp
    then have "fst e \<in> set (map fst (pins l))" by (simp only: keys)
    then show ?thesis using ok by (auto simp: ledger_ok_def)
  qed
  have w: "waiting l1 = waiting l" "generation l1 = generation l" by (simp_all add: l1_def unpin_def)
  have keyset: "fst ` set (pins l1) = fst ` set (pins l)" using arg_cong [OF keys, of set] by simp
  have g: "ledger_ok (fst (release p l)) \<and> snd (release p l) @ waiting_items (fst (release p l)) = waiting_items l
    \<and> generation (fst (release p l)) = generation l"
  proof (cases "pin_released l p")
    case True
    then show ?thesis using ok by (simp add: release_def)
  next
    case False
    show ?thesis
    proof (cases "case map_of (pins l1) (pin_generation p) of None \<Rightarrow> False | Some ps \<Rightarrow> ps \<noteq> []")
      case True
      then have r: "release p l = (l1, [])" using False by (simp add: release_def l1_def unpin_def Let_def)
      obtain ps where ps: "(pin_generation p, ps) \<in> set (pins l1)" "ps \<noteq> []"
        using True map_of_nonempty [OF dist] by blast
      have ne: "snd e \<noteq> []" if "e \<in> set (pins l1)" for e
      proof (cases "fst e = pin_generation p")
        case True
        then have "snd e = ps" using eq_key_imp_eq_value [OF dist ps(1)] that by (metis prod.collapse)
        then show ?thesis using ps by simp
      next
        case False
        then show ?thesis using other [OF that] ok by (auto simp: ledger_ok_def)
      qed
      have "due l1 g \<longleftrightarrow> due l g" for g
        unfolding due_def w keyset ..
      then have "ledger_ok l1" using ok dist bound ne by (simp add: ledger_ok_def w)
      then show ?thesis using r by (simp add: waiting_items_def w)
    next
      case no: False
      let ?l2 = "l1\<lparr>pins := filter (\<lambda>e. fst e \<noteq> pin_generation p) (pins l1)\<rparr>"
      have r: "release p l = drain ?l2" using False no by (simp add: release_def l1_def unpin_def Let_def)
      have A1: "distinct (map fst (pins ?l2))" using dist by (simp add: distinct_map_filter)
      have A2: "\<forall>e \<in> set (pins ?l2). fst e \<le> generation ?l2 \<and> snd e \<noteq> []"
        using other bound ok by (auto simp: ledger_ok_def w)
      have A3: "sorted (map fst (waiting ?l2))" "\<forall>g \<in> fst ` set (waiting ?l2). g \<le> generation ?l2"
        using ok by (simp_all add: ledger_ok_def w)
      show ?thesis using drain_ok [OF A3 A1 A2] unfolding r by (simp add: waiting_items_def w)
    qed
  qed
  then show "ledger_ok (fst (release p l))" "snd (release p l) @ waiting_items (fst (release p l)) = waiting_items l"
    "generation (fst (release p l)) = generation l" by simp_all
qed

lemma pin_ok:
  assumes ok: "ledger_ok l"
  shows "ledger_ok (fst (pin label now l))" "waiting (fst (pin label now l)) = waiting l"
    "generation (fst (pin label now l)) = generation l"
proof -
  let ?g = "generation l"
  define held where "held = (case map_of (pins l) ?g of None \<Rightarrow> pins l @ [(?g, [])] | Some _ \<Rightarrow> pins l)"
  define p where "p = \<lparr>pin_id = next_pin l, pin_generation = ?g, pin_label = label\<rparr>"
  define l1 where "l1 = fst (pin label now l)"
  have f: "pins l1 = map (\<lambda>(g, ps). if g = ?g then (g, ps @ [(p, now)]) else (g, ps)) held"
    "waiting l1 = waiting l" "generation l1 = generation l"
    unfolding l1_def pin_def held_def p_def Let_def by simp_all
  have keys: "map fst (pins l1) = map fst held" unfolding f by (rule keys_map)
  have hd: "distinct (map fst held)" "fst ` set (pins l) \<subseteq> fst ` set held" "fst ` set held \<subseteq> insert ?g (fst ` set (pins l))"
    using ok by (auto simp: held_def ledger_ok_def split: option.splits dest!: map_of_eq_None_iff [THEN iffD1])
  have ne: "e \<in> set held \<Longrightarrow> fst e \<noteq> ?g \<Longrightarrow> snd e \<noteq> []" for e
    using ok by (auto simp: held_def ledger_ok_def split: option.splits)
  have set: "fst ` set (pins l1) = fst ` set held" using arg_cong [OF keys, of set] by simp
  have nd: "\<not> due l1 g" if "\<not> due l g" for g
    using that hd(2) unfolding due_def set f(3) by blast
  have le: "fst e \<le> ?g" if "e \<in> set (pins l1)" for e
  proof -
    have "fst e \<in> insert ?g (fst ` set (pins l))" using that hd(3) set by blast
    then show ?thesis using ok by (auto simp: ledger_ok_def)
  qed
  have ne1: "snd e \<noteq> []" if "e \<in> set (pins l1)" for e
    using that ne unfolding f(1) by (auto split: if_splits)
  have "distinct (map fst (pins l1))" using hd(1) keys by simp
  then show "ledger_ok (fst (pin label now l))" unfolding l1_def [symmetric]
    using ok nd le ne1 by (simp add: ledger_ok_def f(2,3))
  show "waiting (fst (pin label now l)) = waiting l" "generation (fst (pin label now l)) = generation l"
    using f by (simp_all add: l1_def)
qed

lemma advance_ok:
  assumes ok: "ledger_ok l"
  shows "ledger_ok (fst (advance items l))"
    "snd (advance items l) @ waiting_items (fst (advance items l)) = waiting_items l @ items"
    "generation (fst (advance items l)) = generation l + 1"
proof -
  define l1 where "l1 = (if items = [] then l\<lparr>generation := generation l + 1\<rparr>
    else l\<lparr>generation := generation l + 1, waiting := waiting l @ [(generation l + 1, items)]\<rparr>)"
  have a: "advance items l = drain l1" by (simp add: advance_def l1_def)
  have w: "waiting_items l1 = waiting_items l @ items" by (simp add: l1_def waiting_items_def)
  have g: "generation l1 = generation l + 1" "pins l1 = pins l" by (simp_all add: l1_def)
  have "sorted (map fst (waiting l1))" "\<forall>g \<in> fst ` set (waiting l1). g \<le> generation l1"
    using ok by (auto simp: l1_def ledger_ok_def sorted_append le_SucI)
  moreover have "distinct (map fst (pins l1))" "\<forall>e \<in> set (pins l1). fst e \<le> generation l1 \<and> snd e \<noteq> []"
    using ok by (auto simp: g ledger_ok_def le_SucI)
  ultimately show "ledger_ok (fst (advance items l))"
    "snd (advance items l) @ waiting_items (fst (advance items l)) = waiting_items l @ items"
    "generation (fst (advance items l)) = generation l + 1"
    using drain_ok [of l1] unfolding a by (simp_all add: w g)
qed

lemma retire_ok:
  assumes ok: "ledger_ok l" and r: "retire_at_open items l = Inr l'"
  shows "ledger_ok l'" "waiting_items l' = waiting_items l @ items"
proof -
  have g: "generation l = 0" using r by (auto simp: retire_at_open_def split: if_splits)
  have l': "l' = (if items = [] then l else l\<lparr>waiting := waiting l @ [(0, items)]\<rparr>)"
    using r g by (simp add: retire_at_open_def)
  show "waiting_items l' = waiting_items l @ items" by (simp add: l' waiting_items_def)
  show "ledger_ok l'" using ok g by (auto simp: l' ledger_ok_def sorted_append due_def)
qed

lemma op_step_ok:
  assumes "ledger_ok l" "op_step a l = (l', out, ret)"
  shows "ledger_ok l' \<and> out @ waiting_items l' = waiting_items l @ ret"
proof (cases a)
  case (Pin label now)
  then show ?thesis using assms pin_ok [OF assms(1), of label now] by (simp add: waiting_items_def)
next
  case (Release p)
  then show ?thesis using assms release_ok [OF assms(1), of p] by (auto split: prod.splits)
next
  case (Retire_at_open items)
  then show ?thesis using assms retire_ok [OF assms(1), of items] by (auto split: sum.splits)
next
  case (Advance items)
  then show ?thesis using assms advance_ok [OF assms(1), of items] by (auto split: prod.splits)
qed

lemma run_ok:
  "ledger_ok l \<Longrightarrow> run as l = (l', out, ret) \<Longrightarrow> ledger_ok l' \<and> out @ waiting_items l' = waiting_items l @ ret"
proof (induction as arbitrary: l out ret)
  case (Cons a as)
  obtain l1 o1 r1 where 1: "op_step a l = (l1, o1, r1)" by (metis prod_cases3)
  obtain o2 r2 where 2: "run as l1 = (l', o2, r2)" "out = o1 @ o2" "ret = r1 @ r2"
    using Cons.prems(2) 1 by (auto split: prod.splits)
  have A: "ledger_ok l1" "o1 @ waiting_items l1 = waiting_items l @ r1" using op_step_ok [OF Cons.prems(1) 1] by auto
  have B: "ledger_ok l'" "o2 @ waiting_items l' = waiting_items l1 @ r2" using Cons.IH [OF A(1) 2(1)] by auto
  have "o1 @ o2 @ waiting_items l' = (o1 @ waiting_items l1) @ r2" using B(2) by simp
  then show ?case using A(2) B(1) 2 by simp
qed (auto simp: waiting_items_def)

lemma new_ledger_ok: "ledger_ok new_ledger" "waiting_items new_ledger = []"
  by (simp_all add: ledger_ok_def new_ledger_def waiting_items_def)

subsection \<open>Properties of deferred reclaim\<close>

text \<open>
  Property C23: over any sequence of pins, releases, retirements and publishes, every retired item is
  handed back at most once and in retirement order: the items handed over, followed by those
  still waiting, are exactly the items retired. Nothing that is due is left waiting: each waiting entry
  still lacks the next publish or is held by an older pin.
\<close>

theorem reclaim_run_complete:
  "case run as (new_ledger :: 'a ledger) of (l, handed, retired) \<Rightarrow>
     handed @ waiting_items l = retired \<and> sorted (map fst (waiting l))
     \<and> (\<forall>e \<in> set (waiting l). generation l < fst e + 1 \<or> (\<exists>h \<in> fst ` set (pins l). h < fst e))"
proof -
  obtain l handed retired where r: "run as (new_ledger :: 'a ledger) = (l, handed, retired)" by (metis prod_cases3)
  from run_ok [OF new_ledger_ok(1) r] have l: "ledger_ok l" "handed @ waiting_items l = retired"
    by (simp_all add: new_ledger_ok)
  have "generation l < fst e + 1 \<or> (\<exists>h \<in> fst ` set (pins l). h < fst e)" if "e \<in> set (waiting l)" for e
  proof -
    have "\<not> due l (fst e)" using l(1) that by (auto simp: ledger_ok_def)
    then show ?thesis unfolding due_def bex_less_iff by auto
  qed
  then show ?thesis using l r by (simp add: ledger_ok_def)
qed

lemma reclaim_run_complete_witness:
  "case run [Retire_at_open [7], Pin ''q'' 5, Advance [1, 2 :: nat], Advance [3],
      Release \<lparr>pin_id = 0, pin_generation = 0, pin_label = ''q''\<rparr>] new_ledger of (l, handed, retired) \<Rightarrow>
     handed @ waiting_items l = retired \<and> handed = [7, 1, 2] \<and> waiting_items l = [3]"
proof -
  let ?as = "[Retire_at_open [7], Pin ''q'' 5, Advance [1, 2 :: nat], Advance [3],
      Release \<lparr>pin_id = 0, pin_generation = 0, pin_label = ''q''\<rparr>]"
  have "case run ?as new_ledger of (l, handed, retired) \<Rightarrow> handed = [7, 1, 2] \<and> waiting_items l = [3]"
    by code_simp
  then show ?thesis using reclaim_run_complete [of ?as] by (auto split: prod.splits)
qed

text \<open>
  What a client can observe, counted from its own operations and from nothing the ledger keeps: the publishes so far, the pins
  taken so far, the pins taken and not released (a pin is known by its number), and the retirements in order with the
  generation that made them.
\<close>

record 'a client =
  publishes :: nat
  pins_taken :: nat
  live_pins :: "root_pin list"
  retirements :: "(nat \<times> 'a list) list"

definition new_client :: "'a client" where
  "new_client = \<lparr>publishes = 0, pins_taken = 0, live_pins = [], retirements = []\<rparr>"

fun client_step :: "'a op \<Rightarrow> 'a client \<Rightarrow> 'a client" where
  "client_step (Pin label now) c = c\<lparr>pins_taken := Suc (pins_taken c),
     live_pins := live_pins c @ [\<lparr>pin_id = pins_taken c, pin_generation = publishes c, pin_label = label\<rparr>]\<rparr>"
| "client_step (Release p) c = c\<lparr>live_pins := filter (\<lambda>q. pin_id q \<noteq> pin_id p) (live_pins c)\<rparr>"
| "client_step (Retire_at_open items) c =
     (if publishes c = 0 \<and> items \<noteq> [] then c\<lparr>retirements := retirements c @ [(0, items)]\<rparr> else c)"
| "client_step (Advance items) c =
     (let c = c\<lparr>publishes := Suc (publishes c)\<rparr>
      in if items = [] then c else c\<lparr>retirements := retirements c @ [(publishes c, items)]\<rparr>)"

definition history :: "'a op list \<Rightarrow> 'a client" where
  "history as = fold client_step as new_client"

text \<open>The pins the ledger's map holds, and the agreement of the ledger with the client's own count.\<close>

definition pinned :: "'a ledger \<Rightarrow> root_pin \<Rightarrow> bool" where
  "pinned l p \<longleftrightarrow> (\<exists>ps \<in> set (pins l). fst ps = pin_generation p \<and> p \<in> fst ` set (snd ps))"

definition agrees :: "'a client \<Rightarrow> 'a list \<Rightarrow> 'a ledger \<Rightarrow> bool" where
  "agrees c handed l \<longleftrightarrow> ledger_ok l \<and> generation l = publishes c \<and> next_pin l = pins_taken c
     \<and> (\<forall>p \<in> set (live_pins c). pinned l p)
     \<and> (\<exists>before. retirements c = before @ waiting l \<and> handed = concat (map snd before))"

lemma agrees_new: "agrees new_client [] new_ledger"
  by (simp add: agrees_def new_ledger_ok) (simp add: new_client_def new_ledger_def)

lemma pinned_pin: "pinned (fst (pin label now l)) p \<longleftrightarrow>
    pinned l p \<or> p = \<lparr>pin_id = next_pin l, pin_generation = generation l, pin_label = label\<rparr>"
proof (cases "map_of (pins l) (generation l)")
  case None
  then have "generation l \<notin> fst ` set (pins l)" by (simp add: map_of_eq_None_iff)
  then show ?thesis using None by (auto simp: pin_def pinned_def Let_def image_iff split: if_splits) force+
next
  case (Some ps)
  then have "(generation l, ps) \<in> set (pins l)" by (rule map_of_SomeD)
  then show ?thesis using Some by (auto simp: pin_def pinned_def Let_def image_iff split: if_splits) force+
qed

lemma pinned_drain: "pinned (fst (drain l)) p \<longleftrightarrow> pinned l p"
  by (simp add: drain_def pinned_def Let_def)

lemma pinned_unpin:
  assumes "pinned l q" "pin_id q \<noteq> pin_id p"
  shows "pinned (unpin p l) q"
proof -
  let ?f = "\<lambda>(g, ps). if g = pin_generation p then (g, filter (\<lambda>q. pin_id (fst q) \<noteq> pin_id p) ps) else (g, ps)"
  obtain ps now where q: "(pin_generation q, ps) \<in> set (pins l)" "(q, now) \<in> set ps" using assms(1) by (force simp: pinned_def)
  have f: "fst (?f (pin_generation q, ps)) = pin_generation q" "q \<in> fst ` set (snd (?f (pin_generation q, ps)))"
    using q(2) assms(2) by (force split: if_splits)+
  have "?f (pin_generation q, ps) \<in> set (pins (unpin p l))" using q(1) by (force simp: unpin_def)
  then show ?thesis using f unfolding pinned_def by blast
qed

text \<open>A release leaves every other pin in place.\<close>

lemma pinned_release:
  assumes ok: "ledger_ok l" and q: "pinned l q" "pin_id q \<noteq> pin_id p"
  shows "pinned (fst (release p l)) q"
proof (cases "pin_released l p")
  case True
  then show ?thesis using q by (simp add: release_def)
next
  case False
  let ?l1 = "unpin p l" and ?g = "pin_generation p"
  have "map fst (pins ?l1) = map fst (pins l)" by (simp add: unpin_def keys_map del: map_map)
  then have dist: "distinct (map fst (pins ?l1))" using ok by (simp add: ledger_ok_def)
  note u = pinned_unpin [OF q]
  show ?thesis
  proof (cases "case map_of (pins ?l1) ?g of None \<Rightarrow> False | Some ps \<Rightarrow> ps \<noteq> []")
    case True
    then have "release p l = (?l1, [])" using False by (simp add: release_def unpin_def Let_def)
    then show ?thesis using u by simp
  next
    case none: False
    then have r: "release p l = drain (?l1\<lparr>pins := filter (\<lambda>e. fst e \<noteq> ?g) (pins ?l1)\<rparr>)"
      using False by (simp add: release_def unpin_def Let_def)
    obtain e where e: "e \<in> set (pins ?l1)" "fst e = pin_generation q" "q \<in> fst ` set (snd e)"
      using u by (auto simp: pinned_def)
    have "snd e \<noteq> []" using e(3) by auto
    then have "fst e = ?g \<Longrightarrow> \<exists>ps. (?g, ps) \<in> set (pins ?l1) \<and> ps \<noteq> []"
      using e(1) by (cases e) auto
    then have "fst e \<noteq> ?g" using none unfolding map_of_nonempty [OF dist] by blast
    then have "e \<in> set (pins (?l1\<lparr>pins := filter (\<lambda>e. fst e \<noteq> ?g) (pins ?l1)\<rparr>))" using e(1) by simp
    then show ?thesis unfolding r pinned_drain unfolding pinned_def by (rule bexI [rotated]) (use e(2,3) in simp)
  qed
qed

text \<open>A drain splits the retirements still waiting into those it hands back, all due, and those it leaves.\<close>

lemma drain_splits:
  assumes "sorted (map fst (waiting k))" "drain k = (l', out)"
  obtains es where "waiting k = es @ waiting l'" "out = concat (map snd es)" "\<forall>g \<in> fst ` set es. due k g"
    "generation l' = generation k" "pins l' = pins k" "next_pin l' = next_pin k"
proof
  show "waiting k = filter (\<lambda>e. due k (fst e)) (waiting k) @ waiting l'"
    using filter_sorted_prefix [OF assms(1)] assms(2) by (auto simp: drain_due [OF assms(1)])
qed (use assms(2) in \<open>auto simp: drain_due [OF assms(1)]\<close>)

lemma due_pinned: "due k g \<Longrightarrow> pinned k p \<Longrightarrow> g \<le> pin_generation p"
  by (auto simp: due_def pinned_def)

text \<open>One operation keeps the agreement, and what it hands back is safe by the client's own count.\<close>

definition safe_step :: "'a client \<Rightarrow> 'a list \<Rightarrow> 'a list \<Rightarrow> bool" where
  "safe_step c handed out \<longleftrightarrow> (\<exists>before es after. retirements c = before @ es @ after
     \<and> handed = concat (map snd before) \<and> out = concat (map snd es)
     \<and> (\<forall>g \<in> fst ` set es. g + 1 \<le> publishes c \<and> (\<forall>p \<in> set (live_pins c). g \<le> pin_generation p)))"

lemma safe_step_none:
  assumes "agrees c handed l"
  shows "safe_step c handed []"
proof -
  obtain before where "retirements c = before @ [] @ waiting l" "handed = concat (map snd before)"
    using assms by (auto simp: agrees_def)
  then show ?thesis unfolding safe_step_def
    by (intro exI [of _ before] exI [of _ "[]"] exI [of _ "waiting l"]) simp
qed

text \<open>A drain of a ledger that agrees but for entries already due.\<close>

lemma drain_agrees:
  assumes "drain k = (l', out)" "sorted (map fst (waiting k))" "ledger_ok l'" "generation k = publishes c" "next_pin k = pins_taken c"
    "\<forall>p \<in> set (live_pins c). pinned k p" "retirements c = before @ waiting k" "handed = concat (map snd before)"
  shows "agrees c (handed @ out) l' \<and> safe_step c handed out"
proof -
  obtain es where es: "waiting k = es @ waiting l'" "out = concat (map snd es)" "\<forall>g \<in> fst ` set es. due k g"
    "generation l' = generation k" "pins l' = pins k" "next_pin l' = next_pin k" by (rule drain_splits [OF assms(2,1)])
  have "retirements c = (before @ es) @ waiting l'" "handed @ out = concat (map snd (before @ es))"
    using assms(7,8) es by simp_all
  moreover have "pinned l' p \<longleftrightarrow> pinned k p" for p using es(5) by (simp add: pinned_def)
  ultimately have "agrees c (handed @ out) l'" using assms(3-6) es by (auto simp: agrees_def)
  moreover have "g + 1 \<le> publishes c \<and> (\<forall>p \<in> set (live_pins c). g \<le> pin_generation p)" if "g \<in> fst ` set es" for g
    using bspec [OF es(3) that] due_pinned [OF bspec [OF es(3) that]] assms(4,6) by (auto simp: due_def)
  then have "safe_step c handed out" using assms(7,8) es(1,2) unfolding safe_step_def by metis
  ultimately show ?thesis by simp
qed

lemma release_agrees:
  assumes A: "agrees c handed l" and r: "release p l = (l', out)"
  shows "agrees (client_step (Release p) c) (handed @ out) l' \<and> safe_step (client_step (Release p) c) handed out"
proof -
  let ?c = "client_step (Release p) c"
  have ok: "ledger_ok l" "ledger_ok l'" using A release_ok(1) [of l p] r by (auto simp: agrees_def)
  have live: "\<forall>q \<in> set (live_pins ?c). pinned l' q"
    using A pinned_release [OF ok(1), of _ p] r by (auto simp: agrees_def)
  obtain before where b: "retirements c = before @ waiting l" "handed = concat (map snd before)" using A by (auto simp: agrees_def)
  consider (still) "out = []" "waiting l' = waiting l" "generation l' = generation l" "next_pin l' = next_pin l"
    | (drain) k where "drain k = (l', out)" "waiting k = waiting l" "generation k = generation l" "next_pin k = next_pin l"
    using r by (auto simp: release_def Let_def split: if_splits)
  then show ?thesis
  proof cases
    case still
    then have "agrees ?c handed l'" using A ok live by (simp add: agrees_def)
    then show ?thesis using still(1) safe_step_none by simp
  next
    case drain
    have "pinned k q \<longleftrightarrow> pinned l' q" for q using pinned_drain [of k q] drain(1) by simp
    then show ?thesis using drain_agrees [OF drain(1), of ?c before handed] A ok live b drain(2-4)
      by (simp add: agrees_def ledger_ok_def)
  qed
qed

lemma advance_agrees:
  assumes A: "agrees c handed l" and r: "advance items l = (l', out)"
  shows "agrees (client_step (Advance items) c) (handed @ out) l' \<and> safe_step (client_step (Advance items) c) handed out"
proof -
  let ?c = "client_step (Advance items) c"
  let ?k = "if items = [] then l\<lparr>generation := generation l + 1\<rparr>
      else l\<lparr>generation := generation l + 1, waiting := waiting l @ [(generation l + 1, items)]\<rparr>"
  have k: "drain ?k = (l', out)" using r by (cases "items = []") (simp_all add: advance_def Let_def)
  have ok: "ledger_ok l" "ledger_ok l'" using A advance_ok(1) [of l items] r by (auto simp: agrees_def)
  have s: "sorted (map fst (waiting ?k))" using ok by (auto simp: ledger_ok_def sorted_append le_SucI)
  obtain before where b: "retirements c = before @ waiting l" "handed = concat (map snd before)" using A by (auto simp: agrees_def)
  have "generation ?k = publishes ?c" "next_pin ?k = pins_taken ?c" "retirements ?c = before @ waiting ?k"
    "\<forall>p \<in> set (live_pins ?c). pinned ?k p"
    using A b(1) by (cases "items = []"; simp add: agrees_def pinned_def)+
  note f = this
  show ?thesis by (rule drain_agrees [OF k s ok(2) f(1,2,4,3) b(2)])
qed

lemma step_agrees:
  assumes A: "agrees c handed l" and a: "op_step a l = (l', out, ret)"
  shows "agrees (client_step a c) (handed @ out) l' \<and> safe_step (client_step a c) handed out"
proof (cases a)
  case (Pin label now)
  then have l': "l' = fst (pin label now l)" "out = []" using a by simp_all
  have "next_pin l' = Suc (next_pin l)" by (simp add: l' pin_def Let_def)
  then have "agrees (client_step a c) handed l'"
    using A pin_ok [of l label now] pinned_pin [of label now l] by (auto simp: l'(1) Pin agrees_def)
  then show ?thesis using l'(2) safe_step_none by simp
next
  case (Release p)
  then show ?thesis using release_agrees [OF A, of p] a by (auto split: prod.splits)
next
  case (Advance items)
  then show ?thesis using advance_agrees [OF A, of items] a by (auto split: prod.splits)
next
  case (Retire_at_open items)
  have ok: "ledger_ok l" "generation l = publishes c" using A by (auto simp: agrees_def)
  have "agrees (client_step a c) handed l' \<and> out = []"
  proof (cases "retire_at_open items l")
    case (Inl e)
    then have "generation l \<noteq> 0" by (simp add: retire_at_open_def split: if_splits)
    then show ?thesis using A a Inl Retire_at_open ok by simp
  next
    case (Inr l1)
    then have "generation l = 0" "l1 = (if items = [] then l else l\<lparr>waiting := waiting l @ [(0, items)]\<rparr>)"
      by (auto simp: retire_at_open_def split: if_splits)
    moreover from this have "pinned l1 q \<longleftrightarrow> pinned l q" for q by (simp add: pinned_def)
    ultimately show ?thesis using A a Inr Retire_at_open ok retire_ok(1) [OF ok(1) Inr] by (auto simp: agrees_def)
  qed
  then show ?thesis using safe_step_none [of "client_step a c" handed l'] by simp
qed

lemma run_agrees:
  "agrees c handed l \<Longrightarrow> run as l = (l', out, ret) \<Longrightarrow> agrees (fold client_step as c) (handed @ out) l'"
proof (induction as arbitrary: c handed l out ret)
  case (Cons a as)
  obtain l1 o1 r1 where 1: "op_step a l = (l1, o1, r1)" by (metis prod_cases3)
  obtain o2 r2 where 2: "run as l1 = (l', o2, r2)" "out = o1 @ o2" using Cons.prems(2) 1 by (auto split: prod.splits)
  note step = step_agrees [OF Cons.prems(1) 1]
  show ?case using Cons.IH [OF conjunct1 [OF step] 2(1)] 2(2) by simp
qed simp

text \<open>
  Property C2: two-generation reclaim, against the client's own history of pins, releases, retirements and publishes. After
  any operations, what the next publish or release hands back is a run of whole retirements, the next in the order the client
  made them, and each of them, retired by generation \<open>g\<close>, is safe to reuse: publish \<open>g + 1\<close> has happened, and no pin that the client
  took below \<open>g\<close> is still unreleased. A pin counts as live from the operation that took it to the one that released it, whatever
  the ledger's own map says, so a generation with a pin left keeps every extent it reaches.
\<close>

theorem reclaim_safe:
  assumes "run as new_ledger = (l, handed, retired)" "op_step a l = (l', out, ret)"
  defines "c \<equiv> history (as @ [a])"
  shows "\<exists>before es after. retirements c = before @ es @ after \<and> handed = concat (map snd before) \<and> out = concat (map snd es)
    \<and> (\<forall>g \<in> fst ` set es. g + 1 \<le> publishes c \<and> (\<forall>p \<in> set (live_pins c). g \<le> pin_generation p))"
proof -
  have "agrees (history as) handed l" using run_agrees [OF agrees_new assms(1)] by (simp add: history_def)
  from step_agrees [OF this assms(2)] show ?thesis by (simp add: safe_step_def c_def history_def)
qed

text \<open>Two pins of generation 0; the release of one of them hands nothing back, the release of the other hands back the item.\<close>

lemma reclaim_safe_witness:
  "\<exists>l. run [Pin ''q'' 0, Pin ''r'' 0, Advance [1 :: nat], Advance [], Release \<lparr>pin_id = 0, pin_generation = 0, pin_label = ''q''\<rparr>] new_ledger
      = (l, [], [1])
    \<and> (\<exists>es :: (nat \<times> nat list) list. concat (map snd es) = [1] \<and> (\<forall>g \<in> fst ` set es. g + 1 \<le> 2))"
proof -
  let ?p = "\<lparr>pin_id = 0, pin_generation = 0, pin_label = ''q''\<rparr>" and ?q = "\<lparr>pin_id = 1, pin_generation = 0, pin_label = ''r''\<rparr>"
  let ?as = "[Pin ''q'' 0, Pin ''r'' 0, Advance [1 :: nat], Advance [], Release ?p]"
  obtain l where l: "run ?as new_ledger = (l, [], [1])"
    "op_step (Release ?q) l = (fst (op_step (Release ?q) l), [1], [])"
    "publishes (history (?as @ [Release ?q])) = 2"
    by (rule that [of "fst (run ?as new_ledger)"]) code_simp+
  note S = reclaim_safe [OF l(1,2), unfolded l(3)]
  then obtain es where es: "[1 :: nat] = concat (map snd es)"
    "\<forall>g \<in> fst ` set es. g + 1 \<le> 2 \<and> (\<forall>p \<in> set (live_pins (history (?as @ [Release ?q]))). g \<le> pin_generation p)" by blast
  then have "\<exists>es :: (nat \<times> nat list) list. concat (map snd es) = [1] \<and> (\<forall>g \<in> fst ` set es. g + 1 \<le> 2)"
    using es(2) by (intro exI [of _ es] conjI es(1) [symmetric]) blast
  then show ?thesis using l(1) by blast
qed

end
