(* ===== verification/Reservation.thy ===== *)
theory Reservation
  imports FreeSpace
begin

text \<open>
  \<open>next/storage/reservation.ts\<close>: \<open>ExtentReservation\<close>, the growing logical extent of one builder over
  a free-space map. The map is the source's shared object; every operation that changes it returns
  the new map next to the new reservation.
\<close>

record segment =
  seg_offset :: int
  seg_capacity :: int
  seg_start :: int

datatype res_state = Res_open | Res_sealed | Res_aborted

record reservation =
  segments :: "segment list"
  res_state :: res_state

type_synonym data_range = "int \<times> int"

record seal_plan =
  plan_extent :: "int \<times> int"
  plan_moves :: "(int \<times> int \<times> int) list"
  plan_release :: "data_range list"

subsection \<open>Operations\<close>

definition check_open :: "reservation \<Rightarrow> unit result" where
  "check_open r = guardR (res_state r = Res_open) (TypeError ''The reservation is not open'')"

definition last_segment :: "reservation \<Rightarrow> segment result" where
  "last_segment r = (if segments r = [] then Inl (PlainError ''A reservation always has a segment'')
     else Inr (last (segments r)))"

definition new_reservation :: "free_map \<Rightarrow> int \<Rightarrow> (free_map \<times> reservation) result" where
  "new_reservation m capacity =
     (if \<not> (is_safe_integer capacity \<and> 0 < capacity) then Inl (RangeError ''Bad capacity'')
      else bindR (size_of m capacity) (\<lambda>need. bindR (allocate m need) (\<lambda>(m', offset).
        Inr (m', \<lparr>segments = [\<lparr>seg_offset = offset, seg_capacity = need, seg_start = 0\<rparr>],
                  res_state = Res_open\<rparr>))))"

definition res_capacity :: "reservation \<Rightarrow> int result" where
  "res_capacity r = bindR (last_segment r) (\<lambda>l. Inr (seg_start l + seg_capacity l))"

definition segment_list :: "reservation \<Rightarrow> (int \<times> int) list" where
  "segment_list r = map (\<lambda>s. (seg_offset s, seg_capacity s)) (segments r)"

definition extend :: "free_map \<Rightarrow> reservation \<Rightarrow> int \<Rightarrow> (free_map \<times> reservation \<times> bool) result" where
  "extend m r bytes = bindR (check_open r) (\<lambda>_. bindR (size_of m bytes) (\<lambda>need.
     if need = 0 then Inr (m, r, True)
     else bindR (last_segment r) (\<lambda>l.
       bindR (allocate_at m (seg_offset l + seg_capacity l) need) (\<lambda>(m1, placed).
         if placed then
           Inr (m1, r\<lparr>segments := butlast (segments r) @ [l\<lparr>seg_capacity := seg_capacity l + need\<rparr>]\<rparr>, True)
         else bindR (allocate m1 need) (\<lambda>(m2, offset).
           Inr (m2, r\<lparr>segments := segments r
                 @ [\<lparr>seg_offset = offset, seg_capacity = need, seg_start = seg_start l + seg_capacity l\<rparr>]\<rparr>,
                False))))))"

text \<open>The loop of \<open>pieces\<close>: \<open>at\<close> advances over the segments, \<open>break\<close> and \<open>continue\<close> as written.\<close>

fun pieces_loop :: "segment list \<Rightarrow> int \<Rightarrow> int \<Rightarrow> data_range list" where
  "pieces_loop [] pos limit = []"
| "pieces_loop (s # rest) pos limit =
     (if limit \<le> pos then []
      else let segment_end = seg_start s + seg_capacity s in
        if segment_end \<le> pos then pieces_loop rest pos limit
        else let n = min limit segment_end - pos in
          (seg_offset s + (pos - seg_start s), n) # pieces_loop rest (pos + n) limit)"

definition pieces :: "reservation \<Rightarrow> int \<Rightarrow> int \<Rightarrow> data_range list result" where
  "pieces r position len = bindR (check_open r) (\<lambda>_. bindR (res_capacity r) (\<lambda>capacity.
     if position < 0 \<or> len < 0 \<or> capacity < position + len
     then Inl (RangeError ''Write outside the reserved capacity'')
     else Inr (pieces_loop (segments r) position (position + len))))"

definition seal :: "free_map \<Rightarrow> reservation \<Rightarrow> int \<Rightarrow> (free_map \<times> reservation \<times> seal_plan) result" where
  "seal m r len = bindR (check_open r) (\<lambda>_. bindR (res_capacity r) (\<lambda>capacity.
     if \<not> (is_safe_integer len \<and> 0 < len \<and> len \<le> capacity) then Inl (RangeError ''Bad sealed length'')
     else let r' = r\<lparr>res_state := Res_sealed\<rparr> in bindR (size_of m len) (\<lambda>used.
       if segments r \<noteq> [] \<and> used \<le> seg_capacity (hd (segments r)) then
         let first = hd (segments r);
             release = map (\<lambda>s. (seg_offset s, seg_capacity s)) (tl (segments r))
         in Inr (m, r', \<lparr>plan_extent = (seg_offset first, len), plan_moves = [],
              plan_release = (if used < seg_capacity first
                then [(seg_offset first + used, seg_capacity first - used)] else []) @ release\<rparr>)
       else bindR (allocate m used) (\<lambda>(m', target).
         Inr (m', r', \<lparr>plan_extent = (target, len),
           plan_moves = map (\<lambda>s. (seg_offset s, target + seg_start s, min (seg_capacity s) (len - seg_start s)))
             (filter (\<lambda>s. seg_start s < len) (segments r)),
           plan_release = map (\<lambda>s. (seg_offset s, seg_capacity s)) (segments r)\<rparr>)))))"

definition abort :: "reservation \<Rightarrow> (reservation \<times> data_range list) result" where
  "abort r = bindR (check_open r) (\<lambda>_.
     Inr (r\<lparr>res_state := Res_aborted\<rparr>, map (\<lambda>s. (seg_offset s, seg_capacity s)) (segments r)))"

subsection \<open>The invariant\<close>

definition phys :: "segment \<Rightarrow> int \<times> int" where
  "phys s = (seg_offset s, seg_offset s + seg_capacity s)"

text \<open>Segments are chained: each starts where the one before it ends.\<close>

fun chained :: "int \<Rightarrow> int \<Rightarrow> segment list \<Rightarrow> bool" where
  "chained a pos [] \<longleftrightarrow> True"
| "chained a pos (s # rest) \<longleftrightarrow> seg_start s = pos \<and> 0 < seg_capacity s \<and> a dvd seg_capacity s
     \<and> a dvd seg_offset s \<and> 0 \<le> seg_offset s \<and> chained a (pos + seg_capacity s) rest"

fun total :: "segment list \<Rightarrow> int" where
  "total [] = 0"
| "total (s # rest) = seg_capacity s + total rest"

definition res_ok :: "free_map \<Rightarrow> reservation \<Rightarrow> bool" where
  "res_ok m r \<longleftrightarrow> wf_map m \<and> segments r \<noteq> [] \<and> chained (align m) 0 (segments r)
     \<and> held (free_set m) (map phys (segments r))"

lemma total_append: "total (xs @ ys) = total xs + total ys"
  by (induction xs) auto

lemma chained_append: "chained a p (xs @ ys) \<longleftrightarrow> chained a p xs \<and> chained a (p + total xs) ys"
  by (induction a p xs rule: chained.induct) (auto simp: add.assoc)

lemma chained_total: "chained a p xs \<Longrightarrow> 0 \<le> total xs"
  by (induction a p xs rule: chained.induct) auto

lemma res_capacity_total:
  assumes "res_ok m r"
  shows "res_capacity r = Inr (total (segments r))"
proof -
  obtain xs s where x: "segments r = xs @ [s]" using assms by (metis res_ok_def append_butlast_last_id)
  then have "chained (align m) 0 (xs @ [s])" using assms by (simp add: res_ok_def)
  then show ?thesis using x by (simp add: res_capacity_def last_segment_def chained_append total_append)
qed

lemma fs_round_nonneg:
  assumes "wf_map m" "is_safe_integer bytes" "0 \<le> bytes"
  obtains need where "fs_round m bytes = Inr need" "align m dvd need" "bytes \<le> need" "need < bytes + align m"
  using fs_round_Inr [of m bytes thesis] assms by (auto simp: wf_map_def)

lemma size_of_exact:
  "wf_map m \<Longrightarrow> align m dvd n \<Longrightarrow> is_safe_integer n \<Longrightarrow> 0 \<le> n \<Longrightarrow> fs_round m n = Inr n"
  using fs_round_exact by (simp add: wf_map_def)

subsection \<open>Growing\<close>

definition res_small :: "reservation \<Rightarrow> bool" where
  "res_small r \<longleftrightarrow> (\<forall>s \<in> set (segments r). seg_offset s + seg_capacity s \<le> MAX_SAFE_INTEGER)"

lemma held_joined:
  assumes "held F (es @ [(p, q)] @ [(q, t)])" "p \<le> q" "q \<le> t"
  shows "held F (es @ [(p, t)])" "free_of (es @ [(p, t)]) = free_of (es @ [(p, q)] @ [(q, t)])"
proof -
  have "{p..<t} = {p..<q} \<union> {q..<t}" using assms(2,3) by (simp add: ivl_disj_un_two)
  then show "held F (es @ [(p, t)])" "free_of (es @ [(p, t)]) = free_of (es @ [(p, q)] @ [(q, t)])"
    using assms(1) by (auto simp: held_append simp del: atLeastLessThan_iff)
qed

lemma extend_spec:
  assumes ok: "res_ok m r" and op: "res_state r = Res_open" and small: "res_small r"
    and need: "size_of m bytes = Inr need" "0 < need" "is_safe_integer need"
  shows "\<exists>m' r' grown. extend m r bytes = Inr (m', r', grown) \<and> res_ok m' r' \<and> res_state r' = Res_open
    \<and> total (segments r') = total (segments r) + need
    \<and> free_set m' \<union> free_of (map phys (segments r')) = free_set m \<union> free_of (map phys (segments r))
    \<and> (grown \<longleftrightarrow> length (segments r') = length (segments r))"
proof -
  obtain xs l where x: "segments r = xs @ [l]" using ok by (metis res_ok_def append_butlast_last_id)
  have wf: "wf_map m" and ch: "chained (align m) 0 (xs @ [l])" and h: "held (free_set m) (map phys (xs @ [l]))"
    using ok by (simp_all add: res_ok_def x)
  have l: "seg_start l = total xs" "0 < seg_capacity l" "align m dvd seg_capacity l"
    "align m dvd seg_offset l" "0 \<le> seg_offset l" using ch by (simp_all add: chained_append)
  have nz: "need \<noteq> 0" using need(2) by simp
  have a: "align m dvd need" using need(1) by (simp add: size_of_def fs_round_dvd)
  let ?p = "seg_offset l + seg_capacity l"
  have p: "align m dvd ?p" "is_safe_integer ?p" "0 \<le> ?p"
    using l small x by (auto simp: res_small_def safe_int_defs)
  obtain m1 b where P: "allocate_at m ?p need = Inr (m1, b)"
    using fs.place_at_law [OF wf a need(3,2) p] by blast
  note H = fs.place_at_held [OF wf a need(3,2) p h P]
  show ?thesis
  proof (cases b)
    case True
    let ?r = "r\<lparr>segments := xs @ [l\<lparr>seg_capacity := seg_capacity l + need\<rparr>]\<rparr>"
    have "held (free_set m1) (map phys xs @ [(seg_offset l, ?p)] @ [(?p, ?p + need)])"
      using H(3) [OF True] by (simp add: phys_def)
    note J = held_joined [OF this]
    have ok': "res_ok m1 ?r"
      using H(1,2) J(1) ch l a need by (simp add: res_ok_def chained_append phys_def add.assoc)
    have f: "free_set m1 \<union> free_of (map phys (segments ?r)) = free_set m \<union> free_of (map phys (segments r))"
      using H(4) [OF True] J(2) l need by (simp add: x phys_def add.assoc)
    have "extend m r bytes = Inr (m1, ?r, True)"
      using True by (simp add: extend_def check_open_def op need(1) nz last_segment_def x P)
    then show ?thesis using ok' f op by (intro exI [of _ m1] exI [of _ ?r] exI [of _ True]) (simp add: total_append x)
  next
    case False
    have h1: "held (free_set m1) (map phys (segments r))" using h H(5) [OF False] x by simp
    have a1: "align m1 dvd need" using a H(2) by simp
    obtain m2 off where Q: "allocate m1 need = Inr (m2, off)"
      using fs.place_law [OF H(1) a1 need(3,2)] by blast
    note G = fs.place_held [OF H(1) a1 need(3,2) h1 Q]
    let ?n = "\<lparr>seg_offset = off, seg_capacity = need, seg_start = seg_start l + seg_capacity l\<rparr>"
    let ?r = "r\<lparr>segments := segments r @ [?n]\<rparr>"
    have n: "phys ?n = (off, off + need)" by (simp add: phys_def)
    have ok': "res_ok m2 ?r"
      using G ch l a need H(2) n by (simp add: res_ok_def x chained_append total_append)
    have f: "free_set m2 \<union> free_of (map phys (segments ?r)) = free_set m \<union> free_of (map phys (segments r))"
      using G(6) H(5) [OF False] n by simp
    have "extend m r bytes = Inr (m2, ?r, False)"
      using False by (simp add: extend_def check_open_def op need(1) nz last_segment_def x P Q)
    then show ?thesis using ok' f op by (intro exI [of _ m2] exI [of _ ?r] exI [of _ False]) (simp add: total_append)
  qed
qed

subsection \<open>Logical positions and their pieces\<close>

text \<open>The physical address of a logical position.\<close>

fun addr :: "segment list \<Rightarrow> int \<Rightarrow> int" where
  "addr [] pos = 0"
| "addr (s # rest) pos =
     (if pos < seg_start s + seg_capacity s then seg_offset s + (pos - seg_start s) else addr rest pos)"

definition bytes_of :: "data_range \<Rightarrow> int list" where
  "bytes_of p = [fst p..fst p + snd p - 1]"

lemma upto_shift: "[a + d..b + d] = map (\<lambda>x. x + d) [a..b :: int]"
  by (induction a b rule: upto.induct) (subst upto.simps, subst (2) upto.simps, simp add: algebra_simps)

lemma pieces_loop_addr:
  "chained a p segs \<Longrightarrow> p \<le> pos \<Longrightarrow> limit \<le> p + total segs \<Longrightarrow>
   concat (map bytes_of (pieces_loop segs pos limit)) = map (addr segs) [pos..limit - 1]"
proof (induction segs arbitrary: p pos)
  case Nil
  then show ?case by simp
next
  case (Cons s rest)
  let ?e = "p + seg_capacity s"
  have s: "seg_start s = p" "0 < seg_capacity s" "chained a ?e rest" using Cons.prems(1) by simp_all
  consider "limit \<le> pos" | "pos < limit" "?e \<le> pos" | "pos < limit" "pos < ?e" by linarith
  then show ?case
  proof cases
    case 1
    then show ?thesis by simp
  next
    case 2
    have "map (addr (s # rest)) [pos..limit - 1] = map (addr rest) [pos..limit - 1]"
      using 2 s by (intro map_cong) auto
    then show ?thesis using 2 s Cons.IH [OF s(3), of pos] Cons.prems(3) by (simp add: add.assoc)
  next
    case 3
    define n where "n = min limit ?e - pos"
    have split: "[pos..limit - 1] = [pos..pos + n - 1] @ [pos + n..limit - 1]"
      using 3 by (intro upto_split2 [of pos "pos + n - 1" "limit - 1", simplified]) (auto simp: n_def)
    have "bytes_of (seg_offset s + (pos - p), n) = map (addr (s # rest)) [pos..pos + n - 1]"
    proof -
      have "map (addr (s # rest)) [pos..pos + n - 1] = map (\<lambda>x. x + (seg_offset s - p)) [pos..pos + n - 1]"
        using s 3 by (intro map_cong) (auto simp: n_def)
      then show ?thesis by (simp add: bytes_of_def flip: upto_shift) (simp add: algebra_simps)
    qed
    moreover have "concat (map bytes_of (pieces_loop rest (pos + n) limit)) = map (addr (s # rest)) [pos + n..limit - 1]"
    proof (cases "limit \<le> ?e")
      case True
      then have "pos + n = limit" using 3 by (simp add: n_def)
      then show ?thesis by (cases rest) simp_all
    next
      case False
      then have "pos + n = ?e" using 3 by (simp add: n_def)
      moreover have "map (addr (s # rest)) [?e..limit - 1] = map (addr rest) [?e..limit - 1]"
        using s by (intro map_cong) auto
      ultimately show ?thesis using Cons.IH [OF s(3), of ?e] Cons.prems(3) by (simp add: add.assoc)
    qed
    moreover have "pieces_loop (s # rest) pos limit
        = (seg_offset s + (pos - p), n) # pieces_loop rest (pos + n) limit"
      using 3 s by (simp add: n_def Let_def)
    ultimately show ?thesis unfolding split by simp
  qed
qed

subsection \<open>Sealing\<close>

text \<open>What the extent space does with a plan's \<open>release\<close> list: it frees every range in order.\<close>

fun free_all :: "free_map \<Rightarrow> data_range list \<Rightarrow> free_map result" where
  "free_all m [] = Inr m"
| "free_all m ((offset, bytes) # rest) = bindR (free m offset bytes) (\<lambda>m'. free_all m' rest)"

definition ranges :: "(int \<times> int) list \<Rightarrow> data_range list" where
  "ranges es = map (\<lambda>e. (fst e, snd e - fst e)) es"

definition whole :: "int \<Rightarrow> int \<times> int \<Rightarrow> bool" where
  "whole a e \<longleftrightarrow> 0 \<le> fst e \<and> fst e < snd e \<and> snd e \<le> MAX_SAFE_INTEGER \<and> a dvd fst e \<and> a dvd snd e"

lemma free_whole:
  assumes "wf_map m" "whole (align m) e" "extent e \<inter> free_set m = {}"
  shows "\<exists>m'. free m (fst e) (snd e - fst e) = Inr m' \<and> wf_map m' \<and> align m' = align m
    \<and> free_set m' = free_set m \<union> extent e"
proof -
  have "fs_check m (fst e) = Inr ()"
    using assms(2) by (auto simp: whole_def fs_check_Inr safe_int_defs dvd_eq_mod_eq_0)
  moreover have "fs_round m (snd e - fst e) = Inr (snd e - fst e)"
    using assms(1,2) by (intro size_of_exact) (auto simp: whole_def safe_int_defs)
  moreover have "{fst e..<fst e + (snd e - fst e)} = extent e" by (simp add: extent_def)
  ultimately show ?thesis
    using free_spec [OF assms(1), of "fst e" "snd e - fst e" "snd e - fst e"] assms(2,3) by (simp add: whole_def)
qed

lemma free_all_held:
  "wf_map m \<Longrightarrow> held (free_set m) es \<Longrightarrow> \<forall>e \<in> set es. whole (align m) e \<Longrightarrow>
   \<exists>m'. free_all m (ranges es) = Inr m' \<and> wf_map m' \<and> align m' = align m \<and> free_set m' = free_set m \<union> free_of es"
proof (induction es arbitrary: m)
  case Nil
  then show ?case by (simp add: ranges_def)
next
  case (Cons e es)
  obtain m1 where m1: "free m (fst e) (snd e - fst e) = Inr m1" "wf_map m1" "align m1 = align m"
    "free_set m1 = free_set m \<union> extent e"
    using free_whole [of m e] Cons.prems by auto
  have "held (free_set m1) es"
  proof -
    have "held F fs" if "held G fs" "extent e \<inter> free_of fs = {}" "F = G \<union> extent e" for F G fs
      using that by (induction fs) (auto simp: free_of_Cons simp del: free_of_simps(2) extent_pair)
    then show ?thesis using Cons.prems(2) m1(4) by simp
  qed
  from Cons.IH [OF m1(2) this] Cons.prems(3) m1 show ?case
    by (auto simp: ranges_def free_of_Cons Un_assoc simp del: free_of_simps(2))
qed

lemma chained_whole:
  "chained a p segs \<Longrightarrow> \<forall>s \<in> set segs. seg_offset s + seg_capacity s \<le> MAX_SAFE_INTEGER \<Longrightarrow>
   \<forall>e \<in> set (map phys segs). whole a e"
  by (induction a p segs rule: chained.induct) (auto simp: whole_def phys_def)

lemma release_ranges: "map (\<lambda>s. (seg_offset s, seg_capacity s)) segs = ranges (map phys segs)"
  by (simp add: ranges_def phys_def)

text \<open>Where the bytes of the extent are, once the moves are done.\<close>

definition arrives :: "(int \<times> int \<times> int) list \<Rightarrow> int \<Rightarrow> int \<Rightarrow> bool" where
  "arrives moves source dest \<longleftrightarrow>
     (if moves = [] then source = dest
      else (\<exists>(from, to, n) \<in> set moves. from \<le> source \<and> source < from + n \<and> to + (source - from) = dest))"

lemma moves_reach:
  "chained a p segs \<Longrightarrow> p \<le> pos \<Longrightarrow> pos < len \<Longrightarrow> len \<le> p + total segs \<Longrightarrow>
   \<exists>s \<in> set segs. seg_start s < len \<and> seg_offset s \<le> addr segs pos
     \<and> addr segs pos < seg_offset s + min (seg_capacity s) (len - seg_start s)
     \<and> seg_start s + (addr segs pos - seg_offset s) = pos"
proof (induction segs arbitrary: p)
  case (Cons s rest)
  show ?case
  proof (cases "pos < p + seg_capacity s")
    case False
    then show ?thesis using Cons.IH [of "p + seg_capacity s"] Cons.prems by (auto simp: add.assoc)
  qed (use Cons.prems in auto)
qed simp

lemma set_remainder:
  "E = A \<union> T \<Longrightarrow> A \<inter> T = {} \<Longrightarrow> E \<inter> F = {} \<and> E \<inter> B = {} \<and> P \<Longrightarrow> F \<union> (T \<union> B) = (F \<union> (E \<union> B)) - A"
  by blast

lemma seal_in_place:
  assumes ok: "res_ok m r" and small: "res_small r" and seg: "segments r = s # rest"
    and used: "align m dvd used" "0 < used" "used \<le> seg_capacity s"
  defines "release \<equiv> (if used < seg_capacity s then [(seg_offset s + used, seg_capacity s - used)] else [])
      @ map (\<lambda>s. (seg_offset s, seg_capacity s)) rest"
  shows "\<exists>m'. free_all m release = Inr m' \<and> wf_map m' \<and> free_set m'
    = (free_set m \<union> free_of (map phys (segments r))) - {seg_offset s..<seg_offset s + used}"
proof -
  let ?t = "if used < seg_capacity s then [(seg_offset s + used, seg_offset s + seg_capacity s)] else []"
  let ?es = "?t @ map phys rest"
  have rel: "release = ranges ?es" by (simp add: release_def release_ranges) (simp add: ranges_def)
  have W: "\<forall>e \<in> set (map phys (s # rest)). whole (align m) e"
    using chained_whole [of "align m" 0 "segments r"] ok small seg by (simp add: res_ok_def res_small_def)
  have w: "\<forall>e \<in> set ?es. whole (align m) e"
    using W used by (auto simp: whole_def phys_def)
  have h: "held (free_set m) (phys s # map phys rest)" using ok seg by (simp add: res_ok_def)
  have sub: "free_of ?t \<subseteq> extent (phys s)" using used by (auto simp: phys_def)
  have one: "held F (if c then [e] else []) \<longleftrightarrow> free_of (if c then [e] else []) \<inter> F = {}" for F e and c
    by (simp add: free_of_extent Int_commute)
  have "held (free_set m) ?t" unfolding one using h sub by (simp only: held.simps) blast
  then have "held (free_set m) ?es" using h sub by (simp only: held_append held.simps) blast
  from free_all_held [OF _ this w] ok obtain m' where
    m': "free_all m release = Inr m'" "wf_map m'" "free_set m' = free_set m \<union> free_of ?es"
    unfolding rel by (auto simp: res_ok_def)
  have e: "extent (phys s) = {seg_offset s..<seg_offset s + used} \<union> free_of ?t"
    using used by (auto simp: phys_def)
  have d: "{seg_offset s..<seg_offset s + used} \<inter> free_of ?t = {}" by auto
  have "free_set m \<union> free_of ?es
     = (free_set m \<union> free_of (phys s # map phys rest)) - {seg_offset s..<seg_offset s + used}"
    using set_remainder [OF e d] h by (simp only: free_of_simps(3) free_of_Cons held.simps)
  then show ?thesis using m' seg by simp
qed

lemma seal_moved:
  assumes ok: "res_ok m r" and small: "res_small r"
    and used: "align m dvd used" "is_safe_integer used" "0 < used"
  shows "\<exists>m1 target m'. allocate m used = Inr (m1, target)
    \<and> free_all m1 (map (\<lambda>s. (seg_offset s, seg_capacity s)) (segments r)) = Inr m' \<and> wf_map m'
    \<and> free_set m' = (free_set m \<union> free_of (map phys (segments r))) - {target..<target + used}
    \<and> {target..<target + used} \<subseteq> free_set m"
proof -
  have wf: "wf_map m" and h: "held (free_set m) (map phys (segments r))" using ok by (simp_all add: res_ok_def)
  obtain m1 target where P: "allocate m used = Inr (m1, target)" "{target..<target + used} \<subseteq> free_set m"
    "free_set m1 = free_set m - {target..<target + used}"
    using fs.place_law [OF wf used] by blast
  note G = fs.place_held [OF wf used h P(1)]
  have W: "\<forall>e \<in> set (map phys (segments r)). whole (align m1) e"
    using chained_whole [of "align m" 0 "segments r"] ok small G(2) by (simp add: res_ok_def res_small_def)
  have h1: "held (free_set m1) (map phys (segments r))" using held_mono [OF h] P(3) by blast
  obtain m' where m': "free_all m1 (ranges (map phys (segments r))) = Inr m'" "wf_map m'"
    "free_set m' = free_set m1 \<union> free_of (map phys (segments r))"
    using free_all_held [OF G(1) h1 W] by blast
  have "free_of (map phys (segments r)) \<inter> {target..<target + used} = {}"
    using held_apart [OF h] P(2) by blast
  then have "free_set m' = (free_set m \<union> free_of (map phys (segments r))) - {target..<target + used}"
    using m'(3) P(3) by blast
  then show ?thesis using P m' by (simp add: release_ranges)
qed

subsection \<open>Properties of a reservation\<close>

text \<open>
  Property C22: \<open>extend\<close> keeps a reservation well formed on a well-formed map: its segments stay
  chained from logical position 0, aligned, pairwise disjoint and apart from the free space; the
  capacity grows by the rounded length; and no space appears or is lost (free space and segments
  together are what they were). It reports growth in place exactly when no segment was added.
\<close>

theorem extend_keeps_invariant:
  assumes "res_ok m r" "res_state r = Res_open" "res_small r"
    "size_of m bytes = Inr need" "0 < need" "is_safe_integer need"
  shows "\<exists>m' r' grown. extend m r bytes = Inr (m', r', grown) \<and> res_ok m' r' \<and> res_state r' = Res_open
    \<and> total (segments r') = total (segments r) + need
    \<and> free_set m' \<union> free_of (map phys (segments r')) = free_set m \<union> free_of (map phys (segments r))
    \<and> (grown \<longleftrightarrow> length (segments r') = length (segments r))"
  using extend_spec [OF assms] .

definition demo_space :: free_map where
  "demo_space = \<lparr>align = 4, starts = [], ends = [], fs_end = 24\<rparr>"

definition demo_reservation :: reservation where
  "demo_reservation = \<lparr>segments = [\<lparr>seg_offset = 8, seg_capacity = 8, seg_start = 0\<rparr>,
     \<lparr>seg_offset = 0, seg_capacity = 4, seg_start = 8\<rparr>], res_state = Res_open\<rparr>"

lemma demo_reservation_ok: "res_ok demo_space demo_reservation" "res_state demo_reservation = Res_open"
    "res_small demo_reservation"
  by (auto simp: res_ok_def res_small_def demo_reservation_def demo_space_def wf_map_def phys_def free_set_def
      MAX_SAFE_INTEGER_def)

lemma extend_keeps_invariant_witness:
  "\<exists>m' r' grown. extend demo_space demo_reservation 6 = Inr (m', r', grown) \<and> res_ok m' r'"
proof -
  have "size_of demo_space 6 = Inr 8"
    by (simp add: size_of_def fs_round_def safe_int_defs demo_space_def ceil_div_def)
  from extend_keeps_invariant [OF demo_reservation_ok this] show ?thesis by (auto simp: safe_int_defs)
qed

text \<open>
  Property C15: \<open>pieces\<close> of a range inside the capacity splits it into physical ranges whose bytes,
  read in order, are exactly the physical addresses of the logical positions, in order: a write that
  crosses segment boundaries puts every byte where a read of its position finds it.
\<close>

theorem pieces_cover:
  assumes "res_ok m r" "res_state r = Res_open" "0 \<le> position" "0 \<le> len" "position + len \<le> total (segments r)"
  shows "\<exists>ps. pieces r position len = Inr ps
    \<and> concat (map bytes_of ps) = map (addr (segments r)) [position..position + len - 1]"
  using pieces_loop_addr [of "align m" 0 "segments r" position "position + len"] res_capacity_total [OF assms(1)] assms
  by (auto simp: pieces_def check_open_def res_ok_def)

lemma pieces_cover_witness:
  "\<exists>ps. pieces demo_reservation 6 5 = Inr ps
    \<and> concat (map bytes_of ps) = map (addr (segments demo_reservation)) [6..10]"
  using pieces_cover [OF demo_reservation_ok(1,2), of 6 5] by (simp add: demo_reservation_def)

text \<open>
  Property C3: \<open>seal\<close>, followed by freeing what it lists for release, leaves exactly the sealed
  extent allocated: of everything the reservation held, only the rounded written length stays taken,
  nothing is freed twice, and its moves bring every written byte to its place in the extent.
\<close>

theorem seal_exact:
  assumes "res_ok m r" "res_state r = Res_open" "res_small r"
    "is_safe_integer len" "0 < len" "len \<le> total (segments r)" "size_of m len = Inr used" "is_safe_integer used"
  shows "\<exists>m1 r1 plan m'. seal m r len = Inr (m1, r1, plan) \<and> free_all m1 (plan_release plan) = Inr m'
    \<and> wf_map m' \<and> snd (plan_extent plan) = len
    \<and> free_set m' = (free_set m \<union> free_of (map phys (segments r)))
        - {fst (plan_extent plan)..<fst (plan_extent plan) + used}
    \<and> (\<forall>pos. 0 \<le> pos \<and> pos < len \<longrightarrow>
        arrives (plan_moves plan) (addr (segments r) pos) (fst (plan_extent plan) + pos))"
proof -
  obtain s rest where seg: "segments r = s # rest" using assms(1) by (cases "segments r") (auto simp: res_ok_def)
  have ch: "chained (align m) 0 (segments r)" and a: "0 < align m"
    using assms(1) by (auto simp: res_ok_def wf_map_def)
  have used: "align m dvd used" "0 < used" "len \<le> used"
    using assms(5,7) a fs_round_dvd [of m len used] fs_round_Inr [of m len "0 < used \<and> len \<le> used"] assms(4)
    by (auto simp: size_of_def)
  note cap = res_capacity_total [OF assms(1)]
  show ?thesis
  proof (cases "used \<le> seg_capacity s")
    case True
    obtain m' where m': "free_all m ((if used < seg_capacity s then [(seg_offset s + used, seg_capacity s - used)] else [])
        @ map (\<lambda>s. (seg_offset s, seg_capacity s)) rest) = Inr m'" "wf_map m'"
      "free_set m' = (free_set m \<union> free_of (map phys (segments r))) - {seg_offset s..<seg_offset s + used}"
      using seal_in_place [OF assms(1,3) seg used(1,2) True] by blast
    have "addr (segments r) pos = seg_offset s + pos" if "0 \<le> pos" "pos < len" for pos
      using that True used ch by (simp add: seg)
    then show ?thesis using m' True cap assms(2,4-7)
      by (simp add: seal_def check_open_def seg arrives_def)
  next
    case False
    obtain m1 target m' where m': "allocate m used = Inr (m1, target)"
      "free_all m1 (map (\<lambda>s. (seg_offset s, seg_capacity s)) (segments r)) = Inr m'" "wf_map m'"
      "free_set m' = (free_set m \<union> free_of (map phys (segments r))) - {target..<target + used}"
      using seal_moved [OF assms(1,3) used(1) assms(8) used(2)] by blast
    let ?moves = "map (\<lambda>s. (seg_offset s, target + seg_start s, min (seg_capacity s) (len - seg_start s)))
             (filter (\<lambda>s. seg_start s < len) (segments r))"
    have "arrives ?moves (addr (segments r) pos) (target + pos)" if "0 \<le> pos" "pos < len" for pos
    proof -
      note R = moves_reach [OF ch that]
      obtain t where t: "t \<in> set (segments r)" "seg_start t < len" "seg_offset t \<le> addr (segments r) pos"
        "addr (segments r) pos < seg_offset t + min (seg_capacity t) (len - seg_start t)"
        "seg_start t + (addr (segments r) pos - seg_offset t) = pos"
        using R assms(6) by auto
      let ?x = "(seg_offset t, target + seg_start t, min (seg_capacity t) (len - seg_start t))"
      have x: "?x \<in> set ?moves" using t(1,2) by auto
      have "?moves \<noteq> []" using t(1,2) by (auto simp: filter_empty_conv)
      then show ?thesis unfolding arrives_def using t(3-5) by (simp only: if_False) (rule bexI [OF _ x], simp)
    qed
    then show ?thesis using m' False cap assms(2,4-7)
      by (simp add: seal_def check_open_def seg)
  qed
qed

lemma seal_exact_witness:
  "\<exists>m1 r1 plan m'. seal demo_space demo_reservation 10 = Inr (m1, r1, plan)
    \<and> free_all m1 (plan_release plan) = Inr m' \<and> wf_map m'"
proof -
  have "size_of demo_space 10 = Inr 12"
    by (simp add: size_of_def fs_round_def safe_int_defs demo_space_def ceil_div_def)
  moreover have "(10 :: int) \<le> total (segments demo_reservation)" by (simp add: demo_reservation_def)
  ultimately show ?thesis using seal_exact [OF demo_reservation_ok, of 10 12] by (auto simp: safe_int_defs)
qed

end
