(* ===== verification/ScopeEffect.thy ===== *)
theory ScopeEffect
  imports Unicode
begin

text \<open>
  The net effects of a write scope (\<open>engine/scope-write-set.ts\<close>) and the tokens of keys
  (\<open>engine/index-terms.ts\<close>): what the statements of a scope did to one key folds into one effect.

  A column value is \<open>None\<close> where the source has \<open>null\<close>, and a value an update leaves alone, the
  source's \<open>undefined\<close>, is \<open>None\<close> around that. Numbers are a parameter type: the code only asks
  whether one is finite and prints it, both by the host (\<open>Number.isFinite\<close>, \<open>String\<close>).
\<close>

subsection \<open>Values, columns, tables\<close>

datatype 'n batch_value = VBoolean bool | VNumber 'n | VString js_string | VDate 'n

type_synonym 'n datum = "'n batch_value option"
type_synonym 'n row = "'n datum list"

datatype simple_type = TBoolean | TNumber | TString | TDatetime

record column =
  column_id :: js_string
  column_name :: js_string
  column_type :: simple_type

record table_record =
  table_id :: js_string
  table_columns :: "column list"
  unique_key_column_id :: "js_string option"

definition get_unique_key_column :: "table_record \<Rightarrow> column option" where
  "get_unique_key_column table =
     (case unique_key_column_id table of
        None \<Rightarrow> None
      | Some i \<Rightarrow> find (\<lambda>column. column_id column = i) (table_columns table))"

definition ascii_units :: "string \<Rightarrow> js_string" where
  "ascii_units s = map of_char s"

definition MAX_INDEXED_STRING_CHARACTERS :: nat where
  "MAX_INDEXED_STRING_CHARACTERS = 16384"

record 'n host_numbers =
  number_text :: "'n \<Rightarrow> js_string"
  number_finite :: "'n \<Rightarrow> bool"

definition key_token :: "'n host_numbers \<Rightarrow> simple_type \<Rightarrow> 'n datum \<Rightarrow> js_string result" where
  "key_token host type v =
     (case v of
        None \<Rightarrow> Inl (TypeError ''Unique key cannot be null'')
      | Some x \<Rightarrow>
          (case type of
             TBoolean \<Rightarrow>
               (case x of
                  VBoolean b \<Rightarrow> Inr (if b then ascii_units ''boolean:true'' else ascii_units ''boolean:false'')
                | _ \<Rightarrow> Inl (TypeError ''Invalid boolean unique key''))
           | TNumber \<Rightarrow>
               (case x of
                  VNumber n \<Rightarrow>
                    if number_finite host n then Inr (ascii_units ''number:'' @ number_text host n)
                    else Inl (TypeError ''Invalid number unique key'')
                | _ \<Rightarrow> Inl (TypeError ''Invalid number unique key''))
           | TString \<Rightarrow>
               (case x of
                  VString s \<Rightarrow>
                    if MAX_INDEXED_STRING_CHARACTERS < length s
                    then Inl (RangeError ''Indexed strings cannot exceed their limit'')
                    else Inr (ascii_units ''string:'' @ s)
                | _ \<Rightarrow> Inl (TypeError ''Invalid string unique key''))
           | TDatetime \<Rightarrow>
               (case x of
                  VDate n \<Rightarrow>
                    if number_finite host n then Inr (ascii_units ''datetime:'' @ number_text host n)
                    else Inl (TypeError ''Invalid datetime unique key'')
                | _ \<Rightarrow> Inl (TypeError ''Invalid datetime unique key''))))"

subsection \<open>Effects\<close>

datatype effect_kind = KInsert | KUpsert | KUpdate | KDelete

record 'n scope_effect =
  effect_kind :: effect_kind
  effect_values :: "'n datum option list"

text \<open>
  \<open>next.values.forEach (...)\<close> on a copy of \<open>base.values\<close>: a position behind the end of the copy is
  written only where the patch has a value, with holes before it.
\<close>

fun patch_values :: "'a option list \<Rightarrow> 'a option list \<Rightarrow> 'a option list" where
  "patch_values bs [] = bs"
| "patch_values [] (v # vs) = (if list_all (\<lambda>x. x = None) (v # vs) then [] else v # patch_values [] vs)"
| "patch_values (b # bs) (v # vs) = (if v = None then b else v) # patch_values bs vs"

definition compose_scope_effect :: "'n scope_effect option \<Rightarrow> 'n scope_effect \<Rightarrow> 'n scope_effect result" where
  "compose_scope_effect base nxt =
     (case effect_kind nxt of
        KDelete \<Rightarrow> Inr nxt
      | KInsert \<Rightarrow>
          Inr (case base of
                 Some b \<Rightarrow> if effect_kind b = KDelete then \<lparr>effect_kind = KUpsert, effect_values = effect_values nxt\<rparr> else nxt
               | None \<Rightarrow> nxt)
      | KUpsert \<Rightarrow>
          Inr (case base of
                 Some b \<Rightarrow> if effect_kind b = KInsert then \<lparr>effect_kind = KInsert, effect_values = effect_values nxt\<rparr> else nxt
               | None \<Rightarrow> nxt)
      | KUpdate \<Rightarrow>
          (case base of
             None \<Rightarrow> Inr nxt
           | Some b \<Rightarrow>
               if effect_kind b = KDelete then Inl (PlainError ''A deleted key cannot take an update'')
               else Inr \<lparr>effect_kind = effect_kind b, effect_values = patch_values (effect_values b) (effect_values nxt)\<rparr>))"

record 'n scope_entry =
  entry_key :: "'n batch_value option"
  entry_staged :: "'n scope_effect option"
  entry_pending :: "'n scope_effect option"

definition net_scope_effect :: "'n scope_entry \<Rightarrow> 'n scope_effect option result" where
  "net_scope_effect entry =
     (case entry_pending entry of
        None \<Rightarrow> Inr (entry_staged entry)
      | Some p \<Rightarrow> bindR (compose_scope_effect (entry_staged entry) p) (\<lambda>e. Inr (Some e)))"

subsection \<open>What an effect does to a row\<close>

text \<open>
  The contract of a statement's effect on the row of a key, absent or present, in a table of \<open>n\<close>
  columns with the key at \<open>kp\<close>; \<open>None\<close> where the statement was not entitled to it: an insert needs
  an absent row, an update a present one whose key it names.
\<close>

definition row_of :: "'n datum option list \<Rightarrow> 'n row" where
  "row_of vs = map (\<lambda>v. case v of None \<Rightarrow> None | Some c \<Rightarrow> c) vs"

definition patch_row :: "'n row \<Rightarrow> 'n datum option list \<Rightarrow> 'n row" where
  "patch_row row vs = map2 (\<lambda>c v. case v of None \<Rightarrow> c | Some c' \<Rightarrow> c') row vs"

definition run_effect :: "nat \<Rightarrow> nat \<Rightarrow> 'n scope_effect \<Rightarrow> 'n row option \<Rightarrow> 'n row option option" where
  "run_effect n kp e r =
     (case effect_kind e of
        KDelete \<Rightarrow> Some None
      | KUpsert \<Rightarrow> if length (effect_values e) = n then Some (Some (row_of (effect_values e))) else None
      | KInsert \<Rightarrow> if length (effect_values e) = n \<and> r = None then Some (Some (row_of (effect_values e))) else None
      | KUpdate \<Rightarrow>
          (case r of
             None \<Rightarrow> None
           | Some row \<Rightarrow>
               if length (effect_values e) = n \<and> length row = n \<and> kp < n \<and> effect_values e ! kp = Some (row ! kp)
               then Some (Some (patch_row row (effect_values e))) else None))"

lemma patch_values_same_length: "length vs = length bs \<Longrightarrow> patch_values bs vs = map2 (\<lambda>b v. if v = None then b else v) bs vs"
  by (induction bs vs rule: list_induct2') auto

lemma length_patch_values [simp]: "length vs = length bs \<Longrightarrow> length (patch_values bs vs) = length bs"
  by (simp add: patch_values_same_length)

lemma nth_patch_values: "length vs = length bs \<Longrightarrow> i < length bs \<Longrightarrow> patch_values bs vs ! i = (if vs ! i = None then bs ! i else vs ! i)"
  by (simp add: patch_values_same_length)

lemma length_patch_row [simp]: "length vs = length row \<Longrightarrow> length (patch_row row vs) = length row"
  by (simp add: patch_row_def)

lemma nth_patch_row: "length vs = length row \<Longrightarrow> i < length row \<Longrightarrow> patch_row row vs ! i = (case vs ! i of None \<Rightarrow> row ! i | Some c \<Rightarrow> c)"
  by (simp add: patch_row_def)

lemma row_of_patch: "length vs = length bs \<Longrightarrow> row_of (patch_values bs vs) = patch_row (row_of bs) vs"
  by (rule nth_equalityI) (auto simp: row_of_def nth_patch_values nth_patch_row split: option.splits)

lemma patch_row_patch:
  "length vs = length bs \<Longrightarrow> length bs = length row \<Longrightarrow> patch_row row (patch_values bs vs) = patch_row (patch_row row bs) vs"
  by (rule nth_equalityI) (auto simp: nth_patch_values nth_patch_row split: option.splits)

lemma compose_refusal:
  "(\<exists>e. compose_scope_effect base nxt = Inl e) \<longleftrightarrow> effect_kind nxt = KUpdate \<and> (\<exists>b. base = Some b \<and> effect_kind b = KDelete)"
  by (auto simp: compose_scope_effect_def split: effect_kind.splits option.splits)

lemma compose_runs:
  assumes "run_effect n kp base r = Some r1" "run_effect n kp nxt r1 = Some r2"
  shows "\<exists>c. compose_scope_effect (Some base) nxt = Inr c \<and> run_effect n kp c r = Some r2"
proof (cases "effect_kind nxt")
  case KUpdate
  then obtain row where row: "r1 = Some row" "length (effect_values nxt) = n" "length row = n" "kp < n"
    "effect_values nxt ! kp = Some (row ! kp)" "r2 = Some (patch_row row (effect_values nxt))"
    using assms(2) by (auto simp: run_effect_def split: option.splits if_splits)
  then show ?thesis using assms(1) KUpdate
    by (cases "effect_kind base")
      (auto simp: run_effect_def compose_scope_effect_def row_of_patch patch_row_patch nth_patch_values nth_patch_row row_of_def [symmetric]
        split: option.splits if_splits)
qed (use assms in \<open>auto simp: run_effect_def compose_scope_effect_def split: option.splits if_splits effect_kind.splits\<close>)

text \<open>
  Property C17: composing two effects is running one after the other. Whenever a scope was entitled to
  both, the composition exists, one statement on the original row is entitled to it, and it leaves
  the row both leave; and the composition refuses nothing but an update after a delete.
\<close>

theorem compose_is_sequence:
  assumes "run_effect n kp base r = Some r1" "run_effect n kp nxt r1 = Some r2"
  shows "(\<exists>c. compose_scope_effect (Some base) nxt = Inr c \<and> run_effect n kp c r = Some r2) \<and>
    (\<forall>a b. (\<exists>e. compose_scope_effect (Some a) b = Inl e) = (effect_kind b = KUpdate \<and> effect_kind a = KDelete))"
  using compose_runs [OF assms] compose_refusal by blast

text \<open>A row deleted and inserted again replaces the committed row in place.\<close>

lemma compose_is_sequence_witness:
  "compose_scope_effect (Some \<lparr>effect_kind = KDelete, effect_values = []\<rparr>)
     \<lparr>effect_kind = KInsert, effect_values = [Some (Some (VBoolean True))]\<rparr>
   = Inr (\<lparr>effect_kind = KUpsert, effect_values = [Some (Some (VBoolean True))]\<rparr> :: nat scope_effect)"
proof -
  let ?d = "\<lparr>effect_kind = KDelete, effect_values = []\<rparr> :: nat scope_effect"
  let ?i = "\<lparr>effect_kind = KInsert, effect_values = [Some (Some (VBoolean True))]\<rparr> :: nat scope_effect"
  have "run_effect 1 0 ?d (Some [Some (VBoolean False)]) = Some None" by (simp add: run_effect_def)
  moreover have "run_effect 1 0 ?i None = Some (Some [Some (VBoolean True)])" by (simp add: run_effect_def row_of_def)
  ultimately have "\<exists>c. compose_scope_effect (Some ?d) ?i = Inr c"
    using compose_is_sequence [of 1 0 ?d "Some [Some (VBoolean False)]" None ?i "Some [Some (VBoolean True)]"] by blast
  then show ?thesis by (simp add: compose_scope_effect_def)
qed

end
