(* ===== verification/ScopeWrites.thy ===== *)
theory ScopeWrites
  imports ScopeEffect JsMap
begin

text \<open>
  The write sets of a scope (\<open>engine/database.ts\<close>, \<open>engine/scope-write-set.ts\<close>): statements are
  buffered per table and key, and become segments when enough waits, when a read or a savepoint asks,
  or at the commit.

  The state is the scope's write state and the segments its transaction has staged. Staging may
  throw, and so may the renewal of the lease: both are given by the environment. An \<open>await\<close> is a
  call, as the flushes of a scope take turns.
\<close>

subsection \<open>The state\<close>

record 'n write_set =
  ws_table :: table_record
  ws_key_column :: "column option"
  ws_rows :: "(js_string, 'n scope_entry) js_map"
  ws_pending_rows :: int
  ws_pending_bytes :: int
  ws_mirror_bytes :: int
  ws_opaque :: bool
  ws_unkeyed_sequence :: nat

text \<open>
  A staged segment: the keys it deletes; the keys it updates with the new values at some column
  positions; or whole rows.
\<close>

datatype 'n scope_segment =
    DeleteSegment "'n batch_value list"
  | UpdateSegment "nat list" "('n datum \<times> 'n datum list) list"
  | RowSegment bool "'n row list"

record 'n scope =
  sc_tables :: "(js_string, 'n write_set) js_map"
  sc_mirrored :: bool
  sc_generation :: int
  sc_flushed_work :: int
  sc_failure :: "js_error option"
  sc_staged :: "(table_record \<times> 'n scope_segment) list"
  sc_staged_work :: int

record 'n scope_env =
  host :: "'n host_numbers"
  rows_per_block :: int
  budget_bytes :: int
  renew_if_due :: "'n scope \<Rightarrow> js_error option"
  stage_fails :: "'n scope \<Rightarrow> table_record \<Rightarrow> 'n scope_segment \<Rightarrow> js_error option"
  stage_work :: "'n scope \<Rightarrow> table_record \<Rightarrow> 'n scope_segment \<Rightarrow> int"

type_synonym ('n, 'a) scope_eff = "('n scope, 'a) eff"

text \<open>\<open>#scopeWriteSet\<close>: the set of a table, made on first use.\<close>

definition new_write_set :: "table_record \<Rightarrow> 'n write_set" where
  "new_write_set table =
     \<lparr>ws_table = table, ws_key_column = get_unique_key_column table, ws_rows = [], ws_pending_rows = 0,
      ws_pending_bytes = 0, ws_mirror_bytes = 0, ws_opaque = False, ws_unkeyed_sequence = 0\<rparr>"

definition scope_write_set :: "table_record \<Rightarrow> 'n scope \<Rightarrow> 'n write_set" where
  "scope_write_set table s =
     (case map_of (sc_tables s) (table_id table) of Some ws \<Rightarrow> ws | None \<Rightarrow> new_write_set table)"

definition put_set :: "js_string \<Rightarrow> 'n write_set \<Rightarrow> 'n scope \<Rightarrow> 'n scope" where
  "put_set tid ws s = s \<lparr>sc_tables := map_set tid ws (sc_tables s)\<rparr>"

definition find_index :: "('a \<Rightarrow> bool) \<Rightarrow> 'a list \<Rightarrow> nat option" where
  "find_index P xs = find (\<lambda>i. P (xs ! i)) [0..<length xs]"

subsection \<open>Sizes\<close>

definition value_bytes :: "'n datum \<Rightarrow> int" where
  "value_bytes v =
     (case v of Some (VString s) \<Rightarrow> 4 + int (length s) | Some (VNumber _) \<Rightarrow> 8 | Some (VDate _) \<Rightarrow> 8 | _ \<Rightarrow> 1)"

definition estimate_values_bytes :: "'n datum list \<Rightarrow> int" where
  "estimate_values_bytes vs = sum_list (map value_bytes vs)"

type_synonym 'n batch = "(js_string, 'n datum list) js_map"

definition estimate_batch_bytes :: "'n batch \<Rightarrow> int" where
  "estimate_batch_bytes batch = sum_list (map (\<lambda>(_, vs). estimate_values_bytes vs) batch)"

subsection \<open>Staging a write set\<close>

definition stage_segment :: "'n scope_env \<Rightarrow> table_record \<Rightarrow> 'n scope_segment \<Rightarrow> ('n, unit) scope_eff" where
  "stage_segment env table seg s =
     (case stage_fails env s table seg of
        Some e \<Rightarrow> (s, Inl e)
      | None \<Rightarrow>
          (s \<lparr>sc_staged := sc_staged s @ [(table, seg)], sc_staged_work := sc_staged_work s + stage_work env s table seg\<rparr>, Inr ()))"

definition pending_of_kind :: "effect_kind \<Rightarrow> 'n write_set \<Rightarrow> ('n scope_entry \<times> 'n scope_effect) list" where
  "pending_of_kind k ws =
     concat (map (\<lambda>(_, entry).
       case entry_pending entry of
         Some e \<Rightarrow> if effect_kind e = k then [(entry, e)] else []
       | None \<Rightarrow> []) (ws_rows ws))"

text \<open>The columns an update touches, but for the key's; updates of the same columns share a segment.\<close>

definition touched :: "nat option \<Rightarrow> 'n scope_effect \<Rightarrow> nat list" where
  "touched key_position e =
     filter (\<lambda>p. effect_values e ! p \<noteq> None \<and> Some p \<noteq> key_position) [0..<length (effect_values e)]"

fun add_to_group ::
  "nat list \<Rightarrow> 'e \<Rightarrow> (nat list, 'e list) js_map \<Rightarrow> (nat list, 'e list) js_map"
where
  "add_to_group positions entry groups =
     map_set positions ((case map_of groups positions of Some es \<Rightarrow> es | None \<Rightarrow> []) @ [entry]) groups"

definition update_groups ::
  "nat option \<Rightarrow> ('n scope_entry \<times> 'n scope_effect) list \<Rightarrow> (nat list, ('n scope_entry \<times> 'n scope_effect) list) js_map"
where
  "update_groups key_position us = fold (\<lambda>u. add_to_group (touched key_position (snd u)) u) us []"

definition cell_at :: "'n scope_effect \<Rightarrow> nat \<Rightarrow> 'n datum" where
  "cell_at e p = (if p < length (effect_values e) then (case effect_values e ! p of Some c \<Rightarrow> c | None \<Rightarrow> None) else None)"

definition batch_of :: "table_record \<Rightarrow> 'n scope_effect list \<Rightarrow> 'n row list" where
  "batch_of table effects = map (\<lambda>e. map (cell_at e) [0..<length (table_columns table)]) effects"

definition update_segment :: "nat list \<Rightarrow> ('n scope_entry \<times> 'n scope_effect) list \<Rightarrow> 'n scope_segment" where
  "update_segment positions us =
     UpdateSegment positions (map (\<lambda>(entry, e). (entry_key entry, map (cell_at e) positions)) us)"

text \<open>The segments of a set's pending effects, in the order they are staged.\<close>

definition scope_segments :: "'n write_set \<Rightarrow> 'n scope_segment list" where
  "scope_segments ws =
     (let table = ws_table ws;
          key_position = (case ws_key_column ws of
            None \<Rightarrow> None
          | Some k \<Rightarrow> find_index (\<lambda>column. column_id column = column_id k) (table_columns table));
          deletes = concat (map (\<lambda>(entry, _). case entry_key entry of Some k \<Rightarrow> [k] | None \<Rightarrow> []) (pending_of_kind KDelete ws));
          updates = update_groups key_position (pending_of_kind KUpdate ws);
          upserts = map snd (pending_of_kind KUpsert ws);
          inserts = map snd (pending_of_kind KInsert ws)
      in (if ws_key_column ws = None then []
          else (if deletes \<noteq> [] then [DeleteSegment deletes] else []) @ map (\<lambda>(positions, us). update_segment positions us) updates) @
         (if upserts \<noteq> [] then [RowSegment False (batch_of table upserts)] else []) @
         (if inserts \<noteq> [] then [RowSegment True (batch_of table inserts)] else []))"

fun stage_all :: "'n scope_env \<Rightarrow> table_record \<Rightarrow> 'n scope_segment list \<Rightarrow> ('n, unit) scope_eff" where
  "stage_all env table [] = retE ()"
| "stage_all env table (seg # segs) = bindE (stage_segment env table seg) (\<lambda>_. stage_all env table segs)"

text \<open>
  The loop that moves what was staged into the mirror, or drops it; an entry whose composition
  throws leaves the ones before it moved.
\<close>

fun mirror_loop :: "bool \<Rightarrow> (js_string, 'n scope_entry) js_map \<Rightarrow> (js_string, 'n scope_entry) js_map \<times> unit result" where
  "mirror_loop mirror [] = ([], Inr ())"
| "mirror_loop mirror ((token, entry) # rows) =
     (case entry_pending entry of
        None \<Rightarrow> (let (rows', r) = mirror_loop mirror rows in ((token, entry) # rows', r))
      | Some p \<Rightarrow>
          if \<not> mirror then mirror_loop mirror rows
          else (case compose_scope_effect (entry_staged entry) p of
                  Inl e \<Rightarrow> ((token, entry) # rows, Inl e)
                | Inr c \<Rightarrow>
                    let (rows', r) = mirror_loop mirror rows
                    in ((token, entry \<lparr>entry_staged := Some c, entry_pending := None\<rparr>) # rows', r)))"

definition stage_scope_write_set :: "'n scope_env \<Rightarrow> js_string \<Rightarrow> ('n, unit) scope_eff" where
  "stage_scope_write_set env tid s =
     (case map_of (sc_tables s) tid of
        None \<Rightarrow> (s, Inr ())
      | Some ws \<Rightarrow>
          bindE (stage_all env (ws_table ws) (scope_segments ws)) (\<lambda>_ s.
            let mirror = (ws_key_column ws \<noteq> None \<and> sc_mirrored s \<and> \<not> ws_opaque ws);
                (rows, r) = mirror_loop mirror (ws_rows ws)
            in case r of
                 Inl e \<Rightarrow> (put_set tid (ws \<lparr>ws_rows := rows\<rparr>) s, Inl e)
               | Inr _ \<Rightarrow>
                   (put_set tid (ws \<lparr>ws_rows := rows,
                       ws_mirror_bytes := (if mirror then ws_mirror_bytes ws + ws_pending_bytes ws else ws_mirror_bytes ws),
                       ws_pending_bytes := 0, ws_pending_rows := 0\<rparr>) s, Inr ())) s)"

subsection \<open>Flushing\<close>

definition drop_mirror :: "'n write_set \<Rightarrow> 'n write_set" where
  "drop_mirror ws = ws \<lparr>
     ws_rows := concat (map (\<lambda>(token, entry).
        if entry_pending entry = None then [] else [(token, entry \<lparr>entry_staged := None\<rparr>)]) (ws_rows ws)),
     ws_mirror_bytes := 0\<rparr>"

fun flush_loop :: "'n scope_env \<Rightarrow> js_string list \<Rightarrow> ('n, unit) scope_eff" where
  "flush_loop env [] s = (s, Inr ())"
| "flush_loop env (tid # tids) s =
     (case map_of (sc_tables s) tid of
        None \<Rightarrow> flush_loop env tids s
      | Some ws \<Rightarrow>
          if ws_pending_rows ws = 0 then flush_loop env tids s
          else
            let before = sc_staged_work s;
                (s, r) = stage_scope_write_set env tid s;
                s = (case r of Inl e \<Rightarrow> (if sc_failure s = None then s \<lparr>sc_failure := Some e\<rparr> else s) | Inr _ \<Rightarrow> s);
                s = s \<lparr>sc_flushed_work := sc_flushed_work s + (sc_staged_work s - before)\<rparr>
            in case r of Inl e \<Rightarrow> (s, Inl e) | Inr _ \<Rightarrow> flush_loop env tids s)"

definition flush_scope_write_sets :: "'n scope_env \<Rightarrow> js_string list option \<Rightarrow> ('n, unit) scope_eff" where
  "flush_scope_write_sets env table_ids s =
     bindE (flush_loop env (case table_ids of Some ids \<Rightarrow> ids | None \<Rightarrow> map fst (sc_tables s))) (\<lambda>_ s.
       if \<not> sc_mirrored s then (s, Inr ())
       else if sum_list (map (\<lambda>(_, ws). ws_mirror_bytes ws + ws_pending_bytes ws) (sc_tables s)) \<le> budget_bytes env then (s, Inr ())
       else (s \<lparr>sc_mirrored := False, sc_tables := map (\<lambda>(tid, ws). (tid, drop_mirror ws)) (sc_tables s)\<rparr>, Inr ())) s"

definition settle_scope_write_set :: "'n scope_env \<Rightarrow> table_record \<Rightarrow> ('n, unit) scope_eff" where
  "settle_scope_write_set env table s =
     (case renew_if_due env s of
        Some e \<Rightarrow> (s, Inl e)
      | None \<Rightarrow>
          if rows_per_block env \<le> ws_pending_rows (scope_write_set table s)
          then flush_scope_write_sets env (Some [table_id table]) s
          else if budget_bytes env \<le> sum_list (map (\<lambda>(_, ws). ws_pending_bytes ws) (sc_tables s))
          then flush_scope_write_sets env None s
          else (s, Inr ()))"

subsection \<open>Buffering statements\<close>

definition apply_scope_effect :: "js_string \<Rightarrow> js_string \<Rightarrow> 'n batch_value option \<Rightarrow> 'n scope_effect \<Rightarrow> ('n, unit) scope_eff" where
  "apply_scope_effect tid token key e s =
     (case map_of (sc_tables s) tid of
        None \<Rightarrow> (s, Inr ())
      | Some ws \<Rightarrow>
          let entry = (case map_of (ws_rows ws) token of
                Some entry \<Rightarrow> entry
              | None \<Rightarrow> \<lparr>entry_key = key, entry_staged = None, entry_pending = None\<rparr>);
              pending_rows = (if entry_pending entry = None then ws_pending_rows ws + 1 else ws_pending_rows ws)
          in case compose_scope_effect (entry_pending entry) e of
               Inl err \<Rightarrow>
                 (put_set tid (ws \<lparr>ws_rows := map_set token entry (ws_rows ws), ws_pending_rows := pending_rows\<rparr>) s, Inl err)
             | Inr c \<Rightarrow>
                 (put_set tid (ws \<lparr>ws_rows := map_set token (entry \<lparr>entry_pending := Some c\<rparr>) (ws_rows ws),
                     ws_pending_rows := pending_rows\<rparr>) s, Inr ()))"

definition begin_buffer :: "table_record \<Rightarrow> 'n scope \<Rightarrow> 'n scope" where
  "begin_buffer table s =
     (let s = s \<lparr>sc_generation := sc_generation s + 1\<rparr> in put_set (table_id table) (scope_write_set table s) s)"

definition add_pending_bytes :: "js_string \<Rightarrow> int \<Rightarrow> 'n scope \<Rightarrow> 'n scope" where
  "add_pending_bytes tid bytes s =
     (case map_of (sc_tables s) tid of
        None \<Rightarrow> s
      | Some ws \<Rightarrow> put_set tid (ws \<lparr>ws_pending_bytes := ws_pending_bytes ws + bytes\<rparr>) s)"

definition batch_cell :: "'n batch \<Rightarrow> js_string \<Rightarrow> nat \<Rightarrow> 'n datum" where
  "batch_cell batch name i =
     (case map_of batch name of None \<Rightarrow> None | Some vs \<Rightarrow> if i < length vs then vs ! i else None)"

fun decimal_digits :: "nat \<Rightarrow> nat list" where
  "decimal_digits n = (if n < 10 then [n] else decimal_digits (n div 10) @ [n mod 10])"

definition unkeyed_token :: "nat \<Rightarrow> js_string" where
  "unkeyed_token n = 0 # map (\<lambda>d. 48 + of_nat d) (decimal_digits n)"

fun effects_loop :: "js_string \<Rightarrow> (js_string \<times> 'n batch_value option \<times> 'n scope_effect) result list \<Rightarrow> ('n, unit) scope_eff" where
  "effects_loop tid [] = retE ()"
| "effects_loop tid (Inl err # effects) = throwE err"
| "effects_loop tid (Inr (token, key, e) # effects) =
     bindE (apply_scope_effect tid token key e) (\<lambda>_. effects_loop tid effects)"

definition row_effects ::
  "'n host_numbers \<Rightarrow> table_record \<Rightarrow> nat \<Rightarrow> 'n batch \<Rightarrow> nat \<Rightarrow> effect_kind \<Rightarrow>
     (js_string \<times> 'n batch_value option \<times> 'n scope_effect) result list"
where
  "row_effects numbers table sequence batch row_count kind =
     map (\<lambda>i.
       let e = \<lparr>effect_kind = kind, effect_values = map (\<lambda>column. Some (batch_cell batch (column_name column) i)) (table_columns table)\<rparr>
       in (case get_unique_key_column table of
             None \<Rightarrow> Inr (unkeyed_token (sequence + i), None, e)
           | Some key_column \<Rightarrow>
               (case batch_cell batch (column_name key_column) i of
                  None \<Rightarrow> Inl (TypeError ''Unique key cannot be null'')
                | Some key \<Rightarrow> bindR (key_token numbers (column_type key_column) (Some key)) (\<lambda>token. Inr (token, Some key, e)))))
     [0..<row_count]"

definition buffer_scope_rows :: "'n scope_env \<Rightarrow> table_record \<Rightarrow> 'n batch \<Rightarrow> nat \<Rightarrow> effect_kind \<Rightarrow> ('n, unit) scope_eff" where
  "buffer_scope_rows env table batch row_count kind s =
     (let s = begin_buffer table s;
          sequence = ws_unkeyed_sequence (scope_write_set table s);
          s = (if get_unique_key_column table = None
               then put_set (table_id table) ((scope_write_set table s) \<lparr>ws_unkeyed_sequence := sequence + row_count\<rparr>) s else s)
      in bindE (effects_loop (table_id table) (row_effects (host env) table sequence batch row_count kind)) (\<lambda>_ s.
           settle_scope_write_set env table (add_pending_bytes (table_id table) (estimate_batch_bytes batch) s)) s)"

definition update_effects ::
  "'n host_numbers \<Rightarrow> table_record \<Rightarrow> column \<Rightarrow> 'n datum list \<Rightarrow> 'n batch \<Rightarrow>
     (js_string \<times> 'n batch_value option \<times> 'n scope_effect) result list"
where
  "update_effects numbers table key_column keys changes =
     (let columns = table_columns table;
          put = (\<lambda>p v vs. case p of None \<Rightarrow> vs | Some i \<Rightarrow> vs[i := v]);
          key_position = find_index (\<lambda>column. column_id column = column_id key_column) columns
      in map (\<lambda>i.
           case keys ! i of
             None \<Rightarrow> Inl (TypeError ''Unique key cannot be null'')
           | Some key \<Rightarrow>
               let start = put key_position (Some (Some key)) (replicate (length columns) None);
                   vs = fold (\<lambda>(name, cells). put (find_index (\<lambda>column. column_name column = name) columns)
                      (Some (if i < length cells then cells ! i else None))) changes start
               in bindR (key_token numbers (column_type key_column) (Some key)) (\<lambda>token.
                    Inr (token, Some key, \<lparr>effect_kind = KUpdate, effect_values = vs\<rparr>)))
         [0..<length keys])"

definition buffer_scope_update :: "'n scope_env \<Rightarrow> table_record \<Rightarrow> column \<Rightarrow> 'n datum list \<Rightarrow> 'n batch \<Rightarrow> ('n, unit) scope_eff" where
  "buffer_scope_update env table key_column keys changes s =
     (let s = begin_buffer table s;
          bytes = estimate_values_bytes keys + estimate_batch_bytes changes
      in bindE (effects_loop (table_id table) (update_effects (host env) table key_column keys changes)) (\<lambda>_ s.
           settle_scope_write_set env table (add_pending_bytes (table_id table) bytes s)) s)"

definition delete_effects :: "(js_string \<times> 'n batch_value) list \<Rightarrow> (js_string \<times> 'n batch_value option \<times> 'n scope_effect) result list" where
  "delete_effects keys = map (\<lambda>(token, key). Inr (token, Some key, \<lparr>effect_kind = KDelete, effect_values = []\<rparr>)) keys"

definition buffer_scope_delete :: "'n scope_env \<Rightarrow> table_record \<Rightarrow> (js_string \<times> 'n batch_value) list \<Rightarrow> ('n, unit) scope_eff" where
  "buffer_scope_delete env table keys s =
     (let s = begin_buffer table s;
          bytes = estimate_values_bytes (map (\<lambda>(_, key). Some key) keys)
      in bindE (effects_loop (table_id table) (delete_effects keys)) (\<lambda>_ s.
           settle_scope_write_set env table (add_pending_bytes (table_id table) bytes s)) s)"

subsection \<open>Segments staged past the sets, savepoints and the commit\<close>

definition stage_scope_directly :: "'n scope_env \<Rightarrow> table_record \<Rightarrow> ('n, unit) scope_eff" where
  "stage_scope_directly env table =
     bindE (flush_scope_write_sets env (Some [table_id table])) (\<lambda>_ s.
       (put_set (table_id table) ((scope_write_set table s) \<lparr>ws_opaque := True\<rparr>) s, Inr ()))"

definition finish_scope_write_sets :: "'n scope_env \<Rightarrow> ('n, unit) scope_eff" where
  "finish_scope_write_sets env s = flush_scope_write_sets env None (s \<lparr>sc_mirrored := False\<rparr>)"

definition has_pending_scope_writes :: "'n scope \<Rightarrow> bool" where
  "has_pending_scope_writes s \<longleftrightarrow> list_ex (\<lambda>(_, ws). 0 < ws_pending_rows ws) (sc_tables s)"

definition discard_scope_write_sets :: "'n scope \<Rightarrow> 'n scope" where
  "discard_scope_write_sets s =
     s \<lparr>sc_tables := [], sc_mirrored := False, sc_generation := sc_generation s + 1, sc_flushed_work := 0, sc_failure := None\<rparr>"

text \<open>A fresh scope.\<close>

definition new_scope :: "'n scope" where
  "new_scope = \<lparr>sc_tables = [], sc_mirrored = True, sc_generation = 0, sc_flushed_work = 0, sc_failure = None,
     sc_staged = [], sc_staged_work = 0\<rparr>"

end
