(* ===== verification/ScopeReplay.thy ===== *)
theory ScopeReplay
  imports ScopeWrites "HOL-Library.Multiset"
begin

text \<open>
  What staged segments do to a table: the contract a read or a later compaction gives them, and the
  proof that staging a write set is running its pending effects.
\<close>

subsection \<open>Replaying segments\<close>

type_synonym 'n view = "js_string \<Rightarrow> 'n row option"
type_synonym 'n row_update = "js_string \<times> ('n row option \<Rightarrow> 'n row option option)"

definition key_position :: "table_record \<Rightarrow> nat" where
  "key_position table =
     (case get_unique_key_column table of
        None \<Rightarrow> 0
      | Some k \<Rightarrow> (case find_index (\<lambda>column. column_id column = column_id k) (table_columns table) of Some p \<Rightarrow> p | None \<Rightarrow> 0))"

definition token_of :: "'n host_numbers \<Rightarrow> table_record \<Rightarrow> 'n datum \<Rightarrow> js_string" where
  "token_of numbers table c =
     (case get_unique_key_column table of
        None \<Rightarrow> []
      | Some k \<Rightarrow> (case key_token numbers (column_type k) c of Inr t \<Rightarrow> t | Inl _ \<Rightarrow> []))"

definition write_cells :: "nat list \<Rightarrow> 'n datum list \<Rightarrow> 'n row \<Rightarrow> 'n row" where
  "write_cells positions cells row = fold (\<lambda>(p, c) row. row[p := c]) (zip positions cells) row"

text \<open>
  The rows a segment changes, and how. A delete may name an absent key; an update may not, and a row
  inserted must be absent. \<open>None\<close>: the segment is refused.
\<close>

definition segment_updates :: "'n host_numbers \<Rightarrow> table_record \<Rightarrow> 'n scope_segment \<Rightarrow> 'n row_update list" where
  "segment_updates numbers table seg =
     (case seg of
        DeleteSegment keys \<Rightarrow> map (\<lambda>k. (token_of numbers table (Some k), \<lambda>_. Some None)) keys
      | UpdateSegment positions rows \<Rightarrow>
          map (\<lambda>(k, cells). (token_of numbers table k, map_option (\<lambda>row. Some (write_cells positions cells row)))) rows
      | RowSegment is_insert rows \<Rightarrow>
          map (\<lambda>row. (token_of numbers table (row ! key_position table),
              \<lambda>r. if is_insert \<and> r \<noteq> None then None else Some (Some row))) rows)"

fun replay_updates :: "'n row_update list \<Rightarrow> 'n view \<Rightarrow> 'n view option" where
  "replay_updates [] V = Some V"
| "replay_updates ((t, f) # us) V = (case f (V t) of None \<Rightarrow> None | Some r \<Rightarrow> replay_updates us (V(t := r)))"

fun replay :: "'n host_numbers \<Rightarrow> (table_record \<times> 'n scope_segment) list \<Rightarrow> (js_string \<Rightarrow> 'n view) \<Rightarrow> (js_string \<Rightarrow> 'n view) option" where
  "replay numbers [] T = Some T"
| "replay numbers ((table, seg) # segs) T =
     (case replay_updates (segment_updates numbers table seg) (T (table_id table)) of
        None \<Rightarrow> None
      | Some V \<Rightarrow> replay numbers segs (T(table_id table := V)))"

lemma replay_updates_append: "replay_updates (us @ vs) V = Option.bind (replay_updates us V) (replay_updates vs)"
  by (induction us arbitrary: V) (auto split: option.splits prod.splits)

lemma replay_append: "replay numbers (xs @ ys) T = Option.bind (replay numbers xs T) (replay numbers ys)"
  by (induction xs arbitrary: T) (auto split: option.splits prod.splits)

lemma replay_one_table:
  "replay numbers (map (Pair table) segs) T =
     map_option (\<lambda>V. T(table_id table := V)) (replay_updates (concat (map (segment_updates numbers table) segs)) (T (table_id table)))"
proof (induction segs arbitrary: T)
  case (Cons seg segs)
  let ?us = "concat (map (segment_updates numbers table) segs)"
  show ?case
  proof (cases "replay_updates (segment_updates numbers table seg) (T (table_id table))")
    case (Some V)
    then show ?thesis by (cases "replay_updates ?us V") (auto simp: Cons.IH replay_updates_append fun_eq_iff)
  qed (simp add: replay_updates_append)
qed simp

text \<open>Updates of distinct rows commute with everything.\<close>

lemma replay_distinct:
  assumes "distinct (map fst us)" "\<And>t f. (t, f) \<in> set us \<Longrightarrow> f (V t) = Some (g t)"
  shows "replay_updates us V = Some (\<lambda>t. if t \<in> fst ` set us then g t else V t)"
  using assms
proof (induction us arbitrary: V)
  case (Cons u us)
  obtain t f where u: "u = (t, f)" by fastforce
  have f: "f (V t) = Some (g t)" using Cons.prems(2) by (simp add: u)
  have "replay_updates us (V(t := g t)) = Some (\<lambda>x. if x \<in> fst ` set us then g x else (V(t := g t)) x)"
    by (rule Cons.IH) (use Cons.prems in \<open>force simp: u\<close>)+
  then show ?case using f by (auto simp: u)
qed simp

subsection \<open>The tables of a scope\<close>

text \<open>A keyed table: the key column is one of its columns.\<close>

definition keyed_table :: "table_record \<Rightarrow> bool" where
  "keyed_table table \<longleftrightarrow>
     (\<exists>k. get_unique_key_column table = Some k) \<and> distinct (map column_id (table_columns table))
       \<and> distinct (map column_name (table_columns table))"

definition effect_on :: "table_record \<Rightarrow> 'n scope_effect \<Rightarrow> 'n row option \<Rightarrow> 'n row option option" where
  "effect_on table = run_effect (length (table_columns table)) (key_position table)"

text \<open>An effect that names a row by its token: the row it writes has that token.\<close>

definition names_row :: "'n host_numbers \<Rightarrow> table_record \<Rightarrow> js_string \<Rightarrow> 'n scope_effect \<Rightarrow> bool" where
  "names_row numbers table token e \<longleftrightarrow>
     (effect_kind e \<noteq> KDelete \<longrightarrow>
        length (effect_values e) = length (table_columns table) \<and>
        (\<exists>c. effect_values e ! key_position table = Some c \<and> token_of numbers table c = token))"

definition scope_entry_ok :: "'n host_numbers \<Rightarrow> table_record \<Rightarrow> 'n view \<Rightarrow> js_string \<Rightarrow> 'n scope_entry \<Rightarrow> bool" where
  "scope_entry_ok numbers table B token entry \<longleftrightarrow>
     (\<exists>k. entry_key entry = Some k \<and> token_of numbers table (Some k) = token) \<and>
     (\<forall>e. entry_pending entry = Some e \<longrightarrow> names_row numbers table token e \<and> effect_on table e (B token) \<noteq> None)"

definition set_ok :: "'n host_numbers \<Rightarrow> 'n view \<Rightarrow> 'n write_set \<Rightarrow> bool" where
  "set_ok numbers B ws \<longleftrightarrow>
     keyed_table (ws_table ws) \<and> ws_key_column ws = get_unique_key_column (ws_table ws) \<and>
     distinct (map fst (ws_rows ws)) \<and> (\<forall>(t, entry) \<in> set (ws_rows ws). scope_entry_ok numbers (ws_table ws) B t entry) \<and>
     ws_pending_rows ws = int (length (filter (\<lambda>(_, entry). entry_pending entry \<noteq> None) (ws_rows ws)))"

text \<open>What the pending effects make of the table.\<close>

definition pending_view :: "'n write_set \<Rightarrow> 'n view \<Rightarrow> 'n view" where
  "pending_view ws B = (\<lambda>t.
     case map_of (ws_rows ws) t of
       None \<Rightarrow> B t
     | Some entry \<Rightarrow>
         (case entry_pending entry of
            None \<Rightarrow> B t
          | Some e \<Rightarrow> (case effect_on (ws_table ws) e (B t) of Some r \<Rightarrow> r | None \<Rightarrow> B t)))"

lemma find_index_Some: "find_index P xs = Some i \<Longrightarrow> i < length xs \<and> P (xs ! i)"
  by (auto simp: find_index_def find_Some_iff)

lemma find_index_exists: "x \<in> set xs \<Longrightarrow> P x \<Longrightarrow> \<exists>i. find_index P xs = Some i"
proof (cases "find_index P xs")
  case None
  moreover assume "x \<in> set xs" "P x"
  ultimately show ?thesis by (auto simp: find_index_def find_None_iff in_set_conv_nth)
qed simp

lemma keyed_table_position:
  assumes "keyed_table table"
  obtains k where "get_unique_key_column table = Some k"
    "find_index (\<lambda>column. column_id column = column_id k) (table_columns table) = Some (key_position table)"
    "key_position table < length (table_columns table)" "table_columns table ! key_position table = k"
proof -
  obtain k where k: "get_unique_key_column table = Some k" using assms by (auto simp: keyed_table_def)
  then have m: "k \<in> set (table_columns table)"
    by (auto simp: get_unique_key_column_def find_Some_iff split: option.splits)
  obtain i where i: "find_index (\<lambda>column. column_id column = column_id k) (table_columns table) = Some i"
    using find_index_exists [OF m, of "\<lambda>column. column_id column = column_id k"] by auto
  then have p: "key_position table = i" by (simp add: key_position_def k)
  have "i < length (table_columns table)" "column_id (table_columns table ! i) = column_id k"
    using find_index_Some [OF i] by simp_all
  moreover have "table_columns table ! i = k"
  proof -
    obtain j where j: "j < length (table_columns table)" "table_columns table ! j = k" using m by (auto simp: in_set_conv_nth)
    have "distinct (map column_id (table_columns table))" using assms by (simp add: keyed_table_def)
    then have "i = j" using j \<open>i < _\<close> \<open>column_id _ = column_id k\<close> by (auto simp: distinct_conv_nth)
    then show ?thesis using j by simp
  qed
  ultimately show thesis using that [OF k] i p by simp
qed

subsection \<open>The segments of a set\<close>

text \<open>The rows the pending effects change, and how the segments change them.\<close>

definition effect_update :: "'n host_numbers \<Rightarrow> table_record \<Rightarrow> 'n scope_entry \<times> 'n scope_effect \<Rightarrow> 'n row_update" where
  "effect_update numbers table = (\<lambda>(entry, e).
     let row = map (cell_at e) [0..<length (table_columns table)];
         ps = touched (Some (key_position table)) e
     in case effect_kind e of
          KDelete \<Rightarrow> (token_of numbers table (entry_key entry), \<lambda>_. Some None)
        | KUpdate \<Rightarrow> (token_of numbers table (entry_key entry), map_option (\<lambda>row. Some (write_cells ps (map (cell_at e) ps) row)))
        | KUpsert \<Rightarrow> (token_of numbers table (row ! key_position table), \<lambda>r. Some (Some row))
        | KInsert \<Rightarrow> (token_of numbers table (row ! key_position table), \<lambda>r. if r \<noteq> None then None else Some (Some row)))"

lemma write_cells_nth:
  assumes "distinct ps" "length cells = length ps"
  shows "length (write_cells ps cells row) = length row"
    "i < length row \<Longrightarrow> write_cells ps cells row ! i = (case map_of (zip ps cells) i of Some c \<Rightarrow> c | None \<Rightarrow> row ! i)"
proof -
  have "length (write_cells ps cells row) = length row \<and>
    (\<forall>i < length row. write_cells ps cells row ! i = (case map_of (zip ps cells) i of Some c \<Rightarrow> c | None \<Rightarrow> row ! i))"
    using assms
  proof (induction ps arbitrary: cells row)
    case Nil
    then show ?case by (simp add: write_cells_def)
  next
    case (Cons p ps)
    then obtain c cs where c: "cells = c # cs" "length cs = length ps" by (cases cells) auto
    have "write_cells (p # ps) cells row = write_cells ps cs (row[p := c])" by (simp add: write_cells_def c)
    moreover have "map_of (zip ps cs) p = None" using Cons.prems c by (simp add: map_of_zip_is_None)
    ultimately show ?case using Cons.IH [OF _ c(2), of "row[p := c]"] Cons.prems(1) c(1)
      by (auto simp: nth_list_update split: option.splits)
  qed
  then show "length (write_cells ps cells row) = length row"
    "i < length row \<Longrightarrow> write_cells ps cells row ! i = (case map_of (zip ps cells) i of Some c \<Rightarrow> c | None \<Rightarrow> row ! i)" by auto
qed

lemma write_touched:
  assumes "length (effect_values e) = n" "length row = n" "kp < n" "effect_values e ! kp = Some (row ! kp)"
  shows "write_cells (touched (Some kp) e) (map (cell_at e) (touched (Some kp) e)) row = patch_row row (effect_values e)"
proof (rule nth_equalityI)
  let ?ps = "touched (Some kp) e"
  have d: "distinct ?ps" by (simp add: touched_def)
  note w = write_cells_nth [OF d, where cells = "map (cell_at e) ?ps" and row = row]
  show "length (write_cells ?ps (map (cell_at e) ?ps) row) = length (patch_row row (effect_values e))"
    using w(1) assms by simp
  show "write_cells ?ps (map (cell_at e) ?ps) row ! i = patch_row row (effect_values e) ! i"
    if "i < length (write_cells ?ps (map (cell_at e) ?ps) row)" for i
  proof -
    have i: "i < n" using that w(1) assms by simp
    have m: "map_of (zip ?ps (map (cell_at e) ?ps)) i = (if i \<in> set ?ps then Some (cell_at e i) else None)"
      by (auto simp: map_of_zip_map)
    show ?thesis using i w(2) [of i] assms unfolding m
      by (auto simp: nth_patch_row touched_def cell_at_def split: option.splits)
  qed
qed

text \<open>The pending effects of a set, in its order.\<close>

definition pending_list :: "'n write_set \<Rightarrow> ('n scope_entry \<times> 'n scope_effect) list" where
  "pending_list ws = concat (map (\<lambda>(_, entry). case entry_pending entry of Some e \<Rightarrow> [(entry, e)] | None \<Rightarrow> []) (ws_rows ws))"

lemma pending_of_kind_filter: "pending_of_kind k ws = filter (\<lambda>(_, e). effect_kind e = k) (pending_list ws)"
proof -
  have "concat (map (\<lambda>(_, entry). case entry_pending entry of Some e \<Rightarrow> if effect_kind e = k then [(entry, e)] else [] | None \<Rightarrow> []) rows)
      = filter (\<lambda>(_, e). effect_kind e = k) (concat (map (\<lambda>(_, entry). case entry_pending entry of Some e \<Rightarrow> [(entry, e)] | None \<Rightarrow> []) rows))"
    for rows :: "(js_string \<times> 'a scope_entry) list"
    by (induction rows) (auto split: option.splits)
  then show ?thesis by (simp add: pending_of_kind_def pending_list_def)
qed

lemma kinds_partition:
  "mset (filter (\<lambda>(_, e). effect_kind e = KDelete) ps) + mset (filter (\<lambda>(_, e). effect_kind e = KUpdate) ps) +
   mset (filter (\<lambda>(_, e). effect_kind e = KUpsert) ps) + mset (filter (\<lambda>(_, e). effect_kind e = KInsert) ps) = mset ps"
proof (induction ps)
  case (Cons p ps)
  obtain x e where "p = (x, e)" by fastforce
  then show ?case using Cons by (cases "effect_kind e") auto
qed simp

text \<open>Grouping the updates by their columns keeps every one of them, each under its columns.\<close>

lemma add_to_group_keeps:
  fixes u :: "'a \<times> 'b scope_effect"
  assumes "distinct (map fst groups)" "\<forall>(ps, us) \<in> set groups. \<forall>u \<in> set us. touched kp (snd u) = ps"
  defines "g' \<equiv> add_to_group (touched kp (snd u)) u groups"
  shows "distinct (map fst g')" "\<forall>(ps, us) \<in> set g'. \<forall>u \<in> set us. touched kp (snd u) = ps"
    "mset (concat (map snd g')) = add_mset u (mset (concat (map snd groups)))"
proof -
  let ?ps = "touched kp (snd u)"
  show "distinct (map fst g')" using assms(1) by (simp add: g'_def)
  have "(\<forall>(ps, us) \<in> set g'. \<forall>u \<in> set us. touched kp (snd u) = ps) \<and>
      mset (concat (map snd g')) = add_mset u (mset (concat (map snd groups)))"
  proof (cases "map_of groups ?ps")
    case None
    then have "g' = groups @ [(?ps, [u])]" by (simp add: g'_def map_set_def)
    then show ?thesis using assms(2) by auto
  next
    case (Some es)
    then obtain xs ys where xy: "groups = xs @ (?ps, es) # ys"
      using map_of_SomeD [OF Some] by (auto simp: in_set_conv_decomp)
    have n: "?ps \<notin> fst ` set xs" "?ps \<notin> fst ` set ys" using assms(1) by (auto simp: xy)
    have id: "map (\<lambda>e. if fst e = ?ps then (?ps, es @ [u]) else e) zs = zs" if "?ps \<notin> fst ` set zs" for zs :: "(nat list \<times> ('a \<times> 'b scope_effect) list) list"
      using that by (induction zs) auto
    have "g' = xs @ (?ps, es @ [u]) # ys" using Some n id by (simp add: g'_def map_set_def) (simp add: xy)
    then show ?thesis using assms(2) by (auto simp: xy)
  qed
  then show "\<forall>(ps, us) \<in> set g'. \<forall>u \<in> set us. touched kp (snd u) = ps"
    "mset (concat (map snd g')) = add_mset u (mset (concat (map snd groups)))" by blast+
qed

lemma update_groups_keep:
  shows "\<forall>(ps, us) \<in> set (update_groups kp us). \<forall>u \<in> set us. touched kp (snd u) = ps"
    "mset (concat (map snd (update_groups kp us))) = mset us"
proof -
  have "distinct (map fst g) \<and> (\<forall>(ps, us) \<in> set g. \<forall>u \<in> set us. touched kp (snd u) = ps) \<longrightarrow>
      (let g' = fold (\<lambda>u. add_to_group (touched kp (snd u)) u) us g
       in distinct (map fst g') \<and> (\<forall>(ps, us) \<in> set g'. \<forall>u \<in> set us. touched kp (snd u) = ps) \<and>
          mset (concat (map snd g')) = mset (concat (map snd g)) + mset us)" for g
  proof (induction us arbitrary: g)
    case (Cons u us)
    show ?case
    proof
      assume g: "distinct (map fst g) \<and> (\<forall>(ps, us) \<in> set g. \<forall>u \<in> set us. touched kp (snd u) = ps)"
      note k = add_to_group_keeps [of g kp u, OF conjunct1 [OF g] conjunct2 [OF g]]
      show "let g' = fold (\<lambda>u. add_to_group (touched kp (snd u)) u) (u # us) g
        in distinct (map fst g') \<and> (\<forall>(ps, us) \<in> set g'. \<forall>u \<in> set us. touched kp (snd u) = ps) \<and>
          mset (concat (map snd g')) = mset (concat (map snd g)) + mset (u # us)"
        using Cons.IH [of "add_to_group (touched kp (snd u)) u g"] k by (simp add: Let_def del: add_to_group.simps)
    qed
  qed simp
  from this [of "[]"] show "\<forall>(ps, us) \<in> set (update_groups kp us). \<forall>u \<in> set us. touched kp (snd u) = ps"
    "mset (concat (map snd (update_groups kp us))) = mset us"
    by (auto simp: update_groups_def Let_def)
qed

text \<open>Together the segments of a set change each pending row once, and as its effect says.\<close>

lemma scope_segments_updates:
  assumes "set_ok numbers B ws"
  shows "mset (concat (map (segment_updates numbers (ws_table ws)) (scope_segments ws))) =
    mset (map (effect_update numbers (ws_table ws)) (pending_list ws))"
proof -
  let ?t = "ws_table ws" and ?u = "effect_update numbers (ws_table ws)"
  obtain k where k: "get_unique_key_column ?t = Some k"
    "find_index (\<lambda>column. column_id column = column_id k) (table_columns ?t) = Some (key_position ?t)"
    using assms keyed_table_position [of ?t] by (auto simp: set_ok_def)
  have key: "ws_key_column ws = Some k" using assms k by (simp add: set_ok_def)
  let ?d = "pending_of_kind KDelete ws" and ?p = "pending_of_kind KUpdate ws" and ?s = "pending_of_kind KUpsert ws" and ?i = "pending_of_kind KInsert ws"
  let ?g = "update_groups (Some (key_position ?t)) ?p"
  have kind: "(entry, e) \<in> set (pending_of_kind c ws) \<Longrightarrow> effect_kind e = c" for entry e c
    by (auto simp: pending_of_kind_filter)
  have keyed: "\<exists>k. entry_key entry = Some k" if "(entry, e) \<in> set (pending_of_kind c ws)" for entry e c
    using assms that by (fastforce simp: set_ok_def scope_entry_ok_def pending_of_kind_def split: option.splits if_splits)
  have del: "map (\<lambda>k. (token_of numbers ?t (Some k), \<lambda>_. Some None))
      (concat (map (\<lambda>(entry, _). case entry_key entry of Some k \<Rightarrow> [k] | None \<Rightarrow> []) ps)) = map ?u ps"
    if "\<forall>(entry, e) \<in> set ps. effect_kind e = KDelete \<and> (\<exists>k. entry_key entry = Some k)" for ps
    using that by (induction ps) (auto simp: effect_update_def)
  have upd: "segment_updates numbers ?t (update_segment ps us) = map ?u us"
    if "\<forall>u \<in> set us. touched (Some (key_position ?t)) (snd u) = ps" "\<forall>(entry, e) \<in> set us. effect_kind e = KUpdate" for ps us
    unfolding segment_updates_def update_segment_def scope_segment.case map_map
    by (rule map_cong [OF refl]) (use that in \<open>fastforce simp: effect_update_def Let_def\<close>)
  have upds: "concat (map (segment_updates numbers ?t) (map (\<lambda>(ps, us). update_segment ps us) ?g)) = map ?u (concat (map snd ?g))"
  proof -
    have "\<forall>(ps, us) \<in> set ?g. (\<forall>u \<in> set us. touched (Some (key_position ?t)) (snd u) = ps) \<and> (\<forall>(entry, e) \<in> set us. effect_kind e = KUpdate)"
    proof -
      have "set (concat (map snd ?g)) = set ?p" using update_groups_keep(2) mset_eq_setD by metis
      then show ?thesis using update_groups_keep(1) [of "Some (key_position ?t)" ?p] kind by fastforce
    qed
    then have "concat (map (segment_updates numbers ?t) (map (\<lambda>(ps, us). update_segment ps us) gs)) = map ?u (concat (map snd gs))"
      if "set gs \<subseteq> set ?g" for gs
      using that by (induction gs) (auto simp: upd)
    then show ?thesis by blast
  qed
  have row: "segment_updates numbers ?t (RowSegment b (batch_of ?t (map snd ps))) = map ?u ps"
    if "\<forall>(entry, e) \<in> set ps. effect_kind e = (if b then KInsert else KUpsert)" for b ps
    using that by (induction ps) (auto simp: segment_updates_def batch_of_def effect_update_def Let_def fun_eq_iff)
  have "concat (map (segment_updates numbers ?t) (scope_segments ws)) = map ?u ?d @ map ?u (concat (map snd ?g)) @ map ?u ?s @ map ?u ?i"
  proof -
    have D: "\<forall>(entry, e) \<in> set ?d. effect_kind e = KDelete \<and> (\<exists>k. entry_key entry = Some k)" using kind keyed by fastforce
    have "concat (map (\<lambda>(entry, _). case entry_key entry of Some k \<Rightarrow> [k] | None \<Rightarrow> []) ?d) = [] \<Longrightarrow> ?d = []"
      using del [OF D] by (metis map_is_Nil_conv)
    moreover have "\<forall>(entry, e) \<in> set ?s. effect_kind e = (if False then KInsert else KUpsert)"
      "\<forall>(entry, e) \<in> set ?i. effect_kind e = (if True then KInsert else KUpsert)" using kind by auto
    ultimately show ?thesis using del [OF D] upds row [of ?s False] row [of ?i True]
      by (auto simp: scope_segments_def key k(2) Let_def segment_updates_def [of _ _ "DeleteSegment _"])
  qed
  then show ?thesis
    using kinds_partition [of "pending_list ws"] update_groups_keep(2) [of "Some (key_position ?t)" ?p]
    by (simp add: pending_of_kind_filter [symmetric] image_mset_union [symmetric] del: image_mset_union) (metis add.assoc image_mset_union)
qed

end
