(* ===== verification/ScopeRefines.thy ===== *)
theory ScopeRefines
  imports ScopeReplay
begin

text \<open>
  A write scope refines the statements run through it: whatever the budgets make it flush and when,
  the segments it has staged and the effects it still holds make of the committed tables what the
  statements, one after the other, make of them.
\<close>

subsection \<open>Staging a set is running its pending effects\<close>

lemma pending_listD:
  "(entry, e) \<in> set (pending_list ws) \<Longrightarrow> \<exists>t. (t, entry) \<in> set (ws_rows ws) \<and> entry_pending entry = Some e"
  by (auto simp: pending_list_def split: option.splits)

lemma effect_update_token:
  assumes "keyed_table table" "scope_entry_ok numbers table B t entry" "entry_pending entry = Some e"
  shows "fst (effect_update numbers table (entry, e)) = t"
proof -
  have kp: "key_position table < length (table_columns table)" using keyed_table_position [OF assms(1)] by metis
  have n: "names_row numbers table t e" "\<exists>k. entry_key entry = Some k \<and> token_of numbers table (Some k) = t"
    using assms(2,3) by (auto simp: scope_entry_ok_def)
  then show ?thesis using kp
    by (cases "effect_kind e") (auto simp: effect_update_def Let_def names_row_def cell_at_def)
qed

lemma effect_update_runs:
  assumes "keyed_table table" "names_row numbers table t e" "effect_on table e (B t) = Some r"
  shows "snd (effect_update numbers table (entry, e)) (B t) = Some r"
proof -
  let ?n = "length (table_columns table)"
  have row: "map (cell_at e) [0..<?n] = row_of (effect_values e)" if "length (effect_values e) = ?n"
    using that by (intro nth_equalityI) (auto simp: row_of_def cell_at_def)
  show ?thesis
  proof (cases "effect_kind e")
    case KUpdate
    then obtain old where old: "B t = Some old" "length (effect_values e) = ?n" "length old = ?n" "key_position table < ?n"
      "effect_values e ! key_position table = Some (old ! key_position table)" "r = Some (patch_row old (effect_values e))"
      using assms(3) by (auto simp: effect_on_def run_effect_def split: option.splits if_splits)
    then show ?thesis using KUpdate write_touched [OF old(2,3,4,5)] by (simp add: effect_update_def Let_def)
  qed (use assms(3) row in \<open>auto simp: effect_on_def run_effect_def effect_update_def Let_def split: if_splits\<close>)
qed

lemma pending_tokens:
  assumes "set_ok numbers B ws"
  shows "map fst (map (effect_update numbers (ws_table ws)) (pending_list ws)) =
    map fst (filter (\<lambda>(_, entry). entry_pending entry \<noteq> None) (ws_rows ws))"
proof -
  have "map fst (map (effect_update numbers (ws_table ws))
        (concat (map (\<lambda>(_, entry). case entry_pending entry of Some e \<Rightarrow> [(entry, e)] | None \<Rightarrow> []) rows))) =
      map fst (filter (\<lambda>(_, entry). entry_pending entry \<noteq> None) rows)"
    if "\<forall>(t, entry) \<in> set rows. scope_entry_ok numbers (ws_table ws) B t entry" for rows
    using that assms by (induction rows) (auto simp: set_ok_def effect_update_token split: option.splits)
  then show ?thesis using assms by (simp add: pending_list_def set_ok_def)
qed

lemma staged_set:
  assumes "set_ok numbers B ws"
  shows "replay_updates (concat (map (segment_updates numbers (ws_table ws)) (scope_segments ws))) B = Some (pending_view ws B)"
proof -
  let ?us = "concat (map (segment_updates numbers (ws_table ws)) (scope_segments ws))" and ?u = "effect_update numbers (ws_table ws)"
  note m = scope_segments_updates [OF assms]
  have d: "distinct (map fst (ws_rows ws))" and ok: "\<And>t entry. (t, entry) \<in> set (ws_rows ws) \<Longrightarrow> scope_entry_ok numbers (ws_table ws) B t entry"
    and kt: "keyed_table (ws_table ws)" using assms by (auto simp: set_ok_def)
  have tok: "mset (map fst ?us) = mset (map fst (filter (\<lambda>(_, entry). entry_pending entry \<noteq> None) (ws_rows ws)))"
    unfolding pending_tokens [OF assms, symmetric] mset_map [of fst] m ..
  have mem: "set ?us = set (map ?u (pending_list ws))" using m by (rule mset_eq_setD)
  have "replay_updates ?us B = Some (\<lambda>t. if t \<in> fst ` set ?us then pending_view ws B t else B t)"
  proof (rule replay_distinct)
    have "distinct (map fst (filter (\<lambda>(_, entry). entry_pending entry \<noteq> None) (ws_rows ws)))" using d by (rule distinct_map_filter)
    then show "distinct (map fst ?us)" using mset_eq_imp_distinct_iff [OF tok] by blast
    show "f (B t) = Some (pending_view ws B t)" if "(t, f) \<in> set ?us" for t f
    proof -
      obtain entry e where pe: "(entry, e) \<in> set (pending_list ws)" "?u (entry, e) = (t, f)" using \<open>(t, f) \<in> set ?us\<close> unfolding mem by force
      then obtain t' where t': "(t', entry) \<in> set (ws_rows ws)" "entry_pending entry = Some e" using pending_listD by blast
      then have "t' = t" using effect_update_token [OF kt ok [OF t'(1)] t'(2)] pe(2) by simp
      then have "map_of (ws_rows ws) t = Some entry" using t'(1) d by simp
      moreover obtain r where "effect_on (ws_table ws) e (B t) = Some r" "names_row numbers (ws_table ws) t e"
        using ok [OF t'(1)] t'(2) \<open>t' = t\<close> by (auto simp: scope_entry_ok_def)
      moreover from this have "f (B t) = Some r" using effect_update_runs [OF kt, of numbers t e B r entry] pe(2) by simp
      ultimately show ?thesis using t'(2) by (simp add: pending_view_def)
    qed
  qed
  moreover have "pending_view ws B t = B t" if "t \<notin> fst ` set ?us" for t
  proof -
    have "fst ` set ?us = fst ` set (filter (\<lambda>(_, entry). entry_pending entry \<noteq> None) (ws_rows ws))"
      unfolding list.set_map [symmetric] by (rule mset_eq_setD [OF tok])
    then have none: "t \<notin> fst ` set (filter (\<lambda>(_, entry). entry_pending entry \<noteq> None) (ws_rows ws))" using that by simp
    have "entry_pending entry = None" if "map_of (ws_rows ws) t = Some entry" for entry
    proof (rule ccontr)
      assume "entry_pending entry \<noteq> None"
      then have "(t, entry) \<in> set (filter (\<lambda>(_, entry). entry_pending entry \<noteq> None) (ws_rows ws))"
        using map_of_SomeD [OF that] by simp
      then show False using none by (metis fst_conv image_eqI)
    qed
    then show ?thesis by (auto simp: pending_view_def split: option.splits)
  qed
  ultimately show ?thesis by (simp add: fun_eq_iff)
qed

end
