(* ===== verification/ScopeRuns.thy ===== *)
theory ScopeRuns
  imports ScopeRefines
begin

text \<open>
  The invariant of a write scope, that every operation of its write sets keeps it, and that each
  makes of the scope's view of the tables what its statement says.
\<close>

subsection \<open>The invariant\<close>

text \<open>Errors the environment raises.\<close>

definition env_error :: "'n scope_env \<Rightarrow> js_error \<Rightarrow> bool" where
  "env_error env e \<longleftrightarrow> (\<exists>s table seg. stage_fails env s table seg = Some e) \<or> (\<exists>s. renew_if_due env s = Some e)"

text \<open>
  The mirror: an entry's staged effect takes the committed row to the staged one, and a row without
  one is as committed.
\<close>

definition mirror_ok :: "'n host_numbers \<Rightarrow> 'n view \<Rightarrow> 'n view \<Rightarrow> 'n write_set \<Rightarrow> bool" where
  "mirror_ok numbers T B ws \<longleftrightarrow>
     (\<forall>t. case Option.bind (map_of (ws_rows ws) t) entry_staged of
        None \<Rightarrow> B t = T t
      | Some e \<Rightarrow> names_row numbers (ws_table ws) t e \<and> effect_on (ws_table ws) e (T t) = Some (B t))"

definition set_in_scope :: "'n host_numbers \<Rightarrow> (js_string \<Rightarrow> table_record option) \<Rightarrow> bool \<Rightarrow> 'n view \<Rightarrow> 'n view \<Rightarrow> js_string \<Rightarrow> 'n write_set \<Rightarrow> bool" where
  "set_in_scope numbers catalog mirrored T B tid ws \<longleftrightarrow>
     table_id (ws_table ws) = tid \<and> catalog tid = Some (ws_table ws) \<and> set_ok numbers B ws \<and>
     (mirrored \<and> \<not> ws_opaque ws \<longrightarrow> mirror_ok numbers T B ws)"

definition scope_ok ::
  "'n host_numbers \<Rightarrow> (js_string \<Rightarrow> table_record option) \<Rightarrow> (js_string \<Rightarrow> 'n view) \<Rightarrow> 'n scope \<Rightarrow> (js_string \<Rightarrow> 'n view) \<Rightarrow> bool"
where
  "scope_ok numbers catalog T s B \<longleftrightarrow>
     replay numbers (sc_staged s) T = Some B \<and> distinct (map fst (sc_tables s)) \<and>
     (\<forall>tid ws. map_of (sc_tables s) tid = Some ws \<longrightarrow> set_in_scope numbers catalog (sc_mirrored s) (T tid) (B tid) tid ws) \<and>
     (\<forall>tid. sc_mirrored s \<and> map_of (sc_tables s) tid = None \<longrightarrow> B tid = T tid)"

text \<open>The tables as the scope sees them.\<close>

definition scope_view :: "'n scope \<Rightarrow> (js_string \<Rightarrow> 'n view) \<Rightarrow> js_string \<Rightarrow> 'n view" where
  "scope_view s B tid = (case map_of (sc_tables s) tid of Some ws \<Rightarrow> pending_view ws (B tid) | None \<Rightarrow> B tid)"

lemma scope_ok_set:
  "scope_ok numbers catalog T s B \<Longrightarrow> map_of (sc_tables s) tid = Some ws \<Longrightarrow> set_in_scope numbers catalog (sc_mirrored s) (T tid) (B tid) tid ws"
  by (simp add: scope_ok_def)

lemma put_set_simps [simp]:
  "map_of (sc_tables (put_set tid ws s)) tid' = (if tid' = tid then Some ws else map_of (sc_tables s) tid')"
  "sc_staged (put_set tid ws s) = sc_staged s" "sc_mirrored (put_set tid ws s) = sc_mirrored s"
  "distinct (map fst (sc_tables (put_set tid ws s))) = distinct (map fst (sc_tables s))"
  by (simp_all add: put_set_def)

lemma scope_ok_put:
  assumes "scope_ok numbers catalog T s B" "set_in_scope numbers catalog (sc_mirrored s) (T tid) (B tid) tid ws"
  shows "scope_ok numbers catalog T (put_set tid ws s) B"
    "scope_view (put_set tid ws s) B = (scope_view s B)(tid := pending_view ws (B tid))"
  using assms by (simp_all add: scope_ok_def scope_view_def fun_eq_iff)

subsection \<open>One effect\<close>

lemma pending_view_at:
  "map_of (ws_rows ws) t = Some entry \<Longrightarrow> entry_pending entry = Some e \<Longrightarrow> effect_on (ws_table ws) e (B t) = Some r \<Longrightarrow> pending_view ws B t = r"
  by (simp add: pending_view_def)

lemma length_filter_map_set:
  "length (filter P (map_set k v m)) =
     (if map_of m k = None then length (filter P m) + (if P (k, v) then 1 else 0)
      else length (filter P (map (\<lambda>e. if fst e = k then (k, v) else e) m)))"
  by (simp add: map_set_def)

lemma count_replaced:
  assumes "distinct (map fst m)" "map_of m k = Some v0"
  shows "length (filter P (map (\<lambda>e. if fst e = k then (k, v) else e) m)) + (if P (k, v0) then 1 else 0) =
    length (filter P m) + (if P (k, v) then 1 else 0)"
proof -
  obtain xs ys where xy: "m = xs @ (k, v0) # ys" using map_of_SomeD [OF assms(2)] by (auto simp: in_set_conv_decomp)
  have "map (\<lambda>e. if fst e = k then (k, v) else e) zs = zs" if "k \<notin> fst ` set zs" for zs
    using that by (induction zs) auto
  then show ?thesis using assms(1) by (simp add: xy)
qed

lemma compose_names_row:
  assumes "compose_scope_effect base e = Inr c" "names_row numbers table t e" "\<And>b. base = Some b \<Longrightarrow> names_row numbers table t b"
    "key_position table < length (table_columns table)"
  shows "names_row numbers table t c"
proof (cases "effect_kind e")
  case KUpdate
  then show ?thesis using assms
    by (auto simp: compose_scope_effect_def names_row_def nth_patch_values split: option.splits if_splits)
qed (use assms in \<open>auto simp: compose_scope_effect_def names_row_def split: option.splits if_splits\<close>)

lemma scope_set_apply:
  assumes "set_ok numbers B ws" "names_row numbers (ws_table ws) token e" "token_of numbers (ws_table ws) (Some k) = token"
    "effect_on (ws_table ws) e (pending_view ws B token) = Some r"
  defines "entry \<equiv> (case map_of (ws_rows ws) token of Some entry \<Rightarrow> entry | None \<Rightarrow> \<lparr>entry_key = Some k, entry_staged = None, entry_pending = None\<rparr>)"
  shows "\<exists>c. compose_scope_effect (entry_pending entry) e = Inr c \<and>
    (let ws' = ws \<lparr>ws_rows := map_set token (entry \<lparr>entry_pending := Some c\<rparr>) (ws_rows ws),
         ws_pending_rows := (if entry_pending entry = None then ws_pending_rows ws + 1 else ws_pending_rows ws)\<rparr>
     in set_ok numbers B ws' \<and> pending_view ws' B = (pending_view ws B)(token := r) \<and>
       (\<forall>t. Option.bind (map_of (ws_rows ws') t) entry_staged = Option.bind (map_of (ws_rows ws) t) entry_staged))"
proof -
  let ?t = "ws_table ws"
  have kt: "keyed_table ?t" and d: "distinct (map fst (ws_rows ws))"
    and ok: "\<And>t entry. map_of (ws_rows ws) t = Some entry \<Longrightarrow> scope_entry_ok numbers ?t B t entry"
    and count: "ws_pending_rows ws = int (length (filter (\<lambda>(_, entry). entry_pending entry \<noteq> None) (ws_rows ws)))"
    using assms(1) by (auto simp: set_ok_def dest: map_of_SomeD)
  have kp: "key_position ?t < length (table_columns ?t)" using keyed_table_position [OF kt] by metis
  have eok: "\<exists>k. entry_key entry = Some k \<and> token_of numbers ?t (Some k) = token"
    using ok assms(3) by (auto simp: entry_def scope_entry_ok_def split: option.splits)
  obtain c where c: "compose_scope_effect (entry_pending entry) e = Inr c" "effect_on ?t c (B token) = Some r" "names_row numbers ?t token c"
  proof (cases "entry_pending entry")
    case None
    then have "pending_view ws B token = B token" by (auto simp: entry_def pending_view_def split: option.splits)
    moreover have "compose_scope_effect None e = Inr e" by (simp add: compose_scope_effect_def split: effect_kind.splits)
    ultimately show thesis using that [of e] None assms(2,4) by simp
  next
    case (Some p)
    then have m: "map_of (ws_rows ws) token = Some entry" by (auto simp: entry_def split: option.splits)
    obtain r1 where r1: "effect_on ?t p (B token) = Some r1" "names_row numbers ?t token p" using ok [OF m] Some by (auto simp: scope_entry_ok_def)
    have "pending_view ws B token = r1" using pending_view_at [where e = p] m Some r1 by blast
    then obtain c where "compose_scope_effect (Some p) e = Inr c" "effect_on ?t c (B token) = Some r"
      using compose_runs [OF r1(1) [unfolded effect_on_def]] assms(4) by (auto simp: effect_on_def)
    moreover from this have "names_row numbers ?t token c" using compose_names_row [OF _ assms(2) _ kp] r1(2) by blast
    ultimately show thesis using that Some by simp
  qed
  define ws' where "ws' = ws \<lparr>ws_rows := map_set token (entry \<lparr>entry_pending := Some c\<rparr>) (ws_rows ws),
         ws_pending_rows := (if entry_pending entry = None then ws_pending_rows ws + 1 else ws_pending_rows ws)\<rparr>"
  have "set_ok numbers B ws'"
  proof -
    let ?P = "\<lambda>(_, entry). entry_pending entry \<noteq> None"
    have "int (length (filter ?P (ws_rows ws'))) = ws_pending_rows ws'"
    proof (cases "map_of (ws_rows ws) token")
      case None
      then show ?thesis using count by (simp add: ws'_def length_filter_map_set entry_def)
    next
      case (Some entry0)
      then have "entry0 = entry" by (simp add: entry_def)
      then show ?thesis using count Some count_replaced [OF d, of token entry ?P "entry \<lparr>entry_pending := Some c\<rparr>"]
        by (auto simp: ws'_def length_filter_map_set)
    qed
    moreover have "scope_entry_ok numbers ?t B token (entry \<lparr>entry_pending := Some c\<rparr>)" using eok c by (simp add: scope_entry_ok_def)
    moreover have "\<forall>(t, en) \<in> {e \<in> set (ws_rows ws). fst e \<noteq> token}. scope_entry_ok numbers ?t B t en" using assms(1) by (auto simp: set_ok_def)
    ultimately show ?thesis using assms(1) d by (auto simp: set_ok_def ws'_def set_map_set)
  qed
  moreover have "pending_view ws' B = (pending_view ws B)(token := r)"
  proof -
    have "ws_table ws' = ?t" "ws_rows ws' = map_set token (entry \<lparr>entry_pending := Some c\<rparr>) (ws_rows ws)" by (simp_all add: ws'_def)
    then show ?thesis using c(2) by (auto simp: pending_view_def fun_eq_iff cong: option.case_cong)
  qed
  moreover have "Option.bind (map_of (ws_rows ws') t) entry_staged = Option.bind (map_of (ws_rows ws) t) entry_staged" for t
    by (auto simp: ws'_def entry_def split: option.splits)
  ultimately show ?thesis using c(1) unfolding ws'_def Let_def by blast
qed

text \<open>
  What the statements say: the effects of one statement in order. Each is an effect, with the key and
  the token that name its row.
\<close>

fun run_effects :: "table_record \<Rightarrow> (js_string \<times> 'n batch_value option \<times> 'n scope_effect) list \<Rightarrow> 'n view \<Rightarrow> 'n view option" where
  "run_effects table [] V = Some V"
| "run_effects table ((token, key, e) # effects) V =
     (case effect_on table e (V token) of None \<Rightarrow> None | Some r \<Rightarrow> run_effects table effects (V(token := r)))"

definition named :: "'n host_numbers \<Rightarrow> table_record \<Rightarrow> js_string \<times> 'n batch_value option \<times> 'n scope_effect \<Rightarrow> bool" where
  "named numbers table = (\<lambda>(token, key, e).
     names_row numbers table token e \<and> (\<exists>k. key = Some k \<and> token_of numbers table (Some k) = token))"

lemma apply_effect_ok:
  assumes "scope_ok numbers catalog T s B" "map_of (sc_tables s) tid = Some ws" "named numbers (ws_table ws) (token, key, e)"
    "effect_on (ws_table ws) e (scope_view s B tid token) = Some r"
  shows "\<exists>s' ws'. apply_scope_effect tid token key e s = (s', Inr ()) \<and> scope_ok numbers catalog T s' B \<and>
    scope_view s' B = (scope_view s B)(tid := (scope_view s B tid)(token := r)) \<and>
    map_of (sc_tables s') tid = Some ws' \<and> ws_table ws' = ws_table ws \<and> ws_opaque ws' = ws_opaque ws"
proof -
  obtain k where k: "key = Some k" "token_of numbers (ws_table ws) (Some k) = token" "names_row numbers (ws_table ws) token e"
    using assms(3) by (auto simp: named_def)
  have in_scope: "set_in_scope numbers catalog (sc_mirrored s) (T tid) (B tid) tid ws" by (rule scope_ok_set [OF assms(1,2)])
  then have set: "set_ok numbers (B tid) ws" by (simp add: set_in_scope_def)
  have v: "scope_view s B tid = pending_view ws (B tid)" by (simp add: scope_view_def assms(2))
  define entry where "entry = (case map_of (ws_rows ws) token of Some entry \<Rightarrow> entry | None \<Rightarrow> \<lparr>entry_key = Some k, entry_staged = None, entry_pending = None\<rparr>)"
  obtain c where c: "compose_scope_effect (entry_pending entry) e = Inr c"
    "set_ok numbers (B tid) (ws \<lparr>ws_rows := map_set token (entry \<lparr>entry_pending := Some c\<rparr>) (ws_rows ws),
         ws_pending_rows := (if entry_pending entry = None then ws_pending_rows ws + 1 else ws_pending_rows ws)\<rparr>)"
    "pending_view (ws \<lparr>ws_rows := map_set token (entry \<lparr>entry_pending := Some c\<rparr>) (ws_rows ws),
         ws_pending_rows := (if entry_pending entry = None then ws_pending_rows ws + 1 else ws_pending_rows ws)\<rparr>) (B tid) = (pending_view ws (B tid))(token := r)"
    "\<And>t. Option.bind (map_of (map_set token (entry \<lparr>entry_pending := Some c\<rparr>) (ws_rows ws)) t) entry_staged = Option.bind (map_of (ws_rows ws) t) entry_staged"
    using scope_set_apply [OF set k(3,2) assms(4) [unfolded v]] unfolding entry_def Let_def by auto
  define ws' where "ws' = ws \<lparr>ws_rows := map_set token (entry \<lparr>entry_pending := Some c\<rparr>) (ws_rows ws),
         ws_pending_rows := (if entry_pending entry = None then ws_pending_rows ws + 1 else ws_pending_rows ws)\<rparr>"
  have step: "apply_scope_effect tid token key e s = (put_set tid ws' s, Inr ())"
    using assms(2) c(1) by (simp add: apply_scope_effect_def k(1) ws'_def Let_def entry_def [symmetric])
  have w: "ws_table ws' = ws_table ws" "ws_opaque ws' = ws_opaque ws"
    "ws_rows ws' = map_set token (entry \<lparr>entry_pending := Some c\<rparr>) (ws_rows ws)" by (simp_all add: ws'_def)
  have "mirror_ok numbers (T tid) (B tid) ws' = mirror_ok numbers (T tid) (B tid) ws"
    unfolding mirror_ok_def w c(4) ..
  then have ok: "set_in_scope numbers catalog (sc_mirrored s) (T tid) (B tid) tid ws'"
    using in_scope c(2) [folded ws'_def] by (simp add: set_in_scope_def w)
  show ?thesis using step scope_ok_put [OF assms(1) ok] c(3) [folded ws'_def] w v by auto
qed

lemma effects_loop_ok:
  assumes "scope_ok numbers catalog T s B" "map_of (sc_tables s) tid = Some ws" "list_all (named numbers (ws_table ws)) effects"
    "run_effects (ws_table ws) effects (scope_view s B tid) = Some V"
  shows "\<exists>s' ws'. effects_loop tid (map Inr effects) s = (s', Inr ()) \<and> scope_ok numbers catalog T s' B \<and>
    scope_view s' B = (scope_view s B)(tid := V) \<and> map_of (sc_tables s') tid = Some ws' \<and> ws_table ws' = ws_table ws \<and> ws_opaque ws' = ws_opaque ws"
  using assms
proof (induction effects arbitrary: s ws)
  case Nil
  then show ?case by (auto simp: fun_eq_iff)
next
  case (Cons x effects)
  obtain token key e where x: "x = (token, key, e)" by (metis prod_cases3)
  obtain r where r: "effect_on (ws_table ws) e (scope_view s B tid token) = Some r"
    "run_effects (ws_table ws) effects ((scope_view s B tid)(token := r)) = Some V"
    using Cons.prems(4) by (auto simp: x split: option.splits)
  obtain s1 ws1 where s1: "apply_scope_effect tid token key e s = (s1, Inr ())" "scope_ok numbers catalog T s1 B"
    "scope_view s1 B = (scope_view s B)(tid := (scope_view s B tid)(token := r))"
    "map_of (sc_tables s1) tid = Some ws1" "ws_table ws1 = ws_table ws" "ws_opaque ws1 = ws_opaque ws"
    using apply_effect_ok [OF Cons.prems(1,2) _ r(1), of key] Cons.prems(3) by (auto simp: x)
  have "run_effects (ws_table ws1) effects (scope_view s1 B tid) = Some V" using r(2) by (simp add: s1)
  from Cons.IH [OF s1(2,4) _ this] Cons.prems(3) show ?case
    by (auto simp: x s1 fun_eq_iff)
qed

subsection \<open>Staging\<close>

lemma stage_all_ok:
  assumes "stage_all env table segs s = (s', r)"
  shows "case r of
      Inr _ \<Rightarrow> \<exists>w. s' = s \<lparr>sc_staged := sc_staged s @ map (Pair table) segs, sc_staged_work := w\<rparr>
    | Inl e \<Rightarrow> env_error env e"
  using assms
proof (induction segs arbitrary: s)
  case Nil
  then show ?case by (auto intro!: exI [of _ "sc_staged_work s"])
next
  case (Cons seg segs)
  show ?case
  proof (cases "stage_fails env s table seg")
    case None
    let ?s = "s \<lparr>sc_staged := sc_staged s @ [(table, seg)], sc_staged_work := sc_staged_work s + stage_work env s table seg\<rparr>"
    have "stage_all env table segs ?s = (s', r)" using Cons.prems None by (simp add: stage_segment_def bindE_def)
    from Cons.IH [OF this] show ?thesis by (auto split: sum.splits)
  next
    case (Some e)
    then have "r = Inl e" using Cons.prems by (simp add: stage_segment_def bindE_def)
    then show ?thesis using Some by (auto simp: env_error_def)
  qed
qed

definition move_entry :: "'n scope_entry \<Rightarrow> 'n scope_entry" where
  "move_entry entry =
     (case entry_pending entry of
        None \<Rightarrow> entry
      | Some p \<Rightarrow>
          (case compose_scope_effect (entry_staged entry) p of
             Inl _ \<Rightarrow> entry | Inr c \<Rightarrow> entry \<lparr>entry_staged := Some c, entry_pending := None\<rparr>))"

lemma mirror_loop_moves:
  assumes "\<And>t entry p. (t, entry) \<in> set rows \<Longrightarrow> entry_pending entry = Some p \<Longrightarrow> \<exists>c. compose_scope_effect (entry_staged entry) p = Inr c"
  shows "mirror_loop True rows = (map (\<lambda>(t, entry). (t, move_entry entry)) rows, Inr ())"
  using assms
proof (induction rows)
  case (Cons x rows)
  obtain t entry where x: "x = (t, entry)" by fastforce
  have IH: "mirror_loop True rows = (map (\<lambda>(t, entry). (t, move_entry entry)) rows, Inr ())" using Cons by auto
  show ?case
  proof (cases "entry_pending entry")
    case None
    then show ?thesis by (simp add: x IH move_entry_def)
  next
    case (Some p)
    then obtain c where "compose_scope_effect (entry_staged entry) p = Inr c" using Cons.prems [of t entry p] x by auto
    then show ?thesis using Some by (simp add: x IH move_entry_def)
  qed
qed simp

lemma mirror_loop_drops: "mirror_loop False rows = (filter (\<lambda>(_, entry). entry_pending entry = None) rows, Inr ())"
  by (induction rows) (auto split: option.splits)

lemma no_pending_view:
  assumes "set_ok numbers B ws" "ws_pending_rows ws = 0"
  shows "pending_view ws B = B" "(t, entry) \<in> set (ws_rows ws) \<Longrightarrow> entry_pending entry = None"
proof -
  have "filter (\<lambda>(_, entry). entry_pending entry \<noteq> None) (ws_rows ws) = []" using assms by (simp add: set_ok_def)
  then have n: "entry_pending entry = None" if "(t, entry) \<in> set (ws_rows ws)" for t entry
    using that by (auto simp: filter_empty_conv)
  then show "(t, entry) \<in> set (ws_rows ws) \<Longrightarrow> entry_pending entry = None" by blast
  show "pending_view ws B = B" using n by (auto simp: pending_view_def fun_eq_iff dest!: map_of_SomeD split: option.splits)
qed

lemma map_of_map_rows: "map_of (map (\<lambda>(t, entry). (t, f entry)) rows) t = map_option f (map_of rows t)"
  by (induction rows) auto

lemma map_fst_map_rows: "map fst (map (\<lambda>(t, entry). (t, f entry)) rows) = map fst rows"
  by (induction rows) auto

lemma effect_on_delete: "effect_kind e = KDelete \<Longrightarrow> effect_on table e r = Some r' \<Longrightarrow> r' = None"
  by (simp add: effect_on_def run_effect_def)

lemma effect_on_update: "effect_kind e = KUpdate \<Longrightarrow> effect_on table e r = Some r' \<Longrightarrow> r \<noteq> None"
  by (auto simp: effect_on_def run_effect_def split: option.splits)

text \<open>A set that is mirrored: every pending effect composes with the staged one.\<close>

lemma mirror_composes:
  assumes "set_ok numbers B ws" "mirror_ok numbers T B ws" "map_of (ws_rows ws) t = Some entry" "entry_pending entry = Some p"
  obtains c where "compose_scope_effect (entry_staged entry) p = Inr c" "names_row numbers (ws_table ws) t c"
    "effect_on (ws_table ws) c (T t) = Some (pending_view ws B t)"
proof -
  have ok: "scope_entry_ok numbers (ws_table ws) B t entry" and kt: "keyed_table (ws_table ws)"
    using assms(1,3) by (auto simp: set_ok_def dest: map_of_SomeD)
  then obtain r where r: "effect_on (ws_table ws) p (B t) = Some r" "names_row numbers (ws_table ws) t p"
    using assms(4) by (auto simp: scope_entry_ok_def)
  have v: "pending_view ws B t = r" using assms(3,4) r(1) by (simp add: pending_view_def)
  have m: "case entry_staged entry of None \<Rightarrow> B t = T t
      | Some e \<Rightarrow> names_row numbers (ws_table ws) t e \<and> effect_on (ws_table ws) e (T t) = Some (B t)"
    using assms(2,3) by (auto simp: mirror_ok_def dest!: spec [of _ t] split: option.splits)
  show thesis
  proof (cases "entry_staged entry")
    case None
    have "compose_scope_effect None p = Inr p" by (simp add: compose_scope_effect_def split: effect_kind.splits)
    then show thesis using that [of p] None m r v by simp
  next
    case (Some b)
    then obtain c where c: "compose_scope_effect (Some b) p = Inr c" "effect_on (ws_table ws) c (T t) = Some r"
      using m compose_runs r(1) by (fastforce simp: effect_on_def)
    have "key_position (ws_table ws) < length (table_columns (ws_table ws))" using keyed_table_position [OF kt] by metis
    then have "names_row numbers (ws_table ws) t c" using compose_names_row [OF c(1) r(2)] m Some by simp
    then show thesis using that c Some v by simp
  qed
qed

lemma staged_rows:
  assumes "set_ok numbers B ws" "mirror \<longrightarrow> mirror_ok numbers T B ws" "mirror_loop mirror (ws_rows ws) = (rows, r)"
  shows "r = Inr ()" "distinct (map fst rows)" "\<And>t entry. (t, entry) \<in> set rows \<Longrightarrow> entry_pending entry = None \<and> (\<exists>k. entry_key entry = Some k \<and> token_of numbers (ws_table ws) (Some k) = t)"
    "mirror \<Longrightarrow> (case Option.bind (map_of rows t) entry_staged of
        None \<Rightarrow> pending_view ws B t = T t
      | Some e \<Rightarrow> names_row numbers (ws_table ws) t e \<and> effect_on (ws_table ws) e (T t) = Some (pending_view ws B t))"
proof -
  have d: "distinct (map fst (ws_rows ws))"
    and keys: "\<And>t entry. (t, entry) \<in> set (ws_rows ws) \<Longrightarrow> \<exists>k. entry_key entry = Some k \<and> token_of numbers (ws_table ws) (Some k) = t"
    using assms(1) by (auto simp: set_ok_def scope_entry_ok_def)
  have all: "r = Inr () \<and> distinct (map fst rows) \<and>
    (\<forall>(t, entry) \<in> set rows. entry_pending entry = None \<and> (\<exists>k. entry_key entry = Some k \<and> token_of numbers (ws_table ws) (Some k) = t)) \<and>
    (mirror \<longrightarrow> (\<forall>t. case Option.bind (map_of rows t) entry_staged of
        None \<Rightarrow> pending_view ws B t = T t
      | Some e \<Rightarrow> names_row numbers (ws_table ws) t e \<and> effect_on (ws_table ws) e (T t) = Some (pending_view ws B t)))"
  proof (cases mirror)
    case False
    then have "rows = filter (\<lambda>(_, entry). entry_pending entry = None) (ws_rows ws)" "r = Inr ()"
      using assms(3) mirror_loop_drops [of "ws_rows ws"] by simp_all
    then show ?thesis using d keys False by (auto simp: distinct_map_filter)
  next
    case True
    then have m: "mirror_ok numbers T B ws" using assms(2) by simp
    have comp: "\<exists>c. compose_scope_effect (entry_staged entry) p = Inr c \<and> names_row numbers (ws_table ws) t c \<and>
        effect_on (ws_table ws) c (T t) = Some (pending_view ws B t)"
      if "(t, entry) \<in> set (ws_rows ws)" "entry_pending entry = Some p" for t entry p
      using mirror_composes [OF assms(1) m] that d by (metis map_of_is_SomeI)
    then have "mirror_loop True (ws_rows ws) = (map (\<lambda>(t, entry). (t, move_entry entry)) (ws_rows ws), Inr ())"
      by (intro mirror_loop_moves) blast
    then have rows: "rows = map (\<lambda>(t, entry). (t, move_entry entry)) (ws_rows ws)" "r = Inr ()" using assms(3) True by simp_all
    have "entry_pending (move_entry entry) = None \<and> entry_key (move_entry entry) = entry_key entry" if "(t, entry) \<in> set (ws_rows ws)" for t entry
      using comp that by (fastforce simp: move_entry_def split: option.splits)
    then have "\<forall>(t, entry) \<in> set rows. entry_pending entry = None \<and> (\<exists>k. entry_key entry = Some k \<and> token_of numbers (ws_table ws) (Some k) = t)"
      using keys by (auto simp: rows(1))
    moreover have "case Option.bind (map_of rows t) entry_staged of
        None \<Rightarrow> pending_view ws B t = T t
      | Some e \<Rightarrow> names_row numbers (ws_table ws) t e \<and> effect_on (ws_table ws) e (T t) = Some (pending_view ws B t)" for t
    proof (cases "map_of (ws_rows ws) t")
      case None
      then show ?thesis using m by (auto simp: rows(1) map_of_map_rows mirror_ok_def pending_view_def dest!: spec [of _ t])
    next
      case (Some entry)
      show ?thesis
      proof (cases "entry_pending entry")
        case None
        then have "move_entry entry = entry" "pending_view ws B t = B t" using Some by (simp_all add: move_entry_def pending_view_def)
        then show ?thesis using m Some by (auto simp: rows(1) map_of_map_rows mirror_ok_def dest!: spec [of _ t] split: option.splits)
      next
        case pending: (Some p)
        then obtain c where "compose_scope_effect (entry_staged entry) p = Inr c" "names_row numbers (ws_table ws) t c"
          "effect_on (ws_table ws) c (T t) = Some (pending_view ws B t)" using comp map_of_SomeD [OF Some] by blast
        then show ?thesis using Some pending by (simp add: rows(1) map_of_map_rows move_entry_def)
      qed
    qed
    moreover have "distinct (map fst rows)" unfolding rows(1) map_fst_map_rows by (rule d)
    ultimately show ?thesis using rows(2) by blast
  qed
  then show "r = Inr ()" "distinct (map fst rows)" by blast+
  show "\<And>t entry. (t, entry) \<in> set rows \<Longrightarrow> entry_pending entry = None \<and> (\<exists>k. entry_key entry = Some k \<and> token_of numbers (ws_table ws) (Some k) = t)"
    using all by fastforce
  show "mirror \<Longrightarrow> (case Option.bind (map_of rows t) entry_staged of
        None \<Rightarrow> pending_view ws B t = T t
      | Some e \<Rightarrow> names_row numbers (ws_table ws) t e \<and> effect_on (ws_table ws) e (T t) = Some (pending_view ws B t))"
    using all by blast
qed

text \<open>Staging one set: its pending effects become segments, and the view stays.\<close>

lemma stage_set_ok:
  assumes "scope_ok numbers catalog T s B" "map_of (sc_tables s) tid = Some ws" "stage_scope_write_set env tid s = (s', r)"
  shows "case r of
      Inl e \<Rightarrow> env_error env e
    | Inr _ \<Rightarrow> \<exists>B' ws'. scope_ok numbers catalog T s' B' \<and> scope_view s' B' = scope_view s B \<and> sc_mirrored s' = sc_mirrored s \<and>
        map fst (sc_tables s') = map fst (sc_tables s) \<and>
        map_of (sc_tables s') tid = Some ws' \<and> ws_table ws' = ws_table ws \<and> ws_opaque ws' = ws_opaque ws \<and> ws_pending_rows ws' = 0 \<and>
        (\<forall>t. t \<noteq> tid \<longrightarrow> map_of (sc_tables s') t = map_of (sc_tables s) t)"
proof -
  have in_scope: "set_in_scope numbers catalog (sc_mirrored s) (T tid) (B tid) tid ws" by (rule scope_ok_set [OF assms(1,2)])
  then have set: "set_ok numbers (B tid) ws" and id: "table_id (ws_table ws) = tid" by (simp_all add: set_in_scope_def)
  obtain s1 r1 where all: "stage_all env (ws_table ws) (scope_segments ws) s = (s1, r1)" by fastforce
  note one = stage_all_ok [OF all]
  show ?thesis
  proof (cases r1)
    case (Inl e)
    then have "r = Inl e" using assms(2,3) all by (simp add: stage_scope_write_set_def bindE_def)
    then show ?thesis using one Inl by simp
  next
    case (Inr u)
    then obtain w where s1: "s1 = s \<lparr>sc_staged := sc_staged s @ map (Pair (ws_table ws)) (scope_segments ws), sc_staged_work := w\<rparr>"
      using one by auto
    let ?B = "B(tid := pending_view ws (B tid))"
    define mirror where "mirror \<longleftrightarrow> ws_key_column ws \<noteq> None \<and> sc_mirrored s \<and> \<not> ws_opaque ws"
    obtain rows q where loop: "mirror_loop mirror (ws_rows ws) = (rows, q)" by fastforce
    have mirrored: "mirror \<longrightarrow> mirror_ok numbers (T tid) (B tid) ws" using in_scope by (simp add: set_in_scope_def mirror_def)
    note rows = staged_rows [OF set mirrored loop]
    define ws' where "ws' = ws \<lparr>ws_rows := rows, ws_mirror_bytes := (if mirror then ws_mirror_bytes ws + ws_pending_bytes ws else ws_mirror_bytes ws),
                       ws_pending_bytes := 0, ws_pending_rows := 0\<rparr>"
    have s': "s' = put_set tid ws' s1" "r = Inr ()"
      using assms(2,3) all Inr loop rows(1)
      by (simp_all add: stage_scope_write_set_def bindE_def mirror_def s1 ws'_def Let_def)
    have w': "ws_table ws' = ws_table ws" "ws_opaque ws' = ws_opaque ws" "ws_rows ws' = rows" "ws_pending_rows ws' = 0" "ws_key_column ws' = ws_key_column ws"
      by (simp_all add: ws'_def)
    have set': "set_ok numbers (pending_view ws (B tid)) ws'"
      using set rows(2,3) by (auto simp: set_ok_def w' scope_entry_ok_def filter_empty_conv)
    have mirror': "mirror_ok numbers (T tid) (pending_view ws (B tid)) ws'" if mirror
      unfolding mirror_ok_def w' using rows(4) [OF that] by blast
    have key: "ws_key_column ws \<noteq> None" using set by (auto simp: set_ok_def keyed_table_def)
    have in': "set_in_scope numbers catalog (sc_mirrored s) (T tid) (pending_view ws (B tid)) tid ws'"
      using in_scope set' mirror' key by (auto simp: set_in_scope_def w' mirror_def)
    have rep: "replay numbers (sc_staged s1) T = Some ?B"
      using assms(1) staged_set [OF set] by (simp add: s1 replay_append scope_ok_def replay_one_table id)
    have ok': "scope_ok numbers catalog T s' ?B"
      using assms(1,2) rep in' by (auto simp: scope_ok_def s' s1)
    have "pending_view ws' (pending_view ws (B tid)) = pending_view ws (B tid)" by (rule no_pending_view(1) [OF set' w'(4)])
    then have "scope_view s' ?B = scope_view s B" using assms(2) by (auto simp: scope_view_def s' s1 fun_eq_iff cong: option.case_cong)
    moreover have "map fst (sc_tables s') = map fst (sc_tables s)" using assms(2) by (simp add: s' s1 put_set_def map_fst_map_set)
    ultimately show ?thesis using ok' w' s' by (auto simp: s1)
  qed
qed

subsection \<open>Flushing\<close>

text \<open>What a flush keeps of the sets: the tables, and that nothing waits where nothing did.\<close>

definition same_sets :: "'n scope \<Rightarrow> 'n scope \<Rightarrow> bool" where
  "same_sets s s' \<longleftrightarrow> map fst (sc_tables s') = map fst (sc_tables s) \<and>
     (\<forall>tid ws. map_of (sc_tables s) tid = Some ws \<longrightarrow>
        (\<exists>ws'. map_of (sc_tables s') tid = Some ws' \<and> ws_table ws' = ws_table ws \<and> ws_opaque ws' = ws_opaque ws \<and>
           (ws_pending_rows ws = 0 \<longrightarrow> ws_pending_rows ws' = 0)))"

definition keeps_view ::
  "'n scope_env \<Rightarrow> 'n host_numbers \<Rightarrow> (js_string \<Rightarrow> table_record option) \<Rightarrow> (js_string \<Rightarrow> 'n view) \<Rightarrow> 'n scope \<Rightarrow> (js_string \<Rightarrow> 'n view) \<Rightarrow>
     'n scope \<times> unit result \<Rightarrow> bool"
where
  "keeps_view env numbers catalog T s B = (\<lambda>(s', r).
     case r of
       Inl e \<Rightarrow> env_error env e
     | Inr _ \<Rightarrow> \<exists>B'. scope_ok numbers catalog T s' B' \<and> scope_view s' B' = scope_view s B \<and> same_sets s s')"

lemma same_sets_refl [simp]: "same_sets s s"
  by (simp add: same_sets_def)

lemma same_sets_trans: "same_sets s s1 \<Longrightarrow> same_sets s1 s2 \<Longrightarrow> same_sets s s2"
  unfolding same_sets_def by (metis (no_types))

lemma scope_ok_accounts:
  "scope_ok numbers catalog T (s \<lparr>sc_flushed_work := w\<rparr>) B = scope_ok numbers catalog T s B"
  "scope_view (s \<lparr>sc_flushed_work := w\<rparr>) B = scope_view s B"
  "same_sets s0 (s \<lparr>sc_flushed_work := w\<rparr>) = same_sets s0 s"
  by (simp_all add: scope_ok_def scope_view_def same_sets_def fun_eq_iff)

lemma flush_loop_ok:
  assumes "scope_ok numbers catalog T s B" "flush_loop env tids s = (s', r)"
  shows "keeps_view env numbers catalog T s B (s', r) \<and>
    (r = Inr () \<longrightarrow> sc_mirrored s' = sc_mirrored s \<and> (\<forall>tid \<in> set tids. \<forall>ws. map_of (sc_tables s') tid = Some ws \<longrightarrow> ws_pending_rows ws = 0))"
  using assms
proof (induction tids arbitrary: s B)
  case Nil
  then show ?case by (auto simp: keeps_view_def)
next
  case (Cons tid tids)
  show ?case
  proof (cases "\<exists>ws. map_of (sc_tables s) tid = Some ws \<and> ws_pending_rows ws \<noteq> 0")
    case False
    then have "flush_loop env tids s = (s', r)" using Cons.prems(2) by (auto split: option.splits)
    note IH = Cons.IH [OF Cons.prems(1) this]
    have "ws_pending_rows ws = 0" if "r = Inr ()" "map_of (sc_tables s') tid = Some ws" for ws
    proof -
      have ss: "same_sets s s'" using IH that(1) by (auto simp: keeps_view_def)
      show ?thesis
      proof (cases "map_of (sc_tables s) tid")
        case None
        then have "map_of (sc_tables s') tid = None" using ss by (metis (no_types) map_of_eq_None_iff list.set_map same_sets_def)
        then show ?thesis using that by simp
      next
        case (Some ws0)
        then show ?thesis using ss False that(2) by (fastforce simp: same_sets_def)
      qed
    qed
    then show ?thesis using IH by auto
  next
    case True
    then obtain ws where ws: "map_of (sc_tables s) tid = Some ws" "ws_pending_rows ws \<noteq> 0" by blast
    obtain s1 r1 where st: "stage_scope_write_set env tid s = (s1, r1)" by fastforce
    note one = stage_set_ok [OF Cons.prems(1) ws(1) st]
    show ?thesis
    proof (cases r1)
      case (Inl e)
      then have "r = Inl e" using Cons.prems(2) ws st by (simp add: Let_def)
      then show ?thesis using one Inl by (simp add: keeps_view_def)
    next
      case (Inr u)
      let ?s = "s1 \<lparr>sc_flushed_work := sc_flushed_work s1 + (sc_staged_work s1 - sc_staged_work s)\<rparr>"
      have rest: "flush_loop env tids ?s = (s', r)" using Cons.prems(2) ws st Inr by (simp add: Let_def)
      obtain B1 ws1 where B1: "scope_ok numbers catalog T s1 B1" "scope_view s1 B1 = scope_view s B" "sc_mirrored s1 = sc_mirrored s"
        "map fst (sc_tables s1) = map fst (sc_tables s)" "map_of (sc_tables s1) tid = Some ws1" "ws_table ws1 = ws_table ws"
        "ws_opaque ws1 = ws_opaque ws" "ws_pending_rows ws1 = 0" "\<And>t. t \<noteq> tid \<Longrightarrow> map_of (sc_tables s1) t = map_of (sc_tables s) t"
        using one Inr by auto
      have "same_sets s s1" unfolding same_sets_def
      proof (intro conjI allI impI)
        show "map fst (sc_tables s1) = map fst (sc_tables s)" by (rule B1(4))
        show "\<exists>ws'. map_of (sc_tables s1) t = Some ws' \<and> ws_table ws' = ws_table w \<and> ws_opaque ws' = ws_opaque w \<and>
            (ws_pending_rows w = 0 \<longrightarrow> ws_pending_rows ws' = 0)" if "map_of (sc_tables s) t = Some w" for t w
          using that B1 ws by (cases "t = tid") auto
      qed
      then have ss: "same_sets s ?s" by (simp add: scope_ok_accounts)
      have "scope_ok numbers catalog T ?s B1" using B1(1) by (simp add: scope_ok_accounts)
      note IH = Cons.IH [OF this rest]
      have "keeps_view env numbers catalog T s B (s', r)"
        using IH B1(2) same_sets_trans [OF ss, of s'] by (cases r) (auto simp: keeps_view_def scope_ok_accounts(2))
      moreover have "ws_pending_rows w = 0" if "r = Inr ()" "map_of (sc_tables s') tid = Some w" for w
        using IH that B1(5,8) by (fastforce simp: keeps_view_def same_sets_def)
      ultimately show ?thesis using IH B1(3) by auto
    qed
  qed
qed

lemma drop_mirror_rows:
  "ws_rows (drop_mirror ws) = map (\<lambda>(t, entry). (t, entry \<lparr>entry_staged := None\<rparr>)) (filter (\<lambda>(_, entry). entry_pending entry \<noteq> None) (ws_rows ws))"
proof -
  have "concat (map (\<lambda>(token, entry). if entry_pending entry = None then [] else [(token, entry \<lparr>entry_staged := None\<rparr>)]) rows)
      = map (\<lambda>(t, entry). (t, entry \<lparr>entry_staged := None\<rparr>)) (filter (\<lambda>(_, entry). entry_pending entry \<noteq> None) rows)" for rows :: "(js_string \<times> 'a scope_entry) list"
    by (induction rows) auto
  then show ?thesis by (simp add: drop_mirror_def)
qed

lemma drop_mirror_ok:
  assumes "set_ok numbers B ws"
  shows "set_ok numbers B (drop_mirror ws)" "pending_view (drop_mirror ws) B = pending_view ws B"
proof -
  have d: "distinct (map fst (ws_rows ws))" using assms by (simp add: set_ok_def)
  have f: "ws_table (drop_mirror ws) = ws_table ws" "ws_key_column (drop_mirror ws) = ws_key_column ws"
    "ws_pending_rows (drop_mirror ws) = ws_pending_rows ws" by (simp_all add: drop_mirror_def)
  have len: "filter (\<lambda>(_, entry). entry_pending entry \<noteq> None) (ws_rows (drop_mirror ws)) = ws_rows (drop_mirror ws)"
    unfolding drop_mirror_rows by (auto simp: filter_id_conv)
  have "distinct (map fst (ws_rows (drop_mirror ws)))"
    unfolding drop_mirror_rows map_fst_map_rows by (rule distinct_map_filter [OF d])
  then show "set_ok numbers B (drop_mirror ws)"
    using assms len unfolding set_ok_def f
    by (auto simp: drop_mirror_rows scope_entry_ok_def)
  have m: "map_of (ws_rows (drop_mirror ws)) t =
      (case map_of (ws_rows ws) t of Some entry \<Rightarrow> if entry_pending entry = None then None else Some (entry \<lparr>entry_staged := None\<rparr>) | None \<Rightarrow> None)" for t
  proof -
    have "map_of (filter (\<lambda>(_, entry). entry_pending entry \<noteq> None) rows) t =
        (case map_of rows t of Some entry \<Rightarrow> if entry_pending entry = None then None else Some entry | None \<Rightarrow> None)"
      if "distinct (map fst rows)" for rows :: "(js_string \<times> 'a scope_entry) list"
      using that
    proof (induction rows)
      case (Cons x rows)
      obtain t' entry where x: "x = (t', entry)" by fastforce
      have "map_of rows t' = None" using Cons.prems by (simp add: x map_of_eq_None_iff)
      then show ?case using Cons by (auto simp: x split: option.splits)
    qed simp
    from this [OF d] show ?thesis by (auto simp: drop_mirror_rows map_of_map_rows split: option.splits)
  qed
  show "pending_view (drop_mirror ws) B = pending_view ws B"
    by (auto simp: pending_view_def m f fun_eq_iff split: option.splits)
qed

lemma map_of_map_sets: "map_of (map (\<lambda>(tid, ws). (tid, f ws)) m) tid = map_option f (map_of m tid)"
  by (induction m) auto

lemma flush_ok:
  assumes "scope_ok numbers catalog T s B" "flush_scope_write_sets env ids s = (s', r)"
  shows "keeps_view env numbers catalog T s B (s', r)"
    "r = Inr () \<Longrightarrow> tid \<in> set (case ids of Some ids \<Rightarrow> ids | None \<Rightarrow> map fst (sc_tables s)) \<Longrightarrow> map_of (sc_tables s') tid = Some ws \<Longrightarrow>
      ws_pending_rows ws = 0"
proof -
  let ?ids = "case ids of Some ids \<Rightarrow> ids | None \<Rightarrow> map fst (sc_tables s)"
  obtain s1 r1 where l: "flush_loop env ?ids s = (s1, r1)" by fastforce
  note loop = flush_loop_ok [OF assms(1) l]
  have both: "keeps_view env numbers catalog T s B (s', r) \<and>
    (r = Inr () \<longrightarrow> (\<forall>tid \<in> set ?ids. \<forall>ws. map_of (sc_tables s') tid = Some ws \<longrightarrow> ws_pending_rows ws = 0))"
  proof (cases r1)
    case (Inl e)
    then have "r = Inl e" using assms(2) l by (simp add: flush_scope_write_sets_def bindE_def)
    then show ?thesis using loop Inl by (simp add: keeps_view_def)
  next
    case (Inr u)
    let ?s = "s1 \<lparr>sc_mirrored := False, sc_tables := map (\<lambda>(tid, ws). (tid, drop_mirror ws)) (sc_tables s1)\<rparr>"
    have "(s', r) = (s1, Inr ()) \<or> (s', r) = (?s, Inr ())"
      using assms(2) l Inr by (auto simp: flush_scope_write_sets_def bindE_def split: if_splits)
    then show ?thesis
    proof
      assume "(s', r) = (s1, Inr ())"
      then show ?thesis using loop Inr by simp
    next
      assume s': "(s', r) = (?s, Inr ())"
      obtain B1 where B1: "scope_ok numbers catalog T s1 B1" "scope_view s1 B1 = scope_view s B" "same_sets s s1"
        using loop Inr by (auto simp: keeps_view_def)
      have m: "map_of (sc_tables ?s) tid = map_option drop_mirror (map_of (sc_tables s1) tid)" for tid by (simp add: map_of_map_sets)
      have f: "map fst (sc_tables ?s) = map fst (sc_tables s1)" by (simp add: case_prod_unfold o_def)
      have k: "ws_table (drop_mirror ws) = ws_table ws" "ws_opaque (drop_mirror ws) = ws_opaque ws" "ws_pending_rows (drop_mirror ws) = ws_pending_rows ws"
        for ws :: "'a write_set" by (simp_all add: drop_mirror_def)
      have so: "set_ok numbers (B1 tid) ws \<and> table_id (ws_table ws) = tid \<and> catalog tid = Some (ws_table ws)" if "map_of (sc_tables s1) tid = Some ws" for tid ws
        using scope_ok_set [OF B1(1) that] by (simp add: set_in_scope_def)
      have "set_in_scope numbers catalog False (T tid) (B1 tid) tid ws" if "map_of (sc_tables ?s) tid = Some ws" for tid ws
      proof -
        obtain w where "map_of (sc_tables s1) tid = Some w" and w: "ws = drop_mirror w" using \<open>map_of (sc_tables ?s) tid = Some ws\<close> unfolding m by (auto simp: map_option_case split: option.splits)
        then have w': "set_ok numbers (B1 tid) w" "table_id (ws_table w) = tid \<and> catalog tid = Some (ws_table w)" using so by blast+
        show ?thesis using w'(2) drop_mirror_ok(1) [OF w'(1)] by (simp add: set_in_scope_def k w)
      qed
      moreover have "distinct (map fst (sc_tables ?s))" "replay numbers (sc_staged ?s) T = Some B1"
        using B1(1) unfolding f by (simp_all add: scope_ok_def)
      ultimately have "scope_ok numbers catalog T ?s B1" unfolding scope_ok_def by simp
      moreover have "scope_view ?s B1 = scope_view s1 B1"
        unfolding scope_view_def m by (rule ext) (auto dest!: so simp: drop_mirror_ok(2) split: option.splits)
      moreover have "same_sets s1 ?s" unfolding same_sets_def f m by (auto simp: k)
      moreover have "ws_pending_rows ws = 0" if "tid \<in> set ?ids" "map_of (sc_tables ?s) tid = Some ws" for tid ws
        using loop Inr that unfolding m by (auto simp: k)
      ultimately show ?thesis using s' B1(2) same_sets_trans [OF B1(3), of ?s] by (auto simp: keeps_view_def)
    qed
  qed
  then show "keeps_view env numbers catalog T s B (s', r)" by blast
  show "r = Inr () \<Longrightarrow> tid \<in> set ?ids \<Longrightarrow> map_of (sc_tables s') tid = Some ws \<Longrightarrow> ws_pending_rows ws = 0" using both by blast
qed

lemma settle_ok:
  assumes "scope_ok numbers catalog T s B"
  shows "keeps_view env numbers catalog T s B (settle_scope_write_set env table s)"
proof -
  have f: "keeps_view env numbers catalog T s B (flush_scope_write_sets env ids s)" for ids
    using flush_ok(1) [OF assms] by (metis surj_pair)
  have "keeps_view env numbers catalog T s B (s, Inr ())" using assms by (auto simp: keeps_view_def)
  then show ?thesis using f by (auto simp: settle_scope_write_set_def keeps_view_def env_error_def split: option.splits)
qed

end
