(* ===== verification/ScopeStatements.thy ===== *)
theory ScopeStatements
  imports ScopeRuns
begin

text \<open>
  The statements of a scope: what buffering one makes of the scope's view of the tables, and, for a
  whole scope, that what it stages is what its statements say.
\<close>

subsection \<open>The parts of a statement\<close>

lemma pending_bytes_ok:
  assumes "scope_ok numbers catalog T s B"
  shows "scope_ok numbers catalog T (add_pending_bytes tid n s) B" "scope_view (add_pending_bytes tid n s) B = scope_view s B"
proof -
  have "scope_ok numbers catalog T (add_pending_bytes tid n s) B \<and> scope_view (add_pending_bytes tid n s) B = scope_view s B"
  proof (cases "map_of (sc_tables s) tid")
    case (Some w)
    define w' where "w' = w \<lparr>ws_pending_bytes := ws_pending_bytes w + n\<rparr>"
    have f: "ws_table w' = ws_table w" "ws_rows w' = ws_rows w" "ws_opaque w' = ws_opaque w" "ws_pending_rows w' = ws_pending_rows w"
      "ws_key_column w' = ws_key_column w" by (simp_all add: w'_def)
    have step: "add_pending_bytes tid n s = put_set tid w' s" by (simp add: add_pending_bytes_def Some w'_def)
    have in': "set_in_scope numbers catalog (sc_mirrored s) (T tid) (B tid) tid w'"
      using scope_ok_set [OF assms Some] unfolding set_in_scope_def set_ok_def mirror_ok_def f .
    have "pending_view w' (B tid) = scope_view s B tid" unfolding scope_view_def pending_view_def f Some by simp
    then show ?thesis using scope_ok_put [OF assms in'] unfolding step by simp
  qed (use assms in \<open>simp add: add_pending_bytes_def\<close>)
  then show "scope_ok numbers catalog T (add_pending_bytes tid n s) B" "scope_view (add_pending_bytes tid n s) B = scope_view s B" by blast+
qed

lemma new_set_ok:
  assumes "keyed_table table"
  shows "set_ok numbers B (new_write_set table)" "pending_view (new_write_set table) B = B" "mirror_ok numbers T T (new_write_set table)"
  using assms by (simp_all add: set_ok_def new_write_set_def pending_view_def mirror_ok_def)

lemma scope_ok_generation:
  "scope_ok numbers catalog T (s \<lparr>sc_generation := g\<rparr>) B = scope_ok numbers catalog T s B"
  "scope_view (s \<lparr>sc_generation := g\<rparr>) B = scope_view s B"
  by (simp_all add: scope_ok_def scope_view_def fun_eq_iff)

lemma write_set_ok:
  assumes "scope_ok numbers catalog T s B" "catalog (table_id table) = Some table" "keyed_table table"
  shows "set_in_scope numbers catalog (sc_mirrored s) (T (table_id table)) (B (table_id table)) (table_id table) (scope_write_set table s)"
    "pending_view (scope_write_set table s) (B (table_id table)) = scope_view s B (table_id table)"
    "ws_table (scope_write_set table s) = table"
proof -
  let ?id = "table_id table"
  have "set_in_scope numbers catalog (sc_mirrored s) (T ?id) (B ?id) ?id (scope_write_set table s) \<and>
      pending_view (scope_write_set table s) (B ?id) = scope_view s B ?id \<and> ws_table (scope_write_set table s) = table"
  proof (cases "map_of (sc_tables s) ?id")
    case None
    have ws: "scope_write_set table s = new_write_set table" by (simp add: scope_write_set_def None)
    have n: "ws_table (new_write_set table) = table" by (simp add: new_write_set_def)
    have "sc_mirrored s \<longrightarrow> mirror_ok numbers (T ?id) (B ?id) (new_write_set table)"
    proof
      assume "sc_mirrored s"
      then have "B ?id = T ?id" using assms(1) None unfolding scope_ok_def by blast
      then show "mirror_ok numbers (T ?id) (B ?id) (new_write_set table)" using new_set_ok(3) [OF assms(3)] by simp
    qed
    then have "set_in_scope numbers catalog (sc_mirrored s) (T ?id) (B ?id) ?id (new_write_set table)"
      unfolding set_in_scope_def n using new_set_ok(1) [OF assms(3)] assms(2) by blast
    then show ?thesis unfolding ws n new_set_ok(2) [OF assms(3)] scope_view_def None by simp
  next
    case (Some ws)
    have w: "scope_write_set table s = ws" by (simp add: scope_write_set_def Some)
    note in_scope = scope_ok_set [OF assms(1) Some]
    then have "catalog ?id = Some (ws_table ws)" unfolding set_in_scope_def by blast
    then have "ws_table ws = table" unfolding assms(2) by (rule option.inject [THEN iffD1, symmetric])
    then show ?thesis unfolding w scope_view_def Some using in_scope by simp
  qed
  then show "set_in_scope numbers catalog (sc_mirrored s) (T ?id) (B ?id) ?id (scope_write_set table s)"
    "pending_view (scope_write_set table s) (B ?id) = scope_view s B ?id" "ws_table (scope_write_set table s) = table" by blast+
qed

lemma begin_buffer_ok:
  assumes "scope_ok numbers catalog T s B" "catalog (table_id table) = Some table" "keyed_table table"
  shows "scope_ok numbers catalog T (begin_buffer table s) B" "scope_view (begin_buffer table s) B = scope_view s B"
    "\<exists>ws. map_of (sc_tables (begin_buffer table s)) (table_id table) = Some ws \<and> ws_table ws = table"
proof -
  let ?s = "s \<lparr>sc_generation := sc_generation s + 1\<rparr>"
  have ok: "scope_ok numbers catalog T ?s B" using assms(1) by (simp only: scope_ok_generation)
  have b: "begin_buffer table s = put_set (table_id table) (scope_write_set table ?s) ?s" by (simp add: begin_buffer_def Let_def)
  note w = write_set_ok [OF ok assms(2,3)]
  note p = scope_ok_put [OF ok w(1)]
  show "scope_ok numbers catalog T (begin_buffer table s) B" unfolding b by (rule p(1))
  show "scope_view (begin_buffer table s) B = scope_view s B"
    unfolding b p(2) w(2) scope_ok_generation(2) by (rule fun_upd_triv)
  show "\<exists>ws. map_of (sc_tables (begin_buffer table s)) (table_id table) = Some ws \<and> ws_table ws = table"
    unfolding b put_set_simps(1) using w(3) by simp
qed

text \<open>The common course of a buffering statement.\<close>

lemma buffered_ok:
  assumes "scope_ok numbers catalog T s B" "catalog (table_id table) = Some table" "keyed_table table"
    "list_all (named numbers table) effects" "run_effects table effects (scope_view s B (table_id table)) = Some V"
    "(bindE (effects_loop (table_id table) (map Inr effects)) (\<lambda>_ s. settle_scope_write_set env table (add_pending_bytes (table_id table) bytes s)))
      (begin_buffer table s) = (s', r)"
  shows "case r of
      Inl e \<Rightarrow> env_error env e
    | Inr _ \<Rightarrow> \<exists>B'. scope_ok numbers catalog T s' B' \<and> scope_view s' B' = (scope_view s B)(table_id table := V)"
proof -
  let ?id = "table_id table"
  note b = begin_buffer_ok [OF assms(1-3)]
  obtain ws where ws: "map_of (sc_tables (begin_buffer table s)) ?id = Some ws" "ws_table ws = table" using b(3) by blast
  have run: "run_effects (ws_table ws) effects (scope_view (begin_buffer table s) B ?id) = Some V" using assms(5) by (simp add: ws(2) b(2))
  have nm: "list_all (named numbers (ws_table ws)) effects" using assms(4) by (simp add: ws(2))
  obtain s1 where s1: "effects_loop ?id (map Inr effects) (begin_buffer table s) = (s1, Inr ())" "scope_ok numbers catalog T s1 B"
    "scope_view s1 B = (scope_view s B)(?id := V)"
    using effects_loop_ok [OF b(1) ws(1) nm run] unfolding b(2) by blast
  have "settle_scope_write_set env table (add_pending_bytes ?id bytes s1) = (s', r)" using assms(6) s1(1) by (simp add: bindE_def)
  then show ?thesis
    using settle_ok [OF pending_bytes_ok(1) [OF s1(2), of ?id bytes], of env table]
    unfolding keeps_view_def pending_bytes_ok(2) [OF s1(2)] s1(3) by (auto split: sum.splits)
qed

end
