(* ===== verification/ScopeSpec.thy ===== *)
theory ScopeSpec
  imports ScopeStatements
begin

text \<open>
  A whole scope against its statements: the operations of a scope in any order, what each says of the
  tables, and that the segments staged by the commit say the same.
\<close>

subsection \<open>The operations of a scope, and what they say\<close>

datatype 'n scope_op =
    InsertRows table_record "'n batch" nat effect_kind
  | UpdateRows table_record "'n datum list" "'n batch"
  | DeleteRows table_record "(js_string \<times> 'n batch_value) list"
  | FlushSets "js_string list option"
  | StageSegments table_record "'n scope_segment list"

definition key_column_of :: "table_record \<Rightarrow> column" where
  "key_column_of table = table_columns table ! key_position table"

fun run_op :: "'n scope_env \<Rightarrow> 'n scope_op \<Rightarrow> ('n, unit) scope_eff" where
  "run_op env (InsertRows table batch n kind) = buffer_scope_rows env table batch n kind"
| "run_op env (UpdateRows table keys changes) = buffer_scope_update env table (key_column_of table) keys changes"
| "run_op env (DeleteRows table keys) = buffer_scope_delete env table keys"
| "run_op env (FlushSets ids) = flush_scope_write_sets env ids"
| "run_op env (StageSegments table segs) = bindE (stage_scope_directly env table) (\<lambda>_. stage_all env table segs)"

fun run_ops :: "'n scope_env \<Rightarrow> 'n scope_op list \<Rightarrow> ('n, unit) scope_eff" where
  "run_ops env [] = retE ()"
| "run_ops env (op # ops) = bindE (run_op env op) (\<lambda>_. run_ops env ops)"

text \<open>
  What an operation says of the tables: the effects of its rows in order, each at once; a flush
  nothing. \<open>None\<close>: the statement was not entitled to it, or its keys are refused.
\<close>

type_synonym 'n tables = "js_string \<Rightarrow> 'n view"

definition say :: "table_record \<Rightarrow> (js_string \<times> 'n batch_value option \<times> 'n scope_effect) result list \<Rightarrow> 'n tables \<Rightarrow> 'n tables option" where
  "say table effects T =
     (if list_ex isl effects then None
      else map_option (\<lambda>V. T(table_id table := V)) (run_effects table (map projr effects) (T (table_id table))))"

fun spec_op :: "'n host_numbers \<Rightarrow> 'n scope_op \<Rightarrow> 'n tables \<Rightarrow> 'n tables option" where
  "spec_op numbers (InsertRows table batch n kind) T = say table (row_effects numbers table 0 batch n kind) T"
| "spec_op numbers (UpdateRows table keys changes) T = say table (update_effects numbers table (key_column_of table) keys changes) T"
| "spec_op numbers (DeleteRows table keys) T = say table (delete_effects keys) T"
| "spec_op numbers (FlushSets ids) T = Some T"
| "spec_op numbers (StageSegments table segs) T =
     map_option (\<lambda>V. T(table_id table := V)) (replay_updates (concat (map (segment_updates numbers table) segs)) (T (table_id table)))"

fun spec_ops :: "'n host_numbers \<Rightarrow> 'n scope_op list \<Rightarrow> 'n tables \<Rightarrow> 'n tables option" where
  "spec_ops numbers [] T = Some T"
| "spec_ops numbers (op # ops) T = (case spec_op numbers op T of None \<Rightarrow> None | Some T' \<Rightarrow> spec_ops numbers ops T')"

text \<open>The callers' side: the tables are the catalog's and keyed, an update leaves the key alone, a delete has its keys' tokens.\<close>

definition known_table :: "(js_string \<Rightarrow> table_record option) \<Rightarrow> table_record \<Rightarrow> bool" where
  "known_table catalog table \<longleftrightarrow> catalog (table_id table) = Some table \<and> keyed_table table"

fun op_ok :: "(js_string \<Rightarrow> table_record option) \<Rightarrow> 'n host_numbers \<Rightarrow> 'n scope_op \<Rightarrow> bool" where
  "op_ok catalog numbers (InsertRows table batch n kind) \<longleftrightarrow> known_table catalog table \<and> (kind = KInsert \<or> kind = KUpsert)"
| "op_ok catalog numbers (UpdateRows table keys changes) \<longleftrightarrow>
     known_table catalog table \<and> column_name (key_column_of table) \<notin> fst ` set changes"
| "op_ok catalog numbers (DeleteRows table keys) \<longleftrightarrow>
     known_table catalog table \<and> list_all (\<lambda>(token, key). token_of numbers table (Some key) = token) keys"
| "op_ok catalog numbers (FlushSets ids) \<longleftrightarrow> True"
| "op_ok catalog numbers (StageSegments table segs) \<longleftrightarrow> known_table catalog table"

subsection \<open>The effects of a statement name their rows\<close>

lemma right_effects:
  assumes "\<not> list_ex isl rs" "\<And>x. Inr x \<in> set rs \<Longrightarrow> P x"
  shows "rs = map Inr (map projr rs)" "list_all P (map projr rs)"
proof -
  have "rs = map Inr (map projr rs) \<and> list_all P (map projr rs)" using assms
  proof (induction rs)
    case (Cons r rs)
    then show ?case by (cases r) auto
  qed simp
  then show "rs = map Inr (map projr rs)" "list_all P (map projr rs)" by blast+
qed

lemma key_column_is:
  assumes "keyed_table table"
  shows "get_unique_key_column table = Some (key_column_of table)" "key_position table < length (table_columns table)"
    "find_index (\<lambda>column. column_id column = column_id (key_column_of table)) (table_columns table) = Some (key_position table)"
  using keyed_table_position [OF assms] unfolding key_column_of_def by (metis (no_types))+

lemma token_of_key:
  assumes "keyed_table table" "key_token numbers (column_type (key_column_of table)) c = Inr t"
  shows "token_of numbers table c = t"
  using assms(2) by (simp add: token_of_def key_column_is(1) [OF assms(1)])

lemma row_effects_named:
  assumes "keyed_table table" "kind = KInsert \<or> kind = KUpsert" "Inr x \<in> set (row_effects numbers table sequence batch n kind)"
  shows "named numbers table x"
proof -
  let ?k = "key_column_of table"
  note k = key_column_is [OF assms(1)]
  obtain i key token where x: "batch_cell batch (column_name ?k) i = Some key" "key_token numbers (column_type ?k) (Some key) = Inr token"
    "x = (token, Some key, \<lparr>effect_kind = kind, effect_values = map (\<lambda>column. Some (batch_cell batch (column_name column) i)) (table_columns table)\<rparr>)"
    using assms(3) by (auto simp: row_effects_def k(1) Let_def bindR_def split: option.splits sum.splits)
  have "token_of numbers table (Some key) = token" by (rule token_of_key [OF assms(1) x(2)])
  moreover have "batch_cell batch (column_name (table_columns table ! key_position table)) i = Some key"
    using x(1) by (simp add: key_column_of_def)
  ultimately show ?thesis using k(2) by (simp add: x(3) named_def names_row_def)
qed

lemma changes_keep:
  fixes vs :: "'n datum option list" and f :: "'c \<Rightarrow> 'n datum option"
  assumes "length vs = length columns" "vs ! kp = c" "kp < length columns" "column_name (columns ! kp) \<notin> fst ` set changes"
  defines "put \<equiv> \<lambda>p v (vs :: 'n datum option list). case p of None \<Rightarrow> vs | Some i \<Rightarrow> vs[i := v]"
  defines "vs' \<equiv> fold (\<lambda>(name, cells). put (find_index (\<lambda>column. column_name column = name) columns) (f cells)) changes vs"
  shows "length vs' = length columns \<and> vs' ! kp = c"
  using assms(1,2,4) unfolding vs'_def
proof (induction changes arbitrary: vs)
  case (Cons change changes)
  obtain name cells where x: "change = (name, cells)" by fastforce
  let ?vs = "put (find_index (\<lambda>column. column_name column = name) columns) (f cells) vs"
  have "length ?vs = length columns" using Cons.prems(1) by (simp add: put_def split: option.splits)
  moreover have "?vs ! kp = c"
  proof (cases "find_index (\<lambda>column. column_name column = name) columns")
    case (Some i)
    then have "i \<noteq> kp" using find_index_Some [OF Some] Cons.prems(3) x by auto
    then show ?thesis using Cons.prems(2) Some by (simp add: put_def)
  qed (use Cons.prems(2) in \<open>simp add: put_def\<close>)
  moreover have "column_name (columns ! kp) \<notin> fst ` set changes" using Cons.prems(3) by simp
  ultimately show ?case using Cons.IH [of ?vs] by (simp add: x)
qed simp

lemma update_effects_named:
  assumes "keyed_table table" "column_name (key_column_of table) \<notin> fst ` set changes"
    "Inr x \<in> set (update_effects numbers table (key_column_of table) keys changes)"
  shows "named numbers table x"
proof -
  let ?k = "key_column_of table" and ?kp = "key_position table" and ?columns = "table_columns table"
  note k = key_column_is [OF assms(1)]
  obtain i key token where i: "key_token numbers (column_type ?k) (Some key) = Inr token"
    "x = (token, Some key, \<lparr>effect_kind = KUpdate, effect_values =
       fold (\<lambda>(name, cells). (\<lambda>p v vs. case p of None \<Rightarrow> vs | Some i \<Rightarrow> vs[i := v]) (find_index (\<lambda>column. column_name column = name) ?columns)
          (Some (if i < length cells then cells ! i else None))) changes
         ((replicate (length ?columns) None)[?kp := Some (Some key)])\<rparr>)"
    using assms(3) by (auto simp: update_effects_def k(3) Let_def bindR_def split: option.splits sum.splits)
  have "length (effect_values (snd (snd x))) = length ?columns \<and> effect_values (snd (snd x)) ! ?kp = Some (Some key)"
    unfolding i(2) snd_conv scope_effect.simps using k(2) assms(2)
    by (intro changes_keep) (simp_all add: key_column_of_def)
  then show ?thesis using token_of_key [OF assms(1) i(1)] by (simp add: i(2) named_def names_row_def)
qed

lemma delete_effects_named:
  assumes "list_all (\<lambda>(token, key). token_of numbers table (Some key) = token) keys" "Inr x \<in> set (delete_effects keys)"
  shows "named numbers table x"
  using assms by (auto simp: delete_effects_def named_def names_row_def list_all_iff)

subsection \<open>Each operation does what it says\<close>

lemma row_effects_sequence:
  "keyed_table table \<Longrightarrow> row_effects numbers table sequence batch n kind = row_effects numbers table 0 batch n kind"
  by (simp add: row_effects_def key_column_is(1))

lemma said_ok:
  assumes "scope_ok numbers catalog T s B" "known_table catalog table" "say table effects (scope_view s B) = Some V"
    "\<And>x. Inr x \<in> set effects \<Longrightarrow> named numbers table x"
    "(bindE (effects_loop (table_id table) effects) (\<lambda>_ s. settle_scope_write_set env table (add_pending_bytes (table_id table) bytes s)))
      (begin_buffer table s) = (s', r)"
  shows "case r of
      Inl e \<Rightarrow> env_error env e
    | Inr _ \<Rightarrow> \<exists>B'. scope_ok numbers catalog T s' B' \<and> scope_view s' B' = V"
proof -
  have none: "\<not> list_ex isl effects" using assms(3) by (auto simp: say_def split: if_splits)
  have right: "map Inr (map projr effects) = effects" "list_all (named numbers table) (map projr effects)"
    using right_effects [OF none, of "named numbers table"] assms(4) by auto
  obtain W where W: "run_effects table (map projr effects) (scope_view s B (table_id table)) = Some W" "V = (scope_view s B)(table_id table := W)"
    using assms(3) none by (auto simp: say_def)
  have "catalog (table_id table) = Some table" "keyed_table table" using assms(2) by (simp_all add: known_table_def)
  from buffered_ok [OF assms(1) this right(2) W(1), of env bytes s' r] show ?thesis
    using assms(5) unfolding right(1) W(2) by blast
qed

lemma opaque_ok:
  assumes "scope_ok numbers catalog T s B" "known_table catalog table"
    "\<And>ws. map_of (sc_tables s) (table_id table) = Some ws \<Longrightarrow> ws_pending_rows ws = 0"
  defines "s' \<equiv> put_set (table_id table) ((scope_write_set table s) \<lparr>ws_opaque := True\<rparr>) s"
  assumes "replay_updates (concat (map (segment_updates numbers table) segs)) (scope_view s B (table_id table)) = Some V"
  shows "scope_ok numbers catalog T (s' \<lparr>sc_staged := sc_staged s' @ map (Pair table) segs, sc_staged_work := w\<rparr>) (B(table_id table := V))"
    "scope_view (s' \<lparr>sc_staged := sc_staged s' @ map (Pair table) segs, sc_staged_work := w\<rparr>) (B(table_id table := V)) = (scope_view s B)(table_id table := V)"
proof -
  let ?id = "table_id table"
  let ?s = "s' \<lparr>sc_staged := sc_staged s' @ map (Pair table) segs, sc_staged_work := w\<rparr>" and ?B = "B(?id := V)"
  define ws where "ws = (scope_write_set table s) \<lparr>ws_opaque := True\<rparr>"
  have kt: "catalog ?id = Some table" "keyed_table table" using assms(2) by (simp_all add: known_table_def)
  note w = write_set_ok [OF assms(1) kt]
  have f: "ws_table ws = table" "ws_rows ws = ws_rows (scope_write_set table s)" "ws_pending_rows ws = ws_pending_rows (scope_write_set table s)"
    "ws_key_column ws = ws_key_column (scope_write_set table s)" "ws_opaque ws" using w(3) by (simp_all add: ws_def)
  have set0: "set_ok numbers (B ?id) (scope_write_set table s)" using w(1) by (simp add: set_in_scope_def)
  have p0: "ws_pending_rows (scope_write_set table s) = 0"
    using assms(3) by (auto simp: scope_write_set_def new_write_set_def split: option.splits)
  note n0 = no_pending_view [OF set0 p0]
  have set: "set_ok numbers V ws" unfolding set_ok_def f
  proof (intro conjI)
    show "\<forall>(t, entry) \<in> set (ws_rows (scope_write_set table s)). scope_entry_ok numbers table V t entry"
      using set0 n0(2) w(3) by (fastforce simp: set_ok_def scope_entry_ok_def)
  qed (use set0 w(3) in \<open>simp_all add: set_ok_def\<close>)
  have p: "ws_pending_rows ws = 0" using p0 f(3) by simp
  have tables: "map_of (sc_tables ?s) tid = (if tid = ?id then Some ws else map_of (sc_tables s) tid)" "sc_mirrored ?s = sc_mirrored s"
    "sc_staged ?s = sc_staged s @ map (Pair table) segs" "distinct (map fst (sc_tables ?s)) = distinct (map fst (sc_tables s))" for tid
    by (simp_all add: s'_def ws_def)
  have same: "B ?id = scope_view s B ?id" using w(2) n0(1) by simp
  have "replay numbers (sc_staged ?s) T = Some ?B"
    using assms(1,5) unfolding tables(3) replay_append by (simp add: scope_ok_def replay_one_table same)
  moreover have "set_in_scope numbers catalog (sc_mirrored s) (T tid) (?B tid) tid ws'" if "map_of (sc_tables ?s) tid = Some ws'" for tid ws'
  proof (cases "tid = ?id")
    case True
    then have "ws' = ws" using that unfolding tables(1) by simp
    then show ?thesis using True set kt f(1,5) by (simp add: set_in_scope_def)
  next
    case False
    then have m: "map_of (sc_tables s) tid = Some ws'" using that unfolding tables(1) by simp
    show ?thesis using scope_ok_set [OF assms(1) m] False by simp
  qed
  ultimately show "scope_ok numbers catalog T ?s ?B"
    using assms(1) unfolding scope_ok_def tables(1,2,4) by simp
  show "scope_view ?s ?B = (scope_view s B)(?id := V)"
    unfolding scope_view_def tables(1) using no_pending_view(1) [OF set p] by (intro ext) (auto cong: option.case_cong)
qed

lemma run_op_ok:
  assumes "scope_ok (host env) catalog T s B" "op_ok catalog (host env) op" "spec_op (host env) op (scope_view s B) = Some V"
    "run_op env op s = (s', r)"
  shows "case r of
      Inl e \<Rightarrow> env_error env e
    | Inr _ \<Rightarrow> \<exists>B'. scope_ok (host env) catalog T s' B' \<and> scope_view s' B' = V"
proof (cases op)
  case (InsertRows table batch n kind)
  have kt: "known_table catalog table" "keyed_table table" and kind: "kind = KInsert \<or> kind = KUpsert"
    using assms(2) by (simp_all add: InsertRows known_table_def)
  show ?thesis
  proof (rule said_ok [OF assms(1) kt(1) _ row_effects_named [OF kt(2) kind]])
    show "say table (row_effects (host env) table 0 batch n kind) (scope_view s B) = Some V" using assms(3) by (simp add: InsertRows)
    show "(bindE (effects_loop (table_id table) (row_effects (host env) table 0 batch n kind))
        (\<lambda>_ s. settle_scope_write_set env table (add_pending_bytes (table_id table) (estimate_batch_bytes batch) s))) (begin_buffer table s) = (s', r)"
      using assms(4) by (simp add: row_effects_sequence [OF kt(2), of _ "ws_unkeyed_sequence _"] InsertRows buffer_scope_rows_def Let_def key_column_is(1) [OF kt(2)])
  qed
next
  case (UpdateRows table keys changes)
  have kt: "known_table catalog table" "keyed_table table" and free: "column_name (key_column_of table) \<notin> fst ` set changes"
    using assms(2) by (simp_all add: UpdateRows known_table_def)
  show ?thesis
    by (rule said_ok [OF assms(1) kt(1) _ update_effects_named [OF kt(2) free]])
      (use assms(3,4) in \<open>simp_all add: UpdateRows buffer_scope_update_def Let_def\<close>)
next
  case (DeleteRows table keys)
  have kt: "known_table catalog table" and tokens: "list_all (\<lambda>(token, key). token_of (host env) table (Some key) = token) keys"
    using assms(2) by (simp_all add: DeleteRows)
  show ?thesis
    by (rule said_ok [OF assms(1) kt _ delete_effects_named [OF tokens]])
      (use assms(3,4) in \<open>simp_all add: DeleteRows buffer_scope_delete_def Let_def\<close>)
next
  case (FlushSets ids)
  then have "flush_scope_write_sets env ids s = (s', r)" "V = scope_view s B" using assms(3,4) by simp_all
  then show ?thesis using flush_ok(1) [OF assms(1), of env ids s' r] by (auto simp: keeps_view_def split: sum.splits)
next
  case (StageSegments table segs)
  let ?id = "table_id table"
  have known: "known_table catalog table" using assms(2) by (simp add: StageSegments)
  obtain W where W: "replay_updates (concat (map (segment_updates (host env) table) segs)) (scope_view s B ?id) = Some W" "V = (scope_view s B)(?id := W)"
    using assms(3) by (auto simp: StageSegments)
  obtain s1 r1 where fl: "flush_scope_write_sets env (Some [?id]) s = (s1, r1)" by fastforce
  note flush = flush_ok [OF assms(1) fl]
  show ?thesis
  proof (cases r1)
    case (Inl e)
    then have "r = Inl e" using assms(4) fl by (simp add: StageSegments stage_scope_directly_def bindE_def)
    then show ?thesis using flush(1) Inl by (simp add: keeps_view_def)
  next
    case (Inr u)
    then obtain B1 where B1: "scope_ok (host env) catalog T s1 B1" "scope_view s1 B1 = scope_view s B" using flush(1) by (auto simp: keeps_view_def)
    have p: "ws_pending_rows ws = 0" if "map_of (sc_tables s1) ?id = Some ws" for ws using flush(2) [of ?id ws] Inr that by simp
    let ?s = "put_set ?id ((scope_write_set table s1) \<lparr>ws_opaque := True\<rparr>) s1"
    have all: "stage_all env table segs ?s = (s', r)" using assms(4) fl Inr by (simp add: StageSegments stage_scope_directly_def bindE_def)
    show ?thesis
    proof (cases r)
      case (Inl e)
      then show ?thesis using stage_all_ok [OF all] by simp
    next
      case right: (Inr v)
      then obtain w where s': "s' = ?s \<lparr>sc_staged := sc_staged ?s @ map (Pair table) segs, sc_staged_work := w\<rparr>" using stage_all_ok [OF all] by auto
      note op = opaque_ok [OF B1(1) known p W(1) [folded B1(2)], of w]
      show ?thesis using op unfolding s' [symmetric] B1(2) W(2) [symmetric] right by auto
    qed
  qed
qed

lemma run_ops_ok:
  assumes "scope_ok (host env) catalog T s B" "list_all (op_ok catalog (host env)) ops" "spec_ops (host env) ops (scope_view s B) = Some V"
    "run_ops env ops s = (s', r)"
  shows "case r of
      Inl e \<Rightarrow> env_error env e
    | Inr _ \<Rightarrow> \<exists>B'. scope_ok (host env) catalog T s' B' \<and> scope_view s' B' = V"
  using assms
proof (induction ops arbitrary: s B)
  case Nil
  then show ?case by auto
next
  case (Cons op ops)
  obtain s1 r1 where one: "run_op env op s = (s1, r1)" by fastforce
  obtain V1 where V1: "spec_op (host env) op (scope_view s B) = Some V1" "spec_ops (host env) ops V1 = Some V"
    using Cons.prems(3) by (auto split: option.splits)
  have ok: "op_ok catalog (host env) op" "list_all (op_ok catalog (host env)) ops" using Cons.prems(2) by simp_all
  note step = run_op_ok [OF Cons.prems(1) ok(1) V1(1) one]
  show ?case
  proof (cases r1)
    case (Inl e)
    then have "r = Inl e" using Cons.prems(4) one by (simp add: bindE_def)
    then show ?thesis using step Inl by simp
  next
    case (Inr u)
    then obtain B1 where B1: "scope_ok (host env) catalog T s1 B1" "scope_view s1 B1 = V1" using step by auto
    have "run_ops env ops s1 = (s', r)" using Cons.prems(4) one Inr by (simp add: bindE_def)
    from Cons.IH [OF B1(1) ok(2) V1(2) [folded B1(2)] this] show ?thesis .
  qed
qed

lemma new_scope_ok: "scope_ok numbers catalog T new_scope T" "scope_view new_scope T = T"
  by (simp_all add: scope_ok_def new_scope_def scope_view_def fun_eq_iff)

lemma finish_ok:
  assumes "scope_ok numbers catalog T s B" "finish_scope_write_sets env s = (s', r)"
  shows "case r of Inl e \<Rightarrow> env_error env e | Inr _ \<Rightarrow> replay numbers (sc_staged s') T = Some (scope_view s B)"
proof -
  let ?s = "s \<lparr>sc_mirrored := False\<rparr>"
  have ok: "scope_ok numbers catalog T ?s B" using assms(1) by (auto simp: scope_ok_def set_in_scope_def)
  have v: "scope_view ?s B = scope_view s B" by (simp add: scope_view_def fun_eq_iff)
  have fl: "flush_scope_write_sets env None ?s = (s', r)" using assms(2) by (simp add: finish_scope_write_sets_def)
  note flush = flush_ok [OF ok fl]
  show ?thesis
  proof (cases r)
    case (Inl e)
    then show ?thesis using flush(1) by (simp add: keeps_view_def)
  next
    case (Inr u)
    then obtain B1 where B1: "scope_ok numbers catalog T s' B1" "scope_view s' B1 = scope_view s B" "same_sets ?s s'"
      using flush(1) by (auto simp: keeps_view_def v)
    have "scope_view s' B1 tid = B1 tid" for tid
    proof (cases "map_of (sc_tables s') tid")
      case (Some ws)
      have "tid \<in> set (map fst (sc_tables s'))" using map_of_SomeD [OF Some] by force
      then have "tid \<in> set (map fst (sc_tables ?s))" using B1(3) unfolding same_sets_def by simp
      then have "ws_pending_rows ws = 0" using flush(2) [of tid ws] Inr Some by simp
      moreover have "set_ok numbers (B1 tid) ws" using scope_ok_set [OF B1(1) Some] by (simp add: set_in_scope_def)
      ultimately show ?thesis using no_pending_view(1) Some by (simp add: scope_view_def)
    qed (simp add: scope_view_def)
    then have "B1 = scope_view s B" using B1(2) by (auto simp: fun_eq_iff)
    then show ?thesis using B1(1) Inr by (simp add: scope_ok_def)
  qed
qed

end
