(* ===== verification/ScopeReads.thy ===== *)
theory ScopeReads
  imports ScopeSpec
begin

text \<open>
  The keyed reads of a scope (\<open>#scopeRowsByKey\<close>): the write sets answer the keys they hold, the
  committed snapshot the rest, and an update patches its committed row. With the theorems of the
  scope as a whole.

  The read of the committed snapshot is a parameter: by points, or, where that gives up, window by
  window; \<open>reads_rows\<close> is its contract. A row of a result is its properties in order. The projection
  is given by its names.
\<close>

subsection \<open>The read\<close>

type_synonym 'n query_row = "(js_string, 'n datum) js_map"

record 'n snapshot_reader =
  has_snapshot :: bool
  point_rows :: "js_string list \<Rightarrow> 'n batch_value list \<Rightarrow> 'n query_row list option"
  window_rows :: "js_string list \<Rightarrow> 'n batch_value list \<Rightarrow> 'n query_row list"

definition MAX_SQL_PARAMETERS :: nat where
  "MAX_SQL_PARAMETERS = 4096"

definition SCOPE_KEY_LOOKUP_WINDOW :: nat where
  "SCOPE_KEY_LOOKUP_WINDOW = min MAX_SQL_PARAMETERS 1024"

function (sequential) windows :: "nat \<Rightarrow> 'a list \<Rightarrow> 'a list list" where
  "windows w [] = []"
| "windows w xs = (if w = 0 then [] else take w xs # windows w (drop w xs))"
  by pat_completeness auto
termination by (relation "measure (length \<circ> snd)") auto

text \<open>The properties of a row for the columns asked for.\<close>

definition wanted_positions :: "table_record \<Rightarrow> js_string list \<Rightarrow> nat list" where
  "wanted_positions table names = filter (\<lambda>p. column_name (table_columns table ! p) \<in> set names) [0..<length (table_columns table)]"

definition answer_row :: "table_record \<Rightarrow> js_string list \<Rightarrow> 'n scope_effect \<Rightarrow> 'n query_row" where
  "answer_row table names e = map (\<lambda>p. (column_name (table_columns table ! p), cell_at e p)) (wanted_positions table names)"

definition patch_query_row :: "table_record \<Rightarrow> js_string list \<Rightarrow> 'n scope_effect \<Rightarrow> 'n query_row \<Rightarrow> 'n query_row" where
  "patch_query_row table names e row =
     fold (\<lambda>p row.
       if p < length (effect_values e)
       then (case effect_values e ! p of Some c \<Rightarrow> map_set (column_name (table_columns table ! p)) c row | None \<Rightarrow> row)
       else row) (wanted_positions table names) row"

record 'n key_answers =
  ka_answered :: "(js_string, 'n query_row) js_map"
  ka_committed :: "'n batch_value list"
  ka_patches :: "(js_string, 'n scope_effect) js_map"

fun answer_keys ::
  "'n host_numbers \<Rightarrow> table_record \<Rightarrow> column \<Rightarrow> 'n write_set option \<Rightarrow> js_string list \<Rightarrow> 'n batch_value list \<Rightarrow> 'n key_answers \<Rightarrow> 'n key_answers result"
where
  "answer_keys numbers table key_column ws names [] a = Inr a"
| "answer_keys numbers table key_column ws names (key # keys) a =
     bindR (key_token numbers (column_type key_column) (Some key)) (\<lambda>token.
     bindR (case Option.bind ws (\<lambda>ws. map_of (ws_rows ws) token) of None \<Rightarrow> Inr None | Some entry \<Rightarrow> net_scope_effect entry) (\<lambda>e.
       answer_keys numbers table key_column ws names keys
         (case e of
            None \<Rightarrow> a \<lparr>ka_committed := ka_committed a @ [key]\<rparr>
          | Some e \<Rightarrow>
              (case effect_kind e of
                 KDelete \<Rightarrow> a
               | KUpdate \<Rightarrow> a \<lparr>ka_committed := ka_committed a @ [key], ka_patches := map_set token e (ka_patches a)\<rparr>
               | _ \<Rightarrow> a \<lparr>ka_answered := map_set token (answer_row table names e) (ka_answered a)\<rparr>))))"

fun patch_rows ::
  "'n host_numbers \<Rightarrow> table_record \<Rightarrow> column \<Rightarrow> js_string list \<Rightarrow> (js_string, 'n scope_effect) js_map \<Rightarrow> 'n query_row list \<Rightarrow>
     (js_string, 'n query_row) js_map \<Rightarrow> (js_string, 'n query_row) js_map result"
where
  "patch_rows numbers table key_column names patches [] answered = Inr answered"
| "patch_rows numbers table key_column names patches (row # rows) answered =
     (case map_of row (column_name key_column) of
        Some (Some key) \<Rightarrow>
          bindR (key_token numbers (column_type key_column) (Some key)) (\<lambda>token.
            patch_rows numbers table key_column names patches rows
              (map_set token (case map_of patches token of Some e \<Rightarrow> patch_query_row table names e row | None \<Rightarrow> row) answered))
      | _ \<Rightarrow> patch_rows numbers table key_column names patches rows answered)"

definition scope_rows_by_key ::
  "'n host_numbers \<Rightarrow> 'n snapshot_reader \<Rightarrow> table_record \<Rightarrow> column \<Rightarrow> 'n batch_value list \<Rightarrow> js_string list \<Rightarrow> 'n scope \<Rightarrow> 'n query_row list option result"
where
  "scope_rows_by_key numbers reader table key_column keys projection s =
     (let ws = map_of (sc_tables s) (table_id table);
          names = (if column_name key_column \<in> set projection then projection else projection @ [column_name key_column])
      in if \<not> sc_mirrored s \<or> (case ws of Some ws \<Rightarrow> ws_opaque ws | None \<Rightarrow> False) then Inr None
         else
           bindR (answer_keys numbers table key_column ws names keys \<lparr>ka_answered = [], ka_committed = [], ka_patches = []\<rparr>) (\<lambda>a.
           bindR (if ka_committed a \<noteq> [] \<and> has_snapshot reader
                  then patch_rows numbers table key_column names (ka_patches a)
                    (case point_rows reader names (ka_committed a) of
                       Some rows \<Rightarrow> rows
                     | None \<Rightarrow> concat (map (window_rows reader names) (windows SCOPE_KEY_LOOKUP_WINDOW (ka_committed a))))
                    (ka_answered a)
                  else Inr (ka_answered a)) (\<lambda>answered.
             Inr (Some (map snd answered)))))"

subsection \<open>The contract\<close>

text \<open>The properties a result row has for a row of the table.\<close>

definition project :: "table_record \<Rightarrow> js_string list \<Rightarrow> 'n row \<Rightarrow> 'n query_row" where
  "project table names row = map (\<lambda>p. (column_name (table_columns table ! p), row ! p)) (wanted_positions table names)"

text \<open>The rows of a table are whole and under the token of their key.\<close>

definition stored_view :: "'n host_numbers \<Rightarrow> table_record \<Rightarrow> 'n view \<Rightarrow> bool" where
  "stored_view numbers table V \<longleftrightarrow>
     (\<forall>t row. V t = Some row \<longrightarrow> length row = length (table_columns table) \<and>
        (\<exists>key. row ! key_position table = Some key \<and> key_token numbers (column_type (key_column_of table)) (Some key) = Inr t))"

definition tokens :: "'n host_numbers \<Rightarrow> table_record \<Rightarrow> 'n batch_value list \<Rightarrow> js_string set" where
  "tokens numbers table keys = (\<lambda>key. token_of numbers table (Some key)) ` set keys"

text \<open>A read answers the rows of the keys asked for, in some order, with the columns asked for.\<close>

definition answers_from :: "'n host_numbers \<Rightarrow> table_record \<Rightarrow> 'n view \<Rightarrow> js_string list \<Rightarrow> 'n batch_value list \<Rightarrow> 'n query_row list \<Rightarrow> bool" where
  "answers_from numbers table V names keys rows \<longleftrightarrow>
     set rows = {project table names row |t row. t \<in> tokens numbers table keys \<and> V t = Some row}"

definition reads_rows :: "'n host_numbers \<Rightarrow> table_record \<Rightarrow> 'n view \<Rightarrow> 'n snapshot_reader \<Rightarrow> bool" where
  "reads_rows numbers table V reader \<longleftrightarrow>
     (\<not> has_snapshot reader \<longrightarrow> V = (\<lambda>_. None)) \<and>
     (\<forall>names keys rows. point_rows reader names keys = Some rows \<longrightarrow> answers_from numbers table V names keys rows) \<and>
     (\<forall>names keys. answers_from numbers table V names keys (window_rows reader names keys))"

subsection \<open>Rows\<close>

lemma map_set_positions:
  assumes "distinct (map name ps)" "q \<in> set ps"
  shows "map_set (name q) v (map (\<lambda>p. (name p, f p)) ps) = map (\<lambda>p. (name p, (f (q := v)) p)) ps"
proof -
  have "map_of (map (\<lambda>p. (name p, f p)) ps) (name q) \<noteq> None"
    using assms(2) unfolding map_of_eq_None_iff by force
  moreover have "name p = name q \<longleftrightarrow> p = q" if "p \<in> set ps" for p
    using assms that by (metis distinct_map inj_on_eq_iff)
  ultimately show ?thesis by (auto simp: map_set_def)
qed

lemma wanted_distinct:
  assumes "keyed_table table"
  shows "distinct (map (\<lambda>p. column_name (table_columns table ! p)) (wanted_positions table names))"
    "q \<in> set (wanted_positions table names) \<Longrightarrow> q < length (table_columns table)"
proof -
  have d: "distinct (map column_name (table_columns table))" using assms by (simp add: keyed_table_def)
  have "map (\<lambda>p. column_name (table_columns table ! p)) [0..<length (table_columns table)] = map column_name (table_columns table)"
    by (rule nth_equalityI) simp_all
  then have "distinct (map (\<lambda>p. column_name (table_columns table ! p)) [0..<length (table_columns table)])" using d by simp
  then show "distinct (map (\<lambda>p. column_name (table_columns table ! p)) (wanted_positions table names))"
    unfolding wanted_positions_def by (rule distinct_map_filter)
qed (simp add: wanted_positions_def)

lemma patch_query_row_is:
  assumes "keyed_table table" "length row = length (table_columns table)" "length (effect_values e) = length (table_columns table)"
  shows "patch_query_row table names e (project table names row) = project table names (patch_row row (effect_values e))"
proof -
  let ?ps = "wanted_positions table names" and ?name = "\<lambda>p. column_name (table_columns table ! p)"
  let ?step = "\<lambda>p row. if p < length (effect_values e)
       then (case effect_values e ! p of Some c \<Rightarrow> map_set (?name p) c row | None \<Rightarrow> row) else row"
  note d = wanted_distinct [OF assms(1), where names = names]
  have "fold ?step qs (map (\<lambda>p. (?name p, f p)) ?ps) =
      map (\<lambda>p. (?name p, if p \<in> set qs then (case effect_values e ! p of Some c \<Rightarrow> c | None \<Rightarrow> f p) else f p)) ?ps"
    if "set qs \<subseteq> set ?ps" for qs f
    using that
  proof (induction qs arbitrary: f)
    case (Cons q qs)
    then have q: "q \<in> set ?ps" "q < length (effect_values e)" using d(2) assms(3) by auto
    let ?f = "case effect_values e ! q of Some c \<Rightarrow> f (q := c) | None \<Rightarrow> f"
    have "?step q (map (\<lambda>p. (?name p, f p)) ?ps) = map (\<lambda>p. (?name p, ?f p)) ?ps"
      using q map_set_positions [OF d(1) q(1), where f = f] by (simp split: option.splits)
    then have "fold ?step (q # qs) (map (\<lambda>p. (?name p, f p)) ?ps) = fold ?step qs (map (\<lambda>p. (?name p, ?f p)) ?ps)" by (simp only: fold_simps)
    also have "\<dots> = map (\<lambda>p. (?name p, if p \<in> set qs then (case effect_values e ! p of Some c \<Rightarrow> c | None \<Rightarrow> ?f p) else ?f p)) ?ps"
      using Cons by (intro Cons.IH) simp
    finally show ?case by (auto split: option.splits)
  qed simp
  from this [of ?ps "\<lambda>p. row ! p"]
  have "patch_query_row table names e (project table names row) =
      map (\<lambda>p. (?name p, if p \<in> set ?ps then (case effect_values e ! p of Some c \<Rightarrow> c | None \<Rightarrow> row ! p) else row ! p)) ?ps"
    by (simp add: patch_query_row_def project_def)
  also have "\<dots> = project table names (patch_row row (effect_values e))"
    unfolding project_def using d(2) assms(2,3) by (auto simp: nth_patch_row split: option.splits)
  finally show ?thesis .
qed

lemma answer_row_is:
  assumes "keyed_table table" "length (effect_values e) = length (table_columns table)"
  shows "answer_row table names e = project table names (row_of (effect_values e))"
  using assms wanted_distinct(2) [OF assms(1)] by (auto simp: answer_row_def project_def row_of_def cell_at_def)

lemma project_key:
  assumes "keyed_table table" "column_name (key_column_of table) \<in> set names"
  shows "map_of (project table names row) (column_name (key_column_of table)) = Some (row ! key_position table)"
proof -
  let ?ps = "wanted_positions table names" and ?name = "\<lambda>p. column_name (table_columns table ! p)"
  have "key_position table \<in> set ?ps" using assms(2) key_column_is(2) [OF assms(1)] by (simp add: wanted_positions_def key_column_of_def)
  then have "(?name (key_position table), row ! key_position table) \<in> set (project table names row)" by (auto simp: project_def)
  moreover have "distinct (map fst (project table names row))" using wanted_distinct(1) [OF assms(1)] by (simp add: project_def o_def)
  ultimately show ?thesis by (simp add: key_column_of_def)
qed

lemma set_windows: "0 < w \<Longrightarrow> (\<Union>keys \<in> set (windows w xs). set keys) = set xs"
proof (induction w xs rule: windows.induct)
  case (2 w x xs)
  have "set (take w (x # xs)) \<union> set (drop w (x # xs)) = set (x # xs)" by (metis append_take_drop_id set_append)
  then show ?case using 2 by simp
qed simp

lemma reader_rows:
  assumes "reads_rows numbers table V reader"
  shows "answers_from numbers table V names keys
    (case point_rows reader names keys of Some rows \<Rightarrow> rows | None \<Rightarrow> concat (map (window_rows reader names) (windows SCOPE_KEY_LOOKUP_WINDOW keys)))"
proof (cases "point_rows reader names keys")
  case None
  let ?ws = "windows SCOPE_KEY_LOOKUP_WINDOW keys"
  have one: "set (window_rows reader names w) = {project table names row |t row. t \<in> tokens numbers table w \<and> V t = Some row}" for w
    using assms by (simp add: reads_rows_def answers_from_def)
  have "tokens numbers table keys = (\<Union>w \<in> set ?ws. tokens numbers table w)"
    unfolding tokens_def image_UN [symmetric] by (simp add: set_windows SCOPE_KEY_LOOKUP_WINDOW_def MAX_SQL_PARAMETERS_def)
  then show ?thesis using None by (auto simp: answers_from_def one)
qed (use assms in \<open>simp add: reads_rows_def\<close>)

subsection \<open>The answers\<close>

definition sends :: "'n scope_effect option \<Rightarrow> bool" where
  "sends e \<longleftrightarrow> (case e of None \<Rightarrow> True | Some e \<Rightarrow> effect_kind e = KUpdate)"

lemma answer_keys_is:
  fixes net :: "js_string \<Rightarrow> 'n scope_effect option"
  assumes "\<And>key. key \<in> set keys \<Longrightarrow> key_token numbers (column_type k) (Some key) = Inr (tok key)"
    "\<And>t. (case Option.bind ws (\<lambda>ws. map_of (ws_rows ws) t) of None \<Rightarrow> Inr None | Some entry \<Rightarrow> net_scope_effect entry) = Inr (net t)"
  shows "\<exists>a'. answer_keys numbers table k ws names keys a = Inr a' \<and>
    ka_committed a' = ka_committed a @ filter (\<lambda>key. sends (net (tok key))) keys \<and>
    (\<forall>t. map_of (ka_patches a') t = (if t \<in> tok ` set keys \<and> net t \<noteq> None \<and> effect_kind (the (net t)) = KUpdate then net t else map_of (ka_patches a) t)) \<and>
    (\<forall>t. map_of (ka_answered a') t =
      (if t \<in> tok ` set keys \<and> net t \<noteq> None \<and> (effect_kind (the (net t)) = KInsert \<or> effect_kind (the (net t)) = KUpsert)
       then Some (answer_row table names (the (net t))) else map_of (ka_answered a) t)) \<and>
    (distinct (map fst (ka_answered a)) \<longrightarrow> distinct (map fst (ka_answered a')))"
  using assms(1)
proof (induction keys arbitrary: a)
  case (Cons key keys)
  let ?t = "tok key"
  let ?a = "case net ?t of
            None \<Rightarrow> a \<lparr>ka_committed := ka_committed a @ [key]\<rparr>
          | Some e \<Rightarrow>
              (case effect_kind e of
                 KDelete \<Rightarrow> a
               | KUpdate \<Rightarrow> a \<lparr>ka_committed := ka_committed a @ [key], ka_patches := map_set ?t e (ka_patches a)\<rparr>
               | _ \<Rightarrow> a \<lparr>ka_answered := map_set ?t (answer_row table names e) (ka_answered a)\<rparr>)"
  have step: "answer_keys numbers table k ws names (key # keys) a = answer_keys numbers table k ws names keys ?a"
    using Cons.prems [of key] by (simp add: assms(2))
  obtain a' where IH: "answer_keys numbers table k ws names keys ?a = Inr a'"
    "ka_committed a' = ka_committed ?a @ filter (\<lambda>key. sends (net (tok key))) keys"
    "\<And>t. map_of (ka_patches a') t = (if t \<in> tok ` set keys \<and> net t \<noteq> None \<and> effect_kind (the (net t)) = KUpdate then net t else map_of (ka_patches ?a) t)"
    "\<And>t. map_of (ka_answered a') t =
      (if t \<in> tok ` set keys \<and> net t \<noteq> None \<and> (effect_kind (the (net t)) = KInsert \<or> effect_kind (the (net t)) = KUpsert)
       then Some (answer_row table names (the (net t))) else map_of (ka_answered ?a) t)"
    "distinct (map fst (ka_answered ?a)) \<longrightarrow> distinct (map fst (ka_answered a'))"
    using Cons.IH [of ?a] Cons.prems by auto
  have "ka_committed a' = ka_committed a @ filter (\<lambda>key. sends (net (tok key))) (key # keys)"
    unfolding IH(2) by (simp add: sends_def split: option.splits effect_kind.splits)
  moreover have "map_of (ka_patches a') t =
      (if t \<in> tok ` set (key # keys) \<and> net t \<noteq> None \<and> effect_kind (the (net t)) = KUpdate then net t else map_of (ka_patches a) t)" for t
    unfolding IH(3) by (cases "net ?t") (auto split: effect_kind.splits)
  moreover have "map_of (ka_answered a') t =
      (if t \<in> tok ` set (key # keys) \<and> net t \<noteq> None \<and> (effect_kind (the (net t)) = KInsert \<or> effect_kind (the (net t)) = KUpsert)
       then Some (answer_row table names (the (net t))) else map_of (ka_answered a) t)" for t
    unfolding IH(4) by (cases "net ?t") (auto split: effect_kind.splits)
  moreover have "distinct (map fst (ka_answered a)) \<longrightarrow> distinct (map fst (ka_answered a'))"
    using IH(5) by (simp split: option.splits effect_kind.splits)
  ultimately show ?case unfolding step using IH(1) by blast
qed simp

lemma patch_rows_is:
  assumes "\<And>row. row \<in> set rows \<Longrightarrow> \<exists>key. map_of row (column_name k) = Some (Some key) \<and> key_token numbers (column_type k) (Some key) = Inr (tok row) \<and>
      (case map_of patches (tok row) of Some e \<Rightarrow> patch_query_row table names e row | None \<Rightarrow> row) = G (tok row)"
  shows "\<exists>answered'. patch_rows numbers table k names patches rows answered = Inr answered' \<and>
    (\<forall>t. map_of answered' t = (if t \<in> tok ` set rows then Some (G t) else map_of answered t)) \<and>
    (distinct (map fst answered) \<longrightarrow> distinct (map fst answered'))"
  using assms
proof (induction rows arbitrary: answered)
  case (Cons row rows)
  obtain key where key: "map_of row (column_name k) = Some (Some key)" "key_token numbers (column_type k) (Some key) = Inr (tok row)"
      "(case map_of patches (tok row) of Some e \<Rightarrow> patch_query_row table names e row | None \<Rightarrow> row) = G (tok row)"
    using Cons.prems [of row] by auto
  have "patch_rows numbers table k names patches (row # rows) answered =
      patch_rows numbers table k names patches rows (map_set (tok row) (G (tok row)) answered)"
    using key by simp
  moreover obtain answered' where "patch_rows numbers table k names patches rows (map_set (tok row) (G (tok row)) answered) = Inr answered'"
    "\<And>t. map_of answered' t = (if t \<in> tok ` set rows then Some (G t) else map_of (map_set (tok row) (G (tok row)) answered) t)"
    "distinct (map fst answered) \<longrightarrow> distinct (map fst answered')"
    using Cons.IH [of "map_set (tok row) (G (tok row)) answered"] Cons.prems by auto
  ultimately show ?case by auto
qed simp

text \<open>What an entry holds of its row in all.\<close>

lemma net_effect_is:
  assumes "scope_ok numbers catalog T s B" "known_table catalog table" "sc_mirrored s"
    "\<And>ws. map_of (sc_tables s) (table_id table) = Some ws \<Longrightarrow> \<not> ws_opaque ws"
  shows "\<exists>e. (case Option.bind (map_of (sc_tables s) (table_id table)) (\<lambda>ws. map_of (ws_rows ws) t) of
        None \<Rightarrow> Inr None | Some entry \<Rightarrow> net_scope_effect entry) = Inr e \<and>
    (case e of
       None \<Rightarrow> scope_view s B (table_id table) t = T (table_id table) t
     | Some e \<Rightarrow> names_row numbers table t e \<and> effect_on table e (T (table_id table) t) = Some (scope_view s B (table_id table) t))"
proof (cases "map_of (sc_tables s) (table_id table)")
  case None
  then have "B (table_id table) = T (table_id table)" using assms(1,3) by (simp add: scope_ok_def)
  then show ?thesis using None by (simp add: scope_view_def)
next
  case (Some ws)
  let ?id = "table_id table"
  have in_scope: "set_in_scope numbers catalog (sc_mirrored s) (T ?id) (B ?id) ?id ws" by (rule scope_ok_set [OF assms(1) Some])
  then have set: "set_ok numbers (B ?id) ws" and m: "mirror_ok numbers (T ?id) (B ?id) ws" using assms(3,4) Some by (simp_all add: set_in_scope_def)
  have "catalog ?id = Some (ws_table ws)" "catalog ?id = Some table" using in_scope assms(2) by (simp_all add: set_in_scope_def known_table_def)
  then have tb: "ws_table ws = table" by (metis option.inject)
  have v: "scope_view s B ?id = pending_view ws (B ?id)" by (simp add: scope_view_def Some)
  note mt = m [unfolded mirror_ok_def tb, THEN spec, of t]
  show ?thesis
  proof (cases "map_of (ws_rows ws) t")
    case None
    then show ?thesis using mt by (simp add: Some v pending_view_def)
  next
    case entry: (Some entry)
    show ?thesis
    proof (cases "entry_pending entry")
      case None
      then show ?thesis using mt by (simp add: Some entry v pending_view_def net_scope_effect_def split: option.splits)
    next
      case (Some p)
      obtain c where "compose_scope_effect (entry_staged entry) p = Inr c" "names_row numbers table t c"
        "effect_on table c (T ?id t) = Some (pending_view ws (B ?id) t)"
        using mirror_composes [OF set m entry Some] unfolding tb by blast
      then show ?thesis using Some entry \<open>map_of (sc_tables s) ?id = Some ws\<close> by (simp add: v net_scope_effect_def)
    qed
  qed
qed

lemma effect_lengths:
  assumes "names_row numbers table t e" "effect_on table e old = Some new"
  shows "case effect_kind e of
      KDelete \<Rightarrow> new = None
    | KUpdate \<Rightarrow> (\<exists>row. old = Some row \<and> new = Some (patch_row row (effect_values e)) \<and> length (effect_values e) = length (table_columns table))
    | _ \<Rightarrow> new = Some (row_of (effect_values e)) \<and> length (effect_values e) = length (table_columns table)"
  using assms by (auto simp: effect_on_def run_effect_def names_row_def split: effect_kind.splits option.splits if_splits)

text \<open>The rows a keyed read of a scope answers, by their tokens.\<close>

lemma scope_read_is:
  assumes ok: "scope_ok numbers catalog T s B" and known: "known_table catalog table"
    and reader: "reads_rows numbers table (T (table_id table)) reader" and stored: "stored_view numbers table (T (table_id table))"
    and keys: "\<And>key. key \<in> set keys \<Longrightarrow> \<exists>t. key_token numbers (column_type (key_column_of table)) (Some key) = Inr t"
    and mirrored: "sc_mirrored s" and clear: "\<And>ws. map_of (sc_tables s) (table_id table) = Some ws \<Longrightarrow> \<not> ws_opaque ws"
    and names: "names = (if column_name (key_column_of table) \<in> set projection then projection else projection @ [column_name (key_column_of table)])"
  shows "\<exists>answered. scope_rows_by_key numbers reader table (key_column_of table) keys projection s = Inr (Some (map snd answered)) \<and>
    distinct (map fst answered) \<and>
    (\<forall>t. map_of answered t = (if t \<in> tokens numbers table keys then map_option (project table names) (scope_view s B (table_id table) t) else None))"
proof -
  let ?id = "table_id table" and ?k = "key_column_of table" and ?ws = "map_of (sc_tables s) (table_id table)"
  let ?V = "scope_view s B ?id" and ?C = "T ?id" and ?tok = "\<lambda>key. token_of numbers table (Some key)"
  have kt: "keyed_table table" using known by (simp add: known_table_def)
  define net where "net t = projr (case Option.bind ?ws (\<lambda>ws. map_of (ws_rows ws) t) of None \<Rightarrow> Inr None | Some entry \<Rightarrow> net_scope_effect entry)" for t
  have net: "(case Option.bind ?ws (\<lambda>ws. map_of (ws_rows ws) t) of None \<Rightarrow> Inr None | Some entry \<Rightarrow> net_scope_effect entry) = Inr (net t)"
    "case net t of None \<Rightarrow> ?V t = ?C t | Some e \<Rightarrow> names_row numbers table t e \<and> effect_on table e (?C t) = Some (?V t)" for t
    using net_effect_is [OF ok known mirrored clear, of t] by (auto simp: net_def)
  have tok: "key_token numbers (column_type ?k) (Some key) = Inr (?tok key)" if "key \<in> set keys" for key
    using keys [OF that] token_of_key [OF kt] by fastforce
  obtain a where a: "answer_keys numbers table ?k ?ws names keys \<lparr>ka_answered = [], ka_committed = [], ka_patches = []\<rparr> = Inr a"
    "ka_committed a = filter (\<lambda>key. sends (net (?tok key))) keys"
    "\<And>t. map_of (ka_patches a) t = (if t \<in> ?tok ` set keys \<and> net t \<noteq> None \<and> effect_kind (the (net t)) = KUpdate then net t else None)"
    "\<And>t. map_of (ka_answered a) t =
      (if t \<in> ?tok ` set keys \<and> net t \<noteq> None \<and> (effect_kind (the (net t)) = KInsert \<or> effect_kind (the (net t)) = KUpsert)
       then Some (answer_row table names (the (net t))) else None)"
    "distinct (map fst (ka_answered a))"
    using answer_keys_is [where keys = keys and numbers = numbers and k = ?k and tok = ?tok and ws = ?ws and net = net and table = table and names = names
        and a = "\<lparr>ka_answered = [], ka_committed = [], ka_patches = []\<rparr>", OF tok net(1)] by auto
  have tc: "tokens numbers table (ka_committed a) = {t \<in> tokens numbers table keys. sends (net t)}" unfolding a(2) tokens_def by auto
  let ?G = "\<lambda>t. project table names (the (?V t))" and ?read = "{t \<in> tokens numbers table keys. sends (net t) \<and> ?C t \<noteq> None}"
  let ?rows = "case point_rows reader names (ka_committed a) of
                       Some rows \<Rightarrow> rows
                     | None \<Rightarrow> concat (map (window_rows reader names) (windows SCOPE_KEY_LOOKUP_WINDOW (ka_committed a)))"
  obtain answered where answered: "(if ka_committed a \<noteq> [] \<and> has_snapshot reader
      then patch_rows numbers table ?k names (ka_patches a) ?rows (ka_answered a) else Inr (ka_answered a)) = Inr answered"
    "\<And>t. map_of answered t = (if t \<in> ?read then Some (?G t) else map_of (ka_answered a) t)" "distinct (map fst answered)"
  proof (cases "ka_committed a \<noteq> [] \<and> has_snapshot reader")
    case False
    have "?read = {}"
    proof (cases "ka_committed a = []")
      case True
      then show ?thesis using tc by (auto simp: tokens_def)
    next
      case no: False
      then show ?thesis using False reader by (simp add: reads_rows_def)
    qed
    then have "map_of (ka_answered a) t = (if t \<in> ?read then Some (?G t) else map_of (ka_answered a) t)" for t by (simp only: empty_iff if_False)
    then show thesis using that [of "ka_answered a"] False a(5) by presburger
  next
    case True
    have R: "set ?rows = {project table names row |t row. t \<in> tokens numbers table keys \<and> sends (net t) \<and> ?C t = Some row}"
      using reader_rows [OF reader, of names "ka_committed a"] by (auto simp: answers_from_def tc)
    define rt where "rt r = (case map_of r (column_name ?k) of Some c \<Rightarrow> token_of numbers table c | None \<Rightarrow> [])" for r
    have kn: "column_name ?k \<in> set names" by (simp add: names)
    have row: "\<exists>key. map_of (project table names row) (column_name ?k) = Some (Some key) \<and> key_token numbers (column_type ?k) (Some key) = Inr t \<and>
        rt (project table names row) = t \<and> length row = length (table_columns table)" if c: "?C t = Some row" for t row
    proof -
      obtain key where key: "row ! key_position table = Some key" "key_token numbers (column_type ?k) (Some key) = Inr t" "length row = length (table_columns table)"
        using stored [unfolded stored_view_def, rule_format, OF c] by blast
      then show ?thesis using project_key [OF kt kn, of row] token_of_key [OF kt key(2)] by (simp add: rt_def)
    qed
    have each: "\<exists>key. map_of r (column_name ?k) = Some (Some key) \<and> key_token numbers (column_type ?k) (Some key) = Inr (rt r) \<and>
        (case map_of (ka_patches a) (rt r) of Some e \<Rightarrow> patch_query_row table names e r | None \<Rightarrow> r) = ?G (rt r)" if r: "r \<in> set ?rows" for r
    proof -
      obtain t row where t: "r = project table names row" "t \<in> tokens numbers table keys" "sends (net t)" "?C t = Some row" using r unfolding R by blast
      note f = \<open>?C t = Some row\<close> [THEN row]
      have "(case map_of (ka_patches a) t of Some e \<Rightarrow> patch_query_row table names e r | None \<Rightarrow> r) = ?G t"
      proof (cases "net t")
        case None
        then show ?thesis using net(2) [of t] t by (simp add: a(3))
      next
        case (Some e)
        then have u: "effect_kind e = KUpdate" using t(3) by (simp add: sends_def)
        then have "?V t = Some (patch_row row (effect_values e))" "length (effect_values e) = length (table_columns table)"
          using net(2) [of t] effect_lengths [of numbers table t e "?C t" "?V t"] Some t(4) by auto
        then show ?thesis using patch_query_row_is [OF kt] f t Some u by (auto simp: a(3) tokens_def)
      qed
      then show ?thesis using f t(1) by auto
    qed
    have dom: "rt ` set ?rows = ?read"
    proof
      show "rt ` set ?rows \<subseteq> ?read" unfolding R using row by fastforce
      show "?read \<subseteq> rt ` set ?rows"
      proof
        fix t assume "t \<in> ?read"
        then obtain row' where "?C t = Some row'" "t \<in> tokens numbers table keys" "sends (net t)" by auto
        then have "project table names row' \<in> set ?rows" "rt (project table names row') = t" using row unfolding R by blast+
        then show "t \<in> rt ` set ?rows" by blast
      qed
    qed
    obtain answered where pr: "patch_rows numbers table ?k names (ka_patches a) ?rows (ka_answered a) = Inr answered"
      "\<And>t. map_of answered t = (if t \<in> rt ` set ?rows then Some (?G t) else map_of (ka_answered a) t)"
      "distinct (map fst (ka_answered a)) \<longrightarrow> distinct (map fst answered)"
      using patch_rows_is [where rows = ?rows and k = ?k and numbers = numbers and tok = rt and patches = "ka_patches a" and table = table and
          names = names and G = ?G and answered = "ka_answered a", OF each] by blast
    show thesis using that [OF _ pr(2) [unfolded dom]] pr(1,3) a(5) True by simp
  qed
  have "scope_rows_by_key numbers reader table ?k keys projection s = Inr (Some (map snd answered))"
  proof -
    have nc: "\<not> (\<not> sc_mirrored s \<or> (case ?ws of Some ws \<Rightarrow> ws_opaque ws | None \<Rightarrow> False))" using mirrored clear by (auto split: option.splits)
    show ?thesis unfolding scope_rows_by_key_def Let_def if_not_P [OF nc] names [symmetric] a(1) bindR_simps answered(1) ..
  qed
  moreover have "map_of answered t = (if t \<in> tokens numbers table keys then map_option (project table names) (?V t) else None)" for t
  proof (cases "net t")
    case None
    then show ?thesis using net(2) [of t] by (auto simp: answered(2) a(4) sends_def tokens_def)
  next
    case (Some e)
    then have e: "names_row numbers table t e" "effect_on table e (?C t) = Some (?V t)" using net(2) [of t] by simp_all
    show ?thesis using effect_lengths [OF e] Some answer_row_is [OF kt, of e names]
      by (auto simp: answered(2) a(4) sends_def tokens_def split: effect_kind.splits)
  qed
  ultimately show ?thesis using answered(3) by blast
qed

subsection \<open>The scope as a whole\<close>

text \<open>
  Property C10: a scope writes what its statements say. For any operations whose statements, run one
  after the other on the committed tables, make of them some tables: however the budgets and the
  row limits divide them into flushes, the segments staged at the commit, replayed on the committed
  tables, make exactly those, unless the environment failed to stage or to renew.
\<close>

theorem scope_refines:
  assumes "list_all (op_ok catalog (host env)) ops" "spec_ops (host env) ops T = Some T'"
  shows "case bindE (run_ops env ops) (\<lambda>_. finish_scope_write_sets env) new_scope of
      (s, Inr _) \<Rightarrow> replay (host env) (sc_staged s) T = Some T'
    | (s, Inl e) \<Rightarrow> env_error env e"
proof -
  obtain s1 r1 where run: "run_ops env ops new_scope = (s1, r1)" by fastforce
  note ops = run_ops_ok [OF new_scope_ok(1) assms(1) _ run, of T T', unfolded new_scope_ok(2), OF assms(2)]
  show ?thesis
  proof (cases r1)
    case (Inl e)
    then show ?thesis using ops run by (simp add: bindE_def)
  next
    case (Inr u)
    then obtain B where B: "scope_ok (host env) catalog T s1 B" "scope_view s1 B = T'" using ops by auto
    obtain s r where fin: "finish_scope_write_sets env s1 = (s, r)" by fastforce
    show ?thesis using finish_ok [OF B(1) fin] run fin Inr B(2) by (auto simp: bindE_def split: sum.splits)
  qed
qed

text \<open>
  Property C11: a scope reads its own writes. After any operations, a keyed read either declines,
  because the mirrors were dropped or segments were staged past the set, or answers, once each and
  with the columns asked for, the rows of the keys as the statements so far have left them.
\<close>

theorem scope_reads_own_writes:
  assumes "list_all (op_ok catalog (host env)) ops" "spec_ops (host env) ops T = Some T'" "run_ops env ops new_scope = (s, Inr ())"
    "known_table catalog table" "reads_rows (host env) table (T (table_id table)) reader" "stored_view (host env) table (T (table_id table))"
    "list_all (\<lambda>key. \<exists>t. key_token (host env) (column_type (key_column_of table)) (Some key) = Inr t) keys"
    "column_name (key_column_of table) \<in> set projection"
  shows "case scope_rows_by_key (host env) reader table (key_column_of table) keys projection s of
      Inl e \<Rightarrow> False
    | Inr None \<Rightarrow> \<not> sc_mirrored s \<or> (\<exists>ws. map_of (sc_tables s) (table_id table) = Some ws \<and> ws_opaque ws)
    | Inr (Some rows) \<Rightarrow>
        \<exists>answered. rows = map snd answered \<and> distinct (map fst answered) \<and>
          (\<forall>t. map_of answered t =
             (if t \<in> tokens (host env) table keys then map_option (project table projection) (T' (table_id table) t) else None))"
proof -
  obtain B where B: "scope_ok (host env) catalog T s B" "scope_view s B = T'"
    using run_ops_ok [OF new_scope_ok(1) assms(1) _ assms(3), of T T', unfolded new_scope_ok(2), OF assms(2)] by auto
  show ?thesis
  proof (cases "sc_mirrored s \<and> (\<forall>ws. map_of (sc_tables s) (table_id table) = Some ws \<longrightarrow> \<not> ws_opaque ws)")
    case True
    have keys: "\<exists>t. key_token (host env) (column_type (key_column_of table)) (Some key) = Inr t" if "key \<in> set keys" for key
      using assms(7) that by (simp add: list_all_iff)
    from scope_read_is [where keys = keys and projection = projection and names = projection, OF B(1) assms(4-6) keys] True assms(8) B(2) show ?thesis by fastforce
  next
    case False
    then have c: "\<not> sc_mirrored s \<or> (case map_of (sc_tables s) (table_id table) of Some ws \<Rightarrow> ws_opaque ws | None \<Rightarrow> False)" by auto
    then have "scope_rows_by_key (host env) reader table (key_column_of table) keys projection s = Inr None"
      unfolding scope_rows_by_key_def Let_def by (simp only: if_True)
    then show ?thesis using False by auto
  qed
qed

text \<open>A row inserted, then changed in a second statement, in a scope that flushes after two rows.\<close>

definition two_columns :: table_record where
  "two_columns = \<lparr>table_id = [1], table_columns = [\<lparr>column_id = [1], column_name = [7], column_type = TBoolean\<rparr>,
     \<lparr>column_id = [2], column_name = [8], column_type = TBoolean\<rparr>], unique_key_column_id = Some [1]\<rparr>"

definition calm_scope :: "nat scope_env" where
  "calm_scope = \<lparr>host = \<lparr>number_text = \<lambda>_. [], number_finite = \<lambda>_. True\<rparr>, rows_per_block = 2, budget_bytes = 100,
     renew_if_due = \<lambda>_. None, stage_fails = \<lambda>_ _ _. None, stage_work = \<lambda>_ _ _. 1\<rparr>"

definition two_statements :: "nat scope_op list" where
  "two_statements =
     [InsertRows two_columns [([7], [Some (VBoolean True)]), ([8], [None])] 1 KInsert,
      UpdateRows two_columns [Some (VBoolean True)] [([8], [Some (VBoolean False)])]]"

lemmas example_simps = two_columns_def calm_scope_def two_statements_def known_table_def keyed_table_def get_unique_key_column_def
  key_column_of_def key_position_def find_index_def

lemma two_columns_simps:
  "keyed_table two_columns" "key_position two_columns = 0"
  "key_column_of two_columns = \<lparr>column_id = [1], column_name = [7], column_type = TBoolean\<rparr>"
  "get_unique_key_column two_columns = Some \<lparr>column_id = [1], column_name = [7], column_type = TBoolean\<rparr>"
  "table_id two_columns = [1]" "length (table_columns two_columns) = 2"
  by (simp_all add: example_simps)

definition true_token :: js_string where
  "true_token = ascii_units ''boolean:true''"

lemma true_token_is: "key_token numbers TBoolean (Some (VBoolean True)) = Inr true_token"
  by (simp add: key_token_def true_token_def)

lemma example_insert:
  "row_effects (host calm_scope) two_columns 0 [([7], [Some (VBoolean True)]), ([8], [None])] (Suc 0) KInsert =
     [Inr (true_token, Some (VBoolean True), \<lparr>effect_kind = KInsert, effect_values = [Some (Some (VBoolean True)), Some None]\<rparr>)]"
  by (simp add: row_effects_def two_columns_simps batch_cell_def true_token_is) (simp add: two_columns_def batch_cell_def)

lemma example_update:
  "update_effects (host calm_scope) two_columns (key_column_of two_columns) [Some (VBoolean True)] [([8], [Some (VBoolean False)])] =
     [Inr (true_token, Some (VBoolean True), \<lparr>effect_kind = KUpdate, effect_values = [Some (Some (VBoolean True)), Some (Some (VBoolean False))]\<rparr>)]"
  by (simp add: update_effects_def two_columns_simps true_token_is Let_def) (simp add: two_columns_def find_index_def numeral_2_eq_2)

lemma two_statements_say:
  "spec_ops (host calm_scope) two_statements (\<lambda>_ _. None) =
     Some ((\<lambda>_ _. None)([1] := (\<lambda>_. None)(true_token := Some [Some (VBoolean True), Some (VBoolean False)])))"
  by (simp add: two_statements_def say_def example_insert example_update effect_on_def run_effect_def two_columns_simps(1,2,5,6) row_of_def patch_row_def fun_eq_iff)

definition one_table :: "js_string \<Rightarrow> table_record option" where
  "one_table i = (if i = [1] then Some two_columns else None)"

lemma two_statements_ok:
  "list_all (op_ok one_table (host calm_scope)) two_statements" "known_table one_table two_columns" "\<not> env_error calm_scope e"
proof -
  show k: "known_table one_table two_columns" by (simp add: known_table_def one_table_def two_columns_simps)
  then show "list_all (op_ok one_table (host calm_scope)) two_statements" by (simp add: two_statements_def two_columns_simps)
qed (simp add: env_error_def calm_scope_def)

lemma scope_refines_witness:
  "\<exists>s. bindE (run_ops calm_scope two_statements) (\<lambda>_. finish_scope_write_sets calm_scope) new_scope = (s, Inr ()) \<and>
     replay (host calm_scope) (sc_staged s) (\<lambda>_ _. None) =
       Some ((\<lambda>_ _. None)([1] := (\<lambda>_. None)(true_token := Some [Some (VBoolean True), Some (VBoolean False)])))"
  using scope_refines [OF two_statements_ok(1) two_statements_say] two_statements_ok(3) by (auto split: prod.splits sum.splits)

definition new_database :: "nat snapshot_reader" where
  "new_database = \<lparr>has_snapshot = False, point_rows = \<lambda>_ _. Some [], window_rows = \<lambda>_ _. []\<rparr>"

lemma scope_reads_own_writes_witness:
  "\<exists>s. run_ops calm_scope two_statements new_scope = (s, Inr ()) \<and>
     (case scope_rows_by_key (host calm_scope) new_database two_columns (key_column_of two_columns) [VBoolean True] [[7], [8]] s of
        Inl e \<Rightarrow> False
      | Inr None \<Rightarrow> \<not> sc_mirrored s \<or> (\<exists>ws. map_of (sc_tables s) [1] = Some ws \<and> ws_opaque ws)
      | Inr (Some rows) \<Rightarrow> \<exists>answered. rows = map snd answered \<and>
          map_of answered true_token = Some [([7], Some (VBoolean True)), ([8], Some (VBoolean False))])"
proof -
  obtain s r where run: "run_ops calm_scope two_statements new_scope = (s, r)" by fastforce
  then have r: "r = Inr ()"
    using run_ops_ok [OF new_scope_ok(1) two_statements_ok(1) _ run, unfolded new_scope_ok(2), OF two_statements_say] two_statements_ok(3)
    by (auto split: sum.splits)
  have reader: "reads_rows (host calm_scope) two_columns ((\<lambda>_ _. None) (table_id two_columns)) new_database"
    by (simp add: reads_rows_def answers_from_def new_database_def)
  have stored: "stored_view (host calm_scope) two_columns ((\<lambda>_ _. None) (table_id two_columns))" by (simp add: stored_view_def)
  have keys: "list_all (\<lambda>key. \<exists>t. key_token (host calm_scope) (column_type (key_column_of two_columns)) (Some key) = Inr t) [VBoolean True]"
    by (simp add: two_columns_simps true_token_is)
  have "column_name (key_column_of two_columns) \<in> set [[7], [8]]" by (simp add: two_columns_simps)
  note read = scope_reads_own_writes [OF two_statements_ok(1) two_statements_say run [unfolded r] two_statements_ok(2) reader stored keys this]
  have t: "true_token \<in> tokens (host calm_scope) two_columns [VBoolean True]"
    by (simp add: tokens_def token_of_def two_columns_simps true_token_is)
  have p: "project two_columns [[7], [8]] [Some (VBoolean True), Some (VBoolean False)] = [([7], Some (VBoolean True)), ([8], Some (VBoolean False))]"
    by (simp add: project_def wanted_positions_def two_columns_def)
  show ?thesis using read run r t p by (auto simp: two_columns_simps(5) split: sum.splits option.splits)
qed

end
