(* ===== verification/SyncFile.thy ===== *)
theory SyncFile
  imports Prelude
begin

text \<open>
  \<open>storage/toolkit/sync-file.ts\<close>: the synchronous file surface and its complete transfers. The handle
  is the platform's object; \<open>file_ops\<close> is the interface \<open>SyncFileHandle\<close>, whose calls take and
  return the handle's state and may throw. A read returns the count it reports and the bytes it
  put at the start of the buffer.
\<close>

record 'h file_ops =
  get_size :: "'h \<Rightarrow> int"
  read_at :: "nat \<Rightarrow> int \<Rightarrow> ('h, int \<times> byte list) eff"
  write_at :: "byte list \<Rightarrow> int \<Rightarrow> ('h, int) eff"
  truncate_to :: "int \<Rightarrow> ('h, unit) eff"
  flush_file :: "('h, unit) eff"

subsection \<open>Complete transfers\<close>

definition assert_transfer_range :: "int \<Rightarrow> nat \<Rightarrow> unit result" where
  "assert_transfer_range at len = guardR (is_safe_integer at \<and> 0 \<le> at \<and> int len \<le> MAX_SAFE_INTEGER - at)
     (RangeError ''Invalid OPFS range'')"

definition assert_transfer_count :: "int \<Rightarrow> nat \<Rightarrow> unit result" where
  "assert_transfer_count count remaining = guardR (is_safe_integer count \<and> 0 \<le> count \<and> count \<le> int remaining)
     (PlainError ''Invalid OPFS result'')"

text \<open>The retry loops, over what is left of the buffer: \<open>chunk\<close> and \<open>at + transferred\<close>.\<close>

function write_loop :: "'h file_ops \<Rightarrow> byte list \<Rightarrow> int \<Rightarrow> ('h, unit) eff" where
  "write_loop ops chunk at h =
     (if chunk = [] then (h, Inr ())
      else case write_at ops chunk at h of
        (h', Inl e) \<Rightarrow> (h', Inl e)
      | (h', Inr count) \<Rightarrow>
          (case assert_transfer_count count (length chunk) of
             Inl e \<Rightarrow> (h', Inl e)
           | Inr _ \<Rightarrow>
               if count = 0 then (h', Inl (PlainError ''OPFS write made no progress''))
               else write_loop ops (drop (nat count) chunk) (at + count) h'))"
  by pat_completeness auto
termination
  by (relation "measure (\<lambda>(ops, chunk, at, h). length chunk)") (auto simp: assert_transfer_count_def)

definition write_fully :: "'h file_ops \<Rightarrow> byte list \<Rightarrow> int \<Rightarrow> ('h, unit) eff" where
  "write_fully ops buffer at h = (case assert_transfer_range at (length buffer) of
     Inl e \<Rightarrow> (h, Inl e) | Inr _ \<Rightarrow> write_loop ops buffer at h)"

function read_loop :: "'h file_ops \<Rightarrow> nat \<Rightarrow> int \<Rightarrow> ('h, byte list) eff" where
  "read_loop ops remaining at h =
     (if remaining = 0 then (h, Inr [])
      else case read_at ops remaining at h of
        (h', Inl e) \<Rightarrow> (h', Inl e)
      | (h', Inr (count, bs)) \<Rightarrow>
          (case assert_transfer_count count remaining of
             Inl e \<Rightarrow> (h', Inl e)
           | Inr _ \<Rightarrow>
               if count = 0 then (h', Inl (PlainError ''Unexpected EOF''))
               else bindE (read_loop ops (remaining - nat count) (at + count)) (\<lambda>rest. retE (bs @ rest)) h'))"
  by pat_completeness auto
termination
  by (relation "measure (\<lambda>(ops, remaining, at, h). remaining)") (auto simp: assert_transfer_count_def)

declare write_loop.simps [simp del] read_loop.simps [simp del]

definition read_fully :: "'h file_ops \<Rightarrow> nat \<Rightarrow> int \<Rightarrow> ('h, byte list) eff" where
  "read_fully ops len at h = (case assert_transfer_range at len of
     Inl e \<Rightarrow> (h, Inl e) | Inr _ \<Rightarrow> read_loop ops len at h)"

subsection \<open>The contract of a handle\<close>

text \<open>The content of a file after \<open>bs\<close> is written at \<open>at\<close>; a gap past the end reads as zeros.\<close>

definition overwrite :: "byte list \<Rightarrow> nat \<Rightarrow> byte list \<Rightarrow> byte list" where
  "overwrite c at bs = (if bs = [] then c
     else take at (c @ replicate (at - length c) 0) @ bs @ drop (at + length bs) c)"

lemma overwrite_Nil [simp]: "overwrite c at [] = c"
  by (simp add: overwrite_def)

lemma overwrite_at_end: "overwrite c (length c) bs = c @ bs"
  by (simp add: overwrite_def)

lemma overwrite_append:
  "at \<le> length c \<Longrightarrow> overwrite (overwrite c at xs) (at + length xs) ys = overwrite c at (xs @ ys)"
  by (auto simp: overwrite_def min_absorb2 ac_simps)

definition resize :: "byte list \<Rightarrow> nat \<Rightarrow> byte list" where
  "resize c n = take n c @ replicate (n - length c) 0"

lemma resize_append: "length c = n \<Longrightarrow> resize (c @ d) n = c"
  by (simp add: resize_def)

text \<open>
  What the log toolkit relies on. A write puts a prefix of the buffer at the offset: the prefix it
  reports, and some prefix if it throws. A read reports bytes of the file, and no bytes only at the
  end. A refused truncation leaves the file alone, and a flush never changes what is read.
\<close>

locale sync_file =
  fixes ops :: "'h file_ops" and content :: "'h \<Rightarrow> byte list"
  assumes size_law: "get_size ops h = int (length (content h))"
    and read_law: "0 \<le> at \<Longrightarrow> read_at ops n at h = (h', rr) \<Longrightarrow> content h' = content h \<and>
      (\<forall>count bs. rr = Inr (count, bs) \<longrightarrow> 0 \<le> count \<and> count \<le> int n \<and> is_safe_integer count
        \<and> bs = take (nat count) (drop (nat at) (content h)) \<and> nat at + nat count \<le> max (nat at) (length (content h))
        \<and> (count = 0 \<longrightarrow> n = 0 \<or> length (content h) \<le> nat at))"
    and write_law: "0 \<le> at \<Longrightarrow> write_at ops bs at h = (h', rw) \<Longrightarrow>
      \<exists>n \<le> length bs. content h' = overwrite (content h) (nat at) (take n bs) \<and> (\<forall>count. rw = Inr count \<longrightarrow> count = int n)"
    and truncate_law: "0 \<le> at \<Longrightarrow> truncate_to ops at h = (h', r) \<Longrightarrow>
      content h' = (if r = Inr () then resize (content h) (nat at) else content h)"
    and flush_law: "flush_file ops h = (h', r) \<Longrightarrow> content h' = content h"
begin

text \<open>A complete write that returns wrote everything; one that throws wrote a prefix.\<close>

lemma write_loop_content:
  "write_loop ops bs at h = (h', r) \<Longrightarrow> 0 \<le> at \<Longrightarrow> nat at \<le> length (content h) \<Longrightarrow>
   \<exists>n \<le> length bs. content h' = overwrite (content h) (nat at) (take n bs) \<and> (r = Inr () \<longrightarrow> n = length bs)"
proof (induction bs arbitrary: at h rule: length_induct)
  case (1 chunk)
  show ?case
  proof (cases "chunk = []")
    case True
    then show ?thesis using 1 by (simp add: write_loop.simps)
  next
    case False
    obtain h1 w where w: "write_at ops chunk at h = (h1, w)" by (cases "write_at ops chunk at h")
    obtain n where n: "n \<le> length chunk" "content h1 = overwrite (content h) (nat at) (take n chunk)"
      "\<And>count. w = Inr count \<Longrightarrow> count = int n"
      using write_law [OF 1(3) w] by blast
    show ?thesis
    proof (cases "w = Inr (int n) \<and> assert_transfer_count (int n) (length chunk) = Inr () \<and> n \<noteq> 0")
      case True
      then have rest: "write_loop ops (drop n chunk) (at + int n) h1 = (h', r)"
        using 1(2) False w by (simp add: write_loop.simps [of ops chunk])
      have nat: "nat (at + int n) = nat at + length (take n chunk)" using 1(3) n(1) by (simp add: nat_add_distrib)
      have "nat at + length (take n chunk) \<le> length (content h1)"
        using 1(4) by (simp add: n(2) overwrite_def)
      then obtain m where m: "m \<le> length (drop n chunk)"
        "content h' = overwrite (content h1) (nat (at + int n)) (take m (drop n chunk))"
        "r = Inr () \<longrightarrow> m = length (drop n chunk)"
        using 1(1) rest nat True False 1(3) n(1) by (metis (no_types, lifting) add_nonneg_nonneg of_nat_0_le_iff
          length_drop diff_less length_greater_0_conv neq0_conv)
      have "content h' = overwrite (content h) (nat at) (take (n + m) chunk)"
        using overwrite_append [OF 1(4), of "take n chunk" "take m (drop n chunk)"]
        by (simp add: m(2) n(2) nat take_add)
      then show ?thesis using m n(1) by (intro exI [of _ "n + m"]) auto
    next
      case stop: False
      have "r \<noteq> Inr () \<and> h' = h1"
        using 1(2) False w stop n(3)
        by (auto simp: write_loop.simps [of ops chunk] split: sum.splits if_splits)
      then show ?thesis using n by blast
    qed
  qed
qed

lemma write_fully_content:
  assumes "write_fully ops bs at h = (h', r)" "0 \<le> at" "nat at \<le> length (content h)"
  obtains n where "n \<le> length bs" "content h' = overwrite (content h) (nat at) (take n bs)"
    "r = Inr () \<Longrightarrow> n = length bs"
proof (cases "assert_transfer_range at (length bs)")
  case (Inl e)
  then have "h' = h" "r = Inl e" using assms(1) by (simp_all add: write_fully_def)
  then show ?thesis using that [of 0] by simp
next
  case (Inr u)
  then have "write_loop ops bs at h = (h', r)" using assms(1) by (simp add: write_fully_def)
  then show ?thesis using write_loop_content assms(2,3) that by blast
qed

lemma read_loop_content:
  "read_loop ops n at h = (h', r) \<Longrightarrow> 0 \<le> at \<Longrightarrow>
   content h' = content h \<and> (\<forall>bs. r = Inr bs \<longrightarrow> bs = take n (drop (nat at) (content h))
     \<and> (n = 0 \<or> nat at + n \<le> length (content h)))"
proof (induction n arbitrary: at h h' r rule: less_induct)
  case (less n)
  show ?case
  proof (cases "n = 0")
    case True
    then show ?thesis using less.prems by (auto simp: read_loop.simps)
  next
    case False
    obtain h1 w where w: "read_at ops n at h = (h1, w)" by (cases "read_at ops n at h")
    note L = read_law [OF less.prems(2) w]
    have c1: "content h1 = content h" using L by simp
    show ?thesis
    proof (cases "\<exists>count bs. w = Inr (count, bs) \<and> assert_transfer_count count n = Inr () \<and> count \<noteq> 0")
      case True
      then obtain count bs where C: "w = Inr (count, bs)" "assert_transfer_count count n = Inr ()" "count \<noteq> 0" by blast
      then have k: "0 < count" "count \<le> int n" "bs = take (nat count) (drop (nat at) (content h))"
        "nat at + nat count \<le> max (nat at) (length (content h))" using L by auto
      obtain h2 q where q: "read_loop ops (n - nat count) (at + count) h1 = (h2, q)"
        by (cases "read_loop ops (n - nat count) (at + count) h1")
      have "n - nat count < n" "0 \<le> at + count" using k False less.prems(2) by auto
      from less.IH [OF this(1) q this(2)] c1
      have I: "content h2 = content h" "\<And>rest. q = Inr rest \<Longrightarrow>
          rest = take (n - nat count) (drop (nat (at + count)) (content h))
          \<and> (n - nat count = 0 \<or> nat (at + count) + (n - nat count) \<le> length (content h))" by auto
      have a: "nat (at + count) = nat at + nat count" using k less.prems(2) by (simp add: nat_add_distrib)
      have R: "(h', r) = bindE (read_loop ops (n - nat count) (at + count)) (\<lambda>rest. retE (bs @ rest)) h1"
        using less.prems(1) False w C by (simp add: read_loop.simps [of ops n])
      show ?thesis
      proof (cases q)
        case (Inl e)
        then show ?thesis using R q I by simp
      next
        case (Inr rest)
        have e: "h' = h2" "r = Inr (bs @ rest)" using R q Inr by simp_all
        have "n = nat count + (n - nat count)" using k by simp
        then have "bs @ rest = take n (drop (nat at) (content h))"
          using I(2) [OF Inr] k(3) a by (metis add.commute drop_drop take_add)
        then show ?thesis using e I k a False I(2) [OF Inr] by auto
      qed
    next
      case stop: False
      have "h' = h1 \<and> (\<forall>bs. r \<noteq> Inr bs)"
        using less.prems(1) False w stop
        by (auto simp: read_loop.simps [of ops n] split: sum.splits if_splits)
      then show ?thesis using c1 by simp
    qed
  qed
qed

lemma read_fully_content:
  assumes "read_fully ops n at h = (h', r)"
  shows "content h' = content h"
    "r = Inr bs \<Longrightarrow> bs = take n (drop (nat at) (content h)) \<and> (n = 0 \<or> nat at + n \<le> length (content h))"
proof -
  have "content h' = content h \<and> (r = Inr bs \<longrightarrow> bs = take n (drop (nat at) (content h)) \<and> (n = 0 \<or> nat at + n \<le> length (content h)))"
  proof (cases "assert_transfer_range at n")
    case (Inl e)
    then show ?thesis using assms by (auto simp: read_fully_def)
  next
    case (Inr u)
    then have "read_loop ops n at h = (h', r)" "0 \<le> at"
      using assms by (simp_all add: read_fully_def assert_transfer_range_def guardR_def split: if_splits)
    then show ?thesis using read_loop_content by blast
  qed
  then show "content h' = content h"
    "r = Inr bs \<Longrightarrow> bs = take n (drop (nat at) (content h)) \<and> (n = 0 \<or> nat at + n \<le> length (content h))"
    by auto
qed

end

text \<open>A handle whose reads do not fail: then every read inside the file returns its bytes.\<close>

locale readable_file = sync_file +
  assumes read_returns: "0 \<le> at \<Longrightarrow> \<exists>h' count bs. read_at ops n at h = (h', Inr (count, bs))"
begin

lemma read_loop_returns:
  "0 \<le> at \<Longrightarrow> nat at + n \<le> length (content h) \<Longrightarrow> int n \<le> MAX_SAFE_INTEGER \<Longrightarrow>
   \<exists>h'. read_loop ops n at h = (h', Inr (take n (drop (nat at) (content h)))) \<and> content h' = content h"
proof (induction n arbitrary: at h rule: less_induct)
  case (less n)
  obtain h1 r where r: "read_loop ops n at h = (h1, r)" by (cases "read_loop ops n at h")
  have "\<exists>bs. r = Inr bs"
  proof (cases "n = 0")
    case True
    then show ?thesis using r by (auto simp: read_loop.simps)
  next
    case False
    obtain h2 count bs where w: "read_at ops n at h = (h2, Inr (count, bs))"
      using read_returns [OF less.prems(1)] by blast
    have k: "0 < count" "count \<le> int n" "is_safe_integer count" and c: "content h2 = content h"
      using read_law [OF less.prems(1) w] less.prems(2) False by (auto simp: order_le_less)
    have "nat (at + count) + (n - nat count) \<le> length (content h2)"
      using k c less.prems by (simp add: nat_add_distrib)
    then obtain h3 rest where "read_loop ops (n - nat count) (at + count) h2 = (h3, Inr rest)"
      using less.IH [of "n - nat count" "at + count" h2] k False less.prems by auto
    then have "bindE (read_loop ops (n - nat count) (at + count)) (\<lambda>rest. retE (bs @ rest)) h2 = (h3, Inr (bs @ rest))"
      by simp
    moreover have "assert_transfer_count count n = Inr ()"
      using k by (simp add: assert_transfer_count_def)
    ultimately have "read_loop ops n at h = (h3, Inr (bs @ rest))" using w k False by (simp add: read_loop.simps [of ops n])
    then show ?thesis using r by simp
  qed
  then show ?case using read_loop_content [OF r less.prems(1)] r by auto
qed

lemma read_fully_returns:
  assumes "0 \<le> at" "nat at + n \<le> length (content h)" "int (length (content h)) \<le> MAX_SAFE_INTEGER"
  obtains h' where "read_fully ops n at h = (h', Inr (take n (drop (nat at) (content h))))" "content h' = content h"
proof -
  have "int (nat at + n) \<le> int (length (content h))" using assms(2) by (simp only: of_nat_le_iff)
  then have "at + int n \<le> int (length (content h))" using assms(1) by simp
  then have "assert_transfer_range at n = Inr ()"
    using assms(1,3) by (simp add: assert_transfer_range_def is_safe_integer_def MAX_SAFE_INTEGER_def)
  moreover obtain h' where "read_loop ops n at h = (h', Inr (take n (drop (nat at) (content h))))" "content h' = content h"
    using read_loop_returns [OF assms(1,2)] assms(2,3) by auto
  ultimately show ?thesis using that by (simp add: read_fully_def)
qed

end

subsection \<open>A handle that may stop short or fail\<close>

text \<open>
  The interface with the behaviour its comments permit, over bytes in memory: each call consumes the
  next grant. A transfer moves at least one byte and at most what is granted, a failing write leaves
  the granted prefix behind, and without grants every call does all it was asked to.
\<close>

datatype grant = Transfer nat | Fail nat

record disk =
  disk_bytes :: "byte list"
  grants :: "grant list"

definition next_grant :: "nat \<Rightarrow> disk \<Rightarrow> bool \<times> nat \<times> disk" where
  "next_grant n d = (case grants d of
     [] \<Rightarrow> (True, n, d)
   | Transfer k # gs \<Rightarrow> (True, min n (max 1 k), d\<lparr>grants := gs\<rparr>)
   | Fail k # gs \<Rightarrow> (False, min n k, d\<lparr>grants := gs\<rparr>))"

definition disk_read :: "nat \<Rightarrow> int \<Rightarrow> (disk, int \<times> byte list) eff" where
  "disk_read n at d =
     (let bs = take n (drop (nat at) (disk_bytes d)); (_, k, d') = next_grant (length bs) d;
          got = take (nat (min (int (max 1 k)) MAX_SAFE_INTEGER)) bs
      in (d', Inr (int (length got), got)))"

definition disk_write :: "byte list \<Rightarrow> int \<Rightarrow> (disk, int) eff" where
  "disk_write bs at d =
     (case next_grant (length bs) d of (ok, k, d') \<Rightarrow>
        (d'\<lparr>disk_bytes := overwrite (disk_bytes d) (nat at) (take k bs)\<rparr>,
         if ok then Inr (int k) else Inl (PlainError ''QuotaExceeded'')))"

definition disk_truncate :: "int \<Rightarrow> (disk, unit) eff" where
  "disk_truncate n d = (case next_grant 0 d of (ok, _, d') \<Rightarrow>
     if ok then (d'\<lparr>disk_bytes := resize (disk_bytes d) (nat n)\<rparr>, Inr ())
     else (d', Inl (PlainError ''InvalidState'')))"

definition disk_flush :: "(disk, unit) eff" where
  "disk_flush d = (case next_grant 0 d of (ok, _, d') \<Rightarrow> (d', if ok then Inr () else Inl (PlainError ''InvalidState'')))"

definition disk_ops :: "disk file_ops" where
  "disk_ops = \<lparr>get_size = \<lambda>d. int (length (disk_bytes d)), read_at = disk_read, write_at = disk_write,
     truncate_to = disk_truncate, flush_file = disk_flush\<rparr>"

lemma next_grant_cases:
  assumes "next_grant n d = (ok, k, d')"
  shows "k \<le> n" "disk_bytes d' = disk_bytes d" "ok \<Longrightarrow> 0 < n \<Longrightarrow> 0 < k"
  using assms by (auto simp: next_grant_def split: list.splits grant.splits)

lemma take_min_length: "take (min m (length xs)) xs = take m xs"
  by (simp add: min_def)

interpretation disk: readable_file disk_ops disk_bytes
proof
  show "get_size disk_ops h = int (length (disk_bytes h))" for h by (simp add: disk_ops_def)
next
  fix at n h h' rr assume a: "0 \<le> at" "read_at disk_ops n at h = (h', rr)"
  let ?bs = "take n (drop (nat at) (disk_bytes h))"
  obtain ok k d' where g: "next_grant (length ?bs) h = (ok, k, d')" by (metis prod_cases3)
  define j where "j = nat (min (int (max 1 k)) MAX_SAFE_INTEGER)"
  have j: "0 < j" "int j \<le> MAX_SAFE_INTEGER" by (auto simp: j_def MAX_SAFE_INTEGER_def)
  have r: "h' = d'" "rr = Inr (int (length (take j ?bs)), take j ?bs)"
    using a(2) g unfolding disk_ops_def disk_read_def j_def Let_def file_ops.simps by (auto simp del: length_take take_take)
  have "take j ?bs = take (length (take j ?bs)) (drop (nat at) (disk_bytes h))"
    using take_min_length [of "min j n" "drop (nat at) (disk_bytes h)"]
    by (simp only: take_take length_take min.commute)
  then show "disk_bytes h' = disk_bytes h \<and>
      (\<forall>count bs. rr = Inr (count, bs) \<longrightarrow> 0 \<le> count \<and> count \<le> int n \<and> is_safe_integer count
        \<and> bs = take (nat count) (drop (nat at) (disk_bytes h)) \<and> nat at + nat count \<le> max (nat at) (length (disk_bytes h))
        \<and> (count = 0 \<longrightarrow> n = 0 \<or> length (disk_bytes h) \<le> nat at))"
    using j next_grant_cases(2) [OF g] by (auto simp: r is_safe_integer_def)
next
  fix at bs h h' rw assume "write_at disk_ops bs at h = (h', rw)"
  then show "\<exists>n \<le> length bs. disk_bytes h' = overwrite (disk_bytes h) (nat at) (take n bs) \<and> (\<forall>count. rw = Inr count \<longrightarrow> count = int n)"
    by (auto simp: disk_ops_def disk_write_def split: prod.splits dest!: next_grant_cases(1))
next
  fix at h h' r assume "truncate_to disk_ops at h = (h', r)"
  then show "disk_bytes h' = (if r = Inr () then resize (disk_bytes h) (nat at) else disk_bytes h)"
    by (auto simp: disk_ops_def disk_truncate_def split: prod.splits if_splits dest!: next_grant_cases(2))
next
  fix h h' r assume "flush_file disk_ops h = (h', r)"
  then show "disk_bytes h' = disk_bytes h"
    by (auto simp: disk_ops_def disk_flush_def split: prod.splits if_splits dest!: next_grant_cases(2))
next
  fix at n h show "\<exists>h' count bs. read_at disk_ops n at h = (h', Inr (count, bs))"
    by (auto simp: disk_ops_def disk_read_def split: prod.splits)
qed

text \<open>A disk without grants does everything at once.\<close>

lemma disk_write_fully:
  assumes "grants d = []" "0 \<le> at \<and> at + int (length bs) \<le> MAX_SAFE_INTEGER"
  shows "write_fully disk_ops bs at d = (d\<lparr>disk_bytes := overwrite (disk_bytes d) (nat at) bs\<rparr>, Inr ())"
proof -
  have "assert_transfer_range at (length bs) = Inr ()" "assert_transfer_count (int (length bs)) (length bs) = Inr ()"
    using assms(2) by (simp_all add: assert_transfer_range_def assert_transfer_count_def is_safe_integer_def MAX_SAFE_INTEGER_def)
  moreover have "disk_write bs at d = (d\<lparr>disk_bytes := overwrite (disk_bytes d) (nat at) bs\<rparr>, Inr (int (length bs)))"
    using assms(1) by (simp add: disk_write_def next_grant_def)
  ultimately show ?thesis
    by (cases "bs = []") (simp_all add: write_fully_def disk_ops_def write_loop.simps [of _ bs] write_loop.simps [of _ "[]"])
qed

lemma disk_flush_grants: "grants d = [] \<Longrightarrow> flush_file disk_ops d = (d, Inr ())"
  by (simp add: disk_ops_def disk_flush_def next_grant_def)

end
