(* ===== verification/WalAck.thy ===== *)
theory WalAck
  imports Crc32 SyncFile
begin

text \<open>
  \<open>storage/toolkit/wal-acknowledgement.ts\<close>: the two checksummed slots that name the acknowledged
  boundary of the log. \<open>Number(getBigUint64(..))\<close> is a safe integer exactly when the 64-bit value is
  one: larger values round to at least \<open>2 ^ 53\<close>.
\<close>

definition ACK_MAGIC :: u32 where "ACK_MAGIC = 0x414e4e4d"
definition SLOT_BYTES :: nat where "SLOT_BYTES = 24"

record acknowledgement =
  ack_sequence :: int
  ack_end :: int

record 'h acknowledgements =
  ack_handle :: 'h
  latest :: acknowledgement

definition slot_bytes :: "acknowledgement \<Rightarrow> byte list" where
  "slot_bytes a = (let body = le_bytes 8 (nat (ack_sequence a)) @ le_bytes 8 (nat (ack_end a)) in
     le32 ACK_MAGIC @ le32 (crc32 body) @ body)"

definition ack_encode :: "acknowledgement \<Rightarrow> byte list result" where
  "ack_encode a =
     (if \<not> is_safe_integer (ack_sequence a) \<or> ack_sequence a < 0 \<or> \<not> is_safe_integer (ack_end a) \<or> ack_end a < 0
      then Inl (RangeError ''Invalid WAL acknowledgement boundary'') else Inr (slot_bytes a))"

definition decode_slot :: "byte list \<Rightarrow> acknowledgement result" where
  "decode_slot bytes =
     (if get32 bytes 0 \<noteq> ACK_MAGIC \<or> get32 bytes 4 \<noteq> crc32 (drop 8 bytes)
      then Inl (CorruptionError ''WAL acknowledgement slot is corrupt'')
      else let seq = int (get_le 8 bytes 8); fin = int (get_le 8 bytes 16) in
        if \<not> is_safe_integer seq \<or> \<not> is_safe_integer fin
        then Inl (CorruptionError ''Invalid WAL acknowledgement boundary'')
        else Inr \<lparr>ack_sequence = seq, ack_end = fin\<rparr>)"

definition read_slot :: "'h file_ops \<Rightarrow> nat \<Rightarrow> ('h, acknowledgement) eff" where
  "read_slot ops index h = (case read_fully ops SLOT_BYTES (int (index * SLOT_BYTES)) h of
     (h', Inl e) \<Rightarrow> (h', Inl e) | (h', Inr bytes) \<Rightarrow> (h', decode_slot bytes))"

text \<open>The head of the two slots after \<open>sort\<close> by descending sequence and end.\<close>

definition newer_slot :: "acknowledgement \<Rightarrow> acknowledgement \<Rightarrow> acknowledgement" where
  "newer_slot a b =
     (if ack_sequence b - ack_sequence a > 0 \<or> ack_sequence b = ack_sequence a \<and> ack_end b - ack_end a > 0 then b else a)"

definition open_acknowledgements :: "'h file_ops \<Rightarrow> bool \<Rightarrow> ('h, 'h acknowledgements) eff" where
  "open_acknowledgements ops empty_database =
     bindE (\<lambda>h. if get_size ops h = 0 \<and> empty_database then
         (case ack_encode \<lparr>ack_sequence = 0, ack_end = 0\<rparr> of
            Inl e \<Rightarrow> (h, Inl e)
          | Inr initial \<Rightarrow>
              bindE (write_fully ops initial 0) (\<lambda>_.
              bindE (write_fully ops initial (int SLOT_BYTES)) (\<lambda>_. flush_file ops)) h)
       else (h, Inr ()))
     (\<lambda>_ h. if get_size ops h \<noteq> int (SLOT_BYTES * 2)
        then (h, Inl (CorruptionError ''WAL acknowledgement file is missing or truncated''))
        else bindE (read_slot ops 0) (\<lambda>a. bindE (read_slot ops 1) (\<lambda>b h.
          (h, Inr \<lparr>ack_handle = h, latest = newer_slot a b\<rparr>))) h)"

definition publish :: "'h file_ops \<Rightarrow> int \<Rightarrow> int \<Rightarrow> ('h acknowledgements, unit) eff" where
  "publish ops sequence end_offset s =
     (let a = \<lparr>ack_sequence = sequence, ack_end = end_offset\<rparr> in
      case ack_encode a of
        Inl e \<Rightarrow> (s, Inl e)
      | Inr bytes \<Rightarrow>
          (case write_fully ops bytes ((sequence mod 2) * int SLOT_BYTES) (ack_handle s) of
             (h1, Inl e) \<Rightarrow> (s\<lparr>ack_handle := h1\<rparr>, Inl e)
           | (h1, Inr _) \<Rightarrow>
               (case flush_file ops h1 of (h2, r) \<Rightarrow> (s\<lparr>ack_handle := h2, latest := a\<rparr>, r))))"

subsection \<open>Slots\<close>

definition ack_ok :: "acknowledgement \<Rightarrow> bool" where
  "ack_ok a \<longleftrightarrow> 0 \<le> ack_sequence a \<and> ack_sequence a \<le> MAX_SAFE_INTEGER \<and> 0 \<le> ack_end a \<and> ack_end a \<le> MAX_SAFE_INTEGER"

lemma ack_encode_ok: "ack_ok a \<Longrightarrow> ack_encode a = Inr (slot_bytes a)"
  by (simp add: ack_ok_def ack_encode_def is_safe_integer_def MAX_SAFE_INTEGER_def)

lemma ack_encode_Inr: "ack_encode a = Inr bs \<longleftrightarrow> ack_ok a \<and> bs = slot_bytes a"
  by (auto simp: ack_ok_def ack_encode_def is_safe_integer_def MAX_SAFE_INTEGER_def)

lemma length_slot [simp]: "length (slot_bytes a) = SLOT_BYTES"
  by (simp add: slot_bytes_def SLOT_BYTES_def Let_def)

lemma decode_slot_bytes:
  assumes "ack_ok a"
  shows "decode_slot (slot_bytes a) = Inr a"
proof -
  define body where "body = le_bytes 8 (nat (ack_sequence a)) @ le_bytes 8 (nat (ack_end a))"
  have s: "slot_bytes a = le32 ACK_MAGIC @ le32 (crc32 body) @ body" by (simp add: slot_bytes_def body_def Let_def)
  have "get32 (slot_bytes a) 0 = ACK_MAGIC" unfolding s using get32_at [of "[]" 0 ACK_MAGIC "le32 (crc32 body) @ body"] by simp
  moreover have "get32 (slot_bytes a) 4 = crc32 (drop 8 (slot_bytes a))"
    unfolding s using get32_at [of "le32 ACK_MAGIC" 4 "crc32 body" body] by simp
  moreover have b: "n mod 256 ^ 8 = n" if "int n \<le> MAX_SAFE_INTEGER" for n
    using that by (simp add: MAX_SAFE_INTEGER_def)
  moreover have "get_le 8 (slot_bytes a) 8 = nat (ack_sequence a)"
    using get_le_at [of "le32 ACK_MAGIC @ le32 (crc32 body)" 8 8 "nat (ack_sequence a)" "le_bytes 8 (nat (ack_end a))"]
      b [of "nat (ack_sequence a)"] assms by (simp add: s body_def ack_ok_def)
  moreover have "get_le 8 (slot_bytes a) 16 = nat (ack_end a)"
    using get_le_at [of "le32 ACK_MAGIC @ le32 (crc32 body) @ le_bytes 8 (nat (ack_sequence a))" 16 8 "nat (ack_end a)" "[]"]
      b [of "nat (ack_end a)"] assms by (simp add: s body_def ack_ok_def)
  ultimately show ?thesis using assms by (simp add: decode_slot_def ack_ok_def is_safe_integer_def MAX_SAFE_INTEGER_def)
qed

definition slots_file :: "acknowledgement \<Rightarrow> acknowledgement \<Rightarrow> byte list" where
  "slots_file a b = slot_bytes a @ slot_bytes b"

lemma overwrite_slots:
  "overwrite (slots_file a b) 0 (slot_bytes c) = slots_file c b"
  "overwrite (slots_file a b) SLOT_BYTES (slot_bytes c) = slots_file a c"
proof -
  have "0 < length (slot_bytes c)" by (simp add: SLOT_BYTES_def)
  then have "slot_bytes c \<noteq> []" by (rule length_greater_0_conv [THEN iffD1])
  then show "overwrite (slots_file a b) 0 (slot_bytes c) = slots_file c b"
    "overwrite (slots_file a b) SLOT_BYTES (slot_bytes c) = slots_file a c"
    by (simp_all add: overwrite_def slots_file_def)
qed

context readable_file
begin

lemma read_slot_spec:
  assumes "content h = slots_file a b" "ack_ok a" "ack_ok b" "index < 2"
  obtains h' where "content h' = content h" "read_slot ops index h = (h', Inr (if index = 0 then a else b))"
proof -
  obtain h' where h': "read_fully ops SLOT_BYTES (int (index * SLOT_BYTES)) h
      = (h', Inr (take SLOT_BYTES (drop (index * SLOT_BYTES) (content h))))" "content h' = content h"
    by (rule read_fully_returns [of "int (index * SLOT_BYTES)" SLOT_BYTES h])
      (use assms in \<open>auto simp: slots_file_def SLOT_BYTES_def MAX_SAFE_INTEGER_def nat_mult_distrib\<close>)
  have "take SLOT_BYTES (drop (index * SLOT_BYTES) (content h)) = slot_bytes (if index = 0 then a else b)"
    using assms(1,4) by (auto simp: slots_file_def less_2_cases_iff)
  then show ?thesis using that h' decode_slot_bytes assms(2,3) by (simp add: read_slot_def)
qed

lemma open_slots:
  assumes "content h = slots_file a b" "ack_ok a" "ack_ok b"
  obtains h' where "content h' = content h"
    "open_acknowledgements ops flag h = (h', Inr \<lparr>ack_handle = h', latest = newer_slot a b\<rparr>)"
proof -
  obtain h1 where h1: "content h1 = content h" "read_slot ops 0 h = (h1, Inr a)"
    using read_slot_spec [OF assms, of 0 thesis] by (auto intro: read_slot_spec [OF assms, of 0])
  obtain h2 where h2: "content h2 = content h1" "read_slot ops 1 h1 = (h2, Inr b)"
    by (rule read_slot_spec [of h1 a b 1]) (use assms h1 in auto)
  have "get_size ops h = int (SLOT_BYTES * 2)" using assms(1) by (simp add: size_law slots_file_def)
  then have "open_acknowledgements ops flag h = (h2, Inr \<lparr>ack_handle = h2, latest = newer_slot a b\<rparr>)"
    using h1 h2 by (simp add: open_acknowledgements_def bindE_def SLOT_BYTES_def)
  then show ?thesis using that h1 h2 by simp
qed

lemma publish_slots:
  assumes "publish ops sequence end_offset s = (s', Inr ())" "content (ack_handle s) = slots_file a b"
  defines "c \<equiv> \<lparr>ack_sequence = sequence, ack_end = end_offset\<rparr>"
  shows "ack_ok c" "latest s' = c"
    "content (ack_handle s') = (if sequence mod 2 = 0 then slots_file c b else slots_file a c)"
proof -
  obtain bs h1 h2 where P: "ack_encode c = Inr bs"
    "write_fully ops bs ((sequence mod 2) * int SLOT_BYTES) (ack_handle s) = (h1, Inr ())"
    "flush_file ops h1 = (h2, Inr ())" "s' = s\<lparr>ack_handle := h2, latest := c\<rparr>"
    using assms(1) by (auto simp: publish_def c_def Let_def split: sum.splits prod.splits)
  have bs: "ack_ok c" "bs = slot_bytes c" using P(1) by (simp_all add: ack_encode_Inr)
  have m: "sequence mod 2 = 0 \<or> sequence mod 2 = 1" by linarith
  then have at: "0 \<le> (sequence mod 2) * int SLOT_BYTES"
    "nat ((sequence mod 2) * int SLOT_BYTES) \<le> length (content (ack_handle s))"
    using assms(2) by (auto simp: slots_file_def)
  obtain n where "n \<le> length bs" "content h1 = overwrite (content (ack_handle s)) (nat ((sequence mod 2) * int SLOT_BYTES)) (take n bs)"
    "Inr () = Inr () \<Longrightarrow> n = length bs"
    using write_fully_content [OF P(2) at] by blast
  then have "content h1 = overwrite (slots_file a b) (nat ((sequence mod 2) * int SLOT_BYTES)) (slot_bytes c)"
    using bs assms(2) by simp
  then have "content h1 = (if sequence mod 2 = 0 then slots_file c b else slots_file a c)"
    using m overwrite_slots by auto
  then show "ack_ok c" "latest s' = c" "content (ack_handle s') = (if sequence mod 2 = 0 then slots_file c b else slots_file a c)"
    using bs P(3,4) flush_law [OF P(3)] by simp_all
qed

end

subsection \<open>Publishing and reopening\<close>

text \<open>Publishes in order, each of which returned.\<close>

fun publishes :: "'h file_ops \<Rightarrow> (int \<times> int) list \<Rightarrow> ('h acknowledgements, unit) eff" where
  "publishes ops [] s = (s, Inr ())"
| "publishes ops ((sequence, end_offset) # rest) s =
     bindE (publish ops sequence end_offset) (\<lambda>_. publishes ops rest) s"

context readable_file
begin

lemma publishes_latest:
  "publishes ops ps s = (s', Inr ()) \<Longrightarrow> content (ack_handle s) = slots_file a b \<Longrightarrow> ack_ok a \<Longrightarrow> ack_ok b \<Longrightarrow>
   latest s = newer_slot a b \<Longrightarrow> sorted_wrt (<) (ack_sequence (latest s) # map fst ps) \<Longrightarrow>
   \<exists>a' b'. content (ack_handle s') = slots_file a' b' \<and> ack_ok a' \<and> ack_ok b' \<and> latest s' = newer_slot a' b'
     \<and> latest s' = (if ps = [] then latest s else \<lparr>ack_sequence = fst (last ps), ack_end = snd (last ps)\<rparr>)"
proof (induction ps arbitrary: s a b)
  case Nil
  then show ?case by auto
next
  case (Cons p ps)
  obtain q e where p: "p = (q, e)" by (cases p)
  let ?c = "\<lparr>ack_sequence = q, ack_end = e\<rparr>"
  obtain s1 where s1: "publish ops q e s = (s1, Inr ())" "publishes ops ps s1 = (s', Inr ())"
    using Cons.prems(1) by (auto simp: p elim: bindE_cases)
  note P = publish_slots [OF s1(1) Cons.prems(2)]
  have lt: "ack_sequence a < q" "ack_sequence b < q"
    using Cons.prems(5,6) by (auto simp: p newer_slot_def split: if_splits)
  let ?a = "if q mod 2 = 0 then ?c else a" and ?b = "if q mod 2 = 0 then b else ?c"
  have n: "newer_slot ?a ?b = ?c" using lt by (simp add: newer_slot_def)
  have f: "content (ack_handle s1) = slots_file ?a ?b" "ack_ok ?a" "ack_ok ?b" using P Cons.prems(3,4) by auto
  have "sorted_wrt (<) (ack_sequence (latest s1) # map fst ps)" using Cons.prems(6) P(2) by (simp add: p)
  from Cons.IH [OF s1(2) f _ this] P(2) n obtain a' b' where
    "content (ack_handle s') = slots_file a' b'" "ack_ok a'" "ack_ok b'" "latest s' = newer_slot a' b'"
    "latest s' = (if ps = [] then latest s1 else \<lparr>ack_sequence = fst (last ps), ack_end = snd (last ps)\<rparr>)" by auto
  then have "content (ack_handle s') = slots_file a' b' \<and> ack_ok a' \<and> ack_ok b' \<and> latest s' = newer_slot a' b'
     \<and> latest s' = (if p # ps = [] then latest s
        else \<lparr>ack_sequence = fst (last (p # ps)), ack_end = snd (last (p # ps))\<rparr>)"
    using P(2) by (auto simp: p)
  then show ?case by blast
qed

end

text \<open>
  Property C25: after any run of successful publishes with increasing sequence numbers, reopening the
  acknowledgement file recovers exactly the last one published, with no rewind to an older boundary;
  short transfers of the handle do not matter.
\<close>

theorem acknowledgement_reopens:
  assumes "disk_bytes d = slots_file a b" "ack_ok a" "ack_ok b"
    "publishes disk_ops ps \<lparr>ack_handle = d, latest = newer_slot a b\<rparr> = (s', Inr ())" "ps \<noteq> []"
    "sorted_wrt (<) (ack_sequence (newer_slot a b) # map fst ps)"
  shows "\<exists>d' s''. open_acknowledgements disk_ops flag (ack_handle s') = (d', Inr s'')
    \<and> latest s'' = \<lparr>ack_sequence = fst (last ps), ack_end = snd (last ps)\<rparr> \<and> latest s'' = latest s'"
proof -
  obtain a' b' where I: "disk_bytes (ack_handle s') = slots_file a' b'" "ack_ok a'" "ack_ok b'" "latest s' = newer_slot a' b'"
    "newer_slot a' b' = \<lparr>ack_sequence = fst (last ps), ack_end = snd (last ps)\<rparr>"
    using disk.publishes_latest [OF assms(4) _ assms(2,3)] assms(1,5,6) by fastforce
  obtain d' where "open_acknowledgements disk_ops flag (ack_handle s') = (d', Inr \<lparr>ack_handle = d', latest = newer_slot a' b'\<rparr>)"
    using disk.open_slots [OF I(1-3)] by blast
  then show ?thesis using I(4,5) by simp
qed

lemma acknowledgement_reopens_witness:
  "\<exists>d' s''. open_acknowledgements disk_ops False (ack_handle (fst (publishes disk_ops [(1, 40), (2, 90)]
      \<lparr>ack_handle = \<lparr>disk_bytes = slots_file \<lparr>ack_sequence = 0, ack_end = 0\<rparr> \<lparr>ack_sequence = 0, ack_end = 0\<rparr>, grants = []\<rparr>,
        latest = newer_slot \<lparr>ack_sequence = 0, ack_end = 0\<rparr> \<lparr>ack_sequence = 0, ack_end = 0\<rparr>\<rparr>))) = (d', Inr s'')
    \<and> latest s'' = \<lparr>ack_sequence = 2, ack_end = 90\<rparr>"
proof -
  let ?z = "\<lparr>ack_sequence = 0, ack_end = 0\<rparr>"
  let ?d = "\<lparr>disk_bytes = slots_file ?z ?z, grants = []\<rparr>"
  let ?s = "\<lparr>ack_handle = ?d, latest = newer_slot ?z ?z\<rparr>"
  have ok: "ack_ok ?z" by (simp add: ack_ok_def MAX_SAFE_INTEGER_def)
  have P: "\<exists>s'. publish disk_ops q e s = (s', Inr ()) \<and> grants (ack_handle s') = []"
    if "ack_ok \<lparr>ack_sequence = q, ack_end = e\<rparr>" "grants (ack_handle s) = []" for q e and s :: "disk acknowledgements"
  proof -
    have "write_fully disk_ops (slot_bytes \<lparr>ack_sequence = q, ack_end = e\<rparr>) (q mod 2 * int SLOT_BYTES) (ack_handle s)
      = (ack_handle s\<lparr>disk_bytes := overwrite (disk_bytes (ack_handle s)) (nat (q mod 2 * int SLOT_BYTES))
          (slot_bytes \<lparr>ack_sequence = q, ack_end = e\<rparr>)\<rparr>, Inr ())"
    proof (rule disk_write_fully [OF that(2)])
      have "q mod 2 = 0 \<or> q mod 2 = 1" by linarith
      then show "0 \<le> q mod 2 * int SLOT_BYTES \<and> q mod 2 * int SLOT_BYTES
          + int (length (slot_bytes \<lparr>ack_sequence = q, ack_end = e\<rparr>)) \<le> MAX_SAFE_INTEGER"
        by (auto simp: SLOT_BYTES_def MAX_SAFE_INTEGER_def)
    qed
    then show ?thesis using that by (simp add: publish_def Let_def ack_encode_ok disk_flush_grants)
  qed
  have k: "ack_ok \<lparr>ack_sequence = 1, ack_end = 40\<rparr>" "ack_ok \<lparr>ack_sequence = 2, ack_end = 90\<rparr>"
    by (simp_all add: ack_ok_def MAX_SAFE_INTEGER_def)
  obtain s1 where s1: "publish disk_ops 1 40 ?s = (s1, Inr ())" "grants (ack_handle s1) = []"
    using P [OF k(1), of ?s] by auto
  obtain s2 where s2: "publish disk_ops 2 90 s1 = (s2, Inr ())" using P [OF k(2) s1(2)] by auto
  have p: "publishes disk_ops [(1, 40), (2, 90)] ?s = (s2, Inr ())" using s1 s2 by simp
  have "sorted_wrt (<) (ack_sequence (newer_slot ?z ?z) # map fst [(1, 40 :: int), (2, 90)])" by (simp add: newer_slot_def)
  from acknowledgement_reopens [OF _ ok ok p _ this, of False]
  show ?thesis unfolding p by (auto simp del: publishes.simps)
qed

end
