(* ===== verification/WalLog.thy ===== *)
theory WalLog
  imports Crc32 SyncFile
begin

text \<open>
  \<open>storage/toolkit/wal.ts\<close>: the write-ahead log, framed over one synchronous handle. Payloads are
  the encoded bytes (the JSON coding of \<open>wire.ts\<close> is outside the model). A generator is the list of
  what it yields, next to how it ends; \<open>null\<close>, yielded after a continuation piece, is \<open>None\<close>. The
  \<open>pause\<close> awaited behind a piece changes nothing here, but it may reject: it is the error, if any, behind the piece at each offset.
\<close>

definition FRAME_MAGIC :: u32 where "FRAME_MAGIC = 0x4c574e4d"
definition CONTINUATION_MAGIC :: u32 where "CONTINUATION_MAGIC = 0x43574e4d"
definition FRAME_HEADER_BYTES :: nat where "FRAME_HEADER_BYTES = 12"
definition MAX_WAL_FRAME_BYTES :: nat where "MAX_WAL_FRAME_BYTES = 67108864"
definition WAL_CONTINUATION_PIECE_BYTES :: nat where "WAL_CONTINUATION_PIECE_BYTES = 4194304"

subsection \<open>The writer\<close>

record 'h wal_writer =
  wal_handle :: 'h
  wal_offset :: int

definition new_wal_writer :: "'h \<Rightarrow> int \<Rightarrow> 'h wal_writer result" where
  "new_wal_writer h offset =
     (if \<not> (is_safe_integer offset \<and> 0 \<le> offset) then Inl (RangeError ''WAL offset is outside the safe integer range'')
      else Inr \<lparr>wal_handle = h, wal_offset = offset\<rparr>)"

definition frame_bytes :: "u32 \<Rightarrow> byte list \<Rightarrow> byte list" where
  "frame_bytes magic bytes = le32 magic @ le_bytes 4 (length bytes) @ le32 (crc32 bytes) @ bytes"

definition append_frame :: "'h file_ops \<Rightarrow> u32 \<Rightarrow> byte list \<Rightarrow> bool \<Rightarrow> ('h wal_writer, unit) eff" where
  "append_frame ops magic bytes flush w =
     (if MAX_WAL_FRAME_BYTES < length bytes then (w, Inl (RangeError ''WAL frame payload exceeds the byte limit''))
      else
        let frame = frame_bytes magic bytes; start = wal_offset w in
        if MAX_SAFE_INTEGER - int (length frame) < start
        then (w, Inl (RangeError ''WAL offset exceeds the safe integer range''))
        else case bindE (write_fully ops frame start) (\<lambda>_. if flush then flush_file ops else retE ()) (wal_handle w) of
          (h', Inr _) \<Rightarrow> (w\<lparr>wal_handle := h', wal_offset := start + int (length frame)\<rparr>, Inr ())
        | (h', Inl e) \<Rightarrow> (w\<lparr>wal_handle := fst (truncate_to ops start h')\<rparr>, Inl e))"

definition append_encoded :: "'h file_ops \<Rightarrow> byte list \<Rightarrow> bool \<Rightarrow> ('h wal_writer, unit) eff" where
  "append_encoded ops bytes flush = append_frame ops FRAME_MAGIC bytes flush"

definition append_continuation :: "'h file_ops \<Rightarrow> byte list \<Rightarrow> bool \<Rightarrow> ('h wal_writer, unit) eff" where
  "append_continuation ops piece flush = append_frame ops CONTINUATION_MAGIC piece flush"

definition rewind :: "'h file_ops \<Rightarrow> int \<Rightarrow> ('h wal_writer, unit) eff" where
  "rewind ops offset w =
     (if \<not> (is_safe_integer offset \<and> 0 \<le> offset \<and> offset \<le> wal_offset w)
      then (w, Inl (RangeError ''WAL rewind offset is outside the written log''))
      else case truncate_to ops offset (wal_handle w) of
        (h1, Inl e) \<Rightarrow> (w\<lparr>wal_handle := h1\<rparr>, Inl e)
      | (h1, Inr _) \<Rightarrow> (case flush_file ops h1 of (h2, r) \<Rightarrow> (w\<lparr>wal_handle := h2, wal_offset := offset\<rparr>, r)))"

text \<open>The \<open>for\<close> loop of \<open>appendEncodedSliced\<close> over the bytes before the last piece.\<close>

function continuation_loop :: "'h file_ops \<Rightarrow> byte list \<Rightarrow> bool \<Rightarrow> (nat \<Rightarrow> js_error option) \<Rightarrow> nat \<Rightarrow> nat \<Rightarrow> ('h wal_writer, unit) eff" where
  "continuation_loop ops bytes flush pause at limit w =
     (if at < limit then
        case append_continuation ops (slice_of bytes at (min limit (at + WAL_CONTINUATION_PIECE_BYTES))) flush w of
          (w', Inl e) \<Rightarrow> (w', Inl e)
        | (w', Inr _) \<Rightarrow> (case pause at of
            Some x \<Rightarrow> (w', Inl x)
          | None \<Rightarrow> continuation_loop ops bytes flush pause (at + WAL_CONTINUATION_PIECE_BYTES) limit w')
      else (w, Inr ()))"
  by pat_completeness auto
termination
  by (relation "measure (\<lambda>(ops, bytes, flush, pause, at, limit, w). limit - at)")
    (auto simp: WAL_CONTINUATION_PIECE_BYTES_def)

declare continuation_loop.simps [simp del]

definition append_encoded_sliced :: "'h file_ops \<Rightarrow> byte list \<Rightarrow> bool \<Rightarrow> (nat \<Rightarrow> js_error option) \<Rightarrow> ('h wal_writer, unit) eff" where
  "append_encoded_sliced ops bytes flush pause w =
     (let start = wal_offset w; limit = length bytes - WAL_CONTINUATION_PIECE_BYTES in
      catchE (bindE (continuation_loop ops bytes flush pause 0 limit)
                (\<lambda>_. append_encoded ops (drop limit bytes) flush))
        (\<lambda>e w'. (fst (rewind ops start w'), Inl e)) w)"

definition wal_reset :: "'h file_ops \<Rightarrow> ('h wal_writer, unit) eff" where
  "wal_reset ops w = (case truncate_to ops 0 (wal_handle w) of
     (h1, Inl e) \<Rightarrow> (w\<lparr>wal_handle := h1\<rparr>, Inl e)
   | (h1, Inr _) \<Rightarrow> (case flush_file ops h1 of (h2, r) \<Rightarrow> (w\<lparr>wal_handle := h2, wal_offset := 0\<rparr>, r)))"

definition wal_flush :: "'h file_ops \<Rightarrow> ('h wal_writer, unit) eff" where
  "wal_flush ops w = (case flush_file ops (wal_handle w) of (h, r) \<Rightarrow> (w\<lparr>wal_handle := h\<rparr>, r))"

subsection \<open>Replay\<close>

type_synonym wal_item = "(byte list \<times> nat) option"

text \<open>\<open>isZeroFilled\<close>: the chunk has positive length whenever its loop runs.\<close>

function zero_loop :: "'h file_ops \<Rightarrow> nat \<Rightarrow> nat \<Rightarrow> nat \<Rightarrow> ('h, bool) eff" where
  "zero_loop ops chunk at fsize h =
     (if at < fsize \<and> 0 < chunk then
        let len = min chunk (fsize - at) in
        case read_fully ops len (int at) h of
          (h', Inl e) \<Rightarrow> (h', Inl e)
        | (h', Inr window) \<Rightarrow>
            if list_all (\<lambda>b. b = 0) window then zero_loop ops chunk (at + chunk) fsize h' else (h', Inr False)
      else (h, Inr True))"
  by pat_completeness auto
termination by (relation "measure (\<lambda>(ops, chunk, at, fsize, h). fsize - at)") auto

declare zero_loop.simps [simp del]

definition is_zero_filled :: "'h file_ops \<Rightarrow> nat \<Rightarrow> nat \<Rightarrow> ('h, bool) eff" where
  "is_zero_filled ops offset fsize = zero_loop ops (min 65536 (fsize - offset)) offset fsize"

definition join_pieces :: "byte list list \<Rightarrow> byte list" where
  "join_pieces ps = concat ps"

text \<open>The check after the loop.\<close>

definition end_of_log :: "int \<Rightarrow> byte list list \<Rightarrow> nat \<Rightarrow> unit result" where
  "end_of_log ack ps pieces_start =
     (if ps \<noteq> [] \<and> int pieces_start < ack
      then Inl (PlainError ''WAL continuation frames end before their acknowledged boundary'') else Inr ())"

text \<open>
  One iteration: the log ends here (or the iteration throws), or a frame with a good checksum was
  read, and where it ends.
\<close>

datatype wal_outcome = Stop "unit result" | Frame u32 "byte list" nat

definition wal_step :: "'h file_ops \<Rightarrow> int \<Rightarrow> bool \<Rightarrow> nat \<Rightarrow> nat \<Rightarrow> byte list list \<Rightarrow> nat \<Rightarrow> 'h \<Rightarrow> 'h \<times> wal_outcome" where
  "wal_step ops ack zeroed fsize offset ps pieces_start h =
     (case read_fully ops FRAME_HEADER_BYTES (int offset) h of
        (h1, Inl e) \<Rightarrow> (h1, Stop (Inl e))
      | (h1, Inr header) \<Rightarrow>
          let magic = get32 header 0 in
          if magic \<noteq> FRAME_MAGIC \<and> magic \<noteq> CONTINUATION_MAGIC then
            (if ack \<le> int offset then
               if zeroed \<and> list_all (\<lambda>b. b = 0) header then (h1, Stop (end_of_log ack ps pieces_start))
               else (case is_zero_filled ops offset fsize h1 of
                   (h2, Inl e) \<Rightarrow> (h2, Stop (Inl e))
                 | (h2, Inr zero) \<Rightarrow> (h2, Stop (if zero then end_of_log ack ps pieces_start
                     else Inl (PlainError ''WAL frame marker mismatch''))))
             else (h1, Stop (Inl (PlainError ''WAL frame marker mismatch''))))
          else
            let len = unat (get32 header 4); checksum = get32 header 8; fin = offset + FRAME_HEADER_BYTES + len in
            if MAX_WAL_FRAME_BYTES < len then (h1, Stop (Inl (PlainError ''WAL frame exceeds the byte limit'')))
            else if \<not> is_safe_integer (int fin) \<or> fsize < fin then
              (h1, Stop (if int offset < ack
                 then Inl (PlainError ''WAL frame is truncated before its acknowledged boundary'')
                 else end_of_log ack ps pieces_start))
            else (case read_fully ops len (int (offset + FRAME_HEADER_BYTES)) h1 of
                (h2, Inl e) \<Rightarrow> (h2, Stop (Inl e))
              | (h2, Inr payload) \<Rightarrow>
                  if crc32 payload = checksum then (h2, Frame magic payload fin)
                  else if \<not> (ack \<le> int offset \<and> list_all (\<lambda>b. b = 0) payload) then
                    (h2, Stop (Inl (PlainError ''WAL frame checksum mismatch'')))
                  else if zeroed then (h2, Stop (end_of_log ack ps pieces_start))
                  else (case is_zero_filled ops fin fsize h2 of
                      (h3, Inl e) \<Rightarrow> (h3, Stop (Inl e))
                    | (h3, Inr zero) \<Rightarrow> (h3, Stop (if zero then end_of_log ack ps pieces_start
                        else Inl (PlainError ''WAL frame checksum mismatch''))))))"

lemma wal_step_advances: "wal_step ops ack zeroed fsize offset ps pst h = (h', Frame m p fin) \<Longrightarrow>
   offset + FRAME_HEADER_BYTES \<le> fin"
  by (auto simp: wal_step_def Let_def split: prod.splits sum.splits if_splits)

definition emit :: "wal_item \<Rightarrow> 'h \<times> wal_item list \<times> unit result \<Rightarrow> 'h \<times> wal_item list \<times> unit result" where
  "emit x out = (case out of (h, xs, r) \<Rightarrow> (h, x # xs, r))"

function wal_loop ::
  "'h file_ops \<Rightarrow> int \<Rightarrow> bool \<Rightarrow> nat \<Rightarrow> nat \<Rightarrow> byte list list \<Rightarrow> nat \<Rightarrow> 'h \<Rightarrow> 'h \<times> wal_item list \<times> unit result" where
  "wal_loop ops ack zeroed fsize offset ps pieces_start h =
     (if offset + FRAME_HEADER_BYTES \<le> fsize then
        (case wal_step ops ack zeroed fsize offset ps pieces_start h of
           (h', Stop r) \<Rightarrow> (h', [], r)
         | (h', Frame magic payload fin) \<Rightarrow>
             if magic = CONTINUATION_MAGIC then
               emit None (wal_loop ops ack zeroed fsize fin (ps @ [payload])
                 (if ps = [] then offset else pieces_start) h')
             else emit (Some (if ps = [] then payload else join_pieces (ps @ [payload]), fin))
               (wal_loop ops ack zeroed fsize fin [] pieces_start h'))
      else (h, [], end_of_log ack ps pieces_start))"
  by pat_completeness auto
termination
  by (relation "measure (\<lambda>(ops, ack, zeroed, fsize, offset, ps, pieces_start, h). fsize - offset)")
    (auto simp: FRAME_HEADER_BYTES_def dest!: sym [of _ "wal_step _ _ _ _ _ _ _ _"] wal_step_advances)

declare wal_loop.simps [simp del]

definition wal_payloads :: "'h file_ops \<Rightarrow> int \<Rightarrow> bool \<Rightarrow> 'h \<Rightarrow> 'h \<times> wal_item list \<times> unit result" where
  "wal_payloads ops ack zeroed h =
     (let fsize = get_size ops h in
      if \<not> (is_safe_integer fsize \<and> 0 \<le> fsize) then (h, [], Inl (PlainError ''Invalid WAL byte length''))
      else if \<not> is_safe_integer ack \<or> ack < 0 \<or> fsize < ack
        then (h, [], Inl (PlainError ''WAL is truncated before its acknowledged boundary''))
      else wal_loop ops ack zeroed (nat fsize) 0 [] 0 h)"

text \<open>\<open>replayWalFrames\<close>, before the payloads are decoded: nothing is returned when replay throws.\<close>

definition frames_of :: "wal_item list \<Rightarrow> (byte list \<times> nat) list" where
  "frames_of items = map the (filter (\<lambda>x. x \<noteq> None) items)"

lemma frames_of_simps [simp]:
  "frames_of [] = []" "frames_of (None # xs) = frames_of xs" "frames_of (Some f # xs) = f # frames_of xs"
  "frames_of (xs @ ys) = frames_of xs @ frames_of ys" "frames_of (replicate n None) = []"
  by (simp_all add: frames_of_def)

definition replay_frames :: "'h file_ops \<Rightarrow> ('h, byte list list \<times> nat list \<times> nat) eff" where
  "replay_frames ops h = (case wal_payloads ops 0 False h of
     (h', items, Inl e) \<Rightarrow> (h', Inl e)
   | (h', items, Inr _) \<Rightarrow>
       let fs = frames_of items in (h', Inr (map fst fs, map snd fs, (if fs = [] then 0 else snd (last fs)))))"

subsection \<open>Reading frames back\<close>

lemma magics_differ: "FRAME_MAGIC \<noteq> CONTINUATION_MAGIC" "FRAME_MAGIC \<noteq> 0" "CONTINUATION_MAGIC \<noteq> 0"
  by (simp_all add: FRAME_MAGIC_def CONTINUATION_MAGIC_def)

lemma length_frame [simp]: "length (frame_bytes magic p) = FRAME_HEADER_BYTES + length p"
  by (simp add: frame_bytes_def FRAME_HEADER_BYTES_def)

lemma le_bytes_word: "n < 4294967296 \<Longrightarrow> le_bytes 4 n = le32 (word_of_nat n)"
  by (simp add: le32_def unat_of_nat)

definition header_bytes :: "u32 \<Rightarrow> byte list \<Rightarrow> byte list" where
  "header_bytes magic p = le32 magic @ le_bytes 4 (length p) @ le32 (crc32 p)"

lemma length_header [simp]: "length (header_bytes magic p) = FRAME_HEADER_BYTES"
  by (simp add: header_bytes_def FRAME_HEADER_BYTES_def)

lemma frame_header: "frame_bytes magic p = header_bytes magic p @ p"
  by (simp add: frame_bytes_def header_bytes_def)

lemma header_fields:
  assumes "length p \<le> MAX_WAL_FRAME_BYTES"
  shows "get32 (header_bytes magic p) 0 = magic" "unat (get32 (header_bytes magic p) 4) = length p"
    "get32 (header_bytes magic p) 8 = crc32 p"
proof -
  have n: "length p < 4294967296" using assms by (simp add: MAX_WAL_FRAME_BYTES_def)
  show "get32 (header_bytes magic p) 0 = magic"
    using get32_at [of "[]" 0 magic "le_bytes 4 (length p) @ le32 (crc32 p)"] by (simp add: header_bytes_def)
  show "unat (get32 (header_bytes magic p) 4) = length p"
    using get32_at [of "le32 magic" 4 "word_of_nat (length p)" "le32 (crc32 p)"] n
    by (simp add: header_bytes_def le_bytes_word [OF n] unat_of_nat)
  show "get32 (header_bytes magic p) 8 = crc32 p"
    using get32_at [of "le32 magic @ le_bytes 4 (length p)" 8 "crc32 p" "[]"] by (simp add: header_bytes_def)
qed

lemma get32_zeros: "get32 (replicate n 0) at = 0"
proof -
  have "le_val (replicate k 0) = 0" for k by (induction k) auto
  moreover have "slice_of (replicate n (0 :: byte)) at (at + 4) = replicate (min 4 (n - at)) 0"
    by (simp add: slice_of_def)
  ultimately show ?thesis by (simp add: get32_def get_le_def)
qed

text \<open>A payload as the log holds it: the pieces of its continuation frames, and its last piece.\<close>

type_synonym entry = "byte list list \<times> byte list"

definition entry_ok :: "entry \<Rightarrow> bool" where
  "entry_ok e \<longleftrightarrow> (\<forall>p \<in> set (fst e). length p \<le> MAX_WAL_FRAME_BYTES) \<and> length (snd e) \<le> MAX_WAL_FRAME_BYTES"

definition continuations :: "byte list list \<Rightarrow> byte list" where
  "continuations ps = concat (map (frame_bytes CONTINUATION_MAGIC) ps)"

definition entry_bytes :: "entry \<Rightarrow> byte list" where
  "entry_bytes e = continuations (fst e) @ frame_bytes FRAME_MAGIC (snd e)"

definition entry_payload :: "entry \<Rightarrow> byte list" where
  "entry_payload e = concat (fst e) @ snd e"

definition log_bytes :: "entry list \<Rightarrow> byte list" where
  "log_bytes es = concat (map entry_bytes es)"

text \<open>Each payload with the end offset of the frame that completes it.\<close>

fun log_frames :: "nat \<Rightarrow> entry list \<Rightarrow> (byte list \<times> nat) list" where
  "log_frames at [] = []"
| "log_frames at (e # es) = (entry_payload e, at + length (entry_bytes e)) # log_frames (at + length (entry_bytes e)) es"

definition emits :: "wal_item list \<Rightarrow> 'h \<times> wal_item list \<times> unit result \<Rightarrow> 'h \<times> wal_item list \<times> unit result" where
  "emits xs out = (case out of (h, ys, r) \<Rightarrow> (h, xs @ ys, r))"

lemma emits_simps [simp]: "emits [] out = out" "emits (x # xs) out = emit x (emits xs out)"
    "emits xs (h, ys, r) = (h, xs @ ys, r)"
  by (simp_all add: emits_def emit_def split: prod.splits)

lemma emits_emits: "emits xs (emits ys out) = emits (xs @ ys) out"
  by (simp add: emits_def split: prod.splits)

lemma emit_emits: "emits xs (emit y out) = emits (xs @ [y]) out"
  by (simp add: emits_def emit_def split: prod.splits)

context readable_file
begin

lemma zero_loop_spec:
  "at \<le> length (content h) \<Longrightarrow> int (length (content h)) \<le> MAX_SAFE_INTEGER \<Longrightarrow>
   0 < chunk \<or> at = length (content h) \<Longrightarrow>
   \<exists>h'. zero_loop ops chunk at (length (content h)) h = (h', Inr (list_all (\<lambda>b. b = 0) (drop at (content h))))
     \<and> content h' = content h"
proof (induction "length (content h) - at" arbitrary: at h rule: less_induct)
  case less
  let ?c = "content h"
  show ?case
  proof (cases "at < length ?c")
    case False
    then show ?thesis using less.prems by (simp add: zero_loop.simps)
  next
    case True
    then have chunk: "0 < chunk" using less.prems(3) by simp
    let ?n = "min chunk (length ?c - at)"
    obtain h1 where r: "read_fully ops ?n (int at) h = (h1, Inr (take ?n (drop at ?c)))" "content h1 = ?c"
      by (rule read_fully_returns [of "int at" ?n h]) (use True less.prems(2) in auto)
    have "drop ?n (drop at ?c) = drop (at + chunk) ?c"
      by (cases "chunk \<le> length ?c - at") (simp_all add: add.commute)
    then have split: "drop at ?c = take ?n (drop at ?c) @ drop (at + chunk) ?c"
      by (metis append_take_drop_id)
    show ?thesis
    proof (cases "list_all (\<lambda>b. b = 0) (take ?n (drop at ?c))")
      case False
      then have "\<not> list_all (\<lambda>b. b = 0) (drop at ?c)" by (subst split) simp
      then show ?thesis using r True chunk False by (subst zero_loop.simps) (simp add: Let_def)
    next
      case all: True
      have e: "zero_loop ops chunk at (length ?c) h = zero_loop ops chunk (at + chunk) (length ?c) h1"
        using r True chunk all by (subst zero_loop.simps) (simp add: Let_def)
      have d: "list_all (\<lambda>b. b = 0) (drop at ?c) \<longleftrightarrow> list_all (\<lambda>b. b = 0) (drop (at + chunk) ?c)"
        using all by (subst split) simp
      show ?thesis
      proof (cases "at + chunk \<le> length ?c")
        case True
        then show ?thesis using less.hyps [of h1 "at + chunk"] r e d chunk less.prems \<open>at < length ?c\<close> by auto
      next
        case False
        then have "zero_loop ops chunk (at + chunk) (length ?c) h1 = (h1, Inr True)"
          by (subst zero_loop.simps) simp
        then show ?thesis using e d r False by simp
      qed
    qed
  qed
qed

lemma is_zero_filled_spec:
  assumes "at \<le> length (content h)" "int (length (content h)) \<le> MAX_SAFE_INTEGER"
  obtains h' where "is_zero_filled ops at (length (content h)) h = (h', Inr (list_all (\<lambda>b. b = 0) (drop at (content h))))"
    "content h' = content h"
  using zero_loop_spec [OF assms, of "min 65536 (length (content h) - at)"] assms that
  by (fastforce simp: is_zero_filled_def)

text \<open>One whole frame at the offset.\<close>

lemma wal_step_frame:
  assumes at: "drop offset (content h) = frame_bytes magic p @ rest" "offset \<le> length (content h)"
    and small: "length p \<le> MAX_WAL_FRAME_BYTES" "int (length (content h)) \<le> MAX_SAFE_INTEGER"
    and magic: "magic = FRAME_MAGIC \<or> magic = CONTINUATION_MAGIC"
  obtains h' where "content h' = content h"
    "wal_step ops ack zeroed (length (content h)) offset ps pst h
      = (h', Frame magic p (offset + FRAME_HEADER_BYTES + length p))"
proof -
  let ?c = "content h"
  have len: "length ?c = offset + (FRAME_HEADER_BYTES + length p + length rest)"
    using arg_cong [OF at(1), of length] at(2) by simp
  obtain h1 where r1: "read_fully ops FRAME_HEADER_BYTES (int offset) h = (h1, Inr (header_bytes magic p))"
    "content h1 = ?c"
    by (rule read_fully_returns [of "int offset" FRAME_HEADER_BYTES h])
      (use len small at in \<open>auto simp: frame_header\<close>)
  have d: "drop (offset + FRAME_HEADER_BYTES) ?c = p @ rest"
    using at(1) by (metis add.commute append_assoc append_eq_conv_conj drop_drop frame_header length_header)
  obtain h2 where r2: "read_fully ops (length p) (int (offset + FRAME_HEADER_BYTES)) h1 = (h2, Inr p)"
    "content h2 = ?c"
    by (rule read_fully_returns [of "int (offset + FRAME_HEADER_BYTES)" "length p" h1])
      (use len small r1 d in \<open>auto simp: nat_int_add\<close>)
  have safe: "is_safe_integer (int (offset + FRAME_HEADER_BYTES + length p))"
    "\<not> length ?c < offset + FRAME_HEADER_BYTES + length p"
    using len small by (simp_all add: is_safe_integer_def MAX_SAFE_INTEGER_def)
  have m: "\<not> (magic \<noteq> FRAME_MAGIC \<and> magic \<noteq> CONTINUATION_MAGIC)" "\<not> MAX_WAL_FRAME_BYTES < length p"
    using magic small by auto
  have "wal_step ops ack zeroed (length ?c) offset ps pst h = (h2, Frame magic p (offset + FRAME_HEADER_BYTES + length p))"
    unfolding wal_step_def r1(1) prod.case sum.case Let_def header_fields [OF small(1)]
    by (simp only: m safe if_False if_True r2(1) prod.case sum.case simp_thms)
  then show ?thesis by (rule that [OF r2(2)])
qed

text \<open>The start of a frame that is not all there.\<close>

lemma wal_step_torn:
  assumes at: "drop offset (content h) = take n (frame_bytes magic p)" "offset \<le> length (content h)"
    and n: "FRAME_HEADER_BYTES \<le> n" "n < length (frame_bytes magic p)"
    and small: "length p \<le> MAX_WAL_FRAME_BYTES" "int (length (content h)) \<le> MAX_SAFE_INTEGER"
    and magic: "magic = FRAME_MAGIC \<or> magic = CONTINUATION_MAGIC"
    and ack: "ack \<le> int offset"
  obtains h' where "content h' = content h"
    "wal_step ops ack zeroed (length (content h)) offset ps pst h = (h', Stop (end_of_log ack ps pst))"
proof -
  let ?c = "content h"
  have len: "length ?c = offset + n" using arg_cong [OF at(1), of length] at(2) n by simp
  obtain h1 where r1: "read_fully ops FRAME_HEADER_BYTES (int offset) h = (h1, Inr (header_bytes magic p))"
    "content h1 = ?c"
    by (rule read_fully_returns [of "int offset" FRAME_HEADER_BYTES h])
      (use len small at n in \<open>auto simp: frame_header min_absorb1\<close>)
  have short: "length ?c < offset + FRAME_HEADER_BYTES + length p" using len n by simp
  have m: "\<not> (magic \<noteq> FRAME_MAGIC \<and> magic \<noteq> CONTINUATION_MAGIC)" "\<not> MAX_WAL_FRAME_BYTES < length p" "\<not> int offset < ack"
    using magic small ack by auto
  have "wal_step ops ack zeroed (length ?c) offset ps pst h = (h1, Stop (end_of_log ack ps pst))"
    unfolding wal_step_def r1(1) prod.case sum.case Let_def header_fields [OF small(1)]
    by (simp only: m short if_False if_True simp_thms)
  then show ?thesis by (rule that [OF r1(2)])
qed

text \<open>A zero-filled remainder.\<close>

lemma wal_step_zeros:
  assumes at: "drop offset (content h) = replicate n 0" "offset \<le> length (content h)" "FRAME_HEADER_BYTES \<le> n"
    and small: "int (length (content h)) \<le> MAX_SAFE_INTEGER" and ack: "ack \<le> int offset"
  obtains h' where "content h' = content h"
    "wal_step ops ack zeroed (length (content h)) offset ps pst h = (h', Stop (end_of_log ack ps pst))"
proof -
  let ?c = "content h"
  have len: "length ?c = offset + n" using arg_cong [OF at(1), of length] at(2) by simp
  obtain h1 where r1: "read_fully ops FRAME_HEADER_BYTES (int offset) h = (h1, Inr (replicate FRAME_HEADER_BYTES 0))"
    "content h1 = ?c"
    by (rule read_fully_returns [of "int offset" FRAME_HEADER_BYTES h])
      (use len small at in \<open>auto simp: min_absorb1\<close>)
  obtain h2 where r2: "is_zero_filled ops offset (length ?c) h1 = (h2, Inr True)" "content h2 = ?c"
    by (rule is_zero_filled_spec [of offset h1]) (use r1 at small in \<open>auto simp: list_all_iff\<close>)
  show ?thesis
  proof (cases zeroed)
    case True
    then show ?thesis
      by (intro that [OF r1(2)]) (simp add: wal_step_def r1 get32_zeros magics_differ(2,3) [symmetric] ack list_all_iff)
  next
    case False
    then show ?thesis
      by (intro that [OF r2(2)]) (simp add: wal_step_def r1 r2 get32_zeros magics_differ(2,3) [symmetric] ack)
  qed
qed

text \<open>Whole frames, entries and logs: the loop yields them and goes on behind them.\<close>

lemma loop_enters: "drop offset (content h) = frame_bytes m p @ rest \<Longrightarrow> offset \<le> length (content h) \<Longrightarrow>
    offset + FRAME_HEADER_BYTES \<le> length (content h)"
proof -
  assume a: "drop offset (content h) = frame_bytes m p @ rest" "offset \<le> length (content h)"
  show ?thesis using arg_cong [OF a(1), of length] a(2) by simp
qed

lemma drop_past: "drop offset c = xs @ rest \<Longrightarrow> offset \<le> length c \<Longrightarrow>
    drop (offset + length xs) c = rest \<and> offset + length xs \<le> length c"
  using arg_cong [of "drop offset c" "xs @ rest" length]
  by (metis add.commute append_eq_conv_conj drop_drop le_add_diff_inverse length_append length_drop
      nat_add_left_cancel_le le_add1)

lemma loop_continuations:
  "drop offset (content h) = continuations ps @ rest \<Longrightarrow> offset \<le> length (content h) \<Longrightarrow>
   int (length (content h)) \<le> MAX_SAFE_INTEGER \<Longrightarrow> \<forall>p \<in> set ps. length p \<le> MAX_WAL_FRAME_BYTES \<Longrightarrow>
   \<exists>h'. content h' = content h \<and> wal_loop ops ack zeroed (length (content h)) offset qs pst h
     = emits (replicate (length ps) None) (wal_loop ops ack zeroed (length (content h))
         (offset + length (continuations ps)) (qs @ ps) (if qs = [] \<and> ps \<noteq> [] then offset else pst) h')"
proof (induction ps arbitrary: offset h qs pst)
  case Nil
  then show ?case by (intro exI [of _ h]) (simp add: continuations_def)
next
  case (Cons p ps)
  let ?c = "content h"
  have at: "drop offset ?c = frame_bytes CONTINUATION_MAGIC p @ (continuations ps @ rest)"
    using Cons.prems(1) by (simp add: continuations_def)
  have p: "length p \<le> MAX_WAL_FRAME_BYTES" using Cons.prems(4) by simp
  let ?fin = "offset + FRAME_HEADER_BYTES + length p"
  obtain h1 where h1: "content h1 = ?c" "wal_step ops ack zeroed (length ?c) offset qs pst h
      = (h1, Frame CONTINUATION_MAGIC p ?fin)"
    by (rule wal_step_frame [OF at Cons.prems(2) p Cons.prems(3)]) simp_all
  have step: "wal_loop ops ack zeroed (length ?c) offset qs pst h
    = emit None (wal_loop ops ack zeroed (length ?c) ?fin (qs @ [p]) (if qs = [] then offset else pst) h1)"
    using loop_enters [OF at Cons.prems(2)] h1(2) by (subst wal_loop.simps) simp
  have past: "drop ?fin (content h1) = continuations ps @ rest" "?fin \<le> length (content h1)"
    using drop_past [OF at Cons.prems(2)] h1(1) by (simp_all add: add.assoc)
  obtain h2 where h2: "content h2 = ?c" "wal_loop ops ack zeroed (length ?c) ?fin (qs @ [p]) (if qs = [] then offset else pst) h1
     = emits (replicate (length ps) None) (wal_loop ops ack zeroed (length ?c)
         (?fin + length (continuations ps)) (qs @ [p] @ ps) (if qs = [] then offset else pst) h2)"
    using Cons.IH [OF past, of "qs @ [p]" "if qs = [] then offset else pst"] Cons.prems(3,4) h1(1) by auto
  have len: "offset + length (continuations (p # ps)) = ?fin + length (continuations ps)"
    by (simp add: continuations_def)
  show ?case unfolding step h2(2) len
    using h2(1) by (intro exI [of _ h2]) (simp add: emit_emits)
qed

lemma loop_entry:
  assumes at: "drop offset (content h) = entry_bytes e @ rest" "offset \<le> length (content h)"
    and small: "entry_ok e" "int (length (content h)) \<le> MAX_SAFE_INTEGER"
  shows "\<exists>h' pst'. content h' = content h \<and> wal_loop ops ack zeroed (length (content h)) offset [] pst h
    = emits (replicate (length (fst e)) None @ [Some (entry_payload e, offset + length (entry_bytes e))])
        (wal_loop ops ack zeroed (length (content h)) (offset + length (entry_bytes e)) [] pst' h')"
proof -
  let ?c = "content h"
  obtain ps q where e: "e = (ps, q)" by (cases e)
  have at1: "drop offset ?c = continuations ps @ (frame_bytes FRAME_MAGIC q @ rest)"
    using at(1) by (simp add: e entry_bytes_def)
  let ?pst = "if ps \<noteq> [] then offset else pst" and ?at = "offset + length (continuations ps)"
  obtain h1 where h1: "content h1 = ?c" "wal_loop ops ack zeroed (length ?c) offset [] pst h
     = emits (replicate (length ps) None) (wal_loop ops ack zeroed (length ?c) ?at ps ?pst h1)"
    using loop_continuations [OF at1 at(2) small(2), of ack zeroed "[]" pst] small(1) by (auto simp: entry_ok_def e)
  have past: "drop ?at (content h1) = frame_bytes FRAME_MAGIC q @ rest" "?at \<le> length (content h1)"
    using drop_past [OF at1 at(2)] h1(1) by simp_all
  let ?fin = "?at + FRAME_HEADER_BYTES + length q"
  have q: "length q \<le> MAX_WAL_FRAME_BYTES" using small(1) by (simp add: entry_ok_def e)
  obtain h2 where h2: "content h2 = ?c" "wal_step ops ack zeroed (length ?c) ?at ps ?pst h1 = (h2, Frame FRAME_MAGIC q ?fin)"
    by (rule wal_step_frame [OF past q, where ack = ack and zeroed = zeroed and ps = ps and pst = ?pst])
      (use small h1 in simp_all)
  have "wal_loop ops ack zeroed (length ?c) ?at ps ?pst h1
    = emit (Some (concat ps @ q, ?fin)) (wal_loop ops ack zeroed (length ?c) ?fin [] ?pst h2)"
    using loop_enters [OF past] h1(1) h2(2) magics_differ(1)
    by (subst wal_loop.simps) (simp add: join_pieces_def)
  moreover have "?fin = offset + length (entry_bytes e)" by (simp add: e entry_bytes_def)
  ultimately have "wal_loop ops ack zeroed (length ?c) offset [] pst h
    = emits (replicate (length ps) None @ [Some (entry_payload e, offset + length (entry_bytes e))])
        (wal_loop ops ack zeroed (length ?c) (offset + length (entry_bytes e)) [] ?pst h2)"
    by (simp add: h1(2) e entry_payload_def emit_emits)
  then show ?thesis using h2(1) e by (intro exI [of _ h2] exI [of _ ?pst]) simp
qed

lemma loop_log:
  "drop offset (content h) = log_bytes es @ rest \<Longrightarrow> offset \<le> length (content h) \<Longrightarrow>
   \<forall>e \<in> set es. entry_ok e \<Longrightarrow> int (length (content h)) \<le> MAX_SAFE_INTEGER \<Longrightarrow>
   \<exists>h' pst' items. content h' = content h \<and> frames_of items = log_frames offset es
     \<and> wal_loop ops ack zeroed (length (content h)) offset [] pst h
       = emits items (wal_loop ops ack zeroed (length (content h)) (offset + length (log_bytes es)) [] pst' h')"
proof (induction es arbitrary: offset h pst)
  case Nil
  then show ?case by (intro exI [of _ h] exI [of _ pst] exI [of _ "[]"]) (simp add: log_bytes_def frames_of_def)
next
  case (Cons e es)
  have at: "drop offset (content h) = entry_bytes e @ (log_bytes es @ rest)"
    using Cons.prems(1) by (simp add: log_bytes_def)
  have e: "entry_ok e" using Cons.prems(3) by simp
  obtain h1 pst1 where h1: "content h1 = content h" "wal_loop ops ack zeroed (length (content h)) offset [] pst h
    = emits (replicate (length (fst e)) None @ [Some (entry_payload e, offset + length (entry_bytes e))])
        (wal_loop ops ack zeroed (length (content h)) (offset + length (entry_bytes e)) [] pst1 h1)"
    using loop_entry [OF at Cons.prems(2) e Cons.prems(4)] by blast
  obtain h2 pst2 items where h2: "content h2 = content h1" "frames_of items = log_frames (offset + length (entry_bytes e)) es"
    "wal_loop ops ack zeroed (length (content h1)) (offset + length (entry_bytes e)) [] pst1 h1
       = emits items (wal_loop ops ack zeroed (length (content h1)) (offset + length (entry_bytes e) + length (log_bytes es)) [] pst2 h2)"
    using Cons.IH [of "offset + length (entry_bytes e)" h1 pst1] drop_past [OF at Cons.prems(2)] h1(1) Cons.prems(3,4) by auto
  let ?items = "replicate (length (fst e)) None @ [Some (entry_payload e, offset + length (entry_bytes e))] @ items"
  have "frames_of ?items = log_frames offset (e # es)" by (simp add: h2(2))
  then show ?case using h1 h2
    by (intro exI [of _ h2] exI [of _ pst2] exI [of _ ?items]) (simp add: emits_emits log_bytes_def add.assoc)
qed

text \<open>Tails that were never acknowledged.\<close>

lemma loop_ends: "length (content h) < offset + FRAME_HEADER_BYTES \<Longrightarrow>
    wal_loop ops ack zeroed (length (content h)) offset ps pst h = (h, [], end_of_log ack ps pst)"
  by (subst wal_loop.simps) simp

lemma loop_torn_frame:
  assumes at: "drop offset (content h) = take n (frame_bytes magic p)" "offset \<le> length (content h)"
    and n: "n < length (frame_bytes magic p)"
    and small: "length p \<le> MAX_WAL_FRAME_BYTES" "int (length (content h)) \<le> MAX_SAFE_INTEGER"
    and magic: "magic = FRAME_MAGIC \<or> magic = CONTINUATION_MAGIC"
    and ack: "ack \<le> int offset" "qs = [] \<or> ack \<le> int pst"
  shows "\<exists>h'. wal_loop ops ack zeroed (length (content h)) offset qs pst h = (h', [], Inr ()) \<and> content h' = content h"
proof -
  have e: "end_of_log ack qs pst = Inr ()" using ack(2) by (auto simp: end_of_log_def)
  have len: "length (content h) = offset + n" using arg_cong [OF at(1), of length] at(2) n by simp
  show ?thesis
  proof (cases "FRAME_HEADER_BYTES \<le> n")
    case False
    then show ?thesis using loop_ends [of h offset] len e by auto
  next
    case True
    obtain h1 where "content h1 = content h"
      "wal_step ops ack zeroed (length (content h)) offset qs pst h = (h1, Stop (end_of_log ack qs pst))"
      by (rule wal_step_torn [OF at True n small magic ack(1)])
    then show ?thesis using True len e by (intro exI [of _ h1]) (subst wal_loop.simps, simp)
  qed
qed

lemma loop_torn_entry:
  "drop offset (content h) = take n (entry_bytes (ps, q)) \<Longrightarrow> offset \<le> length (content h) \<Longrightarrow>
   n < length (entry_bytes (ps, q)) \<Longrightarrow> entry_ok (ps, q) \<Longrightarrow> int (length (content h)) \<le> MAX_SAFE_INTEGER \<Longrightarrow>
   ack \<le> int offset \<Longrightarrow> qs = [] \<or> ack \<le> int pst \<Longrightarrow>
   \<exists>h' items. wal_loop ops ack zeroed (length (content h)) offset qs pst h = (h', items, Inr ())
     \<and> content h' = content h \<and> frames_of items = []"
proof (induction ps arbitrary: offset n h qs pst)
  case Nil
  then have "\<exists>h'. wal_loop ops ack zeroed (length (content h)) offset qs pst h = (h', [], Inr ()) \<and> content h' = content h"
    by (intro loop_torn_frame [of offset h n FRAME_MAGIC q]) (simp_all add: entry_bytes_def continuations_def entry_ok_def)
  then show ?case by (auto simp: frames_of_def)
next
  case (Cons p ps)
  let ?f = "frame_bytes CONTINUATION_MAGIC p"
  have eb: "entry_bytes (p # ps, q) = ?f @ entry_bytes (ps, q)" by (simp add: entry_bytes_def continuations_def)
  have p: "length p \<le> MAX_WAL_FRAME_BYTES" and ok: "entry_ok (ps, q)" using Cons.prems(4) by (simp_all add: entry_ok_def)
  show ?case
  proof (cases "n < length ?f")
    case True
    then have "\<exists>h'. wal_loop ops ack zeroed (length (content h)) offset qs pst h = (h', [], Inr ()) \<and> content h' = content h"
      using Cons.prems p by (intro loop_torn_frame [of offset h n CONTINUATION_MAGIC p]) (simp_all add: eb)
    then show ?thesis by (auto simp: frames_of_def)
  next
    case False
    let ?fin = "offset + FRAME_HEADER_BYTES + length p" and ?pst = "if qs = [] then offset else pst"
    have at: "drop offset (content h) = ?f @ take (n - length ?f) (entry_bytes (ps, q))"
      using Cons.prems(1) False by (simp add: eb)
    obtain h1 where h1: "content h1 = content h" "wal_step ops ack zeroed (length (content h)) offset qs pst h
        = (h1, Frame CONTINUATION_MAGIC p ?fin)"
      by (rule wal_step_frame [OF at Cons.prems(2) p Cons.prems(5)]) simp_all
    have step: "wal_loop ops ack zeroed (length (content h)) offset qs pst h
      = emit None (wal_loop ops ack zeroed (length (content h)) ?fin (qs @ [p]) ?pst h1)"
      using loop_enters [OF at Cons.prems(2)] h1(2) by (subst wal_loop.simps) simp
    have past: "drop ?fin (content h1) = take (n - length ?f) (entry_bytes (ps, q))" "?fin \<le> length (content h1)"
      using drop_past [OF at Cons.prems(2)] h1(1) by (simp_all add: add.assoc)
    have "n - length ?f < length (entry_bytes (ps, q))" using Cons.prems(3) False by (simp add: eb)
    moreover have "ack \<le> int ?pst" using Cons.prems(6,7) by auto
    moreover have "ack \<le> int ?fin" using Cons.prems(6) by simp
    ultimately have "\<exists>h' items. wal_loop ops ack zeroed (length (content h1)) ?fin (qs @ [p]) ?pst h1 = (h', items, Inr ())
       \<and> content h' = content h1 \<and> frames_of items = []"
      using Cons.IH [OF past _ ok, of "qs @ [p]" ?pst] Cons.prems(5) h1(1) by simp
    then obtain h2 items where "wal_loop ops ack zeroed (length (content h)) ?fin (qs @ [p]) ?pst h1 = (h2, items, Inr ())"
      "content h2 = content h" "frames_of items = []" unfolding h1(1) by blast
    then show ?thesis by (intro exI [of _ h2] exI [of _ "None # items"]) (simp add: step emit_def frames_of_def)
  qed
qed

lemma loop_zeros:
  assumes at: "drop offset (content h) = replicate n 0" "offset \<le> length (content h)"
    and small: "int (length (content h)) \<le> MAX_SAFE_INTEGER" and ack: "ack \<le> int offset"
  shows "\<exists>h'. wal_loop ops ack zeroed (length (content h)) offset [] pst h = (h', [], Inr ()) \<and> content h' = content h"
proof -
  have len: "length (content h) = offset + n" using arg_cong [OF at(1), of length] at(2) by simp
  show ?thesis
  proof (cases "FRAME_HEADER_BYTES \<le> n")
    case False
    then show ?thesis using loop_ends [of h offset] len by (auto simp: end_of_log_def)
  next
    case True
    obtain h1 where "content h1 = content h"
      "wal_step ops ack zeroed (length (content h)) offset [] pst h = (h1, Stop (end_of_log ack [] pst))"
      by (rule wal_step_zeros [OF at True small ack])
    then show ?thesis using True len by (intro exI [of _ h1]) (subst wal_loop.simps, simp add: end_of_log_def)
  qed
qed

end

subsection \<open>Appending\<close>

text \<open>The pieces \<open>appendEncodedSliced\<close> cuts a payload into.\<close>

function cut_pieces :: "byte list \<Rightarrow> nat \<Rightarrow> nat \<Rightarrow> byte list list" where
  "cut_pieces bytes at limit =
     (if at < limit then slice_of bytes at (min limit (at + WAL_CONTINUATION_PIECE_BYTES))
        # cut_pieces bytes (at + WAL_CONTINUATION_PIECE_BYTES) limit
      else [])"
  by pat_completeness auto
termination
  by (relation "measure (\<lambda>(bytes, at, limit). limit - at)") (auto simp: WAL_CONTINUATION_PIECE_BYTES_def)

declare cut_pieces.simps [simp del]

definition wal_entry :: "byte list \<Rightarrow> entry" where
  "wal_entry bytes = (let limit = length bytes - WAL_CONTINUATION_PIECE_BYTES in
     (cut_pieces bytes 0 limit, drop limit bytes))"

lemma cut_pieces_join: "at \<le> limit \<Longrightarrow> concat (cut_pieces bytes at limit) = slice_of bytes at limit"
proof (induction bytes at limit rule: cut_pieces.induct)
  case (1 bytes at limit)
  let ?next = "at + WAL_CONTINUATION_PIECE_BYTES"
  show ?case
  proof (cases "at < limit")
    case False
    then show ?thesis using 1(2) by (subst cut_pieces.simps) (simp add: slice_of_def)
  next
    case True
    have "concat (cut_pieces bytes ?next limit) = (if ?next \<le> limit then slice_of bytes ?next limit else [])"
      using 1(1) True by (cases "?next \<le> limit") (auto simp: cut_pieces.simps [of bytes ?next])
    moreover have "slice_of bytes at (min limit ?next) @ (if ?next \<le> limit then slice_of bytes ?next limit else [])
        = slice_of bytes at limit"
    proof (cases "?next \<le> limit")
      case le: True
      have "limit - at = (?next - at) + (limit - ?next)" using le by simp
      then have "take (limit - at) (drop at bytes)
          = take (?next - at) (drop at bytes) @ take (limit - ?next) (drop (?next - at) (drop at bytes))"
        by (simp only: take_add)
      then show ?thesis using le by (simp add: slice_of_def min_absorb2 add.commute)
    qed (simp add: slice_of_def min_absorb1)
    ultimately show ?thesis using True by (subst cut_pieces.simps) simp
  qed
qed

lemma wal_entry_payload: "entry_payload (wal_entry bytes) = bytes"
  by (simp add: wal_entry_def entry_payload_def Let_def cut_pieces_join slice_of_def)

lemma cut_pieces_bound: "p \<in> set (cut_pieces bytes at limit) \<Longrightarrow> length p \<le> WAL_CONTINUATION_PIECE_BYTES"
proof (induction bytes at limit rule: cut_pieces.induct)
  case (1 bytes at limit)
  then show ?case by (cases "at < limit") (auto simp: cut_pieces.simps [of bytes at] min_def)
qed

lemma wal_entry_ok: "entry_ok (wal_entry bytes)"
proof -
  have le: "WAL_CONTINUATION_PIECE_BYTES \<le> MAX_WAL_FRAME_BYTES"
    by (simp add: WAL_CONTINUATION_PIECE_BYTES_def MAX_WAL_FRAME_BYTES_def)
  have "length p \<le> MAX_WAL_FRAME_BYTES" if "p \<in> set (cut_pieces bytes 0 limit)" for p limit
    using cut_pieces_bound [OF that] le by simp
  moreover have "length (drop (length bytes - WAL_CONTINUATION_PIECE_BYTES) bytes) \<le> MAX_WAL_FRAME_BYTES"
    using le by simp
  ultimately show ?thesis by (simp add: entry_ok_def wal_entry_def Let_def)
qed

context sync_file
begin

text \<open>The writer is at the end of the file.\<close>

definition at_end :: "'h wal_writer \<Rightarrow> bool" where
  "at_end w \<longleftrightarrow> wal_offset w = int (length (content (wal_handle w)))"

lemma append_frame_content:
  assumes "append_frame ops magic p flush w = (w', r)" "at_end w"
  shows "(r = Inr () \<and> content (wal_handle w') = content (wal_handle w) @ frame_bytes magic p \<and> at_end w')
    \<or> (\<exists>e n. r = Inl e \<and> n \<le> length (frame_bytes magic p)
        \<and> content (wal_handle w') = content (wal_handle w) @ take n (frame_bytes magic p))"
proof -
  let ?c = "content (wal_handle w)" and ?f = "frame_bytes magic p"
  consider (refused) e where "append_frame ops magic p flush w = (w, Inl e)"
    | (go) "\<not> MAX_WAL_FRAME_BYTES < length p" "\<not> MAX_SAFE_INTEGER - int (length ?f) < wal_offset w"
    by (cases "MAX_WAL_FRAME_BYTES < length p"; cases "MAX_SAFE_INTEGER - int (length ?f) < wal_offset w")
      (auto simp: append_frame_def Let_def)
  then show ?thesis
  proof cases
    case go
    let ?tail = "\<lambda>_. if flush then flush_file ops else retE ()"
    obtain h1 r1 where w1: "write_fully ops ?f (wal_offset w) (wal_handle w) = (h1, r1)"
      by (cases "write_fully ops ?f (wal_offset w) (wal_handle w)")
    obtain n where n: "n \<le> length ?f" "content h1 = overwrite ?c (nat (wal_offset w)) (take n ?f)"
      "r1 = Inr () \<Longrightarrow> n = length ?f"
      using write_fully_content [OF w1] assms(2) by (auto simp: at_end_def)
    have c1: "content h1 = ?c @ take n ?f" using n(2) assms(2) by (simp add: at_end_def overwrite_at_end)
    obtain h2 r2 where w2: "bindE (write_fully ops ?f (wal_offset w)) ?tail (wal_handle w) = (h2, r2)"
      by (cases "bindE (write_fully ops ?f (wal_offset w)) ?tail (wal_handle w)")
    have c2: "content h2 = ?c @ take n ?f" "r2 = Inr () \<Longrightarrow> r1 = Inr ()"
      using w2 w1 c1 flush_law [of h1 h2 r2] by (auto simp: bindE_def split: sum.splits if_splits)
    show ?thesis
    proof (cases r2)
      case (Inr u)
      then have "append_frame ops magic p flush w = (w\<lparr>wal_handle := h2, wal_offset := wal_offset w + int (length ?f)\<rparr>, Inr ())"
        using go w2 by (simp add: append_frame_def Let_def)
      then show ?thesis using assms c2 n Inr by (auto simp: at_end_def)
    next
      case (Inl e)
      obtain h3 r3 where t: "truncate_to ops (wal_offset w) h2 = (h3, r3)" by (cases "truncate_to ops (wal_offset w) h2")
      have a: "append_frame ops magic p flush w = (w\<lparr>wal_handle := h3\<rparr>, Inl e)"
        using go w2 Inl t by (simp add: append_frame_def Let_def)
      have "content h3 = (if r3 = Inr () then ?c else ?c @ take n ?f)"
        using truncate_law [OF _ t] assms(2) c2(1) by (simp add: at_end_def resize_append)
      then have "content h3 = ?c @ take (if r3 = Inr () then 0 else n) ?f" by simp
      then show ?thesis using a assms(1) n(1) by (intro disjI2 exI [of _ e] exI [of _ "if r3 = Inr () then 0 else n"]) simp
    qed
  next
    case refused
    then show ?thesis using assms(1) by (intro disjI2 exI [of _ e] exI [of _ 0]) simp
  qed
qed

lemma continuation_loop_content:
  "continuation_loop ops bytes flush pause at limit w = (w', r) \<Longrightarrow> at_end w \<Longrightarrow>
   (r = Inr () \<and> content (wal_handle w') = content (wal_handle w) @ continuations (cut_pieces bytes at limit) \<and> at_end w')
    \<or> (\<exists>e n. r = Inl e \<and> content (wal_handle w')
          = content (wal_handle w) @ take n (continuations (cut_pieces bytes at limit)))"
proof (induction "limit - at" arbitrary: at w rule: less_induct)
  case less
  show ?case
  proof (cases "at < limit")
    case False
    then show ?thesis using less.prems
      by (simp add: continuation_loop.simps [of ops bytes flush pause at] cut_pieces.simps [of bytes at] continuations_def)
  next
    case True
    let ?p = "slice_of bytes at (min limit (at + WAL_CONTINUATION_PIECE_BYTES))"
    let ?rest = "continuations (cut_pieces bytes (at + WAL_CONTINUATION_PIECE_BYTES) limit)"
    obtain w1 r1 where a: "append_continuation ops ?p flush w = (w1, r1)" by (cases "append_continuation ops ?p flush w")
    have cs: "continuations (cut_pieces bytes at limit) = frame_bytes CONTINUATION_MAGIC ?p @ ?rest"
      using True by (simp add: cut_pieces.simps [of bytes at] continuations_def)
    from append_frame_content [OF a [unfolded append_continuation_def] less.prems(2)]
    show ?thesis
    proof (elim disjE exE conjE)
      assume ok: "r1 = Inr ()" "content (wal_handle w1) = content (wal_handle w) @ frame_bytes CONTINUATION_MAGIC ?p" "at_end w1"
      show ?thesis
      proof (cases "pause at")
        case (Some x)
        then have "(w', r) = (w1, Inl x)" using less.prems(1) True a ok by (simp add: continuation_loop.simps [of ops bytes flush pause at])
        then show ?thesis using ok(2) unfolding cs
          by (intro disjI2 exI [of _ x] exI [of _ "length (frame_bytes CONTINUATION_MAGIC ?p)"]) simp
      next
        case None
        then have "continuation_loop ops bytes flush pause (at + WAL_CONTINUATION_PIECE_BYTES) limit w1 = (w', r)"
          using less.prems(1) True a ok by (simp add: continuation_loop.simps [of ops bytes flush pause at])
        from less.hyps [OF _ this ok(3)] True
        have "(r = Inr () \<and> content (wal_handle w') = content (wal_handle w1) @ ?rest \<and> at_end w')
          \<or> (\<exists>e n. r = Inl e \<and> content (wal_handle w') = content (wal_handle w1) @ take n ?rest)"
          by (simp add: WAL_CONTINUATION_PIECE_BYTES_def)
        then show ?thesis
        proof (elim disjE exE conjE)
          fix e n assume f: "r = Inl e" "content (wal_handle w') = content (wal_handle w1) @ take n ?rest"
          then show ?thesis unfolding cs
            by (intro disjI2 exI [of _ e] exI [of _ "length (frame_bytes CONTINUATION_MAGIC ?p) + n"])
              (simp add: ok(2))
        qed (simp add: cs ok(2))
      qed
    next
      fix e n assume f: "r1 = Inl e" "n \<le> length (frame_bytes CONTINUATION_MAGIC ?p)"
        "content (wal_handle w1) = content (wal_handle w) @ take n (frame_bytes CONTINUATION_MAGIC ?p)"
      have "(w', r) = (w1, Inl e)" using less.prems(1) True a f(1) by (simp add: continuation_loop.simps [of ops bytes flush pause at])
      then show ?thesis using f unfolding cs by (intro disjI2 exI [of _ e] exI [of _ n]) simp
    qed
  qed
qed

lemma rewind_content:
  assumes "rewind ops (int (length c)) w = (w', r)" "content (wal_handle w) = c @ xs"
  shows "content (wal_handle w') = c \<or> content (wal_handle w') = c @ xs"
proof (cases "is_safe_integer (int (length c)) \<and> int (length c) \<le> wal_offset w")
  case False
  then show ?thesis using assms by (auto simp: rewind_def)
next
  case True
  obtain h1 r1 where t: "truncate_to ops (int (length c)) (wal_handle w) = (h1, r1)"
    by (cases "truncate_to ops (int (length c)) (wal_handle w)")
  have c1: "content h1 = (if r1 = Inr () then c else c @ xs)"
    using truncate_law [OF _ t] assms(2) by (simp add: resize_append)
  show ?thesis
  proof (cases r1)
    case (Inl e)
    then show ?thesis using assms(1) True t c1 by (auto simp: rewind_def)
  next
    case (Inr u)
    obtain h2 r2 where "flush_file ops h1 = (h2, r2)" by (cases "flush_file ops h1")
    then show ?thesis using assms(1) True t c1 Inr flush_law [of h1 h2 r2] by (auto simp: rewind_def)
  qed
qed

lemma append_sliced_content:
  assumes "append_encoded_sliced ops bytes flush pause w = (w', r)" "at_end w"
  shows "(r = Inr () \<and> content (wal_handle w') = content (wal_handle w) @ entry_bytes (wal_entry bytes) \<and> at_end w')
    \<or> (\<exists>e n. r = Inl e \<and> content (wal_handle w') = content (wal_handle w) @ take n (entry_bytes (wal_entry bytes)))"
proof -
  let ?c = "content (wal_handle w)"
  let ?limit = "length bytes - WAL_CONTINUATION_PIECE_BYTES"
  let ?cs = "continuations (cut_pieces bytes 0 ?limit)" and ?f = "frame_bytes FRAME_MAGIC (drop ?limit bytes)"
  have eb: "entry_bytes (wal_entry bytes) = ?cs @ ?f" by (simp add: entry_bytes_def wal_entry_def Let_def)
  let ?m = "bindE (continuation_loop ops bytes flush pause 0 ?limit) (\<lambda>_. append_encoded ops (drop ?limit bytes) flush)"
  obtain w1 r1 where l: "continuation_loop ops bytes flush pause 0 ?limit w = (w1, r1)"
    by (cases "continuation_loop ops bytes flush pause 0 ?limit w")
  obtain w2 r2 where m: "?m w = (w2, r2)" by (cases "?m w")
  have M: "(r2 = Inr () \<and> content (wal_handle w2) = ?c @ ?cs @ ?f \<and> at_end w2)
    \<or> (\<exists>e n. r2 = Inl e \<and> content (wal_handle w2) = ?c @ take n (?cs @ ?f))"
    using continuation_loop_content [OF l assms(2)]
  proof (elim disjE exE conjE)
    assume ok: "r1 = Inr ()" "content (wal_handle w1) = ?c @ ?cs" "at_end w1"
    then have "append_frame ops FRAME_MAGIC (drop ?limit bytes) flush w1 = (w2, r2)"
      using m l by (simp add: append_encoded_def)
    from append_frame_content [OF this ok(3)] show ?thesis
    proof (elim disjE exE conjE)
      fix e n assume "r2 = Inl e" "content (wal_handle w2) = content (wal_handle w1) @ take n ?f"
      then show ?thesis using ok by (intro disjI2 exI [of _ e] exI [of _ "length ?cs + n"]) simp
    qed (simp add: ok)
  next
    fix e n assume f: "r1 = Inl e" "content (wal_handle w1) = ?c @ take n ?cs"
    then have "w2 = w1" "r2 = Inl e" using m l by simp_all
    moreover have "take n ?cs = take (min n (length ?cs)) (?cs @ ?f)" by (simp add: min_def)
    ultimately show ?thesis using f by (intro disjI2 exI [of _ e] exI [of _ "min n (length ?cs)"]) simp
  qed
  show ?thesis
  proof (cases r2)
    case (Inr u)
    then show ?thesis using M m assms(1) by (auto simp: append_encoded_sliced_def catchE_def Let_def eb)
  next
    case (Inl e)
    then obtain n where n: "content (wal_handle w2) = ?c @ take n (?cs @ ?f)" using M by auto
    obtain w3 r3 where rw: "rewind ops (wal_offset w) w2 = (w3, r3)" by (cases "rewind ops (wal_offset w) w2")
    have "w' = w3" "r = Inl e" using m assms(1) Inl rw by (auto simp: append_encoded_sliced_def catchE_def Let_def)
    moreover have "content (wal_handle w3) = ?c \<or> content (wal_handle w3) = ?c @ take n (?cs @ ?f)"
      using rewind_content [of ?c w2 w3 r3] rw assms(2) n by (simp add: at_end_def)
    then have "\<exists>k. content (wal_handle w3) = ?c @ take k (?cs @ ?f)" by (metis append_Nil2 take_0)
    ultimately show ?thesis by (auto simp: eb)
  qed
qed

end

text \<open>Replay of a log with an unacknowledged tail.\<close>

definition unfinished :: "byte list \<Rightarrow> bool" where
  "unfinished tail \<longleftrightarrow> (\<exists>n. tail = replicate n 0)
     \<or> (\<exists>t n. entry_ok t \<and> n < length (entry_bytes t) \<and> tail = take n (entry_bytes t))"

context readable_file
begin

lemma wal_payloads_start:
  "0 \<le> ack \<Longrightarrow> ack \<le> int (length (content h)) \<Longrightarrow> int (length (content h)) \<le> MAX_SAFE_INTEGER \<Longrightarrow>
   wal_payloads ops ack zeroed h = wal_loop ops ack zeroed (length (content h)) 0 [] 0 h"
  by (simp add: wal_payloads_def size_law is_safe_integer_def MAX_SAFE_INTEGER_def Let_def)

lemma replay_log:
  assumes "content h = log_bytes es @ tail" "unfinished tail" "\<forall>e \<in> set es. entry_ok e"
    "0 \<le> ack" "ack \<le> int (length (log_bytes es))" "int (length (content h)) \<le> MAX_SAFE_INTEGER"
  shows "\<exists>h' items. wal_payloads ops ack zeroed h = (h', items, Inr ()) \<and> frames_of items = log_frames 0 es
    \<and> content h' = content h"
proof -
  have w: "wal_payloads ops ack zeroed h = wal_loop ops ack zeroed (length (content h)) 0 [] 0 h"
    by (rule wal_payloads_start) (use assms in simp_all)
  obtain h1 pst items where L: "content h1 = content h" "frames_of items = log_frames 0 es"
    "wal_loop ops ack zeroed (length (content h)) 0 [] 0 h
       = emits items (wal_loop ops ack zeroed (length (content h)) (length (log_bytes es)) [] pst h1)"
    using loop_log [of 0 h es tail ack zeroed 0] assms by auto
  have at: "drop (length (log_bytes es)) (content h1) = tail" "length (log_bytes es) \<le> length (content h1)"
    using assms(1) L(1) by simp_all
  have T: "\<exists>h' is. wal_loop ops ack zeroed (length (content h1)) (length (log_bytes es)) [] pst h1 = (h', is, Inr ())
      \<and> content h' = content h1 \<and> frames_of is = []"
    using assms(2) unfolding unfinished_def
  proof (elim disjE exE conjE)
    fix n assume "tail = replicate n 0"
    then show ?thesis using loop_zeros [of "length (log_bytes es)" h1 n ack zeroed pst] at assms L(1)
      by (metis frames_of_simps(1))
  next
    fix t n assume t: "entry_ok t" "n < length (entry_bytes t)" "tail = take n (entry_bytes t)"
    then show ?thesis
      using loop_torn_entry [of "length (log_bytes es)" h1 n "fst t" "snd t" ack "[]"] at assms L(1) by simp
  qed
  then show ?thesis using w L by auto
qed

text \<open>A damaged frame that begins before the acknowledged boundary, of either kind.\<close>

lemma loop_damaged:
  assumes at: "drop offset (content h) = header_bytes magic q @ q' @ rest" "offset \<le> length (content h)"
    and kind: "magic = FRAME_MAGIC \<or> magic = CONTINUATION_MAGIC"
    and small: "length q \<le> MAX_WAL_FRAME_BYTES" "int (length (content h)) \<le> MAX_SAFE_INTEGER"
    and bad: "length q' = length q" "crc32 q' \<noteq> crc32 q" and ack: "int offset < ack"
  shows "\<exists>h'. wal_loop ops ack zeroed (length (content h)) offset ps pst h
    = (h', [], Inl (PlainError ''WAL frame checksum mismatch''))"
proof -
  let ?c = "content h"
  have len: "length ?c = offset + (FRAME_HEADER_BYTES + length q + length rest)"
    using arg_cong [OF at(1), of length] at(2) bad(1) by simp
  obtain h1 where r1: "read_fully ops FRAME_HEADER_BYTES (int offset) h = (h1, Inr (header_bytes magic q))"
    "content h1 = ?c"
    by (rule read_fully_returns [of "int offset" FRAME_HEADER_BYTES h]) (use len small at in auto)
  have d: "drop (offset + FRAME_HEADER_BYTES) ?c = q' @ rest"
    using at(1) by (metis add.commute append_eq_conv_conj drop_drop length_header)
  obtain h2 where r2: "read_fully ops (length q) (int (offset + FRAME_HEADER_BYTES)) h1 = (h2, Inr q')"
    by (rule read_fully_returns [of "int (offset + FRAME_HEADER_BYTES)" "length q" h1])
      (use len small r1 d bad in \<open>auto simp: nat_int_add\<close>)
  have "wal_step ops ack zeroed (length ?c) offset ps pst h = (h2, Stop (Inl (PlainError ''WAL frame checksum mismatch'')))"
    unfolding wal_step_def r1(1) prod.case sum.case Let_def header_fields [OF small(1)]
    using kind len small bad ack r2
    by (simp add: is_safe_integer_def MAX_SAFE_INTEGER_def)
  then show ?thesis using len by (intro exI [of _ h2]) (subst wal_loop.simps, simp)
qed

lemma replay_damaged:
  assumes "content h = log_bytes es @ continuations ps @ header_bytes magic q @ q' @ rest"
    and "\<forall>e \<in> set es. entry_ok e" "entry_ok (ps, q)"
    and kind: "magic = FRAME_MAGIC \<or> magic = CONTINUATION_MAGIC"
    and "length q' = length q" "crc32 q' \<noteq> crc32 q"
    and "int (length (log_bytes es) + length (continuations ps)) < ack" "ack \<le> int (length (content h))"
    and "int (length (content h)) \<le> MAX_SAFE_INTEGER"
  shows "\<exists>h' items. wal_payloads ops ack zeroed h = (h', items, Inl (PlainError ''WAL frame checksum mismatch''))
    \<and> frames_of items = log_frames 0 es"
proof -
  let ?N = "length (content h)" and ?tail = "header_bytes magic q @ q' @ rest"
  have w: "wal_payloads ops ack zeroed h = wal_loop ops ack zeroed ?N 0 [] 0 h"
    by (rule wal_payloads_start) (use assms(7-9) in simp_all)
  obtain h1 pst items where L: "content h1 = content h" "frames_of items = log_frames 0 es"
    "wal_loop ops ack zeroed ?N 0 [] 0 h = emits items (wal_loop ops ack zeroed ?N (length (log_bytes es)) [] pst h1)"
    using loop_log [of 0 h es "continuations ps @ ?tail" ack zeroed 0] assms(1,2,9) by auto
  have at: "drop (length (log_bytes es)) (content h1) = continuations ps @ ?tail" "length (log_bytes es) \<le> length (content h1)"
    using assms(1) L(1) by simp_all
  let ?off = "length (log_bytes es) + length (continuations ps)"
  obtain h2 pst2 where C: "content h2 = content h1" "wal_loop ops ack zeroed ?N (length (log_bytes es)) [] pst h1
     = emits (replicate (length ps) None) (wal_loop ops ack zeroed ?N ?off ps pst2 h2)"
    using loop_continuations [OF at, of ack zeroed "[]" pst] assms(3,9) L(1) by (auto simp: entry_ok_def)
  have at2: "drop ?off (content h2) = ?tail" "?off \<le> length (content h2)"
    using drop_past [OF at] C(1) by simp_all
  have off: "int ?off < ack" using assms(7) by simp
  obtain h3 where "wal_loop ops ack zeroed ?N ?off ps pst2 h2 = (h3, [], Inl (PlainError ''WAL frame checksum mismatch''))"
    using loop_damaged [OF at2 kind, of ack zeroed ps pst2] assms(3,5,6,9) off C(1) L(1) by (auto simp: entry_ok_def)
  then show ?thesis using w L C by (intro exI [of _ h3] exI [of _ "items @ replicate (length ps) None"]) simp
qed

end

subsection \<open>Properties of the log\<close>

text \<open>
  Property C8: replay of a log whose acknowledged part is whole yields exactly the appended payloads,
  in order, each with the end of its completing frame, however short the reads are. What a crash may
  leave behind it, a torn append (any proper prefix of its frames, continuation frames included) or a
  zero-filled tail, is ignored.
\<close>

theorem wal_replay_recovers:
  assumes "disk_bytes d = log_bytes es @ tail" "unfinished tail" "\<forall>e \<in> set es. entry_ok e"
    "0 \<le> ack" "ack \<le> int (length (log_bytes es))" "int (length (disk_bytes d)) \<le> MAX_SAFE_INTEGER"
  shows "\<exists>d' items. wal_payloads disk_ops ack zeroed d = (d', items, Inr ()) \<and> frames_of items = log_frames 0 es
    \<and> disk_bytes d' = disk_bytes d"
  by (rule disk.replay_log [OF assms])

lemma demo_entry_ok: "entry_ok ([], [1, 2])" "entry_ok ([[3], [4]], [5])"
  by (simp_all add: entry_ok_def MAX_WAL_FRAME_BYTES_def)

lemma length_entry: "length (entry_bytes (ps, q)) = 12 * length ps + length (concat ps) + 12 + length q"
  by (induction ps) (simp_all add: entry_bytes_def continuations_def FRAME_HEADER_BYTES_def)

lemma wal_replay_recovers_witness:
  "\<exists>d' items. wal_payloads disk_ops 14 False
      \<lparr>disk_bytes = log_bytes [([], [1, 2])] @ take 20 (entry_bytes ([[3], [4]], [5])), grants = [Transfer 3]\<rparr>
      = (d', items, Inr ()) \<and> frames_of items = [([1, 2], 14)]"
proof -
  have "unfinished (take 20 (entry_bytes ([[3], [4]], [5])))"
    unfolding unfinished_def using demo_entry_ok(2)
    by (intro disjI2 exI [of _ "([[3], [4]], [5])"] exI [of _ 20]) (simp add: length_entry)
  from wal_replay_recovers [OF _ this, of "\<lparr>disk_bytes = log_bytes [([], [1, 2])]
        @ take 20 (entry_bytes ([[3], [4]], [5])), grants = [Transfer 3]\<rparr>" "[([], [1, 2])]" 14 False]
  show ?thesis using demo_entry_ok(1)
    by (auto simp: log_bytes_def length_entry entry_payload_def MAX_SAFE_INTEGER_def)
qed

text \<open>
  Property C1: an append is all or nothing for a later replay, whatever the handle does: short
  transfers, a write or a flush that fails half way, a refused truncation, and whatever pause between the pieces rejects. From a writer at the end
  of a log of \<open>es\<close>, \<open>appendEncodedSliced\<close> leaves a file that replays to \<open>es\<close> or to \<open>es\<close> and the
  new payload; and to the latter when it returns.
\<close>

theorem wal_append_all_or_nothing:
  assumes "disk_bytes (wal_handle w) = log_bytes es" "\<forall>e \<in> set es. entry_ok e" "wal_offset w = int (length (log_bytes es))"
    "append_encoded_sliced disk_ops bytes flush pause w = (w', r)"
    "int (length (disk_bytes (wal_handle w'))) \<le> MAX_SAFE_INTEGER"
    "0 \<le> ack" "ack \<le> int (length (log_bytes es))"
  shows "\<exists>d' items appended. wal_payloads disk_ops ack zeroed (wal_handle w') = (d', items, Inr ())
    \<and> frames_of items = log_frames 0 (if appended then es @ [wal_entry bytes] else es)
    \<and> entry_payload (wal_entry bytes) = bytes \<and> (r = Inr () \<longrightarrow> appended)"
proof -
  let ?e = "wal_entry bytes"
  have "disk.at_end w" using assms(1,3) by (simp add: disk.at_end_def)
  from disk.append_sliced_content [OF assms(4) this]
  obtain n where n: "disk_bytes (wal_handle w') = log_bytes es @ take n (entry_bytes ?e)"
    "r = Inr () \<longrightarrow> length (entry_bytes ?e) \<le> n"
    using assms(1) by (metis order_refl take_all sum.distinct(1))
  show ?thesis
  proof (cases "n < length (entry_bytes ?e)")
    case True
    then have "unfinished (take n (entry_bytes ?e))" using wal_entry_ok unfinished_def by blast
    from disk.replay_log [OF n(1) this assms(2,6,7,5), of zeroed] obtain d' items where
      "wal_payloads disk_ops ack zeroed (wal_handle w') = (d', items, Inr ())" "frames_of items = log_frames 0 es" by blast
    then show ?thesis using n(2) True
      by (intro exI [of _ d'] exI [of _ items] exI [of _ False]) (auto simp: wal_entry_payload)
  next
    case False
    have c: "disk_bytes (wal_handle w') = log_bytes (es @ [?e]) @ []" using n(1) False by (simp add: log_bytes_def)
    have "unfinished []" unfolding unfinished_def by (intro disjI1 exI [of _ 0]) simp
    moreover have "\<forall>e \<in> set (es @ [?e]). entry_ok e" using assms(2) wal_entry_ok by simp
    moreover have "ack \<le> int (length (log_bytes (es @ [?e])))" using assms(7) by (simp add: log_bytes_def)
    ultimately obtain d' items where "wal_payloads disk_ops ack zeroed (wal_handle w') = (d', items, Inr ())"
      "frames_of items = log_frames 0 (es @ [?e])"
      using disk.replay_log [OF c _ _ assms(6) _ assms(5), of zeroed] by blast
    then show ?thesis by (intro exI [of _ d'] exI [of _ items] exI [of _ True]) (simp add: wal_entry_payload)
  qed
qed

lemma wal_append_all_or_nothing_witness:
  "\<exists>d' items appended. wal_payloads disk_ops 0 False
      (wal_handle (fst (append_encoded_sliced disk_ops [9] True (\<lambda>at. None)
        \<lparr>wal_handle = \<lparr>disk_bytes = [], grants = [Transfer 5, Fail 2, Fail 0]\<rparr>, wal_offset = 0\<rparr>))) = (d', items, Inr ())
    \<and> frames_of items = log_frames 0 (if appended then [wal_entry [9]] else [])"
proof -
  let ?w = "\<lparr>wal_handle = \<lparr>disk_bytes = [], grants = [Transfer 5, Fail 2, Fail 0]\<rparr>, wal_offset = 0\<rparr>"
  obtain w' r where a: "append_encoded_sliced disk_ops [9] True (\<lambda>at. None) ?w = (w', r)"
    by (cases "append_encoded_sliced disk_ops [9] True (\<lambda>at. None) ?w")
  have "disk.at_end ?w" by (simp add: disk.at_end_def)
  from disk.append_sliced_content [OF a this]
  have "\<exists>n. disk_bytes (wal_handle w') = take n (entry_bytes (wal_entry [9]))" by (auto intro: exI [of _ "length (entry_bytes (wal_entry [9]))"])
  moreover have "wal_entry [9] = ([], [9])"
    by (simp add: wal_entry_def WAL_CONTINUATION_PIECE_BYTES_def cut_pieces.simps)
  ultimately have "int (length (disk_bytes (wal_handle w'))) \<le> MAX_SAFE_INTEGER"
    by (auto simp: length_entry MAX_SAFE_INTEGER_def)
  then show ?thesis
    using wal_append_all_or_nothing [OF _ _ _ a, of "[]" 0 False] by (auto simp: log_bytes_def a)
qed

text \<open>
  Property C24: acknowledged bytes fail closed. The log holds whole entries \<open>es\<close>, then the continuation frames \<open>ps\<close> of the entry
  under way, then a frame that begins before the acknowledged boundary, either a continuation frame of that entry or the frame that
  completes it, whose payload has changed inside a window of up to four bytes; anything may follow. Replay reports a
  checksum mismatch after the intact payloads before it; it never yields altered bytes, nor drops the frame as a torn tail.
\<close>

theorem wal_damage_fails_closed:
  assumes "disk_bytes d = log_bytes es @ continuations ps @ header_bytes magic (us @ v @ zs) @ (us @ v' @ zs) @ rest"
    and "\<forall>e \<in> set es. entry_ok e" "entry_ok (ps, us @ v @ zs)"
    and "magic = FRAME_MAGIC \<or> magic = CONTINUATION_MAGIC"
    and "length v \<le> 4" "length v' = length v" "v' \<noteq> v"
    and "int (length (log_bytes es) + length (continuations ps)) < ack" "ack \<le> int (length (disk_bytes d))"
    and "int (length (disk_bytes d)) \<le> MAX_SAFE_INTEGER"
  shows "\<exists>d' items. wal_payloads disk_ops ack zeroed d = (d', items, Inl (PlainError ''WAL frame checksum mismatch''))
    \<and> frames_of items = log_frames 0 es"
proof -
  have "crc32 (us @ v' @ zs) \<noteq> crc32 (us @ v @ zs)"
    using burst_detected [of v v' us zs] assms(5-7) by auto
  then show ?thesis
    using disk.replay_damaged [OF assms(1-4) _ _ assms(8-10)] assms(6) by simp
qed

text \<open>A log of two entries: the second has a continuation frame, and that frame is the one that is damaged.\<close>

lemma wal_damage_fails_closed_witness:
  "\<exists>d' items. wal_payloads disk_ops 44 True
      \<lparr>disk_bytes = entry_bytes ([], [1, 2]) @ header_bytes CONTINUATION_MAGIC [1, 2, 3] @ [1, 7, 3] @ frame_bytes FRAME_MAGIC [4, 5, 6], grants = []\<rparr>
      = (d', items, Inl (PlainError ''WAL frame checksum mismatch'')) \<and> frames_of items = [([1, 2], 14)]"
  using wal_damage_fails_closed [of "\<lparr>disk_bytes = entry_bytes ([], [1, 2]) @ header_bytes CONTINUATION_MAGIC [1, 2, 3] @ [1, 7, 3]
        @ frame_bytes FRAME_MAGIC [4, 5, 6], grants = []\<rparr>"
      "[([], [1, 2])]" "[]" CONTINUATION_MAGIC "[1]" "[2]" "[3]" "[7]" "frame_bytes FRAME_MAGIC [4, 5, 6]" 44 True] demo_entry_ok(1)
  by (simp add: log_bytes_def continuations_def entry_ok_def length_entry entry_payload_def MAX_SAFE_INTEGER_def
      MAX_WAL_FRAME_BYTES_def FRAME_HEADER_BYTES_def)

end
