(* ===== verification/Spec2Isabelle.thy ===== *)
theory Spec2Isabelle
  imports Prelude ArtifactCache Bitmap Block BlockCodec ByteFields ByteIO Column Crc32 DateValue Double Float64 FreeSpace JsMap LikeCompile LikeGeneral LikeLiteral LikePattern Limbs LimbsDiv LimbsExact LimbsMul LogFrame LogHeader LogIncremental LogScan LsdSort Packed PackedTag PatternCache Physical PhysicalRanges Reclaim Reservation RootSlot ScopeEffect ScopeReads ScopeRefines ScopeReplay ScopeRuns ScopeSpec ScopeStatements ScopeWrites SyncFile Unicode WalAck WalLog XxHash Xxh32Spec
begin

text \<open>
  A verification library for Minnow, the SQL database for the browser in \<open>src/packages/core\<close>. Paths below are relative to
  \<open>src/packages/core/src\<close>; a definition carries the name of the TypeScript function it translates, in snake case.

  The parts and how they work together. Values of a column are checked and laid out as bytes (\<open>block-format/column.ts\<close>,
  \<open>physical.ts\<close>, \<open>unicode.ts\<close>), wrapped in a checksummed envelope (\<open>block.ts\<close>, \<open>checksum.ts\<close>), compressed (\<open>codecs.ts\<close>) and many
  small blocks packed in one payload (\<open>packed.ts\<close>). The first engine's file store puts commits through a write-ahead log with two
  acknowledgement slots (\<open>storage/toolkit\<close>). The second engine keeps long-lived files: space is handed out first fit
  (\<open>free-space.ts\<close>), grown by builders (\<open>reservation.ts\<close>), retired behind readers' pins (\<open>reclaim.ts\<close>), and a new root is published
  through two slots (\<open>root-slot.ts\<close>) hashed by \<open>xxhash32.ts\<close>; manifests are written and read by \<open>next/format/bytes.ts\<close>. The
  engine's caches charge an LRU cache (\<open>artifact-cache.ts\<close>).

  Theories, the code they model, and what their lemmas show.
  \<^item> Prelude: results (a thrown error is \<open>Inl\<close>), effects that may throw after changing the state, loops that may throw with their
    invariant rules, safe integers, typed-array reads and writes, little-endian integers. Shared by all.
  \<^item> Crc32 (\<open>block-format/checksum.ts\<close>): table-driven slicing by eight equals the bit-at-a-time CRC, by linearity of the
    register; a burst of at most four bytes always changes the checksum.
  \<^item> Unicode, Float64, Bitmap: UTF-16 strings and the two UTF-8 checks against the standard's encoder and decoder; IEEE doubles
    as exact scaled integers; validity and boolean bitmaps.
  \<^item> Block, Physical, PhysicalRanges, Column, BlockCodec (\<open>block.ts\<close>, \<open>physical.ts\<close>, \<open>column.ts\<close>, \<open>codecs.ts\<close>): the envelope
    round-trips and refuses damage; the validator accepts exactly the canonical bytes of storable cells; building a column from row
    ranges gives the canonical column of the concatenated rows; decoding gives back the encoded values; a whole block, raw or
    compressed, round-trips and is bounded.
  \<^item> PackedTag, Packed (\<open>packed.ts\<close>): the three ways to compute a member tag agree; a packed block verifies and gives back each
    member; the prefix-sharing search for a missing member is the plain one; damage is refused.
  \<^item> FreeSpace, Reservation, Reclaim (\<open>next/storage\<close>): the locale \<open>space\<close> states what a free-space map promises (allocation is first
    fit, freeing is exact, the invariant is kept) and is interpreted on the map of \<open>free-space.ts\<close>; the reservation's lemmas rest on
    it. The ledger of retired items is run over every sequence of operations, beside a count of the client's own pins and retirements
    that takes nothing from the ledger; what is handed back is safe by that count.
  \<^item> SyncFile, WalLog, WalAck (\<open>storage/toolkit\<close>): the locale \<open>sync_file\<close> is the synchronous handle, which may grant fewer bytes than
    asked or throw; its extension \<open>readable_file\<close> adds reads. The log's lemmas are proved over any such handle and interpreted on a
    disk. Replay recovers the appended payloads, an append is all or nothing, damage of an acknowledged frame of either kind fails
    closed, and the acknowledgement slots reopen at the last publish.
  \<^item> Xxh32Spec, XxHash, RootSlot (\<open>next/hash/xxhash32.ts\<close>, \<open>next/storage/root-slot.ts\<close>): Xxh32Spec states XXH32 as its published
    specification does, on integers and apart from the code, and evaluates the published vectors; the one-shot hash computes it, and
    the streaming hash is the one-shot hash; publishes as an inductive step relation with torn writes, and the invariant that the store opens at the
    last completed root.
  \<^item> ByteIO, ByteFields (\<open>next/format/bytes.ts\<close>): the growing writer and the checked reader; any sequence of fields round-trips,
    the format is canonical (but for the patterns of NaN, which read as one Number), and reading foreign bytes fails closed.
  \<^item> ArtifactCache (\<open>engine/artifact-cache.ts\<close>): the recency list threaded through the entries is an explicit store of
    addresses; every sequence of operations refines a list of items in order of use, and stays within its limit.
  \<^item> DateValue (\<open>date-value.ts\<close>): day counts and civil dates are inverse and follow the Gregorian calendar.
  \<^item> LogFrame, LogHeader, LogScan, LogIncremental (\<open>next/format/log-frame.ts\<close>): the second engine's log. A written log is recovered
    exactly up to its last complete transaction, behind any torn or stale tail; a scan that succeeds contains the acknowledged
    boundary; the incremental scan equals the scan in memory and, whichever of its reader, sink and memory charge throws, leaves nothing behind.
  \<^item> Double: JavaScript arithmetic on finite numbers as correctly rounded rationals, with the rounding error of one operation.
  \<^item> Limbs, LimbsMul, LimbsDiv, LimbsExact (\<open>next/exec/kernels/limbs.ts\<close>): 128-bit integers as limbs in an explicit store of arrays
    that results, operands and the scratch array may share. The locale \<open>carry_chain\<close> is the loop every operation repeats and is
    interpreted for negation, addition and scaling. Addition, multiplication and scaling are exact or refused; division, estimated in
    doubles and corrected, is exact, and diverges on the least value.

  \<^item> LsdSort (\<open>next/exec/sort-lsd.ts\<close>): the radix sort of row ids by 16 bit digits is the stable sort by the columns.
  \<^item> LikePattern, LikeGeneral, LikeLiteral, JsMap, PatternCache, LikeCompile (\<open>engine/sql-semantics.ts\<close>): SQL LIKE. The tokens of a
    pattern have its language; the backtracking matcher and the linear search for literals both decide it, the first within its
    work budget; the cache of compiled patterns only ever returns what its key compiles to, within its limits.
  \<^item> ScopeEffect, ScopeWrites, ScopeReplay, ScopeRefines, ScopeRuns, ScopeStatements, ScopeSpec, ScopeReads (\<open>engine/scope-write-set.ts\<close>,
    the write sets of \<open>engine/database.ts\<close>): the statements of a scope are buffered per key and become segments. ScopeWrites is the
    code; ScopeReplay says what segments and effects do to a table; the others prove, operation by operation, that the scope's view
    of the tables is what its statements say, that the segments of the commit make exactly that, and that keyed reads see it.

  Parameters and hypotheses. Code outside the repository is an argument: the compression streams of the platform (any functions
  that invert each other), the platform's byte order, the file handle, \<open>toUpperCase\<close>, the text of a number, the bit pattern in which
  the engine stores NaN. The JSON text of a block's metadata is an argument together with the parse that \<open>block.ts\<close> makes of it: any
  codec under whose parse a zone map comes back, with the stated bounds. For a scope, what staging does to the store and the read
  of the committed snapshot are arguments too: the first may fail at any time, the second has its contract as a hypothesis. Each
  property that has such a hypothesis has a witness with a concrete instance. JavaScript numbers used as counts and offsets are
  integers with the code's own tests for safe integers; numbers that are data are bit patterns.

  Termination and fuel. Loops are structural recursions or functions with a measure; no fuel is used. One routine that may not return
  (\<open>to_double\<close>) is a partial function to option. The transfer loops of
  SyncFile are over the handle's finite script of grants. The doubling loop of the byte writer needs a buffer that is not
  empty, which its constructor gives.

  Not modelled: see the components listed with status not modelled. The SQL front end, the vectorised executors, the asynchronous
  stores and their protocols are orchestration over promises, locks and browser databases, where a model of the steps would
  be larger than the code and rest on hypotheses about the platform. The write sets of a scope are the part of the database
  facade whose logic is closed. The manifests and pages of the second format are codecs of many records over the modelled byte
  reader and writer.
\<close>

end
